(* ===== verification/Prelude.thy ===== *)
theory Prelude
  imports Main "HOL-Library.Word" "HOL-Library.Multiset"
begin

text \<open>
  Shared vocabulary of the Lotto development.

  \<^item> The machine types of the sources (\<^verbatim>\<open>task_id\<close>, \<^verbatim>\<open>clk_t\<close>) and the two reserved task
    identifiers of \<^verbatim>\<open>include/lotto/base/task_id.h\<close>.
  \<^item> The result type of every operation that can stop the program: a failed \<^verbatim>\<open>ASSERT\<close> or
    \<^verbatim>\<open>ENSURE\<close>, a call of \<^verbatim>\<open>logger_fatalf\<close>, or an access outside an allocated buffer.
  \<^item> Checked reads and writes of a buffer, and the list facts about swap-with-last removal that
    the array based containers share.
\<close>

section \<open>Identifiers and clocks\<close>

type_synonym task_id = "64 word"

text \<open>
  \<^verbatim>\<open>clk_t\<close> is a 64 bit counter that starts at 0 and is incremented once per captured event.
  Wrap-around needs two to the power of 64 events in one run, so the model counts in \<^typ>\<open>nat\<close>.
\<close>

type_synonym clk = nat

definition NO_TASK :: task_id where
  "NO_TASK = 0"

definition ANY_TASK :: task_id where
  "ANY_TASK = -1"

lemma NO_TASK_neq_ANY_TASK [simp]: "NO_TASK \<noteq> ANY_TASK" "ANY_TASK \<noteq> NO_TASK"
  by (simp_all add: NO_TASK_def ANY_TASK_def)

lemma unat_of_nat64: "n < 2 ^ 64 \<Longrightarrow> unat (of_nat n :: 64 word) = n"
  by (simp add: unat_of_nat)

section \<open>Results\<close>

datatype error =
    AssertFailed  \<comment> \<open>a failed \<^verbatim>\<open>ASSERT\<close> or \<^verbatim>\<open>ENSURE\<close>: \<^verbatim>\<open>sys_assert_fail\<close>\<close>
  | Fatal         \<comment> \<open>\<^verbatim>\<open>logger_fatalf\<close>\<close>
  | Fault         \<comment> \<open>a null pointer or an access outside an allocated buffer\<close>

type_synonym 'a result = "error + 'a"

definition bindr :: "'a result \<Rightarrow> ('a \<Rightarrow> 'b result) \<Rightarrow> 'b result" where
  "bindr m k = (case m of Inl e \<Rightarrow> Inl e | Inr x \<Rightarrow> k x)"

definition assertr :: "bool \<Rightarrow> 'a result \<Rightarrow> 'a result" where
  "assertr b k = (if b then k else Inl AssertFailed)"

lemma bindr_simps [simp]:
  "bindr (Inl e) k = Inl e"
  "bindr (Inr x) k = k x"
  by (simp_all add: bindr_def)

lemma bindr_eq_Inr: "bindr m k = Inr y \<longleftrightarrow> (\<exists>x. m = Inr x \<and> k x = Inr y)"
  by (cases m) auto

lemma bindr_eq_Inl: "bindr m k = Inl e \<longleftrightarrow> m = Inl e \<or> (\<exists>x. m = Inr x \<and> k x = Inl e)"
  by (cases m) auto

lemma bindrE:
  assumes "bindr m k = Inr y"
  obtains x where "m = Inr x" and "k x = Inr y"
  using assms by (auto simp: bindr_eq_Inr)

lemma bindr_assoc: "bindr (bindr m k) l = bindr m (\<lambda>x. bindr (k x) l)"
  by (cases m) simp_all

lemma bindr_cong [fundef_cong]:
  "m = m' \<Longrightarrow> (\<And>x. m' = Inr x \<Longrightarrow> k x = k' x) \<Longrightarrow> bindr m k = bindr m' k'"
  by (cases m') auto

lemma assertr_True [simp]: "assertr True k = k"
  by (simp add: assertr_def)

lemma assertr_False [simp]: "assertr False k = Inl AssertFailed"
  by (simp add: assertr_def)

lemma assertr_eq_Inr: "assertr b k = Inr y \<longleftrightarrow> b \<and> k = Inr y"
  by (simp add: assertr_def)

lemma assertr_cong [fundef_cong]:
  "b = b' \<Longrightarrow> (b' \<Longrightarrow> k = k') \<Longrightarrow> assertr b k = assertr b' k'"
  by (simp add: assertr_def)

text \<open>Reading a successful result off an evaluated case distinction.\<close>

lemma case_Some_InrE:
  assumes "case r of Some (Inr (x, y)) \<Rightarrow> P x y | _ \<Rightarrow> False"
  obtains x y where "r = Some (Inr (x, y))" and "P x y"
  using assms by (cases r; cases "the r") auto

lemma case_InrE:
  assumes "case r of Inr (x, y) \<Rightarrow> P x y | _ \<Rightarrow> False"
  obtains x y where "r = Inr (x, y)" and "P x y"
  using assms by (cases r) auto

text \<open>The facts every component uses to run a successful computation backwards.\<close>

lemmas result_elims = bindr_eq_Inr assertr_eq_Inr

section \<open>Buffers\<close>

text \<open>
  A pointer to an allocated array is \<^term>\<open>Some b\<close> with \<^term>\<open>b\<close> the cells of the allocation; the
  null pointer is \<^term>\<open>None\<close>. The contents of fresh \<^verbatim>\<open>malloc\<close> memory are indeterminate in C; the
  model fills it with \<^const>\<open>NO_TASK\<close>. The containers never observe such a cell: their
  specifications below depend on the initialised prefix only.
\<close>

definition malloc_cells :: "nat \<Rightarrow> task_id list" where
  "malloc_cells n = replicate n NO_TASK"

definition rd :: "'a list option \<Rightarrow> nat \<Rightarrow> 'a result" where
  "rd p i = (case p of None \<Rightarrow> Inl Fault | Some b \<Rightarrow> if i < length b then Inr (b ! i) else Inl Fault)"

definition wr :: "'a list option \<Rightarrow> nat \<Rightarrow> 'a \<Rightarrow> 'a list option result" where
  "wr p i x = (case p of None \<Rightarrow> Inl Fault
     | Some b \<Rightarrow> if i < length b then Inr (Some (b[i := x])) else Inl Fault)"

text \<open>\<^verbatim>\<open>sys_memcpy(dst, src, n * sizeof(cell))\<close>: a null pointer is tolerated for a length of 0.\<close>

definition memcpy :: "'a list option \<Rightarrow> 'a list option \<Rightarrow> nat \<Rightarrow> 'a list option result" where
  "memcpy dst src n = (if n = 0 then Inr dst else
     (case (dst, src) of
        (Some d, Some s) \<Rightarrow>
          if n \<le> length d \<and> n \<le> length s then Inr (Some (take n s @ drop n d)) else Inl Fault
      | _ \<Rightarrow> Inl Fault))"

lemma length_malloc_cells [simp]: "length (malloc_cells n) = n"
  by (simp add: malloc_cells_def)

lemma rd_Some [simp]: "i < length b \<Longrightarrow> rd (Some b) i = Inr (b ! i)"
  by (simp add: rd_def)

lemma wr_Some [simp]: "i < length b \<Longrightarrow> wr (Some b) i x = Inr (Some (b[i := x]))"
  by (simp add: wr_def)

lemma memcpy_zero [simp]: "memcpy d s 0 = Inr d"
  by (simp add: memcpy_def)

lemma memcpy_Some:
  "n \<le> length d \<Longrightarrow> n \<le> length s \<Longrightarrow> memcpy (Some d) (Some s) n = Inr (Some (take n s @ drop n d))"
  by (simp add: memcpy_def)

section \<open>Lists\<close>

text \<open>
  \<open>swap_out xs i\<close> is what \<^verbatim>\<open>tasks[i] = tasks[--size]\<close> does to the initialised prefix: the last
  element takes the place of element \<open>i\<close> and the prefix loses its last element.
\<close>

definition swap_out :: "'a list \<Rightarrow> nat \<Rightarrow> 'a list" where
  "swap_out xs i = butlast (xs[i := last xs])"

lemma length_swap_out [simp]: "length (swap_out xs i) = length xs - 1"
  by (simp add: swap_out_def)

lemma take_list_update_swap:
  assumes "i < n" and "n \<le> length b"
  shows "take (n - 1) (b[i := b ! (n - 1)]) = swap_out (take n b) i"
proof (rule nth_equalityI)
  show "length (take (n - 1) (b[i := b ! (n - 1)])) = length (swap_out (take n b) i)"
    using assms by auto
next
  fix j assume "j < length (take (n - 1) (b[i := b ! (n - 1)]))"
  then have j: "j < n - 1" and "j < length b" by auto
  have "last (take n b) = b ! (n - 1)"
    using assms by (subst last_conv_nth) (auto simp: min_def)
  with j assms show "take (n - 1) (b[i := b ! (n - 1)]) ! j = swap_out (take n b) i ! j"
    by (auto simp: swap_out_def nth_butlast nth_list_update min_def)
qed

lemma mset_swap_out: "i < length xs \<Longrightarrow> mset (swap_out xs i) = mset xs - {#xs ! i#}"
proof (cases xs rule: rev_cases)
  case (snoc ys y)
  assume i: "i < length xs"
  show ?thesis
  proof (cases "i < length ys")
    case True
    then show ?thesis
      by (simp add: snoc swap_out_def list_update_append nth_append mset_update)
  next
    case False
    with i snoc have "i = length ys" by simp
    then show ?thesis by (simp add: snoc swap_out_def list_update_append)
  qed
qed simp

lemma nth_swap_out_less: "j < i \<Longrightarrow> i < length xs \<Longrightarrow> swap_out xs i ! j = xs ! j"
  by (simp add: swap_out_def nth_butlast nth_list_update)

lemma set_swap_out:
  assumes "distinct xs" and "i < length xs"
  shows "set (swap_out xs i) = set xs - {xs ! i}"
proof -
  have "set (swap_out xs i) = set_mset (mset xs - {#xs ! i#})"
    using assms(2) by (simp add: mset_swap_out [symmetric])
  also have "\<dots> = set xs - {xs ! i}"
    using assms by (auto simp: in_diff_count distinct_count_atmost_1 split: if_splits)
  finally show ?thesis .
qed

lemma distinct_swap_out:
  assumes "distinct xs" and "i < length xs"
  shows "distinct (swap_out xs i)"
proof -
  have "\<forall>x. count (mset (swap_out xs i)) x \<le> 1"
    using assms by (auto simp: mset_swap_out distinct_count_atmost_1)
  then show ?thesis
    by (metis count_greater_eq_one_iff distinct_count_atmost_1 le_antisym not_in_iff set_mset_mset)
qed

end
