(* ===== verification/Keymap.thy ===== *)
theory Keymap
  imports Prelude
begin

text \<open>
  The key map of \<^verbatim>\<open>src/base/map.c\<close> and its task-id view \<^verbatim>\<open>src/base/tidmap.c\<close>.

  A \<^verbatim>\<open>map_t\<close> is a singly linked chain of heap allocated items reached from \<^verbatim>\<open>tail\<close>. The model keeps
  the chain as the list of its items in the order in which \<^verbatim>\<open>next\<close> visits them; an item is its key
  and its payload, and a pointer to an item is its key (keys are unique, which is the invariant
  \<open>map_inv\<close>). Writing through a returned item pointer is \<open>map_write\<close>.

  The locale \<open>key_map\<close> is the contract the lock modules rely on; it is interpreted on the model of
  \<^verbatim>\<open>map.c\<close> at the end.
\<close>

section \<open>Data\<close>

record 'v map_t =
  map_chain :: "(64 word \<times> 'v) list"   \<comment> \<open>\<^verbatim>\<open>tail\<close> and the \<^verbatim>\<open>next\<close> pointers\<close>
  map_nitems :: nat

section \<open>Operations of map.c\<close>

definition map_init :: "'v map_t" where
  "map_init = \<lparr>map_chain = [], map_nitems = 0\<rparr>"

fun chain_find :: "(64 word \<times> 'v) list \<Rightarrow> 64 word \<Rightarrow> (64 word \<times> 'v) option" where
  "chain_find [] key = None"
| "chain_find (it # its) key = (if fst it = key then Some it else chain_find its key)"

definition map_find :: "'v map_t \<Rightarrow> 64 word \<Rightarrow> 'v option" where
  "map_find m key = map_option snd (chain_find (map_chain m) key)"

fun chain_find_first :: "(64 word \<times> 'v \<Rightarrow> bool) \<Rightarrow> (64 word \<times> 'v) list \<Rightarrow> (64 word \<times> 'v) option" where
  "chain_find_first P [] = None"
| "chain_find_first P (it # its) = (if P it then Some it else chain_find_first P its)"

definition map_find_first :: "'v map_t \<Rightarrow> (64 word \<times> 'v \<Rightarrow> bool) \<Rightarrow> (64 word \<times> 'v) option" where
  "map_find_first m P = chain_find_first P (map_chain m)"

text \<open>\<open>z\<close> is the payload of a fresh item: \<^verbatim>\<open>sys_calloc\<close> returns zeroed memory.\<close>

definition map_register :: "'v \<Rightarrow> 'v map_t \<Rightarrow> 64 word \<Rightarrow> 'v map_t result" where
  "map_register z m key =
     assertr (map_find m key = None)
       (Inr (m\<lparr>map_chain := (key, z) # map_chain m, map_nitems := map_nitems m + 1\<rparr>))"

text \<open>
  Unlinking an item: the tail pointer is moved past it, or the predecessor found by the inner loop
  is linked to its successor.
\<close>

fun chain_unlink :: "(64 word \<times> 'v) list \<Rightarrow> 64 word \<Rightarrow> (64 word \<times> 'v) list" where
  "chain_unlink [] key = []"
| "chain_unlink (it # its) key = (if fst it = key then its else it # chain_unlink its key)"

definition map_deregister :: "'v map_t \<Rightarrow> 64 word \<Rightarrow> 'v map_t" where
  "map_deregister m key =
     (case map_find m key of
        None \<Rightarrow> m
      | Some _ \<Rightarrow> m\<lparr>map_chain := chain_unlink (map_chain m) key, map_nitems := map_nitems m - 1\<rparr>)"

definition map_size :: "'v map_t \<Rightarrow> nat" where
  "map_size m = map_nitems m"

text \<open>The items in the order in which \<^verbatim>\<open>map_iterate\<close> and \<^verbatim>\<open>map_next\<close> visit them.\<close>

definition map_iterate :: "'v map_t \<Rightarrow> (64 word \<times> 'v) list" where
  "map_iterate m = map_chain m"

fun chain_free :: "(64 word \<times> 'v) list \<Rightarrow> (64 word \<times> 'v) list" where
  "chain_free [] = []"
| "chain_free (it # its) = chain_free its"

definition map_clear :: "'v map_t \<Rightarrow> 'v map_t" where
  "map_clear m = m\<lparr>map_chain := chain_free (map_chain m), map_nitems := 0\<rparr>"

text \<open>A write of the payload through an item pointer.\<close>

fun chain_write :: "(64 word \<times> 'v) list \<Rightarrow> 64 word \<Rightarrow> 'v \<Rightarrow> (64 word \<times> 'v) list" where
  "chain_write [] key v = []"
| "chain_write (it # its) key v = (if fst it = key then (key, v) # its else it # chain_write its key v)"

definition map_write :: "'v map_t \<Rightarrow> 64 word \<Rightarrow> 'v \<Rightarrow> 'v map_t" where
  "map_write m key v = m\<lparr>map_chain := chain_write (map_chain m) key v\<rparr>"

text \<open>
  \<open>init = None\<close> is the null function pointer. The initialiser runs on the returned item whether it
  was found or freshly registered.
\<close>

definition map_find_or_register ::
  "'v \<Rightarrow> 'v map_t \<Rightarrow> 64 word \<Rightarrow> ('v \<Rightarrow> 'v) option \<Rightarrow> ('v \<times> 'v map_t) result" where
  "map_find_or_register z m key init =
     bindr (case map_find m key of None \<Rightarrow> map_register z m key | Some _ \<Rightarrow> Inr m)
       (\<lambda>m. case map_find m key of
          None \<Rightarrow> Inl Fault
        | Some v \<Rightarrow> (case init of
            None \<Rightarrow> Inr (v, m)
          | Some f \<Rightarrow> Inr (f v, map_write m key (f v))))"

section \<open>Marshalling of map.c\<close>

text \<open>
  One cell per structure that \<^verbatim>\<open>sys_memcpy\<close> copies: the \<^verbatim>\<open>map_t\<close> header, of which
  \<^verbatim>\<open>_unmarshal\<close> uses \<^verbatim>\<open>nitems\<close>, and one image per item. Items are static marshables, so the
  image is the item itself.
\<close>

datatype 'v map_cell = MapHeader nat | MapItem "64 word" 'v

definition map_marshal :: "'v map_t \<Rightarrow> 'v map_cell list" where
  "map_marshal m = MapHeader (map_nitems m) # map (\<lambda>(k, v). MapItem k v) (map_chain m)"

fun map_unmarshal_items :: "'v \<Rightarrow> 'v map_t \<Rightarrow> nat \<Rightarrow> 'v map_cell list \<Rightarrow>
    ('v map_t \<times> 'v map_cell list) result" where
  "map_unmarshal_items z m 0 buf = Inr (m, buf)"
| "map_unmarshal_items z m (Suc n) (MapItem k v # buf) =
     bindr (map_register z m k) (\<lambda>m'. map_unmarshal_items z (map_write m' k v) n buf)"
| "map_unmarshal_items z m (Suc n) buf = Inl Fault"

fun map_unmarshal :: "'v \<Rightarrow> 'v map_t \<Rightarrow> 'v map_cell list \<Rightarrow> ('v map_t \<times> 'v map_cell list) result" where
  "map_unmarshal z m (MapHeader n # buf) =
     map_unmarshal_items z ((map_clear m)\<lparr>map_chain := [], map_nitems := 0\<rparr>) n buf"
| "map_unmarshal z m buf = Inl Fault"

section \<open>Operations of tidmap.c\<close>

definition tidmap_find :: "'v map_t \<Rightarrow> task_id \<Rightarrow> 'v option result" where
  "tidmap_find m tid = assertr (tid \<noteq> NO_TASK) (Inr (map_find m tid))"

definition tidmap_register :: "'v \<Rightarrow> 'v map_t \<Rightarrow> task_id \<Rightarrow> 'v map_t result" where
  "tidmap_register z m tid = assertr (tid \<noteq> NO_TASK) (map_register z m tid)"

definition tidmap_deregister :: "'v map_t \<Rightarrow> task_id \<Rightarrow> 'v map_t result" where
  "tidmap_deregister m tid = assertr (tid \<noteq> NO_TASK) (Inr (map_deregister m tid))"

definition tidmap_find_or_register ::
  "'v \<Rightarrow> 'v map_t \<Rightarrow> task_id \<Rightarrow> ('v \<Rightarrow> 'v) option \<Rightarrow> ('v \<times> 'v map_t) result" where
  "tidmap_find_or_register z m tid init = assertr (tid \<noteq> NO_TASK) (map_find_or_register z m tid init)"

section \<open>Invariant and abstraction\<close>

text \<open>Keys are unique along the chain and \<^verbatim>\<open>nitems\<close> counts the chain.\<close>

definition map_inv :: "'v map_t \<Rightarrow> bool" where
  "map_inv m \<longleftrightarrow> distinct (map fst (map_chain m)) \<and> map_nitems m = length (map_chain m)"

section \<open>Lemmas on chains\<close>

lemma chain_find_map_of: "map_option snd (chain_find c k) = map_of c k"
  by (induction c) auto

lemma map_find_map_of: "map_find m k = map_of (map_chain m) k"
  by (simp add: map_find_def chain_find_map_of)

lemma set_chain_unlink: "set (chain_unlink c k) \<subseteq> set c"
  by (induction c) auto

lemma chain_unlink_keys:
  "distinct (map fst c) \<Longrightarrow>
     map fst (chain_unlink c k) = filter (\<lambda>x. x \<noteq> k) (map fst c)"
proof (induction c)
  case (Cons it c)
  then show ?case
    by (auto intro!: filter_True [symmetric] simp: image_iff)
qed simp

lemma map_of_chain_unlink:
  "distinct (map fst c) \<Longrightarrow> map_of (chain_unlink c k) = (map_of c)(k := None)"
proof (induction c)
  case (Cons it c)
  show ?case
  proof (cases "fst it = k")
    case True
    with Cons.prems have "map_of c k = None"
      by (simp add: map_of_eq_None_iff)
    with True show ?thesis by (auto simp: fun_eq_iff)
  next
    case False
    with Cons show ?thesis by (auto simp: fun_eq_iff)
  qed
qed (simp add: fun_eq_iff)

lemma length_chain_unlink:
  "length (chain_unlink c k) = length c - (if k \<in> fst ` set c then 1 else 0)"
proof (induction c)
  case (Cons it c)
  then show ?case by (cases "fst it = k"; cases c) auto
qed simp

lemma map_of_chain_write:
  "map_of (chain_write c k v) = (if k \<in> fst ` set c then (map_of c)(k \<mapsto> v) else map_of c)"
  by (induction c) (auto simp: fun_eq_iff)

lemma chain_write_keys [simp]: "map fst (chain_write c k v) = map fst c"
  by (induction c) auto

lemma length_chain_write [simp]: "length (chain_write c k v) = length c"
  by (induction c) auto

lemma chain_free_empty [simp]: "chain_free c = []"
  by (induction c) auto

lemma map_find_None_iff: "map_find m k = None \<longleftrightarrow> k \<notin> fst ` set (map_chain m)"
  by (simp add: map_find_map_of map_of_eq_None_iff)

section \<open>Lemmas on maps\<close>

lemma map_inv_init [simp]: "map_inv map_init"
  by (simp add: map_inv_def map_init_def)

lemma map_find_init [simp]: "map_find map_init k = None"
  by (simp add: map_find_map_of map_init_def)

lemma map_size_inv: "map_inv m \<Longrightarrow> map_size m = card (dom (map_find m))"
proof -
  assume inv: "map_inv m"
  have "map_find m = map_of (map_chain m)"
    by (simp add: fun_eq_iff map_find_map_of)
  then have "dom (map_find m) = set (map fst (map_chain m))"
    by (simp add: dom_map_of_conv_image_fst)
  with inv show ?thesis
    by (metis distinct_card length_map map_inv_def map_size_def)
qed

lemma map_size_0:
  assumes "map_inv m"
  shows "map_size m = 0 \<longleftrightarrow> map_find m = (\<lambda>_. None)"
proof -
  have "map_find m = map_of (map_chain m)" by (simp add: fun_eq_iff map_find_map_of)
  then have "finite (dom (map_find m))" by (simp add: finite_dom_map_of)
  with map_size_inv [OF assms] show ?thesis by auto
qed

lemma map_register_Inr:
  "map_register z m k = Inr m' \<longleftrightarrow>
     map_find m k = None \<and>
     m' = m\<lparr>map_chain := (k, z) # map_chain m, map_nitems := map_nitems m + 1\<rparr>"
  by (auto simp: map_register_def result_elims)

lemma map_inv_register: "map_inv m \<Longrightarrow> map_register z m k = Inr m' \<Longrightarrow> map_inv m'"
  by (auto simp: map_inv_def map_register_Inr map_find_None_iff)

lemma map_find_register: "map_register z m k = Inr m' \<Longrightarrow> map_find m' = (map_find m)(k \<mapsto> z)"
  by (auto simp: map_register_Inr map_find_map_of fun_eq_iff)

lemma map_inv_deregister: "map_inv m \<Longrightarrow> map_inv (map_deregister m k)"
proof (cases "map_find m k")
  case (Some v)
  assume inv: "map_inv m"
  from Some have "k \<in> fst ` set (map_chain m)"
    using map_find_None_iff [of m k] by simp
  with inv Some show ?thesis
    by (simp add: map_inv_def map_deregister_def chain_unlink_keys length_chain_unlink)
qed (simp add: map_deregister_def)

lemma map_find_deregister: "map_inv m \<Longrightarrow> map_find (map_deregister m k) = (map_find m)(k := None)"
  by (auto simp: map_inv_def map_deregister_def map_find_map_of map_of_chain_unlink fun_eq_iff
      split: option.split)

lemma map_inv_write [simp]: "map_inv (map_write m k v) = map_inv m"
  by (simp add: map_inv_def map_write_def)

lemma map_find_write:
  "map_find (map_write m k v) = (if map_find m k = None then map_find m else (map_find m)(k \<mapsto> v))"
  by (auto simp: fun_eq_iff map_find_map_of map_write_def map_of_chain_write map_of_eq_None_iff)

lemma map_clear_init: "map_clear m = m\<lparr>map_chain := [], map_nitems := 0\<rparr>"
  by (simp add: map_clear_def)

lemma map_find_clear [simp]: "map_find (map_clear m) = (\<lambda>_. None)"
  by (simp add: fun_eq_iff map_clear_init map_find_map_of)

lemma map_inv_clear [simp]: "map_inv (map_clear m)"
  by (simp add: map_clear_init map_inv_def)

lemma chain_write_id: "chain_write ((k, z) # c) k v = (k, v) # c"
  by simp

lemma map_iterate_find:
  "map_inv m \<Longrightarrow> (k, v) \<in> set (map_iterate m) \<longleftrightarrow> map_find m k = Some v"
  by (simp add: map_inv_def map_iterate_def map_find_map_of)

lemma list_all_iterate:
  "map_inv ms \<Longrightarrow> list_all (\<lambda>it. P (snd it)) (map_iterate ms) \<longleftrightarrow> (\<forall>a m. map_find ms a = Some m \<longrightarrow> P m)"
  using map_iterate_find [of ms] by (fastforce simp: list_all_iff)

lemma bex_iterate:
  assumes "map_inv ms"
  shows "(\<exists>it\<in>set (map_iterate ms). P (snd it)) \<longleftrightarrow> (\<exists>a m. map_find ms a = Some m \<and> P m)"
  using list_all_iterate [OF assms, of "\<lambda>m. \<not> P m"] by (auto simp: list_all_iff)

section \<open>The map contract\<close>

text \<open>
  What a client of a map relies on: a finite partial function that is extended by registering an
  absent key (registering a present key stops the program), cut by deregistering, and updated in
  place through an item pointer.
\<close>

locale key_map =
  fixes find :: "'m \<Rightarrow> 'k \<Rightarrow> 'v option"
    and register :: "'v \<Rightarrow> 'm \<Rightarrow> 'k \<Rightarrow> 'm result"
    and deregister :: "'m \<Rightarrow> 'k \<Rightarrow> 'm"
    and store :: "'m \<Rightarrow> 'k \<Rightarrow> 'v \<Rightarrow> 'm"
    and invar :: "'m \<Rightarrow> bool"
  assumes register_absent:
      "invar m \<Longrightarrow> find m k = None \<Longrightarrow>
         \<exists>m'. register z m k = Inr m' \<and> invar m' \<and> find m' = (find m)(k \<mapsto> z)"
    and register_present: "find m k \<noteq> None \<Longrightarrow> register z m k = Inl AssertFailed"
    and find_deregister: "invar m \<Longrightarrow> find (deregister m k) = (find m)(k := None)"
    and invar_deregister: "invar m \<Longrightarrow> invar (deregister m k)"
    and find_write: "find m k \<noteq> None \<Longrightarrow> find (store m k v) = (find m)(k \<mapsto> v)"
    and invar_write: "invar m \<Longrightarrow> invar (store m k v)"
begin

text \<open>
  The lookup-or-create step every lock module starts with: the item of \<open>k\<close> exists afterwards,
  with the old payload if there was one and \<open>v0\<close> otherwise; other keys are untouched.
\<close>

definition ensure :: "'v \<Rightarrow> 'm \<Rightarrow> 'k \<Rightarrow> 'v \<Rightarrow> 'm result" where
  "ensure z m k v0 =
     (case find m k of
        Some _ \<Rightarrow> Inr m
      | None \<Rightarrow> bindr (register z m k) (\<lambda>m'. Inr (store m' k v0)))"

lemma ensure_total:
  assumes "invar m"
  shows "\<exists>m'. ensure z m k v0 = Inr m' \<and> invar m' \<and>
           find m' = (find m)(k \<mapsto> (case find m k of Some v \<Rightarrow> v | None \<Rightarrow> v0))"
proof (cases "find m k")
  case None
  obtain m' where r: "register z m k = Inr m'" and i: "invar m'" and f: "find m' = (find m)(k \<mapsto> z)"
    using register_absent [OF assms None] by blast
  then have "find m' k \<noteq> None" by simp
  then have "find (store m' k v0) = (find m)(k \<mapsto> v0)"
    by (simp add: find_write f)
  with None r i show ?thesis
    by (simp add: ensure_def invar_write)
next
  case (Some v)
  with assms show ?thesis by (simp add: ensure_def fun_upd_idem)
qed

text \<open>Registering and then deregistering a key gives back the map.\<close>

lemma register_deregister:
  assumes "invar m" and "find m k = None"
  shows "\<exists>m'. register z m k = Inr m' \<and> find (deregister m' k) = find m"
  using register_absent [OF assms, of z] assms(2) find_deregister by fastforce

end

interpretation km: key_map map_find map_register map_deregister map_write map_inv
proof unfold_locales
  fix m :: "'v map_t" and k z
  assume i: "map_inv m" and n: "map_find m k = None"
  then have r: "map_register z m k =
      Inr (m\<lparr>map_chain := (k, z) # map_chain m, map_nitems := map_nitems m + 1\<rparr>)"
    by (simp add: map_register_def)
  then show "\<exists>m'. map_register z m k = Inr m' \<and> map_inv m' \<and> map_find m' = (map_find m)(k \<mapsto> z)"
    using map_inv_register [OF i r] map_find_register [OF r] by blast
qed (auto simp: map_register_def map_find_deregister map_inv_deregister map_find_write)

section \<open>Round trip\<close>

lemma map_unmarshal_items_rev:
  assumes "distinct (map fst its)" and "fst ` set its \<inter> fst ` set (map_chain m) = {}"
    and "map_nitems m = length (map_chain m)"
  shows "map_unmarshal_items z m (length its) (map (\<lambda>(k, v). MapItem k v) its @ buf) =
           Inr (m\<lparr>map_chain := rev its @ map_chain m,
                  map_nitems := length its + map_nitems m\<rparr>, buf)"
  using assms
proof (induction its arbitrary: m)
  case (Cons it its)
  obtain k v where it: "it = (k, v)" by (cases it)
  let ?m = "m\<lparr>map_chain := (k, v) # map_chain m, map_nitems := map_nitems m + 1\<rparr>"
  have "map_find m k = None"
    using Cons.prems it by (simp add: map_find_None_iff)
  then have "bindr (map_register z m k) (\<lambda>m'. Inr (map_write m' k v)) = Inr ?m"
    by (simp add: map_register_def map_write_def)
  then have step: "map_unmarshal_items z m (Suc (length its))
      (MapItem k v # (map (\<lambda>(k, v). MapItem k v) its @ buf)) =
      map_unmarshal_items z ?m (length its) (map (\<lambda>(k, v). MapItem k v) its @ buf)"
    by (auto simp: result_elims)
  have "map_unmarshal_items z ?m (length its) (map (\<lambda>(k, v). MapItem k v) its @ buf) =
      Inr (?m\<lparr>map_chain := rev its @ map_chain ?m, map_nitems := length its + map_nitems ?m\<rparr>, buf)"
    by (rule Cons.IH) (use Cons.prems it in auto)
  with step show ?case by (simp add: it)
qed simp

lemma map_unmarshal_marshal:
  assumes "map_inv m"
  shows "map_unmarshal z m0 (map_marshal m @ buf) =
           Inr (m0\<lparr>map_chain := rev (map_chain m), map_nitems := map_nitems m\<rparr>, buf)"
proof -
  let ?e = "m0\<lparr>map_chain := [], map_nitems := 0\<rparr>"
  have "map_unmarshal_items z ?e (length (map_chain m))
      (map (\<lambda>(k, v). MapItem k v) (map_chain m) @ buf) =
      Inr (?e\<lparr>map_chain := rev (map_chain m) @ map_chain ?e,
        map_nitems := length (map_chain m) + map_nitems ?e\<rparr>, buf)"
    by (rule map_unmarshal_items_rev) (use assms in \<open>auto simp: map_inv_def\<close>)
  with assms show ?thesis
    by (simp add: map_marshal_def map_clear_init map_inv_def)
qed

lemma map_of_rev_distinct: "distinct (map fst c) \<Longrightarrow> map_of (rev c) = map_of c"
  by (rule map_of_eqI) (auto simp: rev_map [symmetric])

end
