(* ===== verification/Task_Collection.thy ===== *)
theory Task_Collection
  imports Prelude
begin

text \<open>
  Contracts of the task-id containers. \<open>task_coll\<close> is what \<^verbatim>\<open>tidbag.c\<close> and \<^verbatim>\<open>tidset.c\<close> have in
  common: a multiset of task identifiers with membership, removal of one occurrence and an in-place
  filter. \<open>task_set\<close> adds what only \<^verbatim>\<open>tidset.c\<close> promises: no element occurs twice, insertion reports
  whether the element was new, and sets can be subtracted from each other. Both are interpreted on the
  models of the C containers; the sequencer and the lock modules use the facts proved here.
\<close>

locale task_coll =
  fixes elems :: "'c \<Rightarrow> task_id multiset"
    and invar :: "'c \<Rightarrow> bool"
    and has :: "'c \<Rightarrow> task_id \<Rightarrow> bool result"
    and del :: "'c \<Rightarrow> task_id \<Rightarrow> 'c result"
    and filt :: "'c \<Rightarrow> (task_id \<Rightarrow> bool) \<Rightarrow> 'c result"
  assumes has_law: "invar c \<Longrightarrow> has c t = Inr (t \<in># elems c)"
    and del_law: "invar c \<Longrightarrow> \<exists>c'. del c t = Inr c' \<and> invar c' \<and> elems c' = elems c - {#t#}"
    and filt_law: "invar c \<Longrightarrow> \<exists>c'. filt c P = Inr c' \<and> invar c' \<and> elems c' = filter_mset P (elems c)"
begin

primrec del_all :: "'c \<Rightarrow> task_id list \<Rightarrow> 'c result" where
  "del_all c [] = Inr c"
| "del_all c (t # ts) = bindr (del c t) (\<lambda>c'. del_all c' ts)"

lemma del_all_total:
  "invar c \<Longrightarrow> \<exists>c'. del_all c ts = Inr c' \<and> invar c' \<and> elems c' = elems c - mset ts"
proof (induction ts arbitrary: c)
  case (Cons t ts)
  obtain c1 where c1: "del c t = Inr c1" "invar c1" "elems c1 = elems c - {#t#}"
    using del_law [OF Cons.prems] by blast
  then obtain c2 where "del_all c1 ts = Inr c2" "invar c2" "elems c2 = elems c1 - mset ts"
    using Cons.IH by blast
  with c1 show ?case by (simp add: diff_diff_add_mset)
qed simp

text \<open>Filtering twice is filtering with the conjunction, and membership afterwards is as expected.\<close>

lemma filt_filt:
  assumes "invar c"
  shows "\<exists>c'. bindr (filt c P) (\<lambda>c. filt c Q) = Inr c' \<and> invar c' \<and>
    elems c' = filter_mset (\<lambda>t. P t \<and> Q t) (elems c)"
proof -
  obtain c1 where c1: "filt c P = Inr c1" "invar c1" "elems c1 = filter_mset P (elems c)"
    using filt_law [OF assms] by blast
  then obtain c2 where "filt c1 Q = Inr c2" "invar c2" "elems c2 = filter_mset Q (elems c1)"
    using filt_law by blast
  with c1 show ?thesis by (simp add: filter_filter_mset conj_commute)
qed

lemma filt_has:
  assumes "invar c"
  shows "bindr (filt c P) (\<lambda>c. has c t) = Inr (t \<in># elems c \<and> P t)"
  using filt_law [OF assms, of P] has_law by fastforce

end

locale task_set = task_coll +
  fixes ins :: "'a \<Rightarrow> task_id \<Rightarrow> (bool \<times> 'a) result"
    and sub :: "'a \<Rightarrow> 'a \<Rightarrow> 'a result"
  assumes uniq: "invar c \<Longrightarrow> count (elems c) t \<le> 1"
    and ins_law: "invar c \<Longrightarrow> \<exists>c'. ins c t = Inr (t \<notin># elems c, c') \<and> invar c' \<and>
           set_mset (elems c') = insert t (set_mset (elems c))"
    and sub_law: "invar c \<Longrightarrow> invar d \<Longrightarrow> \<exists>c'. sub c d = Inr c' \<and> invar c' \<and>
           set_mset (elems c') = set_mset (elems c) - set_mset (elems d)"
begin

lemma del_set:
  assumes "invar c"
  shows "\<exists>c'. del c t = Inr c' \<and> invar c' \<and> set_mset (elems c') = set_mset (elems c) - {t}"
proof -
  obtain c' where c': "del c t = Inr c'" "invar c'" "elems c' = elems c - {#t#}"
    using del_law [OF assms] by blast
  have "count (elems c) t \<le> 1" by (rule uniq [OF assms])
  then have "set_mset (elems c - {#t#}) = set_mset (elems c) - {t}"
    by (auto simp: set_eq_iff simp flip: count_greater_zero_iff)
  with c' show ?thesis by simp
qed

text \<open>
  \<open>absorb\<close> inserts every identifier of a list and stops the program if one is already there, as
  \<^verbatim>\<open>_update_unblocked\<close> does.
\<close>

primrec absorb :: "'a \<Rightarrow> task_id list \<Rightarrow> 'a result" where
  "absorb c [] = Inr c"
| "absorb c (t # ts) = bindr (ins c t) (\<lambda>(ok, c'). assertr ok (absorb c' ts))"

lemma absorb_fresh:
  "invar c \<Longrightarrow> distinct ts \<Longrightarrow> set ts \<inter> set_mset (elems c) = {} \<Longrightarrow>
     \<exists>c'. absorb c ts = Inr c' \<and> invar c' \<and> set_mset (elems c') = set_mset (elems c) \<union> set ts"
proof (induction ts arbitrary: c)
  case (Cons t ts)
  obtain c1 where c1: "ins c t = Inr (t \<notin># elems c, c1)" "invar c1"
      "set_mset (elems c1) = insert t (set_mset (elems c))"
    using ins_law [OF Cons.prems(1)] by blast
  have "set ts \<inter> set_mset (elems c1) = {}" using Cons.prems c1(3) by auto
  then obtain c2 where "absorb c1 ts = Inr c2" "invar c2"
      "set_mset (elems c2) = set_mset (elems c1) \<union> set ts"
    using Cons.IH [OF c1(2)] Cons.prems(2) by auto
  with c1 Cons.prems(3) show ?case by auto
qed simp

lemma absorb_clash:
  "invar c \<Longrightarrow> \<not> (distinct ts \<and> set ts \<inter> set_mset (elems c) = {}) \<Longrightarrow> absorb c ts = Inl AssertFailed"
proof (induction ts arbitrary: c)
  case (Cons t ts)
  obtain c1 where c1: "ins c t = Inr (t \<notin># elems c, c1)" "invar c1"
      "set_mset (elems c1) = insert t (set_mset (elems c))"
    using ins_law [OF Cons.prems(1)] by blast
  show ?case
  proof (cases "t \<in># elems c")
    case True
    with c1 show ?thesis by simp
  next
    case False
    then have "\<not> (distinct ts \<and> set ts \<inter> set_mset (elems c1) = {})"
      using Cons.prems(2) c1(3) by auto
    with Cons.IH [OF c1(2)] c1(1) False show ?thesis by simp
  qed
qed simp

text \<open>Subtracting the sets of a list one after the other, as the lock modules do with waiter sets.\<close>

primrec sub_all :: "'a \<Rightarrow> 'a list \<Rightarrow> 'a result" where
  "sub_all c [] = Inr c"
| "sub_all c (d # ds) = bindr (sub c d) (\<lambda>c'. sub_all c' ds)"

lemma sub_all_total:
  "invar c \<Longrightarrow> \<forall>d\<in>set ds. invar d \<Longrightarrow>
     \<exists>c'. sub_all c ds = Inr c' \<and> invar c' \<and>
       set_mset (elems c') = set_mset (elems c) - (\<Union>d\<in>set ds. set_mset (elems d))"
proof (induction ds arbitrary: c)
  case (Cons d ds)
  obtain c1 where c1: "sub c d = Inr c1" "invar c1"
      "set_mset (elems c1) = set_mset (elems c) - set_mset (elems d)"
    using sub_law [of c d] Cons.prems by auto
  then obtain c2 where "sub_all c1 ds = Inr c2" "invar c2"
      "set_mset (elems c2) = set_mset (elems c1) - (\<Union>d\<in>set ds. set_mset (elems d))"
    using Cons.IH [OF c1(2)] Cons.prems(2) by auto
  with c1 show ?case by auto
qed simp

end

end
