(* ===== verification/Tidset.thy ===== *)
theory Tidset
  imports Keymap Task_Collection
begin

text \<open>
  The task-id set of \<^verbatim>\<open>src/base/tidset.c\<close>: a growable array without duplicates in which an element
  is removed by moving the last element into its place.

  The record holds the buffer as the C structure does (capacity, size, pointer), every read and
  write of the buffer is checked, and \<open>tidset_list\<close> is the initialised prefix. The lemmas show that
  every operation keeps the invariant \<open>tidset_inv\<close>, never leaves the buffer and acts on
  \<open>set (tidset_list s)\<close> as its name says.
\<close>

section \<open>Data\<close>

record tidset =
  ts_capacity :: nat
  ts_size :: nat
  ts_tasks :: "task_id list option"

definition TIDSET_INIT_SIZE :: nat where
  "TIDSET_INIT_SIZE = 4"

section \<open>Operations\<close>

definition tidset_init_cap :: "nat \<Rightarrow> tidset" where
  "tidset_init_cap cap =
     \<lparr>ts_capacity = cap, ts_size = 0, ts_tasks = Some (malloc_cells cap)\<rparr>"

definition tidset_init :: tidset where
  "tidset_init = tidset_init_cap TIDSET_INIT_SIZE"

text \<open>\<^verbatim>\<open>tidset_fini\<close> frees the buffer and clears the whole structure.\<close>

definition tidset_fini :: "tidset \<Rightarrow> tidset" where
  "tidset_fini s = \<lparr>ts_capacity = 0, ts_size = 0, ts_tasks = None\<rparr>"

definition tidset_size :: "tidset \<Rightarrow> nat" where
  "tidset_size s = ts_size s"

definition tidset_clear :: "tidset \<Rightarrow> tidset" where
  "tidset_clear s = s\<lparr>ts_size := 0\<rparr>"

definition tidset_get :: "tidset \<Rightarrow> nat \<Rightarrow> task_id result" where
  "tidset_get s idx =
     (if ts_size s = 0 then Inr NO_TASK
      else assertr (ts_tasks s \<noteq> None)
        (if idx \<ge> ts_size s then Inr NO_TASK else rd (ts_tasks s) idx))"

text \<open>The loop of \<^verbatim>\<open>tidset_set\<close>: another slot that holds \<open>tid\<close> gets the old value of \<open>idx\<close>.\<close>

function tidset_set_loop :: "tidset \<Rightarrow> nat \<Rightarrow> task_id \<Rightarrow> nat \<Rightarrow> tidset result" where
  "tidset_set_loop s idx tid i =
     (if i < ts_size s then
        bindr (rd (ts_tasks s) i) (\<lambda>t.
          if t = tid \<and> i \<noteq> idx then
            bindr (rd (ts_tasks s) idx) (\<lambda>u.
            bindr (wr (ts_tasks s) i u) (\<lambda>b. Inr (s\<lparr>ts_tasks := b\<rparr>)))
          else tidset_set_loop s idx tid (Suc i))
      else Inr s)"
  by pat_completeness auto
termination
  by (relation "measure (\<lambda>(s, idx, tid, i). ts_size s - i)") auto

definition tidset_set :: "tidset \<Rightarrow> nat \<Rightarrow> task_id \<Rightarrow> tidset result" where
  "tidset_set s idx tid =
     (if ts_size s = 0 then Inr s
      else assertr (ts_tasks s \<noteq> None) (assertr (tid \<noteq> NO_TASK)
        (if idx \<ge> ts_size s then Inr s
         else bindr (tidset_set_loop s idx tid 0) (\<lambda>s.
              bindr (wr (ts_tasks s) idx tid) (\<lambda>b. Inr (s\<lparr>ts_tasks := b\<rparr>))))))"

text \<open>\<^verbatim>\<open>tasks[i] = tasks[--size]\<close>, the removal step shared by all loops below.\<close>

definition tidset_drop :: "tidset \<Rightarrow> nat \<Rightarrow> tidset result" where
  "tidset_drop s i =
     bindr (rd (ts_tasks s) (ts_size s - 1)) (\<lambda>t.
     bindr (wr (ts_tasks s) i t) (\<lambda>b.
       Inr (s\<lparr>ts_size := ts_size s - 1, ts_tasks := b\<rparr>)))"

function tidset_remove_loop :: "tidset \<Rightarrow> task_id \<Rightarrow> nat \<Rightarrow> (bool \<times> tidset) result" where
  "tidset_remove_loop s tid i =
     (if i < ts_size s then
        bindr (rd (ts_tasks s) i) (\<lambda>t.
          if t \<noteq> tid then tidset_remove_loop s tid (Suc i)
          else bindr (tidset_drop s i) (\<lambda>s'. Inr (True, s')))
      else Inr (False, s))"
  by pat_completeness auto
termination
  by (relation "measure (\<lambda>(s, tid, i). ts_size s - i)") auto

definition tidset_remove :: "tidset \<Rightarrow> task_id \<Rightarrow> (bool \<times> tidset) result" where
  "tidset_remove s tid =
     assertr (ts_size s = 0 \<or> ts_tasks s \<noteq> None) (tidset_remove_loop s tid 0)"

function tidset_has_loop :: "tidset \<Rightarrow> task_id \<Rightarrow> nat \<Rightarrow> bool result" where
  "tidset_has_loop s tid i =
     (if i < ts_size s then
        bindr (rd (ts_tasks s) i) (\<lambda>t.
          if t = tid then Inr True else tidset_has_loop s tid (Suc i))
      else Inr False)"
  by pat_completeness auto
termination
  by (relation "measure (\<lambda>(s, tid, i). ts_size s - i)") auto

definition tidset_has :: "tidset \<Rightarrow> task_id \<Rightarrow> bool result" where
  "tidset_has s tid = tidset_has_loop s tid 0"

definition tidset_expand :: "tidset \<Rightarrow> nat \<Rightarrow> tidset result" where
  "tidset_expand s cap0 =
     (let cap = (if cap0 = 0 then TIDSET_INIT_SIZE else cap0) in
      case ts_tasks s of
        None \<Rightarrow> Inr (tidset_init_cap cap)
      | Some _ \<Rightarrow>
          let tmp = tidset_init_cap cap in
          bindr (memcpy (ts_tasks tmp) (ts_tasks s) (ts_size s)) (\<lambda>b.
            Inr (s\<lparr>ts_capacity := ts_capacity tmp, ts_tasks := b\<rparr>)))"

definition tidset_insert :: "tidset \<Rightarrow> task_id \<Rightarrow> (bool \<times> tidset) result" where
  "tidset_insert s tid =
     assertr (ts_size s = 0 \<or> ts_tasks s \<noteq> None)
       (bindr (tidset_has s tid) (\<lambda>h.
          if h then Inr (False, s)
          else bindr (if ts_size s + 1 > ts_capacity s
                      then tidset_expand s (ts_capacity s * 2) else Inr s) (\<lambda>s'.
               bindr (wr (ts_tasks s') (ts_size s') tid) (\<lambda>b.
                 Inr (True, s'\<lparr>ts_size := ts_size s' + 1, ts_tasks := b\<rparr>)))))"

definition tidset_copy :: "tidset \<Rightarrow> tidset \<Rightarrow> tidset result" where
  "tidset_copy dst src =
     bindr (if ts_capacity dst < ts_capacity src
            then tidset_expand dst (ts_capacity src) else Inr dst) (\<lambda>d.
     bindr (memcpy (ts_tasks d) (ts_tasks src) (ts_size src)) (\<lambda>b.
       Inr (d\<lparr>ts_size := ts_size src, ts_tasks := b\<rparr>)))"

text \<open>
  The loop that \<^verbatim>\<open>tidset_intersect\<close>, \<^verbatim>\<open>tidset_subtract\<close>, \<^verbatim>\<open>tidset_filter\<close>,
  \<^verbatim>\<open>tidset_retain_all_keys\<close> and \<^verbatim>\<open>tidset_remove_all_keys\<close> share, for the condition \<open>P\<close> under
  which an element stays.
\<close>

function tidset_keep_loop :: "(task_id \<Rightarrow> bool result) \<Rightarrow> tidset \<Rightarrow> nat \<Rightarrow> tidset result" where
  "tidset_keep_loop P s i =
     (if i < ts_size s then
        bindr (rd (ts_tasks s) i) (\<lambda>t.
        bindr (P t) (\<lambda>keep.
          if keep then tidset_keep_loop P s (Suc i)
          else bindr (tidset_drop s i) (\<lambda>s'.
                 tidset_keep_loop P s' i)))
      else Inr s)"
  by pat_completeness auto
termination
  by (relation "measure (\<lambda>(P, s, i). ts_size s - i)")
     (auto simp: tidset_drop_def result_elims)

definition tidset_intersect :: "tidset \<Rightarrow> tidset \<Rightarrow> tidset result" where
  "tidset_intersect s1 s2 = tidset_keep_loop (\<lambda>t. tidset_has s2 t) s1 0"

definition tidset_subtract :: "tidset \<Rightarrow> tidset \<Rightarrow> tidset result" where
  "tidset_subtract s1 s2 =
     tidset_keep_loop (\<lambda>t. bindr (tidset_has s2 t) (\<lambda>h. Inr (\<not> h))) s1 0"

definition tidset_filter :: "tidset \<Rightarrow> (task_id \<Rightarrow> bool) \<Rightarrow> tidset result" where
  "tidset_filter s P = tidset_keep_loop (\<lambda>t. Inr (P t)) s 0"

definition tidset_retain_all_keys :: "tidset \<Rightarrow> 'v map_t \<Rightarrow> tidset result" where
  "tidset_retain_all_keys s m =
     tidset_keep_loop (\<lambda>t. bindr (tidmap_find m t) (\<lambda>r. Inr (r \<noteq> None))) s 0"

definition tidset_remove_all_keys :: "tidset \<Rightarrow> 'v map_t \<Rightarrow> tidset result" where
  "tidset_remove_all_keys s m =
     (if ts_size s = 0 then Inr s
      else tidset_keep_loop (\<lambda>t. bindr (tidmap_find m t) (\<lambda>r. Inr (r = None))) s 0)"

function tidset_union_loop :: "tidset \<Rightarrow> tidset \<Rightarrow> nat \<Rightarrow> tidset result" where
  "tidset_union_loop s1 s2 i =
     (if i < ts_size s2 then
        bindr (tidset_get s2 i) (\<lambda>t.
        bindr (tidset_insert s1 t) (\<lambda>(_, s1'). tidset_union_loop s1' s2 (Suc i)))
      else Inr s1)"
  by pat_completeness auto
termination
  by (relation "measure (\<lambda>(s1, s2, i). ts_size s2 - i)") auto

definition tidset_union :: "tidset \<Rightarrow> tidset \<Rightarrow> tidset result" where
  "tidset_union s1 s2 = tidset_union_loop s1 s2 0"

function tidset_contains_loop :: "tidset \<Rightarrow> tidset \<Rightarrow> nat \<Rightarrow> bool result" where
  "tidset_contains_loop s1 s2 i =
     (if i < ts_size s2 then
        bindr (rd (ts_tasks s2) i) (\<lambda>t.
        bindr (tidset_has s1 t) (\<lambda>h.
          if \<not> h then Inr False else tidset_contains_loop s1 s2 (Suc i)))
      else Inr True)"
  by pat_completeness auto
termination
  by (relation "measure (\<lambda>(s1, s2, i). ts_size s2 - i)") auto

definition tidset_contains_all :: "tidset \<Rightarrow> tidset \<Rightarrow> bool result" where
  "tidset_contains_all s1 s2 =
     (if ts_size s2 = 0 then Inr True
      else if ts_size s1 = 0 then Inr False
      else tidset_contains_loop s1 s2 0)"

definition tidset_equals :: "tidset \<Rightarrow> tidset \<Rightarrow> bool result" where
  "tidset_equals s1 s2 =
     bindr (tidset_contains_all s1 s2) (\<lambda>a.
       if a then tidset_contains_all s2 s1 else Inr False)"

function tidset_make_first_loop :: "tidset \<Rightarrow> task_id \<Rightarrow> nat \<Rightarrow> tidset result" where
  "tidset_make_first_loop s tid i =
     (if i < tidset_size s then
        bindr (rd (ts_tasks s) i) (\<lambda>t.
          if t \<noteq> tid then tidset_make_first_loop s tid (Suc i)
          else if i = 0 then Inr s
          else bindr (rd (ts_tasks s) 0) (\<lambda>h.
               bindr (wr (ts_tasks s) i h) (\<lambda>b.
               bindr (wr b 0 tid) (\<lambda>b'. Inr (s\<lparr>ts_tasks := b'\<rparr>)))))
      else Inl AssertFailed)"
  by pat_completeness auto
termination
  by (relation "measure (\<lambda>(s, tid, i). tidset_size s - i)") auto

definition tidset_make_first :: "tidset \<Rightarrow> task_id \<Rightarrow> tidset result" where
  "tidset_make_first s tid = tidset_make_first_loop s tid 0"

text \<open>
  The comparators handed to \<^verbatim>\<open>qsort\<close>, as the C functions return them: 1 or 0, never a negative
  number. The sorting routine of the C library is the argument \<open>qs\<close> of \<open>tidset_sort\<close>.
\<close>

definition tidset_cmp_lt :: "task_id \<Rightarrow> task_id \<Rightarrow> int" where
  "tidset_cmp_lt a b = (if a < b then 1 else 0)"

definition tidset_cmp_gt :: "task_id \<Rightarrow> task_id \<Rightarrow> int" where
  "tidset_cmp_gt a b = (if a > b then 1 else 0)"

definition tidset_sort ::
  "((task_id \<Rightarrow> task_id \<Rightarrow> int) \<Rightarrow> task_id list \<Rightarrow> task_id list) \<Rightarrow> tidset \<Rightarrow>
     (task_id \<Rightarrow> task_id \<Rightarrow> int) \<Rightarrow> tidset result" where
  "tidset_sort qs s cmp =
     (case ts_tasks s of
        None \<Rightarrow> if ts_size s = 0 then Inr s else Inl Fault
      | Some b \<Rightarrow> if ts_size s \<le> length b
          then Inr (s\<lparr>ts_tasks := Some (qs cmp (take (ts_size s) b) @ drop (ts_size s) b)\<rparr>)
          else Inl Fault)"

section \<open>Marshalling\<close>

text \<open>
  The buffer is a list of 8 byte cells: capacity, size, the value of the \<^verbatim>\<open>tasks\<close> pointer (which
  \<^verbatim>\<open>tidset_unmarshal\<close> skips) and the elements. \<open>ptr\<close> is that pointer value.
\<close>

definition tidset_msize :: "tidset \<Rightarrow> nat" where
  "tidset_msize s = 24 + 8 * ts_size s"

definition tidset_marshal :: "64 word \<Rightarrow> tidset \<Rightarrow> 64 word list result" where
  "tidset_marshal ptr s =
     bindr (memcpy (Some (malloc_cells (ts_size s))) (ts_tasks s) (ts_size s)) (\<lambda>b.
       Inr ([of_nat (ts_capacity s), of_nat (ts_size s), ptr] @ the b))"

fun tidset_unmarshal :: "tidset \<Rightarrow> 64 word list \<Rightarrow> (tidset \<times> 64 word list) result" where
  "tidset_unmarshal s (c # n # p # buf) =
     (let cur_cap = ts_capacity s; cap = unat c; sz = unat n in
      assertr (sz \<le> cap)
        (let s' = (if cur_cap < cap
                   then \<lparr>ts_capacity = cap, ts_size = sz, ts_tasks = Some (malloc_cells cap)\<rparr>
                   else \<lparr>ts_capacity = cur_cap, ts_size = sz, ts_tasks = ts_tasks s\<rparr>) in
         bindr (memcpy (ts_tasks s') (Some buf) sz) (\<lambda>b.
           Inr (s'\<lparr>ts_tasks := b\<rparr>, drop sz buf))))"
| "tidset_unmarshal s buf = Inl Fault"

declare tidset_set_loop.simps [simp del] tidset_remove_loop.simps [simp del]
  tidset_has_loop.simps [simp del] tidset_keep_loop.simps [simp del]
  tidset_union_loop.simps [simp del] tidset_contains_loop.simps [simp del]
  tidset_make_first_loop.simps [simp del]


section \<open>Invariant and abstraction\<close>

text \<open>
  The buffer invariant: the size is within the capacity and the capacity is the size of the
  allocation. A cleared structure has capacity 0 and no buffer.
\<close>

definition tidset_wf :: "tidset \<Rightarrow> bool" where
  "tidset_wf s \<longleftrightarrow> ts_size s \<le> ts_capacity s \<and>
     (case ts_tasks s of None \<Rightarrow> ts_capacity s = 0 | Some b \<Rightarrow> length b = ts_capacity s)"

definition tidset_list :: "tidset \<Rightarrow> task_id list" where
  "tidset_list s = (case ts_tasks s of None \<Rightarrow> [] | Some b \<Rightarrow> take (ts_size s) b)"

definition tidset_inv :: "tidset \<Rightarrow> bool" where
  "tidset_inv s \<longleftrightarrow> tidset_wf s \<and> distinct (tidset_list s)"

definition tids :: "tidset \<Rightarrow> task_id set" where
  "tids s = set (tidset_list s)"

section \<open>Lemmas: buffer level\<close>

lemma tidset_wfI: "ts_size s \<le> length b \<Longrightarrow> ts_tasks s = Some b \<Longrightarrow> ts_capacity s = length b \<Longrightarrow> tidset_wf s"
  by (simp add: tidset_wf_def)

lemma length_tidset_list [simp]: "tidset_wf s \<Longrightarrow> length (tidset_list s) = ts_size s"
  by (auto simp: tidset_wf_def tidset_list_def split: option.splits)

lemma tidset_wfE:
  assumes "tidset_wf s" and "0 < ts_size s"
  obtains b where "ts_tasks s = Some b" and "length b = ts_capacity s"
    and "ts_size s \<le> length b" and "tidset_list s = take (ts_size s) b"
  using assms by (auto simp: tidset_wf_def tidset_list_def split: option.splits)

lemma rd_tidset: "tidset_wf s \<Longrightarrow> i < ts_size s \<Longrightarrow> rd (ts_tasks s) i = Inr (tidset_list s ! i)"
  by (erule tidset_wfE) auto

lemma tidset_get_wf:
  "tidset_wf s \<Longrightarrow> tidset_get s i = Inr (if i < ts_size s then tidset_list s ! i else NO_TASK)"
  by (cases "ts_tasks s") (auto simp: tidset_get_def tidset_wf_def tidset_list_def)

lemma tidset_wf_init_cap [simp]: "tidset_wf (tidset_init_cap c)"
  by (simp add: tidset_wf_def tidset_init_cap_def)

lemma tidset_list_init_cap [simp]: "tidset_list (tidset_init_cap c) = []"
  by (simp add: tidset_list_def tidset_init_cap_def)

lemma tidset_wf_clear [simp]: "tidset_wf s \<Longrightarrow> tidset_wf (tidset_clear s)"
  by (auto simp: tidset_wf_def tidset_clear_def split: option.splits)

lemma tidset_list_clear [simp]: "tidset_list (tidset_clear s) = []"
  by (auto simp: tidset_list_def tidset_clear_def split: option.split)

lemma tidset_has_loop_wf:
  "tidset_wf s \<Longrightarrow> tidset_has_loop s tid i = Inr (tid \<in> set (drop i (tidset_list s)))"
proof (induction s tid i rule: tidset_has_loop.induct)
  case (1 s tid i)
  show ?case
  proof (cases "i < ts_size s")
    case True
    then have "drop i (tidset_list s) = tidset_list s ! i # drop (Suc i) (tidset_list s)"
      using "1.prems" by (simp add: Cons_nth_drop_Suc)
    with True "1" show ?thesis
      by (auto simp: tidset_has_loop.simps [of s tid i] rd_tidset)
  next
    case False
    with "1.prems" show ?thesis by (simp add: tidset_has_loop.simps [of s tid i])
  qed
qed

lemma tidset_has_wf: "tidset_wf s \<Longrightarrow> tidset_has s tid = Inr (tid \<in> tids s)"
  by (simp add: tidset_has_def tidset_has_loop_wf tids_def)

lemma tidset_drop_wf:
  assumes "tidset_wf s" and "i < ts_size s"
  shows "\<exists>s'. tidset_drop s i = Inr s' \<and> tidset_wf s' \<and> ts_size s' = ts_size s - 1 \<and>
    tidset_list s' = swap_out (tidset_list s) i"
proof -
  obtain b where b: "ts_tasks s = Some b" "length b = ts_capacity s" "ts_size s \<le> length b"
      "tidset_list s = take (ts_size s) b"
    using assms by (auto elim: tidset_wfE)
  let ?s = "s\<lparr>ts_size := ts_size s - 1, ts_tasks := Some (b[i := b ! (ts_size s - 1)])\<rparr>"
  have "tidset_drop s i = Inr ?s"
    using assms(2) b by (simp add: tidset_drop_def)
  moreover have "tidset_wf ?s"
    using b by (auto intro!: tidset_wfI)
  moreover have "tidset_list ?s = swap_out (tidset_list s) i"
    using take_list_update_swap [OF assms(2) b(3)] b(4) by (simp add: tidset_list_def)
  ultimately show ?thesis by simp
qed

lemma tidset_remove_loop_wf:
  "tidset_wf s \<Longrightarrow>
     \<exists>s'. tidset_remove_loop s tid i = Inr (tid \<in> set (drop i (tidset_list s)), s') \<and> tidset_wf s' \<and>
       (tid \<in> set (drop i (tidset_list s)) \<longrightarrow>
          mset (tidset_list s') = mset (tidset_list s) - {#tid#}) \<and>
       (tid \<notin> set (drop i (tidset_list s)) \<longrightarrow> s' = s)"
proof (induction s tid i rule: tidset_remove_loop.induct)
  case (1 s tid i)
  show ?case
  proof (cases "i < ts_size s")
    case True
    have d: "drop i (tidset_list s) = tidset_list s ! i # drop (Suc i) (tidset_list s)"
      using "1.prems" True by (simp add: Cons_nth_drop_Suc)
    show ?thesis
    proof (cases "tidset_list s ! i = tid")
      case eq: True
      obtain s' where "tidset_drop s i = Inr s'" "tidset_wf s'"
          "tidset_list s' = swap_out (tidset_list s) i"
        using tidset_drop_wf [OF "1.prems" True] by blast
      with eq True d "1.prems" show ?thesis
        by (simp add: tidset_remove_loop.simps [of s tid i] rd_tidset mset_swap_out)
    next
      case False
      with "1.IH" [OF True _ _ "1.prems"] True d "1.prems" show ?thesis
        by (auto simp: tidset_remove_loop.simps [of s tid i] rd_tidset)
    qed
  next
    case False
    with "1.prems" show ?thesis by (simp add: tidset_remove_loop.simps [of s tid i])
  qed
qed

lemma tidset_remove_wf:
  assumes "tidset_wf s"
  shows "\<exists>s'. tidset_remove s tid = Inr (tid \<in> tids s, s') \<and> tidset_wf s' \<and>
    mset (tidset_list s') = mset (tidset_list s) - {#tid#} \<and> (tid \<notin> tids s \<longrightarrow> s' = s)"
proof -
  have a: "ts_size s = 0 \<or> ts_tasks s \<noteq> None"
    using assms by (auto simp: tidset_wf_def)
  show ?thesis
    using tidset_remove_loop_wf [OF assms, of tid 0] a
    by (auto simp: tidset_remove_def tids_def diff_single_trivial)
qed

lemma tidset_expand_wf:
  assumes "tidset_wf s" and "ts_size s \<le> cap"
  shows "\<exists>s'. tidset_expand s cap = Inr s' \<and> tidset_wf s' \<and> tidset_list s' = tidset_list s \<and>
    ts_capacity s' = (if cap = 0 then TIDSET_INIT_SIZE else cap) \<and> ts_size s' = ts_size s \<and>
    ts_tasks s' \<noteq> None"
proof (cases "ts_tasks s")
  case None
  with assms show ?thesis
    by (simp add: tidset_expand_def tidset_wf_def tidset_list_def tidset_init_cap_def)
next
  case (Some b)
  let ?c = "if cap = 0 then TIDSET_INIT_SIZE else cap"
  have "ts_size s \<le> length b" and "ts_size s \<le> ?c"
    using assms Some by (auto simp: tidset_wf_def)
  with Some show ?thesis
    by (cases "ts_size s = 0")
       (auto simp: tidset_expand_def tidset_init_cap_def memcpy_Some tidset_wf_def tidset_list_def Let_def)
qed

lemma tidset_append_wf:
  assumes "tidset_wf s" and "ts_size s < ts_capacity s"
  shows "\<exists>b. wr (ts_tasks s) (ts_size s) tid = Inr b \<and>
    tidset_wf (s\<lparr>ts_size := ts_size s + 1, ts_tasks := b\<rparr>) \<and>
    tidset_list (s\<lparr>ts_size := ts_size s + 1, ts_tasks := b\<rparr>) = tidset_list s @ [tid]"
proof -
  obtain b where b: "ts_tasks s = Some b" and l: "length b = ts_capacity s"
    using assms by (auto simp: tidset_wf_def split: option.splits)
  have "take (Suc (ts_size s)) (b[ts_size s := tid]) = take (ts_size s) b @ [tid]"
    using assms(2) l by (simp add: take_Suc_conv_app_nth)
  with assms(2) b l show ?thesis
    by (auto simp: tidset_list_def intro!: tidset_wfI)
qed

lemma tidset_insert_wf:
  assumes "tidset_wf s"
  shows "\<exists>s'. tidset_insert s tid = Inr (tid \<notin> tids s, s') \<and> tidset_wf s' \<and>
    tidset_list s' = (if tid \<in> tids s then tidset_list s else tidset_list s @ [tid])"
proof (cases "tid \<in> tids s")
  case True
  with assms show ?thesis
    by (auto simp: tidset_insert_def tidset_has_wf tidset_wf_def assertr_def)
next
  case False
  have a: "ts_size s = 0 \<or> ts_tasks s \<noteq> None"
    using assms by (auto simp: tidset_wf_def)
  have le: "ts_size s \<le> ts_capacity s"
    using assms by (simp add: tidset_wf_def)
  obtain t where t: "(if ts_size s + 1 > ts_capacity s
      then tidset_expand s (ts_capacity s * 2) else Inr s) = Inr t"
    and wf: "tidset_wf t" and l: "tidset_list t = tidset_list s" and sz: "ts_size t = ts_size s"
    and room: "ts_size t < ts_capacity t"
  proof (cases "ts_size s + 1 > ts_capacity s")
    case True
    then have "ts_size s \<le> ts_capacity s * 2" using le by simp
    from tidset_expand_wf [OF assms this] True le show ?thesis
      by (auto simp: TIDSET_INIT_SIZE_def split: if_splits intro!: that)
  next
    case False
    with assms show ?thesis by (auto intro!: that)
  qed
  from tidset_append_wf [OF wf room, of tid] obtain b where
    "wr (ts_tasks t) (ts_size t) tid = Inr b"
    "tidset_wf (t\<lparr>ts_size := ts_size t + 1, ts_tasks := b\<rparr>)"
    "tidset_list (t\<lparr>ts_size := ts_size t + 1, ts_tasks := b\<rparr>) = tidset_list t @ [tid]"
    by blast
  with False a t l assms show ?thesis
    by (simp add: tidset_insert_def tidset_has_wf)
qed

lemma tidset_copy_wf:
  assumes "tidset_wf dst" and "tidset_wf src"
  shows "\<exists>s'. tidset_copy dst src = Inr s' \<and> tidset_wf s' \<and> tidset_list s' = tidset_list src"
proof -
  obtain d where d: "(if ts_capacity dst < ts_capacity src
      then tidset_expand dst (ts_capacity src) else Inr dst) = Inr d"
    and wf: "tidset_wf d" and cap: "ts_capacity src \<le> ts_capacity d"
  proof (cases "ts_capacity dst < ts_capacity src")
    case True
    then have "ts_size dst \<le> ts_capacity src" using assms(1) by (simp add: tidset_wf_def)
    from tidset_expand_wf [OF assms(1) this] True show ?thesis
      by (auto intro!: that)
  next
    case False
    with assms show ?thesis by (auto intro!: that)
  qed
  show ?thesis
  proof (cases "ts_size src = 0")
    case True
    have "tidset_list src = []"
      using True by (simp add: tidset_list_def split: option.split)
    with True d wf show ?thesis
      by (auto simp: tidset_copy_def tidset_list_def tidset_wf_def split: option.splits)
  next
    case False
    then obtain b where b: "ts_tasks src = Some b" "length b = ts_capacity src"
        "ts_size src \<le> length b" "tidset_list src = take (ts_size src) b"
      using assms(2) by (auto elim: tidset_wfE)
    then have "0 < ts_capacity d" using False cap by simp
    then obtain c where c: "ts_tasks d = Some c" "length c = ts_capacity d"
      using wf by (auto simp: tidset_wf_def split: option.splits)
    have "ts_size src \<le> length c" using b c cap by simp
    with b c d show ?thesis
      by (auto simp: tidset_copy_def memcpy_Some tidset_list_def intro!: tidset_wfI)
  qed
qed

lemma tidset_keep_loop_wf:
  assumes "\<And>t. t \<in> set (drop i (tidset_list s)) \<Longrightarrow> P t = Inr (Q t)" and "tidset_wf s" and "i \<le> ts_size s"
  shows "\<exists>s'. tidset_keep_loop P s i = Inr s' \<and> tidset_wf s' \<and>
    mset (tidset_list s') = mset (take i (tidset_list s)) + filter_mset Q (mset (drop i (tidset_list s)))"
  using assms
proof (induction P s i rule: tidset_keep_loop.induct)
  case (1 P s i)
  note wf = "1.prems"(2)
  let ?l = "tidset_list s"
  show ?case
  proof (cases "i < ts_size s")
    case True
    have d: "drop i ?l = ?l ! i # drop (Suc i) ?l"
      using wf True by (simp add: Cons_nth_drop_Suc)
    have P: "P (?l ! i) = Inr (Q (?l ! i))"
      using "1.prems"(1) d by simp
    show ?thesis
    proof (cases "Q (?l ! i)")
      case keep: True
      have "\<exists>s'. tidset_keep_loop P s (Suc i) = Inr s' \<and> tidset_wf s' \<and>
          mset (tidset_list s') = mset (take (Suc i) ?l) + filter_mset Q (mset (drop (Suc i) ?l))"
        using "1.IH"(1) [OF True rd_tidset [OF wf True] P keep] "1.prems"(1) d wf True by simp
      moreover have "tidset_keep_loop P s i = tidset_keep_loop P s (Suc i)"
        using True keep P wf by (simp add: tidset_keep_loop.simps [of P s i] rd_tidset)
      ultimately show ?thesis
        using keep d True wf by (simp add: take_Suc_conv_app_nth)
    next
      case drop: False
      obtain s' where s': "tidset_drop s i = Inr s'" "tidset_wf s'" "ts_size s' = ts_size s - 1"
          "tidset_list s' = swap_out ?l i"
        using tidset_drop_wf [OF wf True] by blast
      have tk: "take i (swap_out ?l i) = take i ?l"
        using True wf by (intro nth_equalityI) (auto simp: nth_swap_out_less)
      have "mset ?l = mset (take i ?l) + mset (drop i ?l)"
        by (metis append_take_drop_id mset_append)
      then have "mset ?l = add_mset (?l ! i) (mset (take i ?l) + mset (drop (Suc i) ?l))"
        by (simp add: d)
      then have "mset (swap_out ?l i) = mset (take i ?l) + mset (drop (Suc i) ?l)"
        using True wf by (simp add: mset_swap_out)
      moreover have "mset (take i ?l) + mset (drop i (swap_out ?l i)) = mset (swap_out ?l i)"
        by (metis append_take_drop_id mset_append tk)
      ultimately have dr: "mset (drop i (swap_out ?l i)) = mset (drop (Suc i) ?l)" by simp
      have P': "P t = Inr (Q t)" if "t \<in> set (drop i (tidset_list s'))" for t
      proof -
        have "t \<in> set (drop (Suc i) ?l)"
          using that s'(4) dr by (metis set_mset_mset)
        then show ?thesis using "1.prems"(1) d by simp
      qed
      have "i \<le> ts_size s'" using s'(3) True by simp
      with "1.IH"(2) [OF True rd_tidset [OF wf True] P drop s'(1) P' s'(2)]
      have "\<exists>r. tidset_keep_loop P s' i = Inr r \<and> tidset_wf r \<and>
          mset (tidset_list r) = mset (take i ?l) + filter_mset Q (mset (drop (Suc i) ?l))"
        by (simp add: s'(4) tk dr)
      moreover have "tidset_keep_loop P s i = tidset_keep_loop P s' i"
        using True drop P wf s'(1) by (simp add: tidset_keep_loop.simps [of P s i] rd_tidset)
      ultimately show ?thesis using drop d by simp
    qed
  next
    case False
    with "1.prems" have "i = ts_size s" by simp
    with wf show ?thesis by (simp add: tidset_keep_loop.simps [of P s "ts_size s"])
  qed
qed


lemma tidset_write_wf:
  assumes "tidset_wf s" and "i < ts_size s"
  shows "\<exists>b. wr (ts_tasks s) i t = Inr b \<and> tidset_wf (s\<lparr>ts_tasks := b\<rparr>) \<and>
    tidset_list (s\<lparr>ts_tasks := b\<rparr>) = (tidset_list s)[i := t]"
proof -
  obtain b where b: "ts_tasks s = Some b" "length b = ts_capacity s" "ts_size s \<le> length b"
      "tidset_list s = take (ts_size s) b"
    using assms by (auto elim: tidset_wfE)
  with assms(2) show ?thesis
    by (auto simp: tidset_list_def take_update_swap intro!: tidset_wfI)
qed

lemma tidset_set_loop_wf:
  "tidset_wf s \<Longrightarrow> idx < ts_size s \<Longrightarrow>
     \<exists>s'. tidset_set_loop s idx tid i = Inr s' \<and> tidset_wf s' \<and> ts_size s' = ts_size s \<and>
       ((\<forall>j\<ge>i. j < ts_size s \<longrightarrow> j \<noteq> idx \<longrightarrow> tidset_list s ! j \<noteq> tid) \<and> tidset_list s' = tidset_list s \<or>
        (\<exists>j\<ge>i. j < ts_size s \<and> j \<noteq> idx \<and> tidset_list s ! j = tid \<and>
           tidset_list s' = (tidset_list s)[j := tidset_list s ! idx]))"
proof (induction s idx tid i rule: tidset_set_loop.induct)
  case (1 s idx tid i)
  note wf = "1.prems"(1) and idx = "1.prems"(2)
  show ?case
  proof (cases "i < ts_size s")
    case True
    show ?thesis
    proof (cases "tidset_list s ! i = tid \<and> i \<noteq> idx")
      case hit: True
      obtain b where "wr (ts_tasks s) i (tidset_list s ! idx) = Inr b"
          "tidset_wf (s\<lparr>ts_tasks := b\<rparr>)"
          "tidset_list (s\<lparr>ts_tasks := b\<rparr>) = (tidset_list s)[i := tidset_list s ! idx]"
        using tidset_write_wf [OF wf True] by blast
      with hit True wf idx show ?thesis
        by (auto simp: tidset_set_loop.simps [of s idx tid i] rd_tidset)
    next
      case miss: False
      have step: "tidset_set_loop s idx tid i = tidset_set_loop s idx tid (Suc i)"
        using miss True wf by (subst tidset_set_loop.simps) (auto simp: rd_tidset)
      have "\<forall>j\<ge>i. (j = i \<or> Suc i \<le> j)" by auto
      with "1.IH" [OF True rd_tidset [OF wf True] miss wf idx] miss show ?thesis
        unfolding step by (metis Suc_leD)
    qed
  next
    case False
    with wf show ?thesis by (simp add: tidset_set_loop.simps [of s idx tid i])
  qed
qed

lemma tidset_make_first_loop_wf:
  "tidset_wf s \<Longrightarrow>
     (tid \<in> set (drop i (tidset_list s)) \<longrightarrow>
        (\<exists>s'. tidset_make_first_loop s tid i = Inr s' \<and> tidset_wf s' \<and>
           mset (tidset_list s') = mset (tidset_list s) \<and> hd (tidset_list s') = tid)) \<and>
     (tid \<notin> set (drop i (tidset_list s)) \<longrightarrow> tidset_make_first_loop s tid i = Inl AssertFailed)"
proof (induction s tid i rule: tidset_make_first_loop.induct)
  case (1 s tid i)
  note wf = "1.prems"
  show ?case
  proof (cases "i < ts_size s")
    case True
    have d: "drop i (tidset_list s) = tidset_list s ! i # drop (Suc i) (tidset_list s)"
      using wf True by (simp add: Cons_nth_drop_Suc)
    show ?thesis
    proof (cases "tidset_list s ! i = tid")
      case hit: True
      show ?thesis
      proof (cases "i = 0")
        case zero: True
        have "tidset_make_first_loop s tid i = Inr s"
          using hit zero True wf by (subst tidset_make_first_loop.simps) (simp add: rd_tidset tidset_size_def)
        moreover have "tidset_list s \<noteq> []" using d zero by auto
        moreover have "tid \<in> set (drop i (tidset_list s))" using hit d by simp
        ultimately show ?thesis using hit zero wf by (simp add: hd_conv_nth)
      next
        case pos: False
        obtain b where b: "wr (ts_tasks s) i (tidset_list s ! 0) = Inr b"
            "tidset_wf (s\<lparr>ts_tasks := b\<rparr>)"
            "tidset_list (s\<lparr>ts_tasks := b\<rparr>) = (tidset_list s)[i := tidset_list s ! 0]"
          using tidset_write_wf [OF wf True] by blast
        have "0 < ts_size (s\<lparr>ts_tasks := b\<rparr>)" using True by simp
        from tidset_write_wf [OF b(2) this, of tid] obtain c where
          c: "wr b 0 tid = Inr c" "tidset_wf (s\<lparr>ts_tasks := c\<rparr>)"
            "tidset_list (s\<lparr>ts_tasks := c\<rparr>) = (tidset_list s)[i := tidset_list s ! 0, 0 := tid]"
          by (auto simp: b(3))
        have len: "0 < length (tidset_list s)" "i < length (tidset_list s)"
          using True wf by simp_all
        have "mset (tidset_list (s\<lparr>ts_tasks := c\<rparr>)) = mset (tidset_list s)"
          using mset_swap [OF len] hit c(3) pos by (simp add: list_update_swap)
        moreover have "hd (tidset_list (s\<lparr>ts_tasks := c\<rparr>)) = tid"
          using len c(3) by (cases "tidset_list s") (auto simp: list_update_code split: nat.splits)
        ultimately show ?thesis
          using hit True pos wf d b c by (simp add: tidset_make_first_loop.simps [of s tid i]
              tidset_size_def rd_tidset)
      qed
    next
      case miss: False
      have "tidset_make_first_loop s tid i = tidset_make_first_loop s tid (Suc i)"
        using miss True wf by (subst tidset_make_first_loop.simps) (simp add: rd_tidset tidset_size_def)
      with "1.IH" [OF _ rd_tidset [OF wf True] miss wf] True miss d show ?thesis
        by (auto simp: tidset_size_def)
    qed
  next
    case False
    with wf show ?thesis by (simp add: tidset_make_first_loop.simps [of s tid i] tidset_size_def)
  qed
qed

lemma tidset_union_loop_wf:
  "tidset_wf s1 \<Longrightarrow> tidset_wf s2 \<Longrightarrow>
     \<exists>s'. tidset_union_loop s1 s2 i = Inr s' \<and> tidset_wf s' \<and>
       tids s' = tids s1 \<union> set (drop i (tidset_list s2)) \<and>
       (distinct (tidset_list s1) \<longrightarrow> distinct (tidset_list s'))"
proof (induction s1 s2 i rule: tidset_union_loop.induct)
  case (1 s1 s2 i)
  note wf1 = "1.prems"(1) and wf2 = "1.prems"(2)
  show ?case
  proof (cases "i < ts_size s2")
    case True
    have d: "drop i (tidset_list s2) = tidset_list s2 ! i # drop (Suc i) (tidset_list s2)"
      using wf2 True by (simp add: Cons_nth_drop_Suc)
    have g: "tidset_get s2 i = Inr (tidset_list s2 ! i)"
      using wf2 True by (simp add: tidset_get_wf)
    obtain t where t: "tidset_insert s1 (tidset_list s2 ! i) = Inr (tidset_list s2 ! i \<notin> tids s1, t)"
        "tidset_wf t" "tidset_list t = (if tidset_list s2 ! i \<in> tids s1 then tidset_list s1
          else tidset_list s1 @ [tidset_list s2 ! i])"
      using tidset_insert_wf [OF wf1] by blast
    have "tidset_union_loop s1 s2 i = tidset_union_loop t s2 (Suc i)"
      using True g t by (subst tidset_union_loop.simps) simp
    with "1.IH" [OF True g t(1) refl t(2) wf2] t(3) d show ?thesis
      by (auto simp: tids_def split: if_splits)
  next
    case False
    with wf1 wf2 show ?thesis by (simp add: tidset_union_loop.simps [of s1 s2 i])
  qed
qed

lemma tidset_contains_loop_wf:
  "tidset_wf s1 \<Longrightarrow> tidset_wf s2 \<Longrightarrow>
     tidset_contains_loop s1 s2 i = Inr (set (drop i (tidset_list s2)) \<subseteq> tids s1)"
proof (induction s1 s2 i rule: tidset_contains_loop.induct)
  case (1 s1 s2 i)
  note wf1 = "1.prems"(1) and wf2 = "1.prems"(2)
  show ?case
  proof (cases "i < ts_size s2")
    case True
    have "drop i (tidset_list s2) = tidset_list s2 ! i # drop (Suc i) (tidset_list s2)"
      using wf2 True by (simp add: Cons_nth_drop_Suc)
    with True "1" show ?thesis
      by (auto simp: tidset_contains_loop.simps [of s1 s2 i] rd_tidset tidset_has_wf)
  next
    case False
    with wf1 wf2 show ?thesis by (simp add: tidset_contains_loop.simps [of s1 s2 i])
  qed
qed


section \<open>Lemmas: set level\<close>

lemma tidset_inv_wf [dest]: "tidset_inv s \<Longrightarrow> tidset_wf s"
  by (simp add: tidset_inv_def)

lemma finite_tids [simp]: "finite (tids s)"
  by (simp add: tids_def)

lemma tidset_size_card: "tidset_inv s \<Longrightarrow> tidset_size s = card (tids s)"
  by (simp add: tidset_inv_def tidset_size_def tids_def distinct_card)

lemma tidset_inv_init_cap [simp]: "tidset_inv (tidset_init_cap c)"
  by (simp add: tidset_inv_def)

lemma tidset_inv_init [simp]: "tidset_inv tidset_init"
  by (simp add: tidset_init_def)

lemma tids_init [simp]: "tids tidset_init = {}" "tids (tidset_init_cap c) = {}"
  by (simp_all add: tids_def tidset_init_def)

lemma tidset_inv_fini [simp]: "tidset_inv (tidset_fini s)"
  by (simp add: tidset_inv_def tidset_wf_def tidset_list_def tidset_fini_def)

lemma tids_fini [simp]: "tids (tidset_fini s) = {}"
  by (simp add: tids_def tidset_list_def tidset_fini_def)

lemma tidset_inv_clear [simp]: "tidset_inv s \<Longrightarrow> tidset_inv (tidset_clear s)"
  by (simp add: tidset_inv_def)

lemma tids_clear [simp]: "tids (tidset_clear s) = {}"
  by (simp add: tids_def)

lemma tidset_has_inv: "tidset_inv s \<Longrightarrow> tidset_has s tid = Inr (tid \<in> tids s)"
  by (simp add: tidset_has_wf tidset_inv_wf)

lemma distinct_mset_filter:
  assumes "distinct l" and "mset l' = filter_mset Q (mset l)"
  shows "distinct l' \<and> set l' = {x \<in> set l. Q x}"
proof -
  have m: "mset l' = mset (filter Q l)" using assms(2) by simp
  have "distinct l' = distinct (filter Q l)" and "set l' = set (filter Q l)"
    by (rule mset_eq_imp_distinct_iff [OF m]) (rule mset_eq_setD [OF m])
  with assms(1) show ?thesis by simp
qed

lemma tidset_insert_inv:
  assumes "tidset_inv s"
  shows "\<exists>s'. tidset_insert s tid = Inr (tid \<notin> tids s, s') \<and> tidset_inv s' \<and> tids s' = insert tid (tids s)"
  using tidset_insert_wf [OF tidset_inv_wf [OF assms], of tid] assms
  by (fastforce simp: tidset_inv_def tids_def split: if_splits)

lemma tidset_remove_inv:
  assumes "tidset_inv s"
  shows "\<exists>s'. tidset_remove s tid = Inr (tid \<in> tids s, s') \<and> tidset_inv s' \<and> tids s' = tids s - {tid}"
proof -
  obtain s' where s': "tidset_remove s tid = Inr (tid \<in> tids s, s')" "tidset_wf s'"
      "mset (tidset_list s') = mset (tidset_list s) - {#tid#}"
    using tidset_remove_wf assms by blast
  have d: "distinct (tidset_list s)" using assms by (simp add: tidset_inv_def)
  then have "mset (tidset_list s) - {#tid#} = filter_mset (\<lambda>t. t \<noteq> tid) (mset (tidset_list s))"
    by (auto intro!: multiset_eqI simp: distinct_count_atmost_1)
  then have "distinct (tidset_list s') \<and> set (tidset_list s') = {t \<in> set (tidset_list s). t \<noteq> tid}"
    using distinct_mset_filter [OF d] s'(3) by simp
  with s'(1,2) show ?thesis by (auto simp: tidset_inv_def tids_def)
qed

lemma tidset_keep_inv:
  assumes "tidset_inv s" and "\<And>t. t \<in> tids s \<Longrightarrow> P t = Inr (Q t)"
  shows "\<exists>s'. tidset_keep_loop P s 0 = Inr s' \<and> tidset_inv s' \<and> tids s' = {t \<in> tids s. Q t} \<and>
    mset (tidset_list s') = filter_mset Q (mset (tidset_list s))"
proof -
  obtain s' where s': "tidset_keep_loop P s 0 = Inr s'" "tidset_wf s'"
      "mset (tidset_list s') = filter_mset Q (mset (tidset_list s))"
    using tidset_keep_loop_wf [of 0 s P Q] assms by (auto simp: tids_def)
  moreover have "distinct (tidset_list s') \<and> set (tidset_list s') = {t \<in> set (tidset_list s). Q t}"
    by (rule distinct_mset_filter) (use s'(3) assms(1) in \<open>simp_all add: tidset_inv_def\<close>)
  ultimately show ?thesis by (auto simp: tidset_inv_def tids_def)
qed

lemma tidset_intersect_inv:
  assumes "tidset_inv s1" and "tidset_inv s2"
  shows "\<exists>s'. tidset_intersect s1 s2 = Inr s' \<and> tidset_inv s' \<and> tids s' = tids s1 \<inter> tids s2"
proof -
  have "tidset_has s2 t = Inr (t \<in> tids s2)" if "t \<in> tids s1" for t
    using assms(2) by (rule tidset_has_inv)
  from tidset_keep_inv [where P = "tidset_has s2" and Q = "\<lambda>t. t \<in> tids s2", OF assms(1) this]
  show ?thesis by (auto simp: tidset_intersect_def)
qed

lemma tidset_subtract_inv:
  assumes "tidset_inv s1" and "tidset_inv s2"
  shows "\<exists>s'. tidset_subtract s1 s2 = Inr s' \<and> tidset_inv s' \<and> tids s' = tids s1 - tids s2"
proof -
  have "bindr (tidset_has s2 t) (\<lambda>h. Inr (\<not> h)) = Inr (t \<notin> tids s2)" if "t \<in> tids s1" for t
    using assms(2) by (simp add: tidset_has_inv)
  from tidset_keep_inv [where P = "\<lambda>t. bindr (tidset_has s2 t) (\<lambda>h. Inr (\<not> h))"
      and Q = "\<lambda>t. t \<notin> tids s2", OF assms(1) this]
  show ?thesis by (auto simp: tidset_subtract_def)
qed

lemma tidset_filter_inv:
  assumes "tidset_inv s"
  shows "\<exists>s'. tidset_filter s P = Inr s' \<and> tidset_inv s' \<and> tids s' = {t \<in> tids s. P t} \<and>
    mset (tidset_list s') = filter_mset P (mset (tidset_list s))"
  using tidset_keep_inv [OF assms, of "\<lambda>t. Inr (P t)" P] by (simp add: tidset_filter_def)

lemma tidset_retain_all_keys_inv:
  assumes "tidset_inv s" and "NO_TASK \<notin> tids s"
  shows "\<exists>s'. tidset_retain_all_keys s m = Inr s' \<and> tidset_inv s' \<and>
    tids s' = {t \<in> tids s. map_find m t \<noteq> None}"
proof -
  have "bindr (tidmap_find m t) (\<lambda>r. Inr (r \<noteq> None)) = Inr (map_find m t \<noteq> None)" if "t \<in> tids s" for t
    using that assms(2) by (cases "t = NO_TASK") (auto simp: tidmap_find_def)
  from tidset_keep_inv [where P = "\<lambda>t. bindr (tidmap_find m t) (\<lambda>r. Inr (r \<noteq> None))"
      and Q = "\<lambda>t. map_find m t \<noteq> None", OF assms(1) this]
  show ?thesis unfolding tidset_retain_all_keys_def by blast
qed

lemma tidset_remove_all_keys_inv:
  assumes "tidset_inv s" and "NO_TASK \<notin> tids s"
  shows "\<exists>s'. tidset_remove_all_keys s m = Inr s' \<and> tidset_inv s' \<and>
    tids s' = {t \<in> tids s. map_find m t = None}"
proof (cases "ts_size s = 0")
  case True
  then have "tids s = {}" by (auto simp: tids_def tidset_list_def split: option.split)
  with True assms(1) show ?thesis by (simp add: tidset_remove_all_keys_def)
next
  case False
  have "bindr (tidmap_find m t) (\<lambda>r. Inr (r = None)) = Inr (map_find m t = None)" if "t \<in> tids s" for t
    using that assms(2) by (cases "t = NO_TASK") (auto simp: tidmap_find_def)
  from tidset_keep_inv [where P = "\<lambda>t. bindr (tidmap_find m t) (\<lambda>r. Inr (r = None))"
      and Q = "\<lambda>t. map_find m t = None", OF assms(1) this] False
  show ?thesis by (auto simp: tidset_remove_all_keys_def)
qed

lemma tidset_union_inv:
  assumes "tidset_inv s1" and "tidset_inv s2"
  shows "\<exists>s'. tidset_union s1 s2 = Inr s' \<and> tidset_inv s' \<and> tids s' = tids s1 \<union> tids s2"
  using tidset_union_loop_wf [of s1 s2 0] assms
  by (auto simp: tidset_union_def tidset_inv_def tids_def)

lemma tidset_copy_inv:
  assumes "tidset_inv dst" and "tidset_inv src"
  shows "\<exists>s'. tidset_copy dst src = Inr s' \<and> tidset_inv s' \<and> tids s' = tids src \<and>
    tidset_list s' = tidset_list src"
  using tidset_copy_wf [of dst src] assms by (auto simp: tidset_inv_def tids_def)

lemma tidset_contains_all_inv:
  assumes "tidset_inv s1" and "tidset_inv s2"
  shows "tidset_contains_all s1 s2 = Inr (tids s2 \<subseteq> tids s1)"
proof -
  have e: "tids s = {} \<longleftrightarrow> ts_size s = 0" if "tidset_inv s" for s
    using that length_tidset_list [of s] by (metis length_0_conv set_empty tids_def tidset_inv_wf)
  have "tidset_contains_loop s1 s2 0 = Inr (tids s2 \<subseteq> tids s1)"
    using tidset_contains_loop_wf [of s1 s2 0] assms by (auto simp: tidset_inv_def tids_def)
  with e [OF assms(1)] e [OF assms(2)] show ?thesis
    by (auto simp: tidset_contains_all_def)
qed

lemma tidset_equals_inv:
  "tidset_inv s1 \<Longrightarrow> tidset_inv s2 \<Longrightarrow> tidset_equals s1 s2 = Inr (tids s1 = tids s2)"
  by (auto simp: tidset_equals_def tidset_contains_all_inv)

lemma tidset_set_inv:
  assumes inv: "tidset_inv s" and idx: "idx < ts_size s" and tid: "tid \<noteq> NO_TASK"
  shows "\<exists>s'. tidset_set s idx tid = Inr s' \<and> tidset_inv s' \<and> ts_size s' = ts_size s \<and>
    tidset_list s' ! idx = tid \<and>
    tids s' = (if tid \<in> tids s then tids s else insert tid (tids s - {tidset_list s ! idx}))"
proof -
  let ?l = "tidset_list s"
  have wf: "tidset_wf s" and d: "distinct ?l" using inv by (auto simp: tidset_inv_def)
  have len: "length ?l = ts_size s" using wf by simp
  obtain s1 where s1: "tidset_set_loop s idx tid 0 = Inr s1" "tidset_wf s1" "ts_size s1 = ts_size s"
    and l1: "(\<forall>j. j < ts_size s \<longrightarrow> j \<noteq> idx \<longrightarrow> ?l ! j \<noteq> tid) \<and> tidset_list s1 = ?l \<or>
        (\<exists>j. j < ts_size s \<and> j \<noteq> idx \<and> ?l ! j = tid \<and> tidset_list s1 = ?l[j := ?l ! idx])"
    using tidset_set_loop_wf [OF wf idx, of tid 0] by auto
  obtain b where b: "wr (ts_tasks s1) idx tid = Inr b" "tidset_wf (s1\<lparr>ts_tasks := b\<rparr>)"
      "tidset_list (s1\<lparr>ts_tasks := b\<rparr>) = (tidset_list s1)[idx := tid]"
    using tidset_write_wf [OF s1(2)] idx s1(3) by metis
  have run: "tidset_set s idx tid = Inr (s1\<lparr>ts_tasks := b\<rparr>)"
    using idx tid wf s1(1) b(1) by (auto simp: tidset_set_def tidset_wf_def split: option.splits)
  have "distinct ((tidset_list s1)[idx := tid]) \<and> (tidset_list s1)[idx := tid] ! idx = tid \<and>
      set ((tidset_list s1)[idx := tid]) =
        (if tid \<in> set ?l then set ?l else insert tid (set ?l - {?l ! idx}))"
    using l1
  proof (elim disjE exE conjE)
    assume n: "\<forall>j<ts_size s. j \<noteq> idx \<longrightarrow> ?l ! j \<noteq> tid" and e: "tidset_list s1 = ?l"
    have "tid \<in> set ?l \<longleftrightarrow> ?l ! idx = tid"
      using n idx len by (metis in_set_conv_nth)
    then show ?thesis
      using d idx len by (auto simp: e set_update_distinct distinct_list_update)
  next
    fix j assume j: "j < ts_size s" "j \<noteq> idx" "?l ! j = tid" and e: "tidset_list s1 = ?l[j := ?l ! idx]"
    have m: "mset (?l[j := ?l ! idx, idx := ?l ! j]) = mset ?l"
      by (rule mset_swap) (use j idx len in auto)
    then have "set (?l[j := ?l ! idx, idx := tid]) = set ?l"
      using j(3) by (metis set_mset_mset)
    moreover have "distinct (?l[j := ?l ! idx, idx := tid])"
      using m d j(3) by (metis mset_eq_imp_distinct_iff)
    moreover have "tid \<in> set ?l" using j len by auto
    ultimately show ?thesis using idx len by (simp add: e)
  qed
  with run b s1(3) show ?thesis by (simp add: tidset_inv_def tids_def)
qed

lemma tidset_make_first_inv:
  assumes "tidset_inv s"
  shows "if tid \<in> tids s
    then \<exists>s'. tidset_make_first s tid = Inr s' \<and> tidset_inv s' \<and> tids s' = tids s \<and> tidset_get s' 0 = Inr tid
    else tidset_make_first s tid = Inl AssertFailed"
proof (cases "tid \<in> tids s")
  case True
  then obtain s' where s': "tidset_make_first s tid = Inr s'" "tidset_wf s'"
      "mset (tidset_list s') = mset (tidset_list s)" "hd (tidset_list s') = tid"
    using tidset_make_first_loop_wf [of s tid 0] assms
    by (auto simp: tidset_inv_def tids_def tidset_make_first_def)
  have st: "set (tidset_list s') = set (tidset_list s)" using s'(3) by (rule mset_eq_setD)
  then have ne: "tidset_list s' \<noteq> []" using True by (auto simp: tids_def)
  then have "0 < ts_size s'" using s'(2) by (metis length_greater_0_conv length_tidset_list)
  then have "tidset_get s' 0 = Inr tid"
    using s'(2,4) ne by (simp add: tidset_get_wf hd_conv_nth)
  with True s' st assms show ?thesis
    by (auto simp: tidset_inv_def tids_def dest: mset_eq_imp_distinct_iff)
next
  case False
  with tidset_make_first_loop_wf [of s tid 0] assms show ?thesis
    by (auto simp: tidset_inv_def tids_def tidset_make_first_def)
qed

section \<open>The set contract\<close>

interpretation ts: task_set
  "\<lambda>s. mset (tidset_list s)" tidset_inv tidset_has
  "\<lambda>s t. bindr (tidset_remove s t) (\<lambda>(_, s'). Inr s')" tidset_filter tidset_insert tidset_subtract
proof unfold_locales
  fix s t and P :: "task_id \<Rightarrow> bool" and d :: tidset
  assume i: "tidset_inv s"
  show "tidset_has s t = Inr (t \<in># mset (tidset_list s))"
    using i by (simp add: tidset_has_inv tids_def)
  show "\<exists>c'. bindr (tidset_remove s t) (\<lambda>(_, s'). Inr s') = Inr c' \<and> tidset_inv c' \<and>
      mset (tidset_list c') = mset (tidset_list s) - {#t#}"
    using tidset_remove_wf [OF tidset_inv_wf [OF i], of t] tidset_remove_inv [OF i, of t] by auto
  show "\<exists>c'. tidset_filter s P = Inr c' \<and> tidset_inv c' \<and>
      mset (tidset_list c') = filter_mset P (mset (tidset_list s))"
    using tidset_filter_inv [OF i] by blast
  show "count (mset (tidset_list s)) t \<le> 1"
    using i by (auto simp: tidset_inv_def distinct_count_atmost_1)
  show "\<exists>c'. tidset_insert s t = Inr (t \<notin># mset (tidset_list s), c') \<and> tidset_inv c' \<and>
      set_mset (mset (tidset_list c')) = insert t (set_mset (mset (tidset_list s)))"
    using tidset_insert_inv [OF i, of t] by (auto simp: tids_def)
  show "tidset_inv d \<Longrightarrow> \<exists>c'. tidset_subtract s d = Inr c' \<and> tidset_inv c' \<and>
      set_mset (mset (tidset_list c')) = set_mset (mset (tidset_list s)) - set_mset (mset (tidset_list d))"
    using tidset_subtract_inv [OF i] by (auto simp: tids_def)
qed


section \<open>Properties\<close>

text \<open>
  Claim C40. On sets that satisfy the buffer invariant every operation of \<^verbatim>\<open>tidset.c\<close> that builds a
  set stays inside its buffers, keeps the invariant and computes the set operation it is named after;
  insertion and removal report whether they changed the set.
\<close>

theorem tidset_refines_set:
  assumes "tidset_inv s1" and "tidset_inv s2"
  shows "(\<exists>s'. tidset_insert s1 t = Inr (t \<notin> tids s1, s') \<and> tidset_inv s' \<and> tids s' = insert t (tids s1)) \<and>
    (\<exists>s'. tidset_remove s1 t = Inr (t \<in> tids s1, s') \<and> tidset_inv s' \<and> tids s' = tids s1 - {t}) \<and>
    (\<exists>s'. tidset_intersect s1 s2 = Inr s' \<and> tidset_inv s' \<and> tids s' = tids s1 \<inter> tids s2) \<and>
    (\<exists>s'. tidset_subtract s1 s2 = Inr s' \<and> tidset_inv s' \<and> tids s' = tids s1 - tids s2) \<and>
    (\<exists>s'. tidset_union s1 s2 = Inr s' \<and> tidset_inv s' \<and> tids s' = tids s1 \<union> tids s2) \<and>
    (\<exists>s'. tidset_filter s1 P = Inr s' \<and> tidset_inv s' \<and> tids s' = {x \<in> tids s1. P x}) \<and>
    (\<exists>s'. tidset_copy s1 s2 = Inr s' \<and> tidset_inv s' \<and> tidset_list s' = tidset_list s2) \<and>
    tidset_has s1 t = Inr (t \<in> tids s1) \<and>
    tidset_contains_all s1 s2 = Inr (tids s2 \<subseteq> tids s1) \<and>
    tidset_equals s1 s2 = Inr (tids s1 = tids s2) \<and>
    tidset_size s1 = card (tids s1)"
proof -
  have "\<exists>s'. tidset_filter s1 P = Inr s' \<and> tidset_inv s' \<and> tids s' = {x \<in> tids s1. P x}"
    using tidset_filter_inv [OF assms(1), of P] by auto
  moreover have "\<exists>s'. tidset_copy s1 s2 = Inr s' \<and> tidset_inv s' \<and> tidset_list s' = tidset_list s2"
    using tidset_copy_inv [OF assms] by auto
  ultimately show ?thesis
    by (intro conjI tidset_insert_inv tidset_remove_inv tidset_intersect_inv tidset_subtract_inv
        tidset_union_inv tidset_has_inv tidset_contains_all_inv tidset_equals_inv
        tidset_size_card assms)
qed

theorem tidset_refines_set_witness:
  "\<exists>s'. tidset_insert (\<lparr>ts_capacity = 2, ts_size = 2, ts_tasks = Some [5, 7]\<rparr>) 9 = Inr (True, s') \<and>
     tids s' = {5, 7, 9}"
proof -
  let ?s = "\<lparr>ts_capacity = 2, ts_size = 2, ts_tasks = Some [5, 7]\<rparr>"
  have i: "tidset_inv ?s" and e: "tids ?s = {5, 7}"
    by (simp_all add: tidset_inv_def tidset_wf_def tidset_list_def tids_def)
  from tidset_refines_set [OF i i, of 9 "\<lambda>_. True"] obtain s' where
    "tidset_insert ?s 9 = Inr (9 \<notin> tids ?s, s')" "tids s' = insert 9 (tids ?s)"
    by blast
  then show ?thesis by (auto simp: e)
qed

text \<open>
  \<^verbatim>\<open>tidset_set\<close> keeps the elements distinct: if the identifier is already in the set it
  changes places with the element at the index, otherwise it replaces that element. It never touches
  the size.
\<close>

theorem tidset_set_swaps:
  assumes "tidset_inv s" and "idx < ts_size s" and "t \<noteq> NO_TASK"
  shows "\<exists>s'. tidset_set s idx t = Inr s' \<and> tidset_inv s' \<and> ts_size s' = ts_size s \<and>
    tidset_get s' idx = Inr t \<and>
    tids s' = (if t \<in> tids s then tids s else insert t (tids s - {tidset_list s ! idx}))"
  using tidset_set_inv [OF assms] assms(2)
  by (auto simp: tidset_get_wf tidset_inv_wf)

theorem tidset_set_swaps_witness:
  "\<exists>s'. tidset_set (\<lparr>ts_capacity = 4, ts_size = 3, ts_tasks = Some [5, 7, 9, 0]\<rparr>) 0 9 = Inr s' \<and>
     tids s' = {5, 7, 9} \<and> tidset_get s' 0 = Inr 9"
proof -
  let ?s = "\<lparr>ts_capacity = 4, ts_size = 3, ts_tasks = Some [5, 7, 9, 0]\<rparr>"
  have i: "tidset_inv ?s" and e: "tids ?s = {5, 7, 9}"
    by (auto simp: tidset_inv_def tidset_wf_def tidset_list_def tids_def)
  have "(0::nat) < ts_size ?s" and "(9::task_id) \<noteq> NO_TASK"
    by (simp_all add: NO_TASK_def)
  from tidset_set_swaps [OF i this] show ?thesis by (auto simp: e)
qed

text \<open>
  The sets a program can build with the interface. Sets are values here, so the copy and the
  binary operations take any reachable set as their other argument.
\<close>

inductive tidset_reach :: "tidset \<Rightarrow> bool" where
  init: "tidset_reach tidset_init"
| init_cap: "tidset_reach (tidset_init_cap c)"
| fini: "tidset_reach s \<Longrightarrow> tidset_reach (tidset_fini s)"
| clear: "tidset_reach s \<Longrightarrow> tidset_reach (tidset_clear s)"
| ins: "tidset_reach s \<Longrightarrow> tidset_insert s t = Inr (b, s') \<Longrightarrow> tidset_reach s'"
| rem: "tidset_reach s \<Longrightarrow> tidset_remove s t = Inr (b, s') \<Longrightarrow> tidset_reach s'"
| set: "tidset_reach s \<Longrightarrow> tidset_set s i t = Inr s' \<Longrightarrow> tidset_reach s'"
| copy: "tidset_reach d \<Longrightarrow> tidset_reach s \<Longrightarrow> tidset_copy d s = Inr s' \<Longrightarrow> tidset_reach s'"
| inter: "tidset_reach s1 \<Longrightarrow> tidset_reach s2 \<Longrightarrow> tidset_intersect s1 s2 = Inr s' \<Longrightarrow> tidset_reach s'"
| sub: "tidset_reach s1 \<Longrightarrow> tidset_reach s2 \<Longrightarrow> tidset_subtract s1 s2 = Inr s' \<Longrightarrow> tidset_reach s'"
| union: "tidset_reach s1 \<Longrightarrow> tidset_reach s2 \<Longrightarrow> tidset_union s1 s2 = Inr s' \<Longrightarrow> tidset_reach s'"
| filter: "tidset_reach s \<Longrightarrow> tidset_filter s P = Inr s' \<Longrightarrow> tidset_reach s'"
| make_first: "tidset_reach s \<Longrightarrow> tidset_make_first s t = Inr s' \<Longrightarrow> tidset_reach s'"

lemma tidset_set_keeps_inv: "tidset_inv s \<Longrightarrow> tidset_set s i t = Inr s' \<Longrightarrow> tidset_inv s'"
  using tidset_set_inv [of s i t]
  by (auto simp: tidset_set_def assertr_eq_Inr split: if_splits)

lemma tidset_make_first_keeps_inv: "tidset_inv s \<Longrightarrow> tidset_make_first s t = Inr s' \<Longrightarrow> tidset_inv s'"
  using tidset_make_first_inv [of s t] by (auto split: if_splits)

text \<open>
  Every set a program can build through the interface of \<^verbatim>\<open>tidset.c\<close>, in any order and any
  number of operations, satisfies the invariant: no duplicates, size within capacity, capacity equal
  to the allocation.
\<close>

theorem tidset_reach_inv: "tidset_reach s \<Longrightarrow> tidset_inv s"
proof (induction rule: tidset_reach.induct)
  case (ins s t b s')
  then show ?case using tidset_insert_inv [of s t] by auto
next
  case (rem s t b s')
  then show ?case using tidset_remove_inv [of s t] by auto
next
  case (set s i t s')
  then show ?case by (blast intro: tidset_set_keeps_inv)
next
  case (copy d s s')
  then show ?case using tidset_copy_inv [of d s] by auto
next
  case (inter s1 s2 s')
  then show ?case using tidset_intersect_inv [of s1 s2] by auto
next
  case (sub s1 s2 s')
  then show ?case using tidset_subtract_inv [of s1 s2] by auto
next
  case (union s1 s2 s')
  then show ?case using tidset_union_inv [of s1 s2] by auto
next
  case (filter s P s')
  then show ?case using tidset_filter_inv [of s P] by auto
next
  case (make_first s t s')
  then show ?case by (blast intro: tidset_make_first_keeps_inv)
qed simp_all

theorem tidset_reach_inv_witness:
  "tidset_inv (\<lparr>ts_capacity = 2, ts_size = 1, ts_tasks = Some [6, NO_TASK]\<rparr>)"
proof -
  have "tidset_insert (tidset_init_cap 2) 6 =
      Inr (True, \<lparr>ts_capacity = 2, ts_size = 1, ts_tasks = Some [6, NO_TASK]\<rparr>)"
    by (simp add: tidset_insert_def tidset_init_cap_def tidset_has_def tidset_has_loop.simps
        malloc_cells_def numeral_2_eq_2)
  from tidset_reach.ins [OF tidset_reach.init_cap this] show ?thesis
    by (rule tidset_reach_inv)
qed

text \<open>
  Marshalling and unmarshalling a set is the identity on its contents, whatever set the
  data is read into, and the reader stops exactly behind the data; the marshalled size is the one
  \<^verbatim>\<open>tidset_msize\<close> announces.
\<close>

theorem tidset_marshal_roundtrip:
  assumes "tidset_inv s" and "ts_capacity s < 2 ^ 64" and "tidset_inv d"
  shows "\<exists>buf. tidset_marshal ptr s = Inr buf \<and> 8 * length buf = tidset_msize s \<and>
    (\<exists>d'. tidset_unmarshal d (buf @ rest) = Inr (d', rest) \<and> tidset_inv d' \<and>
       tidset_list d' = tidset_list s)"
proof -
  let ?n = "ts_size s" and ?c = "ts_capacity s"
  have wf: "tidset_wf s" and dist: "distinct (tidset_list s)" and wfd: "tidset_wf d"
    using assms by (auto simp: tidset_inv_def)
  have nc: "?n \<le> ?c" and len: "length (tidset_list s) = ?n"
    using wf by (auto simp: tidset_wf_def)
  have m: "tidset_marshal ptr s = Inr ([of_nat ?c, of_nat ?n, ptr] @ tidset_list s)"
  proof (cases "?n = 0")
    case False
    with wf show ?thesis by (auto elim!: tidset_wfE simp: tidset_marshal_def memcpy_Some)
  qed (use len in \<open>simp add: tidset_marshal_def malloc_cells_def\<close>)
  have u: "unat (of_nat ?c :: 64 word) = ?c" "unat (of_nat ?n :: 64 word) = ?n"
    using assms(2) nc by (auto simp: unat_of_nat64)
  let ?t = "if ts_capacity d < ?c
    then \<lparr>ts_capacity = ?c, ts_size = ?n, ts_tasks = Some (malloc_cells ?c)\<rparr>
    else \<lparr>ts_capacity = ts_capacity d, ts_size = ?n, ts_tasks = ts_tasks d\<rparr>"
  have "\<exists>b. memcpy (ts_tasks ?t) (Some (tidset_list s @ rest)) ?n = Inr b \<and>
      tidset_wf (?t\<lparr>ts_tasks := b\<rparr>) \<and> tidset_list (?t\<lparr>ts_tasks := b\<rparr>) = tidset_list s"
  proof (cases "?n = 0")
    case True
    with len wfd show ?thesis
      by (auto simp: tidset_wf_def tidset_list_def split: option.splits)
  next
    case False
    show ?thesis
    proof (cases "ts_capacity d < ?c")
      case True
      with nc len False show ?thesis by (auto simp: memcpy_Some tidset_list_def intro!: tidset_wfI)
    next
      case le: False
      then obtain b where "ts_tasks d = Some b" "length b = ts_capacity d"
        using wfd nc False by (auto simp: tidset_wf_def split: option.splits)
      with le nc len show ?thesis by (auto simp: memcpy_Some tidset_list_def intro!: tidset_wfI)
    qed
  qed
  then obtain b where "memcpy (ts_tasks ?t) (Some (tidset_list s @ rest)) ?n = Inr b"
    "tidset_wf (?t\<lparr>ts_tasks := b\<rparr>)" "tidset_list (?t\<lparr>ts_tasks := b\<rparr>) = tidset_list s"
    by blast
  then have "tidset_unmarshal d (([of_nat ?c, of_nat ?n, ptr] @ tidset_list s) @ rest) =
      Inr (?t\<lparr>ts_tasks := b\<rparr>, rest) \<and> tidset_inv (?t\<lparr>ts_tasks := b\<rparr>) \<and>
      tidset_list (?t\<lparr>ts_tasks := b\<rparr>) = tidset_list s"
    using nc u len dist by (simp add: Let_def tidset_inv_def)
  with m len show ?thesis by (auto simp: tidset_msize_def)
qed

theorem tidset_marshal_roundtrip_witness:
  "\<exists>d'. tidset_unmarshal tidset_init [2, 2, 99, 5, 7, 1234] = Inr (d', [1234]) \<and>
     tidset_list d' = [5, 7]"
proof -
  let ?s = "\<lparr>ts_capacity = 2, ts_size = 2, ts_tasks = Some [5, 7]\<rparr>"
  have i: "tidset_inv ?s"
    by (simp add: tidset_inv_def tidset_wf_def tidset_list_def)
  have c: "ts_capacity ?s < 2 ^ 64" by simp
  have m: "tidset_marshal 99 ?s = Inr [2, 2, 99, 5, 7]"
    by (simp add: tidset_marshal_def memcpy_Some)
  have l: "tidset_list ?s = [5, 7]" by (simp add: tidset_list_def)
  from tidset_marshal_roundtrip [OF i c tidset_inv_init, of 99 "[1234]"] show ?thesis
    unfolding m l by auto
qed

end
