(* ===== verification/Record_Base.thy ===== *)
theory Record_Base
  imports Prelude
begin

text \<open>
  Records, reasons and byte streams: \<^verbatim>\<open>src/base/record.c\<close>, \<^verbatim>\<open>include/lotto/base/record.h\<close>,
  \<^verbatim>\<open>src/base/reason.c\<close> and the file stream of \<^verbatim>\<open>src/sys/stream_file.c\<close>. A record is written to a
  stream as the memory image of its header (56 bytes on the 64 bit platforms Lotto runs on)
  followed by its payload; the image is written out here and shown to be decodable.
\<close>

unbundle bit_operations_syntax

type_synonym byte = "8 word"

section \<open>Reasons\<close>

datatype reason =
    REASON_UNKNOWN | REASON_DETERMINISTIC | REASON_NONDETERMINISTIC | REASON_BLOCKING
  | REASON_WATCHDOG | REASON_SYS_YIELD | REASON_USER_YIELD | REASON_USER_ORDER
  | REASON_ASSERT_FAIL | REASON_RSRC_DEADLOCK | REASON_SEGFAULT | REASON_SEGV_ACCERR
  | REASON_SIGINT | REASON_SIGABRT | REASON_SIGTERM | REASON_SIGKILL | REASON_SUCCESS
  | REASON_IGNORE | REASON_ABORT | REASON_SHUTDOWN | REASON_RUNTIME_SEGFAULT
  | REASON_RUNTIME_SEGV_ACCERR | REASON_RUNTIME_SIGINT | REASON_RUNTIME_SIGABRT
  | REASON_RUNTIME_SIGTERM | REASON_RUNTIME_SIGKILL | REASON_IMPASSE

text \<open>The enumerators in order; the numeric value of a reason is its position.\<close>

definition all_reasons :: "reason list" where
  "all_reasons =
     [REASON_UNKNOWN, REASON_DETERMINISTIC, REASON_NONDETERMINISTIC, REASON_BLOCKING,
      REASON_WATCHDOG, REASON_SYS_YIELD, REASON_USER_YIELD, REASON_USER_ORDER,
      REASON_ASSERT_FAIL, REASON_RSRC_DEADLOCK, REASON_SEGFAULT, REASON_SEGV_ACCERR,
      REASON_SIGINT, REASON_SIGABRT, REASON_SIGTERM, REASON_SIGKILL, REASON_SUCCESS,
      REASON_IGNORE, REASON_ABORT, REASON_SHUTDOWN, REASON_RUNTIME_SEGFAULT,
      REASON_RUNTIME_SEGV_ACCERR, REASON_RUNTIME_SIGINT, REASON_RUNTIME_SIGABRT,
      REASON_RUNTIME_SIGTERM, REASON_RUNTIME_SIGKILL, REASON_IMPASSE]"

definition reason_code :: "reason \<Rightarrow> 32 word" where
  "reason_code r = of_nat (length (takeWhile (\<lambda>x. x \<noteq> r) all_reasons))"

definition reason_is_runtime :: "reason \<Rightarrow> bool" where
  "reason_is_runtime r \<longleftrightarrow> r \<in> {REASON_RUNTIME_SEGFAULT, REASON_RUNTIME_SIGINT,
     REASON_RUNTIME_SIGABRT, REASON_RUNTIME_SIGTERM, REASON_RUNTIME_SIGKILL,
     REASON_RUNTIME_SEGV_ACCERR}"

definition reason_is_shutdown :: "reason \<Rightarrow> bool" where
  "reason_is_shutdown r \<longleftrightarrow> r \<in> {REASON_SHUTDOWN, REASON_SUCCESS, REASON_IGNORE}"

definition reason_is_abort :: "reason \<Rightarrow> bool" where
  "reason_is_abort r \<longleftrightarrow> r \<in> {REASON_ASSERT_FAIL, REASON_RSRC_DEADLOCK, REASON_SEGFAULT,
     REASON_SIGINT, REASON_SIGABRT, REASON_ABORT, REASON_RUNTIME_SEGFAULT, REASON_RUNTIME_SIGINT,
     REASON_RUNTIME_SIGABRT, REASON_IMPASSE, REASON_SIGTERM, REASON_RUNTIME_SIGTERM,
     REASON_SIGKILL, REASON_RUNTIME_SIGKILL, REASON_SEGV_ACCERR, REASON_RUNTIME_SEGV_ACCERR}"

definition reason_is_terminate :: "reason \<Rightarrow> bool" where
  "reason_is_terminate r \<longleftrightarrow> reason_is_shutdown r \<or> reason_is_abort r"

definition reason_is_record_final :: "reason \<Rightarrow> bool" where
  "reason_is_record_final r \<longleftrightarrow> r \<in> {REASON_SUCCESS, REASON_ASSERT_FAIL, REASON_SHUTDOWN, REASON_ABORT}"

lemmas reason_defs = reason_is_runtime_def reason_is_shutdown_def reason_is_abort_def
  reason_is_terminate_def reason_is_record_final_def

lemma reason_split:
  "reason_is_shutdown r \<Longrightarrow> \<not> reason_is_abort r"
  "reason_is_runtime r \<Longrightarrow> reason_is_abort r"
  "reason_is_record_final r \<Longrightarrow> reason_is_terminate r \<and> \<not> reason_is_runtime r"
  by (auto simp: reason_defs)

section \<open>Record kinds\<close>

type_synonym kinds = "32 word"

definition RECORD_NONE :: kinds where "RECORD_NONE = 0x00"
definition RECORD_INFO :: kinds where "RECORD_INFO = 0x01"
definition RECORD_SCHED :: kinds where "RECORD_SCHED = 0x02"
definition RECORD_START :: kinds where "RECORD_START = 0x04"
definition RECORD_EXIT :: kinds where "RECORD_EXIT = 0x08"
definition RECORD_CONFIG :: kinds where "RECORD_CONFIG = 0x10"
definition RECORD_SHUTDOWN_LOCK :: kinds where "RECORD_SHUTDOWN_LOCK = 0x20"
definition RECORD_OPAQUE :: kinds where "RECORD_OPAQUE = 0x40"
definition RECORD_FORCE :: kinds where "RECORD_FORCE = 0x80"
definition RECORD_ANY :: kinds where "RECORD_ANY = -1"

lemmas record_kind_defs = RECORD_NONE_def RECORD_INFO_def RECORD_SCHED_def RECORD_START_def
  RECORD_EXIT_def RECORD_CONFIG_def RECORD_SHUTDOWN_LOCK_def RECORD_OPAQUE_def RECORD_FORCE_def
  RECORD_ANY_def

text \<open>
  \<^verbatim>\<open>kind_str\<close> indexes an array of string pointers with 129 entries (the last initialised index is
  \<^verbatim>\<open>RECORD_FORCE\<close>). Entries that the initialiser does not name are null pointers (\<open>Inr None\<close>).
\<close>

definition kind_str :: "kinds \<Rightarrow> string option result" where
  "kind_str r =
     (if unat r > 0x80 then Inl Fault
      else if r = RECORD_NONE then Inr (Some ''NONE'')
      else if r = RECORD_INFO then Inr (Some ''INFO'')
      else if r = RECORD_SCHED then Inr (Some ''SCHEDULER'')
      else if r = RECORD_FORCE then Inr (Some ''FORCE'')
      else if r = RECORD_START then Inr (Some ''START'')
      else if r = RECORD_EXIT then Inr (Some ''EXIT'')
      else if r = RECORD_CONFIG then Inr (Some ''CONFIG'')
      else if r = RECORD_OPAQUE then Inr (Some ''OPAQUE'')
      else Inr None)"

section \<open>Records\<close>

record record_t =
  rec_id :: task_id
  rec_clk :: clk
  rec_chain :: "16 word"
  rec_type :: "16 word"
  rec_reason :: "32 word"
  rec_kind :: kinds
  rec_size :: nat
  rec_pc :: "64 word"
  rec_data :: "byte list"

text \<open>\<^verbatim>\<open>record_alloc\<close>: zeroed memory with the payload size filled in.\<close>

definition record_alloc :: "nat \<Rightarrow> record_t" where
  "record_alloc n = \<lparr>rec_id = 0, rec_clk = 0, rec_chain = 0, rec_type = 0, rec_reason = 0,
     rec_kind = 0, rec_size = n, rec_pc = 0, rec_data = replicate n 0\<rparr>"

definition record_clone :: "record_t \<Rightarrow> record_t" where
  "record_clone r =
     (let result = record_alloc (rec_size r) in
      result\<lparr>rec_id := rec_id r, rec_clk := rec_clk r, rec_chain := rec_chain r,
        rec_type := rec_type r, rec_reason := rec_reason r, rec_kind := rec_kind r,
        rec_size := rec_size r, rec_pc := rec_pc r,
        rec_data := take (rec_size r) (rec_data r) @ drop (rec_size r) (rec_data result)\<rparr>)"

text \<open>A well-formed record: the payload has the announced size and the numbers fit their fields.\<close>

definition record_wf :: "record_t \<Rightarrow> bool" where
  "record_wf r \<longleftrightarrow> length (rec_data r) = rec_size r \<and> rec_size r < 2 ^ 64 \<and> rec_clk r < 2 ^ 64"

lemma record_clone_same: "length (rec_data r) = rec_size r \<Longrightarrow> record_clone r = r"
  by (simp add: record_clone_def record_alloc_def Let_def)

section \<open>Little endian numbers\<close>

primrec le_bytes :: "nat \<Rightarrow> nat \<Rightarrow> byte list" where
  "le_bytes 0 x = []"
| "le_bytes (Suc n) x = of_nat (x mod 256) # le_bytes n (x div 256)"

primrec le_val :: "byte list \<Rightarrow> nat" where
  "le_val [] = 0"
| "le_val (b # bs) = unat b + 256 * le_val bs"

lemma length_le_bytes [simp]: "length (le_bytes n x) = n"
  by (induction n arbitrary: x) auto

lemma le_val_bytes: "le_val (le_bytes n x) = x mod 256 ^ n"
proof (induction n arbitrary: x)
  case (Suc n)
  have "unat (of_nat (x mod 256) :: byte) = x mod 256"
    by (simp add: unat_of_nat)
  then show ?case
    using Suc.IH [of "x div 256"] by (simp add: mod_mult2_eq)
qed simp

lemma le_val_bytes_id: "x < 256 ^ n \<Longrightarrow> le_val (le_bytes n x) = x"
  by (simp add: le_val_bytes)

section \<open>The memory image of a record\<close>

definition record_hsz :: nat where
  "record_hsz = 56"

text \<open>
  Offsets: \<^verbatim>\<open>next\<close> 0 (unused, zero), \<^verbatim>\<open>id\<close> 8, \<^verbatim>\<open>clk\<close> 16, \<^verbatim>\<open>chain_id\<close> 24, \<^verbatim>\<open>type_id\<close> 26,
  \<^verbatim>\<open>reason\<close> 28, \<^verbatim>\<open>kind\<close> 32, padding 36, \<^verbatim>\<open>size\<close> 40, \<^verbatim>\<open>pc\<close> 48, \<^verbatim>\<open>data\<close> 56.
\<close>

definition record_header :: "record_t \<Rightarrow> byte list" where
  "record_header r =
     le_bytes 8 0 @ le_bytes 8 (unat (rec_id r)) @ le_bytes 8 (rec_clk r) @
     le_bytes 2 (unat (rec_chain r)) @ le_bytes 2 (unat (rec_type r)) @
     le_bytes 4 (unat (rec_reason r)) @ le_bytes 4 (unat (rec_kind r)) @ le_bytes 4 0 @
     le_bytes 8 (rec_size r) @ le_bytes 8 (unat (rec_pc r))"

definition record_bytes :: "record_t \<Rightarrow> byte list" where
  "record_bytes r = record_header r @ take (rec_size r) (rec_data r)"

definition field :: "nat \<Rightarrow> nat \<Rightarrow> byte list \<Rightarrow> nat" where
  "field off n bs = le_val (take n (drop off bs))"

text \<open>
  \<^verbatim>\<open>record_alloc(header.size)\<close> followed by \<^verbatim>\<open>sys_memcpy\<close> of the header: the record read from a
  header image, with a zeroed payload of the announced size.
\<close>

definition record_of_header :: "byte list \<Rightarrow> record_t" where
  "record_of_header bs =
     (record_alloc (field 40 8 bs))
       \<lparr>rec_id := of_nat (field 8 8 bs), rec_clk := field 16 8 bs, rec_chain := of_nat (field 24 2 bs),
        rec_type := of_nat (field 26 2 bs), rec_reason := of_nat (field 28 4 bs),
        rec_kind := of_nat (field 32 4 bs), rec_pc := of_nat (field 48 8 bs)\<rparr>"

lemma length_record_header [simp]: "length (record_header r) = record_hsz"
  by (simp add: record_header_def record_hsz_def)

lemma field_append:
  "off = length a \<Longrightarrow> n = length b \<Longrightarrow> field off n (a @ b @ c) = le_val b"
  by (simp add: field_def)

lemma unat_le_word: "unat (x :: 'a :: len word) < 2 ^ LENGTH('a)"
  by (rule unsigned_less)

lemma le_val_word [simp]:
  "le_val (le_bytes 8 (unat (x :: 64 word))) = unat x"
  "le_val (le_bytes 4 (unat (y :: 32 word))) = unat y"
  "le_val (le_bytes 2 (unat (z :: 16 word))) = unat z"
  using unat_le_word [of x] unat_le_word [of y] unat_le_word [of z]
  by (simp_all add: le_val_bytes)

lemma record_header_fields:
  assumes "rec_clk r < 2 ^ 64" and "rec_size r < 2 ^ 64"
  shows "field 8 8 (record_header r @ rest) = unat (rec_id r)"
    "field 16 8 (record_header r @ rest) = rec_clk r"
    "field 24 2 (record_header r @ rest) = unat (rec_chain r)"
    "field 26 2 (record_header r @ rest) = unat (rec_type r)"
    "field 28 4 (record_header r @ rest) = unat (rec_reason r)"
    "field 32 4 (record_header r @ rest) = unat (rec_kind r)"
    "field 40 8 (record_header r @ rest) = rec_size r"
    "field 48 8 (record_header r @ rest) = unat (rec_pc r)"
  using assms by (simp_all add: record_header_def field_def le_val_bytes_id)

lemma record_of_header_header:
  assumes "record_wf r"
  shows "record_of_header (record_header r) = r\<lparr>rec_data := replicate (rec_size r) 0\<rparr>"
  using record_header_fields [of r "[]"] assms
  by (simp add: record_of_header_def record_alloc_def record_wf_def)

section \<open>Streams\<close>

text \<open>
  A file stream: the bytes of the file and the position of the descriptor. A read returns at most
  the bytes that are left; a write extends the file (regular files, no short writes).
\<close>

record stream =
  st_bytes :: "byte list"
  st_pos :: nat

definition stream_file_read :: "stream \<Rightarrow> nat \<Rightarrow> byte list \<times> stream" where
  "stream_file_read s n =
     (let bs = take n (drop (st_pos s) (st_bytes s)) in (bs, s\<lparr>st_pos := st_pos s + length bs\<rparr>))"

definition stream_file_write :: "stream \<Rightarrow> byte list \<Rightarrow> nat \<times> stream" where
  "stream_file_write s bs =
     (length bs,
      s\<lparr>st_bytes := take (st_pos s) (st_bytes s) @ bs @ drop (st_pos s + length bs) (st_bytes s),
        st_pos := st_pos s + length bs\<rparr>)"

definition stream_file_reset :: "stream \<Rightarrow> stream" where
  "stream_file_reset s = s\<lparr>st_pos := 0\<rparr>"

definition st_rest :: "stream \<Rightarrow> byte list" where
  "st_rest s = drop (st_pos s) (st_bytes s)"

lemma st_rest_read [simp]:
  "stream_file_read s n = (take n (st_rest s), s\<lparr>st_pos := st_pos s + length (take n (st_rest s))\<rparr>)"
  by (simp add: stream_file_read_def st_rest_def Let_def)

lemma st_rest_advance [simp]: "st_rest (s\<lparr>st_pos := st_pos s + n\<rparr>) = drop n (st_rest s)"
  by (simp add: st_rest_def add.commute)

text \<open>Reading one record, header and payload, as both trace readers do.\<close>

definition read_record :: "stream \<Rightarrow> (record_t option \<times> nat \<times> stream) result" where
  "read_record st =
     (let (hd, st1) = stream_file_read st record_hsz in
      if length hd \<noteq> record_hsz then Inr (None, length hd, st1)
      else let r = record_of_header hd;
               (pl, st2) = stream_file_read st1 (rec_size r) in
        assertr (length pl = rec_size r) (Inr (Some (r\<lparr>rec_data := pl\<rparr>), length hd, st2)))"

lemma read_record_progress:
  "read_record st = Inr (Some r, n, st') \<Longrightarrow> length (st_rest st') < length (st_rest st)"
  by (auto simp: read_record_def Let_def assertr_eq_Inr record_hsz_def st_rest_def min_def
      split: if_splits)

lemma read_record_end: "st_rest st = [] \<Longrightarrow> read_record st = Inr (None, 0, st)"
  by (simp add: read_record_def record_hsz_def)

lemma read_record_bytes:
  assumes "st_rest st = record_bytes r @ rest" and "record_wf r"
  shows "\<exists>st'. read_record st = Inr (Some r, record_hsz, st') \<and> st_rest st' = rest \<and>
    st_bytes st' = st_bytes st"
proof -
  let ?h = "record_header r" and ?d = "rec_data r"
  have d: "take (rec_size r) ?d = ?d" "length ?d = rec_size r" using assms(2) by (auto simp: record_wf_def)
  have rest: "st_rest st = ?h @ ?d @ rest" using assms(1) d by (simp add: record_bytes_def)
  have h: "take record_hsz (st_rest st) = ?h" and dr: "drop record_hsz (st_rest st) = ?d @ rest"
    by (simp_all add: rest)
  let ?st1 = "st\<lparr>st_pos := st_pos st + record_hsz\<rparr>"
  let ?st2 = "?st1\<lparr>st_pos := st_pos ?st1 + rec_size r\<rparr>"
  have r1: "st_rest ?st1 = ?d @ rest" using st_rest_advance [of st record_hsz] dr by simp
  have "st_rest ?st2 = drop (rec_size r) (st_rest ?st1)" by (rule st_rest_advance)
  also have "\<dots> = rest" unfolding r1 using d by simp
  finally have r2: "st_rest ?st2 = rest" .
  have "read_record st = Inr (Some r, record_hsz, ?st2)"
    using h r1 d record_of_header_header [OF assms(2)] by (simp add: read_record_def Let_def)
  with r2 show ?thesis by auto
qed

end
