(* ===== verification/Plan.thy ===== *)
theory Plan
  imports Record_Base
begin

text \<open>
  Plans (\<^verbatim>\<open>src/engine/plan.c\<close>), the pseudo random generator (\<^verbatim>\<open>src/engine/prng.c\<close>) and the record
  granularities (\<^verbatim>\<open>src/base/record_granularity.c\<close>).

  A plan is the bit set of actions the switcher still has to perform for one captured event. The
  lemmas show that \<^verbatim>\<open>plan_next\<close> and \<^verbatim>\<open>plan_done\<close> walk through the actions from the lowest bit up,
  each exactly once, and then stop.
\<close>

section \<open>Actions\<close>

type_synonym actions = "32 word"

definition ACTION_NONE :: actions where "ACTION_NONE = 0x000"
definition ACTION_WAKE :: actions where "ACTION_WAKE = 0x001"
definition ACTION_BLOCK :: actions where "ACTION_BLOCK = 0x004"
definition ACTION_RETURN :: actions where "ACTION_RETURN = 0x008"
definition ACTION_YIELD :: actions where "ACTION_YIELD = 0x010"
definition ACTION_RESUME :: actions where "ACTION_RESUME = 0x020"
definition ACTION_CONTINUE :: actions where "ACTION_CONTINUE = 0x040"
definition ACTION_SNAPSHOT :: actions where "ACTION_SNAPSHOT = 0x080"
definition ACTION_SHUTDOWN :: actions where "ACTION_SHUTDOWN = 0x100"
definition ACTION_END :: actions where "ACTION_END = 0x200"

lemmas action_defs = ACTION_NONE_def ACTION_WAKE_def ACTION_BLOCK_def ACTION_RETURN_def
  ACTION_YIELD_def ACTION_RESUME_def ACTION_CONTINUE_def ACTION_SNAPSHOT_def ACTION_SHUTDOWN_def
  ACTION_END_def

datatype replay_type = REPLAY_OFF | REPLAY_ANY_TASK | REPLAY_ON

text \<open>
  The values of the function pointer \<^verbatim>\<open>any_task_filter\<close>: the \<^verbatim>\<open>_should_wait\<close> functions of the modules
  that set it. The function is called later and reads the state its module has then, so the pointer
  is represented by its name and not by a closure.
\<close>

datatype task_filter =
    MUTEX_SHOULD_WAIT | RWLOCK_SHOULD_WAIT | JOIN_SHOULD_WAIT | POLL_SHOULD_WAIT
  | SLEEP_SHOULD_WAIT | EVEC_SHOULD_WAIT

record plan =
  p_actions :: actions
  p_next :: task_id
  p_with_slack :: bool
  p_reason :: reason
  p_replay_type :: replay_type
  p_clk :: clk
  p_any_task_filter :: "task_filter option"

section \<open>plan.c\<close>

text \<open>The loop \<^verbatim>\<open>for (i = 1; i < ACTION_END_; i <<= 1)\<close>.\<close>

function plan_next_loop :: "actions \<Rightarrow> actions \<Rightarrow> actions" where
  "plan_next_loop acts i =
     (if 0 < i \<and> i < ACTION_END then
        if acts AND i \<noteq> 0 then i else plan_next_loop acts (push_bit 1 i)
      else ACTION_NONE)"
  by pat_completeness auto

lemma push_bit_unat:
  assumes "i < ACTION_END"
  shows "unat (push_bit 1 i :: actions) = 2 * unat i"
proof -
  have "unat i < unat ACTION_END" using assms by (simp add: word_less_nat_alt)
  then have "unat i < 512" by (simp add: ACTION_END_def)
  then show ?thesis by (simp add: push_bit_eq_mult unat_word_ariths)
qed

termination plan_next_loop
proof (relation "measure (\<lambda>(acts, i). 1024 - unat i)")
  fix acts i :: actions
  assume "0 < i \<and> i < ACTION_END"
  then have "unat (push_bit 1 i) = 2 * unat i" "0 < unat i" "unat i < 512"
    using push_bit_unat [of i]
    by (auto simp: word_less_nat_alt ACTION_END_def)
  then show "((acts, push_bit 1 i), acts, i) \<in> measure (\<lambda>(acts, i). 1024 - unat i)" by simp
qed simp

declare plan_next_loop.simps [simp del]

definition plan_next :: "plan \<Rightarrow> actions" where
  "plan_next p = plan_next_loop (p_actions p) 1"

definition plan_done :: "plan \<Rightarrow> bool \<times> plan" where
  "plan_done p =
     (let a = plan_next p; p' = p\<lparr>p_actions := p_actions p AND NOT a\<rparr> in
      (p_actions p' = ACTION_NONE, p'))"

definition plan_has :: "plan \<Rightarrow> actions \<Rightarrow> bool" where
  "plan_has p a \<longleftrightarrow> p_actions p AND a = a"

text \<open>
  \<^verbatim>\<open>action_str\<close> indexes an array whose unnamed entries are null; an index of \<^verbatim>\<open>ACTION_END_\<close> or more
  is refused by the assertion.
\<close>

definition action_str :: "actions \<Rightarrow> string option result" where
  "action_str a =
     assertr (a < ACTION_END)
       (if unat a > 0x100 then Inl Fault
        else if a = ACTION_NONE then Inr (Some ''NONE'')
        else if a = ACTION_WAKE then Inr (Some ''WAKE'')
        else if a = ACTION_BLOCK then Inr (Some ''BLOCK'')
        else if a = ACTION_RETURN then Inr (Some ''RETURN'')
        else if a = ACTION_YIELD then Inr (Some ''YIELD'')
        else if a = ACTION_RESUME then Inr (Some ''RESUME'')
        else if a = ACTION_CONTINUE then Inr (Some ''CONTINUE'')
        else if a = ACTION_SNAPSHOT then Inr (Some ''SNAPSHOT'')
        else if a = ACTION_SHUTDOWN then Inr (Some ''SHUTDOWN'')
        else Inr None)"

section \<open>prng.c\<close>

text \<open>
  \<open>rr\<close> is the C library's \<^verbatim>\<open>rand_r\<close>: from a seed to the drawn number and the next seed. The seed is an
  unsigned integer of 32 bits; \<^verbatim>\<open>rand_r\<close> returns a non-negative \<^verbatim>\<open>int\<close>.
\<close>

type_synonym rand_r = "32 word \<Rightarrow> nat \<times> 32 word"

definition PRNG_MASK :: "64 word" where
  "PRNG_MASK = 0xFFFFFFFF"

definition prng_seed :: "32 word \<Rightarrow> 64 word" where
  "prng_seed seed = ucast seed"

definition prng_next :: "rand_r \<Rightarrow> 32 word \<Rightarrow> 64 word \<times> 32 word" where
  "prng_next rr seed = (let (v, seed') = rr seed in (of_nat v AND PRNG_MASK, seed'))"

definition prng_range :: "rand_r \<Rightarrow> 32 word \<Rightarrow> 64 word \<Rightarrow> 64 word \<Rightarrow> (64 word \<times> 32 word) result" where
  "prng_range rr seed mn mx =
     assertr (mx > mn)
       (let (v, seed') = prng_next rr seed; range = mx - mn in
        Inr (mn + v mod range, seed'))"

section \<open>record\_granularity.c\<close>

definition RECORD_GRANULARITY_MINIMAL :: "64 word" where "RECORD_GRANULARITY_MINIMAL = 0x0"
definition RECORD_GRANULARITY_SWITCH :: "64 word" where "RECORD_GRANULARITY_SWITCH = 0x1"
definition RECORD_GRANULARITY_CHPT :: "64 word" where "RECORD_GRANULARITY_CHPT = 0x2"
definition RECORD_GRANULARITY_CAPTURE :: "64 word" where "RECORD_GRANULARITY_CAPTURE = 0x4"
definition RECORD_GRANULARITY_ANY :: "64 word" where "RECORD_GRANULARITY_ANY = 0xFFFFFFFF"
definition RECORD_GRANULARITY_INVALID :: "64 word" where "RECORD_GRANULARITY_INVALID = -1"
definition RECORD_GRANULARITIES_MAX_LEN :: nat where "RECORD_GRANULARITIES_MAX_LEN = 256"

lemmas granularity_defs = RECORD_GRANULARITY_MINIMAL_def RECORD_GRANULARITY_SWITCH_def
  RECORD_GRANULARITY_CHPT_def RECORD_GRANULARITY_CAPTURE_def RECORD_GRANULARITY_ANY_def
  RECORD_GRANULARITY_INVALID_def

definition record_granularities_have :: "64 word \<Rightarrow> 64 word \<Rightarrow> bool" where
  "record_granularities_have gs g \<longleftrightarrow> g = 0 \<or> gs AND g \<noteq> 0"

text \<open>The table of names; index 3 is a null pointer.\<close>

definition record_granularity_map :: "(nat \<times> string) list" where
  "record_granularity_map = [(0, ''MINIMAL''), (1, ''SWITCH''), (2, ''CHPT''), (4, ''CAPTURE'')]"

text \<open>The loop \<^verbatim>\<open>for (i = 1; i < 5; i <<= 1)\<close> visits 1, 2 and 4.\<close>

fun granularity_names :: "nat list \<Rightarrow> 64 word \<Rightarrow> string \<Rightarrow> string" where
  "granularity_names [] g dst = dst"
| "granularity_names (i # is) g dst =
     (case map_of record_granularity_map i of
        None \<Rightarrow> granularity_names is g dst
      | Some val \<Rightarrow>
          if of_nat i AND g \<noteq> 0
          then granularity_names is g ((if dst = [] then dst else dst @ ''|'') @ val)
          else granularity_names is g dst)"

definition record_granularities_str :: "64 word \<Rightarrow> string" where
  "record_granularities_str g =
     (if g = RECORD_GRANULARITY_ANY then ''ANY''
      else if g = RECORD_GRANULARITY_MINIMAL then ''MINIMAL''
      else granularity_names [1, 2, 4] g [])"

definition upr :: "char \<Rightarrow> char" where
  "upr c = (if of_char c \<ge> (97 :: nat) \<and> of_char c \<le> (122 :: nat) then char_of (of_char c - 32 :: nat) else c)"

text \<open>The tokens \<^verbatim>\<open>strtok\<close> yields: maximal runs of characters that are not separators.\<close>

fun tokens :: "string \<Rightarrow> string \<Rightarrow> string list" where
  "tokens [] cur = (if cur = [] then [] else [cur])"
| "tokens (c # cs) cur =
     (if c \<in> set '':|,'' then (if cur = [] then tokens cs [] else cur # tokens cs [])
      else tokens cs (cur @ [c]))"

fun granularity_token :: "string \<Rightarrow> 64 word option" where
  "granularity_token tok =
     (if tok = ''ANY'' then Some RECORD_GRANULARITY_ANY
      else map_option (\<lambda>(i, _). of_nat i) (find (\<lambda>(_, n). n = tok) record_granularity_map))"

fun granularity_tokens :: "string list \<Rightarrow> 64 word \<Rightarrow> 64 word" where
  "granularity_tokens [] g = g"
| "granularity_tokens (tok # toks) g =
     (case granularity_token tok of
        None \<Rightarrow> RECORD_GRANULARITY_INVALID
      | Some b \<Rightarrow> granularity_tokens toks (g OR b))"

text \<open>\<open>None\<close> is the null pointer.\<close>

fun record_granularities_from :: "string option \<Rightarrow> 64 word" where
  "record_granularities_from None = RECORD_GRANULARITY_MINIMAL"
| "record_granularities_from (Some src) =
     (if src = [] then RECORD_GRANULARITY_INVALID
      else if length src \<ge> RECORD_GRANULARITIES_MAX_LEN then RECORD_GRANULARITY_INVALID
      else let text = map upr src in
        if text = ''ANY'' then RECORD_GRANULARITY_ANY else granularity_tokens (tokens text []) 0)"

section \<open>Lemmas on plans\<close>

text \<open>The scan visits the bits 0 to 8 in order.\<close>

lemma plan_next_unfold:
  "plan_next p = (case filter (\<lambda>k. bit (p_actions p) k) [0..<9] of [] \<Rightarrow> 0 | k # _ \<Rightarrow> push_bit k 1)"
proof -
  have step: "plan_next_loop a (push_bit k 1) =
      (if bit a k then push_bit k 1 else plan_next_loop a (push_bit (Suc k) 1))" if "k < 9" for a k
  proof -
    have k: "k \<in> {0, 1, 2, 3, 4, 5, 6, 7, 8}" using that by auto
    have "0 < (push_bit k 1 :: actions) \<and> (push_bit k 1 :: actions) < ACTION_END"
      using k by (auto simp: ACTION_END_def)
    moreover have "(a AND push_bit k 1 \<noteq> 0) = bit a k"
      by (simp add: bit_iff_and_push_bit_not_eq_0)
    ultimately show ?thesis
      by (simp add: plan_next_loop.simps [of a "2 ^ k"] mult.commute)
  qed
  have last: "plan_next_loop a (push_bit 9 1) = 0" for a
    by (simp add: plan_next_loop.simps [of a] ACTION_END_def ACTION_NONE_def)
  have scan: "n \<le> 9 \<Longrightarrow> plan_next_loop a (push_bit (9 - n) 1) =
      (case filter (\<lambda>k. bit a k) [9 - n..<9] of [] \<Rightarrow> 0 | k # _ \<Rightarrow> push_bit k 1)" for a n
  proof (induction n)
    case 0
    then show ?case using last [of a] by simp
  next
    case (Suc n)
    have s: "Suc (9 - Suc n) = 9 - n" using Suc.prems by simp
    have u: "[9 - Suc n..<9] = (9 - Suc n) # [9 - n..<9]"
      using upt_conv_Cons [of "9 - Suc n" 9, unfolded s] by simp
    show ?case
      using step [of "9 - Suc n" a] Suc u s by simp
  qed
  show ?thesis using scan [of 9 "p_actions p"] by (simp add: plan_next_def)
qed

text \<open>The actions of a plan, lowest bit first.\<close>

definition plan_bits :: "actions \<Rightarrow> nat list" where
  "plan_bits a = filter (\<lambda>k. bit a k) [0..<9]"

definition plan_list :: "plan \<Rightarrow> actions list" where
  "plan_list p = map (\<lambda>k. push_bit k 1) (plan_bits (p_actions p))"

lemma bit_below_end: "a < ACTION_END \<Longrightarrow> bit a k \<Longrightarrow> k < 9"
proof (rule ccontr)
  assume a: "a < ACTION_END" and b: "bit a k" and "\<not> k < 9"
  have "unat a < 2 ^ 9" using a by (simp add: word_less_nat_alt ACTION_END_def)
  then have "take_bit 9 (unat a) = unat a" by (simp add: take_bit_nat_eq_self)
  moreover have "bit (unat a) k" using b by (simp add: bit_unsigned_iff bit_imp_possible_bit)
  ultimately have "bit (take_bit 9 (unat a)) k" by simp
  with \<open>\<not> k < 9\<close> show False by (simp add: bit_take_bit_iff)
qed

lemma plan_bits_empty: "a < ACTION_END \<Longrightarrow> plan_bits a = [] \<longleftrightarrow> a = 0"
proof -
  assume a: "a < ACTION_END"
  have "plan_bits a = [] \<longleftrightarrow> (\<forall>k. \<not> bit a k)"
    using bit_below_end [OF a] by (auto simp: plan_bits_def filter_empty_conv)
  also have "\<dots> \<longleftrightarrow> a = 0" by (auto intro: bit_eqI)
  finally show ?thesis .
qed

lemma plan_bits_clear:
  assumes "plan_bits a = k # ks"
  shows "plan_bits (a AND NOT (push_bit k 1)) = ks"
proof -
  have "bit (a AND NOT (push_bit k 1)) j \<longleftrightarrow> bit a j \<and> j \<noteq> k" if "j < 9" for j
    using that by (auto simp: bit_and_iff bit_not_iff bit_exp_iff possible_bit_def)
  then have "plan_bits (a AND NOT (push_bit k 1)) = filter (\<lambda>j. bit a j \<and> j \<noteq> k) [0..<9]"
    unfolding plan_bits_def by (intro filter_cong) auto
  also have "\<dots> = filter (\<lambda>j. j \<noteq> k) (plan_bits a)" by (simp add: plan_bits_def conj_commute)
  also have "\<dots> = ks"
  proof -
    have "distinct (plan_bits a)" by (simp add: plan_bits_def)
    with assms show ?thesis by (auto intro: filter_True)
  qed
  finally show ?thesis .
qed

lemma and_not_less: "a < ACTION_END \<Longrightarrow> a AND b < ACTION_END"
  by (rule le_less_trans [OF word_and_le2]) simp

lemma plan_next_list: "plan_next p = (case plan_list p of [] \<Rightarrow> ACTION_NONE | a # _ \<Rightarrow> a)"
  by (auto simp: plan_next_unfold plan_list_def plan_bits_def ACTION_NONE_def split: list.split)

lemma plan_done_list:
  assumes "p_actions p < ACTION_END" and "p_actions p \<noteq> 0"
  shows "\<exists>p'. plan_done p = (tl (plan_list p) = [], p') \<and> plan_list p' = tl (plan_list p) \<and>
    p_actions p' < ACTION_END \<and> p' = p\<lparr>p_actions := p_actions p'\<rparr>"
proof -
  obtain k ks where k: "plan_bits (p_actions p) = k # ks"
    using plan_bits_empty [OF assms(1)] assms(2) by (cases "plan_bits (p_actions p)") auto
  then have n: "plan_next p = push_bit k 1" by (simp add: plan_next_list plan_list_def)
  let ?a = "p_actions p AND NOT (push_bit k 1)"
  have "?a < ACTION_END" using and_not_less [OF assms(1)] .
  then show ?thesis
    using n k plan_bits_clear [OF k] plan_bits_empty [of ?a]
    by (auto simp: plan_done_def Let_def plan_list_def ACTION_NONE_def)
qed

lemma unat_bit: "k < 9 \<Longrightarrow> unat (push_bit k 1 :: actions) = 2 ^ k"
proof -
  assume "k < 9"
  then have "k \<in> {0, 1, 2, 3, 4, 5, 6, 7, 8}" by auto
  then show ?thesis by auto
qed

section \<open>Properties\<close>

text \<open>
  The client side of a plan: take the next action, perform it, report it done, until
  \<^verbatim>\<open>plan_done\<close> says that nothing is left. \<open>n\<close> bounds the number of rounds.
\<close>

primrec plan_run :: "nat \<Rightarrow> plan \<Rightarrow> actions list" where
  "plan_run 0 p = []"
| "plan_run (Suc n) p =
     plan_next p # (case plan_done p of (d, p') \<Rightarrow> if d then [] else plan_run n p')"

lemma plan_run_list:
  "p_actions p < ACTION_END \<Longrightarrow> p_actions p \<noteq> 0 \<Longrightarrow> length (plan_list p) \<le> n \<Longrightarrow> plan_run n p = plan_list p"
proof (induction n arbitrary: p)
  case 0
  then show ?case using plan_bits_empty [of "p_actions p"] by (simp add: plan_list_def)
next
  case (Suc n)
  obtain a as where l: "plan_list p = a # as"
    using plan_bits_empty [OF Suc.prems(1)] Suc.prems(2) by (cases "plan_list p") (auto simp: plan_list_def)
  obtain p' where p': "plan_done p = (as = [], p')" "plan_list p' = as" "p_actions p' < ACTION_END"
    using plan_done_list [OF Suc.prems(1,2)] l by auto
  show ?case
  proof (cases "as = []")
    case True
    with p' l show ?thesis by (simp add: plan_next_list)
  next
    case False
    then have "p_actions p' \<noteq> 0"
      using plan_bits_empty [OF p'(3)] p'(2) by (auto simp: plan_list_def)
    with Suc.IH [OF p'(3)] Suc.prems(3) p' l False show ?thesis by (simp add: plan_next_list)
  qed
qed

text \<open>
  Executing a plan with \<^verbatim>\<open>plan_next\<close> and \<^verbatim>\<open>plan_done\<close> performs each of its actions exactly once,
  in ascending order of the action bits, and \<^verbatim>\<open>plan_done\<close> reports the end after the last one; nine
  rounds are always enough.
\<close>

theorem plan_run_all_once:
  assumes "p_actions p < ACTION_END" and "p_actions p \<noteq> ACTION_NONE"
  shows "plan_run 9 p = plan_list p \<and> distinct (plan_list p) \<and> sorted (plan_list p) \<and>
    (\<forall>k<9. push_bit k 1 \<in> set (plan_list p) \<longleftrightarrow> plan_has p (push_bit k 1))"
proof (intro conjI allI impI)
  have "length (plan_bits (p_actions p)) \<le> 9"
    using length_filter_le [of "\<lambda>k. bit (p_actions p) k" "[0..<9]"] by (simp add: plan_bits_def)
  then show "plan_run 9 p = plan_list p"
    using plan_run_list assms by (simp add: plan_list_def ACTION_NONE_def)
  have mono: "(push_bit i 1 :: actions) < push_bit j 1" if "i < j" "j < 9" for i j
    using that unat_bit [of i] unat_bit [of j] by (simp add: word_less_nat_alt)
  have "sorted_wrt (<) (plan_bits (p_actions p))"
    by (simp add: plan_bits_def sorted_wrt_filter)
  then have "sorted_wrt (\<lambda>i j. (push_bit i 1 :: actions) < push_bit j 1) (plan_bits (p_actions p))"
    by (rule sorted_wrt_mono_rel [rotated]) (use mono in \<open>auto simp: plan_bits_def\<close>)
  then have s: "sorted_wrt (<) (plan_list p)" by (simp add: plan_list_def sorted_wrt_map)
  then show "distinct (plan_list p)" "sorted (plan_list p)"
    by (simp_all add: strict_sorted_iff)
  fix k :: nat assume k: "k < 9"
  have inj: "push_bit i 1 = (push_bit k 1 :: actions) \<longleftrightarrow> i = k" if "i < 9" for i
    using mono [of i k] mono [of k i] that k by (cases i k rule: linorder_cases) auto
  have "push_bit k 1 \<in> set (plan_list p) \<longleftrightarrow> (\<exists>i<9. bit (p_actions p) i \<and> push_bit i 1 = (push_bit k 1 :: actions))"
    unfolding plan_list_def plan_bits_def set_map set_filter image_iff Bex_def mem_Collect_eq set_upt
      atLeastLessThan_iff by (metis le0)
  also have "\<dots> \<longleftrightarrow> bit (p_actions p) k" using inj k by blast
  also have "\<dots> \<longleftrightarrow> plan_has p (push_bit k 1)"
  proof -
    have "p_actions p AND push_bit k 1 = (if bit (p_actions p) k then push_bit k 1 else 0)"
      by (rule bit_eqI) (auto simp: bit_and_iff bit_exp_iff)
    moreover have "(push_bit k 1 :: actions) \<noteq> 0" using unat_bit [OF k] k by auto
    ultimately show ?thesis by (simp add: plan_has_def)
  qed
  finally show "push_bit k 1 \<in> set (plan_list p) \<longleftrightarrow> plan_has p (push_bit k 1)" .
qed

theorem plan_run_all_once_witness:
  "plan_run 9 \<lparr>p_actions = ACTION_WAKE OR ACTION_YIELD OR ACTION_RESUME, p_next = 5, p_with_slack = False,
     p_reason = REASON_DETERMINISTIC, p_replay_type = REPLAY_OFF, p_clk = 3, p_any_task_filter = None\<rparr>
   = [ACTION_WAKE, ACTION_YIELD, ACTION_RESUME]"
proof -
  let ?p = "\<lparr>p_actions = ACTION_WAKE OR ACTION_YIELD OR ACTION_RESUME, p_next = 5, p_with_slack = False,
     p_reason = REASON_DETERMINISTIC, p_replay_type = REPLAY_OFF, p_clk = 3, p_any_task_filter = None\<rparr>"
  have a: "p_actions ?p < ACTION_END" "p_actions ?p \<noteq> ACTION_NONE" by (simp_all add: action_defs)
  have "plan_list ?p = [ACTION_WAKE, ACTION_YIELD, ACTION_RESUME]"
    by (simp add: plan_list_def plan_bits_def action_defs upt_rec bit_numeral_simps)
  with plan_run_all_once [OF a] show ?thesis by simp
qed

lemma prng_bounds:
  "if mn < mx then \<exists>v seed'. prng_range rr seed mn mx = Inr (v, seed') \<and> mn \<le> v \<and> v < mx
   else prng_range rr seed mn mx = Inl AssertFailed"
proof (cases "mn < mx")
  case True
  obtain r s where r: "prng_next rr seed = (r, s)" by (cases "prng_next rr seed")
  let ?m = "r mod (mx - mn)"
  have le: "unat mn < unat mx" using True by (simp add: word_less_nat_alt)
  have d: "unat (mx - mn) = unat mx - unat mn" using True by (simp add: unat_sub)
  then have "unat ?m < unat mx - unat mn" using le by (simp add: unat_mod)
  then have sum: "unat mn + unat ?m < unat mx" by simp
  also have "unat mx < 2 ^ 64" using unat_le_word [of mx] by simp
  finally have "unat (mn + ?m) = unat mn + unat ?m" by (simp add: unat_word_ariths)
  with sum have "mn \<le> mn + ?m" "mn + ?m < mx" by (simp_all add: word_le_nat_alt word_less_nat_alt)
  with True r show ?thesis by (simp add: prng_range_def)
qed (simp add: prng_range_def)

text \<open>
  \<^verbatim>\<open>prng_range\<close> returns a number in the half open interval it is asked for, whatever
  \<^verbatim>\<open>rand_r\<close> returns, and the sum does not wrap around; an empty interval fails the assertion.
\<close>

theorem prng_range_bounds:
  "if mn < mx then \<exists>v seed'. prng_range rr seed mn mx = Inr (v, seed') \<and> mn \<le> v \<and> v < mx
   else prng_range rr seed mn mx = Inl AssertFailed"
  by (rule prng_bounds)

text \<open>
  Parsing the printed form of a set of record granularities gives the set back, for every
  combination of the granularities that exist and for \<^verbatim>\<open>ANY\<close>.
\<close>

theorem record_granularities_roundtrip:
  "\<forall>g\<in>{0, 1, 2, 3, 4, 5, 6, 7, RECORD_GRANULARITY_ANY}.
     record_granularities_from (Some (record_granularities_str g)) = g"
  by (simp add: record_granularities_str_def record_granularity_map_def granularity_defs upr_def
      RECORD_GRANULARITIES_MAX_LEN_def)

theorem record_granularities_roundtrip_witness:
  "record_granularities_from (Some (record_granularities_str 5)) = 5"
  using record_granularities_roundtrip by simp

end
