(* ===== verification/Trace_Spec.thy ===== *)
theory Trace_Spec
  imports Record_Base
begin

text \<open>
  The reading contract of \<^verbatim>\<open>include/lotto/base/trace.h\<close>: \<^verbatim>\<open>trace_next\<close> skips the records that do
  not match the filter and returns the first one that does, without consuming it, and
  \<^verbatim>\<open>trace_advance\<close> consumes it. \<open>pend\<close> is the list of records a trace has still to deliver;
  \<open>primed\<close> says that the last \<^verbatim>\<open>trace_next\<close> returned a record, the only situation in which both
  implementations agree on what \<^verbatim>\<open>trace_advance\<close> does.
\<close>

definition matches :: "kinds \<Rightarrow> record_t \<Rightarrow> bool" where
  "matches f r \<longleftrightarrow> rec_kind r AND f \<noteq> 0"

definition skip :: "kinds \<Rightarrow> record_t list \<Rightarrow> record_t list" where
  "skip f rs = dropWhile (\<lambda>r. \<not> matches f r) rs"

definition first_rec :: "record_t list \<Rightarrow> record_t option" where
  "first_rec rs = (case rs of [] \<Rightarrow> None | r # _ \<Rightarrow> Some r)"

lemma first_rec_simps [simp]: "first_rec [] = None" "first_rec (r # rs) = Some r"
  by (simp_all add: first_rec_def)

lemma skip_simps [simp]:
  "skip f [] = []"
  "matches f r \<Longrightarrow> skip f (r # rs) = r # rs"
  "\<not> matches f r \<Longrightarrow> skip f (r # rs) = skip f rs"
  by (simp_all add: skip_def)

lemma skip_skip [simp]: "skip f (skip f rs) = skip f rs"
  by (induction rs) (auto simp: skip_def)

lemma skip_filter: "filter (matches f) (skip f rs) = filter (matches f) rs"
  by (induction rs) (auto simp: skip_def)

lemma skip_eq_Nil: "skip f rs = [] \<longleftrightarrow> filter (matches f) rs = []"
  by (simp add: skip_def dropWhile_eq_Nil_conv filter_empty_conv)

lemma skip_ConsD:
  assumes "skip f rs = r # rs'"
  shows "matches f r" and "length rs' < length rs"
proof -
  show "matches f r" using assms by (simp add: skip_def dropWhile_eq_Cons_conv)
  have "length (skip f rs) \<le> length rs" by (simp add: skip_def length_dropWhile_le)
  with assms show "length rs' < length rs" by simp
qed

lemma matches_any [simp]: "matches RECORD_ANY r \<longleftrightarrow> rec_kind r \<noteq> RECORD_NONE"
  by (simp add: matches_def RECORD_ANY_def RECORD_NONE_def)

locale trace_reader =
  fixes pend :: "'t \<Rightarrow> record_t list"
    and inv :: "'t \<Rightarrow> bool"
    and primed :: "'t \<Rightarrow> bool"
    and nx :: "'t \<Rightarrow> kinds \<Rightarrow> (record_t option \<times> 't) result"
    and adv :: "'t \<Rightarrow> 't result"
  assumes nx_law: "inv t \<Longrightarrow> \<exists>t'. nx t f = Inr (first_rec (skip f (pend t)), t') \<and> inv t' \<and>
        pend t' = skip f (pend t) \<and> (pend t' \<noteq> [] \<longrightarrow> primed t')"
    and adv_law: "inv t \<Longrightarrow> primed t \<Longrightarrow> \<exists>t'. adv t = Inr t' \<and> inv t' \<and> pend t' = tl (pend t)"
begin

text \<open>Until the trace is advanced, the same filter returns the same record.\<close>

lemma nx_stable:
  assumes "inv t" and "nx t f = Inr (r, t1)"
  shows "\<exists>t2. nx t1 f = Inr (r, t2) \<and> inv t2 \<and> pend t2 = pend t1"
proof -
  have t1: "r = first_rec (skip f (pend t))" "inv t1" "pend t1 = skip f (pend t)"
    using nx_law [OF assms(1), of f] assms(2) by auto
  then show ?thesis using nx_law [OF t1(2), of f] by auto
qed

lemma nx_None:
  assumes "inv t" and "nx t f = Inr (None, t')"
  shows "filter (matches f) (pend t) = [] \<and> inv t' \<and> pend t' = []"
proof -
  have "first_rec (skip f (pend t)) = None" "inv t'" "pend t' = skip f (pend t)"
    using nx_law [OF assms(1), of f] assms(2) by auto
  then show ?thesis by (cases "skip f (pend t)") (auto simp: skip_eq_Nil)
qed

lemma nx_Some:
  assumes "inv t" and "nx t f = Inr (Some r, t')"
  shows "inv t' \<and> primed t' \<and> matches f r \<and> pend t' = skip f (pend t) \<and> pend t' = r # tl (pend t')"
proof -
  have "first_rec (skip f (pend t)) = Some r" "inv t'" "pend t' = skip f (pend t)"
    "pend t' \<noteq> [] \<longrightarrow> primed t'"
    using nx_law [OF assms(1), of f] assms(2) by auto
  then show ?thesis by (cases "skip f (pend t)") (auto dest: skip_ConsD)
qed

lemma nx_adv:
  assumes "inv t" and "nx t f = Inr (Some r, t1)"
  shows "\<exists>t2. adv t1 = Inr t2 \<and> inv t2 \<and> skip f (pend t) = r # pend t2"
proof -
  have t1: "inv t1" "primed t1" "pend t1 = skip f (pend t)" "pend t1 = r # tl (pend t1)"
    using nx_Some [OF assms] by auto
  then show ?thesis using adv_law [OF t1(1,2)] by auto
qed

text \<open>Reading at most \<open>n\<close> records of the kinds \<open>f\<close>.\<close>

primrec read_n :: "nat \<Rightarrow> kinds \<Rightarrow> 't \<Rightarrow> (record_t list \<times> 't) result" where
  "read_n 0 f t = Inr ([], t)"
| "read_n (Suc n) f t =
     bindr (nx t f) (\<lambda>(r, t1). case r of
        None \<Rightarrow> Inr ([], t1)
      | Some r \<Rightarrow> bindr (adv t1) (\<lambda>t2. bindr (read_n n f t2) (\<lambda>(rs, t3). Inr (r # rs, t3))))"

lemma read_n_spec:
  "inv t \<Longrightarrow> \<exists>t'. read_n n f t = Inr (take n (filter (matches f) (pend t)), t') \<and> inv t'"
proof (induction n arbitrary: t)
  case (Suc n)
  obtain r t1 where nx: "nx t f = Inr (r, t1)"
    using nx_law [OF Suc.prems, of f] by auto
  show ?case
  proof (cases r)
    case None
    then show ?thesis using nx_None [OF Suc.prems nx [unfolded None]] nx by simp
  next
    case (Some r0)
    then obtain t2 where t2: "adv t1 = Inr t2" "inv t2" "skip f (pend t) = r0 # pend t2"
      using nx_adv [OF Suc.prems nx [unfolded Some]] by blast
    have "filter (matches f) (pend t) = r0 # filter (matches f) (pend t2)"
      using skip_filter [of f "pend t"] skip_ConsD(1) [OF t2(3)] t2(3) by simp
    moreover obtain t3 where "read_n n f t2 = Inr (take n (filter (matches f) (pend t2)), t3)" "inv t3"
      using Suc.IH [OF t2(2)] by blast
    ultimately show ?thesis using nx Some t2(1) by simp
  qed
qed simp

end

end
