(* ===== verification/Trace_Flat.thy ===== *)
theory Trace_Flat
  imports Trace_Spec
begin

text \<open>
  The in-memory trace of \<^verbatim>\<open>src/base/trace_flat.c\<close>: a doubly linked list of heap nodes, each owning
  a record. The heap is modelled explicitly: an address is an index into a list of cells, a freed
  cell holds nothing, and dereferencing it is a fault. The predicate \<open>flat_rel\<close> relates the linked
  structure to the list of records it stands for; every operation is shown to implement the list
  operation it is named after without touching a freed node.
\<close>

section \<open>Data\<close>

record node =
  nd_prev :: "nat option"
  nd_next :: "nat option"
  nd_record :: record_t

type_synonym heap = "node option list"

definition h_get :: "heap \<Rightarrow> nat \<Rightarrow> node result" where
  "h_get h a = (if a < length h then (case h ! a of None \<Rightarrow> Inl Fault | Some n \<Rightarrow> Inr n) else Inl Fault)"

definition h_set :: "heap \<Rightarrow> nat \<Rightarrow> node \<Rightarrow> heap result" where
  "h_set h a n = bindr (h_get h a) (\<lambda>_. Inr (h[a := Some n]))"

definition h_free :: "heap \<Rightarrow> nat \<Rightarrow> heap result" where
  "h_free h a = bindr (h_get h a) (\<lambda>_. Inr (h[a := None]))"

definition live :: "heap \<Rightarrow> nat" where
  "live h = length (filter (\<lambda>c. c \<noteq> None) h)"

record trace_flat =
  tf_head :: "nat option"
  tf_tail :: "nat option"
  tf_heap :: heap
  tf_stream :: stream

section \<open>Operations\<close>

text \<open>\<^verbatim>\<open>_make_node\<close>: a fresh node at the next address.\<close>

definition make_node :: "heap \<Rightarrow> record_t \<Rightarrow> nat \<times> heap" where
  "make_node h r = (length h, h @ [Some \<lparr>nd_prev = None, nd_next = None, nd_record = r\<rparr>])"

definition flat_append :: "trace_flat \<Rightarrow> record_t \<Rightarrow> trace_flat result" where
  "flat_append tf r =
     (let (a, h) = make_node (tf_heap tf) r in
      bindr (case tf_head tf of
          None \<Rightarrow> Inr (Some a, h)
        | Some p \<Rightarrow> (case tf_tail tf of
              None \<Rightarrow> Inl Fault
            | Some q \<Rightarrow> bindr (h_get h q) (\<lambda>n. bindr (h_set h q (n\<lparr>nd_next := Some a\<rparr>)) (\<lambda>h.
                  Inr (Some p, h)))))
        (\<lambda>(p, h).
          bindr (h_get h a) (\<lambda>n. bindr (h_set h a (n\<lparr>nd_prev := tf_tail tf\<rparr>)) (\<lambda>h.
            Inr (tf\<lparr>tf_head := p, tf_heap := h, tf_tail := Some a\<rparr>)))))"

definition flat_pop :: "trace_flat \<Rightarrow> (record_t option \<times> trace_flat) result" where
  "flat_pop tf =
     (case tf_head tf of
        None \<Rightarrow> Inr (None, tf)
      | Some p \<Rightarrow>
          bindr (h_get (tf_heap tf) p) (\<lambda>n.
          bindr (case nd_next n of
              None \<Rightarrow> Inr (tf_heap tf)
            | Some b \<Rightarrow> bindr (h_get (tf_heap tf) b) (\<lambda>m. h_set (tf_heap tf) b (m\<lparr>nd_prev := None\<rparr>))) (\<lambda>h.
          bindr (h_free h p) (\<lambda>h.
            Inr (Some (nd_record n),
              tf\<lparr>tf_head := nd_next n, tf_heap := h,
                 tf_tail := (if tf_tail tf = Some p then nd_next n else tf_tail tf)\<rparr>)))))"

definition flat_advance :: "trace_flat \<Rightarrow> trace_flat result" where
  "flat_advance tf = bindr (flat_pop tf) (\<lambda>(_, tf'). Inr tf')"

section \<open>Termination of the filter loop\<close>

lemma h_get_Inr: "h_get h a = Inr n \<longleftrightarrow> a < length h \<and> h ! a = Some n"
  by (auto simp: h_get_def split: option.splits)

lemma live_set: "h_set h a n = Inr h' \<Longrightarrow> live h' = live h"
proof -
  assume "h_set h a n = Inr h'"
  then have a: "a < length h" "h ! a \<noteq> None" "h' = h[a := Some n]"
    by (auto simp: h_set_def bindr_eq_Inr h_get_Inr)
  have "h = take a h @ h ! a # drop (Suc a) h" "h' = take a h @ Some n # drop (Suc a) h"
    using a by (simp_all add: id_take_nth_drop upd_conv_take_nth_drop)
  then have "live h = length (filter (\<lambda>c. c \<noteq> None) (take a h @ h ! a # drop (Suc a) h))"
    and "live h' = length (filter (\<lambda>c. c \<noteq> None) (take a h @ Some n # drop (Suc a) h))"
    by (simp_all only: live_def)
  with a(2) show ?thesis by simp
qed

lemma live_free: "h_free h a = Inr h' \<Longrightarrow> Suc (live h') = live h"
proof -
  assume "h_free h a = Inr h'"
  then have a: "a < length h" "h ! a \<noteq> None" "h' = h[a := None]"
    by (auto simp: h_free_def bindr_eq_Inr h_get_Inr)
  have "h = take a h @ h ! a # drop (Suc a) h" "h' = take a h @ None # drop (Suc a) h"
    using a by (simp_all add: id_take_nth_drop upd_conv_take_nth_drop)
  then have "live h = length (filter (\<lambda>c. c \<noteq> None) (take a h @ h ! a # drop (Suc a) h))"
    and "live h' = length (filter (\<lambda>c. c \<noteq> None) (take a h @ None # drop (Suc a) h))"
    by (simp_all only: live_def)
  with a(2) show ?thesis by simp
qed

lemma flat_pop_live:
  "flat_pop tf = Inr (Some r, tf') \<Longrightarrow> Suc (live (tf_heap tf')) = live (tf_heap tf)"
  by (auto simp: flat_pop_def bindr_eq_Inr split: option.splits dest!: live_free live_set)

lemma flat_advance_live:
  "flat_advance tf = Inr tf' \<Longrightarrow> tf_head tf \<noteq> None \<Longrightarrow> Suc (live (tf_heap tf')) = live (tf_heap tf)"
  by (auto simp: flat_advance_def flat_pop_def bindr_eq_Inr split: option.splits
      dest!: live_free live_set)

section \<open>Operations with loops\<close>

function flat_next :: "trace_flat \<Rightarrow> kinds \<Rightarrow> (record_t option \<times> trace_flat) result" where
  "flat_next tf f =
     (case tf_head tf of
        None \<Rightarrow> Inr (None, tf)
      | Some a \<Rightarrow> bindr (h_get (tf_heap tf) a) (\<lambda>n.
          if rec_kind (nd_record n) AND f = 0
          then bindr (flat_advance tf) (\<lambda>tf'. flat_next tf' f)
          else Inr (Some (nd_record n), tf)))"
  by pat_completeness auto
termination
proof (relation "measure (\<lambda>(tf, f). live (tf_heap tf))")
  fix tf f a n tf'
  assume "tf_head tf = Some a" "flat_advance tf = Inr tf'"
  then show "((tf', f), (tf, f)) \<in> measure (\<lambda>(tf, f :: kinds). live (tf_heap tf))"
    using flat_advance_live [of tf tf'] by simp
qed simp

declare flat_next.simps [simp del]

lemma flat_next_live: "flat_next tf f = Inr (r, tf') \<Longrightarrow> live (tf_heap tf') \<le> live (tf_heap tf)"
proof (induction tf f rule: flat_next.induct)
  case (1 tf f)
  show ?case
  proof (cases "tf_head tf")
    case None
    with "1.prems" show ?thesis by (simp add: flat_next.simps [of tf f])
  next
    case (Some a)
    with "1.prems" obtain n where n: "h_get (tf_heap tf) a = Inr n"
      by (auto simp: flat_next.simps [of tf f] bindr_eq_Inr)
    show ?thesis
    proof (cases "rec_kind (nd_record n) AND f = 0")
      case True
      with "1.prems" Some n obtain tf1 where "flat_advance tf = Inr tf1" "flat_next tf1 f = Inr (r, tf')"
        by (auto simp: flat_next.simps [of tf f] bindr_eq_Inr)
      with "1.IH" [OF Some n True] flat_advance_live [of tf tf1] Some show ?thesis by fastforce
    next
      case False
      with "1.prems" Some n show ?thesis by (simp add: flat_next.simps [of tf f])
    qed
  qed
qed

lemma flat_next_head: "flat_next tf f = Inr (Some r, tf') \<Longrightarrow> tf_head tf' \<noteq> None"
proof (induction tf f rule: flat_next.induct)
  case (1 tf f)
  then show ?case
    by (cases "tf_head tf")
      (auto simp: flat_next.simps [of tf f] bindr_eq_Inr split: if_splits)
qed

text \<open>\<^verbatim>\<open>while (trace_next(t, RECORD_ANY)) trace_advance(t);\<close>\<close>

function flat_clear_loop :: "trace_flat \<Rightarrow> trace_flat result" where
  "flat_clear_loop tf =
     bindr (flat_next tf RECORD_ANY) (\<lambda>(r, tf1). case r of
        None \<Rightarrow> Inr tf1
      | Some _ \<Rightarrow> bindr (flat_advance tf1) (\<lambda>tf2. flat_clear_loop tf2))"
  by pat_completeness auto
termination
proof (relation "measure (\<lambda>tf. live (tf_heap tf))")
  fix tf x r tf1 v tf2
  assume "flat_next tf RECORD_ANY = Inr x" "(r, tf1) = x" "r = Some v" "flat_advance tf1 = Inr tf2"
  then show "(tf2, tf) \<in> measure (\<lambda>tf. live (tf_heap tf))"
    using flat_next_live [of tf RECORD_ANY r tf1] flat_next_head [of tf RECORD_ANY v tf1]
      flat_advance_live [of tf1 tf2] by fastforce
qed simp

declare flat_clear_loop.simps [simp del]

definition flat_clear :: "trace_flat \<Rightarrow> trace_flat result" where
  "flat_clear tf =
     bindr (if tf_head tf \<noteq> None then flat_clear_loop tf else Inr tf) (\<lambda>tf.
       assertr (tf_head tf = None) (assertr (tf_tail tf = None) (Inr tf)))"

function flat_load :: "trace_flat \<Rightarrow> trace_flat result" where
  "flat_load tf =
     bindr (read_record (tf_stream tf)) (\<lambda>(r, n, st). case r of
        None \<Rightarrow> assertr (n = 0) (Inr (tf\<lparr>tf_stream := st\<rparr>))
      | Some r \<Rightarrow> bindr (flat_append (tf\<lparr>tf_stream := st\<rparr>) r) (\<lambda>tf'. flat_load tf'))"
  by pat_completeness auto

lemma flat_append_stream: "flat_append tf r = Inr tf' \<Longrightarrow> tf_stream tf' = tf_stream tf"
  by (auto simp: flat_append_def bindr_eq_Inr make_node_def split: option.splits)

termination flat_load
proof (relation "measure (\<lambda>tf. length (st_rest (tf_stream tf)))")
  fix tf x r y n st v tf'
  assume "read_record (tf_stream tf) = Inr x" "(r, y) = x" "(n, st) = y" "r = Some v"
    "flat_append (tf\<lparr>tf_stream := st\<rparr>) v = Inr tf'"
  then show "(tf', tf) \<in> measure (\<lambda>tf. length (st_rest (tf_stream tf)))"
    using read_record_progress [of "tf_stream tf" v n st]
      flat_append_stream [of "tf\<lparr>tf_stream := st\<rparr>" v tf'] by auto
qed simp

declare flat_load.simps [simp del]

text \<open>
  \<^verbatim>\<open>_save_to\<close>: the loop follows \<^verbatim>\<open>next\<close> from the head. \<open>fuel\<close> bounds the number of nodes visited;
  the length of the heap is enough for every list without a cycle.
\<close>

primrec flat_save_loop :: "nat \<Rightarrow> heap \<Rightarrow> nat option \<Rightarrow> stream \<Rightarrow> stream result" where
  "flat_save_loop 0 h p st = (if p = None then Inr st else Inl Fault)"
| "flat_save_loop (Suc n) h p st =
     (case p of
        None \<Rightarrow> Inr st
      | Some a \<Rightarrow> bindr (h_get h a) (\<lambda>nd.
          let (w, st') = stream_file_write st (record_bytes (nd_record nd)) in
          if w = 0 then Inl Fatal else flat_save_loop n h (nd_next nd) st'))"

definition flat_save_to :: "trace_flat \<Rightarrow> stream \<Rightarrow> stream result" where
  "flat_save_to tf st = flat_save_loop (length (tf_heap tf)) (tf_heap tf) (tf_head tf) st"

definition flat_save :: "trace_flat \<Rightarrow> trace_flat result" where
  "flat_save tf = bindr (flat_save_to tf (tf_stream tf)) (\<lambda>st. Inr (tf\<lparr>tf_stream := st\<rparr>))"

definition flat_last :: "trace_flat \<Rightarrow> record_t option result" where
  "flat_last tf =
     (case tf_tail tf of
        None \<Rightarrow> Inr None
      | Some a \<Rightarrow> bindr (h_get (tf_heap tf) a) (\<lambda>n. Inr (Some (nd_record n))))"

definition flat_forget :: "trace_flat \<Rightarrow> trace_flat result" where
  "flat_forget tf =
     (case tf_tail tf of
        None \<Rightarrow> Inr tf
      | Some a \<Rightarrow>
          bindr (h_get (tf_heap tf) a) (\<lambda>n.
          bindr (if tf_tail tf = tf_head tf then Inr (tf\<lparr>tf_tail := None, tf_head := None\<rparr>)
                 else (case nd_prev n of
                     None \<Rightarrow> Inl Fault
                   | Some b \<Rightarrow> bindr (h_get (tf_heap tf) b) (\<lambda>m.
                       bindr (h_set (tf_heap tf) b (m\<lparr>nd_next := None\<rparr>)) (\<lambda>h.
                         Inr (tf\<lparr>tf_tail := Some b, tf_heap := h\<rparr>))))) (\<lambda>tf.
          bindr (h_free (tf_heap tf) a) (\<lambda>h. Inr (tf\<lparr>tf_heap := h\<rparr>)))))"

definition trace_flat_create :: "stream \<Rightarrow> trace_flat" where
  "trace_flat_create st = \<lparr>tf_head = None, tf_tail = None, tf_heap = [], tf_stream = st\<rparr>"

section \<open>The list behind the nodes\<close>

definition first_ptr :: "(nat \<times> record_t) list \<Rightarrow> nat option \<Rightarrow> nat option" where
  "first_ptr xs q = (case xs of [] \<Rightarrow> q | (a, _) # _ \<Rightarrow> Some a)"

definition last_ptr :: "(nat \<times> record_t) list \<Rightarrow> nat option \<Rightarrow> nat option" where
  "last_ptr xs p = (if xs = [] then p else Some (fst (last xs)))"

text \<open>
  \<open>seg h p xs q\<close>: the nodes \<open>xs\<close> (address and record) are linked in this order in both
  directions; the first one points back to \<open>p\<close> and the last one forward to \<open>q\<close>.
\<close>

fun seg :: "heap \<Rightarrow> nat option \<Rightarrow> (nat \<times> record_t) list \<Rightarrow> nat option \<Rightarrow> bool" where
  "seg h p [] q = True"
| "seg h p ((a, r) # xs) q \<longleftrightarrow>
     h_get h a = Inr \<lparr>nd_prev = p, nd_next = first_ptr xs q, nd_record = r\<rparr> \<and> seg h (Some a) xs q"

definition flat_rel :: "trace_flat \<Rightarrow> (nat \<times> record_t) list \<Rightarrow> bool" where
  "flat_rel tf xs \<longleftrightarrow> distinct (map fst xs) \<and> seg (tf_heap tf) None xs None \<and>
     tf_head tf = first_ptr xs None \<and> tf_tail tf = last_ptr xs None"

lemma ptr_simps [simp]:
  "first_ptr [] q = q" "first_ptr ((a, r) # xs) q = Some a"
  "last_ptr [] p = p" "last_ptr (xs @ [(a, r)]) p = Some a"
  "last_ptr ((a, r) # xs) p = last_ptr xs (Some a)"
  by (auto simp: first_ptr_def last_ptr_def)

lemma first_ptr_append: "first_ptr (xs @ ys) q = first_ptr xs (first_ptr ys q)"
  by (cases xs) auto

lemma seg_append:
  "seg h p (xs @ ys) q \<longleftrightarrow> seg h p xs (first_ptr ys q) \<and> seg h (last_ptr xs p) ys q"
  by (induction xs arbitrary: p) (auto simp: first_ptr_append)

text \<open>Cells outside the segment do not matter.\<close>

lemma h_get_update: "h_get (h[b := c]) a = (if a = b \<and> b < length h
    then (case c of None \<Rightarrow> Inl Fault | Some n \<Rightarrow> Inr n) else h_get h a)"
  by (simp add: h_get_def)

lemma seg_frame:
  "\<forall>a\<in>fst ` set xs. h_get h' a = h_get h a \<Longrightarrow> seg h' p xs q = seg h p xs q"
  by (induction xs arbitrary: p) auto

lemma seg_update: "b \<notin> fst ` set xs \<Longrightarrow> seg (h[b := c]) p xs q = seg h p xs q"
  by (rule seg_frame) (auto simp: h_get_update)

lemma seg_bound: "seg h p xs q \<Longrightarrow> a \<in> fst ` set xs \<Longrightarrow> a < length h"
proof (induction xs arbitrary: p)
  case (Cons x xs)
  obtain b r where "x = (b, r)" by (cases x)
  with Cons.prems Cons.IH [of "Some b"] show ?case by (auto simp: h_get_Inr)
qed simp

lemma h_get_alloc: "a < length h \<Longrightarrow> h_get (h @ ys) a = h_get h a"
  by (simp add: h_get_def nth_append)

lemma h_get_new: "h_get (h @ [Some n]) (length h) = Inr n"
  by (simp add: h_get_def)

lemma seg_alloc: "seg h p xs q \<Longrightarrow> seg (h @ ys) p xs q"
  using seg_frame [of xs "h @ ys" h p q] seg_bound [of h p xs q] by (metis h_get_alloc)

lemma flat_rel_length: "flat_rel tf xs \<Longrightarrow> length xs \<le> length (tf_heap tf)"
proof -
  assume r: "flat_rel tf xs"
  then have "fst ` set xs \<subseteq> {..<length (tf_heap tf)}"
    by (auto simp: flat_rel_def dest!: seg_bound)
  then have "card (fst ` set xs) \<le> length (tf_heap tf)"
    using card_mono [of "{..<length (tf_heap tf)}" "fst ` set xs"] by simp
  moreover have "card (fst ` set xs) = length xs"
    using r distinct_card [of "map fst xs"] by (simp add: flat_rel_def)
  ultimately show ?thesis by simp
qed

section \<open>Refinement lemmas\<close>

lemma flat_rel_create: "flat_rel (trace_flat_create st) []"
  by (simp add: flat_rel_def trace_flat_create_def)

lemma flat_append_rel:
  assumes "flat_rel tf xs"
  shows "\<exists>tf' a. flat_append tf r = Inr tf' \<and> flat_rel tf' (xs @ [(a, r)]) \<and> tf_stream tf' = tf_stream tf"
proof -
  let ?h = "tf_heap tf" and ?a = "length (tf_heap tf)"
  let ?n = "\<lambda>p. \<lparr>nd_prev = p, nd_next = None, nd_record = r\<rparr>"
  have d: "distinct (map fst xs)" and s: "seg ?h None xs None"
    and hd: "tf_head tf = first_ptr xs None" and tl: "tf_tail tf = last_ptr xs None"
    using assms by (auto simp: flat_rel_def)
  have fresh: "?a \<notin> fst ` set xs" using seg_bound [OF s] by fastforce
  show ?thesis
  proof (cases xs rule: rev_cases)
    case Nil
    then show ?thesis using hd tl
      by (auto simp: flat_append_def make_node_def h_get_new h_set_def flat_rel_def)
  next
    case (snoc ys z)
    obtain b r0 where z: "z = (b, r0)" by (cases z)
    have sg: "seg ?h None ys (Some b)" "h_get ?h b = Inr \<lparr>nd_prev = last_ptr ys None, nd_next = None, nd_record = r0\<rparr>"
      using s by (auto simp: snoc z seg_append)
    have b: "b < ?a" "b \<notin> fst ` set ys" "?a \<notin> fst ` set ys"
      using sg(2) d fresh by (auto simp: snoc z h_get_Inr)
    have ne: "tf_head tf \<noteq> None" using hd by (cases ys) (auto simp: snoc z)
    let ?h1 = "(?h @ [Some (?n None)])[b := Some \<lparr>nd_prev = last_ptr ys None, nd_next = Some ?a, nd_record = r0\<rparr>]"
    let ?h2 = "?h1[?a := Some (?n (Some b))]"
    have g1: "h_get ?h1 ?a = Inr (?n None)"
      using b by (simp add: h_get_update h_get_new)
    have "flat_append tf r = Inr (tf\<lparr>tf_heap := ?h2, tf_tail := Some ?a\<rparr>)"
      using ne tl sg(2) b g1
      by (auto simp: flat_append_def make_node_def snoc z h_get_alloc h_set_def)
    moreover have "seg ?h2 None (xs @ [(?a, r)]) None"
      using seg_alloc [OF sg(1)] b
      by (simp add: snoc z seg_append seg_update h_get_update h_get_alloc h_get_new)
    moreover have "first_ptr (xs @ [(?a, r)]) None = tf_head tf"
      using hd by (cases ys) (auto simp: snoc z)
    ultimately show ?thesis using d fresh by (auto simp: flat_rel_def)
  qed
qed

lemma flat_pop_rel:
  assumes "flat_rel tf ((a, r) # xs)"
  shows "\<exists>tf'. flat_pop tf = Inr (Some r, tf') \<and> flat_rel tf' xs \<and> tf_stream tf' = tf_stream tf"
proof -
  let ?h = "tf_heap tf"
  have d: "distinct (a # map fst xs)" and g: "h_get ?h a = Inr \<lparr>nd_prev = None, nd_next = first_ptr xs None, nd_record = r\<rparr>"
    and s: "seg ?h (Some a) xs None" and hd: "tf_head tf = Some a" and tl: "tf_tail tf = last_ptr xs (Some a)"
    using assms by (auto simp: flat_rel_def)
  have an: "a \<notin> fst ` set xs" using d by auto
  show ?thesis
  proof (cases xs)
    case Nil
    with g hd tl show ?thesis
      by (auto simp: flat_pop_def h_free_def flat_rel_def)
  next
    case (Cons y ys)
    obtain b r0 where y: "y = (b, r0)" by (cases y)
    have gb: "h_get ?h b = Inr \<lparr>nd_prev = Some a, nd_next = first_ptr ys None, nd_record = r0\<rparr>"
      and sy: "seg ?h (Some b) ys None"
      using s by (auto simp: Cons y)
    have ab: "a \<noteq> b" "a \<notin> fst ` set ys" "b \<notin> fst ` set ys" "b < length ?h"
      using d gb by (auto simp: Cons y h_get_Inr)
    have tla: "tf_tail tf \<noteq> Some a" and tlx: "last_ptr xs None = tf_tail tf"
      using tl an by (auto simp: Cons y last_ptr_def)
    let ?h2 = "?h[b := Some \<lparr>nd_prev = None, nd_next = first_ptr ys None, nd_record = r0\<rparr>, a := None]"
    have "flat_pop tf = Inr (Some r, tf\<lparr>tf_head := Some b, tf_heap := ?h2\<rparr>)"
      using hd g gb tla ab by (simp add: flat_pop_def Cons y h_set_def h_free_def h_get_update)
    moreover have "seg ?h2 None xs None"
      using sy ab gb by (simp add: Cons y seg_update h_get_update)
    ultimately show ?thesis using d tlx by (auto simp: flat_rel_def Cons y)
  qed
qed

lemma flat_pop_empty: "flat_rel tf [] \<Longrightarrow> flat_pop tf = Inr (None, tf)"
  by (simp add: flat_rel_def flat_pop_def)

lemma flat_advance_rel:
  "flat_rel tf (x # xs) \<Longrightarrow> \<exists>tf'. flat_advance tf = Inr tf' \<and> flat_rel tf' xs \<and> tf_stream tf' = tf_stream tf"
  using flat_pop_rel [of tf "fst x" "snd x" xs] by (auto simp: flat_advance_def)

lemma flat_next_rel:
  "flat_rel tf xs \<Longrightarrow>
     \<exists>tf' ys. flat_next tf f = Inr (first_rec (map snd ys), tf') \<and> flat_rel tf' ys \<and>
       map snd ys = skip f (map snd xs) \<and> tf_stream tf' = tf_stream tf"
proof (induction xs arbitrary: tf)
  case Nil
  then show ?case by (auto simp: flat_next.simps [of tf f] flat_rel_def intro!: exI [of _ "[]"])
next
  case (Cons x xs)
  obtain a r where x: "x = (a, r)" by (cases x)
  have g: "tf_head tf = Some a" "\<exists>p q. h_get (tf_heap tf) a = Inr \<lparr>nd_prev = p, nd_next = q, nd_record = r\<rparr>"
    using Cons.prems by (auto simp: flat_rel_def x)
  show ?case
  proof (cases "matches f r")
    case True
    with g have "flat_next tf f = Inr (Some r, tf)"
      by (auto simp: flat_next.simps [of tf f] matches_def)
    with True Cons.prems show ?thesis by (auto simp: x intro!: exI [of _ "(a, r) # xs"])
  next
    case False
    obtain tf1 where tf1: "flat_advance tf = Inr tf1" "flat_rel tf1 xs" "tf_stream tf1 = tf_stream tf"
      using flat_advance_rel [OF Cons.prems] by blast
    with g False have "flat_next tf f = flat_next tf1 f"
      by (auto simp: flat_next.simps [of tf f] matches_def)
    with False Cons.IH [OF tf1(2)] tf1(3) show ?thesis by (simp add: x)
  qed
qed

lemma flat_clear_loop_rel:
  "flat_rel tf xs \<Longrightarrow> \<exists>tf'. flat_clear_loop tf = Inr tf' \<and> flat_rel tf' [] \<and> tf_stream tf' = tf_stream tf"
proof (induction xs arbitrary: tf rule: length_induct)
  case (1 xs)
  obtain tf1 ys where n: "flat_next tf RECORD_ANY = Inr (first_rec (map snd ys), tf1)"
      "flat_rel tf1 ys" "map snd ys = skip RECORD_ANY (map snd xs)" "tf_stream tf1 = tf_stream tf"
    using flat_next_rel [OF "1.prems", of RECORD_ANY] by blast
  show ?case
  proof (cases ys)
    case Nil
    with n show ?thesis by (simp add: flat_clear_loop.simps [of tf])
  next
    case (Cons y zs)
    have "length (skip RECORD_ANY (map snd xs)) \<le> length xs"
      by (simp add: skip_def) (metis length_dropWhile_le length_map)
    then have l: "length zs < length xs" using n(3) Cons by (metis Suc_le_lessD length_Cons length_map)
    obtain tf2 where tf2: "flat_advance tf1 = Inr tf2" "flat_rel tf2 zs" "tf_stream tf2 = tf_stream tf1"
      using flat_advance_rel n(2) Cons by blast
    then have "flat_clear_loop tf = flat_clear_loop tf2"
      using n(1) Cons by (simp add: flat_clear_loop.simps [of tf])
    with "1.IH" [rule_format, OF l tf2(2)] tf2(3) n(4) show ?thesis by simp
  qed
qed

lemma flat_clear_rel:
  assumes "flat_rel tf xs"
  shows "\<exists>tf'. flat_clear tf = Inr tf' \<and> flat_rel tf' []"
proof (cases "tf_head tf = None")
  case True
  then have "xs = []" using assms by (cases xs) (auto simp: flat_rel_def)
  with assms True show ?thesis by (auto simp: flat_clear_def flat_rel_def)
next
  case False
  with flat_clear_loop_rel [OF assms] show ?thesis by (auto simp: flat_clear_def flat_rel_def)
qed

lemma flat_last_rel:
  assumes "flat_rel tf xs"
  shows "flat_last tf = Inr (if xs = [] then None else Some (snd (last xs)))"
proof (cases xs rule: rev_cases)
  case Nil
  with assms show ?thesis by (simp add: flat_last_def flat_rel_def)
next
  case (snoc ys z)
  with assms show ?thesis by (cases z) (auto simp: flat_last_def flat_rel_def seg_append)
qed

lemma flat_forget_rel:
  assumes "flat_rel tf xs"
  shows "\<exists>tf'. flat_forget tf = Inr tf' \<and> flat_rel tf' (butlast xs)"
proof (cases xs rule: rev_cases)
  case Nil
  with assms show ?thesis by (auto simp: flat_forget_def flat_rel_def)
next
  case (snoc ys z)
  obtain a r where z: "z = (a, r)" by (cases z)
  let ?h = "tf_heap tf"
  have d: "distinct (map fst ys)" "a \<notin> fst ` set ys" and s: "seg ?h None ys (Some a)"
    and g: "h_get ?h a = Inr \<lparr>nd_prev = last_ptr ys None, nd_next = None, nd_record = r\<rparr>"
    and tl: "tf_tail tf = Some a" and hd: "tf_head tf = first_ptr ys (Some a)"
    using assms by (auto simp: flat_rel_def snoc z seg_append first_ptr_append)
  show ?thesis
  proof (cases ys rule: rev_cases)
    case Nil
    with g tl hd show ?thesis
      by (auto simp: flat_forget_def h_free_def flat_rel_def snoc z)
  next
    case (snoc ws y)
    obtain b r0 where y: "y = (b, r0)" by (cases y)
    have gb: "h_get ?h b = Inr \<lparr>nd_prev = last_ptr ws None, nd_next = Some a, nd_record = r0\<rparr>"
      and sw: "seg ?h None ws (Some b)" and bw: "b \<notin> fst ` set ws" "a \<noteq> b" "a \<notin> fst ` set ws"
      using s d by (auto simp: snoc y seg_append)
    have hn: "tf_head tf \<noteq> Some a" using hd d(2) by (cases ws) (auto simp: snoc y)
    let ?h2 = "?h[b := Some \<lparr>nd_prev = last_ptr ws None, nd_next = None, nd_record = r0\<rparr>, a := None]"
    have "flat_forget tf = Inr (tf\<lparr>tf_tail := Some b, tf_heap := ?h2\<rparr>)"
      using tl hn g gb bw by (simp add: flat_forget_def snoc y h_set_def h_free_def h_get_update)
    moreover have "seg ?h2 None ys None"
      using sw gb bw by (simp add: snoc y seg_append seg_update h_get_update h_get_Inr)
    moreover have "first_ptr ys None = tf_head tf" using hd by (cases ws) (auto simp: snoc y)
    moreover have "butlast xs = ys" by (simp add: \<open>xs = ys @ [z]\<close>)
    ultimately show ?thesis using d(1) by (auto simp: flat_rel_def snoc y)
  qed
qed

section \<open>Saving and loading\<close>

definition records_bytes :: "record_t list \<Rightarrow> byte list" where
  "records_bytes rs = concat (map record_bytes rs)"

lemma records_bytes_simps [simp]:
  "records_bytes [] = []" "records_bytes (r # rs) = record_bytes r @ records_bytes rs"
  by (simp_all add: records_bytes_def)

lemma record_bytes_nonempty: "0 < length (record_bytes r)"
  by (simp add: record_bytes_def record_hsz_def)

definition st_at_end :: "stream \<Rightarrow> bool" where
  "st_at_end st \<longleftrightarrow> st_pos st = length (st_bytes st)"

lemma stream_write_end:
  "st_at_end st \<Longrightarrow> stream_file_write st bs = (length bs, st\<lparr>st_bytes := st_bytes st @ bs, st_pos := st_pos st + length bs\<rparr>)"
  by (simp add: st_at_end_def stream_file_write_def)

lemma flat_save_loop_rel:
  "seg h p xs None \<Longrightarrow> length xs \<le> n \<Longrightarrow> st_at_end st \<Longrightarrow>
     \<exists>st'. flat_save_loop n h (first_ptr xs None) st = Inr st' \<and> st_at_end st' \<and>
       st_bytes st' = st_bytes st @ records_bytes (map snd xs)"
proof (induction n arbitrary: xs p st)
  case (Suc n)
  show ?case
  proof (cases xs)
    case (Cons x ys)
    obtain a r where x: "x = (a, r)" by (cases x)
    let ?st = "st\<lparr>st_bytes := st_bytes st @ record_bytes r, st_pos := st_pos st + length (record_bytes r)\<rparr>"
    have "st_at_end ?st" using Suc.prems(3) by (simp add: st_at_end_def)
    then obtain st' where "flat_save_loop n h (first_ptr ys None) ?st = Inr st'" "st_at_end st'"
        "st_bytes st' = st_bytes ?st @ records_bytes (map snd ys)"
      using Suc.IH [of "Some a" ys ?st] Suc.prems(1,2) by (auto simp: Cons x)
    with Suc.prems record_bytes_nonempty [of r] show ?thesis
      by (auto simp: Cons x stream_write_end)
  qed (use Suc.prems in auto)
qed auto

lemma flat_save_to_rel:
  assumes "flat_rel tf xs" and "st_at_end st"
  shows "\<exists>st'. flat_save_to tf st = Inr st' \<and> st_at_end st' \<and>
    st_bytes st' = st_bytes st @ records_bytes (map snd xs)"
  using flat_save_loop_rel [of "tf_heap tf" None xs "length (tf_heap tf)" st]
    flat_rel_length [OF assms(1)] assms
  by (auto simp: flat_save_to_def flat_rel_def)

lemma flat_rel_stream [simp]: "flat_rel (tf\<lparr>tf_stream := st\<rparr>) xs = flat_rel tf xs"
  by (simp add: flat_rel_def)

lemma flat_load_rel:
  "flat_rel tf xs \<Longrightarrow> st_rest (tf_stream tf) = records_bytes rs \<Longrightarrow> \<forall>r\<in>set rs. record_wf r \<Longrightarrow>
     \<exists>tf' ys. flat_load tf = Inr tf' \<and> flat_rel tf' (xs @ ys) \<and> map snd ys = rs"
proof (induction rs arbitrary: tf xs)
  case Nil
  then have "flat_load tf = Inr (tf\<lparr>tf_stream := tf_stream tf\<rparr>)"
    by (simp add: flat_load.simps [of tf] read_record_end)
  with Nil show ?case by (auto intro!: exI [of _ "[]"])
next
  case (Cons r rs)
  obtain st where st: "read_record (tf_stream tf) = Inr (Some r, record_hsz, st)" "st_rest st = records_bytes rs"
    using read_record_bytes [of "tf_stream tf" r "records_bytes rs"] Cons.prems by auto
  obtain tf1 a where tf1: "flat_append (tf\<lparr>tf_stream := st\<rparr>) r = Inr tf1" "flat_rel tf1 (xs @ [(a, r)])"
      "tf_stream tf1 = st"
    using flat_append_rel [of "tf\<lparr>tf_stream := st\<rparr>" xs r] Cons.prems(1) by auto
  have "flat_load tf = flat_load tf1"
    using st tf1 by (simp add: flat_load.simps [of tf])
  moreover obtain tf' ys where "flat_load tf1 = Inr tf'" "flat_rel tf' ((xs @ [(a, r)]) @ ys)" "map snd ys = rs"
    using Cons.IH [OF tf1(2)] tf1(3) st(2) Cons.prems(3) by auto
  ultimately show ?case by (auto intro!: exI [of _ "(a, r) # ys"])
qed

section \<open>The reading contract\<close>

text \<open>The records of the list, following \<^verbatim>\<open>next\<close> from the head.\<close>

primrec flat_walk :: "nat \<Rightarrow> heap \<Rightarrow> nat option \<Rightarrow> record_t list" where
  "flat_walk 0 h p = []"
| "flat_walk (Suc n) h p =
     (case p of None \<Rightarrow> [] | Some a \<Rightarrow> (case h_get h a of Inl _ \<Rightarrow> []
        | Inr nd \<Rightarrow> nd_record nd # flat_walk n h (nd_next nd)))"

definition flat_list :: "trace_flat \<Rightarrow> record_t list" where
  "flat_list tf = flat_walk (length (tf_heap tf)) (tf_heap tf) (tf_head tf)"

definition flat_inv :: "trace_flat \<Rightarrow> bool" where
  "flat_inv tf \<longleftrightarrow> (\<exists>xs. flat_rel tf xs)"

lemma flat_walk_seg: "seg h p xs None \<Longrightarrow> length xs \<le> n \<Longrightarrow> flat_walk n h (first_ptr xs None) = map snd xs"
proof (induction n arbitrary: xs p)
  case (Suc n)
  then show ?case
  proof (cases xs)
    case (Cons x ys)
    with Suc.prems Suc.IH [of "Some (fst x)" ys] show ?thesis by (cases x) auto
  qed simp
qed simp

lemma flat_list_rel: "flat_rel tf xs \<Longrightarrow> flat_list tf = map snd xs"
  using flat_walk_seg [of "tf_heap tf" None xs "length (tf_heap tf)"] flat_rel_length [of tf xs]
  by (simp add: flat_list_def flat_rel_def)

lemma flat_invI: "flat_rel tf xs \<Longrightarrow> flat_inv tf \<and> flat_list tf = map snd xs"
  by (auto simp: flat_inv_def flat_list_rel)

lemma flat_invE:
  assumes "flat_inv tf"
  obtains xs where "flat_rel tf xs" and "flat_list tf = map snd xs"
  using assms by (auto simp: flat_inv_def dest: flat_list_rel)

interpretation flat: trace_reader flat_list flat_inv "\<lambda>tf. flat_list tf \<noteq> []" flat_next flat_advance
proof unfold_locales
  fix tf f
  assume "flat_inv tf"
  then obtain xs where xs: "flat_rel tf xs" "flat_list tf = map snd xs" by (rule flat_invE)
  show "\<exists>t'. flat_next tf f = Inr (first_rec (skip f (flat_list tf)), t') \<and> flat_inv t' \<and>
      flat_list t' = skip f (flat_list tf) \<and> (flat_list t' \<noteq> [] \<longrightarrow> flat_list t' \<noteq> [])"
    using flat_next_rel [OF xs(1), of f] xs(2) by (auto dest: flat_invI)
  assume "flat_list tf \<noteq> []"
  with xs obtain y ys where "xs = y # ys" by (cases xs) auto
  with xs show "\<exists>t'. flat_advance tf = Inr t' \<and> flat_inv t' \<and> flat_list t' = tl (flat_list tf)"
    using flat_advance_rel [of tf y ys] by (auto dest: flat_invI)
qed

lemma flat_refines_append:
  "flat_inv tf \<Longrightarrow> \<exists>tf'. flat_append tf r = Inr tf' \<and> flat_inv tf' \<and> flat_list tf' = flat_list tf @ [r]"
proof -
  assume "flat_inv tf"
  then obtain xs where xs: "flat_rel tf xs" "flat_list tf = map snd xs" by (rule flat_invE)
  show ?thesis using flat_append_rel [OF xs(1), of r] xs(2) by (auto dest: flat_invI)
qed

section \<open>Properties\<close>

text \<open>
  Claim C37. The doubly linked list of \<^verbatim>\<open>trace_flat.c\<close> implements a queue of records with access to
  the last one: on a consistent trace no operation dereferences a freed node, each keeps the links
  consistent, and append, advance, forget, last, clear and the filtering next act on the list of
  records as expected.
\<close>

theorem flat_refines_list:
  assumes "flat_inv tf"
  shows "(\<exists>tf'. flat_append tf r = Inr tf' \<and> flat_inv tf' \<and> flat_list tf' = flat_list tf @ [r]) \<and>
    (\<exists>tf'. flat_next tf f = Inr (first_rec (skip f (flat_list tf)), tf') \<and> flat_inv tf' \<and>
       flat_list tf' = skip f (flat_list tf)) \<and>
    (\<exists>tf'. flat_advance tf = Inr tf' \<and> flat_inv tf' \<and> flat_list tf' = tl (flat_list tf)) \<and>
    (\<exists>tf'. flat_forget tf = Inr tf' \<and> flat_inv tf' \<and> flat_list tf' = butlast (flat_list tf)) \<and>
    (\<exists>tf'. flat_clear tf = Inr tf' \<and> flat_inv tf' \<and> flat_list tf' = []) \<and>
    flat_last tf = Inr (if flat_list tf = [] then None else Some (last (flat_list tf)))"
proof -
  obtain xs where xs: "flat_rel tf xs" "flat_list tf = map snd xs"
    using assms by (rule flat_invE)
  have "\<exists>tf'. flat_advance tf = Inr tf' \<and> flat_inv tf' \<and> flat_list tf' = tl (flat_list tf)"
  proof (cases xs)
    case Nil
    with xs assms flat_pop_empty [of tf] show ?thesis by (auto simp: flat_advance_def)
  next
    case (Cons y ys)
    with xs show ?thesis using flat.adv_law [OF assms] by simp
  qed
  moreover have "\<exists>tf'. flat_append tf r = Inr tf' \<and> flat_inv tf' \<and> flat_list tf' = flat_list tf @ [r]"
    using flat_refines_append [OF assms] .
  moreover have "\<exists>tf'. flat_forget tf = Inr tf' \<and> flat_inv tf' \<and> flat_list tf' = butlast (flat_list tf)"
    using flat_forget_rel [OF xs(1)] xs(2) by (auto simp: map_butlast dest: flat_invI)
  moreover have "\<exists>tf'. flat_clear tf = Inr tf' \<and> flat_inv tf' \<and> flat_list tf' = []"
    using flat_clear_rel [OF xs(1)] by (auto dest: flat_invI)
  moreover have "flat_last tf = Inr (if flat_list tf = [] then None else Some (last (flat_list tf)))"
    using flat_last_rel [OF xs(1)] xs(2) by (simp add: last_map)
  ultimately show ?thesis using flat.nx_law [OF assms, of f] by blast
qed

theorem flat_refines_list_witness:
  "\<exists>tf'. flat_append (trace_flat_create \<lparr>st_bytes = [], st_pos = 0\<rparr>) (record_alloc 3) = Inr tf' \<and>
     flat_list tf' = [record_alloc 3]"
proof -
  let ?t = "trace_flat_create \<lparr>st_bytes = [], st_pos = 0\<rparr>"
  have i: "flat_inv ?t" "flat_list ?t = []"
    using flat_invI [OF flat_rel_create] by simp_all
  have "\<exists>tf'. flat_append ?t (record_alloc 3) = Inr tf' \<and> flat_inv tf' \<and>
      flat_list tf' = flat_list ?t @ [record_alloc 3]"
    using flat_refines_list [OF i(1), of "record_alloc 3" RECORD_ANY] by (rule conjunct1)
  with i(2) show ?thesis by auto
qed

text \<open>
  Saving a trace to an empty file and loading that file into a new trace gives back the
  same list of records, whatever the payloads are: the loader neither stops early nor trips over a
  partial header.
\<close>

theorem flat_save_load_roundtrip:
  assumes "flat_inv tf" and "\<forall>r\<in>set (flat_list tf). record_wf r"
  shows "\<exists>st tf'. flat_save_to tf \<lparr>st_bytes = [], st_pos = 0\<rparr> = Inr st \<and>
    flat_load (trace_flat_create (stream_file_reset st)) = Inr tf' \<and> flat_inv tf' \<and>
    flat_list tf' = flat_list tf"
proof -
  obtain xs where xs: "flat_rel tf xs" "flat_list tf = map snd xs"
    using assms(1) by (rule flat_invE)
  obtain st where st: "flat_save_to tf \<lparr>st_bytes = [], st_pos = 0\<rparr> = Inr st"
      "st_bytes st = records_bytes (map snd xs)"
    using flat_save_to_rel [OF xs(1), of "\<lparr>st_bytes = [], st_pos = 0\<rparr>"] by (auto simp: st_at_end_def)
  have "st_rest (tf_stream (trace_flat_create (stream_file_reset st))) = records_bytes (map snd xs)"
    by (simp add: trace_flat_create_def stream_file_reset_def st_rest_def st(2))
  then obtain tf' ys where "flat_load (trace_flat_create (stream_file_reset st)) = Inr tf'"
      "flat_rel tf' ([] @ ys)" "map snd ys = map snd xs"
    using flat_load_rel [OF flat_rel_create] assms(2) xs(2) by metis
  with st(1) xs(2) show ?thesis by (auto dest!: flat_invI)
qed

theorem flat_save_load_roundtrip_witness:
  "\<exists>tf st tf'. flat_append (trace_flat_create \<lparr>st_bytes = [], st_pos = 0\<rparr>) (record_alloc 2) = Inr tf \<and>
     flat_save_to tf \<lparr>st_bytes = [], st_pos = 0\<rparr> = Inr st \<and>
     flat_load (trace_flat_create (stream_file_reset st)) = Inr tf' \<and> flat_list tf' = [record_alloc 2]"
proof -
  let ?t = "trace_flat_create \<lparr>st_bytes = [], st_pos = 0\<rparr>"
  obtain tf a where tf: "flat_append ?t (record_alloc 2) = Inr tf" "flat_rel tf [(a, record_alloc 2)]"
    using flat_append_rel [OF flat_rel_create [of "\<lparr>st_bytes = [], st_pos = 0\<rparr>"], of "record_alloc 2"] by auto
  then have i: "flat_inv tf" "flat_list tf = [record_alloc 2]" by (auto dest: flat_invI)
  then have w: "\<forall>r\<in>set (flat_list tf). record_wf r" by (simp add: record_wf_def record_alloc_def)
  show ?thesis using flat_save_load_roundtrip [OF i(1) w] tf(1) i(2) by auto
qed

end
