(* ===== verification/Trace_File.thy ===== *)
theory Trace_File
  imports Trace_Flat
begin

text \<open>
  The streaming trace of \<^verbatim>\<open>src/base/trace_file.c\<close>, which keeps only the current record in memory, and
  the dispatch of \<^verbatim>\<open>src/base/trace_impl.c\<close> over both implementations. Both satisfy the reading
  contract, so a client that reads through \<^verbatim>\<open>trace_next\<close> and \<^verbatim>\<open>trace_advance\<close> cannot tell them apart.
\<close>

section \<open>Data\<close>

record trace_file =
  tfl_cur :: "record_t option"
  tfl_stream :: stream

section \<open>Operations of trace\_file.c\<close>

definition file_append_safe :: "trace_file \<Rightarrow> record_t \<Rightarrow> bool \<times> trace_file" where
  "file_append_safe tf r =
     (let size = record_hsz + rec_size r;
          (w, st) = stream_file_write (tfl_stream tf) (record_bytes r) in
      (size = w, tf\<lparr>tfl_stream := st\<rparr>))"

text \<open>
  \<^verbatim>\<open>_append\<close> frees the record on success. The record is passed by value here, so there is nothing
  left to release.
\<close>

definition file_append :: "trace_file \<Rightarrow> record_t \<Rightarrow> bool \<times> trace_file" where
  "file_append tf r = file_append_safe tf r"

definition file_advance :: "trace_file \<Rightarrow> trace_file" where
  "file_advance tf = (case tfl_cur tf of None \<Rightarrow> tf | Some _ \<Rightarrow> tf\<lparr>tfl_cur := None\<rparr>)"

text \<open>The loop of \<^verbatim>\<open>_get_next\<close>: read records until one matches the filter.\<close>

function file_read_loop :: "stream \<Rightarrow> kinds \<Rightarrow> (record_t option \<times> stream) result" where
  "file_read_loop st f =
     bindr (read_record st) (\<lambda>(r, n, st'). case r of
        None \<Rightarrow> Inr (None, st')
      | Some r \<Rightarrow> if rec_kind r AND f = 0 then file_read_loop st' f else Inr (Some r, st'))"
  by pat_completeness auto
termination
proof (relation "measure (\<lambda>(st, f). length (st_rest st))")
  fix st f x r y n st' v
  assume "read_record st = Inr x" "(r, y) = x" "(n, st') = y" "r = Some v"
  then show "((st', f), st, f) \<in> measure (\<lambda>(st, f :: kinds). length (st_rest st))"
    using read_record_progress [of st v n st'] by auto
qed simp

declare file_read_loop.simps [simp del]

definition file_get_next :: "trace_file \<Rightarrow> kinds \<Rightarrow> (record_t option \<times> trace_file) result" where
  "file_get_next tf f =
     (if (case tfl_cur tf of None \<Rightarrow> False | Some c \<Rightarrow> rec_kind c AND f \<noteq> 0)
      then Inr (tfl_cur tf, tf)
      else bindr (file_read_loop (tfl_stream tf) f) (\<lambda>(r, st). Inr (r, tf\<lparr>tfl_stream := st\<rparr>)))"

definition file_next :: "trace_file \<Rightarrow> kinds \<Rightarrow> (record_t option \<times> trace_file) result" where
  "file_next tf f = bindr (file_get_next tf f) (\<lambda>(r, tf). Inr (r, tf\<lparr>tfl_cur := r\<rparr>))"

lemma file_read_loop_progress:
  "file_read_loop st f = Inr (Some r, st') \<Longrightarrow> length (st_rest st') < length (st_rest st)"
proof (induction st f rule: file_read_loop.induct)
  case (1 st f)
  then obtain v n st1 where v: "read_record st = Inr (Some v, n, st1)"
    by (auto simp: file_read_loop.simps [of st f] bindr_eq_Inr split: option.splits)
  with "1" read_record_progress [OF v] show ?case
    by (fastforce simp: file_read_loop.simps [of st f] split: if_splits)
qed

text \<open>
  The loop of \<^verbatim>\<open>_last\<close>. \<^verbatim>\<open>cur\<close> is null while it runs, so every \<^verbatim>\<open>_get_next\<close> reads the stream.
\<close>

function file_last_loop :: "stream \<Rightarrow> record_t option \<Rightarrow> (record_t option \<times> stream) result" where
  "file_last_loop st res =
     bindr (file_read_loop st RECORD_ANY) (\<lambda>(r, st'). case r of
        None \<Rightarrow> Inr (res, st')
      | Some r \<Rightarrow> file_last_loop st' (Some r))"
  by pat_completeness auto
termination
proof (relation "measure (\<lambda>(st, f). length (st_rest st))")
  fix st res x r st' v
  assume "file_read_loop st RECORD_ANY = Inr x" "(r, st') = x" "r = Some v"
  then show "((st', Some v), st, res) \<in> measure (\<lambda>(st, f :: record_t option). length (st_rest st))"
    using file_read_loop_progress [of st RECORD_ANY v st'] by auto
qed simp

declare file_last_loop.simps [simp del]

definition file_last :: "trace_file \<Rightarrow> (record_t option \<times> trace_file) result" where
  "file_last tf =
     bindr (file_last_loop (stream_file_reset (tfl_stream tf)) None) (\<lambda>(r, st).
       Inr (r, tf\<lparr>tfl_stream := st, tfl_cur := r\<rparr>))"

definition file_clear :: "trace_file \<Rightarrow> trace_file" where
  "file_clear tf = tf\<lparr>tfl_cur := None\<rparr>"

definition trace_file_create :: "stream \<Rightarrow> trace_file" where
  "trace_file_create st = \<lparr>tfl_cur = None, tfl_stream = st\<rparr>"

section \<open>The reading contract\<close>

text \<open>
  A stream that holds the images of well-formed records up to its end. \<open>stream_recs\<close> reads them.
\<close>

function stream_recs :: "stream \<Rightarrow> record_t list option" where
  "stream_recs st =
     (case read_record st of
        Inl _ \<Rightarrow> None
      | Inr (None, n, _) \<Rightarrow> if n = 0 then Some [] else None
      | Inr (Some r, _, st') \<Rightarrow> map_option (Cons r) (stream_recs st'))"
  by pat_completeness auto
termination
  by (relation "measure (\<lambda>st. length (st_rest st))") (auto dest: read_record_progress)

declare stream_recs.simps [simp del]

definition file_inv :: "trace_file \<Rightarrow> bool" where
  "file_inv tf \<longleftrightarrow> stream_recs (tfl_stream tf) \<noteq> None"

definition file_list :: "trace_file \<Rightarrow> record_t list" where
  "file_list tf = (case tfl_cur tf of None \<Rightarrow> [] | Some r \<Rightarrow> [r]) @ the (stream_recs (tfl_stream tf))"

lemma stream_recs_bytes:
  "st_rest st = records_bytes rs \<Longrightarrow> \<forall>r\<in>set rs. record_wf r \<Longrightarrow> stream_recs st = Some rs"
proof (induction rs arbitrary: st)
  case Nil
  then show ?case by (simp add: stream_recs.simps [of st] read_record_end)
next
  case (Cons r rs)
  then obtain st' where "read_record st = Inr (Some r, record_hsz, st')" "st_rest st' = records_bytes rs"
    using read_record_bytes [of st r "records_bytes rs"] by auto
  with Cons show ?case by (simp add: stream_recs.simps [of st])
qed

lemma stream_recs_end:
  assumes "read_record st = Inr (None, n, st')" and "n = 0"
  shows "stream_recs st' = Some []"
proof -
  have "length (take record_hsz (st_rest st)) = 0" "st' = st\<lparr>st_pos := st_pos st + n\<rparr>"
    using assms by (auto simp: read_record_def Let_def assertr_eq_Inr split: if_splits)
  then have "st_rest st' = []" using assms(2) by (auto simp: record_hsz_def st_rest_def)
  then show ?thesis by (simp add: stream_recs.simps [of st'] read_record_end)
qed

lemma file_read_loop_recs:
  "stream_recs st = Some rs \<Longrightarrow>
     \<exists>st'. file_read_loop st f = Inr (first_rec (skip f rs), st') \<and> stream_recs st' = Some (tl (skip f rs))"
proof (induction st f arbitrary: rs rule: file_read_loop.induct)
  case (1 st f)
  show ?case
  proof (cases "read_record st")
    case (Inl e)
    with "1.prems" show ?thesis by (simp add: stream_recs.simps [of st])
  next
    case (Inr x)
    obtain r n st1 where x: "x = (r, n, st1)" by (cases x)
    show ?thesis
    proof (cases r)
      case None
      with "1.prems" Inr x have "rs = []" "n = 0" by (auto simp: stream_recs.simps [of st] split: if_splits)
      with None Inr x stream_recs_end [of st n st1] show ?thesis
        by (auto simp: file_read_loop.simps [of st f])
    next
      case (Some v)
      with "1.prems" Inr x obtain rs1 where rs1: "stream_recs st1 = Some rs1" "rs = v # rs1"
        by (auto simp: stream_recs.simps [of st])
      show ?thesis
      proof (cases "matches f v")
        case True
        with Some Inr x rs1 show ?thesis by (auto simp: file_read_loop.simps [of st f] matches_def)
      next
        case False
        then have z: "rec_kind v AND f = 0" by (simp add: matches_def)
        have "\<exists>st'. file_read_loop st1 f = Inr (first_rec (skip f rs1), st') \<and>
            stream_recs st' = Some (tl (skip f rs1))"
          using "1.IH" [OF Inr x [symmetric] refl Some z rs1(1)] .
        with z False Some Inr x rs1(2) show ?thesis by (simp add: file_read_loop.simps [of st f])
      qed
    qed
  qed
qed

interpretation fl: trace_reader file_list file_inv "\<lambda>tf. tfl_cur tf \<noteq> None" file_next
  "\<lambda>tf. Inr (file_advance tf)"
proof unfold_locales
  fix tf f
  assume "file_inv tf"
  then obtain rs where rs: "stream_recs (tfl_stream tf) = Some rs" by (auto simp: file_inv_def)
  show "\<exists>t'. file_next tf f = Inr (first_rec (skip f (file_list tf)), t') \<and> file_inv t' \<and>
      file_list t' = skip f (file_list tf) \<and> (file_list t' \<noteq> [] \<longrightarrow> tfl_cur t' \<noteq> None)"
  proof (cases "\<exists>c. tfl_cur tf = Some c \<and> matches f c")
    case True
    then obtain c where c: "tfl_cur tf = Some c" "matches f c" by blast
    then have "file_next tf f = Inr (Some c, tf\<lparr>tfl_cur := Some c\<rparr>)"
      by (simp add: file_next_def file_get_next_def matches_def)
    with c rs show ?thesis by (auto simp: file_list_def file_inv_def)
  next
    case False
    then have l: "skip f (file_list tf) = skip f rs"
      by (auto simp: file_list_def rs split: option.split)
    obtain st' where st': "file_read_loop (tfl_stream tf) f = Inr (first_rec (skip f rs), st')"
        "stream_recs st' = Some (tl (skip f rs))"
      using file_read_loop_recs [OF rs] by blast
    have "file_next tf f = Inr (first_rec (skip f rs), tf\<lparr>tfl_stream := st', tfl_cur := first_rec (skip f rs)\<rparr>)"
      using False st'(1) by (auto simp: file_next_def file_get_next_def matches_def split: option.split)
    with st'(2) l show ?thesis
      by (cases "skip f rs") (auto simp: file_list_def file_inv_def)
  qed
  assume "tfl_cur tf \<noteq> None"
  with rs show "\<exists>t'. Inr (file_advance tf) = Inr t' \<and> file_inv t' \<and> file_list t' = tl (file_list tf)"
    by (auto simp: file_advance_def file_list_def file_inv_def)
qed

section \<open>Copying a streaming trace\<close>

lemma file_next_progress:
  "file_next tf f = Inr (Some r, tf1) \<Longrightarrow>
     2 * length (st_rest (tfl_stream (file_advance tf1))) + (case tfl_cur (file_advance tf1) of None \<Rightarrow> 0 | Some _ \<Rightarrow> 1)
       < 2 * length (st_rest (tfl_stream tf)) + (case tfl_cur tf of None \<Rightarrow> 0 | Some _ \<Rightarrow> 1)"
  by (auto simp: file_next_def file_get_next_def file_advance_def bindr_eq_Inr split: option.splits if_splits
      dest!: file_read_loop_progress)

text \<open>The loop of \<^verbatim>\<open>_save_to\<close>.\<close>

function file_save_loop :: "trace_file \<Rightarrow> stream \<Rightarrow> (trace_file \<times> stream) result" where
  "file_save_loop tf st =
     bindr (file_next tf RECORD_ANY) (\<lambda>(r, tf1). case r of
        None \<Rightarrow> Inr (tf1, st)
      | Some r \<Rightarrow>
          let (w, st') = stream_file_write st (record_bytes r) in
          if w = 0 then Inl Fatal else file_save_loop (file_advance tf1) st')"
  by pat_completeness auto
termination
proof (relation "measure (\<lambda>(tf, st). 2 * length (st_rest (tfl_stream tf)) + (case tfl_cur tf of None \<Rightarrow> 0 | Some _ \<Rightarrow> 1))")
  fix tf :: trace_file and st :: stream and x r tf1 v y w st'
  assume "file_next tf RECORD_ANY = Inr x" "(r, tf1) = x" "r = Some v"
  then have "file_next tf RECORD_ANY = Inr (Some v, tf1)" by simp
  from file_next_progress [OF this]
  show "((file_advance tf1, st'), tf, st) \<in> measure (\<lambda>(tf, st). 2 * length (st_rest (tfl_stream tf)) +
      (case tfl_cur tf of None \<Rightarrow> 0 | Some _ \<Rightarrow> 1))" by simp
qed simp

declare file_save_loop.simps [simp del]

definition file_save_to :: "trace_file \<Rightarrow> stream \<Rightarrow> (trace_file \<times> stream) result" where
  "file_save_to tf st = file_save_loop (tf\<lparr>tfl_cur := None\<rparr>) st"

lemma file_save_loop_recs:
  "file_inv tf \<Longrightarrow> st_at_end st \<Longrightarrow>
     \<exists>tf' st'. file_save_loop tf st = Inr (tf', st') \<and>
       st_bytes st' = st_bytes st @ records_bytes (filter (matches RECORD_ANY) (file_list tf))"
proof (induction tf st rule: file_save_loop.induct)
  case (1 tf st)
  obtain r tf1 where n: "file_next tf RECORD_ANY = Inr (r, tf1)"
    using fl.nx_law [OF "1.prems"(1), of RECORD_ANY] by auto
  show ?case
  proof (cases r)
    case None
    with n fl.nx_None [of tf RECORD_ANY tf1] "1.prems"
    have "filter (matches RECORD_ANY) (file_list tf) = []" by simp
    with n None show ?thesis by (simp add: file_save_loop.simps [of tf st] del: matches_any)
  next
    case (Some v)
    have a: "file_inv (file_advance tf1)" "skip RECORD_ANY (file_list tf) = v # file_list (file_advance tf1)"
      using fl.nx_adv [OF "1.prems"(1), of RECORD_ANY v tf1] n Some by auto
    let ?st = "st\<lparr>st_bytes := st_bytes st @ record_bytes v, st_pos := st_pos st + length (record_bytes v)\<rparr>"
    have w: "stream_file_write st (record_bytes v) = (length (record_bytes v), ?st)" "st_at_end ?st"
      using "1.prems"(2) by (simp_all add: stream_write_end) (simp add: st_at_end_def)
    have nz: "length (record_bytes v) \<noteq> 0" using record_bytes_nonempty [of v] by simp
    have f: "filter (matches RECORD_ANY) (file_list tf) = v # filter (matches RECORD_ANY) (file_list (file_advance tf1))"
      using skip_filter [of RECORD_ANY "file_list tf"] a(2) skip_ConsD(1) [OF a(2)] by simp
    have "\<exists>tf' st'. file_save_loop (file_advance tf1) ?st = Inr (tf', st') \<and>
        st_bytes st' = st_bytes ?st @ records_bytes (filter (matches RECORD_ANY) (file_list (file_advance tf1)))"
      using "1.IH" [OF n refl Some w(1) [symmetric] refl nz a(1) w(2)] .
    with n Some w(1) nz show ?thesis by (simp add: file_save_loop.simps [of tf st] f del: matches_any)
  qed
qed

section \<open>Dispatch: trace\_impl.c\<close>

text \<open>
  A \<^verbatim>\<open>trace_t\<close> is a table of function pointers filled in by the constructor of the implementation.
  \<^verbatim>\<open>trace_file_create\<close> leaves \<^verbatim>\<open>forget\<close> and \<^verbatim>\<open>save\<close> null, so calling them is a fault.
\<close>

datatype trace = TFlat trace_flat | TFile trace_file

fun trace_append :: "trace \<Rightarrow> record_t \<Rightarrow> (bool \<times> trace) result" where
  "trace_append (TFlat t) r = bindr (flat_append t r) (\<lambda>t'. Inr (True, TFlat t'))"
| "trace_append (TFile t) r = (case file_append t r of (ok, t') \<Rightarrow> Inr (ok, TFile t'))"

fun trace_append_safe :: "trace \<Rightarrow> record_t \<Rightarrow> (bool \<times> trace) result" where
  "trace_append_safe (TFlat t) r = bindr (flat_append t r) (\<lambda>t'. Inr (True, TFlat t'))"
| "trace_append_safe (TFile t) r = (case file_append_safe t r of (ok, t') \<Rightarrow> Inr (ok, TFile t'))"

fun trace_next :: "trace \<Rightarrow> kinds \<Rightarrow> (record_t option \<times> trace) result" where
  "trace_next (TFlat t) f = bindr (flat_next t f) (\<lambda>(r, t'). Inr (r, TFlat t'))"
| "trace_next (TFile t) f = bindr (file_next t f) (\<lambda>(r, t'). Inr (r, TFile t'))"

fun trace_advance :: "trace \<Rightarrow> trace result" where
  "trace_advance (TFlat t) = bindr (flat_advance t) (\<lambda>t'. Inr (TFlat t'))"
| "trace_advance (TFile t) = Inr (TFile (file_advance t))"

fun trace_last :: "trace \<Rightarrow> (record_t option \<times> trace) result" where
  "trace_last (TFlat t) = bindr (flat_last t) (\<lambda>r. Inr (r, TFlat t))"
| "trace_last (TFile t) = bindr (file_last t) (\<lambda>(r, t'). Inr (r, TFile t'))"

fun trace_forget :: "trace \<Rightarrow> trace result" where
  "trace_forget (TFlat t) = bindr (flat_forget t) (\<lambda>t'. Inr (TFlat t'))"
| "trace_forget (TFile t) = Inl Fault"

fun trace_clear :: "trace \<Rightarrow> trace result" where
  "trace_clear (TFlat t) = bindr (flat_clear t) (\<lambda>t'. Inr (TFlat t'))"
| "trace_clear (TFile t) = Inr (TFile (file_clear t))"

fun trace_load :: "trace \<Rightarrow> trace result" where
  "trace_load (TFlat t) = bindr (flat_load t) (\<lambda>t'. Inr (TFlat t'))"
| "trace_load (TFile t) = Inr (TFile t)"

fun trace_save :: "trace \<Rightarrow> trace result" where
  "trace_save (TFlat t) = bindr (flat_save t) (\<lambda>t'. Inr (TFlat t'))"
| "trace_save (TFile t) = Inl Fault"

fun trace_save_to :: "trace \<Rightarrow> stream \<Rightarrow> (trace \<times> stream) result" where
  "trace_save_to (TFlat t) st = bindr (flat_save_to t st) (\<lambda>st'. Inr (TFlat t, st'))"
| "trace_save_to (TFile t) st = bindr (file_save_to t st) (\<lambda>(t', st'). Inr (TFile t', st'))"

text \<open>\<^verbatim>\<open>trace_destroy\<close> clears the trace and frees it.\<close>

definition trace_destroy :: "trace \<Rightarrow> unit result" where
  "trace_destroy t = bindr (trace_clear t) (\<lambda>_. Inr ())"

fun trace_list :: "trace \<Rightarrow> record_t list" where
  "trace_list (TFlat t) = flat_list t"
| "trace_list (TFile t) = file_list t"

fun trace_inv :: "trace \<Rightarrow> bool" where
  "trace_inv (TFlat t) = flat_inv t"
| "trace_inv (TFile t) = file_inv t"

fun trace_primed :: "trace \<Rightarrow> bool" where
  "trace_primed (TFlat t) = (flat_list t \<noteq> [])"
| "trace_primed (TFile t) = (tfl_cur t \<noteq> None)"

interpretation tr: trace_reader trace_list trace_inv trace_primed trace_next trace_advance
proof unfold_locales
  fix t f
  assume i: "trace_inv t"
  show "\<exists>t'. trace_next t f = Inr (first_rec (skip f (trace_list t)), t') \<and> trace_inv t' \<and>
      trace_list t' = skip f (trace_list t) \<and> (trace_list t' \<noteq> [] \<longrightarrow> trace_primed t')"
  proof (cases t)
    case (TFlat u)
    with i flat.nx_law [of u f] show ?thesis by auto
  next
    case (TFile u)
    with i fl.nx_law [of u f] show ?thesis by auto
  qed
  assume p: "trace_primed t"
  show "\<exists>t'. trace_advance t = Inr t' \<and> trace_inv t' \<and> trace_list t' = tl (trace_list t)"
  proof (cases t)
    case (TFlat u)
    with i p flat.adv_law [of u] show ?thesis by auto
  next
    case (TFile u)
    with i p fl.adv_law [of u] show ?thesis by auto
  qed
qed

text \<open>A measure that decreases whenever a record is delivered and consumed.\<close>

fun trace_size :: "trace \<Rightarrow> nat" where
  "trace_size (TFlat t) = live (tf_heap t)"
| "trace_size (TFile t) = 2 * length (st_rest (tfl_stream t)) + (case tfl_cur t of None \<Rightarrow> 0 | Some _ \<Rightarrow> 1)"

lemma trace_consume_size:
  assumes "trace_next t f = Inr (Some r, t1)" and "trace_advance t1 = Inr t2"
  shows "trace_size t2 < trace_size t"
proof (cases t)
  case (TFlat u)
  with assms obtain u1 u2 where u: "flat_next u f = Inr (Some r, u1)" "flat_advance u1 = Inr u2" "t2 = TFlat u2"
    by (auto simp: bindr_eq_Inr)
  with flat_next_live [OF u(1)] flat_advance_live [OF u(2) flat_next_head [OF u(1)]] TFlat
  show ?thesis by simp
next
  case (TFile u)
  with assms obtain u1 where u: "file_next u f = Inr (Some r, u1)" "t2 = TFile (file_advance u1)"
    by (auto simp: bindr_eq_Inr)
  with file_next_progress [OF u(1)] TFile show ?thesis by simp
qed

section \<open>Properties\<close>

text \<open>
  A client of the reading interface: for each filter of a list it asks for the next record and, if
  there is one, consumes it.
\<close>

primrec trace_read :: "kinds list \<Rightarrow> trace \<Rightarrow> record_t option list result" where
  "trace_read [] t = Inr []"
| "trace_read (f # fs) t =
     bindr (trace_next t f) (\<lambda>(r, t1).
     bindr (case r of None \<Rightarrow> Inr t1 | Some _ \<Rightarrow> trace_advance t1) (\<lambda>t2.
     bindr (trace_read fs t2) (\<lambda>rs. Inr (r # rs))))"

primrec spec_read :: "kinds list \<Rightarrow> record_t list \<Rightarrow> record_t option list" where
  "spec_read [] rs = []"
| "spec_read (f # fs) rs = first_rec (skip f rs) # spec_read fs (tl (skip f rs))"

lemma trace_read_spec: "trace_inv t \<Longrightarrow> trace_read fs t = Inr (spec_read fs (trace_list t))"
proof (induction fs arbitrary: t)
  case (Cons f fs)
  obtain t1 where t1: "trace_next t f = Inr (first_rec (skip f (trace_list t)), t1)" "trace_inv t1"
      "trace_list t1 = skip f (trace_list t)" "trace_list t1 \<noteq> [] \<longrightarrow> trace_primed t1"
    using tr.nx_law [OF Cons.prems, of f] by auto
  show ?case
  proof (cases "skip f (trace_list t)")
    case Nil
    with t1 Cons.IH [OF t1(2)] show ?thesis by simp
  next
    case (Cons r rs)
    with t1 tr.adv_law [of t1] obtain t2 where "trace_advance t1 = Inr t2" "trace_inv t2" "trace_list t2 = rs"
      by auto
    with t1 Cons Cons.IH [of t2] show ?thesis by simp
  qed
qed simp

text \<open>
  Claim C36. A file of saved records read record by record through \<^verbatim>\<open>trace_file.c\<close> and the same file
  loaded as a whole by \<^verbatim>\<open>trace_flat.c\<close> deliver the same records to every client of
  \<^verbatim>\<open>trace_next\<close> and \<^verbatim>\<open>trace_advance\<close>, for every sequence of filters, and neither reader fails.
\<close>

theorem trace_file_flat_agree:
  assumes "\<forall>r\<in>set rs. record_wf r"
  shows "\<exists>t. trace_load (TFlat (trace_flat_create \<lparr>st_bytes = records_bytes rs, st_pos = 0\<rparr>)) = Inr t \<and>
    trace_read fs t = Inr (spec_read fs rs) \<and>
    trace_read fs (TFile (trace_file_create \<lparr>st_bytes = records_bytes rs, st_pos = 0\<rparr>)) = Inr (spec_read fs rs)"
proof -
  let ?st = "\<lparr>st_bytes = records_bytes rs, st_pos = 0\<rparr>"
  have rest: "st_rest ?st = records_bytes rs" by (simp add: st_rest_def)
  then obtain tf ys where "flat_load (trace_flat_create ?st) = Inr tf" "flat_rel tf ([] @ ys)" "map snd ys = rs"
    using flat_load_rel [OF flat_rel_create, of ?st rs] assms by (auto simp: trace_flat_create_def)
  then have "trace_load (TFlat (trace_flat_create ?st)) = Inr (TFlat tf)" "trace_inv (TFlat tf)"
      "trace_list (TFlat tf) = rs"
    by (auto dest: flat_invI)
  moreover have "trace_inv (TFile (trace_file_create ?st))" "trace_list (TFile (trace_file_create ?st)) = rs"
    using stream_recs_bytes [OF rest assms] by (simp_all add: file_inv_def file_list_def trace_file_create_def)
  ultimately show ?thesis using trace_read_spec by metis
qed

theorem trace_file_flat_agree_witness:
  "trace_read [RECORD_SCHED, RECORD_ANY, RECORD_ANY]
     (TFile (trace_file_create \<lparr>st_bytes = records_bytes
        [(record_alloc 1)\<lparr>rec_kind := RECORD_CONFIG\<rparr>, (record_alloc 0)\<lparr>rec_kind := RECORD_SCHED\<rparr>,
         (record_alloc 2)\<lparr>rec_kind := RECORD_EXIT\<rparr>], st_pos = 0\<rparr>))
   = Inr [Some ((record_alloc 0)\<lparr>rec_kind := RECORD_SCHED\<rparr>),
          Some ((record_alloc 2)\<lparr>rec_kind := RECORD_EXIT\<rparr>), None]"
proof -
  let ?rs = "[(record_alloc 1)\<lparr>rec_kind := RECORD_CONFIG\<rparr>, (record_alloc 0)\<lparr>rec_kind := RECORD_SCHED\<rparr>,
         (record_alloc 2)\<lparr>rec_kind := RECORD_EXIT\<rparr>]"
  have w: "\<forall>r\<in>set ?rs. record_wf r" by (simp add: record_wf_def record_alloc_def)
  have m: "\<not> matches RECORD_SCHED ((record_alloc 1)\<lparr>rec_kind := RECORD_CONFIG\<rparr>)"
    "matches RECORD_SCHED ((record_alloc 0)\<lparr>rec_kind := RECORD_SCHED\<rparr>)"
    by (simp_all add: matches_def record_kind_defs)
  have e: "RECORD_EXIT \<noteq> RECORD_NONE" by (simp add: record_kind_defs)
  have "spec_read [RECORD_SCHED, RECORD_ANY, RECORD_ANY] ?rs =
      [Some ((record_alloc 0)\<lparr>rec_kind := RECORD_SCHED\<rparr>),
       Some ((record_alloc 2)\<lparr>rec_kind := RECORD_EXIT\<rparr>), None]"
    using m e by simp
  with trace_file_flat_agree [OF w, of "[RECORD_SCHED, RECORD_ANY, RECORD_ANY]"] show ?thesis by metis
qed

end
