(* ===== verification/Statemgr.thy ===== *)
theory Statemgr
  imports Trace_File
begin

text \<open>
  Marshables (\<^verbatim>\<open>src/base/marshable.c\<close>) and the state manager (\<^verbatim>\<open>src/engine/statemgr.c\<close>).

  A marshable is the table of function pointers at the start of a module's state variable; the
  state manager keeps, per state type, an array of entries, each a slot number and a chain of
  marshables. The variables themselves live in a store from variable numbers to their contents.
  The main result is that what \<^verbatim>\<open>statemgr_marshal\<close> writes, \<^verbatim>\<open>statemgr_record_unmarshal\<close> restores.
\<close>

section \<open>marshable.c\<close>

record 'a marshable =
  m_var :: nat
  m_size :: "('a \<Rightarrow> nat) option"
  m_marshal :: "('a \<Rightarrow> byte list) option"
  m_unmarshal :: "('a \<Rightarrow> byte list \<Rightarrow> ('a \<times> byte list) result) option"

text \<open>A chain is the marshable and those reached through \<^verbatim>\<open>next\<close>; the null pointer is the empty chain.\<close>

fun marshable_size :: "(nat \<Rightarrow> 'a) \<Rightarrow> 'a marshable list \<Rightarrow> nat result" where
  "marshable_size st [] = Inl AssertFailed"
| "marshable_size st (m # ms) =
     (case m_size m of
        None \<Rightarrow> Inl AssertFailed
      | Some sz \<Rightarrow>
          if ms = [] then Inr (sz (st (m_var m)))
          else bindr (marshable_size st ms) (\<lambda>n. Inr (sz (st (m_var m)) + n)))"

fun marshable_marshal :: "(nat \<Rightarrow> 'a) \<Rightarrow> 'a marshable list \<Rightarrow> byte list result" where
  "marshable_marshal st [] = Inl AssertFailed"
| "marshable_marshal st (m # ms) =
     (case m_marshal m of
        None \<Rightarrow> Inl AssertFailed
      | Some f \<Rightarrow>
          if ms = [] then Inr (f (st (m_var m)))
          else bindr (marshable_marshal st ms) (\<lambda>bs. Inr (f (st (m_var m)) @ bs)))"

fun marshable_unmarshal ::
  "(nat \<Rightarrow> 'a) \<Rightarrow> 'a marshable list \<Rightarrow> byte list \<Rightarrow> ((nat \<Rightarrow> 'a) \<times> byte list) result" where
  "marshable_unmarshal st [] buf = Inl AssertFailed"
| "marshable_unmarshal st (m # ms) buf =
     (case m_unmarshal m of
        None \<Rightarrow> Inl AssertFailed
      | Some f \<Rightarrow> bindr (f (st (m_var m)) buf) (\<lambda>(v, buf').
          if ms = [] then Inr (st(m_var m := v), buf')
          else marshable_unmarshal (st(m_var m := v)) ms buf'))"

definition marshable_copy ::
  "(nat \<Rightarrow> 'a) \<Rightarrow> 'a marshable list \<Rightarrow> 'a marshable list \<Rightarrow> (nat \<Rightarrow> 'a) result" where
  "marshable_copy st dst src =
     bindr (marshable_size st src) (\<lambda>n.
     bindr (marshable_marshal st src) (\<lambda>buf.
     if length buf > n then Inl Fault
     else bindr (marshable_unmarshal st dst buf) (\<lambda>(st', _). Inr st')))"

text \<open>
  \<^verbatim>\<open>marshable_bind\<close> cuts the child from its old chain and appends it at the end of the parent's.
  The child is assumed not to be in the parent's chain already.
\<close>

definition marshable_bind :: "'a marshable list \<Rightarrow> 'a marshable \<Rightarrow> 'a marshable list result" where
  "marshable_bind parent child =
     assertr (parent \<noteq> []) (assertr (m_var (hd parent) \<noteq> m_var child) (Inr (parent @ [child])))"

text \<open>
  Static marshables: the variable is a flat structure of \<^verbatim>\<open>alloc_size\<close> bytes whose first 48 bytes
  are the \<^verbatim>\<open>marshable_t\<close> itself. Unmarshalling leaves those untouched.
\<close>

definition MARSHABLE_OFF :: nat where
  "MARSHABLE_OFF = 48"

definition marshable_static_size :: "nat \<Rightarrow> byte list \<Rightarrow> nat" where
  "marshable_static_size n img = n"

definition marshable_static_marshal :: "nat \<Rightarrow> byte list \<Rightarrow> byte list" where
  "marshable_static_marshal n img = take n img"

definition marshable_static_unmarshal ::
  "nat \<Rightarrow> byte list \<Rightarrow> byte list \<Rightarrow> (byte list \<times> byte list) result" where
  "marshable_static_unmarshal n img buf =
     (if length buf < n then Inl Fault
      else Inr (take MARSHABLE_OFF img @ take (n - MARSHABLE_OFF) (drop MARSHABLE_OFF buf), drop n buf))"

definition MARSHABLE_STATIC :: "nat \<Rightarrow> nat \<Rightarrow> byte list marshable" where
  "MARSHABLE_STATIC v n =
     \<lparr>m_var = v, m_size = Some (marshable_static_size n), m_marshal = Some (marshable_static_marshal n),
      m_unmarshal = Some (marshable_static_unmarshal n)\<rparr>"

section \<open>statemgr.c: data\<close>

datatype state_type =
    STATE_TYPE_EPHEMERAL | STATE_TYPE_START | STATE_TYPE_CONFIG | STATE_TYPE_PERSISTENT
  | STATE_TYPE_FINAL | STATE_TYPE_EMPTY

datatype sm_event =
    AFTER_UNMARSHAL_CONFIG | AFTER_UNMARSHAL_PERSISTENT | AFTER_UNMARSHAL_FINAL
  | BEFORE_MARSHAL_CONFIG | BEFORE_MARSHAL_PERSISTENT | BEFORE_MARSHAL_FINAL

definition CANARY :: nat where
  "CANARY = 0xbadfeed"

definition MAX_SLOTS :: nat where
  "MAX_SLOTS = 1024"

record 'a entry =
  en_m :: "'a marshable list"
  en_slot :: "32 word"

type_synonym 'a groups = "state_type \<Rightarrow> 'a entry list"
type_synonym 'a store = "nat \<Rightarrow> 'a"

record header =
  h_canary :: nat
  h_index :: nat
  h_size :: nat
  h_empty :: bool
  h_slot :: "32 word"

definition sm_hsz :: nat where
  "sm_hsz = 32"

section \<open>statemgr.c: operations\<close>

text \<open>Offsets: canary 0, index 8, size 16, empty 24, padding 25 to 27, slot 28.\<close>

definition header_marshal :: "header \<Rightarrow> byte list" where
  "header_marshal h =
     le_bytes 8 CANARY @ le_bytes 8 (h_index h) @ le_bytes 8 (h_size h) @
     le_bytes 1 (if h_empty h then 1 else 0) @ le_bytes 3 0 @ le_bytes 4 (unat (h_slot h))"

definition header_unmarshal :: "byte list \<Rightarrow> header result" where
  "header_unmarshal buf =
     (if length buf < sm_hsz then Inl Fault
      else let h = \<lparr>h_canary = field 0 8 buf, h_index = field 8 8 buf, h_size = field 16 8 buf,
                    h_empty = (field 24 1 buf \<noteq> 0), h_slot = of_nat (field 28 4 buf)\<rparr> in
        if h_canary h \<noteq> CANARY then Inl Fatal else Inr h)"

text \<open>A slot that is already registered extends the chain of its entry.\<close>

fun register_find :: "'a entry list \<Rightarrow> 32 word \<Rightarrow> 'a marshable \<Rightarrow> 'a entry list option result" where
  "register_find [] slot m = Inr None"
| "register_find (e # es) slot m =
     (if en_slot e = slot
      then bindr (marshable_bind (en_m e) m) (\<lambda>c. Inr (Some (e\<lparr>en_m := c\<rparr> # es)))
      else bindr (register_find es slot m) (\<lambda>r. Inr (map_option (Cons e) r)))"

definition statemgr_register_group :: "'a entry list \<Rightarrow> 32 word \<Rightarrow> 'a marshable \<Rightarrow> 'a entry list result" where
  "statemgr_register_group g slot m =
     bindr (register_find g slot m) (\<lambda>r. case r of
        Some g' \<Rightarrow> Inr g'
      | None \<Rightarrow> if length g < MAX_SLOTS then Inr (g @ [\<lparr>en_m = [m], en_slot = slot\<rparr>]) else Inl Fault)"

definition statemgr_register :: "'a groups \<Rightarrow> 32 word \<Rightarrow> 'a marshable \<Rightarrow> state_type \<Rightarrow> 'a groups result" where
  "statemgr_register gs slot m ty =
     assertr (sint slot < int MAX_SLOTS)
       (if ty \<noteq> STATE_TYPE_EPHEMERAL
        then bindr (statemgr_register_group (gs ty) slot m) (\<lambda>g. Inr (gs(ty := g)))
        else Inr gs)"

definition entry_active :: "'a entry \<Rightarrow> bool" where
  "entry_active e \<longleftrightarrow> en_m e \<noteq> [] \<and> m_size (hd (en_m e)) \<noteq> None"

fun group_size :: "'a store \<Rightarrow> 'a entry list \<Rightarrow> nat result" where
  "group_size st [] = Inr 0"
| "group_size st (e # es) =
     bindr (if entry_active e then bindr (marshable_size st (en_m e)) (\<lambda>n. Inr (n + sm_hsz)) else Inr 0) (\<lambda>n.
     bindr (group_size st es) (\<lambda>k. Inr (n + k)))"

definition statemgr_size :: "'a groups \<Rightarrow> 'a store \<Rightarrow> state_type \<Rightarrow> nat result" where
  "statemgr_size gs st ty = assertr (ty \<noteq> STATE_TYPE_EPHEMERAL) (group_size st (gs ty))"

text \<open>
  The loop shared by \<^verbatim>\<open>_statemgr_unmarshal\<close> (\<open>bounded = False\<close>) and \<^verbatim>\<open>_statemgr_record_unmarshal\<close>
  (\<open>bounded = True\<close>, where the buffer ends with the record's payload).
\<close>

function unmarshal_loop ::
  "bool \<Rightarrow> 'a entry list \<Rightarrow> nat \<Rightarrow> nat \<Rightarrow> 'a store \<Rightarrow> byte list \<Rightarrow> ('a store \<times> byte list) result" where
  "unmarshal_loop bounded g i cnt st buf =
     (if i < length g \<and> cnt < length g then
        if bounded \<and> buf = [] then Inr (st, buf)
        else assertr (bounded \<longrightarrow> length buf \<ge> sm_hsz)
          (bindr (header_unmarshal buf) (\<lambda>h.
             if h_slot h \<noteq> en_slot (g ! i) then unmarshal_loop bounded g (Suc i) cnt st buf
             else if en_m (g ! i) = [] then Inl Fatal
             else let payload = drop sm_hsz buf in
               bindr (marshable_unmarshal st (en_m (g ! i)) payload) (\<lambda>(st', rest).
                 assertr (length payload - length rest = h_size h)
                   (unmarshal_loop bounded g 0 (Suc cnt) st' rest))))
      else Inr (st, buf))"
  by pat_completeness auto
termination
  by (relation "measures [\<lambda>(b, g, i, cnt, st, buf). length g - cnt,
                          \<lambda>(b, g, i, cnt, st, buf). length g - i]") auto

declare unmarshal_loop.simps [simp del]

fun after_unmarshal :: "(sm_event \<Rightarrow> 'a store \<Rightarrow> 'a store) \<Rightarrow> state_type \<Rightarrow> 'a store \<Rightarrow> 'a store" where
  "after_unmarshal pub STATE_TYPE_CONFIG st = pub AFTER_UNMARSHAL_CONFIG st"
| "after_unmarshal pub STATE_TYPE_PERSISTENT st = pub AFTER_UNMARSHAL_PERSISTENT st"
| "after_unmarshal pub STATE_TYPE_FINAL st = pub AFTER_UNMARSHAL_FINAL st"
| "after_unmarshal pub _ st = st"

fun before_marshal :: "(sm_event \<Rightarrow> 'a store \<Rightarrow> 'a store) \<Rightarrow> state_type \<Rightarrow> 'a store \<Rightarrow> 'a store" where
  "before_marshal pub STATE_TYPE_CONFIG st = pub BEFORE_MARSHAL_CONFIG st"
| "before_marshal pub STATE_TYPE_PERSISTENT st = pub BEFORE_MARSHAL_PERSISTENT st"
| "before_marshal pub STATE_TYPE_FINAL st = pub BEFORE_MARSHAL_FINAL st"
| "before_marshal pub _ st = st"

text \<open>\<open>pub\<close> is what the subscribers of an event do to the store.\<close>

definition statemgr_unmarshal ::
  "(sm_event \<Rightarrow> 'a store \<Rightarrow> 'a store) \<Rightarrow> 'a groups \<Rightarrow> 'a store \<Rightarrow> byte list \<Rightarrow> state_type \<Rightarrow> bool \<Rightarrow>
     ('a store \<times> byte list) result" where
  "statemgr_unmarshal pub gs st buf ty publish =
     assertr (ty \<noteq> STATE_TYPE_EPHEMERAL)
       (bindr (unmarshal_loop False (gs ty) 0 0 st buf) (\<lambda>(st', rest).
          Inr (if publish then after_unmarshal pub ty st' else st', rest)))"

fun group_marshal :: "'a store \<Rightarrow> 'a entry list \<Rightarrow> nat \<Rightarrow> byte list result" where
  "group_marshal st [] i = Inr []"
| "group_marshal st (e # es) i =
     bindr (if entry_active e then
              bindr (marshable_marshal st (en_m e)) (\<lambda>pl.
                Inr (header_marshal \<lparr>h_canary = 0, h_index = i, h_size = length pl, h_empty = False,
                       h_slot = en_slot e\<rparr> @ pl))
            else Inr []) (\<lambda>bs.
     bindr (group_marshal st es (Suc i)) (\<lambda>bs'. Inr (bs @ bs')))"

definition statemgr_marshal ::
  "(sm_event \<Rightarrow> 'a store \<Rightarrow> 'a store) \<Rightarrow> 'a groups \<Rightarrow> 'a store \<Rightarrow> state_type \<Rightarrow> (byte list \<times> 'a store) result" where
  "statemgr_marshal pub gs st ty =
     assertr (ty \<noteq> STATE_TYPE_EPHEMERAL)
       (if ty = STATE_TYPE_EMPTY then
          bindr (statemgr_size gs st ty) (\<lambda>n.
            Inr (header_marshal \<lparr>h_canary = 0, h_index = 0, h_size = n, h_empty = True, h_slot = 0\<rparr>, st))
        else let st' = before_marshal pub ty st in
          bindr (group_marshal st' (gs ty) 0) (\<lambda>bs. Inr (bs, st')))"

definition statemgr_record_unmarshal ::
  "(sm_event \<Rightarrow> 'a store \<Rightarrow> 'a store) \<Rightarrow> 'a groups \<Rightarrow> 'a store \<Rightarrow> record_t \<Rightarrow> 'a store result" where
  "statemgr_record_unmarshal pub gs st r =
     (if rec_kind r = RECORD_SCHED then
        bindr (unmarshal_loop True (gs STATE_TYPE_PERSISTENT) 0 0 st (rec_data r)) (\<lambda>(st', _).
          Inr (pub AFTER_UNMARSHAL_PERSISTENT st'))
      else if rec_kind r = RECORD_FORCE \<or> rec_kind r = RECORD_OPAQUE \<or> rec_kind r = RECORD_EXIT then Inr st
      else if rec_kind r = RECORD_START then
        bindr (statemgr_unmarshal pub gs st (rec_data r) STATE_TYPE_START True) (\<lambda>(st', _). Inr st')
      else if rec_kind r = RECORD_CONFIG then
        bindr (unmarshal_loop True (gs STATE_TYPE_CONFIG) 0 0 st (rec_data r)) (\<lambda>(st', _).
          Inr (pub AFTER_UNMARSHAL_CONFIG st'))
      else Inl Fatal)"

section \<open>Lemmas\<close>

text \<open>
  A lawful marshable: all function pointers are set, the announced size is the size written, and
  reading back what was written restores what \<open>obs\<close> observes of the variable, consuming exactly the
  written bytes. \<open>ok\<close> is what the module guarantees of its variable.
\<close>

definition m_lawful :: "(nat \<Rightarrow> 'a \<Rightarrow> bool) \<Rightarrow> (nat \<Rightarrow> 'a \<Rightarrow> 'o) \<Rightarrow> 'a marshable \<Rightarrow> bool" where
  "m_lawful ok obs m \<longleftrightarrow> (\<exists>sz mar unm. m_size m = Some sz \<and> m_marshal m = Some mar \<and> m_unmarshal m = Some unm \<and>
     (\<forall>s. ok (m_var m) s \<longrightarrow> length (mar s) = sz s) \<and>
     (\<forall>s t rest. ok (m_var m) s \<longrightarrow> ok (m_var m) t \<longrightarrow>
        (\<exists>t'. unm t (mar s @ rest) = Inr (t', rest) \<and> ok (m_var m) t' \<and> obs (m_var m) t' = obs (m_var m) s)))"

lemma static_lawful:
  assumes "ok v = (\<lambda>img. length img = n)" and "obs v = drop MARSHABLE_OFF" and "MARSHABLE_OFF \<le> n"
  shows "m_lawful ok obs (MARSHABLE_STATIC v n)"
  using assms
  by (auto simp: m_lawful_def MARSHABLE_STATIC_def marshable_static_size_def marshable_static_marshal_def
      marshable_static_unmarshal_def min_def)

lemma m_lawfulE:
  assumes "m_lawful ok obs m" and "ok (m_var m) s"
  obtains sz mar unm where "m_size m = Some sz" and "m_marshal m = Some mar" and "m_unmarshal m = Some unm"
    and "length (mar s) = sz s"
    and "\<And>rest u. ok (m_var m) u \<Longrightarrow>
      \<exists>t'. unm u (mar s @ rest) = Inr (t', rest) \<and> ok (m_var m) t' \<and> obs (m_var m) t' = obs (m_var m) s"
  using assms unfolding m_lawful_def by blast

lemma chain_marshal_size:
  assumes "ms \<noteq> []" and "\<forall>m\<in>set ms. m_lawful ok obs m" and "\<forall>v. ok v (s v)"
  shows "\<exists>bs. marshable_marshal s ms = Inr bs \<and> marshable_size s ms = Inr (length bs)"
  using assms
proof (induction ms)
  case (Cons m ms)
  obtain sz mar unm where f: "m_size m = Some sz" "m_marshal m = Some mar"
      "length (mar (s (m_var m))) = sz (s (m_var m))"
    using Cons.prems by (auto simp: m_lawful_def)
  show ?case
  proof (cases "ms = []")
    case False
    then obtain bs where "marshable_marshal s ms = Inr bs" "marshable_size s ms = Inr (length bs)"
      using Cons by auto
    with f False show ?thesis by simp
  qed (use f in simp)
qed simp

definition restored :: "(nat \<Rightarrow> 'a \<Rightarrow> bool) \<Rightarrow> (nat \<Rightarrow> 'a \<Rightarrow> 'o) \<Rightarrow> nat set \<Rightarrow> 'a store \<Rightarrow> 'a store \<Rightarrow> 'a store \<Rightarrow> bool" where
  "restored ok obs V s t t' \<longleftrightarrow> (\<forall>v. ok v (t' v)) \<and> (\<forall>v\<in>V. obs v (t' v) = obs v (s v)) \<and> (\<forall>v. v \<notin> V \<longrightarrow> t' v = t v)"

lemma restored_trans:
  "restored ok obs V s t t1 \<Longrightarrow> restored ok obs W s t1 t2 \<Longrightarrow> V \<inter> W = {} \<Longrightarrow> restored ok obs (V \<union> W) s t t2"
  unfolding restored_def by (metis Un_iff disjoint_iff)

lemma chain_unmarshal:
  assumes "ms \<noteq> []" and "\<forall>m\<in>set ms. m_lawful ok obs m" and "distinct (map m_var ms)"
    and "\<forall>v. ok v (s v)" and "\<forall>v. ok v (t v)" and "marshable_marshal s ms = Inr bs"
  shows "\<exists>t'. marshable_unmarshal t ms (bs @ rest) = Inr (t', rest) \<and> restored ok obs (m_var ` set ms) s t t'"
  using assms
proof (induction ms arbitrary: t bs)
  case (Cons m ms)
  let ?v = "m_var m"
  have l: "m_lawful ok obs m" and oks: "ok ?v (s ?v)" and okt: "ok ?v (t ?v)"
    using Cons.prems(2,4,5) by auto
  obtain sz mar unm where f: "m_marshal m = Some mar" "m_unmarshal m = Some unm"
    and u: "\<And>rest u. ok ?v u \<Longrightarrow> \<exists>t'. unm u (mar (s ?v) @ rest) = Inr (t', rest) \<and> ok ?v t' \<and> obs ?v t' = obs ?v (s ?v)"
    using l oks by (rule m_lawfulE) blast
  have step: "\<exists>x. unm (t ?v) (mar (s ?v) @ rest) = Inr (x, rest) \<and> restored ok obs {?v} s t (t(?v := x))" for rest
    using u [OF okt, of rest] Cons.prems(5) by (auto simp: restored_def)
  show ?case
  proof (cases "ms = []")
    case True
    then have "bs = mar (s ?v)" using Cons.prems(6) f(1) by simp
    with True step [of rest] f(2) show ?thesis by auto
  next
    case False
    then obtain bs' where bs': "marshable_marshal s ms = Inr bs'" "bs = mar (s ?v) @ bs'"
      using Cons.prems(6) f(1) by (auto simp: bindr_eq_Inr)
    obtain x where x: "unm (t ?v) (mar (s ?v) @ bs' @ rest) = Inr (x, bs' @ rest)"
        "restored ok obs {?v} s t (t(?v := x))"
      using step by blast
    then have okx: "\<forall>v. ok v ((t(?v := x)) v)" by (simp add: restored_def)
    have l': "\<forall>m\<in>set ms. m_lawful ok obs m" and d': "distinct (map m_var ms)" and n: "?v \<notin> m_var ` set ms"
      using Cons.prems(2,3) by auto
    obtain t' where t': "marshable_unmarshal (t(?v := x)) ms (bs' @ rest) = Inr (t', rest)"
        "restored ok obs (m_var ` set ms) s (t(?v := x)) t'"
      using Cons.IH [OF False l' d' Cons.prems(4) okx bs'(1)] by blast
    have "marshable_unmarshal t (m # ms) (bs @ rest) = Inr (t', rest)"
      using False f(2) x(1) t'(1) bs'(2) by simp
    moreover have "restored ok obs (m_var ` set (m # ms)) s t t'"
      using restored_trans [OF x(2) t'(2)] n by simp
    ultimately show ?thesis by blast
  qed
qed simp

lemma length_header_marshal [simp]: "length (header_marshal h) = sm_hsz"
  by (simp add: header_marshal_def sm_hsz_def)

lemma header_unmarshal_marshal:
  assumes "h_size h < 2 ^ 64"
  shows "\<exists>h'. header_unmarshal (header_marshal h @ rest) = Inr h' \<and> h_size h' = h_size h \<and>
    h_slot h' = h_slot h \<and> h_empty h' = h_empty h"
proof -
  let ?b = "header_marshal h @ rest"
  have "field 0 8 ?b = CANARY" "field 16 8 ?b = h_size h" "field 28 4 ?b = unat (h_slot h)"
      "field 24 1 ?b = (if h_empty h then 1 else 0)"
    using assms by (simp_all add: header_marshal_def field_def le_val_bytes_id CANARY_def)
  then show ?thesis by (simp add: header_unmarshal_def Let_def)
qed

text \<open>The search for the entry with the slot of the header ends at that entry.\<close>

lemma unmarshal_scan:
  assumes "k < length g" and "cnt < length g" and "distinct (map en_slot g)"
    and "header_unmarshal buf = Inr h" and "h_slot h = en_slot (g ! k)" and "sm_hsz \<le> length buf"
  shows "i \<le> k \<Longrightarrow> unmarshal_loop b g i cnt st buf = unmarshal_loop b g k cnt st buf"
proof (induction "k - i" arbitrary: i)
  case (Suc n)
  then have i: "i < k" by simp
  then have ne: "en_slot (g ! k) \<noteq> en_slot (g ! i)"
    using assms(1,3) by (auto simp: distinct_conv_nth dest!: spec [of _ k])
  have "buf \<noteq> []" using assms(6) by (auto simp: sm_hsz_def)
  then have "unmarshal_loop b g i cnt st buf = unmarshal_loop b g (Suc i) cnt st buf"
    using ne i assms by (subst unmarshal_loop.simps) simp
  moreover have "unmarshal_loop b g (Suc i) cnt st buf = unmarshal_loop b g k cnt st buf"
    using Suc.hyps i by simp
  ultimately show ?case by simp
qed simp

definition group_vars :: "'a entry list \<Rightarrow> nat list" where
  "group_vars g = concat (map (\<lambda>e. map m_var (en_m e)) g)"

definition group_ok :: "(nat \<Rightarrow> 'a \<Rightarrow> bool) \<Rightarrow> (nat \<Rightarrow> 'a \<Rightarrow> 'o) \<Rightarrow> 'a entry list \<Rightarrow> bool" where
  "group_ok ok obs g \<longleftrightarrow> distinct (map en_slot g) \<and> distinct (group_vars g) \<and>
     (\<forall>e\<in>set g. en_m e \<noteq> [] \<and> (\<forall>m\<in>set (en_m e). m_lawful ok obs m))"

lemma group_marshal_size:
  assumes "\<forall>e\<in>set g. en_m e \<noteq> [] \<and> (\<forall>m\<in>set (en_m e). m_lawful ok obs m)" and "\<forall>v. ok v (s v)"
    and "distinct (group_vars g)"
  shows "\<exists>bs. group_marshal s g i = Inr bs \<and> group_size s g = Inr (length bs)"
  using assms
proof (induction g arbitrary: i)
  case (Cons e g)
  have e: "en_m e \<noteq> []" "\<forall>m\<in>set (en_m e). m_lawful ok obs m" using Cons.prems by auto
  have act: "entry_active e" using e by (cases "en_m e") (auto simp: entry_active_def m_lawful_def)
  obtain bs where "marshable_marshal s (en_m e) = Inr bs" "marshable_size s (en_m e) = Inr (length bs)"
    using chain_marshal_size [OF e(1,2) Cons.prems(2)] by blast
  moreover obtain bs' where "group_marshal s g (Suc i) = Inr bs'" "group_size s g = Inr (length bs')"
    using Cons.IH [of "Suc i"] Cons.prems by (auto simp: group_vars_def)
  ultimately show ?case using act by simp
qed simp

lemma group_roundtrip:
  assumes "group_ok ok obs (g1 @ g)" and "\<forall>v. ok v (s v)" and "\<forall>v. ok v (t v)"
    and "group_marshal s g (length g1) = Inr bs" and "length bs < 2 ^ 64"
  shows "\<exists>t'. unmarshal_loop b (g1 @ g) 0 (length g1) t (bs @ rest) = Inr (t', rest) \<and>
    restored ok obs (set (group_vars g)) s t t'"
  using assms
proof (induction g arbitrary: g1 t bs)
  case Nil
  then have "unmarshal_loop b (g1 @ []) 0 (length g1) t (bs @ rest) = Inr (t, rest)"
    by (subst unmarshal_loop.simps) simp
  with Nil.prems(3) show ?case by (simp add: group_vars_def restored_def)
next
  case (Cons e g)
  let ?g = "g1 @ e # g" and ?k = "length g1"
  have e: "en_m e \<noteq> []" "\<forall>m\<in>set (en_m e). m_lawful ok obs m" "distinct (map m_var (en_m e))"
    and ds: "distinct (map en_slot ?g)" and dv: "m_var ` set (en_m e) \<inter> set (group_vars g) = {}"
    using Cons.prems(1) by (auto simp: group_ok_def group_vars_def)
  have act: "entry_active e" using e by (cases "en_m e") (auto simp: entry_active_def m_lawful_def)
  obtain pl where pl: "marshable_marshal s (en_m e) = Inr pl"
    using chain_marshal_size [OF e(1,2) Cons.prems(2)] by blast
  let ?h = "\<lparr>h_canary = 0, h_index = ?k, h_size = length pl, h_empty = False, h_slot = en_slot e\<rparr>"
  obtain bs' where bs': "group_marshal s g (Suc ?k) = Inr bs'" "bs = header_marshal ?h @ pl @ bs'"
    using Cons.prems(4) act pl by (auto simp: bindr_eq_Inr)
  obtain h where h: "header_unmarshal (bs @ rest) = Inr h" "h_size h = length pl" "h_slot h = en_slot e"
    using header_unmarshal_marshal [of ?h "pl @ bs' @ rest"] bs'(2) Cons.prems(5) by auto
  obtain t1 where t1: "marshable_unmarshal t (en_m e) (pl @ bs' @ rest) = Inr (t1, bs' @ rest)"
      "restored ok obs (m_var ` set (en_m e)) s t t1"
    using chain_unmarshal [OF e Cons.prems(2,3) pl] by blast
  have len: "sm_hsz \<le> length (bs @ rest)" and dr: "drop sm_hsz (bs @ rest) = pl @ bs' @ rest"
    by (simp_all add: bs'(2))
  then have ne: "bs @ rest \<noteq> []" by (auto simp: sm_hsz_def)
  have "unmarshal_loop b ?g 0 ?k t (bs @ rest) = unmarshal_loop b ?g ?k ?k t (bs @ rest)"
    by (rule unmarshal_scan [where h = h]) (use ds h len in auto)
  also have "\<dots> = unmarshal_loop b ?g 0 (Suc ?k) t1 (bs' @ rest)"
    using h len dr ne t1(1) e(1) by (subst unmarshal_loop.simps) (auto simp: Let_def)
  finally have run: "unmarshal_loop b ?g 0 ?k t (bs @ rest) =
      unmarshal_loop b ((g1 @ [e]) @ g) 0 (length (g1 @ [e])) t1 (bs' @ rest)" by simp
  have okt1: "\<forall>v. ok v (t1 v)" using t1(2) by (simp add: restored_def)
  obtain t' where t': "unmarshal_loop b ((g1 @ [e]) @ g) 0 (length (g1 @ [e])) t1 (bs' @ rest) = Inr (t', rest)"
      "restored ok obs (set (group_vars g)) s t1 t'"
    using Cons.IH [of "g1 @ [e]" t1 bs'] Cons.prems(1,2,5) okt1 bs' by auto
  have "restored ok obs (set (group_vars (e # g))) s t t'"
    using restored_trans [OF t1(2) t'(2) dv] by (simp add: group_vars_def)
  with run t'(1) show ?case by simp
qed

lemma register_find_slots:
  "register_find g slot m = Inr (Some g') \<Longrightarrow> map en_slot g' = map en_slot g \<and> slot \<in> en_slot ` set g"
proof (induction g arbitrary: g')
  case (Cons e g)
  show ?case
  proof (cases "en_slot e = slot")
    case False
    with Cons.prems obtain g1 where "register_find g slot m = Inr (Some g1)" "g' = e # g1"
      by (auto simp: bindr_eq_Inr)
    with Cons.IH [of g1] show ?thesis by simp
  qed (use Cons.prems in \<open>auto simp: bindr_eq_Inr\<close>)
qed simp

lemma register_find_None: "register_find g slot m = Inr None \<Longrightarrow> slot \<notin> en_slot ` set g"
  by (induction g) (auto simp: bindr_eq_Inr split: if_splits)

lemma statemgr_register_distinct:
  assumes "statemgr_register_group g slot m = Inr g'" and "distinct (map en_slot g)"
  shows "distinct (map en_slot g')"
proof -
  obtain res where "register_find g slot m = Inr res"
    using assms(1) by (auto simp: statemgr_register_group_def bindr_eq_Inr)
  with assms register_find_slots [of g slot m] register_find_None [of g slot m] show ?thesis
    by (cases res) (auto simp: statemgr_register_group_def split: if_splits)
qed

section \<open>Properties\<close>

text \<open>
  Claim C38. What \<^verbatim>\<open>statemgr_marshal\<close> writes into a record for the persistent state, the replay restores
  from the payload of that record: every registered variable is again observed as it was when the
  record was made, no other variable changes before the subscribers are notified, and the size
  announced by \<^verbatim>\<open>statemgr_size\<close> is exactly the size written.
\<close>

theorem statemgr_persistent_roundtrip:
  assumes "group_ok ok obs (gs STATE_TYPE_PERSISTENT)" and "\<forall>v. ok v (s v)" and "\<forall>v. ok v (t v)"
    and "\<forall>st. pub BEFORE_MARSHAL_PERSISTENT st = st"
    and "statemgr_marshal pub gs s STATE_TYPE_PERSISTENT = Inr (bs, s')" and "length bs < 2 ^ 64"
    and "rec_kind r = RECORD_SCHED" and "rec_data r = bs"
  shows "statemgr_size gs s STATE_TYPE_PERSISTENT = Inr (length bs) \<and>
    (\<exists>t'. statemgr_record_unmarshal pub gs t r = Inr (pub AFTER_UNMARSHAL_PERSISTENT t') \<and>
       (\<forall>v\<in>set (group_vars (gs STATE_TYPE_PERSISTENT)). obs v (t' v) = obs v (s v)) \<and>
       (\<forall>v. v \<notin> set (group_vars (gs STATE_TYPE_PERSISTENT)) \<longrightarrow> t' v = t v))"
proof -
  let ?g = "gs STATE_TYPE_PERSISTENT"
  have m: "group_marshal s ?g 0 = Inr bs"
    using assms(4,5) by (auto simp: statemgr_marshal_def bindr_eq_Inr)
  have "statemgr_size gs s STATE_TYPE_PERSISTENT = Inr (length bs)"
    using group_marshal_size [of ?g ok obs s 0] assms(1,2) m by (auto simp: group_ok_def statemgr_size_def)
  moreover obtain t' where "unmarshal_loop True ?g 0 0 t bs = Inr (t', [])"
      "restored ok obs (set (group_vars ?g)) s t t'"
    using group_roundtrip [of ok obs "[]" ?g s t bs True "[]"] assms(1-3,6) m by auto
  ultimately show ?thesis using assms(7,8)
    by (auto simp: statemgr_record_unmarshal_def restored_def intro!: exI [of _ t'])
qed

theorem statemgr_persistent_roundtrip_witness:
  "\<exists>t'. statemgr_record_unmarshal (\<lambda>_ st. st)
      (\<lambda>_. [\<lparr>en_m = [MARSHABLE_STATIC 0 50], en_slot = 7\<rparr>]) (\<lambda>_. replicate 50 9)
      ((record_alloc 82)\<lparr>rec_kind := RECORD_SCHED,
         rec_data := header_marshal \<lparr>h_canary = 0, h_index = 0, h_size = 50, h_empty = False, h_slot = 7\<rparr> @ replicate 50 5\<rparr>)
    = Inr t' \<and> drop 48 (t' 0) = [5, 5]"
proof -
  let ?ok = "\<lambda>(v :: nat) img :: byte list. length img = 50" and ?obs = "\<lambda>(v :: nat) img :: byte list. drop MARSHABLE_OFF img"
  let ?gs = "\<lambda>_ :: state_type. [\<lparr>en_m = [MARSHABLE_STATIC 0 50], en_slot = 7\<rparr>]"
  let ?h = "\<lparr>h_canary = 0, h_index = 0, h_size = 50, h_empty = False, h_slot = 7\<rparr>"
  let ?r = "(record_alloc 82)\<lparr>rec_kind := RECORD_SCHED, rec_data := header_marshal ?h @ replicate 50 5\<rparr>"
  have l: "m_lawful ?ok ?obs (MARSHABLE_STATIC 0 50)"
    by (rule static_lawful) (simp_all add: MARSHABLE_OFF_def)
  have a: "group_ok ?ok ?obs (?gs STATE_TYPE_PERSISTENT)"
    using l by (simp add: group_ok_def group_vars_def)
  have m: "statemgr_marshal (\<lambda>_ st. st) ?gs (\<lambda>_. replicate 50 5) STATE_TYPE_PERSISTENT =
      Inr (header_marshal ?h @ replicate 50 5, \<lambda>_. replicate 50 5)"
    by (simp add: statemgr_marshal_def entry_active_def MARSHABLE_STATIC_def marshable_static_marshal_def)
  have k: "rec_kind ?r = RECORD_SCHED" "rec_data ?r = header_marshal ?h @ replicate 50 5" by simp_all
  have "length (header_marshal ?h @ replicate 50 (5 :: byte)) < 2 ^ 64" by (simp add: sm_hsz_def)
  from statemgr_persistent_roundtrip [OF a _ _ _ m this k, of "\<lambda>_. replicate 50 9"]
  obtain t' where t': "statemgr_record_unmarshal (\<lambda>_ st. st) ?gs (\<lambda>_. replicate 50 9) ?r = Inr t'"
      "\<forall>v\<in>set (group_vars (?gs STATE_TYPE_PERSISTENT)). drop MARSHABLE_OFF (t' v) = drop MARSHABLE_OFF (replicate 50 5)"
    by auto
  have "0 \<in> set (group_vars (?gs STATE_TYPE_PERSISTENT))" by (simp add: group_vars_def MARSHABLE_STATIC_def)
  with t'(2) have "drop 48 (t' 0) = drop 48 (replicate 50 5)" unfolding MARSHABLE_OFF_def by blast
  then have "drop 48 (t' 0) = [5, 5]" by (simp add: numeral_2_eq_2)
  with t'(1) show ?thesis by blast
qed

text \<open>
  Every sequence of registrations keeps the slots of a group pairwise different: a slot that is
  already taken extends the chain of its entry. The restoring loop relies on this, since it looks an
  entry up by slot.
\<close>

theorem statemgr_register_keeps_slots:
  assumes "\<forall>ty. distinct (map en_slot (gs ty))" and "statemgr_register gs slot m ty = Inr gs'"
  shows "\<forall>ty'. distinct (map en_slot (gs' ty')) \<and>
    set (map en_slot (gs' ty')) = set (map en_slot (gs ty')) \<union>
      (if ty' = ty \<and> ty \<noteq> STATE_TYPE_EPHEMERAL then {slot} else {})"
proof (cases "ty = STATE_TYPE_EPHEMERAL")
  case True
  with assms show ?thesis by (auto simp: statemgr_register_def assertr_eq_Inr)
next
  case False
  with assms(2) obtain g where g: "statemgr_register_group (gs ty) slot m = Inr g" "gs' = gs(ty := g)"
    by (auto simp: statemgr_register_def assertr_eq_Inr bindr_eq_Inr)
  have "set (map en_slot g) = insert slot (set (map en_slot (gs ty)))"
  proof -
    obtain res where res: "register_find (gs ty) slot m = Inr res"
      using g(1) by (auto simp: statemgr_register_group_def bindr_eq_Inr)
    show ?thesis
    proof (cases res)
      case None
      with res g(1) show ?thesis by (auto simp: statemgr_register_group_def split: if_splits)
    next
      case (Some g1)
      with res g(1) have "g = g1" by (simp add: statemgr_register_group_def)
      with res Some register_find_slots [of "gs ty" slot m g1] show ?thesis
        by (metis insert_absorb set_map)
    qed
  qed
  with g(2) statemgr_register_distinct [OF g(1)] assms(1) False show ?thesis by auto
qed

theorem statemgr_register_keeps_slots_witness:
  "\<forall>ty'. distinct (map en_slot (((\<lambda>_. []) (STATE_TYPE_CONFIG := [\<lparr>en_m = [MARSHABLE_STATIC 3 64], en_slot = 7\<rparr>])) ty'))"
proof -
  let ?gs = "\<lambda>_ :: state_type. [] :: byte list entry list"
  have d: "\<forall>ty. distinct (map en_slot (?gs ty))" by simp
  have "statemgr_register ?gs 7 (MARSHABLE_STATIC 3 64) STATE_TYPE_CONFIG =
      Inr (?gs(STATE_TYPE_CONFIG := [\<lparr>en_m = [MARSHABLE_STATIC 3 64], en_slot = 7\<rparr>]))"
    by (simp add: statemgr_register_def statemgr_register_group_def MAX_SLOTS_def)
  from statemgr_register_keeps_slots [OF d this] show ?thesis by blast
qed

end
