(* ===== verification/Capture.thy ===== *)
theory Capture
  imports Tidset Plan Statemgr
begin

text \<open>
  The data that travels between ingress, sequencer and modules: the capture point
  (\<^verbatim>\<open>include/lotto/runtime/capture_point.h\<close>), the decision the handlers of the modules fill in
  (\<^verbatim>\<open>include/lotto/engine/sequencer.h\<close>), and the environment of the engine: the module variables in
  the store of the state manager, the handlers subscribed to the sequencer chains, and the C
  library's random number generator.
\<close>

type_synonym type_id = "16 word"
type_synonym chain_id = "16 word"

definition EVENT_TASK_INIT :: type_id where "EVENT_TASK_INIT = 170"
definition EVENT_TASK_FINI :: type_id where "EVENT_TASK_FINI = 171"
definition EVENT_TASK_CREATE :: type_id where "EVENT_TASK_CREATE = 172"

lemmas event_defs = EVENT_TASK_INIT_def EVENT_TASK_FINI_def EVENT_TASK_CREATE_def

definition CHAIN_INGRESS_EVENT :: chain_id where "CHAIN_INGRESS_EVENT = 9"
definition CHAIN_INGRESS_BEFORE :: chain_id where "CHAIN_INGRESS_BEFORE = 10"
definition CHAIN_INGRESS_AFTER :: chain_id where "CHAIN_INGRESS_AFTER = 11"

text \<open>\<open>cp_func\<close> says whether the pointer to the debugging information is set; \<open>cp_addr\<close> is
  the address member of the payload of the synchronisation events (0 for an event without one). The
  remaining payload members stay with the interceptors.\<close>

record capture_point =
  cp_chain_id :: chain_id
  cp_type_id :: type_id
  cp_blocking :: bool
  cp_id :: task_id
  cp_vid :: task_id
  cp_pc :: "64 word"
  cp_func :: bool
  cp_addr :: "64 word"

text \<open>A plain event of a task at an address, for concrete runs.\<close>

definition event_cp :: "type_id \<Rightarrow> task_id \<Rightarrow> 64 word \<Rightarrow> capture_point" where
  "event_cp ty t a = \<lparr>cp_chain_id = CHAIN_INGRESS_EVENT, cp_type_id = ty, cp_blocking = False, cp_id = t,
     cp_vid = NO_TASK, cp_pc = 0, cp_func = True, cp_addr = a\<rparr>"

lemma event_cp_simps [simp]:
  "cp_type_id (event_cp ty t a) = ty" "cp_id (event_cp ty t a) = t" "cp_addr (event_cp ty t a) = a"
  by (simp_all add: event_cp_def)

datatype selector = SELECTOR_UNDEFINED | SELECTOR_RANDOM | SELECTOR_FIRST

record decision =
  e_clk :: clk
  e_is_chpt :: bool
  e_next :: task_id
  e_readonly :: bool
  e_skip :: bool
  e_tset :: tidset
  e_unblocked :: tidset
  e_reason :: reason
  e_selector :: selector
  e_should_record :: bool
  e_filter_less :: bool
  e_replay :: bool
  e_any_task_filter :: "task_filter option"

text \<open>A structure whose members are all zero (\<^verbatim>\<open>{0}\<close>).\<close>

definition zero_tidset :: tidset where
  "zero_tidset = \<lparr>ts_capacity = 0, ts_size = 0, ts_tasks = None\<rparr>"

definition zero_decision :: decision where
  "zero_decision = \<lparr>e_clk = 0, e_is_chpt = False, e_next = NO_TASK, e_readonly = False, e_skip = False,
     e_tset = zero_tidset, e_unblocked = zero_tidset, e_reason = REASON_UNKNOWN,
     e_selector = SELECTOR_UNDEFINED, e_should_record = False, e_filter_less = False,
     e_replay = False, e_any_task_filter = None\<rparr>"

lemma tidset_inv_zero [simp]: "tidset_inv zero_tidset" and tids_zero [simp]: "tids zero_tidset = {}"
  by (simp_all add: zero_tidset_def tidset_inv_def tidset_wf_def tidset_list_def tids_def)

text \<open>
  The environment. \<open>env_gran\<close> and \<open>env_slack\<close> read \<^verbatim>\<open>sequencer_config()\<close> and \<open>env_seed\<close>, \<open>env_set_seed\<close>
  access \<^verbatim>\<open>prng()->seed\<close>, all of them variables of the store; \<open>env_capture\<close> and \<open>env_resume\<close> are the
  published chains \<^verbatim>\<open>CHAIN_SEQUENCER_CAPTURE\<close> and \<^verbatim>\<open>CHAIN_SEQUENCER_RESUME\<close>.
\<close>

record 'a env =
  env_pub :: "sm_event \<Rightarrow> 'a store \<Rightarrow> 'a store"
  env_groups :: "'a groups"
  env_gran :: "'a store \<Rightarrow> 64 word"
  env_slack :: "'a store \<Rightarrow> 64 word"
  env_seed :: "'a store \<Rightarrow> 32 word"
  env_set_seed :: "32 word \<Rightarrow> 'a store \<Rightarrow> 'a store"
  env_rand :: rand_r
  env_capture :: "capture_point \<Rightarrow> decision \<Rightarrow> 'a store \<Rightarrow> (decision \<times> 'a store) result"
  env_resume :: "capture_point \<Rightarrow> 'a store \<Rightarrow> 'a store result"

section \<open>Values shared by the lock modules\<close>

text \<open>\<^verbatim>\<open>errno.h\<close>.\<close>

definition EBUSY :: int where "EBUSY = 16"
definition EDEADLK :: int where "EDEADLK = 35"

definition sample_event :: decision where
  "sample_event = zero_decision\<lparr>e_tset := \<lparr>ts_capacity = 2, ts_size = 2, ts_tasks = Some [5, 6]\<rparr>\<rparr>"

lemma sample_event_simps:
  "tidset_inv (e_tset sample_event)" "\<not> e_skip sample_event" "e_any_task_filter sample_event = None"
  "tids (e_tset sample_event) = {5, 6}"
  by (simp_all add: sample_event_def zero_decision_def tidset_inv_def tidset_wf_def tidset_list_def tids_def)

text \<open>The ghost state of the lock protocols: what a task holds at an address.\<close>

definition held_upd :: "(task_id \<Rightarrow> 64 word \<Rightarrow> 'v) \<Rightarrow> task_id \<Rightarrow> 64 word \<Rightarrow> 'v \<Rightarrow> task_id \<Rightarrow> 64 word \<Rightarrow> 'v" where
  "held_upd h t a n = (\<lambda>u b. if u = t \<and> b = a then n else h u b)"

lemma held_upd_simps:
  "held_upd h t a n t a = n" "b \<noteq> a \<Longrightarrow> held_upd h t a n u b = h u b" "u \<noteq> t \<Longrightarrow> held_upd h t a n u b = h u b"
  by (auto simp: held_upd_def)

end
