(* ===== verification/Recorder.thy ===== *)
theory Recorder
  imports Capture
begin

text \<open>
  The recorder (\<^verbatim>\<open>src/engine/recorder.c\<close>), which glues the input trace, the output trace and the state
  manager together, with its runtime contract (the ghost clocks). The loop that replays the records
  of one clock tick terminates because every round consumes a record of the input trace. It is
  shown to refine a loop over the list of records of the input trace, from which the outcome of a
  replay is derived.
\<close>

section \<open>Data\<close>

datatype replay_status = REPLAY_DONE | REPLAY_LOAD | REPLAY_FORCE | REPLAY_CONT | REPLAY_NEXT | REPLAY_LAST

record replay =
  ry_status :: replay_status
  ry_id :: task_id

datatype rec_event = REPLAY_END | INFO_RECORD_LOAD record_t

record 'a recorder =
  rc_input :: "trace option"
  rc_output :: "trace option"
  rc_finalr :: "record_t option"
  rc_store :: "'a store"
  rc_events :: "rec_event list"   \<comment> \<open>events published so far\<close>
  rc_end_once :: bool             \<comment> \<open>the static flag of \<^verbatim>\<open>once(recorder_end_replay())\<close>\<close>
  gh_record_clk :: clk
  gh_replay_clk :: clk
  gh_finito :: bool

section \<open>Operations\<close>

definition is_after_kind :: "kinds \<Rightarrow> bool" where
  "is_after_kind k \<longleftrightarrow> k AND (RECORD_START OR RECORD_CONFIG) \<noteq> 0"

definition recorder_init :: "'a recorder \<Rightarrow> trace option \<Rightarrow> trace option \<Rightarrow> 'a recorder" where
  "recorder_init s inp outp = s\<lparr>rc_input := inp, rc_output := outp\<rparr>"

text \<open>The subscription of the contract to \<^verbatim>\<open>EVENT_ENGINE__START\<close>.\<close>

definition recorder_start :: "'a recorder \<Rightarrow> 'a recorder" where
  "recorder_start s = s\<lparr>gh_record_clk := 0, gh_replay_clk := 0, gh_finito := False\<rparr>"

definition recorder_set_clks :: "'a recorder \<Rightarrow> clk \<Rightarrow> clk \<Rightarrow> 'a recorder" where
  "recorder_set_clks s rp rc = s\<lparr>gh_replay_clk := rp, gh_record_clk := rc\<rparr>"

definition recorder_alloc_final :: "'a env \<Rightarrow> 'a recorder \<Rightarrow> 'a recorder result" where
  "recorder_alloc_final env s =
     bindr (statemgr_size (env_groups env) (rc_store s) STATE_TYPE_FINAL) (\<lambda>n.
       Inr (s\<lparr>rc_finalr := Some (record_alloc n)\<rparr>))"

definition recorder_out :: "'a recorder \<Rightarrow> record_t \<Rightarrow> 'a recorder result" where
  "recorder_out s r =
     (case rc_output s of
        None \<Rightarrow> Inr s
      | Some t \<Rightarrow> assertr (rec_kind r \<noteq> RECORD_NONE)
          (bindr (trace_append t r) (\<lambda>(ok, t'). assertr ok (Inr (s\<lparr>rc_output := Some t'\<rparr>)))))"

definition recorder_out_safe :: "'a recorder \<Rightarrow> record_t \<Rightarrow> 'a recorder result" where
  "recorder_out_safe s r =
     (case rc_output s of
        None \<Rightarrow> Inr s
      | Some t \<Rightarrow> assertr (rec_kind r \<noteq> RECORD_NONE)
          (bindr (trace_append_safe t r) (\<lambda>(ok, t'). assertr ok (Inr (s\<lparr>rc_output := Some t'\<rparr>)))))"

definition recorder_out_clone :: "'a recorder \<Rightarrow> record_t \<Rightarrow> 'a recorder result" where
  "recorder_out_clone s r = recorder_out s (record_clone r)"

text \<open>One matching record: its payload is unmarshalled, then its kind decides.\<close>

definition replay_record :: "'a env \<Rightarrow> clk \<Rightarrow> 'a recorder \<Rightarrow> replay \<Rightarrow> record_t \<Rightarrow> (replay \<times> 'a recorder) result" where
  "replay_record env clk s ry r =
     bindr (statemgr_record_unmarshal (env_pub env) (env_groups env) (rc_store s) r) (\<lambda>st.
       let s = s\<lparr>rc_store := st\<rparr> in
       if rec_kind r = RECORD_INFO then Inr (ry, s\<lparr>rc_events := rc_events s @ [INFO_RECORD_LOAD r]\<rparr>)
       else if rec_kind r = RECORD_FORCE then
         assertr (ry_status ry = REPLAY_DONE)
           (bindr (recorder_out_clone s r) (\<lambda>s. Inr (\<lparr>ry_status = REPLAY_FORCE, ry_id = rec_id r\<rparr>, s)))
       else if rec_kind r = RECORD_SCHED then
         Inr (\<lparr>ry_status = (if ry_status ry = REPLAY_DONE then REPLAY_LOAD else ry_status ry), ry_id = rec_id r\<rparr>, s)
       else if rec_kind r = RECORD_OPAQUE then Inr (ry, s)
       else if rec_kind r = RECORD_EXIT then Inr (ry, s)
       else if rec_kind r = RECORD_START then
         assertr (clk = 1) (bindr (recorder_out_clone s r) (\<lambda>s. Inr (ry, s)))
       else if rec_kind r = RECORD_CONFIG then bindr (recorder_out_clone s r) (\<lambda>s. Inr (ry, s))
       else Inl Fatal)"

text \<open>Whether a record has to wait for a later tick.\<close>

definition later :: "clk \<Rightarrow> record_t \<Rightarrow> bool" where
  "later clk r \<longleftrightarrow> rec_clk r > clk \<or> (is_after_kind (rec_kind r) \<and> rec_clk r = clk)"

definition not_stale :: "clk \<Rightarrow> record_t \<Rightarrow> bool" where
  "not_stale clk r \<longleftrightarrow> clk = 0 \<or> rec_clk r \<ge> clk - 1"

definition wait_status :: "replay \<Rightarrow> replay" where
  "wait_status ry = (if ry_status ry = REPLAY_DONE then ry\<lparr>ry_status := REPLAY_CONT\<rparr> else ry)"

function replay_loop :: "'a env \<Rightarrow> clk \<Rightarrow> trace \<Rightarrow> 'a recorder \<Rightarrow> replay \<Rightarrow> (replay \<times> 'a recorder) result" where
  "replay_loop env clk t s ry =
     bindr (trace_next t RECORD_ANY) (\<lambda>(r, t1). case r of
        None \<Rightarrow> Inr (ry, s\<lparr>rc_input := None\<rparr>)
      | Some r \<Rightarrow>
          assertr (not_stale clk r)
            (if later clk r then Inr (wait_status ry, s\<lparr>rc_input := Some t1\<rparr>)
             else bindr (replay_record env clk s ry r) (\<lambda>(ry', s').
                  bindr (trace_advance t1) (\<lambda>t2. replay_loop env clk t2 s' ry'))))"
  by pat_completeness auto
termination
proof (relation "measure (\<lambda>(env, clk, t, s, ry). trace_size t)")
  fix env :: "'a env" and clk t and s s' :: "'a recorder" and ry ry' x r t1 v y t2
  assume "trace_next t RECORD_ANY = Inr x" "(r, t1) = x" "r = Some v" "trace_advance t1 = Inr t2"
  then have "trace_next t RECORD_ANY = Inr (Some v, t1)" "trace_advance t1 = Inr t2" by simp_all
  from trace_consume_size [OF this]
  show "((env, clk, t2, s', ry'), env, clk, t, s, ry) \<in> measure (\<lambda>(env, clk, t, s, ry). trace_size t)"
    by simp
qed simp

declare replay_loop.simps [simp del]

definition recorder_replay_next :: "'a env \<Rightarrow> 'a recorder \<Rightarrow> clk \<Rightarrow> (replay \<times> 'a recorder) result" where
  "recorder_replay_next env s clk =
     (case rc_input s of
        None \<Rightarrow> Inl Fault
      | Some t \<Rightarrow> replay_loop env clk t s \<lparr>ry_status = REPLAY_DONE, ry_id = NO_TASK\<rparr>)"

definition recorder_replay :: "'a env \<Rightarrow> 'a recorder \<Rightarrow> clk \<Rightarrow> (replay \<times> 'a recorder) result" where
  "recorder_replay env s clk =
     assertr (\<not> gh_finito s)
       (let s = s\<lparr>gh_replay_clk := gh_replay_clk s + 1\<rparr> in
        assertr (clk = gh_replay_clk s)
          (if rc_input s = None then Inr (\<lparr>ry_status = REPLAY_DONE, ry_id = NO_TASK\<rparr>, s)
           else recorder_replay_next env s clk))"

text \<open>Marshalling into the payload of an allocated record; writing past its end is a fault.\<close>

definition fill_payload :: "record_t \<Rightarrow> byte list \<Rightarrow> record_t result" where
  "fill_payload r bs =
     (if length bs \<le> length (rec_data r) then Inr (r\<lparr>rec_data := bs @ drop (length bs) (rec_data r)\<rparr>)
      else Inl Fault)"

text \<open>What \<^verbatim>\<open>recorder_record\<close> does behind its assertions.\<close>

definition record_decision :: "'a env \<Rightarrow> 'a recorder \<Rightarrow> capture_point \<Rightarrow> clk \<Rightarrow> 'a recorder result" where
  "record_decision env s cp clk =
     (if rc_output s = None then Inr s
      else bindr (statemgr_size (env_groups env) (rc_store s) STATE_TYPE_PERSISTENT) (\<lambda>n.
        let r = (record_alloc n)\<lparr>rec_kind := RECORD_SCHED, rec_id := cp_id cp,
                   rec_chain := cp_chain_id cp, rec_type := cp_type_id cp, rec_pc := cp_pc cp,
                   rec_clk := clk\<rparr> in
        bindr (statemgr_marshal (env_pub env) (env_groups env) (rc_store s) STATE_TYPE_PERSISTENT) (\<lambda>(bs, st).
        bindr (fill_payload r bs) (\<lambda>r.
        bindr (recorder_out (s\<lparr>rc_store := st\<rparr>) r) (\<lambda>s.
          Inr (if rc_input s = None \<and> \<not> rc_end_once s
               then s\<lparr>rc_end_once := True, rc_events := rc_events s @ [REPLAY_END]\<rparr> else s))))))"

definition recorder_record :: "'a env \<Rightarrow> 'a recorder \<Rightarrow> capture_point \<Rightarrow> clk \<Rightarrow> 'a recorder result" where
  "recorder_record env s cp clk =
     assertr (\<not> gh_finito s) (assertr (cp_id cp \<noteq> NO_TASK) (assertr (clk > 0)
       (assertr (clk > gh_record_clk s)
         (let s = s\<lparr>gh_record_clk := clk\<rparr> in
          assertr (clk \<ge> gh_replay_clk s) (record_decision env s cp clk)))))"

text \<open>The subscription to \<^verbatim>\<open>EVENT_ENGINE__INFO_RECORD_SAVE\<close>.\<close>

definition recorder_info_save :: "'a recorder \<Rightarrow> record_t \<Rightarrow> 'a recorder result" where
  "recorder_info_save s r = assertr (rec_kind r = RECORD_INFO) (recorder_out_clone s r)"

definition recorder_fini :: "'a env \<Rightarrow> 'a recorder \<Rightarrow> clk \<Rightarrow> task_id \<Rightarrow> reason \<Rightarrow> 'a recorder result" where
  "recorder_fini env s clk tid reason =
     assertr (\<not> gh_finito s)
       (let s = s\<lparr>gh_finito := True\<rparr> in
        if rc_output s = None then Inr s
        else (case rc_finalr s of
            None \<Rightarrow> Inr s
          | Some fr \<Rightarrow>
              bindr (if reason_is_record_final reason
                     then bindr (statemgr_size (env_groups env) (rc_store s) STATE_TYPE_FINAL) (\<lambda>n.
                          bindr (statemgr_marshal (env_pub env) (env_groups env) (rc_store s) STATE_TYPE_FINAL) (\<lambda>(bs, st).
                          bindr (fill_payload (record_alloc n) bs) (\<lambda>r. Inr (r, s\<lparr>rc_store := st\<rparr>))))
                     else bindr (statemgr_marshal (env_pub env) (env_groups env) (rc_store s) STATE_TYPE_EMPTY) (\<lambda>(bs, st).
                          bindr (fill_payload fr bs) (\<lambda>r. Inr (r, s\<lparr>rc_store := st\<rparr>)))) (\<lambda>(r, s).
                recorder_out_safe s (r\<lparr>rec_kind := RECORD_EXIT, rec_clk := clk, rec_id := tid,
                  rec_reason := reason_code reason\<rparr>))))"

section \<open>Replay refines a loop over a list\<close>

definition visible :: "trace \<Rightarrow> record_t list" where
  "visible t = filter (matches RECORD_ANY) (trace_list t)"

fun replay_list ::
  "'a env \<Rightarrow> clk \<Rightarrow> 'a recorder \<Rightarrow> replay \<Rightarrow> record_t list \<Rightarrow> (replay \<times> 'a recorder \<times> record_t list) result" where
  "replay_list env clk s ry [] = Inr (ry, s, [])"
| "replay_list env clk s ry (r # rs) =
     assertr (not_stale clk r)
       (if later clk r then Inr (wait_status ry, s, r # rs)
        else bindr (replay_record env clk s ry r) (\<lambda>(ry', s'). replay_list env clk s' ry' rs))"

text \<open>The input pointer stands for the list of records that are left.\<close>

definition input_rel :: "trace option \<Rightarrow> record_t list \<Rightarrow> bool" where
  "input_rel i rs \<longleftrightarrow> (case i of None \<Rightarrow> rs = [] | Some t \<Rightarrow> trace_inv t \<and> visible t = rs)"

lemma visible_next:
  assumes "trace_inv t"
  shows "visible t = [] \<Longrightarrow> \<exists>t1. trace_next t RECORD_ANY = Inr (None, t1)"
    and "visible t = r # rs \<Longrightarrow> \<exists>t1 t2. trace_next t RECORD_ANY = Inr (Some r, t1) \<and> trace_inv t1 \<and>
      visible t1 = r # rs \<and> trace_advance t1 = Inr t2 \<and> trace_inv t2 \<and> visible t2 = rs"
proof -
  let ?l = "trace_list t"
  obtain t1 where t1: "trace_next t RECORD_ANY = Inr (first_rec (skip RECORD_ANY ?l), t1)" "trace_inv t1"
      "trace_list t1 = skip RECORD_ANY ?l"
    using tr.nx_law [OF assms, of RECORD_ANY] by blast
  {
    assume "visible t = []"
    then have "skip RECORD_ANY ?l = []" unfolding visible_def skip_eq_Nil .
    with t1(1) show "\<exists>t1. trace_next t RECORD_ANY = Inr (None, t1)" by simp
  next
    assume v: "visible t = r # rs"
    then have "skip RECORD_ANY ?l \<noteq> []" unfolding visible_def skip_eq_Nil by simp
    then obtain r0 l where l: "skip RECORD_ANY ?l = r0 # l" by (cases "skip RECORD_ANY ?l") auto
    have m: "matches RECORD_ANY r0" using skip_ConsD(1) [OF l] .
    have f: "visible t = r0 # filter (matches RECORD_ANY) l"
      using skip_filter [of RECORD_ANY ?l] l m unfolding visible_def by (simp del: matches_any)
    have n: "trace_next t RECORD_ANY = Inr (Some r0, t1)" using t1(1) l by simp
    obtain t2 where t2: "trace_advance t1 = Inr t2" "trace_inv t2" "skip RECORD_ANY ?l = r0 # trace_list t2"
      using tr.nx_adv [OF assms n] by blast
    have "visible t2 = rs" using t2(3) l f v unfolding visible_def by simp
    moreover have "visible t1 = r # rs"
      using t1(3) v skip_filter [of RECORD_ANY ?l] unfolding visible_def by simp
    ultimately show "\<exists>t1 t2. trace_next t RECORD_ANY = Inr (Some r, t1) \<and> trace_inv t1 \<and>
        visible t1 = r # rs \<and> trace_advance t1 = Inr t2 \<and> trace_inv t2 \<and> visible t2 = rs"
      using n t1(2) t2 f v by auto
  }
qed

lemma replay_loop_list:
  "trace_inv t \<Longrightarrow>
     (case replay_list env clk s ry (visible t) of
        Inl e \<Rightarrow> replay_loop env clk t s ry = Inl e
      | Inr (ry', s', rs') \<Rightarrow> \<exists>i. replay_loop env clk t s ry = Inr (ry', s'\<lparr>rc_input := i\<rparr>) \<and> input_rel i rs' \<and>
          (i = None \<longleftrightarrow> rs' = []))"
proof (induction "visible t" arbitrary: t s ry)
  case Nil
  then obtain t1 where "trace_next t RECORD_ANY = Inr (None, t1)"
    using visible_next(1) [OF Nil.prems] by metis
  with Nil.hyps show ?case by (simp add: replay_loop.simps [of env clk t] input_rel_def flip: Nil.hyps)
next
  case (Cons r rs)
  obtain t1 t2 where n: "trace_next t RECORD_ANY = Inr (Some r, t1)" "trace_inv t1" "visible t1 = r # rs"
      "trace_advance t1 = Inr t2" "trace_inv t2" "visible t2 = rs"
    using visible_next(2) [OF Cons.prems Cons.hyps(2) [symmetric]] by blast
  show ?case
  proof (cases "not_stale clk r \<and> \<not> later clk r")
    case False
    with n show ?thesis
      by (auto simp: replay_loop.simps [of env clk t] input_rel_def assertr_def simp flip: Cons.hyps(2))
  next
    case True
    show ?thesis
    proof (cases "replay_record env clk s ry r")
      case (Inl e)
      with True n show ?thesis by (simp add: replay_loop.simps [of env clk t] flip: Cons.hyps(2))
    next
      case (Inr x)
      obtain ry1 s1 where x: "x = (ry1, s1)" by (cases x)
      have e1: "replay_loop env clk t s ry = replay_loop env clk t2 s1 ry1"
        using True n Inr x by (simp add: replay_loop.simps [of env clk t])
      have e2: "replay_list env clk s ry (visible t) = replay_list env clk s1 ry1 (visible t2)"
        using True Inr x n(6) by (simp flip: Cons.hyps(2))
      show ?thesis unfolding e1 e2 by (rule Cons.hyps(1) [OF n(6) [symmetric] n(5)])
    qed
  qed
qed

section \<open>The outcome of a replay\<close>

definition sched_ids :: "record_t list \<Rightarrow> task_id list" where
  "sched_ids cs = map rec_id (filter (\<lambda>r. rec_kind r = RECORD_SCHED \<or> rec_kind r = RECORD_FORCE) cs)"

definition next_status :: "replay_status \<Rightarrow> record_t list \<Rightarrow> replay_status" where
  "next_status st cs =
     (if \<exists>r\<in>set cs. rec_kind r = RECORD_FORCE then REPLAY_FORCE
      else if st = REPLAY_DONE \<and> (\<exists>r\<in>set cs. rec_kind r = RECORD_SCHED) then REPLAY_LOAD else st)"

definition last_id :: "task_id \<Rightarrow> task_id list \<Rightarrow> task_id" where
  "last_id d xs = (if xs = [] then d else last xs)"

lemma kinds_distinct [simp]:
  "RECORD_SCHED \<noteq> RECORD_FORCE" "RECORD_INFO \<noteq> RECORD_FORCE" "RECORD_INFO \<noteq> RECORD_SCHED"
  "RECORD_FORCE \<noteq> RECORD_SCHED" "RECORD_SCHED \<noteq> RECORD_NONE" "RECORD_EXIT \<noteq> RECORD_SCHED"
  "RECORD_SCHED \<noteq> RECORD_EXIT" "RECORD_INFO \<noteq> RECORD_NONE" "RECORD_EXIT \<noteq> RECORD_NONE"
  "RECORD_START \<noteq> RECORD_SCHED" "RECORD_CONFIG \<noteq> RECORD_SCHED" "RECORD_SCHED \<noteq> RECORD_INFO"
  "RECORD_SCHED \<noteq> RECORD_START" "RECORD_SCHED \<noteq> RECORD_CONFIG" "RECORD_FORCE \<noteq> RECORD_NONE"
  by (simp_all add: record_kind_defs)

lemmas kinds_distinct_sym [simp] = kinds_distinct [symmetric]

lemma replay_record_ry:
  assumes "replay_record env clk s ry r = Inr (ry', s')"
  shows "ry_status ry' = next_status (ry_status ry) [r] \<and> ry_id ry' = last_id (ry_id ry) (sched_ids [r]) \<and>
    (rec_kind r = RECORD_FORCE \<longrightarrow> ry_status ry = REPLAY_DONE)"
  using assms
  by (auto simp: replay_record_def Let_def result_elims next_status_def sched_ids_def last_id_def
      split: if_splits)

lemma next_status_Cons: "(rec_kind r = RECORD_FORCE \<longrightarrow> st = REPLAY_DONE) \<Longrightarrow>
   next_status (next_status st [r]) cs = next_status st (r # cs)"
  unfolding next_status_def
  by (cases "rec_kind r = RECORD_FORCE"; cases "rec_kind r = RECORD_SCHED"; cases "st = REPLAY_DONE") simp_all

lemma last_id_Cons: "last_id (last_id d (sched_ids [r])) (sched_ids cs) = last_id d (sched_ids (r # cs))"
  by (auto simp: last_id_def sched_ids_def)

lemma replay_list_outcome:
  assumes "replay_list env clk s ry rs = Inr (ry', s', rs')"
  shows "rs' = dropWhile (\<lambda>r. \<not> later clk r) rs \<and>
    (\<forall>r\<in>set (takeWhile (\<lambda>r. \<not> later clk r) rs). not_stale clk r) \<and>
    ry_status ry' = (let st = next_status (ry_status ry) (takeWhile (\<lambda>r. \<not> later clk r) rs) in
       if st = REPLAY_DONE \<and> rs' \<noteq> [] then REPLAY_CONT else st) \<and>
    ry_id ry' = last_id (ry_id ry) (sched_ids (takeWhile (\<lambda>r. \<not> later clk r) rs))"
  using assms
proof (induction rs arbitrary: s ry)
  case Nil
  then show ?case by (simp add: next_status_def last_id_def sched_ids_def)
next
  case (Cons r rs)
  have ns: "not_stale clk r" using Cons.prems by (simp add: assertr_eq_Inr)
  show ?case
  proof (cases "later clk r")
    case True
    with Cons.prems ns show ?thesis
      by (auto simp: wait_status_def next_status_def last_id_def sched_ids_def)
  next
    case False
    obtain ry1 s1 where x: "replay_record env clk s ry r = Inr (ry1, s1)" "replay_list env clk s1 ry1 rs = Inr (ry', s', rs')"
      using Cons.prems ns False by (auto simp: bindr_eq_Inr)
    have r1: "ry_status ry1 = next_status (ry_status ry) [r]" "ry_id ry1 = last_id (ry_id ry) (sched_ids [r])"
        "rec_kind r = RECORD_FORCE \<longrightarrow> ry_status ry = REPLAY_DONE"
      using replay_record_ry [OF x(1)] by auto
    with Cons.IH [OF x(2)] False ns show ?thesis
      by (simp add: next_status_Cons [OF r1(3)] last_id_Cons)
  qed
qed

section \<open>What the recorder writes\<close>

text \<open>\<open>out_rel t rs\<close>: the records written to the output trace so far.\<close>

fun out_rel :: "trace \<Rightarrow> record_t list \<Rightarrow> bool" where
  "out_rel (TFlat u) rs \<longleftrightarrow> flat_inv u \<and> flat_list u = rs"
| "out_rel (TFile u) rs \<longleftrightarrow> st_at_end (tfl_stream u) \<and> st_bytes (tfl_stream u) = records_bytes rs"

lemma out_rel_append:
  assumes "out_rel t rs" and "trace_append t r = Inr (ok, t')"
  shows "out_rel t' (rs @ [r])"
proof (cases t)
  case (TFlat u)
  with assms flat_refines_append [of u r] show ?thesis by (auto simp: bindr_eq_Inr)
next
  case (TFile u)
  with assms show ?thesis
    by (auto simp: file_append_def file_append_safe_def stream_write_end st_at_end_def records_bytes_def
        split: prod.splits)
qed

lemma trace_append_safe_same: "trace_append_safe t r = trace_append t r"
  by (cases t) (simp_all add: file_append_def)

lemma recorder_out_safe_same: "recorder_out_safe s r = recorder_out s r"
  by (simp add: recorder_out_safe_def recorder_out_def trace_append_safe_same split: option.split)

definition outs :: "'a recorder \<Rightarrow> record_t list \<Rightarrow> bool" where
  "outs s rs \<longleftrightarrow> (case rc_output s of None \<Rightarrow> rs = [] | Some t \<Rightarrow> out_rel t rs)"

lemma recorder_out_outs:
  assumes "recorder_out s r = Inr s'" and "outs s rs"
  shows "outs s' (if rc_output s = None then rs else rs @ [r]) \<and>
    gh_record_clk s' = gh_record_clk s \<and> gh_replay_clk s' = gh_replay_clk s \<and> rc_input s' = rc_input s \<and>
    gh_finito s' = gh_finito s \<and> rc_store s' = rc_store s \<and> rc_end_once s' = rc_end_once s \<and> rc_events s' = rc_events s"
proof (cases "rc_output s")
  case None
  with assms show ?thesis by (simp add: recorder_out_def)
next
  case (Some t)
  with assms(1) obtain t' where t': "trace_append t r = Inr (True, t')" "s' = s\<lparr>rc_output := Some t'\<rparr>"
    by (auto simp: recorder_out_def result_elims)
  with out_rel_append [OF _ t'(1)] assms(2) Some show ?thesis by (simp add: outs_def)
qed

definition is_sched :: "record_t \<Rightarrow> bool" where
  "is_sched r \<longleftrightarrow> rec_kind r = RECORD_SCHED"

lemma record_clone_kind [simp]: "rec_kind (record_clone r) = rec_kind r"
  by (simp add: record_clone_def record_alloc_def Let_def)

text \<open>Only \<^verbatim>\<open>recorder_record\<close> writes scheduling records; everything else copies other kinds.\<close>

lemma recorder_out_other:
  assumes "recorder_out s r = Inr s'" and "outs s rs" and "\<not> is_sched r"
  shows "\<exists>rs'. outs s' (rs @ rs') \<and> (\<forall>x\<in>set rs'. \<not> is_sched x) \<and> gh_record_clk s' = gh_record_clk s"
proof (cases "rc_output s = None")
  case True
  with recorder_out_outs [OF assms(1,2)] show ?thesis by (auto intro!: exI [of _ "[]"])
next
  case False
  with recorder_out_outs [OF assms(1,2)] assms(3) show ?thesis by (auto intro!: exI [of _ "[r]"])
qed

lemma outs_store [simp]: "outs (s\<lparr>rc_store := st\<rparr>) rs = outs s rs" "outs (s\<lparr>rc_input := i\<rparr>) rs = outs s rs"
  "outs (s\<lparr>rc_events := ev\<rparr>) rs = outs s rs" "outs (s\<lparr>gh_record_clk := c\<rparr>) rs = outs s rs"
  "outs (s\<lparr>gh_replay_clk := c\<rparr>) rs = outs s rs" "outs (s\<lparr>gh_finito := b\<rparr>) rs = outs s rs"
  "outs (s\<lparr>rc_end_once := b\<rparr>) rs = outs s rs"
  by (simp_all add: outs_def)

lemma replay_record_outs:
  assumes "replay_record env clk s ry r = Inr (ry', s')" and "outs s rs"
  shows "\<exists>rs'. outs s' (rs @ rs') \<and> (\<forall>x\<in>set rs'. \<not> is_sched x) \<and> gh_record_clk s' = gh_record_clk s"
proof -
  obtain st where st: "statemgr_record_unmarshal (env_pub env) (env_groups env) (rc_store s) r = Inr st"
    using assms(1) by (auto simp: replay_record_def result_elims)
  let ?s = "s\<lparr>rc_store := st\<rparr>"
  consider "recorder_out_clone ?s r = Inr s'" "\<not> is_sched r" | "outs s' (rs @ [])" "gh_record_clk s' = gh_record_clk s"
    using assms st
    by (auto simp: replay_record_def Let_def result_elims is_sched_def split: if_splits)
  then show ?thesis
  proof cases
    case 1
    then show ?thesis
      using recorder_out_other [of ?s "record_clone r" s' rs] assms(2)
      by (simp add: recorder_out_clone_def is_sched_def)
  next
    case 2
    then show ?thesis by (intro exI [of _ "[]"]) simp
  qed
qed

lemma replay_loop_outs:
  "replay_loop env clk t s ry = Inr (ry', s') \<Longrightarrow> outs s rs \<Longrightarrow>
     \<exists>rs'. outs s' (rs @ rs') \<and> (\<forall>x\<in>set rs'. \<not> is_sched x) \<and> gh_record_clk s' = gh_record_clk s"
proof (induction env clk t s ry arbitrary: rs rule: replay_loop.induct)
  case (1 env clk t s ry)
  obtain r t1 where n: "trace_next t RECORD_ANY = Inr (r, t1)"
    using "1.prems"(1) by (auto simp: replay_loop.simps [of env clk t] bindr_eq_Inr)
  have stop: ?case if "\<exists>i. s' = s\<lparr>rc_input := i\<rparr>"
    using that "1.prems"(2) by (auto intro!: exI [of _ "[]"])
  show ?case
  proof (cases r)
    case None
    with n "1.prems"(1) show ?thesis by (intro stop) (auto simp: replay_loop.simps [of env clk t])
  next
    case (Some v)
    show ?thesis
    proof (cases "later clk v")
      case True
      with Some n "1.prems"(1) show ?thesis
        by (intro stop) (auto simp: replay_loop.simps [of env clk t] assertr_eq_Inr)
    next
      case False
      obtain ry1 s1 t2 where x: "not_stale clk v" "replay_record env clk s ry v = Inr (ry1, s1)" "trace_advance t1 = Inr t2"
          "replay_loop env clk t2 s1 ry1 = Inr (ry', s')"
        using False Some n "1.prems"(1) by (auto simp: replay_loop.simps [of env clk t] result_elims)
      obtain rs1 where r1: "outs s1 (rs @ rs1)" "\<forall>x\<in>set rs1. \<not> is_sched x" "gh_record_clk s1 = gh_record_clk s"
        using replay_record_outs [OF x(2) "1.prems"(2)] by blast
      obtain rs2 where "outs s' ((rs @ rs1) @ rs2)" "\<forall>x\<in>set rs2. \<not> is_sched x" "gh_record_clk s' = gh_record_clk s1"
        using "1.IH" [OF n refl Some x(1) False x(2) refl x(3,4) r1(1)] by blast
      with r1 show ?thesis by (auto intro!: exI [of _ "rs1 @ rs2"])
    qed
  qed
qed

lemma recorder_replay_outs:
  assumes "recorder_replay env s clk = Inr (ry, s')" and "outs s rs"
  shows "\<exists>rs'. outs s' (rs @ rs') \<and> (\<forall>x\<in>set rs'. \<not> is_sched x) \<and> gh_record_clk s' = gh_record_clk s"
proof -
  let ?s = "s\<lparr>gh_replay_clk := gh_replay_clk s + 1\<rparr>"
  consider "rc_input s = None" "s' = ?s"
    | t ry0 where "replay_loop env clk t ?s ry0 = Inr (ry, s')"
    using assms(1) by (auto simp: recorder_replay_def recorder_replay_next_def Let_def result_elims split: if_splits)
  then show ?thesis
  proof cases
    case 1
    with assms(2) show ?thesis by (auto intro!: exI [of _ "[]"])
  next
    case 2
    with replay_loop_outs [OF 2, of rs] assms(2) show ?thesis by simp
  qed
qed

lemma recorder_record_outs:
  assumes "recorder_record env s cp clk = Inr s'" and "outs s rs"
  shows "gh_record_clk s < clk \<and> gh_record_clk s' = clk \<and>
    (\<exists>rs'. outs s' (rs @ rs') \<and> (\<forall>x\<in>set rs'. is_sched x \<longrightarrow> rec_clk x = clk) \<and> length rs' \<le> 1)"
proof (cases "rc_output s = None")
  case True
  with assms show ?thesis
    by (auto simp: recorder_record_def record_decision_def Let_def result_elims intro!: exI [of _ "[]"])
next
  case False
  let ?s = "s\<lparr>gh_record_clk := clk\<rparr>"
  from assms(1) False obtain st r s1 where r: "recorder_out (?s\<lparr>rc_store := st\<rparr>) r = Inr s1" "rec_clk r = clk"
      "gh_record_clk s < clk" "s' = s1 \<or> s' = s1\<lparr>rc_end_once := True, rc_events := rc_events s1 @ [REPLAY_END]\<rparr>"
    by (auto simp: recorder_record_def record_decision_def Let_def result_elims fill_payload_def split: if_splits)
  have "outs (?s\<lparr>rc_store := st\<rparr>) rs" using assms(2) by simp
  from recorder_out_outs [OF r(1) this] r(2-4) False show ?thesis
    by (auto intro!: exI [of _ "[r]"])
qed

lemma recorder_fini_outs:
  assumes "recorder_fini env s clk tid reason = Inr s'" and "outs s rs"
  shows "\<exists>rs'. outs s' (rs @ rs') \<and> (\<forall>x\<in>set rs'. \<not> is_sched x) \<and> gh_record_clk s' = gh_record_clk s"
proof -
  let ?s = "s\<lparr>gh_finito := True\<rparr>"
  consider "s' = ?s" | st r where "recorder_out (?s\<lparr>rc_store := st\<rparr>) r = Inr s'" "rec_kind r = RECORD_EXIT"
    using assms(1)
    by (fastforce simp: recorder_fini_def Let_def result_elims recorder_out_safe_same split: if_splits option.splits)
  then show ?thesis
  proof cases
    case 1
    with assms(2) show ?thesis by (auto intro!: exI [of _ "[]"])
  next
    case 2
    have "outs (?s\<lparr>rc_store := st\<rparr>) rs" using assms(2) by simp
    from recorder_out_other [OF 2(1) this] 2(2) show ?thesis by (simp add: is_sched_def)
  qed
qed

section \<open>Properties\<close>

text \<open>
  The states a recorder can reach from an empty output trace; between the calls the modules change
  the store in any way they like.
\<close>

inductive rec_reach :: "'a env \<Rightarrow> 'a recorder \<Rightarrow> bool" for env where
  start: "outs s [] \<Longrightarrow> rec_reach env s"
| modules: "rec_reach env s \<Longrightarrow> rec_reach env (s\<lparr>rc_store := st\<rparr>)"
| replay: "rec_reach env s \<Longrightarrow> recorder_replay env s clk = Inr (ry, s') \<Longrightarrow> rec_reach env s'"
| rec: "rec_reach env s \<Longrightarrow> recorder_record env s cp clk = Inr s' \<Longrightarrow> rec_reach env s'"
| info: "rec_reach env s \<Longrightarrow> recorder_info_save s r = Inr s' \<Longrightarrow> rec_reach env s'"
| fini: "rec_reach env s \<Longrightarrow> recorder_fini env s clk tid reason = Inr s' \<Longrightarrow> rec_reach env s'"

definition clk_inv :: "'a recorder \<Rightarrow> record_t list \<Rightarrow> bool" where
  "clk_inv s rs \<longleftrightarrow> sorted_wrt (<) (map rec_clk (filter is_sched rs)) \<and>
     (\<forall>r\<in>set rs. is_sched r \<longrightarrow> rec_clk r \<le> gh_record_clk s)"

lemma clk_inv_other:
  "clk_inv s rs \<Longrightarrow> \<forall>x\<in>set rs'. \<not> is_sched x \<Longrightarrow> gh_record_clk s' = gh_record_clk s \<Longrightarrow> clk_inv s' (rs @ rs')"
  by (auto simp: clk_inv_def)

lemma clk_inv_sched:
  assumes "clk_inv s rs" and "gh_record_clk s < clk" and "gh_record_clk s' = clk"
    and "\<forall>x\<in>set rs'. is_sched x \<longrightarrow> rec_clk x = clk" and "length rs' \<le> 1"
  shows "clk_inv s' (rs @ rs')"
proof -
  consider "rs' = []" | r where "rs' = [r]" using assms(5) by (cases rs') auto
  then show ?thesis using assms(1-4) by cases (fastforce simp: clk_inv_def sorted_wrt_append)+
qed

text \<open>
  In everything the recorder can ever write, whatever the interleaving of replays, recordings,
  information records and the final record, the scheduling records carry strictly increasing clock
  values, none beyond the last recorded clock.
\<close>

theorem recorder_clocks_increase: "rec_reach env s \<Longrightarrow> \<exists>rs. outs s rs \<and> clk_inv s rs"
proof (induction rule: rec_reach.induct)
  case (start s)
  then show ?case by (auto simp: clk_inv_def)
next
  case (modules s st)
  then show ?case by (auto simp: clk_inv_def)
next
  case (replay s clk ry s')
  then show ?case by (blast dest: recorder_replay_outs intro: clk_inv_other)
next
  case (rec s cp clk s')
  then show ?case by (blast dest: recorder_record_outs intro: clk_inv_sched)
next
  case (info s r s')
  then obtain rs where rs: "outs s rs" "clk_inv s rs" by blast
  have "recorder_out s (record_clone r) = Inr s'" "\<not> is_sched (record_clone r)"
    using info.hyps by (auto simp: recorder_info_save_def recorder_out_clone_def assertr_eq_Inr is_sched_def)
  from recorder_out_other [OF this(1) rs(1) this(2)] rs(2) show ?case by (blast intro: clk_inv_other)
next
  case (fini s clk tid reason s')
  then show ?case by (blast dest: recorder_fini_outs intro: clk_inv_other)
qed

text \<open>A small environment without registered state, for the concrete examples.\<close>

definition plain_env :: "byte list env" where
  "plain_env = \<lparr>env_pub = (\<lambda>_ st. st), env_groups = (\<lambda>_. []), env_gran = (\<lambda>_. 0), env_slack = (\<lambda>_. 0),
     env_seed = (\<lambda>_. 0), env_set_seed = (\<lambda>_ st. st), env_rand = (\<lambda>x. (unat x, x + 1)),
     env_capture = (\<lambda>_ e st. Inr (e, st)), env_resume = (\<lambda>_ st. Inr st)\<rparr>"

definition plain_recorder :: "trace option \<Rightarrow> trace option \<Rightarrow> byte list recorder" where
  "plain_recorder i ot = \<lparr>rc_input = i, rc_output = ot, rc_finalr = None, rc_store = (\<lambda>_. []), rc_events = [],
     rc_end_once = False, gh_record_clk = 0, gh_replay_clk = 0, gh_finito = False\<rparr>"

definition empty_flat :: trace where
  "empty_flat = TFlat (trace_flat_create \<lparr>st_bytes = [], st_pos = 0\<rparr>)"

lemma out_rel_empty [simp]: "out_rel empty_flat []"
  using flat_invI [OF flat_rel_create, of "\<lparr>st_bytes = [], st_pos = 0\<rparr>"] by (simp add: empty_flat_def)

theorem recorder_clocks_increase_witness:
  "\<exists>rs. outs (plain_recorder None (Some empty_flat)) rs \<and> clk_inv (plain_recorder None (Some empty_flat)) rs"
proof (rule recorder_clocks_increase [of plain_env])
  show "rec_reach plain_env (plain_recorder None (Some empty_flat))"
    by (rule rec_reach.start) (simp add: outs_def plain_recorder_def)
qed

text \<open>
  Claim C2. A replay consumes exactly the records of the input trace that are due at the given clock, for
  both trace implementations. Its status says what was found: a forced decision, a recorded
  decision, records that are still ahead, or the end of the trace, in which case the input is
  dropped. The identifier is that of the last decision.
\<close>

theorem recorder_replay_outcome:
  assumes "rc_input s = Some t" and "trace_inv t" and "recorder_replay env s clk = Inr (ry, s')"
  shows "let cs = takeWhile (\<lambda>r. \<not> later clk r) (visible t); rest = dropWhile (\<lambda>r. \<not> later clk r) (visible t) in
    clk = gh_replay_clk s + 1 \<and> (\<forall>r\<in>set cs. not_stale clk r) \<and>
    (rest = [] \<longrightarrow> rc_input s' = None) \<and>
    (rest \<noteq> [] \<longrightarrow> (\<exists>t'. rc_input s' = Some t' \<and> trace_inv t' \<and> visible t' = rest)) \<and>
    ry_status ry = (if \<exists>r\<in>set cs. rec_kind r = RECORD_FORCE then REPLAY_FORCE
                    else if \<exists>r\<in>set cs. rec_kind r = RECORD_SCHED then REPLAY_LOAD
                    else if rest \<noteq> [] then REPLAY_CONT else REPLAY_DONE) \<and>
    ry_id ry = last_id NO_TASK (sched_ids cs)"
proof -
  let ?s = "s\<lparr>gh_replay_clk := gh_replay_clk s + 1\<rparr>" and ?ry = "\<lparr>ry_status = REPLAY_DONE, ry_id = NO_TASK\<rparr>"
  have clk: "clk = gh_replay_clk s + 1" and run: "replay_loop env clk t ?s ?ry = Inr (ry, s')"
    using assms(1,3) by (auto simp: recorder_replay_def recorder_replay_next_def Let_def result_elims)
  show ?thesis
  proof (cases "replay_list env clk ?s ?ry (visible t)")
    case (Inl e)
    with replay_loop_list [OF assms(2), of env clk ?s ?ry] run show ?thesis by simp
  next
    case (Inr x)
    obtain ry1 s1 rs1 where x: "x = (ry1, s1, rs1)" by (cases x)
    with replay_loop_list [OF assms(2), of env clk ?s ?ry] run Inr obtain i where
      i: "ry = ry1" "s' = s1\<lparr>rc_input := i\<rparr>" "input_rel i rs1" "i = None \<longleftrightarrow> rs1 = []"
      by auto
    let ?cs = "takeWhile (\<lambda>r. \<not> later clk r) (visible t)" and ?rest = "dropWhile (\<lambda>r. \<not> later clk r) (visible t)"
    have o: "rs1 = ?rest" "\<forall>r\<in>set ?cs. not_stale clk r"
        "ry_status ry1 = (let st = next_status REPLAY_DONE ?cs in if st = REPLAY_DONE \<and> rs1 \<noteq> [] then REPLAY_CONT else st)"
        "ry_id ry1 = last_id NO_TASK (sched_ids ?cs)"
      using replay_list_outcome [OF Inr [unfolded x]] by simp_all
    have st: "ry_status ry = (if \<exists>r\<in>set ?cs. rec_kind r = RECORD_FORCE then REPLAY_FORCE
        else if \<exists>r\<in>set ?cs. rec_kind r = RECORD_SCHED then REPLAY_LOAD
        else if ?rest \<noteq> [] then REPLAY_CONT else REPLAY_DONE)"
      unfolding i(1) o(3) o(1) next_status_def Let_def by (simp split del: if_split) simp
    have inp: "?rest = [] \<longrightarrow> rc_input s' = None"
      "?rest \<noteq> [] \<longrightarrow> (\<exists>t'. rc_input s' = Some t' \<and> trace_inv t' \<and> visible t' = ?rest)"
      using i o(1) by (cases i; auto simp: input_rel_def)+
    show ?thesis unfolding Let_def
      using clk o(2,4) st inp i(1) by (intro conjI) simp_all
  qed
qed

text \<open>A trace that holds one record.\<close>

lemma single_trace:
  "\<exists>t. trace_append empty_flat r = Inr (True, t) \<and> trace_inv t \<and> trace_list t = [r]"
proof -
  have i: "flat_inv (trace_flat_create \<lparr>st_bytes = [], st_pos = 0\<rparr>)"
    "flat_list (trace_flat_create \<lparr>st_bytes = [], st_pos = 0\<rparr>) = []"
    using flat_invI [OF flat_rel_create] by simp_all
  from flat_refines_append [OF i(1), of r] i(2) show ?thesis by (auto simp: empty_flat_def)
qed

theorem recorder_replay_outcome_witness:
  "\<exists>t ry s'. trace_append empty_flat ((record_alloc 0)\<lparr>rec_kind := RECORD_FORCE, rec_id := 5, rec_clk := 1\<rparr>) = Inr (True, t) \<and>
     recorder_replay plain_env (plain_recorder (Some t) None) 1 = Inr (ry, s') \<and>
     ry_status ry = REPLAY_FORCE \<and> ry_id ry = 5 \<and> rc_input s' = None"
proof -
  let ?r = "(record_alloc 0)\<lparr>rec_kind := RECORD_FORCE, rec_id := 5, rec_clk := 1\<rparr>"
  obtain t where t: "trace_append empty_flat ?r = Inr (True, t)" "trace_inv t" "trace_list t = [?r]"
    using single_trace by blast
  have v: "visible t = [?r]" using t(3) by (simp add: visible_def)
  let ?s = "plain_recorder (Some t) None"
  have nl: "\<not> later 1 ?r" by (simp add: later_def is_after_kind_def record_kind_defs)
  have "replay_list plain_env 1 (?s\<lparr>gh_replay_clk := 1\<rparr>) \<lparr>ry_status = REPLAY_DONE, ry_id = NO_TASK\<rparr> [?r] =
      Inr (\<lparr>ry_status = REPLAY_FORCE, ry_id = 5\<rparr>, ?s\<lparr>gh_replay_clk := 1\<rparr>, [])"
    using nl by (simp add: not_stale_def replay_record_def statemgr_record_unmarshal_def recorder_out_clone_def
        recorder_out_def plain_recorder_def)
  with replay_loop_list [OF t(2), of plain_env 1 "?s\<lparr>gh_replay_clk := 1\<rparr>" "\<lparr>ry_status = REPLAY_DONE, ry_id = NO_TASK\<rparr>"] v
  obtain ry s' where run: "recorder_replay plain_env ?s 1 = Inr (ry, s')"
    by (auto simp: recorder_replay_def recorder_replay_next_def plain_recorder_def)
  have inp: "rc_input ?s = Some t" by (simp add: plain_recorder_def)
  from recorder_replay_outcome [OF inp t(2) run] nl
  have "ry_status ry = REPLAY_FORCE \<and> ry_id ry = 5 \<and> rc_input s' = None"
    by (simp add: v Let_def last_id_def sched_ids_def)
  with t(1) run show ?thesis by blast
qed

text \<open>
  An information record in the input trace stops the program: \<^verbatim>\<open>_recorder_replay_next\<close> hands every
  due record to \<^verbatim>\<open>statemgr_record_unmarshal\<close> first, which treats \<^verbatim>\<open>RECORD_INFO\<close> as unexpected. The case
  for \<^verbatim>\<open>RECORD_INFO\<close> that would publish it is never reached, although the recorder itself writes such
  records.
\<close>

theorem replay_info_record_fatal:
  assumes "rc_input s = Some t" and "trace_inv t" and "visible t = r # rs" and "rec_kind r = RECORD_INFO"
    and "rec_clk r = gh_replay_clk s + 1" and "\<not> gh_finito s"
  shows "recorder_replay env s (gh_replay_clk s + 1) = Inl Fatal"
proof -
  let ?c = "gh_replay_clk s + 1" and ?ry = "\<lparr>ry_status = REPLAY_DONE, ry_id = NO_TASK\<rparr>"
  have "\<not> later ?c r" "not_stale ?c r"
    using assms(4,5) by (simp_all add: later_def not_stale_def is_after_kind_def record_kind_defs)
  moreover have "replay_record env ?c s' ry r = Inl Fatal" for s' :: "'a recorder" and ry
    using assms(4) by (simp add: replay_record_def statemgr_record_unmarshal_def record_kind_defs)
  ultimately have "replay_list env ?c (s\<lparr>gh_replay_clk := ?c\<rparr>) ?ry (visible t) = Inl Fatal"
    using assms(3) by simp
  with replay_loop_list [OF assms(2), of env ?c "s\<lparr>gh_replay_clk := ?c\<rparr>" ?ry]
  have "replay_loop env ?c t (s\<lparr>gh_replay_clk := ?c\<rparr>) ?ry = Inl Fatal" by simp
  with assms(1,6) show ?thesis by (simp add: recorder_replay_def recorder_replay_next_def)
qed

theorem replay_info_record_fatal_witness:
  "\<exists>t. trace_append empty_flat ((record_alloc 0)\<lparr>rec_kind := RECORD_INFO, rec_clk := 1\<rparr>) = Inr (True, t) \<and>
     recorder_replay plain_env (plain_recorder (Some t) None) 1 = Inl Fatal"
proof -
  let ?r = "(record_alloc 0)\<lparr>rec_kind := RECORD_INFO, rec_clk := 1\<rparr>"
  obtain t where t: "trace_append empty_flat ?r = Inr (True, t)" "trace_inv t" "trace_list t = [?r]"
    using single_trace by blast
  have v: "visible t = [?r]" using t(3) by (simp add: visible_def)
  let ?s = "plain_recorder (Some t) None"
  have "rc_input ?s = Some t" "rec_kind ?r = RECORD_INFO" "rec_clk ?r = gh_replay_clk ?s + 1" "\<not> gh_finito ?s"
    by (simp_all add: plain_recorder_def)
  from replay_info_record_fatal [OF this(1) t(2) v this(2-4), of plain_env] t(1) show ?thesis
    by (auto simp: plain_recorder_def)
qed

text \<open>
  Claim C1. Recording and replaying are inverse. If a decision is recorded at some clock, then a later run
  that reads the record at the same clock gets the recorded task as a loaded decision, every
  registered persistent variable is observed as it was when the decision was recorded, and the
  trace is used up.
\<close>

theorem record_then_replay:
  assumes "recorder_record env s cp clk = Inr s1" and "outs s []" and "rc_output s \<noteq> None"
    and "group_ok ok obs (env_groups env STATE_TYPE_PERSISTENT)" and "\<forall>v. ok v (rc_store s v)"
    and "\<forall>st. env_pub env BEFORE_MARSHAL_PERSISTENT st = st"
    and "statemgr_size (env_groups env) (rc_store s) STATE_TYPE_PERSISTENT = Inr n" and "n < 2 ^ 64"
  shows "\<exists>r. outs s1 [r] \<and> (\<forall>s2 t. rc_input s2 = Some t \<longrightarrow> trace_inv t \<longrightarrow> visible t = [r] \<longrightarrow>
    \<not> gh_finito s2 \<longrightarrow> gh_replay_clk s2 + 1 = clk \<longrightarrow> (\<forall>v. ok v (rc_store s2 v)) \<longrightarrow>
    (\<exists>st. recorder_replay env s2 clk = Inr (\<lparr>ry_status = REPLAY_LOAD, ry_id = cp_id cp\<rparr>,
        s2\<lparr>gh_replay_clk := clk, rc_store := env_pub env AFTER_UNMARSHAL_PERSISTENT st, rc_input := None\<rparr>) \<and>
      (\<forall>v\<in>set (group_vars (env_groups env STATE_TYPE_PERSISTENT)). obs v (st v) = obs v (rc_store s v))))"
proof -
  let ?g = "env_groups env STATE_TYPE_PERSISTENT" and ?st = "rc_store s"
  obtain bs where bs: "group_marshal ?st ?g 0 = Inr bs" "n = length bs"
    using group_marshal_size [of ?g ok obs ?st 0] assms(4,5,7) by (auto simp: group_ok_def statemgr_size_def)
  let ?r = "(record_alloc n)\<lparr>rec_kind := RECORD_SCHED, rec_id := cp_id cp, rec_chain := cp_chain_id cp,
      rec_type := cp_type_id cp, rec_pc := cp_pc cp, rec_clk := clk, rec_data := bs\<rparr>"
  have m: "statemgr_marshal (env_pub env) (env_groups env) ?st STATE_TYPE_PERSISTENT = Inr (bs, ?st)"
    using bs(1) assms(6) by (simp add: statemgr_marshal_def)
  obtain s3 where o: "recorder_out (s\<lparr>gh_record_clk := clk, rc_store := ?st\<rparr>) ?r = Inr s3"
      "s1 = s3 \<or> s1 = s3\<lparr>rc_end_once := True, rc_events := rc_events s3 @ [REPLAY_END]\<rparr>"
    using assms(1,3,7) m bs(2)
    by (auto simp: recorder_record_def record_decision_def Let_def result_elims fill_payload_def record_alloc_def split: if_splits)
  have "outs (s\<lparr>gh_record_clk := clk, rc_store := ?st\<rparr>) []" using assms(2) by simp
  from recorder_out_outs [OF o(1) this] assms(3) o(2) have out: "outs s1 [?r]" by auto
  have "\<exists>st. recorder_replay env s2 clk = Inr (\<lparr>ry_status = REPLAY_LOAD, ry_id = cp_id cp\<rparr>,
        s2\<lparr>gh_replay_clk := clk, rc_store := env_pub env AFTER_UNMARSHAL_PERSISTENT st, rc_input := None\<rparr>) \<and>
      (\<forall>v\<in>set (group_vars ?g). obs v (st v) = obs v (?st v))"
    if h: "rc_input s2 = Some t" "trace_inv t" "visible t = [?r]" "\<not> gh_finito s2" "gh_replay_clk s2 + 1 = clk"
      "\<forall>v. ok v (rc_store s2 v)" for s2 t
  proof -
    let ?s = "s2\<lparr>gh_replay_clk := clk\<rparr>" and ?ry = "\<lparr>ry_status = REPLAY_DONE, ry_id = NO_TASK\<rparr>"
    obtain st where st: "unmarshal_loop True ?g 0 0 (rc_store s2) bs = Inr (st, [])"
        "restored ok obs (set (group_vars ?g)) ?st (rc_store s2) st"
      using group_roundtrip [of ok obs "[]" ?g ?st "rc_store s2" bs True "[]"] assms(4,5,8) bs h(6) by auto
    let ?s' = "?s\<lparr>rc_store := env_pub env AFTER_UNMARSHAL_PERSISTENT st\<rparr>"
    have "\<not> later clk ?r" "not_stale clk ?r"
      by (simp_all add: later_def not_stale_def is_after_kind_def record_kind_defs)
    moreover have "replay_record env clk ?s ?ry ?r = Inr (\<lparr>ry_status = REPLAY_LOAD, ry_id = cp_id cp\<rparr>, ?s')"
      using st(1) by (simp add: replay_record_def statemgr_record_unmarshal_def)
    ultimately have "replay_list env clk ?s ?ry (visible t) = Inr (\<lparr>ry_status = REPLAY_LOAD, ry_id = cp_id cp\<rparr>, ?s', [])"
      using h(3) by simp
    with replay_loop_list [OF h(2), of env clk ?s ?ry]
    have "replay_loop env clk t ?s ?ry = Inr (\<lparr>ry_status = REPLAY_LOAD, ry_id = cp_id cp\<rparr>, ?s'\<lparr>rc_input := None\<rparr>)"
      by simp
    with h(1,4,5) have "recorder_replay env s2 clk = Inr (\<lparr>ry_status = REPLAY_LOAD, ry_id = cp_id cp\<rparr>, ?s'\<lparr>rc_input := None\<rparr>)"
      by (simp add: recorder_replay_def recorder_replay_next_def)
    with st(2) show ?thesis by (auto simp: restored_def)
  qed
  with out show ?thesis by blast
qed

text \<open>
  A variable of 50 bytes, of which the last two are its contents, is registered. It has the value 5, 5 when the decision is recorded and 9, 9
  when it is replayed.
\<close>

definition var_env :: "byte list env" where
  "var_env = plain_env\<lparr>env_groups := (\<lambda>_. [\<lparr>en_m = [MARSHABLE_STATIC 0 50], en_slot = 7\<rparr>])\<rparr>"

definition var_cp :: capture_point where
  "var_cp = \<lparr>cp_chain_id = CHAIN_INGRESS_EVENT, cp_type_id = 3, cp_blocking = False, cp_id = 5, cp_vid = 0, cp_pc = 0, cp_func = True, cp_addr = 0\<rparr>"

definition var_recorder :: "trace option \<Rightarrow> trace option \<Rightarrow> byte \<Rightarrow> byte list recorder" where
  "var_recorder i ot b = (plain_recorder i ot)\<lparr>rc_store := (\<lambda>_. replicate 50 b)\<rparr>"

lemma var_group_ok:
  "group_ok (\<lambda>_ img. length img = 50) (\<lambda>_. drop MARSHABLE_OFF) (env_groups var_env STATE_TYPE_PERSISTENT)"
proof -
  have "m_lawful (\<lambda>(v :: nat) img :: byte list. length img = 50) (\<lambda>_. drop MARSHABLE_OFF) (MARSHABLE_STATIC 0 50)"
    by (rule static_lawful) (simp_all add: MARSHABLE_OFF_def)
  then show ?thesis by (simp add: var_env_def group_ok_def group_vars_def)
qed

lemma var_recorded:
  "\<exists>s1 u. recorder_record var_env (var_recorder None (Some empty_flat) 5) var_cp 1 = Inr s1 \<and> rc_output s1 = Some (TFlat u) \<and>
    trace_inv (TFlat u) \<and> visible (TFlat u) = flat_list u"
proof -
  let ?h = "\<lparr>h_canary = 0, h_index = 0, h_size = 50, h_empty = False, h_slot = 7\<rparr>"
  let ?bs = "header_marshal ?h @ replicate 50 5" and ?gs = "env_groups var_env"
  have m: "statemgr_marshal (\<lambda>_ st. st) ?gs (\<lambda>_. replicate 50 5) STATE_TYPE_PERSISTENT = Inr (?bs, \<lambda>_. replicate 50 5)"
    by (simp add: var_env_def statemgr_marshal_def entry_active_def MARSHABLE_STATIC_def marshable_static_marshal_def)
  have n: "statemgr_size ?gs (\<lambda>_. replicate 50 5) STATE_TYPE_PERSISTENT = Inr 82"
    by (simp add: var_env_def statemgr_size_def entry_active_def MARSHABLE_STATIC_def marshable_static_size_def sm_hsz_def)
  have p: "env_pub var_env = (\<lambda>_ st. st)" by (simp add: var_env_def plain_env_def)
  have l: "length ?bs = 82" by (simp add: sm_hsz_def)
  let ?r = "(record_alloc 82)\<lparr>rec_kind := RECORD_SCHED, rec_id := 5, rec_chain := CHAIN_INGRESS_EVENT,
      rec_type := 3, rec_pc := 0, rec_clk := 1, rec_data := ?bs\<rparr>"
  obtain t where t: "trace_append empty_flat ?r = Inr (True, t)" "trace_inv t" "trace_list t = [?r]" using single_trace by blast
  obtain u where u: "t = TFlat u" using t(1) by (auto simp: empty_flat_def bindr_eq_Inr)
  have "visible (TFlat u) = flat_list u" using t(3) u by (simp add: visible_def)
  moreover have fill: "fill_payload ((record_alloc 82)\<lparr>rec_kind := RECORD_SCHED, rec_id := 5, rec_chain := CHAIN_INGRESS_EVENT,
      rec_type := 3, rec_pc := 0, rec_clk := 1\<rparr>) ?bs = Inr ?r" using l by (simp add: fill_payload_def record_alloc_def)
  ultimately show ?thesis
    using m n t u by (simp add: recorder_record_def record_decision_def p var_recorder_def plain_recorder_def var_cp_def recorder_out_def NO_TASK_def)
qed

theorem record_then_replay_witness:
  "\<exists>s1 t s3. recorder_record var_env (var_recorder None (Some empty_flat) 5) var_cp 1 = Inr s1 \<and> rc_output s1 = Some t \<and>
     recorder_replay var_env (var_recorder (Some t) None 9) 1 = Inr (\<lparr>ry_status = REPLAY_LOAD, ry_id = 5\<rparr>, s3) \<and> drop 48 (rc_store s3 0) = [5, 5]"
proof -
  let ?s = "var_recorder None (Some empty_flat) 5"
  obtain s1 u where run: "recorder_record var_env ?s var_cp 1 = Inr s1" and out: "rc_output s1 = Some (TFlat u)"
    and t: "trace_inv (TFlat u)" "visible (TFlat u) = flat_list u" using var_recorded by blast
  have a: "outs ?s []" "rc_output ?s \<noteq> None" "\<forall>v. length (rc_store ?s v) = 50" by (simp_all add: outs_def var_recorder_def plain_recorder_def)
  have b: "\<forall>st. env_pub var_env BEFORE_MARSHAL_PERSISTENT st = st" by (simp add: var_env_def plain_env_def)
  have n: "statemgr_size (env_groups var_env) (rc_store ?s) STATE_TYPE_PERSISTENT = Inr 82" "(82::nat) < 2 ^ 64"
    by (simp_all add: var_env_def var_recorder_def statemgr_size_def entry_active_def MARSHABLE_STATIC_def marshable_static_size_def sm_hsz_def)
  obtain r where r: "outs s1 [r]" and rep: "\<And>s2 t. rc_input s2 = Some t \<Longrightarrow> trace_inv t \<Longrightarrow> visible t = [r] \<Longrightarrow>
      \<not> gh_finito s2 \<Longrightarrow> gh_replay_clk s2 + 1 = 1 \<Longrightarrow> \<forall>v. length (rc_store s2 v) = 50 \<Longrightarrow>
      \<exists>st. recorder_replay var_env s2 1 = Inr (\<lparr>ry_status = REPLAY_LOAD, ry_id = cp_id var_cp\<rparr>,
        s2\<lparr>gh_replay_clk := 1, rc_store := env_pub var_env AFTER_UNMARSHAL_PERSISTENT st, rc_input := None\<rparr>) \<and>
      (\<forall>v\<in>set (group_vars (env_groups var_env STATE_TYPE_PERSISTENT)). drop MARSHABLE_OFF (st v) = drop MARSHABLE_OFF (rc_store ?s v))"
    using record_then_replay [OF run a(1,2) var_group_ok a(3) b n] by blast
  let ?t = "TFlat u"
  have v: "visible ?t = [r]" using r out t(2) by (simp add: outs_def)
  have s2: "rc_input (var_recorder (Some ?t) None 9) = Some ?t" "\<not> gh_finito (var_recorder (Some ?t) None 9)"
      "gh_replay_clk (var_recorder (Some ?t) None 9) + 1 = 1" "\<forall>v. length (rc_store (var_recorder (Some ?t) None 9) v) = 50"
    by (simp_all add: var_recorder_def plain_recorder_def)
  obtain st where st: "recorder_replay var_env (var_recorder (Some ?t) None 9) 1 = Inr (\<lparr>ry_status = REPLAY_LOAD, ry_id = cp_id var_cp\<rparr>,
        (var_recorder (Some ?t) None 9)\<lparr>gh_replay_clk := 1, rc_store := env_pub var_env AFTER_UNMARSHAL_PERSISTENT st, rc_input := None\<rparr>)"
      "\<forall>v\<in>set (group_vars (env_groups var_env STATE_TYPE_PERSISTENT)). drop MARSHABLE_OFF (st v) = drop MARSHABLE_OFF (rc_store ?s v)"
    using rep [OF s2(1) t(1) v s2(2-4)] by blast
  have "0 \<in> set (group_vars (env_groups var_env STATE_TYPE_PERSISTENT))" by (simp add: var_env_def group_vars_def MARSHABLE_STATIC_def)
  with st(2) have "drop 48 (st 0) = drop 48 (rc_store ?s 0)" unfolding MARSHABLE_OFF_def by blast
  then have "drop 48 (st 0) = [5, 5]" by (simp add: var_recorder_def numeral_2_eq_2)
  moreover have "env_pub var_env AFTER_UNMARSHAL_PERSISTENT st = st" by (simp add: var_env_def plain_env_def)
  moreover have "cp_id var_cp = 5" by (simp add: var_cp_def)
  ultimately have rep5: "recorder_replay var_env (var_recorder (Some ?t) None 9) 1 = Inr (\<lparr>ry_status = REPLAY_LOAD, ry_id = 5\<rparr>,
      (var_recorder (Some ?t) None 9)\<lparr>gh_replay_clk := 1, rc_store := st, rc_input := None\<rparr>)" and val: "drop 48 (st 0) = [5, 5]"
    using st(1) by simp_all
  define s3 where "s3 = (var_recorder (Some ?t) None 9)\<lparr>gh_replay_clk := 1, rc_store := st, rc_input := None\<rparr>"
  have "rc_store s3 = st" by (simp add: s3_def)
  with val have "drop 48 (rc_store s3 0) = [5, 5]" by simp
  with run out rep5 show ?thesis unfolding s3_def [symmetric] by blast
qed

end
