(* ===== verification/Sequencer.thy ===== *)
theory Sequencer
  imports Recorder
begin

text \<open>
  The sequencer (\<^verbatim>\<open>src/engine/sequencer.c\<close>) and the task registration handler it calls first
  (\<^verbatim>\<open>src/engine/task.c\<close>).

  For each captured event the sequencer advances the clock, replays what the input trace has for this
  tick, hands the capture point to the handlers of the modules, chooses the next task and turns the
  choice into a plan. The handlers are the chains of the environment.
\<close>

section \<open>Data\<close>

record taskst =
  tk_registered :: tidset
  tk_last_parent :: task_id
  tk_tset :: tidset

record 'a seq =
  sq_clk :: clk
  sq_unblocked :: tidset
  sq_pending :: tidset
  sq_chpt_count :: nat
  sq_switch_count :: nat
  sq_last_chpt :: bool
  sq_prev_type :: type_id
  sq_prev_task :: task_id
  sq_next_task :: task_id
  sq_prev_blocking :: bool
  sq_should_record :: bool
  sq_task :: taskst
  sq_rec :: "'a recorder"

section \<open>task.c\<close>

definition taskst_init :: taskst where
  "taskst_init = \<lparr>tk_registered = tidset_init, tk_last_parent = 1, tk_tset = tidset_init\<rparr>"

definition handle_creation :: "capture_point \<Rightarrow> decision \<Rightarrow> taskst \<Rightarrow> (decision \<times> taskst) result" where
  "handle_creation cp e tk =
     assertr (cp_id cp \<noteq> NO_TASK) (assertr (\<not> e_is_chpt e) (assertr (tidset_size (e_tset e) = 0)
       (bindr
          (if cp_type_id cp = EVENT_TASK_CREATE then
             Inr (e\<lparr>e_next := ANY_TASK, e_is_chpt := True, e_readonly := True\<rparr>, tk\<lparr>tk_last_parent := cp_id cp\<rparr>)
           else if cp_type_id cp = EVENT_TASK_INIT then
             bindr (tidset_insert (tk_registered tk) (cp_id cp)) (\<lambda>(ok, reg).
               assertr ok (Inr (e\<lparr>e_reason := REASON_DETERMINISTIC, e_is_chpt := True, e_next := tk_last_parent tk\<rparr>,
                                tk\<lparr>tk_registered := reg\<rparr>)))
           else if cp_type_id cp = EVENT_TASK_FINI then
             bindr (tidset_remove (tk_registered tk) (cp_id cp)) (\<lambda>(ok, reg).
               assertr ok (Inr (e\<lparr>e_is_chpt := True\<rparr>, tk\<lparr>tk_registered := reg\<rparr>)))
           else
             bindr (tidset_insert (tk_registered tk) (cp_id cp)) (\<lambda>(_, reg). Inr (e, tk\<lparr>tk_registered := reg\<rparr>)))
          (\<lambda>(e, tk). bindr (tidset_copy (tk_tset tk) (tk_registered tk)) (\<lambda>ts.
             Inr (e\<lparr>e_tset := ts\<rparr>, tk\<lparr>tk_tset := ts\<rparr>))))))"

section \<open>sequencer.c\<close>

text \<open>\<^verbatim>\<open>last_chpt\<close> is not reset, the recorder and the task state belong to other files.\<close>

definition sequencer_reset :: "'a seq \<Rightarrow> 'a seq" where
  "sequencer_reset s = s\<lparr>sq_unblocked := tidset_init, sq_pending := tidset_init, sq_clk := 0, sq_chpt_count := 0,
     sq_switch_count := 0, sq_should_record := False, sq_prev_task := NO_TASK, sq_next_task := NO_TASK,
     sq_prev_type := 0, sq_prev_blocking := False\<rparr>"

text \<open>The loop of \<^verbatim>\<open>_update_unblocked\<close>.\<close>

function update_loop :: "tidset \<Rightarrow> tidset \<Rightarrow> nat \<Rightarrow> tidset result" where
  "update_loop pend unb i =
     (if i < tidset_size pend then
        bindr (tidset_get pend i) (\<lambda>t.
        bindr (tidset_insert unb t) (\<lambda>(ok, unb'). assertr ok (update_loop pend unb' (Suc i))))
      else Inr unb)"
  by pat_completeness auto
termination
  by (relation "measure (\<lambda>(pend, unb, i). tidset_size pend - i)") auto

declare update_loop.simps [simp del]

definition update_unblocked :: "'a seq \<Rightarrow> 'a seq result" where
  "update_unblocked s =
     bindr (update_loop (sq_pending s) (sq_unblocked s) 0) (\<lambda>unb.
       Inr (s\<lparr>sq_unblocked := unb, sq_pending := tidset_clear (sq_pending s)\<rparr>))"

definition add_pending_unblocked :: "'a seq \<Rightarrow> task_id \<Rightarrow> 'a seq result" where
  "add_pending_unblocked s tid =
     bindr (tidset_insert (sq_pending s) tid) (\<lambda>(ok, pend). assertr ok (Inr (s\<lparr>sq_pending := pend\<rparr>)))"

definition actions_for :: "capture_point \<Rightarrow> task_id \<Rightarrow> decision \<Rightarrow> actions result" where
  "actions_for cp next e =
     (if cp_type_id cp = EVENT_TASK_CREATE then
        assertr (e_replay e \<or> next = ANY_TASK) (Inr (ACTION_BLOCK OR ACTION_YIELD OR ACTION_RESUME))
      else if cp_type_id cp = EVENT_TASK_INIT then
        assertr (next \<noteq> NO_TASK) (Inr (ACTION_WAKE OR ACTION_YIELD OR ACTION_RESUME))
      else if cp_type_id cp = EVENT_TASK_FINI then assertr (next \<noteq> NO_TASK) (Inr ACTION_WAKE)
      else if cp_blocking cp then
        assertr (next \<noteq> NO_TASK)
          (Inr (ACTION_WAKE OR ACTION_BLOCK OR ACTION_RETURN OR ACTION_YIELD OR ACTION_RESUME))
      else Inr (ACTION_WAKE OR ACTION_YIELD OR ACTION_RESUME))"

text \<open>
  The loop of \<^verbatim>\<open>_granularity_should_record\<close>: the 32 bit counter is the \<open>k\<close>-th power of two and becomes 0
  after the highest bit, where \<^verbatim>\<open>record_granularities_have\<close> holds and the switch has no case.
\<close>

definition shl32 :: "nat \<Rightarrow> nat" where
  "shl32 k = (if k < 32 then 2 ^ k else 0)"

function granularity_loop :: "64 word \<Rightarrow> bool \<Rightarrow> bool \<Rightarrow> nat \<Rightarrow> bool \<Rightarrow> bool result" where
  "granularity_loop gran switched chpt k acc =
     (if \<not> acc \<and> shl32 k \<le> unat gran then
        if \<not> record_granularities_have gran (of_nat (shl32 k))
        then granularity_loop gran switched chpt (Suc k) acc
        else if shl32 k = 1 then granularity_loop gran switched chpt (Suc k) (acc \<or> switched)
        else if shl32 k = 2 then granularity_loop gran switched chpt (Suc k) (acc \<or> chpt)
        else if shl32 k = 4 then granularity_loop gran switched chpt (Suc k) True
        else Inl AssertFailed
      else Inr acc)"
  by pat_completeness auto
termination
  by (relation "measure (\<lambda>(gran, switched, chpt, k, acc). 33 - k)")
     (auto simp: shl32_def record_granularities_have_def split: if_splits)

declare granularity_loop.simps [simp del]

definition granularity_should_record :: "64 word \<Rightarrow> capture_point \<Rightarrow> decision \<Rightarrow> plan \<Rightarrow> bool result" where
  "granularity_should_record gran cp e p = granularity_loop gran (p_next p \<noteq> cp_id cp) (e_is_chpt e) 0 False"

text \<open>\<^verbatim>\<open>_dispatch_capture_event\<close>: the handlers, then the choice of the next task.\<close>

definition dispatch_capture_event ::
  "'a env \<Rightarrow> capture_point \<Rightarrow> decision \<Rightarrow> taskst \<Rightarrow> 'a store \<Rightarrow> (task_id \<times> decision \<times> taskst \<times> 'a store) result" where
  "dispatch_capture_event env cp e tk st =
     bindr (handle_creation cp e tk) (\<lambda>(e, tk).
     bindr (env_capture env cp e st) (\<lambda>(e, st).
       if \<not> e_is_chpt e then assertr (e_next e = NO_TASK \<or> e_next e = cp_id cp) (Inr (cp_id cp, e, tk, st))
       else if e_next e \<noteq> NO_TASK then Inr (e_next e, e, tk, st)
       else if tidset_size (e_tset e) = 0 then Inr (ANY_TASK, e, tk, st)
       else
         let e = (if e_selector e = SELECTOR_UNDEFINED then e\<lparr>e_selector := SELECTOR_RANDOM\<rparr> else e) in
         (case e_selector e of
            SELECTOR_RANDOM \<Rightarrow>
              let e = (if e_reason e = REASON_UNKNOWN then e\<lparr>e_reason := REASON_DETERMINISTIC\<rparr> else e) in
              bindr (prng_range (env_rand env) (env_seed env st) 0 (of_nat (tidset_size (e_tset e)))) (\<lambda>(v, seed).
              bindr (tidset_get (e_tset e) (unat v)) (\<lambda>t. Inr (t, e, tk, env_set_seed env seed st)))
          | SELECTOR_FIRST \<Rightarrow> bindr (tidset_get (e_tset e) 0) (\<lambda>t. Inr (t, e, tk, st))
          | SELECTOR_UNDEFINED \<Rightarrow> Inl AssertFailed)))"

text \<open>The switch over the status of the replay.\<close>

definition replay_next :: "'a env \<Rightarrow> 'a store \<Rightarrow> capture_point \<Rightarrow> replay \<Rightarrow> task_id \<Rightarrow> task_id result" where
  "replay_next env st cp ry next =
     (case ry_status ry of
        REPLAY_LOAD \<Rightarrow> assertr (next = ANY_TASK \<or> next = ry_id ry \<or> cp_blocking cp) (Inr (ry_id ry))
      | REPLAY_FORCE \<Rightarrow> Inr (ry_id ry)
      | REPLAY_DONE \<Rightarrow> Inr next
      | REPLAY_CONT \<Rightarrow> Inr (if env_slack env st > 0 \<and> cp_blocking cp then cp_id cp else next)
      | _ \<Rightarrow> Inl AssertFailed)"

definition plan_actions_for :: "capture_point \<Rightarrow> task_id \<Rightarrow> decision \<Rightarrow> actions result" where
  "plan_actions_for cp next e =
     (if reason_is_terminate (e_reason e) then
        if next \<noteq> cp_id cp then Inr ACTION_SHUTDOWN
        else bindr (actions_for cp next e) (\<lambda>a. Inr (a OR ACTION_SHUTDOWN))
      else actions_for cp next e)"

text \<open>\<^verbatim>\<open>sequencer_capture\<close> from the point where the replay of the tick has returned \<open>ry\<close>.\<close>

definition sequencer_decide :: "'a env \<Rightarrow> 'a seq \<Rightarrow> capture_point \<Rightarrow> replay \<Rightarrow> (plan \<times> 'a seq) result" where
  "sequencer_decide env s cp ry =
     bindr (update_unblocked s) (\<lambda>s.
       let e = zero_decision\<lparr>e_clk := sq_clk s, e_unblocked := sq_unblocked s, e_replay := (ry_status ry \<noteq> REPLAY_DONE)\<rparr> in
       bindr (dispatch_capture_event env cp e (sq_task s) (rc_store (sq_rec s))) (\<lambda>(next, e, tk, st).
         let s = s\<lparr>sq_task := tk, sq_rec := (sq_rec s)\<lparr>rc_store := st\<rparr>\<rparr>;
             rt = (if \<not> e_replay e then REPLAY_OFF else if next = ANY_TASK then REPLAY_ANY_TASK else REPLAY_ON) in
         bindr (replay_next env st cp ry next) (\<lambda>next.
         bindr (plan_actions_for cp next e) (\<lambda>acts.
           let p = \<lparr>p_actions = acts, p_next = next, p_with_slack = cp_blocking cp \<and> \<not> e_replay e,
                    p_reason = e_reason e, p_replay_type = rt, p_clk = sq_clk s,
                    p_any_task_filter = e_any_task_filter e\<rparr> in
           assertr (plan_next p = ACTION_WAKE \<longrightarrow> p_next p \<noteq> NO_TASK)
             (bindr (if e_should_record e then Inr True else granularity_should_record (env_gran env st) cp e p) (\<lambda>rd.
                Inr (p, s\<lparr>sq_should_record := rd, sq_next_task := next, sq_prev_type := cp_type_id cp,
                  sq_prev_blocking := cp_blocking cp, sq_last_chpt := e_is_chpt e,
                  sq_chpt_count := sq_chpt_count s + (if e_is_chpt e then 1 else 0),
                  sq_switch_count := sq_switch_count s + (if sq_prev_task s \<noteq> cp_id cp then 1 else 0),
                  sq_prev_task := cp_id cp, sq_unblocked := tidset_clear (sq_unblocked s)\<rparr>)))))))"

definition sequencer_capture :: "'a env \<Rightarrow> 'a seq \<Rightarrow> capture_point \<Rightarrow> (plan \<times> 'a seq) result" where
  "sequencer_capture env s cp =
     assertr (cp_id cp \<noteq> NO_TASK)
       (let s = s\<lparr>sq_clk := sq_clk s + 1\<rparr> in
        bindr (recorder_replay env (sq_rec s) (sq_clk s)) (\<lambda>(ry, rc). sequencer_decide env (s\<lparr>sq_rec := rc\<rparr>) cp ry))"

text \<open>The three conditions under which \<^verbatim>\<open>sequencer_resume\<close> records.\<close>

definition must_record :: "'a env \<Rightarrow> 'a seq \<Rightarrow> capture_point \<Rightarrow> bool" where
  "must_record env s cp \<longleftrightarrow>
     (let slack = env_slack env (rc_store (sq_rec s)) in
      sq_should_record s \<or>
      (slack > 0 \<and> sq_prev_blocking s \<and> cp_id cp \<noteq> sq_prev_task s) \<or>
      (sq_prev_type s \<noteq> EVENT_TASK_CREATE \<and> (slack = 0 \<or> \<not> sq_prev_blocking s) \<and> sq_next_task s \<noteq> cp_id cp))"

definition sequencer_resume :: "'a env \<Rightarrow> 'a seq \<Rightarrow> capture_point \<Rightarrow> 'a seq result" where
  "sequencer_resume env s cp =
     bindr (env_resume env cp (rc_store (sq_rec s))) (\<lambda>st.
       let s = s\<lparr>sq_rec := (sq_rec s)\<lparr>rc_store := st\<rparr>\<rparr> in
       if sq_clk s = 0 then Inr s
       else if cp_id cp = 1 \<and> cp_type_id cp = 0 then Inr s
       else bindr (if must_record env s cp
                   then bindr (recorder_record env (sq_rec s) cp (sq_clk s)) (\<lambda>rc. Inr (s\<lparr>sq_rec := rc\<rparr>))
                   else Inr s) update_unblocked)"

definition sequencer_return :: "'a seq \<Rightarrow> capture_point \<Rightarrow> 'a seq result" where
  "sequencer_return s cp = assertr (cp_blocking cp) (add_pending_unblocked s (cp_id cp))"

definition sequencer_fini :: "'a env \<Rightarrow> 'a seq \<Rightarrow> capture_point \<Rightarrow> reason \<Rightarrow> 'a seq result" where
  "sequencer_fini env s cp reason =
     bindr (recorder_fini env (sq_rec s) (sq_clk s) (cp_id cp) reason) (\<lambda>rc. Inr (s\<lparr>sq_rec := rc\<rparr>))"

definition sequencer_get_clk :: "'a seq \<Rightarrow> clk" where
  "sequencer_get_clk s = sq_clk s"

definition sequencer_set_clk :: "'a seq \<Rightarrow> clk \<Rightarrow> 'a seq" where
  "sequencer_set_clk s c = s\<lparr>sq_clk := c\<rparr>"

section \<open>Lemmas: returned tasks\<close>

lemma update_loop_absorb:
  "tidset_inv pend \<Longrightarrow> update_loop pend unb i = ts.absorb unb (drop i (tidset_list pend))"
proof (induction pend unb i rule: update_loop.induct)
  case (1 pend unb i)
  have wf: "tidset_wf pend" and len: "length (tidset_list pend) = ts_size pend"
    using "1.prems" by auto
  show ?case
  proof (cases "i < ts_size pend")
    case True
    then have d: "drop i (tidset_list pend) = tidset_list pend ! i # drop (Suc i) (tidset_list pend)"
      using len by (simp add: Cons_nth_drop_Suc)
    show ?thesis
      unfolding update_loop.simps [of pend unb i] d ts.absorb.simps
      using True wf "1.IH" "1.prems"
      by (auto simp: tidset_size_def tidset_get_wf intro!: bindr_cong assertr_cong)
  next
    case False
    with len show ?thesis by (simp add: update_loop.simps [of pend unb i] tidset_size_def)
  qed
qed

lemma update_unblocked_spec:
  assumes "tidset_inv (sq_pending s)" and "tidset_inv (sq_unblocked s)"
  shows "if tids (sq_unblocked s) \<inter> tids (sq_pending s) = {}
    then \<exists>unb. update_unblocked s = Inr (s\<lparr>sq_unblocked := unb, sq_pending := tidset_clear (sq_pending s)\<rparr>) \<and>
      tidset_inv unb \<and> tids unb = tids (sq_unblocked s) \<union> tids (sq_pending s)
    else update_unblocked s = Inl AssertFailed"
proof -
  let ?l = "tidset_list (sq_pending s)"
  have run: "update_loop (sq_pending s) (sq_unblocked s) 0 = ts.absorb (sq_unblocked s) ?l"
    using update_loop_absorb [OF assms(1)] by simp
  have d: "distinct ?l" using assms(1) by (simp add: tidset_inv_def)
  show ?thesis
  proof (cases "tids (sq_unblocked s) \<inter> tids (sq_pending s) = {}")
    case True
    then have "set ?l \<inter> set_mset (mset (tidset_list (sq_unblocked s))) = {}" by (auto simp: tids_def)
    from ts.absorb_fresh [OF assms(2) d this] True show ?thesis
      by (auto simp: update_unblocked_def run tids_def)
  next
    case False
    then have "\<not> (distinct ?l \<and> set ?l \<inter> set_mset (mset (tidset_list (sq_unblocked s))) = {})"
      by (auto simp: tids_def)
    from ts.absorb_clash [OF assms(2) this] False show ?thesis by (simp add: update_unblocked_def run)
  qed
qed

section \<open>Lemmas: recording\<close>

lemma have_le: "record_granularities_have g (of_nat n) \<Longrightarrow> 0 < n \<Longrightarrow> n < 2 ^ 64 \<Longrightarrow> n = 2 ^ k \<Longrightarrow> n \<le> unat g"
proof -
  assume h: "record_granularities_have g (of_nat n)" and n: "0 < n" "n < 2 ^ 64" "n = 2 ^ k"
  have u: "unat (of_nat n :: 64 word) = n" using n(2) by (rule unat_of_nat64)
  then have nz: "(of_nat n :: 64 word) \<noteq> 0" using n(1) by auto
  with h have a: "g AND of_nat n \<noteq> 0" by (simp add: record_granularities_have_def)
  have e: "(of_nat n :: 64 word) = 2 ^ k" using n(3) by simp
  with a have "bit g k" by (simp add: bit_iff_and_push_bit_not_eq_0 push_bit_of_1)
  then have "g AND 2 ^ k = (2 ^ k :: 64 word)"
    by (intro bit_eqI) (auto simp: bit_and_iff bit_exp_iff)
  then have "(2 ^ k :: 64 word) \<le> g" by (metis word_and_le2)
  then have "(of_nat n :: 64 word) \<le> g" using e by simp
  then have "unat (of_nat n :: 64 word) \<le> unat g" by (simp add: word_le_nat_alt)
  with u show ?thesis by simp
qed

lemma granularity_loop_spec:
  assumes "unat gran < 8 \<or> record_granularities_have gran 4"
  shows "granularity_loop gran sw ch 0 False =
    Inr (record_granularities_have gran 1 \<and> sw \<or> record_granularities_have gran 2 \<and> ch \<or> record_granularities_have gran 4)"
proof -
  let ?h = "record_granularities_have gran"
  have le1: "?h 1 \<longrightarrow> 1 \<le> unat gran" using have_le [of gran 1 0] by (auto simp del: One_nat_def)
  have le2: "?h 2 \<longrightarrow> 2 \<le> unat gran" by (rule impI, rule have_le [where k = 1]) simp_all
  have le4: "?h 4 \<longrightarrow> 4 \<le> unat gran" by (rule impI, rule have_le [where k = 2]) simp_all
  have stop: "granularity_loop gran sw ch k True = Inr True" for k
    by (simp add: granularity_loop.simps [of gran sw ch k True])
  have k3: "granularity_loop gran sw ch (Suc (Suc (Suc 0))) False = Inr False" if "unat gran < 8"
    using that by (subst granularity_loop.simps) (simp add: shl32_def)
  have k2: "granularity_loop gran sw ch (Suc (Suc 0)) False = Inr (?h 4)"
    using assms le4 k3 stop by (subst granularity_loop.simps) (auto simp: shl32_def)
  have k1: "granularity_loop gran sw ch (Suc 0) False = Inr (?h 2 \<and> ch \<or> ?h 4)"
    using le2 le4 k2 stop by (cases ch; subst granularity_loop.simps) (auto simp: shl32_def)
  show ?thesis
    using le1 le2 le4 k1 stop by (cases sw; subst granularity_loop.simps) (auto simp: shl32_def)
qed

section \<open>Lemmas: clocks\<close>

lemma recorder_out_frame: "recorder_out s r = Inr s' \<Longrightarrow> \<exists>t. s' = s\<lparr>rc_output := t\<rparr>"
proof (cases "rc_output s")
  case None
  moreover assume "recorder_out s r = Inr s'"
  ultimately have "s' = s\<lparr>rc_output := rc_output s\<rparr>" by (simp add: recorder_out_def)
  then show ?thesis by blast
next
  case (Some t)
  moreover assume "recorder_out s r = Inr s'"
  ultimately show ?thesis by (auto simp: recorder_out_def result_elims)
qed

lemma replay_record_frame:
  "replay_record env clk s ry r = Inr (ry', s') \<Longrightarrow>
     gh_record_clk s' = gh_record_clk s \<and> gh_replay_clk s' = gh_replay_clk s \<and> gh_finito s' = gh_finito s"
  by (auto simp: replay_record_def Let_def result_elims recorder_out_clone_def dest!: recorder_out_frame split: if_splits)

lemma replay_loop_frame:
  "replay_loop env clk t s ry = Inr (ry', s') \<Longrightarrow>
     gh_record_clk s' = gh_record_clk s \<and> gh_replay_clk s' = gh_replay_clk s \<and> gh_finito s' = gh_finito s"
proof (induction env clk t s ry rule: replay_loop.induct)
  case (1 env clk t s ry)
  obtain r t1 where n: "trace_next t RECORD_ANY = Inr (r, t1)"
    using "1.prems" by (auto simp: replay_loop.simps [of env clk t] bindr_eq_Inr)
  show ?case
  proof (cases "\<exists>v. r = Some v \<and> \<not> later clk v")
    case False
    with n "1.prems" show ?thesis
      by (auto simp: replay_loop.simps [of env clk t] assertr_eq_Inr split: option.splits)
  next
    case True
    then obtain v where v: "r = Some v" "\<not> later clk v" by blast
    obtain ry1 s1 t2 where x: "not_stale clk v" "replay_record env clk s ry v = Inr (ry1, s1)" "trace_advance t1 = Inr t2"
        "replay_loop env clk t2 s1 ry1 = Inr (ry', s')"
      using v n "1.prems" by (auto simp: replay_loop.simps [of env clk t] result_elims)
    show ?thesis
      using "1.IH" [OF n refl v(1) x(1) v(2) x(2) refl x(3,4)] replay_record_frame [OF x(2)] by simp
  qed
qed

lemma recorder_replay_clks:
  "recorder_replay env s clk = Inr (ry, s') \<Longrightarrow>
     gh_replay_clk s' = clk \<and> clk = gh_replay_clk s + 1 \<and> gh_record_clk s' = gh_record_clk s \<and> \<not> gh_finito s'"
  by (auto simp: recorder_replay_def recorder_replay_next_def Let_def result_elims
      dest!: replay_loop_frame split: if_splits option.splits)

lemma recorder_record_clks:
  "recorder_record env s cp clk = Inr s' \<Longrightarrow>
     gh_record_clk s' = clk \<and> gh_replay_clk s' = gh_replay_clk s \<and> gh_finito s' = gh_finito s"
  by (auto simp: recorder_record_def record_decision_def Let_def result_elims dest!: recorder_out_frame split: if_splits)

lemma update_unblocked_frame:
  "update_unblocked s = Inr s' \<Longrightarrow> sq_clk s' = sq_clk s \<and> sq_rec s' = sq_rec s \<and> sq_task s' = sq_task s"
  by (auto simp: update_unblocked_def bindr_eq_Inr)

section \<open>Lemmas: registration and choice\<close>

definition task_inv :: "taskst \<Rightarrow> bool" where
  "task_inv tk \<longleftrightarrow> tidset_inv (tk_registered tk) \<and> tidset_inv (tk_tset tk) \<and> NO_TASK \<notin> tids (tk_registered tk)"

lemma task_inv_init: "task_inv taskst_init"
  by (simp add: task_inv_def taskst_init_def)

text \<open>What the event type does to the set of registered tasks; \<open>None\<close> stands for a failed check.\<close>

definition registered_after :: "capture_point \<Rightarrow> task_id set \<Rightarrow> task_id set option" where
  "registered_after cp R =
     (if cp_type_id cp = EVENT_TASK_CREATE then Some R
      else if cp_type_id cp = EVENT_TASK_INIT then (if cp_id cp \<in> R then None else Some (insert (cp_id cp) R))
      else if cp_type_id cp = EVENT_TASK_FINI then (if cp_id cp \<in> R then Some (R - {cp_id cp}) else None)
      else Some (insert (cp_id cp) R))"

definition next_after :: "capture_point \<Rightarrow> task_id \<Rightarrow> decision \<Rightarrow> task_id" where
  "next_after cp parent e =
     (if cp_type_id cp = EVENT_TASK_CREATE then ANY_TASK
      else if cp_type_id cp = EVENT_TASK_INIT then parent else e_next e)"

lemma event_types_distinct [simp]:
  "EVENT_TASK_INIT \<noteq> EVENT_TASK_CREATE" "EVENT_TASK_FINI \<noteq> EVENT_TASK_CREATE" "EVENT_TASK_FINI \<noteq> EVENT_TASK_INIT"
  "EVENT_TASK_CREATE \<noteq> EVENT_TASK_INIT" "EVENT_TASK_CREATE \<noteq> EVENT_TASK_FINI" "EVENT_TASK_INIT \<noteq> EVENT_TASK_FINI"
  by (simp_all add: event_defs)

lemma handle_creation_spec:
  assumes "task_inv tk" and "cp_id cp \<noteq> NO_TASK" and "\<not> e_is_chpt e" and "tidset_size (e_tset e) = 0"
  shows "case registered_after cp (tids (tk_registered tk)) of
      None \<Rightarrow> handle_creation cp e tk = Inl AssertFailed
    | Some R \<Rightarrow> \<exists>e' tk'. handle_creation cp e tk = Inr (e', tk') \<and> task_inv tk' \<and>
        tids (tk_registered tk') = R \<and> tids (e_tset e') = R \<and> tidset_inv (e_tset e') \<and>
        e_next e' = next_after cp (tk_last_parent tk) e \<and>
        tk_last_parent tk' = (if cp_type_id cp = EVENT_TASK_CREATE then cp_id cp else tk_last_parent tk) \<and>
        e_clk e' = e_clk e \<and> e_unblocked e' = e_unblocked e \<and> e_replay e' = e_replay e"
proof -
  let ?r = "tk_registered tk" and ?id = "cp_id cp"
  have inv: "tidset_inv ?r" "tidset_inv (tk_tset tk)" "NO_TASK \<notin> tids ?r" using assms(1) by (auto simp: task_inv_def)
  have cp: "\<exists>ts. tidset_copy (tk_tset tk) r = Inr ts \<and> tidset_inv ts \<and> tids ts = tids r" if "tidset_inv r" for r
    using tidset_copy_inv [OF inv(2) that] by blast
  obtain r1 where r1: "tidset_insert ?r ?id = Inr (?id \<notin> tids ?r, r1)" "tidset_inv r1" "tids r1 = insert ?id (tids ?r)"
    using tidset_insert_inv [OF inv(1)] by blast
  obtain r2 where r2: "tidset_remove ?r ?id = Inr (?id \<in> tids ?r, r2)" "tidset_inv r2" "tids r2 = tids ?r - {?id}"
    using tidset_remove_inv [OF inv(1)] by blast
  consider "cp_type_id cp = EVENT_TASK_CREATE" | "cp_type_id cp = EVENT_TASK_INIT" | "cp_type_id cp = EVENT_TASK_FINI"
    | "cp_type_id cp \<notin> {EVENT_TASK_CREATE, EVENT_TASK_INIT, EVENT_TASK_FINI}" by auto
  then show ?thesis
  proof cases
    case 1
    with cp [OF inv(1)] assms inv show ?thesis
      by (auto simp: handle_creation_def registered_after_def next_after_def task_inv_def)
  next
    case 2
    with cp [OF r1(2)] r1 assms inv show ?thesis
      by (auto simp: handle_creation_def registered_after_def next_after_def task_inv_def)
  next
    case 3
    with cp [OF r2(2)] r2 assms inv show ?thesis
      by (auto simp: handle_creation_def registered_after_def next_after_def task_inv_def)
  next
    case 4
    with cp [OF r1(2)] r1 assms inv show ?thesis
      by (auto simp: handle_creation_def registered_after_def next_after_def task_inv_def)
  qed
qed

lemma tidset_get_mem:
  "tidset_inv s \<Longrightarrow> i < tidset_size s \<Longrightarrow> \<exists>t. tidset_get s i = Inr t \<and> t \<in> tids s"
  by (simp add: tidset_size_def tidset_get_wf tidset_inv_wf tids_def)

text \<open>A set of task identifiers has fewer than \<open>2 ^ 64\<close> members, so that its size fits the argument of \<^verbatim>\<open>prng_range\<close>.\<close>

lemma tidset_size_word:
  assumes "tidset_inv s" and "NO_TASK \<notin> tids s"
  shows "unat (of_nat (tidset_size s) :: 64 word) = tidset_size s"
proof -
  have "card (tids s) < card (insert NO_TASK (tids s))" using assms(2) finite_tids [of s] by simp
  also have "\<dots> \<le> card (UNIV :: 64 word set)" by (rule card_mono) simp_all
  finally have "tidset_size s < 2 ^ 64" using assms(1) by (simp add: tidset_size_card card_word)
  then show ?thesis by (rule unat_of_nat64)
qed

lemma random_candidate:
  assumes "tidset_inv s" and "NO_TASK \<notin> tids s" and "tids s \<noteq> {}"
  obtains v seed' t where "prng_range rr seed 0 (of_nat (tidset_size s)) = Inr (v, seed')" and "tidset_get s (unat v) = Inr t" and "t \<in> tids s"
proof -
  let ?n = "of_nat (tidset_size s) :: 64 word"
  have u: "unat ?n = tidset_size s" by (rule tidset_size_word [OF assms(1,2)])
  have "tidset_size s \<noteq> 0" using assms(1,3) finite_tids [of s] by (simp add: tidset_size_card)
  then have "0 < ?n" using u by (simp add: word_less_nat_alt)
  then obtain v seed' where v: "prng_range rr seed 0 ?n = Inr (v, seed')" "v < ?n" using prng_bounds [of 0 ?n rr seed] by auto
  then have "unat v < tidset_size s" using u by (simp add: word_less_nat_alt)
  from tidset_get_mem [OF assms(1) this] v(1) that show thesis by blast
qed

lemma dispatch_total:
  assumes "handle_creation cp e tk = Inr (e1, tk1)" and "env_capture env cp e1 st = Inr (e2, st2)"
    and "tidset_inv (e_tset e2)" and "NO_TASK \<notin> tids (e_tset e2)"
  shows "if \<not> e_is_chpt e2 \<and> e_next e2 \<notin> {NO_TASK, cp_id cp} then dispatch_capture_event env cp e tk st = Inl AssertFailed
    else \<exists>next e' st'. dispatch_capture_event env cp e tk st = Inr (next, e', tk1, st') \<and> e_tset e' = e_tset e2 \<and>
      (if \<not> e_is_chpt e2 then next = cp_id cp
       else if e_next e2 \<noteq> NO_TASK then next = e_next e2
       else if tids (e_tset e2) = {} then next = ANY_TASK
       else next \<in> tids (e_tset e2))"
proof -
  let ?s = "e_tset e2"
  have ne: "tidset_size ?s = 0 \<longleftrightarrow> tids ?s = {}" using tidset_size_card [OF assms(3)] finite_tids [of ?s] by simp
  show ?thesis
  proof (cases "e_is_chpt e2 \<and> e_next e2 = NO_TASK \<and> tids ?s \<noteq> {}")
    case False
    with assms(1,2) ne show ?thesis by (auto simp: dispatch_capture_event_def assertr_def)
  next
    case True
    obtain v seed t where r: "prng_range (env_rand env) (env_seed env st2) 0 (of_nat (tidset_size ?s)) = Inr (v, seed)"
        "tidset_get ?s (unat v) = Inr t" "t \<in> tids ?s"
      by (rule random_candidate [OF assms(3,4)]) (use True in auto)
    obtain u where u: "tidset_get ?s 0 = Inr u" "u \<in> tids ?s" using tidset_get_mem [OF assms(3), of 0] True ne by auto
    from True assms(1,2) ne r u show ?thesis
      by (cases "e_selector e2") (auto simp: dispatch_capture_event_def Let_def)
  qed
qed

lemma dispatch_creation:
  assumes "dispatch_capture_event env cp e tk st = Inr (next, e', tk', st')"
  shows "\<exists>e1. handle_creation cp e tk = Inr (e1, tk')"
  using assms by (auto simp: dispatch_capture_event_def result_elims Let_def split: if_splits selector.splits)

lemma creation_registered:
  assumes "handle_creation cp e tk = Inr (e1, tk1)" and "task_inv tk"
  shows "task_inv tk1 \<and> tidset_inv (e_tset e1) \<and> tids (e_tset e1) = tids (tk_registered tk1) \<and>
    registered_after cp (tids (tk_registered tk)) = Some (tids (tk_registered tk1))"
proof -
  have pre: "cp_id cp \<noteq> NO_TASK" "\<not> e_is_chpt e" "tidset_size (e_tset e) = 0"
    using assms(1) by (auto simp: handle_creation_def result_elims)
  from handle_creation_spec [OF assms(2) pre] assms(1) show ?thesis by (auto split: option.splits)
qed

section \<open>Properties\<close>

text \<open>
  Task registration: creating a task only remembers the parent; a task that starts is registered
  and control goes back to the parent, a second start of the same task fails the check; a task that
  ends is deregistered, the end of an unknown task fails the check; any other event registers its
  task. The candidates handed to the handlers are exactly the registered tasks.
\<close>

theorem handle_creation_registers:
  assumes "task_inv tk" and "cp_id cp \<noteq> NO_TASK" and "\<not> e_is_chpt e" and "tidset_size (e_tset e) = 0"
  shows "case registered_after cp (tids (tk_registered tk)) of
      None \<Rightarrow> handle_creation cp e tk = Inl AssertFailed
    | Some R \<Rightarrow> \<exists>e' tk'. handle_creation cp e tk = Inr (e', tk') \<and> task_inv tk' \<and>
        tids (tk_registered tk') = R \<and> tids (e_tset e') = R \<and>
        e_next e' = next_after cp (tk_last_parent tk) e \<and>
        tk_last_parent tk' = (if cp_type_id cp = EVENT_TASK_CREATE then cp_id cp else tk_last_parent tk)"
  using handle_creation_spec [OF assms] by (cases "registered_after cp (tids (tk_registered tk))") auto

definition sample_cp :: "type_id \<Rightarrow> bool \<Rightarrow> task_id \<Rightarrow> capture_point" where
  "sample_cp ty b tid = \<lparr>cp_chain_id = CHAIN_INGRESS_EVENT, cp_type_id = ty, cp_blocking = b, cp_id = tid,
     cp_vid = NO_TASK, cp_pc = 0, cp_func = True, cp_addr = 0\<rparr>"

theorem handle_creation_registers_witness:
  "\<exists>e' tk'. handle_creation (sample_cp EVENT_TASK_INIT False 2) zero_decision taskst_init = Inr (e', tk') \<and>
     tids (tk_registered tk') = {2} \<and> e_next e' = 1"
proof -
  let ?cp = "sample_cp EVENT_TASK_INIT False 2"
  have "cp_id ?cp \<noteq> NO_TASK" "\<not> e_is_chpt zero_decision" "tidset_size (e_tset zero_decision) = 0"
    by (simp_all add: sample_cp_def NO_TASK_def zero_decision_def zero_tidset_def tidset_size_def)
  from handle_creation_registers [OF task_inv_init this] show ?thesis
    by (auto simp: registered_after_def next_after_def sample_cp_def taskst_init_def)
qed

text \<open>
  Claim C39. The choice of the next task is total. The candidates handed to the handlers are the registered tasks. Whatever set of real tasks the
  chain of handlers leaves as candidates, the sequencer returns a task: the capturing task when no handler declared a change
  point, the task a handler demanded, any task when no candidate is left, and otherwise a member of the candidate set, with either selector; the random index
  is never outside the set. The only failing check is the one on a task that is demanded without a change point.
\<close>

theorem dispatch_picks_candidate:
  assumes "task_inv tk" and "handle_creation cp e tk = Inr (e1, tk1)" and "env_capture env cp e1 st = Inr (e2, st2)"
    and "tidset_inv (e_tset e2)" and "NO_TASK \<notin> tids (e_tset e2)"
  shows "tids (e_tset e1) = tids (tk_registered tk1) \<and>
    (if \<not> e_is_chpt e2 \<and> e_next e2 \<notin> {NO_TASK, cp_id cp} then dispatch_capture_event env cp e tk st = Inl AssertFailed
     else \<exists>next e' st'. dispatch_capture_event env cp e tk st = Inr (next, e', tk1, st') \<and> e_tset e' = e_tset e2 \<and>
      (if \<not> e_is_chpt e2 then next = cp_id cp
       else if e_next e2 \<noteq> NO_TASK then next = e_next e2
       else if tids (e_tset e2) = {} then next = ANY_TASK
       else next \<in> tids (e_tset e2)))"
  using creation_registered [OF assms(2,1)] by (intro conjI dispatch_total [OF assms(2-5)]) simp

text \<open>A chain whose handler declares every event a change point.\<close>

definition chpt_env :: "byte list env" where
  "chpt_env = plain_env\<lparr>env_capture := (\<lambda>_ e st. Inr (e\<lparr>e_is_chpt := True\<rparr>, st))\<rparr>"

theorem dispatch_picks_candidate_witness:
  "\<exists>tk1 tk2 e1 e2 st next. handle_creation (sample_cp 3 False 2) zero_decision taskst_init = Inr (e1, tk1) \<and>
     dispatch_capture_event chpt_env (sample_cp 3 False 7) zero_decision tk1 (\<lambda>_. []) = Inr (next, e2, tk2, st) \<and> next \<in> {2, 7}"
proof -
  have ty: "cp_type_id (sample_cp 3 False t) \<notin> {EVENT_TASK_CREATE, EVENT_TASK_INIT, EVENT_TASK_FINI}" for t
    by (simp add: sample_cp_def event_defs)
  have pre: "\<not> e_is_chpt zero_decision" "tidset_size (e_tset zero_decision) = 0" "e_next zero_decision = NO_TASK"
    by (simp_all add: zero_decision_def zero_tidset_def tidset_size_def)
  have cp: "cp_id (sample_cp 3 False t) = t" for t by (simp add: sample_cp_def)
  obtain e1 tk1 where 1: "handle_creation (sample_cp 3 False 2) zero_decision taskst_init = Inr (e1, tk1)" "task_inv tk1"
      "tids (tk_registered tk1) = {2}"
    using handle_creation_spec [OF task_inv_init _ pre(1,2), of "sample_cp 3 False 2"] ty [of 2] cp
    by (auto simp: registered_after_def NO_TASK_def taskst_init_def)
  obtain e2 tk2 where 2: "handle_creation (sample_cp 3 False 7) zero_decision tk1 = Inr (e2, tk2)" "tidset_inv (e_tset e2)"
      "tids (e_tset e2) = {7, 2}" "e_next e2 = NO_TASK"
    using handle_creation_spec [OF 1(2) _ pre(1,2), of "sample_cp 3 False 7"] ty [of 7] cp 1(3) pre(3)
    by (auto simp: registered_after_def next_after_def NO_TASK_def)
  have ch: "env_capture chpt_env (sample_cp 3 False 7) e2 (\<lambda>_. []) = Inr (e2\<lparr>e_is_chpt := True\<rparr>, \<lambda>_. [])" by (simp add: chpt_env_def)
  from dispatch_picks_candidate [OF 1(2) 2(1) ch] 2(2-4) obtain nx e' st' where
    "dispatch_capture_event chpt_env (sample_cp 3 False 7) zero_decision tk1 (\<lambda>_. []) = Inr (nx, e', tk2, st')" "nx \<in> {2, 7}"
    by (auto simp: NO_TASK_def)
  with 1(1) show ?thesis by blast
qed

text \<open>
  Tasks that return from a blocking call are collected without loss or duplication: a return puts
  the task into the pending set, a second return of the same task before the sequencer has taken
  notice fails the check, and the update moves exactly the pending tasks to the unblocked set,
  failing if one of them is already there.
\<close>

theorem returned_tasks_delivered_once:
  assumes "tidset_inv (sq_pending s)" and "tidset_inv (sq_unblocked s)" and "cp_blocking cp"
  shows "(if cp_id cp \<in> tids (sq_pending s) then sequencer_return s cp = Inl AssertFailed
      else \<exists>pend. sequencer_return s cp = Inr (s\<lparr>sq_pending := pend\<rparr>) \<and> tidset_inv pend \<and>
             tids pend = insert (cp_id cp) (tids (sq_pending s))) \<and>
    (if tids (sq_unblocked s) \<inter> tids (sq_pending s) = {}
      then \<exists>unb. update_unblocked s = Inr (s\<lparr>sq_unblocked := unb, sq_pending := tidset_clear (sq_pending s)\<rparr>) \<and>
        tidset_inv unb \<and> tids unb = tids (sq_unblocked s) \<union> tids (sq_pending s)
      else update_unblocked s = Inl AssertFailed)"
proof
  show "if cp_id cp \<in> tids (sq_pending s) then sequencer_return s cp = Inl AssertFailed
      else \<exists>pend. sequencer_return s cp = Inr (s\<lparr>sq_pending := pend\<rparr>) \<and> tidset_inv pend \<and>
             tids pend = insert (cp_id cp) (tids (sq_pending s))"
    using tidset_insert_inv [OF assms(1), of "cp_id cp"] assms(3)
    by (auto simp: sequencer_return_def add_pending_unblocked_def)
qed (rule update_unblocked_spec [OF assms(1,2)])

definition plain_seq :: "byte list seq" where
  "plain_seq = \<lparr>sq_clk = 0, sq_unblocked = tidset_init, sq_pending = tidset_init, sq_chpt_count = 0,
     sq_switch_count = 0, sq_last_chpt = False, sq_prev_type = 0, sq_prev_task = NO_TASK, sq_next_task = NO_TASK,
     sq_prev_blocking = False, sq_should_record = False, sq_task = taskst_init,
     sq_rec = plain_recorder None None\<rparr>"

theorem returned_tasks_delivered_once_witness:
  "\<exists>pend. sequencer_return plain_seq (sample_cp 3 True 7) = Inr (plain_seq\<lparr>sq_pending := pend\<rparr>) \<and> tids pend = {7}"
proof -
  have i: "tidset_inv (sq_pending plain_seq)" "tidset_inv (sq_unblocked plain_seq)" "cp_blocking (sample_cp 3 True 7)"
    and n: "tids (sq_pending plain_seq) = {}" "cp_id (sample_cp 3 True 7) = 7"
    by (simp_all add: plain_seq_def sample_cp_def)
  from returned_tasks_delivered_once [OF i] have "if cp_id (sample_cp 3 True 7) \<in> tids (sq_pending plain_seq)
      then sequencer_return plain_seq (sample_cp 3 True 7) = Inl AssertFailed
      else \<exists>pend. sequencer_return plain_seq (sample_cp 3 True 7) = Inr (plain_seq\<lparr>sq_pending := pend\<rparr>) \<and> tidset_inv pend \<and>
             tids pend = insert (cp_id (sample_cp 3 True 7)) (tids (sq_pending plain_seq))"
    by (rule conjunct1)
  then show ?thesis unfolding n by auto
qed

text \<open>
  The loop over the granularity bits decides as documented: with the switch granularity a change
  of task is recorded, with the change-point granularity a change point, with the capture
  granularity everything. It never meets an unknown bit for the sets of granularities that
  \<^verbatim>\<open>record_granularities_from\<close> can produce, including \<^verbatim>\<open>ANY\<close> and the invalid value.
\<close>

theorem granularity_decides:
  assumes "unat gran < 8 \<or> record_granularities_have gran RECORD_GRANULARITY_CAPTURE"
  shows "granularity_should_record gran cp e p = Inr
    (record_granularities_have gran RECORD_GRANULARITY_SWITCH \<and> p_next p \<noteq> cp_id cp \<or>
     record_granularities_have gran RECORD_GRANULARITY_CHPT \<and> e_is_chpt e \<or>
     record_granularities_have gran RECORD_GRANULARITY_CAPTURE)"
  using granularity_loop_spec [of gran "p_next p \<noteq> cp_id cp" "e_is_chpt e"] assms
  by (simp add: granularity_should_record_def granularity_defs)

theorem granularity_decides_witness:
  "granularity_should_record RECORD_GRANULARITY_ANY (sample_cp 3 False 2) zero_decision
     \<lparr>p_actions = 0, p_next = 2, p_with_slack = False, p_reason = REASON_UNKNOWN, p_replay_type = REPLAY_OFF,
      p_clk = 1, p_any_task_filter = None\<rparr> = Inr True"
proof -
  have h: "record_granularities_have RECORD_GRANULARITY_ANY RECORD_GRANULARITY_CAPTURE"
    by (simp add: record_granularities_have_def granularity_defs)
  then have "unat RECORD_GRANULARITY_ANY < 8 \<or> record_granularities_have RECORD_GRANULARITY_ANY RECORD_GRANULARITY_CAPTURE"
    by blast
  from granularity_decides [OF this] h show ?thesis by simp
qed

end
