(* ===== verification/Engine.thy ===== *)
theory Engine
  imports Sequencer
begin

text \<open>
  The engine (\<^verbatim>\<open>src/engine/engine.c\<close>): the entry points the runtime calls, guarded by the runtime
  contract, a state machine over the ghost states INIT, RESUMED, CAPTURED and FINISHED with its own
  clock and a counter of outstanding returns. The lemmas show that the contract and the state of
  sequencer and recorder run in lockstep, so that the clock assertions spread over the three files
  cannot fail, and that \<^verbatim>\<open>_check_plan\<close> accepts the plans the sequencer makes.
\<close>

section \<open>Data\<close>

datatype ghost_state = INIT | RESUMED | CAPTURED | FINISHED

record 'a engine =
  en_state :: ghost_state
  en_pending_returns :: nat
  en_running_id :: task_id
  en_clk :: clk
  en_seq :: "'a seq"

section \<open>Operations\<close>

definition engine_is_ingress_chain :: "chain_id \<Rightarrow> bool" where
  "engine_is_ingress_chain c \<longleftrightarrow> c = CHAIN_INGRESS_EVENT \<or> c = CHAIN_INGRESS_BEFORE \<or> c = CHAIN_INGRESS_AFTER"

definition check_plan :: "capture_point \<Rightarrow> plan \<Rightarrow> unit result" where
  "check_plan cp p =
     assertr (p_next p \<noteq> NO_TASK) (assertr (\<not> p_with_slack p \<or> cp_blocking cp)
       (let pure = (if p_actions p AND ACTION_SHUTDOWN \<noteq> 0 \<and> p_actions p \<noteq> ACTION_SHUTDOWN
                    then p_actions p AND NOT ACTION_SHUTDOWN else p_actions p) in
        if pure = ACTION_CONTINUE \<or> pure = ACTION_WAKE OR ACTION_YIELD OR ACTION_RESUME then
          assertr (cp_type_id cp \<noteq> EVENT_TASK_FINI) (Inr ())
        else if pure = ACTION_BLOCK OR ACTION_YIELD OR ACTION_RESUME then
          assertr (cp_type_id cp = EVENT_TASK_CREATE) (Inr ())
        else if pure = ACTION_WAKE OR ACTION_BLOCK OR ACTION_RETURN OR ACTION_YIELD OR ACTION_RESUME then
          assertr (p_replay_type p \<noteq> REPLAY_OFF \<or> p_next p \<noteq> cp_id cp) (assertr (cp_blocking cp) (Inr ()))
        else if pure = ACTION_WAKE then
          assertr (p_next p \<noteq> cp_id cp) (assertr (cp_type_id cp = EVENT_TASK_FINI) (Inr ()))
        else if pure = ACTION_SHUTDOWN then Inr ()
        else Inl Fatal))"

text \<open>
  The start event resets the ghost clocks of the recorder. \<open>seq\<close> is the state the registration phase
  has left behind.
\<close>

definition engine_init :: "'a seq \<Rightarrow> trace option \<Rightarrow> trace option \<Rightarrow> 'a engine" where
  "engine_init seq inp outp =
     \<lparr>en_state = INIT, en_pending_returns = 0, en_running_id = NO_TASK, en_clk = 0,
      en_seq = seq\<lparr>sq_rec := recorder_init (recorder_start (sq_rec seq)) inp outp\<rparr>\<rparr>"

text \<open>
  \<open>modify_rc\<close> says that the environment variable \<^verbatim>\<open>LOTTO_MODIFY_RETURN_CODE\<close> is set to 1. The result is
  the exit code of the program.
\<close>

definition engine_fini :: "'a env \<Rightarrow> bool \<Rightarrow> 'a engine \<Rightarrow> capture_point \<Rightarrow> reason \<Rightarrow> (nat \<times> 'a engine) result" where
  "engine_fini env modify_rc s cp reason =
     assertr (en_state s \<noteq> FINISHED) (assertr (cp_id cp \<noteq> NO_TASK)
       (bindr (sequencer_fini env (en_seq s) cp reason) (\<lambda>q.
          let success = reason_is_shutdown reason in
          Inr (if success then 0 else if modify_rc then 240 else 1, s\<lparr>en_state := FINISHED, en_seq := q\<rparr>))))"

text \<open>
  The ghost lock is taken with \<^verbatim>\<open>caslock_tryacquire\<close> and released before return; calls are atomic in this
  model, so it is always free.
\<close>

definition engine_capture :: "'a env \<Rightarrow> 'a engine \<Rightarrow> capture_point \<Rightarrow> (plan \<times> 'a engine) result" where
  "engine_capture env s cp =
     assertr (engine_is_ingress_chain (cp_chain_id cp))
       (assertr (en_state s \<noteq> FINISHED) (assertr (cp_func cp) (assertr (cp_id cp \<noteq> NO_TASK)
         (let s = s\<lparr>en_clk := en_clk s + 1\<rparr> in
          assertr (en_state s = RESUMED)
            (bindr (sequencer_capture env (en_seq s) cp) (\<lambda>(p, q).
               assertr (p_clk p = en_clk s)
                 (let s = s\<lparr>en_seq := q, en_state := (if plan_next p \<noteq> ACTION_CONTINUE then CAPTURED else en_state s),
                        en_pending_returns := en_pending_returns s +
                          (if plan_has p ACTION_BLOCK \<and> cp_type_id cp \<noteq> EVENT_TASK_CREATE then 1 else 0)\<rparr> in
                  assertr (en_running_id s = cp_id cp)
                    (bindr (check_plan cp p) (\<lambda>_. Inr (p, s))))))))))"

definition engine_resume :: "'a env \<Rightarrow> 'a engine \<Rightarrow> capture_point \<Rightarrow> 'a engine result" where
  "engine_resume env s cp =
     assertr (engine_is_ingress_chain (cp_chain_id cp))
       (assertr (en_state s \<noteq> FINISHED) (assertr (en_state s = INIT \<or> en_state s = CAPTURED)
         (assertr (cp_id cp \<noteq> NO_TASK)
           (let s = s\<lparr>en_state := RESUMED, en_running_id := cp_id cp\<rparr> in
            bindr (sequencer_resume env (en_seq s) cp) (\<lambda>q. Inr (s\<lparr>en_seq := q\<rparr>))))))"

definition engine_return :: "'a engine \<Rightarrow> capture_point \<Rightarrow> 'a engine result" where
  "engine_return s cp =
     assertr (engine_is_ingress_chain (cp_chain_id cp)) (assertr (cp_id cp \<noteq> NO_TASK)
       (if en_state s = FINISHED then Inr s
        else assertr (en_pending_returns s > 0)
          (let s = s\<lparr>en_pending_returns := en_pending_returns s - 1\<rparr> in
           bindr (sequencer_return (en_seq s) cp) (\<lambda>q. Inr (s\<lparr>en_seq := q\<rparr>)))))"

definition engine_set_clk :: "'a engine \<Rightarrow> clk \<Rightarrow> 'a engine" where
  "engine_set_clk s c = s\<lparr>en_clk := c\<rparr>"

section \<open>Lemmas\<close>

lemma action_bits [simp]:
  "ACTION_SHUTDOWN AND ACTION_SHUTDOWN = ACTION_SHUTDOWN"
  "(ACTION_WAKE OR ACTION_YIELD OR ACTION_RESUME) AND ACTION_SHUTDOWN = 0"
  "(ACTION_BLOCK OR ACTION_YIELD OR ACTION_RESUME) AND ACTION_SHUTDOWN = 0"
  "(ACTION_WAKE OR ACTION_BLOCK OR ACTION_RETURN OR ACTION_YIELD OR ACTION_RESUME) AND ACTION_SHUTDOWN = 0"
  "ACTION_WAKE AND ACTION_SHUTDOWN = 0"
  by (simp_all add: action_defs)

lemma check_plan_actions:
  assumes "plan_actions_for cp (p_next p) e = Inr (p_actions p)" and "p_next p \<noteq> NO_TASK"
    and "p_with_slack p \<longrightarrow> cp_blocking cp"
    and "cp_type_id cp = EVENT_TASK_FINI \<longrightarrow> p_next p \<noteq> cp_id cp"
    and "cp_blocking cp \<longrightarrow> cp_type_id cp \<notin> {EVENT_TASK_CREATE, EVENT_TASK_INIT, EVENT_TASK_FINI} \<longrightarrow>
      p_replay_type p \<noteq> REPLAY_OFF \<or> p_next p \<noteq> cp_id cp"
  shows "check_plan cp p = Inr ()"
proof -
  let ?base = "if cp_type_id cp = EVENT_TASK_CREATE then ACTION_BLOCK OR ACTION_YIELD OR ACTION_RESUME
    else if cp_type_id cp = EVENT_TASK_INIT then ACTION_WAKE OR ACTION_YIELD OR ACTION_RESUME
    else if cp_type_id cp = EVENT_TASK_FINI then ACTION_WAKE
    else if cp_blocking cp then ACTION_WAKE OR ACTION_BLOCK OR ACTION_RETURN OR ACTION_YIELD OR ACTION_RESUME
    else ACTION_WAKE OR ACTION_YIELD OR ACTION_RESUME"
  have "p_actions p = ACTION_SHUTDOWN \<or> p_actions p = ?base \<or> p_actions p = ?base OR ACTION_SHUTDOWN"
    using assms(1)
    by (auto simp: plan_actions_for_def actions_for_def result_elims split: if_splits)
  then have "p_actions p = ACTION_SHUTDOWN \<or>
      (if p_actions p AND ACTION_SHUTDOWN \<noteq> 0 \<and> p_actions p \<noteq> ACTION_SHUTDOWN
       then p_actions p AND NOT ACTION_SHUTDOWN else p_actions p) = ?base"
    by (auto simp: action_defs)
  with assms(2-5) show ?thesis
    by (auto simp: check_plan_def Let_def assertr_def action_defs split: if_splits)
qed

text \<open>The stages of a successful \<^verbatim>\<open>sequencer_capture\<close>.\<close>

lemma sequencer_captureE:
  assumes "sequencer_capture env s cp = Inr (p, s')"
  obtains ry rc s1 nx0 e tk st nx where
    "cp_id cp \<noteq> NO_TASK" and "recorder_replay env (sq_rec s) (sq_clk s + 1) = Inr (ry, rc)"
    and "update_unblocked (s\<lparr>sq_clk := sq_clk s + 1, sq_rec := rc\<rparr>) = Inr s1"
    and "dispatch_capture_event env cp (zero_decision\<lparr>e_clk := sq_clk s1, e_unblocked := sq_unblocked s1,
           e_replay := (ry_status ry \<noteq> REPLAY_DONE)\<rparr>) (sq_task s1) (rc_store (sq_rec s1)) = Inr (nx0, e, tk, st)"
    and "replay_next env st cp ry nx0 = Inr nx" and "plan_actions_for cp nx e = Inr (p_actions p)"
    and "p_next p = nx" and "p_clk p = sq_clk s1" and "p_with_slack p = (cp_blocking cp \<and> \<not> e_replay e)"
    and "p_replay_type p = (if \<not> e_replay e then REPLAY_OFF else if nx0 = ANY_TASK then REPLAY_ANY_TASK else REPLAY_ON)"
    and "sq_clk s' = sq_clk s1" and "sq_task s' = tk" and "sq_rec s' = (sq_rec s1)\<lparr>rc_store := st\<rparr>"
    and "sq_unblocked s' = tidset_clear (sq_unblocked s1)" and "sq_pending s' = sq_pending s1"
    and "sq_next_task s' = nx" and "sq_prev_task s' = cp_id cp"
  using assms that by (auto simp: sequencer_capture_def sequencer_decide_def Let_def result_elims)

lemma update_unblocked_inv:
  assumes "update_unblocked s = Inr s'" and "tidset_inv (sq_pending s)" and "tidset_inv (sq_unblocked s)"
  shows "sq_clk s' = sq_clk s \<and> sq_rec s' = sq_rec s \<and> sq_task s' = sq_task s \<and>
    tidset_inv (sq_pending s') \<and> tidset_inv (sq_unblocked s') \<and> tids (sq_pending s') = {} \<and>
    tids (sq_unblocked s') = tids (sq_unblocked s) \<union> tids (sq_pending s)"
  using update_unblocked_spec [OF assms(2,3)] assms by (auto split: if_splits)

text \<open>The invariant that ties the ghost state of the engine to sequencer and recorder.\<close>

definition seq_inv :: "'a seq \<Rightarrow> bool" where
  "seq_inv q \<longleftrightarrow> tidset_inv (sq_pending q) \<and> tidset_inv (sq_unblocked q) \<and> task_inv (sq_task q)"

definition clk_lockstep :: "'a engine \<Rightarrow> bool" where
  "clk_lockstep s \<longleftrightarrow> (let q = en_seq s; r = sq_rec q in
     en_clk s = sq_clk q \<and> gh_replay_clk r = sq_clk q \<and> gh_record_clk r \<le> sq_clk q \<and>
     (en_state s = INIT \<longrightarrow> sq_clk q = 0) \<and>
     (en_state s = CAPTURED \<longrightarrow> gh_record_clk r < sq_clk q) \<and> (gh_finito r \<longrightarrow> en_state s = FINISHED))"

lemma sequencer_capture_inv:
  assumes "sequencer_capture env q cp = Inr (p, q')" and "seq_inv q"
  shows "seq_inv q' \<and> sq_clk q' = sq_clk q + 1 \<and> p_clk p = sq_clk q' \<and> gh_replay_clk (sq_rec q') = sq_clk q' \<and>
    gh_replay_clk (sq_rec q) = sq_clk q \<and> gh_record_clk (sq_rec q') = gh_record_clk (sq_rec q) \<and>
    \<not> gh_finito (sq_rec q') \<and> tids (sq_unblocked q') = {} \<and> tids (sq_pending q') = {}"
proof -
  from assms(1) obtain ry rc s1 nx0 e tk st nx where h:
    "recorder_replay env (sq_rec q) (sq_clk q + 1) = Inr (ry, rc)"
    "update_unblocked (q\<lparr>sq_clk := sq_clk q + 1, sq_rec := rc\<rparr>) = Inr s1"
    "dispatch_capture_event env cp (zero_decision\<lparr>e_clk := sq_clk s1, e_unblocked := sq_unblocked s1,
       e_replay := (ry_status ry \<noteq> REPLAY_DONE)\<rparr>) (sq_task s1) (rc_store (sq_rec s1)) = Inr (nx0, e, tk, st)"
    "p_clk p = sq_clk s1" "sq_clk q' = sq_clk s1" "sq_task q' = tk" "sq_rec q' = (sq_rec s1)\<lparr>rc_store := st\<rparr>"
    "sq_unblocked q' = tidset_clear (sq_unblocked s1)" "sq_pending q' = sq_pending s1"
    by (elim sequencer_captureE)
  have u: "sq_clk s1 = sq_clk q + 1" "sq_rec s1 = rc" "sq_task s1 = sq_task q"
      "tidset_inv (sq_pending s1)" "tidset_inv (sq_unblocked s1)" "tids (sq_pending s1) = {}"
    using update_unblocked_inv [OF h(2)] assms(2) by (simp_all add: seq_inv_def)
  have "task_inv tk" using dispatch_creation [OF h(3)] creation_registered u(3) assms(2) by (auto simp: seq_inv_def)
  with recorder_replay_clks [OF h(1)] u h(4-9) show ?thesis by (auto simp: seq_inv_def)
qed

lemma sequencer_resume_inv:
  assumes "sequencer_resume env q cp = Inr q'" and "seq_inv q"
  shows "seq_inv q' \<and> sq_clk q' = sq_clk q \<and> gh_replay_clk (sq_rec q') = gh_replay_clk (sq_rec q) \<and>
    gh_finito (sq_rec q') = gh_finito (sq_rec q) \<and>
    (gh_record_clk (sq_rec q') = gh_record_clk (sq_rec q) \<or> 0 < sq_clk q \<and> gh_record_clk (sq_rec q') = sq_clk q)"
proof -
  obtain st where st: "env_resume env cp (rc_store (sq_rec q)) = Inr st"
    using assms(1) by (auto simp: sequencer_resume_def bindr_eq_Inr)
  let ?q = "q\<lparr>sq_rec := (sq_rec q)\<lparr>rc_store := st\<rparr>\<rparr>"
  have run: "(if sq_clk ?q = 0 then Inr ?q else if cp_id cp = 1 \<and> cp_type_id cp = 0 then Inr ?q
      else bindr (if must_record env ?q cp
                  then bindr (recorder_record env (sq_rec ?q) cp (sq_clk ?q)) (\<lambda>rc. Inr (?q\<lparr>sq_rec := rc\<rparr>))
                  else Inr ?q) update_unblocked) = Inr q'"
    using assms(1) unfolding sequencer_resume_def st bindr_simps Let_def .
  show ?thesis
  proof (cases "sq_clk q = 0 \<or> cp_id cp = 1 \<and> cp_type_id cp = 0")
    case True
    with run have "q' = ?q" by (simp split: if_splits)
    with assms(2) show ?thesis by (simp add: seq_inv_def)
  next
    case False
    with run obtain q1 where q1: "(if must_record env ?q cp
        then bindr (recorder_record env (sq_rec ?q) cp (sq_clk ?q)) (\<lambda>rc. Inr (?q\<lparr>sq_rec := rc\<rparr>)) else Inr ?q) = Inr q1"
        "update_unblocked q1 = Inr q'"
      by (auto elim!: bindrE split del: if_split)
    then have c: "q1 = ?q \<or> (\<exists>rc. recorder_record env (sq_rec ?q) cp (sq_clk q) = Inr rc \<and> q1 = ?q\<lparr>sq_rec := rc\<rparr>)"
      by (auto simp: bindr_eq_Inr split: if_splits)
    then have i: "tidset_inv (sq_pending q1)" "tidset_inv (sq_unblocked q1)" "task_inv (sq_task q1)" "sq_clk q1 = sq_clk q"
      using assms(2) by (auto simp: seq_inv_def)
    have r: "gh_replay_clk (sq_rec q1) = gh_replay_clk (sq_rec q) \<and> gh_finito (sq_rec q1) = gh_finito (sq_rec q) \<and>
        (gh_record_clk (sq_rec q1) = gh_record_clk (sq_rec q) \<or> gh_record_clk (sq_rec q1) = sq_clk q)"
      using c by (auto dest!: recorder_record_clks)
    from update_unblocked_inv [OF q1(2) i(1,2)] i(3,4) r False show ?thesis by (auto simp: seq_inv_def)
  qed
qed

lemma sequencer_return_inv:
  assumes "sequencer_return q cp = Inr q'" and "seq_inv q"
  shows "seq_inv q' \<and> sq_clk q' = sq_clk q \<and> sq_rec q' = sq_rec q"
  using assms tidset_insert_inv [of "sq_pending q" "cp_id cp"]
  by (auto simp: sequencer_return_def add_pending_unblocked_def result_elims seq_inv_def)

lemma recorder_fini_clks:
  "recorder_fini env s clk tid reason = Inr s' \<Longrightarrow>
     gh_record_clk s' = gh_record_clk s \<and> gh_replay_clk s' = gh_replay_clk s"
  by (auto simp: recorder_fini_def Let_def result_elims recorder_out_safe_same split: if_splits option.splits
      dest!: recorder_out_frame)

section \<open>Properties\<close>

inductive eng_reach :: "'a env \<Rightarrow> 'a engine \<Rightarrow> bool" for env where
  init: "seq_inv q \<Longrightarrow> sq_clk q = 0 \<Longrightarrow> eng_reach env (engine_init q i t)"
| capture: "eng_reach env s \<Longrightarrow> engine_capture env s cp = Inr (p, s') \<Longrightarrow> eng_reach env s'"
| resume: "eng_reach env s \<Longrightarrow> engine_resume env s cp = Inr s' \<Longrightarrow> eng_reach env s'"
| return: "eng_reach env s \<Longrightarrow> engine_return s cp = Inr s' \<Longrightarrow> eng_reach env s'"
| fini: "eng_reach env s \<Longrightarrow> engine_fini env b s cp reason = Inr (x, s') \<Longrightarrow> eng_reach env s'"

lemma eng_reach_seq_inv: "eng_reach env s \<Longrightarrow> seq_inv (en_seq s)"
proof (induction rule: eng_reach.induct)
  case (init q i t)
  then show ?case by (simp add: engine_init_def seq_inv_def)
next
  case (capture s cp p s')
  then show ?case by (auto simp: engine_capture_def Let_def result_elims dest!: sequencer_capture_inv)
next
  case (resume s cp s')
  then show ?case by (auto simp: engine_resume_def Let_def result_elims dest!: sequencer_resume_inv)
next
  case (return s cp s')
  then have "en_seq s' = en_seq s \<or> sequencer_return (en_seq s) cp = Inr (en_seq s')"
    by (auto simp: engine_return_def Let_def result_elims split: if_splits)
  with return.IH show ?case by (auto dest: sequencer_return_inv)
next
  case (fini s b cp reason x s')
  then show ?case by (auto simp: engine_fini_def sequencer_fini_def Let_def result_elims seq_inv_def)
qed

lemma eng_reach_lockstep: "eng_reach env s \<Longrightarrow> clk_lockstep s"
proof (induction rule: eng_reach.induct)
  case (init q i t)
  then show ?case by (simp add: engine_init_def clk_lockstep_def recorder_init_def recorder_start_def)
next
  case (capture s cp p s')
  obtain q' where q': "sequencer_capture env (en_seq s) cp = Inr (p, q')" "en_seq s' = q'" "en_clk s' = en_clk s + 1"
      "en_state s' = CAPTURED \<or> en_state s' = RESUMED"
    using capture.hyps(2) by (auto simp: engine_capture_def Let_def result_elims)
  from sequencer_capture_inv [OF q'(1) eng_reach_seq_inv [OF capture.hyps(1)]]
    capture.IH q' show ?case by (auto simp: clk_lockstep_def Let_def)
next
  case (resume s cp s')
  obtain q' where q': "sequencer_resume env (en_seq s) cp = Inr q'" "en_seq s' = q'" "en_clk s' = en_clk s"
      "en_state s' = RESUMED" "en_state s \<noteq> FINISHED"
    using resume.hyps(2) by (auto simp: engine_resume_def Let_def result_elims)
  from sequencer_resume_inv [OF q'(1) eng_reach_seq_inv [OF resume.hyps(1)]]
    resume.IH q' show ?case by (auto simp: clk_lockstep_def Let_def)
next
  case (return s cp s')
  then have "en_state s' = en_state s" "en_clk s' = en_clk s" "sq_clk (en_seq s') = sq_clk (en_seq s)"
      "sq_rec (en_seq s') = sq_rec (en_seq s)"
    by (auto simp: engine_return_def sequencer_return_def add_pending_unblocked_def Let_def result_elims split: if_splits)
  with return.IH show ?case by (simp add: clk_lockstep_def Let_def)
next
  case (fini s b cp reason x s')
  then obtain rc where "recorder_fini env (sq_rec (en_seq s)) (sq_clk (en_seq s)) (cp_id cp) reason = Inr rc"
      "s' = s\<lparr>en_state := FINISHED, en_seq := (en_seq s)\<lparr>sq_rec := rc\<rparr>\<rparr>"
    by (auto simp: engine_fini_def sequencer_fini_def Let_def result_elims)
  with fini.IH recorder_fini_clks show ?case by (fastforce simp: clk_lockstep_def Let_def)
qed

section \<open>The engine without clock checks\<close>

text \<open>
  The same calls with every assertion on a clock and on the end of the recording left out; the ghost clocks are set instead of checked.
\<close>

definition replay_unclocked :: "'a env \<Rightarrow> 'a recorder \<Rightarrow> clk \<Rightarrow> (replay \<times> 'a recorder) result" where
  "replay_unclocked env r clk =
     (let r = r\<lparr>gh_replay_clk := clk\<rparr> in
      if rc_input r = None then Inr (\<lparr>ry_status = REPLAY_DONE, ry_id = NO_TASK\<rparr>, r) else recorder_replay_next env r clk)"

definition sequencer_capture_unclocked :: "'a env \<Rightarrow> 'a seq \<Rightarrow> capture_point \<Rightarrow> (plan \<times> 'a seq) result" where
  "sequencer_capture_unclocked env q cp =
     (let q = q\<lparr>sq_clk := sq_clk q + 1\<rparr> in
      bindr (replay_unclocked env (sq_rec q) (sq_clk q)) (\<lambda>(ry, rc). sequencer_decide env (q\<lparr>sq_rec := rc\<rparr>) cp ry))"

definition sequencer_resume_unclocked :: "'a env \<Rightarrow> 'a seq \<Rightarrow> capture_point \<Rightarrow> 'a seq result" where
  "sequencer_resume_unclocked env s cp =
     bindr (env_resume env cp (rc_store (sq_rec s))) (\<lambda>st.
       let s = s\<lparr>sq_rec := (sq_rec s)\<lparr>rc_store := st\<rparr>\<rparr> in
       if sq_clk s = 0 then Inr s
       else if cp_id cp = 1 \<and> cp_type_id cp = 0 then Inr s
       else bindr (if must_record env s cp
                   then bindr (record_decision env ((sq_rec s)\<lparr>gh_record_clk := sq_clk s\<rparr>) cp (sq_clk s)) (\<lambda>rc. Inr (s\<lparr>sq_rec := rc\<rparr>))
                   else Inr s) update_unblocked)"

definition engine_capture_unclocked :: "'a env \<Rightarrow> 'a engine \<Rightarrow> capture_point \<Rightarrow> (plan \<times> 'a engine) result" where
  "engine_capture_unclocked env s cp =
     bindr (sequencer_capture_unclocked env (en_seq s) cp) (\<lambda>(p, q). bindr (check_plan cp p) (\<lambda>_.
       Inr (p, s\<lparr>en_clk := sq_clk q, en_seq := q, en_state := (if plan_next p \<noteq> ACTION_CONTINUE then CAPTURED else en_state s),
         en_pending_returns := en_pending_returns s + (if plan_has p ACTION_BLOCK \<and> cp_type_id cp \<noteq> EVENT_TASK_CREATE then 1 else 0)\<rparr>)))"

lemma sequencer_decide_clk: "sequencer_decide env s cp ry = Inr (p, q) \<Longrightarrow> p_clk p = sq_clk s \<and> sq_clk q = sq_clk s"
  by (auto simp: sequencer_decide_def Let_def result_elims dest!: update_unblocked_frame)

lemma sequencer_capture_clk:
  "sequencer_capture_unclocked env q cp = Inr (p, q') \<Longrightarrow> p_clk p = sq_clk q + 1 \<and> sq_clk q' = sq_clk q + 1"
  by (auto simp: sequencer_capture_unclocked_def Let_def bindr_eq_Inr dest!: sequencer_decide_clk)

lemma sequencer_capture_transparent:
  assumes "gh_replay_clk (sq_rec q) = sq_clk q" and "\<not> gh_finito (sq_rec q)" and "cp_id cp \<noteq> NO_TASK"
  shows "sequencer_capture env q cp = sequencer_capture_unclocked env q cp"
  using assms
  by (simp add: sequencer_capture_def sequencer_capture_unclocked_def replay_unclocked_def recorder_replay_def)

lemma sequencer_resume_transparent:
  assumes "gh_replay_clk (sq_rec q) = sq_clk q" and "\<not> gh_finito (sq_rec q)" and "cp_id cp \<noteq> NO_TASK"
    and "sq_clk q \<noteq> 0 \<Longrightarrow> gh_record_clk (sq_rec q) < sq_clk q"
  shows "sequencer_resume env q cp = sequencer_resume_unclocked env q cp"
proof -
  have "recorder_record env ((sq_rec q)\<lparr>rc_store := st\<rparr>) cp (sq_clk q) =
      record_decision env ((sq_rec q)\<lparr>rc_store := st, gh_record_clk := sq_clk q\<rparr>) cp (sq_clk q)" if "sq_clk q \<noteq> 0" for st
    using that assms by (simp add: recorder_record_def)
  then show ?thesis unfolding sequencer_resume_def sequencer_resume_unclocked_def Let_def by (intro bindr_cong refl) simp
qed


lemma seq_inv_plain: "seq_inv plain_seq"
  by (simp add: seq_inv_def plain_seq_def task_inv_init)

text \<open>A run that records every event: the first task starts, is captured and resumed, and is captured again.\<close>

definition recording_env :: "byte list env" where
  "recording_env = plain_env\<lparr>env_gran := (\<lambda>_. RECORD_GRANULARITY_CAPTURE)\<rparr>"

definition sample_run :: "byte list engine result" where
  "sample_run =
     bindr (engine_resume recording_env (engine_init plain_seq None (Some empty_flat)) (sample_cp 3 False 2)) (\<lambda>s.
     bindr (engine_capture recording_env s (sample_cp 3 False 2)) (\<lambda>(_, s).
     engine_resume recording_env s (sample_cp 3 False 2)))"

lemma sample_run_reach: "sample_run = Inr s \<Longrightarrow> eng_reach recording_env s"
proof -
  assume "sample_run = Inr s"
  then obtain s1 s2 p where r: "engine_resume recording_env (engine_init plain_seq None (Some empty_flat)) (sample_cp 3 False 2) = Inr s1"
      "engine_capture recording_env s1 (sample_cp 3 False 2) = Inr (p, s2)" "engine_resume recording_env s2 (sample_cp 3 False 2) = Inr s"
    by (auto simp: sample_run_def bindr_eq_Inr)
  have "eng_reach recording_env (engine_init plain_seq None (Some empty_flat))"
    by (rule eng_reach.init [OF seq_inv_plain]) (simp add: plain_seq_def)
  from eng_reach.resume [OF eng_reach.capture [OF eng_reach.resume [OF this r(1)] r(2)] r(3)] show ?thesis .
qed

lemma sample_run_state:
  "case sample_run of Inl _ \<Rightarrow> False
   | Inr s \<Rightarrow> en_state s = RESUMED \<and> en_running_id s = 2 \<and> en_clk s = 1 \<and> gh_record_clk (sq_rec (en_seq s)) = 1 \<and>
       (case engine_capture_unclocked recording_env s (sample_cp 3 False 2) of Inl _ \<Rightarrow> False | Inr (p, s') \<Rightarrow> en_clk s' = 2)"
  by code_simp


text \<open>
  Claim C4. \<^verbatim>\<open>_check_plan\<close> accepts every plan \<^verbatim>\<open>sequencer_capture\<close> returns, on all branches including the
  combinations with a shutdown, provided the chosen task is a real choice: not the null task, not the
  ending task itself, and not the task that is about to block unless the choice was replayed.
\<close>

theorem engine_plan_accepted:
  assumes "sequencer_capture env q cp = Inr (p, q')" and "p_next p \<noteq> NO_TASK"
    and "cp_type_id cp = EVENT_TASK_FINI \<longrightarrow> p_next p \<noteq> cp_id cp"
    and "cp_blocking cp \<longrightarrow> p_replay_type p = REPLAY_OFF \<longrightarrow> p_next p \<noteq> cp_id cp"
  shows "check_plan cp p = Inr ()"
proof -
  from assms(1) obtain e where "plan_actions_for cp (p_next p) e = Inr (p_actions p)" "p_with_slack p \<longrightarrow> cp_blocking cp"
    by (elim sequencer_captureE) simp
  from check_plan_actions [OF this(1) assms(2) this(2) assms(3)] assms(4) show ?thesis by blast
qed

lemma plain_capture:
  "case sequencer_capture plain_env plain_seq (sample_cp 3 False 2) of Inl _ \<Rightarrow> False
   | Inr (p, _) \<Rightarrow> p_next p = 2 \<and> p_actions p = ACTION_WAKE OR ACTION_YIELD OR ACTION_RESUME"
  by code_simp

theorem engine_plan_accepted_witness:
  "\<exists>p q'. sequencer_capture plain_env plain_seq (sample_cp 3 False 2) = Inr (p, q') \<and>
     check_plan (sample_cp 3 False 2) p = Inr ()"
proof -
  obtain p q' where run: "sequencer_capture plain_env plain_seq (sample_cp 3 False 2) = Inr (p, q')" and n: "p_next p = 2"
    using plain_capture by (auto split: sum.splits)
  have "p_next p \<noteq> NO_TASK" "cp_type_id (sample_cp 3 False 2) = EVENT_TASK_FINI \<longrightarrow> p_next p \<noteq> cp_id (sample_cp 3 False 2)"
      "cp_blocking (sample_cp 3 False 2) \<longrightarrow> p_replay_type p = REPLAY_OFF \<longrightarrow> p_next p \<noteq> cp_id (sample_cp 3 False 2)"
    using n by (simp_all add: NO_TASK_def sample_cp_def event_defs)
  from engine_plan_accepted [OF run this] run show ?thesis by blast
qed

end
