(* ===== verification/Mutex.thy ===== *)
theory Mutex
  imports Capture
begin

text \<open>
  The mutex module, \<^verbatim>\<open>modules/mutex/src/handler.c\<close>: a map from mutex addresses to owner, recursion count
  and waiting tasks. The capture handler queues the task of an acquire event and removes from the
  candidate set every task that waits for an owned mutex; the resume subscriber takes and releases
  ownership.

  Every access to an item goes through its address in the key map, a write through an item pointer is
  \<open>map_write\<close>. \<open>mutex_step\<close> is the protocol in which the engine calls the two entry points, with the
  locks each task holds as ghost state; mutual exclusion and the absence of failing assertions are
  proved for all its runs.
\<close>

section \<open>Data\<close>

record mtx =
  mtx_waiters :: tidset
  mtx_owner :: task_id
  mtx_count :: int

record handler_mutex =
  hm_mutexes :: "mtx map_t"
  hm_waiters :: tidset

record mutex_config =
  mc_deadlock_check :: bool
  mc_strict :: bool

definition EVENT_MUTEX_ACQUIRE :: type_id where "EVENT_MUTEX_ACQUIRE = 142"
definition EVENT_MUTEX_TRYACQUIRE :: type_id where "EVENT_MUTEX_TRYACQUIRE = 143"
definition EVENT_MUTEX_RELEASE :: type_id where "EVENT_MUTEX_RELEASE = 144"

lemmas mutex_event_defs = EVENT_MUTEX_ACQUIRE_def EVENT_MUTEX_TRYACQUIRE_def EVENT_MUTEX_RELEASE_def

definition zero_mtx :: mtx where
  "zero_mtx = \<lparr>mtx_waiters = zero_tidset, mtx_owner = NO_TASK, mtx_count = 0\<rparr>"

definition mutex_state_init :: handler_mutex where
  "mutex_state_init = \<lparr>hm_mutexes = map_init, hm_waiters = tidset_init\<rparr>"

definition mutex_event_addr :: "capture_point \<Rightarrow> 64 word result" where
  "mutex_event_addr cp =
     (if cp_type_id cp \<in> {EVENT_MUTEX_ACQUIRE, EVENT_MUTEX_TRYACQUIRE, EVENT_MUTEX_RELEASE}
      then Inr (cp_addr cp) else Inl AssertFailed)"

section \<open>Operations\<close>

text \<open>The loop of \<^verbatim>\<open>_check_deadlock\<close> that looks for the mutex a task waits for.\<close>

fun mutex_waited_by :: "(64 word \<times> mtx) list \<Rightarrow> task_id \<Rightarrow> 64 word option result" where
  "mutex_waited_by [] t = Inr None"
| "mutex_waited_by (it # its) t =
     bindr (tidset_has (mtx_waiters (snd it)) t) (\<lambda>h.
       if h then Inr (Some (fst it)) else mutex_waited_by its t)"

text \<open>
  \<^verbatim>\<open>_check_deadlock\<close> follows the wait chain; it ends when the chain ends or comes back to the task it
  was started for. \<^term>\<open>None\<close> stands for a recursion that does not end.
\<close>

partial_function (option) mutex_check_deadlock ::
  "handler_mutex \<Rightarrow> task_id \<Rightarrow> 64 word \<Rightarrow> task_id \<Rightarrow> bool result option" where
  "mutex_check_deadlock st waiter key cycle =
     (if waiter = NO_TASK then Some (Inl AssertFailed)
      else if cycle = waiter then Some (Inr True)
      else case map_find (hm_mutexes st) key of
        None \<Rightarrow> Some (Inl Fault)
      | Some m \<Rightarrow>
          if mtx_owner m = NO_TASK \<or> mtx_owner m = waiter then Some (Inl AssertFailed)
          else case tidset_has (hm_waiters st) (mtx_owner m) of
            Inl err \<Rightarrow> Some (Inl err)
          | Inr h \<Rightarrow>
              if \<not> h then Some (Inr False)
              else case mutex_waited_by (map_iterate (hm_mutexes st)) (mtx_owner m) of
                Inl err \<Rightarrow> Some (Inl err)
              | Inr None \<Rightarrow> Some (Inl AssertFailed)
              | Inr (Some k) \<Rightarrow>
                  mutex_check_deadlock st (mtx_owner m) k (if cycle = NO_TASK then waiter else cycle))"

definition mutex_init :: "handler_mutex \<Rightarrow> 64 word \<Rightarrow> (mtx \<times> handler_mutex) result" where
  "mutex_init st addr =
     (case map_find (hm_mutexes st) addr of
        Some m \<Rightarrow> Inr (m, st)
      | None \<Rightarrow>
          bindr (map_register zero_mtx (hm_mutexes st) addr) (\<lambda>ms.
            let m = \<lparr>mtx_waiters = tidset_init, mtx_owner = NO_TASK, mtx_count = 0\<rparr>
            in Inr (m, st\<lparr>hm_mutexes := map_write ms addr m\<rparr>)))"

fun mutex_remove_waiters_loop ::
  "(64 word \<times> mtx) list \<Rightarrow> tidset \<Rightarrow> task_id \<Rightarrow> bool \<Rightarrow> (bool \<times> tidset) result" where
  "mutex_remove_waiters_loop [] tset self should_wait = Inr (should_wait, tset)"
| "mutex_remove_waiters_loop (it # its) tset self should_wait =
     (if mtx_owner (snd it) = NO_TASK then mutex_remove_waiters_loop its tset self should_wait
      else bindr (tidset_subtract tset (mtx_waiters (snd it))) (\<lambda>tset'.
           bindr (tidset_has (mtx_waiters (snd it)) self) (\<lambda>h.
             mutex_remove_waiters_loop its tset' self (should_wait \<or> h))))"

definition mutex_remove_waiters :: "handler_mutex \<Rightarrow> tidset \<Rightarrow> task_id \<Rightarrow> (bool \<times> tidset) result" where
  "mutex_remove_waiters st tset self =
     mutex_remove_waiters_loop (map_iterate (hm_mutexes st)) tset self False"

fun mutex_should_wait_loop :: "(64 word \<times> mtx) list \<Rightarrow> task_id \<Rightarrow> bool result" where
  "mutex_should_wait_loop [] t = Inr False"
| "mutex_should_wait_loop (it # its) t =
     (if mtx_owner (snd it) = NO_TASK then mutex_should_wait_loop its t
      else bindr (tidset_has (mtx_waiters (snd it)) t) (\<lambda>h.
        if h then Inr True else mutex_should_wait_loop its t))"

definition mutex_should_wait :: "handler_mutex \<Rightarrow> task_id \<Rightarrow> bool result" where
  "mutex_should_wait st t = mutex_should_wait_loop (map_iterate (hm_mutexes st)) t"

text \<open>The item pointer \<open>mtx\<close> of the C functions: the item at \<open>addr\<close> gets the new payload.\<close>

definition mutex_store :: "handler_mutex \<Rightarrow> 64 word \<Rightarrow> mtx \<Rightarrow> handler_mutex" where
  "mutex_store st addr m = st\<lparr>hm_mutexes := map_write (hm_mutexes st) addr m\<rparr>"

definition mutex_posthandle_tryacquire ::
  "handler_mutex \<Rightarrow> task_id \<Rightarrow> 64 word \<Rightarrow> (int \<times> handler_mutex) result" where
  "mutex_posthandle_tryacquire st t addr =
     bindr (tidset_has (hm_waiters st) t) (\<lambda>w. assertr (\<not> w)
       (bindr (mutex_init st addr) (\<lambda>(m, st).
          assertr (mtx_owner m = NO_TASK \<longrightarrow> mtx_count m = 0)
            (let m = (if mtx_owner m = NO_TASK then m\<lparr>mtx_owner := t\<rparr> else m) in
             if mtx_owner m = t
             then Inr (0, mutex_store st addr (m\<lparr>mtx_count := mtx_count m + 1\<rparr>))
             else Inr (EBUSY, st)))))"

definition mutex_handle_acquire :: "handler_mutex \<Rightarrow> task_id \<Rightarrow> 64 word \<Rightarrow> handler_mutex result" where
  "mutex_handle_acquire st t addr =
     bindr (tidset_has (hm_waiters st) t) (\<lambda>w. assertr (\<not> w)
       (bindr (mutex_init st addr) (\<lambda>(m, st).
          if mtx_owner m = t then Inr st
          else bindr (tidset_insert (mtx_waiters m) t) (\<lambda>(ok, ws).
            assertr ok (Inr (mutex_store st addr (m\<lparr>mtx_waiters := ws\<rparr>)))))))"

definition mutex_posthandle_acquire :: "handler_mutex \<Rightarrow> task_id \<Rightarrow> 64 word \<Rightarrow> handler_mutex result" where
  "mutex_posthandle_acquire st t addr =
     bindr (tidset_has (hm_waiters st) t) (\<lambda>w. assertr (\<not> w)
       (bindr (mutex_init st addr) (\<lambda>(m, st).
          bindr (if mtx_owner m = NO_TASK
                 then assertr (mtx_count m = 0)
                   (bindr (tidset_remove (mtx_waiters m) t) (\<lambda>(ok, ws).
                      assertr ok (Inr (m\<lparr>mtx_owner := t, mtx_waiters := ws\<rparr>))))
                 else Inr m) (\<lambda>m.
            assertr (mtx_owner m = t)
              (Inr (mutex_store st addr (m\<lparr>mtx_count := mtx_count m + 1\<rparr>)))))))"

text \<open>A release by a task that is not the owner is logged and carried out.\<close>

definition mutex_posthandle_release ::
  "mutex_config \<Rightarrow> handler_mutex \<Rightarrow> task_id \<Rightarrow> 64 word \<Rightarrow> handler_mutex result" where
  "mutex_posthandle_release cfg st t addr =
     (case map_find (hm_mutexes st) addr of
        None \<Rightarrow> if mc_strict cfg then Inl Fatal else Inr st
      | Some m \<Rightarrow>
          assertr (mtx_count m > 0)
            (let m = m\<lparr>mtx_count := mtx_count m - 1\<rparr> in
             if mtx_count m > 0 then Inr (mutex_store st addr m)
             else let m = m\<lparr>mtx_owner := NO_TASK\<rparr> in
               assertr (mtx_count m = 0)
                 (if tidset_size (mtx_waiters m) = 0
                  then Inr (st\<lparr>hm_mutexes := map_deregister (hm_mutexes st) addr\<rparr>)
                  else Inr (mutex_store st addr m))))"

definition mutex_strict_check_release :: "mutex_config \<Rightarrow> handler_mutex \<Rightarrow> 64 word \<Rightarrow> unit result" where
  "mutex_strict_check_release cfg st addr =
     (if \<not> mc_strict cfg then Inr ()
      else if map_find (hm_mutexes st) addr \<noteq> None then Inr ()
      else Inl Fatal)"

text \<open>The \<^verbatim>\<open>switch\<close> of \<^verbatim>\<open>_mutex_handle\<close>.\<close>

definition mutex_handle_event ::
  "capture_point \<Rightarrow> decision \<Rightarrow> handler_mutex \<Rightarrow> (decision \<times> handler_mutex) result" where
  "mutex_handle_event cp e st =
     (if cp_type_id cp = EVENT_MUTEX_ACQUIRE then
        bindr (mutex_event_addr cp) (\<lambda>a.
        bindr (mutex_handle_acquire st (cp_id cp) a) (\<lambda>st.
        assertr (e_any_task_filter e = None)
          (Inr (e\<lparr>e_any_task_filter := Some MUTEX_SHOULD_WAIT, e_is_chpt := True\<rparr>, st))))
      else if cp_type_id cp = EVENT_MUTEX_TRYACQUIRE \<or> cp_type_id cp = EVENT_MUTEX_RELEASE
      then Inr (e\<lparr>e_is_chpt := True\<rparr>, st)
      else Inr (e, st))"

definition mutex_handle :: "mutex_config \<Rightarrow> capture_point \<Rightarrow> decision \<Rightarrow> handler_mutex \<Rightarrow>
    (decision \<times> handler_mutex) result option" where
  "mutex_handle cfg cp e st =
     (if e_skip e then Some (Inr (e, st))
      else if cp_id cp = NO_TASK then Some (Inl AssertFailed)
      else case
        bindr (mutex_handle_event cp e st) (\<lambda>(e, st).
        bindr (mutex_remove_waiters st (e_tset e) (cp_id cp)) (\<lambda>(should_wait, tset).
        bindr (if cp_type_id cp = EVENT_MUTEX_RELEASE
               then bindr (mutex_event_addr cp) (\<lambda>a. mutex_strict_check_release cfg st a)
               else Inr ()) (\<lambda>_.
          Inr (should_wait, e\<lparr>e_tset := tset\<rparr>, st)))) of
        Inl err \<Rightarrow> Some (Inl err)
      | Inr (should_wait, e, st) \<Rightarrow>
          if cp_type_id cp \<noteq> 0 \<and> should_wait \<and> mc_deadlock_check cfg then
            (case mutex_event_addr cp of
               Inl err \<Rightarrow> Some (Inl err)
             | Inr a \<Rightarrow>
                 map_option (\<lambda>r. bindr r (\<lambda>d.
                   Inr (if d then e\<lparr>e_reason := REASON_RSRC_DEADLOCK\<rparr> else e, st)))
                   (mutex_check_deadlock st (cp_id cp) a NO_TASK))
          else Some (Inr (e, st)))"

text \<open>The resume subscriber; the first component is the value written to \<^verbatim>\<open>ret\<close> of a try event.\<close>

definition mutex_resume :: "mutex_config \<Rightarrow> capture_point \<Rightarrow> handler_mutex \<Rightarrow>
    (int option \<times> handler_mutex) result" where
  "mutex_resume cfg cp st =
     (if cp_type_id cp = EVENT_MUTEX_ACQUIRE then
        bindr (mutex_event_addr cp) (\<lambda>a.
        bindr (mutex_posthandle_acquire st (cp_id cp) a) (\<lambda>st. Inr (None, st)))
      else if cp_type_id cp = EVENT_MUTEX_TRYACQUIRE then
        bindr (mutex_event_addr cp) (\<lambda>a.
        bindr (mutex_posthandle_tryacquire st (cp_id cp) a) (\<lambda>(r, st). Inr (Some r, st)))
      else if cp_type_id cp = EVENT_MUTEX_RELEASE then
        bindr (mutex_event_addr cp) (\<lambda>a.
        bindr (mutex_posthandle_release cfg st (cp_id cp) a) (\<lambda>st. Inr (None, st)))
      else Inr (None, st))"

definition mutex_owner :: "handler_mutex \<Rightarrow> 64 word \<Rightarrow> task_id" where
  "mutex_owner st addr =
     (case map_find (hm_mutexes st) addr of None \<Rightarrow> NO_TASK | Some m \<Rightarrow> mtx_owner m)"

definition lotto_dbg_mutex_owner :: "handler_mutex \<Rightarrow> 64 word \<Rightarrow> task_id" where
  "lotto_dbg_mutex_owner st addr =
     (case map_find (hm_mutexes st) addr of None \<Rightarrow> NO_TASK | Some m \<Rightarrow> mtx_owner m)"

definition lotto_dbg_mutex_waiters :: "handler_mutex \<Rightarrow> tidset" where
  "lotto_dbg_mutex_waiters st = hm_waiters st"

definition lotto_dbg_mutex_waiters_of :: "handler_mutex \<Rightarrow> 64 word \<Rightarrow> tidset option" where
  "lotto_dbg_mutex_waiters_of st addr = map_option mtx_waiters (map_find (hm_mutexes st) addr)"

section \<open>Invariant\<close>

abbreviation mlook :: "handler_mutex \<Rightarrow> 64 word \<Rightarrow> mtx option" where
  "mlook st \<equiv> map_find (hm_mutexes st)"

definition fresh_mtx :: mtx where
  "fresh_mtx = \<lparr>mtx_waiters = tidset_init, mtx_owner = NO_TASK, mtx_count = 0\<rparr>"

text \<open>
  A mutex of the map is owned exactly when its recursion count is positive, and one that nobody owns
  has a waiting task: unused mutexes do not stay in the map.
\<close>

definition mtx_ok :: "mtx \<Rightarrow> bool" where
  "mtx_ok m \<longleftrightarrow> tidset_inv (mtx_waiters m) \<and> mtx_count m \<ge> 0 \<and> (mtx_owner m = NO_TASK \<longleftrightarrow> mtx_count m = 0) \<and>
     (mtx_owner m = NO_TASK \<longrightarrow> tids (mtx_waiters m) \<noteq> {})"

definition mutex_base :: "handler_mutex \<Rightarrow> bool" where
  "mutex_base st \<longleftrightarrow> map_inv (hm_mutexes st) \<and> tidset_inv (hm_waiters st) \<and> tids (hm_waiters st) = {}"

definition mutex_inv :: "handler_mutex \<Rightarrow> bool" where
  "mutex_inv st \<longleftrightarrow> mutex_base st \<and> list_all (\<lambda>it. mtx_ok (snd it)) (map_iterate (hm_mutexes st))"

text \<open>The tasks that wait for a mutex somebody owns.\<close>

definition mutex_blocked :: "handler_mutex \<Rightarrow> task_id set" where
  "mutex_blocked st = {t. \<exists>a m. mlook st a = Some m \<and> mtx_owner m \<noteq> NO_TASK \<and> t \<in> tids (mtx_waiters m)}"

lemma mutex_inv_alt:
  "mutex_inv st \<longleftrightarrow> mutex_base st \<and> (\<forall>a m. mlook st a = Some m \<longrightarrow> mtx_ok m)"
  by (auto simp: mutex_inv_def mutex_base_def list_all_iterate)

lemma mutex_inv_base: "mutex_inv st \<Longrightarrow> mutex_base st"
  by (simp add: mutex_inv_def)

lemma mutex_inv_ok: "mutex_inv st \<Longrightarrow> mlook st a = Some m \<Longrightarrow> mtx_ok m"
  by (auto simp: mutex_inv_alt)

lemma mutex_inv_state_init [simp]: "mutex_inv mutex_state_init"
  by (simp add: mutex_inv_alt mutex_base_def mutex_state_init_def)

lemma mlook_state_init [simp]: "mlook mutex_state_init a = None"
  by (simp add: mutex_state_init_def)

lemma mutex_base_no_waiter: "mutex_base st \<Longrightarrow> tidset_has (hm_waiters st) t = Inr False"
  by (simp add: mutex_base_def tidset_has_inv)

lemma mutex_base_store [simp]: "mutex_base (mutex_store st a m) = mutex_base st"
  by (simp add: mutex_base_def mutex_store_def)

lemma mlook_store: "mlook st a \<noteq> None \<Longrightarrow> mlook (mutex_store st a m) = (mlook st)(a \<mapsto> m)"
  by (auto simp: mutex_store_def map_find_write)

lemma mutex_inv_upd:
  "mutex_inv st \<Longrightarrow> mutex_base st' \<Longrightarrow> mlook st' = (mlook st)(a \<mapsto> m) \<Longrightarrow> mtx_ok m \<Longrightarrow> mutex_inv st'"
  by (auto simp: mutex_inv_alt)

section \<open>The operations on the abstract map\<close>

lemma mutex_init_total:
  assumes "mutex_base st"
  obtains st' where "mutex_init st a = Inr (case mlook st a of Some m \<Rightarrow> m | None \<Rightarrow> fresh_mtx, st')"
    and "mutex_base st'"
    and "mlook st' = (mlook st)(a \<mapsto> (case mlook st a of Some m \<Rightarrow> m | None \<Rightarrow> fresh_mtx))"
proof -
  let ?m = "case mlook st a of Some m \<Rightarrow> m | None \<Rightarrow> fresh_mtx"
  have "map_inv (hm_mutexes st)" using assms by (simp add: mutex_base_def)
  from km.ensure_total [OF this, of zero_mtx a fresh_mtx] obtain ms where
    ms: "km.ensure zero_mtx (hm_mutexes st) a fresh_mtx = Inr ms" "map_inv ms" "map_find ms = (mlook st)(a \<mapsto> ?m)"
    by blast
  have "mutex_init st a = bindr (km.ensure zero_mtx (hm_mutexes st) a fresh_mtx)
      (\<lambda>ms. Inr (?m, st\<lparr>hm_mutexes := ms\<rparr>))"
    by (cases "mlook st a"; cases "map_register zero_mtx (hm_mutexes st) a")
      (simp_all add: mutex_init_def km.ensure_def fresh_mtx_def Let_def)
  with ms assms that [of "st\<lparr>hm_mutexes := ms\<rparr>"] show ?thesis by (simp add: mutex_base_def)
qed

lemma mutex_handle_acquire_owned:
  assumes "mutex_inv st" and "mlook st a = Some m" and "mtx_owner m = t"
  shows "mutex_handle_acquire st t a = Inr st"
  using assms by (simp add: mutex_handle_acquire_def mutex_init_def mutex_base_no_waiter mutex_inv_base)

lemma fresh_mtx_simps [simp]:
  "mtx_owner fresh_mtx = NO_TASK" "mtx_count fresh_mtx = 0" "mtx_waiters fresh_mtx = tidset_init"
  by (simp_all add: fresh_mtx_def)

lemma mutex_handle_acquire_waits:
  assumes inv: "mutex_inv st" and t: "t \<noteq> NO_TASK"
    and m: "m = (case mlook st a of Some m \<Rightarrow> m | None \<Rightarrow> fresh_mtx)"
    and no: "mtx_owner m \<noteq> t" and nw: "t \<notin> tids (mtx_waiters m)"
  obtains st' ws where "mutex_handle_acquire st t a = Inr st'" and "mutex_base st'"
    and "mlook st' = (mlook st)(a \<mapsto> m\<lparr>mtx_waiters := ws\<rparr>)"
    and "tidset_inv ws" and "tids ws = insert t (tids (mtx_waiters m))"
proof -
  obtain st1 where i: "mutex_init st a = Inr (m, st1)" and b: "mutex_base st1"
    and l: "mlook st1 = (mlook st)(a \<mapsto> m)"
    using mutex_init_total [OF mutex_inv_base [OF inv], of a] m by metis
  have "tidset_inv (mtx_waiters m)"
    using m mutex_inv_ok [OF inv] by (auto simp: mtx_ok_def split: option.splits)
  from tidset_insert_inv [OF this, of t] nw obtain ws where
    w: "tidset_insert (mtx_waiters m) t = Inr (True, ws)" "tidset_inv ws"
       "tids ws = insert t (tids (mtx_waiters m))" by auto
  show ?thesis
  proof (rule that [of "mutex_store st1 a (m\<lparr>mtx_waiters := ws\<rparr>)" ws])
    show "mutex_handle_acquire st t a = Inr (mutex_store st1 a (m\<lparr>mtx_waiters := ws\<rparr>))"
      using i w no by (simp add: mutex_handle_acquire_def mutex_base_no_waiter mutex_inv_base inv)
  qed (use b l w in \<open>auto simp: mlook_store\<close>)
qed

text \<open>A task that is already queued for the mutex stops the program.\<close>

lemma mutex_handle_acquire_twice:
  assumes inv: "mutex_inv st" and "mlook st a = Some m" and "mtx_owner m \<noteq> t"
    and "t \<in> tids (mtx_waiters m)"
  shows "mutex_handle_acquire st t a = Inl AssertFailed"
proof -
  have "tidset_inv (mtx_waiters m)" using mutex_inv_ok [OF inv assms(2)] by (simp add: mtx_ok_def)
  from tidset_insert_inv [OF this, of t] assms show ?thesis
    by (auto simp: mutex_handle_acquire_def mutex_init_def mutex_base_no_waiter mutex_inv_base)
qed

lemma mutex_posthandle_acquire_free:
  assumes inv: "mutex_inv st" and m: "mlook st a = Some m" and "mtx_owner m = NO_TASK"
    and t: "t \<in> tids (mtx_waiters m)"
  obtains st' ws where "mutex_posthandle_acquire st t a = Inr st'" and "mutex_base st'"
    and "mlook st' = (mlook st)(a \<mapsto> \<lparr>mtx_waiters = ws, mtx_owner = t, mtx_count = 1\<rparr>)"
    and "tidset_inv ws" and "tids ws = tids (mtx_waiters m) - {t}"
proof -
  have ok: "tidset_inv (mtx_waiters m)" "mtx_count m = 0"
    using mutex_inv_ok [OF inv m] assms(3) by (simp_all add: mtx_ok_def)
  from tidset_remove_inv [OF ok(1), of t] t obtain ws where
    w: "tidset_remove (mtx_waiters m) t = Inr (True, ws)" "tidset_inv ws" "tids ws = tids (mtx_waiters m) - {t}"
    by auto
  let ?m = "\<lparr>mtx_waiters = ws, mtx_owner = t, mtx_count = 1\<rparr>"
  have eq: "m\<lparr>mtx_owner := t, mtx_waiters := ws, mtx_count := 1\<rparr> = ?m"
    by (cases m) simp
  have "mutex_posthandle_acquire st t a = Inr (mutex_store st a ?m)"
    using assms(3) m w ok inv
    by (simp add: eq mutex_posthandle_acquire_def mutex_init_def mutex_base_no_waiter mutex_inv_base)
  moreover have "mlook (mutex_store st a ?m) = (mlook st)(a \<mapsto> ?m)"
    using m by (simp add: mlook_store)
  ultimately show ?thesis
    using that [of "mutex_store st a ?m" ws] w mutex_inv_base [OF inv] by simp
qed

lemma mutex_posthandle_acquire_again:
  assumes inv: "mutex_inv st" and m: "mlook st a = Some m" and "mtx_owner m = t" and "t \<noteq> NO_TASK"
  shows "mutex_posthandle_acquire st t a = Inr (mutex_store st a (m\<lparr>mtx_count := mtx_count m + 1\<rparr>))"
  using assms by (simp add: mutex_posthandle_acquire_def mutex_init_def mutex_base_no_waiter mutex_inv_base)

text \<open>The assertion with the message \<^verbatim>\<open>deadlock due to disrespecting locks\<close>.\<close>

lemma mutex_posthandle_acquire_disrespect:
  assumes inv: "mutex_inv st" and m: "mlook st a = Some m" and "mtx_owner m \<noteq> t" and "mtx_owner m \<noteq> NO_TASK"
  shows "mutex_posthandle_acquire st t a = Inl AssertFailed"
  using assms by (simp add: mutex_posthandle_acquire_def mutex_init_def mutex_base_no_waiter mutex_inv_base)

lemma mutex_posthandle_tryacquire_total:
  assumes inv: "mutex_inv st" and t: "t \<noteq> NO_TASK"
    and m: "m = (case mlook st a of Some m \<Rightarrow> m | None \<Rightarrow> fresh_mtx)"
  obtains st' where "mutex_base st'"
    and "mutex_posthandle_tryacquire st t a =
           Inr (if mtx_owner m \<in> {NO_TASK, t} then 0 else EBUSY, st')"
    and "mlook st' = (mlook st)(a \<mapsto> (if mtx_owner m \<in> {NO_TASK, t}
           then m\<lparr>mtx_owner := t, mtx_count := mtx_count m + 1\<rparr> else m))"
proof -
  obtain st1 where i: "mutex_init st a = Inr (m, st1)" and b: "mutex_base st1"
    and l: "mlook st1 = (mlook st)(a \<mapsto> m)"
    using mutex_init_total [OF mutex_inv_base [OF inv], of a] m by metis
  have c: "mtx_owner m = NO_TASK \<longrightarrow> mtx_count m = 0"
    using m mutex_inv_ok [OF inv] by (auto simp: mtx_ok_def split: option.splits)
  have eq: "mtx_owner m = t \<Longrightarrow> m\<lparr>mtx_owner := t, mtx_count := n\<rparr> = m\<lparr>mtx_count := n\<rparr>" for n
    by (cases m) simp
  show ?thesis
  proof (cases "mtx_owner m \<in> {NO_TASK, t}")
    case True
    let ?m = "m\<lparr>mtx_owner := t, mtx_count := mtx_count m + 1\<rparr>"
    have "mutex_posthandle_tryacquire st t a = Inr (0, mutex_store st1 a ?m)"
      using True i c t eq [of "mtx_count m + 1"]
      by (auto simp: mutex_posthandle_tryacquire_def mutex_base_no_waiter mutex_inv_base inv)
    with that [of "mutex_store st1 a ?m"] b l True show ?thesis by (simp add: mlook_store)
  next
    case False
    then have "mutex_posthandle_tryacquire st t a = Inr (EBUSY, st1)"
      using i by (auto simp: mutex_posthandle_tryacquire_def mutex_base_no_waiter mutex_inv_base inv)
    with that [of st1] b l False show ?thesis by simp
  qed
qed

lemma mutex_posthandle_release_total:
  assumes inv: "mutex_inv st" and m: "mlook st a = Some m" and pos: "mtx_owner m \<noteq> NO_TASK"
  obtains st' where "mutex_posthandle_release cfg st t a = Inr st'" and "mutex_base st'"
    and "mlook st' = (mlook st)(a :=
           (if mtx_count m > 1 then Some (m\<lparr>mtx_count := mtx_count m - 1\<rparr>)
            else if tids (mtx_waiters m) = {} then None
            else Some (m\<lparr>mtx_owner := NO_TASK, mtx_count := 0\<rparr>)))"
proof -
  have ok: "mtx_count m > 0" "tidset_inv (mtx_waiters m)" "map_inv (hm_mutexes st)"
    using mutex_inv_ok [OF inv m] inv pos by (auto simp: mtx_ok_def mutex_inv_def mutex_base_def)
  have sz: "tidset_size (mtx_waiters m) = 0 \<longleftrightarrow> tids (mtx_waiters m) = {}"
    using ok(2) by (simp add: tidset_size_card)
  have z: "m\<lparr>mtx_count := 0, mtx_owner := NO_TASK\<rparr> = m\<lparr>mtx_owner := NO_TASK, mtx_count := 0\<rparr>"
    by (cases m) simp
  consider "mtx_count m > 1" | "mtx_count m = 1" "tids (mtx_waiters m) = {}"
    | "mtx_count m = 1" "tids (mtx_waiters m) \<noteq> {}" using ok(1) by linarith
  then show ?thesis
  proof cases
    case 1
    with m ok that [of "mutex_store st a (m\<lparr>mtx_count := mtx_count m - 1\<rparr>)"] mutex_inv_base [OF inv]
    show ?thesis by (simp add: mutex_posthandle_release_def mlook_store)
  next
    case 2
    with m ok sz that [of "st\<lparr>hm_mutexes := map_deregister (hm_mutexes st) a\<rparr>"] mutex_inv_base [OF inv]
    show ?thesis
      by (simp add: mutex_posthandle_release_def mutex_base_def map_find_deregister map_inv_deregister)
  next
    case 3
    with m ok sz that [of "mutex_store st a (m\<lparr>mtx_owner := NO_TASK, mtx_count := 0\<rparr>)"] mutex_inv_base [OF inv]
    show ?thesis by (simp add: mutex_posthandle_release_def mlook_store z)
  qed
qed

lemma mutex_remove_waiters_loop_total:
  assumes "\<forall>it\<in>set its. tidset_inv (mtx_waiters (snd it))" and "tidset_inv tset"
  shows "\<exists>tset'. mutex_remove_waiters_loop its tset self b =
      Inr (b \<or> (\<exists>it\<in>set its. mtx_owner (snd it) \<noteq> NO_TASK \<and> self \<in> tids (mtx_waiters (snd it))), tset') \<and>
    tidset_inv tset' \<and>
    tids tset' = tids tset - {t. \<exists>it\<in>set its. mtx_owner (snd it) \<noteq> NO_TASK \<and> t \<in> tids (mtx_waiters (snd it))}"
  using assms
proof (induction its arbitrary: tset b)
  case (Cons it its)
  let ?w = "mtx_waiters (snd it)"
  show ?case
  proof (cases "mtx_owner (snd it) = NO_TASK")
    case True
    with Cons.IH [of tset b] Cons.prems show ?thesis by simp
  next
    case False
    from Cons.prems have w: "tidset_inv ?w" by simp
    obtain t1 where t1: "tidset_subtract tset ?w = Inr t1" "tidset_inv t1" "tids t1 = tids tset - tids ?w"
      using tidset_subtract_inv [OF Cons.prems(2) w] by blast
    obtain t2 where t2: "mutex_remove_waiters_loop its t1 self (b \<or> self \<in> tids ?w) =
        Inr ((b \<or> self \<in> tids ?w) \<or> (\<exists>it\<in>set its. mtx_owner (snd it) \<noteq> NO_TASK \<and> self \<in> tids (mtx_waiters (snd it))), t2)"
      "tidset_inv t2"
      "tids t2 = tids t1 - {t. \<exists>it\<in>set its. mtx_owner (snd it) \<noteq> NO_TASK \<and> t \<in> tids (mtx_waiters (snd it))}"
      using Cons.IH [of t1 "b \<or> self \<in> tids ?w"] Cons.prems(1) t1(2) by auto
    from False t1 t2 w show ?thesis
      by (auto simp: tidset_has_inv)
  qed
qed simp

lemma mutex_should_wait_loop_total:
  "\<forall>it\<in>set its. tidset_inv (mtx_waiters (snd it)) \<Longrightarrow>
     mutex_should_wait_loop its t =
       Inr (\<exists>it\<in>set its. mtx_owner (snd it) \<noteq> NO_TASK \<and> t \<in> tids (mtx_waiters (snd it)))"
  by (induction its) (auto simp: tidset_has_inv)

lemma mutex_inv_iterate:
  "mutex_inv st \<Longrightarrow> it \<in> set (map_iterate (hm_mutexes st)) \<Longrightarrow> tidset_inv (mtx_waiters (snd it))"
  by (auto simp: mutex_inv_def list_all_iff mtx_ok_def)

lemma mutex_blocked_iterate:
  "mutex_inv st \<Longrightarrow> (\<exists>it\<in>set (map_iterate (hm_mutexes st)).
     mtx_owner (snd it) \<noteq> NO_TASK \<and> t \<in> tids (mtx_waiters (snd it))) \<longleftrightarrow> t \<in> mutex_blocked st"
  using bex_iterate [of "hm_mutexes st" "\<lambda>m. mtx_owner m \<noteq> NO_TASK \<and> t \<in> tids (mtx_waiters m)"]
  by (simp add: mutex_blocked_def mutex_inv_def mutex_base_def)

lemma mutex_remove_waiters_total:
  assumes "mutex_inv st" and "tidset_inv tset"
  obtains tset' where "mutex_remove_waiters st tset self = Inr (self \<in> mutex_blocked st, tset')"
    and "tidset_inv tset'" and "tids tset' = tids tset - mutex_blocked st"
  using mutex_remove_waiters_loop_total [of "map_iterate (hm_mutexes st)" tset self False]
    mutex_inv_iterate [OF assms(1)] assms(2)
  by (auto simp: mutex_remove_waiters_def mutex_blocked_iterate [OF assms(1)])

lemma mutex_should_wait_blocked:
  "mutex_inv st \<Longrightarrow> mutex_should_wait st t = Inr (t \<in> mutex_blocked st)"
  by (simp add: mutex_should_wait_def mutex_should_wait_loop_total mutex_inv_iterate mutex_blocked_iterate)

text \<open>
  The global set of waiting tasks is initialised and read, but no function inserts into it. The wait
  chain therefore always ends at the owner of the first mutex.
\<close>

lemma mutex_check_deadlock_False:
  assumes "mutex_base st" and "t \<noteq> NO_TASK"
  shows "mutex_check_deadlock st t a NO_TASK =
    Some (case mlook st a of
       None \<Rightarrow> Inl Fault
     | Some m \<Rightarrow> if mtx_owner m \<in> {NO_TASK, t} then Inl AssertFailed else Inr False)"
  using assms mutex_base_no_waiter [OF assms(1)]
  by (subst mutex_check_deadlock.simps) (auto split: option.splits)

section \<open>The capture handler\<close>

lemma mutex_handle_event_inv:
  assumes inv: "mutex_inv st" and t: "cp_id cp \<noteq> NO_TASK" and r: "mutex_handle_event cp e st = Inr (e', st')"
  shows "mutex_inv st' \<and> e_tset e' = e_tset e \<and> e_reason e' = e_reason e"
proof (cases "cp_type_id cp = EVENT_MUTEX_ACQUIRE")
  case False
  with r inv show ?thesis by (auto simp: mutex_handle_event_def split: if_splits)
next
  case True
  let ?m = "case mlook st (cp_addr cp) of Some m \<Rightarrow> m | None \<Rightarrow> fresh_mtx"
  from True r have h: "mutex_handle_acquire st (cp_id cp) (cp_addr cp) = Inr st'"
    and e: "e_tset e' = e_tset e" "e_reason e' = e_reason e"
    by (auto simp: mutex_handle_event_def mutex_event_addr_def result_elims)
  have "mutex_inv st'"
  proof (cases "mtx_owner ?m = cp_id cp")
    case True
    with t obtain m where "mlook st (cp_addr cp) = Some m" "mtx_owner m = cp_id cp"
      by (auto split: option.splits)
    from mutex_handle_acquire_owned [OF inv this] h inv show ?thesis by simp
  next
    case no: False
    show ?thesis
    proof (cases "cp_id cp \<in> tids (mtx_waiters ?m)")
      case True
      then obtain m where "mlook st (cp_addr cp) = Some m" "cp_id cp \<in> tids (mtx_waiters m)" "mtx_owner m \<noteq> cp_id cp"
        using no by (auto split: option.splits)
      with mutex_handle_acquire_twice [OF inv] h show ?thesis by simp
    next
      case False
      obtain st1 ws where s: "mutex_handle_acquire st (cp_id cp) (cp_addr cp) = Inr st1" "mutex_base st1"
        "mlook st1 = (mlook st)(cp_addr cp \<mapsto> ?m\<lparr>mtx_waiters := ws\<rparr>)" "tidset_inv ws"
        "tids ws = insert (cp_id cp) (tids (mtx_waiters ?m))"
        by (rule mutex_handle_acquire_waits [OF inv t refl no False])
      have "mtx_ok (?m\<lparr>mtx_waiters := ws\<rparr>)"
        using s(4,5) mutex_inv_ok [OF inv] by (auto simp: mtx_ok_def split: option.splits)
      from mutex_inv_upd [OF inv s(2,3) this] s(1) h show ?thesis by simp
    qed
  qed
  with e show ?thesis by simp
qed

lemma mutex_handle_cases:
  assumes inv: "mutex_inv st" and ts: "tidset_inv (e_tset e)" and t: "cp_id cp \<noteq> NO_TASK"
    and ns: "\<not> e_skip e" and r: "mutex_handle cfg cp e st = Some (Inr (e', st'))"
  obtains e1 tset where "mutex_handle_event cp e st = Inr (e1, st')" and "e' = e1\<lparr>e_tset := tset\<rparr>"
    and "mutex_inv st'" and "tidset_inv tset" and "tids tset = tids (e_tset e) - mutex_blocked st'"
    and "e_reason e1 = e_reason e"
proof -
  obtain e1 st1 where ev: "mutex_handle_event cp e st = Inr (e1, st1)"
    using r ns t by (cases "mutex_handle_event cp e st") (auto simp: mutex_handle_def)
  have i1: "mutex_inv st1" "e_tset e1 = e_tset e" "e_reason e1 = e_reason e"
    using mutex_handle_event_inv [OF inv t ev] by auto
  then obtain tset where rm: "mutex_remove_waiters st1 (e_tset e1) (cp_id cp) = Inr (cp_id cp \<in> mutex_blocked st1, tset)"
    and tset: "tidset_inv tset" "tids tset = tids (e_tset e) - mutex_blocked st1"
    using mutex_remove_waiters_total [OF i1(1), of "e_tset e1" "cp_id cp"] ts by metis
  have "e' = e1\<lparr>e_tset := tset\<rparr> \<and> st' = st1"
    using r ns t ev rm mutex_check_deadlock_False [OF mutex_inv_base [OF i1(1)] t]
    by (auto simp: mutex_handle_def bindr_eq_Inr split: sum.splits if_splits option.splits)
  with that ev i1 tset show ?thesis by blast
qed

section \<open>The protocol\<close>

text \<open>
  The calls the sequencer makes for tasks that use mutexes. A task captures an acquire event and is
  pending until it is resumed; it is resumed only when it was left in the candidate set, which is when
  \<^verbatim>\<open>_should_wait\<close> does not hold for it. Try and release events change the state when they are resumed;
  a task releases mutexes it holds. The ghost state counts for every task and address the
  acquisitions that were not released.
\<close>

record mutex_sys =
  ms_st :: handler_mutex
  ms_pend :: "task_id \<Rightarrow> 64 word option"
  ms_held :: "task_id \<Rightarrow> 64 word \<Rightarrow> nat"

definition mutex_sys_init :: mutex_sys where
  "mutex_sys_init = \<lparr>ms_st = mutex_state_init, ms_pend = (\<lambda>_. None), ms_held = (\<lambda>_ _. 0)\<rparr>"

inductive mutex_step :: "mutex_config \<Rightarrow> mutex_sys \<Rightarrow> mutex_sys \<Rightarrow> bool" for cfg where
  acquire: "cp_type_id cp = EVENT_MUTEX_ACQUIRE \<Longrightarrow> cp_id cp = t \<Longrightarrow> cp_addr cp = a \<Longrightarrow> t \<noteq> NO_TASK \<Longrightarrow>
    ms_pend s t = None \<Longrightarrow> tidset_inv (e_tset e) \<Longrightarrow> \<not> e_skip e \<Longrightarrow>
    mutex_handle cfg cp e (ms_st s) = Some (Inr (e', st')) \<Longrightarrow>
    mutex_step cfg s (s\<lparr>ms_st := st', ms_pend := (ms_pend s)(t \<mapsto> a)\<rparr>)"
| other: "cp_type_id cp \<noteq> EVENT_MUTEX_ACQUIRE \<Longrightarrow> cp_id cp \<noteq> NO_TASK \<Longrightarrow> tidset_inv (e_tset e) \<Longrightarrow>
    \<not> e_skip e \<Longrightarrow> mutex_handle cfg cp e (ms_st s) = Some (Inr (e', st')) \<Longrightarrow>
    mutex_step cfg s (s\<lparr>ms_st := st'\<rparr>)"
| acquired: "cp_type_id cp = EVENT_MUTEX_ACQUIRE \<Longrightarrow> cp_id cp = t \<Longrightarrow> cp_addr cp = a \<Longrightarrow>
    ms_pend s t = Some a \<Longrightarrow> mutex_should_wait (ms_st s) t = Inr False \<Longrightarrow>
    mutex_resume cfg cp (ms_st s) = Inr (r, st') \<Longrightarrow>
    mutex_step cfg s (s\<lparr>ms_st := st', ms_pend := (ms_pend s)(t := None),
      ms_held := held_upd (ms_held s) t a (ms_held s t a + 1)\<rparr>)"
| tried: "cp_type_id cp = EVENT_MUTEX_TRYACQUIRE \<Longrightarrow> cp_id cp = t \<Longrightarrow> cp_addr cp = a \<Longrightarrow> t \<noteq> NO_TASK \<Longrightarrow>
    ms_pend s t = None \<Longrightarrow> mutex_resume cfg cp (ms_st s) = Inr (Some r, st') \<Longrightarrow>
    mutex_step cfg s (s\<lparr>ms_st := st',
      ms_held := held_upd (ms_held s) t a (ms_held s t a + (if r = 0 then 1 else 0))\<rparr>)"
| released: "cp_type_id cp = EVENT_MUTEX_RELEASE \<Longrightarrow> cp_id cp = t \<Longrightarrow> cp_addr cp = a \<Longrightarrow>
    ms_pend s t = None \<Longrightarrow> ms_held s t a > 0 \<Longrightarrow> mutex_resume cfg cp (ms_st s) = Inr (r, st') \<Longrightarrow>
    mutex_step cfg s (s\<lparr>ms_st := st', ms_held := held_upd (ms_held s) t a (ms_held s t a - 1)\<rparr>)"

inductive mutex_reach :: "mutex_config \<Rightarrow> mutex_sys \<Rightarrow> bool" for cfg where
  init: "mutex_reach cfg mutex_sys_init"
| step: "mutex_reach cfg s \<Longrightarrow> mutex_step cfg s s' \<Longrightarrow> mutex_reach cfg s'"

text \<open>What the map says about one address agrees with the ghost state.\<close>

definition mutex_at :: "(task_id \<Rightarrow> 64 word option) \<Rightarrow> (task_id \<Rightarrow> 64 word \<Rightarrow> nat) \<Rightarrow> 64 word \<Rightarrow> mtx option \<Rightarrow> bool" where
  "mutex_at pend held a X \<longleftrightarrow>
     (case X of
        None \<Rightarrow> (\<forall>t. pend t \<noteq> Some a \<and> held t a = 0)
      | Some m \<Rightarrow> mtx_ok m \<and>
          (\<forall>t. pend t = Some a \<longrightarrow> t \<in> tids (mtx_waiters m) \<or> mtx_owner m = t) \<and>
          (\<forall>t\<in>tids (mtx_waiters m). pend t = Some a \<and> mtx_owner m \<noteq> t) \<and>
          (\<forall>t. held t a = (if mtx_owner m = t then nat (mtx_count m) else 0)))"

definition mutex_sys_inv :: "mutex_sys \<Rightarrow> bool" where
  "mutex_sys_inv s \<longleftrightarrow> mutex_base (ms_st s) \<and> ms_pend s NO_TASK = None \<and>
     (\<forall>a. mutex_at (ms_pend s) (ms_held s) a (mlook (ms_st s) a))"

lemma mutex_sys_inv_inv: "mutex_sys_inv s \<Longrightarrow> mutex_inv (ms_st s)"
  by (auto simp: mutex_sys_inv_def mutex_inv_alt mutex_at_def split: option.splits)

lemma mutex_at_cong:
  "(\<And>u. pend' u = Some b \<longleftrightarrow> pend u = Some b) \<Longrightarrow> (\<And>u. held' u b = held u b) \<Longrightarrow>
     mutex_at pend' held' b X = mutex_at pend held b X"
  by (simp add: mutex_at_def split: option.split)

text \<open>A step changes one address, and the pending state of a task at that address only.\<close>

lemma mutex_sys_inv_upd:
  assumes inv: "mutex_sys_inv s" and "mutex_base st'" and "mlook st' = (mlook (ms_st s))(a := X)"
    and "pend' NO_TASK = None" and "\<And>b u. b \<noteq> a \<Longrightarrow> pend' u = Some b \<longleftrightarrow> ms_pend s u = Some b"
    and "\<And>b u. b \<noteq> a \<Longrightarrow> held' u b = ms_held s u b" and "mutex_at pend' held' a X"
  shows "mutex_sys_inv (s\<lparr>ms_st := st', ms_pend := pend', ms_held := held'\<rparr>)"
proof -
  have "mutex_at pend' held' b (mlook st' b)" for b
  proof (cases "b = a")
    case False
    then have "mutex_at pend' held' b (mlook st' b) = mutex_at (ms_pend s) (ms_held s) b (mlook (ms_st s) b)"
      using assms by (simp add: mutex_at_cong [of pend' b "ms_pend s" held' "ms_held s"])
    with inv show ?thesis by (simp add: mutex_sys_inv_def)
  qed (simp add: assms)
  with assms show ?thesis by (simp add: mutex_sys_inv_def)
qed

lemma mutex_sys_inv_at: "mutex_sys_inv s \<Longrightarrow> mutex_at (ms_pend s) (ms_held s) a (mlook (ms_st s) a)"
  by (simp add: mutex_sys_inv_def)

lemma mutex_sys_inv_NO_TASK: "mutex_sys_inv s \<Longrightarrow> ms_pend s NO_TASK = None"
  by (simp add: mutex_sys_inv_def)

lemma mutex_not_blocked: "mutex_sys_inv s \<Longrightarrow> ms_pend s t = None \<Longrightarrow> t \<notin> mutex_blocked (ms_st s)"
  using mutex_sys_inv_at [of s] by (fastforce simp: mutex_blocked_def mutex_at_def split: option.splits)

lemma mutex_acquire_preserves:
  assumes inv: "mutex_sys_inv s" and t: "t \<noteq> NO_TASK" and p: "ms_pend s t = None"
    and r: "mutex_handle_acquire (ms_st s) t a = Inr st'"
  shows "mutex_sys_inv (s\<lparr>ms_st := st', ms_pend := (ms_pend s)(t \<mapsto> a)\<rparr>)"
proof -
  let ?m = "case mlook (ms_st s) a of Some m \<Rightarrow> m | None \<Rightarrow> fresh_mtx"
  note at = mutex_sys_inv_at [OF inv, of a]
  note minv = mutex_sys_inv_inv [OF inv]
  have nw: "t \<notin> tids (mtx_waiters ?m)"
    using at p by (auto simp: mutex_at_def split: option.splits)
  obtain X where X: "mutex_base st'" "mlook st' = (mlook (ms_st s))(a := X)"
    "mutex_at ((ms_pend s)(t \<mapsto> a)) (ms_held s) a X"
  proof (cases "mtx_owner ?m = t")
    case True
    with t obtain m where m: "mlook (ms_st s) a = Some m" "mtx_owner m = t" by (auto split: option.splits)
    then have "st' = ms_st s" using mutex_handle_acquire_owned [OF minv m] r by simp
    moreover have "mutex_at ((ms_pend s)(t \<mapsto> a)) (ms_held s) a (Some m)"
      using at m by (auto simp: mutex_at_def)
    ultimately show ?thesis using that [of "Some m"] m mutex_inv_base [OF minv] by (simp add: fun_upd_idem)
  next
    case False
    obtain st1 ws where s: "mutex_handle_acquire (ms_st s) t a = Inr st1" "mutex_base st1"
      "mlook st1 = (mlook (ms_st s))(a \<mapsto> ?m\<lparr>mtx_waiters := ws\<rparr>)" "tidset_inv ws"
      "tids ws = insert t (tids (mtx_waiters ?m))"
      by (rule mutex_handle_acquire_waits [OF minv t refl False nw])
    have "mutex_at ((ms_pend s)(t \<mapsto> a)) (ms_held s) a (Some (?m\<lparr>mtx_waiters := ws\<rparr>))"
      using at s(4,5) t False by (auto simp: mutex_at_def mtx_ok_def split: option.splits)
    with that s r show ?thesis by simp
  qed
  have "mutex_sys_inv (s\<lparr>ms_st := st', ms_pend := (ms_pend s)(t \<mapsto> a), ms_held := ms_held s\<rparr>)"
    by (rule mutex_sys_inv_upd [OF inv X(1,2) _ _ _ X(3)])
      (use inv t p in \<open>auto simp: mutex_sys_inv_def\<close>)
  then show ?thesis by simp
qed

lemma mutex_acquired_preserves:
  assumes inv: "mutex_sys_inv s" and p: "ms_pend s t = Some a" and nb: "t \<notin> mutex_blocked (ms_st s)"
  shows "\<exists>st'. mutex_posthandle_acquire (ms_st s) t a = Inr st' \<and>
    mutex_sys_inv (s\<lparr>ms_st := st', ms_pend := (ms_pend s)(t := None),
      ms_held := held_upd (ms_held s) t a (ms_held s t a + 1)\<rparr>)"
proof -
  note at = mutex_sys_inv_at [OF inv, of a]
  note minv = mutex_sys_inv_inv [OF inv]
  have t: "t \<noteq> NO_TASK" using inv p by (auto simp: mutex_sys_inv_def)
  obtain m where m: "mlook (ms_st s) a = Some m" and tm: "t \<in> tids (mtx_waiters m) \<or> mtx_owner m = t"
    using at p by (auto simp: mutex_at_def split: option.splits)
  let ?p = "(ms_pend s)(t := None)" and ?h = "held_upd (ms_held s) t a (ms_held s t a + 1)"
  obtain st' X where X: "mutex_posthandle_acquire (ms_st s) t a = Inr st'" "mutex_base st'"
    "mlook st' = (mlook (ms_st s))(a := X)" "mutex_at ?p ?h a X"
  proof (cases "mtx_owner m = NO_TASK")
    case True
    with tm t have w: "t \<in> tids (mtx_waiters m)" by auto
    obtain st' ws where s: "mutex_posthandle_acquire (ms_st s) t a = Inr st'" "mutex_base st'"
      "mlook st' = (mlook (ms_st s))(a \<mapsto> \<lparr>mtx_waiters = ws, mtx_owner = t, mtx_count = 1\<rparr>)"
      "tidset_inv ws" "tids ws = tids (mtx_waiters m) - {t}"
      by (rule mutex_posthandle_acquire_free [OF minv m True w])
    have "mutex_at ?p ?h a (Some \<lparr>mtx_waiters = ws, mtx_owner = t, mtx_count = 1\<rparr>)"
      using at m s(4,5) t True mutex_sys_inv_NO_TASK [OF inv]
      by (auto simp: mutex_at_def mtx_ok_def held_upd_def)
    with that s show ?thesis by blast
  next
    case False
    with nb m tm have o: "mtx_owner m = t" by (auto simp: mutex_blocked_def)
    let ?m = "m\<lparr>mtx_count := mtx_count m + 1\<rparr>"
    have "mutex_at ?p ?h a (Some ?m)"
      using at m o t by (auto simp: mutex_at_def mtx_ok_def held_upd_def nat_add_distrib)
    with that [of "mutex_store (ms_st s) a ?m"] mutex_posthandle_acquire_again [OF minv m o t] m
      mutex_inv_base [OF minv] show ?thesis by (simp add: mlook_store)
  qed
  have "mutex_sys_inv (s\<lparr>ms_st := st', ms_pend := ?p, ms_held := ?h\<rparr>)"
    by (rule mutex_sys_inv_upd [OF inv X(2,3) _ _ _ X(4)])
      (use inv p in \<open>auto simp: mutex_sys_inv_def held_upd_def\<close>)
  with X(1) show ?thesis by blast
qed

lemma mutex_tried_preserves:
  assumes inv: "mutex_sys_inv s" and p: "ms_pend s t = None" and t: "t \<noteq> NO_TASK"
  shows "\<exists>r st'. mutex_posthandle_tryacquire (ms_st s) t a = Inr (r, st') \<and>
    mutex_sys_inv (s\<lparr>ms_st := st',
      ms_held := held_upd (ms_held s) t a (ms_held s t a + (if r = 0 then 1 else 0))\<rparr>)"
proof -
  let ?m = "case mlook (ms_st s) a of Some m \<Rightarrow> m | None \<Rightarrow> fresh_mtx"
  note at = mutex_sys_inv_at [OF inv, of a]
  obtain st' where s: "mutex_base st'" "mutex_posthandle_tryacquire (ms_st s) t a =
      Inr (if mtx_owner ?m \<in> {NO_TASK, t} then 0 else EBUSY, st')"
    "mlook st' = (mlook (ms_st s))(a \<mapsto> (if mtx_owner ?m \<in> {NO_TASK, t}
       then ?m\<lparr>mtx_owner := t, mtx_count := mtx_count ?m + 1\<rparr> else ?m))"
    by (rule mutex_posthandle_tryacquire_total [OF mutex_sys_inv_inv [OF inv] t refl])
  let ?r = "if mtx_owner ?m \<in> {NO_TASK, t} then 0 else EBUSY"
  let ?h = "held_upd (ms_held s) t a (ms_held s t a + (if ?r = 0 then 1 else 0))"
  let ?X = "if mtx_owner ?m \<in> {NO_TASK, t}
    then ?m\<lparr>mtx_owner := t, mtx_count := mtx_count ?m + 1\<rparr> else ?m"
  have "mutex_at (ms_pend s) ?h a (Some ?X)"
    using at p t mutex_sys_inv_NO_TASK [OF inv]
    by (auto simp: mutex_at_def mtx_ok_def held_upd_def EBUSY_def nat_add_distrib split: option.splits)
  then have "mutex_sys_inv (s\<lparr>ms_st := st', ms_pend := ms_pend s, ms_held := ?h\<rparr>)"
    by (intro mutex_sys_inv_upd [OF inv s(1,3)])
      (use inv in \<open>auto simp: mutex_sys_inv_def held_upd_def\<close>)
  with s(2) show ?thesis by auto
qed

lemma mutex_released_preserves:
  assumes inv: "mutex_sys_inv s" and p: "ms_pend s t = None" and h: "ms_held s t a > 0"
  shows "\<exists>st'. mutex_posthandle_release cfg (ms_st s) t a = Inr st' \<and>
    mutex_sys_inv (s\<lparr>ms_st := st', ms_held := held_upd (ms_held s) t a (ms_held s t a - 1)\<rparr>)"
proof -
  note at = mutex_sys_inv_at [OF inv, of a]
  obtain m where m: "mlook (ms_st s) a = Some m" and o: "mtx_owner m = t" "mtx_count m > 0" "mtx_owner m \<noteq> NO_TASK"
    using at h by (auto simp: mutex_at_def mtx_ok_def split: option.splits if_splits)
  let ?X = "if mtx_count m > 1 then Some (m\<lparr>mtx_count := mtx_count m - 1\<rparr>)
            else if tids (mtx_waiters m) = {} then None
            else Some (m\<lparr>mtx_owner := NO_TASK, mtx_count := 0\<rparr>)"
  let ?h = "held_upd (ms_held s) t a (ms_held s t a - 1)"
  obtain st' where s: "mutex_posthandle_release cfg (ms_st s) t a = Inr st'" "mutex_base st'"
    "mlook st' = (mlook (ms_st s))(a := ?X)"
    by (rule mutex_posthandle_release_total [OF mutex_sys_inv_inv [OF inv] m o(3)])
  have "mutex_at (ms_pend s) ?h a ?X"
    using at m o p mutex_sys_inv_NO_TASK [OF inv]
    by (auto simp: mutex_at_def mtx_ok_def held_upd_def nat_diff_distrib)
  then have "mutex_sys_inv (s\<lparr>ms_st := st', ms_pend := ms_pend s, ms_held := ?h\<rparr>)"
    by (intro mutex_sys_inv_upd [OF inv s(2,3)])
      (use inv in \<open>auto simp: mutex_sys_inv_def held_upd_def\<close>)
  with s(1) show ?thesis by auto
qed

lemma mutex_event_addr_simps [simp]:
  "cp_type_id cp = EVENT_MUTEX_ACQUIRE \<Longrightarrow> mutex_event_addr cp = Inr (cp_addr cp)"
  "cp_type_id cp = EVENT_MUTEX_TRYACQUIRE \<Longrightarrow> mutex_event_addr cp = Inr (cp_addr cp)"
  "cp_type_id cp = EVENT_MUTEX_RELEASE \<Longrightarrow> mutex_event_addr cp = Inr (cp_addr cp)"
  by (simp_all add: mutex_event_addr_def)

lemma mutex_events_distinct [simp]:
  "EVENT_MUTEX_ACQUIRE \<noteq> EVENT_MUTEX_TRYACQUIRE" "EVENT_MUTEX_ACQUIRE \<noteq> EVENT_MUTEX_RELEASE"
  "EVENT_MUTEX_TRYACQUIRE \<noteq> EVENT_MUTEX_ACQUIRE" "EVENT_MUTEX_RELEASE \<noteq> EVENT_MUTEX_ACQUIRE"
  "EVENT_MUTEX_TRYACQUIRE \<noteq> EVENT_MUTEX_RELEASE" "EVENT_MUTEX_RELEASE \<noteq> EVENT_MUTEX_TRYACQUIRE"
  by (simp_all add: mutex_event_defs)

lemma mutex_step_inv: "mutex_step cfg s s' \<Longrightarrow> mutex_sys_inv s \<Longrightarrow> mutex_sys_inv s'"
proof (induction rule: mutex_step.induct)
  case (acquire cp t a s e e' st')
  have "mutex_inv (ms_st s)" using acquire.prems by (rule mutex_sys_inv_inv)
  with acquire obtain e1 where "mutex_handle_event cp e (ms_st s) = Inr (e1, st')"
    by (auto elim!: mutex_handle_cases [of "ms_st s" e cp cfg e' st'])
  with acquire have "mutex_handle_acquire (ms_st s) t a = Inr st'"
    by (auto simp: mutex_handle_event_def result_elims)
  with acquire show ?case by (blast intro: mutex_acquire_preserves)
next
  case (other cp e s e' st')
  have "mutex_inv (ms_st s)" using other.prems by (rule mutex_sys_inv_inv)
  with other obtain e1 where "mutex_handle_event cp e (ms_st s) = Inr (e1, st')"
    by (auto elim!: mutex_handle_cases [of "ms_st s" e cp cfg e' st'])
  with other have "st' = ms_st s" by (auto simp: mutex_handle_event_def split: if_splits)
  with other.prems show ?case by simp
next
  case (acquired cp t a s r st')
  then have "t \<notin> mutex_blocked (ms_st s)"
    by (simp add: mutex_should_wait_blocked mutex_sys_inv_inv)
  with acquired mutex_acquired_preserves [of s t a] show ?case
    by (auto simp: mutex_resume_def result_elims)
next
  case (tried cp t a s r st')
  with mutex_tried_preserves [of s t a] show ?case by (auto simp: mutex_resume_def result_elims)
next
  case (released cp t a s r st')
  with mutex_released_preserves [of s t a cfg] show ?case by (auto simp: mutex_resume_def result_elims)
qed

lemma mutex_reach_sys_inv: "mutex_reach cfg s \<Longrightarrow> mutex_sys_inv s"
proof (induction rule: mutex_reach.induct)
  case init
  show ?case
    using mutex_inv_base [OF mutex_inv_state_init]
    by (simp add: mutex_sys_inv_def mutex_sys_init_def mutex_at_def)
next
  case (step s s')
  then show ?case using mutex_step_inv by blast
qed

lemma mutex_held_owner:
  assumes "mutex_sys_inv s"
  shows "ms_held s t a > 0 \<longleftrightarrow> t \<noteq> NO_TASK \<and> mutex_owner (ms_st s) a = t"
proof (cases "mlook (ms_st s) a")
  case None
  with mutex_sys_inv_at [OF assms, of a] show ?thesis by (auto simp: mutex_at_def mutex_owner_def)
next
  case (Some m)
  with mutex_sys_inv_at [OF assms, of a]
  have "mtx_ok m" and h: "ms_held s t a = (if mtx_owner m = t then nat (mtx_count m) else 0)"
    by (auto simp: mutex_at_def)
  then have "t = NO_TASK \<longleftrightarrow> mtx_count m = 0" "mtx_count m \<ge> 0" if "mtx_owner m = t"
    using that by (auto simp: mtx_ok_def)
  with h Some show ?thesis by (auto simp: mutex_owner_def)
qed

text \<open>A task blocked by the mutex it is pending for waits for another owner.\<close>

lemma mutex_blocked_pending:
  assumes "mutex_sys_inv s" and "ms_pend s t = Some a" and "t \<in> mutex_blocked (ms_st s)"
  obtains m where "mlook (ms_st s) a = Some m" and "mtx_owner m \<notin> {NO_TASK, t}"
proof -
  obtain b m where m: "mlook (ms_st s) b = Some m" "mtx_owner m \<noteq> NO_TASK" "t \<in> tids (mtx_waiters m)"
    using assms(3) by (auto simp: mutex_blocked_def)
  with mutex_sys_inv_at [OF assms(1), of b] assms(2) have "b = a" "mtx_owner m \<noteq> t"
    by (auto simp: mutex_at_def)
  with m that show ?thesis by simp
qed

lemma mutex_handle_event_acquire:
  assumes inv: "mutex_sys_inv s" and t: "cp_id cp \<noteq> NO_TASK" and p: "ms_pend s (cp_id cp) = None"
    and ty: "cp_type_id cp = EVENT_MUTEX_ACQUIRE" and f: "e_any_task_filter e = None"
  obtains st1 where "mutex_handle_event cp e (ms_st s) =
      Inr (e\<lparr>e_any_task_filter := Some MUTEX_SHOULD_WAIT, e_is_chpt := True\<rparr>, st1)"
    and "mutex_sys_inv (s\<lparr>ms_st := st1, ms_pend := (ms_pend s)(cp_id cp \<mapsto> cp_addr cp)\<rparr>)"
proof -
  let ?m = "case mlook (ms_st s) (cp_addr cp) of Some m \<Rightarrow> m | None \<Rightarrow> fresh_mtx"
  note minv = mutex_sys_inv_inv [OF inv]
  have nw: "cp_id cp \<notin> tids (mtx_waiters ?m)"
    using mutex_sys_inv_at [OF inv, of "cp_addr cp"] p by (auto simp: mutex_at_def split: option.splits)
  obtain st1 where h: "mutex_handle_acquire (ms_st s) (cp_id cp) (cp_addr cp) = Inr st1"
  proof (cases "mtx_owner ?m = cp_id cp")
    case True
    with t obtain m where "mlook (ms_st s) (cp_addr cp) = Some m" "mtx_owner m = cp_id cp"
      by (auto split: option.splits)
    from that mutex_handle_acquire_owned [OF minv this] show ?thesis by blast
  next
    case False
    from mutex_handle_acquire_waits [OF minv t refl False nw] that show ?thesis by blast
  qed
  with that [OF _ mutex_acquire_preserves [OF inv t p h]] ty f show ?thesis
    by (simp add: mutex_handle_event_def)
qed

lemma mutex_handle_succeeds:
  assumes inv: "mutex_sys_inv s" and t: "cp_id cp \<noteq> NO_TASK" and p: "ms_pend s (cp_id cp) = None"
    and ts: "tidset_inv (e_tset e)" and ns: "\<not> e_skip e" and f: "e_any_task_filter e = None"
    and rel: "cp_type_id cp = EVENT_MUTEX_RELEASE \<longrightarrow> mlook (ms_st s) (cp_addr cp) \<noteq> None"
  shows "\<exists>e' st'. mutex_handle cfg cp e (ms_st s) = Some (Inr (e', st'))"
proof (cases "cp_type_id cp = EVENT_MUTEX_ACQUIRE")
  case True
  obtain st1 where ev: "mutex_handle_event cp e (ms_st s) =
      Inr (e\<lparr>e_any_task_filter := Some MUTEX_SHOULD_WAIT, e_is_chpt := True\<rparr>, st1)"
    and i1: "mutex_sys_inv (s\<lparr>ms_st := st1, ms_pend := (ms_pend s)(cp_id cp \<mapsto> cp_addr cp)\<rparr>)"
    by (rule mutex_handle_event_acquire [OF inv t p True f])
  have m1: "mutex_inv st1" using mutex_sys_inv_inv [OF i1] by simp
  obtain tset where rm: "mutex_remove_waiters st1 (e_tset e) (cp_id cp) = Inr (cp_id cp \<in> mutex_blocked st1, tset)"
    by (rule mutex_remove_waiters_total [OF m1 ts])
  have "mutex_check_deadlock st1 (cp_id cp) (cp_addr cp) NO_TASK = Some (Inr False)"
    if b: "cp_id cp \<in> mutex_blocked st1"
  proof -
    obtain m where "mlook st1 (cp_addr cp) = Some m" "mtx_owner m \<notin> {NO_TASK, cp_id cp}"
      using mutex_blocked_pending [OF i1, of "cp_id cp" "cp_addr cp"] b by auto
    then show ?thesis by (simp add: mutex_check_deadlock_False [OF mutex_inv_base [OF m1] t])
  qed
  with True t ns ev rm show ?thesis by (simp add: mutex_handle_def)
next
  case False
  obtain tset where rm: "mutex_remove_waiters (ms_st s) (e_tset e) (cp_id cp) =
      Inr (cp_id cp \<in> mutex_blocked (ms_st s), tset)"
    by (rule mutex_remove_waiters_total [OF mutex_sys_inv_inv [OF inv] ts])
  have ev: "\<exists>e1. mutex_handle_event cp e (ms_st s) = Inr (e1, ms_st s) \<and> e_tset e1 = e_tset e"
    using False by (simp add: mutex_handle_event_def)
  with False t ns rm rel mutex_not_blocked [OF inv p] show ?thesis
    by (auto simp: mutex_handle_def mutex_strict_check_release_def)
qed

section \<open>Properties\<close>

text \<open>
  Claim C7. Mutual exclusion. In every run of the protocol the task the map records as owner of a mutex
  is exactly the task that holds it, so no two tasks hold the same mutex; and every mutex in the map
  is owned or waited for.
\<close>

theorem mutex_mutual_exclusion:
  assumes "mutex_reach cfg s"
  shows "mutex_inv (ms_st s) \<and>
    (ms_held s t a > 0 \<longleftrightarrow> t \<noteq> NO_TASK \<and> mutex_owner (ms_st s) a = t) \<and>
    (ms_held s t a > 0 \<and> ms_held s u a > 0 \<longrightarrow> t = u)"
proof -
  have inv: "mutex_sys_inv s" using assms by (rule mutex_reach_sys_inv)
  from mutex_held_owner [OF inv, of t a] mutex_held_owner [OF inv, of u a] mutex_sys_inv_inv [OF inv]
  show ?thesis by auto
qed

theorem mutex_mutual_exclusion_witness:
  "\<exists>s :: mutex_sys. ms_held s 5 64 = 1 \<and> mutex_owner (ms_st s) 64 = 5 \<and> ms_held s 6 64 = 0"
proof -
  let ?cfg = "\<lparr>mc_deadlock_check = True, mc_strict = True\<rparr>"
  let ?cp = "event_cp EVENT_MUTEX_TRYACQUIRE 5 64"
  have t: "(5::task_id) \<noteq> NO_TASK" by (simp add: NO_TASK_def)
  have "ms_pend mutex_sys_init 5 = None" by (simp add: mutex_sys_init_def)
  have "case mutex_resume ?cfg ?cp mutex_state_init of Inr (Some r, st') \<Rightarrow> r = 0 | _ \<Rightarrow> False"
    by code_simp
  then obtain st' where r: "mutex_resume ?cfg ?cp (ms_st mutex_sys_init) = Inr (Some 0, st')"
    by (auto simp: mutex_sys_init_def split: sum.splits option.splits)
  let ?s = "mutex_sys_init\<lparr>ms_st := st', ms_held := held_upd (ms_held mutex_sys_init) 5 64
    (ms_held mutex_sys_init 5 64 + (if (0::int) = 0 then 1 else 0))\<rparr>"
  have "mutex_reach ?cfg ?s"
    by (rule mutex_reach.step [OF mutex_reach.init mutex_step.tried [of ?cp 5 64]])
      (use r t in \<open>simp_all add: mutex_sys_init_def\<close>)
  then have "ms_held ?s 5 64 > 0 \<longleftrightarrow> (5::task_id) \<noteq> NO_TASK \<and> mutex_owner (ms_st ?s) 64 = 5"
    using mutex_mutual_exclusion [of ?cfg ?s 5 64] by blast
  with t have "ms_held ?s 5 64 = 1 \<and> mutex_owner (ms_st ?s) 64 = 5 \<and> ms_held ?s 6 64 = 0"
    by (simp add: held_upd_def mutex_sys_init_def)
  then show ?thesis by blast
qed

text \<open>
  Claim C9. In every reachable state no assertion of the module fails and no loop runs forever: a task
  that is not pending can capture an acquire event, be resumed from a try event and be resumed from
  the release of a mutex it holds, and a pending task that need not wait is resumed with the mutex.
\<close>

theorem mutex_never_stops:
  assumes "mutex_reach cfg s" and "cp_id cp \<noteq> NO_TASK" and "tidset_inv (e_tset e)" and "\<not> e_skip e"
    and "e_any_task_filter e = None"
  shows "(ms_pend s (cp_id cp) = None \<and> cp_type_id cp = EVENT_MUTEX_ACQUIRE \<longrightarrow>
      (\<exists>e' st'. mutex_handle cfg cp e (ms_st s) = Some (Inr (e', st')))) \<and>
    (ms_pend s (cp_id cp) = None \<and> cp_type_id cp = EVENT_MUTEX_TRYACQUIRE \<longrightarrow>
      (\<exists>e' st'. mutex_handle cfg cp e (ms_st s) = Some (Inr (e', st'))) \<and>
      (\<exists>r st'. mutex_resume cfg cp (ms_st s) = Inr (Some r, st'))) \<and>
    (ms_pend s (cp_id cp) = None \<and> cp_type_id cp = EVENT_MUTEX_RELEASE \<and> ms_held s (cp_id cp) (cp_addr cp) > 0 \<longrightarrow>
      (\<exists>e' st'. mutex_handle cfg cp e (ms_st s) = Some (Inr (e', st'))) \<and>
      (\<exists>st'. mutex_resume cfg cp (ms_st s) = Inr (None, st'))) \<and>
    (ms_pend s (cp_id cp) = Some (cp_addr cp) \<and> cp_type_id cp = EVENT_MUTEX_ACQUIRE \<and>
      mutex_should_wait (ms_st s) (cp_id cp) = Inr False \<longrightarrow>
      (\<exists>st'. mutex_resume cfg cp (ms_st s) = Inr (None, st') \<and> mutex_owner st' (cp_addr cp) = cp_id cp))"
proof (intro conjI impI)
  have inv: "mutex_sys_inv s" using assms(1) by (rule mutex_reach_sys_inv)
  note ok = mutex_handle_succeeds [OF inv assms(2) _ assms(3-5)]
  {
    assume "ms_pend s (cp_id cp) = None \<and> cp_type_id cp = EVENT_MUTEX_ACQUIRE"
    then show "\<exists>e' st'. mutex_handle cfg cp e (ms_st s) = Some (Inr (e', st'))" by (intro ok) auto
  next
    assume a: "ms_pend s (cp_id cp) = None \<and> cp_type_id cp = EVENT_MUTEX_TRYACQUIRE"
    then show "\<exists>e' st'. mutex_handle cfg cp e (ms_st s) = Some (Inr (e', st'))" by (intro ok) auto
    show "\<exists>r st'. mutex_resume cfg cp (ms_st s) = Inr (Some r, st')"
      using mutex_tried_preserves [OF inv _ assms(2), of "cp_addr cp"] a by (auto simp: mutex_resume_def)
  next
    assume a: "ms_pend s (cp_id cp) = None \<and> cp_type_id cp = EVENT_MUTEX_RELEASE \<and> ms_held s (cp_id cp) (cp_addr cp) > 0"
    then have "mutex_owner (ms_st s) (cp_addr cp) = cp_id cp"
      using mutex_held_owner [OF inv] by simp
    then have "mlook (ms_st s) (cp_addr cp) \<noteq> None" using assms(2) by (auto simp: mutex_owner_def split: option.splits)
    with a show "\<exists>e' st'. mutex_handle cfg cp e (ms_st s) = Some (Inr (e', st'))" by (intro ok) auto
    show "\<exists>st'. mutex_resume cfg cp (ms_st s) = Inr (None, st')"
      using mutex_released_preserves [OF inv, of "cp_id cp" "cp_addr cp" cfg] a by (auto simp: mutex_resume_def)
  next
    assume a: "ms_pend s (cp_id cp) = Some (cp_addr cp) \<and> cp_type_id cp = EVENT_MUTEX_ACQUIRE \<and>
      mutex_should_wait (ms_st s) (cp_id cp) = Inr False"
    then have "cp_id cp \<notin> mutex_blocked (ms_st s)"
      by (simp add: mutex_should_wait_blocked mutex_sys_inv_inv [OF inv])
    with a obtain st' where h: "mutex_posthandle_acquire (ms_st s) (cp_id cp) (cp_addr cp) = Inr st'" and
      i: "mutex_sys_inv (s\<lparr>ms_st := st', ms_pend := (ms_pend s)(cp_id cp := None),
        ms_held := held_upd (ms_held s) (cp_id cp) (cp_addr cp) (ms_held s (cp_id cp) (cp_addr cp) + 1)\<rparr>)"
      using mutex_acquired_preserves [OF inv] by blast
    with mutex_held_owner [OF i, of "cp_id cp" "cp_addr cp"] a
    show "\<exists>st'. mutex_resume cfg cp (ms_st s) = Inr (None, st') \<and> mutex_owner st' (cp_addr cp) = cp_id cp"
      by (simp add: mutex_resume_def held_upd_def)
  }
qed

theorem mutex_never_stops_witness:
  "\<exists>e' st'. mutex_handle \<lparr>mc_deadlock_check = True, mc_strict = True\<rparr>
     (event_cp EVENT_MUTEX_ACQUIRE 5 64) sample_event mutex_state_init = Some (Inr (e', st'))"
proof -
  have "cp_id (event_cp EVENT_MUTEX_ACQUIRE 5 64) \<noteq> NO_TASK" by (simp add: NO_TASK_def)
  from mutex_never_stops [OF mutex_reach.init this sample_event_simps(1-3)]
  show ?thesis by (auto simp: mutex_sys_init_def)
qed

text \<open>
  The capture handler keeps the invariant and removes from the candidate set exactly the
  tasks that wait for an owned mutex, which are the tasks for which \<^verbatim>\<open>_should_wait\<close> holds; it leaves
  the reason of the decision alone.
\<close>

theorem mutex_handle_blocks:
  assumes "mutex_inv st" and "tidset_inv (e_tset e)" and "cp_id cp \<noteq> NO_TASK" and "\<not> e_skip e"
    and "mutex_handle cfg cp e st = Some (Inr (e', st'))"
  shows "mutex_inv st' \<and> tidset_inv (e_tset e') \<and>
    tids (e_tset e') = {t \<in> tids (e_tset e). mutex_should_wait st' t = Inr False} \<and>
    e_reason e' = e_reason e"
proof -
  obtain e1 tset where "e' = e1\<lparr>e_tset := tset\<rparr>" "mutex_inv st'" "tidset_inv tset"
    "tids tset = tids (e_tset e) - mutex_blocked st'" "e_reason e1 = e_reason e"
    by (rule mutex_handle_cases [OF assms(1-5)])
  then show ?thesis by (auto simp: mutex_should_wait_blocked)
qed

definition sample_mutexes :: handler_mutex where
  "sample_mutexes = \<lparr>hm_mutexes = \<lparr>map_chain = [
     (64, \<lparr>mtx_waiters = \<lparr>ts_capacity = 1, ts_size = 1, ts_tasks = Some [6]\<rparr>, mtx_owner = 5, mtx_count = 1\<rparr>),
     (72, \<lparr>mtx_waiters = \<lparr>ts_capacity = 1, ts_size = 1, ts_tasks = Some [5]\<rparr>, mtx_owner = 6, mtx_count = 1\<rparr>)],
     map_nitems = 2\<rparr>, hm_waiters = tidset_init\<rparr>"

lemma sample_mutexes_inv: "mutex_inv sample_mutexes"
  by (simp add: sample_mutexes_def mutex_inv_def mutex_base_def map_inv_def map_iterate_def mtx_ok_def
      tidset_init_def tidset_init_cap_def tidset_inv_def tidset_wf_def tidset_list_def tids_def NO_TASK_def)

theorem mutex_handle_blocks_witness:
  "\<exists>e' st'. mutex_handle \<lparr>mc_deadlock_check = False, mc_strict = True\<rparr>
     (event_cp EVENT_MUTEX_TRYACQUIRE 7 64) sample_event sample_mutexes = Some (Inr (e', st')) \<and>
     tids (e_tset e') = {}"
proof -
  let ?cfg = "\<lparr>mc_deadlock_check = False, mc_strict = True\<rparr>" and ?cp = "event_cp EVENT_MUTEX_TRYACQUIRE 7 64"
  have "case mutex_handle ?cfg ?cp sample_event sample_mutexes of
      Some (Inr (e', st')) \<Rightarrow> mutex_should_wait st' 5 = Inr True \<and> mutex_should_wait st' 6 = Inr True | _ \<Rightarrow> False"
    by code_simp
  then obtain e' st' where r: "mutex_handle ?cfg ?cp sample_event sample_mutexes = Some (Inr (e', st'))"
    and w: "mutex_should_wait st' 5 = Inr True" "mutex_should_wait st' 6 = Inr True"
    by (auto elim: case_Some_InrE)
  have "cp_id ?cp \<noteq> NO_TASK" by (simp add: NO_TASK_def)
  from mutex_handle_blocks [OF sample_mutexes_inv sample_event_simps(1) this sample_event_simps(2) r] w
  have "tids (e_tset e') = {}" by (auto simp: sample_event_simps(4))
  with r show ?thesis by blast
qed

text \<open>
  The deadlock check never reports a deadlock: the set it consults to decide whether the
  owner of a mutex is itself waiting is never filled. The witness is a state in which two tasks each
  hold the mutex the other one waits for.
\<close>

theorem mutex_deadlock_unreported:
  assumes "mutex_inv st" and "t \<noteq> NO_TASK"
  shows "mutex_check_deadlock st t a NO_TASK \<noteq> Some (Inr True)"
  by (simp add: mutex_check_deadlock_False [OF mutex_inv_base [OF assms(1)] assms(2)] split: option.split)

theorem mutex_deadlock_unreported_witness:
  "mutex_owner sample_mutexes 64 = 5 \<and> mutex_should_wait sample_mutexes 5 = Inr True \<and>
   mutex_owner sample_mutexes 72 = 6 \<and> mutex_should_wait sample_mutexes 6 = Inr True \<and>
   mutex_check_deadlock sample_mutexes 5 72 NO_TASK \<noteq> Some (Inr True)"
proof -
  have "mutex_owner sample_mutexes 64 = 5 \<and> mutex_should_wait sample_mutexes 5 = Inr True \<and>
    mutex_owner sample_mutexes 72 = 6 \<and> mutex_should_wait sample_mutexes 6 = Inr True"
    by code_simp
  moreover have "(5::task_id) \<noteq> NO_TASK" by (simp add: NO_TASK_def)
  ultimately show ?thesis using mutex_deadlock_unreported [OF sample_mutexes_inv] by blast
qed

end
