(* ===== verification/Rwlock.thy ===== *)
theory Rwlock
  imports Capture
begin

text \<open>
  The reader-writer lock module, \<^verbatim>\<open>modules/rwlock/src/handler.c\<close>: for every lock the writer, the readers
  with their recursion counts, and the tasks waiting to read and to write. The capture handler queues
  the task of a lock event and removes from the candidate set the tasks that cannot proceed; the
  resume subscriber takes and releases the lock. Waiting writers go before waiting readers on a free
  lock.

  The numbers of the lock events are defined by the interception library outside this repository. The
  definitions take the decoding of a type number as the argument \<open>ev\<close>.

  The structure follows the mutex module: operations on the abstract map, a protocol of calls with
  the locks each task holds as ghost state, and the properties of all its runs.
\<close>

section \<open>Data\<close>

record rwlock =
  rw_writer :: task_id
  rw_readers :: "int map_t"   \<comment> \<open>\<^verbatim>\<open>cnt\<close> of each \<^verbatim>\<open>struct reader\<close>\<close>
  rw_read_waiters :: tidset
  rw_write_waiters :: tidset

record handler_rwlock =
  hr_locks :: "rwlock map_t"

datatype rwlock_event =
    EVENT_RWLOCK_RDLOCK | EVENT_RWLOCK_TIMEDRDLOCK | EVENT_RWLOCK_WRLOCK | EVENT_RWLOCK_TIMEDWRLOCK
  | EVENT_RWLOCK_TRYRDLOCK | EVENT_RWLOCK_TRYWRLOCK | EVENT_RWLOCK_UNLOCK

type_synonym rwlock_decode = "type_id \<Rightarrow> rwlock_event option"

definition zero_rwlock :: rwlock where
  "zero_rwlock = \<lparr>rw_writer = NO_TASK, rw_readers = map_init, rw_read_waiters = zero_tidset,
     rw_write_waiters = zero_tidset\<rparr>"

definition rwlock_state_init :: handler_rwlock where
  "rwlock_state_init = \<lparr>hr_locks = map_init\<rparr>"

definition rwlock_event_of :: "rwlock_decode \<Rightarrow> capture_point \<Rightarrow> rwlock_event option" where
  "rwlock_event_of ev cp = ev (cp_type_id cp)"

definition rwlock_addr :: "rwlock_decode \<Rightarrow> capture_point \<Rightarrow> 64 word result" where
  "rwlock_addr ev cp = (case rwlock_event_of ev cp of Some _ \<Rightarrow> Inr (cp_addr cp) | None \<Rightarrow> Inl AssertFailed)"

section \<open>Operations\<close>

definition rwlock_init :: "handler_rwlock \<Rightarrow> 64 word \<Rightarrow> (rwlock \<times> handler_rwlock) result" where
  "rwlock_init st addr =
     (case map_find (hr_locks st) addr of
        Some l \<Rightarrow> Inr (l, st)
      | None \<Rightarrow>
          bindr (map_register zero_rwlock (hr_locks st) addr) (\<lambda>ls.
            let l = \<lparr>rw_writer = NO_TASK, rw_readers = map_init, rw_read_waiters = tidset_init,
                     rw_write_waiters = tidset_init\<rparr>
            in Inr (l, st\<lparr>hr_locks := map_write ls addr l\<rparr>)))"

definition rwlock_is_read_locked :: "rwlock \<Rightarrow> bool result" where
  "rwlock_is_read_locked l =
     (let n = map_size (rw_readers l) in assertr (n = 0 \<or> rw_writer l = NO_TASK) (Inr (n > 0)))"

definition rwlock_is_read_locked_by :: "rwlock \<Rightarrow> task_id \<Rightarrow> bool result" where
  "rwlock_is_read_locked_by l t = bindr (tidmap_find (rw_readers l) t) (\<lambda>r. Inr (r \<noteq> None))"

definition rwlock_is_write_locked :: "rwlock \<Rightarrow> bool" where
  "rwlock_is_write_locked l \<longleftrightarrow> rw_writer l \<noteq> NO_TASK"

text \<open>One lock in the loop of \<^verbatim>\<open>_should_wait\<close>.\<close>

definition rwlock_waits_at :: "rwlock \<Rightarrow> task_id \<Rightarrow> bool result" where
  "rwlock_waits_at l t =
     (if rwlock_is_write_locked l then
        bindr (tidset_has (rw_write_waiters l) t) (\<lambda>w.
          if w then Inr True else tidset_has (rw_read_waiters l) t)
      else bindr (rwlock_is_read_locked l) (\<lambda>rl.
        if rl then tidset_has (rw_write_waiters l) t
        else if tidset_size (rw_write_waiters l) > 0 then tidset_has (rw_read_waiters l) t
        else Inr False))"

fun rwlock_should_wait_loop :: "(64 word \<times> rwlock) list \<Rightarrow> task_id \<Rightarrow> bool result" where
  "rwlock_should_wait_loop [] t = Inr False"
| "rwlock_should_wait_loop (it # its) t =
     bindr (rwlock_waits_at (snd it) t) (\<lambda>w. if w then Inr True else rwlock_should_wait_loop its t)"

definition rwlock_should_wait :: "handler_rwlock \<Rightarrow> task_id \<Rightarrow> bool result" where
  "rwlock_should_wait st t = rwlock_should_wait_loop (map_iterate (hr_locks st)) t"

text \<open>A write through the lock pointer.\<close>

definition rwlock_store :: "handler_rwlock \<Rightarrow> 64 word \<Rightarrow> rwlock \<Rightarrow> handler_rwlock" where
  "rwlock_store st addr l = st\<lparr>hr_locks := map_write (hr_locks st) addr l\<rparr>"

text \<open>The result of the two \<^verbatim>\<open>_handle_\<close> functions and the decision with its reason.\<close>

definition rwlock_handle_rdlock :: "handler_rwlock \<Rightarrow> task_id \<Rightarrow> 64 word \<Rightarrow> decision \<Rightarrow>
    (bool \<times> decision \<times> handler_rwlock) result" where
  "rwlock_handle_rdlock st t addr e =
     bindr (rwlock_init st addr) (\<lambda>(l, st).
       if rwlock_is_write_locked l \<and> rw_writer l = t
       then Inr (False, e\<lparr>e_reason := REASON_RSRC_DEADLOCK\<rparr>, st)
       else bindr (tidset_insert (rw_read_waiters l) t) (\<lambda>(ok, ws).
         assertr ok (Inr (True, e, rwlock_store st addr (l\<lparr>rw_read_waiters := ws\<rparr>)))))"

definition rwlock_handle_wrlock :: "handler_rwlock \<Rightarrow> task_id \<Rightarrow> 64 word \<Rightarrow> decision \<Rightarrow>
    (bool \<times> decision \<times> handler_rwlock) result" where
  "rwlock_handle_wrlock st t addr e =
     bindr (rwlock_init st addr) (\<lambda>(l, st).
     bindr (rwlock_is_read_locked l) (\<lambda>rl.
     bindr (if rwlock_is_write_locked l \<and> rw_writer l = t then Inr True
            else if rl then rwlock_is_read_locked_by l t else Inr False) (\<lambda>own.
       if own then Inr (False, e\<lparr>e_reason := REASON_RSRC_DEADLOCK\<rparr>, st)
       else bindr (tidset_insert (rw_write_waiters l) t) (\<lambda>(ok, ws).
         assertr ok (Inr (True, e, rwlock_store st addr (l\<lparr>rw_write_waiters := ws\<rparr>)))))))"

text \<open>Finding or registering the reader and incrementing its count.\<close>

definition rwlock_add_reader :: "rwlock \<Rightarrow> task_id \<Rightarrow> rwlock result" where
  "rwlock_add_reader l t =
     bindr (tidmap_find (rw_readers l) t) (\<lambda>r.
     bindr (case r of
              Some c \<Rightarrow> Inr (c, rw_readers l)
            | None \<Rightarrow> bindr (tidmap_register 0 (rw_readers l) t) (\<lambda>rs. Inr (0, rs))) (\<lambda>(c, rs).
       Inr (l\<lparr>rw_readers := map_write rs t (c + 1)\<rparr>)))"

definition rwlock_posthandle_rdlock :: "handler_rwlock \<Rightarrow> task_id \<Rightarrow> 64 word \<Rightarrow> handler_rwlock result" where
  "rwlock_posthandle_rdlock st t addr =
     bindr (rwlock_init st addr) (\<lambda>(l, st).
     assertr (\<not> rwlock_is_write_locked l)
       (bindr (tidset_has (rw_read_waiters l) t) (\<lambda>h.
          if \<not> h then Inr st
          else bindr (tidset_remove (rw_read_waiters l) t) (\<lambda>(ok, ws).
            assertr ok
              (bindr (rwlock_add_reader (l\<lparr>rw_read_waiters := ws\<rparr>) t) (\<lambda>l.
                 Inr (rwlock_store st addr l)))))))"

definition rwlock_posthandle_tryrdlock :: "handler_rwlock \<Rightarrow> task_id \<Rightarrow> 64 word \<Rightarrow> (int \<times> handler_rwlock) result" where
  "rwlock_posthandle_tryrdlock st t addr =
     bindr (rwlock_init st addr) (\<lambda>(l, st).
       if rwlock_is_write_locked l then
         (if rw_writer l = t then Inr (EDEADLK, st) else Inr (EBUSY, st))
       else if tidset_size (rw_write_waiters l) > 0 then Inr (EBUSY, st)
       else bindr (rwlock_add_reader l t) (\<lambda>l. Inr (0, rwlock_store st addr l)))"

definition rwlock_posthandle_wrlock :: "handler_rwlock \<Rightarrow> task_id \<Rightarrow> 64 word \<Rightarrow> handler_rwlock result" where
  "rwlock_posthandle_wrlock st t addr =
     bindr (rwlock_init st addr) (\<lambda>(l, st).
     bindr (rwlock_is_read_locked l) (\<lambda>rl.
     assertr (\<not> rl) (assertr (rw_writer l = NO_TASK)
       (bindr (tidset_has (rw_write_waiters l) t) (\<lambda>h.
          if \<not> h then Inr st
          else bindr (tidset_remove (rw_write_waiters l) t) (\<lambda>(ok, ws).
            assertr ok (Inr (rwlock_store st addr (l\<lparr>rw_write_waiters := ws, rw_writer := t\<rparr>)))))))))"

definition rwlock_posthandle_trywrlock :: "handler_rwlock \<Rightarrow> task_id \<Rightarrow> 64 word \<Rightarrow> (int \<times> handler_rwlock) result" where
  "rwlock_posthandle_trywrlock st t addr =
     bindr (rwlock_init st addr) (\<lambda>(l, st).
       if rw_writer l = t then Inr (EDEADLK, st)
       else bindr (rwlock_is_read_locked l) (\<lambda>rl.
         if rl \<or> rwlock_is_write_locked l then Inr (EBUSY, st)
         else Inr (0, rwlock_store st addr (l\<lparr>rw_writer := t\<rparr>))))"

text \<open>An unlock by a task that holds nothing is logged and ignored.\<close>

definition rwlock_posthandle_unlock :: "handler_rwlock \<Rightarrow> task_id \<Rightarrow> 64 word \<Rightarrow> handler_rwlock result" where
  "rwlock_posthandle_unlock st t addr =
     bindr (rwlock_init st addr) (\<lambda>(l, st).
       if rw_writer l \<noteq> NO_TASK then
         assertr (rw_writer l = t) (Inr (rwlock_store st addr (l\<lparr>rw_writer := NO_TASK\<rparr>)))
       else bindr (rwlock_is_read_locked_by l t) (\<lambda>mine.
         if mine then
           bindr (tidmap_find (rw_readers l) t) (\<lambda>r.
             case r of
               None \<Rightarrow> Inl AssertFailed
             | Some c \<Rightarrow>
                 assertr (c \<ge> 0)
                   (let c = c - 1; rs = map_write (rw_readers l) t c in
                    bindr (if c = 0 then tidmap_deregister rs t else Inr rs) (\<lambda>rs.
                      Inr (rwlock_store st addr (l\<lparr>rw_readers := rs\<rparr>)))))
         else Inr st))"

text \<open>One lock in the loop of \<^verbatim>\<open>_rwlock_handle\<close> that removes the tasks which cannot proceed.\<close>

definition rwlock_remove_at :: "rwlock \<Rightarrow> tidset \<Rightarrow> tidset result" where
  "rwlock_remove_at l tset =
     bindr (rwlock_is_read_locked l) (\<lambda>rl.
       if rl then tidset_subtract tset (rw_write_waiters l)
       else if rwlock_is_write_locked l then
         bindr (tidset_subtract tset (rw_read_waiters l)) (\<lambda>tset.
           tidset_subtract tset (rw_write_waiters l))
       else if tidset_size (rw_write_waiters l) \<noteq> 0 then tidset_subtract tset (rw_read_waiters l)
       else Inr tset)"

fun rwlock_remove_loop :: "(64 word \<times> rwlock) list \<Rightarrow> tidset \<Rightarrow> tidset result" where
  "rwlock_remove_loop [] tset = Inr tset"
| "rwlock_remove_loop (it # its) tset =
     bindr (rwlock_remove_at (snd it) tset) (\<lambda>tset. rwlock_remove_loop its tset)"

definition rwlock_handle_event ::
  "rwlock_decode \<Rightarrow> capture_point \<Rightarrow> decision \<Rightarrow> handler_rwlock \<Rightarrow> (decision \<times> handler_rwlock) result" where
  "rwlock_handle_event ev cp e st =
     (let filtered = (\<lambda>(_, e, st).
        assertr (e_any_task_filter e = None)
          (Inr (e\<lparr>e_is_chpt := True, e_any_task_filter := Some RWLOCK_SHOULD_WAIT\<rparr>, st)))
      in case rwlock_event_of ev cp of
        Some EVENT_RWLOCK_RDLOCK \<Rightarrow> bindr (rwlock_addr ev cp) (\<lambda>a. bindr (rwlock_handle_rdlock st (cp_id cp) a e) filtered)
      | Some EVENT_RWLOCK_TIMEDRDLOCK \<Rightarrow> bindr (rwlock_addr ev cp) (\<lambda>a. bindr (rwlock_handle_rdlock st (cp_id cp) a e) filtered)
      | Some EVENT_RWLOCK_WRLOCK \<Rightarrow> bindr (rwlock_addr ev cp) (\<lambda>a. bindr (rwlock_handle_wrlock st (cp_id cp) a e) filtered)
      | Some EVENT_RWLOCK_TIMEDWRLOCK \<Rightarrow> bindr (rwlock_addr ev cp) (\<lambda>a. bindr (rwlock_handle_wrlock st (cp_id cp) a e) filtered)
      | Some _ \<Rightarrow> Inr (e\<lparr>e_is_chpt := True\<rparr>, st)
      | None \<Rightarrow> Inr (e, st))"

definition rwlock_handle ::
  "rwlock_decode \<Rightarrow> capture_point \<Rightarrow> decision \<Rightarrow> handler_rwlock \<Rightarrow> (decision \<times> handler_rwlock) result" where
  "rwlock_handle ev cp e st =
     (if e_skip e then Inr (e, st)
      else assertr (cp_id cp \<noteq> NO_TASK)
        (bindr (rwlock_handle_event ev cp e st) (\<lambda>(e, st).
         bindr (rwlock_remove_loop (map_iterate (hr_locks st)) (e_tset e)) (\<lambda>tset.
           Inr (e\<lparr>e_tset := tset\<rparr>, st)))))"

text \<open>The resume subscriber; the first component is the value written to \<^verbatim>\<open>ret\<close> of a try event.\<close>

definition rwlock_resume ::
  "rwlock_decode \<Rightarrow> capture_point \<Rightarrow> handler_rwlock \<Rightarrow> (int option \<times> handler_rwlock) result" where
  "rwlock_resume ev cp st =
     (let plain = (\<lambda>st. Inr (None, st)); ret = (\<lambda>(r, st). Inr (Some r, st))
      in case rwlock_event_of ev cp of
        Some EVENT_RWLOCK_RDLOCK \<Rightarrow> bindr (rwlock_addr ev cp) (\<lambda>a. bindr (rwlock_posthandle_rdlock st (cp_id cp) a) plain)
      | Some EVENT_RWLOCK_TIMEDRDLOCK \<Rightarrow> bindr (rwlock_addr ev cp) (\<lambda>a. bindr (rwlock_posthandle_rdlock st (cp_id cp) a) plain)
      | Some EVENT_RWLOCK_WRLOCK \<Rightarrow> bindr (rwlock_addr ev cp) (\<lambda>a. bindr (rwlock_posthandle_wrlock st (cp_id cp) a) plain)
      | Some EVENT_RWLOCK_TIMEDWRLOCK \<Rightarrow> bindr (rwlock_addr ev cp) (\<lambda>a. bindr (rwlock_posthandle_wrlock st (cp_id cp) a) plain)
      | Some EVENT_RWLOCK_UNLOCK \<Rightarrow> bindr (rwlock_addr ev cp) (\<lambda>a. bindr (rwlock_posthandle_unlock st (cp_id cp) a) plain)
      | Some EVENT_RWLOCK_TRYRDLOCK \<Rightarrow> bindr (rwlock_addr ev cp) (\<lambda>a. bindr (rwlock_posthandle_tryrdlock st (cp_id cp) a) ret)
      | Some EVENT_RWLOCK_TRYWRLOCK \<Rightarrow> bindr (rwlock_addr ev cp) (\<lambda>a. bindr (rwlock_posthandle_trywrlock st (cp_id cp) a) ret)
      | None \<Rightarrow> Inr (None, st))"

section \<open>Invariant\<close>

abbreviation rlook :: "handler_rwlock \<Rightarrow> 64 word \<Rightarrow> rwlock option" where
  "rlook st \<equiv> map_find (hr_locks st)"

definition fresh_rwlock :: rwlock where
  "fresh_rwlock = \<lparr>rw_writer = NO_TASK, rw_readers = map_init, rw_read_waiters = tidset_init,
     rw_write_waiters = tidset_init\<rparr>"

text \<open>A lock has a writer or readers but not both, and every reader has a positive count.\<close>

definition rw_ok :: "rwlock \<Rightarrow> bool" where
  "rw_ok l \<longleftrightarrow> map_inv (rw_readers l) \<and> tidset_inv (rw_read_waiters l) \<and> tidset_inv (rw_write_waiters l) \<and>
     list_all (\<lambda>it. fst it \<noteq> NO_TASK \<and> snd it > 0) (map_iterate (rw_readers l)) \<and>
     (rw_writer l = NO_TASK \<or> map_size (rw_readers l) = 0)"

definition rwlock_inv :: "handler_rwlock \<Rightarrow> bool" where
  "rwlock_inv st \<longleftrightarrow> map_inv (hr_locks st) \<and> list_all (\<lambda>it. rw_ok (snd it)) (map_iterate (hr_locks st))"

text \<open>The tasks that cannot proceed because of one lock, and because of any lock.\<close>

definition rw_blocked_at :: "rwlock \<Rightarrow> task_id set" where
  "rw_blocked_at l =
     (if rw_writer l \<noteq> NO_TASK then tids (rw_read_waiters l) \<union> tids (rw_write_waiters l)
      else if map_size (rw_readers l) > 0 then tids (rw_write_waiters l)
      else if tids (rw_write_waiters l) \<noteq> {} then tids (rw_read_waiters l) else {})"

definition rwlock_blocked :: "handler_rwlock \<Rightarrow> task_id set" where
  "rwlock_blocked st = {t. \<exists>a l. rlook st a = Some l \<and> t \<in> rw_blocked_at l}"

lemma rwlock_inv_alt: "rwlock_inv st \<longleftrightarrow> map_inv (hr_locks st) \<and> (\<forall>a l. rlook st a = Some l \<longrightarrow> rw_ok l)"
  by (auto simp: rwlock_inv_def list_all_iterate)

lemma rwlock_inv_ok: "rwlock_inv st \<Longrightarrow> rlook st a = Some l \<Longrightarrow> rw_ok l"
  by (auto simp: rwlock_inv_alt)

lemma fresh_rwlock_simps [simp]:
  "rw_writer fresh_rwlock = NO_TASK" "rw_readers fresh_rwlock = map_init"
  "rw_read_waiters fresh_rwlock = tidset_init" "rw_write_waiters fresh_rwlock = tidset_init"
  by (simp_all add: fresh_rwlock_def)

lemma rw_ok_alt:
  "rw_ok l \<longleftrightarrow> map_inv (rw_readers l) \<and> tidset_inv (rw_read_waiters l) \<and> tidset_inv (rw_write_waiters l) \<and>
     (\<forall>t c. map_find (rw_readers l) t = Some c \<longrightarrow> t \<noteq> NO_TASK \<and> c > 0) \<and>
     (rw_writer l = NO_TASK \<or> map_find (rw_readers l) = (\<lambda>_. None))"
  using map_size_0 [of "rw_readers l"] map_iterate_find [of "rw_readers l"]
  by (fastforce simp: rw_ok_def list_all_iff)

lemma rw_ok_fresh [simp]: "rw_ok fresh_rwlock"
  by (simp add: rw_ok_alt)

lemma rw_ok_lookup: "rwlock_inv st \<Longrightarrow> rw_ok (case rlook st a of Some l \<Rightarrow> l | None \<Rightarrow> fresh_rwlock)"
  by (auto simp: rwlock_inv_ok split: option.split)

lemma rwlock_inv_state_init [simp]: "rwlock_inv rwlock_state_init"
  by (simp add: rwlock_inv_alt rwlock_state_init_def)

lemma rlook_store: "rlook st a \<noteq> None \<Longrightarrow> rlook (rwlock_store st a l) = (rlook st)(a \<mapsto> l)"
  by (auto simp: rwlock_store_def map_find_write)

lemma map_inv_store [simp]: "map_inv (hr_locks (rwlock_store st a l)) = map_inv (hr_locks st)"
  by (simp add: rwlock_store_def)

lemma rwlock_inv_upd:
  "rwlock_inv st \<Longrightarrow> map_inv (hr_locks st') \<Longrightarrow> rlook st' = (rlook st)(a \<mapsto> l) \<Longrightarrow> rw_ok l \<Longrightarrow> rwlock_inv st'"
  by (auto simp: rwlock_inv_alt)

section \<open>The operations on the abstract map\<close>

lemma rwlock_init_total:
  assumes "map_inv (hr_locks st)"
  obtains st' where "rwlock_init st a = Inr (case rlook st a of Some l \<Rightarrow> l | None \<Rightarrow> fresh_rwlock, st')"
    and "map_inv (hr_locks st')"
    and "rlook st' = (rlook st)(a \<mapsto> (case rlook st a of Some l \<Rightarrow> l | None \<Rightarrow> fresh_rwlock))"
proof -
  let ?l = "case rlook st a of Some l \<Rightarrow> l | None \<Rightarrow> fresh_rwlock"
  from km.ensure_total [OF assms, of zero_rwlock a fresh_rwlock] obtain ls where
    ls: "km.ensure zero_rwlock (hr_locks st) a fresh_rwlock = Inr ls" "map_inv ls" "map_find ls = (rlook st)(a \<mapsto> ?l)"
    by blast
  have "rwlock_init st a = bindr (km.ensure zero_rwlock (hr_locks st) a fresh_rwlock)
      (\<lambda>ls. Inr (?l, st\<lparr>hr_locks := ls\<rparr>))"
    by (cases "rlook st a"; cases "map_register zero_rwlock (hr_locks st) a")
      (simp_all add: rwlock_init_def km.ensure_def fresh_rwlock_def Let_def)
  with ls that [of "st\<lparr>hr_locks := ls\<rparr>"] show ?thesis by simp
qed

lemma rwlock_is_read_locked_ok:
  "rw_ok l \<Longrightarrow> rwlock_is_read_locked l = Inr (map_size (rw_readers l) > 0)"
  by (auto simp: rw_ok_def rwlock_is_read_locked_def)

lemma rwlock_waits_at_ok: "rw_ok l \<Longrightarrow> rwlock_waits_at l t = Inr (t \<in> rw_blocked_at l)"
  by (auto simp: rw_ok_def rwlock_waits_at_def rwlock_is_write_locked_def rwlock_is_read_locked_def
      rw_blocked_at_def tidset_has_inv tidset_size_card card_gt_0_iff)

lemma rwlock_remove_at_ok:
  assumes "rw_ok l" and "tidset_inv tset"
  shows "\<exists>tset'. rwlock_remove_at l tset = Inr tset' \<and> tidset_inv tset' \<and> tids tset' = tids tset - rw_blocked_at l"
proof -
  have i: "tidset_inv (rw_read_waiters l)" "tidset_inv (rw_write_waiters l)"
    using assms(1) by (simp_all add: rw_ok_def)
  have sz: "tidset_size (rw_write_waiters l) = 0 \<longleftrightarrow> tids (rw_write_waiters l) = {}"
    using i by (simp add: tidset_size_card)
  note rm = rwlock_remove_at_def rwlock_is_read_locked_ok [OF assms(1)] rwlock_is_write_locked_def rw_blocked_at_def
  consider (r) "map_size (rw_readers l) > 0" "rw_writer l = NO_TASK"
    | (w) "map_size (rw_readers l) = 0" "rw_writer l \<noteq> NO_TASK"
    | (f) "map_size (rw_readers l) = 0" "rw_writer l = NO_TASK"
    using assms(1) by (auto simp: rw_ok_def)
  then show ?thesis
  proof cases
    case r
    with tidset_subtract_inv [OF assms(2) i(2)] show ?thesis by (simp add: rm)
  next
    case w
    obtain t1 where t1: "tidset_subtract tset (rw_read_waiters l) = Inr t1" "tidset_inv t1"
        "tids t1 = tids tset - tids (rw_read_waiters l)"
      using tidset_subtract_inv [OF assms(2) i(1)] by blast
    from tidset_subtract_inv [OF t1(2) i(2)] t1 w show ?thesis by (auto simp: rm)
  next
    case f
    with tidset_subtract_inv [OF assms(2) i(1)] assms(2) sz show ?thesis by (auto simp: rm)
  qed
qed

lemma rwlock_remove_loop_ok:
  assumes "\<forall>it\<in>set its. rw_ok (snd it)" and "tidset_inv tset"
  shows "\<exists>tset'. rwlock_remove_loop its tset = Inr tset' \<and> tidset_inv tset' \<and>
    tids tset' = tids tset - {t. \<exists>it\<in>set its. t \<in> rw_blocked_at (snd it)}"
  using assms
proof (induction its arbitrary: tset)
  case (Cons it its)
  obtain t1 where t1: "rwlock_remove_at (snd it) tset = Inr t1" "tidset_inv t1"
      "tids t1 = tids tset - rw_blocked_at (snd it)"
    using rwlock_remove_at_ok [of "snd it" tset] Cons.prems by auto
  obtain t2 where "rwlock_remove_loop its t1 = Inr t2" "tidset_inv t2"
      "tids t2 = tids t1 - {t. \<exists>it\<in>set its. t \<in> rw_blocked_at (snd it)}"
    using Cons.IH [OF _ t1(2)] Cons.prems(1) by auto
  with t1 show ?case by auto
qed simp

lemma rwlock_blocked_iterate:
  "rwlock_inv st \<Longrightarrow> (\<exists>it\<in>set (map_iterate (hr_locks st)). t \<in> rw_blocked_at (snd it)) \<longleftrightarrow> t \<in> rwlock_blocked st"
  using bex_iterate [of "hr_locks st" "\<lambda>l. t \<in> rw_blocked_at l"]
  by (simp add: rwlock_inv_def rwlock_blocked_def)

lemma rwlock_remove_ok:
  assumes "rwlock_inv st" and "tidset_inv tset"
  obtains tset' where "rwlock_remove_loop (map_iterate (hr_locks st)) tset = Inr tset'"
    and "tidset_inv tset'" and "tids tset' = tids tset - rwlock_blocked st"
proof -
  have "\<forall>it\<in>set (map_iterate (hr_locks st)). rw_ok (snd it)"
    using assms(1) by (simp add: rwlock_inv_def list_all_iff)
  from rwlock_remove_loop_ok [OF this assms(2)] that show ?thesis
    by (auto simp: rwlock_blocked_iterate [OF assms(1)])
qed

lemma rwlock_should_wait_loop_ok:
  "\<forall>it\<in>set its. rw_ok (snd it) \<Longrightarrow>
     rwlock_should_wait_loop its t = Inr (\<exists>it\<in>set its. t \<in> rw_blocked_at (snd it))"
  by (induction its) (auto simp: rwlock_waits_at_ok)

lemma rwlock_should_wait_blocked: "rwlock_inv st \<Longrightarrow> rwlock_should_wait st t = Inr (t \<in> rwlock_blocked st)"
  unfolding rwlock_should_wait_def
  by (subst rwlock_should_wait_loop_ok)
    (simp_all add: rwlock_inv_def list_all_iff rwlock_blocked_iterate [unfolded rwlock_inv_def list_all_iff])

lemma rwlock_add_reader_ok:
  assumes "map_inv (rw_readers l)" and "t \<noteq> NO_TASK"
  obtains rs where "rwlock_add_reader l t = Inr (l\<lparr>rw_readers := rs\<rparr>)" and "map_inv rs"
    and "map_find rs = (map_find (rw_readers l))(t \<mapsto> (case map_find (rw_readers l) t of Some c \<Rightarrow> c | None \<Rightarrow> 0) + 1)"
proof (cases "map_find (rw_readers l) t")
  case (Some c)
  with assms that [of "map_write (rw_readers l) t (c + 1)"] show ?thesis
    by (simp add: rwlock_add_reader_def tidmap_find_def map_find_write)
next
  case None
  obtain rs where "map_register 0 (rw_readers l) t = Inr rs" "map_inv rs"
      "map_find rs = (map_find (rw_readers l))(t \<mapsto> 0)"
    using km.register_absent [OF assms(1) None] by blast
  with None assms that [of "map_write rs t 1"] show ?thesis
    by (simp add: rwlock_add_reader_def tidmap_find_def tidmap_register_def map_find_write)
qed

section \<open>The capture handler\<close>

text \<open>A request that can never be granted: the task holds the lock in a conflicting way.\<close>

definition rw_self_deadlock :: "rwlock_event \<Rightarrow> rwlock \<Rightarrow> task_id \<Rightarrow> bool" where
  "rw_self_deadlock x l t \<longleftrightarrow>
     (x \<in> {EVENT_RWLOCK_RDLOCK, EVENT_RWLOCK_TIMEDRDLOCK} \<and> rw_writer l = t) \<or>
     (x \<in> {EVENT_RWLOCK_WRLOCK, EVENT_RWLOCK_TIMEDWRLOCK} \<and> (rw_writer l = t \<or> map_find (rw_readers l) t \<noteq> None))"

lemma rwlock_handle_rdlock_ok:
  assumes inv: "rwlock_inv st" and t: "t \<noteq> NO_TASK"
    and l: "l = (case rlook st a of Some l \<Rightarrow> l | None \<Rightarrow> fresh_rwlock)"
  shows "(rw_writer l = t \<longrightarrow> (\<exists>st'. rwlock_handle_rdlock st t a e = Inr (False, e\<lparr>e_reason := REASON_RSRC_DEADLOCK\<rparr>, st') \<and>
        map_inv (hr_locks st') \<and> rlook st' = (rlook st)(a \<mapsto> l))) \<and>
    (rw_writer l \<noteq> t \<and> t \<in> tids (rw_read_waiters l) \<longrightarrow> rwlock_handle_rdlock st t a e = Inl AssertFailed) \<and>
    (rw_writer l \<noteq> t \<and> t \<notin> tids (rw_read_waiters l) \<longrightarrow> (\<exists>st' ws. rwlock_handle_rdlock st t a e = Inr (True, e, st') \<and>
        map_inv (hr_locks st') \<and> rlook st' = (rlook st)(a \<mapsto> l\<lparr>rw_read_waiters := ws\<rparr>) \<and>
        tidset_inv ws \<and> tids ws = insert t (tids (rw_read_waiters l))))"
proof -
  have m: "map_inv (hr_locks st)" using inv by (simp add: rwlock_inv_def)
  obtain st1 where i: "rwlock_init st a = Inr (l, st1)" "map_inv (hr_locks st1)" "rlook st1 = (rlook st)(a \<mapsto> l)"
    using rwlock_init_total [OF m, of a] l by metis
  have "tidset_inv (rw_read_waiters l)" using rw_ok_lookup [OF inv, of a] l by (simp add: rw_ok_def)
  from tidset_insert_inv [OF this, of t] obtain ws where
    w: "tidset_insert (rw_read_waiters l) t = Inr (t \<notin> tids (rw_read_waiters l), ws)" "tidset_inv ws"
      "tids ws = insert t (tids (rw_read_waiters l))" by blast
  have "rlook (rwlock_store st1 a (l\<lparr>rw_read_waiters := ws\<rparr>)) = (rlook st)(a \<mapsto> l\<lparr>rw_read_waiters := ws\<rparr>)"
    using i by (simp add: rlook_store)
  with i w t show ?thesis
    by (auto simp: rwlock_handle_rdlock_def rwlock_is_write_locked_def
        intro!: exI [of _ "rwlock_store st1 a (l\<lparr>rw_read_waiters := ws\<rparr>)"] exI [of _ ws])
qed

lemma rwlock_handle_wrlock_ok:
  assumes inv: "rwlock_inv st" and t: "t \<noteq> NO_TASK"
    and l: "l = (case rlook st a of Some l \<Rightarrow> l | None \<Rightarrow> fresh_rwlock)"
    and own: "own \<longleftrightarrow> rw_writer l = t \<or> map_find (rw_readers l) t \<noteq> None"
  shows "(own \<longrightarrow> (\<exists>st'. rwlock_handle_wrlock st t a e = Inr (False, e\<lparr>e_reason := REASON_RSRC_DEADLOCK\<rparr>, st') \<and>
        map_inv (hr_locks st') \<and> rlook st' = (rlook st)(a \<mapsto> l))) \<and>
    (\<not> own \<and> t \<in> tids (rw_write_waiters l) \<longrightarrow> rwlock_handle_wrlock st t a e = Inl AssertFailed) \<and>
    (\<not> own \<and> t \<notin> tids (rw_write_waiters l) \<longrightarrow> (\<exists>st' ws. rwlock_handle_wrlock st t a e = Inr (True, e, st') \<and>
        map_inv (hr_locks st') \<and> rlook st' = (rlook st)(a \<mapsto> l\<lparr>rw_write_waiters := ws\<rparr>) \<and>
        tidset_inv ws \<and> tids ws = insert t (tids (rw_write_waiters l))))"
proof -
  have m: "map_inv (hr_locks st)" using inv by (simp add: rwlock_inv_def)
  obtain st1 where i: "rwlock_init st a = Inr (l, st1)" "map_inv (hr_locks st1)" "rlook st1 = (rlook st)(a \<mapsto> l)"
    using rwlock_init_total [OF m, of a] l by metis
  have ok: "rw_ok l" using rw_ok_lookup [OF inv, of a] l by simp
  then have "tidset_inv (rw_write_waiters l)" by (simp add: rw_ok_def)
  from tidset_insert_inv [OF this, of t] obtain ws where
    w: "tidset_insert (rw_write_waiters l) t = Inr (t \<notin> tids (rw_write_waiters l), ws)" "tidset_inv ws"
      "tids ws = insert t (tids (rw_write_waiters l))" by blast
  have "map_find (rw_readers l) t \<noteq> None \<Longrightarrow> map_size (rw_readers l) > 0"
    using ok map_size_0 [of "rw_readers l"] by (cases "map_size (rw_readers l) = 0") (auto simp: rw_ok_def)
  then have o: "(if rwlock_is_write_locked l \<and> rw_writer l = t then Inr True
      else if map_size (rw_readers l) > 0 then rwlock_is_read_locked_by l t else Inr False) = Inr own"
    using t own by (auto simp: rwlock_is_write_locked_def rwlock_is_read_locked_by_def tidmap_find_def)
  have "rlook (rwlock_store st1 a (l\<lparr>rw_write_waiters := ws\<rparr>)) = (rlook st)(a \<mapsto> l\<lparr>rw_write_waiters := ws\<rparr>)"
    using i by (simp add: rlook_store)
  with i w o show ?thesis
    by (auto simp: rwlock_handle_wrlock_def rwlock_is_read_locked_ok [OF ok]
        intro!: exI [of _ "rwlock_store st1 a (l\<lparr>rw_write_waiters := ws\<rparr>)"] exI [of _ ws])
qed

lemma rw_ok_waiters [simp]:
  "rw_ok l \<Longrightarrow> tidset_inv ws \<Longrightarrow> rw_ok (l\<lparr>rw_read_waiters := ws\<rparr>)"
  "rw_ok l \<Longrightarrow> tidset_inv ws \<Longrightarrow> rw_ok (l\<lparr>rw_write_waiters := ws\<rparr>)"
  by (simp_all add: rw_ok_def)

lemma rwlock_addr_Some [simp]: "rwlock_event_of ev cp = Some x \<Longrightarrow> rwlock_addr ev cp = Inr (cp_addr cp)"
  by (simp add: rwlock_addr_def)

lemma rwlock_handle_rdlock_inv:
  assumes inv: "rwlock_inv st" and t: "t \<noteq> NO_TASK"
    and l: "l = (case rlook st a of Some l \<Rightarrow> l | None \<Rightarrow> fresh_rwlock)"
    and r: "rwlock_handle_rdlock st t a e = Inr (b, e', st')"
  shows "rwlock_inv st' \<and> e' = (if rw_writer l = t then e\<lparr>e_reason := REASON_RSRC_DEADLOCK\<rparr> else e)"
proof -
  have ok: "rw_ok l" using rw_ok_lookup [OF inv, of a] l by simp
  note * = rwlock_handle_rdlock_ok [OF inv t l, of e]
  show ?thesis
  proof (cases "rw_writer l = t")
    case True
    with * r ok show ?thesis by (auto intro: rwlock_inv_upd [OF inv])
  next
    case False
    with * r obtain ws where "map_inv (hr_locks st')" "rlook st' = (rlook st)(a \<mapsto> l\<lparr>rw_read_waiters := ws\<rparr>)"
      "tidset_inv ws" "e' = e" by (cases "t \<in> tids (rw_read_waiters l)") auto
    with False ok show ?thesis by (auto intro: rwlock_inv_upd [OF inv])
  qed
qed

lemma rwlock_handle_wrlock_inv:
  assumes inv: "rwlock_inv st" and t: "t \<noteq> NO_TASK"
    and l: "l = (case rlook st a of Some l \<Rightarrow> l | None \<Rightarrow> fresh_rwlock)"
    and r: "rwlock_handle_wrlock st t a e = Inr (b, e', st')"
  shows "rwlock_inv st' \<and>
    e' = (if rw_writer l = t \<or> map_find (rw_readers l) t \<noteq> None then e\<lparr>e_reason := REASON_RSRC_DEADLOCK\<rparr> else e)"
proof -
  have ok: "rw_ok l" using rw_ok_lookup [OF inv, of a] l by simp
  note * = rwlock_handle_wrlock_ok [OF inv t l refl, of e]
  show ?thesis
  proof (cases "rw_writer l = t \<or> map_find (rw_readers l) t \<noteq> None")
    case True
    with * r ok show ?thesis by (auto intro: rwlock_inv_upd [OF inv])
  next
    case False
    with * r obtain ws where "map_inv (hr_locks st')" "rlook st' = (rlook st)(a \<mapsto> l\<lparr>rw_write_waiters := ws\<rparr>)"
      "tidset_inv ws" "e' = e" by (cases "t \<in> tids (rw_write_waiters l)") auto
    with False ok show ?thesis by (auto intro: rwlock_inv_upd [OF inv])
  qed
qed

lemma rwlock_handle_event_inv:
  assumes inv: "rwlock_inv st" and t: "cp_id cp \<noteq> NO_TASK"
    and l: "l = (case rlook st (cp_addr cp) of Some l \<Rightarrow> l | None \<Rightarrow> fresh_rwlock)"
    and r: "rwlock_handle_event ev cp e st = Inr (e', st')"
  shows "rwlock_inv st' \<and> e_tset e' = e_tset e \<and>
    e_reason e' = (if \<exists>x. rwlock_event_of ev cp = Some x \<and> rw_self_deadlock x l (cp_id cp)
                   then REASON_RSRC_DEADLOCK else e_reason e)"
proof (cases "rwlock_event_of ev cp")
  case None
  with r inv show ?thesis by (simp add: rwlock_handle_event_def)
next
  case (Some x)
  note rd = rwlock_handle_rdlock_inv [OF inv t l] and wr = rwlock_handle_wrlock_inv [OF inv t l]
  from Some r inv show ?thesis
    by (cases x) (auto simp: rwlock_handle_event_def result_elims rw_self_deadlock_def dest!: rd wr)
qed

section \<open>The protocol\<close>

text \<open>
  The calls the sequencer makes for tasks that use reader-writer locks. A task requests a lock it does
  not hold in a conflicting way (a conflicting request ends the run with a deadlock report), is pending
  until it is resumed, and is resumed when \<^verbatim>\<open>_should_wait\<close> does not hold for it. Try and unlock events
  change the state when they are resumed; a task unlocks locks it holds. The ghost state counts read
  locks and marks write locks.
\<close>

datatype rw_mode = RD | WR

record rwlock_sys =
  rs_st :: handler_rwlock
  rs_pend :: "task_id \<Rightarrow> (rw_mode \<times> 64 word) option"
  rs_reads :: "task_id \<Rightarrow> 64 word \<Rightarrow> nat"
  rs_writes :: "task_id \<Rightarrow> 64 word \<Rightarrow> bool"

definition rwlock_sys_init :: rwlock_sys where
  "rwlock_sys_init = \<lparr>rs_st = rwlock_state_init, rs_pend = (\<lambda>_. None), rs_reads = (\<lambda>_ _. 0),
     rs_writes = (\<lambda>_ _. False)\<rparr>"

fun request_mode :: "rwlock_event \<Rightarrow> rw_mode option" where
  "request_mode EVENT_RWLOCK_RDLOCK = Some RD"
| "request_mode EVENT_RWLOCK_TIMEDRDLOCK = Some RD"
| "request_mode EVENT_RWLOCK_WRLOCK = Some WR"
| "request_mode EVENT_RWLOCK_TIMEDWRLOCK = Some WR"
| "request_mode _ = None"

inductive rwlock_step :: "rwlock_decode \<Rightarrow> rwlock_sys \<Rightarrow> rwlock_sys \<Rightarrow> bool" for ev where
  request: "rwlock_event_of ev cp = Some x \<Longrightarrow> request_mode x = Some md \<Longrightarrow> cp_id cp = t \<Longrightarrow> cp_addr cp = a \<Longrightarrow>
    t \<noteq> NO_TASK \<Longrightarrow> rs_pend s t = None \<Longrightarrow> \<not> rs_writes s t a \<Longrightarrow> md = WR \<longrightarrow> rs_reads s t a = 0 \<Longrightarrow>
    tidset_inv (e_tset e) \<Longrightarrow> \<not> e_skip e \<Longrightarrow> rwlock_handle ev cp e (rs_st s) = Inr (e', st') \<Longrightarrow>
    rwlock_step ev s (s\<lparr>rs_st := st', rs_pend := (rs_pend s)(t \<mapsto> (md, a))\<rparr>)"
| other: "(case rwlock_event_of ev cp of None \<Rightarrow> True | Some x \<Rightarrow> request_mode x = None) \<Longrightarrow> cp_id cp \<noteq> NO_TASK \<Longrightarrow>
    tidset_inv (e_tset e) \<Longrightarrow> \<not> e_skip e \<Longrightarrow> rwlock_handle ev cp e (rs_st s) = Inr (e', st') \<Longrightarrow>
    rwlock_step ev s (s\<lparr>rs_st := st'\<rparr>)"
| granted: "rwlock_event_of ev cp = Some x \<Longrightarrow> request_mode x = Some md \<Longrightarrow> cp_id cp = t \<Longrightarrow> cp_addr cp = a \<Longrightarrow>
    rs_pend s t = Some (md, a) \<Longrightarrow> rwlock_should_wait (rs_st s) t = Inr False \<Longrightarrow>
    rwlock_resume ev cp (rs_st s) = Inr (r, st') \<Longrightarrow>
    rwlock_step ev s (s\<lparr>rs_st := st', rs_pend := (rs_pend s)(t := None),
      rs_reads := (if md = RD then held_upd (rs_reads s) t a (rs_reads s t a + 1) else rs_reads s),
      rs_writes := (if md = WR then held_upd (rs_writes s) t a True else rs_writes s)\<rparr>)"
| tried_rd: "rwlock_event_of ev cp = Some EVENT_RWLOCK_TRYRDLOCK \<Longrightarrow> cp_id cp = t \<Longrightarrow> cp_addr cp = a \<Longrightarrow>
    t \<noteq> NO_TASK \<Longrightarrow> rs_pend s t = None \<Longrightarrow> rwlock_resume ev cp (rs_st s) = Inr (Some r, st') \<Longrightarrow>
    rwlock_step ev s (s\<lparr>rs_st := st',
      rs_reads := held_upd (rs_reads s) t a (rs_reads s t a + (if r = 0 then 1 else 0))\<rparr>)"
| tried_wr: "rwlock_event_of ev cp = Some EVENT_RWLOCK_TRYWRLOCK \<Longrightarrow> cp_id cp = t \<Longrightarrow> cp_addr cp = a \<Longrightarrow>
    t \<noteq> NO_TASK \<Longrightarrow> rs_pend s t = None \<Longrightarrow> rwlock_resume ev cp (rs_st s) = Inr (Some r, st') \<Longrightarrow>
    rwlock_step ev s (s\<lparr>rs_st := st', rs_writes := held_upd (rs_writes s) t a (rs_writes s t a \<or> r = 0)\<rparr>)"
| unlocked: "rwlock_event_of ev cp = Some EVENT_RWLOCK_UNLOCK \<Longrightarrow> cp_id cp = t \<Longrightarrow> cp_addr cp = a \<Longrightarrow>
    rs_pend s t = None \<Longrightarrow> rs_writes s t a \<or> rs_reads s t a > 0 \<Longrightarrow> rwlock_resume ev cp (rs_st s) = Inr (r, st') \<Longrightarrow>
    rwlock_step ev s (s\<lparr>rs_st := st', rs_reads := held_upd (rs_reads s) t a (rs_reads s t a - 1),
      rs_writes := held_upd (rs_writes s) t a False\<rparr>)"

inductive rwlock_reach :: "rwlock_decode \<Rightarrow> rwlock_sys \<Rightarrow> bool" for ev where
  init: "rwlock_reach ev rwlock_sys_init"
| step: "rwlock_reach ev s \<Longrightarrow> rwlock_step ev s s' \<Longrightarrow> rwlock_reach ev s'"

text \<open>What the map says about one address agrees with the ghost state.\<close>

definition rw_at :: "(task_id \<Rightarrow> (rw_mode \<times> 64 word) option) \<Rightarrow> (task_id \<Rightarrow> 64 word \<Rightarrow> nat) \<Rightarrow>
    (task_id \<Rightarrow> 64 word \<Rightarrow> bool) \<Rightarrow> 64 word \<Rightarrow> rwlock \<Rightarrow> bool" where
  "rw_at pend reads writes a l \<longleftrightarrow> rw_ok l \<and>
     (\<forall>t. t \<in> tids (rw_read_waiters l) \<longleftrightarrow> pend t = Some (RD, a)) \<and>
     (\<forall>t. t \<in> tids (rw_write_waiters l) \<longleftrightarrow> pend t = Some (WR, a)) \<and>
     (\<forall>t. reads t a = (case map_find (rw_readers l) t of None \<Rightarrow> 0 | Some c \<Rightarrow> nat c)) \<and>
     (\<forall>t. writes t a \<longleftrightarrow> t \<noteq> NO_TASK \<and> rw_writer l = t)"

text \<open>An address that is not in the map behaves like a fresh lock.\<close>

definition lock_at :: "handler_rwlock \<Rightarrow> 64 word \<Rightarrow> rwlock" where
  "lock_at st a = (case rlook st a of Some l \<Rightarrow> l | None \<Rightarrow> fresh_rwlock)"

definition rwlock_sys_inv :: "rwlock_sys \<Rightarrow> bool" where
  "rwlock_sys_inv s \<longleftrightarrow> map_inv (hr_locks (rs_st s)) \<and> rs_pend s NO_TASK = None \<and>
     (\<forall>a. rw_at (rs_pend s) (rs_reads s) (rs_writes s) a (lock_at (rs_st s) a))"

lemma rwlock_sys_inv_inv: "rwlock_sys_inv s \<Longrightarrow> rwlock_inv (rs_st s)"
  by (fastforce simp: rwlock_sys_inv_def rwlock_inv_alt rw_at_def lock_at_def split: option.splits)

lemma rwlock_sys_inv_at: "rwlock_sys_inv s \<Longrightarrow> rw_at (rs_pend s) (rs_reads s) (rs_writes s) a (lock_at (rs_st s) a)"
  by (simp add: rwlock_sys_inv_def)

lemma rw_at_waiters:
  assumes "rw_at pend reads writes a l"
  shows "t \<in> tids (rw_read_waiters l) \<longleftrightarrow> pend t = Some (RD, a)"
    and "t \<in> tids (rw_write_waiters l) \<longleftrightarrow> pend t = Some (WR, a)"
    and "writes t a \<longleftrightarrow> t \<noteq> NO_TASK \<and> rw_writer l = t"
  using assms by (auto simp: rw_at_def)

lemma rw_blocked_atI:
  "t \<in> tids (rw_read_waiters l) \<Longrightarrow> rw_writer l \<noteq> NO_TASK \<Longrightarrow> t \<in> rw_blocked_at l"
  "t \<in> tids (rw_write_waiters l) \<Longrightarrow> rw_writer l \<noteq> NO_TASK \<Longrightarrow> t \<in> rw_blocked_at l"
  "t \<in> tids (rw_write_waiters l) \<Longrightarrow> map_size (rw_readers l) > 0 \<Longrightarrow> t \<in> rw_blocked_at l"
  by (simp_all add: rw_blocked_at_def)

lemma rw_blocked_at_fresh [simp]: "rw_blocked_at fresh_rwlock = {}"
  by (simp add: rw_blocked_at_def map_size_0)

lemma rw_at_cong:
  "(\<And>u m. pend' u = Some (m, b) \<longleftrightarrow> pend u = Some (m, b)) \<Longrightarrow> (\<And>u. reads' u b = reads u b) \<Longrightarrow>
     (\<And>u. writes' u b = writes u b) \<Longrightarrow> rw_at pend' reads' writes' b l = rw_at pend reads writes b l"
  by (simp add: rw_at_def)

lemma rwlock_sys_inv_upd:
  assumes inv: "rwlock_sys_inv s" and "map_inv (hr_locks st')" and "rlook st' = (rlook (rs_st s))(a \<mapsto> l)"
    and "pend' NO_TASK = None" and "\<And>b u m. b \<noteq> a \<Longrightarrow> pend' u = Some (m, b) \<longleftrightarrow> rs_pend s u = Some (m, b)"
    and "\<And>b u. b \<noteq> a \<Longrightarrow> reads' u b = rs_reads s u b" and "\<And>b u. b \<noteq> a \<Longrightarrow> writes' u b = rs_writes s u b"
    and "rw_at pend' reads' writes' a l"
  shows "rwlock_sys_inv (s\<lparr>rs_st := st', rs_pend := pend', rs_reads := reads', rs_writes := writes'\<rparr>)"
proof -
  have "rw_at pend' reads' writes' b (lock_at st' b)" for b
  proof (cases "b = a")
    case False
    then have "rw_at pend' reads' writes' b (lock_at st' b) =
        rw_at (rs_pend s) (rs_reads s) (rs_writes s) b (lock_at (rs_st s) b)"
      using assms by (simp add: lock_at_def rw_at_cong [of pend' b "rs_pend s" reads' "rs_reads s" writes' "rs_writes s"])
    with inv show ?thesis by (simp add: rwlock_sys_inv_def)
  qed (simp add: assms lock_at_def)
  with assms show ?thesis by (simp add: rwlock_sys_inv_def)
qed

lemma rwlock_sys_inv_NO_TASK: "rwlock_sys_inv s \<Longrightarrow> rs_pend s NO_TASK = None"
  by (simp add: rwlock_sys_inv_def)

lemma rwlock_sys_init_at:
  assumes "rwlock_sys_inv s"
  obtains st1 where "rwlock_init (rs_st s) a = Inr (lock_at (rs_st s) a, st1)" and "map_inv (hr_locks st1)"
    and "rlook st1 = (rlook (rs_st s))(a \<mapsto> lock_at (rs_st s) a)"
  using rwlock_init_total [of "rs_st s" a] assms by (auto simp: rwlock_sys_inv_def lock_at_def)

lemma rw_ok_readers:
  assumes "rw_ok l" and "rw_writer l = NO_TASK" and "map_inv rs" and "t \<noteq> NO_TASK" and "c > 0"
    and "map_find rs = (map_find (rw_readers l))(t \<mapsto> c)"
  shows "rw_ok (l\<lparr>rw_readers := rs\<rparr>)"
  using assms by (auto simp: rw_ok_alt)

lemma rwlock_not_blocked: "rwlock_sys_inv s \<Longrightarrow> rs_pend s t = None \<Longrightarrow> t \<notin> rwlock_blocked (rs_st s)"
proof
  assume inv: "rwlock_sys_inv s" and p: "rs_pend s t = None" and "t \<in> rwlock_blocked (rs_st s)"
  then obtain a l where "rlook (rs_st s) a = Some l" "t \<in> tids (rw_read_waiters l) \<union> tids (rw_write_waiters l)"
    by (auto simp: rwlock_blocked_def rw_blocked_at_def split: if_splits)
  with rw_at_waiters [OF rwlock_sys_inv_at [OF inv, of a], of t] p show False by (simp add: lock_at_def)
qed

lemma rwlock_blocked_at_lock:
  assumes "t \<in> rw_blocked_at (lock_at st a)"
  shows "t \<in> rwlock_blocked st"
  using assms by (cases "rlook st a") (auto simp: rwlock_blocked_def lock_at_def)

lemma rwlock_request_rd:
  assumes inv: "rwlock_sys_inv s" and t: "t \<noteq> NO_TASK" and p: "rs_pend s t = None" and nw: "\<not> rs_writes s t a"
  obtains st' where "rwlock_handle_rdlock (rs_st s) t a e = Inr (True, e, st')"
    and "rwlock_sys_inv (s\<lparr>rs_st := st', rs_pend := (rs_pend s)(t \<mapsto> (RD, a))\<rparr>)"
proof -
  let ?l = "lock_at (rs_st s) a"
  note at = rwlock_sys_inv_at [OF inv, of a]
  have "rw_writer ?l \<noteq> t" "t \<notin> tids (rw_read_waiters ?l)" using rw_at_waiters [OF at, of t] nw t p by auto
  then obtain st' ws where h: "rwlock_handle_rdlock (rs_st s) t a e = Inr (True, e, st')" "map_inv (hr_locks st')"
    "rlook st' = (rlook (rs_st s))(a \<mapsto> ?l\<lparr>rw_read_waiters := ws\<rparr>)" "tidset_inv ws"
    "tids ws = insert t (tids (rw_read_waiters ?l))"
    using rwlock_handle_rdlock_ok [OF rwlock_sys_inv_inv [OF inv] t lock_at_def [of "rs_st s" a], of e] by auto
  have "rw_at ((rs_pend s)(t \<mapsto> (RD, a))) (rs_reads s) (rs_writes s) a (?l\<lparr>rw_read_waiters := ws\<rparr>)"
    using at h p by (auto simp: rw_at_def)
  then have "rwlock_sys_inv (s\<lparr>rs_st := st', rs_pend := (rs_pend s)(t \<mapsto> (RD, a)), rs_reads := rs_reads s, rs_writes := rs_writes s\<rparr>)"
    by (intro rwlock_sys_inv_upd [OF inv h(2,3)]) (use t p rwlock_sys_inv_NO_TASK [OF inv] in auto)
  with that h show ?thesis by simp
qed

lemma rwlock_request_wr:
  assumes inv: "rwlock_sys_inv s" and t: "t \<noteq> NO_TASK" and p: "rs_pend s t = None" and nw: "\<not> rs_writes s t a"
    and nr: "rs_reads s t a = 0"
  obtains st' where "rwlock_handle_wrlock (rs_st s) t a e = Inr (True, e, st')"
    and "rwlock_sys_inv (s\<lparr>rs_st := st', rs_pend := (rs_pend s)(t \<mapsto> (WR, a))\<rparr>)"
proof -
  let ?l = "lock_at (rs_st s) a"
  note at = rwlock_sys_inv_at [OF inv, of a]
  have "rw_writer ?l \<noteq> t" "t \<notin> tids (rw_write_waiters ?l)" using rw_at_waiters [OF at, of t] nw t p by auto
  moreover have "map_find (rw_readers ?l) t = None"
    using at nr by (fastforce simp: rw_at_def rw_ok_alt split: option.splits)
  ultimately obtain st' ws where h: "rwlock_handle_wrlock (rs_st s) t a e = Inr (True, e, st')" "map_inv (hr_locks st')"
    "rlook st' = (rlook (rs_st s))(a \<mapsto> ?l\<lparr>rw_write_waiters := ws\<rparr>)" "tidset_inv ws"
    "tids ws = insert t (tids (rw_write_waiters ?l))"
    using rwlock_handle_wrlock_ok [OF rwlock_sys_inv_inv [OF inv] t lock_at_def [of "rs_st s" a] refl, of e] by auto
  have "rw_at ((rs_pend s)(t \<mapsto> (WR, a))) (rs_reads s) (rs_writes s) a (?l\<lparr>rw_write_waiters := ws\<rparr>)"
    using at h p by (auto simp: rw_at_def)
  then have "rwlock_sys_inv (s\<lparr>rs_st := st', rs_pend := (rs_pend s)(t \<mapsto> (WR, a)), rs_reads := rs_reads s, rs_writes := rs_writes s\<rparr>)"
    by (intro rwlock_sys_inv_upd [OF inv h(2,3)]) (use t p rwlock_sys_inv_NO_TASK [OF inv] in auto)
  with that h show ?thesis by simp
qed

lemma rw_at_add_reader:
  assumes at: "rw_at pend reads writes a l" and w: "rw_writer l = NO_TASK" and t: "t \<noteq> NO_TASK"
  obtains rs where "rwlock_add_reader l t = Inr (l\<lparr>rw_readers := rs\<rparr>)"
    and "rw_at pend (held_upd reads t a (reads t a + 1)) writes a (l\<lparr>rw_readers := rs\<rparr>)"
proof -
  have ok: "rw_ok l" "map_inv (rw_readers l)" using at by (auto simp: rw_at_def rw_ok_def)
  let ?c = "(case map_find (rw_readers l) t of Some c \<Rightarrow> c | None \<Rightarrow> 0) + 1"
  obtain rs where rs: "rwlock_add_reader l t = Inr (l\<lparr>rw_readers := rs\<rparr>)" "map_inv rs"
    "map_find rs = (map_find (rw_readers l))(t \<mapsto> ?c)"
    by (rule rwlock_add_reader_ok [OF ok(2) t])
  have pos: "map_find (rw_readers l) t = Some c \<Longrightarrow> c > 0" for c using ok(1) by (auto simp: rw_ok_alt)
  then have "rw_ok (l\<lparr>rw_readers := rs\<rparr>)"
    by (intro rw_ok_readers [OF ok(1) w rs(2) t _ rs(3)]) (auto split: option.split)
  moreover have "nat ?c = reads t a + 1"
    using at pos by (auto simp: rw_at_def nat_add_distrib split: option.splits)
  ultimately show ?thesis
    using that [OF rs(1)] at rs(3) by (auto simp: rw_at_def held_upd_def)
qed

lemma rwlock_granted_rd:
  assumes inv: "rwlock_sys_inv s" and p: "rs_pend s t = Some (RD, a)" and nb: "t \<notin> rwlock_blocked (rs_st s)"
  obtains st' where "rwlock_posthandle_rdlock (rs_st s) t a = Inr st'"
    and "rwlock_sys_inv (s\<lparr>rs_st := st', rs_pend := (rs_pend s)(t := None),
      rs_reads := held_upd (rs_reads s) t a (rs_reads s t a + 1), rs_writes := rs_writes s\<rparr>)"
proof -
  let ?l = "lock_at (rs_st s) a" and ?p = "(rs_pend s)(t := None)"
  note at = rwlock_sys_inv_at [OF inv, of a]
  have t: "t \<noteq> NO_TASK" using p rwlock_sys_inv_NO_TASK [OF inv] by auto
  have m: "t \<in> tids (rw_read_waiters ?l)" and r: "tidset_inv (rw_read_waiters ?l)"
    using at p by (auto simp: rw_at_def rw_ok_def)
  have w: "rw_writer ?l = NO_TASK"
    using m nb by (blast intro: rwlock_blocked_at_lock rw_blocked_atI rw_blocked_atI [unfolded neq0_conv [symmetric]])+
  obtain st1 where i: "rwlock_init (rs_st s) a = Inr (?l, st1)" "map_inv (hr_locks st1)"
    "rlook st1 = (rlook (rs_st s))(a \<mapsto> ?l)" by (rule rwlock_sys_init_at [OF inv])
  obtain ws where ws: "tidset_remove (rw_read_waiters ?l) t = Inr (True, ws)" "tidset_inv ws"
    "tids ws = tids (rw_read_waiters ?l) - {t}" using tidset_remove_inv [OF r, of t] m by auto
  have "rw_at ?p (rs_reads s) (rs_writes s) a (?l\<lparr>rw_read_waiters := ws\<rparr>)"
    using at ws p by (auto simp: rw_at_def)
  then obtain rs where rs: "rwlock_add_reader (?l\<lparr>rw_read_waiters := ws\<rparr>) t = Inr (?l\<lparr>rw_read_waiters := ws, rw_readers := rs\<rparr>)"
    "rw_at ?p (held_upd (rs_reads s) t a (rs_reads s t a + 1)) (rs_writes s) a (?l\<lparr>rw_read_waiters := ws, rw_readers := rs\<rparr>)"
    using rw_at_add_reader [of ?p "rs_reads s" "rs_writes s" a "?l\<lparr>rw_read_waiters := ws\<rparr>" t] w t by auto
  let ?st = "rwlock_store st1 a (?l\<lparr>rw_read_waiters := ws, rw_readers := rs\<rparr>)"
  have "rwlock_posthandle_rdlock (rs_st s) t a = Inr ?st"
    using i w m ws rs by (simp add: rwlock_posthandle_rdlock_def rwlock_is_write_locked_def tidset_has_inv [OF r])
  moreover have "rwlock_sys_inv (s\<lparr>rs_st := ?st, rs_pend := ?p,
      rs_reads := held_upd (rs_reads s) t a (rs_reads s t a + 1), rs_writes := rs_writes s\<rparr>)"
    by (rule rwlock_sys_inv_upd [OF inv _ _ _ _ _ _ rs(2)])
      (use i p rwlock_sys_inv_NO_TASK [OF inv] in \<open>auto simp: rlook_store held_upd_simps\<close>)
  ultimately show ?thesis by (rule that)
qed

lemma rwlock_granted_wr:
  assumes inv: "rwlock_sys_inv s" and p: "rs_pend s t = Some (WR, a)" and nb: "t \<notin> rwlock_blocked (rs_st s)"
  obtains st' where "rwlock_posthandle_wrlock (rs_st s) t a = Inr st'"
    and "rwlock_sys_inv (s\<lparr>rs_st := st', rs_pend := (rs_pend s)(t := None), rs_reads := rs_reads s,
      rs_writes := held_upd (rs_writes s) t a True\<rparr>)"
proof -
  let ?l = "lock_at (rs_st s) a" and ?p = "(rs_pend s)(t := None)"
  note at = rwlock_sys_inv_at [OF inv, of a]
  have t: "t \<noteq> NO_TASK" using p rwlock_sys_inv_NO_TASK [OF inv] by auto
  have m: "t \<in> tids (rw_write_waiters ?l)" and r: "tidset_inv (rw_write_waiters ?l)" and ok: "rw_ok ?l"
    using at p by (auto simp: rw_at_def rw_ok_def)
  have w: "rw_writer ?l = NO_TASK" and z: "map_size (rw_readers ?l) = 0"
    using m nb by (blast intro: rwlock_blocked_at_lock rw_blocked_atI rw_blocked_atI [unfolded neq0_conv [symmetric]])+
  obtain st1 where i: "rwlock_init (rs_st s) a = Inr (?l, st1)" "map_inv (hr_locks st1)"
    "rlook st1 = (rlook (rs_st s))(a \<mapsto> ?l)" by (rule rwlock_sys_init_at [OF inv])
  obtain ws where ws: "tidset_remove (rw_write_waiters ?l) t = Inr (True, ws)" "tidset_inv ws"
    "tids ws = tids (rw_write_waiters ?l) - {t}" using tidset_remove_inv [OF r, of t] m by auto
  let ?k = "?l\<lparr>rw_write_waiters := ws, rw_writer := t\<rparr>"
  have k: "rw_at ?p (rs_reads s) (held_upd (rs_writes s) t a True) a ?k"
    using at ws p w z t by (auto simp: rw_at_def rw_ok_def held_upd_def)
  have "rwlock_posthandle_wrlock (rs_st s) t a = Inr (rwlock_store st1 a ?k)"
    using i w z m ws by (simp add: rwlock_posthandle_wrlock_def rwlock_is_read_locked_ok [OF ok] tidset_has_inv [OF r])
  moreover have "rwlock_sys_inv (s\<lparr>rs_st := rwlock_store st1 a ?k, rs_pend := ?p, rs_reads := rs_reads s,
      rs_writes := held_upd (rs_writes s) t a True\<rparr>)"
    by (rule rwlock_sys_inv_upd [OF inv _ _ _ _ _ _ k])
      (use i p rwlock_sys_inv_NO_TASK [OF inv] in \<open>auto simp: rlook_store held_upd_simps\<close>)
  ultimately show ?thesis by (rule that)
qed

lemma rwlock_tried_rd:
  assumes inv: "rwlock_sys_inv s" and t: "t \<noteq> NO_TASK"
    and r: "r = (if rw_writer (lock_at (rs_st s) a) = t then EDEADLK
      else if rw_writer (lock_at (rs_st s) a) \<noteq> NO_TASK \<or> tids (rw_write_waiters (lock_at (rs_st s) a)) \<noteq> {}
      then EBUSY else 0)"
  shows "\<exists>st'. rwlock_posthandle_tryrdlock (rs_st s) t a = Inr (r, st') \<and>
    rwlock_sys_inv (s\<lparr>rs_st := st', rs_reads := held_upd (rs_reads s) t a (rs_reads s t a + (if r = 0 then 1 else 0))\<rparr>)"
proof -
  let ?l = "lock_at (rs_st s) a"
  note at = rwlock_sys_inv_at [OF inv, of a]
  have sz: "tidset_size (rw_write_waiters ?l) = 0 \<longleftrightarrow> tids (rw_write_waiters ?l) = {}"
    using at by (simp add: tidset_size_card rw_at_def rw_ok_def)
  obtain st1 where i: "rwlock_init (rs_st s) a = Inr (?l, st1)" "map_inv (hr_locks st1)"
    "rlook st1 = (rlook (rs_st s))(a \<mapsto> ?l)" by (rule rwlock_sys_init_at [OF inv])
  have "\<exists>st' l. rwlock_posthandle_tryrdlock (rs_st s) t a = Inr (r, st') \<and> map_inv (hr_locks st') \<and>
    rlook st' = (rlook (rs_st s))(a \<mapsto> l) \<and>
    rw_at (rs_pend s) (held_upd (rs_reads s) t a (rs_reads s t a + (if r = 0 then 1 else 0))) (rs_writes s) a l"
  proof (cases "rw_writer ?l = NO_TASK \<and> tids (rw_write_waiters ?l) = {}")
    case True
    then have w: "rw_writer ?l = NO_TASK" by simp
    obtain rs where rs: "rwlock_add_reader ?l t = Inr (?l\<lparr>rw_readers := rs\<rparr>)"
      "rw_at (rs_pend s) (held_upd (rs_reads s) t a (rs_reads s t a + 1)) (rs_writes s) a (?l\<lparr>rw_readers := rs\<rparr>)"
      by (rule rw_at_add_reader [OF at w t])
    with True i t r sz show ?thesis
      by (intro exI [of _ "rwlock_store st1 a (?l\<lparr>rw_readers := rs\<rparr>)"] exI [of _ "?l\<lparr>rw_readers := rs\<rparr>"])
        (simp add: rwlock_posthandle_tryrdlock_def rwlock_is_write_locked_def rlook_store)
  next
    case False
    have "held_upd (rs_reads s) t a (rs_reads s t a) = rs_reads s" by (auto simp: held_upd_def fun_eq_iff)
    with False at i t r sz show ?thesis
      by (intro exI [of _ st1] exI [of _ ?l])
        (auto simp: rwlock_posthandle_tryrdlock_def rwlock_is_write_locked_def EBUSY_def EDEADLK_def)
  qed
  then obtain st' l where h: "rwlock_posthandle_tryrdlock (rs_st s) t a = Inr (r, st')" "map_inv (hr_locks st')"
    "rlook st' = (rlook (rs_st s))(a \<mapsto> l)"
    "rw_at (rs_pend s) (held_upd (rs_reads s) t a (rs_reads s t a + (if r = 0 then 1 else 0))) (rs_writes s) a l"
    by blast
  have "rwlock_sys_inv (s\<lparr>rs_st := st', rs_pend := rs_pend s,
      rs_reads := held_upd (rs_reads s) t a (rs_reads s t a + (if r = 0 then 1 else 0)), rs_writes := rs_writes s\<rparr>)"
    by (rule rwlock_sys_inv_upd [OF inv h(2,3) _ _ _ _ h(4)])
      (use rwlock_sys_inv_NO_TASK [OF inv] in \<open>auto simp: held_upd_simps\<close>)
  with h(1) show ?thesis by auto
qed

lemma rwlock_tried_wr:
  assumes inv: "rwlock_sys_inv s" and t: "t \<noteq> NO_TASK"
    and r: "r = (if rw_writer (lock_at (rs_st s) a) = t then EDEADLK
      else if rw_writer (lock_at (rs_st s) a) \<noteq> NO_TASK \<or> map_size (rw_readers (lock_at (rs_st s) a)) > 0
      then EBUSY else 0)"
  shows "\<exists>st'. rwlock_posthandle_trywrlock (rs_st s) t a = Inr (r, st') \<and>
    rwlock_sys_inv (s\<lparr>rs_st := st', rs_writes := held_upd (rs_writes s) t a (rs_writes s t a \<or> r = 0)\<rparr>)"
proof -
  let ?l = "lock_at (rs_st s) a"
  note at = rwlock_sys_inv_at [OF inv, of a]
  have ok: "rw_ok ?l" using at by (simp add: rw_at_def)
  obtain st1 where i: "rwlock_init (rs_st s) a = Inr (?l, st1)" "map_inv (hr_locks st1)"
    "rlook st1 = (rlook (rs_st s))(a \<mapsto> ?l)" by (rule rwlock_sys_init_at [OF inv])
  have "\<exists>st' l. rwlock_posthandle_trywrlock (rs_st s) t a = Inr (r, st') \<and> map_inv (hr_locks st') \<and>
    rlook st' = (rlook (rs_st s))(a \<mapsto> l) \<and>
    rw_at (rs_pend s) (rs_reads s) (held_upd (rs_writes s) t a (rs_writes s t a \<or> r = 0)) a l"
  proof (cases "rw_writer ?l = NO_TASK \<and> map_size (rw_readers ?l) = 0")
    case True
    have "rw_at (rs_pend s) (rs_reads s) (held_upd (rs_writes s) t a True) a (?l\<lparr>rw_writer := t\<rparr>)"
      using at True t by (auto simp: rw_at_def rw_ok_def held_upd_def)
    with True i t r show ?thesis
      by (intro exI [of _ "rwlock_store st1 a (?l\<lparr>rw_writer := t\<rparr>)"] exI [of _ "?l\<lparr>rw_writer := t\<rparr>"])
        (simp add: rwlock_posthandle_trywrlock_def rwlock_is_write_locked_def rwlock_is_read_locked_ok [OF ok] rlook_store)
  next
    case False
    have "held_upd (rs_writes s) t a (rs_writes s t a) = rs_writes s" by (auto simp: held_upd_def fun_eq_iff)
    with False at i t r show ?thesis
      by (intro exI [of _ st1] exI [of _ ?l])
        (auto simp: rwlock_posthandle_trywrlock_def rwlock_is_write_locked_def rwlock_is_read_locked_ok [OF ok]
          EBUSY_def EDEADLK_def)
  qed
  then obtain st' l where h: "rwlock_posthandle_trywrlock (rs_st s) t a = Inr (r, st')" "map_inv (hr_locks st')"
    "rlook st' = (rlook (rs_st s))(a \<mapsto> l)"
    "rw_at (rs_pend s) (rs_reads s) (held_upd (rs_writes s) t a (rs_writes s t a \<or> r = 0)) a l"
    by blast
  have "rwlock_sys_inv (s\<lparr>rs_st := st', rs_pend := rs_pend s, rs_reads := rs_reads s,
      rs_writes := held_upd (rs_writes s) t a (rs_writes s t a \<or> r = 0)\<rparr>)"
    by (rule rwlock_sys_inv_upd [OF inv h(2,3) _ _ _ _ h(4)])
      (use rwlock_sys_inv_NO_TASK [OF inv] in \<open>auto simp: held_upd_simps\<close>)
  with h(1) show ?thesis by auto
qed

lemma rw_at_remove_reader:
  assumes at: "rw_at pend reads writes a l" and w: "rw_writer l = NO_TASK" and t: "t \<noteq> NO_TASK"
    and c: "map_find (rw_readers l) t = Some c"
  obtains rs where "(if c - 1 = 0 then tidmap_deregister (map_write (rw_readers l) t (c - 1)) t
      else Inr (map_write (rw_readers l) t (c - 1))) = Inr rs"
    and "rw_at pend (held_upd reads t a (reads t a - 1)) writes a (l\<lparr>rw_readers := rs\<rparr>)"
proof -
  have ok: "rw_ok l" "map_inv (rw_readers l)" using at by (auto simp: rw_at_def rw_ok_def)
  have pos: "c > 0" and rd: "reads t a = nat c" using ok at c by (auto simp: rw_ok_alt rw_at_def)
  let ?w = "map_write (rw_readers l) t (c - 1)"
  let ?rs = "if c - 1 = 0 then map_deregister ?w t else ?w"
  have f: "map_find ?rs = (map_find (rw_readers l))(t := (if c = 1 then None else Some (c - 1)))" and "map_inv ?rs"
    using ok(2) c by (auto simp: map_find_deregister map_inv_deregister map_find_write)
  then have "rw_ok (l\<lparr>rw_readers := ?rs\<rparr>)" using ok(1) w pos t by (auto simp: rw_ok_alt split: if_splits)
  then have "rw_at pend (held_upd reads t a (reads t a - 1)) writes a (l\<lparr>rw_readers := ?rs\<rparr>)"
    using at f rd pos by (auto simp: rw_at_def held_upd_def nat_diff_distrib)
  moreover have "(if c - 1 = 0 then tidmap_deregister ?w t else Inr ?w) = Inr ?rs"
    using t by (simp add: tidmap_deregister_def)
  ultimately show ?thesis using that by blast
qed

lemma rwlock_unlocked:
  assumes inv: "rwlock_sys_inv s" and held: "rs_writes s t a \<or> rs_reads s t a > 0"
  obtains st' where "rwlock_posthandle_unlock (rs_st s) t a = Inr st'"
    and "rwlock_sys_inv (s\<lparr>rs_st := st', rs_reads := held_upd (rs_reads s) t a (rs_reads s t a - 1),
      rs_writes := held_upd (rs_writes s) t a False\<rparr>)"
proof -
  let ?l = "lock_at (rs_st s) a" and ?r = "held_upd (rs_reads s) t a (rs_reads s t a - 1)"
    and ?w = "held_upd (rs_writes s) t a False"
  note at = rwlock_sys_inv_at [OF inv, of a]
  obtain st1 where i: "rwlock_init (rs_st s) a = Inr (?l, st1)" "map_inv (hr_locks st1)"
    "rlook st1 = (rlook (rs_st s))(a \<mapsto> ?l)" by (rule rwlock_sys_init_at [OF inv])
  obtain l where h: "rwlock_posthandle_unlock (rs_st s) t a = Inr (rwlock_store st1 a l)" "rw_at (rs_pend s) ?r ?w a l"
  proof (cases "rw_writer ?l = NO_TASK")
    case False
    then have rd: "map_find (rw_readers ?l) = (\<lambda>_. None)" "\<forall>u. rs_reads s u a = 0"
      using at by (auto simp: rw_at_def rw_ok_alt)
    with held have "rs_writes s t a" by simp
    then have w: "rw_writer ?l = t" using rw_at_waiters [OF at, of t] by simp
    have "rw_at (rs_pend s) ?r ?w a (?l\<lparr>rw_writer := NO_TASK\<rparr>)"
      using at rd w by (auto simp: rw_at_def rw_ok_alt held_upd_def)
    with that w False i show ?thesis by (simp add: rwlock_posthandle_unlock_def)
  next
    case True
    then have nw: "\<not> rs_writes s u a" for u using rw_at_waiters [OF at, of u] by auto
    with held have "rs_reads s t a > 0" by simp
    then obtain c where c: "map_find (rw_readers ?l) t = Some c" "c > 0" "t \<noteq> NO_TASK"
      using at by (auto simp: rw_at_def rw_ok_alt split: option.splits)
    obtain rs where rs: "(if c - 1 = 0 then tidmap_deregister (map_write (rw_readers ?l) t (c - 1)) t
        else Inr (map_write (rw_readers ?l) t (c - 1))) = Inr rs"
      "rw_at (rs_pend s) ?r (rs_writes s) a (?l\<lparr>rw_readers := rs\<rparr>)"
      by (rule rw_at_remove_reader [OF at True c(3,1)])
    have "?w = rs_writes s" using nw by (auto simp: held_upd_def fun_eq_iff)
    with that [of "?l\<lparr>rw_readers := rs\<rparr>"] rs True c i show ?thesis
      by (simp add: rwlock_posthandle_unlock_def rwlock_is_read_locked_by_def tidmap_find_def Let_def)
  qed
  have "rwlock_sys_inv (s\<lparr>rs_st := rwlock_store st1 a l, rs_pend := rs_pend s, rs_reads := ?r, rs_writes := ?w\<rparr>)"
    by (rule rwlock_sys_inv_upd [OF inv _ _ _ _ _ _ h(2)])
      (use i rwlock_sys_inv_NO_TASK [OF inv] in \<open>auto simp: rlook_store held_upd_simps\<close>)
  with that h(1) show ?thesis by simp
qed

lemma rwlock_handle_cases:
  assumes "rwlock_inv st" and "tidset_inv (e_tset e)" and "cp_id cp \<noteq> NO_TASK" and "\<not> e_skip e"
    and ev: "rwlock_handle_event ev cp e st = Inr (e1, st1)"
  obtains tset where "rwlock_handle ev cp e st = Inr (e1\<lparr>e_tset := tset\<rparr>, st1)" and "tidset_inv tset"
    and "tids tset = tids (e_tset e) - rwlock_blocked st1"
proof -
  have "rwlock_inv st1" "e_tset e1 = e_tset e"
    using rwlock_handle_event_inv [OF assms(1,3) refl ev] by auto
  with assms(2) obtain tset where "rwlock_remove_loop (map_iterate (hr_locks st1)) (e_tset e1) = Inr tset"
    "tidset_inv tset" "tids tset = tids (e_tset e) - rwlock_blocked st1"
    using rwlock_remove_ok [of st1 "e_tset e1"] by metis
  with that ev assms(3,4) show ?thesis by (simp add: rwlock_handle_def)
qed

lemma rwlock_handle_event_of:
  assumes "cp_id cp \<noteq> NO_TASK" and "\<not> e_skip e" and "rwlock_handle ev cp e st = Inr (e', st')"
  obtains e1 where "rwlock_handle_event ev cp e st = Inr (e1, st')"
  using assms by (auto simp: rwlock_handle_def result_elims)

text \<open>A request event runs the handler of its mode.\<close>

lemma rwlock_handle_event_request:
  assumes "rwlock_event_of ev cp = Some x" and "request_mode x = Some md"
  shows "rwlock_handle_event ev cp e st =
    bindr (if md = RD then rwlock_handle_rdlock st (cp_id cp) (cp_addr cp) e
           else rwlock_handle_wrlock st (cp_id cp) (cp_addr cp) e) (\<lambda>(_, e, st).
      assertr (e_any_task_filter e = None)
        (Inr (e\<lparr>e_is_chpt := True, e_any_task_filter := Some RWLOCK_SHOULD_WAIT\<rparr>, st)))"
  using assms by (cases x) (auto simp: rwlock_handle_event_def)

lemma rwlock_handle_event_other:
  assumes "case rwlock_event_of ev cp of None \<Rightarrow> True | Some x \<Rightarrow> request_mode x = None"
  shows "\<exists>e1. rwlock_handle_event ev cp e st = Inr (e1, st)"
proof (cases "rwlock_event_of ev cp")
  case (Some x)
  with assms show ?thesis by (cases x) (auto simp: rwlock_handle_event_def)
qed (simp add: rwlock_handle_event_def)

lemma rwlock_resume_request:
  assumes "rwlock_event_of ev cp = Some x" and "request_mode x = Some md"
  shows "rwlock_resume ev cp st =
    bindr (if md = RD then rwlock_posthandle_rdlock st (cp_id cp) (cp_addr cp)
           else rwlock_posthandle_wrlock st (cp_id cp) (cp_addr cp)) (\<lambda>st. Inr (None, st))"
  using assms by (cases x) (auto simp: rwlock_resume_def)

lemma rwlock_request_ok:
  assumes inv: "rwlock_sys_inv s" and t: "t \<noteq> NO_TASK" and p: "rs_pend s t = None" and nw: "\<not> rs_writes s t a"
    and nr: "md = WR \<longrightarrow> rs_reads s t a = 0"
  obtains st' where "(if md = RD then rwlock_handle_rdlock (rs_st s) t a e else rwlock_handle_wrlock (rs_st s) t a e) =
      Inr (True, e, st')"
    and "rwlock_sys_inv (s\<lparr>rs_st := st', rs_pend := (rs_pend s)(t \<mapsto> (md, a))\<rparr>)"
proof (cases md)
  case RD
  with rwlock_request_rd [OF inv t p nw] that show ?thesis by (metis (full_types))
next
  case WR
  with rwlock_request_wr [OF inv t p nw] nr that show ?thesis by (metis (full_types) rw_mode.distinct(1))
qed

lemma rwlock_granted_ok:
  assumes inv: "rwlock_sys_inv s" and p: "rs_pend s t = Some (md, a)" and nb: "t \<notin> rwlock_blocked (rs_st s)"
  obtains st' where "(if md = RD then rwlock_posthandle_rdlock (rs_st s) t a
      else rwlock_posthandle_wrlock (rs_st s) t a) = Inr st'"
    and "rwlock_sys_inv (s\<lparr>rs_st := st', rs_pend := (rs_pend s)(t := None),
      rs_reads := (if md = RD then held_upd (rs_reads s) t a (rs_reads s t a + 1) else rs_reads s),
      rs_writes := (if md = WR then held_upd (rs_writes s) t a True else rs_writes s)\<rparr>)"
proof (cases md)
  case RD
  then have p': "rs_pend s t = Some (RD, a)" using p by simp
  obtain st' where "rwlock_posthandle_rdlock (rs_st s) t a = Inr st'"
    "rwlock_sys_inv (s\<lparr>rs_st := st', rs_pend := (rs_pend s)(t := None),
      rs_reads := held_upd (rs_reads s) t a (rs_reads s t a + 1), rs_writes := rs_writes s\<rparr>)"
    by (rule rwlock_granted_rd [OF inv p' nb])
  with that RD show ?thesis by simp
next
  case WR
  then have p': "rs_pend s t = Some (WR, a)" using p by simp
  obtain st' where "rwlock_posthandle_wrlock (rs_st s) t a = Inr st'"
    "rwlock_sys_inv (s\<lparr>rs_st := st', rs_pend := (rs_pend s)(t := None), rs_reads := rs_reads s,
      rs_writes := held_upd (rs_writes s) t a True\<rparr>)"
    by (rule rwlock_granted_wr [OF inv p' nb])
  with that WR show ?thesis by simp
qed

lemma rwlock_step_inv: "rwlock_step ev s s' \<Longrightarrow> rwlock_sys_inv s \<Longrightarrow> rwlock_sys_inv s'"
proof (induction rule: rwlock_step.induct)
  case (request cp x md t a s e e' st')
  obtain e1 where "rwlock_handle_event ev cp e (rs_st s) = Inr (e1, st')"
    using rwlock_handle_event_of [of cp e ev "rs_st s" e' st'] request by metis
  moreover obtain st1 where "(if md = RD then rwlock_handle_rdlock (rs_st s) t a e
      else rwlock_handle_wrlock (rs_st s) t a e) = Inr (True, e, st1)"
    "rwlock_sys_inv (s\<lparr>rs_st := st1, rs_pend := (rs_pend s)(t \<mapsto> (md, a))\<rparr>)"
    by (rule rwlock_request_ok [OF request.prems request.hyps(5-8)])
  ultimately show ?case
    using request.hyps(1-4) by (auto simp: rwlock_handle_event_request result_elims)
next
  case (other cp e s e' st')
  obtain e1 where "rwlock_handle_event ev cp e (rs_st s) = Inr (e1, st')"
    using rwlock_handle_event_of [of cp e ev "rs_st s" e' st'] other by metis
  with rwlock_handle_event_other [OF other.hyps(1), of e "rs_st s"] other.prems show ?case by auto
next
  case (granted cp x md t a s r st')
  have nb: "t \<notin> rwlock_blocked (rs_st s)"
    using granted by (simp add: rwlock_should_wait_blocked rwlock_sys_inv_inv)
  show ?case
    by (rule rwlock_granted_ok [OF granted.prems granted.hyps(5) nb])
      (use granted.hyps in \<open>auto simp: rwlock_resume_request\<close>)
next
  case (tried_rd cp t a s r st')
  with rwlock_tried_rd [OF tried_rd.prems tried_rd.hyps(4) refl, of a] show ?case
    by (auto simp: rwlock_resume_def)
next
  case (tried_wr cp t a s r st')
  with rwlock_tried_wr [OF tried_wr.prems tried_wr.hyps(4) refl, of a] show ?case
    by (auto simp: rwlock_resume_def)
next
  case (unlocked cp t a s r st')
  show ?case
    by (rule rwlock_unlocked [OF unlocked.prems unlocked.hyps(5)])
      (use unlocked.hyps in \<open>auto simp: rwlock_resume_def\<close>)
qed

lemma rwlock_reach_sys_inv: "rwlock_reach ev s \<Longrightarrow> rwlock_sys_inv s"
proof (induction rule: rwlock_reach.induct)
  case init
  show ?case
    by (auto simp: rwlock_sys_inv_def rwlock_sys_init_def rw_at_def lock_at_def rwlock_state_init_def)
next
  case (step s s')
  then show ?case using rwlock_step_inv by blast
qed

section \<open>Properties\<close>

text \<open>
  Claim C8. In every run of the protocol a lock that a task holds for writing is held by no other task,
  neither for reading nor for writing, and not for reading by the writer itself.
\<close>

theorem rwlock_readers_xor_writer:
  assumes "rwlock_reach ev s" and "rs_writes s t a"
  shows "rwlock_inv (rs_st s) \<and> (\<forall>u. rs_reads s u a = 0 \<and> (rs_writes s u a \<longrightarrow> u = t))"
proof -
  have inv: "rwlock_sys_inv s" using assms(1) by (rule rwlock_reach_sys_inv)
  note at = rwlock_sys_inv_at [OF inv, of a]
  have w: "rw_writer (lock_at (rs_st s) a) = t" "t \<noteq> NO_TASK"
    using rw_at_waiters(3) [OF at, of t] assms(2) by auto
  then have "rs_reads s u a = 0" for u using at by (auto simp: rw_at_def rw_ok_alt)
  moreover have "u = t" if "rs_writes s u a" for u using rw_at_waiters(3) [OF at, of u] that w by simp
  ultimately show ?thesis using rwlock_sys_inv_inv [OF inv] by blast
qed

definition sample_decode :: rwlock_decode where
  "sample_decode = map_of [(1, EVENT_RWLOCK_RDLOCK), (2, EVENT_RWLOCK_WRLOCK), (3, EVENT_RWLOCK_TRYRDLOCK),
     (4, EVENT_RWLOCK_TRYWRLOCK), (5, EVENT_RWLOCK_UNLOCK)]"

lemma sample_reach_writer:
  obtains s where "rwlock_reach sample_decode s" and "rs_writes s 5 64" and "rs_pend s 6 = None"
proof -
  let ?cp = "event_cp 4 5 64"
  have "case rwlock_resume sample_decode ?cp rwlock_state_init of Inr (Some r, st') \<Rightarrow> r = 0 | _ \<Rightarrow> False"
    by code_simp
  then obtain st' where r: "rwlock_resume sample_decode ?cp (rs_st rwlock_sys_init) = Inr (Some 0, st')"
    by (auto simp: rwlock_sys_init_def split: sum.splits option.splits)
  have ev: "rwlock_event_of sample_decode ?cp = Some EVENT_RWLOCK_TRYWRLOCK"
    by (simp add: rwlock_event_of_def sample_decode_def)
  have "rs_pend rwlock_sys_init 5 = None" by (simp add: rwlock_sys_init_def)
  from rwlock_step.tried_wr [OF ev event_cp_simps(2,3) _ this r] have
    "rwlock_step sample_decode rwlock_sys_init (rwlock_sys_init\<lparr>rs_st := st',
      rs_writes := held_upd (rs_writes rwlock_sys_init) 5 64 True\<rparr>)"
    by (simp add: NO_TASK_def)
  from that rwlock_reach.step [OF rwlock_reach.init this] show ?thesis
    by (simp add: held_upd_def rwlock_sys_init_def)
qed

theorem rwlock_readers_xor_writer_witness:
  "\<exists>s :: rwlock_sys. rs_writes s 5 64 \<and> rs_reads s 6 64 = 0 \<and> \<not> rs_writes s 6 64"
proof -
  obtain s where s: "rwlock_reach sample_decode s" "rs_writes s 5 64" by (rule sample_reach_writer)
  from rwlock_readers_xor_writer [OF this] have "rs_reads s 6 64 = 0" "rs_writes s 6 64 \<longrightarrow> (6::task_id) = 5" by blast+
  with s(2) show ?thesis by (intro exI [of _ s]) auto
qed

text \<open>
  The value a try event returns: \<^verbatim>\<open>EDEADLK\<close> for the writer, \<^verbatim>\<open>EBUSY\<close> if the lock is held in a
  conflicting way or, for a reader, a writer waits, and 0 otherwise, in which case the task holds
  the lock afterwards.
\<close>

theorem rwlock_try_outcome:
  assumes "rwlock_reach ev s" and "cp_id cp = t" and "cp_addr cp = a" and "t \<noteq> NO_TASK" and "rs_pend s t = None"
  shows "(rwlock_event_of ev cp = Some EVENT_RWLOCK_TRYWRLOCK \<longrightarrow>
      (\<exists>st'. rwlock_resume ev cp (rs_st s) = Inr (Some (if rs_writes s t a then EDEADLK
         else if \<exists>u. rs_writes s u a \<or> rs_reads s u a > 0 then EBUSY else 0), st'))) \<and>
    (rwlock_event_of ev cp = Some EVENT_RWLOCK_TRYRDLOCK \<longrightarrow>
      (\<exists>st'. rwlock_resume ev cp (rs_st s) = Inr (Some (if rs_writes s t a then EDEADLK
         else if \<exists>u. rs_writes s u a \<or> rs_pend s u = Some (WR, a) then EBUSY else 0), st')))"
proof -
  have inv: "rwlock_sys_inv s" using assms(1) by (rule rwlock_reach_sys_inv)
  let ?l = "lock_at (rs_st s) a"
  note at = rwlock_sys_inv_at [OF inv, of a]
  have w: "rs_writes s t a \<longleftrightarrow> rw_writer ?l = t" "(\<exists>u. rs_writes s u a) \<longleftrightarrow> rw_writer ?l \<noteq> NO_TASK"
    using rw_at_waiters(3) [OF at] assms(4) by auto
  have p: "(\<exists>u. rs_pend s u = Some (WR, a)) \<longleftrightarrow> tids (rw_write_waiters ?l) \<noteq> {}"
    using rw_at_waiters(2) [OF at] by blast
  have r: "(\<exists>u. rs_reads s u a > 0) \<longleftrightarrow> map_size (rw_readers ?l) > 0"
  proof -
    have ok: "rw_ok ?l" and f: "\<forall>u. rs_reads s u a = (case map_find (rw_readers ?l) u of None \<Rightarrow> 0 | Some c \<Rightarrow> nat c)"
      using at by (auto simp: rw_at_def)
    have "(\<exists>u. rs_reads s u a > 0) \<longleftrightarrow> map_find (rw_readers ?l) \<noteq> (\<lambda>_. None)"
      using f ok by (fastforce simp: rw_ok_alt fun_eq_iff split: option.splits)
    with map_size_0 [of "rw_readers ?l"] ok show ?thesis by (auto simp: rw_ok_alt)
  qed
  from rwlock_tried_wr [OF inv assms(4) refl, of a] rwlock_tried_rd [OF inv assms(4) refl, of a] assms(2,3)
  show ?thesis by (auto simp: rwlock_resume_def w p r ex_disj_distrib)
qed

text \<open>
  Claim C10. In every reachable state every call the protocol enables returns: a request for a lock the task
  does not hold in a conflicting way is queued, any other event passes the handler without a change of the locks, a pending task that need not wait gets the lock,
  a task can unlock what it holds, and the resumption of both kinds of try returns a value, which is 0 exactly when no other task and no waiting writer is in the way.
\<close>

theorem rwlock_never_stops:
  assumes "rwlock_reach ev s" and "cp_id cp = t" and "cp_addr cp = a"
    and "t \<noteq> NO_TASK" and "tidset_inv (e_tset e)" and "\<not> e_skip e" and "e_any_task_filter e = None"
  shows "(rwlock_event_of ev cp = Some x \<and> request_mode x = Some md \<and> rs_pend s t = None \<and> \<not> rs_writes s t a \<and> (md = WR \<longrightarrow> rs_reads s t a = 0) \<longrightarrow>
      (\<exists>e' st'. rwlock_handle ev cp e (rs_st s) = Inr (e', st') \<and> e_reason e' = e_reason e)) \<and>
    ((case rwlock_event_of ev cp of None \<Rightarrow> True | Some x \<Rightarrow> request_mode x = None) \<longrightarrow>
      (\<exists>e'. rwlock_handle ev cp e (rs_st s) = Inr (e', rs_st s))) \<and>
    (rwlock_event_of ev cp = Some x \<and> request_mode x = Some md \<and> rs_pend s t = Some (md, a) \<and> rwlock_should_wait (rs_st s) t = Inr False \<longrightarrow>
      (\<exists>st'. rwlock_resume ev cp (rs_st s) = Inr (None, st'))) \<and>
    (rwlock_event_of ev cp = Some EVENT_RWLOCK_UNLOCK \<and> (rs_writes s t a \<or> rs_reads s t a > 0) \<longrightarrow>
      (\<exists>st'. rwlock_resume ev cp (rs_st s) = Inr (None, st'))) \<and>
    (rwlock_event_of ev cp = Some EVENT_RWLOCK_TRYWRLOCK \<and> rs_pend s t = None \<longrightarrow>
      (\<exists>r st'. rwlock_resume ev cp (rs_st s) = Inr (Some r, st') \<and> (r = 0 \<longleftrightarrow> \<not> (\<exists>u. rs_writes s u a \<or> rs_reads s u a > 0)))) \<and>
    (rwlock_event_of ev cp = Some EVENT_RWLOCK_TRYRDLOCK \<and> rs_pend s t = None \<longrightarrow>
      (\<exists>r st'. rwlock_resume ev cp (rs_st s) = Inr (Some r, st') \<and> (r = 0 \<longleftrightarrow> \<not> (\<exists>u. rs_writes s u a \<or> rs_pend s u = Some (WR, a)))))"
proof (intro conjI impI)
  have inv: "rwlock_sys_inv s" using assms(1) by (rule rwlock_reach_sys_inv)
  note minv = rwlock_sys_inv_inv [OF inv]
  have t: "cp_id cp \<noteq> NO_TASK" using assms by simp
  note handled = rwlock_handle_cases [OF minv assms(5) t assms(6)]
  {
    assume q: "rwlock_event_of ev cp = Some x \<and> request_mode x = Some md \<and> rs_pend s t = None \<and> \<not> rs_writes s t a \<and> (md = WR \<longrightarrow> rs_reads s t a = 0)"
    then obtain st' where "(if md = RD then rwlock_handle_rdlock (rs_st s) t a e
        else rwlock_handle_wrlock (rs_st s) t a e) = Inr (True, e, st')"
      using rwlock_request_ok [OF inv assms(4), of a md e] by blast
    then have ev: "rwlock_handle_event ev cp e (rs_st s) =
        Inr (e\<lparr>e_is_chpt := True, e_any_task_filter := Some RWLOCK_SHOULD_WAIT\<rparr>, st')"
      using q assms by (cases md) (simp_all add: rwlock_handle_event_request)
    show "\<exists>e' st'. rwlock_handle ev cp e (rs_st s) = Inr (e', st') \<and> e_reason e' = e_reason e"
      by (rule handled [OF ev]) auto
  next
    assume "case rwlock_event_of ev cp of None \<Rightarrow> True | Some x \<Rightarrow> request_mode x = None"
    then obtain e1 where ev: "rwlock_handle_event ev cp e (rs_st s) = Inr (e1, rs_st s)"
      using rwlock_handle_event_other [of ev cp e "rs_st s"] by auto
    show "\<exists>e'. rwlock_handle ev cp e (rs_st s) = Inr (e', rs_st s)"
      by (rule handled [OF ev]) auto
  next
    assume q: "rwlock_event_of ev cp = Some x \<and> request_mode x = Some md \<and> rs_pend s t = Some (md, a) \<and> rwlock_should_wait (rs_st s) t = Inr False"
    then have "t \<notin> rwlock_blocked (rs_st s)" by (simp add: rwlock_should_wait_blocked [OF minv])
    with q obtain st' where "(if md = RD then rwlock_posthandle_rdlock (rs_st s) t a
        else rwlock_posthandle_wrlock (rs_st s) t a) = Inr st'" using rwlock_granted_ok [OF inv] by blast
    with q assms show "\<exists>st'. rwlock_resume ev cp (rs_st s) = Inr (None, st')"
      by (cases md) (simp_all add: rwlock_resume_request)
  next
    assume q: "rwlock_event_of ev cp = Some EVENT_RWLOCK_UNLOCK \<and> (rs_writes s t a \<or> rs_reads s t a > 0)"
    then obtain st' where "rwlock_posthandle_unlock (rs_st s) t a = Inr st'"
      using rwlock_unlocked [OF inv, of t a] by blast
    with q assms show "\<exists>st'. rwlock_resume ev cp (rs_st s) = Inr (None, st')" by (simp add: rwlock_resume_def rwlock_addr_def)
  next
    assume "rwlock_event_of ev cp = Some EVENT_RWLOCK_TRYWRLOCK \<and> rs_pend s t = None"
    with rwlock_try_outcome [OF assms(1-4)]
    show "\<exists>r st'. rwlock_resume ev cp (rs_st s) = Inr (Some r, st') \<and> (r = 0 \<longleftrightarrow> \<not> (\<exists>u. rs_writes s u a \<or> rs_reads s u a > 0))"
      by (auto simp: EDEADLK_def EBUSY_def)
  next
    assume "rwlock_event_of ev cp = Some EVENT_RWLOCK_TRYRDLOCK \<and> rs_pend s t = None"
    with rwlock_try_outcome [OF assms(1-4)]
    show "\<exists>r st'. rwlock_resume ev cp (rs_st s) = Inr (Some r, st') \<and> (r = 0 \<longleftrightarrow> \<not> (\<exists>u. rs_writes s u a \<or> rs_pend s u = Some (WR, a)))"
      by (auto simp: EDEADLK_def EBUSY_def)
  }
qed

theorem rwlock_never_stops_witness:
  "\<exists>s :: rwlock_sys. rs_writes s 5 64 \<and> (\<exists>st'. rwlock_resume sample_decode (event_cp 5 5 64) (rs_st s) = Inr (None, st')) \<and>
     (\<exists>r st'. rwlock_resume sample_decode (event_cp 4 6 64) (rs_st s) = Inr (Some r, st') \<and> r \<noteq> 0)"
proof -
  obtain s where s: "rwlock_reach sample_decode s" "rs_writes s 5 64" "rs_pend s 6 = None" by (rule sample_reach_writer)
  have ev: "rwlock_event_of sample_decode (event_cp 5 5 64) = Some EVENT_RWLOCK_UNLOCK"
    "rwlock_event_of sample_decode (event_cp 4 6 64) = Some EVENT_RWLOCK_TRYWRLOCK"
    by (simp_all add: rwlock_event_of_def sample_decode_def)
  have t: "(5::task_id) \<noteq> NO_TASK" "(6::task_id) \<noteq> NO_TASK" by (simp_all add: NO_TASK_def)
  from rwlock_never_stops [OF s(1) event_cp_simps(2,3) t(1) sample_event_simps(1-3)] ev(1) s(2)
  have 1: "\<exists>st'. rwlock_resume sample_decode (event_cp 5 5 64) (rs_st s) = Inr (None, st')" by blast
  from rwlock_never_stops [OF s(1) event_cp_simps(2,3) t(2) sample_event_simps(1-3)] ev(2) s(2,3)
  have "\<exists>r st'. rwlock_resume sample_decode (event_cp 4 6 64) (rs_st s) = Inr (Some r, st') \<and> r \<noteq> 0" by blast
  with 1 s(2) show ?thesis by blast
qed

text \<open>
  The capture handler keeps the invariant, removes from the candidate set exactly the tasks
  for which \<^verbatim>\<open>_should_wait\<close> holds afterwards, and gives the reason of a resource deadlock exactly to a
  request that conflicts with a lock the task holds itself.
\<close>

theorem rwlock_handle_blocks:
  assumes "rwlock_inv st" and "tidset_inv (e_tset e)" and "cp_id cp \<noteq> NO_TASK" and "\<not> e_skip e"
    and "rwlock_handle ev cp e st = Inr (e', st')"
  shows "rwlock_inv st' \<and> tidset_inv (e_tset e') \<and>
    tids (e_tset e') = {t \<in> tids (e_tset e). rwlock_should_wait st' t = Inr False} \<and>
    e_reason e' = (if \<exists>x. rwlock_event_of ev cp = Some x \<and> rw_self_deadlock x (lock_at st (cp_addr cp)) (cp_id cp)
                   then REASON_RSRC_DEADLOCK else e_reason e)"
proof -
  obtain e1 where h: "rwlock_handle_event ev cp e st = Inr (e1, st')"
    using rwlock_handle_event_of [OF assms(3-5)] by blast
  obtain tset where "e' = e1\<lparr>e_tset := tset\<rparr>" "tidset_inv tset" "tids tset = tids (e_tset e) - rwlock_blocked st'"
    using rwlock_handle_cases [OF assms(1-4) h] assms(5) by auto
  with rwlock_handle_event_inv [OF assms(1,3) lock_at_def h] show ?thesis
    by (auto simp: rwlock_should_wait_blocked)
qed

definition sample_locks :: handler_rwlock where
  "sample_locks = \<lparr>hr_locks = \<lparr>map_chain = [(64, \<lparr>rw_writer = 5, rw_readers = map_init,
     rw_read_waiters = \<lparr>ts_capacity = 1, ts_size = 1, ts_tasks = Some [6]\<rparr>, rw_write_waiters = tidset_init\<rparr>)],
     map_nitems = 1\<rparr>\<rparr>"

lemma sample_locks_inv: "rwlock_inv sample_locks"
  by (simp add: sample_locks_def rwlock_inv_def map_inv_def map_iterate_def rw_ok_def map_init_def map_size_def
      tidset_init_def tidset_init_cap_def tidset_inv_def tidset_wf_def tidset_list_def)

theorem rwlock_handle_blocks_witness:
  "\<exists>e' st'. rwlock_handle sample_decode (event_cp 2 5 64) sample_event sample_locks = Inr (e', st') \<and>
     e_reason e' = REASON_RSRC_DEADLOCK \<and> tids (e_tset e') = {5}"
proof -
  let ?cp = "event_cp 2 5 64"
  have "case rwlock_handle sample_decode ?cp sample_event sample_locks of
      Inr (e', st') \<Rightarrow> rwlock_should_wait st' 5 = Inr False \<and> rwlock_should_wait st' 6 = Inr True | _ \<Rightarrow> False"
    by code_simp
  then obtain e' st' where r: "rwlock_handle sample_decode ?cp sample_event sample_locks = Inr (e', st')"
    and w: "rwlock_should_wait st' 5 = Inr False" "rwlock_should_wait st' 6 = Inr True"
    by (auto elim: case_InrE)
  have t: "cp_id ?cp \<noteq> NO_TASK" by (simp add: NO_TASK_def)
  have d: "rwlock_event_of sample_decode ?cp = Some EVENT_RWLOCK_WRLOCK"
    "rw_self_deadlock EVENT_RWLOCK_WRLOCK (lock_at sample_locks 64) 5"
    by (simp_all add: rwlock_event_of_def sample_decode_def rw_self_deadlock_def lock_at_def sample_locks_def map_find_def)
  from rwlock_handle_blocks [OF sample_locks_inv sample_event_simps(1) t sample_event_simps(2) r] w d
  have "e_reason e' = REASON_RSRC_DEADLOCK" "tids (e_tset e') = {5}"
    by (auto simp: sample_event_simps(4))
  with r show ?thesis by blast
qed

theorem rwlock_try_outcome_witness:
  "\<exists>s :: rwlock_sys. rs_writes s 5 64 \<and> (\<exists>st'. rwlock_resume sample_decode (event_cp 4 6 64) (rs_st s) = Inr (Some EBUSY, st'))"
proof -
  obtain s where s: "rwlock_reach sample_decode s" "rs_writes s 5 64" "rs_pend s 6 = None" by (rule sample_reach_writer)
  have ev: "rwlock_event_of sample_decode (event_cp 4 6 64) = Some EVENT_RWLOCK_TRYWRLOCK"
    by (simp add: rwlock_event_of_def sample_decode_def)
  have t: "(6::task_id) \<noteq> NO_TASK" by (simp add: NO_TASK_def)
  have "\<not> rs_writes s 6 64"
    using rw_at_waiters(3) [OF rwlock_sys_inv_at [OF rwlock_reach_sys_inv [OF s(1)]], of _ 64] s(2) by auto
  with rwlock_try_outcome [OF s(1) event_cp_simps(2,3) t s(3)] ev s(2) show ?thesis by fastforce
qed

end
