(* ===== verification/Join.thy ===== *)
theory Join
  imports Capture
begin

text \<open>
  The join module, \<^verbatim>\<open>modules/join/src/handler.c\<close>: which task runs which pthread, which task waits for the end
  of which other task, and what a join returns.

  The module keeps pointers into the memory of the joining tasks (\<^verbatim>\<open>ret\<close>, \<^verbatim>\<open>value_ptr\<close>) and writes through
  them when the awaited task ends. The memory is explicit: \<open>jn_ints\<close> holds the integers and \<open>jn_ptrs\<close> the
  pointers at an address, the null pointer is address 0.

  The search for a cycle in \<^verbatim>\<open>_join\<close> is a loop without a bound. It ends because the wait-for graph has no
  cycle, which is an invariant that the search itself maintains.
\<close>

section \<open>Data\<close>

record pthread_task =
  pt_pthread :: "64 word"
  pt_value_ptr :: "64 word"
  pt_waiters :: tidset
  pt_terminated :: bool
  pt_detached :: bool

record waitee =
  wee_waitee :: task_id
  wee_value_ptr :: "64 word"
  wee_ret :: "64 word"

record join_state =
  jn_pthreads :: "pthread_task map_t"
  jn_tasks :: "task_id map_t"
  jn_waitees :: "waitee map_t"
  jn_ints :: "64 word \<Rightarrow> int"
  jn_ptrs :: "64 word \<Rightarrow> 64 word"

text \<open>
  The events of the handler with their payloads; \<^term>\<open>None\<close> is a null payload pointer. A join carries
  the thread, the address for its value and the address of its return value.
\<close>

datatype join_event =
    EvTaskInit "(64 word \<times> bool) option"
  | EvTaskJoin "(64 word \<times> 64 word \<times> 64 word) option"
  | EvTaskDetach "(64 word \<times> 64 word) option"
  | EvTaskFini "64 word option"
  | EvOther

definition ESRCH :: int where "ESRCH = 3"
definition EINVAL :: int where "EINVAL = 22"

definition zero_pthread_task :: pthread_task where
  "zero_pthread_task = \<lparr>pt_pthread = 0, pt_value_ptr = 0, pt_waiters = zero_tidset, pt_terminated = False,
     pt_detached = False\<rparr>"

definition zero_waitee :: waitee where
  "zero_waitee = \<lparr>wee_waitee = NO_TASK, wee_value_ptr = 0, wee_ret = 0\<rparr>"

definition join_state_init :: "(64 word \<Rightarrow> int) \<Rightarrow> (64 word \<Rightarrow> 64 word) \<Rightarrow> join_state" where
  "join_state_init ints ptrs = \<lparr>jn_pthreads = map_init, jn_tasks = map_init, jn_waitees = map_init,
     jn_ints = ints, jn_ptrs = ptrs\<rparr>"

section \<open>Operations\<close>

definition set_ret :: "64 word \<Rightarrow> int \<Rightarrow> join_state \<Rightarrow> join_state" where
  "set_ret a v s = s\<lparr>jn_ints := (jn_ints s)(a := v)\<rparr>"

definition set_value :: "64 word \<Rightarrow> 64 word \<Rightarrow> join_state \<Rightarrow> join_state" where
  "set_value a v s = (if a = 0 then s else s\<lparr>jn_ptrs := (jn_ptrs s)(a := v)\<rparr>)"

text \<open>Registration of a new task; a recycled pthread id is taken over by the new task.\<close>

definition join_init :: "join_state \<Rightarrow> task_id \<Rightarrow> 64 word \<Rightarrow> bool \<Rightarrow> join_state result" where
  "join_init s tid pthread detached =
     bindr (tidmap_register zero_pthread_task (jn_pthreads s) tid) (\<lambda>ps.
     let pt = \<lparr>pt_pthread = pthread, pt_value_ptr = 0, pt_waiters = tidset_init, pt_terminated = False,
               pt_detached = detached\<rparr>;
         ps = map_write ps tid pt in
     bindr (case map_find (jn_tasks s) pthread of
              Some _ \<Rightarrow> Inr (jn_tasks s)
            | None \<Rightarrow> map_register NO_TASK (jn_tasks s) pthread) (\<lambda>ts.
       Inr (s\<lparr>jn_pthreads := ps, jn_tasks := map_write ts pthread tid\<rparr>)))"

text \<open>The \<^verbatim>\<open>while (1)\<close> loop of \<^verbatim>\<open>_join\<close>; \<^term>\<open>None\<close> stands for a loop that does not end.\<close>

partial_function (option) join_cycle :: "waitee map_t \<Rightarrow> task_id \<Rightarrow> task_id \<Rightarrow> bool result option" where
  "join_cycle ws tid x =
     (if x = tid then Some (Inr True)
      else case tidmap_find ws x of
        Inl err \<Rightarrow> Some (Inl err)
      | Inr None \<Rightarrow> Some (Inr False)
      | Inr (Some wee) \<Rightarrow> join_cycle ws tid (wee_waitee wee))"

declare join_cycle.simps [code]

text \<open>What follows the search: the target has ended, or the task is queued.\<close>

definition join_wait :: "join_state \<Rightarrow> task_id \<Rightarrow> task_id \<Rightarrow> 64 word \<Rightarrow> 64 word \<Rightarrow> 64 word \<Rightarrow> join_state result" where
  "join_wait s tid waitee pthread value_ptr ret =
     bindr (tidmap_find (jn_pthreads s) waitee) (\<lambda>p.
       case p of
         None \<Rightarrow> Inl AssertFailed
       | Some pt \<Rightarrow>
           if pt_terminated pt then
             (let s = set_ret ret 0 (set_value value_ptr (pt_value_ptr pt) s) in
              bindr (tidmap_deregister (jn_pthreads s) waitee) (\<lambda>ps.
              bindr (if waitee = tid then tidmap_deregister (jn_tasks s) pthread else Inr (jn_tasks s)) (\<lambda>ts.
                Inr (s\<lparr>jn_pthreads := ps, jn_tasks := ts\<rparr>))))
           else
             bindr (tidset_insert (pt_waiters pt) tid) (\<lambda>(_, ws).
             bindr (tidmap_register zero_waitee (jn_waitees s) tid) (\<lambda>wm.
               Inr (s\<lparr>jn_pthreads := map_write (jn_pthreads s) waitee (pt\<lparr>pt_waiters := ws\<rparr>),
                      jn_waitees := map_write wm tid
                        \<lparr>wee_waitee = waitee, wee_value_ptr = value_ptr, wee_ret = ret\<rparr>\<rparr>))))"

definition join_join :: "join_state \<Rightarrow> task_id \<Rightarrow> 64 word \<Rightarrow> 64 word \<Rightarrow> 64 word \<Rightarrow> join_state result option" where
  "join_join s tid pthread value_ptr ret =
     (case map_find (jn_tasks s) pthread of
        None \<Rightarrow> Some (Inr (set_ret ret ESRCH s))
      | Some waitee \<Rightarrow>
          map_option (\<lambda>r. bindr r (\<lambda>cyc.
            if cyc then Inr (set_ret ret EDEADLK s) else join_wait s tid waitee pthread value_ptr ret))
            (join_cycle (jn_waitees s) tid waitee))"

definition join_texit :: "join_state \<Rightarrow> task_id \<Rightarrow> 64 word \<Rightarrow> join_state result" where
  "join_texit s tid value_ptr =
     bindr (tidmap_find (jn_pthreads s) tid) (\<lambda>p.
       case p of
         None \<Rightarrow> Inl AssertFailed
       | Some pt \<Rightarrow> assertr (pt_value_ptr pt = 0)
           (Inr (s\<lparr>jn_pthreads := map_write (jn_pthreads s) tid (pt\<lparr>pt_value_ptr := value_ptr\<rparr>)\<rparr>)))"

text \<open>The loop of \<^verbatim>\<open>_fini\<close> that releases the waiting tasks.\<close>

function join_release_loop :: "tidset \<Rightarrow> 64 word \<Rightarrow> join_state \<Rightarrow> nat \<Rightarrow> join_state result" where
  "join_release_loop ws v s i =
     (if i < tidset_size ws then
        bindr (tidset_get ws i) (\<lambda>w.
        bindr (tidmap_find (jn_waitees s) w) (\<lambda>e.
          case e of
            None \<Rightarrow> Inl AssertFailed
          | Some wee \<Rightarrow>
              (let s = set_ret (wee_ret wee) 0 (set_value (wee_value_ptr wee) v s) in
               bindr (tidmap_deregister (jn_waitees s) w) (\<lambda>wm.
                 join_release_loop ws v (s\<lparr>jn_waitees := wm\<rparr>) (Suc i)))))
      else Inr s)"
  by pat_completeness auto
termination
  by (relation "measure (\<lambda>(ws, v, s, i). tidset_size ws - i)") auto

declare join_release_loop.simps [simp del]

text \<open>\<^verbatim>\<open>t->tid == tid\<close> dereferences the item of the pthread id, if the map has one.\<close>

definition join_drop_task :: "join_state \<Rightarrow> task_id \<Rightarrow> 64 word \<Rightarrow> task_id map_t result" where
  "join_drop_task s tid pthread =
     (case map_find (jn_tasks s) pthread of
        None \<Rightarrow> Inl Fault
      | Some t \<Rightarrow> if t = tid then tidmap_deregister (jn_tasks s) pthread else Inr (jn_tasks s))"

definition join_fini :: "join_state \<Rightarrow> task_id \<Rightarrow> join_state result" where
  "join_fini s tid =
     bindr (tidmap_find (jn_pthreads s) tid) (\<lambda>p.
       case p of
         None \<Rightarrow> Inl AssertFailed
       | Some pt \<Rightarrow>
           if pt_detached pt then
             bindr (join_drop_task s tid (pt_pthread pt)) (\<lambda>ts.
             bindr (tidmap_deregister (jn_pthreads s) tid) (\<lambda>ps.
               Inr (s\<lparr>jn_tasks := ts, jn_pthreads := ps\<rparr>)))
           else if tidset_size (pt_waiters pt) = 0 then
             Inr (s\<lparr>jn_pthreads := map_write (jn_pthreads s) tid (pt\<lparr>pt_terminated := True\<rparr>)\<rparr>)
           else
             bindr (join_release_loop (pt_waiters pt) (pt_value_ptr pt) s 0) (\<lambda>s.
             bindr (join_drop_task s tid (pt_pthread pt)) (\<lambda>ts.
             bindr (tidmap_deregister (jn_pthreads s) tid) (\<lambda>ps.
               Inr (s\<lparr>jn_tasks := ts, jn_pthreads := ps\<rparr>)))))"

definition join_detach :: "join_state \<Rightarrow> 64 word \<Rightarrow> 64 word \<Rightarrow> join_state result" where
  "join_detach s pthread ret =
     (case map_find (jn_tasks s) pthread of
        None \<Rightarrow> Inr (set_ret ret ESRCH s)
      | Some t \<Rightarrow>
          bindr (tidmap_find (jn_pthreads s) t) (\<lambda>p.
            case p of
              None \<Rightarrow> Inl AssertFailed
            | Some pt \<Rightarrow>
                if pt_detached pt then Inr (set_ret ret EINVAL s)
                else let s = s\<lparr>jn_pthreads := map_write (jn_pthreads s) t (pt\<lparr>pt_detached := True\<rparr>)\<rparr> in
                  bindr (tidmap_find (jn_waitees s) t) (\<lambda>w.
                    assertr (w = None) (Inr (set_ret ret 0 s)))))"

definition join_should_wait :: "join_state \<Rightarrow> task_id \<Rightarrow> bool result" where
  "join_should_wait s t = bindr (tidmap_find (jn_waitees s) t) (\<lambda>w. Inr (w \<noteq> None))"

definition join_handle_event :: "task_id \<Rightarrow> join_event \<Rightarrow> join_state \<Rightarrow> join_state result option" where
  "join_handle_event tid ev s =
     (case ev of
        EvTaskInit p \<Rightarrow> Some (case p of None \<Rightarrow> Inl AssertFailed | Some (thread, detached) \<Rightarrow> join_init s tid thread detached)
      | EvTaskJoin p \<Rightarrow> (case p of None \<Rightarrow> Some (Inl AssertFailed)
          | Some (thread, ptr, ret) \<Rightarrow> join_join s tid thread ptr ret)
      | EvTaskDetach p \<Rightarrow> Some (case p of None \<Rightarrow> Inl AssertFailed | Some (thread, ret) \<Rightarrow> join_detach s thread ret)
      | EvTaskFini p \<Rightarrow> Some (bindr (case p of None \<Rightarrow> Inr s | Some ptr \<Rightarrow> join_texit s tid ptr) (\<lambda>s. join_fini s tid))
      | EvOther \<Rightarrow> Some (Inr s))"

definition join_filter :: "task_id \<Rightarrow> decision \<Rightarrow> join_state \<Rightarrow> (decision \<times> join_state) result" where
  "join_filter tid e s =
     (if e_skip e then Inr (e, s)
      else bindr (tidset_remove_all_keys (e_tset e) (jn_waitees s)) (\<lambda>tset.
        let e = e\<lparr>e_tset := tset\<rparr> in
        bindr (join_should_wait s tid) (\<lambda>w.
          if w then
            let e = e\<lparr>e_is_chpt := True\<rparr> in
            assertr (e_any_task_filter e = None)
              (Inr (e\<lparr>e_any_task_filter := Some JOIN_SHOULD_WAIT\<rparr>, s))
          else Inr (e, s))))"

definition join_handle :: "task_id \<Rightarrow> join_event \<Rightarrow> decision \<Rightarrow> join_state \<Rightarrow> (decision \<times> join_state) result option" where
  "join_handle tid ev e s =
     (if tid = NO_TASK then Some (Inl AssertFailed)
      else map_option (\<lambda>r. bindr r (\<lambda>s. join_filter tid e s)) (join_handle_event tid ev s))"

section \<open>Invariant\<close>

abbreviation jp :: "join_state \<Rightarrow> task_id \<Rightarrow> pthread_task option" where
  "jp s \<equiv> map_find (jn_pthreads s)"

abbreviation jt :: "join_state \<Rightarrow> 64 word \<Rightarrow> task_id option" where
  "jt s \<equiv> map_find (jn_tasks s)"

abbreviation jw :: "join_state \<Rightarrow> task_id \<Rightarrow> waitee option" where
  "jw s \<equiv> map_find (jn_waitees s)"

text \<open>The wait-for graph.\<close>

definition wait_edges :: "waitee map_t \<Rightarrow> (task_id \<times> task_id) set" where
  "wait_edges ws = {(w, x). \<exists>e. map_find ws w = Some e \<and> wee_waitee e = x}"

definition pt_ok :: "waitee map_t \<Rightarrow> task_id \<Rightarrow> pthread_task \<Rightarrow> bool" where
  "pt_ok ws t pt \<longleftrightarrow> t \<noteq> NO_TASK \<and> tidset_inv (pt_waiters pt) \<and> (pt_terminated pt \<longrightarrow> tids (pt_waiters pt) = {}) \<and>
     (\<forall>w\<in>tids (pt_waiters pt). (w, t) \<in> wait_edges ws)"

definition join_inv :: "join_state \<Rightarrow> bool" where
  "join_inv s \<longleftrightarrow> map_inv (jn_pthreads s) \<and> map_inv (jn_tasks s) \<and> map_inv (jn_waitees s) \<and>
     (\<forall>p t. jt s p = Some t \<longrightarrow> t \<noteq> NO_TASK) \<and>
     (\<forall>t pt. jp s t = Some pt \<longrightarrow> pt_ok (jn_waitees s) t pt) \<and>
     (\<forall>w e. jw s w = Some e \<longrightarrow> w \<noteq> NO_TASK \<and> wee_waitee e \<noteq> NO_TASK) \<and>
     acyclic (wait_edges (jn_waitees s))"

lemma set_ret_simps [simp]:
  "jn_pthreads (set_ret a v s) = jn_pthreads s" "jn_tasks (set_ret a v s) = jn_tasks s"
  "jn_waitees (set_ret a v s) = jn_waitees s" "jn_ptrs (set_ret a v s) = jn_ptrs s"
  "jn_ints (set_ret a v s) = (jn_ints s)(a := v)"
  by (simp_all add: set_ret_def)

lemma set_value_simps [simp]:
  "jn_pthreads (set_value a v s) = jn_pthreads s" "jn_tasks (set_value a v s) = jn_tasks s"
  "jn_waitees (set_value a v s) = jn_waitees s" "jn_ints (set_value a v s) = jn_ints s"
  by (simp_all add: set_value_def)

lemma join_inv_cong:
  "jn_pthreads s' = jn_pthreads s \<Longrightarrow> jn_tasks s' = jn_tasks s \<Longrightarrow> jn_waitees s' = jn_waitees s \<Longrightarrow>
     join_inv s' = join_inv s"
  by (simp add: join_inv_def)

lemma join_inv_state_init [simp]: "join_inv (join_state_init ints ptrs)"
proof -
  have "wait_edges (jn_waitees (join_state_init ints ptrs)) = {}"
    by (auto simp: wait_edges_def join_state_init_def)
  then show ?thesis by (simp add: join_inv_def join_state_init_def acyclic_def)
qed

lemma finite_wait_edges: "finite (wait_edges ws)"
proof -
  have "map_find ws = map_of (map_chain ws)" by (simp add: fun_eq_iff map_find_map_of)
  then have "finite (dom (map_find ws))" by (simp add: finite_dom_map_of)
  moreover have "wait_edges ws \<subseteq> (\<lambda>w. (w, wee_waitee (the (map_find ws w)))) ` dom (map_find ws)"
    by (force simp: wait_edges_def)
  ultimately show ?thesis using finite_surj by blast
qed

text \<open>
  On a graph without cycles the search ends, and it reports whether the joining task is reachable
  from the task it wants to wait for.
\<close>

lemma join_cycle_reach:
  assumes ac: "acyclic (wait_edges ws)" and nz: "\<forall>w e. map_find ws w = Some e \<longrightarrow> wee_waitee e \<noteq> NO_TASK"
    and x: "x \<noteq> NO_TASK"
  shows "join_cycle ws tid x = Some (Inr ((x, tid) \<in> (wait_edges ws)\<^sup>*))"
proof -
  have "wf ((wait_edges ws)\<inverse>)" using ac finite_wait_edges by (simp add: finite_acyclic_wf_converse)
  then show ?thesis using x
  proof (induction x rule: wf_induct_rule)
    case (less x)
    show ?case
    proof (cases "x = tid")
      case True
      then show ?thesis by (subst join_cycle.simps) simp
    next
      case False
      show ?thesis
      proof (cases "map_find ws x")
        case None
        with False have "(x, tid) \<notin> (wait_edges ws)\<^sup>*"
          by (auto simp: wait_edges_def elim: converse_rtranclE)
        with None False less.prems show ?thesis
          by (subst join_cycle.simps) (simp add: tidmap_find_def)
      next
        case (Some e)
        then have ed: "(x, wee_waitee e) \<in> wait_edges ws" by (simp add: wait_edges_def)
        have uniq: "(x, y) \<in> wait_edges ws \<Longrightarrow> y = wee_waitee e" for y
          using Some by (auto simp: wait_edges_def)
        have "(x, tid) \<in> (wait_edges ws)\<^sup>* \<longleftrightarrow> (wee_waitee e, tid) \<in> (wait_edges ws)\<^sup>*"
          using False ed uniq by (metis converse_rtranclE converse_rtrancl_into_rtrancl)
        moreover have "join_cycle ws tid (wee_waitee e) = Some (Inr ((wee_waitee e, tid) \<in> (wait_edges ws)\<^sup>*))"
          using less.IH ed nz Some by blast
        ultimately show ?thesis
          using False Some less.prems by (subst join_cycle.simps) (simp add: tidmap_find_def)
      qed
    qed
  qed
qed

lemma join_cycle_inv:
  assumes "join_inv s" and "jt s p = Some x"
  shows "join_cycle (jn_waitees s) tid x = Some (Inr ((x, tid) \<in> (wait_edges (jn_waitees s))\<^sup>*))"
  by (rule join_cycle_reach) (use assms in \<open>auto simp: join_inv_def\<close>)

section \<open>Preservation\<close>

lemma wait_edges_subset_ok: "wait_edges ws \<subseteq> wait_edges ws' \<Longrightarrow> pt_ok ws t pt \<Longrightarrow> pt_ok ws' t pt"
  by (auto simp: pt_ok_def)

lemma join_init_inv:
  assumes "join_inv s" and "join_init s tid p d = Inr s'"
  shows "join_inv s'"
proof -
  obtain ps ts where r: "tidmap_register zero_pthread_task (jn_pthreads s) tid = Inr ps"
    and t: "(case jt s p of Some _ \<Rightarrow> Inr (jn_tasks s) | None \<Rightarrow> map_register NO_TASK (jn_tasks s) p) = Inr ts"
    and s': "s' = s\<lparr>jn_pthreads := map_write ps tid \<lparr>pt_pthread = p, pt_value_ptr = 0, pt_waiters = tidset_init,
      pt_terminated = False, pt_detached = d\<rparr>, jn_tasks := map_write ts p tid\<rparr>"
    using assms(2) by (auto simp: join_init_def Let_def result_elims)
  have tid: "tid \<noteq> NO_TASK" and reg: "map_register zero_pthread_task (jn_pthreads s) tid = Inr ps"
    using r by (auto simp: tidmap_register_def result_elims)
  have m: "map_inv (jn_pthreads s)" "map_inv (jn_tasks s)" using assms(1) by (auto simp: join_inv_def)
  have ps: "map_inv ps" "map_find ps = (jp s)(tid \<mapsto> zero_pthread_task)"
    using map_inv_register [OF m(1) reg] map_find_register [OF reg] by auto
  have ts: "map_inv ts" "map_find ts p \<noteq> None" "\<And>q. q \<noteq> p \<Longrightarrow> map_find ts q = jt s q"
    using t m(2) by (auto simp: map_inv_register map_find_register split: option.splits)
  show ?thesis
    using assms(1) tid ps ts by (auto simp: join_inv_def s' map_find_write pt_ok_def split: if_splits)
qed

lemma join_inv_write:
  assumes "join_inv s" and "jp s t = Some pt" and "pt_ok (jn_waitees s) t pt'"
  shows "join_inv (s\<lparr>jn_pthreads := map_write (jn_pthreads s) t pt'\<rparr>)"
proof -
  have "map_find (map_write (jn_pthreads s) t pt') = (jp s)(t \<mapsto> pt')"
    using assms(2) by (simp add: map_find_write)
  with assms show ?thesis unfolding join_inv_def by simp
qed

lemma join_inv_set_ret [simp]: "join_inv (set_ret a v s) = join_inv s"
  by (rule join_inv_cong) simp_all

lemma join_texit_inv:
  assumes "join_inv s" and "join_texit s tid v = Inr s'"
  shows "join_inv s'"
proof -
  obtain pt where pt: "jp s tid = Some pt" and s': "s' = s\<lparr>jn_pthreads := map_write (jn_pthreads s) tid (pt\<lparr>pt_value_ptr := v\<rparr>)\<rparr>"
    using assms(2) by (auto simp: join_texit_def tidmap_find_def result_elims split: option.splits)
  have "pt_ok (jn_waitees s) tid (pt\<lparr>pt_value_ptr := v\<rparr>)"
    using assms(1) pt by (auto simp: join_inv_def pt_ok_def)
  then show ?thesis unfolding s' by (rule join_inv_write [OF assms(1) pt])
qed

lemma join_detach_inv:
  assumes "join_inv s" and "join_detach s p r = Inr s'"
  shows "join_inv s'"
proof (cases "join_inv s' \<or> (\<exists>t pt. jp s t = Some pt \<and>
    s' = set_ret r 0 (s\<lparr>jn_pthreads := map_write (jn_pthreads s) t (pt\<lparr>pt_detached := True\<rparr>)\<rparr>))")
  case False
  with assms show ?thesis
    by (auto simp: join_detach_def tidmap_find_def Let_def result_elims split: option.splits if_splits)
next
  case True
  then show ?thesis
  proof (elim disjE exE conjE)
    fix t pt
    assume pt: "jp s t = Some pt" and s': "s' = set_ret r 0 (s\<lparr>jn_pthreads := map_write (jn_pthreads s) t (pt\<lparr>pt_detached := True\<rparr>)\<rparr>)"
    have "pt_ok (jn_waitees s) t (pt\<lparr>pt_detached := True\<rparr>)"
      using assms(1) pt by (auto simp: join_inv_def pt_ok_def)
    then show ?thesis using join_inv_write [OF assms(1) pt] s' by simp
  qed
qed

lemma wait_edges_register:
  assumes "map_find ws t = None" and "map_find ws' = (map_find ws)(t \<mapsto> e)"
  shows "wait_edges ws' = insert (t, wee_waitee e) (wait_edges ws)"
  using assms by (auto simp: wait_edges_def split: if_splits)

lemma acyclic_insert_edge: "acyclic R \<Longrightarrow> (y, x) \<notin> R\<^sup>* \<Longrightarrow> acyclic (insert (x, y) R)"
  by (simp add: acyclic_insert)

lemma join_wait_inv:
  assumes inv: "join_inv s" and w: "w \<noteq> NO_TASK" and nc: "(w, tid) \<notin> (wait_edges (jn_waitees s))\<^sup>*"
    and r: "join_wait s tid w p vp rp = Inr s'"
  shows "join_inv s'"
proof -
  obtain pt where pt: "jp s w = Some pt"
    using r by (auto simp: join_wait_def tidmap_find_def result_elims split: option.splits)
  have m: "map_inv (jn_pthreads s)" "map_inv (jn_tasks s)" "map_inv (jn_waitees s)" and ok: "pt_ok (jn_waitees s) w pt"
    using inv pt by (auto simp: join_inv_def)
  show ?thesis
  proof (cases "pt_terminated pt")
    case True
    have "w \<noteq> tid" using nc by auto
    with True r pt w have "s' = (set_ret rp 0 (set_value vp (pt_value_ptr pt) s))\<lparr>jn_pthreads := map_deregister (jn_pthreads s) w\<rparr>"
      by (auto simp: join_wait_def tidmap_find_def tidmap_deregister_def Let_def)
    then show ?thesis using inv m by (auto simp: join_inv_def map_find_deregister map_inv_deregister split: if_splits)
  next
    case False
    from ok obtain b ws where ins: "tidset_insert (pt_waiters pt) tid = Inr (b, ws)" "tidset_inv ws"
      "tids ws = insert tid (tids (pt_waiters pt))" using tidset_insert_inv [of "pt_waiters pt" tid] by (auto simp: pt_ok_def)
    from False r pt w ins obtain wm where reg: "tidmap_register zero_waitee (jn_waitees s) tid = Inr wm"
      and s': "s' = s\<lparr>jn_pthreads := map_write (jn_pthreads s) w (pt\<lparr>pt_waiters := ws\<rparr>),
        jn_waitees := map_write wm tid \<lparr>wee_waitee = w, wee_value_ptr = vp, wee_ret = rp\<rparr>\<rparr>"
      by (auto simp: join_wait_def tidmap_find_def result_elims)
    have t: "tid \<noteq> NO_TASK" and reg': "map_register zero_waitee (jn_waitees s) tid = Inr wm"
      using reg by (auto simp: tidmap_register_def result_elims)
    have fr: "jw s tid = None" using reg' by (simp add: map_register_Inr)
    have wm: "map_inv wm" "map_find wm = (jw s)(tid \<mapsto> zero_waitee)"
      using map_inv_register [OF m(3) reg'] map_find_register [OF reg'] by auto
    have f: "jw s' = (jw s)(tid \<mapsto> \<lparr>wee_waitee = w, wee_value_ptr = vp, wee_ret = rp\<rparr>)"
      using wm by (simp add: s' map_find_write)
    have e: "wait_edges (jn_waitees s') = insert (tid, w) (wait_edges (jn_waitees s))"
      using wait_edges_register [OF fr f] by simp
    have "acyclic (wait_edges (jn_waitees s'))"
      using inv nc unfolding e by (intro acyclic_insert_edge) (auto simp: join_inv_def)
    moreover have "pt_ok (jn_waitees s') u q" if "jp s' u = Some q" for u q
    proof (cases "u = w")
      case True
      then have "q = pt\<lparr>pt_waiters := ws\<rparr>" using that pt by (simp add: s' map_find_write)
      with True ok ins False show ?thesis by (auto simp: pt_ok_def e)
    next
      case u: False
      then have "pt_ok (jn_waitees s) u q" using that inv by (auto simp: s' map_find_write join_inv_def split: if_splits)
      then show ?thesis by (rule wait_edges_subset_ok [rotated]) (auto simp: e)
    qed
    ultimately show ?thesis using inv m wm(1) w t f by (auto simp: join_inv_def s' split: if_splits)
  qed
qed

text \<open>What the loop of \<^verbatim>\<open>_fini\<close> has done when the waiting tasks in \<open>W\<close> are released.\<close>

definition released :: "join_state \<Rightarrow> 64 word \<Rightarrow> task_id set \<Rightarrow> join_state \<Rightarrow> bool" where
  "released s v W s' \<longleftrightarrow> jn_pthreads s' = jn_pthreads s \<and> jn_tasks s' = jn_tasks s \<and> map_inv (jn_waitees s') \<and>
     jw s' = (\<lambda>w. if w \<in> W then None else jw s w) \<and>
     (\<forall>a. jn_ints s a = 0 \<longrightarrow> jn_ints s' a = 0) \<and> (\<forall>a. jn_ptrs s a = v \<longrightarrow> jn_ptrs s' a = v) \<and>
     (\<forall>w\<in>W. \<forall>e. jw s w = Some e \<longrightarrow>
        jn_ints s' (wee_ret e) = 0 \<and> (wee_value_ptr e \<noteq> 0 \<longrightarrow> jn_ptrs s' (wee_value_ptr e) = v))"

lemma released_step:
  assumes e: "jw s w = Some e" and m: "map_inv (jn_waitees s)"
    and s1: "s1 = (set_ret (wee_ret e) 0 (set_value (wee_value_ptr e) v s))\<lparr>jn_waitees := map_deregister (jn_waitees s) w\<rparr>"
    and r: "released s1 v W s'" and w: "w \<notin> W"
  shows "released s v (insert w W) s'"
proof -
  have f: "jw s1 = (jw s)(w := None)" using m by (simp add: s1 map_find_deregister)
  have i: "jn_ints s1 = (jn_ints s)(wee_ret e := 0)" by (simp add: s1)
  have p: "jn_ptrs s1 = (if wee_value_ptr e = 0 then jn_ptrs s else (jn_ptrs s)(wee_value_ptr e := v))"
    by (simp add: s1 set_value_def)
  have "jn_ints s' (wee_ret e) = 0" "wee_value_ptr e \<noteq> 0 \<Longrightarrow> jn_ptrs s' (wee_value_ptr e) = v"
    using r by (auto simp: released_def i p)
  moreover have "jn_ints s' (wee_ret d) = 0 \<and> (wee_value_ptr d \<noteq> 0 \<longrightarrow> jn_ptrs s' (wee_value_ptr d) = v)"
    if "u \<in> W" "jw s u = Some d" for u d
  proof -
    have "jw s1 u = Some d" using that w f by auto
    with r that(1) show ?thesis by (auto simp: released_def)
  qed
  moreover have "jw s' = (\<lambda>u. if u \<in> insert w W then None else jw s u)"
    using r f w by (auto simp: released_def fun_eq_iff)
  moreover have "jn_ints s' a = 0" if "jn_ints s a = 0" for a using r that by (auto simp: released_def i)
  moreover have "jn_ptrs s' a = v" if "jn_ptrs s a = v" for a using r that by (auto simp: released_def p)
  moreover have "jn_pthreads s' = jn_pthreads s" "jn_tasks s' = jn_tasks s" "map_inv (jn_waitees s')"
    using r by (auto simp: released_def s1)
  ultimately show ?thesis unfolding released_def using e by auto
qed

lemma join_release_loop_ok:
  assumes "tidset_inv ws" and "map_inv (jn_waitees s)"
    and "\<forall>w\<in>set (drop i (tidset_list ws)). w \<noteq> NO_TASK \<and> jw s w \<noteq> None"
  shows "\<exists>s'. join_release_loop ws v s i = Inr s' \<and> released s v (set (drop i (tidset_list ws))) s'"
  using assms
proof (induction ws v s i rule: join_release_loop.induct)
  case (1 ws v s i)
  have wf: "tidset_wf ws" and d: "distinct (tidset_list ws)" using "1.prems"(1) by (auto simp: tidset_inv_def)
  show ?case
  proof (cases "i < tidset_size ws")
    case False
    with wf "1.prems"(2) show ?thesis
      by (simp add: join_release_loop.simps [of ws v s i] released_def tidset_size_def)
  next
    case True
    let ?w = "tidset_list ws ! i" and ?R = "set (drop (Suc i) (tidset_list ws))"
    have dr: "drop i (tidset_list ws) = ?w # drop (Suc i) (tidset_list ws)"
      using True wf by (simp add: Cons_nth_drop_Suc tidset_size_def)
    then obtain e where e: "jw s ?w = Some e" and wn: "?w \<noteq> NO_TASK" using "1.prems"(3) by auto
    have nr: "?w \<notin> ?R" using d dr by (metis distinct.simps(2) distinct_drop)
    let ?s1 = "(set_ret (wee_ret e) 0 (set_value (wee_value_ptr e) v s))\<lparr>jn_waitees := map_deregister (jn_waitees s) ?w\<rparr>"
    have step: "join_release_loop ws v s i = join_release_loop ws v ?s1 (Suc i)"
      using True wf e wn
      by (simp add: join_release_loop.simps [of ws v s i] tidset_get_wf tidset_size_def tidmap_find_def
          tidmap_deregister_def)
    have "\<exists>s'. join_release_loop ws v ?s1 (Suc i) = Inr s' \<and> released ?s1 v ?R s'"
      using True wf e wn "1.prems"(1,2,3) nr dr
      by (intro "1.IH") (auto simp: tidset_get_wf tidset_size_def tidmap_find_def tidmap_deregister_def
          map_inv_deregister map_find_deregister)
    then show ?thesis
      using released_step [OF e "1.prems"(2) refl _ nr] step dr by auto
  qed
qed

lemma join_drop_task_inv:
  assumes "join_inv s" and "join_drop_task s tid p = Inr ts"
  shows "map_inv ts \<and> (\<forall>q t. map_find ts q = Some t \<longrightarrow> jt s q = Some t)"
  using assms
  by (auto simp: join_drop_task_def tidmap_deregister_def result_elims join_inv_def map_find_deregister
      map_inv_deregister split: option.splits if_splits)

lemma join_inv_tasks:
  "join_inv s \<Longrightarrow> \<forall>q t. map_find ts q = Some t \<longrightarrow> jt s q = Some t \<Longrightarrow> map_find ts p = Some t \<Longrightarrow> t \<noteq> NO_TASK"
  by (metis join_inv_def)

text \<open>Removing a task and, possibly, the item of its pthread.\<close>

lemma join_inv_remove:
  assumes "join_inv s" and "map_inv ts" and "\<forall>q t. map_find ts q = Some t \<longrightarrow> jt s q = Some t"
  shows "join_inv (s\<lparr>jn_tasks := ts, jn_pthreads := map_deregister (jn_pthreads s) tid\<rparr>)"
  using assms(1,2) join_inv_tasks [OF assms(1,3)]
  unfolding join_inv_def by (simp add: map_find_deregister map_inv_deregister)

lemma wait_edges_unique: "(w, x) \<in> wait_edges ws \<Longrightarrow> (w, y) \<in> wait_edges ws \<Longrightarrow> x = y"
  by (auto simp: wait_edges_def)

text \<open>
  Releasing every task that waits for \<open>t\<close> keeps the invariant once \<open>t\<close> itself is removed.
\<close>

lemma join_inv_released:
  assumes inv: "join_inv s" and pt: "jp s t = Some pt" and r: "released s v (tids (pt_waiters pt)) s'"
    and ts: "map_inv ts" "\<forall>q u. map_find ts q = Some u \<longrightarrow> jt s q = Some u"
  shows "join_inv (s'\<lparr>jn_tasks := ts, jn_pthreads := map_deregister (jn_pthreads s') t\<rparr>)"
proof -
  let ?W = "tids (pt_waiters pt)"
  have f: "jw s' = (\<lambda>w. if w \<in> ?W then None else jw s w)" and p: "jn_pthreads s' = jn_pthreads s"
    and m: "map_inv (jn_waitees s')" using r by (auto simp: released_def)
  have e: "wait_edges (jn_waitees s') = {x \<in> wait_edges (jn_waitees s). fst x \<notin> ?W}"
    by (auto simp: wait_edges_def f split: if_splits)
  have "acyclic (wait_edges (jn_waitees s'))"
    using inv e by (auto simp: join_inv_def intro: acyclic_subset)
  moreover have "pt_ok (jn_waitees s') u q" if u: "u \<noteq> t" "jp s u = Some q" for u q
  proof -
    have ok: "pt_ok (jn_waitees s) u q" "pt_ok (jn_waitees s) t pt" using inv u(2) pt by (auto simp: join_inv_def)
    have "w \<notin> ?W" if "w \<in> tids (pt_waiters q)" for w
      using ok that u(1) wait_edges_unique by (fastforce simp: pt_ok_def)
    with ok(1) show ?thesis by (auto simp: pt_ok_def e)
  qed
  ultimately show ?thesis
    using inv ts(1) m join_inv_tasks [OF inv ts(2)]
    unfolding join_inv_def by (simp add: p map_find_deregister map_inv_deregister f)
qed

lemma join_fini_released:
  assumes inv: "join_inv s" and pt: "jp s t = Some pt" "\<not> pt_detached pt" "tids (pt_waiters pt) \<noteq> {}"
  obtains s1 where "released s (pt_value_ptr pt) (tids (pt_waiters pt)) s1"
    and "join_fini s t = bindr (join_drop_task s1 t (pt_pthread pt)) (\<lambda>ts.
      Inr (s1\<lparr>jn_tasks := ts, jn_pthreads := map_deregister (jn_pthreads s1) t\<rparr>))"
proof -
  have ok: "pt_ok (jn_waitees s) t pt" and m: "map_inv (jn_waitees s)" using inv pt by (auto simp: join_inv_def)
  then have i: "tidset_inv (pt_waiters pt)" and t: "t \<noteq> NO_TASK" by (auto simp: pt_ok_def)
  have w: "w \<noteq> NO_TASK \<and> jw s w \<noteq> None" if "w \<in> tids (pt_waiters pt)" for w
    using ok that inv by (fastforce simp: pt_ok_def wait_edges_def join_inv_def)
  have "tidset_size (pt_waiters pt) \<noteq> 0" using i pt(3) by (simp add: tidset_size_card)
  moreover obtain s1 where "join_release_loop (pt_waiters pt) (pt_value_ptr pt) s 0 = Inr s1"
    "released s (pt_value_ptr pt) (tids (pt_waiters pt)) s1"
    using join_release_loop_ok [OF i m, of 0] w by (auto simp: tids_def)
  ultimately show ?thesis
    using that pt t by (simp add: join_fini_def tidmap_find_def tidmap_deregister_def)
qed

lemma join_fini_inv:
  assumes inv: "join_inv s" and r: "join_fini s t = Inr s'"
  shows "join_inv s'"
proof -
  obtain pt where pt: "jp s t = Some pt" and t: "t \<noteq> NO_TASK"
    using r by (auto simp: join_fini_def tidmap_find_def result_elims split: option.splits)
  have ok: "pt_ok (jn_waitees s) t pt" using inv pt by (auto simp: join_inv_def)
  consider (det) "pt_detached pt" | (none) "\<not> pt_detached pt" "tids (pt_waiters pt) = {}"
    | (rel) "\<not> pt_detached pt" "tids (pt_waiters pt) \<noteq> {}" by blast
  then show ?thesis
  proof cases
    case det
    with r pt t obtain ts where "join_drop_task s t (pt_pthread pt) = Inr ts"
      "s' = s\<lparr>jn_tasks := ts, jn_pthreads := map_deregister (jn_pthreads s) t\<rparr>"
      by (auto simp: join_fini_def tidmap_find_def tidmap_deregister_def result_elims)
    with join_drop_task_inv [OF inv] join_inv_remove [OF inv] show ?thesis by blast
  next
    case none
    with ok have "tidset_size (pt_waiters pt) = 0" by (simp add: pt_ok_def tidset_size_card)
    with r pt t none have "s' = s\<lparr>jn_pthreads := map_write (jn_pthreads s) t (pt\<lparr>pt_terminated := True\<rparr>)\<rparr>"
      by (simp add: join_fini_def tidmap_find_def)
    moreover have "pt_ok (jn_waitees s) t (pt\<lparr>pt_terminated := True\<rparr>)" using ok none by (simp add: pt_ok_def)
    ultimately show ?thesis using join_inv_write [OF inv pt] by simp
  next
    case rel
    obtain s1 where s1: "released s (pt_value_ptr pt) (tids (pt_waiters pt)) s1"
      "join_fini s t = bindr (join_drop_task s1 t (pt_pthread pt)) (\<lambda>ts.
        Inr (s1\<lparr>jn_tasks := ts, jn_pthreads := map_deregister (jn_pthreads s1) t\<rparr>))"
      by (rule join_fini_released [OF inv pt rel])
    have tk: "jn_tasks s1 = jn_tasks s" using s1(1) by (simp add: released_def)
    have "join_drop_task s1 t p = join_drop_task s t p" for p unfolding join_drop_task_def tk by (rule refl)
    with r s1(2) obtain ts where "join_drop_task s t (pt_pthread pt) = Inr ts"
      "s' = s1\<lparr>jn_tasks := ts, jn_pthreads := map_deregister (jn_pthreads s1) t\<rparr>"
      by (auto simp: result_elims)
    with join_drop_task_inv [OF inv] join_inv_released [OF inv pt s1(1)] show ?thesis by blast
  qed
qed

lemma join_join_outcome:
  assumes inv: "join_inv s"
  shows "join_join s tid p vp rp =
    (case jt s p of
       None \<Rightarrow> Some (Inr (set_ret rp ESRCH s))
     | Some w \<Rightarrow> Some (if (w, tid) \<in> (wait_edges (jn_waitees s))\<^sup>* then Inr (set_ret rp EDEADLK s)
                      else join_wait s tid w p vp rp))"
  by (simp add: join_join_def join_cycle_inv [OF inv] split: option.split)

lemma join_handle_event_inv:
  assumes inv: "join_inv s" and r: "join_handle_event tid ev s = Some (Inr s')"
  shows "join_inv s'"
proof (cases ev)
  case (EvTaskInit p)
  with r join_init_inv [OF inv] show ?thesis by (auto simp: join_handle_event_def split: option.splits)
next
  case (EvTaskJoin p)
  then obtain th vp rp where j: "join_join s tid th vp rp = Some (Inr s')"
    using r by (auto simp: join_handle_event_def split: option.splits)
  show ?thesis
  proof (cases "jt s th")
    case None
    with j inv show ?thesis by (auto simp: join_join_outcome [OF inv])
  next
    case (Some w)
    then have "w \<noteq> NO_TASK" using inv by (auto simp: join_inv_def)
    with j Some inv join_wait_inv [OF inv] show ?thesis
      by (auto simp: join_join_outcome [OF inv] split: if_splits)
  qed
next
  case (EvTaskDetach p)
  with r join_detach_inv [OF inv] show ?thesis by (auto simp: join_handle_event_def split: option.splits)
next
  case (EvTaskFini p)
  then obtain s1 where "(case p of None \<Rightarrow> Inr s | Some ptr \<Rightarrow> join_texit s tid ptr) = Inr s1" and f: "join_fini s1 tid = Inr s'"
    using r by (auto simp: join_handle_event_def result_elims)
  then have "join_inv s1" using inv join_texit_inv [OF inv] by (auto split: option.splits)
  from join_fini_inv [OF this f] show ?thesis .
next
  case EvOther
  with r inv show ?thesis by (simp add: join_handle_event_def)
qed

lemma join_filter_state: "join_filter tid e s = Inr (e', s') \<Longrightarrow> s' = s"
  by (auto simp: join_filter_def Let_def result_elims split: if_splits)

text \<open>Any sequence of events the handler survives, with any changes the tasks make to their memory.\<close>

inductive join_reach :: "join_state \<Rightarrow> bool" where
  init: "join_reach (join_state_init ints ptrs)"
| handle: "join_reach s \<Longrightarrow> join_handle tid ev e s = Some (Inr (e', s')) \<Longrightarrow> join_reach s'"
| memory: "join_reach s \<Longrightarrow> join_reach (s\<lparr>jn_ints := ints, jn_ptrs := ptrs\<rparr>)"

lemma join_reach_join_inv: "join_reach s \<Longrightarrow> join_inv s"
proof (induction rule: join_reach.induct)
  case (handle s tid ev e e' s')
  then obtain s1 where "join_handle_event tid ev s = Some (Inr s1)" "join_filter tid e s1 = Inr (e', s')"
    by (auto simp: join_handle_def result_elims split: if_splits)
  with join_handle_event_inv [OF handle.IH] join_filter_state show ?case by blast
next
  case (memory s ptrs ints)
  then show ?case using join_inv_cong [of "s\<lparr>jn_ints := ints, jn_ptrs := ptrs\<rparr>" s] by simp
qed simp

section \<open>Properties\<close>

text \<open>
  Claim C14. The wait-for graph of the join module never has a cycle, so the search for a cycle in
  \<^verbatim>\<open>_join\<close>, a loop without a bound, ends: whatever event arrives in whatever reachable state, the handler
  returns.
\<close>

theorem join_handle_terminates:
  assumes "join_reach s"
  shows "acyclic (wait_edges (jn_waitees s)) \<and> (\<exists>r. join_handle tid ev e s = Some r)"
proof -
  have inv: "join_inv s" using assms by (rule join_reach_join_inv)
  have "\<exists>r. join_handle_event tid ev s = Some r"
    by (cases ev) (auto simp: join_handle_event_def join_join_outcome [OF inv] split: option.split)
  with inv show ?thesis by (auto simp: join_handle_def join_inv_def)
qed

definition sample_memory :: join_state where
  "sample_memory = join_state_init (\<lambda>_. -1) (\<lambda>_. 0)"

text \<open>Running a list of events; the decision is the same each time.\<close>

fun join_run :: "decision \<Rightarrow> (task_id \<times> join_event) list \<Rightarrow> join_state \<Rightarrow> join_state option" where
  "join_run e [] s = Some s"
| "join_run e ((tid, ev) # evs) s =
     (case join_handle tid ev e s of Some (Inr (_, s')) \<Rightarrow> join_run e evs s' | _ \<Rightarrow> None)"

lemma join_run_reach: "join_reach s \<Longrightarrow> join_run e evs s = Some s' \<Longrightarrow> join_reach s'"
proof (induction e evs s rule: join_run.induct)
  case (2 e tid ev evs s)
  then obtain e1 s1 where h: "join_handle tid ev e s = Some (Inr (e1, s1))" and r: "join_run e evs s1 = Some s'"
    by (auto split: option.splits sum.splits)
  from "2.IH" [OF h refl refl] join_reach.handle [OF "2.prems"(1) h] r show ?case by blast
qed simp

text \<open>Two tasks; the first one waits for the second.\<close>

definition sample_joining :: "(task_id \<times> join_event) list" where
  "sample_joining = [(1, EvTaskInit (Some (100, False))), (2, EvTaskInit (Some (200, False))),
     (1, EvTaskJoin (Some (200, 8, 16)))]"

theorem join_handle_terminates_witness:
  "\<exists>s r. join_run sample_event sample_joining sample_memory = Some s \<and> jw s 1 \<noteq> None \<and>
     join_handle 2 (EvTaskJoin (Some (100, 24, 32))) sample_event s = Some r"
proof -
  have "case join_run sample_event sample_joining sample_memory of Some s \<Rightarrow> jw s 1 \<noteq> None | None \<Rightarrow> False"
    by code_simp
  then obtain s where s: "join_run sample_event sample_joining sample_memory = Some s" "jw s 1 \<noteq> None"
    by (auto split: option.splits)
  have "join_reach s" by (rule join_run_reach [OF _ s(1)]) (simp add: sample_memory_def join_reach.init)
  from join_handle_terminates [OF this] s show ?thesis by blast
qed

text \<open>
  Claim C15. What a join does, for a task that is not waiting. It returns \<^verbatim>\<open>ESRCH\<close> for an unknown thread and
  \<^verbatim>\<open>EDEADLK\<close> exactly when waiting would close a cycle of waiting tasks. If the thread has ended, it returns
  0 with the value of the thread. Otherwise the task waits: it is recorded as waiting for the thread.
\<close>

theorem join_outcome:
  assumes "join_inv s" and "tid \<noteq> NO_TASK" and "jw s tid = None"
  shows "(jt s p = None \<longrightarrow> join_join s tid p vp rp = Some (Inr (set_ret rp ESRCH s))) \<and>
    (jt s p = Some w \<and> (w, tid) \<in> (wait_edges (jn_waitees s))\<^sup>* \<longrightarrow>
       join_join s tid p vp rp = Some (Inr (set_ret rp EDEADLK s))) \<and>
    (jt s p = Some w \<and> (w, tid) \<notin> (wait_edges (jn_waitees s))\<^sup>* \<and> jp s w = Some pt \<and> pt_terminated pt \<longrightarrow>
       (\<exists>s'. join_join s tid p vp rp = Some (Inr s') \<and> jn_ints s' rp = 0 \<and>
          (vp \<noteq> 0 \<longrightarrow> jn_ptrs s' vp = pt_value_ptr pt) \<and> jp s' w = None)) \<and>
    (jt s p = Some w \<and> (w, tid) \<notin> (wait_edges (jn_waitees s))\<^sup>* \<and> jp s w = Some pt \<and> \<not> pt_terminated pt \<longrightarrow>
       (\<exists>s'. join_join s tid p vp rp = Some (Inr s') \<and> join_should_wait s' tid = Inr True \<and>
          wait_edges (jn_waitees s') = insert (tid, w) (wait_edges (jn_waitees s)) \<and>
          (\<forall>u. u \<noteq> tid \<longrightarrow> jw s' u = jw s u) \<and> jn_ints s' = jn_ints s))"
proof (intro conjI impI; (elim conjE)?)
  note out = join_join_outcome [OF assms(1), of tid p vp rp]
  have m: "map_inv (jn_pthreads s)" "map_inv (jn_waitees s)" using assms(1) by (auto simp: join_inv_def)
  show "join_join s tid p vp rp = Some (Inr (set_ret rp ESRCH s))" if "jt s p = None"
    using out that by simp
  show "join_join s tid p vp rp = Some (Inr (set_ret rp EDEADLK s))"
    if "jt s p = Some w" "(w, tid) \<in> (wait_edges (jn_waitees s))\<^sup>*" using out that by simp
  assume t: "jt s p = Some w" and nc: "(w, tid) \<notin> (wait_edges (jn_waitees s))\<^sup>*" and pt: "jp s w = Some pt"
  have w: "w \<noteq> NO_TASK" "w \<noteq> tid" using assms(1) t nc by (auto simp: join_inv_def)
  have eq: "join_join s tid p vp rp = Some (join_wait s tid w p vp rp)" using out t nc by simp
  {
    assume "pt_terminated pt"
    with pt w have "join_wait s tid w p vp rp =
        Inr ((set_ret rp 0 (set_value vp (pt_value_ptr pt) s))\<lparr>jn_pthreads := map_deregister (jn_pthreads s) w\<rparr>)"
      by (simp add: join_wait_def tidmap_find_def tidmap_deregister_def)
    with eq m show "\<exists>s'. join_join s tid p vp rp = Some (Inr s') \<and> jn_ints s' rp = 0 \<and>
        (vp \<noteq> 0 \<longrightarrow> jn_ptrs s' vp = pt_value_ptr pt) \<and> jp s' w = None"
      by (simp add: map_find_deregister set_value_def)
  next
    assume nt: "\<not> pt_terminated pt"
    have "tidset_inv (pt_waiters pt)" using assms(1) pt by (auto simp: join_inv_def pt_ok_def)
    then obtain b ws where ins: "tidset_insert (pt_waiters pt) tid = Inr (b, ws)"
      using tidset_insert_inv by blast
    obtain wm where reg: "map_register zero_waitee (jn_waitees s) tid = Inr wm"
      and wm: "map_find wm = (jw s)(tid \<mapsto> zero_waitee)" using km.register_absent [OF m(2) assms(3)] by blast
    let ?e = "\<lparr>wee_waitee = w, wee_value_ptr = vp, wee_ret = rp\<rparr>"
    have f: "map_find (map_write wm tid ?e) = (jw s)(tid \<mapsto> ?e)" using wm by (simp add: map_find_write)
    have "join_wait s tid w p vp rp = Inr (s\<lparr>jn_pthreads := map_write (jn_pthreads s) w (pt\<lparr>pt_waiters := ws\<rparr>),
        jn_waitees := map_write wm tid ?e\<rparr>)"
      using nt pt w ins reg assms(2) by (simp add: join_wait_def tidmap_find_def tidmap_register_def)
    with eq wait_edges_register [OF assms(3) f] f assms(2) show "\<exists>s'. join_join s tid p vp rp = Some (Inr s') \<and>
        join_should_wait s' tid = Inr True \<and> wait_edges (jn_waitees s') = insert (tid, w) (wait_edges (jn_waitees s)) \<and>
        (\<forall>u. u \<noteq> tid \<longrightarrow> jw s' u = jw s u) \<and> jn_ints s' = jn_ints s"
      by (simp add: join_should_wait_def tidmap_find_def)
  }
qed

lemma sample_joining_state:
  obtains s where "join_run sample_event sample_joining sample_memory = Some s" and "join_inv s"
    and "jw s 1 = Some \<lparr>wee_waitee = 2, wee_value_ptr = 8, wee_ret = 16\<rparr>" and "jw s 2 = None"
    and "jt s 100 = Some 1" and "jt s 200 = Some 2" and "jp s 2 \<noteq> None"
    and "join_reach s" and "\<not> pt_detached (the (jp s 2))" and "tids (pt_waiters (the (jp s 2))) = {1}"
proof -
  have "case join_run sample_event sample_joining sample_memory of
      Some s \<Rightarrow> jw s 1 = Some \<lparr>wee_waitee = 2, wee_value_ptr = 8, wee_ret = 16\<rparr> \<and> jw s 2 = None \<and>
        jt s 100 = Some 1 \<and> jt s 200 = Some 2 \<and> jp s 2 \<noteq> None \<and> \<not> pt_detached (the (jp s 2)) \<and>
        tidset_list (pt_waiters (the (jp s 2))) = [1] | None \<Rightarrow> False"
    by code_simp
  then obtain s where s: "join_run sample_event sample_joining sample_memory = Some s"
    "jw s 1 = Some \<lparr>wee_waitee = 2, wee_value_ptr = 8, wee_ret = 16\<rparr>" "jw s 2 = None"
    "jt s 100 = Some 1" "jt s 200 = Some 2" "jp s 2 \<noteq> None" "\<not> pt_detached (the (jp s 2))"
    "tidset_list (pt_waiters (the (jp s 2))) = [1]"
    by (auto split: option.splits)
  have r: "join_reach s" by (rule join_run_reach [OF _ s(1)]) (simp add: sample_memory_def join_reach.init)
  show ?thesis by (rule that [OF s(1) join_reach_join_inv [OF r] s(2-6) r s(7)]) (use s(8) in \<open>simp add: tids_def\<close>)
qed

theorem join_outcome_witness:
  "\<exists>s. join_run sample_event sample_joining sample_memory = Some s \<and>
     join_join s 2 100 24 32 = Some (Inr (set_ret 32 EDEADLK s))"
proof -
  obtain s where s: "join_run sample_event sample_joining sample_memory = Some s" "join_inv s"
    "jw s 1 = Some \<lparr>wee_waitee = 2, wee_value_ptr = 8, wee_ret = 16\<rparr>" "jw s 2 = None" "jt s 100 = Some 1"
    by (rule sample_joining_state)
  have "(1, 2) \<in> (wait_edges (jn_waitees s))\<^sup>*" using s(3) by (auto simp: wait_edges_def)
  moreover have "(2::task_id) \<noteq> NO_TASK" by (simp add: NO_TASK_def)
  ultimately show ?thesis using join_outcome [OF s(2) _ s(4), of 100 24 32 1] s(1,5) by blast
qed

lemma join_fini_total:
  assumes inv: "join_inv s" and pt: "jp s t = Some pt" "\<not> pt_detached pt" and th: "jt s (pt_pthread pt) \<noteq> None" "pt_pthread pt \<noteq> NO_TASK"
  obtains s1 s' where "join_fini s t = Inr s'" and "released s (pt_value_ptr pt) (tids (pt_waiters pt)) s1"
    and "jn_waitees s' = jn_waitees s1" and "jn_ints s' = jn_ints s1" and "jn_ptrs s' = jn_ptrs s1"
    and "tids (pt_waiters pt) = {} \<Longrightarrow> jp s' t = Some (pt\<lparr>pt_terminated := True\<rparr>)"
proof (cases "tids (pt_waiters pt) = {}")
  case True
  have ok: "tidset_inv (pt_waiters pt)" "map_inv (jn_waitees s)" "t \<noteq> NO_TASK" using inv pt by (auto simp: join_inv_def pt_ok_def)
  let ?s = "s\<lparr>jn_pthreads := map_write (jn_pthreads s) t (pt\<lparr>pt_terminated := True\<rparr>)\<rparr>"
  have "join_fini s t = Inr ?s" using ok True pt by (simp add: join_fini_def tidmap_find_def tidset_size_card)
  moreover have "released s (pt_value_ptr pt) (tids (pt_waiters pt)) s" using True ok(2) by (simp add: released_def)
  ultimately show thesis by (rule that) (simp_all add: map_find_write pt(1))
next
  case False
  obtain s1 where s1: "released s (pt_value_ptr pt) (tids (pt_waiters pt)) s1"
    "join_fini s t = bindr (join_drop_task s1 t (pt_pthread pt)) (\<lambda>ts.
      Inr (s1\<lparr>jn_tasks := ts, jn_pthreads := map_deregister (jn_pthreads s1) t\<rparr>))"
    by (rule join_fini_released [OF inv pt False])
  have "jn_tasks s1 = jn_tasks s" using s1(1) by (simp add: released_def)
  then obtain ts where "join_drop_task s1 t (pt_pthread pt) = Inr ts"
    using th by (cases "jt s (pt_pthread pt) = Some t") (auto simp: join_drop_task_def tidmap_deregister_def)
  with s1(2) have "join_fini s t = Inr (s1\<lparr>jn_tasks := ts, jn_pthreads := map_deregister (jn_pthreads s1) t\<rparr>)" by simp
  from that [OF this s1(1)] False show thesis by simp
qed

lemma join_filter_total:
  assumes "tidset_inv (e_tset e)" and "NO_TASK \<notin> tids (e_tset e)" and "\<not> e_skip e" and "t \<noteq> NO_TASK" and "jw s t = None"
  shows "\<exists>e'. join_filter t e s = Inr (e', s) \<and> tids (e_tset e') = {u \<in> tids (e_tset e). join_should_wait s u = Inr False}"
proof -
  obtain ts where ts: "tidset_remove_all_keys (e_tset e) (jn_waitees s) = Inr ts" "tids ts = {u \<in> tids (e_tset e). jw s u = None}"
    using tidset_remove_all_keys_inv [OF assms(1,2)] by blast
  have "{u \<in> tids (e_tset e). jw s u = None} = {u \<in> tids (e_tset e). join_should_wait s u = Inr False}"
    using assms(2) by (auto simp: join_should_wait_def tidmap_find_def assertr_def split: if_splits)
  with ts assms(3-5) show ?thesis by (simp add: join_filter_def join_should_wait_def tidmap_find_def)
qed

text \<open>
  Claim C16. When a task that is not detached ends with the exit value \<open>v\<close>, as \<^verbatim>\<open>pthread_exit\<close> reports it, or without a payload, in which case the value is the null
  pointer, the handler returns. Every task that waits for it is released: its join returns 0 with the exit value, and it is a
  candidate for scheduling again, while the other waiting tasks stay out of the candidate set. If nobody waits yet, the exit value is
  kept with the ended task for a later join.
\<close>

theorem join_fini_releases:
  assumes inv: "join_inv s" and pt: "jp s t = Some pt" "\<not> pt_detached pt" "pt_value_ptr pt = 0"
    and th: "jt s (pt_pthread pt) \<noteq> None" "pt_pthread pt \<noteq> NO_TASK" and nw: "jw s t = None"
    and e: "tidset_inv (e_tset e)" "NO_TASK \<notin> tids (e_tset e)" "\<not> e_skip e"
    and v: "p = Some v \<or> p = None \<and> v = 0"
  shows "\<exists>e' s'. join_handle t (EvTaskFini p) e s = Some (Inr (e', s')) \<and>
    (\<forall>w we. jw s w = Some we \<and> w \<in> tids (pt_waiters pt) \<longrightarrow>
      jw s' w = None \<and> jn_ints s' (wee_ret we) = 0 \<and> (wee_value_ptr we \<noteq> 0 \<longrightarrow> jn_ptrs s' (wee_value_ptr we) = v)) \<and>
    (\<forall>w. w \<notin> tids (pt_waiters pt) \<longrightarrow> jw s' w = jw s w) \<and>
    (tids (pt_waiters pt) = {} \<longrightarrow> jp s' t = Some (pt\<lparr>pt_value_ptr := v, pt_terminated := True\<rparr>)) \<and>
    tids (e_tset e') = {u \<in> tids (e_tset e). join_should_wait s' u = Inr False}"
proof -
  let ?pt = "pt\<lparr>pt_value_ptr := v\<rparr>"
  have t: "t \<noteq> NO_TASK" using inv pt(1) by (auto simp: join_inv_def pt_ok_def)
  have "pt_ok (jn_waitees s) t pt" using inv pt(1) by (simp add: join_inv_def)
  then have nt: "t \<notin> tids (pt_waiters pt)" using nw by (auto simp: pt_ok_def wait_edges_def)
  obtain s0 where s0: "(case p of None \<Rightarrow> Inr s | Some ptr \<Rightarrow> join_texit s t ptr) = Inr s0" "join_inv s0" "jp s0 t = Some ?pt"
      "jn_waitees s0 = jn_waitees s" "jn_tasks s0 = jn_tasks s"
  proof (cases p)
    case None
    with v pt inv that [of s] show thesis by simp
  next
    case (Some x)
    let ?s = "s\<lparr>jn_pthreads := map_write (jn_pthreads s) t ?pt\<rparr>"
    have "join_texit s t v = Inr ?s" using pt t by (simp add: join_texit_def tidmap_find_def)
    with join_texit_inv [OF inv this] Some v pt(1) that [of ?s] show thesis by (simp add: map_find_write)
  qed
  obtain s1 s' where f: "join_fini s0 t = Inr s'" and r: "released s0 v (tids (pt_waiters pt)) s1"
      "jn_waitees s' = jn_waitees s1" "jn_ints s' = jn_ints s1" "jn_ptrs s' = jn_ptrs s1"
      and d: "tids (pt_waiters pt) = {} \<Longrightarrow> jp s' t = Some (?pt\<lparr>pt_terminated := True\<rparr>)"
    by (rule join_fini_total [OF s0(2,3)]) (use pt(2) th s0(5) in auto)
  have w: "jw s' = (\<lambda>w. if w \<in> tids (pt_waiters pt) then None else jw s w)" using r(1,2) unfolding released_def s0(4) by simp
  then have "jw s' t = None" using nw by simp
  from join_filter_total [OF e t this] obtain e' where e': "join_filter t e s' = Inr (e', s')"
      "tids (e_tset e') = {u \<in> tids (e_tset e). join_should_wait s' u = Inr False}" by blast
  have "join_handle t (EvTaskFini p) e s = Some (Inr (e', s'))"
    using t f e'(1) s0(1) by (simp add: join_handle_def join_handle_event_def)
  moreover have "jn_ints s' (wee_ret we) = 0 \<and> (wee_value_ptr we \<noteq> 0 \<longrightarrow> jn_ptrs s' (wee_value_ptr we) = v)"
    if "jw s x = Some we" "x \<in> tids (pt_waiters pt)" for x we
    using r(1) that s0(4) unfolding released_def r(3,4) by metis
  ultimately show ?thesis using w d e'(2) by auto
qed

theorem join_fini_releases_witness:
  "\<exists>s e' s'. join_run sample_event sample_joining sample_memory = Some s \<and> join_should_wait s 1 = Inr True \<and>
     join_handle 2 (EvTaskFini (Some 77)) sample_event s = Some (Inr (e', s')) \<and> jw s' 1 = None \<and> jn_ints s' 16 = 0 \<and> jn_ptrs s' 8 = 77"
proof -
  obtain s where s: "join_run sample_event sample_joining sample_memory = Some s" "join_inv s"
    "jw s 1 = Some \<lparr>wee_waitee = 2, wee_value_ptr = 8, wee_ret = 16\<rparr>" "jw s 2 = None" "jt s 200 = Some 2" "jp s 2 \<noteq> None"
    "\<not> pt_detached (the (jp s 2))" "tids (pt_waiters (the (jp s 2))) = {1}"
    by (rule sample_joining_state)
  have "case join_run sample_event sample_joining sample_memory of
      Some s \<Rightarrow> pt_pthread (the (jp s 2)) = 200 \<and> pt_value_ptr (the (jp s 2)) = 0 | None \<Rightarrow> False"
    by code_simp
  with s(1) have th: "pt_pthread (the (jp s 2)) = 200" "pt_value_ptr (the (jp s 2)) = 0" by simp_all
  from s(6) obtain pt where pt: "jp s 2 = Some pt" by blast
  have n: "NO_TASK \<notin> tids (e_tset sample_event)" by (simp add: sample_event_simps NO_TASK_def)
  have "jt s (pt_pthread pt) \<noteq> None" "pt_pthread pt \<noteq> NO_TASK" using th pt s(5) by (simp_all add: NO_TASK_def)
  from join_fini_releases [OF s(2) pt _ _ this s(4) sample_event_simps(1) n sample_event_simps(2), of "Some 77" 77] s(3,7,8) pt th
  obtain e' s' where h: "join_handle 2 (EvTaskFini (Some 77)) sample_event s = Some (Inr (e', s'))" "jw s' 1 = None" "jn_ints s' 16 = 0" "jn_ptrs s' 8 = 77"
    by auto
  have "join_should_wait s 1 = Inr True" using s(3) by (simp add: join_should_wait_def tidmap_find_def NO_TASK_def)
  with s(1) h show ?thesis by blast
qed

text \<open>
  A second join of a thread that had ended before the first join stops the program instead of
  returning \<^verbatim>\<open>ESRCH\<close>: the first join removes the task but keeps the item that maps the pthread id to it,
  because it compares the task of the item with the joining task and not with the joined one.
\<close>

theorem join_twice_stops:
  assumes "join_inv s" and "jt s p = Some w" and "jp s w = Some pt" and "pt_terminated pt"
    and "jw s w = None" and "tid \<noteq> w" and "tid \<noteq> NO_TASK" and "jw s tid = None"
    and "join_join s tid p vp rp = Some (Inr s')" and "u \<noteq> w"
  shows "jn_ints s' rp = 0 \<and> join_join s' u p vp2 rp2 = Some (Inl AssertFailed)"
proof -
  have nr: "(w, x) \<notin> (wait_edges (jn_waitees s))\<^sup>*" if "x \<noteq> w" for x
    using assms(5) that by (auto simp: wait_edges_def elim: converse_rtranclE)
  have w: "w \<noteq> NO_TASK" using assms(1,2) by (auto simp: join_inv_def)
  have "s' = (set_ret rp 0 (set_value vp (pt_value_ptr pt) s))\<lparr>jn_pthreads := map_deregister (jn_pthreads s) w\<rparr>"
    using assms nr [OF assms(6)] w
    by (simp add: join_join_outcome [OF assms(1)] join_wait_def tidmap_find_def tidmap_deregister_def)
  moreover have "map_inv (jn_pthreads s)" using assms(1) by (simp add: join_inv_def)
  ultimately have s': "jt s' = jt s" "jn_waitees s' = jn_waitees s" "jp s' w = None" "jn_ints s' rp = 0"
    by (simp_all add: map_find_deregister)
  have c: "join_cycle (jn_waitees s) u w = Some (Inr False)"
    using join_cycle_inv [OF assms(1,2), of u] nr [OF assms(10)] by simp
  have "join_join s' u p vp2 rp2 = Some (join_wait s' u w p vp2 rp2)"
    by (simp add: join_join_def s' assms(2) c)
  moreover have "join_wait s' u w p vp2 rp2 = Inl AssertFailed"
    using s' w by (simp add: join_wait_def tidmap_find_def)
  ultimately show ?thesis using s' by simp
qed

definition sample_ended :: "(task_id \<times> join_event) list" where
  "sample_ended = [(1, EvTaskInit (Some (100, False))), (2, EvTaskInit (Some (200, False))),
     (2, EvTaskFini None)]"

theorem join_twice_stops_witness:
  "\<exists>s s'. join_run sample_event sample_ended sample_memory = Some s \<and>
     join_join s 1 200 8 16 = Some (Inr s') \<and> jn_ints s' 16 = 0 \<and>
     join_join s' 1 200 8 16 = Some (Inl AssertFailed)"
proof -
  have "case join_run sample_event sample_ended sample_memory of
      Some s \<Rightarrow> jt s 200 = Some 2 \<and> jp s 2 \<noteq> None \<and> pt_terminated (the (jp s 2)) \<and> jw s 2 = None \<and> jw s 1 = None \<and>
        (case join_join s 1 200 8 16 of Some (Inr s') \<Rightarrow> True | _ \<Rightarrow> False) | None \<Rightarrow> False"
    by code_simp
  then obtain s s' pt where s: "join_run sample_event sample_ended sample_memory = Some s" "jt s 200 = Some 2"
    "jp s 2 = Some pt" "pt_terminated pt" "jw s 2 = None" "jw s 1 = None" "join_join s 1 200 8 16 = Some (Inr s')"
    by (auto split: option.splits sum.splits)
  have r: "join_reach s" by (rule join_run_reach [OF _ s(1)]) (simp add: sample_memory_def join_reach.init)
  have "(1::task_id) \<noteq> 2" "(1::task_id) \<noteq> NO_TASK" by (simp_all add: NO_TASK_def)
  from join_twice_stops [OF join_reach_join_inv [OF r] s(2-5) this s(6,7) this(1)] s(1,7) show ?thesis by blast
qed

end
