(* ===== verification/Sorting.thy ===== *)
theory Sorting
  imports Prelude
begin

text \<open>
  The contract of the C library's \<^verbatim>\<open>qsort\<close> as the locale \<open>c_sort\<close>: for a comparison function that is
  consistent, the result is the array in ascending order. The contract is interpreted on insertion sort.
  The sets of task identifiers and the vectors rely on it.
\<close>

definition comparator :: "('a \<Rightarrow> 'a \<Rightarrow> int) \<Rightarrow> bool" where
  "comparator cmp \<longleftrightarrow> (\<forall>a b. cmp a b \<le> 0 \<or> cmp b a \<le> 0) \<and> (\<forall>a b c. cmp a b \<le> 0 \<longrightarrow> cmp b c \<le> 0 \<longrightarrow> cmp a c \<le> 0)"

text \<open>The standard asks for consistency on the objects of the array only.\<close>

definition comparator_on :: "'a set \<Rightarrow> ('a \<Rightarrow> 'a \<Rightarrow> int) \<Rightarrow> bool" where
  "comparator_on A cmp \<longleftrightarrow>
     (\<forall>a\<in>A. \<forall>b\<in>A. cmp a b \<le> 0 \<or> cmp b a \<le> 0) \<and>
     (\<forall>a\<in>A. \<forall>b\<in>A. \<forall>c\<in>A. cmp a b \<le> 0 \<longrightarrow> cmp b c \<le> 0 \<longrightarrow> cmp a c \<le> 0)"

lemma comparator_on: "comparator cmp \<Longrightarrow> comparator_on A cmp"
  unfolding comparator_def comparator_on_def by blast

lemma comparator_on_mono: "comparator_on A cmp \<Longrightarrow> B \<subseteq> A \<Longrightarrow> comparator_on B cmp"
  unfolding comparator_on_def by blast

type_synonym 'a sorter = "('a \<Rightarrow> 'a \<Rightarrow> int) \<Rightarrow> 'a list \<Rightarrow> 'a list"

locale c_sort =
  fixes qs :: "'a sorter"
  assumes permutes_on: "comparator_on (set xs) cmp \<Longrightarrow> mset (qs cmp xs) = mset xs"
    and ascending_on: "comparator_on (set xs) cmp \<Longrightarrow> sorted_wrt (\<lambda>a b. cmp a b \<le> 0) (qs cmp xs)"
begin

lemmas permutes = permutes_on [OF comparator_on] and ascending = ascending_on [OF comparator_on]

lemma sort_set: "comparator_on (set xs) cmp \<Longrightarrow> set (qs cmp xs) = set xs"
  by (rule mset_eq_setD) (rule permutes_on)

lemma sort_length: "comparator_on (set xs) cmp \<Longrightarrow> length (qs cmp xs) = length xs"
  using permutes_on [of xs cmp] by (metis size_mset)

lemma sort_Nil: "qs cmp [] = []"
  using sort_length [of "[]" cmp] by (simp add: comparator_on_def)

end

primrec insert_by :: "('a \<Rightarrow> 'a \<Rightarrow> int) \<Rightarrow> 'a \<Rightarrow> 'a list \<Rightarrow> 'a list" where
  "insert_by cmp x [] = [x]"
| "insert_by cmp x (y # ys) = (if cmp x y \<le> 0 then x # y # ys else y # insert_by cmp x ys)"

definition insertion_qsort :: "'a sorter" where
  "insertion_qsort cmp xs = foldr (insert_by cmp) xs []"

lemma mset_insert_by [simp]: "mset (insert_by cmp x ys) = add_mset x (mset ys)"
  by (induction ys) auto

lemma set_insert_by [simp]: "set (insert_by cmp x ys) = insert x (set ys)"
  by (induction ys) auto

lemma sorted_insert_by:
  assumes "comparator_on (insert x (set ys)) cmp" and "sorted_wrt (\<lambda>a b. cmp a b \<le> 0) ys"
  shows "sorted_wrt (\<lambda>a b. cmp a b \<le> 0) (insert_by cmp x ys)"
  using assms
proof (induction ys)
  case (Cons y ys)
  have tr: "cmp x z \<le> 0" if "cmp x y \<le> 0" "cmp y z \<le> 0" "z \<in> set ys" for z
    using Cons.prems(1) that unfolding comparator_on_def by (meson insertCI list.set_intros)
  have tot: "cmp x y \<le> 0 \<or> cmp y x \<le> 0" using Cons.prems(1) unfolding comparator_on_def by simp
  have "sorted_wrt (\<lambda>a b. cmp a b \<le> 0) (insert_by cmp x ys)"
    using Cons.prems by (intro Cons.IH) (auto elim: comparator_on_mono)
  with Cons.prems(2) tr tot show ?case by auto
qed simp

lemma set_insertion_qsort [simp]: "set (insertion_qsort cmp xs) = set xs"
  by (induction xs) (simp_all add: insertion_qsort_def)

interpretation isort: c_sort insertion_qsort
proof unfold_locales
  fix cmp :: "'a \<Rightarrow> 'a \<Rightarrow> int" and xs
  show "mset (insertion_qsort cmp xs) = mset xs" by (induction xs) (simp_all add: insertion_qsort_def)
  show "sorted_wrt (\<lambda>a b. cmp a b \<le> 0) (insertion_qsort cmp xs)" if "comparator_on (set xs) cmp"
    using that
  proof (induction xs)
    case (Cons x xs)
    have "comparator_on (set xs) cmp" by (rule comparator_on_mono [OF Cons.prems]) auto
    with Cons have "sorted_wrt (\<lambda>a b. cmp a b \<le> 0) (insert_by cmp x (insertion_qsort cmp xs))"
      by (intro sorted_insert_by) simp_all
    then show ?case by (simp add: insertion_qsort_def)
  qed (simp add: insertion_qsort_def)
qed

end
