(* ===== verification/Handler_Base.thy ===== *)
theory Handler_Base
  imports Sequencer Sorting
begin

text \<open>
  The capture chain of the sequencer. A module subscribes a handler with \<^verbatim>\<open>ON_SEQUENCER_CAPTURE\<close>
  (\<^verbatim>\<open>include/lotto/engine/sequencer.h\<close>); the handlers run one after the other until one sets \<^verbatim>\<open>skip\<close>.

  The locale \<open>candidate_handler\<close> is the contract of a handler that adds to the candidates of the scheduler only tasks which its own
  variables release, and leaves the clock and the replay flag of the decision alone; the timeout module meets it. The locale \<open>capture_handler\<close> is the contract of a
  handler that only takes candidates away, as all other handlers of the development do. A chain of handlers adds what its members release.

  The theory also has the filter of \<^verbatim>\<open>tidset.c\<close> for a predicate with side effects, which two handlers use.
\<close>

section \<open>Chains of handlers\<close>

type_synonym 's handler = "capture_point \<Rightarrow> decision \<Rightarrow> 's \<Rightarrow> (decision \<times> 's) result"

fun run_handlers :: "'s handler list \<Rightarrow> 's handler" where
  "run_handlers [] cp e s = Inr (e, s)"
| "run_handlers (h # hs) cp e s =
     bindr (h cp e s) (\<lambda>(e, s). if e_skip e then Inr (e, s) else run_handlers hs cp e s)"

text \<open>The variables of one module are a part of the store all modules share.\<close>

definition lift_handler :: "('t \<Rightarrow> 's) \<Rightarrow> ('s \<Rightarrow> 't \<Rightarrow> 't) \<Rightarrow> 's handler \<Rightarrow> 't handler" where
  "lift_handler get put h cp e t = bindr (h cp e (get t)) (\<lambda>(e, s). Inr (e, put s t))"

text \<open>A handler may add the tasks in \<open>T\<close> to the candidates; clock and replay flag are those of the sequencer.\<close>

definition bounded_by :: "('s \<Rightarrow> task_id set) \<Rightarrow> 's handler \<Rightarrow> bool" where
  "bounded_by T h \<longleftrightarrow> (\<forall>cp e s e' s'. h cp e s = Inr (e', s') \<longrightarrow> tidset_inv (e_tset e) \<longrightarrow>
     tidset_inv (e_tset e') \<and> tids (e_tset e') \<subseteq> tids (e_tset e) \<union> T s \<and> e_clk e' = e_clk e \<and> e_replay e' = e_replay e)"

lemma bounded_byD:
  assumes "bounded_by T h" and "h cp e s = Inr (e', s')" and "tidset_inv (e_tset e)"
  shows "tidset_inv (e_tset e')" and "tids (e_tset e') \<subseteq> tids (e_tset e) \<union> T s" and "e_clk e' = e_clk e" and "e_replay e' = e_replay e"
  using assms unfolding bounded_by_def by blast+

locale candidate_handler =
  fixes handle :: "'s handler" and released :: "'s \<Rightarrow> task_id set"
  assumes adds: "handle cp e s = Inr (e', s') \<Longrightarrow> tidset_inv (e_tset e) \<Longrightarrow>
      tidset_inv (e_tset e') \<and> tids (e_tset e') \<subseteq> tids (e_tset e) \<union> released s"
    and keeps: "handle cp e s = Inr (e', s') \<Longrightarrow> e_clk e' = e_clk e \<and> e_replay e' = e_replay e"
begin

lemma lifted_bounded: "bounded_by (\<lambda>t. released (get t)) (lift_handler get put handle)"
  unfolding bounded_by_def
proof (intro allI impI)
  fix cp e t e' t'
  assume "lift_handler get put handle cp e t = Inr (e', t')" and inv: "tidset_inv (e_tset e)"
  then obtain s' where "handle cp e (get t) = Inr (e', s')" by (auto simp: lift_handler_def bindr_eq_Inr)
  from adds [OF this inv] keeps [OF this]
  show "tidset_inv (e_tset e') \<and> tids (e_tset e') \<subseteq> tids (e_tset e) \<union> released (get t) \<and> e_clk e' = e_clk e \<and> e_replay e' = e_replay e" by simp
qed

end

locale capture_handler =
  fixes handle :: "'s handler"
  assumes candidates: "handle cp e s = Inr (e', s') \<Longrightarrow> tidset_inv (e_tset e) \<Longrightarrow>
      tidset_inv (e_tset e') \<and> tids (e_tset e') \<subseteq> tids (e_tset e)"
    and frame: "handle cp e s = Inr (e', s') \<Longrightarrow> e_clk e' = e_clk e \<and> e_replay e' = e_replay e"

sublocale capture_handler \<subseteq> shrinks: candidate_handler handle "\<lambda>_. {}"
  by unfold_locales (auto dest: candidates frame)

context capture_handler
begin

lemma lifted: "bounded_by (\<lambda>_. {}) (lift_handler get put handle)"
  using shrinks.lifted_bounded [of get put] by simp

end

text \<open>The states in which the handlers of a chain start, and the tasks they may release there.\<close>

fun chain_states :: "'s handler list \<Rightarrow> capture_point \<Rightarrow> decision \<Rightarrow> 's \<Rightarrow> 's list" where
  "chain_states [] cp e s = []"
| "chain_states (h # hs) cp e s =
     s # (case h cp e s of Inl _ \<Rightarrow> [] | Inr (e, s) \<Rightarrow> if e_skip e then [] else chain_states hs cp e s)"

definition chain_released :: "('s handler \<times> ('s \<Rightarrow> task_id set)) list \<Rightarrow> capture_point \<Rightarrow> decision \<Rightarrow> 's \<Rightarrow> task_id set" where
  "chain_released hts cp e s = \<Union> (set (map (\<lambda>((h, T), s1). T s1) (zip hts (chain_states (map fst hts) cp e s))))"

lemma run_handlers_bounded:
  assumes "list_all (\<lambda>(h, T). bounded_by T h) hts" and "run_handlers (map fst hts) cp e s = Inr (e', s')" and "tidset_inv (e_tset e)"
  shows "tidset_inv (e_tset e') \<and> tids (e_tset e') \<subseteq> tids (e_tset e) \<union> chain_released hts cp e s \<and>
    e_clk e' = e_clk e \<and> e_replay e' = e_replay e"
  using assms
proof (induction hts arbitrary: e s)
  case (Cons ht hts)
  obtain h T where ht: "ht = (h, T)" by (cases ht)
  obtain e1 s1 where 1: "h cp e s = Inr (e1, s1)" and 2: "(if e_skip e1 then Inr (e1, s1) else run_handlers (map fst hts) cp e1 s1) = Inr (e', s')"
    using Cons.prems(2) by (auto simp: ht bindr_eq_Inr)
  have "bounded_by T h" using Cons.prems(1) ht by simp
  note c = bounded_byD [OF this 1 Cons.prems(3)]
  show ?case
  proof (cases "e_skip e1")
    case True
    with 2 c show ?thesis by (auto simp: chain_released_def ht)
  next
    case False
    with 2 Cons.IH [OF _ _ c(1)] Cons.prems(1) have "tidset_inv (e_tset e') \<and> tids (e_tset e') \<subseteq> tids (e_tset e1) \<union> chain_released hts cp e1 s1 \<and>
        e_clk e' = e_clk e1 \<and> e_replay e' = e_replay e1" by (simp add: ht)
    moreover have "chain_released (ht # hts) cp e s = T s \<union> chain_released hts cp e1 s1" using 1 False by (simp add: chain_released_def ht)
    ultimately show ?thesis using c by auto
  qed
qed simp

text \<open>A handler applied to a sequence of captured events, each with its own decision.\<close>

fun handle_events :: "'s handler \<Rightarrow> (capture_point \<times> decision) list \<Rightarrow> 's \<Rightarrow> (decision list \<times> 's) result" where
  "handle_events h [] s = Inr ([], s)"
| "handle_events h ((cp, e) # evs) s =
     bindr (h cp e s) (\<lambda>(e', s). bindr (handle_events h evs s) (\<lambda>(es, s). Inr (e' # es, s)))"

section \<open>Filtering with side effects\<close>

text \<open>\<^verbatim>\<open>tidset_filter\<close> for a predicate that reads and writes the variables of a module.\<close>

function tidset_filter_loop_st :: "(task_id \<Rightarrow> 's \<Rightarrow> (bool \<times> 's) result) \<Rightarrow> tidset \<Rightarrow> nat \<Rightarrow> 's \<Rightarrow> (tidset \<times> 's) result" where
  "tidset_filter_loop_st P s i st =
     (if i < ts_size s then
        bindr (rd (ts_tasks s) i) (\<lambda>t.
        bindr (P t st) (\<lambda>(keep, st).
          if keep then tidset_filter_loop_st P s (Suc i) st
          else bindr (tidset_drop s i) (\<lambda>s'. tidset_filter_loop_st P s' i st)))
      else Inr (s, st))"
  by pat_completeness auto
termination
  by (relation "measure (\<lambda>(P, s, i, st). ts_size s - i)") (auto simp: tidset_drop_def result_elims)

declare tidset_filter_loop_st.simps [simp del]

definition tidset_filter_st :: "(task_id \<Rightarrow> 's \<Rightarrow> (bool \<times> 's) result) \<Rightarrow> tidset \<Rightarrow> 's \<Rightarrow> (tidset \<times> 's) result" where
  "tidset_filter_st P s st = tidset_filter_loop_st P s 0 st"

section \<open>Lemmas: sets that shrink\<close>

lemma tidset_drop_inv:
  assumes "tidset_inv s" and "i < ts_size s"
  shows "\<exists>s'. tidset_drop s i = Inr s' \<and> tidset_inv s' \<and> tids s' \<subseteq> tids s"
proof -
  obtain s' where s': "tidset_drop s i = Inr s'" "tidset_wf s'" "tidset_list s' = swap_out (tidset_list s) i"
    using tidset_drop_wf [of s i] assms by blast
  have len: "i < length (tidset_list s)" using assms by (simp add: tidset_inv_wf)
  then have m: "mset (tidset_list s') = mset (tidset_list s) - {#tidset_list s ! i#}"
    by (simp add: s'(3) mset_swap_out)
  have d: "distinct (tidset_list s)" using assms(1) by (simp add: tidset_inv_def)
  then have "mset (tidset_list s') = filter_mset (\<lambda>t. t \<noteq> tidset_list s ! i) (mset (tidset_list s))"
    unfolding m by (auto intro!: multiset_eqI simp: distinct_count_atmost_1)
  from distinct_mset_filter [OF d this] s'(1,2) show ?thesis by (auto simp: tidset_inv_def tids_def)
qed

lemma tidset_filter_loop_st_inv:
  "tidset_filter_loop_st P s i st = Inr (s', st') \<Longrightarrow> tidset_inv s \<Longrightarrow> tidset_inv s' \<and> tids s' \<subseteq> tids s"
proof (induction P s i st rule: tidset_filter_loop_st.induct)
  case (1 P s i st)
  show ?case
  proof (cases "i < ts_size s")
    case False
    with 1 show ?thesis by (simp add: tidset_filter_loop_st.simps [of P s i st])
  next
    case True
    have r: "rd (ts_tasks s) i = Inr (tidset_list s ! i)" using "1.prems"(2) True by (simp add: rd_tidset tidset_inv_wf)
    obtain s1 where s1: "tidset_drop s i = Inr s1" "tidset_inv s1" "tids s1 \<subseteq> tids s"
      using tidset_drop_inv [OF "1.prems"(2) True] by blast
    obtain k st1 where k: "P (tidset_list s ! i) st = Inr (k, st1)"
      using "1.prems"(1) True r by (auto simp: tidset_filter_loop_st.simps [of P s i st] bindr_eq_Inr)
    show ?thesis
    proof (cases k)
      case True
      with \<open>i < ts_size s\<close> "1.prems" r k "1.IH"(1) [OF \<open>i < ts_size s\<close> r k] show ?thesis
        by (simp add: tidset_filter_loop_st.simps [of P s i st])
    next
      case False
      with \<open>i < ts_size s\<close> "1.prems" r k s1 "1.IH"(2) [OF \<open>i < ts_size s\<close> r k refl _ s1(1)] show ?thesis
        by (simp add: tidset_filter_loop_st.simps [of P s i st]) blast
    qed
  qed
qed

lemma tidset_filter_st_inv:
  "tidset_filter_st P s st = Inr (s', st') \<Longrightarrow> tidset_inv s \<Longrightarrow> tidset_inv s' \<and> tids s' \<subseteq> tids s"
  unfolding tidset_filter_st_def by (rule tidset_filter_loop_st_inv)

text \<open>The loops without side effects are an instance.\<close>

lemma tidset_keep_loop_st:
  "tidset_keep_loop P s i =
     bindr (tidset_filter_loop_st (\<lambda>t u. bindr (P t) (\<lambda>k. Inr (k, u))) s i ()) (\<lambda>(s', _). Inr s')"
proof (induction P s i rule: tidset_keep_loop.induct)
  case (1 P s i)
  show ?case
  proof (cases "i < ts_size s")
    case True
    show ?thesis
    proof (cases "rd (ts_tasks s) i")
      case r: (Inr t)
      show ?thesis
      proof (cases "P t")
        case k: (Inr k)
        note IH = "1.IH" [OF True r k]
        show ?thesis
        proof (cases k)
          case True
          with \<open>i < ts_size s\<close> r k IH(1) show ?thesis
            by (simp add: tidset_keep_loop.simps [of P s i] tidset_filter_loop_st.simps [of _ s i])
        next
          case False
          with \<open>i < ts_size s\<close> r k IH(2) show ?thesis
            by (cases "tidset_drop s i")
              (simp_all add: tidset_keep_loop.simps [of P s i] tidset_filter_loop_st.simps [of _ s i])
        qed
      qed (use True r in \<open>simp add: tidset_keep_loop.simps [of P s i] tidset_filter_loop_st.simps [of _ s i]\<close>)
    qed (use True in \<open>simp add: tidset_keep_loop.simps [of P s i] tidset_filter_loop_st.simps [of _ s i]\<close>)
  qed (simp add: tidset_keep_loop.simps [of P s i] tidset_filter_loop_st.simps [of _ s i])
qed

lemma tidset_keep_shrinks: "tidset_keep_loop P s 0 = Inr s' \<Longrightarrow> tidset_inv s \<Longrightarrow> tidset_inv s' \<and> tids s' \<subseteq> tids s"
  by (auto simp: tidset_keep_loop_st bindr_eq_Inr dest!: tidset_filter_loop_st_inv)

lemma tidset_subtract_shrinks:
  "tidset_subtract s r = Inr s' \<Longrightarrow> tidset_inv s \<Longrightarrow> tidset_inv s' \<and> tids s' \<subseteq> tids s"
  unfolding tidset_subtract_def by (rule tidset_keep_shrinks)

text \<open>A predicate that leaves the state alone on the elements of the set is a plain predicate.\<close>

lemma tidset_filter_loop_st_plain:
  "\<forall>t\<in>tids s. P t st = Inr (Q t, st) \<Longrightarrow> tidset_inv s \<Longrightarrow>
     tidset_filter_loop_st P s i st = bindr (tidset_keep_loop (\<lambda>t. Inr (Q t)) s i) (\<lambda>s'. Inr (s', st))"
proof (induction "\<lambda>t. Inr (Q t) :: bool result" s i rule: tidset_keep_loop.induct)
  case (1 s i)
  show ?case
  proof (cases "i < ts_size s")
    case True
    let ?t = "tidset_list s ! i"
    have r: "rd (ts_tasks s) i = Inr ?t" using True "1.prems"(2) by (simp add: rd_tidset tidset_inv_wf)
    have "?t \<in> tids s" using True "1.prems"(2) by (simp add: tids_def tidset_inv_wf)
    then have p: "P ?t st = Inr (Q ?t, st)" using "1.prems"(1) by blast
    obtain s1 where s1: "tidset_drop s i = Inr s1" "tidset_inv s1" "tids s1 \<subseteq> tids s"
      using tidset_drop_inv [OF "1.prems"(2) True] by blast
    show ?thesis
    proof (cases "Q ?t")
      case q: True
      with "1.hyps"(1) [OF True r refl q] True r p "1.prems" show ?thesis
        by (simp add: tidset_filter_loop_st.simps [of P s i st] tidset_keep_loop.simps [of _ s i])
    next
      case q: False
      have "\<forall>t\<in>tids s1. P t st = Inr (Q t, st)" using "1.prems"(1) s1(3) by blast
      with "1.hyps"(2) [OF True r refl q s1(1)] True r p q s1 show ?thesis
        by (simp add: tidset_filter_loop_st.simps [of P s i st] tidset_keep_loop.simps [of _ s i])
    qed
  qed (simp add: tidset_filter_loop_st.simps [of P s i st] tidset_keep_loop.simps [of _ s i])
qed

lemma tidset_filter_st_plain:
  assumes "\<forall>t\<in>tids s. P t st = Inr (Q t, st)" and "tidset_inv s"
  shows "\<exists>s'. tidset_filter_st P s st = Inr (s', st) \<and> tidset_inv s' \<and> tids s' = {t \<in> tids s. Q t}"
  using tidset_keep_inv [OF assms(2), of "\<lambda>t. Inr (Q t)" Q] tidset_filter_loop_st_plain [of s P st Q 0] assms
  by (auto simp: tidset_filter_st_def)

lemma make_first_keeps:
  "tidset_make_first s t = Inr s' \<Longrightarrow> tidset_inv s \<Longrightarrow> tidset_inv s' \<and> tids s' \<subseteq> tids s"
  using tidset_make_first_inv [of s t] by (auto split: if_splits)

section \<open>Sorting\<close>

text \<open>The contract of \<^verbatim>\<open>qsort\<close> for arrays of task identifiers.\<close>

type_synonym qsort = "task_id sorter"

locale c_qsort = c_sort qs for qs :: qsort
begin

lemma tidset_sort_inv:
  assumes "comparator cmp" and "tidset_inv s"
  shows "\<exists>s'. tidset_sort qs s cmp = Inr s' \<and> tidset_inv s' \<and> tids s' = tids s \<and>
    sorted_wrt (\<lambda>a b. cmp a b \<le> 0) (tidset_list s')"
proof (cases "ts_tasks s")
  case None
  with assms(2) show ?thesis by (auto simp: tidset_sort_def tidset_inv_def tidset_wf_def tidset_list_def)
next
  case (Some b)
  let ?l = "take (ts_size s) b" and ?q = "qs cmp (take (ts_size s) b)"
  have b: "length b = ts_capacity s" "ts_size s \<le> length b" "distinct ?l"
    using assms(2) Some by (auto simp: tidset_inv_def tidset_wf_def tidset_list_def)
  have m: "mset ?q = mset ?l" by (rule permutes [OF assms(1)])
  then have len: "length ?q = ts_size s" using b(2) by (metis length_take min.absorb2 size_mset)
  let ?s = "s\<lparr>ts_tasks := Some (?q @ drop (ts_size s) b)\<rparr>"
  have l: "tidset_list ?s = ?q" using len by (simp add: tidset_list_def)
  have "distinct ?q" using b(3) mset_eq_imp_distinct_iff [OF m] by simp
  then have "tidset_inv ?s" using b len by (simp add: tidset_inv_def tidset_wf_def l)
  moreover have "tids ?s = tids s"
    using mset_eq_setD [OF m] Some l by (simp add: tids_def tidset_list_def)
  moreover have "tidset_sort qs s cmp = Inr ?s" using Some b(2) by (simp add: tidset_sort_def)
  ultimately show ?thesis using ascending [OF assms(1)] l by auto
qed

text \<open>The first element of the sorted array is a least one.\<close>

lemma tidset_sort_first:
  assumes "comparator cmp" and "tidset_inv s" and "tids s \<noteq> {}"
  shows "\<exists>s' t. tidset_sort qs s cmp = Inr s' \<and> tidset_inv s' \<and> tids s' = tids s \<and>
    tidset_get s' 0 = Inr t \<and> t \<in> tids s \<and> (\<forall>u\<in>tids s. cmp t u \<le> 0)"
proof -
  obtain s' where s': "tidset_sort qs s cmp = Inr s'" "tidset_inv s'" "tids s' = tids s"
      "sorted_wrt (\<lambda>a b. cmp a b \<le> 0) (tidset_list s')"
    using tidset_sort_inv [OF assms(1,2)] by blast
  then obtain t ts where l: "tidset_list s' = t # ts" using assms(3) by (cases "tidset_list s'") (auto simp: tids_def)
  have "0 < ts_size s'" using s'(2) l by (metis length_greater_0_conv length_tidset_list list.discI tidset_inv_wf)
  then have "tidset_get s' 0 = Inr t" using s'(2) l by (simp add: tidset_get_wf tidset_inv_wf)
  moreover have "cmp t t \<le> 0" using assms(1) unfolding comparator_def by blast
  moreover have "tids s = insert t (set ts)" using s'(3) l by (simp add: tids_def)
  ultimately show ?thesis using s' l by auto
qed

end

interpretation iqsort: c_qsort insertion_qsort
  by unfold_locales

end
