(* ===== verification/Candidates.thy ===== *)
theory Candidates
  imports Handler_Base
begin

text \<open>
  Handlers of modules that choose among the candidates: yield, watchdog, priority, task velocity and
  bias (\<^verbatim>\<open>modules/*/src/handler.c\<close>). Each is an interpretation of the handler contract, and the lemmas say
  which candidates it leaves.

  The numbers of the memory access events belong to the interception library; \<open>ma\<close> decodes an event type.
  The payload of an event is read with the argument \<open>pl\<close>. \<open>rr\<close> is \<^verbatim>\<open>rand_r\<close> and the seed of the engine's
  generator is the second component of the state of a handler that draws numbers.
\<close>

section \<open>yield\<close>

definition EVENT_YIELD_SCHED :: type_id where "EVENT_YIELD_SCHED = 169"
definition EVENT_YIELD_USER :: type_id where "EVENT_YIELD_USER = 194"
definition EVENT_YIELD_SYS :: type_id where "EVENT_YIELD_SYS = 195"

lemmas yield_event_defs = EVENT_YIELD_SCHED_def EVENT_YIELD_USER_def EVENT_YIELD_SYS_def

record yield_config =
  yc_enabled :: bool
  yc_advisory :: bool

definition yield_handle :: "yield_config \<Rightarrow> unit handler" where
  "yield_handle cfg cp e s =
     (if e_skip e \<or> \<not> yc_enabled cfg then Inr (e, s)
      else assertr (cp_id cp \<noteq> NO_TASK)
        (if cp_type_id cp = EVENT_YIELD_SCHED \<or> cp_type_id cp = EVENT_YIELD_USER then
           if \<not> e_readonly e \<and> \<not> e_is_chpt e then
             bindr (if \<not> yc_advisory cfg
                    then bindr (tidset_remove (e_tset e) (cp_id cp)) (\<lambda>(_, ts). Inr (e\<lparr>e_tset := ts\<rparr>))
                    else Inr e)
               (\<lambda>e. Inr (if \<not> e_is_chpt e then e\<lparr>e_reason := REASON_USER_YIELD, e_is_chpt := True\<rparr> else e, s))
           else Inr (e, s)
         else if cp_type_id cp = EVENT_YIELD_SYS then
           if \<not> e_readonly e \<and> \<not> e_is_chpt e
           then Inr (e\<lparr>e_reason := REASON_SYS_YIELD, e_is_chpt := True\<rparr>, s) else Inr (e, s)
         else Inr (e, s)))"

section \<open>watchdog\<close>

datatype ma_kind =
  MA_READ | MA_WRITE | MA_AREAD | MA_AWRITE | MA_XCHG | MA_CMPXCHG | MA_CMPXCHG_WEAK | MA_RMW | MA_FENCE

record watchdog_config =
  wc_enabled :: bool
  wc_budget :: "64 word"

record watchdog =
  wd_id :: task_id
  wd_ticks :: "64 word"

definition watchdog_reset :: "rand_r \<Rightarrow> watchdog_config \<Rightarrow> task_id \<Rightarrow> 32 word \<Rightarrow> (watchdog \<times> 32 word) result" where
  "watchdog_reset rr cfg t seed =
     bindr (prng_range rr seed (wc_budget cfg div 2) (wc_budget cfg)) (\<lambda>(v, seed). Inr (\<lparr>wd_id = t, wd_ticks = v\<rparr>, seed))"

definition watchdog_ok :: "rand_r \<Rightarrow> watchdog_config \<Rightarrow> task_id \<Rightarrow> watchdog \<times> 32 word \<Rightarrow> (bool \<times> watchdog \<times> 32 word) result" where
  "watchdog_ok rr cfg t = (\<lambda>(w, seed).
     if t \<noteq> wd_id w then bindr (watchdog_reset rr cfg t seed) (\<lambda>s. Inr (True, s))
     else let w = w\<lparr>wd_ticks := wd_ticks w - 1\<rparr> in
       if wd_ticks w = 0 then bindr (watchdog_reset rr cfg t seed) (\<lambda>s. Inr (False, s))
       else Inr (True, w, seed))"

text \<open>The cases of the switch for which the budget is checked.\<close>

definition watchdog_counts :: "(type_id \<Rightarrow> ma_kind option) \<Rightarrow> capture_point \<Rightarrow> bool" where
  "watchdog_counts ma cp \<longleftrightarrow>
     (case ma (cp_type_id cp) of
        Some k \<Rightarrow>
          if k \<in> {MA_AREAD, MA_AWRITE, MA_XCHG, MA_CMPXCHG, MA_RMW, MA_FENCE} then cp_chain_id cp \<noteq> CHAIN_INGRESS_AFTER
          else k \<in> {MA_READ, MA_WRITE}
      | None \<Rightarrow> cp_type_id cp = EVENT_YIELD_SCHED \<or> cp_type_id cp = EVENT_YIELD_USER)"

definition watchdog_handle :: "rand_r \<Rightarrow> (type_id \<Rightarrow> ma_kind option) \<Rightarrow> watchdog_config \<Rightarrow> (watchdog \<times> 32 word) handler" where
  "watchdog_handle rr ma cfg cp e s =
     assertr (cp_id cp \<noteq> NO_TASK)
       (if \<not> wc_enabled cfg \<or> e_skip e \<or> e_readonly e \<or> \<not> watchdog_counts ma cp then Inr (e, s)
        else bindr (watchdog_ok rr cfg (cp_id cp) s) (\<lambda>(ok, s).
          if ok then Inr (e, s)
          else bindr (tidset_remove (e_tset e) (cp_id cp)) (\<lambda>(_, ts).
            let e = e\<lparr>e_tset := ts\<rparr>;
                e = (if \<not> e_is_chpt e then e\<lparr>e_reason := REASON_WATCHDOG, e_is_chpt := True\<rparr> else e)
            in Inr (e\<lparr>e_selector := SELECTOR_RANDOM\<rparr>, s))))"

section \<open>priority\<close>

definition EVENT_PRIORITY_SET :: type_id where "EVENT_PRIORITY_SET = 153"

definition INT64_MIN :: int where "INT64_MIN = - (2 ^ 63)"

text \<open>Priorities are only stored and compared.\<close>

record priority_state =
  pr_map :: "int map_t"
  pr_max :: int

definition is_max_priority :: "task_id \<Rightarrow> priority_state \<Rightarrow> (bool \<times> priority_state) result" where
  "is_max_priority t s =
     bindr (tidmap_find_or_register 0 (pr_map s) t None) (\<lambda>(v, m). Inr (v = pr_max s, s\<lparr>pr_map := m\<rparr>))"

text \<open>The loop that computes the maximum.\<close>

function priority_max_loop :: "tidset \<Rightarrow> nat \<Rightarrow> priority_state \<Rightarrow> priority_state result" where
  "priority_max_loop ts i s =
     (if i < ts_size ts then
        bindr (rd (ts_tasks ts) i) (\<lambda>t.
        bindr (tidmap_find_or_register 0 (pr_map s) t None) (\<lambda>(v, m).
          priority_max_loop ts (Suc i) (s\<lparr>pr_map := m, pr_max := (if pr_max s < v then v else pr_max s)\<rparr>)))
      else Inr s)"
  by pat_completeness auto
termination
  by (relation "measure (\<lambda>(ts, i, s). ts_size ts - i)") auto

declare priority_max_loop.simps [simp del]

definition priority_register :: "(capture_point \<Rightarrow> int) \<Rightarrow> capture_point \<Rightarrow> decision \<Rightarrow> priority_state \<Rightarrow> priority_state result" where
  "priority_register pl cp e s =
     (if cp_type_id cp = EVENT_TASK_FINI then
        bindr (tidmap_deregister (pr_map s) (cp_id cp)) (\<lambda>m.
        bindr (tidset_has (e_tset e) (cp_id cp)) (\<lambda>h. assertr (\<not> h) (Inr (s\<lparr>pr_map := m\<rparr>))))
      else if cp_type_id cp = EVENT_TASK_INIT then
        bindr (tidmap_find (pr_map s) (cp_id cp)) (\<lambda>t. assertr (t = None)
          (bindr (tidmap_register 0 (pr_map s) (cp_id cp)) (\<lambda>m. Inr (s\<lparr>pr_map := map_write m (cp_id cp) 0\<rparr>))))
      else if cp_type_id cp = EVENT_PRIORITY_SET then
        bindr (tidmap_find (pr_map s) (cp_id cp)) (\<lambda>t. assertr (t \<noteq> None)
          (Inr (s\<lparr>pr_map := map_write (pr_map s) (cp_id cp) (pl cp)\<rparr>)))
      else Inr s)"

definition priority_handle :: "bool \<Rightarrow> (capture_point \<Rightarrow> int) \<Rightarrow> priority_state handler" where
  "priority_handle enabled pl cp e s =
     (if e_skip e \<or> \<not> enabled then Inr (e, s)
      else assertr (cp_id cp \<noteq> NO_TASK)
        (bindr (priority_register pl cp e s) (\<lambda>s.
           if e_readonly e \<or> e_skip e then Inr (e, s)
           else bindr (priority_max_loop (e_tset e) 0 (s\<lparr>pr_max := INT64_MIN\<rparr>)) (\<lambda>s.
                bindr (tidset_filter_st is_max_priority (e_tset e) s) (\<lambda>(ts, s).
                bindr (tidset_has ts (cp_id cp)) (\<lambda>h.
                  Inr (e\<lparr>e_tset := ts, e_is_chpt := (e_is_chpt e \<or> \<not> h)\<rparr>, s)))))))"

section \<open>task velocity\<close>

definition EVENT_TASK_VELOCITY :: type_id where "EVENT_TASK_VELOCITY = 154"
definition LOTTO_TASK_VELOCITY_MIN :: "64 word" where "LOTTO_TASK_VELOCITY_MIN = 1"
definition LOTTO_TASK_VELOCITY_MAX :: "64 word" where "LOTTO_TASK_VELOCITY_MAX = 100"

lemmas velocity_defs = LOTTO_TASK_VELOCITY_MIN_def LOTTO_TASK_VELOCITY_MAX_def

type_synonym velocity_state = "64 word map_t \<times> 32 word"

definition filter_by_probability :: "rand_r \<Rightarrow> task_id \<Rightarrow> velocity_state \<Rightarrow> (bool \<times> velocity_state) result" where
  "filter_by_probability rr t = (\<lambda>(m, seed).
     bindr (tidmap_find_or_register 0 m t None) (\<lambda>(p, m).
       let (p, m) = (if p = 0 then (LOTTO_TASK_VELOCITY_MAX, map_write m t LOTTO_TASK_VELOCITY_MAX) else (p, m)) in
       bindr (prng_range rr seed LOTTO_TASK_VELOCITY_MIN LOTTO_TASK_VELOCITY_MAX) (\<lambda>(v, seed). Inr (p \<ge> v, m, seed))))"

definition velocity_register :: "(capture_point \<Rightarrow> 64 word) \<Rightarrow> capture_point \<Rightarrow> decision \<Rightarrow> velocity_state \<Rightarrow> velocity_state result" where
  "velocity_register pl cp e = (\<lambda>(m, seed).
     if cp_type_id cp = EVENT_TASK_FINI then
       bindr (tidmap_deregister m (cp_id cp)) (\<lambda>m.
       bindr (tidset_has (e_tset e) (cp_id cp)) (\<lambda>h. assertr (\<not> h) (Inr (m, seed))))
     else if cp_type_id cp = EVENT_TASK_INIT then
       bindr (tidmap_find m (cp_id cp)) (\<lambda>t. assertr (t = None)
         (bindr (tidmap_register 0 m (cp_id cp)) (\<lambda>m. Inr (map_write m (cp_id cp) LOTTO_TASK_VELOCITY_MAX, seed))))
     else if cp_type_id cp = EVENT_TASK_VELOCITY then
       bindr (tidmap_find m (cp_id cp)) (\<lambda>t. assertr (t \<noteq> None) (Inr (map_write m (cp_id cp) (pl cp), seed)))
     else Inr (m, seed))"

definition task_velocity_handle :: "rand_r \<Rightarrow> bool \<Rightarrow> (capture_point \<Rightarrow> 64 word) \<Rightarrow> velocity_state handler" where
  "task_velocity_handle rr enabled pl cp e s =
     (if e_skip e \<or> \<not> enabled then Inr (e, s)
      else assertr (cp_id cp \<noteq> NO_TASK)
        (bindr (velocity_register pl cp e s) (\<lambda>s.
           if e_readonly e \<or> e_skip e then Inr (e, s)
           else bindr (tidset_filter_st (filter_by_probability rr) (e_tset e) s) (\<lambda>(ts, s).
                bindr (tidset_has ts (cp_id cp)) (\<lambda>h.
                  Inr (e\<lparr>e_tset := ts, e_is_chpt := (e_is_chpt e \<or> \<not> h)\<rparr>, s))))))"

section \<open>bias\<close>

definition EVENT_BIAS_POLICY :: type_id where "EVENT_BIAS_POLICY = 190"
definition EVENT_BIAS_TOGGLE :: type_id where "EVENT_BIAS_TOGGLE = 191"

datatype bias_policy = BIAS_POLICY_NONE | BIAS_POLICY_CURRENT | BIAS_POLICY_LOWEST | BIAS_POLICY_HIGHEST

record bias_state =
  bs_current_policy :: bias_policy
  bs_toggle_policy :: bias_policy

definition bias_cmp_lowest :: "task_id \<Rightarrow> task_id \<Rightarrow> int" where
  "bias_cmp_lowest a b = (if a > b then 1 else if a < b then -1 else 0)"

definition bias_cmp_highest :: "task_id \<Rightarrow> task_id \<Rightarrow> int" where
  "bias_cmp_highest a b = bias_cmp_lowest b a"

definition bias_apply :: "qsort \<Rightarrow> capture_point \<Rightarrow> decision \<Rightarrow> bias_state \<Rightarrow> decision result" where
  "bias_apply qs cp e s =
     (let chosen = (\<lambda>ts. Inr (e\<lparr>e_tset := ts, e_selector := SELECTOR_FIRST, e_readonly := True\<rparr>)) in
      case bs_current_policy s of
        BIAS_POLICY_NONE \<Rightarrow> Inr e
      | BIAS_POLICY_CURRENT \<Rightarrow>
          bindr (tidset_has (e_tset e) (cp_id cp)) (\<lambda>h.
            if \<not> h then Inr e else bindr (tidset_make_first (e_tset e) (cp_id cp)) chosen)
      | BIAS_POLICY_LOWEST \<Rightarrow> bindr (tidset_sort qs (e_tset e) bias_cmp_lowest) chosen
      | BIAS_POLICY_HIGHEST \<Rightarrow> bindr (tidset_sort qs (e_tset e) bias_cmp_highest) chosen)"

definition bias_update :: "(capture_point \<Rightarrow> bias_policy) \<Rightarrow> capture_point \<Rightarrow> bias_state \<Rightarrow> bias_state" where
  "bias_update pl cp s =
     (if cp_type_id cp = EVENT_BIAS_POLICY then s\<lparr>bs_current_policy := pl cp\<rparr>
      else if cp_type_id cp = EVENT_BIAS_TOGGLE
        then \<lparr>bs_current_policy = bs_toggle_policy s, bs_toggle_policy = bs_current_policy s\<rparr>
      else s)"

definition bias_handle :: "qsort \<Rightarrow> (capture_point \<Rightarrow> bias_policy) \<Rightarrow> bias_state handler" where
  "bias_handle qs pl cp e s =
     (let s = bias_update pl cp s in
      if e_skip e \<or> e_readonly e \<or> e_selector e \<noteq> SELECTOR_UNDEFINED \<or> tidset_size (e_tset e) \<le> 1 then Inr (e, s)
      else bindr (bias_apply qs cp e s) (\<lambda>e. Inr (e, s)))"

section \<open>The handler contract\<close>

lemma remove_shrinks: "tidset_remove s t = Inr (b, s') \<Longrightarrow> tidset_inv s \<Longrightarrow> tidset_inv s' \<and> tids s' \<subseteq> tids s"
  using tidset_remove_inv [of s t] by auto

interpretation yield_h: capture_handler "yield_handle cfg"
  by unfold_locales (auto simp: yield_handle_def result_elims dest!: remove_shrinks split: if_splits)

interpretation watchdog_h: capture_handler "watchdog_handle rr ma cfg"
  by unfold_locales (auto simp: watchdog_handle_def result_elims Let_def dest!: remove_shrinks split: if_splits)

interpretation priority_h: capture_handler "priority_handle enabled pl"
  by unfold_locales (auto simp: priority_handle_def result_elims dest!: tidset_filter_st_inv split: if_splits)

interpretation velocity_h: capture_handler "task_velocity_handle rr enabled pl"
  by unfold_locales (auto simp: task_velocity_handle_def result_elims dest!: tidset_filter_st_inv split: if_splits)

lemma bias_comparators: "comparator bias_cmp_lowest" "comparator bias_cmp_highest"
  by (auto simp: comparator_def bias_cmp_lowest_def bias_cmp_highest_def split: if_splits)

context c_qsort
begin

lemma sort_keeps:
  "tidset_sort qs s cmp = Inr s' \<Longrightarrow> comparator cmp \<Longrightarrow> tidset_inv s \<Longrightarrow> tidset_inv s' \<and> tids s' \<subseteq> tids s"
  using tidset_sort_inv [of cmp s] by auto

end

sublocale c_qsort \<subseteq> bias_h: capture_handler "bias_handle qs pl"
proof unfold_locales
  fix cp e s e' s'
  assume h: "bias_handle qs pl cp e s = Inr (e', s')"
  then show "e_clk e' = e_clk e \<and> e_replay e' = e_replay e"
    by (auto simp: bias_handle_def bias_apply_def Let_def result_elims split: if_splits bias_policy.splits)
  assume "tidset_inv (e_tset e)"
  with h show "tidset_inv (e_tset e') \<and> tids (e_tset e') \<subseteq> tids (e_tset e)"
    by (auto simp: bias_handle_def bias_apply_def Let_def result_elims split: if_splits bias_policy.splits
        dest!: sort_keeps [OF _ bias_comparators(1)] sort_keeps [OF _ bias_comparators(2)] make_first_keeps)
qed

section \<open>Lemmas: watchdog\<close>

text \<open>Draws and ticks of a watchdog with a budget of at least two.\<close>

lemma watchdog_reset_range:
  assumes "2 \<le> wc_budget cfg"
  shows "\<exists>v seed'. watchdog_reset rr cfg t seed = Inr (\<lparr>wd_id = t, wd_ticks = v\<rparr>, seed') \<and> 0 < v \<and> v < wc_budget cfg"
proof -
  let ?b = "wc_budget cfg"
  have b: "2 \<le> unat ?b" using assms by (simp add: word_le_nat_alt)
  have h: "unat (?b div 2) = unat ?b div 2" by (simp add: unat_div)
  then have "0 < ?b div 2" "?b div 2 < ?b" using b by (simp_all add: word_less_nat_alt)
  with prng_bounds [of "?b div 2" ?b rr seed] obtain v seed' where
    "prng_range rr seed (?b div 2) ?b = Inr (v, seed')" "?b div 2 \<le> v" "v < ?b" by auto
  with \<open>0 < ?b div 2\<close> show ?thesis by (auto simp: watchdog_reset_def)
qed

text \<open>An event that the watchdog looks at, on a well-formed decision that is still open.\<close>

definition watched :: "(type_id \<Rightarrow> ma_kind option) \<Rightarrow> task_id \<Rightarrow> capture_point \<times> decision \<Rightarrow> bool" where
  "watched ma t = (\<lambda>(cp, e). cp_id cp = t \<and> watchdog_counts ma cp \<and> \<not> e_skip e \<and> \<not> e_readonly e \<and> tidset_inv (e_tset e))"

definition preempted :: "task_id \<Rightarrow> decision \<Rightarrow> bool" where
  "preempted t e \<longleftrightarrow> t \<notin> tids (e_tset e) \<and> e_is_chpt e \<and> e_selector e = SELECTOR_RANDOM"

lemma watchdog_step:
  assumes "wc_enabled cfg" and "2 \<le> wc_budget cfg" and "t \<noteq> NO_TASK" and "watched ma t (cp, e)"
  shows "\<exists>e' w' seed'. watchdog_handle rr ma cfg cp e (w, seed) = Inr (e', w', seed') \<and> wd_id w' = t \<and>
    (if wd_id w \<noteq> t then 0 < wd_ticks w' \<and> wd_ticks w' < wc_budget cfg
     else if wd_ticks w = 1 then preempted t e' else wd_ticks w' = wd_ticks w - 1)"
proof -
  obtain v seed1 where v: "watchdog_reset rr cfg t seed = Inr (\<lparr>wd_id = t, wd_ticks = v\<rparr>, seed1)" "0 < v" "v < wc_budget cfg"
    using watchdog_reset_range [OF assms(2)] by blast
  have e: "cp_id cp = t" "watchdog_counts ma cp" "\<not> e_skip e" "\<not> e_readonly e" "tidset_inv (e_tset e)"
    using assms(4) by (simp_all add: watched_def)
  obtain ts where ts: "tidset_remove (e_tset e) t = Inr (t \<in> tids (e_tset e), ts)" "tids ts = tids (e_tset e) - {t}"
    using tidset_remove_inv [OF e(5)] by blast
  show ?thesis
    using assms(1,3) e v ts by (auto simp: watchdog_handle_def watchdog_ok_def preempted_def Let_def)
qed

lemma watchdog_runs:
  assumes "wc_enabled cfg" and "2 \<le> wc_budget cfg" and "t \<noteq> NO_TASK"
  shows "list_all (watched ma t) evs \<Longrightarrow> \<exists>es s'. handle_events (watchdog_handle rr ma cfg) evs s = Inr (es, s')"
proof (induction evs arbitrary: s)
  case (Cons ev evs)
  obtain cp e w seed where p: "ev = (cp, e)" "s = (w, seed)" by (cases ev; cases s)
  with Cons.prems watchdog_step [OF assms, of ma cp e rr w seed]
  obtain e' w' seed' where h: "watchdog_handle rr ma cfg cp e s = Inr (e', w', seed')" by auto
  obtain es s' where "handle_events (watchdog_handle rr ma cfg) evs (w', seed') = Inr (es, s')"
    using Cons by fastforce
  with h p show ?case by auto
qed simp

lemma watchdog_fires_after:
  assumes "wc_enabled cfg" and "2 \<le> wc_budget cfg" and "t \<noteq> NO_TASK"
  shows "list_all (watched ma t) evs \<Longrightarrow> wd_id w = t \<Longrightarrow> 0 < wd_ticks w \<Longrightarrow> unat (wd_ticks w) \<le> length evs \<Longrightarrow>
    handle_events (watchdog_handle rr ma cfg) evs (w, seed) = Inr (es, s') \<Longrightarrow> \<exists>e\<in>set es. preempted t e"
proof (induction evs arbitrary: w seed es s')
  case Nil
  then show ?case by (simp add: unat_eq_zero)
next
  case (Cons ev evs)
  obtain cp e where p: "ev = (cp, e)" by (cases ev)
  from Cons.prems(1) p watchdog_step [OF assms, of ma cp e rr w seed] Cons.prems(2)
  obtain e' w' seed' where h: "watchdog_handle rr ma cfg cp e (w, seed) = Inr (e', w', seed')" "wd_id w' = t"
      "if wd_ticks w = 1 then preempted t e' else wd_ticks w' = wd_ticks w - 1" by auto
  from Cons.prems(5) p h(1) obtain es1 where es: "handle_events (watchdog_handle rr ma cfg) evs (w', seed') = Inr (es1, s')" "es = e' # es1"
    by (auto simp: bindr_eq_Inr)
  show ?case
  proof (cases "wd_ticks w = 1")
    case True
    with h(3) es(2) show ?thesis by simp
  next
    case False
    have "1 < unat (wd_ticks w)"
      using Cons.prems(3) False by (auto simp: word_less_nat_alt word_unat_eq_iff)
    moreover have "unat (wd_ticks w - 1) = unat (wd_ticks w) - 1" by (rule unat_minus_one) (use Cons.prems(3) in auto)
    ultimately have "0 < wd_ticks w'" "unat (wd_ticks w') \<le> length evs"
      using False h(3) Cons.prems(4) by (auto simp: word_less_nat_alt)
    with Cons.IH [OF _ h(2) _ _ es(1)] Cons.prems(1) es(2) show ?thesis by auto
  qed
qed

section \<open>Lemmas: priority\<close>

text \<open>The priority of a task; a task without an item gets one with priority 0 when it is looked up.\<close>

definition prio_of :: "int map_t \<Rightarrow> task_id \<Rightarrow> int" where
  "prio_of m t = (case map_find m t of None \<Rightarrow> 0 | Some v \<Rightarrow> v)"

lemma find_or_register_prio:
  assumes "map_inv m" and "t \<noteq> NO_TASK"
  shows "\<exists>m'. tidmap_find_or_register 0 m t None = Inr (prio_of m t, m') \<and> map_inv m' \<and> prio_of m' = prio_of m \<and>
    dom (map_find m') = insert t (dom (map_find m)) \<and> (map_find m t \<noteq> None \<longrightarrow> m' = m)"
proof (cases "map_find m t")
  case None
  then obtain m' where m': "map_register 0 m t = Inr m'" by (simp add: map_register_def)
  with None assms show ?thesis
    using map_inv_register [OF assms(1) m'] map_find_register [OF m']
    by (auto simp: tidmap_find_or_register_def map_find_or_register_def prio_of_def fun_eq_iff)
next
  case (Some v)
  with assms show ?thesis
    by (auto simp: tidmap_find_or_register_def map_find_or_register_def prio_of_def)
qed

lemma priority_max_loop_spec:
  "map_inv (pr_map s) \<Longrightarrow> tidset_inv ts \<Longrightarrow> NO_TASK \<notin> tids ts \<Longrightarrow> i \<le> ts_size ts \<Longrightarrow>
     \<exists>s'. priority_max_loop ts i s = Inr s' \<and> map_inv (pr_map s') \<and> prio_of (pr_map s') = prio_of (pr_map s) \<and>
       set (drop i (tidset_list ts)) \<subseteq> dom (map_find (pr_map s')) \<and> dom (map_find (pr_map s)) \<subseteq> dom (map_find (pr_map s')) \<and>
       pr_max s' = fold max (map (prio_of (pr_map s)) (drop i (tidset_list ts))) (pr_max s)"
proof (induction ts i s rule: priority_max_loop.induct)
  case (1 ts i s)
  show ?case
  proof (cases "i < ts_size ts")
    case True
    let ?t = "tidset_list ts ! i"
    have r: "rd (ts_tasks ts) i = Inr ?t" using True "1.prems"(2) by (simp add: rd_tidset tidset_inv_wf)
    have mem: "?t \<in> tids ts" using True "1.prems"(2) by (simp add: tids_def tidset_inv_wf)
    then have "?t \<noteq> NO_TASK" using "1.prems"(3) by metis
    with find_or_register_prio [OF "1.prems"(1)] obtain m' where
      m': "tidmap_find_or_register 0 (pr_map s) ?t None = Inr (prio_of (pr_map s) ?t, m')" "map_inv m'"
        "prio_of m' = prio_of (pr_map s)" "dom (map_find m') = insert ?t (dom (map_find (pr_map s)))" by blast
    let ?s = "s\<lparr>pr_map := m', pr_max := (if pr_max s < prio_of (pr_map s) ?t then prio_of (pr_map s) ?t else pr_max s)\<rparr>"
    have step: "priority_max_loop ts i s = priority_max_loop ts (Suc i) ?s"
      using True r m'(1) by (simp add: priority_max_loop.simps [of ts i s])
    have d: "drop i (tidset_list ts) = ?t # drop (Suc i) (tidset_list ts)"
      using True "1.prems"(2) by (simp add: Cons_nth_drop_Suc tidset_inv_wf)
    have mx: "(if pr_max s < v then v else pr_max s) = max v (pr_max s)" for v by simp
    from "1.IH" [OF True r m'(1) refl] "1.prems"(2-4) m' True
    obtain s' where s': "priority_max_loop ts (Suc i) ?s = Inr s'" "map_inv (pr_map s')" "prio_of (pr_map s') = prio_of (pr_map s)"
      "set (drop (Suc i) (tidset_list ts)) \<subseteq> dom (map_find (pr_map s'))" "dom (map_find m') \<subseteq> dom (map_find (pr_map s'))"
      "pr_max s' = fold max (map (prio_of (pr_map s)) (drop (Suc i) (tidset_list ts))) (max (prio_of (pr_map s) ?t) (pr_max s))"
      by (auto simp: mx)
    have "?t \<in> dom (map_find (pr_map s'))" "dom (map_find (pr_map s)) \<subseteq> dom (map_find (pr_map s'))"
      using s'(5) m'(4) by blast+
    with s' step show ?thesis unfolding d by simp
  next
    case False
    then have "priority_max_loop ts i s = Inr s" by (simp add: priority_max_loop.simps [of ts i s])
    with "1.prems" False show ?thesis by (simp add: tidset_inv_wf)
  qed
qed

lemma priority_register_inv:
  "priority_register pl cp e s = Inr s' \<Longrightarrow> map_inv (pr_map s) \<Longrightarrow> map_inv (pr_map s')"
  by (auto simp: priority_register_def result_elims tidmap_deregister_def tidmap_register_def map_inv_deregister
      dest: map_inv_register split: if_splits)

section \<open>Properties\<close>

text \<open>
  The watchdog bounds how long a task runs uninterrupted: among any number of consecutive watched
  events of one task that reaches the budget, at least one takes the task out of the candidates and is a
  change point, whatever the random numbers are. A budget of one is not honoured: the drawn number of ticks
  is zero, its decrement wraps around, and the task goes on.
\<close>

theorem watchdog_budget:
  assumes "wc_enabled cfg" and "2 \<le> wc_budget cfg" and "t \<noteq> NO_TASK" and "list_all (watched ma t) evs"
    and "unat (wc_budget cfg) \<le> length evs" and "wd_id w = t \<longrightarrow> 0 < wd_ticks w \<and> wd_ticks w < wc_budget cfg"
  shows "(\<exists>es s'. handle_events (watchdog_handle rr ma cfg) evs (w, seed) = Inr (es, s') \<and> (\<exists>e\<in>set es. preempted t e)) \<and>
    (\<exists>seed1. watchdog_reset rr \<lparr>wc_enabled = True, wc_budget = 1\<rparr> t seed = Inr (\<lparr>wd_id = t, wd_ticks = 0\<rparr>, seed1) \<and>
       watchdog_ok rr \<lparr>wc_enabled = True, wc_budget = 1\<rparr> t (\<lparr>wd_id = t, wd_ticks = 0\<rparr>, seed1) =
         Inr (True, \<lparr>wd_id = t, wd_ticks = - 1\<rparr>, seed1))"
proof
  obtain es s' where run: "handle_events (watchdog_handle rr ma cfg) evs (w, seed) = Inr (es, s')"
    using watchdog_runs [OF assms(1-4)] by blast
  have "\<exists>e\<in>set es. preempted t e"
  proof (cases "wd_id w = t")
    case True
    with assms(5,6) have "0 < wd_ticks w" "unat (wd_ticks w) \<le> length evs" by (auto simp: word_less_nat_alt)
    from watchdog_fires_after [OF assms(1-4) True this run] show ?thesis .
  next
    case False
    have "2 \<le> unat (wc_budget cfg)" using assms(2) by (simp add: word_le_nat_alt)
    with assms(5) obtain cp e evs1 where evs: "evs = (cp, e) # evs1" by (cases evs) auto
    from assms(4) evs False watchdog_step [OF assms(1-3), of ma cp e rr w seed]
    obtain e' w' seed' where h: "watchdog_handle rr ma cfg cp e (w, seed) = Inr (e', w', seed')" "wd_id w' = t"
        "0 < wd_ticks w'" "wd_ticks w' < wc_budget cfg" by auto
    from run evs h(1) obtain es1 where es: "handle_events (watchdog_handle rr ma cfg) evs1 (w', seed') = Inr (es1, s')" "es = e' # es1"
      by (auto simp: bindr_eq_Inr)
    have "unat (wd_ticks w') \<le> length evs1" "list_all (watched ma t) evs1"
      using h(4) assms(4,5) evs by (auto simp: word_less_nat_alt)
    from watchdog_fires_after [OF assms(1-3) this(2) h(2,3) this(1) es(1)] es(2) show ?thesis by auto
  qed
  with run show "\<exists>es s'. handle_events (watchdog_handle rr ma cfg) evs (w, seed) = Inr (es, s') \<and> (\<exists>e\<in>set es. preempted t e)"
    by blast
  show "\<exists>seed1. watchdog_reset rr \<lparr>wc_enabled = True, wc_budget = 1\<rparr> t seed = Inr (\<lparr>wd_id = t, wd_ticks = 0\<rparr>, seed1) \<and>
      watchdog_ok rr \<lparr>wc_enabled = True, wc_budget = 1\<rparr> t (\<lparr>wd_id = t, wd_ticks = 0\<rparr>, seed1) =
        Inr (True, \<lparr>wd_id = t, wd_ticks = - 1\<rparr>, seed1)"
    by (auto simp: watchdog_ok_def watchdog_reset_def prng_range_def split: prod.split)
qed

definition ma_sample :: "type_id \<Rightarrow> ma_kind option" where
  "ma_sample ty = (if ty = 30 then Some MA_READ else None)"

theorem watchdog_budget_witness:
  "\<exists>es s'. handle_events (watchdog_handle (\<lambda>s. (7, s)) ma_sample \<lparr>wc_enabled = True, wc_budget = 2\<rparr>)
       [(event_cp 30 5 0, sample_event), (event_cp 30 5 0, sample_event)] (\<lparr>wd_id = NO_TASK, wd_ticks = 0\<rparr>, 1) = Inr (es, s') \<and>
     (\<exists>e\<in>set es. preempted 5 e)"
proof -
  let ?evs = "[(event_cp 30 5 0, sample_event), (event_cp 30 5 0, sample_event)]"
  have "list_all (watched ma_sample 5) ?evs"
    using sample_event_simps
    by (simp add: watched_def watchdog_counts_def ma_sample_def sample_event_def zero_decision_def)
  moreover have "(5 :: task_id) \<noteq> NO_TASK" "(NO_TASK :: task_id) \<noteq> 5" by (simp_all add: NO_TASK_def)
  ultimately show ?thesis
    using watchdog_budget [of "\<lparr>wc_enabled = True, wc_budget = 2\<rparr>" 5 ma_sample ?evs "\<lparr>wd_id = NO_TASK, wd_ticks = 0\<rparr>" "\<lambda>s. (7, s)" 1]
    by simp
qed

text \<open>
  The priority module leaves exactly the candidates of the highest priority, where a task that
  never set a priority has priority 0. Some candidate is always left, and the event becomes a change point
  when the capturing task is not among them.
\<close>

theorem priority_keeps_highest:
  assumes "\<not> e_skip e" and "\<not> e_readonly e" and "cp_id cp \<noteq> NO_TASK" and "tidset_inv (e_tset e)" and "NO_TASK \<notin> tids (e_tset e)"
    and "map_inv (pr_map s)" and "priority_register pl cp e s = Inr s1" and "\<forall>t. INT64_MIN \<le> prio_of (pr_map s1) t"
  shows "\<exists>e' s'. priority_handle True pl cp e s = Inr (e', s') \<and> map_inv (pr_map s') \<and> prio_of (pr_map s') = prio_of (pr_map s1) \<and>
    tids (e_tset e') = {t \<in> tids (e_tset e). \<forall>u\<in>tids (e_tset e). prio_of (pr_map s1) u \<le> prio_of (pr_map s1) t} \<and>
    (tids (e_tset e) \<noteq> {} \<longrightarrow> tids (e_tset e') \<noteq> {}) \<and>
    (e_is_chpt e' \<longleftrightarrow> e_is_chpt e \<or> cp_id cp \<notin> tids (e_tset e'))"
proof -
  let ?p = "prio_of (pr_map s1)" and ?T = "tids (e_tset e)"
  have m1: "map_inv (pr_map (s1\<lparr>pr_max := INT64_MIN\<rparr>))" using priority_register_inv [OF assms(7,6)] by simp
  from priority_max_loop_spec [OF m1 assms(4,5), of 0] obtain s2 where
    s2: "priority_max_loop (e_tset e) 0 (s1\<lparr>pr_max := INT64_MIN\<rparr>) = Inr s2" "map_inv (pr_map s2)" "prio_of (pr_map s2) = ?p"
      "?T \<subseteq> dom (map_find (pr_map s2))" "pr_max s2 = fold max (map ?p (tidset_list (e_tset e))) INT64_MIN"
    by (auto simp: tids_def)
  have mx: "pr_max s2 = Max (insert INT64_MIN (?p ` ?T))"
    using s2(5) Max.set_eq_fold [of INT64_MIN "map ?p (tidset_list (e_tset e))"] by (simp add: tids_def)
  have fin: "finite (?p ` ?T)" by simp
  have eq: "?p t = pr_max s2 \<longleftrightarrow> (\<forall>u\<in>?T. ?p u \<le> ?p t)" if "t \<in> ?T" for t
  proof
    assume "?p t = pr_max s2"
    then show "\<forall>u\<in>?T. ?p u \<le> ?p t" using mx Max_ge [of "insert INT64_MIN (?p ` ?T)"] fin by auto
  next
    assume a: "\<forall>u\<in>?T. ?p u \<le> ?p t"
    show "?p t = pr_max s2"
      unfolding mx by (rule Max_eqI [symmetric]) (use a that assms(8) fin in auto)
  qed
  have "is_max_priority t s2 = Inr (?p t = pr_max s2, s2)" if "t \<in> ?T" for t
  proof -
    have "t \<noteq> NO_TASK" "map_find (pr_map s2) t \<noteq> None" using that assms(5) s2(4) by auto
    with find_or_register_prio [OF s2(2)] s2(3) show ?thesis by (fastforce simp: is_max_priority_def)
  qed
  then obtain ts where ts: "tidset_filter_st is_max_priority (e_tset e) s2 = Inr (ts, s2)" "tidset_inv ts"
      "tids ts = {t \<in> ?T. ?p t = pr_max s2}"
    using tidset_filter_st_plain [of "e_tset e" is_max_priority s2 "\<lambda>t. ?p t = pr_max s2"] assms(4) by blast
  have t: "tids ts = {t \<in> ?T. \<forall>u\<in>?T. ?p u \<le> ?p t}" using ts(3) eq by auto
  have ne: "tids ts \<noteq> {}" if "?T \<noteq> {}"
  proof -
    have "Max (?p ` ?T) \<in> ?p ` ?T" using that by simp
    then obtain v where v: "v \<in> ?T" "?p v = Max (?p ` ?T)" by auto
    then have "\<forall>u\<in>?T. ?p u \<le> ?p v" by simp
    with v(1) t show ?thesis by auto
  qed
  show ?thesis
    using assms(1-3,7) s2(1-3) ts(1,2) t ne
    by (simp add: priority_handle_def tidset_has_inv)
qed

definition prio_sample :: priority_state where
  "prio_sample = \<lparr>pr_map = \<lparr>map_chain = [(5, 3), (6, 1)], map_nitems = 2\<rparr>, pr_max = 0\<rparr>"

theorem priority_keeps_highest_witness:
  "\<exists>e' s'. priority_handle True (\<lambda>_. 0) (event_cp 30 6 0) sample_event prio_sample = Inr (e', s') \<and>
     tids (e_tset e') = {5} \<and> e_is_chpt e'"
proof -
  have r: "priority_register (\<lambda>_. 0) (event_cp 30 6 0) sample_event prio_sample = Inr prio_sample"
    by (simp add: priority_register_def event_defs EVENT_PRIORITY_SET_def)
  have m: "map_inv (pr_map prio_sample)" by (simp add: prio_sample_def map_inv_def)
  have p: "prio_of (pr_map prio_sample) t = (if t = 5 then 3 else if t = 6 then 1 else 0)" for t
    by (simp add: prio_of_def prio_sample_def map_find_map_of)
  have "cp_id (event_cp 30 6 0) \<noteq> NO_TASK" "NO_TASK \<notin> tids (e_tset sample_event)" "\<not> e_readonly sample_event"
    by (simp_all add: sample_event_simps NO_TASK_def, simp add: sample_event_def zero_decision_def)
  note hyps = sample_event_simps(2) this(3,1) sample_event_simps(1) this(2) m r
  have lo: "\<forall>t. INT64_MIN \<le> prio_of (pr_map prio_sample) t" by (simp add: p INT64_MIN_def)
  have "{t \<in> {5, 6}. \<forall>u\<in>{5, 6}. prio_of (pr_map prio_sample) u \<le> prio_of (pr_map prio_sample) t} = {5}"
    by (auto simp: p)
  with priority_keeps_highest [OF hyps lo] show ?thesis by (auto simp: sample_event_simps)
qed

end
