(* ===== verification/Strategies.thy ===== *)
theory Strategies
  imports Candidates
begin

text \<open>
  The scheduling strategies PCT (\<^verbatim>\<open>modules/pct/src/handler.c\<close>) and POS (\<^verbatim>\<open>modules/pos/src/handler.c\<close>). Both give
  each task a random priority and sort the candidates so that the first one has the highest; PCT changes
  priorities at a bounded number of change points, POS draws them anew for tasks that race with the chosen
  one.

  \<open>qs\<close> is the C library's \<^verbatim>\<open>qsort\<close>. Its comparison functions stop the program when a task has no item; a
  sorting routine compares every element of an array of two or more, so the model checks all of them.
\<close>

section \<open>Comparing priorities\<close>

definition prio_cmp :: "(task_id \<Rightarrow> 64 word) \<Rightarrow> task_id \<Rightarrow> task_id \<Rightarrow> int" where
  "prio_cmp p a b =
     (if p b > p a then 1 else if p b < p a then -1 else if a > b then 1 else if a < b then -1 else 0)"

definition sort_by_prio :: "qsort \<Rightarrow> (task_id \<Rightarrow> 64 word option) \<Rightarrow> tidset \<Rightarrow> tidset result" where
  "sort_by_prio qs p ts =
     assertr (list_all (\<lambda>t. p t \<noteq> None) (tidset_list ts)) (tidset_sort qs ts (prio_cmp (\<lambda>t. the (p t))))"

section \<open>pct\<close>

record pct_config =
  pcc_enabled :: bool
  pcc_k :: "64 word"
  pcc_d :: "64 word"
  pcc_chpts :: "64 word"

record pct_state =
  pct_map :: "64 word map_t"
  pct_chpts :: "64 word"
  pct_kmax :: "64 word"
  pct_nmax :: "64 word"

definition pct_priority :: "64 word \<Rightarrow> 64 word" where
  "pct_priority rval = rval"

text \<open>The remainder by a zero \<^verbatim>\<open>k\<close> is a fault.\<close>

definition pct_is_change_point :: "pct_config \<Rightarrow> pct_state \<Rightarrow> 64 word \<Rightarrow> bool result" where
  "pct_is_change_point cfg s r =
     (if pct_chpts s < pcc_chpts cfg then
        if pcc_k cfg = 0 then Inl Fault else Inr (r mod pcc_k cfg \<le> pcc_d cfg)
      else Inr False)"

definition pct_update :: "pct_config \<Rightarrow> task_id \<Rightarrow> 64 word \<Rightarrow> pct_state \<Rightarrow> pct_state result" where
  "pct_update cfg t r s =
     (if map_size (pct_map s) \<le> 1 then Inr s
      else let s = s\<lparr>pct_kmax := pct_kmax s + 1\<rparr> in
        bindr (pct_is_change_point cfg s r) (\<lambda>c.
          if \<not> c then Inr s
          else let s = s\<lparr>pct_map := map_write (pct_map s) t (pct_priority r)\<rparr> in
            Inr (if pct_chpts s < pcc_chpts cfg then s\<lparr>pct_chpts := pct_chpts s + 1\<rparr> else s)))"

text \<open>The bookkeeping of tasks; the result says whether the item pointer is set.\<close>

definition pct_track :: "rand_r \<Rightarrow> capture_point \<Rightarrow> decision \<Rightarrow> pct_state \<times> 32 word \<Rightarrow> (bool \<times> pct_state \<times> 32 word) result" where
  "pct_track rr cp e = (\<lambda>(s, seed).
     if cp_type_id cp = EVENT_TASK_FINI then
       bindr (tidmap_deregister (pct_map s) (cp_id cp)) (\<lambda>m.
       bindr (tidset_has (e_tset e) (cp_id cp)) (\<lambda>h. assertr (\<not> h) (Inr (False, s\<lparr>pct_map := m\<rparr>, seed))))
     else if cp_type_id cp = EVENT_TASK_INIT then
       bindr (tidmap_find (pct_map s) (cp_id cp)) (\<lambda>t. assertr (t = None)
         (bindr (tidmap_register 0 (pct_map s) (cp_id cp)) (\<lambda>m.
            let (v, seed) = prng_next rr seed in
            Inr (True, s\<lparr>pct_map := map_write m (cp_id cp) (pct_priority v)\<rparr>, seed))))
     else bindr (tidmap_find (pct_map s) (cp_id cp)) (\<lambda>t. assertr (t \<noteq> None) (Inr (True, s, seed))))"

definition pct_handle :: "rand_r \<Rightarrow> qsort \<Rightarrow> string \<Rightarrow> pct_config \<Rightarrow> (pct_state \<times> 32 word) handler" where
  "pct_handle rr qs strategy cfg cp e st =
     bindr (pct_track rr cp e st) (\<lambda>(t, s, seed).
       if \<not> pcc_enabled cfg \<or> strategy \<noteq> ''pct'' \<or> e_selector e \<noteq> SELECTOR_UNDEFINED \<or> e_readonly e \<or>
          tidset_size (e_tset e) \<le> 1 \<or> \<not> e_is_chpt e \<or> e_skip e then Inr (e, s, seed)
       else
         bindr (if t then let (v, seed) = prng_next rr seed in
                  bindr (pct_update cfg (cp_id cp) v s) (\<lambda>s. Inr (s, seed))
                else Inr (s, seed)) (\<lambda>(s, seed).
           let s = s\<lparr>pct_kmax := pct_kmax s + 1\<rparr> in
           bindr (sort_by_prio qs (map_find (pct_map s)) (e_tset e)) (\<lambda>ts.
             let n = of_nat (map_size (pct_map s)) in
             Inr (e\<lparr>e_tset := ts, e_selector := SELECTOR_FIRST, e_readonly := True, e_reason := REASON_DETERMINISTIC\<rparr>,
                  if n > pct_nmax s then s\<lparr>pct_nmax := n\<rparr> else s, seed))))"

section \<open>pos\<close>

record pos_task =
  po_priority :: "64 word"
  po_addr :: "64 word"
  po_is_write :: bool

record pos_state =
  po_map :: "pos_task map_t"
  po_wd_threshold :: "64 word"
  po_wd_divisor :: "64 word"
  po_once :: bool

definition zero_pos_task :: pos_task where
  "zero_pos_task = \<lparr>po_priority = 0, po_addr = 0, po_is_write = False\<rparr>"

definition fresh_priority :: "64 word \<Rightarrow> 64 word" where
  "fresh_priority rval = rval"

definition pos_prio :: "pos_task map_t \<Rightarrow> task_id \<Rightarrow> 64 word option" where
  "pos_prio m t = map_option po_priority (map_find m t)"

text \<open>The second loop of \<^verbatim>\<open>_reset_races\<close>: the other items at the same address get a new priority.\<close>

fun reset_races_loop :: "rand_r \<Rightarrow> task_id \<Rightarrow> pos_task \<Rightarrow> (64 word \<times> pos_task) list \<Rightarrow> 32 word \<Rightarrow>
    (64 word \<times> pos_task) list \<times> 32 word" where
  "reset_races_loop rr i t [] seed = ([], seed)"
| "reset_races_loop rr i t ((j, u) # items) seed =
     (if i = j \<or> po_addr t \<noteq> po_addr u then
        (let (items, seed) = reset_races_loop rr i t items seed in ((j, u) # items, seed))
      else
        (let (v, seed) = prng_next rr seed; (items, seed) = reset_races_loop rr i t items seed
         in ((j, u\<lparr>po_priority := fresh_priority v\<rparr>) # items, seed)))"

definition has_race :: "task_id \<Rightarrow> pos_task \<Rightarrow> (64 word \<times> pos_task) list \<Rightarrow> bool" where
  "has_race i t items \<longleftrightarrow> list_ex (\<lambda>(j, u). i \<noteq> j \<and> po_addr t = po_addr u \<and> (po_is_write t \<or> po_is_write u)) items"

definition reset_races :: "rand_r \<Rightarrow> task_id \<Rightarrow> pos_task map_t \<times> 32 word \<Rightarrow> (pos_task map_t \<times> 32 word) result" where
  "reset_races rr i = (\<lambda>(m, seed).
     bindr (tidmap_find m i) (\<lambda>t.
       case t of
         None \<Rightarrow> Inl AssertFailed
       | Some t \<Rightarrow>
           if po_addr t = 0 then Inr (m, seed)
           else if \<not> has_race i t (map_iterate m) then Inr (m, seed)
           else let (items, seed) = reset_races_loop rr i t (map_iterate m) seed in Inr (m\<lparr>map_chain := items\<rparr>, seed)))"

definition reset_wd :: "64 word \<Rightarrow> pos_task map_t \<Rightarrow> pos_task map_t" where
  "reset_wd divisor m = m\<lparr>map_chain := map (\<lambda>(k, t). (k, t\<lparr>po_priority := po_priority t * divisor\<rparr>)) (map_chain m)\<rparr>"

text \<open>
  The initialisation that runs once; \<open>var\<close> is the number in \<^verbatim>\<open>LOTTO_POS_WD_THRESHOLD\<close>, \<^term>\<open>None\<close> if it is
  not set. A zero divides by zero.
\<close>

definition pos_once :: "64 word option \<Rightarrow> pos_state \<Rightarrow> pos_state result" where
  "pos_once var s =
     (if po_once s then Inr s
      else let d = (case var of None \<Rightarrow> 10 | Some v \<Rightarrow> v) in
        if d = 0 then Inl Fault
        else Inr (s\<lparr>po_once := True, po_wd_divisor := d, po_wd_threshold := po_wd_threshold s div d\<rparr>))"

definition pos_track :: "rand_r \<Rightarrow> capture_point \<Rightarrow> decision \<Rightarrow> pos_task map_t \<times> 32 word \<Rightarrow> (pos_task map_t \<times> 32 word) result" where
  "pos_track rr cp e = (\<lambda>(m, seed).
     if cp_type_id cp = EVENT_TASK_FINI then
       bindr (tidmap_deregister m (cp_id cp)) (\<lambda>m.
       bindr (tidset_has (e_tset e) (cp_id cp)) (\<lambda>h. assertr (\<not> h) (Inr (m, seed))))
     else if cp_type_id cp = EVENT_TASK_INIT then
       bindr (tidmap_find m (cp_id cp)) (\<lambda>t. assertr (t = None)
         (bindr (tidmap_register zero_pos_task m (cp_id cp)) (\<lambda>m.
            let (v, seed) = prng_next rr seed in
            Inr (map_write m (cp_id cp) \<lparr>po_priority = fresh_priority v, po_addr = 0, po_is_write = False\<rparr>, seed))))
     else Inr (m, seed))"

text \<open>The address and the kind of the access, for the events of the inner switch.\<close>

definition pos_access :: "(type_id \<Rightarrow> ma_kind option) \<Rightarrow> capture_point \<Rightarrow> 64 word \<times> bool" where
  "pos_access ma cp =
     (if cp_type_id cp = EVENT_TASK_FINI \<or> cp_type_id cp = EVENT_TASK_INIT then (0, False)
      else case ma (cp_type_id cp) of
        Some k \<Rightarrow>
          if k \<in> {MA_WRITE, MA_AWRITE, MA_CMPXCHG, MA_CMPXCHG_WEAK, MA_XCHG, MA_RMW} then (cp_addr cp, True)
          else if k \<in> {MA_AREAD, MA_READ} then (cp_addr cp, False) else (0, False)
      | None \<Rightarrow> (0, False))"

text \<open>The update of the item of the capturing task.\<close>

definition pos_update :: "rand_r \<Rightarrow> (type_id \<Rightarrow> ma_kind option) \<Rightarrow> capture_point \<Rightarrow> 64 word \<Rightarrow> 64 word \<Rightarrow>
    pos_task map_t \<times> 32 word \<Rightarrow> (pos_task map_t \<times> 32 word) result" where
  "pos_update rr ma cp threshold divisor = (\<lambda>(m, seed).
     let (addr, wr) = pos_access ma cp in
     bindr (tidmap_find m (cp_id cp)) (\<lambda>t.
       case t of
         Some t \<Rightarrow>
           let t = t\<lparr>po_is_write := wr, po_addr := addr\<rparr>; m = map_write m (cp_id cp) t in
           if po_priority t < threshold then Inr (reset_wd divisor m, seed)
           else let (v, seed) = prng_next rr seed in
             Inr (map_write m (cp_id cp) (t\<lparr>po_priority := fresh_priority v\<rparr>), seed)
       | None \<Rightarrow>
           if cp_type_id cp \<noteq> EVENT_TASK_FINI then
             bindr (tidmap_register zero_pos_task m (cp_id cp)) (\<lambda>m.
               let (v, seed) = prng_next rr seed in
               Inr (map_write m (cp_id cp) \<lparr>po_priority = fresh_priority v, po_addr = addr, po_is_write = wr\<rparr>, seed))
           else Inr (m, seed)))"

definition pos_handle :: "rand_r \<Rightarrow> qsort \<Rightarrow> (type_id \<Rightarrow> ma_kind option) \<Rightarrow> 64 word option \<Rightarrow> string \<Rightarrow> bool \<Rightarrow>
    (pos_state \<times> 32 word) handler" where
  "pos_handle rr qs ma var strategy enabled cp e = (\<lambda>(s, seed).
     bindr (pos_once var s) (\<lambda>s.
       if e_skip e then Inr (e, s, seed)
       else bindr (pos_track rr cp e (po_map s, seed)) (\<lambda>(m, seed).
         if \<not> enabled \<or> strategy \<noteq> ''pos'' \<or> \<not> e_is_chpt e \<or> e_selector e \<noteq> SELECTOR_UNDEFINED \<or> e_readonly e \<or>
            tidset_size (e_tset e) \<le> 1 then Inr (e, s\<lparr>po_map := m\<rparr>, seed)
         else
           bindr (pos_update rr ma cp (po_wd_threshold s) (po_wd_divisor s) (m, seed)) (\<lambda>(m, seed).
           bindr (sort_by_prio qs (pos_prio m) (e_tset e)) (\<lambda>ts.
           bindr (tidset_get ts 0) (\<lambda>t.
           bindr (reset_races rr t (m, seed)) (\<lambda>(m, seed).
             Inr (e\<lparr>e_tset := ts, e_selector := SELECTOR_FIRST, e_readonly := True, e_reason := REASON_DETERMINISTIC\<rparr>,
                  s\<lparr>po_map := m\<rparr>, seed))))))))"

section \<open>The handler contract\<close>

lemma prio_cmp_comparator: "comparator (prio_cmp p)"
  unfolding comparator_def prio_cmp_def by (auto split: if_splits)

context c_qsort
begin

lemma sort_by_prio_keeps:
  "sort_by_prio qs p s = Inr s' \<Longrightarrow> tidset_inv s \<Longrightarrow> tidset_inv s' \<and> tids s' \<subseteq> tids s"
  using sort_keeps [OF _ prio_cmp_comparator] by (auto simp: sort_by_prio_def assertr_eq_Inr)

text \<open>Sorting puts a candidate of the highest priority first.\<close>

lemma sort_by_prio_first:
  assumes "tidset_inv s" and "tids s \<noteq> {}" and "\<forall>t\<in>tids s. p t \<noteq> None"
  shows "\<exists>s' t. sort_by_prio qs p s = Inr s' \<and> tidset_inv s' \<and> tids s' = tids s \<and> tidset_get s' 0 = Inr t \<and> t \<in> tids s \<and>
    (\<forall>u\<in>tids s. the (p u) \<le> the (p t))"
proof -
  obtain s' t where s': "tidset_sort qs s (prio_cmp (\<lambda>t. the (p t))) = Inr s'" "tidset_inv s'" "tids s' = tids s"
      "tidset_get s' 0 = Inr t" "t \<in> tids s" "\<forall>u\<in>tids s. prio_cmp (\<lambda>t. the (p t)) t u \<le> 0"
    using tidset_sort_first [OF prio_cmp_comparator assms(1,2)] by blast
  have "the (p u) \<le> the (p t)" if "u \<in> tids s" for u
    using s'(6) that by (force simp: prio_cmp_def split: if_splits)
  moreover have "list_all (\<lambda>t. p t \<noteq> None) (tidset_list s)" using assms(3) by (simp add: list_all_iff tids_def)
  ultimately show ?thesis using s'(1-5) by (auto simp: sort_by_prio_def)
qed

end

sublocale c_qsort \<subseteq> pct_h: capture_handler "pct_handle rr qs strategy cfg"
  by unfold_locales
    (auto simp: pct_handle_def Let_def bindr_eq_Inr dest!: sort_by_prio_keeps split: if_splits prod.splits)

sublocale c_qsort \<subseteq> pos_h: capture_handler "pos_handle rr qs ma var strategy enabled"
proof unfold_locales
  fix cp e s e' s'
  assume "pos_handle rr qs ma var strategy enabled cp e s = Inr (e', s')"
  then have "e' = e \<or> (\<exists>p ts. sort_by_prio qs p (e_tset e) = Inr ts \<and>
      e' = e\<lparr>e_tset := ts, e_selector := SELECTOR_FIRST, e_readonly := True, e_reason := REASON_DETERMINISTIC\<rparr>)"
    by (cases s; cases s') (auto simp: pos_handle_def bindr_eq_Inr split: if_splits)
  then show "tidset_inv (e_tset e) \<Longrightarrow> tidset_inv (e_tset e') \<and> tids (e_tset e') \<subseteq> tids (e_tset e)"
    and "e_clk e' = e_clk e \<and> e_replay e' = e_replay e"
    using sort_by_prio_keeps by fastforce+
qed

section \<open>Lemmas\<close>

lemma dom_map_write [simp]: "dom (map_find (map_write m k v)) = dom (map_find m)"
  by (auto simp: map_find_write)

lemma pct_update_spec:
  assumes "pcc_k cfg \<noteq> 0" and "pct_chpts s \<le> pcc_chpts cfg"
  shows "\<exists>s'. pct_update cfg t r s = Inr s' \<and> pct_chpts s' \<le> pcc_chpts cfg \<and>
    dom (map_find (pct_map s')) = dom (map_find (pct_map s))"
proof -
  have "pct_chpts s + 1 \<le> pcc_chpts cfg" if "pct_chpts s < pcc_chpts cfg" using that by (rule inc_le)
  with assms show ?thesis
    by (simp add: pct_update_def pct_is_change_point_def Let_def)
qed

lemma pct_track_chpts: "pct_track rr cp e (s, seed) = Inr (t, s', seed') \<Longrightarrow> pct_chpts s' = pct_chpts s"
  by (cases "prng_next rr seed") (auto simp: pct_track_def result_elims split: if_splits)

lemma pct_update_chpts:
  "pct_update cfg t r s = Inr s' \<Longrightarrow> pct_chpts s \<le> pcc_chpts cfg \<Longrightarrow> pct_chpts s' \<le> pcc_chpts cfg"
  by (auto simp: pct_update_def pct_is_change_point_def Let_def bindr_eq_Inr intro: inc_le split: if_splits)

lemma pct_handle_chpts:
  assumes "pct_handle rr qs strategy cfg cp e (s, seed) = Inr (e', s', seed')" and "pct_chpts s \<le> pcc_chpts cfg"
  shows "pct_chpts s' \<le> pcc_chpts cfg"
proof -
  obtain t s1 seed1 where tr: "pct_track rr cp e (s, seed) = Inr (t, s1, seed1)"
    using assms(1) by (auto simp: pct_handle_def bindr_eq_Inr)
  with assms(2) have c: "pct_chpts s1 \<le> pcc_chpts cfg" by (simp add: pct_track_chpts)
  then show ?thesis
    using assms(1) tr
    by (auto simp: pct_handle_def Let_def bindr_eq_Inr split: if_splits prod.splits dest: pct_update_chpts)
qed

section \<open>Properties\<close>

text \<open>
  PCT changes a priority at no more change points than configured, over any sequence of events.
\<close>

theorem pct_depth_bounded:
  assumes "handle_events (pct_handle rr qs strategy cfg) evs (s, seed) = Inr (es, s', seed')"
    and "pct_chpts s \<le> pcc_chpts cfg"
  shows "pct_chpts s' \<le> pcc_chpts cfg"
  using assms
proof (induction evs arbitrary: s seed es)
  case (Cons ev evs)
  obtain cp e where p: "ev = (cp, e)" by (cases ev)
  with Cons.prems(1) obtain e1 s1 seed1 es1 where h: "pct_handle rr qs strategy cfg cp e (s, seed) = Inr (e1, s1, seed1)"
      "handle_events (pct_handle rr qs strategy cfg) evs (s1, seed1) = Inr (es1, s', seed')"
    by (auto simp: bindr_eq_Inr)
  from Cons.IH [OF h(2) pct_handle_chpts [OF h(1) Cons.prems(2)]] show ?case .
qed simp

definition pct_sample :: pct_state where
  "pct_sample = \<lparr>pct_map = \<lparr>map_chain = [(5, 3), (6, 9)], map_nitems = 2\<rparr>, pct_chpts = 0, pct_kmax = 0, pct_nmax = 0\<rparr>"

definition pct_sample_config :: pct_config where
  "pct_sample_config = \<lparr>pcc_enabled = True, pcc_k = 1, pcc_d = 1, pcc_chpts = 1\<rparr>"

theorem pct_depth_bounded_witness:
  "\<exists>es s' seed'. handle_events (pct_handle (\<lambda>s. (2, s)) insertion_qsort ''pct'' pct_sample_config)
       (replicate 3 (event_cp 30 5 0, sample_event\<lparr>e_is_chpt := True\<rparr>)) (pct_sample, 1) = Inr (es, s', seed') \<and> pct_chpts s' \<le> 1"
proof -
  let ?h = "pct_handle (\<lambda>s. (2, s)) insertion_qsort ''pct'' pct_sample_config"
  have "case handle_events ?h (replicate 3 (event_cp 30 5 0, sample_event\<lparr>e_is_chpt := True\<rparr>)) (pct_sample, 1) of
      Inl _ \<Rightarrow> False | Inr _ \<Rightarrow> True" by code_simp
  then obtain es s' seed' where r: "handle_events ?h (replicate 3 (event_cp 30 5 0, sample_event\<lparr>e_is_chpt := True\<rparr>)) (pct_sample, 1) =
      Inr (es, s', seed')" by (auto split: sum.splits)
  have "pct_chpts pct_sample \<le> pcc_chpts pct_sample_config" by (simp add: pct_sample_def pct_sample_config_def)
  from pct_depth_bounded [OF r this] r show ?thesis by (auto simp: pct_sample_config_def)
qed

text \<open>
  Claim C35. At a change point that is still open, PCT keeps the candidates and puts one of the highest
  priority, after the update, in front; the decision is then closed with the first candidate selected.
\<close>

theorem pct_picks_highest:
  assumes "c_qsort qs" and "pcc_enabled cfg" and "pcc_k cfg \<noteq> 0" and "pct_chpts s \<le> pcc_chpts cfg"
    and "e_selector e = SELECTOR_UNDEFINED" and "\<not> e_readonly e" and "e_is_chpt e" and "\<not> e_skip e"
    and "tidset_inv (e_tset e)" and "1 < tidset_size (e_tset e)" and "cp_id cp \<noteq> NO_TASK"
    and "cp_type_id cp \<noteq> EVENT_TASK_FINI" and "cp_type_id cp \<noteq> EVENT_TASK_INIT" and "map_find (pct_map s) (cp_id cp) \<noteq> None"
    and "tids (e_tset e) \<subseteq> dom (map_find (pct_map s))"
  shows "\<exists>e' s' seed' t. pct_handle rr qs ''pct'' cfg cp e (s, seed) = Inr (e', s', seed') \<and> tids (e_tset e') = tids (e_tset e) \<and>
    e_selector e' = SELECTOR_FIRST \<and> e_readonly e' \<and> tidset_get (e_tset e') 0 = Inr t \<and> t \<in> tids (e_tset e) \<and>
    (\<forall>u\<in>tids (e_tset e). the (map_find (pct_map s') u) \<le> the (map_find (pct_map s') t))"
proof -
  obtain v seed1 where v: "prng_next rr seed = (v, seed1)" by fastforce
  obtain s1 where s1: "pct_update cfg (cp_id cp) v s = Inr s1" "dom (map_find (pct_map s1)) = dom (map_find (pct_map s))"
    using pct_update_spec [OF assms(3,4)] by blast
  have ne: "tids (e_tset e) \<noteq> {}" using assms(9,10) by (auto simp: tidset_size_card)
  have dm: "\<forall>t\<in>tids (e_tset e). map_find (pct_map s1) t \<noteq> None" using assms(15) s1(2) by blast
  obtain ts t where ts: "sort_by_prio qs (map_find (pct_map s1)) (e_tset e) = Inr ts" "tids ts = tids (e_tset e)"
      "tidset_get ts 0 = Inr t" "t \<in> tids (e_tset e)" "\<forall>u\<in>tids (e_tset e). the (map_find (pct_map s1) u) \<le> the (map_find (pct_map s1) t)"
    using c_qsort.sort_by_prio_first [OF assms(1,9) ne dm] by blast
  have tr: "pct_track rr cp e (s, seed) = Inr (True, s, seed)"
    using assms(11-14) by (simp add: pct_track_def tidmap_find_def)
  show ?thesis
    using assms(2,5-8,10) tr v s1(1) ts by (simp add: pct_handle_def Let_def)
qed

theorem pct_picks_highest_witness:
  "\<exists>e' s' seed' t. pct_handle (\<lambda>s. (2, s)) insertion_qsort ''pct'' (pct_sample_config\<lparr>pcc_chpts := 0\<rparr>) (event_cp 30 5 0) (sample_event\<lparr>e_is_chpt := True\<rparr>) (pct_sample, 1) =
     Inr (e', s', seed') \<and> tidset_get (e_tset e') 0 = Inr t \<and> the (map_find (pct_map s') 5) \<le> the (map_find (pct_map s') t)"
proof -
  let ?e = "sample_event\<lparr>e_is_chpt := True\<rparr>" and ?cfg = "pct_sample_config\<lparr>pcc_chpts := 0\<rparr>"
  have f: "map_find (pct_map pct_sample) 5 = Some 3" "map_find (pct_map pct_sample) 6 = Some 9"
    by (simp_all add: pct_sample_def map_find_map_of)
  have e: "e_selector ?e = SELECTOR_UNDEFINED" "\<not> e_readonly ?e" "e_is_chpt ?e" "\<not> e_skip ?e" "tidset_inv (e_tset ?e)"
    "tids (e_tset ?e) = {5, 6}" "1 < tidset_size (e_tset ?e)"
    using sample_event_simps by (simp_all add: sample_event_def zero_decision_def tidset_size_def)
  have c: "pcc_enabled ?cfg" "pcc_k ?cfg \<noteq> 0" "pct_chpts pct_sample \<le> pcc_chpts ?cfg" by (simp_all add: pct_sample_def pct_sample_config_def)
  have cp: "cp_id (event_cp 30 5 0) \<noteq> NO_TASK" "cp_type_id (event_cp 30 5 0) \<noteq> EVENT_TASK_FINI"
    "cp_type_id (event_cp 30 5 0) \<noteq> EVENT_TASK_INIT" "map_find (pct_map pct_sample) (cp_id (event_cp 30 5 0)) \<noteq> None"
    "tids (e_tset ?e) \<subseteq> dom (map_find (pct_map pct_sample))"
    using f e(6) by (auto simp: NO_TASK_def event_defs)
  from pct_picks_highest [OF iqsort.c_qsort_axioms c e(1-5,7) cp, of "\<lambda>s. (2, s)" 1] e(6)
  show ?thesis by auto
qed

end
