(* ===== verification/Tidbag.thy ===== *)
theory Tidbag
  imports Tidset
begin

text \<open>
  The task-id bag of \<^verbatim>\<open>src/base/tidbag.c\<close>: the same structure and buffer discipline as
  \<^verbatim>\<open>tidset.c\<close>, without the check for duplicates. The operations whose C bodies coincide with those of
  \<^verbatim>\<open>tidset.c\<close> are the same functions here; the others are written out. The lemmas relate the bag to
  a multiset, interpret the contract \<open>task_coll\<close>, and show what \<^verbatim>\<open>tidbag_equals\<close> and
  \<^verbatim>\<open>tidbag_unmarshal\<close> really do.
\<close>

section \<open>Operations\<close>

type_synonym tidbag = tidset

definition TIDBAG_INIT_SIZE :: nat where
  "TIDBAG_INIT_SIZE = 4"

definition tidbag_init_cap :: "nat \<Rightarrow> tidbag" where
  "tidbag_init_cap cap = \<lparr>ts_capacity = cap, ts_size = 0, ts_tasks = Some (malloc_cells cap)\<rparr>"

definition tidbag_init :: tidbag where
  "tidbag_init = tidbag_init_cap TIDBAG_INIT_SIZE"

definition tidbag_fini :: "tidbag \<Rightarrow> tidbag" where
  "tidbag_fini s = \<lparr>ts_capacity = 0, ts_size = 0, ts_tasks = None\<rparr>"

definition tidbag_size :: "tidbag \<Rightarrow> nat" where
  "tidbag_size s = ts_size s"

definition tidbag_clear :: "tidbag \<Rightarrow> tidbag" where
  "tidbag_clear s = s\<lparr>ts_size := 0\<rparr>"

definition tidbag_get :: "tidbag \<Rightarrow> nat \<Rightarrow> task_id result" where
  "tidbag_get s idx = tidset_get s idx"

text \<open>Unlike \<^verbatim>\<open>tidset_set\<close> this does not look for another occurrence of the identifier.\<close>

definition tidbag_set :: "tidbag \<Rightarrow> nat \<Rightarrow> task_id \<Rightarrow> tidbag result" where
  "tidbag_set s idx tid =
     (if ts_size s = 0 then Inr s
      else assertr (ts_tasks s \<noteq> None) (assertr (tid \<noteq> NO_TASK)
        (if idx \<ge> ts_size s then Inr s
         else bindr (wr (ts_tasks s) idx tid) (\<lambda>b. Inr (s\<lparr>ts_tasks := b\<rparr>)))))"

definition tidbag_remove :: "tidbag \<Rightarrow> task_id \<Rightarrow> tidbag result" where
  "tidbag_remove s tid =
     assertr (ts_size s = 0 \<or> ts_tasks s \<noteq> None)
       (if ts_size s = 0 then Inr s
        else bindr (tidset_remove_loop s tid 0) (\<lambda>(_, s'). Inr s'))"

definition tidbag_has :: "tidbag \<Rightarrow> task_id \<Rightarrow> bool result" where
  "tidbag_has s tid = tidset_has_loop s tid 0"

definition tidbag_expand :: "tidbag \<Rightarrow> nat \<Rightarrow> tidbag result" where
  "tidbag_expand s cap0 =
     (let cap = (if cap0 = 0 then TIDBAG_INIT_SIZE else cap0) in
      case ts_tasks s of
        None \<Rightarrow> Inr (tidbag_init_cap cap)
      | Some _ \<Rightarrow>
          if ts_size s > cap then Inr s
          else let tmp = tidbag_init_cap cap in
            bindr (memcpy (ts_tasks tmp) (ts_tasks s) (ts_size s)) (\<lambda>b.
              Inr (s\<lparr>ts_capacity := ts_capacity tmp, ts_tasks := b\<rparr>)))"

definition tidbag_insert :: "tidbag \<Rightarrow> task_id \<Rightarrow> tidbag result" where
  "tidbag_insert s tid =
     assertr (ts_size s = 0 \<or> ts_tasks s \<noteq> None)
       (bindr (if ts_size s + 1 > ts_capacity s
               then tidbag_expand s (ts_capacity s * 2) else Inr s) (\<lambda>s'.
        bindr (wr (ts_tasks s') (ts_size s') tid) (\<lambda>b.
          Inr (s'\<lparr>ts_size := ts_size s' + 1, ts_tasks := b\<rparr>))))"

definition tidbag_copy :: "tidbag \<Rightarrow> tidbag \<Rightarrow> tidbag result" where
  "tidbag_copy dst src =
     bindr (if ts_capacity dst < ts_capacity src
            then tidbag_expand dst (ts_capacity src) else Inr dst) (\<lambda>d.
     bindr (memcpy (ts_tasks d) (ts_tasks src) (ts_size src)) (\<lambda>b.
       Inr (d\<lparr>ts_size := ts_size src, ts_tasks := b\<rparr>)))"

definition tidbag_filter :: "tidbag \<Rightarrow> (task_id \<Rightarrow> bool) \<Rightarrow> tidbag result" where
  "tidbag_filter s P = tidset_keep_loop (\<lambda>t. Inr (P t)) s 0"

definition tidbag_equals :: "tidbag \<Rightarrow> tidbag \<Rightarrow> bool result" where
  "tidbag_equals s1 s2 =
     (if ts_size s2 \<noteq> ts_size s1 then Inr False
      else if ts_size s2 = 0 \<and> ts_size s1 = 0 then Inr True
      else tidset_contains_loop s1 s2 0)"

section \<open>Marshalling\<close>

text \<open>
  The buffer is a list of 8 byte cells. \<^verbatim>\<open>tidbag_marshal\<close> copies the whole structure: the six words of
  its \<^verbatim>\<open>marshable_t\<close> (\<open>hdr\<close>), capacity, size and the value \<open>ptr\<close> of the \<^verbatim>\<open>tasks\<close> pointer.
  \<^verbatim>\<open>tidbag_unmarshal\<close> copies that pointer value into the bag and then frees it if it is not null.
  \<open>live\<close> says which addresses are live allocations at that moment; freeing any other address is a
  fault.
\<close>

definition tidbag_msize :: "tidbag \<Rightarrow> nat" where
  "tidbag_msize s = 72 + 8 * ts_size s"

definition tidbag_marshal :: "64 word list \<Rightarrow> 64 word \<Rightarrow> tidbag \<Rightarrow> 64 word list result" where
  "tidbag_marshal hdr ptr s =
     bindr (memcpy (Some (malloc_cells (ts_size s))) (ts_tasks s) (ts_size s)) (\<lambda>b.
       Inr (hdr @ [of_nat (ts_capacity s), of_nat (ts_size s), ptr] @ the b))"

fun tidbag_unmarshal ::
  "(64 word \<Rightarrow> bool) \<Rightarrow> 64 word list \<Rightarrow> (tidbag \<times> 64 word list) result" where
  "tidbag_unmarshal live (h1 # h2 # h3 # h4 # h5 # h6 # c # n # p # buf) =
     assertr (unat n \<le> unat c)
       (if p \<noteq> 0 \<and> \<not> live p then Inl Fault
        else bindr (memcpy (Some (malloc_cells (unat c))) (Some buf) (unat n)) (\<lambda>b.
          Inr (\<lparr>ts_capacity = unat c, ts_size = unat n, ts_tasks = b\<rparr>, drop (unat n) buf)))"
| "tidbag_unmarshal live buf = Inl Fault"

section \<open>Lemmas\<close>

abbreviation tidbag_inv :: "tidbag \<Rightarrow> bool" where
  "tidbag_inv \<equiv> tidset_wf"

abbreviation tidbag_mset :: "tidbag \<Rightarrow> task_id multiset" where
  "tidbag_mset s \<equiv> mset (tidset_list s)"

lemma tidbag_wf_simps [simp]:
  "tidset_wf (tidbag_init_cap c)" "tidset_list (tidbag_init_cap c) = []"
  "tidset_wf tidbag_init" "tidset_list tidbag_init = []"
  "tidset_wf (tidbag_fini s)" "tidset_list (tidbag_fini s) = []"
  "tidset_wf s \<Longrightarrow> tidset_wf (tidbag_clear s)" "tidset_list (tidbag_clear s) = []"
  by (auto simp: tidset_wf_def tidset_list_def tidbag_init_cap_def tidbag_init_def tidbag_fini_def
      tidbag_clear_def split: option.splits)

lemma tidbag_expand_wf:
  assumes "tidset_wf s" and "ts_size s \<le> cap"
  shows "tidbag_expand s cap = tidset_expand s cap"
  using assms
  by (auto simp: tidbag_expand_def tidset_expand_def tidbag_init_cap_def tidset_init_cap_def
      TIDBAG_INIT_SIZE_def TIDSET_INIT_SIZE_def Let_def split: option.split)

lemma tidbag_copy_wf:
  assumes "tidset_wf d" and "tidset_wf s"
  shows "tidbag_copy d s = tidset_copy d s"
proof -
  have "ts_size d \<le> ts_capacity d" using assms by (simp add: tidset_wf_def)
  then show ?thesis
    using tidbag_expand_wf [OF assms(1), of "ts_capacity s"]
    by (simp add: tidbag_copy_def tidset_copy_def)
qed

lemma tidbag_insert_wf:
  assumes "tidset_wf s"
  shows "\<exists>s'. tidbag_insert s t = Inr s' \<and> tidset_wf s' \<and> tidset_list s' = tidset_list s @ [t]"
proof -
  let ?e = "if ts_size s + 1 > ts_capacity s then tidbag_expand s (ts_capacity s * 2) else Inr s"
  have sz: "ts_size s \<le> ts_capacity s" and a: "ts_size s = 0 \<or> ts_tasks s \<noteq> None"
    using assms by (auto simp: tidset_wf_def)
  obtain s1 where s1: "?e = Inr s1" "tidset_wf s1" "tidset_list s1 = tidset_list s"
      "ts_size s1 = ts_size s" "ts_size s1 < ts_capacity s1"
  proof (cases "ts_size s + 1 > ts_capacity s")
    case True
    obtain s1 where "tidset_expand s (ts_capacity s * 2) = Inr s1" "tidset_wf s1"
        "tidset_list s1 = tidset_list s" "ts_size s1 = ts_size s"
        "ts_capacity s1 = (if ts_capacity s * 2 = 0 then TIDSET_INIT_SIZE else ts_capacity s * 2)"
      using tidset_expand_wf [OF assms, of "ts_capacity s * 2"] sz by auto
    with True sz that [of s1] tidbag_expand_wf [OF assms, of "ts_capacity s * 2"] show ?thesis
      by (auto simp: TIDSET_INIT_SIZE_def split: if_splits)
  next
    case False
    with that [of s] assms show ?thesis by auto
  qed
  with tidset_append_wf [OF s1(2,5), of t] a show ?thesis
    by (auto simp: tidbag_insert_def)
qed

lemma tidbag_remove_wf:
  assumes "tidset_wf s"
  shows "\<exists>s'. tidbag_remove s t = Inr s' \<and> tidset_wf s' \<and> tidbag_mset s' = tidbag_mset s - {#t#}"
proof (cases "ts_size s = 0")
  case True
  with assms have "tidset_list s = []" by (metis length_0_conv length_tidset_list)
  with True assms show ?thesis by (auto simp: tidbag_remove_def)
next
  case False
  with assms have "ts_tasks s \<noteq> None" by (auto simp: tidset_wf_def split: option.splits)
  with False tidset_remove_loop_wf [OF assms, of t 0] show ?thesis
    by (auto simp: tidbag_remove_def diff_single_trivial)
qed

lemma tidbag_filter_wf:
  assumes "tidset_wf s"
  shows "\<exists>s'. tidbag_filter s P = Inr s' \<and> tidset_wf s' \<and> tidbag_mset s' = filter_mset P (tidbag_mset s)"
  using tidset_keep_loop_wf [of 0 s "\<lambda>t. Inr (P t)" P] assms
  by (auto simp: tidbag_filter_def)

lemma tidbag_set_wf:
  assumes "tidset_wf s" and "idx < ts_size s" and "t \<noteq> NO_TASK"
  shows "\<exists>s'. tidbag_set s idx t = Inr s' \<and> tidset_wf s' \<and> tidset_list s' = (tidset_list s)[idx := t]"
proof -
  have "ts_tasks s \<noteq> None" using assms by (auto simp: tidset_wf_def split: option.splits)
  with assms tidset_write_wf [OF assms(1,2), of t] show ?thesis
    by (auto simp: tidbag_set_def)
qed

text \<open>\<^verbatim>\<open>tidbag_equals\<close> compares the sizes and tests that every element of the second bag occurs in the first.\<close>

lemma tidbag_equals_wf:
  assumes "tidset_wf s1" and "tidset_wf s2"
  shows "tidbag_equals s1 s2 =
    Inr (size (tidbag_mset s1) = size (tidbag_mset s2) \<and> tids s2 \<subseteq> tids s1)"
proof -
  have l: "length (tidset_list s1) = ts_size s1" "length (tidset_list s2) = ts_size s2"
    using assms by simp_all
  show ?thesis
  proof (cases "ts_size s2 = 0")
    case True
    with l have "tids s2 = {}" by (auto simp: tids_def)
    with True l show ?thesis by (auto simp: tidbag_equals_def)
  next
    case False
    with l tidset_contains_loop_wf [OF assms, of 0] show ?thesis
      by (auto simp: tidbag_equals_def tids_def)
  qed
qed

interpretation tb: task_coll tidbag_mset tidset_wf tidbag_has tidbag_remove tidbag_filter
proof unfold_locales
  fix s :: tidbag and t and P :: "task_id \<Rightarrow> bool"
  assume i: "tidset_wf s"
  show "tidbag_has s t = Inr (t \<in># tidbag_mset s)"
    using tidset_has_loop_wf [OF i] by (simp add: tidbag_has_def)
  show "\<exists>c'. tidbag_remove s t = Inr c' \<and> tidset_wf c' \<and> tidbag_mset c' = tidbag_mset s - {#t#}"
    by (rule tidbag_remove_wf [OF i])
  show "\<exists>c'. tidbag_filter s P = Inr c' \<and> tidset_wf c' \<and> tidbag_mset c' = filter_mset P (tidbag_mset s)"
    by (rule tidbag_filter_wf [OF i])
qed

lemma tidbag_unmarshal_marshal:
  assumes "tidset_wf s" and "ts_capacity s < 2 ^ 64" and "length hdr = 6" and "ptr = 0 \<or> live ptr"
  shows "\<exists>buf. tidbag_marshal hdr ptr s = Inr buf \<and> 8 * length buf = tidbag_msize s \<and>
    (\<exists>s'. tidbag_unmarshal live (buf @ rest) = Inr (s', rest) \<and> tidset_wf s' \<and>
       tidset_list s' = tidset_list s)"
proof -
  let ?n = "ts_size s" and ?c = "ts_capacity s"
  have nc: "?n \<le> ?c" and len: "length (tidset_list s) = ?n"
    using assms(1) by (auto simp: tidset_wf_def)
  have m: "tidbag_marshal hdr ptr s = Inr (hdr @ [of_nat ?c, of_nat ?n, ptr] @ tidset_list s)"
  proof (cases "?n = 0")
    case False
    with assms(1) show ?thesis by (auto elim!: tidset_wfE simp: tidbag_marshal_def memcpy_Some)
  qed (use len in \<open>simp add: tidbag_marshal_def malloc_cells_def\<close>)
  obtain h1 h2 h3 h4 h5 h6 where h: "hdr = [h1, h2, h3, h4, h5, h6]"
    using assms(3) by (auto simp: numeral_eq_Suc length_Suc_conv)
  have u: "unat (of_nat ?c :: 64 word) = ?c" "unat (of_nat ?n :: 64 word) = ?n"
    using assms(2) nc by (auto simp: unat_of_nat64)
  have b: "memcpy (Some (malloc_cells ?c)) (Some (tidset_list s @ rest)) ?n =
      Inr (Some (tidset_list s @ drop ?n (malloc_cells ?c)))"
    using memcpy_Some [of ?n "malloc_cells ?c" "tidset_list s @ rest"] nc len by simp
  have "tidbag_unmarshal live ((hdr @ [of_nat ?c, of_nat ?n, ptr] @ tidset_list s) @ rest) =
      Inr (\<lparr>ts_capacity = ?c, ts_size = ?n, ts_tasks = Some (tidset_list s @ drop ?n (malloc_cells ?c))\<rparr>, rest)"
    using assms(4) by (auto simp: h u nc b len)
  with m len nc assms(3) show ?thesis
    by (auto simp: tidbag_msize_def tidset_wf_def tidset_list_def)
qed

section \<open>Properties\<close>

text \<open>
  Through every operation a task-id bag stays inside its buffer and behaves as the multiset
  of the identifiers it holds: insertion appends one occurrence, removal takes one away, the filter
  keeps exactly the occurrences that satisfy the predicate, a copy is equal, membership is multiset
  membership.
\<close>

theorem tidbag_refines_multiset:
  assumes "tidset_wf s" and "tidset_wf d"
  shows "(\<exists>s'. tidbag_insert s t = Inr s' \<and> tidset_wf s' \<and> tidbag_mset s' = add_mset t (tidbag_mset s)) \<and>
    (\<exists>s'. tidbag_remove s t = Inr s' \<and> tidset_wf s' \<and> tidbag_mset s' = tidbag_mset s - {#t#}) \<and>
    (\<exists>s'. tidbag_filter s P = Inr s' \<and> tidset_wf s' \<and> tidbag_mset s' = filter_mset P (tidbag_mset s)) \<and>
    (\<exists>s'. tidbag_copy d s = Inr s' \<and> tidset_wf s' \<and> tidset_list s' = tidset_list s) \<and>
    tidbag_has s t = Inr (t \<in># tidbag_mset s) \<and> tidbag_size s = size (tidbag_mset s)"
proof (intro conjI)
  show "\<exists>s'. tidbag_insert s t = Inr s' \<and> tidset_wf s' \<and> tidbag_mset s' = add_mset t (tidbag_mset s)"
    using tidbag_insert_wf [OF assms(1), of t] by auto
  show "\<exists>s'. tidbag_copy d s = Inr s' \<and> tidset_wf s' \<and> tidset_list s' = tidset_list s"
    using tidset_copy_wf [OF assms(2,1)] by (simp add: tidbag_copy_wf [OF assms(2,1)])
  show "tidbag_size s = size (tidbag_mset s)"
    using assms(1) by (simp add: tidbag_size_def)
qed (rule tidbag_remove_wf tidbag_filter_wf tb.has_law; fact assms(1))+

theorem tidbag_refines_multiset_witness:
  "\<exists>s'. tidbag_insert \<lparr>ts_capacity = 1, ts_size = 1, ts_tasks = Some [5]\<rparr> 5 = Inr s' \<and>
     tidbag_mset s' = {#5, 5#}"
proof -
  let ?s = "\<lparr>ts_capacity = 1, ts_size = 1, ts_tasks = Some [5]\<rparr>"
  have "tidset_wf ?s" by (simp add: tidset_wf_def)
  from tidbag_refines_multiset [OF this this, of 5 "\<lambda>_. True"]
  have "\<exists>s'. tidbag_insert ?s 5 = Inr s' \<and> tidset_wf s' \<and> tidbag_mset s' = add_mset 5 (tidbag_mset ?s)"
    by (rule conjunct1)
  then show ?thesis by (auto simp: tidset_list_def)
qed

text \<open>
  \<^verbatim>\<open>tidbag_equals\<close> is not equality of bags: it holds of two bags with different contents, and
  it is not symmetric.
\<close>

theorem tidbag_equals_not_equality:
  "\<exists>s1 s2. tidset_wf s1 \<and> tidset_wf s2 \<and> tidbag_equals s1 s2 = Inr True \<and>
     tidbag_equals s2 s1 = Inr False \<and> tidbag_mset s1 \<noteq> tidbag_mset s2"
proof (intro exI conjI)
  let ?s1 = "\<lparr>ts_capacity = 2, ts_size = 2, ts_tasks = Some [1, 2]\<rparr>"
  let ?s2 = "\<lparr>ts_capacity = 2, ts_size = 2, ts_tasks = Some [1, 1]\<rparr>"
  show wf: "tidset_wf ?s1" "tidset_wf ?s2" by (simp_all add: tidset_wf_def)
  have l: "tidset_list ?s1 = [1, 2]" "tidset_list ?s2 = [1, 1]" by (simp_all add: tidset_list_def)
  show "tidbag_equals ?s1 ?s2 = Inr True"
    using tidbag_equals_wf [OF wf] by (simp add: l tids_def)
  show "tidbag_equals ?s2 ?s1 = Inr False"
    using tidbag_equals_wf [OF wf(2,1)] by (simp add: l tids_def)
  show "tidbag_mset ?s1 \<noteq> tidbag_mset ?s2" by (simp add: l)
qed

end
