(* ===== verification/Observers.thy ===== *)
theory Observers
  imports Handler_Base Tidbag
begin

text \<open>
  Handlers that watch the run or fix the order of the candidates: available, busyabort, terminate,
  region filter and region preemption (\<^verbatim>\<open>modules/*/src/handler.c\<close>), each with its state and its configuration.
\<close>

section \<open>available\<close>

definition available_handle :: "bool \<Rightarrow> tidset handler" where
  "available_handle enabled cp e s =
     (if \<not> enabled then Inr (e, s) else bindr (tidset_copy s (e_tset e)) (\<lambda>s. Inr (e, s)))"

section \<open>busyabort\<close>

text \<open>\<open>is_memaccess\<close> belongs to the interception library.\<close>

record busyabort_config =
  bc_enabled :: bool
  bc_threshold :: "64 word"

record busy_state =
  bu_last_tid :: task_id
  bu_last_type_id :: type_id
  bu_last_pc :: "64 word"
  bu_repeat_count :: "64 word"

definition busyabort_handle :: "(type_id \<Rightarrow> bool) \<Rightarrow> busyabort_config \<Rightarrow> busy_state handler" where
  "busyabort_handle is_memaccess cfg cp e s =
     (if \<not> bc_enabled cfg \<or> \<not> is_memaccess (cp_type_id cp) \<or> bc_threshold cfg = 0 then Inr (e, s)
      else
        let s = (if bu_last_tid s = cp_id cp \<and> bu_last_type_id s = cp_type_id cp \<and> bu_last_pc s = cp_pc cp
                 then s\<lparr>bu_repeat_count := bu_repeat_count s + 1\<rparr>
                 else \<lparr>bu_last_tid = cp_id cp, bu_last_type_id = cp_type_id cp, bu_last_pc = cp_pc cp, bu_repeat_count = 1\<rparr>) in
        if bu_repeat_count s < bc_threshold cfg then Inr (e, s) else Inl Fatal)"

section \<open>terminate\<close>

definition EVENT_TERMINATE_SUCCESS :: type_id where "EVENT_TERMINATE_SUCCESS = 183"
definition EVENT_TERMINATE_FAILURE :: type_id where "EVENT_TERMINATE_FAILURE = 184"
definition EVENT_TERMINATE_ABANDON :: type_id where "EVENT_TERMINATE_ABANDON = 185"

lemmas terminate_event_defs = EVENT_TERMINATE_SUCCESS_def EVENT_TERMINATE_FAILURE_def EVENT_TERMINATE_ABANDON_def

datatype terminate_mode = TERMINATE_MODE_NONE | TERMINATE_MODE_CLK | TERMINATE_MODE_CHPT | TERMINATE_MODE_PREEMPT
  | TERMINATE_MODE_REPLAY | TERMINATE_MODE_TIME

record terminate_config =
  tc_mode :: terminate_mode
  tc_limit :: nat

text \<open>The counters count events and cannot reach the end of their 64 bits in a run.\<close>

record terminate_state =
  tm_cur_chpt :: nat
  tm_cur_preempt :: nat
  tm_last :: task_id

definition terminate_init :: terminate_state where
  "terminate_init = \<lparr>tm_cur_chpt = 0, tm_cur_preempt = 0, tm_last = 0\<rparr>"

text \<open>\<open>now\<close> is the result of \<^verbatim>\<open>time(NULL)\<close>.\<close>

definition terminate_due :: "terminate_config \<Rightarrow> nat \<Rightarrow> decision \<Rightarrow> terminate_state \<Rightarrow> bool" where
  "terminate_due cfg now e s =
     (case tc_mode cfg of
        TERMINATE_MODE_CLK \<Rightarrow> e_clk e > tc_limit cfg
      | TERMINATE_MODE_CHPT \<Rightarrow> tm_cur_chpt s > tc_limit cfg
      | TERMINATE_MODE_PREEMPT \<Rightarrow> tm_cur_preempt s > tc_limit cfg
      | TERMINATE_MODE_TIME \<Rightarrow> now > tc_limit cfg
      | TERMINATE_MODE_REPLAY \<Rightarrow> \<not> e_replay e
      | TERMINATE_MODE_NONE \<Rightarrow> False)"

definition termination_handle :: "terminate_config \<Rightarrow> nat \<Rightarrow> terminate_state handler" where
  "termination_handle cfg now cp e s =
     (if cp_type_id cp = EVENT_TERMINATE_SUCCESS then Inr (e\<lparr>e_reason := REASON_SUCCESS\<rparr>, s)
      else if cp_type_id cp = EVENT_TERMINATE_FAILURE then Inr (e\<lparr>e_reason := REASON_ASSERT_FAIL\<rparr>, s)
      else if cp_type_id cp = EVENT_TERMINATE_ABANDON then Inr (e\<lparr>e_reason := REASON_SUCCESS\<rparr>, s)
      else if reason_is_shutdown (e_reason e) then Inr (e, s)
      else
        let s = (if e_is_chpt e then s\<lparr>tm_cur_chpt := tm_cur_chpt s + 1\<rparr> else s);
            s = (if e_next e \<noteq> tm_last s \<and> tm_last s > 0 then s\<lparr>tm_cur_preempt := tm_cur_preempt s + 1\<rparr> else s) in
        Inr (if terminate_due cfg now e s then e\<lparr>e_reason := REASON_SHUTDOWN\<rparr> else e, s))"

section \<open>region filter\<close>

definition EVENT_REGION_PREEMPTION_IN :: type_id where "EVENT_REGION_PREEMPTION_IN = 198"
definition EVENT_REGION_PREEMPTION_OUT :: type_id where "EVENT_REGION_PREEMPTION_OUT = 199"

definition region_filter_handle :: "bool \<Rightarrow> tidbag handler" where
  "region_filter_handle enabled cp e s =
     assertr (cp_id cp \<noteq> NO_TASK)
       (if \<not> enabled then Inr (e, s)
        else let t = (if cp_vid cp \<noteq> NO_TASK then cp_vid cp else cp_id cp) in
          bindr (if cp_type_id cp = EVENT_REGION_PREEMPTION_IN then tidbag_insert s t
                 else if cp_type_id cp = EVENT_REGION_PREEMPTION_OUT
                   then tidbag_remove s t
                 else Inr s) (\<lambda>s.
          bindr (tidbag_has s t) (\<lambda>h. Inr (if h then e\<lparr>e_filter_less := True\<rparr> else e, s))))"

section \<open>region preemption\<close>

record region_config =
  rg_enabled :: bool
  rg_default_on :: bool

record region_state =
  rg_map :: "nat map_t"
  rg_task :: task_id
  rg_warned :: bool
  rg_warn :: bool

definition region_clear_task :: "task_id \<Rightarrow> region_state \<Rightarrow> region_state" where
  "region_clear_task t s = (if rg_task s = t then s\<lparr>rg_task := NO_TASK\<rparr> else s)"

definition exit_region :: "task_id \<Rightarrow> region_state \<Rightarrow> region_state result" where
  "exit_region t s =
     bindr (tidmap_find (rg_map s) t) (\<lambda>c.
       case c of
         None \<Rightarrow> Inl AssertFailed
       | Some n \<Rightarrow> assertr (n > 0)
           (bindr (if n - 1 = 0 then tidmap_deregister (rg_map s) t else Inr (map_write (rg_map s) t (n - 1))) (\<lambda>m.
              Inr (region_clear_task t (s\<lparr>rg_map := m\<rparr>)))))"

definition exit_task :: "task_id \<Rightarrow> region_state \<Rightarrow> region_state result" where
  "exit_task t s = bindr (tidmap_deregister (rg_map s) t) (\<lambda>m. Inr (region_clear_task t (s\<lparr>rg_map := m\<rparr>)))"

definition enter_region :: "region_state \<Rightarrow> region_state result" where
  "enter_region s =
     (if rg_task s = NO_TASK then Inr s
      else bindr (tidmap_find (rg_map s) (rg_task s)) (\<lambda>c.
           bindr (if c = None then tidmap_register 0 (rg_map s) (rg_task s) else Inr (rg_map s)) (\<lambda>m.
             Inr (s\<lparr>rg_map := map_write m (rg_task s) ((case c of None \<Rightarrow> 0 | Some n \<Rightarrow> n) + 1), rg_task := NO_TASK\<rparr>))))"

definition region_check :: "region_config \<Rightarrow> task_id \<Rightarrow> region_state \<Rightarrow> region_state result" where
  "region_check cfg t s =
     (if \<not> rg_warn s \<or> \<not> rg_default_on cfg \<or> map_size (rg_map s) = 0 then Inr s
      else bindr (tidmap_find (rg_map s) t) (\<lambda>c. Inr (if c = None then s\<lparr>rg_warned := True\<rparr> else s)))"

text \<open>The choice of the current task; the first component is the new value of \<^verbatim>\<open>_warn\<close>.\<close>

definition region_first :: "region_config \<Rightarrow> capture_point \<Rightarrow> decision \<Rightarrow> bool \<Rightarrow> (bool \<times> decision) result" where
  "region_first cfg cp e in_region =
     bindr (if \<not> e_readonly e \<and> e_selector e = SELECTOR_UNDEFINED \<and> in_region = rg_default_on cfg
            then tidset_has (e_tset e) (cp_id cp) else Inr False) (\<lambda>h.
       if h \<and> \<not> e_skip e
       then bindr (tidset_make_first (e_tset e) (cp_id cp)) (\<lambda>ts.
              Inr (True, e\<lparr>e_selector := SELECTOR_FIRST, e_readonly := True, e_tset := ts\<rparr>))
       else Inr (False, e))"

definition region_preemption_handle :: "region_config \<Rightarrow> region_state handler" where
  "region_preemption_handle cfg cp e s =
     assertr (cp_id cp \<noteq> NO_TASK)
       (if \<not> rg_enabled cfg then Inr (e, s)
        else
          bindr (region_check cfg (cp_id cp) s) (\<lambda>s.
          bindr (if cp_type_id cp = EVENT_REGION_PREEMPTION_OUT then exit_region (cp_id cp) s
                 else if cp_type_id cp = EVENT_TASK_FINI then exit_task (cp_id cp) s else Inr s) (\<lambda>s.
          bindr (tidmap_find (rg_map s) (cp_id cp)) (\<lambda>c.
          bindr (region_first cfg cp e (c \<noteq> None)) (\<lambda>(w, e).
          bindr (enter_region (s\<lparr>rg_warn := w\<rparr>)) (\<lambda>s.
            if cp_type_id cp = EVENT_REGION_PREEMPTION_IN
            then assertr (rg_task s = NO_TASK) (Inr (e, s\<lparr>rg_task := cp_id cp\<rparr>))
            else Inr (e, s)))))))"

section \<open>The handler contract\<close>

interpretation available_h: capture_handler "available_handle enabled"
  by unfold_locales (auto simp: available_handle_def result_elims split: if_splits)

interpretation busyabort_h: capture_handler "busyabort_handle is_memaccess cfg"
  by unfold_locales (auto simp: busyabort_handle_def Let_def split: if_splits)

interpretation termination_h: capture_handler "termination_handle cfg now"
  by unfold_locales (auto simp: termination_handle_def Let_def split: if_splits)

interpretation region_filter_h: capture_handler "region_filter_handle enabled"
  by unfold_locales (auto simp: region_filter_handle_def Let_def result_elims split: if_splits)

lemma region_first_frame:
  "region_first cfg cp e r = Inr (w, e') \<Longrightarrow> e_clk e' = e_clk e \<and> e_replay e' = e_replay e \<and>
     (tidset_inv (e_tset e) \<longrightarrow> tidset_inv (e_tset e') \<and> tids (e_tset e') \<subseteq> tids (e_tset e))"
  by (auto simp: region_first_def result_elims dest!: make_first_keeps split: if_splits)

lemma region_decision:
  assumes "region_preemption_handle cfg cp e s = Inr (e', s')"
  shows "e' = e \<or> (\<exists>r w. region_first cfg cp e r = Inr (w, e'))"
proof (cases "rg_enabled cfg")
  case True
  with assms obtain w e1 s1 r where "region_first cfg cp e r = Inr (w, e1)"
    "(if cp_type_id cp = EVENT_REGION_PREEMPTION_IN then assertr (rg_task s1 = NO_TASK) (Inr (e1, s1\<lparr>rg_task := cp_id cp\<rparr>))
      else Inr (e1, s1)) = Inr (e', s')"
    unfolding region_preemption_handle_def by (auto simp: assertr_eq_Inr simp del: split_paired_All elim!: bindrE split del: if_split)
  then show ?thesis by (auto simp: assertr_eq_Inr split: if_splits)
qed (use assms in \<open>simp add: region_preemption_handle_def assertr_eq_Inr\<close>)

interpretation region_preemption_h: capture_handler "region_preemption_handle cfg"
  by unfold_locales (auto dest!: region_decision region_first_frame)

section \<open>Properties\<close>

text \<open>
  The busy loop detector stops the program at exactly the configured number of repetitions: after
  any other access, the same memory access of the same task at the same place may be repeated
  fewer times than the threshold without an effect on the decisions, and the run that reaches the threshold
  ends with a fatal error.
\<close>

theorem busyabort_at_threshold:
  assumes "bc_enabled cfg" and "is_memaccess (cp_type_id cp)" and "bc_threshold cfg \<noteq> 0"
    and "\<not> (bu_last_tid s = cp_id cp \<and> bu_last_type_id s = cp_type_id cp \<and> bu_last_pc s = cp_pc cp)"
  shows "if k < unat (bc_threshold cfg)
    then \<exists>s'. handle_events (busyabort_handle is_memaccess cfg) (replicate k (cp, e)) s = Inr (replicate k e, s')
    else handle_events (busyabort_handle is_memaccess cfg) (replicate k (cp, e)) s = Inl Fatal"
proof -
  let ?h = "busyabort_handle is_memaccess cfg" and ?th = "unat (bc_threshold cfg)"
  let ?s = "\<lambda>n. \<lparr>bu_last_tid = cp_id cp, bu_last_type_id = cp_type_id cp, bu_last_pc = cp_pc cp, bu_repeat_count = of_nat n\<rparr>"
  have th: "0 < ?th" "?th < 2 ^ 64" using assms(3) unat_le_word [of "bc_threshold cfg"] by (auto simp: unat_gt_0)
  have lt: "(of_nat n :: 64 word) < bc_threshold cfg \<longleftrightarrow> n < ?th" if "n \<le> ?th" for n
    using that th(2) unat_of_nat64 [of n] by (simp add: word_less_nat_alt)
  have step: "?h cp e (?s n) = (if Suc n < ?th then Inr (e, ?s (Suc n)) else Inl Fatal)" if "n < ?th" for n
    using that assms(1-3) lt [of "Suc n"] by (simp add: busyabort_handle_def Let_def add.commute)
  have first: "?h cp e s = (if 1 < ?th then Inr (e, ?s 1) else Inl Fatal)"
    using assms lt [of 1] th(1) by (auto simp: busyabort_handle_def Let_def)
  have run: "n + j < ?th \<longrightarrow> (\<exists>s'. handle_events ?h (replicate j (cp, e)) (?s n) = Inr (replicate j e, s'))"
    "n < ?th \<longrightarrow> ?th \<le> n + j \<longrightarrow> handle_events ?h (replicate j (cp, e)) (?s n) = Inl Fatal" for n j
  proof (induction j arbitrary: n)
    case (Suc j)
    { case 1
      show ?case using Suc(1) [of "Suc n"] step [of n] by auto }
    { case 2
      show ?case using Suc(2) [of "Suc n"] step [of n] by auto }
  qed simp_all
  show ?thesis
  proof (cases k)
    case 0
    with th show ?thesis by simp
  next
    case (Suc j)
    then show ?thesis using first run [of 1 j] by auto
  qed
qed

theorem busyabort_at_threshold_witness:
  "handle_events (busyabort_handle (\<lambda>ty. ty = 30) \<lparr>bc_enabled = True, bc_threshold = 3\<rparr>) (replicate 3 (event_cp 30 5 0, sample_event))
     \<lparr>bu_last_tid = 0, bu_last_type_id = 0, bu_last_pc = 0, bu_repeat_count = 0\<rparr> = Inl Fatal"
  using busyabort_at_threshold [of "\<lparr>bc_enabled = True, bc_threshold = 3\<rparr>" "\<lambda>ty. ty = 30" "event_cp 30 5 0"
      "\<lparr>bu_last_tid = 0, bu_last_type_id = 0, bu_last_pc = 0, bu_repeat_count = 0\<rparr>" 3 sample_event]
  by simp

text \<open>
  The limit on the number of preemptions has no effect: the variable that should hold the last task
  is never written, so no preemption is ever counted, and in the mode \<^verbatim>\<open>TERMINATE_MODE_PREEMPT\<close> the handler
  changes the reason of an event only for the explicit termination events.
\<close>

theorem terminate_preempt_ineffective:
  assumes "handle_events (termination_handle \<lparr>tc_mode = TERMINATE_MODE_PREEMPT, tc_limit = n\<rparr> now) evs s = Inr (es, s')"
    and "tm_last s = 0" and "tm_cur_preempt s = 0"
  shows "tm_cur_preempt s' = 0 \<and> tm_last s' = 0 \<and>
    list_all2 (\<lambda>(cp, e) e'. cp_type_id cp \<notin> {EVENT_TERMINATE_SUCCESS, EVENT_TERMINATE_FAILURE, EVENT_TERMINATE_ABANDON} \<longrightarrow>
       e_reason e' = e_reason e) evs es"
  using assms
proof (induction evs arbitrary: s es)
  case (Cons ev evs)
  obtain cp e where p: "ev = (cp, e)" by (cases ev)
  let ?cfg = "\<lparr>tc_mode = TERMINATE_MODE_PREEMPT, tc_limit = n\<rparr>"
  from Cons.prems(1) p obtain e1 s1 es1 where h: "termination_handle ?cfg now cp e s = Inr (e1, s1)"
      "handle_events (termination_handle ?cfg now) evs s1 = Inr (es1, s')" "es = e1 # es1"
    by (auto simp: bindr_eq_Inr)
  have "tm_last s1 = 0 \<and> tm_cur_preempt s1 = 0 \<and>
      (cp_type_id cp \<notin> {EVENT_TERMINATE_SUCCESS, EVENT_TERMINATE_FAILURE, EVENT_TERMINATE_ABANDON} \<longrightarrow> e_reason e1 = e_reason e)"
    using h(1) Cons.prems(2,3) by (auto simp: termination_handle_def terminate_due_def Let_def split: if_splits)
  with Cons.IH [OF h(2)] h(3) p show ?case by simp
qed simp

theorem terminate_preempt_ineffective_witness:
  "\<exists>es s'. handle_events (termination_handle \<lparr>tc_mode = TERMINATE_MODE_PREEMPT, tc_limit = 0\<rparr> 0)
       [(event_cp 30 5 0, sample_event\<lparr>e_next := 6\<rparr>), (event_cp 30 6 0, sample_event\<lparr>e_next := 5\<rparr>)] terminate_init = Inr (es, s') \<and>
     tm_cur_preempt s' = 0"
proof -
  let ?evs = "[(event_cp 30 5 0, sample_event\<lparr>e_next := 6\<rparr>), (event_cp 30 6 0, sample_event\<lparr>e_next := 5\<rparr>)]"
  have "\<exists>es s'. handle_events (termination_handle \<lparr>tc_mode = TERMINATE_MODE_PREEMPT, tc_limit = 0\<rparr> 0) ?evs terminate_init = Inr (es, s')"
    by (simp add: termination_handle_def Let_def terminate_event_defs)
  then obtain es s' where r: "handle_events (termination_handle \<lparr>tc_mode = TERMINATE_MODE_PREEMPT, tc_limit = 0\<rparr> 0) ?evs terminate_init = Inr (es, s')"
    by blast
  have "tm_last terminate_init = 0" "tm_cur_preempt terminate_init = 0" by (simp_all add: terminate_init_def)
  from terminate_preempt_ineffective [OF r this] r show ?thesis by blast
qed

text \<open>
  Atomic regions. While a task is inside a region (with regions atomic by default), every event of
  the task that is still open ends with the task first in the candidates, the first candidate selected
  and the decision closed, so that no later handler can preempt it; the nesting depth does not change.
\<close>

theorem region_keeps_task_first:
  assumes "rg_enabled cfg" and "rg_default_on cfg" and "cp_id cp \<noteq> NO_TASK" and "map_find (rg_map s) (cp_id cp) = Some n"
    and "cp_type_id cp \<notin> {EVENT_REGION_PREEMPTION_OUT, EVENT_REGION_PREEMPTION_IN, EVENT_TASK_FINI}" and "rg_task s = NO_TASK"
    and "\<not> e_readonly e" and "e_selector e = SELECTOR_UNDEFINED" and "\<not> e_skip e"
    and "tidset_inv (e_tset e)" and "cp_id cp \<in> tids (e_tset e)"
  shows "\<exists>e' s'. region_preemption_handle cfg cp e s = Inr (e', s') \<and> tidset_get (e_tset e') 0 = Inr (cp_id cp) \<and>
    tids (e_tset e') = tids (e_tset e) \<and> e_selector e' = SELECTOR_FIRST \<and> e_readonly e' \<and>
    map_find (rg_map s') (cp_id cp) = Some n"
proof -
  have "\<exists>w. region_check cfg (cp_id cp) s = Inr (s\<lparr>rg_warned := w\<rparr>)"
    using assms(3,4) by (auto simp: region_check_def tidmap_find_def intro!: exI [of _ "rg_warned s"])
  then obtain w where w: "region_check cfg (cp_id cp) s = Inr (s\<lparr>rg_warned := w\<rparr>)" by blast
  obtain ts where ts: "tidset_make_first (e_tset e) (cp_id cp) = Inr ts" "tids ts = tids (e_tset e)" "tidset_get ts 0 = Inr (cp_id cp)"
    using tidset_make_first_inv [OF assms(10), of "cp_id cp"] assms(11) by auto
  show ?thesis
    using assms w ts
    by (simp add: region_preemption_handle_def region_first_def tidmap_find_def tidset_has_inv enter_region_def)
qed

definition region_sample :: region_state where
  "region_sample = \<lparr>rg_map = \<lparr>map_chain = [(6, 1)], map_nitems = 1\<rparr>, rg_task = NO_TASK, rg_warned = False, rg_warn = False\<rparr>"

theorem region_keeps_task_first_witness:
  "\<exists>e' s'. region_preemption_handle \<lparr>rg_enabled = True, rg_default_on = True\<rparr> (event_cp 30 6 0) sample_event region_sample = Inr (e', s') \<and>
     tidset_get (e_tset e') 0 = Inr 6"
proof -
  have "(6 :: task_id) \<noteq> NO_TASK" "map_find (rg_map region_sample) 6 = Some 1" "rg_task region_sample = NO_TASK"
    "\<not> e_readonly sample_event" "e_selector sample_event = SELECTOR_UNDEFINED"
    "(30 :: type_id) \<notin> {EVENT_REGION_PREEMPTION_OUT, EVENT_REGION_PREEMPTION_IN, EVENT_TASK_FINI}"
    by (simp_all add: NO_TASK_def region_sample_def map_find_map_of sample_event_def zero_decision_def
        EVENT_REGION_PREEMPTION_IN_def EVENT_REGION_PREEMPTION_OUT_def event_defs)
  with region_keeps_task_first [of "\<lparr>rg_enabled = True, rg_default_on = True\<rparr>" "event_cp 30 6 0" region_sample 1 sample_event]
  show ?thesis by (auto simp: sample_event_simps)
qed

end
