(* ===== verification/Blocking.thy ===== *)
theory Blocking
  imports Handler_Base
begin

text \<open>
  The blocking module, \<^verbatim>\<open>modules/blocking/src/handler.c\<close>, and the impasse module that asks it whether a
  task is inside a blocking call. A task that enters a blocking call leaves the candidates until the
  sequencer reports its return. During a replay a second set follows the recorded returns, and at the end
  of the replay the two are reconciled.

  \<open>blocking_spec\<close> says what one call of the handler does to the sets; the handler refines it.
\<close>

section \<open>Data\<close>

text \<open>\<open>bl_returned\<close> is the persistent variable of \<^verbatim>\<open>modules/blocking/src/state.c\<close>.\<close>

record blocking_state =
  bl_actual :: tidset
  bl_replay :: tidset
  bl_prev :: task_id
  bl_replaying :: bool
  bl_consumed :: bool
  bl_returned :: tidset

definition blocking_init :: blocking_state where
  "blocking_init = \<lparr>bl_actual = tidset_init, bl_replay = tidset_init, bl_prev = NO_TASK, bl_replaying = False,
     bl_consumed = False, bl_returned = tidset_init\<rparr>"

section \<open>Operations\<close>

text \<open>The subscriber to the restored persistent state.\<close>

definition blocking_after_unmarshal :: "blocking_state \<Rightarrow> blocking_state" where
  "blocking_after_unmarshal s = s\<lparr>bl_consumed := False\<rparr>"

definition blocked_tasks :: "bool \<Rightarrow> blocking_state \<Rightarrow> tidset" where
  "blocked_tasks replay s = (if replay then bl_replay s else bl_actual s)"

text \<open>The part that handles the replay.\<close>

definition blocking_sync :: "capture_point \<Rightarrow> decision \<Rightarrow> blocking_state \<Rightarrow> blocking_state result" where
  "blocking_sync cp e s =
     (if e_replay e then
        let s = s\<lparr>bl_replaying := True\<rparr> in
        bindr (if bl_consumed s then Inr (s\<lparr>bl_returned := tidset_clear (bl_returned s)\<rparr>)
               else bindr (tidset_subtract (bl_replay s) (bl_returned s)) (\<lambda>r.
                      Inr (s\<lparr>bl_replay := r, bl_consumed := True\<rparr>)))
          (\<lambda>s. bindr (tidset_remove (bl_replay s) (cp_id cp)) (\<lambda>(_, r). Inr (s\<lparr>bl_replay := r\<rparr>)))
      else if bl_replaying s then
        let s = s\<lparr>bl_replaying := False\<rparr> in
        bindr (tidset_copy (bl_returned s) (bl_replay s)) (\<lambda>q.
        bindr (tidset_subtract q (bl_actual s)) (\<lambda>q.
        bindr (tidset_intersect (bl_actual s) (bl_replay s)) (\<lambda>a.
          Inr (s\<lparr>bl_returned := q, bl_actual := a\<rparr>))))
      else bindr (tidset_copy (bl_returned s) (e_unblocked e)) (\<lambda>q. Inr (s\<lparr>bl_returned := q\<rparr>)))"

text \<open>The part that takes note of a task that is about to block.\<close>

definition blocking_enter :: "capture_point \<Rightarrow> decision \<Rightarrow> blocking_state \<Rightarrow> (decision \<times> blocking_state) result" where
  "blocking_enter cp e s =
     (if cp_blocking cp \<and> cp_type_id cp \<noteq> EVENT_TASK_CREATE then
        assertr (\<not> e_is_chpt e)
          (bindr (tidset_has (bl_actual s) (cp_id cp)) (\<lambda>h. assertr (\<not> h)
             (bindr (tidset_insert (bl_actual s) (cp_id cp)) (\<lambda>(_, a).
              bindr (if e_replay e then bindr (tidset_insert (bl_replay s) (cp_id cp)) (\<lambda>(_, r). Inr r) else Inr (bl_replay s)) (\<lambda>r.
                Inr (e\<lparr>e_reason := REASON_BLOCKING, e_is_chpt := True\<rparr>, s\<lparr>bl_actual := a, bl_replay := r\<rparr>))))))
      else Inr (e, s))"

definition blocking_handle :: "blocking_state handler" where
  "blocking_handle cp e s =
     assertr (cp_id cp \<noteq> NO_TASK)
       (bindr (tidset_subtract (bl_actual s) (e_unblocked e)) (\<lambda>a.
        bindr (blocking_sync cp e (s\<lparr>bl_actual := a\<rparr>)) (\<lambda>s.
        bindr (tidset_has (bl_returned s) (cp_id cp)) (\<lambda>h.
          let n = tidset_size (bl_returned s);
              e = e\<lparr>e_should_record := (e_should_record e \<or> n > 0 \<and> \<not> (n = 1 \<and> h))\<rparr> in
          bindr (blocking_enter cp e s) (\<lambda>(e, s).
            let s = s\<lparr>bl_prev := cp_id cp\<rparr> in
            if e_skip e then Inr (e, s)
            else bindr (tidset_subtract (e_tset e) (blocked_tasks (e_replay e) s)) (\<lambda>ts. Inr (e\<lparr>e_tset := ts\<rparr>, s)))))))"

definition lotto_dbg_blocking_is_blocked :: "blocking_state \<Rightarrow> task_id \<Rightarrow> bool \<Rightarrow> bool result" where
  "lotto_dbg_blocking_is_blocked s t replay = tidset_has (blocked_tasks replay s) t"

definition any_blocked :: "blocking_state \<Rightarrow> bool" where
  "any_blocked s \<longleftrightarrow> tidset_size (blocked_tasks (bl_replaying s) s) > 0"

section \<open>impasse\<close>

text \<open>The state is the set \<^verbatim>\<open>_unblocked\<close>; \<open>bl\<close> is the state of the blocking module.\<close>

definition impasse_handle :: "bool \<Rightarrow> blocking_state \<Rightarrow> tidset handler" where
  "impasse_handle enabled bl cp e s =
     (if \<not> enabled then Inr (e, s)
      else if cp_type_id cp = EVENT_TASK_CREATE then Inr (e, s)
      else if tidset_size (e_tset e) > 0 \<or> any_blocked bl then bindr (tidset_copy s (e_tset e)) (\<lambda>s. Inr (e, s))
      else Inr (e\<lparr>e_reason := REASON_IMPASSE\<rparr>, s))"

section \<open>The handler contract\<close>

lemma blocking_enter_frame:
  "blocking_enter cp e s = Inr (e', s') \<Longrightarrow>
     e_tset e' = e_tset e \<and> e_clk e' = e_clk e \<and> e_replay e' = e_replay e \<and> e_skip e' = e_skip e"
  by (auto simp: blocking_enter_def result_elims split: if_splits)

interpretation blocking_h: capture_handler blocking_handle
  by unfold_locales
    (auto simp: blocking_handle_def Let_def result_elims dest!: blocking_enter_frame tidset_subtract_shrinks split: if_splits)

interpretation impasse_h: capture_handler "impasse_handle enabled bl"
  by unfold_locales (auto simp: impasse_handle_def result_elims split: if_splits)

section \<open>Lemmas\<close>

definition blocking_inv :: "blocking_state \<Rightarrow> bool" where
  "blocking_inv s \<longleftrightarrow> tidset_inv (bl_actual s) \<and> tidset_inv (bl_replay s) \<and> tidset_inv (bl_returned s)"

lemma blocking_inv_init: "blocking_inv blocking_init"
  by (simp add: blocking_inv_def blocking_init_def)

text \<open>The sets of a state: blocked, blocked according to the replay, returned; and the two flags.\<close>

type_synonym blocking_view = "task_id set \<times> task_id set \<times> task_id set \<times> bool \<times> bool"

definition blocking_view :: "blocking_state \<Rightarrow> blocking_view" where
  "blocking_view s = (tids (bl_actual s), tids (bl_replay s), tids (bl_returned s), bl_replaying s, bl_consumed s)"

definition sync_spec :: "task_id \<Rightarrow> bool \<Rightarrow> task_id set \<Rightarrow> blocking_view \<Rightarrow> blocking_view" where
  "sync_spec t replay U = (\<lambda>(A, R, Q, replaying, consumed).
     let A = A - U in
     if replay then (A, (if consumed then R else R - Q) - {t}, if consumed then {} else Q, True, True)
     else if replaying then (A \<inter> R, R, R - A, False, consumed)
     else (A, R, U, False, consumed))"

definition enter_spec :: "task_id \<Rightarrow> bool \<Rightarrow> blocking_view \<Rightarrow> blocking_view" where
  "enter_spec t replay = (\<lambda>(A, R, Q, f). (insert t A, if replay then insert t R else R, Q, f))"

lemma blocking_sync_spec:
  assumes "blocking_inv s" and "tidset_inv (e_unblocked e)" and "tids (bl_actual s) \<inter> tids (e_unblocked e) = {}"
  shows "\<exists>s'. blocking_sync cp e s = Inr s' \<and> blocking_inv s' \<and>
    blocking_view s' = sync_spec (cp_id cp) (e_replay e) (tids (e_unblocked e)) (blocking_view s)"
proof -
  have inv: "tidset_inv (bl_actual s)" "tidset_inv (bl_replay s)" "tidset_inv (bl_returned s)"
    using assms(1) by (simp_all add: blocking_inv_def)
  have A: "tids (bl_actual s) - tids (e_unblocked e) = tids (bl_actual s)" using assms(3) by blast
  consider "e_replay e" "bl_consumed s" | "e_replay e" "\<not> bl_consumed s" | "\<not> e_replay e" "bl_replaying s"
    | "\<not> e_replay e" "\<not> bl_replaying s" by blast
  then show ?thesis
  proof cases
    case 1
    with tidset_remove_inv [OF inv(2), of "cp_id cp"] inv A show ?thesis
      by (auto simp: blocking_sync_def blocking_inv_def blocking_view_def sync_spec_def Let_def)
  next
    case 2
    obtain r where r: "tidset_subtract (bl_replay s) (bl_returned s) = Inr r" "tidset_inv r"
        "tids r = tids (bl_replay s) - tids (bl_returned s)"
      using tidset_subtract_inv [OF inv(2,3)] by blast
    with tidset_remove_inv [OF r(2), of "cp_id cp"] 2 inv A show ?thesis
      by (auto simp: blocking_sync_def blocking_inv_def blocking_view_def sync_spec_def Let_def)
  next
    case 3
    obtain q where q: "tidset_copy (bl_returned s) (bl_replay s) = Inr q" "tidset_inv q" "tids q = tids (bl_replay s)"
      using tidset_copy_inv [OF inv(3,2)] by blast
    obtain q2 where q2: "tidset_subtract q (bl_actual s) = Inr q2" "tidset_inv q2" "tids q2 = tids q - tids (bl_actual s)"
      using tidset_subtract_inv [OF q(2) inv(1)] by blast
    from tidset_intersect_inv [OF inv(1,2)] 3 q q2 inv A show ?thesis
      by (auto simp: blocking_sync_def blocking_inv_def blocking_view_def sync_spec_def Let_def)
  next
    case 4
    with tidset_copy_inv [OF inv(3) assms(2)] inv A show ?thesis
      by (auto simp: blocking_sync_def blocking_inv_def blocking_view_def sync_spec_def Let_def)
  qed
qed

lemma sync_spec_fresh:
  "sync_spec t replay U (A - U, R, Q, f) = sync_spec t replay U (A, R, Q, f)"
  by (cases f) (simp add: sync_spec_def)

lemma blocking_enter_spec:
  assumes "blocking_inv s" and "cp_blocking cp" and "cp_type_id cp \<noteq> EVENT_TASK_CREATE"
  shows "if e_is_chpt e \<or> cp_id cp \<in> tids (bl_actual s) then blocking_enter cp e s = Inl AssertFailed
    else \<exists>s'. blocking_enter cp e s = Inr (e\<lparr>e_reason := REASON_BLOCKING, e_is_chpt := True\<rparr>, s') \<and> blocking_inv s' \<and>
      blocking_view s' = enter_spec (cp_id cp) (e_replay e) (blocking_view s)"
proof -
  have inv: "tidset_inv (bl_actual s)" "tidset_inv (bl_replay s)" "tidset_inv (bl_returned s)"
    using assms(1) by (simp_all add: blocking_inv_def)
  show ?thesis
    using tidset_insert_inv [OF inv(1), of "cp_id cp"] tidset_insert_inv [OF inv(2), of "cp_id cp"] assms(2,3) inv
    by (auto simp: blocking_enter_def tidset_has_inv blocking_inv_def blocking_view_def enter_spec_def assertr_def)
qed

section \<open>Properties\<close>

text \<open>
  Claim C25. The handler keeps its sets as specified, in a normal run, during a replay and when a replay
  ends: a returned task leaves the blocked set, a task that blocks enters it (and the program stops if it
  is already there), and the candidates handed on are the old ones without the blocked tasks; a task that
  is about to block is not among them.
\<close>

theorem blocking_refines_spec:
  fixes cp e s
  defines "blocks \<equiv> cp_blocking cp \<and> cp_type_id cp \<noteq> EVENT_TASK_CREATE"
  assumes "blocking_inv s" and "tidset_inv (e_unblocked e)" and "tidset_inv (e_tset e)" and "cp_id cp \<noteq> NO_TASK" and "\<not> e_skip e"
    and "v = sync_spec (cp_id cp) (e_replay e) (tids (e_unblocked e)) (blocking_view s)"
  shows "if blocks \<and> (e_is_chpt e \<or> cp_id cp \<in> fst v) then blocking_handle cp e s = Inl AssertFailed
    else \<exists>e' s'. blocking_handle cp e s = Inr (e', s') \<and> blocking_inv s' \<and>
      blocking_view s' = (if blocks then enter_spec (cp_id cp) (e_replay e) v else v) \<and>
      tids (e_tset e') = tids (e_tset e) - tids (blocked_tasks (e_replay e) s') \<and>
      (blocks \<longrightarrow> e_is_chpt e' \<and> e_reason e' = REASON_BLOCKING \<and> cp_id cp \<notin> tids (e_tset e'))"
proof -
  have inv: "tidset_inv (bl_actual s)" using assms(2) by (simp add: blocking_inv_def)
  obtain a where a: "tidset_subtract (bl_actual s) (e_unblocked e) = Inr a" "tidset_inv a"
      "tids a = tids (bl_actual s) - tids (e_unblocked e)"
    using tidset_subtract_inv [OF inv assms(3)] by blast
  let ?s = "s\<lparr>bl_actual := a\<rparr>"
  have i1: "blocking_inv ?s" "tids (bl_actual ?s) \<inter> tids (e_unblocked e) = {}"
    using assms(2) a by (auto simp: blocking_inv_def)
  have "sync_spec (cp_id cp) (e_replay e) (tids (e_unblocked e)) (blocking_view ?s) = v"
    using assms(7) sync_spec_fresh by (simp add: blocking_view_def a(3))
  with blocking_sync_spec [OF i1(1) assms(3) i1(2), of cp] obtain s1 where
    s1: "blocking_sync cp e ?s = Inr s1" "blocking_inv s1" "blocking_view s1 = v" by auto
  have h: "tidset_has (bl_returned s1) (cp_id cp) = Inr (cp_id cp \<in> tids (bl_returned s1))"
    using s1(2) by (simp add: blocking_inv_def tidset_has_inv)
  have v: "fst v = tids (bl_actual s1)" using s1(3) by (auto simp: blocking_view_def)
  define n where "n = tidset_size (bl_returned s1)"
  define e1 where "e1 = e\<lparr>e_should_record := (e_should_record e \<or> n > 0 \<and> \<not> (n = 1 \<and> cp_id cp \<in> tids (bl_returned s1)))\<rparr>"
  have e1: "e_tset e1 = e_tset e" "e_replay e1 = e_replay e" "e_skip e1 = e_skip e" "e_is_chpt e1 = e_is_chpt e"
    by (simp_all add: e1_def)
  have run: "blocking_handle cp e s = bindr (blocking_enter cp e1 s1) (\<lambda>(e, s).
      let s = s\<lparr>bl_prev := cp_id cp\<rparr> in
      if e_skip e then Inr (e, s)
      else bindr (tidset_subtract (e_tset e) (blocked_tasks (e_replay e) s)) (\<lambda>ts. Inr (e\<lparr>e_tset := ts\<rparr>, s)))"
    using assms(5) a(1) s1(1) h by (simp add: blocking_handle_def Let_def n_def e1_def)
  have fin: "\<exists>ts. tidset_subtract (e_tset e) (blocked_tasks (e_replay e) (s2\<lparr>bl_prev := cp_id cp\<rparr>)) = Inr ts \<and>
      tids ts = tids (e_tset e) - tids (blocked_tasks (e_replay e) s2)" if "blocking_inv s2" for s2
    using tidset_subtract_inv [OF assms(4), of "blocked_tasks (e_replay e) s2"] that
    by (auto simp: blocked_tasks_def blocking_inv_def)
  have keep: "blocking_inv (s2\<lparr>bl_prev := t\<rparr>) = blocking_inv s2" "blocking_view (s2\<lparr>bl_prev := t\<rparr>) = blocking_view s2"
    "blocked_tasks r (s2\<lparr>bl_prev := t\<rparr>) = blocked_tasks r s2" for s2 t r
    by (simp_all add: blocking_inv_def blocking_view_def blocked_tasks_def)
  show ?thesis
  proof (cases blocks)
    case False
    then have "blocking_enter cp e1 s1 = Inr (e1, s1)" unfolding blocks_def by (auto simp: blocking_enter_def)
    with False fin [OF s1(2)] run e1 assms(6) s1 show ?thesis by (auto simp: keep)
  next
    case True
    then have b: "cp_blocking cp" "cp_type_id cp \<noteq> EVENT_TASK_CREATE" by (simp_all add: blocks_def)
    note en = blocking_enter_spec [OF s1(2) b, of e1]
    show ?thesis
    proof (cases "e_is_chpt e \<or> cp_id cp \<in> fst v")
      case c: True
      with en run True show ?thesis by (simp add: e1 v)
    next
      case c: False
      with en obtain s2 where s2: "blocking_enter cp e1 s1 = Inr (e1\<lparr>e_reason := REASON_BLOCKING, e_is_chpt := True\<rparr>, s2)"
          "blocking_inv s2" "blocking_view s2 = enter_spec (cp_id cp) (e_replay e) v"
        by (auto simp: e1 v s1(3))
      have "cp_id cp \<in> tids (blocked_tasks (e_replay e) s2)"
        using s2(3) by (cases v) (auto simp: enter_spec_def blocking_view_def blocked_tasks_def split: if_splits)
      with fin [OF s2(2)] run s2 True c e1 assms(6) show ?thesis by (auto simp: keep)
    qed
  qed
qed

theorem blocking_refines_spec_witness:
  "\<exists>e' s'. blocking_handle (event_cp 30 5 0\<lparr>cp_blocking := True\<rparr>) sample_event blocking_init = Inr (e', s') \<and>
     tids (e_tset e') = {6} \<and> e_is_chpt e' \<and> tids (bl_actual s') = {5}"
proof -
  let ?cp = "event_cp 30 5 0\<lparr>cp_blocking := True\<rparr>"
  have cp: "cp_id ?cp = 5" "cp_id ?cp \<noteq> NO_TASK" "cp_blocking ?cp" "cp_type_id ?cp \<noteq> EVENT_TASK_CREATE"
    by (simp_all add: NO_TASK_def event_defs event_cp_def)
  have e: "e_unblocked sample_event = zero_tidset" "\<not> e_is_chpt sample_event" "\<not> e_replay sample_event"
    by (simp_all add: sample_event_def zero_decision_def)
  have v: "sync_spec 5 False {} (blocking_view blocking_init) = ({}, {}, {}, False, False)"
    by (simp add: sync_spec_def blocking_view_def blocking_init_def)
  from blocking_refines_spec [OF blocking_inv_init _ sample_event_simps(1) cp(2) sample_event_simps(2) refl]
  have "\<exists>e' s'. blocking_handle ?cp sample_event blocking_init = Inr (e', s') \<and> blocking_view s' = ({5}, {}, {}, False, False) \<and>
      tids (e_tset e') = {5, 6} - tids (blocked_tasks False s') \<and> e_is_chpt e'"
    using cp e by (auto simp: v enter_spec_def sample_event_simps)
  then show ?thesis by (auto simp: blocking_view_def blocked_tasks_def)
qed

end
