(* ===== verification/Deadlock.thy ===== *)
theory Deadlock
  imports Handler_Base Tidbag Mutex
begin

text \<open>
  The deadlock module, \<^verbatim>\<open>modules/deadlock/src/handler.c\<close>. For every resource the module keeps the bag of
  the tasks that hold it or wait for it. An acquire event starts a search for a cycle, an event that ends
  a task reports the resources the task has not released.

  The search takes a task out of a bag, calls itself, and puts the task back at the end of the bag while
  an outer loop is still counting through the same bag. The theory shows that the search always ends,
  that it leaves the bags as they were, and that the tasks the loop skips do not matter: the answer is
  the one of the relation \<open>shares\<close>, which says that two tasks are in a common resource.
\<close>

section \<open>Data\<close>

record rsrc =
  rs_tasks :: tidbag
  rs_owner :: task_id

text \<open>\<open>dl_detected\<close> counts the published events \<^verbatim>\<open>EVENT_DEADLOCK_DETECTED\<close>.\<close>

record handler_deadlock =
  dl_resources :: "rsrc map_t"
  dl_lost :: "rsrc map_t"
  dl_detected :: nat

record deadlock_config =
  dc_enabled :: bool
  dc_lost_resource_check :: bool
  dc_extra_release_check :: bool

definition EVENT_DEADLOCK_RSRC_ACQUIRING :: type_id where "EVENT_DEADLOCK_RSRC_ACQUIRING = 151"
definition EVENT_DEADLOCK_RSRC_RELEASED :: type_id where "EVENT_DEADLOCK_RSRC_RELEASED = 152"

lemmas deadlock_event_defs = EVENT_DEADLOCK_RSRC_ACQUIRING_def EVENT_DEADLOCK_RSRC_RELEASED_def

definition zero_rsrc :: rsrc where
  "zero_rsrc = \<lparr>rs_tasks = zero_tidset, rs_owner = NO_TASK\<rparr>"

definition deadlock_state_init :: handler_deadlock where
  "deadlock_state_init = \<lparr>dl_resources = map_init, dl_lost = map_init, dl_detected = 0\<rparr>"

section \<open>Operations\<close>

definition rsrc_init :: "rsrc map_t \<Rightarrow> 64 word \<Rightarrow> (rsrc \<times> rsrc map_t) result" where
  "rsrc_init m addr =
     (case map_find m addr of
        Some r \<Rightarrow> Inr (r, m)
      | None \<Rightarrow> bindr (map_register zero_rsrc m addr) (\<lambda>m.
          let r = \<lparr>rs_tasks = tidbag_init, rs_owner = NO_TASK\<rparr> in Inr (r, map_write m addr r)))"

definition dl_acquiring :: "handler_mutex \<Rightarrow> task_id \<Rightarrow> 64 word \<Rightarrow> handler_deadlock \<Rightarrow> handler_deadlock result" where
  "dl_acquiring ms t addr s =
     bindr (rsrc_init (dl_resources s) addr) (\<lambda>(r, m).
     bindr (tidbag_insert (rs_tasks r) t) (\<lambda>b.
       Inr (s\<lparr>dl_resources := map_write m addr \<lparr>rs_tasks = b, rs_owner = mutex_owner ms addr\<rparr>\<rparr>)))"

definition dl_released :: "deadlock_config \<Rightarrow> handler_mutex \<Rightarrow> task_id \<Rightarrow> 64 word \<Rightarrow> handler_deadlock \<Rightarrow>
    (bool \<times> handler_deadlock) result" where
  "dl_released cfg ms t addr s =
     (case map_find (dl_resources s) addr of
        None \<Rightarrow> Inr (\<not> dc_extra_release_check cfg, s)
      | Some r \<Rightarrow>
          bindr (tidbag_remove (rs_tasks r) t) (\<lambda>b.
            if tidbag_size b = 0 then Inr (True, s\<lparr>dl_resources := map_deregister (dl_resources s) addr\<rparr>)
            else Inr (True, s\<lparr>dl_resources :=
              map_write (dl_resources s) addr \<lparr>rs_tasks = b, rs_owner = mutex_owner ms addr\<rparr>\<rparr>)))"

text \<open>Results of computations that may not end.\<close>

definition bindo :: "'a result option \<Rightarrow> ('a \<Rightarrow> 'b result option) \<Rightarrow> 'b result option" where
  "bindo m k = (case m of None \<Rightarrow> None | Some (Inl err) \<Rightarrow> Some (Inl err) | Some (Inr x) \<Rightarrow> k x)"

definition rsrc_at :: "rsrc map_t \<Rightarrow> 64 word \<Rightarrow> rsrc result" where
  "rsrc_at rs key = (case map_find rs key of None \<Rightarrow> Inl Fault | Some r \<Rightarrow> Inr r)"

text \<open>The loop that looks for another task in the resource.\<close>

fun dl_any_other :: "nat list \<Rightarrow> tidbag \<Rightarrow> task_id \<Rightarrow> bool result" where
  "dl_any_other [] b t = Inr False"
| "dl_any_other (i # is) b t =
     bindr (tidbag_get b i) (\<lambda>cur. if cur \<noteq> t then Inr True else dl_any_other is b t)"

text \<open>
  The loop over the resources that contain \<open>cur\<close>. \<open>again\<close> is the recursive call of the search. The
  search registers and deregisters no resource, so the keys to visit are fixed when the loop starts.
\<close>

fun dl_rsrc_loop :: "(task_id \<Rightarrow> 64 word \<Rightarrow> rsrc map_t \<Rightarrow> (bool \<times> rsrc map_t) result option) \<Rightarrow>
    task_id \<Rightarrow> 64 word list \<Rightarrow> rsrc map_t \<Rightarrow> (bool \<times> rsrc map_t) result option" where
  "dl_rsrc_loop again cur [] rs = Some (Inr (False, rs))"
| "dl_rsrc_loop again cur (it # its) rs =
     bindo (Some (rsrc_at rs it)) (\<lambda>r.
     bindo (Some (tidbag_has (rs_tasks r) cur)) (\<lambda>h.
       if \<not> h then dl_rsrc_loop again cur its rs
       else
         bindo (Some (tidbag_remove (rs_tasks r) cur)) (\<lambda>b.
         bindo (again cur it (map_write rs it (r\<lparr>rs_tasks := b\<rparr>))) (\<lambda>(res, rs).
         bindo (Some (rsrc_at rs it)) (\<lambda>r.
         bindo (Some (tidbag_insert (rs_tasks r) cur)) (\<lambda>b.
           let rs = map_write rs it (r\<lparr>rs_tasks := b\<rparr>) in
           if res then Some (Inr (True, rs)) else dl_rsrc_loop again cur its rs))))))"

text \<open>The loop over the tasks in the resource \<open>key\<close>; its first number bounds the passes.\<close>

fun dl_task_loop :: "(task_id \<Rightarrow> 64 word \<Rightarrow> rsrc map_t \<Rightarrow> (bool \<times> rsrc map_t) result option) \<Rightarrow>
    task_id \<Rightarrow> 64 word \<Rightarrow> nat \<Rightarrow> nat \<Rightarrow> rsrc map_t \<Rightarrow> (bool \<times> rsrc map_t) result option" where
  "dl_task_loop again t key 0 idx rs = None"
| "dl_task_loop again t key (Suc passes) idx rs =
     bindo (Some (rsrc_at rs key)) (\<lambda>r.
       if idx < tidbag_size (rs_tasks r) then
         bindo (Some (tidbag_get (rs_tasks r) idx)) (\<lambda>cur.
           if cur = t then dl_task_loop again t key passes (Suc idx) rs
           else bindo (dl_rsrc_loop again cur (map fst (map_iterate rs)) rs) (\<lambda>(res, rs).
             if res then Some (Inr (True, rs)) else dl_task_loop again t key passes (Suc idx) rs))
       else Some (Inr (False, rs)))"

text \<open>\<^verbatim>\<open>_check_deadlock_iter\<close>; the first number bounds the depth of the recursion.\<close>

primrec dl_check_iter :: "nat \<Rightarrow> task_id \<Rightarrow> 64 word \<Rightarrow> task_id \<Rightarrow> rsrc map_t \<Rightarrow> (bool \<times> rsrc map_t) result option" where
  "dl_check_iter 0 t key cycle rs = None"
| "dl_check_iter (Suc depth) t key cycle rs =
     (if t = NO_TASK then Some (Inr (False, rs))
      else if cycle = t then Some (Inr (True, rs))
      else case map_find rs key of
        None \<Rightarrow> Some (Inr (False, rs))
      | Some r \<Rightarrow>
          bindo (Some (dl_any_other [0..<tidbag_size (rs_tasks r)] (rs_tasks r) t)) (\<lambda>any_other.
            if \<not> any_other then Some (Inr (False, rs))
            else dl_task_loop (\<lambda>cur key rs. dl_check_iter depth cur key (if cycle = NO_TASK then t else cycle) rs)
                   t key (Suc (tidbag_size (rs_tasks r))) 0 rs))"

text \<open>A recursive call takes a task out of a bag, so the number of tasks in all bags bounds the depth.\<close>

definition rsrc_entries :: "rsrc map_t \<Rightarrow> nat" where
  "rsrc_entries rs = sum_list (map (\<lambda>it. tidbag_size (rs_tasks (snd it))) (map_iterate rs))"

definition dl_check :: "task_id \<Rightarrow> 64 word \<Rightarrow> rsrc map_t \<Rightarrow> (bool \<times> rsrc map_t) result option" where
  "dl_check t key rs = dl_check_iter (Suc (rsrc_entries rs)) t key NO_TASK rs"

text \<open>\<^verbatim>\<open>_is_lost\<close> reads the first entry of the lost map to name an owner in its message.\<close>

definition dl_is_lost :: "64 word \<Rightarrow> handler_deadlock \<Rightarrow> bool result" where
  "dl_is_lost addr s =
     (if map_find (dl_lost s) addr = None then Inr False
      else case map_iterate (dl_lost s) of
        [] \<Rightarrow> Inl Fault
      | it # _ \<Rightarrow> bindr (tidbag_get (rs_tasks (snd it)) 0) (\<lambda>owner. Inr True))"

fun dl_mark_lost_loop :: "deadlock_config \<Rightarrow> task_id \<Rightarrow> 64 word list \<Rightarrow> bool \<Rightarrow> handler_deadlock \<Rightarrow>
    (bool \<times> handler_deadlock) result" where
  "dl_mark_lost_loop cfg t [] ret s = Inr (ret, s)"
| "dl_mark_lost_loop cfg t (addr # its) ret s =
     bindr (rsrc_at (dl_resources s) addr) (\<lambda>r.
     bindr (tidbag_has (rs_tasks r) t) (\<lambda>h.
       if \<not> h then dl_mark_lost_loop cfg t its ret s
       else
         bindr (tidbag_remove (rs_tasks r) t) (\<lambda>b.
         bindr (if tidbag_size b > 0 then bindr (tidbag_get b 0) (\<lambda>waiter. Inr True)
                else Inr (dc_lost_resource_check cfg)) (\<lambda>ret.
         bindr (rsrc_init (dl_lost s) addr) (\<lambda>(l, lost).
         bindr (tidbag_insert (rs_tasks l) t) (\<lambda>lb.
           dl_mark_lost_loop cfg t its ret
             (s\<lparr>dl_resources := map_write (dl_resources s) addr (r\<lparr>rs_tasks := b\<rparr>),
                dl_lost := map_write lost addr (l\<lparr>rs_tasks := lb\<rparr>)\<rparr>)))))))"

definition dl_mark_lost :: "deadlock_config \<Rightarrow> task_id \<Rightarrow> handler_deadlock \<Rightarrow> (bool \<times> handler_deadlock) result" where
  "dl_mark_lost cfg t s = dl_mark_lost_loop cfg t (map fst (map_iterate (dl_resources s))) False s"

definition rsrc_addr :: "capture_point \<Rightarrow> 64 word result" where
  "rsrc_addr cp = assertr (cp_type_id cp = EVENT_DEADLOCK_RSRC_ACQUIRING \<or> cp_type_id cp = EVENT_DEADLOCK_RSRC_RELEASED)
     (Inr (cp_addr cp))"

text \<open>The member \<^verbatim>\<open>ret\<close> of the payload of a try event is read with the parameter \<open>try_ret\<close>.\<close>

definition mutex_try_ok :: "(capture_point \<Rightarrow> int) \<Rightarrow> capture_point \<Rightarrow> bool result" where
  "mutex_try_ok try_ret cp = assertr (cp_type_id cp = EVENT_MUTEX_TRYACQUIRE) (Inr (try_ret cp = 0))"

text \<open>The two checks an acquire event makes before the task is entered in the bag.\<close>

definition dl_acquire_checks :: "task_id \<Rightarrow> 64 word \<Rightarrow> handler_deadlock \<Rightarrow> (bool \<times> handler_deadlock) result option" where
  "dl_acquire_checks t addr s =
     bindo (dl_check t addr (dl_resources s)) (\<lambda>(d, rs).
       let s = s\<lparr>dl_resources := rs\<rparr> in
       bindo (Some (dl_is_lost addr s)) (\<lambda>l. Some (Inr (d \<or> l, s))))"

text \<open>The \<^verbatim>\<open>switch\<close>; its result says whether a case sets the reason.\<close>

definition dl_switch :: "(capture_point \<Rightarrow> int) \<Rightarrow> deadlock_config \<Rightarrow> handler_mutex \<Rightarrow> task_id \<Rightarrow> capture_point \<Rightarrow>
    handler_deadlock \<Rightarrow> (bool \<times> handler_deadlock) result option" where
  "dl_switch try_ret cfg ms t cp s =
     (if cp_type_id cp = EVENT_MUTEX_ACQUIRE then
        bindo (Some (mutex_event_addr cp)) (\<lambda>a.
        bindo (dl_acquire_checks t a s) (\<lambda>(d, s).
        bindo (Some (dl_acquiring ms t a s)) (\<lambda>s. Some (Inr (d, s)))))
      else if cp_type_id cp = EVENT_MUTEX_TRYACQUIRE then
        Some (bindr (mutex_event_addr cp) (\<lambda>a.
          bindr (dl_is_lost a s) (\<lambda>l.
          bindr (mutex_try_ok try_ret cp) (\<lambda>ok.
            if ok then bindr (dl_acquiring ms t a s) (\<lambda>s. Inr (l, s)) else Inr (l, s)))))
      else if cp_type_id cp = EVENT_DEADLOCK_RSRC_ACQUIRING then
        bindo (Some (rsrc_addr cp)) (\<lambda>a. dl_acquire_checks t a s)
      else if cp_type_id cp = EVENT_MUTEX_RELEASE then
        Some (bindr (mutex_event_addr cp) (\<lambda>a. bindr (dl_released cfg ms t a s) (\<lambda>(ok, s). Inr (\<not> ok, s))))
      else if cp_type_id cp = EVENT_DEADLOCK_RSRC_RELEASED then
        Some (bindr (rsrc_addr cp) (\<lambda>a. bindr (dl_released cfg ms t a s) (\<lambda>(ok, s). Inr (\<not> ok, s))))
      else if cp_type_id cp = EVENT_TASK_FINI then Some (dl_mark_lost cfg t s)
      else Some (Inr (False, s)))"

definition deadlock_tid :: "capture_point \<Rightarrow> task_id" where
  "deadlock_tid cp = (if cp_vid cp \<noteq> NO_TASK then cp_vid cp else cp_id cp)"

definition deadlock_handle :: "(capture_point \<Rightarrow> int) \<Rightarrow> deadlock_config \<Rightarrow> handler_mutex \<Rightarrow> capture_point \<Rightarrow>
    decision \<Rightarrow> handler_deadlock \<Rightarrow> (decision \<times> handler_deadlock) result option" where
  "deadlock_handle try_ret cfg ms cp e s =
     (if e_skip e \<or> \<not> dc_enabled cfg then Some (Inr (e, s))
      else if cp_vid cp = ANY_TASK then Some (Inr (e, s))
      else if deadlock_tid cp = NO_TASK then Some (Inl AssertFailed)
      else bindo (dl_switch try_ret cfg ms (deadlock_tid cp) cp s) (\<lambda>(d, s).
        let e = (if d then e\<lparr>e_reason := REASON_RSRC_DEADLOCK\<rparr> else e) in
        Some (Inr (e, if e_reason e = REASON_RSRC_DEADLOCK then s\<lparr>dl_detected := dl_detected s + 1\<rparr> else s))))"

text \<open>The debugging interface copies keys or tasks into a set of its own.\<close>

fun dbg_insert_all :: "task_id list \<Rightarrow> tidset \<Rightarrow> tidset result" where
  "dbg_insert_all [] d = Inr d"
| "dbg_insert_all (t # ts) d = bindr (tidset_insert d t) (\<lambda>(_, d). dbg_insert_all ts d)"

definition lotto_dbg_deadlock_keys :: "handler_deadlock \<Rightarrow> tidset result" where
  "lotto_dbg_deadlock_keys s = dbg_insert_all (map fst (map_iterate (dl_resources s))) tidset_init"

fun dbg_insert_bag :: "nat list \<Rightarrow> tidbag \<Rightarrow> tidset \<Rightarrow> tidset result" where
  "dbg_insert_bag [] b d = Inr d"
| "dbg_insert_bag (i # is) b d =
     bindr (tidbag_get b i) (\<lambda>cur. bindr (tidset_insert d cur) (\<lambda>(_, d). dbg_insert_bag is b d))"

definition lotto_dbg_deadlock_tasks_in :: "handler_deadlock \<Rightarrow> 64 word \<Rightarrow> tidset \<Rightarrow> tidset option result" where
  "lotto_dbg_deadlock_tasks_in s addr d =
     (case map_find (dl_resources s) addr of
        None \<Rightarrow> Inr None
      | Some r \<Rightarrow> bindr (dbg_insert_bag [0..<tidbag_size (rs_tasks r)] (rs_tasks r) (tidset_fini d)) (\<lambda>d. Inr (Some d)))"

section \<open>Cycles\<close>

text \<open>
  The contents of the resources as a function from addresses to multisets of tasks. \<open>dl_path c B t k\<close> is the
  search for \<open>c\<close> from task \<open>t\<close> at resource \<open>k\<close>: every step uses up one entry of a bag.
\<close>

type_synonym bags = "64 word \<Rightarrow> task_id multiset"

definition take_out :: "task_id \<Rightarrow> 64 word \<Rightarrow> bags \<Rightarrow> bags" where
  "take_out u r B = B(r := B r - {#u#})"

inductive dl_path :: "task_id \<Rightarrow> bags \<Rightarrow> task_id \<Rightarrow> 64 word \<Rightarrow> bool" for c where
  found: "dl_path c B c k"
| step: "u \<in># B k \<Longrightarrow> u \<noteq> t \<Longrightarrow> u \<in># B r \<Longrightarrow> dl_path c (take_out u r B) u r \<Longrightarrow> dl_path c B t k"

definition dl_hop :: "task_id \<Rightarrow> bags \<Rightarrow> task_id \<Rightarrow> 64 word \<Rightarrow> bool" where
  "dl_hop c B t k \<longleftrightarrow> (\<exists>u r. u \<in># B k \<and> u \<noteq> t \<and> u \<in># B r \<and> dl_path c (take_out u r B) u r)"

text \<open>Two tasks are related when a resource contains both.\<close>

definition shares :: "bags \<Rightarrow> (task_id \<times> task_id) set" where
  "shares B = {(u, w). \<exists>q. u \<in># B q \<and> w \<in># B q}"

lemma take_out_commute: "take_out u r (take_out x k B) = take_out x k (take_out u r B)"
  by (auto simp: take_out_def fun_eq_iff add_mset_commute)

lemma take_out_mono: "\<forall>k. B k \<subseteq># B' k \<Longrightarrow> \<forall>k. take_out u r B k \<subseteq># take_out u r B' k"
  by (simp add: take_out_def subseteq_mset_def diff_le_mono)

lemma take_out_sub: "\<forall>k. take_out u r B k \<subseteq># B k"
  by (simp add: take_out_def)

lemma in_take_out: "v \<in># take_out u r B k \<Longrightarrow> v \<in># B k"
  by (auto simp: take_out_def split: if_splits dest: in_diffD)

lemma in_take_outI: "v \<in># B k \<Longrightarrow> v \<noteq> u \<Longrightarrow> v \<in># take_out u r B k"
  by (auto simp: take_out_def in_diff_count)

lemma dl_path_mono: "dl_path c B t k \<Longrightarrow> \<forall>k. B k \<subseteq># B' k \<Longrightarrow> dl_path c B' t k"
proof (induction arbitrary: B' rule: dl_path.induct)
  case (step u B k t r)
  show ?case
  proof (rule dl_path.step)
    show "u \<in># B' k" "u \<in># B' r" using step.hyps step.prems by (auto dest: mset_subset_eqD)
    show "dl_path c (take_out u r B') u r" using take_out_mono [OF step.prems] by (rule step.IH)
  qed (rule step.hyps)
qed (rule dl_path.found)

text \<open>A search can do without an entry of \<open>x\<close> unless it comes through \<open>x\<close>.\<close>

lemma dl_path_avoid:
  "dl_path c B s q \<Longrightarrow> dl_path c (take_out x k B) s q \<or> (\<exists>r. x \<in># B r \<and> dl_path c (take_out x r B) x r)"
proof (induction rule: dl_path.induct)
  case (step u B q s r)
  show ?case
  proof (cases "u = x")
    case True
    with step.hyps show ?thesis by blast
  next
    case False
    from step.IH show ?thesis
    proof
      assume "dl_path c (take_out x k (take_out u r B)) u r"
      then have "dl_path c (take_out u r (take_out x k B)) u r" by (simp add: take_out_commute)
      moreover have "u \<in># take_out x k B q" "u \<in># take_out x k B r"
        using step.hyps False by (auto intro: in_take_outI)
      ultimately show ?thesis using step.hyps(2) dl_path.step by blast
    next
      assume "\<exists>r'. x \<in># take_out u r B r' \<and> dl_path c (take_out x r' (take_out u r B)) x r'"
      then obtain r' where "x \<in># B r'" "dl_path c (take_out x r' (take_out u r B)) x r'"
        by (auto dest: in_take_out)
      then show ?thesis using dl_path_mono take_out_mono [OF take_out_sub] by blast
    qed
  qed
qed (auto intro: dl_path.found)

text \<open>
  The first other task of the resource decides: what can be found through another one can be found through
  it, because it is in the resource as well.
\<close>

lemma dl_hop_first:
  assumes "x \<in># B k" and "x \<noteq> t"
  shows "dl_hop c B t k \<longleftrightarrow> (\<exists>r. x \<in># B r \<and> dl_path c (take_out x r B) x r)"
proof
  assume "dl_hop c B t k"
  then obtain u r where u: "u \<in># B k" "u \<in># B r" "dl_path c (take_out u r B) u r"
    unfolding dl_hop_def by blast
  show "\<exists>r. x \<in># B r \<and> dl_path c (take_out x r B) x r"
  proof (cases "u = x")
    case True
    with u show ?thesis by blast
  next
    case False
    from dl_path_avoid [OF u(3), of x k] show ?thesis
    proof
      assume "dl_path c (take_out x k (take_out u r B)) u r"
      then have "dl_path c (take_out x k B) x k"
        using u(1,2) False dl_path.step [of u "take_out x k B" k x r c] by (simp add: take_out_commute in_take_outI)
      with assms(1) show ?thesis by blast
    next
      assume "\<exists>r'. x \<in># take_out u r B r' \<and> dl_path c (take_out x r' (take_out u r B)) x r'"
      then show ?thesis using in_take_out dl_path_mono take_out_mono [OF take_out_sub] by blast
    qed
  qed
qed (use assms in \<open>auto simp: dl_hop_def\<close>)

lemma dl_path_hop: "dl_path c B t k \<longleftrightarrow> t = c \<or> dl_hop c B t k"
  unfolding dl_hop_def by (subst dl_path.simps) auto

text \<open>A step need not use up its entry.\<close>

lemma dl_hop_walk:
  assumes "u \<in># B q" and "u \<noteq> s" and "u \<in># B r" and "dl_path c B u r"
  shows "dl_hop c B s q"
  using dl_path_avoid [OF assms(4), of u r] assms(1-3) unfolding dl_hop_def by blast

lemma shares_path:
  "(u, c) \<in> (shares B)\<^sup>* \<Longrightarrow> u \<in># B q \<Longrightarrow> s \<noteq> u \<Longrightarrow> dl_path c B s q"
proof (induction arbitrary: q s rule: converse_rtrancl_induct)
  case base
  then show ?case using dl_hop_walk [of c B q s q c] by (auto simp: dl_path_hop)
next
  case (step u w)
  from step.hyps(1) obtain q1 where q1: "u \<in># B q1" "w \<in># B q1" by (auto simp: shares_def)
  show ?case
  proof (cases "w = u")
    case False
    with step.IH [of q1 u] q1 have "dl_path c B u q1" by simp
    with dl_hop_walk [of u B q s q1 c] step.prems q1 show ?thesis by (simp add: dl_path_hop)
  qed (use step in simp)
qed

lemma shares_path_at:
  "(u, c) \<in> (shares B)\<^sup>* \<Longrightarrow> u \<noteq> c \<Longrightarrow> \<exists>q. u \<in># B q \<and> dl_path c B u q"
proof (induction rule: converse_rtrancl_induct)
  case (step u w)
  from step.hyps(1) obtain q where q: "u \<in># B q" "w \<in># B q" by (auto simp: shares_def)
  show ?case
  proof (cases "w = u")
    case False
    with shares_path [OF step.hyps(2) q(2), of u] q show ?thesis by blast
  qed (use step in simp)
qed simp

lemma dl_path_shares: "dl_path c B s q \<Longrightarrow> s = c \<or> (\<exists>u. u \<in># B q \<and> u \<noteq> s \<and> (u, c) \<in> (shares B)\<^sup>*)"
proof (induction rule: dl_path.induct)
  case (step u B q s r)
  have sub: "shares (take_out u r B) \<subseteq> shares B" by (auto simp: shares_def dest: in_take_out)
  have "(u, c) \<in> (shares B)\<^sup>*"
  proof (cases "u = c")
    case False
    with step.IH obtain w where w: "w \<in># take_out u r B r" "(w, c) \<in> (shares (take_out u r B))\<^sup>*" by blast
    then have "(w, c) \<in> (shares B)\<^sup>*" using rtrancl_mono [OF sub] by blast
    moreover have "(u, w) \<in> shares B" using w(1) step.hyps(3) by (auto simp: shares_def dest: in_take_out)
    ultimately show ?thesis by (rule converse_rtrancl_into_rtrancl [rotated])
  qed simp
  with step.hyps show ?case by blast
qed simp

lemma dl_hop_shares:
  "dl_hop t B t k \<longleftrightarrow> (\<exists>u. u \<in># B k \<and> u \<noteq> t \<and> (u, t) \<in> (shares B)\<^sup>*)"
proof
  assume "dl_hop t B t k"
  then obtain u r where u: "u \<in># B k" "u \<noteq> t" "u \<in># B r" "dl_path t (take_out u r B) u r"
    unfolding dl_hop_def by blast
  from dl_path_mono [OF u(4) take_out_sub] have "dl_path t B u r" .
  with dl_path_shares u(2) obtain w where w: "w \<in># B r" "(w, t) \<in> (shares B)\<^sup>*" by blast
  with u(3) have "(u, t) \<in> (shares B)\<^sup>*" by (auto simp: shares_def intro: converse_rtrancl_into_rtrancl)
  with u show "\<exists>u. u \<in># B k \<and> u \<noteq> t \<and> (u, t) \<in> (shares B)\<^sup>*" by blast
next
  assume "\<exists>u. u \<in># B k \<and> u \<noteq> t \<and> (u, t) \<in> (shares B)\<^sup>*"
  then show "dl_hop t B t k" using shares_path_at dl_hop_walk by blast
qed

section \<open>The search\<close>

lemma bindo_simps [simp]:
  "bindo None k = None" "bindo (Some (Inl err)) k = Some (Inl err)" "bindo (Some (Inr x)) k = k x"
  by (simp_all add: bindo_def)

definition bag_ok :: "tidbag \<Rightarrow> bool" where
  "bag_ok b \<longleftrightarrow> tidset_wf b \<and> NO_TASK \<notin> set (tidset_list b)"

definition rsrcs_ok :: "rsrc map_t \<Rightarrow> bool" where
  "rsrcs_ok rs \<longleftrightarrow> map_inv rs \<and> list_all (\<lambda>it. bag_ok (rs_tasks (snd it))) (map_iterate rs)"

definition rbags :: "rsrc map_t \<Rightarrow> bags" where
  "rbags rs k = (case map_find rs k of None \<Rightarrow> {#} | Some r \<Rightarrow> tidbag_mset (rs_tasks r))"

definition rkeys :: "rsrc map_t \<Rightarrow> 64 word list" where
  "rkeys rs = map fst (map_iterate rs)"

text \<open>The same resources in the same order, each with the same tasks and the same owner.\<close>

definition same_rsrcs :: "rsrc map_t \<Rightarrow> rsrc map_t \<Rightarrow> bool" where
  "same_rsrcs rs rs' \<longleftrightarrow> rsrcs_ok rs' \<and> rkeys rs' = rkeys rs \<and> rbags rs' = rbags rs \<and>
     (\<forall>k. map_option rs_owner (map_find rs' k) = map_option rs_owner (map_find rs k))"

lemma rsrcs_ok_alt: "rsrcs_ok rs \<longleftrightarrow> map_inv rs \<and> (\<forall>k r. map_find rs k = Some r \<longrightarrow> bag_ok (rs_tasks r))"
  unfolding rsrcs_ok_def using list_all_iterate [of rs "\<lambda>r. bag_ok (rs_tasks r)"] by blast

lemma rsrcs_okD: "rsrcs_ok rs \<Longrightarrow> map_find rs k = Some r \<Longrightarrow> bag_ok (rs_tasks r)"
  by (simp add: rsrcs_ok_alt)

lemma same_rsrcs_refl: "rsrcs_ok rs \<Longrightarrow> same_rsrcs rs rs"
  by (simp add: same_rsrcs_def)

lemma same_rsrcs_trans: "same_rsrcs rs rs' \<Longrightarrow> same_rsrcs rs' rs'' \<Longrightarrow> same_rsrcs rs rs''"
  by (simp add: same_rsrcs_def)

lemma rkeys_find: "k \<in> set (rkeys rs) \<longleftrightarrow> map_find rs k \<noteq> None"
  using map_find_None_iff [of rs k] by (auto simp: rkeys_def map_iterate_def)

lemma in_rbags_key: "u \<in># rbags rs k \<Longrightarrow> k \<in> set (rkeys rs)"
  unfolding rkeys_find by (auto simp: rbags_def split: option.splits)

lemma rsrc_entries_bags:
  assumes "rsrcs_ok rs"
  shows "rsrc_entries rs = (\<Sum>k\<leftarrow>rkeys rs. size (rbags rs k))"
proof -
  have "tidbag_size (rs_tasks (snd it)) = size (rbags rs (fst it))" if "it \<in> set (map_iterate rs)" for it
  proof -
    have f: "map_find rs (fst it) = Some (snd it)"
      using that assms map_iterate_find [of rs "fst it" "snd it"] by (simp add: rsrcs_ok_def)
    with rsrcs_okD [OF assms this] show ?thesis by (simp add: rbags_def tidbag_size_def bag_ok_def)
  qed
  then show ?thesis by (auto simp: rsrc_entries_def rkeys_def o_def intro!: arg_cong [of _ _ sum_list])
qed

lemma same_rsrcs_entries: "rsrcs_ok rs \<Longrightarrow> same_rsrcs rs rs' \<Longrightarrow> rsrc_entries rs' = rsrc_entries rs"
  by (simp add: rsrc_entries_bags same_rsrcs_def)

lemma rsrc_write:
  assumes "rsrcs_ok rs" and "map_find rs k = Some r" and "bag_ok b"
  shows "rsrcs_ok (map_write rs k (r\<lparr>rs_tasks := b\<rparr>))"
    and "rkeys (map_write rs k (r\<lparr>rs_tasks := b\<rparr>)) = rkeys rs"
    and "rbags (map_write rs k (r\<lparr>rs_tasks := b\<rparr>)) = (rbags rs)(k := tidbag_mset b)"
    and "map_option rs_owner (map_find (map_write rs k (r\<lparr>rs_tasks := b\<rparr>)) q) = map_option rs_owner (map_find rs q)"
  using assms
  by (auto simp: rsrcs_ok_alt map_find_write rbags_def fun_eq_iff)
    (simp add: rkeys_def map_iterate_def map_write_def)

lemma sum_list_take_out:
  assumes "distinct ks" and "k \<in> set ks" and "u \<in># B k"
  shows "Suc (\<Sum>q\<leftarrow>ks. size (take_out u k B q)) = (\<Sum>q\<leftarrow>ks. size (B q))"
  using assms
proof (induction ks)
  case (Cons q ks)
  show ?case
  proof (cases "q = k")
    case True
    then have eq: "map (\<lambda>q. size (take_out u k B q)) ks = map (\<lambda>q. size (B q)) ks"
      using Cons.prems by (auto simp: take_out_def)
    have "Suc (size (take_out u k B k)) = size (B k)" using Cons.prems(3) by (simp add: take_out_def size_Suc_Diff1)
    with True show ?thesis by (simp add: eq)
  qed (use Cons in \<open>simp add: take_out_def\<close>)
qed simp

lemma rsrc_take_out:
  assumes ok: "rsrcs_ok rs" and k: "map_find rs k = Some r" and u: "u \<in># rbags rs k"
  obtains b where "tidbag_remove (rs_tasks r) u = Inr b" and "rsrcs_ok (map_write rs k (r\<lparr>rs_tasks := b\<rparr>))"
    and "rbags (map_write rs k (r\<lparr>rs_tasks := b\<rparr>)) = take_out u k (rbags rs)"
    and "rkeys (map_write rs k (r\<lparr>rs_tasks := b\<rparr>)) = rkeys rs"
    and "Suc (rsrc_entries (map_write rs k (r\<lparr>rs_tasks := b\<rparr>))) = rsrc_entries rs"
proof -
  from rsrcs_okD [OF ok k] have w: "tidset_wf (rs_tasks r)" and n: "NO_TASK \<notin> set (tidset_list (rs_tasks r))"
    by (simp_all add: bag_ok_def)
  obtain b where b: "tidbag_remove (rs_tasks r) u = Inr b" "tidset_wf b" "tidbag_mset b = tidbag_mset (rs_tasks r) - {#u#}"
    using tidbag_remove_wf [OF w] by blast
  then have "set (tidset_list b) \<subseteq> set (tidset_list (rs_tasks r))" by (metis in_diffD set_mset_mset subsetI)
  with n b have "bag_ok b" by (auto simp: bag_ok_def)
  note w = rsrc_write [OF ok k this]
  have bags: "rbags (map_write rs k (r\<lparr>rs_tasks := b\<rparr>)) = take_out u k (rbags rs)"
    using b(3) k by (simp add: w(3) take_out_def rbags_def)
  have "distinct (rkeys rs)" using ok by (simp add: rsrcs_ok_def map_inv_def rkeys_def map_iterate_def)
  from sum_list_take_out [of "rkeys rs" k u "rbags rs", OF this in_rbags_key [OF u] u]
  have "Suc (rsrc_entries (map_write rs k (r\<lparr>rs_tasks := b\<rparr>))) = rsrc_entries rs"
    by (simp only: rsrc_entries_bags [OF w(1)] rsrc_entries_bags [OF ok] bags w(2))
  with that b(1) w bags show thesis by blast
qed

lemma rsrc_put_back:
  assumes ok: "rsrcs_ok rs" and k: "map_find rs k = Some r" and u: "u \<noteq> NO_TASK"
  obtains b where "tidbag_insert (rs_tasks r) u = Inr b" and "rsrcs_ok (map_write rs k (r\<lparr>rs_tasks := b\<rparr>))"
    and "rbags (map_write rs k (r\<lparr>rs_tasks := b\<rparr>)) = (rbags rs)(k := rbags rs k + {#u#})"
    and "rkeys (map_write rs k (r\<lparr>rs_tasks := b\<rparr>)) = rkeys rs"
proof -
  from rsrcs_okD [OF ok k] have w: "tidset_wf (rs_tasks r)" and n: "NO_TASK \<notin> set (tidset_list (rs_tasks r))"
    by (simp_all add: bag_ok_def)
  obtain b where b: "tidbag_insert (rs_tasks r) u = Inr b" "tidset_wf b" "tidset_list b = tidset_list (rs_tasks r) @ [u]"
    using tidbag_insert_wf [OF w] by blast
  with n u have "bag_ok b" by (auto simp: bag_ok_def)
  note w = rsrc_write [OF ok k this]
  with that [OF b(1)] b(3) k show thesis by (simp add: rbags_def)
qed

lemma dl_rsrc_loop_correct:
  assumes again: "\<And>rs k. rsrcs_ok rs \<Longrightarrow> rsrc_entries rs < n \<Longrightarrow>
      \<exists>rs'. again cur k rs = Some (Inr (dl_path c (rbags rs) cur k, rs')) \<and> same_rsrcs rs rs'"
    and cur: "cur \<noteq> NO_TASK"
  shows "rsrcs_ok rs \<Longrightarrow> rsrc_entries rs \<le> n \<Longrightarrow> set ks \<subseteq> set (rkeys rs) \<Longrightarrow>
    \<exists>rs'. dl_rsrc_loop again cur ks rs =
      Some (Inr (\<exists>k\<in>set ks. cur \<in># rbags rs k \<and> dl_path c (take_out cur k (rbags rs)) cur k, rs')) \<and> same_rsrcs rs rs'"
proof (induction ks arbitrary: rs)
  case (Cons k ks)
  obtain r where r: "map_find rs k = Some r" using Cons.prems(3) rkeys_find [of k rs] by auto
  have has: "tidbag_has (rs_tasks r) cur = Inr (cur \<in># rbags rs k)"
    using rsrcs_okD [OF Cons.prems(1) r] r tb.has_law by (simp add: bag_ok_def rbags_def)
  show ?case
  proof (cases "cur \<in># rbags rs k")
    case False
    with Cons.IH [OF Cons.prems(1,2)] Cons.prems(3) r has show ?thesis by (auto simp: rsrc_at_def)
  next
    case True
    let ?w = "\<lambda>b. map_write rs k (r\<lparr>rs_tasks := b\<rparr>)"
    obtain b where b: "tidbag_remove (rs_tasks r) cur = Inr b" "rsrcs_ok (?w b)"
        "rbags (?w b) = take_out cur k (rbags rs)" "rkeys (?w b) = rkeys rs" "Suc (rsrc_entries (?w b)) = rsrc_entries rs"
      by (rule rsrc_take_out [OF Cons.prems(1) r True])
    obtain rs1 where rs1: "again cur k (?w b) = Some (Inr (dl_path c (take_out cur k (rbags rs)) cur k, rs1))" "same_rsrcs (?w b) rs1"
      using again [OF b(2), of k] b(3,5) Cons.prems(2) by auto
    then have ok1: "rsrcs_ok rs1" and k1: "k \<in> set (rkeys rs1)"
      using b(4) Cons.prems(3) by (simp_all add: same_rsrcs_def)
    then obtain r1 where r1: "map_find rs1 k = Some r1" using rkeys_find [of k rs1] by auto
    let ?w1 = "\<lambda>b. map_write rs1 k (r1\<lparr>rs_tasks := b\<rparr>)"
    obtain b1 where b1: "tidbag_insert (rs_tasks r1) cur = Inr b1" "rsrcs_ok (?w1 b1)"
        "rbags (?w1 b1) = (rbags rs1)(k := rbags rs1 k + {#cur#})" "rkeys (?w1 b1) = rkeys rs1"
      by (rule rsrc_put_back [OF ok1 r1 cur])
    have "rbags (?w1 b1) = rbags rs"
      using rs1(2) b(3) True by (simp add: b1(3) same_rsrcs_def take_out_def)
    moreover have "map_option rs_owner (map_find (?w1 b1) q) = map_option rs_owner (map_find rs q)" for q
    proof -
      have "map_option rs_owner (map_find rs1 q) = map_option rs_owner (map_find (?w b) q)"
        using rs1(2) unfolding same_rsrcs_def by blast
      with r r1 show ?thesis by (auto simp: map_find_write split: if_splits)
    qed
    ultimately have same: "same_rsrcs rs (?w1 b1)"
      using b1(2,4) b(4) rs1(2) by (simp add: same_rsrcs_def)
    have step: "dl_rsrc_loop again cur (k # ks) rs =
        (if dl_path c (take_out cur k (rbags rs)) cur k then Some (Inr (True, ?w1 b1)) else dl_rsrc_loop again cur ks (?w1 b1))"
      using r has True b(1) rs1(1) r1 b1(1) by (simp add: rsrc_at_def Let_def)
    show ?thesis
    proof (cases "dl_path c (take_out cur k (rbags rs)) cur k")
      case True
      with step same \<open>cur \<in># rbags rs k\<close> show ?thesis by simp
    next
      case False
      have "rsrc_entries (?w1 b1) \<le> n" using same_rsrcs_entries [OF Cons.prems(1) same] Cons.prems(2) by simp
      from Cons.IH [OF b1(2) this] same Cons.prems(3) obtain rs' where
        "dl_rsrc_loop again cur ks (?w1 b1) =
           Some (Inr (\<exists>k\<in>set ks. cur \<in># rbags rs k \<and> dl_path c (take_out cur k (rbags rs)) cur k, rs'))"
        "same_rsrcs (?w1 b1) rs'" by (auto simp: same_rsrcs_def)
      with step False same_rsrcs_trans [OF same] show ?thesis by auto
    qed
  qed
qed (simp add: same_rsrcs_refl)

text \<open>What the recursive call of the search promises for bags with less than \<open>n\<close> entries.\<close>

definition search_ok :: "nat \<Rightarrow> task_id \<Rightarrow> (task_id \<Rightarrow> 64 word \<Rightarrow> rsrc map_t \<Rightarrow> (bool \<times> rsrc map_t) result option) \<Rightarrow> bool" where
  "search_ok n c again \<longleftrightarrow> (\<forall>cur k rs. cur \<noteq> NO_TASK \<longrightarrow> rsrcs_ok rs \<longrightarrow> rsrc_entries rs < n \<longrightarrow>
     (\<exists>rs'. again cur k rs = Some (Inr (dl_path c (rbags rs) cur k, rs')) \<and> same_rsrcs rs rs'))"

lemma dl_rsrc_loop_all:
  assumes "search_ok n c again" and "cur \<noteq> NO_TASK" and "rsrcs_ok rs" and "rsrc_entries rs \<le> n"
  obtains rs' where "dl_rsrc_loop again cur (rkeys rs) rs =
      Some (Inr (\<exists>r. cur \<in># rbags rs r \<and> dl_path c (take_out cur r (rbags rs)) cur r, rs'))" and "same_rsrcs rs rs'"
proof -
  have again: "\<exists>rs'. again cur k rs = Some (Inr (dl_path c (rbags rs) cur k, rs')) \<and> same_rsrcs rs rs'"
    if "rsrcs_ok rs" "rsrc_entries rs < n" for rs k using assms(1,2) that by (simp add: search_ok_def)
  have "(\<exists>k\<in>set (rkeys rs). cur \<in># rbags rs k \<and> dl_path c (take_out cur k (rbags rs)) cur k) \<longleftrightarrow>
      (\<exists>r. cur \<in># rbags rs r \<and> dl_path c (take_out cur r (rbags rs)) cur r)" using in_rbags_key by blast
  with dl_rsrc_loop_correct [of n again cur c rs "rkeys rs", OF again assms(2-4)] that show thesis by auto
qed

text \<open>One pass of the loop over the tasks.\<close>

lemma dl_task_loop_step:
  assumes "rsrcs_ok rs" and "map_find rs key = Some r"
  shows "dl_task_loop again t key (Suc m) idx rs =
    (if idx < size (rbags rs key) then
       if tidset_list (rs_tasks r) ! idx = t then dl_task_loop again t key m (Suc idx) rs
       else bindo (dl_rsrc_loop again (tidset_list (rs_tasks r) ! idx) (rkeys rs) rs) (\<lambda>(res, rs).
         if res then Some (Inr (True, rs)) else dl_task_loop again t key m (Suc idx) rs)
     else Some (Inr (False, rs)))"
  using rsrcs_okD [OF assms] assms(2)
  by (simp add: rsrc_at_def bag_ok_def rbags_def rkeys_def tidbag_size_def tidbag_get_def tidset_get_wf)

declare dl_task_loop.simps(2) [simp del]

lemma rsrc_task:
  assumes "rsrcs_ok rs" and "map_find rs key = Some r" and "idx < size (rbags rs key)"
  shows "tidset_list (rs_tasks r) ! idx \<in># rbags rs key" and "tidset_list (rs_tasks r) ! idx \<noteq> NO_TASK"
proof -
  have l: "tidset_list (rs_tasks r) ! idx \<in> set (tidset_list (rs_tasks r))" using assms(2,3) by (simp add: rbags_def)
  then show "tidset_list (rs_tasks r) ! idx \<in># rbags rs key" using assms(2) by (simp add: rbags_def)
  show "tidset_list (rs_tasks r) ! idx \<noteq> NO_TASK" using rsrcs_okD [OF assms(1,2)] l by (auto simp: bag_ok_def)
qed

lemma dl_task_loop_sound:
  assumes again: "search_ok n c again"
  shows "rsrcs_ok rs \<Longrightarrow> rsrc_entries rs \<le> n \<Longrightarrow> key \<in> set (rkeys rs) \<Longrightarrow> size (rbags rs key) - idx < m \<Longrightarrow>
    \<exists>res rs'. dl_task_loop again t key m idx rs = Some (Inr (res, rs')) \<and> same_rsrcs rs rs' \<and>
      (res \<longrightarrow> dl_hop c (rbags rs) t key)"
proof (induction m arbitrary: idx rs)
  case (Suc m)
  obtain r where r: "map_find rs key = Some r" using Suc.prems(3) rkeys_find [of key rs] by auto
  note step = dl_task_loop_step [OF Suc.prems(1) r, of again t m idx]
  show ?case
  proof (cases "idx < size (rbags rs key)")
    case False
    with step same_rsrcs_refl [OF Suc.prems(1)] show ?thesis by auto
  next
    case True
    let ?cur = "tidset_list (rs_tasks r) ! idx"
    note cur = rsrc_task [OF Suc.prems(1) r True]
    have m: "size (rbags rs key) - Suc idx < m" using Suc.prems(4) True by simp
    show ?thesis
    proof (cases "?cur = t")
      case True
      with step \<open>idx < _\<close> Suc.IH [OF Suc.prems(1-3) m] show ?thesis by simp
    next
      case False
      obtain rs1 where rs1: "dl_rsrc_loop again ?cur (rkeys rs) rs = Some (Inr (dl_hop c (rbags rs) t key, rs1))" "same_rsrcs rs rs1"
        unfolding dl_hop_first [of ?cur "rbags rs" key t c, OF cur(1) False]
        by (rule dl_rsrc_loop_all [OF again cur(2) Suc.prems(1,2)])
      then have "\<exists>res rs'. dl_task_loop again t key m (Suc idx) rs1 = Some (Inr (res, rs')) \<and> same_rsrcs rs1 rs' \<and>
          (res \<longrightarrow> dl_hop c (rbags rs1) t key)"
        using Suc.prems m same_rsrcs_entries [OF Suc.prems(1) rs1(2)] by (intro Suc.IH) (auto simp: same_rsrcs_def)
      with step rs1 True False same_rsrcs_trans [OF rs1(2)] show ?thesis
        by (cases "dl_hop c (rbags rs) t key") (auto simp: same_rsrcs_def)
    qed
  qed
qed simp

lemma dl_task_loop_correct:
  assumes again: "search_ok n c again" and ok: "rsrcs_ok rs" "rsrc_entries rs \<le> n" and key: "map_find rs key = Some r"
  shows "size (rbags rs key) - idx < m \<Longrightarrow> \<forall>i < idx. i < size (rbags rs key) \<longrightarrow> tidset_list (rs_tasks r) ! i = t \<Longrightarrow>
    \<exists>rs'. dl_task_loop again t key m idx rs = Some (Inr (dl_hop c (rbags rs) t key, rs')) \<and> same_rsrcs rs rs'"
proof (induction m arbitrary: idx)
  case (Suc m)
  note step = dl_task_loop_step [OF ok(1) key, of again t m idx]
  show ?case
  proof (cases "idx < size (rbags rs key)")
    case False
    have "size (rbags rs key) = length (tidset_list (rs_tasks r))" by (simp add: rbags_def key)
    with False Suc.prems(2) have "\<forall>u\<in>set (tidset_list (rs_tasks r)). u = t" by (auto simp: in_set_conv_nth)
    then have "\<not> dl_hop c (rbags rs) t key" by (auto simp: dl_hop_def rbags_def [of _ key] key)
    with step False ok(1) show ?thesis by (simp add: same_rsrcs_refl)
  next
    case True
    let ?cur = "tidset_list (rs_tasks r) ! idx"
    note cur = rsrc_task [OF ok(1) key True]
    have m: "size (rbags rs key) - Suc idx < m" using Suc.prems(1) True by simp
    show ?thesis
    proof (cases "?cur = t")
      case eq: True
      then have "\<forall>i<Suc idx. i < size (rbags rs key) \<longrightarrow> tidset_list (rs_tasks r) ! i = t"
        using Suc.prems(2) less_Suc_eq by auto
      with Suc.IH [OF m] step True eq show ?thesis by simp
    next
      case False
      obtain rs1 where rs1: "dl_rsrc_loop again ?cur (rkeys rs) rs = Some (Inr (dl_hop c (rbags rs) t key, rs1))" "same_rsrcs rs rs1"
        unfolding dl_hop_first [of ?cur "rbags rs" key t c, OF cur(1) False]
        by (rule dl_rsrc_loop_all [OF again cur(2) ok])
      have "key \<in> set (rkeys rs)" using key rkeys_find by blast
      then have "\<exists>res rs'. dl_task_loop again t key m (Suc idx) rs1 = Some (Inr (res, rs')) \<and> same_rsrcs rs1 rs' \<and>
          (res \<longrightarrow> dl_hop c (rbags rs1) t key)"
        using ok m rs1(2) same_rsrcs_entries [OF ok(1) rs1(2)] by (intro dl_task_loop_sound [OF again]) (auto simp: same_rsrcs_def)
      with step rs1 True False same_rsrcs_trans [OF rs1(2)] show ?thesis
        by (cases "dl_hop c (rbags rs) t key") (auto simp: same_rsrcs_def)
    qed
  qed
qed simp

lemma dl_any_other_correct:
  assumes "tidset_wf b" and "set is \<subseteq> {..<tidbag_size b}"
  shows "dl_any_other is b t = Inr (\<exists>i\<in>set is. tidset_list b ! i \<noteq> t)"
  using assms by (induction "is") (auto simp: tidbag_get_def tidbag_size_def tidset_get_wf)

lemma dl_check_iter_correct:
  assumes "t \<noteq> NO_TASK" and "rsrcs_ok rs" and "rsrc_entries rs < n"
  shows "\<exists>rs'. dl_check_iter n t key cycle rs =
      Some (Inr (cycle = t \<or> dl_hop (if cycle = NO_TASK then t else cycle) (rbags rs) t key, rs')) \<and> same_rsrcs rs rs'"
  using assms
proof (induction n arbitrary: t key cycle rs)
  case (Suc n)
  define c where "c = (if cycle = NO_TASK then t else cycle)"
  let ?again = "\<lambda>cur key rs. dl_check_iter n cur key c rs"
  have c0: "c \<noteq> NO_TASK" using Suc.prems(1) by (simp add: c_def)
  have again: "search_ok n c ?again"
    unfolding search_ok_def
  proof (intro allI impI)
    fix cur k rs
    assume "cur \<noteq> NO_TASK" "rsrcs_ok rs" "rsrc_entries rs < n"
    from Suc.IH [OF this, of k c] c0
    show "\<exists>rs'. dl_check_iter n cur k c rs = Some (Inr (dl_path c (rbags rs) cur k, rs')) \<and> same_rsrcs rs rs'"
      by (simp add: dl_path_hop eq_commute [of cur])
  qed
  show ?case
  proof (cases "cycle = t \<or> map_find rs key = None")
    case True
    moreover have "map_find rs key = None \<Longrightarrow> \<not> dl_hop c (rbags rs) t key" by (simp add: dl_hop_def rbags_def [of _ key])
    ultimately show ?thesis using Suc.prems by (auto simp: same_rsrcs_refl c_def)
  next
    case False
    then obtain r where cyc: "cycle \<noteq> t" and r: "map_find rs key = Some r" by auto
    then have wf: "tidset_wf (rs_tasks r)" using rsrcs_okD [OF Suc.prems(2)] by (simp add: bag_ok_def)
    then have sz: "size (rbags rs key) = tidbag_size (rs_tasks r)" by (simp add: rbags_def r tidbag_size_def)
    let ?l = "tidset_list (rs_tasks r)"
    let ?other = "\<exists>i\<in>set [0..<tidbag_size (rs_tasks r)]. ?l ! i \<noteq> t"
    have any: "dl_any_other [0..<tidbag_size (rs_tasks r)] (rs_tasks r) t = Inr ?other"
      using wf by (intro dl_any_other_correct) auto
    have body: "dl_check_iter (Suc n) t key cycle rs =
        (if ?other then dl_task_loop ?again t key (Suc (tidbag_size (rs_tasks r))) 0 rs else Some (Inr (False, rs)))"
      using cyc r Suc.prems(1) any by (cases ?other) (simp_all add: c_def)
    show ?thesis
    proof (cases ?other)
      case True
      with dl_task_loop_correct [OF again Suc.prems(2) _ r, of 0 "Suc (tidbag_size (rs_tasks r))" t] body cyc sz Suc.prems(3)
      show ?thesis by (simp add: c_def)
    next
      case False
      then have "\<forall>u\<in>set ?l. u = t" using wf by (auto simp: in_set_conv_nth tidbag_size_def)
      then have "\<not> dl_hop c (rbags rs) t key" by (auto simp: dl_hop_def rbags_def [of _ key] r)
      with False body cyc Suc.prems(2) show ?thesis by (simp add: same_rsrcs_refl c_def)
    qed
  qed
qed simp

lemma dl_check_correct:
  assumes "t \<noteq> NO_TASK" and "rsrcs_ok rs"
  shows "\<exists>rs'. dl_check t key rs =
      Some (Inr (\<exists>u. u \<in># rbags rs key \<and> u \<noteq> t \<and> (u, t) \<in> (shares (rbags rs))\<^sup>*, rs')) \<and> same_rsrcs rs rs'"
  using dl_check_iter_correct [OF assms, of "Suc (rsrc_entries rs)" key NO_TASK] assms(1)
  by (auto simp: dl_check_def dl_hop_shares)

section \<open>Entering and leaving a resource\<close>

definition deadlock_inv :: "handler_deadlock \<Rightarrow> bool" where
  "deadlock_inv s \<longleftrightarrow> rsrcs_ok (dl_resources s) \<and> rsrcs_ok (dl_lost s)"

lemma deadlock_inv_init: "deadlock_inv deadlock_state_init"
  by (simp add: deadlock_inv_def deadlock_state_init_def rsrcs_ok_alt)

lemma rsrc_init_ok:
  assumes "rsrcs_ok m"
  obtains r m' where "rsrc_init m a = Inr (r, m')" and "rsrcs_ok m'" and "map_find m' a = Some r" and "rbags m' = rbags m"
proof -
  let ?f = "\<lparr>rs_tasks = tidbag_init, rs_owner = NO_TASK\<rparr>"
  let ?r = "case map_find m a of Some r \<Rightarrow> r | None \<Rightarrow> ?f"
  have inv: "map_inv m" using assms by (simp add: rsrcs_ok_def)
  obtain m' where m': "km.ensure zero_rsrc m a ?f = Inr m'" "map_inv m'" "map_find m' = (map_find m)(a \<mapsto> ?r)"
    using km.ensure_total [OF inv] by blast
  have "rsrc_init m a = bindr (km.ensure zero_rsrc m a ?f) (\<lambda>m'. Inr (?r, m'))"
    by (cases "map_find m a"; cases "map_register zero_rsrc m a") (simp_all add: rsrc_init_def km.ensure_def Let_def)
  with m' have "rsrc_init m a = Inr (?r, m')" by simp
  moreover have "rsrcs_ok m'" using assms m' by (auto simp: rsrcs_ok_alt bag_ok_def split: option.splits)
  moreover have "map_find m' a = Some ?r" using m'(3) by simp
  moreover have "rbags m' = rbags m" using m'(3) by (auto simp: rbags_def fun_eq_iff split: option.splits)
  ultimately show thesis by (rule that)
qed

text \<open>An item whose owner changes as well.\<close>

lemma rsrc_write_owner:
  assumes "rsrcs_ok rs" and "map_find rs k = Some r" and "bag_ok b"
  shows "rsrcs_ok (map_write rs k \<lparr>rs_tasks = b, rs_owner = w\<rparr>)"
    and "rbags (map_write rs k \<lparr>rs_tasks = b, rs_owner = w\<rparr>) = (rbags rs)(k := tidbag_mset b)"
  using assms by (auto simp: rsrcs_ok_alt map_find_write rbags_def fun_eq_iff)

lemma bag_ok_insert:
  assumes "bag_ok b" and "t \<noteq> NO_TASK"
  obtains b' where "tidbag_insert b t = Inr b'" and "bag_ok b'" and "tidbag_mset b' = tidbag_mset b + {#t#}"
  using assms tidbag_insert_wf [of b t] by (auto simp: bag_ok_def)

lemma bag_ok_remove:
  assumes "bag_ok b"
  obtains b' where "tidbag_remove b t = Inr b'" and "bag_ok b'" and "tidbag_mset b' = tidbag_mset b - {#t#}"
proof -
  obtain b' where b': "tidbag_remove b t = Inr b'" "tidset_wf b'" "tidbag_mset b' = tidbag_mset b - {#t#}"
    using assms tidbag_remove_wf [of b t] by (auto simp: bag_ok_def)
  then have "set (tidset_list b') \<subseteq> set (tidset_list b)" by (metis in_diffD set_mset_mset subsetI)
  with assms b' that show thesis by (auto simp: bag_ok_def)
qed

lemma dl_acquiring_spec:
  assumes "rsrcs_ok (dl_resources s)" and "t \<noteq> NO_TASK"
  obtains rs where "dl_acquiring ms t a s = Inr (s\<lparr>dl_resources := rs\<rparr>)" and "rsrcs_ok rs"
    and "rbags rs = (rbags (dl_resources s))(a := rbags (dl_resources s) a + {#t#})"
proof -
  obtain r m where m: "rsrc_init (dl_resources s) a = Inr (r, m)" "rsrcs_ok m" "map_find m a = Some r" "rbags m = rbags (dl_resources s)"
    by (rule rsrc_init_ok [OF assms(1)])
  obtain b where b: "tidbag_insert (rs_tasks r) t = Inr b" "bag_ok b" "tidbag_mset b = tidbag_mset (rs_tasks r) + {#t#}"
    by (rule bag_ok_insert [OF rsrcs_okD [OF m(2,3)] assms(2)])
  note w = rsrc_write_owner [OF m(2,3) b(2), of "mutex_owner ms a"]
  have "rbags m a = tidbag_mset (rs_tasks r)" by (simp add: rbags_def m(3))
  then have at: "rbags (dl_resources s) a = tidbag_mset (rs_tasks r)" by (simp add: m(4))
  have "dl_acquiring ms t a s = Inr (s\<lparr>dl_resources := map_write m a \<lparr>rs_tasks = b, rs_owner = mutex_owner ms a\<rparr>\<rparr>)"
    using m(1) b(1) by (simp add: dl_acquiring_def)
  moreover have "rbags (map_write m a \<lparr>rs_tasks = b, rs_owner = mutex_owner ms a\<rparr>) =
      (rbags (dl_resources s))(a := rbags (dl_resources s) a + {#t#})" using w(2) by (simp add: m(4) at b(3))
  ultimately show thesis using w(1) by (intro that)
qed

lemma dl_released_spec:
  assumes ok: "rsrcs_ok (dl_resources s)"
  obtains rs where "dl_released cfg ms t a s =
      Inr (map_find (dl_resources s) a = None \<longrightarrow> \<not> dc_extra_release_check cfg, s\<lparr>dl_resources := rs\<rparr>)"
    and "rsrcs_ok rs" and "rbags rs = take_out t a (rbags (dl_resources s))"
proof (cases "map_find (dl_resources s) a")
  case None
  then have "take_out t a (rbags (dl_resources s)) = rbags (dl_resources s)" by (auto simp: take_out_def rbags_def fun_eq_iff)
  with None ok that [of "dl_resources s"] show thesis by (simp add: dl_released_def)
next
  case (Some r)
  obtain b where b: "tidbag_remove (rs_tasks r) t = Inr b" "bag_ok b" "tidbag_mset b = tidbag_mset (rs_tasks r) - {#t#}"
    by (rule bag_ok_remove [OF rsrcs_okD [OF ok Some]])
  have at: "rbags (dl_resources s) a = tidbag_mset (rs_tasks r)" by (simp add: rbags_def Some)
  show thesis
  proof (cases "tidbag_size b = 0")
    case True
    have inv: "map_inv (dl_resources s)" using ok by (simp add: rsrcs_ok_def)
    have "tidset_list b = []" using True b(2) by (metis bag_ok_def length_0_conv length_tidset_list tidbag_size_def)
    with b(3) have z: "tidbag_mset (rs_tasks r) - {#t#} = {#}" by simp
    let ?rs = "map_deregister (dl_resources s) a"
    have "rsrcs_ok ?rs" using ok by (auto simp: rsrcs_ok_alt map_find_deregister map_inv_deregister split: if_splits)
    moreover have "rbags ?rs = take_out t a (rbags (dl_resources s))"
      using z at by (auto simp: rbags_def take_out_def map_find_deregister [OF inv] fun_eq_iff Some)
    ultimately show thesis using that Some b(1) True by (simp add: dl_released_def)
  next
    case False
    note w = rsrc_write_owner [OF ok Some b(2), of "mutex_owner ms a"]
    have "(rbags (dl_resources s))(a := tidbag_mset b) = take_out t a (rbags (dl_resources s))"
      by (simp add: take_out_def at b(3))
    with that Some b(1) False w show thesis by (simp add: dl_released_def)
  qed
qed

section \<open>Resources of a finished task\<close>

definition lost_verdict :: "deadlock_config \<Rightarrow> bags \<Rightarrow> task_id \<Rightarrow> 64 word \<Rightarrow> bool" where
  "lost_verdict cfg B t k \<longleftrightarrow> B k - {#t#} \<noteq> {#} \<or> dc_lost_resource_check cfg"

text \<open>One pass of the loop at a resource that contains the task.\<close>

lemma dl_mark_lost_step:
  assumes ok: "rsrcs_ok (dl_resources s)" "rsrcs_ok (dl_lost s)" and t: "t \<noteq> NO_TASK" "t \<in># rbags (dl_resources s) k"
  obtains s' where "dl_mark_lost_loop cfg t (k # ks) ret s =
      dl_mark_lost_loop cfg t ks (lost_verdict cfg (rbags (dl_resources s)) t k) s'"
    and "rsrcs_ok (dl_resources s')" and "rsrcs_ok (dl_lost s')" and "rkeys (dl_resources s') = rkeys (dl_resources s)"
    and "rbags (dl_resources s') = take_out t k (rbags (dl_resources s))"
    and "rbags (dl_lost s') = (rbags (dl_lost s))(k := rbags (dl_lost s) k + {#t#})"
proof -
  obtain r where r: "map_find (dl_resources s) k = Some r" using in_rbags_key [OF t(2)] rkeys_find by blast
  then have at: "rbags (dl_resources s) k = tidbag_mset (rs_tasks r)" by (simp add: rbags_def)
  note bok = rsrcs_okD [OF ok(1) r]
  obtain b where b: "tidbag_remove (rs_tasks r) t = Inr b" "bag_ok b" "tidbag_mset b = tidbag_mset (rs_tasks r) - {#t#}"
    by (rule bag_ok_remove [OF bok])
  obtain l m where m: "rsrc_init (dl_lost s) k = Inr (l, m)" "rsrcs_ok m" "map_find m k = Some l" "rbags m = rbags (dl_lost s)"
    by (rule rsrc_init_ok [OF ok(2)])
  obtain lb where lb: "tidbag_insert (rs_tasks l) t = Inr lb" "bag_ok lb" "tidbag_mset lb = tidbag_mset (rs_tasks l) + {#t#}"
    by (rule bag_ok_insert [OF rsrcs_okD [OF m(2,3)] t(1)])
  have has: "tidbag_has (rs_tasks r) t = Inr True"
    using bok t(2) at tb.has_law [of "rs_tasks r" t] by (simp add: bag_ok_def)
  have wfb: "tidset_wf b" using b(2) by (simp add: bag_ok_def)
  have "tidbag_size b > 0 \<longleftrightarrow> tidbag_mset b \<noteq> {#}"
    using length_tidset_list [OF wfb] by (cases "tidset_list b") (simp_all add: tidbag_size_def)
  then have v: "(if tidbag_size b > 0 then bindr (tidbag_get b 0) (\<lambda>waiter. Inr True) else Inr (dc_lost_resource_check cfg)) =
      Inr (lost_verdict cfg (rbags (dl_resources s)) t k)"
    using tidset_get_wf [OF wfb] by (simp add: lost_verdict_def at b(3) tidbag_get_def)
  have lat: "rbags (dl_lost s) k = tidbag_mset (rs_tasks l)" using m(3) by (simp add: m(4) [symmetric] rbags_def)
  note w = rsrc_write [OF ok(1) r b(2)] and lw = rsrc_write [OF m(2,3) lb(2)]
  let ?s = "s\<lparr>dl_resources := map_write (dl_resources s) k (r\<lparr>rs_tasks := b\<rparr>), dl_lost := map_write m k (l\<lparr>rs_tasks := lb\<rparr>)\<rparr>"
  have "dl_mark_lost_loop cfg t (k # ks) ret s =
      dl_mark_lost_loop cfg t ks (lost_verdict cfg (rbags (dl_resources s)) t k) ?s"
    using r has b(1) m(1) lb(1) v by (simp add: rsrc_at_def)
  moreover have "rbags (dl_resources ?s) = take_out t k (rbags (dl_resources s))" using w(3) by (simp add: take_out_def at b(3))
  moreover have "rbags (dl_lost ?s) = (rbags (dl_lost s))(k := rbags (dl_lost s) k + {#t#})"
    using lw(3) by (simp add: m(4) lat lb(3))
  ultimately show thesis using that [of ?s] w(1,2) lw(1) by simp
qed

text \<open>The verdict of the loop: that of the last resource which contains the task.\<close>

definition lost_ret :: "deadlock_config \<Rightarrow> bags \<Rightarrow> task_id \<Rightarrow> 64 word list \<Rightarrow> bool \<Rightarrow> bool" where
  "lost_ret cfg B t ks ret =
     (case rev (filter (\<lambda>k. t \<in># B k) ks) of [] \<Rightarrow> ret | k # _ \<Rightarrow> lost_verdict cfg B t k)"

text \<open>The loop moves one entry of the task from each resource to the lost map.\<close>

definition lost_moved :: "task_id \<Rightarrow> 64 word list \<Rightarrow> handler_deadlock \<Rightarrow> handler_deadlock \<Rightarrow> bool" where
  "lost_moved t ks s s' \<longleftrightarrow> rsrcs_ok (dl_resources s') \<and> rsrcs_ok (dl_lost s') \<and>
     (\<forall>k. rbags (dl_resources s') k = rbags (dl_resources s) k - (if k \<in> set ks then {#t#} else {#})) \<and>
     (\<forall>k. rbags (dl_lost s') k =
        rbags (dl_lost s) k + (if k \<in> set ks \<and> t \<in># rbags (dl_resources s) k then {#t#} else {#}))"

lemma lost_ret_Cons:
  assumes "t \<in># B k" and "k \<notin> set ks"
  shows "lost_ret cfg (take_out t k B) t ks (lost_verdict cfg B t k) = lost_ret cfg B t (k # ks) ret"
proof -
  have at: "take_out t k B q = B q" if "q \<in> set ks" for q using that assms(2) by (auto simp: take_out_def)
  then have f: "filter (\<lambda>q. t \<in># take_out t k B q) ks = filter (\<lambda>q. t \<in># B q) ks" by (intro filter_cong) auto
  show ?thesis
  proof (cases "rev (filter (\<lambda>q. t \<in># B q) ks)")
    case (Cons q qs)
    then have "q \<in> set (rev (filter (\<lambda>q. t \<in># B q) ks))" by simp
    then have "q \<in> set ks" by simp
    with at have "lost_verdict cfg (take_out t k B) t q = lost_verdict cfg B t q" by (simp add: lost_verdict_def)
    with Cons assms(1) show ?thesis by (simp add: lost_ret_def f)
  qed (use assms(1) in \<open>simp add: lost_ret_def f\<close>)
qed

lemma lost_moved_Cons:
  assumes "lost_moved t ks s1 s'" and "k \<notin> set ks" and "t \<in># rbags (dl_resources s) k"
    and "rbags (dl_resources s1) = take_out t k (rbags (dl_resources s))"
    and "rbags (dl_lost s1) = (rbags (dl_lost s))(k := rbags (dl_lost s) k + {#t#})"
  shows "lost_moved t (k # ks) s s'"
  using assms by (auto simp: lost_moved_def take_out_def)

lemma dl_mark_lost_loop_spec:
  "t \<noteq> NO_TASK \<Longrightarrow> rsrcs_ok (dl_resources s) \<Longrightarrow> rsrcs_ok (dl_lost s) \<Longrightarrow> distinct ks \<Longrightarrow>
     set ks \<subseteq> set (rkeys (dl_resources s)) \<Longrightarrow>
   \<exists>s'. dl_mark_lost_loop cfg t ks ret s = Inr (lost_ret cfg (rbags (dl_resources s)) t ks ret, s') \<and> lost_moved t ks s s'"
proof (induction ks arbitrary: ret s)
  case Nil
  then show ?case by (simp add: lost_ret_def lost_moved_def)
next
  case (Cons k ks)
  obtain r where r: "map_find (dl_resources s) k = Some r" using Cons.prems(5) rkeys_find by auto
  show ?case
  proof (cases "t \<in># rbags (dl_resources s) k")
    case False
    have "tidbag_has (rs_tasks r) t = Inr False"
      using rsrcs_okD [OF Cons.prems(2) r] r False tb.has_law [of "rs_tasks r" t] by (simp add: bag_ok_def rbags_def)
    then have step: "dl_mark_lost_loop cfg t (k # ks) ret s = dl_mark_lost_loop cfg t ks ret s" using r by (simp add: rsrc_at_def)
    from Cons.IH [OF Cons.prems(1-3), of ret] Cons.prems(4,5) obtain s' where
      s': "dl_mark_lost_loop cfg t ks ret s = Inr (lost_ret cfg (rbags (dl_resources s)) t ks ret, s')" "lost_moved t ks s s'" by auto
    have "lost_moved t (k # ks) s s'" using s'(2) False by (auto simp: lost_moved_def diff_single_trivial)
    with step s'(1) False show ?thesis by (simp add: lost_ret_def)
  next
    case True
    obtain s1 where s1: "dl_mark_lost_loop cfg t (k # ks) ret s =
          dl_mark_lost_loop cfg t ks (lost_verdict cfg (rbags (dl_resources s)) t k) s1"
        "rsrcs_ok (dl_resources s1)" "rsrcs_ok (dl_lost s1)" "rkeys (dl_resources s1) = rkeys (dl_resources s)"
        "rbags (dl_resources s1) = take_out t k (rbags (dl_resources s))"
        "rbags (dl_lost s1) = (rbags (dl_lost s))(k := rbags (dl_lost s) k + {#t#})"
      by (rule dl_mark_lost_step [OF Cons.prems(2,3,1) True])
    have d: "distinct ks" "k \<notin> set ks" and sub: "set ks \<subseteq> set (rkeys (dl_resources s1))"
      using Cons.prems(4,5) by (auto simp: s1(4))
    obtain s' where s': "dl_mark_lost_loop cfg t ks (lost_verdict cfg (rbags (dl_resources s)) t k) s1 =
        Inr (lost_ret cfg (rbags (dl_resources s1)) t ks (lost_verdict cfg (rbags (dl_resources s)) t k), s')" "lost_moved t ks s1 s'"
      using Cons.IH [OF Cons.prems(1) s1(2,3) d(1) sub] by blast
    from lost_moved_Cons [OF s'(2) d(2) True s1(5,6)] lost_ret_Cons [where B = "rbags (dl_resources s)", OF True d(2)] s1(1,5) s'(1)
    show ?thesis by auto
  qed
qed

section \<open>The handler\<close>

lemma dl_is_lost_spec:
  assumes "rsrcs_ok (dl_lost s)"
  shows "dl_is_lost a s = Inr (map_find (dl_lost s) a \<noteq> None)"
proof (cases "map_iterate (dl_lost s)")
  case Nil
  then show ?thesis by (simp add: dl_is_lost_def map_find_def map_iterate_def)
next
  case (Cons it its)
  with assms have "tidset_wf (rs_tasks (snd it))" by (auto simp: rsrcs_ok_def bag_ok_def)
  with Cons show ?thesis by (simp add: dl_is_lost_def tidbag_get_def tidset_get_wf)
qed

text \<open>What an acquire event reports: a chain of shared resources that leads back to the task, or a resource
  whose owner has ended.\<close>

definition acquire_alarm :: "handler_deadlock \<Rightarrow> task_id \<Rightarrow> 64 word \<Rightarrow> bool" where
  "acquire_alarm s t a \<longleftrightarrow>
     (\<exists>u. u \<in># rbags (dl_resources s) a \<and> u \<noteq> t \<and> (u, t) \<in> (shares (rbags (dl_resources s)))\<^sup>*) \<or> map_find (dl_lost s) a \<noteq> None"

lemma dl_acquire_checks_spec:
  assumes "deadlock_inv s" and "t \<noteq> NO_TASK"
  obtains rs where "dl_acquire_checks t a s = Some (Inr (acquire_alarm s t a, s\<lparr>dl_resources := rs\<rparr>))"
    and "same_rsrcs (dl_resources s) rs"
proof -
  from assms(1) have ok: "rsrcs_ok (dl_resources s)" "rsrcs_ok (dl_lost s)" by (simp_all add: deadlock_inv_def)
  let ?d = "\<exists>u. u \<in># rbags (dl_resources s) a \<and> u \<noteq> t \<and> (u, t) \<in> (shares (rbags (dl_resources s)))\<^sup>*"
  obtain rs where rs: "dl_check t a (dl_resources s) = Some (Inr (?d, rs))" "same_rsrcs (dl_resources s) rs"
    using dl_check_correct [OF assms(2) ok(1)] by blast
  have "dl_is_lost a (s\<lparr>dl_resources := rs\<rparr>) = Inr (map_find (dl_lost s) a \<noteq> None)"
    using dl_is_lost_spec [of "s\<lparr>dl_resources := rs\<rparr>" a] ok(2) by simp
  with rs that show thesis by (simp add: dl_acquire_checks_def acquire_alarm_def)
qed

text \<open>The switch on an acquire event of a mutex: alarm and new entry.\<close>

lemma dl_switch_acquire:
  assumes "deadlock_inv s" and "t \<noteq> NO_TASK" and "cp_type_id cp = EVENT_MUTEX_ACQUIRE"
  obtains rs where "dl_switch try_ret cfg ms t cp s = Some (Inr (acquire_alarm s t (cp_addr cp), s\<lparr>dl_resources := rs\<rparr>))"
    and "rsrcs_ok rs"
    and "rbags rs = (rbags (dl_resources s))(cp_addr cp := rbags (dl_resources s) (cp_addr cp) + {#t#})"
proof -
  obtain r1 where r1: "dl_acquire_checks t (cp_addr cp) s = Some (Inr (acquire_alarm s t (cp_addr cp), s\<lparr>dl_resources := r1\<rparr>))"
      "same_rsrcs (dl_resources s) r1" by (rule dl_acquire_checks_spec [OF assms(1,2)])
  then have ok1: "rsrcs_ok (dl_resources (s\<lparr>dl_resources := r1\<rparr>))" by (simp add: same_rsrcs_def)
  obtain rs where rs: "dl_acquiring ms t (cp_addr cp) (s\<lparr>dl_resources := r1\<rparr>) = Inr (s\<lparr>dl_resources := r1, dl_resources := rs\<rparr>)" "rsrcs_ok rs"
      "rbags rs = (rbags r1)(cp_addr cp := rbags r1 (cp_addr cp) + {#t#})"
    using dl_acquiring_spec [OF ok1 assms(2)] by (metis handler_deadlock.select_convs(1) handler_deadlock.update_convs(1) handler_deadlock.surjective)
  with r1 assms(3) that show thesis by (simp add: dl_switch_def mutex_event_addr_def same_rsrcs_def)
qed

lemma dl_switch_total:
  assumes inv: "deadlock_inv s" and t: "t \<noteq> NO_TASK"
  shows "\<exists>d s'. dl_switch try_ret cfg ms t cp s = Some (Inr (d, s')) \<and> deadlock_inv s'"
proof -
  from inv have ok: "rsrcs_ok (dl_resources s)" "rsrcs_ok (dl_lost s)" by (simp_all add: deadlock_inv_def)
  let ?a = "cp_addr cp"
  consider "cp_type_id cp = EVENT_MUTEX_ACQUIRE" | "cp_type_id cp = EVENT_MUTEX_TRYACQUIRE"
    | "cp_type_id cp = EVENT_DEADLOCK_RSRC_ACQUIRING" | "cp_type_id cp = EVENT_MUTEX_RELEASE"
    | "cp_type_id cp = EVENT_DEADLOCK_RSRC_RELEASED" | "cp_type_id cp = EVENT_TASK_FINI"
    | "cp_type_id cp \<notin> {EVENT_MUTEX_ACQUIRE, EVENT_MUTEX_TRYACQUIRE, EVENT_DEADLOCK_RSRC_ACQUIRING, EVENT_MUTEX_RELEASE,
        EVENT_DEADLOCK_RSRC_RELEASED, EVENT_TASK_FINI}" by blast
  then show ?thesis
  proof cases
    case 1
    obtain rs where "dl_switch try_ret cfg ms t cp s = Some (Inr (acquire_alarm s t ?a, s\<lparr>dl_resources := rs\<rparr>))" "rsrcs_ok rs"
      by (rule dl_switch_acquire [OF inv t 1])
    with ok show ?thesis by (simp add: deadlock_inv_def)
  next
    case 2
    obtain rs where "dl_acquiring ms t ?a s = Inr (s\<lparr>dl_resources := rs\<rparr>)" "rsrcs_ok rs" by (rule dl_acquiring_spec [OF ok(1) t])
    with 2 ok dl_is_lost_spec [OF ok(2), of ?a] show ?thesis
      by (simp add: dl_switch_def mutex_event_addr_def mutex_try_ok_def mutex_event_defs deadlock_inv_def)
  next
    case 3
    obtain rs where "dl_acquire_checks t ?a s = Some (Inr (acquire_alarm s t ?a, s\<lparr>dl_resources := rs\<rparr>))" "same_rsrcs (dl_resources s) rs"
      by (rule dl_acquire_checks_spec [OF inv t])
    with 3 ok show ?thesis
      by (simp add: dl_switch_def rsrc_addr_def deadlock_event_defs mutex_event_defs deadlock_inv_def same_rsrcs_def)
  next
    case 4
    obtain rs where "dl_released cfg ms t ?a s =
        Inr (map_find (dl_resources s) ?a = None \<longrightarrow> \<not> dc_extra_release_check cfg, s\<lparr>dl_resources := rs\<rparr>)" "rsrcs_ok rs"
      by (rule dl_released_spec [OF ok(1)])
    with 4 ok show ?thesis
      by (simp add: dl_switch_def mutex_event_addr_def deadlock_event_defs mutex_event_defs deadlock_inv_def)
  next
    case 5
    obtain rs where "dl_released cfg ms t ?a s =
        Inr (map_find (dl_resources s) ?a = None \<longrightarrow> \<not> dc_extra_release_check cfg, s\<lparr>dl_resources := rs\<rparr>)" "rsrcs_ok rs"
      by (rule dl_released_spec [OF ok(1)])
    with 5 ok show ?thesis
      by (simp add: dl_switch_def rsrc_addr_def deadlock_event_defs mutex_event_defs deadlock_inv_def)
  next
    case 6
    have "distinct (rkeys (dl_resources s))" using ok(1) by (simp add: rsrcs_ok_def map_inv_def rkeys_def map_iterate_def)
    from dl_mark_lost_loop_spec [OF t ok this, of cfg False] 6 show ?thesis
      by (auto simp: dl_switch_def dl_mark_lost_def rkeys_def [symmetric] deadlock_event_defs mutex_event_defs event_defs deadlock_inv_def lost_moved_def)
  next
    case 7
    with inv show ?thesis by (auto simp: dl_switch_def)
  qed
qed

text \<open>The handler around the switch.\<close>

lemma deadlock_handle_switch:
  assumes "\<not> e_skip e" and "dc_enabled cfg" and "cp_vid cp = NO_TASK" and "cp_id cp \<noteq> NO_TASK"
    and "dl_switch try_ret cfg ms (cp_id cp) cp s = Some (Inr (d, s'))" and "e_reason e \<noteq> REASON_RSRC_DEADLOCK"
  shows "\<exists>e' s''. deadlock_handle try_ret cfg ms cp e s = Some (Inr (e', s'')) \<and>
    (e_reason e' = REASON_RSRC_DEADLOCK \<longleftrightarrow> d) \<and> dl_resources s'' = dl_resources s' \<and> dl_lost s'' = dl_lost s' \<and>
    dl_detected s'' = dl_detected s' + of_bool d"
  using assms by (cases d) (simp_all add: deadlock_handle_def deadlock_tid_def Let_def)

section \<open>Properties\<close>

text \<open>
  Claim C18. The handler never gets stuck: from every state with well formed bags, and for every event of a
  task, the search for a cycle ends, no assertion fails, and the bags are well formed again. The candidates are
  not touched.
\<close>

theorem deadlock_handle_total:
  assumes "deadlock_inv s" and "cp_id cp \<noteq> NO_TASK"
  shows "\<exists>e' s'. deadlock_handle try_ret cfg ms cp e s = Some (Inr (e', s')) \<and> deadlock_inv s' \<and> e_tset e' = e_tset e"
proof -
  have t: "deadlock_tid cp \<noteq> NO_TASK" using assms(2) by (simp add: deadlock_tid_def)
  obtain d s' where "dl_switch try_ret cfg ms (deadlock_tid cp) cp s = Some (Inr (d, s'))" "deadlock_inv s'"
    using dl_switch_total [OF assms(1) t] by blast
  with t assms(1) show ?thesis by (simp add: deadlock_handle_def Let_def deadlock_inv_def)
qed

text \<open>Task 1 holds the mutex at 10, task 2 holds the one at 20 and waits for the one at 10.\<close>

definition abba_state :: handler_deadlock where
  "abba_state = \<lparr>dl_resources = \<lparr>map_chain =
       [(20, \<lparr>rs_tasks = \<lparr>ts_capacity = 1, ts_size = 1, ts_tasks = Some [2]\<rparr>, rs_owner = 2\<rparr>),
        (10, \<lparr>rs_tasks = \<lparr>ts_capacity = 2, ts_size = 2, ts_tasks = Some [1, 2]\<rparr>, rs_owner = 1\<rparr>)], map_nitems = 2\<rparr>,
     dl_lost = map_init, dl_detected = 0\<rparr>"

definition deadlock_on :: deadlock_config where
  "deadlock_on = \<lparr>dc_enabled = True, dc_lost_resource_check = False, dc_extra_release_check = False\<rparr>"

lemma abba_state_inv: "deadlock_inv abba_state"
  by (simp add: abba_state_def deadlock_inv_def rsrcs_ok_def bag_ok_def map_inv_def map_iterate_def map_init_def
      tidset_wf_def tidset_list_def NO_TASK_def)

lemma abba_state_bags: "rbags (dl_resources abba_state) 10 = {#1, 2#}" "rbags (dl_resources abba_state) 20 = {#2#}"
  by (simp_all add: rbags_def abba_state_def map_find_def tidset_list_def)

theorem deadlock_handle_total_witness:
  "\<exists>e' s'. deadlock_handle (\<lambda>_. 0) deadlock_on mutex_state_init (event_cp EVENT_TASK_FINI 2 0) sample_event abba_state =
     Some (Inr (e', s')) \<and> deadlock_inv s' \<and> e_tset e' = e_tset sample_event"
  using deadlock_handle_total [OF abba_state_inv, of "event_cp EVENT_TASK_FINI 2 0"] by (simp add: NO_TASK_def)

text \<open>
  Claim C17. An acquire event of a mutex is reported as a deadlock exactly when another task is in the
  resource and a chain of tasks, each sharing a resource with the next, leads from it back to the acquiring
  task, or when the resource is on the list of lost resources. The search takes tasks out of the bags and puts
  them back in another order while outer loops count through the bags; this does not change its answer. After the
  event the bag of the resource has one more entry of the task, all other bags are as before.
\<close>

theorem deadlock_acquire_exact:
  assumes "deadlock_inv s" and "\<not> e_skip e" and "dc_enabled cfg" and "cp_vid cp = NO_TASK" and "cp_id cp \<noteq> NO_TASK"
    and "cp_type_id cp = EVENT_MUTEX_ACQUIRE" and "e_reason e \<noteq> REASON_RSRC_DEADLOCK"
  shows "\<exists>e' s'. deadlock_handle try_ret cfg ms cp e s = Some (Inr (e', s')) \<and>
    (e_reason e' = REASON_RSRC_DEADLOCK \<longleftrightarrow>
       (\<exists>u. u \<in># rbags (dl_resources s) (cp_addr cp) \<and> u \<noteq> cp_id cp \<and>
          (u, cp_id cp) \<in> (shares (rbags (dl_resources s)))\<^sup>*) \<or> map_find (dl_lost s) (cp_addr cp) \<noteq> None) \<and>
    rbags (dl_resources s') = (rbags (dl_resources s))(cp_addr cp := rbags (dl_resources s) (cp_addr cp) + {#cp_id cp#}) \<and>
    dl_lost s' = dl_lost s"
proof -
  obtain rs where rs: "dl_switch try_ret cfg ms (cp_id cp) cp s =
        Some (Inr (acquire_alarm s (cp_id cp) (cp_addr cp), s\<lparr>dl_resources := rs\<rparr>))"
      "rbags rs = (rbags (dl_resources s))(cp_addr cp := rbags (dl_resources s) (cp_addr cp) + {#cp_id cp#})"
    using dl_switch_acquire [OF assms(1,5,6)] by metis
  from deadlock_handle_switch [OF assms(2-5) rs(1) assms(7)] rs(2) show ?thesis
    unfolding acquire_alarm_def by auto
qed

theorem deadlock_acquire_exact_witness:
  "\<exists>e' s'. deadlock_handle (\<lambda>_. 0) deadlock_on mutex_state_init (event_cp EVENT_MUTEX_ACQUIRE 1 20) sample_event abba_state =
     Some (Inr (e', s')) \<and> e_reason e' = REASON_RSRC_DEADLOCK \<and> rbags (dl_resources s') 20 = {#2, 1#}"
proof -
  have "(2, 1) \<in> shares (rbags (dl_resources abba_state))"
    unfolding shares_def using abba_state_bags by (auto intro: exI [of _ 10])
  moreover have "2 \<in># rbags (dl_resources abba_state) 20" by (simp add: abba_state_bags)
  ultimately show ?thesis
    using deadlock_acquire_exact [OF abba_state_inv, of sample_event deadlock_on "event_cp EVENT_MUTEX_ACQUIRE 1 20" "\<lambda>_. 0" mutex_state_init]
    by (fastforce simp: sample_event_def zero_decision_def deadlock_on_def event_cp_def NO_TASK_def abba_state_bags)
qed

text \<open>
  A task that acquires a mutex it already holds is reported as deadlocked as soon as another task
  is in the same resource, for instance waits for the mutex: the search counts waiting tasks like owners. The
  mutex module supports such a recursive acquisition and lets the task continue.
\<close>

theorem deadlock_recursive_alarm:
  assumes "deadlock_inv s" and "\<not> e_skip e" and "dc_enabled cfg" and "cp_vid cp = NO_TASK" and "cp_id cp \<noteq> NO_TASK"
    and "cp_type_id cp = EVENT_MUTEX_ACQUIRE"
    and "cp_id cp \<in># rbags (dl_resources s) (cp_addr cp)" and "u \<in># rbags (dl_resources s) (cp_addr cp)" and "u \<noteq> cp_id cp"
  shows "\<exists>e' s'. deadlock_handle try_ret cfg ms cp e s = Some (Inr (e', s')) \<and> e_reason e' = REASON_RSRC_DEADLOCK"
proof -
  have "(u, cp_id cp) \<in> shares (rbags (dl_resources s))" using assms(7,8) by (auto simp: shares_def)
  with assms(8,9) have "acquire_alarm s (cp_id cp) (cp_addr cp)" unfolding acquire_alarm_def by blast
  moreover obtain rs where "dl_switch try_ret cfg ms (cp_id cp) cp s =
        Some (Inr (acquire_alarm s (cp_id cp) (cp_addr cp), s\<lparr>dl_resources := rs\<rparr>))"
    using dl_switch_acquire [OF assms(1,5,6)] by metis
  ultimately show ?thesis using assms(2-5) by (simp add: deadlock_handle_def deadlock_tid_def Let_def)
qed

theorem deadlock_recursive_alarm_witness:
  "\<exists>e' s'. deadlock_handle (\<lambda>_. 0) deadlock_on mutex_state_init (event_cp EVENT_MUTEX_ACQUIRE 1 10) sample_event abba_state =
     Some (Inr (e', s')) \<and> e_reason e' = REASON_RSRC_DEADLOCK"
  using deadlock_recursive_alarm [OF abba_state_inv, of sample_event deadlock_on "event_cp EVENT_MUTEX_ACQUIRE 1 10" 2 "\<lambda>_. 0" mutex_state_init]
  by (simp add: sample_event_def zero_decision_def deadlock_on_def event_cp_def NO_TASK_def abba_state_bags)

text \<open>
  When a task ends, one entry of it moves from every resource it is in to the list of lost
  resources. Whether the end is reported as a deadlock is decided by the last of these resources alone: the loop
  overwrites its verdict, so that a resource other tasks wait for is not reported when a later one has no
  other task.
\<close>

theorem deadlock_task_end:
  assumes "deadlock_inv s" and "\<not> e_skip e" and "dc_enabled cfg" and "cp_vid cp = NO_TASK" and "cp_id cp \<noteq> NO_TASK"
    and "cp_type_id cp = EVENT_TASK_FINI" and "e_reason e \<noteq> REASON_RSRC_DEADLOCK"
  shows "\<exists>e' s'. deadlock_handle try_ret cfg ms cp e s = Some (Inr (e', s')) \<and>
    (e_reason e' = REASON_RSRC_DEADLOCK \<longleftrightarrow> lost_ret cfg (rbags (dl_resources s)) (cp_id cp) (rkeys (dl_resources s)) False) \<and>
    (\<forall>k. rbags (dl_resources s') k = rbags (dl_resources s) k - {#cp_id cp#}) \<and>
    (\<forall>k. rbags (dl_lost s') k = rbags (dl_lost s) k + (if cp_id cp \<in># rbags (dl_resources s) k then {#cp_id cp#} else {#}))"
proof -
  from assms(1) have ok: "rsrcs_ok (dl_resources s)" "rsrcs_ok (dl_lost s)" by (simp_all add: deadlock_inv_def)
  have "distinct (rkeys (dl_resources s))" using ok(1) by (simp add: rsrcs_ok_def map_inv_def rkeys_def map_iterate_def)
  then obtain s' where s': "dl_mark_lost cfg (cp_id cp) s =
        Inr (lost_ret cfg (rbags (dl_resources s)) (cp_id cp) (rkeys (dl_resources s)) False, s')"
      "lost_moved (cp_id cp) (rkeys (dl_resources s)) s s'"
    using dl_mark_lost_loop_spec [OF assms(5) ok, of "rkeys (dl_resources s)" cfg False] by (auto simp: dl_mark_lost_def rkeys_def)
  then have "dl_switch try_ret cfg ms (cp_id cp) cp s =
      Some (Inr (lost_ret cfg (rbags (dl_resources s)) (cp_id cp) (rkeys (dl_resources s)) False, s'))"
    using assms(6) by (simp add: dl_switch_def deadlock_event_defs mutex_event_defs event_defs)
  note h = deadlock_handle_switch [OF assms(2-5) this assms(7)]
  have z: "rbags (dl_resources s) k = {#}" if "k \<notin> set (rkeys (dl_resources s))" for k
    using that rkeys_find by (simp add: rbags_def)
  have "rbags (dl_resources s') k = rbags (dl_resources s) k - {#cp_id cp#}" for k
    using s'(2) z [of k] by (auto simp: lost_moved_def)
  moreover have "rbags (dl_lost s') k = rbags (dl_lost s) k + (if cp_id cp \<in># rbags (dl_resources s) k then {#cp_id cp#} else {#})" for k
    using s'(2) z [of k] by (auto simp: lost_moved_def)
  ultimately show ?thesis using h by auto
qed

theorem deadlock_task_end_witness:
  "\<exists>e' s'. deadlock_handle (\<lambda>_. 0) deadlock_on mutex_state_init (event_cp EVENT_TASK_FINI 1 0) sample_event abba_state =
     Some (Inr (e', s')) \<and> e_reason e' = REASON_RSRC_DEADLOCK \<and> rbags (dl_resources s') 10 = {#2#} \<and> rbags (dl_lost s') 10 = {#1#}"
proof -
  have k: "rkeys (dl_resources abba_state) = [20, 10]" by (simp add: rkeys_def abba_state_def map_iterate_def)
  have "lost_ret deadlock_on (rbags (dl_resources abba_state)) 1 [20, 10] False"
    by (simp add: lost_ret_def lost_verdict_def abba_state_bags)
  moreover have "rbags (dl_lost abba_state) 10 = {#}" by (simp add: abba_state_def rbags_def)
  ultimately show ?thesis
    using deadlock_task_end [OF abba_state_inv, of sample_event deadlock_on "event_cp EVENT_TASK_FINI 1 0" "\<lambda>_. 0" mutex_state_init]
    by (fastforce simp: sample_event_def zero_decision_def deadlock_on_def event_cp_def NO_TASK_def abba_state_bags k)
qed

end
