(* ===== verification/Vec.thy ===== *)
theory Vec
  imports Sorting
begin

text \<open>
  The growable array of \<^verbatim>\<open>src/base/vec.c\<close>. A vector is its two counters and its buffer; a cell of the
  buffer is \<^term>\<open>None\<close> while its memory has been allocated and not yet written, so that reading such a
  cell is a fault of the model. A pointer to an item is the index of its cell. All items of a vector
  have one size and one marshable interface, which are those of the type of the items; the assertion
  of \<^verbatim>\<open>vec_concat\<close> on the sizes holds by typing. Allocations succeed.

  The locale \<open>vector\<close> is what a client relies on; it is interpreted on the model at the end.
\<close>

section \<open>Operations\<close>

record 'a vec =
  vec_cnt :: nat
  vec_cap :: nat
  vec_items :: "'a option list option"

definition vec_init :: "'a vec" where
  "vec_init = \<lparr>vec_cnt = 0, vec_cap = 0, vec_items = None\<rparr>"

text \<open>\<^verbatim>\<open>sys_realloc\<close> to \<open>n\<close> cells.\<close>

definition realloc_cells :: "'a option list option \<Rightarrow> nat \<Rightarrow> 'a option list option" where
  "realloc_cells p n = (let b = (case p of None \<Rightarrow> [] | Some b \<Rightarrow> b) in Some (take n b @ replicate (n - length b) None))"

text \<open>Reading and writing the item behind \<^verbatim>\<open>AT(v, i)\<close>.\<close>

definition vec_at :: "'a vec \<Rightarrow> nat \<Rightarrow> 'a result" where
  "vec_at v i = bindr (rd (vec_items v) i) (\<lambda>c. case c of None \<Rightarrow> Inl Fault | Some x \<Rightarrow> Inr x)"

definition vec_put :: "'a vec \<Rightarrow> nat \<Rightarrow> 'a \<Rightarrow> 'a vec result" where
  "vec_put v i x = bindr (wr (vec_items v) i (Some x)) (\<lambda>p. Inr (v\<lparr>vec_items := p\<rparr>))"

text \<open>The new item keeps what its memory held; only its interface is set.\<close>

definition vec_add :: "'a vec \<Rightarrow> (nat \<times> 'a vec) result" where
  "vec_add v =
     (let v = (if vec_cnt v \<ge> vec_cap v
               then let c = (if vec_cap v = 0 then 8 else vec_cap v * 2)
                    in v\<lparr>vec_cap := c, vec_items := realloc_cells (vec_items v) c\<rparr>
               else v);
          i = vec_cnt v
      in bindr (rd (vec_items v) i) (\<lambda>_. Inr (i, v\<lparr>vec_cnt := vec_cnt v + 1\<rparr>)))"

definition vec_clear :: "'a vec \<Rightarrow> 'a vec" where
  "vec_clear v = v\<lparr>vec_items := None, vec_cap := 0, vec_cnt := 0\<rparr>"

text \<open>
  The comparison function may stop the program. A sort compares along a path that connects all items, so
  that two items of kinds that must not be compared are met; the model checks all pairs.
\<close>

definition cmp_int :: "('a \<Rightarrow> 'a \<Rightarrow> int result) \<Rightarrow> 'a \<Rightarrow> 'a \<Rightarrow> int" where
  "cmp_int cmp x y = (case cmp x y of Inl _ \<Rightarrow> 0 | Inr d \<Rightarrow> d)"

definition comparable :: "('a \<Rightarrow> 'a \<Rightarrow> int result) \<Rightarrow> 'a list \<Rightarrow> bool" where
  "comparable cmp xs \<longleftrightarrow> list_all (\<lambda>x. list_all (\<lambda>y. \<not> isl (cmp x y)) xs) xs"

definition vec_sort :: "'a sorter \<Rightarrow> 'a vec \<Rightarrow> ('a \<Rightarrow> 'a \<Rightarrow> int result) \<Rightarrow> 'a vec result" where
  "vec_sort qs v cmp =
     (case vec_items v of
        None \<Rightarrow> if vec_cnt v = 0 then Inr v else Inl Fault
      | Some b \<Rightarrow>
          if vec_cnt v \<le> length b \<and> None \<notin> set (take (vec_cnt v) b)
          then let xs = map the (take (vec_cnt v) b) in
            assertr (comparable cmp xs)
              (Inr (v\<lparr>vec_items := Some (map Some (qs (cmp_int cmp) xs) @ drop (vec_cnt v) b)\<rparr>))
          else Inl Fault)"

definition vec_reserve :: "'a vec \<Rightarrow> nat \<Rightarrow> 'a vec" where
  "vec_reserve v cap =
     (if cap \<le> vec_cap v then v else v\<lparr>vec_cap := cap, vec_items := realloc_cells (vec_items v) cap\<rparr>)"

text \<open>\<^verbatim>\<open>sys_memcpy\<close> to the cells from \<open>off\<close> on.\<close>

definition memcpy_at :: "'a list option \<Rightarrow> nat \<Rightarrow> 'a list option \<Rightarrow> nat \<Rightarrow> 'a list option result" where
  "memcpy_at dst off src n = (if n = 0 then Inr dst else
     (case (dst, src) of
        (Some d, Some s) \<Rightarrow>
          if off + n \<le> length d \<and> n \<le> length s then Inr (Some (take off d @ take n s @ drop (off + n) d)) else Inl Fault
      | _ \<Rightarrow> Inl Fault))"

definition vec_concat :: "'a vec \<Rightarrow> 'a vec \<Rightarrow> 'a vec result" where
  "vec_concat left right =
     (let left = vec_reserve left (vec_cnt left + vec_cnt right) in
      bindr (memcpy_at (vec_items left) (vec_cnt left) (vec_items right) (vec_cnt right))
        (\<lambda>p. Inr (left\<lparr>vec_items := p, vec_cnt := vec_cnt left + vec_cnt right\<rparr>)))"

definition vec_size :: "'a vec \<Rightarrow> nat" where
  "vec_size v = vec_cnt v"

definition vec_get :: "'a vec \<Rightarrow> nat \<Rightarrow> 'a result" where
  "vec_get v i = assertr (i < vec_cnt v) (vec_at v i)"

text \<open>The loop of \<^verbatim>\<open>vec_union\<close> drops every item that is equal to the last one kept; \<open>j\<close> is the next position
  to write.\<close>

definition vec_union_keep :: "('a \<Rightarrow> 'a \<Rightarrow> int result) \<Rightarrow> 'a vec \<Rightarrow> nat \<Rightarrow> nat \<Rightarrow> bool result" where
  "vec_union_keep cmp v i j =
     (if j = 0 then Inr True
      else bindr (vec_at v i) (\<lambda>a. bindr (vec_at v (j - 1)) (\<lambda>b. bindr (cmp a b) (\<lambda>d. Inr (d \<noteq> 0)))))"

function vec_union_loop :: "('a \<Rightarrow> 'a \<Rightarrow> int result) \<Rightarrow> 'a vec \<Rightarrow> nat \<Rightarrow> nat \<Rightarrow> 'a vec result" where
  "vec_union_loop cmp v i j =
     (if i < vec_cnt v then
        bindr (vec_union_keep cmp v i j) (\<lambda>keep.
          if keep then
            bindr (if j \<noteq> i then bindr (vec_at v i) (vec_put v j) else Inr v)
              (\<lambda>v'. vec_union_loop cmp v' (i + 1) (j + 1))
          else vec_union_loop cmp v (i + 1) j)
      else Inr (v\<lparr>vec_cnt := j\<rparr>))"
  by pat_completeness auto
termination
  by (relation "measure (\<lambda>(cmp, v, i, j). vec_cnt v - i)")
    (auto simp: vec_put_def result_elims split: if_splits)

declare vec_union_loop.simps [simp del]

definition vec_union :: "'a sorter \<Rightarrow> 'a vec \<Rightarrow> 'a vec \<Rightarrow> ('a \<Rightarrow> 'a \<Rightarrow> int result) \<Rightarrow> 'a vec result" where
  "vec_union qs left right cmp =
     bindr (vec_concat left right) (\<lambda>left. bindr (vec_sort qs left cmp) (\<lambda>left. vec_union_loop cmp left 0 0))"

section \<open>Marshalling\<close>

text \<open>One cell for the counter and one per item; \<open>isz\<close> is \<^verbatim>\<open>marshable_size_m\<close> of an item.\<close>

datatype 'a vec_image = VecHeader nat | VecItem 'a

fun vec_size_loop :: "('a \<Rightarrow> nat) \<Rightarrow> 'a vec \<Rightarrow> nat \<Rightarrow> nat \<Rightarrow> nat result" where
  "vec_size_loop isz v i 0 = Inr 0"
| "vec_size_loop isz v i (Suc n) = bindr (vec_at v i) (\<lambda>x. bindr (vec_size_loop isz v (Suc i) n) (\<lambda>s. Inr (isz x + s)))"

definition vec_size_m :: "('a \<Rightarrow> nat) \<Rightarrow> 'a vec \<Rightarrow> nat result" where
  "vec_size_m isz v = (if vec_cnt v = 0 then Inr 8 else bindr (vec_size_loop isz v 0 (vec_cnt v)) (\<lambda>s. Inr (8 + s)))"

fun vec_marshal_loop :: "'a vec \<Rightarrow> nat \<Rightarrow> nat \<Rightarrow> 'a vec_image list result" where
  "vec_marshal_loop v i 0 = Inr []"
| "vec_marshal_loop v i (Suc n) = bindr (vec_at v i) (\<lambda>x. bindr (vec_marshal_loop v (Suc i) n) (\<lambda>b. Inr (VecItem x # b)))"

definition vec_marshal :: "'a vec \<Rightarrow> 'a vec_image list result" where
  "vec_marshal v = bindr (vec_marshal_loop v 0 (vec_cnt v)) (\<lambda>b. Inr (VecHeader (vec_cnt v) # b))"

fun vec_unmarshal_loop :: "'a vec \<Rightarrow> nat \<Rightarrow> 'a vec_image list \<Rightarrow> ('a vec \<times> 'a vec_image list) result" where
  "vec_unmarshal_loop v 0 buf = Inr (v, buf)"
| "vec_unmarshal_loop v (Suc n) (VecItem x # buf) =
     bindr (vec_add v) (\<lambda>(i, v). bindr (vec_put v i x) (\<lambda>v. vec_unmarshal_loop v n buf))"
| "vec_unmarshal_loop v (Suc n) buf = Inl Fault"

fun vec_unmarshal :: "'a vec \<Rightarrow> 'a vec_image list \<Rightarrow> ('a vec \<times> 'a vec_image list) result" where
  "vec_unmarshal v (VecHeader n # buf) =
     bindr (vec_unmarshal_loop (vec_clear v) n buf) (\<lambda>(v, buf). assertr (vec_cnt v = n) (Inr (v, buf)))"
| "vec_unmarshal v buf = Inl Fault"

section \<open>Invariant and abstraction\<close>

text \<open>The items of a vector. The invariant: the buffer has the capacity, the counter is within it and the
  cells below the counter have been written.\<close>

definition vec_list :: "'a vec \<Rightarrow> 'a list" where
  "vec_list v = (case vec_items v of None \<Rightarrow> [] | Some b \<Rightarrow> map the (take (vec_cnt v) b))"

definition vec_inv :: "'a vec \<Rightarrow> bool" where
  "vec_inv v \<longleftrightarrow>
     (case vec_items v of
        None \<Rightarrow> vec_cap v = 0 \<and> vec_cnt v = 0
      | Some b \<Rightarrow> length b = vec_cap v \<and> vec_cnt v \<le> vec_cap v \<and> None \<notin> set (take (vec_cnt v) b))"

lemma vec_init_inv [simp]: "vec_inv vec_init" "vec_list vec_init = []"
  by (simp_all add: vec_init_def vec_inv_def vec_list_def)

lemma vec_clear_inv [simp]: "vec_inv (vec_clear v)" "vec_list (vec_clear v) = []"
  by (simp_all add: vec_clear_def vec_inv_def vec_list_def)

lemma vec_length: "vec_inv v \<Longrightarrow> length (vec_list v) = vec_cnt v"
  by (auto simp: vec_inv_def vec_list_def split: option.splits)

text \<open>A vector seen through its buffer: the items followed by spare cells.\<close>

lemma map_the_Some: "None \<notin> set xs \<Longrightarrow> map Some (map the xs) = xs"
  by (induction xs) auto

lemma vec_buffer:
  assumes "vec_inv v" and "vec_items v = Some b"
  shows "b = map Some (vec_list v) @ drop (vec_cnt v) b"
  using assms map_the_Some [of "take (vec_cnt v) b"] by (simp add: vec_inv_def vec_list_def)

lemma vec_inv_buffer:
  assumes "vec_items v = Some (map Some xs @ r)" and "vec_cnt v = length xs" and "vec_cap v = length xs + length r"
  shows "vec_inv v" and "vec_list v = xs"
  using assms by (auto simp: vec_inv_def vec_list_def comp_def)

lemma vec_at_list: "vec_inv v \<Longrightarrow> i < vec_cnt v \<Longrightarrow> vec_at v i = Inr (vec_list v ! i)"
  by (auto simp: vec_inv_def vec_list_def vec_at_def rd_def in_set_conv_nth split: option.splits)

section \<open>Growing\<close>

lemma realloc_Some: "length b \<le> n \<Longrightarrow> realloc_cells (Some b) n = Some (b @ replicate (n - length b) None)"
  by (simp add: realloc_cells_def)

lemma realloc_None: "realloc_cells None n = Some (replicate n None)"
  by (simp add: realloc_cells_def)

text \<open>Reallocating to at least the capacity keeps the items.\<close>

lemma vec_realloc:
  assumes "vec_inv v" and "vec_cap v \<le> c"
  defines "w \<equiv> v\<lparr>vec_cap := c, vec_items := realloc_cells (vec_items v) c\<rparr>"
  shows "vec_inv w" and "vec_list w = vec_list v" and "vec_cnt w = vec_cnt v" and "vec_cap w = c"
    and "\<exists>b. vec_items w = Some b \<and> length b = c"
proof -
  consider "vec_items v = None" "vec_cnt v = 0" "vec_cap v = 0" | b where "vec_items v = Some b" "length b = vec_cap v" "vec_cnt v \<le> length b"
    using assms(1) by (auto simp: vec_inv_def split: option.splits)
  then have "vec_inv w \<and> vec_list w = vec_list v \<and> (\<exists>b. vec_items w = Some b \<and> length b = c)"
  proof cases
    case 1
    then show ?thesis by (simp add: w_def vec_inv_def vec_list_def realloc_None)
  next
    case (2 b)
    with assms(1,2) show ?thesis by (auto simp: w_def vec_inv_def vec_list_def realloc_Some)
  qed
  then show "vec_inv w" "vec_list w = vec_list v" "\<exists>b. vec_items w = Some b \<and> length b = c" by auto
qed (simp_all add: w_def)

lemma vec_push:
  assumes "vec_inv v"
  shows "\<exists>v'. bindr (vec_add v) (\<lambda>(i, v). vec_put v i x) = Inr v' \<and> vec_inv v' \<and> vec_list v' = vec_list v @ [x]"
proof -
  define c where "c = (if vec_cnt v \<ge> vec_cap v then if vec_cap v = 0 then 8 else vec_cap v * 2 else vec_cap v)"
  define w where "w = (if vec_cnt v \<ge> vec_cap v then v\<lparr>vec_cap := c, vec_items := realloc_cells (vec_items v) c\<rparr> else v)"
  have le: "vec_cap v \<le> c" and lt: "vec_cnt v < c"
    using assms by (auto simp: c_def vec_inv_def split: option.splits if_splits)
  have "vec_inv w \<and> vec_list w = vec_list v \<and> vec_cnt w = vec_cnt v \<and> (\<exists>b. vec_items w = Some b \<and> length b = c) \<and> vec_cap w = c"
  proof (cases "vec_cnt v \<ge> vec_cap v")
    case True
    with vec_realloc [OF assms le] show ?thesis by (simp add: w_def)
  next
    case False
    with assms show ?thesis by (auto simp: w_def c_def vec_inv_def split: option.splits)
  qed
  then have w: "vec_inv w" "vec_list w = vec_list v" "vec_cnt w = vec_cnt v" "\<exists>b. vec_items w = Some b \<and> length b = c" "vec_cap w = c"
    by blast+
  then obtain b where b: "vec_items w = Some b" "length b = c" by blast
  have add: "vec_add v = Inr (vec_cnt v, w\<lparr>vec_cnt := vec_cnt v + 1\<rparr>)"
    using b lt w(3) by (simp add: vec_add_def w_def c_def Let_def split: if_splits)
  let ?v' = "w\<lparr>vec_cnt := vec_cnt v + 1, vec_items := Some (b[vec_cnt v := Some x])\<rparr>"
  have put: "vec_put (w\<lparr>vec_cnt := vec_cnt v + 1\<rparr>) (vec_cnt v) x = Inr ?v'"
    using b lt by (simp add: vec_put_def)
  have len: "length (vec_list v) = vec_cnt v" by (rule vec_length [OF assms])
  have "b = map Some (vec_list v) @ drop (vec_cnt v) b" using vec_buffer [OF w(1) b(1)] w(2,3) by simp
  also have "drop (vec_cnt v) b = b ! vec_cnt v # drop (vec_cnt v + 1) b" using lt b(2) by (simp add: Cons_nth_drop_Suc)
  finally have "b[vec_cnt v := Some x] = map Some (vec_list v @ [x]) @ drop (vec_cnt v + 1) b"
    using len by (metis (no_types, lifting) append.assoc append_Cons append_Nil length_map list.simps(8,9) list_update_length map_append)
  then have "vec_inv ?v'" "vec_list ?v' = vec_list v @ [x]"
    using vec_inv_buffer [of ?v' "vec_list v @ [x]" "drop (vec_cnt v + 1) b"] w(5) b(2) lt len by auto
  with add put show ?thesis by simp
qed

section \<open>Concatenation, sorting and union\<close>

lemma vec_reserve_inv:
  assumes "vec_inv v"
  shows "vec_inv (vec_reserve v c)" and "vec_list (vec_reserve v c) = vec_list v"
    and "vec_cnt (vec_reserve v c) = vec_cnt v" and "c \<le> vec_cap (vec_reserve v c)"
  using assms vec_realloc [OF assms, of c] by (auto simp: vec_reserve_def)

lemma vec_concat_inv:
  assumes "vec_inv l" and "vec_inv r"
  shows "\<exists>v. vec_concat l r = Inr v \<and> vec_inv v \<and> vec_list v = vec_list l @ vec_list r"
proof (cases "vec_cnt r = 0")
  case True
  then have "vec_list r = []" using vec_length [OF assms(2)] by simp
  with True vec_reserve_inv [OF assms(1)] show ?thesis by (simp add: vec_concat_def memcpy_at_def)
next
  case False
  define w where "w = vec_reserve l (vec_cnt l + vec_cnt r)"
  note w = vec_reserve_inv [OF assms(1), of "vec_cnt l + vec_cnt r", folded w_def]
  obtain s where s: "vec_items r = Some s" using assms(2) False by (auto simp: vec_inv_def split: option.splits)
  obtain d where d: "vec_items w = Some d" "length d = vec_cap w"
    using w(1,4) False by (auto simp: vec_inv_def split: option.splits)
  note len = vec_length [OF assms(1)] vec_length [OF assms(2)]
  have "take (vec_cnt r) s = map Some (vec_list r)"
    using arg_cong [OF vec_buffer [OF assms(2) s], of "take (vec_cnt r)"] len by simp
  moreover have "take (vec_cnt l) d = map Some (vec_list l)"
    using arg_cong [OF vec_buffer [OF w(1) d(1)], of "take (vec_cnt l)"] len w(2) by simp
  moreover have "vec_cnt r \<le> length s" using assms(2) s by (simp add: vec_inv_def)
  ultimately have "memcpy_at (vec_items w) (vec_cnt l) (vec_items r) (vec_cnt r) =
      Inr (Some (map Some (vec_list l @ vec_list r) @ drop (vec_cnt l + vec_cnt r) d))"
    using s d w(4) False by (simp add: memcpy_at_def)
  then show ?thesis
    using vec_inv_buffer [of "w\<lparr>vec_items := Some (map Some (vec_list l @ vec_list r) @ drop (vec_cnt l + vec_cnt r) d),
        vec_cnt := vec_cnt l + vec_cnt r\<rparr>" "vec_list l @ vec_list r" "drop (vec_cnt l + vec_cnt r) d"] len d(2) w(3,4)
    by (simp add: vec_concat_def w_def [symmetric] Let_def)
qed

lemma vec_sort_Inr:
  assumes "vec_inv v" and "comparable cmp (vec_list v)" and "length (qs (cmp_int cmp) (vec_list v)) = vec_cnt v"
    and "qs (cmp_int cmp) [] = []"
  shows "\<exists>v'. vec_sort qs v cmp = Inr v' \<and> vec_inv v' \<and> vec_list v' = qs (cmp_int cmp) (vec_list v)"
proof (cases "vec_items v")
  case None
  with assms show ?thesis by (simp add: vec_sort_def vec_inv_def vec_list_def)
next
  case (Some b)
  let ?q = "qs (cmp_int cmp) (vec_list v)"
  let ?v = "v\<lparr>vec_items := Some (map Some ?q @ drop (vec_cnt v) b)\<rparr>"
  have "vec_sort qs v cmp = Inr ?v" using Some assms(1,2) by (simp add: vec_sort_def vec_inv_def vec_list_def Let_def)
  moreover have "vec_inv ?v" "vec_list ?v = ?q"
    using vec_inv_buffer [of ?v ?q "drop (vec_cnt v) b"] assms(1,3) Some by (auto simp: vec_inv_def)
  ultimately show ?thesis by blast
qed

lemma comparable_mono: "comparable cmp xs \<Longrightarrow> set ys \<subseteq> set xs \<Longrightarrow> comparable cmp ys"
  unfolding comparable_def list_all_iff by blast

text \<open>What the loop of \<^verbatim>\<open>vec_union\<close> keeps, on lists.\<close>

fun keep_new :: "('a \<Rightarrow> 'a \<Rightarrow> int) \<Rightarrow> 'a list \<Rightarrow> 'a list \<Rightarrow> 'a list" where
  "keep_new cmp ks [] = ks"
| "keep_new cmp ks (x # xs) = keep_new cmp (if ks = [] \<or> cmp x (last ks) \<noteq> 0 then ks @ [x] else ks) xs"

lemma vec_put_nth:
  assumes "vec_inv v" and "j < vec_cnt v"
  shows "\<exists>v'. vec_put v j x = Inr v' \<and> vec_inv v' \<and> vec_list v' = (vec_list v)[j := x] \<and> vec_cnt v' = vec_cnt v"
  using assms
  by (auto simp: vec_inv_def vec_list_def vec_put_def wr_def take_update_swap map_update in_set_conv_nth nth_list_update
      split: option.splits)

lemma vec_union_keep_list:
  assumes "vec_inv v" and "i < vec_cnt v" and "j \<le> i" and "comparable cmp (vec_list v)"
  shows "vec_union_keep cmp v i j =
    Inr (take j (vec_list v) = [] \<or> cmp_int cmp (vec_list v ! i) (last (take j (vec_list v))) \<noteq> 0)"
proof (cases "j = 0")
  case False
  have "vec_list v ! i \<in> set (vec_list v)" "vec_list v ! (j - 1) \<in> set (vec_list v)"
    using assms vec_length [OF assms(1)] by auto
  then have "\<not> isl (cmp (vec_list v ! i) (vec_list v ! (j - 1)))" using assms(4) by (auto simp: comparable_def list_all_iff)
  moreover have ne: "take j (vec_list v) \<noteq> []" using False assms(2,3) vec_length [OF assms(1)] by auto
  moreover have "last (take j (vec_list v)) = vec_list v ! (j - 1)"
    using False assms(2,3) vec_length [OF assms(1)] by (simp add: last_conv_nth [OF ne])
  ultimately show ?thesis
    using False assms(1-3) by (auto simp: vec_union_keep_def vec_at_list cmp_int_def split: sum.splits)
qed (simp add: vec_union_keep_def)

text \<open>The items kept so far are the first \<open>j\<close>, those from \<open>i\<close> on are still to be read.\<close>

lemma vec_union_loop_list:
  assumes "vec_inv v" and "j \<le> i" and "i \<le> vec_cnt v" and "comparable cmp (vec_list v)"
  shows "\<exists>v'. vec_union_loop cmp v i j = Inr v' \<and> vec_inv v' \<and>
    vec_list v' = keep_new (cmp_int cmp) (take j (vec_list v)) (drop i (vec_list v))"
  using assms
proof (induction cmp v i j rule: vec_union_loop.induct)
  case (1 cmp v i j)
  note len = vec_length [OF 1(3)]
  show ?case
  proof (cases "i < vec_cnt v")
    case False
    with 1(4,5) have i: "i = vec_cnt v" by simp
    have "set (take j b) \<subseteq> set (take (vec_cnt v) b)" for b :: "'a option list"
      using 1(4,5) by (intro set_take_subset_set_take) simp
    with False i 1(3,4) show ?thesis
      by (fastforce simp: vec_union_loop.simps vec_inv_def vec_list_def take_map split: option.splits)
  next
    case True
    let ?l = "vec_list v" and ?k = "take j (vec_list v) = [] \<or> cmp_int cmp (vec_list v ! i) (last (take j (vec_list v))) \<noteq> 0"
    have k: "vec_union_keep cmp v i j = Inr ?k" by (rule vec_union_keep_list [OF 1(3) True 1(4,6)])
    have d: "drop i ?l = ?l ! i # drop (i + 1) ?l" using True len by (simp add: Cons_nth_drop_Suc)
    show ?thesis
    proof (cases ?k)
      case False
      with 1(2) [OF True k] 1(3-6) True k d show ?thesis by (auto simp: vec_union_loop.simps [of cmp v i j])
    next
      case keep: True
      have "\<exists>v'. (if j \<noteq> i then bindr (vec_at v i) (vec_put v j) else Inr v) = Inr v' \<and> vec_inv v' \<and>
          vec_list v' = ?l[j := ?l ! i] \<and> vec_cnt v' = vec_cnt v"
        using vec_put_nth [OF 1(3), of j "?l ! i"] 1(3,4) True by (cases "j = i") (auto simp: vec_at_list)
      then obtain v' where v': "(if j \<noteq> i then bindr (vec_at v i) (vec_put v j) else Inr v) = Inr v'" "vec_inv v'"
          "vec_list v' = ?l[j := ?l ! i]" "vec_cnt v' = vec_cnt v"
        by blast
      have "set (vec_list v') \<subseteq> set ?l"
        using v'(3) True len set_update_subset_insert [of ?l j "?l ! i"] nth_mem [of i ?l] by auto
      then have "comparable cmp (vec_list v')" by (rule comparable_mono [OF 1(6)])
      with 1(1) [OF True k keep v'(1,2)] v'(4) 1(4) True obtain v'' where
        "vec_union_loop cmp v' (i + 1) (j + 1) = Inr v''" "vec_inv v''"
        "vec_list v'' = keep_new (cmp_int cmp) (take (j + 1) (vec_list v')) (drop (i + 1) (vec_list v'))"
        by auto
      moreover have "take (j + 1) (vec_list v') = take j ?l @ [?l ! i]" "drop (i + 1) (vec_list v') = drop (i + 1) ?l"
        using v'(3) 1(4) True len by (simp_all add: take_Suc_conv_app_nth)
      ultimately show ?thesis using k keep True v'(1) d by (simp add: vec_union_loop.simps [of cmp v i j])
    qed
  qed
qed

text \<open>A comparison function that is a linear order on a set of items.\<close>

definition linear_cmp :: "'a set \<Rightarrow> ('a \<Rightarrow> 'a \<Rightarrow> int) \<Rightarrow> bool" where
  "linear_cmp A c \<longleftrightarrow> comparator_on A c \<and>
     (\<forall>x\<in>A. \<forall>y\<in>A. (c x y = 0 \<longleftrightarrow> x = y) \<and> (c x y \<le> 0 \<longrightarrow> c y x \<le> 0 \<longrightarrow> x = y))"

text \<open>On a sorted list, nothing is lost but duplicates.\<close>

lemma keep_new_step:
  assumes "linear_cmp A c" and "set (ks @ [x]) \<subseteq> A" and "sorted_wrt (\<lambda>a b. c a b \<le> 0) (ks @ [x])"
    and "sorted_wrt (\<lambda>a b. c a b < 0) ks" and "ks = [] \<or> c x (last ks) \<noteq> 0"
  shows "sorted_wrt (\<lambda>a b. c a b < 0) (ks @ [x])"
proof (cases ks rule: rev_cases)
  case (snoc ks' l)
  have eq: "c a b = 0 \<longleftrightarrow> a = b" and anti: "c a b \<le> 0 \<Longrightarrow> c b a \<le> 0 \<Longrightarrow> a = b" if "a \<in> A" "b \<in> A" for a b
    using assms(1) that unfolding linear_cmp_def by blast+
  have "c k x < 0" if k: "k \<in> set ks" for k
  proof -
    have A: "k \<in> A" "x \<in> A" "l \<in> A" using assms(2) k snoc by auto
    have le: "c k x \<le> 0" "c l x \<le> 0" using assms(3) k snoc by (auto simp: sorted_wrt_append)
    have "k = l \<or> c k l < 0" using assms(4) k snoc by (auto simp: sorted_wrt_append)
    moreover have "x \<noteq> l" using assms(5) snoc eq [OF A(2,3)] by auto
    ultimately have "k \<noteq> x" using anti [OF A(2,3)] le(2) by force
    with le(1) eq [OF A(1,2)] show ?thesis by (simp add: order_less_le)
  qed
  with assms(4) show ?thesis by (simp add: sorted_wrt_append)
qed simp

lemma keep_new_sorted:
  assumes "sorted_wrt (\<lambda>a b. c a b \<le> 0) (ks @ xs)" and "sorted_wrt (\<lambda>a b. c a b < 0) ks"
    and "linear_cmp A c" and "set (ks @ xs) \<subseteq> A"
  shows "sorted_wrt (\<lambda>a b. c a b < 0) (keep_new c ks xs) \<and> set (keep_new c ks xs) = set ks \<union> set xs"
  using assms
proof (induction c ks xs rule: keep_new.induct)
  case (2 c ks x xs)
  show ?case
  proof (cases "ks = [] \<or> c x (last ks) \<noteq> 0")
    case True
    have "sorted_wrt (\<lambda>a b. c a b < 0) (ks @ [x])"
      by (rule keep_new_step [OF 2(4) _ _ 2(3) True]) (use 2(2,5) in \<open>auto simp: sorted_wrt_append\<close>)
    with 2 True show ?thesis by auto
  next
    case False
    then have "last ks \<in> A" "x \<in> A" "c x (last ks) = 0" using 2(5) last_in_set [of ks] by auto
    then have "last ks = x" using 2(4) by (simp add: linear_cmp_def)
    then have "x \<in> set ks" using False last_in_set [of ks] by auto
    with 2 False show ?thesis by (auto simp: sorted_wrt_append)
  qed
qed simp

lemma linear_strict_distinct:
  "linear_cmp A c \<Longrightarrow> set xs \<subseteq> A \<Longrightarrow> sorted_wrt (\<lambda>a b. c a b < 0) xs \<Longrightarrow> distinct xs"
  by (induction xs) (force simp: linear_cmp_def)+

context c_sort
begin

lemma vec_union_list:
  assumes "vec_inv l" and "vec_inv r" and "comparable cmp (vec_list l @ vec_list r)"
    and "linear_cmp (set (vec_list l) \<union> set (vec_list r)) (cmp_int cmp)"
  shows "\<exists>v. vec_union qs l r cmp = Inr v \<and> vec_inv v \<and> set (vec_list v) = set (vec_list l) \<union> set (vec_list r) \<and>
    sorted_wrt (\<lambda>a b. cmp_int cmp a b < 0) (vec_list v) \<and> distinct (vec_list v)"
proof -
  let ?c = "cmp_int cmp" and ?A = "set (vec_list l) \<union> set (vec_list r)"
  obtain w where w: "vec_concat l r = Inr w" "vec_inv w" "vec_list w = vec_list l @ vec_list r"
    using vec_concat_inv [OF assms(1,2)] by blast
  have co: "comparator_on (set (vec_list w)) ?c" using assms(4) w(3) by (simp add: linear_cmp_def)
  then have q: "set (qs ?c (vec_list w)) = ?A" using sort_set [OF co] w(3) by simp
  obtain u where u: "vec_sort qs w cmp = Inr u" "vec_inv u" "vec_list u = qs ?c (vec_list w)"
    using vec_sort_Inr [OF w(2), of cmp qs] assms(3) w(3) sort_length [OF co] vec_length [OF w(2)] sort_Nil by auto
  have "comparable cmp (vec_list u)" by (rule comparable_mono [OF assms(3)]) (use q u(3) in simp)
  then obtain v where v: "vec_union_loop cmp u 0 0 = Inr v" "vec_inv v" "vec_list v = keep_new ?c [] (vec_list u)"
    using vec_union_loop_list [OF u(2), of 0 0 cmp] by auto
  have "sorted_wrt (\<lambda>a b. ?c a b < 0) (vec_list v) \<and> set (vec_list v) = ?A"
    using keep_new_sorted [OF _ _ assms(4), of "[]" "vec_list u"] ascending_on [OF co] q u(3) v(3) by simp
  with w(1) u(1) v(1,2) linear_strict_distinct [OF assms(4)] show ?thesis by (simp add: vec_union_def)
qed

end

section \<open>Round trip\<close>

lemma vec_marshal_loop_list:
  "vec_inv v \<Longrightarrow> i + n \<le> vec_cnt v \<Longrightarrow> vec_marshal_loop v i n = Inr (map VecItem (take n (drop i (vec_list v))))"
proof (induction n arbitrary: i)
  case (Suc n)
  have "drop i (vec_list v) = vec_list v ! i # drop (Suc i) (vec_list v)"
    using Suc.prems by (simp add: Cons_nth_drop_Suc vec_length)
  with Suc show ?case by (simp add: vec_at_list)
qed simp

lemma vec_size_loop_list:
  "vec_inv v \<Longrightarrow> i + n \<le> vec_cnt v \<Longrightarrow> vec_size_loop isz v i n = Inr (sum_list (map isz (take n (drop i (vec_list v)))))"
proof (induction n arbitrary: i)
  case (Suc n)
  have "drop i (vec_list v) = vec_list v ! i # drop (Suc i) (vec_list v)"
    using Suc.prems by (simp add: Cons_nth_drop_Suc vec_length)
  with Suc show ?case by (simp add: vec_at_list)
qed simp

lemma vec_unmarshal_loop_list:
  "vec_inv v \<Longrightarrow> \<exists>v'. vec_unmarshal_loop v (length xs) (map VecItem xs @ buf) = Inr (v', buf) \<and> vec_inv v' \<and> vec_list v' = vec_list v @ xs"
proof (induction xs arbitrary: v)
  case (Cons x xs)
  obtain v1 where v1: "bindr (vec_add v) (\<lambda>(i, v). vec_put v i x) = Inr v1" "vec_inv v1" "vec_list v1 = vec_list v @ [x]"
    using vec_push [OF Cons.prems, of x] by blast
  then have "vec_unmarshal_loop v (length (x # xs)) (map VecItem (x # xs) @ buf) = vec_unmarshal_loop v1 (length xs) (map VecItem xs @ buf)"
    by (auto simp: bindr_eq_Inr)
  with Cons.IH [OF v1(2)] v1(3) show ?case by simp
qed simp

lemma vec_marshal_size:
  "vec_inv v \<Longrightarrow> vec_size_m isz v = Inr (8 + sum_list (map isz (vec_list v)))"
  using vec_size_loop_list [of v 0 "vec_cnt v" isz] vec_length [of v] by (auto simp: vec_size_m_def)

theorem vec_marshal_roundtrip:
  assumes "vec_inv v"
  shows "\<exists>img v'. vec_marshal v = Inr img \<and> vec_unmarshal w (img @ buf) = Inr (v', buf) \<and> vec_inv v' \<and> vec_list v' = vec_list v"
proof -
  have m: "vec_marshal v = Inr (VecHeader (vec_cnt v) # map VecItem (vec_list v))"
    using vec_marshal_loop_list [OF assms, of 0 "vec_cnt v"] vec_length [OF assms] by (simp add: vec_marshal_def)
  obtain v' where "vec_unmarshal_loop (vec_clear w) (length (vec_list v)) (map VecItem (vec_list v) @ buf) = Inr (v', buf)"
      "vec_inv v'" "vec_list v' = vec_list v"
    using vec_unmarshal_loop_list [of "vec_clear w" "vec_list v" buf] by auto
  with m vec_length [OF assms] vec_length [of v'] show ?thesis by simp
qed

section \<open>The vector contract\<close>

text \<open>
  What a client relies on: appending an item, reading by index, the number of items. A search over the items is the
  loop \<open>scan_from\<close>.
\<close>

fun scan_from :: "('v \<Rightarrow> nat \<Rightarrow> 'a result) \<Rightarrow> ('a \<Rightarrow> bool result) \<Rightarrow> 'v \<Rightarrow> nat \<Rightarrow> nat \<Rightarrow> bool result" where
  "scan_from get p v i 0 = Inr False"
| "scan_from get p v i (Suc n) = bindr (get v i) (\<lambda>x. bindr (p x) (\<lambda>b. if b then Inr True else scan_from get p v (Suc i) n))"

definition vec_push_item :: "'a vec \<Rightarrow> 'a \<Rightarrow> 'a vec result" where
  "vec_push_item v x = bindr (vec_add v) (\<lambda>(i, v). vec_put v i x)"

locale vector =
  fixes items :: "'v \<Rightarrow> 'a list"
    and invar :: "'v \<Rightarrow> bool"
    and push :: "'v \<Rightarrow> 'a \<Rightarrow> 'v result"
    and get :: "'v \<Rightarrow> nat \<Rightarrow> 'a result"
    and vsize :: "'v \<Rightarrow> nat"
  assumes push_items: "invar v \<Longrightarrow> \<exists>v'. push v x = Inr v' \<and> invar v' \<and> items v' = items v @ [x]"
    and get_nth: "invar v \<Longrightarrow> i < length (items v) \<Longrightarrow> get v i = Inr (items v ! i)"
    and vsize_length: "invar v \<Longrightarrow> vsize v = length (items v)"
begin

text \<open>A search whose test returns on every item finds an item exactly when there is one.\<close>

lemma scan_suffix:
  assumes "invar v" and "\<And>x. x \<in> set (items v) \<Longrightarrow> p x = Inr (P x)"
  shows "i + n = length (items v) \<Longrightarrow> scan_from get p v i n = Inr (\<exists>x\<in>set (drop i (items v)). P x)"
proof (induction n arbitrary: i)
  case (Suc n)
  have "drop i (items v) = items v ! i # drop (Suc i) (items v)" using Suc.prems by (simp add: Cons_nth_drop_Suc)
  with Suc assms show ?case by (auto simp: get_nth)
qed simp

lemma scan_items:
  "invar v \<Longrightarrow> (\<And>x. x \<in> set (items v) \<Longrightarrow> p x = Inr (P x)) \<Longrightarrow> scan_from get p v 0 (vsize v) = Inr (\<exists>x\<in>set (items v). P x)"
  using scan_suffix [of v p P 0 "vsize v"] by (simp add: vsize_length)

text \<open>Appending an absent item keeps the items distinct.\<close>

lemma push_absent:
  assumes "invar v" and "distinct (items v)" and "x \<notin> set (items v)"
  shows "\<exists>v'. push v x = Inr v' \<and> invar v' \<and> distinct (items v') \<and> set (items v') = insert x (set (items v))"
  using push_items [OF assms(1), of x] assms(2,3) by auto

end

interpretation vecs: vector vec_list vec_inv vec_push_item vec_get vec_size
  by unfold_locales (auto simp: vec_push_item_def vec_push vec_get_def vec_size_def vec_length vec_at_list)

end
