(* ===== verification/Ichpt.thy ===== *)
theory Ichpt
  imports Vec Candidates
begin

text \<open>
  Instruction change points: stable addresses (\<^verbatim>\<open>src/base/stable_address.c\<close> and the lookup of
  \<^verbatim>\<open>src/base/memory_map.c\<close>), the set of instructions that the module \<^verbatim>\<open>ichpt\<close>
  (\<^verbatim>\<open>modules/ichpt/src\<close>) keeps in a vector, and the module \<^verbatim>\<open>memaccess\<close> that turns memory accesses into
  change points.

  The memory map is the table parsed from the file of the operating system; it is an argument of the
  definitions. Strings have no character 0.
\<close>

section \<open>Memory maps\<close>

record map_address =
  mad_name :: string
  mad_offset :: "64 word"

record memory_map_entry =
  mme_name :: string
  mme_offset :: "64 word"
  mme_start :: "64 word"
  mme_end :: "64 word"

text \<open>The table ends with an entry whose start is 0.\<close>

fun memory_map_search :: "memory_map_entry list \<Rightarrow> 64 word \<Rightarrow> memory_map_entry result" where
  "memory_map_search [] a = Inl Fault"
| "memory_map_search (m # ms) a =
     (if mme_start m \<noteq> 0 \<and> (mme_start m > a \<or> a \<ge> mme_end m) then memory_map_search ms a else Inr m)"

definition memory_map_address_lookup :: "memory_map_entry list \<Rightarrow> 64 word \<Rightarrow> map_address \<Rightarrow> map_address result" where
  "memory_map_address_lookup maps a res =
     bindr (memory_map_search maps a) (\<lambda>m.
       if mme_start m = 0 then Inr res
       else Inr \<lparr>mad_name = mme_name m, mad_offset = a - mme_start m + mme_offset m\<rparr>)"

definition memory_map_address_equals :: "map_address \<Rightarrow> map_address \<Rightarrow> bool" where
  "memory_map_address_equals a b \<longleftrightarrow> mad_offset a = mad_offset b \<and> mad_name a = mad_name b"

section \<open>Stable addresses\<close>

datatype stable_address_method =
    STABLE_ADDRESS_METHOD_NONE | STABLE_ADDRESS_METHOD_MASK | STABLE_ADDRESS_METHOD_MAP
  | STABLE_ADDRESS_METHOD_END | STABLE_ADDRESS_METHOD_SIZE

datatype stable_address = ADDRESS_PTR "64 word" | ADDRESS_MAP map_address

definition STABLE_MASK :: "64 word" where "STABLE_MASK = 0xFFF"

unbundle bit_operations_syntax

fun stable_address_get :: "memory_map_entry list \<Rightarrow> 64 word \<Rightarrow> stable_address_method \<Rightarrow> stable_address result" where
  "stable_address_get maps a STABLE_ADDRESS_METHOD_NONE = Inr (ADDRESS_PTR a)"
| "stable_address_get maps a STABLE_ADDRESS_METHOD_MASK = Inr (ADDRESS_PTR (a AND STABLE_MASK))"
| "stable_address_get maps a STABLE_ADDRESS_METHOD_MAP =
     bindr (memory_map_address_lookup maps a \<lparr>mad_name = '''', mad_offset = 0\<rparr>) (\<lambda>r. Inr (ADDRESS_MAP r))"
| "stable_address_get maps a _ = Inl AssertFailed"

fun stable_address_equals :: "stable_address \<Rightarrow> stable_address \<Rightarrow> bool result" where
  "stable_address_equals (ADDRESS_PTR p) (ADDRESS_PTR q) = Inr (p = q)"
| "stable_address_equals (ADDRESS_MAP a) (ADDRESS_MAP b) = Inr (memory_map_address_equals a b)"
| "stable_address_equals _ _ = Inl AssertFailed"

text \<open>\<^verbatim>\<open>strcmp\<close>; only the sign of its result is used.\<close>

fun c_strcmp :: "string \<Rightarrow> string \<Rightarrow> int" where
  "c_strcmp [] [] = 0"
| "c_strcmp [] (d # ds) = -1"
| "c_strcmp (c # cs) [] = 1"
| "c_strcmp (c # cs) (d # ds) =
     (if (of_char c :: nat) < of_char d then -1 else if (of_char c :: nat) > of_char d then 1 else c_strcmp cs ds)"

definition word_compare :: "64 word \<Rightarrow> 64 word \<Rightarrow> int" where
  "word_compare p q = (if p < q then -1 else if p > q then 1 else 0)"

fun stable_address_compare :: "stable_address \<Rightarrow> stable_address \<Rightarrow> int result" where
  "stable_address_compare (ADDRESS_PTR p) (ADDRESS_PTR q) = Inr (word_compare p q)"
| "stable_address_compare (ADDRESS_MAP a) (ADDRESS_MAP b) =
     (let d = c_strcmp (mad_name a) (mad_name b) in
      if d \<noteq> 0 then Inr d else Inr (word_compare (mad_offset a) (mad_offset b)))"
| "stable_address_compare _ _ = Inl AssertFailed"

section \<open>The module ichpt\<close>

text \<open>
  The configuration holds the initial vector, which a previous run left; the final vector is the set
  of change points of this run. The method is a member of the configuration of the sequencer.
\<close>

record ichpt_state =
  ic_enabled :: bool
  ic_initial :: "stable_address vec"
  ic_final :: "stable_address vec"

text \<open>The subscriber to \<^verbatim>\<open>EVENT_ENGINE__AFTER_UNMARSHAL_CONFIG\<close>.\<close>

definition ichpt_after_unmarshal_config :: "stable_address sorter \<Rightarrow> ichpt_state \<Rightarrow> ichpt_state result" where
  "ichpt_after_unmarshal_config qs s =
     bindr (vec_union qs (ic_final s) (ic_initial s) stable_address_compare) (\<lambda>v. Inr (s\<lparr>ic_final := v\<rparr>))"

definition ichpt_count :: "ichpt_state \<Rightarrow> nat" where
  "ichpt_count s = vec_size (ic_final s)"

definition is_ichpt :: "memory_map_entry list \<Rightarrow> stable_address_method \<Rightarrow> ichpt_state \<Rightarrow> 64 word \<Rightarrow> bool result" where
  "is_ichpt maps sam s a =
     bindr (stable_address_get maps a sam) (\<lambda>sa.
       scan_from vec_get (\<lambda>it. stable_address_equals it sa) (ic_final s) 0 (vec_size (ic_final s)))"

definition add_ichpt :: "memory_map_entry list \<Rightarrow> stable_address_method \<Rightarrow> ichpt_state \<Rightarrow> 64 word \<Rightarrow> ichpt_state result" where
  "add_ichpt maps sam s a =
     bindr (is_ichpt maps sam s a) (\<lambda>b.
       if b then Inr s
       else bindr (vec_add (ic_final s)) (\<lambda>(i, v).
         bindr (stable_address_get maps a sam) (\<lambda>sa.
           bindr (vec_put v i sa) (\<lambda>v. Inr (s\<lparr>ic_final := v\<rparr>)))))"

definition ichpt_reset :: "ichpt_state \<Rightarrow> ichpt_state" where
  "ichpt_reset s = s\<lparr>ic_final := vec_clear (ic_final s)\<rparr>"

definition ichpt_handle :: "memory_map_entry list \<Rightarrow> stable_address_method \<Rightarrow> ichpt_state handler" where
  "ichpt_handle maps sam cp e s =
     (if e_skip e \<or> \<not> ic_enabled s then Inr (e, s)
      else assertr (cp_id cp \<noteq> NO_TASK)
        (if e_readonly e then Inr (e, s)
         else bindr (is_ichpt maps sam s (cp_pc cp)) (\<lambda>b.
           if b then Inr (e\<lparr>e_is_chpt := True\<rparr>, s) else Inr (e, s))))"

section \<open>The module memaccess\<close>

text \<open>\<open>ma\<close> decodes the event numbers of the interception library.\<close>

definition memaccess_syncs :: "ma_kind option \<Rightarrow> bool" where
  "memaccess_syncs k \<longleftrightarrow> k \<in> Some ` {MA_AREAD, MA_AWRITE, MA_XCHG, MA_CMPXCHG, MA_RMW, MA_FENCE}"

definition memaccess_handle :: "bool \<Rightarrow> (type_id \<Rightarrow> ma_kind option) \<Rightarrow> unit handler" where
  "memaccess_handle enabled ma cp e s =
     (if e_skip e \<or> \<not> enabled then Inr (e, s)
      else assertr (cp_id cp \<noteq> NO_TASK)
        (if e_readonly e then Inr (e, s)
         else if cp_chain_id cp = CHAIN_INGRESS_BEFORE then
           (if memaccess_syncs (ma (cp_type_id cp)) \<and> \<not> e_is_chpt e
            then Inr (e\<lparr>e_reason := REASON_DETERMINISTIC, e_is_chpt := True\<rparr>, s) else Inr (e, s))
         else if cp_chain_id cp = CHAIN_INGRESS_AFTER then
           (if memaccess_syncs (ma (cp_type_id cp)) \<and> \<not> e_is_chpt e
            then Inr (e\<lparr>e_is_chpt := False, e_readonly := True\<rparr>, s) else Inr (e, s))
         else Inr (e, s)))"

section \<open>The order of stable addresses\<close>

lemma strcmp_eq: "c_strcmp s t = 0 \<longleftrightarrow> s = t"
proof (induction s t rule: c_strcmp.induct)
  case (4 c cs d ds)
  consider "(of_char c :: nat) < of_char d" | "(of_char d :: nat) < of_char c" | "c = d"
    using linorder_less_linear [of "of_char c :: nat" "of_char d"] by (auto simp only: of_char_eq_iff)
  then show ?case
  proof cases
    case 3
    with 4 show ?thesis by simp
  qed (use less_not_refl in \<open>auto\<close>)
qed simp_all

lemma strcmp_swap: "c_strcmp t s = - c_strcmp s t"
proof (induction s t rule: c_strcmp.induct)
  case (4 c cs d ds)
  show ?case
    using linorder_less_linear [of "of_char c :: nat" "of_char d"] 4 by (auto simp del: of_char_eq_iff)
qed simp_all

lemma strcmp_trans: "c_strcmp s t \<le> 0 \<Longrightarrow> c_strcmp t u \<le> 0 \<Longrightarrow> c_strcmp s u \<le> 0"
proof (induction s t arbitrary: u rule: c_strcmp.induct)
  case (1 u)
  then show ?case by simp
next
  case (2 d ds u)
  then show ?case by (cases u) simp_all
next
  case (3 c cs u)
  then show ?case by simp
next
  case (4 c cs d ds u)
  show ?case
  proof (cases u)
    case Nil
    with 4(3) show ?thesis by simp
  next
    case (Cons f fs)
    let ?n = "of_char :: char \<Rightarrow> nat"
    consider "?n c < ?n d" | "?n c = ?n d" using 4(2) by (auto split: if_splits)
    then show ?thesis
    proof cases
      case 1
      have "?n d \<le> ?n f" using 4(3) Cons by (auto split: if_splits)
      with 1 Cons show ?thesis by simp
    next
      case 2
      then have "c_strcmp cs ds \<le> 0" using 4(2) by simp
      with 2 4(1) [of fs] 4(3) Cons show ?thesis by (auto split: if_splits)
    qed
  qed
qed

lemma word_compare_laws:
  "word_compare p q = 0 \<longleftrightarrow> p = q" "word_compare p q \<le> 0 \<longleftrightarrow> p \<le> q"
  by (auto simp: word_compare_def)

lemma word_compare_swap: "word_compare q p = - word_compare p q"
  by (auto simp: word_compare_def)

lemma linear_cmpI:
  assumes "\<And>x y. x \<in> A \<Longrightarrow> y \<in> A \<Longrightarrow> c x y = 0 \<longleftrightarrow> x = y" and "\<And>x y. x \<in> A \<Longrightarrow> y \<in> A \<Longrightarrow> c y x = - c x y"
    and "\<And>x y z. x \<in> A \<Longrightarrow> y \<in> A \<Longrightarrow> z \<in> A \<Longrightarrow> c x y \<le> 0 \<Longrightarrow> c y z \<le> 0 \<Longrightarrow> c x z \<le> 0"
  shows "linear_cmp A c"
proof -
  have "c x y \<le> 0 \<or> c y x \<le> 0" if "x \<in> A" "y \<in> A" for x y using assms(2) [OF that] by auto
  then have "comparator_on A c" unfolding comparator_on_def using assms(3) by blast
  moreover have "x = y" if "x \<in> A" "y \<in> A" "c x y \<le> 0" "c y x \<le> 0" for x y
    using assms(1,2) [OF that(1,2)] that(3,4) by auto
  ultimately show ?thesis unfolding linear_cmp_def using assms(1) by blast
qed

text \<open>The two kinds of stable addresses; addresses of one kind are linearly ordered.\<close>

fun sa_is_map :: "stable_address \<Rightarrow> bool" where
  "sa_is_map (ADDRESS_PTR p) = False"
| "sa_is_map (ADDRESS_MAP a) = True"

definition map_compare :: "map_address \<Rightarrow> map_address \<Rightarrow> int" where
  "map_compare a b = (let d = c_strcmp (mad_name a) (mad_name b) in if d \<noteq> 0 then d else word_compare (mad_offset a) (mad_offset b))"

lemma map_compare_laws:
  "map_compare a b = 0 \<longleftrightarrow> a = b" "map_compare b a = - map_compare a b"
  "map_compare a b \<le> 0 \<Longrightarrow> map_compare b d \<le> 0 \<Longrightarrow> map_compare a d \<le> 0"
proof -
  show "map_compare a b = 0 \<longleftrightarrow> a = b" by (auto simp: map_compare_def Let_def strcmp_eq word_compare_laws)
  show "map_compare b a = - map_compare a b"
    using strcmp_swap [of "mad_name b" "mad_name a"] word_compare_swap [of "mad_offset b" "mad_offset a"]
    by (auto simp: map_compare_def Let_def)
  assume ab: "map_compare a b \<le> 0" and bd: "map_compare b d \<le> 0"
  then have n: "c_strcmp (mad_name a) (mad_name b) \<le> 0" "c_strcmp (mad_name b) (mad_name d) \<le> 0"
    by (auto simp: map_compare_def Let_def split: if_splits)
  then have ad: "c_strcmp (mad_name a) (mad_name d) \<le> 0" by (rule strcmp_trans)
  show "map_compare a d \<le> 0"
  proof (cases "mad_name a = mad_name d")
    case True
    then have "mad_name a = mad_name b"
      using n strcmp_swap [of "mad_name a" "mad_name b"] strcmp_eq [of "mad_name a" "mad_name b"] by auto
    with True ab bd have "mad_offset a \<le> mad_offset b" "mad_offset b \<le> mad_offset d"
      by (auto simp: map_compare_def Let_def strcmp_eq word_compare_laws split: if_splits)
    with True show ?thesis by (auto simp: map_compare_def Let_def strcmp_eq word_compare_laws)
  qed (use ad in \<open>auto simp: map_compare_def Let_def strcmp_eq\<close>)
qed

lemma stable_compare_map: "stable_address_compare (ADDRESS_MAP a) (ADDRESS_MAP b) = Inr (map_compare a b)"
  by (simp add: map_compare_def Let_def)

lemma cmp_int_stable:
  "cmp_int stable_address_compare (ADDRESS_PTR p) (ADDRESS_PTR q) = word_compare p q"
  "cmp_int stable_address_compare (ADDRESS_MAP a) (ADDRESS_MAP b) = map_compare a b"
  by (simp_all add: cmp_int_def stable_compare_map del: stable_address_compare.simps(2))

lemma sa_is_map_cases:
  assumes "sa_is_map x = k"
  obtains p where "x = ADDRESS_PTR p" and "\<not> k" | a where "x = ADDRESS_MAP a" and "k"
  using assms by (cases x) auto

lemma stable_compare_linear:
  assumes "\<And>x. x \<in> A \<Longrightarrow> sa_is_map x = k"
  shows "linear_cmp A (cmp_int stable_address_compare)"
proof (rule linear_cmpI)
  fix x y z assume "x \<in> A" "y \<in> A"
  note k = this [THEN assms]
  show "cmp_int stable_address_compare x y = 0 \<longleftrightarrow> x = y"
    using k by (elim sa_is_map_cases) (auto simp: cmp_int_stable word_compare_laws map_compare_laws(1))
  show "cmp_int stable_address_compare y x = - cmp_int stable_address_compare x y"
    using k by (elim sa_is_map_cases) (auto simp: cmp_int_stable intro: word_compare_swap map_compare_laws(2))
  assume "z \<in> A"
  note k = k this [THEN assms]
  show "cmp_int stable_address_compare x y \<le> 0 \<Longrightarrow> cmp_int stable_address_compare y z \<le> 0 \<Longrightarrow> cmp_int stable_address_compare x z \<le> 0"
    using k by (elim sa_is_map_cases) (auto simp: cmp_int_stable word_compare_laws intro: map_compare_laws(3))
qed

lemma stable_comparable:
  assumes "\<And>x. x \<in> set xs \<Longrightarrow> sa_is_map x = k"
  shows "comparable stable_address_compare xs"
proof -
  have "\<not> isl (stable_address_compare x y)" if "x \<in> set xs" "y \<in> set xs" for x y
    using that [THEN assms] by (elim sa_is_map_cases) (auto simp: Let_def)
  then show ?thesis by (auto simp: comparable_def list_all_iff)
qed

lemma stable_equals:
  "stable_address_equals x y = (if sa_is_map x = sa_is_map y then Inr (x = y) else Inl AssertFailed)"
  by (cases x; cases y) (auto simp: memory_map_address_equals_def)

section \<open>The set of change points\<close>

text \<open>A method for which every address has a stable address: the table of the method \<^verbatim>\<open>MAP\<close> has its terminating entry.\<close>

definition stable_ok :: "memory_map_entry list \<Rightarrow> stable_address_method \<Rightarrow> bool" where
  "stable_ok maps sam \<longleftrightarrow>
     sam = STABLE_ADDRESS_METHOD_NONE \<or> sam = STABLE_ADDRESS_METHOD_MASK \<or>
     sam = STABLE_ADDRESS_METHOD_MAP \<and> list_ex (\<lambda>m. mme_start m = 0) maps"

definition stable_of :: "memory_map_entry list \<Rightarrow> stable_address_method \<Rightarrow> 64 word \<Rightarrow> stable_address" where
  "stable_of maps sam a = projr (stable_address_get maps a sam)"

lemma memory_map_search_ends: "list_ex (\<lambda>m. mme_start m = 0) maps \<Longrightarrow> \<exists>m. memory_map_search maps a = Inr m"
  by (induction maps a rule: memory_map_search.induct) auto

lemma stable_get:
  assumes "stable_ok maps sam"
  shows "stable_address_get maps a sam = Inr (stable_of maps sam a)"
    and "sa_is_map (stable_of maps sam a) = (sam = STABLE_ADDRESS_METHOD_MAP)"
  using assms memory_map_search_ends [of maps a]
  by (auto simp: stable_ok_def stable_of_def memory_map_address_lookup_def)

definition ichpt_inv :: "stable_address_method \<Rightarrow> ichpt_state \<Rightarrow> bool" where
  "ichpt_inv sam s \<longleftrightarrow> vec_inv (ic_final s) \<and> distinct (vec_list (ic_final s)) \<and>
     (\<forall>x\<in>set (vec_list (ic_final s)). sa_is_map x = (sam = STABLE_ADDRESS_METHOD_MAP))"

definition ichpts :: "ichpt_state \<Rightarrow> stable_address set" where
  "ichpts s = set (vec_list (ic_final s))"

lemma is_ichpt_inv:
  assumes "stable_ok maps sam" and "ichpt_inv sam s"
  shows "is_ichpt maps sam s a = Inr (stable_of maps sam a \<in> ichpts s)"
proof -
  let ?sa = "stable_of maps sam a"
  have "stable_address_equals x ?sa = Inr (x = ?sa)" if "x \<in> set (vec_list (ic_final s))" for x
    using assms(2) that stable_get(2) [OF assms(1), of a] by (simp add: ichpt_inv_def stable_equals)
  then have "scan_from vec_get (\<lambda>it. stable_address_equals it ?sa) (ic_final s) 0 (vec_size (ic_final s)) =
      Inr (\<exists>x\<in>set (vec_list (ic_final s)). x = ?sa)"
    using assms(2) by (intro vecs.scan_items) (auto simp: ichpt_inv_def)
  then show ?thesis by (simp add: is_ichpt_def stable_get(1) [OF assms(1)] ichpts_def)
qed

lemma add_ichpt_inv:
  assumes "stable_ok maps sam" and "ichpt_inv sam s"
  shows "\<exists>s'. add_ichpt maps sam s a = Inr s' \<and> ichpt_inv sam s' \<and> ichpts s' = insert (stable_of maps sam a) (ichpts s) \<and>
    ic_enabled s' = ic_enabled s \<and> ic_initial s' = ic_initial s"
proof (cases "stable_of maps sam a \<in> ichpts s")
  case True
  with assms show ?thesis by (auto simp: add_ichpt_def is_ichpt_inv)
next
  case False
  let ?sa = "stable_of maps sam a"
  obtain v' where v': "vec_push_item (ic_final s) ?sa = Inr v'" "vec_inv v'" "distinct (vec_list v')" "set (vec_list v') = insert ?sa (ichpts s)"
    using vecs.push_absent [of "ic_final s" ?sa] assms(2) False by (auto simp: ichpt_inv_def ichpts_def)
  have "add_ichpt maps sam s a = bindr (vec_push_item (ic_final s) ?sa) (\<lambda>v. Inr (s\<lparr>ic_final := v\<rparr>))"
    using False by (simp add: add_ichpt_def is_ichpt_inv assms stable_get(1) vec_push_item_def bindr_assoc case_prod_unfold)
  moreover have "ichpt_inv sam (s\<lparr>ic_final := v'\<rparr>)"
    using v' assms(2) stable_get(2) [OF assms(1), of a] by (auto simp: ichpt_inv_def ichpts_def)
  ultimately show ?thesis using v' by (auto simp: ichpts_def)
qed

lemma ichpt_count_inv: "ichpt_inv sam s \<Longrightarrow> ichpt_count s = card (ichpts s)"
  by (simp add: ichpt_count_def ichpts_def vec_size_def ichpt_inv_def distinct_card vec_length)

text \<open>Reports of several instructions, as the race detector makes them.\<close>

primrec add_ichpts :: "memory_map_entry list \<Rightarrow> stable_address_method \<Rightarrow> ichpt_state \<Rightarrow> 64 word list \<Rightarrow> ichpt_state result" where
  "add_ichpts maps sam s [] = Inr s"
| "add_ichpts maps sam s (a # as) = bindr (add_ichpt maps sam s a) (\<lambda>s. add_ichpts maps sam s as)"

lemma add_ichpts_inv:
  assumes "stable_ok maps sam" and "ichpt_inv sam s"
  shows "\<exists>s'. add_ichpts maps sam s as = Inr s' \<and> ichpt_inv sam s' \<and> ichpts s' = ichpts s \<union> stable_of maps sam ` set as \<and>
    ic_enabled s' = ic_enabled s"
  using assms(2)
proof (induction as arbitrary: s)
  case (Cons a as)
  from add_ichpt_inv [OF assms(1) Cons.prems, of a] Cons.IH show ?case by fastforce
qed simp

lemma ichpt_load_inv:
  assumes "c_sort qs" and "vec_inv (ic_initial s)" and "ichpt_inv sam s"
    and "\<forall>x\<in>set (vec_list (ic_initial s)). sa_is_map x = (sam = STABLE_ADDRESS_METHOD_MAP)"
  shows "\<exists>s'. ichpt_after_unmarshal_config qs s = Inr s' \<and> ichpt_inv sam s' \<and> ichpts s' = ichpts s \<union> set (vec_list (ic_initial s)) \<and>
    ic_enabled s' = ic_enabled s"
proof -
  let ?k = "sam = STABLE_ADDRESS_METHOD_MAP"
  have k: "sa_is_map x = ?k" if "x \<in> set (vec_list (ic_final s)) \<union> set (vec_list (ic_initial s))" for x
    using that assms(3,4) by (auto simp: ichpt_inv_def)
  have "linear_cmp (set (vec_list (ic_final s)) \<union> set (vec_list (ic_initial s))) (cmp_int stable_address_compare)"
    using k by (rule stable_compare_linear)
  moreover have "comparable stable_address_compare (vec_list (ic_final s) @ vec_list (ic_initial s))"
    by (rule stable_comparable) (use k in simp)
  ultimately obtain v where "vec_union qs (ic_final s) (ic_initial s) stable_address_compare = Inr v" "vec_inv v" "distinct (vec_list v)"
      "set (vec_list v) = set (vec_list (ic_final s)) \<union> set (vec_list (ic_initial s))"
    using c_sort.vec_union_list [OF assms(1)] assms(2,3) unfolding ichpt_inv_def by blast
  with k show ?thesis by (auto simp: ichpt_after_unmarshal_config_def ichpt_inv_def ichpts_def)
qed

section \<open>The handlers\<close>

lemma ichpt_handle_inv:
  assumes "stable_ok maps sam" and "ichpt_inv sam s" and "ic_enabled s" and "\<not> e_skip e" and "\<not> e_readonly e" and "cp_id cp \<noteq> NO_TASK"
  shows "ichpt_handle maps sam cp e s = Inr (e\<lparr>e_is_chpt := e_is_chpt e \<or> stable_of maps sam (cp_pc cp) \<in> ichpts s\<rparr>, s)"
  using assms by (cases e) (auto simp: ichpt_handle_def is_ichpt_inv)

interpretation ichpt_h: capture_handler "ichpt_handle maps sam"
  by unfold_locales (auto simp: ichpt_handle_def result_elims split: if_splits)

interpretation memaccess_h: capture_handler "memaccess_handle enabled ma"
  by unfold_locales (auto simp: memaccess_handle_def result_elims split: if_splits)

text \<open>
  Claim C29. The module that holds the instruction change points behaves as a set of stable addresses: after the change points of a
  previous run have been loaded and any sequence of instructions has been reported, the set is exactly the loaded addresses
  and those of the reported instructions, without duplicates whatever the previous run left, and the capture handler
  makes a scheduling point of an event exactly when its instruction is in the set (or it was one already).
\<close>

theorem ichpt_set_exact:
  assumes "c_sort qs" and "stable_ok maps sam" and "vec_inv old"
    and "\<forall>x\<in>set (vec_list old). sa_is_map x = (sam = STABLE_ADDRESS_METHOD_MAP)"
  shows "\<exists>s0 s. ichpt_after_unmarshal_config qs \<lparr>ic_enabled = True, ic_initial = old, ic_final = vec_init\<rparr> = Inr s0 \<and>
    add_ichpts maps sam s0 as = Inr s \<and>
    (\<forall>a. is_ichpt maps sam s a = Inr (stable_of maps sam a \<in> set (vec_list old) \<union> stable_of maps sam ` set as)) \<and>
    ichpt_count s = card (set (vec_list old) \<union> stable_of maps sam ` set as) \<and>
    (\<forall>cp e. cp_id cp \<noteq> NO_TASK \<longrightarrow> \<not> e_skip e \<longrightarrow> \<not> e_readonly e \<longrightarrow>
       ichpt_handle maps sam cp e s =
         Inr (e\<lparr>e_is_chpt := e_is_chpt e \<or> stable_of maps sam (cp_pc cp) \<in> set (vec_list old) \<union> stable_of maps sam ` set as\<rparr>, s))"
proof -
  let ?s = "\<lparr>ic_enabled = True, ic_initial = old, ic_final = vec_init\<rparr>"
  have "ichpt_inv sam ?s" "ichpts ?s = {}" by (simp_all add: ichpt_inv_def ichpts_def)
  with ichpt_load_inv [OF assms(1), of ?s sam] assms(3,4) obtain s0 where
    s0: "ichpt_after_unmarshal_config qs ?s = Inr s0" "ichpt_inv sam s0" "ichpts s0 = set (vec_list old)" "ic_enabled s0"
    by auto
  obtain s where s: "add_ichpts maps sam s0 as = Inr s" "ichpt_inv sam s"
      "ichpts s = set (vec_list old) \<union> stable_of maps sam ` set as" "ic_enabled s"
    using add_ichpts_inv [OF assms(2) s0(2), of as] s0(3,4) by auto
  show ?thesis
    by (intro exI [of _ s0] exI [of _ s] conjI allI impI)
      (use s0 s in \<open>simp_all add: is_ichpt_inv [OF assms(2)] ichpt_count_inv ichpt_handle_inv [OF assms(2)]\<close>)
qed

definition old_sample :: "stable_address vec" where
  "old_sample = \<lparr>vec_cnt = 2, vec_cap = 3, vec_items = Some [Some (ADDRESS_PTR 7), Some (ADDRESS_PTR 7), None]\<rparr>"

theorem ichpt_set_exact_witness:
  "\<exists>s0 s. ichpt_after_unmarshal_config insertion_qsort \<lparr>ic_enabled = True, ic_initial = old_sample, ic_final = vec_init\<rparr> = Inr s0 \<and>
    add_ichpts [] STABLE_ADDRESS_METHOD_MASK s0 [0x55001, 0x66001] = Inr s \<and> ichpt_count s = 2 \<and>
    is_ichpt [] STABLE_ADDRESS_METHOD_MASK s 0x77007 = Inr True"
proof -
  have o: "vec_inv old_sample" "vec_list old_sample = [ADDRESS_PTR 7, ADDRESS_PTR 7]"
    by (simp_all add: old_sample_def vec_inv_def vec_list_def)
  have st: "stable_of [] STABLE_ADDRESS_METHOD_MASK a = ADDRESS_PTR (a AND STABLE_MASK)" for a by (simp add: stable_of_def)
  have "stable_ok [] STABLE_ADDRESS_METHOD_MASK" by (simp add: stable_ok_def)
  from ichpt_set_exact [OF isort.c_sort_axioms this o(1), of "[0x55001, 0x66001]"] o(2)
  obtain s0 s where "ichpt_after_unmarshal_config insertion_qsort \<lparr>ic_enabled = True, ic_initial = old_sample, ic_final = vec_init\<rparr> = Inr s0"
      "add_ichpts [] STABLE_ADDRESS_METHOD_MASK s0 [0x55001, 0x66001] = Inr s"
      "is_ichpt [] STABLE_ADDRESS_METHOD_MASK s 0x77007 = Inr (stable_of [] STABLE_ADDRESS_METHOD_MASK 0x77007 \<in>
         set (vec_list old_sample) \<union> stable_of [] STABLE_ADDRESS_METHOD_MASK ` set [0x55001, 0x66001])"
      "ichpt_count s = card (set (vec_list old_sample) \<union> stable_of [] STABLE_ADDRESS_METHOD_MASK ` set [0x55001, 0x66001])"
    by auto
  with o(2) show ?thesis by (simp add: st STABLE_MASK_def)
qed

text \<open>
  Change points recorded with another method stop the program: the addresses are of another kind, and comparing
  addresses of two kinds is an assertion, not the answer \<open>False\<close>.
\<close>

theorem ichpt_method_changed:
  assumes "stable_ok maps sam" and "vec_inv (ic_final s)" and "vec_list (ic_final s) \<noteq> []"
    and "\<forall>x\<in>set (vec_list (ic_final s)). sa_is_map x \<noteq> (sam = STABLE_ADDRESS_METHOD_MAP)"
  shows "is_ichpt maps sam s a = Inl AssertFailed" and "add_ichpt maps sam s a = Inl AssertFailed"
proof -
  obtain x xs where x: "vec_list (ic_final s) = x # xs" using assms(3) by (cases "vec_list (ic_final s)") auto
  have "vec_get (ic_final s) 0 = Inr x" "vec_size (ic_final s) = Suc (length xs)"
    using vecs.get_nth [OF assms(2), of 0] vecs.vsize_length [OF assms(2)] x by simp_all
  moreover have "sa_is_map x \<noteq> sa_is_map (stable_of maps sam a)" using assms(4) x stable_get(2) [OF assms(1), of a] by simp
  ultimately show "is_ichpt maps sam s a = Inl AssertFailed"
    by (simp add: is_ichpt_def stable_get(1) [OF assms(1)] stable_equals)
  then show "add_ichpt maps sam s a = Inl AssertFailed" by (simp add: add_ichpt_def)
qed

end
