(* ===== verification/Race.thy ===== *)
theory Race
  imports Ichpt Mutex
begin

text \<open>
  The race detector of \<^verbatim>\<open>modules/race/src/handler.c\<close>. For every task it keeps the accesses the task made since its
  last synchronisation and compares a new access with those of the other tasks. A race that is found is
  printed or ends the program, and its two instructions become change points of the module \<^verbatim>\<open>ichpt\<close>.

  The constants are those of \<^verbatim>\<open>RACE_DEFAULT\<close>, which \<^verbatim>\<open>modules/race/src/state.h\<close> defines; the code for the
  emulator (\<^verbatim>\<open>QLOTTO_ENABLED\<close>) is left out. An item of the map is its key and its payload; the first member of \<^verbatim>\<open>ot_set\<close> is
  the item, so that \<^verbatim>\<open>oset->t.key\<close> is the key.
\<close>

section \<open>Access sets\<close>

definition LAZY_DEREG_DELAY :: nat where "LAZY_DEREG_DELAY = 100"
definition MAX_CAPACITY :: nat where "MAX_CAPACITY = 100"

record ot_entry =
  oe_id :: task_id
  oe_virtual :: bool
  oe_addr :: "64 word"
  oe_pc :: "64 word"
  oe_readonly :: bool
  oe_atomic :: bool

record ot_set =
  os_dereg_at :: clk
  os_capacity :: nat
  os_size :: nat
  os_entries :: "ot_entry list"

text \<open>Zeroed memory.\<close>

definition zero_ot_entry :: ot_entry where
  "zero_ot_entry = \<lparr>oe_id = NO_TASK, oe_virtual = False, oe_addr = 0, oe_pc = 0, oe_readonly = False, oe_atomic = False\<rparr>"

definition zero_ot_set :: ot_set where
  "zero_ot_set = \<lparr>os_dereg_at = 0, os_capacity = 0, os_size = 0, os_entries = replicate MAX_CAPACITY zero_ot_entry\<rparr>"

function race_reset_loop :: "ot_set map_t \<Rightarrow> ot_set map_t result" where
  "race_reset_loop m =
     (case map_iterate m of
        [] \<Rightarrow> Inr map_init
      | i # _ \<Rightarrow> bindr (tidmap_deregister m (fst i)) race_reset_loop)"
  by pat_completeness auto
termination
  by (relation "measure (\<lambda>m. length (map_chain m))")
    (auto simp: tidmap_deregister_def map_deregister_def map_find_def map_iterate_def result_elims split: if_splits)

declare race_reset_loop.simps [simp del]

definition ot_get_or_reg :: "ot_set map_t \<Rightarrow> task_id \<Rightarrow> ot_set map_t result" where
  "ot_get_or_reg m t = bindr (tidmap_find m t) (\<lambda>r. case r of None \<Rightarrow> tidmap_register zero_ot_set m t | Some _ \<Rightarrow> Inr m)"

definition ot_lazy_dereg :: "ot_set map_t \<Rightarrow> task_id \<Rightarrow> clk \<Rightarrow> ot_set map_t result" where
  "ot_lazy_dereg m t clk =
     bindr (tidmap_find m t) (\<lambda>r. case r of
        None \<Rightarrow> Inr m
      | Some os \<Rightarrow> if os_dereg_at os \<noteq> 0 then Inr m else Inr (map_write m t (os\<lparr>os_dereg_at := clk + LAZY_DEREG_DELAY\<rparr>)))"

definition ot_add :: "ot_set \<Rightarrow> ot_entry \<Rightarrow> ot_set result" where
  "ot_add os e =
     (if os_size os \<ge> MAX_CAPACITY then Inr os
      else assertr (oe_addr e \<noteq> 0)
        (bindr (wr (Some (os_entries os)) (os_size os) e) (\<lambda>p.
           Inr (os\<lparr>os_size := os_size os + 1, os_entries := the p\<rparr>))))"

definition ot_clear :: "ot_set \<Rightarrow> ot_set" where
  "ot_clear os = os\<lparr>os_size := 0\<rparr>"

text \<open>Through a pointer to the item of a task.\<close>

definition ot_update :: "ot_set map_t \<Rightarrow> task_id \<Rightarrow> (ot_set \<Rightarrow> ot_set result) \<Rightarrow> ot_set map_t result" where
  "ot_update m t f = (case map_find m t of None \<Rightarrow> Inl Fault | Some os \<Rightarrow> bindr (f os) (\<lambda>os. Inr (map_write m t os)))"

definition ot_expired :: "ot_set \<Rightarrow> clk \<Rightarrow> bool" where
  "ot_expired os clk \<longleftrightarrow> os_dereg_at os \<noteq> 0 \<and> os_dereg_at os \<le> clk"

text \<open>
  \<^verbatim>\<open>ot_cleanup\<close> releases an expired item and then reads \<^verbatim>\<open>next\<close> of the released item, an access to memory that is no longer
  allocated.
\<close>

fun ot_cleanup_loop :: "(64 word \<times> ot_set) list \<Rightarrow> clk \<Rightarrow> ot_set map_t \<Rightarrow> ot_set map_t result" where
  "ot_cleanup_loop [] clk m = Inr m"
| "ot_cleanup_loop ((k, os) # its) clk m =
     assertr (k \<noteq> NO_TASK)
       (if ot_expired os clk then bindr (tidmap_deregister m k) (\<lambda>m. Inl Fault)
        else ot_cleanup_loop its clk m)"

definition ot_cleanup :: "ot_set map_t \<Rightarrow> clk \<Rightarrow> ot_set map_t result" where
  "ot_cleanup m clk = ot_cleanup_loop (map_iterate m) clk m"

section \<open>Conflicts\<close>

record race_loc =
  rl_id :: task_id
  rl_pc :: "64 word"
  rl_readonly :: bool

record race_t =
  race_addr :: "64 word"
  race_loc1 :: race_loc
  race_loc2 :: race_loc

definition zero_race :: race_t where
  "zero_race = \<lparr>race_addr = 0, race_loc1 = \<lparr>rl_id = NO_TASK, rl_pc = 0, rl_readonly = False\<rparr>,
     race_loc2 = \<lparr>rl_id = NO_TASK, rl_pc = 0, rl_readonly = False\<rparr>\<rparr>"

definition mk_race :: "ot_entry \<Rightarrow> ot_entry \<Rightarrow> race_t" where
  "mk_race e ee = \<lparr>race_addr = oe_addr e,
     race_loc1 = \<lparr>rl_id = oe_id e, rl_pc = oe_pc e, rl_readonly = oe_readonly e\<rparr>,
     race_loc2 = \<lparr>rl_id = oe_id ee, rl_pc = oe_pc ee, rl_readonly = oe_readonly ee\<rparr>\<rparr>"

text \<open>The entry for which no condition of the inner loop continues; \<open>iww\<close> is \<^verbatim>\<open>ignore_write_write\<close>.\<close>

definition ot_races :: "bool \<Rightarrow> ot_entry \<Rightarrow> ot_entry \<Rightarrow> bool" where
  "ot_races iww e ee \<longleftrightarrow>
     \<not> (oe_addr ee \<noteq> oe_addr e) \<and> \<not> (oe_virtual ee \<noteq> oe_virtual e) \<and> \<not> (oe_atomic ee \<and> oe_atomic e) \<and>
     \<not> (iww \<and> \<not> oe_readonly ee \<and> \<not> oe_readonly e) \<and> \<not> (oe_readonly ee \<and> oe_readonly e)"

text \<open>The inner loop reads the \<open>n\<close> entries from \<open>j\<close> on.\<close>

fun ot_scan :: "bool \<Rightarrow> ot_entry \<Rightarrow> ot_set \<Rightarrow> nat \<Rightarrow> nat \<Rightarrow> ot_entry option result" where
  "ot_scan iww e os j 0 = Inr None"
| "ot_scan iww e os j (Suc n) =
     bindr (rd (Some (os_entries os)) j) (\<lambda>ee. if ot_races iww e ee then Inr (Some ee) else ot_scan iww e os (Suc j) n)"

text \<open>\<^verbatim>\<open>ot_conflict\<close> reads the successor of an item before it releases the item.\<close>

fun ot_conflict_loop :: "bool \<Rightarrow> task_id \<Rightarrow> ot_entry \<Rightarrow> clk \<Rightarrow> (64 word \<times> ot_set) list \<Rightarrow> ot_set map_t \<Rightarrow> (race_t \<times> ot_set map_t) result" where
  "ot_conflict_loop iww t e clk [] m = Inr (zero_race, m)"
| "ot_conflict_loop iww t e clk ((k, os) # its) m =
     assertr (k \<noteq> NO_TASK)
       (if t = k then ot_conflict_loop iww t e clk its m
        else if ot_expired os clk then bindr (tidmap_deregister m k) (ot_conflict_loop iww t e clk its)
        else bindr (ot_scan iww e os 0 (os_size os)) (\<lambda>r. case r of
            Some ee \<Rightarrow> Inr (mk_race e ee, m)
          | None \<Rightarrow> ot_conflict_loop iww t e clk its m))"

definition ot_conflict :: "bool \<Rightarrow> task_id \<Rightarrow> ot_entry \<Rightarrow> clk \<Rightarrow> ot_set map_t \<Rightarrow> (race_t \<times> ot_set map_t) result" where
  "ot_conflict iww t e clk m = assertr (t \<noteq> NO_TASK) (ot_conflict_loop iww t e clk (map_iterate m) m)"

section \<open>The check\<close>

text \<open>\<open>ma\<close> decodes the event numbers of the interception library.\<close>

definition memaccess_addr :: "(type_id \<Rightarrow> ma_kind option) \<Rightarrow> capture_point \<Rightarrow> 64 word result" where
  "memaccess_addr ma cp =
     (case ma (cp_type_id cp) of None \<Rightarrow> Inl AssertFailed | Some k \<Rightarrow> assertr (k \<noteq> MA_FENCE) (Inr (cp_addr cp)))"

definition race_id :: "capture_point \<Rightarrow> task_id" where
  "race_id cp = (if cp_vid cp \<noteq> NO_TASK then cp_vid cp else cp_id cp)"

definition race_entry :: "capture_point \<Rightarrow> 64 word \<Rightarrow> bool \<Rightarrow> bool \<Rightarrow> ot_entry" where
  "race_entry cp a ro atomic = \<lparr>oe_id = race_id cp, oe_virtual = (cp_vid cp \<noteq> NO_TASK), oe_addr = a, oe_pc = cp_pc cp,
     oe_readonly = ro, oe_atomic = atomic\<rparr>"

definition race_check :: "(type_id \<Rightarrow> ma_kind option) \<Rightarrow> bool \<Rightarrow> capture_point \<Rightarrow> clk \<Rightarrow> ot_set map_t \<Rightarrow> (race_t \<times> ot_set map_t) result" where
  "race_check ma iww cp clk m =
     bindr (ot_get_or_reg m (race_id cp)) (\<lambda>m.
       case ma (cp_type_id cp) of
         None \<Rightarrow> Inr (zero_race, m)
       | Some k \<Rightarrow>
           if cp_chain_id cp \<noteq> CHAIN_INGRESS_AFTER then
             if k \<in> {MA_AREAD, MA_READ, MA_WRITE} then
               bindr (memaccess_addr ma cp) (\<lambda>a.
                 if a = 0 then Inr (zero_race, m)
                 else let e = race_entry cp a (k \<noteq> MA_WRITE) (k = MA_AREAD) in
                   bindr (ot_update m (race_id cp) (\<lambda>os. ot_add os e)) (ot_conflict iww (race_id cp) e clk))
             else if k \<in> {MA_AWRITE, MA_CMPXCHG, MA_XCHG, MA_RMW} then
               bindr (memaccess_addr ma cp) (\<lambda>a.
                 if a = 0 then Inr (zero_race, m)
                 else ot_conflict iww (race_id cp) (race_entry cp a False True) clk m)
             else Inr (zero_race, m)
           else if k \<in> {MA_CMPXCHG, MA_AWRITE, MA_XCHG, MA_RMW, MA_FENCE} then
             bindr (ot_update m (race_id cp) (\<lambda>os. Inr (ot_clear os))) (\<lambda>m. Inr (zero_race, m))
           else Inr (zero_race, m))"

section \<open>The handlers\<close>

record race_config =
  rcc_enabled :: bool
  rcc_ignore_write_write :: bool
  rcc_only_write_ichpt :: bool
  rcc_abort_on_race :: bool

text \<open>The module's map and the state of the module \<^verbatim>\<open>ichpt\<close>, which \<^verbatim>\<open>add_ichpt\<close> changes.\<close>

record race_state =
  rc_sets :: "ot_set map_t"
  rc_ichpt :: ichpt_state

text \<open>The instructions of a race that become change points, in the order of the calls.\<close>

definition race_ichpts :: "race_config \<Rightarrow> race_t \<Rightarrow> 64 word list" where
  "race_ichpts cfg r =
     (let l1 = race_loc1 r; l2 = race_loc2 r in
      if rcc_only_write_ichpt cfg
      then (if \<not> rl_readonly l1 then [rl_pc l1] else []) @ (if \<not> rl_readonly l2 then [rl_pc l2] else [])
      else rl_pc l1 # (if rl_pc l1 \<noteq> rl_pc l2 then [rl_pc l2] else []))"

definition race_handle :: "memory_map_entry list \<Rightarrow> stable_address_method \<Rightarrow> (type_id \<Rightarrow> ma_kind option) \<Rightarrow> race_config \<Rightarrow> race_state handler" where
  "race_handle maps sam ma cfg cp e s =
     assertr (cp_id cp \<noteq> NO_TASK)
       (if \<not> rcc_enabled cfg then Inr (e, s)
        else if cp_type_id cp = EVENT_TASK_FINI then
          bindr (ot_lazy_dereg (rc_sets s) (race_id cp) (e_clk e)) (\<lambda>m. Inr (e, s\<lparr>rc_sets := m\<rparr>))
        else if cp_type_id cp = EVENT_TASK_INIT then Inr (e, s)
        else bindr (race_check ma (rcc_ignore_write_write cfg) cp (e_clk e) (rc_sets s)) (\<lambda>(race, m).
          let s = s\<lparr>rc_sets := m\<rparr> in
          if race_addr race = 0 then
            if e_clk e mod LAZY_DEREG_DELAY = 0
            then bindr (ot_cleanup m (e_clk e)) (\<lambda>m. Inr (e, s\<lparr>rc_sets := m\<rparr>))
            else Inr (e, s)
          else if rcc_abort_on_race cfg then Inl Fatal
          else bindr (add_ichpts maps sam (rc_ichpt s) (race_ichpts cfg race)) (\<lambda>ic. Inr (e, s\<lparr>rc_ichpt := ic\<rparr>))))"

definition race_resume_handle :: "race_config \<Rightarrow> capture_point \<Rightarrow> ot_set map_t \<Rightarrow> ot_set map_t result" where
  "race_resume_handle cfg cp m =
     assertr (cp_id cp \<noteq> NO_TASK)
       (if \<not> rcc_enabled cfg then Inr m
        else if cp_type_id cp \<noteq> EVENT_TASK_CREATE \<and> cp_type_id cp \<noteq> EVENT_MUTEX_RELEASE then Inr m
        else bindr (tidmap_find m (race_id cp)) (\<lambda>r. case r of
            None \<Rightarrow> Inr m
          | Some os \<Rightarrow> Inr (map_write m (race_id cp) (ot_clear os))))"

interpretation race_h: capture_handler "race_handle maps sam ma cfg"
  by unfold_locales (auto simp: race_handle_def result_elims Let_def split: if_splits)

section \<open>The abstract detector\<close>

text \<open>
  What the detector promises: for every task the accesses since its last synchronisation, oldest first, and the time at which a
  task ended. The sets of the implementation hold the first \<^const>\<open>MAX_CAPACITY\<close> of them, and a task that has ended is
  forgotten after \<^const>\<open>LAZY_DEREG_DELAY\<close> ticks.
\<close>

record detector =
  dt_recent :: "task_id \<Rightarrow> ot_entry list"
  dt_fini :: "task_id \<Rightarrow> clk option"

definition detector_init :: detector where
  "detector_init = \<lparr>dt_recent = (\<lambda>_. []), dt_fini = (\<lambda>_. None)\<rparr>"

text \<open>The access of an event that is compared with the accesses of the other tasks, and whether it is remembered.\<close>

definition access_of :: "(type_id \<Rightarrow> ma_kind option) \<Rightarrow> capture_point \<Rightarrow> ot_entry option" where
  "access_of ma cp =
     (if cp_chain_id cp = CHAIN_INGRESS_AFTER \<or> cp_addr cp = 0 then None
      else case ma (cp_type_id cp) of
        Some MA_AREAD \<Rightarrow> Some (race_entry cp (cp_addr cp) True True)
      | Some MA_READ \<Rightarrow> Some (race_entry cp (cp_addr cp) True False)
      | Some MA_WRITE \<Rightarrow> Some (race_entry cp (cp_addr cp) False False)
      | Some MA_AWRITE \<Rightarrow> Some (race_entry cp (cp_addr cp) False True)
      | Some MA_CMPXCHG \<Rightarrow> Some (race_entry cp (cp_addr cp) False True)
      | Some MA_XCHG \<Rightarrow> Some (race_entry cp (cp_addr cp) False True)
      | Some MA_RMW \<Rightarrow> Some (race_entry cp (cp_addr cp) False True)
      | _ \<Rightarrow> None)"

definition remembered :: "(type_id \<Rightarrow> ma_kind option) \<Rightarrow> capture_point \<Rightarrow> bool" where
  "remembered ma cp \<longleftrightarrow> ma (cp_type_id cp) \<in> Some ` {MA_AREAD, MA_READ, MA_WRITE}"

definition synchronises :: "(type_id \<Rightarrow> ma_kind option) \<Rightarrow> capture_point \<Rightarrow> bool" where
  "synchronises ma cp \<longleftrightarrow> cp_chain_id cp = CHAIN_INGRESS_AFTER \<and>
     ma (cp_type_id cp) \<in> Some ` {MA_CMPXCHG, MA_AWRITE, MA_XCHG, MA_RMW, MA_FENCE}"

definition detector_check :: "(type_id \<Rightarrow> ma_kind option) \<Rightarrow> capture_point \<Rightarrow> detector \<Rightarrow> detector" where
  "detector_check ma cp a =
     (let t = race_id cp; r = dt_recent a in
      if synchronises ma cp then a\<lparr>dt_recent := r(t := [])\<rparr>
      else case access_of ma cp of
        Some e \<Rightarrow> if remembered ma cp then a\<lparr>dt_recent := r(t := r t @ [e])\<rparr> else a
      | None \<Rightarrow> a)"

definition forgotten :: "detector \<Rightarrow> task_id \<Rightarrow> clk \<Rightarrow> bool" where
  "forgotten a t clk \<longleftrightarrow> (\<exists>c. dt_fini a t = Some c \<and> c + LAZY_DEREG_DELAY \<le> clk)"

text \<open>
  Two accesses race when they are to one address, by tasks of one kind, one of them is a write and one of them is not atomic; a configuration
  can ask for exactly one write.
\<close>

definition data_race :: "bool \<Rightarrow> ot_entry \<Rightarrow> ot_entry \<Rightarrow> bool" where
  "data_race iww e ee \<longleftrightarrow> oe_addr e = oe_addr ee \<and> oe_virtual e = oe_virtual ee \<and>
     (\<not> oe_readonly e \<or> \<not> oe_readonly ee) \<and> (\<not> oe_atomic e \<or> \<not> oe_atomic ee) \<and> (iww \<longrightarrow> oe_readonly e \<or> oe_readonly ee)"

text \<open>A recent access of another task that races with the access of the event.\<close>

definition conflicting :: "(type_id \<Rightarrow> ma_kind option) \<Rightarrow> bool \<Rightarrow> detector \<Rightarrow> capture_point \<Rightarrow> clk \<Rightarrow> ot_entry \<Rightarrow> ot_entry \<Rightarrow> bool" where
  "conflicting ma iww a cp clk e ee \<longleftrightarrow> access_of ma cp = Some e \<and>
     (\<exists>u. u \<noteq> race_id cp \<and> \<not> forgotten a u clk \<and> ee \<in> set (take MAX_CAPACITY (dt_recent a u)) \<and> data_race iww e ee)"

lemma ot_races_data_race: "ot_races iww e ee \<longleftrightarrow> data_race iww e ee"
  by (auto simp: ot_races_def data_race_def)

lemma conflicting_iff:
  "conflicting ma iww a cp clk e ee \<longleftrightarrow> access_of ma cp = Some e \<and>
     (\<exists>u. u \<noteq> race_id cp \<and> \<not> forgotten a u clk \<and> ee \<in> set (take MAX_CAPACITY (dt_recent a u)) \<and> ot_races iww e ee)"
  by (simp add: conflicting_def ot_races_data_race)

section \<open>The relation\<close>

text \<open>The well-formed map of the implementation.\<close>

definition ot_set_wf :: "task_id \<Rightarrow> ot_set \<Rightarrow> bool" where
  "ot_set_wf k os \<longleftrightarrow> k \<noteq> NO_TASK \<and> length (os_entries os) = MAX_CAPACITY \<and> os_size os \<le> MAX_CAPACITY \<and>
     list_all (\<lambda>e. oe_id e = k \<and> oe_addr e \<noteq> 0) (take (os_size os) (os_entries os))"

definition race_wf :: "ot_set map_t \<Rightarrow> bool" where
  "race_wf m \<longleftrightarrow> map_inv m \<and> (\<forall>k os. map_find m k = Some os \<longrightarrow> ot_set_wf k os)"

definition ot_matches :: "detector \<Rightarrow> task_id \<Rightarrow> ot_set \<Rightarrow> bool" where
  "ot_matches a k os \<longleftrightarrow> take (os_size os) (os_entries os) = take MAX_CAPACITY (dt_recent a k) \<and>
     os_dereg_at os = (case dt_fini a k of None \<Rightarrow> 0 | Some c \<Rightarrow> c + LAZY_DEREG_DELAY)"

definition race_rel :: "detector \<Rightarrow> clk \<Rightarrow> ot_set map_t \<Rightarrow> bool" where
  "race_rel a now m \<longleftrightarrow> race_wf m \<and> (\<forall>k os. map_find m k = Some os \<longrightarrow> ot_matches a k os) \<and>
     (\<forall>k. map_find m k = None \<longrightarrow> dt_recent a k = [] \<or> forgotten a k now)"

lemma delay_pos [simp]: "0 < LAZY_DEREG_DELAY" "LAZY_DEREG_DELAY \<noteq> 0" "0 < MAX_CAPACITY" "MAX_CAPACITY \<noteq> 0"
  by (simp_all add: LAZY_DEREG_DELAY_def MAX_CAPACITY_def)

lemma forgotten_mono: "forgotten a k now \<Longrightarrow> now \<le> clk \<Longrightarrow> forgotten a k clk"
  by (auto simp: forgotten_def)

lemma matches_expired: "ot_matches a k os \<Longrightarrow> ot_expired os clk \<longleftrightarrow> forgotten a k clk"
  by (auto simp: ot_matches_def ot_expired_def forgotten_def split: option.splits)

lemma race_rel_time: "race_rel a now m \<Longrightarrow> now \<le> clk \<Longrightarrow> race_rel a clk m"
  unfolding race_rel_def using forgotten_mono by blast

lemma ot_set_wf_zero [simp]: "k \<noteq> NO_TASK \<Longrightarrow> ot_set_wf k zero_ot_set"
  by (simp add: ot_set_wf_def zero_ot_set_def)

lemma race_rel_init: "race_rel detector_init 0 map_init"
  by (simp add: race_rel_def race_wf_def detector_init_def)

text \<open>Writing the set of a registered task.\<close>

lemma race_wf_write:
  assumes "race_wf m" and "map_find m k \<noteq> None" and "ot_set_wf k os"
  shows "race_wf (map_write m k os)"
  using assms by (auto simp: race_wf_def map_find_write)

lemma race_rel_write:
  assumes "race_rel a now m" and "map_find m k \<noteq> None" and "ot_set_wf k os" and "ot_matches a' k os"
    and "\<And>u. u \<noteq> k \<Longrightarrow> dt_recent a' u = dt_recent a u \<and> dt_fini a' u = dt_fini a u"
  shows "race_rel a' now (map_write m k os)"
proof -
  have "ot_matches a' u s \<longleftrightarrow> ot_matches a u s" "forgotten a' u now \<longleftrightarrow> forgotten a u now" if "u \<noteq> k" for u s
    using assms(5) [OF that] by (simp_all add: ot_matches_def forgotten_def)
  with assms show ?thesis
    using race_wf_write [of m k os] by (auto simp: race_rel_def map_find_write)
qed

lemma recent_unregistered:
  assumes "race_rel a now m" and "map_find m t = None" and "dt_fini a t = None"
  shows "dt_recent a t = []"
proof -
  have "\<not> forgotten a t now" using assms(3) by (simp add: forgotten_def)
  with assms(1,2) show ?thesis unfolding race_rel_def by blast
qed

section \<open>The operations\<close>

lemma ot_get_or_reg_rel:
  assumes "race_rel a now m" and "t \<noteq> NO_TASK" and "dt_fini a t = None"
  shows "\<exists>m'. ot_get_or_reg m t = Inr m' \<and> race_rel a now m' \<and> map_find m' t \<noteq> None \<and>
    (\<forall>u. u \<noteq> t \<longrightarrow> map_find m' u = map_find m u)"
proof (cases "map_find m t")
  case None
  have inv: "map_inv m" using assms(1) by (simp add: race_rel_def race_wf_def)
  obtain m' where m': "map_register zero_ot_set m t = Inr m'" "map_inv m'" "map_find m' = (map_find m)(t \<mapsto> zero_ot_set)"
    using km.register_absent [OF inv None] by blast
  have "dt_recent a t = []" by (rule recent_unregistered [OF assms(1) None assms(3)])
  then have "ot_matches a t zero_ot_set" using assms(3) by (simp add: ot_matches_def zero_ot_set_def)
  then have "race_rel a now m'" using assms(1,2) m'(2,3) by (auto simp: race_rel_def race_wf_def)
  with m' None assms(2) show ?thesis by (auto simp: ot_get_or_reg_def tidmap_find_def tidmap_register_def)
qed (use assms in \<open>auto simp: ot_get_or_reg_def tidmap_find_def\<close>)

lemma ot_lazy_dereg_rel:
  assumes "race_rel a now m" and "t \<noteq> NO_TASK" and "dt_fini a t = None" and "now \<le> clk"
  shows "\<exists>m'. ot_lazy_dereg m t clk = Inr m' \<and> race_rel (a\<lparr>dt_fini := (dt_fini a)(t \<mapsto> clk)\<rparr>) now m'"
proof (cases "map_find m t")
  case None
  then have "dt_recent a t = []" using recent_unregistered assms(1,3) by blast
  with None assms show ?thesis
    by (auto simp: ot_lazy_dereg_def tidmap_find_def race_rel_def ot_matches_def forgotten_def)
next
  case (Some os)
  then have os: "ot_set_wf t os" "ot_matches a t os" using assms(1) by (auto simp: race_rel_def race_wf_def)
  then have "os_dereg_at os = 0" using assms(3) by (simp add: ot_matches_def)
  moreover have "race_rel (a\<lparr>dt_fini := (dt_fini a)(t \<mapsto> clk)\<rparr>) now (map_write m t (os\<lparr>os_dereg_at := clk + LAZY_DEREG_DELAY\<rparr>))"
    by (rule race_rel_write [OF assms(1)]) (use Some os in \<open>auto simp: ot_set_wf_def ot_matches_def\<close>)
  ultimately show ?thesis using Some assms(2) by (simp add: ot_lazy_dereg_def tidmap_find_def)
qed

lemma ot_clear_rel:
  assumes "race_rel a now m" and "map_find m t = Some os"
  shows "race_rel (a\<lparr>dt_recent := (dt_recent a)(t := [])\<rparr>) now (map_write m t (ot_clear os))"
  by (rule race_rel_write [OF assms(1)])
    (use assms in \<open>auto simp: race_rel_def race_wf_def ot_set_wf_def ot_matches_def ot_clear_def\<close>)

lemma ot_add_spec:
  assumes "ot_set_wf t os" and "take (os_size os) (os_entries os) = take MAX_CAPACITY r" and "oe_addr e \<noteq> 0" and "oe_id e = t"
  shows "\<exists>os'. ot_add os e = Inr os' \<and> ot_set_wf t os' \<and> take (os_size os') (os_entries os') = take MAX_CAPACITY (r @ [e]) \<and>
    os_dereg_at os' = os_dereg_at os"
proof -
  have len: "min MAX_CAPACITY (length r) = os_size os"
    using arg_cong [OF assms(2), of length] assms(1) by (simp add: ot_set_wf_def)
  show ?thesis
  proof (cases "os_size os \<ge> MAX_CAPACITY")
    case True
    with assms len show ?thesis by (auto simp: ot_add_def)
  next
    case False
    then have l: "length r = os_size os" "os_size os < length (os_entries os)" using assms(1) len by (auto simp: ot_set_wf_def)
    have t: "take (Suc (os_size os)) ((os_entries os)[os_size os := e]) = take (os_size os) (os_entries os) @ [e]"
      using l(2) by (simp add: take_Suc_conv_app_nth)
    also have "\<dots> = take MAX_CAPACITY (r @ [e])" using assms(2) False l by simp
    finally have "take (Suc (os_size os)) ((os_entries os)[os_size os := e]) = take MAX_CAPACITY (r @ [e])" .
    with False l t assms show ?thesis by (auto simp: ot_add_def ot_set_wf_def)
  qed
qed

lemma ot_add_rel:
  assumes "race_rel a now m" and "map_find m t = Some os" and "oe_addr e \<noteq> 0" and "oe_id e = t"
  shows "\<exists>m'. ot_update m t (\<lambda>os. ot_add os e) = Inr m' \<and> race_rel (a\<lparr>dt_recent := (dt_recent a)(t := dt_recent a t @ [e])\<rparr>) now m' \<and>
    (\<forall>u. u \<noteq> t \<longrightarrow> map_find m' u = map_find m u)"
proof -
  have os: "ot_set_wf t os" "ot_matches a t os" using assms(1,2) by (auto simp: race_rel_def race_wf_def)
  then obtain os' where os': "ot_add os e = Inr os'" "ot_set_wf t os'"
      "take (os_size os') (os_entries os') = take MAX_CAPACITY (dt_recent a t @ [e])" "os_dereg_at os' = os_dereg_at os"
    using ot_add_spec [OF os(1) _ assms(3,4), of "dt_recent a t"] by (auto simp: ot_matches_def)
  have "race_rel (a\<lparr>dt_recent := (dt_recent a)(t := dt_recent a t @ [e])\<rparr>) now (map_write m t os')"
    by (rule race_rel_write [OF assms(1)]) (use assms(2) os os' in \<open>auto simp: ot_matches_def\<close>)
  with os'(1) assms(2) show ?thesis by (simp add: ot_update_def map_find_write)
qed

lemma ot_scan_spec:
  assumes "j + n \<le> length (os_entries os)"
  shows "\<exists>r. ot_scan iww e os j n = Inr r \<and>
    (case r of None \<Rightarrow> \<forall>ee\<in>set (take n (drop j (os_entries os))). \<not> ot_races iww e ee
     | Some ee \<Rightarrow> ee \<in> set (take n (drop j (os_entries os))) \<and> ot_races iww e ee)"
  using assms
proof (induction n arbitrary: j)
  case (Suc n)
  have d: "drop j (os_entries os) = os_entries os ! j # drop (Suc j) (os_entries os)" using Suc.prems by (simp add: Cons_nth_drop_Suc)
  obtain r where "ot_scan iww e os (Suc j) n = Inr r"
    "case r of None \<Rightarrow> \<forall>ee\<in>set (take n (drop (Suc j) (os_entries os))). \<not> ot_races iww e ee
     | Some ee \<Rightarrow> ee \<in> set (take n (drop (Suc j) (os_entries os))) \<and> ot_races iww e ee"
    using Suc.IH [of "Suc j"] Suc.prems by auto
  with d Suc.prems show ?case by (auto split: option.splits)
qed simp

lemma ot_scan_wf:
  assumes "ot_set_wf k os"
  obtains "ot_scan iww e os 0 (os_size os) = Inr None" and "\<And>ee. ee \<in> set (take (os_size os) (os_entries os)) \<Longrightarrow> \<not> ot_races iww e ee"
  | ee where "ot_scan iww e os 0 (os_size os) = Inr (Some ee)" and "ee \<in> set (take (os_size os) (os_entries os))" and "ot_races iww e ee"
proof -
  obtain r where r: "ot_scan iww e os 0 (os_size os) = Inr r"
    "case r of None \<Rightarrow> \<forall>ee\<in>set (take (os_size os) (os_entries os)). \<not> ot_races iww e ee
     | Some ee \<Rightarrow> ee \<in> set (take (os_size os) (os_entries os)) \<and> ot_races iww e ee"
    using ot_scan_spec [of 0 "os_size os" os iww e] assms unfolding ot_set_wf_def add_0 drop_0 by auto
  then show thesis using that by (cases r) auto
qed

text \<open>
  The outer loop. It only removes expired sets of other tasks; it reports a race with an entry of a set that has not expired, or there is none
  and every other expired set it met has been removed.
\<close>

definition conflict_found :: "bool \<Rightarrow> task_id \<Rightarrow> ot_entry \<Rightarrow> clk \<Rightarrow> (64 word \<times> ot_set) list \<Rightarrow> race_t \<Rightarrow> bool" where
  "conflict_found iww t e clk its r \<longleftrightarrow> (\<exists>k os ee. (k, os) \<in> set its \<and> k \<noteq> t \<and> \<not> ot_expired os clk \<and>
     ee \<in> set (take (os_size os) (os_entries os)) \<and> ot_races iww e ee \<and> r = mk_race e ee)"

definition conflict_absent :: "bool \<Rightarrow> task_id \<Rightarrow> ot_entry \<Rightarrow> clk \<Rightarrow> (64 word \<times> ot_set) list \<Rightarrow> ot_set map_t \<Rightarrow> bool" where
  "conflict_absent iww t e clk its m' \<longleftrightarrow> (\<forall>k os. (k, os) \<in> set its \<longrightarrow> k \<noteq> t \<longrightarrow>
     (if ot_expired os clk then map_find m' k = None else \<forall>ee\<in>set (take (os_size os) (os_entries os)). \<not> ot_races iww e ee))"

definition only_expired_removed :: "task_id \<Rightarrow> clk \<Rightarrow> ot_set map_t \<Rightarrow> ot_set map_t \<Rightarrow> bool" where
  "only_expired_removed t clk m m' \<longleftrightarrow>
     (\<forall>k. map_find m' k = map_find m k \<or> map_find m' k = None \<and> k \<noteq> t \<and> (\<exists>os. map_find m k = Some os \<and> ot_expired os clk))"

lemma only_expired_removed_trans:
  "only_expired_removed t clk m1 m2 \<Longrightarrow> only_expired_removed t clk m2 m3 \<Longrightarrow> only_expired_removed t clk m1 m3"
  unfolding only_expired_removed_def by metis

lemma ot_conflict_loop_spec:
  assumes "map_inv m" and "distinct (map fst its)" and "\<forall>k os. (k, os) \<in> set its \<longrightarrow> map_find m k = Some os \<and> ot_set_wf k os"
  shows "\<exists>r m'. ot_conflict_loop iww t e clk its m = Inr (r, m') \<and> map_inv m' \<and> only_expired_removed t clk m m' \<and>
    (r = zero_race \<and> conflict_absent iww t e clk its m' \<or> conflict_found iww t e clk its r)"
  using assms
proof (induction its arbitrary: m)
  case (Cons it its)
  obtain k os where it: "it = (k, os)" by (cases it)
  have k: "map_find m k = Some os" "ot_set_wf k os" "k \<noteq> NO_TASK" using Cons.prems(3) it by (auto simp: ot_set_wf_def)
  consider (own) "t = k" | (expired) "t \<noteq> k" "ot_expired os clk" | (live) "t \<noteq> k" "\<not> ot_expired os clk" by blast
  then show ?case
  proof cases
    case own
    with Cons.IH [OF Cons.prems(1)] Cons.prems(2,3) it k(3) show ?thesis
      by (fastforce simp: conflict_found_def conflict_absent_def)
  next
    case expired
    let ?m = "map_deregister m k"
    have f: "map_find ?m = (map_find m)(k := None)" by (rule map_find_deregister [OF Cons.prems(1)])
    have "k \<notin> fst ` set its" using Cons.prems(2) it by simp
    then have "\<forall>j os. (j, os) \<in> set its \<longrightarrow> map_find ?m j = Some os \<and> ot_set_wf j os" using Cons.prems(3) f by force
    moreover have "distinct (map fst its)" using Cons.prems(2) by simp
    ultimately obtain r m' where
      m': "ot_conflict_loop iww t e clk its ?m = Inr (r, m')" "map_inv m'" "only_expired_removed t clk ?m m'"
      "r = zero_race \<and> conflict_absent iww t e clk its m' \<or> conflict_found iww t e clk its r"
      using Cons.IH [OF map_inv_deregister [OF Cons.prems(1), of k]] by blast
    have "only_expired_removed t clk m ?m" using f expired k(1) by (auto simp: only_expired_removed_def)
    then have "only_expired_removed t clk m m'" using only_expired_removed_trans m'(3) by blast
    moreover have "map_find m' k = None" using m'(3) f unfolding only_expired_removed_def by (metis fun_upd_same)
    ultimately show ?thesis using m' it k(3) expired
      by (fastforce simp: conflict_found_def conflict_absent_def tidmap_deregister_def)
  next
    case live
    from k(2) show ?thesis
    proof (cases rule: ot_scan_wf [where iww = iww and e = e])
      case 1
      with Cons.IH [OF Cons.prems(1)] Cons.prems(2,3) it k(3) live show ?thesis
        by (fastforce simp: conflict_found_def conflict_absent_def)
    next
      case (2 ee)
      with Cons.prems(1) it k(3) live show ?thesis
        by (fastforce simp: conflict_found_def only_expired_removed_def)
    qed
  qed
qed (simp add: conflict_absent_def only_expired_removed_def)

lemma ot_conflict_rel:
  assumes "race_rel a clk m" and "t \<noteq> NO_TASK" and "oe_addr e \<noteq> 0"
  obtains r m' where "ot_conflict iww t e clk m = Inr (r, m')" and "race_rel a clk m'" and "only_expired_removed t clk m m'"
    and "race_addr r = 0 \<Longrightarrow> \<forall>u. u \<noteq> t \<longrightarrow> \<not> forgotten a u clk \<longrightarrow> (\<forall>ee\<in>set (take MAX_CAPACITY (dt_recent a u)). \<not> ot_races iww e ee)"
    and "race_addr r = 0 \<Longrightarrow> \<forall>u os. u \<noteq> t \<longrightarrow> map_find m' u = Some os \<longrightarrow> \<not> ot_expired os clk"
    and "race_addr r \<noteq> 0 \<Longrightarrow> \<exists>u ee. u \<noteq> t \<and> \<not> forgotten a u clk \<and> ee \<in> set (take MAX_CAPACITY (dt_recent a u)) \<and> ot_races iww e ee \<and> r = mk_race e ee"
proof -
  have inv: "map_inv m" and wf: "map_find m k = Some os \<Longrightarrow> ot_set_wf k os" and mt: "map_find m k = Some os \<Longrightarrow> ot_matches a k os" for k os
    using assms(1) by (auto simp: race_rel_def race_wf_def)
  have its: "(k, os) \<in> set (map_iterate m) \<longleftrightarrow> map_find m k = Some os" for k os by (rule map_iterate_find [OF inv])
  obtain r m' where c: "ot_conflict_loop iww t e clk (map_iterate m) m = Inr (r, m')" "map_inv m'" "only_expired_removed t clk m m'"
      "r = zero_race \<and> conflict_absent iww t e clk (map_iterate m) m' \<or> conflict_found iww t e clk (map_iterate m) r"
    using ot_conflict_loop_spec [OF inv, of "map_iterate m" iww t e clk] inv wf its by (auto simp: map_inv_def map_iterate_def)
  have entries: "take (os_size os) (os_entries os) = take MAX_CAPACITY (dt_recent a k)" "ot_expired os clk \<longleftrightarrow> forgotten a k clk"
    if "map_find m k = Some os" for k os
    using mt [OF that] matches_expired [OF mt [OF that]] by (auto simp: ot_matches_def)
  have sub: "map_find m' k = Some os \<Longrightarrow> map_find m k = Some os" for k os
    using c(3) unfolding only_expired_removed_def by (metis option.distinct(1))
  have gone: "map_find m' k = None \<Longrightarrow> map_find m k = None \<or> forgotten a k clk" for k
    using c(3) entries(2) unfolding only_expired_removed_def by metis
  show thesis
  proof
    show "ot_conflict iww t e clk m = Inr (r, m')" using assms(2) c(1) by (simp add: ot_conflict_def)
    show "only_expired_removed t clk m m'" by (rule c(3))
    show "race_rel a clk m'"
      using c(2) sub wf mt gone assms(1) unfolding race_rel_def race_wf_def by blast
    show "\<exists>u ee. u \<noteq> t \<and> \<not> forgotten a u clk \<and> ee \<in> set (take MAX_CAPACITY (dt_recent a u)) \<and> ot_races iww e ee \<and> r = mk_race e ee"
      if "race_addr r \<noteq> 0"
    proof -
      have "conflict_found iww t e clk (map_iterate m) r" using c(4) that by (auto simp: zero_race_def)
      then obtain k os ee where k: "map_find m k = Some os" "k \<noteq> t" "\<not> ot_expired os clk"
          "ee \<in> set (take (os_size os) (os_entries os))" "ot_races iww e ee" "r = mk_race e ee"
        unfolding conflict_found_def its by blast
      with entries [OF k(1)] have "\<not> forgotten a k clk" "ee \<in> set (take MAX_CAPACITY (dt_recent a k))" by simp_all
      with k(2,5,6) show ?thesis by blast
    qed
    assume "race_addr r = 0"
    then have ab: "conflict_absent iww t e clk (map_iterate m) m'"
      using c(4) assms(3) by (auto simp: conflict_found_def mk_race_def)
    show "\<forall>u os. u \<noteq> t \<longrightarrow> map_find m' u = Some os \<longrightarrow> \<not> ot_expired os clk"
    proof (intro allI impI notI)
      fix u os assume u: "u \<noteq> t" "map_find m' u = Some os" "ot_expired os clk"
      from sub [OF u(2)] u(1,3) ab its have "map_find m' u = None" by (simp add: conflict_absent_def)
      with u(2) show False by simp
    qed
    show "\<forall>u. u \<noteq> t \<longrightarrow> \<not> forgotten a u clk \<longrightarrow> (\<forall>ee\<in>set (take MAX_CAPACITY (dt_recent a u)). \<not> ot_races iww e ee)"
    proof (intro allI impI)
      fix u assume u: "u \<noteq> t" "\<not> forgotten a u clk"
      show "\<forall>ee\<in>set (take MAX_CAPACITY (dt_recent a u)). \<not> ot_races iww e ee"
      proof (cases "map_find m u")
        case None
        then have "dt_recent a u = []" using assms(1) u(2) unfolding race_rel_def by blast
        then show ?thesis by simp
      next
        case (Some os)
        with ab u its entries [OF Some] show ?thesis by (auto simp: conflict_absent_def)
      qed
    qed
  qed
qed

text \<open>The check by the kind of the event: a synchronisation, an access that is compared, or neither.\<close>

lemma race_check_cases:
  "race_check ma iww cp clk m =
     bindr (ot_get_or_reg m (race_id cp)) (\<lambda>m.
       if synchronises ma cp then bindr (ot_update m (race_id cp) (\<lambda>os. Inr (ot_clear os))) (\<lambda>m. Inr (zero_race, m))
       else case access_of ma cp of
         None \<Rightarrow> Inr (zero_race, m)
       | Some e \<Rightarrow> bindr (if remembered ma cp then ot_update m (race_id cp) (\<lambda>os. ot_add os e) else Inr m)
           (ot_conflict iww (race_id cp) e clk))"
proof (cases "ma (cp_type_id cp)")
  case None
  then show ?thesis by (auto simp: race_check_def synchronises_def access_of_def)
next
  case (Some k)
  then show ?thesis
    by (cases "cp_chain_id cp = CHAIN_INGRESS_AFTER"; cases "cp_addr cp = 0"; cases k)
      (simp_all add: race_check_def synchronises_def access_of_def remembered_def memaccess_addr_def Let_def)
qed

lemma access_of_entry: "access_of ma cp = Some e \<Longrightarrow> oe_addr e \<noteq> 0 \<and> oe_id e = race_id cp \<and> oe_pc e = cp_pc cp"
  by (auto simp: access_of_def race_entry_def split: if_splits option.splits ma_kind.splits)

lemma access_not_sync: "access_of ma cp = Some e \<Longrightarrow> \<not> synchronises ma cp"
  by (auto simp: access_of_def synchronises_def)

lemma detector_check_frame:
  "dt_fini (detector_check ma cp a) = dt_fini a" "u \<noteq> race_id cp \<Longrightarrow> dt_recent (detector_check ma cp a) u = dt_recent a u"
  by (simp_all add: detector_check_def Let_def split: option.split)

lemma conflicting_check: "conflicting ma iww (detector_check ma cp a) cp clk e ee \<longleftrightarrow> conflicting ma iww a cp clk e ee"
  unfolding conflicting_iff forgotten_def detector_check_frame(1) by (metis detector_check_frame(2))

lemma race_check_access:
  assumes "race_rel a clk m" and "race_id cp \<noteq> NO_TASK" and "dt_fini a (race_id cp) = None" and "access_of ma cp = Some e"
  obtains r m' where "race_check ma iww cp clk m = Inr (r, m')" and "race_rel (detector_check ma cp a) clk m'"
    and "race_addr r \<noteq> 0 \<longleftrightarrow> (\<exists>e ee. conflicting ma iww a cp clk e ee)"
    and "race_addr r \<noteq> 0 \<Longrightarrow> \<exists>e ee. conflicting ma iww a cp clk e ee \<and> r = mk_race e ee"
    and "race_addr r = 0 \<Longrightarrow> \<forall>u os. map_find m' u = Some os \<longrightarrow> \<not> ot_expired os clk"
proof -
  let ?t = "race_id cp" and ?a = "detector_check ma cp a"
  note e = access_of_entry [OF assms(4)]
  obtain m1 where m1: "ot_get_or_reg m ?t = Inr m1" "race_rel a clk m1" "map_find m1 ?t \<noteq> None"
    using ot_get_or_reg_rel [OF assms(1-3)] by blast
  have "\<exists>m2. (if remembered ma cp then ot_update m1 ?t (\<lambda>os. ot_add os e) else Inr m1) = Inr m2 \<and> race_rel ?a clk m2"
  proof (cases "remembered ma cp")
    case True
    obtain os where "map_find m1 ?t = Some os" using m1(3) by blast
    from ot_add_rel [OF m1(2) this] True e assms(4) show ?thesis
      by (auto simp: detector_check_def access_not_sync [OF assms(4)] Let_def)
  next
    case False
    with m1(2) assms(4) show ?thesis by (simp add: detector_check_def access_not_sync [OF assms(4)] Let_def)
  qed
  then obtain m2 where m2: "(if remembered ma cp then ot_update m1 ?t (\<lambda>os. ot_add os e) else Inr m1) = Inr m2" "race_rel ?a clk m2" by blast
  obtain r m' where r: "ot_conflict iww ?t e clk m2 = Inr (r, m')" "race_rel ?a clk m'"
    "race_addr r = 0 \<Longrightarrow> \<forall>u. u \<noteq> ?t \<longrightarrow> \<not> forgotten ?a u clk \<longrightarrow> (\<forall>ee\<in>set (take MAX_CAPACITY (dt_recent ?a u)). \<not> ot_races iww e ee)"
    "race_addr r = 0 \<Longrightarrow> \<forall>u os. u \<noteq> ?t \<longrightarrow> map_find m' u = Some os \<longrightarrow> \<not> ot_expired os clk"
    "race_addr r \<noteq> 0 \<Longrightarrow> \<exists>u ee. u \<noteq> ?t \<and> \<not> forgotten ?a u clk \<and> ee \<in> set (take MAX_CAPACITY (dt_recent ?a u)) \<and> ot_races iww e ee \<and> r = mk_race e ee"
    by (rule ot_conflict_rel [OF m2(2) assms(2), of e iww]) (use e in auto)
  have run: "race_check ma iww cp clk m = Inr (r, m')"
    using m1(1) m2(1) r(1) assms(4) by (simp add: race_check_cases access_not_sync [OF assms(4)])
  have found: "\<exists>e ee. conflicting ma iww a cp clk e ee \<and> r = mk_race e ee" if nz: "race_addr r \<noteq> 0"
  proof -
    obtain ee where "conflicting ma iww ?a cp clk e ee" "r = mk_race e ee"
      using r(5) [OF nz] assms(4) unfolding conflicting_iff by blast
    then show ?thesis by (auto simp: conflicting_check)
  qed
  have absent: "\<not> (\<exists>e ee. conflicting ma iww a cp clk e ee)" if "race_addr r = 0"
  proof -
    have "\<not> conflicting ma iww ?a cp clk e' ee" for e' ee
      using r(3) [OF that] assms(4) unfolding conflicting_iff by auto
    then show ?thesis by (simp add: conflicting_check)
  qed
  have own: "\<not> ot_expired os clk" if "map_find m' ?t = Some os" for os
  proof -
    have "ot_matches ?a ?t os" using r(2) that by (auto simp: race_rel_def)
    moreover have "\<not> forgotten ?a ?t clk" using assms(3) by (simp add: forgotten_def detector_check_frame)
    ultimately show ?thesis by (simp add: matches_expired)
  qed
  show thesis
  proof
    show "race_check ma iww cp clk m = Inr (r, m')" by (rule run)
    show "race_rel ?a clk m'" by (rule r(2))
    show "race_addr r \<noteq> 0 \<longleftrightarrow> (\<exists>e ee. conflicting ma iww a cp clk e ee)" using found absent by blast
    show "race_addr r \<noteq> 0 \<Longrightarrow> \<exists>e ee. conflicting ma iww a cp clk e ee \<and> r = mk_race e ee" by (rule found)
    show "race_addr r = 0 \<Longrightarrow> \<forall>u os. map_find m' u = Some os \<longrightarrow> \<not> ot_expired os clk" using r(4) own by metis
  qed
qed

lemma race_check_other:
  assumes "race_rel a clk m" and "race_id cp \<noteq> NO_TASK" and "dt_fini a (race_id cp) = None" and "access_of ma cp = None"
  obtains m' where "race_check ma iww cp clk m = Inr (zero_race, m')" and "race_rel (detector_check ma cp a) clk m'"
    and "\<forall>u. u \<noteq> race_id cp \<longrightarrow> map_find m' u = map_find m u"
proof -
  let ?t = "race_id cp"
  obtain m1 where m1: "ot_get_or_reg m ?t = Inr m1" "race_rel a clk m1" "map_find m1 ?t \<noteq> None" "\<forall>u. u \<noteq> ?t \<longrightarrow> map_find m1 u = map_find m u"
    using ot_get_or_reg_rel [OF assms(1-3)] by blast
  then obtain os where os: "map_find m1 ?t = Some os" by blast
  show thesis
  proof (cases "synchronises ma cp")
    case True
    with that [of "map_write m1 ?t (ot_clear os)"] m1 os ot_clear_rel [OF m1(2) os] show thesis
      by (simp add: race_check_cases ot_update_def detector_check_def Let_def map_find_write)
  next
    case False
    with that [of m1] m1 assms(4) show thesis by (simp add: race_check_cases detector_check_def Let_def)
  qed
qed

section \<open>Runs\<close>

definition detector_capture :: "(type_id \<Rightarrow> ma_kind option) \<Rightarrow> capture_point \<Rightarrow> clk \<Rightarrow> detector \<Rightarrow> detector" where
  "detector_capture ma cp clk a =
     (if cp_type_id cp = EVENT_TASK_FINI then a\<lparr>dt_fini := (dt_fini a)(race_id cp \<mapsto> clk)\<rparr>
      else if cp_type_id cp = EVENT_TASK_INIT then a else detector_check ma cp a)"

definition detector_resume :: "capture_point \<Rightarrow> detector \<Rightarrow> detector" where
  "detector_resume cp a =
     (if cp_type_id cp = EVENT_TASK_CREATE \<or> cp_type_id cp = EVENT_MUTEX_RELEASE
      then a\<lparr>dt_recent := (dt_recent a)(race_id cp := [])\<rparr> else a)"

text \<open>
  The enabled detector beside the abstract one. Time does not run backwards and a task that has ended makes no further step.
\<close>

inductive race_run :: "memory_map_entry list \<Rightarrow> stable_address_method \<Rightarrow> (type_id \<Rightarrow> ma_kind option) \<Rightarrow> race_config \<Rightarrow>
    detector \<Rightarrow> clk \<Rightarrow> race_state \<Rightarrow> bool" for maps sam ma cfg where
  init: "ichpt_inv sam ic \<Longrightarrow> race_run maps sam ma cfg detector_init 0 \<lparr>rc_sets = map_init, rc_ichpt = ic\<rparr>"
| capture: "race_run maps sam ma cfg a now s \<Longrightarrow> now \<le> e_clk e \<Longrightarrow> cp_id cp \<noteq> NO_TASK \<Longrightarrow> dt_fini a (race_id cp) = None \<Longrightarrow>
    race_handle maps sam ma cfg cp e s = Inr (e', s') \<Longrightarrow>
    race_run maps sam ma cfg (detector_capture ma cp (e_clk e) a) (e_clk e) s'"
| resume: "race_run maps sam ma cfg a now s \<Longrightarrow> cp_id cp \<noteq> NO_TASK \<Longrightarrow> dt_fini a (race_id cp) = None \<Longrightarrow>
    race_resume_handle cfg cp (rc_sets s) = Inr m \<Longrightarrow>
    race_run maps sam ma cfg (detector_resume cp a) now (s\<lparr>rc_sets := m\<rparr>)"

lemma race_id_not_none: "cp_id cp \<noteq> NO_TASK \<Longrightarrow> race_id cp \<noteq> NO_TASK"
  by (simp add: race_id_def)

lemma race_check_rel:
  assumes "race_rel a clk m" and "race_id cp \<noteq> NO_TASK" and "dt_fini a (race_id cp) = None"
  obtains r m' where "race_check ma iww cp clk m = Inr (r, m')" and "race_rel (detector_check ma cp a) clk m'"
    and "race_addr r \<noteq> 0 \<longleftrightarrow> (\<exists>e ee. conflicting ma iww a cp clk e ee)"
    and "race_addr r \<noteq> 0 \<Longrightarrow> \<exists>e ee. conflicting ma iww a cp clk e ee \<and> r = mk_race e ee"
proof (cases "access_of ma cp")
  case None
  then have "\<not> conflicting ma iww a cp clk e ee" for e ee by (simp add: conflicting_iff)
  with race_check_other [OF assms None, of iww] that [of zero_race] show thesis by (auto simp: zero_race_def)
next
  case (Some e)
  show thesis by (rule race_check_access [OF assms Some, of iww]) (rule that)
qed

lemma ot_cleanup_loop_same: "ot_cleanup_loop its clk m = Inr m' \<Longrightarrow> m' = m"
  by (induction its clk m rule: ot_cleanup_loop.induct) (auto simp: assertr_eq_Inr bindr_eq_Inr split: if_splits)

lemma race_handle_sets:
  assumes "race_handle maps sam ma cfg cp e s = Inr (e', s')" and "rcc_enabled cfg"
  shows "cp_type_id cp = EVENT_TASK_FINI \<and> ot_lazy_dereg (rc_sets s) (race_id cp) (e_clk e) = Inr (rc_sets s') \<and> rc_ichpt s' = rc_ichpt s \<or>
    cp_type_id cp = EVENT_TASK_INIT \<and> s' = s \<or>
    cp_type_id cp \<noteq> EVENT_TASK_FINI \<and> cp_type_id cp \<noteq> EVENT_TASK_INIT \<and>
      (\<exists>r ic. race_check ma (rcc_ignore_write_write cfg) cp (e_clk e) (rc_sets s) = Inr (r, rc_sets s') \<and>
         rc_ichpt s' = ic \<and> (ic = rc_ichpt s \<or> add_ichpts maps sam (rc_ichpt s) (race_ichpts cfg r) = Inr ic))"
  using assms
  by (auto simp: race_handle_def assertr_eq_Inr bindr_eq_Inr Let_def ot_cleanup_def event_defs dest!: ot_cleanup_loop_same split: if_splits)

lemma add_ichpts_keeps:
  "add_ichpts maps sam s as = Inr s' \<Longrightarrow> stable_ok maps sam \<Longrightarrow> ichpt_inv sam s \<Longrightarrow> ichpt_inv sam s'"
  using add_ichpts_inv [of maps sam s as] by auto

lemma race_run_rel:
  assumes "race_run maps sam ma cfg a now s" and "rcc_enabled cfg" and "stable_ok maps sam"
  shows "race_rel a now (rc_sets s) \<and> ichpt_inv sam (rc_ichpt s)"
  using assms(1)
proof induction
  case (init ic)
  then show ?case by (simp add: race_rel_init)
next
  case (capture a now s e cp e' s')
  have rel: "race_rel a (e_clk e) (rc_sets s)" using capture race_rel_time by blast
  note t = race_id_not_none [OF capture.hyps(3)]
  from race_handle_sets [OF capture.hyps(5) assms(2)] consider
      (fini) "cp_type_id cp = EVENT_TASK_FINI" "ot_lazy_dereg (rc_sets s) (race_id cp) (e_clk e) = Inr (rc_sets s')" "rc_ichpt s' = rc_ichpt s"
    | (start) "cp_type_id cp = EVENT_TASK_INIT" "s' = s"
    | (check) r where "cp_type_id cp \<noteq> EVENT_TASK_FINI" "cp_type_id cp \<noteq> EVENT_TASK_INIT"
        "race_check ma (rcc_ignore_write_write cfg) cp (e_clk e) (rc_sets s) = Inr (r, rc_sets s')"
        "rc_ichpt s' = rc_ichpt s \<or> add_ichpts maps sam (rc_ichpt s) (race_ichpts cfg r) = Inr (rc_ichpt s')"
    by blast
  then show ?case
  proof cases
    case fini
    with ot_lazy_dereg_rel [OF rel t capture.hyps(4) order_refl] capture.IH show ?thesis by (auto simp: detector_capture_def)
  next
    case start
    with rel capture.IH show ?thesis by (simp add: detector_capture_def event_defs)
  next
    case (check r)
    obtain r' m' where "race_check ma (rcc_ignore_write_write cfg) cp (e_clk e) (rc_sets s) = Inr (r', m')"
        "race_rel (detector_check ma cp a) (e_clk e) m'"
      by (rule race_check_rel [OF rel t capture.hyps(4)])
    with check(1-3) have "race_rel (detector_capture ma cp (e_clk e) a) (e_clk e) (rc_sets s')" by (simp add: detector_capture_def)
    moreover have "ichpt_inv sam (rc_ichpt s')" using check(4) capture.IH add_ichpts_keeps assms(3) by metis
    ultimately show ?thesis by simp
  qed
next
  case (resume a now s cp m)
  note t = race_id_not_none [OF resume.hyps(2)]
  show ?case
  proof (cases "cp_type_id cp = EVENT_TASK_CREATE \<or> cp_type_id cp = EVENT_MUTEX_RELEASE")
    case False
    with resume assms(2) show ?thesis by (auto simp: race_resume_handle_def detector_resume_def assertr_eq_Inr)
  next
    case True
    show ?thesis
    proof (cases "map_find (rc_sets s) (race_id cp)")
      case None
      with resume recent_unregistered have "dt_recent a (race_id cp) = []" by blast
      then have "a\<lparr>dt_recent := (dt_recent a)(race_id cp := [])\<rparr> = a" by (simp add: fun_upd_idem)
      with None True resume assms(2) t show ?thesis by (auto simp: race_resume_handle_def detector_resume_def tidmap_find_def assertr_eq_Inr)
    next
      case (Some os)
      with ot_clear_rel [of a now "rc_sets s" "race_id cp" os] True resume assms(2) t show ?thesis
        by (auto simp: race_resume_handle_def detector_resume_def tidmap_find_def assertr_eq_Inr)
    qed
  qed
qed

section \<open>Well-formed sets\<close>

lemma race_wf_register:
  assumes "race_wf m" and "t \<noteq> NO_TASK"
  shows "\<exists>m'. ot_get_or_reg m t = Inr m' \<and> race_wf m' \<and> map_find m' t \<noteq> None"
proof (cases "map_find m t")
  case None
  obtain m' where "map_register zero_ot_set m t = Inr m'" "map_inv m'" "map_find m' = (map_find m)(t \<mapsto> zero_ot_set)"
    using km.register_absent [OF _ None] assms(1) unfolding race_wf_def by blast
  with None assms show ?thesis by (auto simp: ot_get_or_reg_def tidmap_find_def tidmap_register_def race_wf_def)
qed (use assms in \<open>auto simp: ot_get_or_reg_def tidmap_find_def\<close>)

lemma race_wf_conflict:
  assumes "race_wf m" and "t \<noteq> NO_TASK"
  shows "\<exists>r m'. ot_conflict iww t e clk m = Inr (r, m') \<and> race_wf m'"
proof -
  have inv: "map_inv m" using assms(1) by (simp add: race_wf_def)
  have "\<forall>k os. (k, os) \<in> set (map_iterate m) \<longrightarrow> map_find m k = Some os \<and> ot_set_wf k os"
    using assms(1) map_iterate_find [OF inv] by (auto simp: race_wf_def)
  then obtain r m' where c: "ot_conflict_loop iww t e clk (map_iterate m) m = Inr (r, m')" "map_inv m'" "only_expired_removed t clk m m'"
    using ot_conflict_loop_spec [OF inv, of "map_iterate m" iww t e clk] inv by (auto simp: map_inv_def map_iterate_def)
  have "map_find m' k = Some os \<Longrightarrow> map_find m k = Some os" for k os
    using c(3) unfolding only_expired_removed_def by (metis option.distinct(1))
  with assms c show ?thesis by (auto simp: ot_conflict_def race_wf_def)
qed

lemma race_wf_add:
  assumes "race_wf m" and "map_find m t \<noteq> None" and "oe_addr e \<noteq> 0" and "oe_id e = t"
  shows "\<exists>m'. ot_update m t (\<lambda>os. ot_add os e) = Inr m' \<and> race_wf m'"
proof -
  obtain os where os: "map_find m t = Some os" using assms(2) by blast
  with assms(1) have wf: "ot_set_wf t os" by (auto simp: race_wf_def)
  have "take (os_size os) (os_entries os) = take MAX_CAPACITY (take (os_size os) (os_entries os))"
    using wf by (auto simp: ot_set_wf_def)
  from ot_add_spec [OF wf this assms(3,4)] os race_wf_write [OF assms(1,2)] show ?thesis by (auto simp: ot_update_def)
qed

lemma race_wf_clear:
  assumes "race_wf m" and "map_find m t = Some os"
  shows "race_wf (map_write m t (ot_clear os))"
  by (rule race_wf_write) (use assms in \<open>auto simp: race_wf_def ot_set_wf_def ot_clear_def\<close>)

lemma race_wf_check:
  assumes "race_wf m" and "race_id cp \<noteq> NO_TASK"
  shows "\<exists>r m'. race_check ma iww cp clk m = Inr (r, m') \<and> race_wf m'"
proof -
  obtain m1 where m1: "ot_get_or_reg m (race_id cp) = Inr m1" "race_wf m1" "map_find m1 (race_id cp) \<noteq> None"
    using race_wf_register [OF assms] by blast
  then obtain os where os: "map_find m1 (race_id cp) = Some os" by blast
  show ?thesis
  proof (cases "access_of ma cp")
    case None
    with m1 os race_wf_clear [OF m1(2) os] show ?thesis by (simp add: race_check_cases ot_update_def)
  next
    case (Some e)
    note e = access_of_entry [OF Some]
    have "\<exists>m2. (if remembered ma cp then ot_update m1 (race_id cp) (\<lambda>os. ot_add os e) else Inr m1) = Inr m2 \<and> race_wf m2"
      using race_wf_add [OF m1(2,3)] e m1(2) by auto
    with m1(1) race_wf_conflict [OF _ assms(2)] Some access_not_sync [OF Some] show ?thesis
      by (fastforce simp: race_check_cases)
  qed
qed

lemma race_wf_lazy_dereg:
  assumes "race_wf m" and "t \<noteq> NO_TASK"
  shows "\<exists>m'. ot_lazy_dereg m t clk = Inr m' \<and> race_wf m'"
proof (cases "map_find m t")
  case (Some os)
  have "race_wf (map_write m t (os\<lparr>os_dereg_at := clk + LAZY_DEREG_DELAY\<rparr>))"
    by (rule race_wf_write) (use assms Some in \<open>auto simp: race_wf_def ot_set_wf_def\<close>)
  with Some assms show ?thesis by (simp add: ot_lazy_dereg_def tidmap_find_def)
qed (use assms in \<open>simp add: ot_lazy_dereg_def tidmap_find_def\<close>)

lemma race_reset_wf: "race_wf m \<Longrightarrow> race_reset_loop m = Inr map_init"
proof (induction m rule: race_reset_loop.induct)
  case (1 m)
  show ?case
  proof (cases "map_iterate m")
    case Nil
    then show ?thesis by (simp add: race_reset_loop.simps)
  next
    case (Cons i js)
    obtain k os where i: "i = (k, os)" by (cases i)
    have inv: "map_inv m" using 1(2) by (simp add: race_wf_def)
    have "map_find m k = Some os" using map_iterate_find [OF inv, of k os] Cons i by simp
    then have k: "k \<noteq> NO_TASK" using 1(2) by (auto simp: race_wf_def ot_set_wf_def)
    have "race_wf (map_deregister m k)"
      using 1(2) inv by (auto simp: race_wf_def map_inv_deregister map_find_deregister split: if_splits)
    moreover have "tidmap_deregister m (fst i) = Inr (map_deregister m k)" using i k by (simp add: tidmap_deregister_def)
    ultimately show ?thesis using 1(1) [OF Cons] Cons by (simp add: race_reset_loop.simps [of m])
  qed
qed

lemma ot_cleanup_loop_spec:
  assumes "\<forall>k os. (k, os) \<in> set its \<longrightarrow> k \<noteq> NO_TASK"
  shows "ot_cleanup_loop its clk m = (if \<exists>k os. (k, os) \<in> set its \<and> ot_expired os clk then Inl Fault else Inr m)"
  using assms
proof (induction its)
  case (Cons it its)
  obtain k os where "it = (k, os)" by (cases it)
  with Cons show ?case by (fastforce simp: tidmap_deregister_def)
qed simp

lemma ot_cleanup_spec:
  assumes "race_wf m"
  shows "ot_cleanup m clk = (if \<exists>k os. map_find m k = Some os \<and> ot_expired os clk then Inl Fault else Inr m)"
proof -
  have inv: "map_inv m" using assms by (simp add: race_wf_def)
  have "\<forall>k os. (k, os) \<in> set (map_iterate m) \<longrightarrow> k \<noteq> NO_TASK"
    using assms map_iterate_find [OF inv] by (auto simp: race_wf_def ot_set_wf_def)
  from ot_cleanup_loop_spec [OF this, of clk m] show ?thesis by (simp add: ot_cleanup_def map_iterate_find [OF inv])
qed

lemma race_check_expired:
  assumes "race_rel a clk m" and "race_id cp \<noteq> NO_TASK" and "dt_fini a (race_id cp) = None" and "access_of ma cp = None"
  obtains m' where "race_check ma iww cp clk m = Inr (zero_race, m')" and "race_wf m'"
    and "(\<exists>u os. map_find m' u = Some os \<and> ot_expired os clk) \<longleftrightarrow> (\<exists>u os. map_find m u = Some os \<and> ot_expired os clk)"
proof -
  obtain m' where m': "race_check ma iww cp clk m = Inr (zero_race, m')" "race_rel (detector_check ma cp a) clk m'"
      "\<forall>u. u \<noteq> race_id cp \<longrightarrow> map_find m' u = map_find m u"
    by (rule race_check_other [OF assms, of iww])
  have "\<not> ot_expired os clk" if "map_find m (race_id cp) = Some os \<or> map_find m' (race_id cp) = Some os" for os
  proof -
    have "ot_matches a (race_id cp) os \<or> ot_matches (detector_check ma cp a) (race_id cp) os"
      using assms(1) m'(2) that by (auto simp: race_rel_def)
    then show ?thesis using assms(3) by (auto simp: matches_expired forgotten_def detector_check_frame)
  qed
  then have "(\<exists>u os. map_find m' u = Some os \<and> ot_expired os clk) \<longleftrightarrow> (\<exists>u os. map_find m u = Some os \<and> ot_expired os clk)"
    using m'(3) by metis
  with m' that show thesis by (simp add: race_rel_def)
qed

lemma race_handle_checked:
  assumes "race_check ma (rcc_ignore_write_write cfg) cp (e_clk e) (rc_sets s) = Inr (race, m)" and "rcc_enabled cfg" and "cp_id cp \<noteq> NO_TASK"
    and "cp_type_id cp \<notin> {EVENT_TASK_INIT, EVENT_TASK_FINI}"
  shows "race_handle maps sam ma cfg cp e s =
    (if race_addr race = 0 then
       if e_clk e mod LAZY_DEREG_DELAY = 0 then bindr (ot_cleanup m (e_clk e)) (\<lambda>m. Inr (e, s\<lparr>rc_sets := m\<rparr>)) else Inr (e, s\<lparr>rc_sets := m\<rparr>)
     else if rcc_abort_on_race cfg then Inl Fatal
     else bindr (add_ichpts maps sam (rc_ichpt s) (race_ichpts cfg race)) (\<lambda>ic. Inr (e, s\<lparr>rc_sets := m, rc_ichpt := ic\<rparr>)))"
  using assms by (cases s) (simp add: race_handle_def Let_def)

section \<open>A sample run\<close>

text \<open>Task 5 writes address 64 at time 1 and ends at time 2.\<close>

definition race_ma :: "type_id \<Rightarrow> ma_kind option" where
  "race_ma ty = (if ty = 30 then Some MA_READ else if ty = 31 then Some MA_WRITE else None)"

definition race_cfg :: race_config where
  "race_cfg = \<lparr>rcc_enabled = True, rcc_ignore_write_write = False, rcc_only_write_ichpt = False, rcc_abort_on_race = False\<rparr>"

definition race_a1 :: detector where
  "race_a1 = detector_capture race_ma (event_cp 31 5 64) 1 detector_init"

definition race_a2 :: detector where
  "race_a2 = detector_capture race_ma (event_cp EVENT_TASK_FINI 5 0) 2 race_a1"

lemma race_samples:
  "rcc_enabled race_cfg" "\<not> rcc_abort_on_race race_cfg" "\<not> rcc_ignore_write_write race_cfg" "stable_ok [] STABLE_ADDRESS_METHOD_NONE"
  "race_id (event_cp ty t a) = t" "cp_chain_id (event_cp ty t a) \<noteq> CHAIN_INGRESS_AFTER"
  "cp_vid (event_cp ty t a) = NO_TASK" "cp_pc (event_cp ty t a) = 0"
  by (simp_all add: race_cfg_def stable_ok_def event_cp_def race_id_def CHAIN_INGRESS_EVENT_def CHAIN_INGRESS_AFTER_def)

lemma race_a1_simps: "dt_recent race_a1 = (\<lambda>u. if u = 5 then [race_entry (event_cp 31 5 64) 64 False False] else [])" "dt_fini race_a1 = (\<lambda>_. None)"
  by (auto simp: race_a1_def detector_capture_def detector_init_def event_defs detector_check_def Let_def race_samples
      synchronises_def access_of_def remembered_def race_ma_def fun_eq_iff)

lemma race_a2_simps: "dt_recent race_a2 = dt_recent race_a1" "dt_fini race_a2 = (\<lambda>u. if u = 5 then Some 2 else None)"
  by (auto simp: race_a2_def detector_capture_def race_a1_simps race_samples fun_eq_iff)

definition race_s0 :: race_state where
  "race_s0 = \<lparr>rc_sets = map_init, rc_ichpt = \<lparr>ic_enabled = True, ic_initial = vec_init, ic_final = vec_init\<rparr>\<rparr>"

text \<open>The first event: task 5 accesses address 64.\<close>

lemma race_sample_step:
  "\<exists>m. race_handle [] STABLE_ADDRESS_METHOD_NONE race_ma race_cfg (event_cp 31 5 64) (zero_decision\<lparr>e_clk := 1\<rparr>) race_s0 =
      Inr (zero_decision\<lparr>e_clk := 1\<rparr>, race_s0\<lparr>rc_sets := m\<rparr>) \<and>
    race_run [] STABLE_ADDRESS_METHOD_NONE race_ma race_cfg race_a1 1 (race_s0\<lparr>rc_sets := m\<rparr>)"
proof -
  let ?e = "zero_decision\<lparr>e_clk := 1\<rparr>" and ?cp = "event_cp 31 5 64"
  have run: "race_run [] STABLE_ADDRESS_METHOD_NONE race_ma race_cfg detector_init 0 race_s0"
    unfolding race_s0_def by (rule race_run.init) (simp add: ichpt_inv_def)
  have t: "race_id ?cp \<noteq> NO_TASK" "dt_fini detector_init (race_id ?cp) = None" by (simp_all add: race_samples NO_TASK_def detector_init_def)
  have "\<not> conflicting race_ma False detector_init ?cp 1 e ee" for e ee by (simp add: conflicting_iff detector_init_def)
  with race_check_rel [OF race_rel_time [OF race_rel_init, of 1] t, of race_ma False] obtain r m' where
    r: "race_check race_ma False ?cp 1 map_init = Inr (r, m')" "race_addr r = 0" by (metis le0)
  have h: "race_handle [] STABLE_ADDRESS_METHOD_NONE race_ma race_cfg ?cp ?e race_s0 = Inr (?e, race_s0\<lparr>rc_sets := m'\<rparr>)"
    using race_handle_checked [of race_ma race_cfg ?cp ?e race_s0 r m'] r
    by (simp add: race_samples event_defs NO_TASK_def LAZY_DEREG_DELAY_def race_s0_def)
  with race_run.capture [OF run _ _ t(2) h] show ?thesis by (auto simp: race_a1_def NO_TASK_def)
qed

lemma race_sample_run1: "\<exists>s. race_run [] STABLE_ADDRESS_METHOD_NONE race_ma race_cfg race_a1 1 s"
  using race_sample_step by blast

lemma race_sample_run2: "\<exists>s. race_run [] STABLE_ADDRESS_METHOD_NONE race_ma race_cfg race_a2 2 s"
proof -
  obtain s where s: "race_run [] STABLE_ADDRESS_METHOD_NONE race_ma race_cfg race_a1 1 s" using race_sample_run1 by blast
  let ?e = "zero_decision\<lparr>e_clk := 2\<rparr>" and ?cp = "event_cp EVENT_TASK_FINI 5 0"
  have t: "race_id ?cp \<noteq> NO_TASK" "dt_fini race_a1 (race_id ?cp) = None" by (simp_all add: race_samples NO_TASK_def race_a1_simps)
  have "race_rel race_a1 1 (rc_sets s)" using race_run_rel [OF s race_samples(1,4)] by blast
  from ot_lazy_dereg_rel [OF this t, of 2] obtain m' where "ot_lazy_dereg (rc_sets s) (race_id ?cp) 2 = Inr m'" by auto
  then have "race_handle [] STABLE_ADDRESS_METHOD_NONE race_ma race_cfg ?cp ?e s = Inr (?e, s\<lparr>rc_sets := m'\<rparr>)"
    by (simp add: race_handle_def race_samples NO_TASK_def)
  from race_run.capture [OF s _ _ t(2) this] show ?thesis by (auto simp: race_a2_def NO_TASK_def)
qed

lemma race_sample_expired:
  assumes "race_rel race_a2 2 m"
  shows "\<exists>u os. map_find m u = Some os \<and> ot_expired os 200"
proof -
  have "dt_recent race_a2 5 \<noteq> []" "\<not> forgotten race_a2 5 2" by (simp_all add: race_a2_simps race_a1_simps forgotten_def LAZY_DEREG_DELAY_def)
  then obtain os where os: "map_find m 5 = Some os" "ot_matches race_a2 5 os" using assms unfolding race_rel_def by (metis not_None_eq)
  then have "ot_expired os 200" by (simp add: ot_matches_def race_a2_simps ot_expired_def LAZY_DEREG_DELAY_def)
  with os(1) show ?thesis by blast
qed

section \<open>Properties\<close>

text \<open>
  Claim C26. The race detector refines its specification. After any sequence of events that the enabled detector has handled, the
  check of the next event returns, it reports a race exactly when the event accesses an address that another task, not ended for
  100 ticks, accessed since its last synchronisation, among the first 100 of those accesses, with one of the two a write, not both atomic, and both by
  virtual or both by real task identifiers; and the reported race is such a pair. The sets afterwards are again those of the
  specification.
\<close>

theorem race_detector_exact:
  assumes "race_run maps sam ma cfg a now s" and "rcc_enabled cfg" and "stable_ok maps sam" and "now \<le> clk"
    and "cp_id cp \<noteq> NO_TASK" and "dt_fini a (race_id cp) = None"
  shows "\<exists>race m'. race_check ma (rcc_ignore_write_write cfg) cp clk (rc_sets s) = Inr (race, m') \<and>
    race_rel (detector_check ma cp a) clk m' \<and>
    (race_addr race \<noteq> 0 \<longleftrightarrow> (\<exists>e ee. conflicting ma (rcc_ignore_write_write cfg) a cp clk e ee)) \<and>
    (race_addr race \<noteq> 0 \<longrightarrow> (\<exists>e ee. conflicting ma (rcc_ignore_write_write cfg) a cp clk e ee \<and> race = mk_race e ee))"
proof -
  have "race_rel a clk (rc_sets s)" using race_run_rel [OF assms(1-3)] race_rel_time assms(4) by blast
  then show ?thesis
    by (rule race_check_rel [OF _ race_id_not_none [OF assms(5)] assms(6), of _ _ ma "rcc_ignore_write_write cfg"]) blast
qed

theorem race_detector_exact_witness:
  "\<exists>s race m'. race_run [] STABLE_ADDRESS_METHOD_NONE race_ma race_cfg race_a1 1 s \<and>
    race_check race_ma False (event_cp 30 6 64) 2 (rc_sets s) = Inr (race, m') \<and> race_addr race = 64 \<and> rl_id (race_loc2 race) = 5"
proof -
  obtain s where s: "race_run [] STABLE_ADDRESS_METHOD_NONE race_ma race_cfg race_a1 1 s" using race_sample_run1 by blast
  let ?cp = "event_cp 30 6 64"
  have a: "access_of race_ma ?cp = Some (race_entry ?cp 64 True False)" by (simp add: access_of_def race_samples race_ma_def)
  have "conflicting race_ma False race_a1 ?cp 2 (race_entry ?cp 64 True False) (race_entry (event_cp 31 5 64) 64 False False)"
    unfolding conflicting_iff a
    by (intro conjI exI [of _ 5]) (simp_all add: race_samples race_a1_simps forgotten_def ot_races_def race_entry_def MAX_CAPACITY_def)
  then have x: "\<exists>e ee. conflicting race_ma False race_a1 ?cp 2 e ee" by blast
  have c: "oe_addr e = 64 \<and> oe_id ee = 5" if "conflicting race_ma False race_a1 ?cp 2 e ee" for e ee
    using that a by (auto simp: conflicting_iff race_a1_simps race_entry_def race_samples MAX_CAPACITY_def split: if_splits)
  obtain race m' e ee where "race_check race_ma False ?cp 2 (rc_sets s) = Inr (race, m')"
      "conflicting race_ma False race_a1 ?cp 2 e ee" "race = mk_race e ee"
    using race_detector_exact [OF s race_samples(1,4), of 2 ?cp] x by (auto simp: NO_TASK_def race_a1_simps race_samples)
  with s c show ?thesis by (auto simp: mk_race_def)
qed

text \<open>
  Claim C27. The outcome of the race handler for an event that is neither the first nor the last of its task, from every state the
  detector reaches. With a race the program ends if it is configured so; otherwise the instructions of one conflicting pair of
  accesses become change points and nothing else does. Without a race the handler returns with the change points as they were,
  except at every hundredth tick: if the event is no access and some task has ended at least 100 ticks ago with its set still registered, the
  clean-up reads the item it has just released.
\<close>

theorem race_handle_outcome:
  assumes "race_run maps sam ma cfg a now s" and "rcc_enabled cfg" and "stable_ok maps sam" and "now \<le> e_clk e"
    and "cp_id cp \<noteq> NO_TASK" and "dt_fini a (race_id cp) = None" and "cp_type_id cp \<notin> {EVENT_TASK_INIT, EVENT_TASK_FINI}"
  shows "if \<exists>x y. conflicting ma (rcc_ignore_write_write cfg) a cp (e_clk e) x y then
      if rcc_abort_on_race cfg then race_handle maps sam ma cfg cp e s = Inl Fatal
      else \<exists>s' x y. race_handle maps sam ma cfg cp e s = Inr (e, s') \<and> conflicting ma (rcc_ignore_write_write cfg) a cp (e_clk e) x y \<and>
        ichpts (rc_ichpt s') = ichpts (rc_ichpt s) \<union> stable_of maps sam ` set (race_ichpts cfg (mk_race x y))
    else if access_of ma cp = None \<and> e_clk e mod LAZY_DEREG_DELAY = 0 \<and>
      (\<exists>u os. map_find (rc_sets s) u = Some os \<and> ot_expired os (e_clk e))
    then race_handle maps sam ma cfg cp e s = Inl Fault
    else \<exists>s'. race_handle maps sam ma cfg cp e s = Inr (e, s') \<and> rc_ichpt s' = rc_ichpt s"
proof -
  let ?iww = "rcc_ignore_write_write cfg" and ?clk = "e_clk e"
  have rel: "race_rel a ?clk (rc_sets s)" and ic: "ichpt_inv sam (rc_ichpt s)"
    using race_run_rel [OF assms(1-3)] race_rel_time assms(4) by blast+
  note t = race_id_not_none [OF assms(5)]
  note h = race_handle_checked [OF _ assms(2,5,7)]
  show ?thesis
  proof (cases "access_of ma cp")
    case None
    then have nc: "\<not> (\<exists>x y. conflicting ma ?iww a cp ?clk x y)" by (simp add: conflicting_iff)
    obtain m' where m': "race_check ma ?iww cp ?clk (rc_sets s) = Inr (zero_race, m')" "race_wf m'"
        "(\<exists>u os. map_find m' u = Some os \<and> ot_expired os ?clk) \<longleftrightarrow> (\<exists>u os. map_find (rc_sets s) u = Some os \<and> ot_expired os ?clk)"
      by (rule race_check_expired [OF rel t assms(6) None, of ?iww])
    with ot_cleanup_spec [OF m'(2), of ?clk] h [OF m'(1)] nc None show ?thesis by (simp add: zero_race_def)
  next
    case (Some x)
    obtain r m' where r: "race_check ma ?iww cp ?clk (rc_sets s) = Inr (r, m')" "race_rel (detector_check ma cp a) ?clk m'"
        "race_addr r \<noteq> 0 \<longleftrightarrow> (\<exists>x y. conflicting ma ?iww a cp ?clk x y)"
        "race_addr r \<noteq> 0 \<Longrightarrow> \<exists>x y. conflicting ma ?iww a cp ?clk x y \<and> r = mk_race x y"
        "race_addr r = 0 \<Longrightarrow> \<forall>u os. map_find m' u = Some os \<longrightarrow> \<not> ot_expired os ?clk"
      by (rule race_check_access [OF rel t assms(6) Some, of ?iww]) (rule that)
    show ?thesis
    proof (cases "race_addr r = 0")
      case True
      have "race_wf m'" using r(2) by (simp add: race_rel_def)
      with True r(3,5) have "ot_cleanup m' ?clk = Inr m'" by (auto simp: ot_cleanup_spec)
      with True r(3) h [OF r(1)] Some show ?thesis by simp
    next
      case False
      then obtain x y where xy: "conflicting ma ?iww a cp ?clk x y" "r = mk_race x y" using r(4) by blast
      obtain ic' where "add_ichpts maps sam (rc_ichpt s) (race_ichpts cfg r) = Inr ic'"
          "ichpts ic' = ichpts (rc_ichpt s) \<union> stable_of maps sam ` set (race_ichpts cfg r)"
        using add_ichpts_inv [OF assms(3) ic] by blast
      with False r(3) h [OF r(1)] xy show ?thesis by auto
    qed
  qed
qed

theorem race_handle_outcome_witness:
  "\<exists>s. race_run [] STABLE_ADDRESS_METHOD_NONE race_ma race_cfg race_a2 2 s \<and>
    race_handle [] STABLE_ADDRESS_METHOD_NONE race_ma race_cfg (event_cp 32 6 0) (zero_decision\<lparr>e_clk := 200\<rparr>) s = Inl Fault"
proof -
  obtain s where s: "race_run [] STABLE_ADDRESS_METHOD_NONE race_ma race_cfg race_a2 2 s" using race_sample_run2 by blast
  let ?cp = "event_cp 32 6 0" and ?e = "zero_decision\<lparr>e_clk := 200\<rparr>"
  have "race_rel race_a2 2 (rc_sets s)" using race_run_rel [OF s race_samples(1,4)] by blast
  then have x: "\<exists>u os. map_find (rc_sets s) u = Some os \<and> ot_expired os 200" by (rule race_sample_expired)
  have a: "access_of race_ma ?cp = None" by (simp add: access_of_def)
  then have nc: "\<not> conflicting race_ma iww race_a2 ?cp clk x y" for iww clk x y by (simp add: conflicting_iff)
  have "race_handle [] STABLE_ADDRESS_METHOD_NONE race_ma race_cfg ?cp ?e s = Inl Fault"
    using race_handle_outcome [OF s race_samples(1,4), of ?e ?cp] x
    by (simp add: nc a NO_TASK_def race_samples race_a2_simps event_defs LAZY_DEREG_DELAY_def)
  with s show ?thesis by blast
qed

text \<open>
  Claim C28. The sets of the race detector are well formed and stay so under every event, whatever its task did before: the keys
  of the map are real task identifiers and are unique, every set has its array of 100 entries with at most 100 in use, and an entry in
  use carries the identifier of its task and an address other than 0. From such a state no assertion of the detector fails,
  the check returns, and the handler of resumptions returns.
\<close>

theorem race_keeps_types:
  assumes "race_wf (rc_sets s)" and "ichpt_inv sam (rc_ichpt s)" and "stable_ok maps sam" and "cp_id cp \<noteq> NO_TASK"
  shows "race_handle maps sam ma cfg cp e s \<noteq> Inl AssertFailed \<and>
    (\<forall>e' s'. race_handle maps sam ma cfg cp e s = Inr (e', s') \<longrightarrow> race_wf (rc_sets s') \<and> ichpt_inv sam (rc_ichpt s')) \<and>
    (\<exists>r m'. race_check ma (rcc_ignore_write_write cfg) cp (e_clk e) (rc_sets s) = Inr (r, m') \<and> race_wf m') \<and>
    (\<exists>m'. race_resume_handle cfg cp (rc_sets s) = Inr m' \<and> race_wf m')"
proof (intro conjI allI impI)
  note t = race_id_not_none [OF assms(4)]
  obtain r m where c: "race_check ma (rcc_ignore_write_write cfg) cp (e_clk e) (rc_sets s) = Inr (r, m)" "race_wf m"
    using race_wf_check [OF assms(1) t] by blast
  then show "\<exists>r m'. race_check ma (rcc_ignore_write_write cfg) cp (e_clk e) (rc_sets s) = Inr (r, m') \<and> race_wf m'" by blast
  obtain d where d: "ot_lazy_dereg (rc_sets s) (race_id cp) (e_clk e) = Inr d" "race_wf d" using race_wf_lazy_dereg [OF assms(1) t] by blast
  obtain ic where ic: "add_ichpts maps sam (rc_ichpt s) (race_ichpts cfg r) = Inr ic" "ichpt_inv sam ic"
    using add_ichpts_inv [OF assms(3,2)] by blast
  note cl = ot_cleanup_spec [OF c(2), of "e_clk e"]
  show "race_handle maps sam ma cfg cp e s \<noteq> Inl AssertFailed"
    using c(1) d(1) ic(1) assms(4) cl by (simp add: race_handle_def Let_def)
  show "race_wf (rc_sets s')" "ichpt_inv sam (rc_ichpt s')" if "race_handle maps sam ma cfg cp e s = Inr (e', s')" for e' s'
    using that c d ic assms cl by (auto simp: race_handle_def Let_def split: if_splits)
  show "\<exists>m'. race_resume_handle cfg cp (rc_sets s) = Inr m' \<and> race_wf m'"
    using race_wf_clear [OF assms(1)] assms(1,4) t
    by (cases "map_find (rc_sets s) (race_id cp)") (auto simp: race_resume_handle_def tidmap_find_def)
qed

theorem race_keeps_types_witness:
  "\<exists>e s. race_handle [] STABLE_ADDRESS_METHOD_NONE race_ma race_cfg (event_cp 31 5 64) (zero_decision\<lparr>e_clk := 1\<rparr>) race_s0 = Inr (e, s) \<and>
     map_find (rc_sets s) 5 \<noteq> None \<and> race_wf (rc_sets s) \<and>
     (\<exists>m'. race_resume_handle race_cfg (event_cp EVENT_MUTEX_RELEASE 5 64) (rc_sets s) = Inr m' \<and> race_wf m')"
proof -
  let ?sam = STABLE_ADDRESS_METHOD_NONE and ?e = "zero_decision\<lparr>e_clk := 1\<rparr>"
  have cp: "cp_id (event_cp ty 5 64) \<noteq> NO_TASK" for ty by (simp add: NO_TASK_def)
  have 0: "race_wf (rc_sets race_s0)" "ichpt_inv ?sam (rc_ichpt race_s0)" by (simp_all add: race_s0_def race_wf_def ichpt_inv_def)
  obtain m where m: "race_handle [] ?sam race_ma race_cfg (event_cp 31 5 64) ?e race_s0 = Inr (?e, race_s0\<lparr>rc_sets := m\<rparr>)"
      "race_run [] ?sam race_ma race_cfg race_a1 1 (race_s0\<lparr>rc_sets := m\<rparr>)" using race_sample_step by blast
  let ?s = "race_s0\<lparr>rc_sets := m\<rparr>"
  have 1: "race_wf (rc_sets ?s)" "ichpt_inv ?sam (rc_ichpt ?s)"
    using race_keeps_types [OF 0 race_samples(4) cp, of race_ma race_cfg 31 ?e] m(1) by blast+
  have "race_rel race_a1 1 (rc_sets ?s)" using race_run_rel [OF m(2) race_samples(1,4)] by blast
  moreover have "dt_recent race_a1 5 \<noteq> []" "\<not> forgotten race_a1 5 1" by (simp_all add: race_a1_simps forgotten_def)
  ultimately have "map_find (rc_sets ?s) 5 \<noteq> None" unfolding race_rel_def by metis
  moreover have "\<exists>m'. race_resume_handle race_cfg (event_cp EVENT_MUTEX_RELEASE 5 64) (rc_sets ?s) = Inr m' \<and> race_wf m'"
    using race_keeps_types [OF 1 race_samples(4) cp, of race_ma race_cfg EVENT_MUTEX_RELEASE ?e] by blast
  ultimately show ?thesis using m(1) 1(1) by blast
qed

end
