(* ===== verification/Clock.thy ===== *)
theory Clock
  imports Handler_Base
begin

text \<open>
  The emulated clock, \<^verbatim>\<open>modules/clock/src/handler.c\<close> and \<^verbatim>\<open>modules/clock/include/lotto/modules/clock.h\<close>. The clock
  counts costs; a cost is turned into nanoseconds with a division in floating point. The two expressions in
  floating point are parameters (\<open>clock_fp\<close>); the rest is arithmetic on 64 bit words.

  \<^verbatim>\<open>lotto_clock_leap\<close> ends with a loop that increments the clock until a time is reached. The loop is a
  partial function; it ends when the division does not make a number smaller.
\<close>

section \<open>Data\<close>

record timespec =
  tv_sec :: int
  tv_nsec :: int

definition NSEC_IN_SEC :: "64 word" where
  "NSEC_IN_SEC = 1000000000"

definition LONG_MAX :: "64 word" where
  "LONG_MAX = 0x7FFFFFFFFFFFFFFF"

definition timespec_compare :: "timespec \<Rightarrow> timespec \<Rightarrow> int" where
  "timespec_compare ts1 ts2 =
     (if tv_sec ts1 < tv_sec ts2 then -1
      else if tv_sec ts1 > tv_sec ts2 then 1
      else if tv_nsec ts1 < tv_nsec ts2 then -1
      else if tv_nsec ts1 > tv_nsec ts2 then 1
      else 0)"

text \<open>\<open>ck_ret\<close> is the member \<^verbatim>\<open>ret\<close> of the last event that read the clock.\<close>

record clock_state =
  ck_clk :: nat
  ck_cost :: "64 word"
  ck_cost_offset :: "64 word"
  ck_no_cost_count :: "64 word"
  ck_ret :: "64 word"

record clock_config =
  cc_base_inc :: "64 word"
  cc_mult_inc :: "64 word"
  cc_max_gap :: "64 word"
  cc_burst_gap :: "64 word"

definition clock_init :: clock_state where
  "clock_init = \<lparr>ck_clk = 0, ck_cost = 0, ck_cost_offset = 0, ck_no_cost_count = 0, ck_ret = 0\<rparr>"

definition EVENT_CLOCK_READ :: type_id where "EVENT_CLOCK_READ = 197"

text \<open>
  \<open>fp_ns b\<close> is \<^verbatim>\<open>(uint64_t)(int64_t)((double)b / 0.9)\<close> and \<open>fp_cost d\<close> is
  \<^verbatim>\<open>(uint64_t)(int64_t)ceil(((double)d / 1) * 0.9)\<close>.
\<close>

record clock_fp =
  fp_ns :: "64 word \<Rightarrow> 64 word"
  fp_cost :: "int \<Rightarrow> 64 word"

section \<open>Operations\<close>

definition clock_tick :: "clock_config \<Rightarrow> 64 word \<Rightarrow> clock_state \<Rightarrow> clock_state result" where
  "clock_tick cfg cpu_cost c =
     (let c = c\<lparr>ck_clk := ck_clk c + 1\<rparr> in
      assertr (cpu_cost = 0 \<or> cpu_cost \<ge> ck_cost c)
        (if cpu_cost > 0 then Inr (c\<lparr>ck_cost := cpu_cost, ck_no_cost_count := 0\<rparr>)
         else
           let c = c\<lparr>ck_no_cost_count := ck_no_cost_count c + 1\<rparr> in
           if ck_no_cost_count c < cc_max_gap cfg
           then Inr (c\<lparr>ck_cost_offset := ck_cost_offset c + cc_base_inc cfg * cc_mult_inc cfg\<rparr>)
           else Inr (c\<lparr>ck_cost_offset := ck_cost_offset c + cc_base_inc cfg * cc_mult_inc cfg * cc_burst_gap cfg\<rparr>)))"

definition clock_cost :: "clock_state \<Rightarrow> 64 word" where
  "clock_cost c = ck_cost c + ck_cost_offset c"

definition clock_ns :: "clock_fp \<Rightarrow> clock_state \<Rightarrow> 64 word" where
  "clock_ns fp c = fp_ns fp (clock_cost c)"

definition lotto_clock_time :: "clock_fp \<Rightarrow> clock_state \<Rightarrow> timespec result" where
  "lotto_clock_time fp c =
     (let cur_ns = clock_ns fp c; sec = cur_ns div NSEC_IN_SEC; nsec = cur_ns mod NSEC_IN_SEC in
      assertr (sec < LONG_MAX) (assertr (nsec < LONG_MAX)
        (Inr \<lparr>tv_sec = uint sec, tv_nsec = uint nsec\<rparr>)))"

text \<open>The loop at the end of \<^verbatim>\<open>lotto_clock_leap\<close>.\<close>

partial_function (option) clock_leap_loop :: "clock_fp \<Rightarrow> timespec \<Rightarrow> clock_state \<Rightarrow> clock_state result option" where
  "clock_leap_loop fp ts c =
     (case lotto_clock_time fp c of
        Inl err \<Rightarrow> Some (Inl err)
      | Inr now \<Rightarrow>
          if timespec_compare ts now > 0 then clock_leap_loop fp ts (c\<lparr>ck_cost_offset := ck_cost_offset c + 1\<rparr>)
          else Some (Inr c))"

text \<open>The difference is computed with unsigned 64 bit numbers and read as a signed one.\<close>

definition lotto_clock_leap :: "clock_fp \<Rightarrow> timespec \<Rightarrow> clock_state \<Rightarrow> clock_state result option" where
  "lotto_clock_leap fp ts c =
     (case lotto_clock_time fp c of
        Inl err \<Rightarrow> Some (Inl err)
      | Inr now \<Rightarrow>
          let cmp = timespec_compare ts now in
          if cmp = 0 then Some (Inr c)
          else if \<not> cmp > 0 then Some (Inl AssertFailed)
          else
            let diff_nsec = sint (of_int (tv_sec ts - tv_sec now) * NSEC_IN_SEC + of_int (tv_nsec ts - tv_nsec now)) in
            if \<not> diff_nsec > 0 then Some (Inl AssertFailed)
            else clock_leap_loop fp ts (c\<lparr>ck_cost_offset := ck_cost_offset c + fp_cost fp diff_nsec\<rparr>))"

text \<open>The capture handler; \<open>cpu_cost\<close> reads the member of that name of the capture point.\<close>

definition clock_handle :: "clock_fp \<Rightarrow> clock_config \<Rightarrow> (capture_point \<Rightarrow> 64 word) \<Rightarrow> clock_state handler" where
  "clock_handle fp cfg cpu_cost cp e c =
     (if cp_type_id cp = EVENT_CLOCK_READ
      then Inr (e\<lparr>e_next := cp_id cp, e_readonly := True, e_skip := True\<rparr>, c\<lparr>ck_ret := clock_ns fp c\<rparr>)
      else bindr (clock_tick cfg (cpu_cost cp) c) (\<lambda>c. Inr (e, c)))"

interpretation clock_h: capture_handler "clock_handle fp cfg cpu_cost"
  by unfold_locales (auto simp: clock_handle_def bindr_eq_Inr split: if_splits)

section \<open>Times\<close>

definition ts_norm :: "timespec \<Rightarrow> bool" where
  "ts_norm ts \<longleftrightarrow> 0 \<le> tv_nsec ts \<and> tv_nsec ts < 1000000000"

definition ts_ns :: "timespec \<Rightarrow> int" where
  "ts_ns ts = tv_sec ts * 1000000000 + tv_nsec ts"

text \<open>On proper times the comparison is the one of the nanoseconds.\<close>

lemma timespec_compare_ns:
  assumes "ts_norm a" and "ts_norm b"
  shows "timespec_compare a b > 0 \<longleftrightarrow> ts_ns a > ts_ns b" and "timespec_compare a b = 0 \<longleftrightarrow> ts_ns a = ts_ns b"
    and "timespec_compare a b < 0 \<longleftrightarrow> ts_ns a < ts_ns b"
  using assms unfolding timespec_compare_def ts_norm_def ts_ns_def by auto

lemma timespec_compare_le:
  "ts_norm a \<Longrightarrow> ts_norm b \<Longrightarrow> timespec_compare a b \<le> 0 \<longleftrightarrow> ts_ns a \<le> ts_ns b"
  using timespec_compare_ns(1) [of a b] by linarith

definition clock_now :: "clock_fp \<Rightarrow> clock_state \<Rightarrow> timespec" where
  "clock_now fp c = \<lparr>tv_sec = uint (clock_ns fp c div NSEC_IN_SEC), tv_nsec = uint (clock_ns fp c mod NSEC_IN_SEC)\<rparr>"

text \<open>The two assertions of \<^verbatim>\<open>_clock_time_local\<close> hold for every state of the clock.\<close>

lemma lotto_clock_time_now: "lotto_clock_time fp c = Inr (clock_now fp c)"
proof -
  let ?n = "clock_ns fp c"
  have "unat ?n < 2 ^ LENGTH(64)" by (rule unsigned_less)
  then have "unat ?n div 1000000000 < 0x7FFFFFFFFFFFFFFF" by simp
  then have "?n div NSEC_IN_SEC < LONG_MAX"
    by (simp add: word_less_nat_alt unat_div NSEC_IN_SEC_def LONG_MAX_def)
  moreover have "unat ?n mod 1000000000 < 1000000000" by simp
  then have "unat ?n mod 1000000000 < 0x7FFFFFFFFFFFFFFF" by linarith
  then have "?n mod NSEC_IN_SEC < LONG_MAX"
    by (simp add: word_less_nat_alt unat_mod NSEC_IN_SEC_def LONG_MAX_def)
  ultimately show ?thesis by (simp add: lotto_clock_time_def Let_def clock_now_def)
qed

lemma clock_now_norm: "ts_norm (clock_now fp c)"
  by (simp add: ts_norm_def clock_now_def NSEC_IN_SEC_def uint_mod)

lemma clock_now_ns: "ts_ns (clock_now fp c) = uint (clock_ns fp c)"
  by (simp add: ts_ns_def clock_now_def NSEC_IN_SEC_def uint_mod uint_div)

section \<open>The leap\<close>

text \<open>The loop stops at the first cost at which the time is reached, if there is one ahead.\<close>

lemma clock_leap_loop_ends:
  assumes "ts_norm ts" and "ts_ns ts \<le> uint (fp_ns fp (clock_cost c + of_nat k))"
  shows "\<exists>n. clock_leap_loop fp ts c = Some (Inr (c\<lparr>ck_cost_offset := ck_cost_offset c + of_nat n\<rparr>)) \<and>
    ts_ns ts \<le> uint (fp_ns fp (clock_cost c + of_nat n)) \<and> n \<le> k"
  using assms(2)
proof (induction k arbitrary: c)
  case 0
  then have "\<not> timespec_compare ts (clock_now fp c) > 0"
    using timespec_compare_le [OF assms(1) clock_now_norm] by (simp add: clock_now_ns clock_ns_def not_less)
  with 0 show ?case
    by (intro exI [of _ 0]) (simp add: clock_leap_loop.simps [of fp ts c] lotto_clock_time_now)
next
  case (Suc k)
  show ?case
  proof (cases "timespec_compare ts (clock_now fp c) > 0")
    case False
    then have "ts_ns ts \<le> uint (fp_ns fp (clock_cost c))"
      using timespec_compare_le [OF assms(1) clock_now_norm] by (simp add: clock_now_ns clock_ns_def not_less)
    with False show ?thesis
      by (intro exI [of _ 0]) (simp add: clock_leap_loop.simps [of fp ts c] lotto_clock_time_now)
  next
    case True
    let ?c = "c\<lparr>ck_cost_offset := ck_cost_offset c + 1\<rparr>"
    have cost: "clock_cost ?c + of_nat n = clock_cost c + of_nat (Suc n)" for n by (simp add: clock_cost_def ac_simps)
    from Suc.IH [of ?c] Suc.prems obtain n where n: "clock_leap_loop fp ts ?c =
        Some (Inr (?c\<lparr>ck_cost_offset := ck_cost_offset ?c + of_nat n\<rparr>))"
        "ts_ns ts \<le> uint (fp_ns fp (clock_cost c + of_nat (Suc n)))" "n \<le> k" unfolding cost by blast
    with True show ?thesis
      by (intro exI [of _ "Suc n"]) (simp add: clock_leap_loop.simps [of fp ts c] lotto_clock_time_now ac_simps)
  qed
qed

text \<open>What the code needs from the division by 0.9: it makes no number of less than 62 bits smaller.\<close>

definition fp_grows :: "clock_fp \<Rightarrow> bool" where
  "fp_grows fp \<longleftrightarrow> (\<forall>b. uint b < 2 ^ 62 \<longrightarrow> uint b \<le> uint (fp_ns fp b))"

lemma fp_reaches:
  assumes "fp_grows fp" and "0 \<le> t" and "t < 2 ^ 62"
  shows "\<exists>k. t \<le> uint (fp_ns fp (x + of_nat k))"
proof -
  let ?w = "of_int t :: 64 word"
  have u: "uint ?w = t" using assms(2,3) by (simp add: take_bit_int_eq_self_iff word_of_int_eq_iff uint_word_of_int_eq)
  have "x + of_nat (unat (?w - x)) = ?w" by simp
  moreover have "t \<le> uint (fp_ns fp ?w)" using assms(1,3) u unfolding fp_grows_def by metis
  ultimately show ?thesis by metis
qed

lemma lotto_clock_leap_reaches:
  assumes fp: "fp_grows fp" and ts: "ts_norm ts" "ts_ns ts < 2 ^ 62" and later: "ts_ns (clock_now fp c) \<le> ts_ns ts"
  shows "\<exists>n. lotto_clock_leap fp ts c = Some (Inr (c\<lparr>ck_cost_offset := ck_cost_offset c + of_nat n\<rparr>)) \<and>
    ts_ns ts \<le> ts_ns (clock_now fp (c\<lparr>ck_cost_offset := ck_cost_offset c + of_nat n\<rparr>))"
proof (cases "ts_ns ts = ts_ns (clock_now fp c)")
  case True
  then have "timespec_compare ts (clock_now fp c) = 0" using timespec_compare_ns(2) [OF ts(1) clock_now_norm] by blast
  with True show ?thesis by (intro exI [of _ 0]) (simp add: lotto_clock_leap_def lotto_clock_time_now)
next
  case False
  let ?now = "clock_now fp c"
  have pos: "timespec_compare ts ?now > 0" using False later timespec_compare_ns(1) [OF ts(1) clock_now_norm] by simp
  define d where "d = ts_ns ts - ts_ns ?now"
  have now0: "0 \<le> ts_ns ?now" by (simp add: clock_now_ns)
  have d: "0 < d" "d < 2 ^ 62" using False later ts(2) now0 by (simp_all add: d_def)
  have "of_int (tv_sec ts - tv_sec ?now) * NSEC_IN_SEC + of_int (tv_nsec ts - tv_nsec ?now) = (of_int d :: 64 word)"
    by (simp add: d_def ts_ns_def NSEC_IN_SEC_def algebra_simps)
  moreover have "sint (of_int d :: 64 word) = d"
    using d by (simp add: signed_of_int signed_take_bit_int_eq_self_iff)
  ultimately have diff: "sint (of_int (tv_sec ts - tv_sec ?now) * NSEC_IN_SEC + of_int (tv_nsec ts - tv_nsec ?now)) = d" by simp
  define c1 where "c1 = c\<lparr>ck_cost_offset := ck_cost_offset c + fp_cost fp d\<rparr>"
  have leap: "lotto_clock_leap fp ts c = clock_leap_loop fp ts c1"
    using pos diff d(1) by (simp add: lotto_clock_leap_def lotto_clock_time_now Let_def c1_def)
  obtain k where k: "ts_ns ts \<le> uint (fp_ns fp (clock_cost c1 + of_nat k))"
    using fp_reaches [OF fp, of "ts_ns ts"] ts(2) later now0 by fastforce
  obtain n where n: "clock_leap_loop fp ts c1 = Some (Inr (c1\<lparr>ck_cost_offset := ck_cost_offset c1 + of_nat n\<rparr>))"
      "ts_ns ts \<le> uint (fp_ns fp (clock_cost c1 + of_nat n))"
    using clock_leap_loop_ends [OF ts(1) k] by blast
  have "c1\<lparr>ck_cost_offset := ck_cost_offset c1 + of_nat n\<rparr> = c\<lparr>ck_cost_offset := ck_cost_offset c + of_nat (unat (fp_cost fp d + of_nat n))\<rparr>"
    by (simp add: c1_def ac_simps)
  moreover have "clock_cost (c1\<lparr>ck_cost_offset := ck_cost_offset c1 + of_nat n\<rparr>) = clock_cost c1 + of_nat n"
    by (simp add: clock_cost_def ac_simps)
  ultimately show ?thesis using leap n by (metis clock_now_ns clock_ns_def)
qed

end
