(* ===== verification/Poll_Table.thy ===== *)
theory Poll_Table
  imports Handler_Base
begin

text \<open>
  The tables of the poll module (\<^verbatim>\<open>modules/poll/src/handler.c\<close>). A task that calls \<^verbatim>\<open>poll\<close> waits in the map \<^verbatim>\<open>polls\<close>; the map
  \<^verbatim>\<open>fds\<close> has for every polled file descriptor the requested events, the waiting tasks and, for every event bit, the number of
  requests. This theory has the operations on the tables: registering descriptors, asking the operating system about all of them, handing the
  answers to the waiting tasks, and ending a wait. The capture handlers, which use the clock and the timeouts as well, are in \<^verbatim>\<open>Poll\<close>.

  The pointer of a waiter leads to the payload of the event on the stack of its task; the payload is kept in the map
  while the task waits, and in \<open>po_done\<close>, the memory the task sees, from then on. Calls of \<^verbatim>\<open>poll\<close> with the same array from
  two tasks at once are not represented. The system call is the argument \<open>sp\<close>.
\<close>

section \<open>Data\<close>

definition POLL_HELP_INTERVAL :: "64 word" where "POLL_HELP_INTERVAL = 8"
definition EVENT_POLL :: type_id where "EVENT_POLL = 164"

text \<open>\<^verbatim>\<open>POLLERR | POLLHUP | POLLNVAL\<close> of \<^verbatim>\<open>poll.h\<close>.\<close>

definition POLL_ERRORS :: "16 word" where "POLL_ERRORS = 0x38"

record pollfd =
  pf_fd :: int
  pf_events :: "16 word"
  pf_revents :: "16 word"

record poll_event =
  pe_fds :: "pollfd list"
  pe_timeout :: int
  pe_ret :: int

record polled_fd =
  pd_events :: "16 word"
  pd_waiters :: tidset
  pd_counts :: "64 word list"

record polls =
  po_polls :: "poll_event map_t"
  po_fds :: "polled_fd map_t"
  po_help_counter :: "64 word"
  po_should_cleanup :: bool
  po_done :: "task_id \<Rightarrow> poll_event option"

type_synonym sys_poll = "pollfd list \<Rightarrow> int \<times> pollfd list"

definition zero_poll_event :: poll_event where
  "zero_poll_event = \<lparr>pe_fds = [], pe_timeout = 0, pe_ret = 0\<rparr>"

definition zero_polled_fd :: polled_fd where
  "zero_polled_fd = \<lparr>pd_events = 0, pd_waiters = zero_tidset, pd_counts = replicate 16 0\<rparr>"

text \<open>The key \<^verbatim>\<open>fd + 1\<close> of a descriptor, and back.\<close>

definition fd_key :: "int \<Rightarrow> 64 word" where
  "fd_key fd = word_of_int (fd + 1)"

definition key_fd :: "64 word \<Rightarrow> int" where
  "key_fd k = sint (ucast k :: 32 word) - 1"

definition polls_init :: polls where
  "polls_init = \<lparr>po_polls = map_init, po_fds = map_init, po_help_counter = 0, po_should_cleanup = False, po_done = Map.empty\<rparr>"

section \<open>Waiting\<close>

unbundle bit_operations_syntax

definition fd_init :: "polled_fd \<Rightarrow> polled_fd" where
  "fd_init p = p\<lparr>pd_waiters := tidset_init\<rparr>"

text \<open>The loop over the sixteen bits of an event mask, with the update of a counter.\<close>

definition count_bits :: "(64 word \<Rightarrow> 64 word) \<Rightarrow> 16 word \<Rightarrow> 64 word list \<Rightarrow> 64 word list result" where
  "count_bits f events counts =
     (if length counts = 16 then Inr (map (\<lambda>j. if bit events j then f (counts ! j) else counts ! j) [0..<16]) else Inl Fault)"

text \<open>The loop of \<^verbatim>\<open>_wait\<close> over the descriptors returns them as it leaves them.\<close>

definition wait_fd :: "task_id \<Rightarrow> pollfd \<Rightarrow> polled_fd map_t \<Rightarrow> (pollfd \<times> polled_fd map_t) result" where
  "wait_fd t p m =
     (let p = p\<lparr>pf_revents := 0\<rparr> in
      if pf_fd p < 0 then Inr (p, m)
      else let p = p\<lparr>pf_events := pf_events p OR POLL_ERRORS\<rparr>; k = fd_key (pf_fd p) in
        bindr (tidmap_find_or_register zero_polled_fd m k (Some fd_init)) (\<lambda>(d, m).
        bindr (tidset_insert (pd_waiters d) t) (\<lambda>(_, ws).
        bindr (count_bits (\<lambda>c. c + 1) (pf_events p) (pd_counts d)) (\<lambda>counts.
          Inr (p, map_write m k \<lparr>pd_events = pd_events d OR pf_events p, pd_waiters = ws, pd_counts = counts\<rparr>)))))"

fun wait_fds :: "task_id \<Rightarrow> pollfd list \<Rightarrow> polled_fd map_t \<Rightarrow> (pollfd list \<times> polled_fd map_t) result" where
  "wait_fds t [] m = Inr ([], m)"
| "wait_fds t (p # ps) m =
     bindr (wait_fd t p m) (\<lambda>(p, m). bindr (wait_fds t ps m) (\<lambda>(ps, m). Inr (p # ps, m)))"

section \<open>Delivery\<close>

text \<open>The inner loop of \<^verbatim>\<open>_propagate_events\<close> over the array of a waiter, with the number of increments of \<^verbatim>\<open>ret\<close>.\<close>

fun deliver_fds :: "int \<Rightarrow> 16 word \<Rightarrow> pollfd list \<Rightarrow> pollfd list \<times> int" where
  "deliver_fds fd revents [] = ([], 0)"
| "deliver_fds fd revents (p # ps) =
     (let (ps, n) = deliver_fds fd revents ps in
      if pf_fd p \<noteq> fd then (p # ps, n)
      else let p = p\<lparr>pf_revents := pf_revents p OR (pf_events p AND revents)\<rparr> in
        (p # ps, if pf_revents p = 0 then n else n + 1))"

definition deliver :: "int \<Rightarrow> 16 word \<Rightarrow> poll_event \<Rightarrow> poll_event" where
  "deliver fd revents args =
     (let (fds, n) = deliver_fds fd revents (pe_fds args) in args\<lparr>pe_fds := fds, pe_ret := pe_ret args + n\<rparr>)"

text \<open>The loop over the waiters from \<open>i\<close> on, with \<open>n\<close> left.\<close>

fun deliver_waiters :: "int \<Rightarrow> 16 word \<Rightarrow> tidset \<Rightarrow> nat \<Rightarrow> nat \<Rightarrow> poll_event map_t \<Rightarrow> poll_event map_t result" where
  "deliver_waiters fd revents ws i 0 polls = Inr polls"
| "deliver_waiters fd revents ws i (Suc n) polls =
     bindr (tidset_get ws i) (\<lambda>t.
     bindr (tidmap_find polls t) (\<lambda>r. case r of
        None \<Rightarrow> Inl AssertFailed
      | Some args \<Rightarrow> deliver_waiters fd revents ws (Suc i) n (map_write polls t (deliver fd revents args))))"

fun propagate_events :: "polled_fd map_t \<Rightarrow> pollfd list \<Rightarrow> int \<Rightarrow> poll_event map_t \<Rightarrow> poll_event map_t result" where
  "propagate_events m [] nevents polls = assertr (nevents = 0) (Inr polls)"
| "propagate_events m (p # ps) nevents polls =
     (if pf_revents p = 0 then propagate_events m ps nevents polls
      else bindr (tidmap_find m (fd_key (pf_fd p))) (\<lambda>r. case r of
          None \<Rightarrow> Inl AssertFailed
        | Some d \<Rightarrow>
            bindr (deliver_waiters (pf_fd p) (pf_revents p) (pd_waiters d) 0 (tidset_size (pd_waiters d)) polls)
              (propagate_events m ps (nevents - 1))))"

text \<open>The array of all polled descriptors in the order of the map.\<close>

definition poll_array :: "polled_fd map_t \<Rightarrow> pollfd list" where
  "poll_array m = map (\<lambda>(k, d). \<lparr>pf_fd = key_fd k, pf_events = pd_events d, pf_revents = 0\<rparr>) (map_iterate m)"

definition poll_all :: "sys_poll \<Rightarrow> polls \<Rightarrow> polls result" where
  "poll_all sp s =
     (if map_size (po_fds s) = 0 then Inr s
      else let (nevents, fds) = sp (poll_array (po_fds s)) in
        if nevents = 0 then Inr s
        else bindr (propagate_events (po_fds s) fds nevents (po_polls s)) (\<lambda>polls. Inr (s\<lparr>po_polls := polls\<rparr>)))"

section \<open>Ending a wait\<close>

text \<open>The loop of \<^verbatim>\<open>_cleanup_poll\<close>; it does not skip negative descriptors.\<close>

fun cleanup_poll_fds :: "task_id \<Rightarrow> pollfd list \<Rightarrow> polled_fd map_t \<Rightarrow> polled_fd map_t result" where
  "cleanup_poll_fds t [] m = Inr m"
| "cleanup_poll_fds t (p # ps) m =
     bindr (tidmap_find m (fd_key (pf_fd p))) (\<lambda>r. case r of
        None \<Rightarrow> Inl AssertFailed
      | Some d \<Rightarrow>
          bindr (count_bits (\<lambda>c. c - 1) (pf_events p) (pd_counts d)) (\<lambda>counts.
          bindr (tidset_remove (pd_waiters d) t) (\<lambda>(_, ws).
            cleanup_poll_fds t ps (map_write m (fd_key (pf_fd p)) (d\<lparr>pd_counts := counts, pd_waiters := ws\<rparr>)))))"

text \<open>The item of a waiter is released; the task finds its payload as it is.\<close>

definition poll_drop :: "task_id \<Rightarrow> poll_event \<Rightarrow> polls \<Rightarrow> polls result" where
  "poll_drop t args s =
     bindr (tidmap_deregister (po_polls s) t) (\<lambda>polls. Inr (s\<lparr>po_polls := polls, po_done := (po_done s)(t \<mapsto> args)\<rparr>))"

definition cleanup_poll :: "task_id \<Rightarrow> poll_event \<Rightarrow> polls \<Rightarrow> polls result" where
  "cleanup_poll t args s = bindr (cleanup_poll_fds t (pe_fds args) (po_fds s)) (\<lambda>m. Inr (s\<lparr>po_fds := m\<rparr>))"

text \<open>The subscriber to \<^verbatim>\<open>EVENT_TIMEOUT_TRIGGER\<close>.\<close>

definition poll_trigger :: "task_id \<Rightarrow> polls \<Rightarrow> polls result" where
  "poll_trigger t s =
     bindr (tidmap_find (po_polls s) t) (\<lambda>r. case r of
        None \<Rightarrow> Inr s
      | Some args \<Rightarrow> bindr (cleanup_poll t args s) (poll_drop t args))"

definition poll_waits_on :: "poll_event \<Rightarrow> bool" where
  "poll_waits_on args \<longleftrightarrow> pe_ret args = 0 \<and> length (pe_fds args) > 0 \<and> pe_timeout args \<noteq> 0"

fun cleanup_fds_loop :: "(64 word \<times> polled_fd) list \<Rightarrow> polled_fd map_t \<Rightarrow> polled_fd map_t result" where
  "cleanup_fds_loop [] m = Inr m"
| "cleanup_fds_loop ((k, d) # its) m =
     (if \<not> list_all (\<lambda>c. c = 0) (pd_counts d) then cleanup_fds_loop its m
      else assertr (tidset_size (pd_waiters d) = 0) (bindr (tidmap_deregister m k) (cleanup_fds_loop its)))"

definition cleanup_fds :: "polls \<Rightarrow> polls result" where
  "cleanup_fds s = bindr (cleanup_fds_loop (map_iterate (po_fds s)) (po_fds s)) (\<lambda>m. Inr (s\<lparr>po_fds := m\<rparr>))"

definition poll_should_wait :: "polls \<Rightarrow> task_id \<Rightarrow> bool result" where
  "poll_should_wait s t = bindr (tidmap_find (po_polls s) t) (\<lambda>r. Inr (r \<noteq> None))"

section \<open>Requests\<close>

text \<open>Descriptors are 32 bit numbers; the largest one, for which \<^verbatim>\<open>fd + 1\<close> overflows, is left out. Negative ones are allowed and ignored by \<^verbatim>\<open>poll\<close>.\<close>

definition ok_fd :: "pollfd \<Rightarrow> bool" where
  "ok_fd p \<longleftrightarrow> - (2 ^ 31) \<le> pf_fd p \<and> pf_fd p < 2 ^ 31 - 1"

definition requests :: "64 word \<Rightarrow> pollfd list \<Rightarrow> nat" where
  "requests k ps = length (filter (\<lambda>p. 0 \<le> pf_fd p \<and> fd_key (pf_fd p) = k) ps)"

definition all_requests :: "(task_id \<rightharpoonup> poll_event) \<Rightarrow> 64 word \<Rightarrow> nat" where
  "all_requests f k = (\<Sum>t\<in>dom f. requests k (pe_fds (the (f t))))"

definition pollers :: "(task_id \<rightharpoonup> poll_event) \<Rightarrow> 64 word \<Rightarrow> task_id set" where
  "pollers f k = {t. \<exists>a. f t = Some a \<and> 0 < requests k (pe_fds a)}"

lemma requests_simps [simp]:
  "requests k [] = 0" "requests k (p # ps) = (if 0 \<le> pf_fd p \<and> fd_key (pf_fd p) = k then Suc (requests k ps) else requests k ps)"
  by (simp_all add: requests_def)

lemma all_requests_insert:
  assumes "finite (dom f)" and "f t = None"
  shows "all_requests (f(t \<mapsto> a)) k = requests k (pe_fds a) + all_requests f k"
proof -
  have "t \<notin> dom f" using assms(2) by (simp add: domIff)
  moreover have "(\<Sum>u\<in>dom f. requests k (pe_fds (the ((f(t \<mapsto> a)) u)))) = all_requests f k"
    unfolding all_requests_def by (rule sum.cong) (use assms(2) in \<open>auto simp: domIff\<close>)
  ultimately show ?thesis using assms(1) by (simp add: all_requests_def)
qed

lemma all_requests_remove:
  assumes "finite (dom f)" and "f t = Some a"
  shows "all_requests f k = requests k (pe_fds a) + all_requests (f(t := None)) k"
  using all_requests_insert [of "f(t := None)" t a k] assms by (simp add: fun_upd_idem)

lemma all_requests_same:
  assumes "finite (dom f)" and "f t = Some a" and "requests k (pe_fds b) = requests k (pe_fds a)"
  shows "all_requests (f(t \<mapsto> b)) k = all_requests f k"
  using all_requests_remove [OF assms(1,2)] all_requests_insert [of "f(t := None)" t b k] assms by simp

lemma all_requests_zero: "finite (dom f) \<Longrightarrow> all_requests f k = 0 \<Longrightarrow> pollers f k = {}"
  by (force simp: all_requests_def pollers_def dom_def)

lemma pollers_insert:
  "f t = None \<Longrightarrow> pollers (f(t \<mapsto> a)) = (\<lambda>k. if 0 < requests k (pe_fds a) then insert t (pollers f k) else pollers f k)"
  by (auto simp: fun_eq_iff pollers_def)

lemma pollers_remove:
  "f t = Some a \<Longrightarrow> pollers (f(t := None)) = (\<lambda>k. if 0 < requests k (pe_fds a) then pollers f k - {t} else pollers f k)"
  by (auto simp: fun_eq_iff pollers_def)

lemma finite_map_find: "finite (dom (map_find m))"
proof -
  have "map_find m = map_of (map_chain m)" by (simp add: fun_eq_iff map_find_map_of)
  then show ?thesis by (simp add: finite_dom_map_of)
qed

section \<open>The table of descriptors\<close>

text \<open>
  \<open>R\<close> is the number of requests for every key and \<open>W\<close> bounds the waiting tasks. Every request has the bit of \<^verbatim>\<open>POLLERR\<close>, so that
  its counter counts all requests.
\<close>

definition fd_ok :: "nat \<Rightarrow> task_id set \<Rightarrow> polled_fd \<Rightarrow> bool" where
  "fd_ok r w d \<longleftrightarrow> tidset_inv (pd_waiters d) \<and> tids (pd_waiters d) \<subseteq> w \<and> length (pd_counts d) = 16 \<and> pd_counts d ! 3 = of_nat r"

definition key_ok :: "64 word \<Rightarrow> bool" where
  "key_ok k \<longleftrightarrow> (\<exists>fd. 0 \<le> fd \<and> fd < 2 ^ 31 - 1 \<and> k = fd_key fd)"

definition fds_ok :: "(64 word \<Rightarrow> nat) \<Rightarrow> (64 word \<Rightarrow> task_id set) \<Rightarrow> polled_fd map_t \<Rightarrow> bool" where
  "fds_ok R W m \<longleftrightarrow> map_inv m \<and>
     (\<forall>k. case map_find m k of None \<Rightarrow> R k = 0 | Some d \<Rightarrow> key_ok k \<and> fd_ok (R k) (W k) d)"

lemma fds_ok_None: "fds_ok R W m \<Longrightarrow> map_find m k = None \<Longrightarrow> R k = 0"
  unfolding fds_ok_def by (metis (mono_tags, lifting) option.simps(4))

lemma fds_ok_Some: "fds_ok R W m \<Longrightarrow> map_find m k = Some d \<Longrightarrow> key_ok k \<and> fd_ok (R k) (W k) d"
  unfolding fds_ok_def by (metis (mono_tags, lifting) option.simps(5))

lemma fds_okI:
  assumes "map_inv m" and "\<And>k. map_find m k = None \<Longrightarrow> R k = 0" and "\<And>k d. map_find m k = Some d \<Longrightarrow> key_ok k \<and> fd_ok (R k) (W k) d"
  shows "fds_ok R W m"
  unfolding fds_ok_def using assms by (auto split: option.split)

lemma fds_ok_write:
  assumes "fds_ok R W m" and "map_find m k = Some d" and "fd_ok (R' k) (W' k) d'"
    and "\<And>j. j \<noteq> k \<Longrightarrow> R' j = R j \<and> W' j = W j"
  shows "fds_ok R' W' (map_write m k d')"
proof (rule fds_okI)
  show "map_inv (map_write m k d')" using assms(1) by (simp add: fds_ok_def)
next
  fix j assume "map_find (map_write m k d') j = None"
  then have "j \<noteq> k" "map_find m j = None" using assms(2) by (auto simp: map_find_write split: if_splits)
  with fds_ok_None [OF assms(1)] assms(4) show "R' j = 0" by simp
next
  fix j x assume x: "map_find (map_write m k d') j = Some x"
  show "key_ok j \<and> fd_ok (R' j) (W' j) x"
  proof (cases "j = k")
    case True
    with x assms(2) have "x = d'" by (simp add: map_find_write)
    with True fds_ok_Some [OF assms(1,2)] assms(3) show ?thesis by simp
  next
    case False
    with x assms(2) have "map_find m j = Some x" by (simp add: map_find_write)
    with False fds_ok_Some [OF assms(1), of j x] assms(4) show ?thesis by simp
  qed
qed

lemma fd_key_unat: "0 \<le> fd \<Longrightarrow> fd < 2 ^ 31 - 1 \<Longrightarrow> uint (fd_key fd) = fd + 1"
  unfolding fd_key_def uint_word_of_int by simp

lemma fd_key_not_none: "0 \<le> fd \<Longrightarrow> fd < 2 ^ 31 - 1 \<Longrightarrow> fd_key fd \<noteq> NO_TASK"
  using fd_key_unat [of fd] by (auto simp: NO_TASK_def)

lemma key_fd_key: "0 \<le> fd \<Longrightarrow> fd < 2 ^ 31 - 1 \<Longrightarrow> key_fd (fd_key fd) = fd"
proof -
  assume fd: "0 \<le> fd" "fd < 2 ^ 31 - 1"
  then have "uint (ucast (fd_key fd) :: 32 word) = fd + 1" using fd_key_unat [OF fd] by (simp add: unsigned_ucast_eq take_bit_int_eq_self)
  then have "sint (ucast (fd_key fd) :: 32 word) = fd + 1"
    using fd by (simp add: sint_uint signed_take_bit_int_eq_self)
  then show ?thesis by (simp add: key_fd_def)
qed

lemma errors_bit: "bit POLL_ERRORS 3"
  by (simp add: POLL_ERRORS_def)

lemma count_bits_3:
  assumes "length counts = 16" and "bit events 3"
  shows "\<exists>c'. count_bits f events counts = Inr c' \<and> length c' = 16 \<and> c' ! 3 = f (counts ! 3)"
  using assms by (simp add: count_bits_def)

text \<open>The key of a negative descriptor is that of no registered one.\<close>

lemma fd_key_negative:
  assumes "- (2 ^ 31) \<le> fd" and "fd < 0"
  shows "\<not> key_ok (fd_key fd) \<or> fd_key fd = NO_TASK"
proof (cases "fd = -1")
  case False
  have "(fd + 1) mod 2 ^ 64 = (fd + 1 + 2 ^ 64) mod 2 ^ 64" by (rule mod_add_self2 [symmetric])
  also have "\<dots> = fd + 1 + 2 ^ 64" using assms False by (intro mod_pos_pos_trivial) auto
  finally have "uint (fd_key fd) = fd + 1 + 2 ^ 64" unfolding fd_key_def uint_word_of_int by simp
  with assms fd_key_unat show ?thesis by (auto simp: key_ok_def)
qed (simp add: fd_key_def NO_TASK_def)

lemma fd_key_inj:
  assumes "fd_key a = fd_key b" and "0 \<le> a" and "a < 2 ^ 31 - 1" and "0 \<le> b" and "b < 2 ^ 31 - 1"
  shows "a = b"
proof -
  have "a + 1 = uint (fd_key b)" unfolding assms(1) [symmetric] fd_key_unat [OF assms(2,3)] ..
  also have "\<dots> = b + 1" by (rule fd_key_unat [OF assms(4,5)])
  finally show ?thesis by simp
qed

section \<open>Registering and releasing descriptors\<close>

definition waited_fd :: "pollfd \<Rightarrow> pollfd" where
  "waited_fd p = (if pf_fd p < 0 then p\<lparr>pf_revents := 0\<rparr> else p\<lparr>pf_revents := 0, pf_events := pf_events p OR POLL_ERRORS\<rparr>)"

lemma waited_fd_simps [simp]: "pf_fd (waited_fd p) = pf_fd p" "pf_revents (waited_fd p) = 0" "0 \<le> pf_fd p \<Longrightarrow> bit (pf_events (waited_fd p)) 3"
  using errors_bit by (simp_all add: waited_fd_def bit_or_iff)

text \<open>The tasks that are told about a descriptor.\<close>

definition fd_waiters :: "polled_fd map_t \<Rightarrow> int \<Rightarrow> task_id set" where
  "fd_waiters m fd = (case map_find m (fd_key fd) of None \<Rightarrow> {} | Some d \<Rightarrow> tids (pd_waiters d))"

text \<open>The table has an item for the key afterwards, with its waiting tasks reset.\<close>

lemma find_or_register_fd:
  assumes "fds_ok R W m" and "0 \<le> fd" and "fd < 2 ^ 31 - 1"
  shows "\<exists>d m'. tidmap_find_or_register zero_polled_fd m (fd_key fd) (Some fd_init) = Inr (d, m') \<and> fds_ok R W m' \<and>
    map_find m' (fd_key fd) = Some d \<and> pd_waiters d = tidset_init \<and> (\<forall>k. k \<noteq> fd_key fd \<longrightarrow> map_find m' k = map_find m k)"
proof -
  let ?k = "fd_key fd"
  have k: "?k \<noteq> NO_TASK" "key_ok ?k" using fd_key_not_none assms(2,3) by (auto simp: key_ok_def)
  have inv: "map_inv m" using assms(1) by (simp add: fds_ok_def)
  show ?thesis
  proof (cases "map_find m ?k")
    case None
    obtain m1 where m1: "map_register zero_polled_fd m ?k = Inr m1" "map_inv m1" "map_find m1 = (map_find m)(?k \<mapsto> zero_polled_fd)"
      using km.register_absent [OF inv None] by blast
    have r0: "R ?k = 0" by (rule fds_ok_None [OF assms(1) None])
    let ?d = "fd_init zero_polled_fd"
    have ok: "fd_ok (R ?k) (W ?k) ?d" using r0 by (simp add: fd_ok_def fd_init_def zero_polled_fd_def)
    have "fds_ok R W (map_write m1 ?k ?d)"
    proof (rule fds_okI)
      show "map_inv (map_write m1 ?k ?d)" using m1(2) by simp
      show "R j = 0" if "map_find (map_write m1 ?k ?d) j = None" for j
        using that m1(3) fds_ok_None [OF assms(1), of j] by (auto simp: map_find_write split: if_splits)
      show "key_ok j \<and> fd_ok (R j) (W j) x" if "map_find (map_write m1 ?k ?d) j = Some x" for j x
        using that m1(3) fds_ok_Some [OF assms(1), of j x] ok k(2) by (auto simp: map_find_write split: if_splits)
    qed
    with None m1 k(1) show ?thesis
      by (simp add: tidmap_find_or_register_def map_find_or_register_def map_find_write fd_init_def)
  next
    case (Some d)
    have ok: "fd_ok (R ?k) (W ?k) (fd_init d)" using fds_ok_Some [OF assms(1) Some] by (simp add: fd_ok_def fd_init_def)
    have "fds_ok R W (map_write m ?k (fd_init d))" by (rule fds_ok_write [where R' = R and W' = W, OF assms(1) Some ok]) simp
    with Some k(1) show ?thesis
      by (simp add: tidmap_find_or_register_def map_find_or_register_def map_find_write fd_init_def)
  qed
qed

lemma wait_fd_ok:
  assumes "fds_ok R W m" and "ok_fd p" and "0 \<le> pf_fd p"
  defines "k \<equiv> fd_key (pf_fd p)"
  shows "\<exists>m'. wait_fd t p m = Inr (waited_fd p, m') \<and> fds_ok (R(k := Suc (R k))) (W(k := insert t (W k))) m' \<and>
    (\<forall>d. map_find m' k = Some d \<longrightarrow> tids (pd_waiters d) = {t}) \<and> map_find m' k \<noteq> None \<and> (\<forall>j. j \<noteq> k \<longrightarrow> map_find m' j = map_find m j)"
proof -
  have fd: "pf_fd p < 2 ^ 31 - 1" using assms(2) by (simp add: ok_fd_def)
  obtain d m1 where m1: "tidmap_find_or_register zero_polled_fd m k (Some fd_init) = Inr (d, m1)" "fds_ok R W m1"
      "map_find m1 k = Some d" "pd_waiters d = tidset_init" "\<forall>j. j \<noteq> k \<longrightarrow> map_find m1 j = map_find m j"
    using find_or_register_fd [OF assms(1,3) fd] by (auto simp: k_def)
  have d: "length (pd_counts d) = 16" "pd_counts d ! 3 = of_nat (R k)" using fds_ok_Some [OF m1(2,3)] by (simp_all add: fd_ok_def)
  obtain ws where ws: "tidset_insert (pd_waiters d) t = Inr (t \<notin> tids (pd_waiters d), ws)" "tidset_inv ws" "tids ws = {t}"
    using tidset_insert_inv [of "pd_waiters d" t] m1(4) by auto
  obtain c where c: "count_bits (\<lambda>c. c + 1) (pf_events (waited_fd p)) (pd_counts d) = Inr c" "length c = 16" "c ! 3 = pd_counts d ! 3 + 1"
    using count_bits_3 [OF d(1) waited_fd_simps(3) [OF assms(3)]] by blast
  let ?d = "\<lparr>pd_events = pd_events d OR pf_events (waited_fd p), pd_waiters = ws, pd_counts = c\<rparr>"
  have "fds_ok (R(k := Suc (R k))) (W(k := insert t (W k))) (map_write m1 k ?d)"
    by (rule fds_ok_write [OF m1(2,3)]) (use ws c d in \<open>auto simp: fd_ok_def\<close>)
  moreover have "wait_fd t p m = Inr (waited_fd p, map_write m1 k ?d)"
    using assms(3) m1(1) ws(1) c(1) by (simp add: wait_fd_def waited_fd_def k_def Let_def)
  ultimately show ?thesis using m1(3,5) ws(3) by (auto simp: map_find_write)
qed

text \<open>The waiters of the descriptors of the array are those of its task alone, since \<^verbatim>\<open>_fd_init\<close> runs on an item that is there too.\<close>

lemma wait_fds_ok:
  assumes "fds_ok R W m" and "list_all ok_fd ps"
  shows "\<exists>m'. wait_fds t ps m = Inr (map waited_fd ps, m') \<and>
    fds_ok (\<lambda>k. R k + requests k ps) (\<lambda>k. if 0 < requests k ps then insert t (W k) else W k) m' \<and>
    (\<forall>fd. 0 \<le> fd \<longrightarrow> fd < 2 ^ 31 - 1 \<longrightarrow> fd_waiters m' fd = (if fd \<in> pf_fd ` set ps then {t} else fd_waiters m fd))"
  using assms
proof (induction ps arbitrary: R W m)
  case (Cons p ps)
  show ?case
  proof (cases "pf_fd p < 0")
    case True
    then have "wait_fd t p m = Inr (waited_fd p, m)" by (simp add: wait_fd_def waited_fd_def)
    moreover have "requests k (p # ps) = requests k ps" for k using True by simp
    ultimately show ?thesis using Cons.IH [OF Cons.prems(1)] Cons.prems(2) True by auto
  next
    case False
    let ?k = "fd_key (pf_fd p)"
    have p: "ok_fd p" "0 \<le> pf_fd p" using Cons.prems(2) False by auto
    obtain m1 where m1: "wait_fd t p m = Inr (waited_fd p, m1)" "fds_ok (R(?k := Suc (R ?k))) (W(?k := insert t (W ?k))) m1"
        "\<forall>d. map_find m1 ?k = Some d \<longrightarrow> tids (pd_waiters d) = {t}" "map_find m1 ?k \<noteq> None" "\<forall>j. j \<noteq> ?k \<longrightarrow> map_find m1 j = map_find m j"
      using wait_fd_ok [OF Cons.prems(1) p, of t] by blast
    have w1: "fd_waiters m1 fd = (if fd = pf_fd p then {t} else fd_waiters m fd)" if "0 \<le> fd" "fd < 2 ^ 31 - 1" for fd
    proof (cases "fd = pf_fd p")
      case True
      with m1(3,4) show ?thesis by (auto simp: fd_waiters_def)
    next
      case False
      then have "fd_key fd \<noteq> ?k" using fd_key_inj [of fd "pf_fd p"] that p by (auto simp: ok_fd_def)
      with m1(5) False show ?thesis by (simp add: fd_waiters_def)
    qed
    have R: "(\<lambda>j. (R(?k := Suc (R ?k))) j + requests j ps) = (\<lambda>j. R j + requests j (p # ps))" using p by (auto simp: fun_eq_iff)
    have W: "(\<lambda>j. if 0 < requests j ps then insert t ((W(?k := insert t (W ?k))) j) else (W(?k := insert t (W ?k))) j) =
        (\<lambda>j. if 0 < requests j (p # ps) then insert t (W j) else W j)" using p by (auto simp: fun_eq_iff)
    obtain m' where m': "wait_fds t ps m1 = Inr (map waited_fd ps, m')"
        "fds_ok (\<lambda>k. R k + requests k (p # ps)) (\<lambda>k. if 0 < requests k (p # ps) then insert t (W k) else W k) m'"
        "\<forall>fd. 0 \<le> fd \<longrightarrow> fd < 2 ^ 31 - 1 \<longrightarrow> fd_waiters m' fd = (if fd \<in> pf_fd ` set ps then {t} else fd_waiters m1 fd)"
      using Cons.IH [OF m1(2)] Cons.prems(2) unfolding R W by auto
    with m1(1) w1 show ?thesis by (intro exI [of _ m']) auto
  qed
qed simp

text \<open>Releasing an array: it fails exactly when the array has a negative descriptor.\<close>

definition negative_fds :: "pollfd list \<Rightarrow> bool" where
  "negative_fds ps \<longleftrightarrow> list_ex (\<lambda>p. pf_fd p < 0) ps"

definition waited_ok :: "pollfd \<Rightarrow> bool" where
  "waited_ok p \<longleftrightarrow> ok_fd p \<and> (0 \<le> pf_fd p \<longrightarrow> bit (pf_events p) 3)"

lemma cleanup_poll_fds_ok:
  assumes "fds_ok R W m" and "list_all waited_ok ps" and "\<And>k. requests k ps \<le> R k"
  shows "if negative_fds ps then cleanup_poll_fds t ps m = Inl AssertFailed
    else \<exists>m'. cleanup_poll_fds t ps m = Inr m' \<and>
      fds_ok (\<lambda>k. R k - requests k ps) (\<lambda>k. if 0 < requests k ps then W k - {t} else W k) m'"
  using assms
proof (induction ps arbitrary: R W m)
  case (Cons p ps)
  let ?k = "fd_key (pf_fd p)"
  show ?case
  proof (cases "pf_fd p < 0")
    case True
    have "- (2 ^ 31) \<le> pf_fd p" using Cons.prems(2) by (simp add: waited_ok_def ok_fd_def)
    from fd_key_negative [OF this True] fds_ok_Some [OF Cons.prems(1), of ?k]
    have "?k = NO_TASK \<or> map_find m ?k = None" by (cases "map_find m ?k") auto
    then have "cleanup_poll_fds t (p # ps) m = Inl AssertFailed" by (cases "?k = NO_TASK") (auto simp: tidmap_find_def)
    with True show ?thesis by (simp add: negative_fds_def)
  next
    case False
    then have p: "0 \<le> pf_fd p" "pf_fd p < 2 ^ 31 - 1" "bit (pf_events p) 3" using Cons.prems(2) by (simp_all add: waited_ok_def ok_fd_def)
    have "R ?k \<noteq> 0" using Cons.prems(3) [of ?k] p by simp
    with fds_ok_None [OF Cons.prems(1), of ?k] obtain d where d: "map_find m ?k = Some d" by (cases "map_find m ?k") auto
    have ok: "tidset_inv (pd_waiters d)" "tids (pd_waiters d) \<subseteq> W ?k" "length (pd_counts d) = 16" "pd_counts d ! 3 = of_nat (R ?k)"
      using fds_ok_Some [OF Cons.prems(1) d] by (simp_all add: fd_ok_def)
    obtain ws where ws: "tidset_remove (pd_waiters d) t = Inr (t \<in> tids (pd_waiters d), ws)" "tidset_inv ws" "tids ws = tids (pd_waiters d) - {t}"
      using tidset_remove_inv [OF ok(1)] by blast
    obtain c where c: "count_bits (\<lambda>c. c - 1) (pf_events p) (pd_counts d) = Inr c" "length c = 16" "c ! 3 = pd_counts d ! 3 - 1"
      using count_bits_3 [OF ok(3) p(3)] by blast
    let ?m = "map_write m ?k (d\<lparr>pd_counts := c, pd_waiters := ws\<rparr>)"
    have "of_nat (R ?k) - 1 = (of_nat (R ?k - 1) :: 64 word)" using \<open>R ?k \<noteq> 0\<close> by (cases "R ?k") simp_all
    then have f: "fds_ok (R(?k := R ?k - 1)) (W(?k := W ?k - {t})) ?m"
      by (intro fds_ok_write [OF Cons.prems(1) d]) (use ok ws c in \<open>auto simp: fd_ok_def\<close>)
    have g: "list_all waited_ok ps" using Cons.prems(2) by simp
    have r: "requests j ps \<le> (R(?k := R ?k - 1)) j" for j using Cons.prems(3) [of j] p by (auto split: if_splits)
    have R: "(\<lambda>j. (R(?k := R ?k - 1)) j - requests j ps) = (\<lambda>j. R j - requests j (p # ps))" using p by (auto simp: fun_eq_iff)
    have W: "(\<lambda>j. if 0 < requests j ps then (W(?k := W ?k - {t})) j - {t} else (W(?k := W ?k - {t})) j) =
        (\<lambda>j. if 0 < requests j (p # ps) then W j - {t} else W j)" using p by (auto simp: fun_eq_iff)
    have "?k \<noteq> NO_TASK" by (rule fd_key_not_none [OF p(1,2)])
    then have step: "cleanup_poll_fds t (p # ps) m = cleanup_poll_fds t ps ?m" using d c(1) ws(1) by (simp add: tidmap_find_def)
    have "negative_fds (p # ps) = negative_fds ps" using False by (simp add: negative_fds_def)
    with Cons.IH [OF f g r] show ?thesis unfolding R W step by simp
  qed
qed (simp add: negative_fds_def)

section \<open>Answers\<close>

text \<open>
  The answer of a call: \<open>rep\<close> is what the system reports for a descriptor and \<open>W\<close> the tasks that are told about it. An entry gets its
  requested events among the reported ones, and the result is the number of entries with an event.
\<close>

definition answer_fd :: "(int \<Rightarrow> 16 word) \<Rightarrow> (int \<Rightarrow> task_id set) \<Rightarrow> task_id \<Rightarrow> pollfd \<Rightarrow> pollfd" where
  "answer_fd rep W t p = p\<lparr>pf_revents := if t \<in> W (pf_fd p) then pf_events p AND rep (pf_fd p) else 0\<rparr>"

definition with_events :: "pollfd list \<Rightarrow> int" where
  "with_events ps = int (length (filter (\<lambda>p. pf_revents p \<noteq> 0) ps))"

definition answer :: "(int \<Rightarrow> 16 word) \<Rightarrow> (int \<Rightarrow> task_id set) \<Rightarrow> task_id \<Rightarrow> poll_event \<Rightarrow> poll_event" where
  "answer rep W t a = (let fds = map (answer_fd rep W t) (pe_fds a) in a\<lparr>pe_fds := fds, pe_ret := with_events fds\<rparr>)"

definition unanswered :: "poll_event \<Rightarrow> bool" where
  "unanswered a \<longleftrightarrow> pe_ret a = 0 \<and> list_all (\<lambda>p. pf_revents p = 0) (pe_fds a)"

lemma with_events_simps [simp]:
  "with_events [] = 0" "with_events (p # ps) = (if pf_revents p = 0 then with_events ps else with_events ps + 1)"
  by (simp_all add: with_events_def)

lemma with_events_zero: "with_events ps = 0 \<longleftrightarrow> list_all (\<lambda>p. pf_revents p = 0) ps" and with_events_nonneg: "0 \<le> with_events ps"
  by (auto simp: with_events_def list_all_iff filter_empty_conv)

lemma answer_fd_simps [simp]: "pf_fd (answer_fd rep W t p) = pf_fd p" "pf_events (answer_fd rep W t p) = pf_events p"
  by (simp_all add: answer_fd_def)

lemma answer_ret: "pe_ret (answer rep W t a) = with_events (pe_fds (answer rep W t a))"
  by (simp add: answer_def Let_def)

lemma answer_fds: "pe_fds (answer rep W t a) = map (answer_fd rep W t) (pe_fds a)"
  by (simp add: answer_def Let_def)

lemma answer_unanswered:
  assumes "unanswered a"
  shows "answer (\<lambda>_. 0) W t a = a"
proof -
  have "map (answer_fd (\<lambda>_. 0) W t) (pe_fds a) = pe_fds a"
    by (rule map_idI) (use assms in \<open>auto simp: unanswered_def list_all_iff answer_fd_def\<close>)
  moreover have "with_events (pe_fds a) = pe_ret a" using assms with_events_zero [of "pe_fds a"] by (simp add: unanswered_def)
  ultimately show ?thesis by (simp add: answer_def)
qed

lemma unanswered_answer: "pe_ret (answer rep W t a) = 0 \<Longrightarrow> unanswered (answer rep W t a)"
  using answer_ret [of rep W t a] with_events_zero by (simp add: unanswered_def)

lemma deliver_fds_answer:
  assumes "t \<in> W fd" and "rep fd = 0"
  shows "deliver_fds fd r (map (answer_fd rep W t) ps) =
    (map (answer_fd (rep(fd := r)) W t) ps, with_events (map (answer_fd (rep(fd := r)) W t) ps) - with_events (map (answer_fd rep W t) ps))"
  by (induction ps) (use assms in \<open>auto simp: answer_fd_def Let_def\<close>)

lemma deliver_answer: "t \<in> W fd \<Longrightarrow> rep fd = 0 \<Longrightarrow> deliver fd r (answer rep W t a) = answer (rep(fd := r)) W t a"
  using deliver_fds_answer [of t W fd rep r "pe_fds a"] by (simp add: deliver_def answer_def Let_def)

lemma answer_other: "t \<notin> W fd \<Longrightarrow> answer (rep(fd := r)) W t a = answer rep W t a"
proof -
  assume "t \<notin> W fd"
  then have "answer_fd (rep(fd := r)) W t = answer_fd rep W t" by (auto simp: answer_fd_def)
  then show ?thesis by (simp add: answer_def)
qed

text \<open>An answer changes no descriptor, no requested event and no timeout.\<close>

definition shape :: "poll_event \<Rightarrow> (int \<times> 16 word) list \<times> int" where
  "shape a = (map (\<lambda>p. (pf_fd p, pf_events p)) (pe_fds a), pe_timeout a)"

definition likes :: "(task_id \<rightharpoonup> poll_event) \<Rightarrow> (task_id \<rightharpoonup> poll_event) \<Rightarrow> bool" where
  "likes f g \<longleftrightarrow> (\<forall>t. map_option shape (f t) = map_option shape (g t))"

lemma likes_refl [simp]: "likes f f" and likes_trans: "likes f g \<Longrightarrow> likes g h \<Longrightarrow> likes f h"
  by (simp_all add: likes_def)

lemma likes_upd: "f t = Some a \<Longrightarrow> shape b = shape a \<Longrightarrow> likes f (f(t \<mapsto> b))"
  by (simp add: likes_def)

lemma shape_requests: "shape b = shape a \<Longrightarrow> requests k (pe_fds b) = requests k (pe_fds a)"
proof -
  have "requests k (pe_fds c) = length (filter (\<lambda>x. 0 \<le> fst x \<and> fd_key (fst x) = k) (fst (shape c)))" for c
    by (simp add: requests_def shape_def filter_map comp_def)
  then show "shape b = shape a \<Longrightarrow> requests k (pe_fds b) = requests k (pe_fds a)" by simp
qed

lemma shape_waited_ok: "shape b = shape a \<Longrightarrow> list_all waited_ok (pe_fds b) \<longleftrightarrow> list_all waited_ok (pe_fds a)"
proof -
  have "list_all waited_ok (pe_fds c) \<longleftrightarrow> list_all (\<lambda>(fd, ev). - (2 ^ 31) \<le> fd \<and> fd < 2 ^ 31 - 1 \<and> (0 \<le> fd \<longrightarrow> bit ev 3)) (fst (shape c))" for c
    by (auto simp: waited_ok_def list_all_iff ok_fd_def shape_def)
  then show "shape b = shape a \<Longrightarrow> list_all waited_ok (pe_fds b) \<longleftrightarrow> list_all waited_ok (pe_fds a)" by simp
qed

lemma shape_negative: "shape b = shape a \<Longrightarrow> negative_fds (pe_fds b) \<longleftrightarrow> negative_fds (pe_fds a)"
proof -
  have "negative_fds (pe_fds c) \<longleftrightarrow> list_ex (\<lambda>x. fst x < 0) (fst (shape c))" for c
    by (simp add: negative_fds_def list_ex_iff shape_def)
  then show "shape b = shape a \<Longrightarrow> negative_fds (pe_fds b) \<longleftrightarrow> negative_fds (pe_fds a)" by simp
qed

lemma likes_None: "likes f g \<Longrightarrow> g t = None \<longleftrightarrow> f t = None"
  unfolding likes_def by (metis option.map_disc_iff)

lemma likes_Some:
  assumes "likes f g" and "g t = Some b"
  obtains a where "f t = Some a" and "shape a = shape b"
proof -
  have "map_option shape (f t) = Some (shape b)" using assms by (simp add: likes_def)
  with that show thesis by auto
qed

lemma likes_sym: "likes f g \<Longrightarrow> likes g f"
  by (simp add: likes_def)

lemma likes_dom: "likes f g \<Longrightarrow> dom g = dom f"
  using likes_None [of f g] by (auto simp: dom_def)

lemma likes_total: "likes f g \<Longrightarrow> all_requests g = all_requests f"
proof
  fix k assume l: "likes f g"
  have "requests k (pe_fds (the (g t))) = requests k (pe_fds (the (f t)))" if x: "t \<in> dom f" for t
  proof -
    obtain b where b: "g t = Some b" using x likes_None [OF l, of t] by (cases "g t") auto
    obtain a where "f t = Some a" "shape a = shape b" by (rule likes_Some [OF l b])
    with b shape_requests show ?thesis by (metis option.sel)
  qed
  then show "all_requests g k = all_requests f k" unfolding all_requests_def likes_dom [OF l] by (rule sum.cong [OF refl])
qed

lemma pollers_mono: "likes f g \<Longrightarrow> pollers g k \<subseteq> pollers f k"
proof
  fix t assume l: "likes f g" and "t \<in> pollers g k"
  then obtain b where b: "g t = Some b" "0 < requests k (pe_fds b)" by (auto simp: pollers_def)
  obtain a where "f t = Some a" "shape a = shape b" by (rule likes_Some [OF l b(1)])
  with b(2) shape_requests [of a b k] show "t \<in> pollers f k" by (simp add: pollers_def)
qed

lemma likes_pollers: "likes f g \<Longrightarrow> pollers g = pollers f"
proof
  fix k assume l: "likes f g"
  show "pollers g k = pollers f k" using pollers_mono [OF l] pollers_mono [OF likes_sym [OF l]] by (rule equalityI)
qed


lemma answer_shape: "shape (answer rep W t a) = shape a"
  by (simp add: shape_def answer_def Let_def)

lemma likes_answers: "likes f (\<lambda>t. map_option (answer rep W t) (f t))"
  by (simp add: likes_def option.map_comp comp_def answer_shape)

section \<open>Delivering events\<close>

lemma deliver_waiters_exact:
  assumes "map_inv m" and "f NO_TASK = None" and "tidset_inv ws" and "tids ws = W fd" and "\<forall>t\<in>tids ws. f t \<noteq> None" and "rep fd = 0"
    and "i + n = ts_size ws"
    and "map_find m = (\<lambda>t. map_option (answer (if t \<in> set (drop i (tidset_list ws)) then rep else rep(fd := r)) W t) (f t))"
  shows "\<exists>m'. deliver_waiters fd r ws i n m = Inr m' \<and> map_inv m' \<and> map_find m' = (\<lambda>t. map_option (answer (rep(fd := r)) W t) (f t))"
  using assms(1,7,8)
proof (induction n arbitrary: i m)
  case 0
  then have "drop i (tidset_list ws) = []" using length_tidset_list [OF tidset_inv_wf [OF assms(3)]] by simp
  with 0 show ?case by simp
next
  case (Suc n)
  let ?l = "tidset_list ws" and ?t = "tidset_list ws ! i"
  have i: "i < length ?l" "i < ts_size ws" using Suc.prems(2) length_tidset_list [OF tidset_inv_wf [OF assms(3)]] by simp_all
  have dr: "drop i ?l = ?t # drop (Suc i) ?l" using i(1) by (simp add: Cons_nth_drop_Suc)
  have nt: "?t \<notin> set (drop (Suc i) ?l)" using assms(3) i(1) dr by (metis distinct.simps(2) distinct_drop tidset_inv_def)
  have get: "tidset_get ws i = Inr ?t" using i(2) by (simp add: tidset_get_wf [OF tidset_inv_wf [OF assms(3)]])
  have ti: "?t \<in> tids ws" using i(1) by (simp add: tids_def)
  then obtain a where a: "f ?t = Some a" using assms(5) by auto
  have t: "?t \<noteq> NO_TASK" using a assms(2) by auto
  have fa: "map_find m ?t = Some (answer rep W ?t a)" using Suc.prems(3) a dr by simp
  let ?m = "map_write m ?t (answer (rep(fd := r)) W ?t a)"
  have dl: "deliver fd r (answer rep W ?t a) = answer (rep(fd := r)) W ?t a" using ti assms(4,6) by (intro deliver_answer) simp_all
  have "map_find ?m u = map_option (answer (if u \<in> set (drop (Suc i) ?l) then rep else rep(fd := r)) W u) (f u)" for u
    using fa a nt Suc.prems(3) dr by (cases "u = ?t") (simp_all add: map_find_write)
  then have "map_find ?m = (\<lambda>u. map_option (answer (if u \<in> set (drop (Suc i) ?l) then rep else rep(fd := r)) W u) (f u))" by blast
  moreover have "map_inv ?m" "Suc i + n = ts_size ws" using Suc.prems(1,2) by simp_all
  moreover have "deliver_waiters fd r ws i (Suc n) m = deliver_waiters fd r ws (Suc i) n ?m" using get fa dl t by (simp add: tidmap_find_def)
  ultimately show ?case using Suc.IH [of ?m "Suc i"] by (simp only:)
qed

text \<open>The report of a call: what its entries say, and \<open>rep\<close> for other descriptors.\<close>

definition overlay :: "(int \<Rightarrow> 16 word) \<Rightarrow> pollfd list \<Rightarrow> int \<Rightarrow> 16 word" where
  "overlay rep ps fd = (case map_of (map (\<lambda>p. (pf_fd p, pf_revents p)) ps) fd of None \<Rightarrow> rep fd | Some r \<Rightarrow> r)"

lemma overlay_Nil [simp]: "overlay rep [] = rep"
  by (simp add: overlay_def fun_eq_iff)

lemma overlay_Cons: "pf_fd p \<notin> pf_fd ` set ps \<Longrightarrow> overlay rep (p # ps) = overlay (rep(pf_fd p := pf_revents p)) ps"
proof
  fix fd assume "pf_fd p \<notin> pf_fd ` set ps"
  then have "map_of (map (\<lambda>p. (pf_fd p, pf_revents p)) ps) (pf_fd p) = None" by (auto simp: map_of_eq_None_iff)
  then show "overlay rep (p # ps) fd = overlay (rep(pf_fd p := pf_revents p)) ps fd" by (auto simp: overlay_def split: option.split)
qed

lemma propagate_events_exact:
  assumes "map_inv m" and "f NO_TASK = None" and "fds_ok R (pollers f) d" and "distinct (map pf_fd ps)"
    and "\<forall>p\<in>set ps. map_find d (fd_key (pf_fd p)) \<noteq> None \<and> fd_key (pf_fd p) \<noteq> NO_TASK \<and> rep (pf_fd p) = 0"
    and "map_find m = (\<lambda>t. map_option (answer rep (fd_waiters d) t) (f t))"
  shows "if n = with_events ps
    then \<exists>m'. propagate_events d ps n m = Inr m' \<and> map_inv m' \<and> map_find m' = (\<lambda>t. map_option (answer (overlay rep ps) (fd_waiters d) t) (f t))
    else propagate_events d ps n m = Inl AssertFailed"
  using assms(1,4-)
proof (induction ps arbitrary: m n rep)
  case Nil
  then show ?case by (simp add: assertr_def)
next
  case (Cons p ps)
  have ov: "overlay rep (p # ps) = overlay (rep(pf_fd p := pf_revents p)) ps" using Cons.prems(2) by (intro overlay_Cons) simp
  show ?case
  proof (cases "pf_revents p = 0")
    case True
    then have "rep(pf_fd p := pf_revents p) = rep" using Cons.prems(3) by (auto simp: fun_upd_idem)
    with ov have "overlay rep (p # ps) = overlay rep ps" by simp
    with Cons.IH [OF Cons.prems(1) _ _ Cons.prems(4), of n] Cons.prems(2,3) True show ?thesis by (cases "n = with_events ps") simp_all
  next
    case False
    let ?W = "fd_waiters d" and ?rep = "rep(pf_fd p := pf_revents p)"
    obtain x where x: "map_find d (fd_key (pf_fd p)) = Some x" using Cons.prems(3) by auto
    have ok: "tidset_inv (pd_waiters x)" "tids (pd_waiters x) \<subseteq> pollers f (fd_key (pf_fd p))"
      using fds_ok_Some [OF assms(3) x] by (simp_all add: fd_ok_def)
    have W: "tids (pd_waiters x) = ?W (pf_fd p)" using x by (simp add: fd_waiters_def)
    have wait: "\<forall>t\<in>tids (pd_waiters x). f t \<noteq> None" using ok(2) by (auto simp: pollers_def)
    have "map_option (answer rep ?W t) (f t) = map_option (answer (if t \<in> set (drop 0 (tidset_list (pd_waiters x))) then rep else ?rep) ?W t) (f t)" for t
      using W answer_other [of t ?W "pf_fd p" rep "pf_revents p"] by (cases "f t") (auto simp: tids_def)
    then obtain m1 where m1: "deliver_waiters (pf_fd p) (pf_revents p) (pd_waiters x) 0 (tidset_size (pd_waiters x)) m = Inr m1"
        "map_inv m1" "map_find m1 = (\<lambda>t. map_option (answer ?rep ?W t) (f t))"
      using deliver_waiters_exact [where f = f and rep = rep and W = ?W and i = 0 and n = "tidset_size (pd_waiters x)",
          OF Cons.prems(1) assms(2) ok(1) W wait, of "pf_revents p"] Cons.prems(3,4) by (auto simp: tidset_size_def)
    have step: "propagate_events d (p # ps) n m = propagate_events d ps (n - 1) m1" using m1(1) x False Cons.prems(3) by (simp add: tidmap_find_def)
    have q: "\<forall>q\<in>set ps. map_find d (fd_key (pf_fd q)) \<noteq> None \<and> fd_key (pf_fd q) \<noteq> NO_TASK \<and> ?rep (pf_fd q) = 0"
      using Cons.prems(2,3) by (auto simp: image_iff)
    have n: "n = with_events (p # ps) \<longleftrightarrow> n - 1 = with_events ps" using False by auto
    have "distinct (map pf_fd ps)" using Cons.prems(2) by simp
    then show ?thesis unfolding step ov n using q by (rule Cons.IH [OF m1(2) _ _ m1(3)])
  qed
qed

section \<open>Asking the system\<close>

text \<open>
  What \<^verbatim>\<open>poll\<close> promises: it keeps the order and the descriptors, and returns the number of entries for which it reports something,
  or \<open>-1\<close> when it fails.
\<close>

definition poll_ok :: "sys_poll \<Rightarrow> bool" where
  "poll_ok sp \<longleftrightarrow> (\<forall>fds. map pf_fd (snd (sp fds)) = map pf_fd fds \<and> (fst (sp fds) = -1 \<or> fst (sp fds) = with_events (snd (sp fds))))"

text \<open>What the system reports about the registered descriptors, or that its call failed; without descriptors there is no call.\<close>

definition poll_report :: "sys_poll \<Rightarrow> polled_fd map_t \<Rightarrow> (int \<Rightarrow> 16 word) option" where
  "poll_report sp m =
     (if map_size m = 0 then Some (\<lambda>_. 0)
      else let (nevents, fds) = sp (poll_array m) in if nevents = -1 then None else Some (overlay (\<lambda>_. 0) fds))"

definition poll_inv :: "polls \<Rightarrow> bool" where
  "poll_inv s \<longleftrightarrow> map_inv (po_polls s) \<and> map_find (po_polls s) NO_TASK = None \<and>
     (\<forall>t a. map_find (po_polls s) t = Some a \<longrightarrow> list_all waited_ok (pe_fds a)) \<and>
     fds_ok (all_requests (map_find (po_polls s))) (pollers (map_find (po_polls s))) (po_fds s)"

lemma poll_inv_fields [simp]:
  "poll_inv (s\<lparr>po_help_counter := c\<rparr>) = poll_inv s" "poll_inv (s\<lparr>po_should_cleanup := b\<rparr>) = poll_inv s" "poll_inv (s\<lparr>po_done := d\<rparr>) = poll_inv s"
  by (simp_all add: poll_inv_def)

lemma poll_inv_init: "poll_inv polls_init"
  by (simp add: poll_inv_def polls_init_def fds_ok_def all_requests_def dom_def)

lemma poll_inv_likes:
  assumes "poll_inv s" and "map_inv m" and "likes (map_find (po_polls s)) (map_find m)"
  shows "poll_inv (s\<lparr>po_polls := m\<rparr>)"
proof -
  have "list_all waited_ok (pe_fds b)" if b: "map_find m t = Some b" for t b
  proof -
    obtain a where "map_find (po_polls s) t = Some a" "shape a = shape b" by (rule likes_Some [OF assms(3) b])
    with assms(1) shape_waited_ok [of b a] show ?thesis by (simp add: poll_inv_def)
  qed
  with assms likes_None [OF assms(3)] likes_total [OF assms(3)] likes_pollers [OF assms(3)] show ?thesis by (simp add: poll_inv_def)
qed

lemma poll_array_fds:
  assumes "fds_ok R W m"
  shows "distinct (map pf_fd (poll_array m))"
    and "\<And>fd. fd \<in> set (map pf_fd (poll_array m)) \<Longrightarrow> map_find m (fd_key fd) \<noteq> None \<and> fd_key fd \<noteq> NO_TASK"
proof -
  have inv: "map_inv m" using assms by (simp add: fds_ok_def)
  have ok: "key_ok k" if "k \<in> fst ` set (map_iterate m)" for k using that fds_ok_Some [OF assms, of k] by (auto simp: map_iterate_find [OF inv])
  have fds: "map pf_fd (poll_array m) = map key_fd (map fst (map_iterate m))" by (auto simp: poll_array_def)
  have "inj_on key_fd (fst ` set (map_iterate m))"
  proof (rule inj_onI)
    fix x y assume "x \<in> fst ` set (map_iterate m)" "y \<in> fst ` set (map_iterate m)" and e: "key_fd x = key_fd y"
    then have "key_ok x" "key_ok y" using ok by blast+
    with e key_fd_key show "x = y" by (auto simp: key_ok_def)
  qed
  moreover have "distinct (map fst (map_iterate m))" using inv by (simp add: map_inv_def map_iterate_def)
  ultimately show "distinct (map pf_fd (poll_array m))" unfolding fds by (simp add: distinct_map comp_inj_on)
  fix fd assume "fd \<in> set (map pf_fd (poll_array m))"
  then obtain k d where k: "(k, d) \<in> set (map_iterate m)" "fd = key_fd k" unfolding fds by auto
  then have "key_ok k" using ok by force
  then obtain g where g: "0 \<le> g" "g < 2 ^ 31 - 1" "k = fd_key g" by (auto simp: key_ok_def)
  then have "fd_key fd = k" using k(2) key_fd_key [OF g(1,2)] by simp
  with k(1) g fd_key_not_none show "map_find m (fd_key fd) \<noteq> None \<and> fd_key fd \<noteq> NO_TASK" by (auto simp: map_iterate_find [OF inv])
qed

lemma overlay_silent: "with_events ps = 0 \<Longrightarrow> overlay (\<lambda>_. 0) ps = (\<lambda>_. 0)"
proof -
  assume "with_events ps = 0"
  then have "\<forall>p\<in>set ps. pf_revents p = 0" by (simp add: with_events_zero list_all_iff)
  then have "r = 0" if "map_of (map (\<lambda>p. (pf_fd p, pf_revents p)) ps) fd = Some r" for fd r using map_of_SomeD [OF that] by auto
  then show ?thesis by (auto simp: overlay_def fun_eq_iff split: option.split)
qed

lemma poll_all_exact:
  assumes "poll_inv s" and "poll_ok sp" and "\<forall>t a. map_find (po_polls s) t = Some a \<longrightarrow> unanswered a"
  shows "case poll_report sp (po_fds s) of
      None \<Rightarrow> poll_all sp s = Inl AssertFailed
    | Some rep \<Rightarrow> \<exists>m. poll_all sp s = Inr (s\<lparr>po_polls := m\<rparr>) \<and> poll_inv (s\<lparr>po_polls := m\<rparr>) \<and>
        map_find m = (\<lambda>t. map_option (answer rep (fd_waiters (po_fds s)) t) (map_find (po_polls s) t))"
proof -
  let ?f = "map_find (po_polls s)" and ?W = "fd_waiters (po_fds s)"
  have inv: "map_inv (po_polls s)" "?f NO_TASK = None" "fds_ok (all_requests ?f) (pollers ?f) (po_fds s)" using assms(1) by (simp_all add: poll_inv_def)
  have same: "?f = (\<lambda>t. map_option (answer (\<lambda>_. 0) ?W t) (?f t))"
  proof
    fix t show "?f t = map_option (answer (\<lambda>_. 0) ?W t) (?f t)" using assms(3) answer_unanswered by (cases "?f t") auto
  qed
  have eta: "s\<lparr>po_polls := po_polls s\<rparr> = s" by simp
  obtain n rs where sp: "sp (poll_array (po_fds s)) = (n, rs)" by (cases "sp (poll_array (po_fds s))")
  have rs: "map pf_fd rs = map pf_fd (poll_array (po_fds s))" "n = -1 \<or> n = with_events rs" using assms(2) sp by (metis fst_conv snd_conv poll_ok_def)+
  have "pf_fd p \<in> set (map pf_fd (poll_array (po_fds s)))" if "p \<in> set rs" for p using that rs(1) by (metis image_eqI list.set_map)
  then have p: "\<forall>p\<in>set rs. map_find (po_fds s) (fd_key (pf_fd p)) \<noteq> None \<and> fd_key (pf_fd p) \<noteq> NO_TASK \<and> (0 :: 16 word) = 0"
    using poll_array_fds(2) [OF inv(3)] by blast
  have d: "distinct (map pf_fd rs)" unfolding rs(1) by (rule poll_array_fds(1) [OF inv(3)])
  note ex = propagate_events_exact [OF inv(1,2,3) d p same, of n]
  show ?thesis
  proof (cases "map_size (po_fds s) = 0 \<or> n = 0")
    case True
    then have "poll_all sp s = Inr s" using sp by (auto simp: poll_all_def)
    moreover have "poll_report sp (po_fds s) = Some (\<lambda>_. 0)" using True sp rs(2) overlay_silent [of rs] by (auto simp: poll_report_def)
    ultimately show ?thesis using assms(1) same eta by (auto intro!: exI [of _ "po_polls s"])
  next
    case False
    then have all: "poll_all sp s = bindr (propagate_events (po_fds s) rs n (po_polls s)) (\<lambda>polls. Inr (s\<lparr>po_polls := polls\<rparr>))"
      using sp by (simp add: poll_all_def)
    show ?thesis
    proof (cases "n = -1")
      case True
      then have "n \<noteq> with_events rs" using with_events_nonneg [of rs] by simp
      with ex have "poll_all sp s = Inl AssertFailed" unfolding all by simp
      with True False sp show ?thesis by (simp add: poll_report_def)
    next
      case False2: False
      with rs(2) ex obtain m where m: "propagate_events (po_fds s) rs n (po_polls s) = Inr m" "map_inv m"
          "map_find m = (\<lambda>t. map_option (answer (overlay (\<lambda>_. 0) rs) ?W t) (?f t))" by auto
      have "poll_inv (s\<lparr>po_polls := m\<rparr>)" by (rule poll_inv_likes [OF assms(1) m(2)]) (simp add: m(3) likes_answers)
      moreover have "poll_all sp s = Inr (s\<lparr>po_polls := m\<rparr>)" unfolding all using m(1) by simp
      moreover have "poll_report sp (po_fds s) = Some (overlay (\<lambda>_. 0) rs)" using False False2 sp by (simp add: poll_report_def)
      ultimately show ?thesis using m(3) by auto
    qed
  qed
qed

section \<open>A wait begins\<close>

text \<open>The changes of the tables by \<^verbatim>\<open>_wait\<close>, without the deadline.\<close>

definition poll_join :: "task_id \<Rightarrow> poll_event \<Rightarrow> polls \<Rightarrow> polls result" where
  "poll_join t args s =
     bindr (tidmap_register zero_poll_event (po_polls s) t) (\<lambda>polls.
     bindr (wait_fds t (pe_fds args) (po_fds s)) (\<lambda>(fds, m).
       Inr (s\<lparr>po_polls := map_write polls t (args\<lparr>pe_fds := fds\<rparr>), po_fds := m\<rparr>)))"

text \<open>The payload of a call while its task waits.\<close>

definition waited :: "poll_event \<Rightarrow> poll_event" where
  "waited a = a\<lparr>pe_fds := map waited_fd (pe_fds a)\<rparr>"

lemma waited_simps [simp]: "pe_ret (waited a) = pe_ret a" "pe_timeout (waited a) = pe_timeout a" "pe_fds (waited a) = map waited_fd (pe_fds a)"
  by (simp_all add: waited_def)

lemma waited_unanswered: "pe_ret a = 0 \<Longrightarrow> unanswered (waited a)"
  by (simp add: unanswered_def list_all_iff)

lemma poll_join_exact:
  assumes "poll_inv s" and "t \<noteq> NO_TASK" and "map_find (po_polls s) t = None" and "list_all ok_fd (pe_fds args)"
  obtains polls fds m s' where "tidmap_register zero_poll_event (po_polls s) t = Inr polls" and "wait_fds t (pe_fds args) (po_fds s) = Inr (fds, m)"
    and "s' = s\<lparr>po_polls := map_write polls t (args\<lparr>pe_fds := fds\<rparr>), po_fds := m\<rparr>" and "poll_inv s'"
    and "map_find (po_polls s') = (map_find (po_polls s))(t \<mapsto> waited args)"
    and "\<And>fd. 0 \<le> fd \<Longrightarrow> fd < 2 ^ 31 - 1 \<Longrightarrow> fd_waiters (po_fds s') fd = (if fd \<in> pf_fd ` set (pe_fds args) then {t} else fd_waiters (po_fds s) fd)"
proof -
  let ?f = "map_find (po_polls s)" and ?a = "waited args"
  have inv: "map_inv (po_polls s)" and ok: "fds_ok (all_requests ?f) (pollers ?f) (po_fds s)" using assms(1) by (simp_all add: poll_inv_def)
  obtain m0 where m0: "map_register zero_poll_event (po_polls s) t = Inr m0" "map_inv m0" "map_find m0 = ?f(t \<mapsto> zero_poll_event)"
    using km.register_absent [OF inv assms(3)] by blast
  obtain m where m: "wait_fds t (pe_fds args) (po_fds s) = Inr (map waited_fd (pe_fds args), m)"
      "fds_ok (\<lambda>k. all_requests ?f k + requests k (pe_fds args)) (\<lambda>k. if 0 < requests k (pe_fds args) then insert t (pollers ?f k) else pollers ?f k) m"
      "\<forall>fd. 0 \<le> fd \<longrightarrow> fd < 2 ^ 31 - 1 \<longrightarrow> fd_waiters m fd = (if fd \<in> pf_fd ` set (pe_fds args) then {t} else fd_waiters (po_fds s) fd)"
    using wait_fds_ok [OF ok assms(4)] by blast
  let ?s = "s\<lparr>po_polls := map_write m0 t ?a, po_fds := m\<rparr>"
  have fm: "map_find (map_write m0 t ?a) = ?f(t \<mapsto> ?a)" using m0(3) by (simp add: map_find_write)
  have rq: "requests k (pe_fds ?a) = requests k (pe_fds args)" for k by (simp add: requests_def filter_map comp_def)
  have "all_requests (?f(t \<mapsto> ?a)) = (\<lambda>k. all_requests ?f k + requests k (pe_fds args))"
    using all_requests_insert [OF finite_map_find assms(3), of ?a] rq by (simp add: fun_eq_iff)
  moreover have "pollers (?f(t \<mapsto> ?a)) = (\<lambda>k. if 0 < requests k (pe_fds args) then insert t (pollers ?f k) else pollers ?f k)"
    using pollers_insert [of ?f t ?a, OF assms(3)] rq by simp
  ultimately have "fds_ok (all_requests (?f(t \<mapsto> ?a))) (pollers (?f(t \<mapsto> ?a))) m" using m(2) by simp
  moreover have "list_all waited_ok (pe_fds ?a)" using assms(4) by (auto simp: list_all_iff waited_ok_def ok_fd_def)
  ultimately have "poll_inv ?s" using assms(1,2) m0(2) fm by (auto simp: poll_inv_def)
  moreover have "tidmap_register zero_poll_event (po_polls s) t = Inr m0" using assms(2) m0(1) by (simp add: tidmap_register_def)
  ultimately show thesis using that [OF _ m(1), of m0 ?s] fm m(3) by (simp add: waited_def)
qed

lemma poll_join_inv:
  assumes "poll_inv s" and "t \<noteq> NO_TASK" and "map_find (po_polls s) t = None" and "list_all ok_fd (pe_fds args)"
  obtains s' where "poll_join t args s = Inr s'" and "poll_inv s'" and "map_find (po_polls s') = (map_find (po_polls s))(t \<mapsto> waited args)"
proof -
  obtain polls fds m s' where s': "tidmap_register zero_poll_event (po_polls s) t = Inr polls" "wait_fds t (pe_fds args) (po_fds s) = Inr (fds, m)"
      "s' = s\<lparr>po_polls := map_write polls t (args\<lparr>pe_fds := fds\<rparr>), po_fds := m\<rparr>" "poll_inv s'"
      "map_find (po_polls s') = (map_find (po_polls s))(t \<mapsto> waited args)"
    by (rule poll_join_exact [OF assms]) (rule that)
  have "poll_join t args s = Inr s'" unfolding poll_join_def using s'(1-3) by simp
  then show thesis using s'(4,5) by (rule that)
qed

section \<open>Ending waits\<close>

text \<open>Between two events no waiting task has an answer, and every one has a reason to wait. Nothing sets the flag \<^verbatim>\<open>should_cleanup\<close>.\<close>

definition poll_idle :: "polls \<Rightarrow> bool" where
  "poll_idle s \<longleftrightarrow> poll_inv s \<and> \<not> po_should_cleanup s \<and> (\<forall>t a. map_find (po_polls s) t = Some a \<longrightarrow> unanswered a \<and> poll_waits_on a)"

lemma cleanup_drop_exact:
  assumes "poll_inv s" and "map_find (po_polls s) t = Some a"
  shows "if negative_fds (pe_fds a) then cleanup_poll t a s = Inl AssertFailed
    else \<exists>s1 s'. cleanup_poll t a s = Inr s1 \<and> poll_drop t a s1 = Inr s' \<and> poll_inv s' \<and>
      map_find (po_polls s') = (map_find (po_polls s))(t := None) \<and> po_done s' = (po_done s)(t \<mapsto> a) \<and>
      po_should_cleanup s' = po_should_cleanup s"
proof -
  let ?f = "map_find (po_polls s)"
  have inv: "map_inv (po_polls s)" "?f NO_TASK = None" "fds_ok (all_requests ?f) (pollers ?f) (po_fds s)" "list_all waited_ok (pe_fds a)"
    using assms by (auto simp: poll_inv_def)
  have tot: "all_requests ?f k = requests k (pe_fds a) + all_requests (?f(t := None)) k" for k
    by (rule all_requests_remove [OF finite_map_find assms(2)])
  note ex = cleanup_poll_fds_ok [OF inv(3,4), of t]
  show ?thesis
  proof (cases "negative_fds (pe_fds a)")
    case True
    with ex tot show ?thesis by (simp add: cleanup_poll_def)
  next
    case False
    then obtain m where m: "cleanup_poll_fds t (pe_fds a) (po_fds s) = Inr m"
        "fds_ok (\<lambda>k. all_requests ?f k - requests k (pe_fds a)) (\<lambda>k. if 0 < requests k (pe_fds a) then pollers ?f k - {t} else pollers ?f k) m"
      using ex tot by auto
    have "(\<lambda>k. all_requests ?f k - requests k (pe_fds a)) = all_requests (?f(t := None))" using tot by (simp add: fun_eq_iff)
    then have ok: "fds_ok (all_requests (?f(t := None))) (pollers (?f(t := None))) m"
      using m(2) pollers_remove [of ?f t a, OF assms(2)] by simp
    have t: "t \<noteq> NO_TASK" using assms(2) inv(2) by auto
    have find: "map_find (map_deregister (po_polls s) t) = ?f(t := None)" by (rule map_find_deregister [OF inv(1)])
    let ?s = "s\<lparr>po_fds := m, po_polls := map_deregister (po_polls s) t, po_done := (po_done s)(t \<mapsto> a)\<rparr>"
    have "poll_drop t a (s\<lparr>po_fds := m\<rparr>) = Inr ?s" using t by (simp add: poll_drop_def tidmap_deregister_def)
    moreover have "poll_inv ?s" using assms(1) ok inv(2) by (auto simp: poll_inv_def find map_inv_deregister)
    moreover have "cleanup_poll t a s = Inr (s\<lparr>po_fds := m\<rparr>)" using m(1) by (simp add: cleanup_poll_def)
    ultimately show ?thesis using False find by auto
  qed
qed

lemma cleanup_fds_loop_ok:
  assumes "fds_ok R W m" and "\<And>k. R k < 2 ^ 64" and "\<And>k. R k = 0 \<Longrightarrow> W k = {}" and "distinct (map fst its)"
    and "\<forall>k d. (k, d) \<in> set its \<longrightarrow> map_find m k = Some d"
  shows "\<exists>m'. cleanup_fds_loop its m = Inr m' \<and> fds_ok R W m'"
  using assms
proof (induction its arbitrary: m)
  case (Cons it its)
  obtain k d where it: "it = (k, d)" by (cases it)
  have f: "map_find m k = Some d" using Cons.prems(5) it by simp
  have ok: "fd_ok (R k) (W k) d" "key_ok k" using fds_ok_Some [OF Cons.prems(1) f] by simp_all
  have dist: "distinct (map fst its)" "k \<notin> fst ` set its" using Cons.prems(4) it by simp_all
  show ?case
  proof (cases "list_all (\<lambda>c. c = 0) (pd_counts d)")
    case False
    have "\<exists>m'. cleanup_fds_loop its m = Inr m' \<and> fds_ok R W m'"
      by (rule Cons.IH [OF Cons.prems(1-3) dist(1)]) (use Cons.prems(5) in auto)
    with it False show ?thesis by simp
  next
    case True
    then have "pd_counts d ! 3 = 0" using ok(1) by (simp add: fd_ok_def list_all_length)
    then have "(of_nat (R k) :: 64 word) = 0" using ok(1) by (simp add: fd_ok_def)
    then have "R k = 0" using unat_of_nat64 [OF Cons.prems(2) [of k]] by simp
    then have sz: "tidset_size (pd_waiters d) = 0" using ok(1) Cons.prems(3) by (simp add: fd_ok_def tidset_size_card)
    have k: "k \<noteq> NO_TASK" using ok(2) fd_key_not_none by (auto simp: key_ok_def)
    have inv: "map_inv m" using Cons.prems(1) by (simp add: fds_ok_def)
    let ?m = "map_deregister m k"
    have find: "map_find ?m = (map_find m)(k := None)" by (rule map_find_deregister [OF inv])
    have "fds_ok R W ?m"
      by (rule fds_okI)
        (use \<open>R k = 0\<close> inv find fds_ok_None [OF Cons.prems(1)] fds_ok_Some [OF Cons.prems(1)] in \<open>auto simp: map_inv_deregister split: if_splits\<close>)
    moreover have "\<forall>j x. (j, x) \<in> set its \<longrightarrow> map_find ?m j = Some x" using Cons.prems(5) dist(2) find by force
    ultimately obtain m' where "cleanup_fds_loop its ?m = Inr m'" "fds_ok R W m'"
      using Cons.IH [OF _ Cons.prems(2,3) dist(1)] by blast
    with it True sz k show ?thesis by (simp add: tidmap_deregister_def)
  qed
qed simp

lemma all_requests_mono:
  assumes "finite (dom f)" and "\<And>t. g t = None \<or> g t = f t"
  shows "all_requests g k \<le> all_requests f k"
proof -
  have eq: "g t = f t" if "t \<in> dom g" for t using assms(2) [of t] that by auto
  then have sub: "dom g \<subseteq> dom f" by (simp add: domIff subset_iff)
  have "all_requests g k = (\<Sum>t\<in>dom g. requests k (pe_fds (the (f t))))"
    unfolding all_requests_def by (rule sum.cong [OF refl]) (simp add: eq)
  also have "\<dots> \<le> all_requests f k" unfolding all_requests_def by (rule sum_mono2 [OF assms(1) sub]) simp
  finally show ?thesis .
qed

lemma cleanup_fds_inv:
  assumes "poll_inv s" and "\<And>k. all_requests (map_find (po_polls s)) k < 2 ^ 64"
  shows "\<exists>m. cleanup_fds s = Inr (s\<lparr>po_fds := m\<rparr>) \<and> poll_inv (s\<lparr>po_fds := m\<rparr>)"
proof -
  let ?f = "map_find (po_polls s)"
  have ok: "fds_ok (all_requests ?f) (pollers ?f) (po_fds s)" using assms(1) by (simp add: poll_inv_def)
  then have inv: "map_inv (po_fds s)" by (simp add: fds_ok_def)
  obtain m where "cleanup_fds_loop (map_iterate (po_fds s)) (po_fds s) = Inr m" "fds_ok (all_requests ?f) (pollers ?f) m"
    using cleanup_fds_loop_ok [OF ok assms(2) all_requests_zero [OF finite_map_find], of "map_iterate (po_fds s)"] inv
    by (auto simp: map_iterate_find [OF inv]) (auto simp: map_inv_def map_iterate_def)
  with assms(1) show ?thesis by (auto simp: cleanup_fds_def poll_inv_def)
qed


text \<open>Tables in which no array of a wait has a negative descriptor.\<close>

definition polls_ok :: "polls \<Rightarrow> bool" where
  "polls_ok s \<longleftrightarrow> poll_inv s \<and> (\<forall>t a. map_find (po_polls s) t = Some a \<longrightarrow> \<not> negative_fds (pe_fds a))"

lemma polls_ok_init: "polls_ok polls_init"
  using poll_inv_init by (simp add: polls_ok_def polls_init_def)

lemma poll_trigger_ok:
  assumes "polls_ok s" and "t \<noteq> NO_TASK"
  obtains s' where "poll_trigger t s = Inr s'" and "polls_ok s'" and "map_find (po_polls s') = (map_find (po_polls s))(t := None)"
proof (cases "map_find (po_polls s) t")
  case None
  with assms that show thesis by (simp add: poll_trigger_def tidmap_find_def fun_upd_idem)
next
  case (Some a)
  have inv: "poll_inv s" "\<not> negative_fds (pe_fds a)" using assms(1) Some by (auto simp: polls_ok_def)
  from cleanup_drop_exact [OF inv(1) Some] inv(2) obtain s1 s' where s': "cleanup_poll t a s = Inr s1" "poll_drop t a s1 = Inr s'"
      "poll_inv s'" "map_find (po_polls s') = (map_find (po_polls s))(t := None)" by auto
  then have "polls_ok s'" using assms(1) by (simp add: polls_ok_def)
  with s' Some assms(2) that show thesis by (simp add: poll_trigger_def tidmap_find_def)
qed

text \<open>
  Claim C24. The poll module's reaction to a timeout of task \<open>t\<close>. A task that does not wait in \<^verbatim>\<open>poll\<close> changes nothing. The wait of a
  task ends without touching the other waits, and the task finds its array as the wait has left it; but if the array has a negative descriptor, which \<^verbatim>\<open>poll\<close>
  allows and \<^verbatim>\<open>_wait\<close> skips, the assertion of \<^verbatim>\<open>_cleanup_poll\<close> fails, since it looks the descriptor up.
\<close>

theorem poll_trigger_outcome:
  assumes "poll_inv s" and "t \<noteq> NO_TASK"
  shows "case map_find (po_polls s) t of
      None \<Rightarrow> poll_trigger t s = Inr s
    | Some a \<Rightarrow> if negative_fds (pe_fds a) then poll_trigger t s = Inl AssertFailed
        else \<exists>s'. poll_trigger t s = Inr s' \<and> poll_inv s' \<and> map_find (po_polls s') = (map_find (po_polls s))(t := None) \<and>
          po_done s' = (po_done s)(t \<mapsto> a)"
proof (cases "map_find (po_polls s) t")
  case None
  with assms(2) show ?thesis by (simp add: poll_trigger_def tidmap_find_def)
next
  case (Some a)
  then have "poll_trigger t s = bindr (cleanup_poll t a s) (poll_drop t a)" using assms(2) by (simp add: poll_trigger_def tidmap_find_def)
  with cleanup_drop_exact [OF assms(1) Some] Some show ?thesis by (auto split: if_splits)
qed


text \<open>Two tasks wait: the array of the first has the descriptors 5 and -7, that of the second has the descriptor 6.\<close>

definition sample_call :: "int list \<Rightarrow> poll_event" where
  "sample_call fds = \<lparr>pe_fds = map (\<lambda>fd. \<lparr>pf_fd = fd, pf_events = 1, pf_revents = 0\<rparr>) fds, pe_timeout = -1, pe_ret = 0\<rparr>"

definition sample_waits :: "polls result" where
  "sample_waits = bindr (poll_join 1 (sample_call [5, -7]) polls_init) (poll_join 2 (sample_call [6]))"

lemma sample_waits_inv:
  obtains s where "sample_waits = Inr s" and "poll_inv s"
    and "map_find (po_polls s) = [1 \<mapsto> waited (sample_call [5, -7]), 2 \<mapsto> waited (sample_call [6])]"
proof -
  obtain s1 where s1: "poll_join 1 (sample_call [5, -7]) polls_init = Inr s1" "poll_inv s1"
      "map_find (po_polls s1) = (map_find (po_polls polls_init))(1 \<mapsto> waited (sample_call [5, -7]))"
    by (rule poll_join_inv [OF poll_inv_init, of 1 "sample_call [5, -7]"]) (simp_all add: NO_TASK_def polls_init_def sample_call_def ok_fd_def that)
  obtain s2 where s2: "poll_join 2 (sample_call [6]) s1 = Inr s2" "poll_inv s2"
      "map_find (po_polls s2) = (map_find (po_polls s1))(2 \<mapsto> waited (sample_call [6]))"
    by (rule poll_join_inv [OF s1(2), of 2 "sample_call [6]"]) (simp_all add: NO_TASK_def s1(3) polls_init_def sample_call_def ok_fd_def that)
  have "sample_waits = Inr s2" using s1(1) s2(1) by (simp add: sample_waits_def)
  moreover have "map_find (po_polls s2) = [1 \<mapsto> waited (sample_call [5, -7]), 2 \<mapsto> waited (sample_call [6])]"
    using s1(3) s2(3) by (simp add: polls_init_def fun_eq_iff)
  ultimately show thesis using s2(2) that by blast
qed

theorem poll_trigger_outcome_witness:
  "\<exists>s. sample_waits = Inr s \<and> map_find (po_fds s) (fd_key 5) \<noteq> None \<and> poll_trigger 1 s = Inl AssertFailed \<and>
    (\<exists>s'. poll_trigger 2 s = Inr s' \<and> dom (map_find (po_polls s')) = {1}) \<and> poll_trigger 3 s = Inr s"
proof -
  obtain s where s: "sample_waits = Inr s" "poll_inv s"
      "map_find (po_polls s) = [1 \<mapsto> waited (sample_call [5, -7]), 2 \<mapsto> waited (sample_call [6])]" by (rule sample_waits_inv)
  have neg: "negative_fds (pe_fds (waited (sample_call [5, -7])))" "\<not> negative_fds (pe_fds (waited (sample_call [6])))"
    by (simp_all add: negative_fds_def sample_call_def)
  have "poll_trigger 1 s = Inl AssertFailed" using poll_trigger_outcome [OF s(2), of 1] neg s(3) by (simp add: NO_TASK_def)
  moreover obtain s' where "poll_trigger 2 s = Inr s'" "map_find (po_polls s') = (map_find (po_polls s))(2 := None)"
    using poll_trigger_outcome [OF s(2), of 2] neg s(3) by (auto simp: NO_TASK_def)
  moreover from this(2) have "dom (map_find (po_polls s')) = {1}" using s(3) by (auto simp: dom_def)
  moreover have "poll_trigger 3 s = Inr s" using poll_trigger_outcome [OF s(2), of 3] s(3) by (simp add: NO_TASK_def)
  moreover have "map_find (po_fds s) (fd_key 5) \<noteq> None"
  proof
    assume "map_find (po_fds s) (fd_key 5) = None"
    then have "all_requests (map_find (po_polls s)) (fd_key 5) = 0" using s(2) fds_ok_None by (auto simp: poll_inv_def)
    then have none: "pollers (map_find (po_polls s)) (fd_key 5) = {}" by (intro all_requests_zero finite_map_find)
    have "1 \<in> pollers (map_find (po_polls s)) (fd_key 5)" unfolding pollers_def s(3) by (simp add: sample_call_def)
    with none show False by simp
  qed
  ultimately show ?thesis using s(1) by blast
qed

end
