(* ===== verification/Timed.thy ===== *)
theory Timed
  imports Clock Poll_Table
begin

text \<open>
  Waiting with and without a deadline: the timeout, sleep and evec modules (\<^verbatim>\<open>modules/timeout/src/handler.c\<close>,
  \<^verbatim>\<open>modules/sleep/src/handler.c\<close>, \<^verbatim>\<open>modules/evec/src/handler.c\<close>). An event counter (evec) is the queue behind a
  condition variable: a task prepares, releases its mutex, waits, and is taken out of the queue by a wake or
  by its deadline. The timeout module keeps the deadlines of all tasks and publishes the ones that have passed; when
  no task can run it lets the clock leap to the earliest deadline. The poll module reacts to a timeout too; its tables are in \<^verbatim>\<open>Poll_Table\<close>.

  The modules call each other, so their variables are one record. A deadline holds a pointer to the status of
  the waiting task; the memory these pointers lead to is \<open>td_mem\<close>.
\<close>

section \<open>Data\<close>

datatype timed_wait_status = TIMED_WAIT_OK | TIMED_WAIT_TIMEOUT | TIMED_WAIT_INVALID

record deadline =
  dd_deadline :: timespec
  dd_ret :: "64 word"

record evec =
  ev_waiters :: tidset
  ev_deadlines :: "deadline map_t"

datatype sleep_mode = SLEEP_MODE_ONCE | SLEEP_MODE_UNTIL

record sleep_config =
  sc_enabled :: bool
  sc_mode :: sleep_mode

record timed =
  td_clock :: clock_state
  td_timeouts :: "timespec map_t"
  td_evecs :: "evec map_t"
  td_waiters :: tidset
  td_now :: timespec
  td_received :: bool
  td_sleepers :: tidset
  td_mem :: "64 word \<Rightarrow> timed_wait_status"
  td_seed :: "32 word"
  td_poll :: polls

text \<open>
  The events of the evec module with their payloads: addresses, the pointer \<^verbatim>\<open>abstime\<close>, of which only the null
  pointer matters, the address of the status, and the number of tasks to wake.
\<close>

datatype evec_event =
    EvPrepare "64 word"
  | EvWait "64 word"
  | EvTimedWait "64 word" bool "64 word"
  | EvCancel "64 word"
  | EvWake "64 word" "32 word"
  | EvMove "64 word" "64 word"
  | EvNone

definition EVENT_SLEEP_YIELD :: type_id where "EVENT_SLEEP_YIELD = 162"

definition SLEEP_DIVISOR :: "64 word" where "SLEEP_DIVISOR = 10"

definition INT32_MAX :: int where "INT32_MAX = 2147483647"

definition zero_timespec :: timespec where
  "zero_timespec = \<lparr>tv_sec = 0, tv_nsec = 0\<rparr>"

definition zero_deadline :: deadline where
  "zero_deadline = \<lparr>dd_deadline = zero_timespec, dd_ret = 0\<rparr>"

definition zero_evec :: evec where
  "zero_evec = \<lparr>ev_waiters = zero_tidset, ev_deadlines = map_init\<rparr>"

definition timed_init :: "clock_state \<Rightarrow> (64 word \<Rightarrow> timed_wait_status) \<Rightarrow> 32 word \<Rightarrow> timed" where
  "timed_init c mem seed = \<lparr>td_clock = c, td_timeouts = map_init, td_evecs = map_init, td_waiters = tidset_init,
     td_now = zero_timespec, td_received = False, td_sleepers = tidset_init, td_mem = mem, td_seed = seed,
     td_poll = polls_init\<rparr>"

section \<open>The interface of the timeout module\<close>

definition handler_timeout_register :: "task_id \<Rightarrow> timespec \<Rightarrow> timed \<Rightarrow> timed result" where
  "handler_timeout_register t deadline s =
     bindr (tidmap_find_or_register zero_timespec (td_timeouts s) t None) (\<lambda>(_, m).
       Inr (s\<lparr>td_timeouts := map_write m t deadline\<rparr>))"

definition handler_timeout_deregister :: "task_id \<Rightarrow> timed \<Rightarrow> timed result" where
  "handler_timeout_deregister t s =
     bindr (tidmap_deregister (td_timeouts s) t) (\<lambda>m. Inr (s\<lparr>td_timeouts := m\<rparr>))"

section \<open>evec\<close>

definition evec_find :: "timed \<Rightarrow> 64 word \<Rightarrow> evec option" where
  "evec_find s eid = map_find (td_evecs s) eid"

definition evec_store :: "64 word \<Rightarrow> evec \<Rightarrow> timed \<Rightarrow> timed" where
  "evec_store eid e s = s\<lparr>td_evecs := map_write (td_evecs s) eid e\<rparr>"

text \<open>Reading through a pointer to an evec.\<close>

definition evec_at :: "64 word \<Rightarrow> timed \<Rightarrow> (evec \<times> timed) result" where
  "evec_at eid s = (case evec_find s eid of None \<Rightarrow> Inl Fault | Some e \<Rightarrow> Inr (e, s))"

definition evec_init :: "64 word \<Rightarrow> timed \<Rightarrow> (evec \<times> timed) result" where
  "evec_init eid s =
     (case evec_find s eid of
        Some e \<Rightarrow> Inr (e, s)
      | None \<Rightarrow> bindr (map_register zero_evec (td_evecs s) eid) (\<lambda>m.
          let e = \<lparr>ev_waiters = tidset_init, ev_deadlines = map_init\<rparr> in
          Inr (e, evec_store eid e (s\<lparr>td_evecs := m\<rparr>))))"

definition evec_deinit :: "64 word \<Rightarrow> timed \<Rightarrow> timed" where
  "evec_deinit eid s = s\<lparr>td_evecs := map_deregister (td_evecs s) eid\<rparr>"

definition posthandle_prepare :: "task_id \<Rightarrow> 64 word \<Rightarrow> timed \<Rightarrow> timed result" where
  "posthandle_prepare t eid s =
     bindr (tidset_has (td_waiters s) t) (\<lambda>w. assertr (\<not> w)
       (bindr (evec_init eid s) (\<lambda>(e, s).
        bindr (tidset_insert (ev_waiters e) t) (\<lambda>(_, ws).
          Inr (evec_store eid (e\<lparr>ev_waiters := ws\<rparr>) s)))))"

definition posthandle_cancel :: "task_id \<Rightarrow> 64 word \<Rightarrow> timed \<Rightarrow> timed result" where
  "posthandle_cancel t eid s =
     (case evec_find s eid of
        None \<Rightarrow> Inr s
      | Some e \<Rightarrow>
          bindr (tidset_has (td_waiters s) t) (\<lambda>w. assertr (\<not> w)
            (bindr (tidset_remove (ev_waiters e) t) (\<lambda>(_, ws).
              Inr (evec_store eid (e\<lparr>ev_waiters := ws\<rparr>) s)))))"

definition handle_wait :: "task_id \<Rightarrow> 64 word \<Rightarrow> timed \<Rightarrow> timed result" where
  "handle_wait t eid s =
     (case evec_find s eid of
        None \<Rightarrow> Inr s
      | Some e \<Rightarrow>
          bindr (tidset_has (td_waiters s) t) (\<lambda>w. assertr (\<not> w)
            (bindr (tidset_has (ev_waiters e) t) (\<lambda>h.
               if \<not> h then Inr s
               else bindr (tidset_insert (td_waiters s) t) (\<lambda>(_, ws). Inr (s\<lparr>td_waiters := ws\<rparr>))))))"

text \<open>The deadline is 20 seconds from now, whatever \<^verbatim>\<open>abstime\<close> points to.\<close>

definition handle_timed_wait :: "task_id \<Rightarrow> 64 word \<Rightarrow> bool \<Rightarrow> 64 word \<Rightarrow> timed \<Rightarrow> timed result" where
  "handle_timed_wait t eid abstime ret s =
     (case evec_find s eid of
        None \<Rightarrow> Inr s
      | Some e \<Rightarrow>
          bindr (tidset_has (td_waiters s) t) (\<lambda>w. assertr (\<not> w)
            (bindr (tidset_has (ev_waiters e) t) (\<lambda>h.
               if \<not> h then Inr s
               else
                 bindr (map_register zero_deadline (ev_deadlines e) t) (\<lambda>ds.
                 assertr (ret \<noteq> 0)
                   (if \<not> abstime then
                      let s = evec_store eid (e\<lparr>ev_deadlines := map_deregister ds t\<rparr>)
                                (s\<lparr>td_mem := (td_mem s)(ret := TIMED_WAIT_INVALID)\<rparr>) in
                      handler_timeout_deregister t s
                    else
                      let d = (td_now s)\<lparr>tv_sec := tv_sec (td_now s) + 20\<rparr> in
                      bindr (tidset_insert (td_waiters s) t) (\<lambda>(_, ws).
                        handler_timeout_register t d
                          (evec_store eid (e\<lparr>ev_deadlines := map_write ds t \<lparr>dd_deadline = d, dd_ret = ret\<rparr>\<rparr>)
                             (s\<lparr>td_waiters := ws\<rparr>)))))))))"

text \<open>The loop of \<^verbatim>\<open>_posthandle_wake\<close>; \<open>e\<close> is the evec at \<open>eid\<close>, which nothing else writes to meanwhile.\<close>

function wake_loop :: "rand_r \<Rightarrow> nat \<Rightarrow> evec \<Rightarrow> timed \<Rightarrow> (evec \<times> timed) result" where
  "wake_loop rr cnt e s =
     (if cnt > 0 \<and> tidset_size (ev_waiters e) > 0 then
        bindr (prng_range rr (td_seed s) 0 (of_nat (tidset_size (ev_waiters e)))) (\<lambda>(v, seed).
        bindr (tidset_get (ev_waiters e) (unat v)) (\<lambda>w. assertr (w \<noteq> NO_TASK)
          (bindr (tidset_remove (ev_waiters e) w) (\<lambda>(_, ws).
           bindr (case map_find (ev_deadlines e) w of
                    None \<Rightarrow> Inr (ev_deadlines e, s\<lparr>td_seed := seed\<rparr>)
                  | Some d \<Rightarrow>
                      bindr (handler_timeout_deregister w
                               (s\<lparr>td_seed := seed, td_mem := (td_mem s)(dd_ret d := TIMED_WAIT_INVALID)\<rparr>)) (\<lambda>s.
                        Inr (map_deregister (ev_deadlines e) w, s))) (\<lambda>(ds, s).
           bindr (tidset_remove (td_waiters s) w) (\<lambda>(_, gs).
             wake_loop rr (cnt - 1) \<lparr>ev_waiters = ws, ev_deadlines = ds\<rparr> (s\<lparr>td_waiters := gs\<rparr>)))))))
      else Inr (e, s))"
  by pat_completeness auto
termination
  by (relation "measure (\<lambda>(rr, cnt, e, s). cnt)") auto

declare wake_loop.simps [simp del]

definition posthandle_wake :: "rand_r \<Rightarrow> 64 word \<Rightarrow> 32 word \<Rightarrow> timed \<Rightarrow> timed result" where
  "posthandle_wake rr eid cnt s =
     (case evec_find s eid of
        None \<Rightarrow> Inr s
      | Some e \<Rightarrow> bindr (wake_loop rr (unat cnt) e s) (\<lambda>(e, s). Inr (evec_store eid e s)))"

text \<open>The loop of \<^verbatim>\<open>_posthandle_move\<close> that moves the deadlines.\<close>

fun move_deadlines :: "(64 word \<times> deadline) list \<Rightarrow> deadline map_t \<Rightarrow> timed \<Rightarrow> (deadline map_t \<times> timed) result" where
  "move_deadlines [] ds s = Inr (ds, s)"
| "move_deadlines (it # its) ds s =
     bindr (map_register zero_deadline ds (fst it)) (\<lambda>ds.
     bindr (handler_timeout_register (fst it) (dd_deadline (snd it)) s) (\<lambda>s.
       move_deadlines its (map_write ds (fst it) (snd it)) s))"

definition posthandle_move :: "task_id \<Rightarrow> 64 word \<Rightarrow> 64 word \<Rightarrow> timed \<Rightarrow> timed result" where
  "posthandle_move t src dst s =
     bindr (tidset_has (td_waiters s) t) (\<lambda>w. assertr (\<not> w)
       (case evec_find s src of
          None \<Rightarrow> Inr s
        | Some esrc \<Rightarrow>
            if tidset_size (ev_waiters esrc) = 0 then Inr s
            else
              bindr (evec_init dst s) (\<lambda>(edst, s).
              bindr (tidset_union (ev_waiters edst) (ev_waiters esrc)) (\<lambda>ws.
              bindr (evec_at src (evec_store dst (edst\<lparr>ev_waiters := ws\<rparr>) s)) (\<lambda>(esrc, s).
              bindr (evec_at dst (evec_store src (esrc\<lparr>ev_waiters := tidset_clear (ev_waiters esrc)\<rparr>) s)) (\<lambda>(edst, s).
              bindr (tidset_has (ev_waiters edst) t) (\<lambda>h. assertr (\<not> h)
                (bindr (move_deadlines (map_iterate (ev_deadlines esrc)) (ev_deadlines edst) s) (\<lambda>(ds, s).
                   Inr (evec_deinit src (evec_store dst (edst\<lparr>ev_deadlines := ds\<rparr>) s)))))))))))"

definition deadline_met :: "timespec \<Rightarrow> 64 word \<times> deadline \<Rightarrow> bool" where
  "deadline_met now it \<longleftrightarrow> timespec_compare (dd_deadline (snd it)) now \<le> 0"

text \<open>The inner loop of \<^verbatim>\<open>_check_timeouts\<close> on the deadlines \<open>ds\<close> of one evec.\<close>

lemma chain_find_first_mem: "chain_find_first P c = Some it \<Longrightarrow> it \<in> set c \<and> P it"
  by (induction c) (auto split: if_splits)

lemma deregister_first:
  "map_find_first ds P = Some (k, d) \<Longrightarrow> length (map_chain (map_deregister ds k)) < length (map_chain ds)"
proof -
  assume f: "map_find_first ds P = Some (k, d)"
  then have "(k, d) \<in> set (map_chain ds)" using chain_find_first_mem [of P "map_chain ds" "(k, d)"] by (simp add: map_find_first_def)
  then have k: "k \<in> fst ` set (map_chain ds)" "map_chain ds \<noteq> []" by force+
  then have "map_find ds k \<noteq> None" by (simp add: map_find_None_iff)
  moreover have "length (chain_unlink (map_chain ds) k) < length (map_chain ds)"
    using k by (simp add: length_chain_unlink)
  ultimately show ?thesis by (auto simp: map_deregister_def)
qed

function expire_loop :: "bool \<Rightarrow> deadline map_t \<Rightarrow> bool \<Rightarrow> timed \<Rightarrow> (bool \<times> deadline map_t \<times> timed) result" where
  "expire_loop should_publish ds found s =
     (case map_find_first ds (deadline_met (td_now s)) of
        None \<Rightarrow> Inr (found, ds, s)
      | Some (t, d) \<Rightarrow>
          bindr (tidset_has (td_waiters s) t) (\<lambda>w. assertr w
            (bindr (tidset_remove (td_waiters s) t) (\<lambda>(_, ws).
             bindr (let s = s\<lparr>td_waiters := ws, td_mem := (td_mem s)(dd_ret d := TIMED_WAIT_TIMEOUT)\<rparr> in
                    if should_publish then handler_timeout_deregister t s else Inr s) (\<lambda>s.
               expire_loop should_publish (map_deregister ds t) True s)))))"
  by pat_completeness auto
termination
  by (relation "measure (\<lambda>(p, ds, f, s). length (map_chain ds))") (auto dest: deregister_first)

declare expire_loop.simps [simp del]

fun check_timeouts_loop :: "bool \<Rightarrow> 64 word list \<Rightarrow> bool \<Rightarrow> timed \<Rightarrow> (bool \<times> timed) result" where
  "check_timeouts_loop should_publish [] found s = Inr (found, s)"
| "check_timeouts_loop should_publish (eid # is) found s =
     (case evec_find s eid of
        None \<Rightarrow> Inl Fault
      | Some e \<Rightarrow> bindr (expire_loop should_publish (ev_deadlines e) found s) (\<lambda>(found, ds, s).
          check_timeouts_loop should_publish is found (evec_store eid (e\<lparr>ev_deadlines := ds\<rparr>) s)))"

definition check_timeouts :: "bool \<Rightarrow> timed \<Rightarrow> timed result" where
  "check_timeouts should_publish s =
     bindr (check_timeouts_loop should_publish (map fst (map_iterate (td_evecs s))) False s) (\<lambda>(found, s).
       assertr (should_publish \<or> found) (Inr s))"

text \<open>The subscriber to \<^verbatim>\<open>EVENT_TIMEOUT_TRIGGER\<close>.\<close>

definition evec_trigger :: "clock_fp \<Rightarrow> task_id \<Rightarrow> timed \<Rightarrow> timed result" where
  "evec_trigger fp t s =
     bindr (tidset_has (td_waiters s) t) (\<lambda>w.
       if td_received s \<or> \<not> w then Inr s
       else bindr (lotto_clock_time fp (td_clock s)) (\<lambda>now.
         check_timeouts False (s\<lparr>td_now := now, td_received := True\<rparr>)))"

definition evec_should_wait :: "timed \<Rightarrow> task_id \<Rightarrow> bool result" where
  "evec_should_wait s t = tidset_has (td_waiters s) t"

text \<open>The \<^verbatim>\<open>switch\<close> of \<^verbatim>\<open>_evec_handle\<close>; its first result is \<^verbatim>\<open>may_block\<close>.\<close>

definition evec_switch :: "task_id \<Rightarrow> evec_event \<Rightarrow> decision \<Rightarrow> timed \<Rightarrow> (bool \<times> decision \<times> timed) result" where
  "evec_switch t ev e s =
     (case ev of
        EvWait a \<Rightarrow> bindr (handle_wait t a s) (\<lambda>s. Inr (True, e\<lparr>e_is_chpt := True\<rparr>, s))
      | EvTimedWait a abstime ret \<Rightarrow>
          bindr (handle_timed_wait t a abstime ret s) (\<lambda>s. Inr (True, e\<lparr>e_is_chpt := True\<rparr>, s))
      | EvNone \<Rightarrow> Inr (False, e, s)
      | _ \<Rightarrow> Inr (False, e\<lparr>e_is_chpt := True\<rparr>, s))"

text \<open>\<open>ev\<close> decodes the payload of a capture point.\<close>

definition evec_handle :: "clock_fp \<Rightarrow> (capture_point \<Rightarrow> evec_event) \<Rightarrow> timed handler" where
  "evec_handle fp ev cp e s =
     assertr (cp_id cp \<noteq> NO_TASK)
       (bindr (lotto_clock_time fp (td_clock s)) (\<lambda>now.
        bindr (check_timeouts True (s\<lparr>td_now := now, td_received := False\<rparr>)) (\<lambda>s.
        bindr (evec_switch (cp_id cp) (ev cp) e s) (\<lambda>(may_block, e, s).
        bindr (tidset_subtract (e_tset e) (td_waiters s)) (\<lambda>ts.
          let e = e\<lparr>e_tset := ts\<rparr> in
          if may_block then assertr (e_any_task_filter e = None) (Inr (e\<lparr>e_any_task_filter := Some EVEC_SHOULD_WAIT\<rparr>, s))
          else Inr (e, s))))))"

definition evec_resume :: "rand_r \<Rightarrow> (capture_point \<Rightarrow> evec_event) \<Rightarrow> capture_point \<Rightarrow> timed \<Rightarrow> timed result" where
  "evec_resume rr ev cp s =
     assertr (cp_id cp \<noteq> NO_TASK)
       (case ev cp of
          EvPrepare a \<Rightarrow> posthandle_prepare (cp_id cp) a s
        | EvCancel a \<Rightarrow> posthandle_cancel (cp_id cp) a s
        | EvWake a cnt \<Rightarrow> posthandle_wake rr a cnt s
        | EvMove a b \<Rightarrow> posthandle_move (cp_id cp) a b s
        | _ \<Rightarrow> Inr s)"

definition lotto_dbg_evec_waiters :: "timed \<Rightarrow> tidset" where
  "lotto_dbg_evec_waiters s = td_waiters s"

definition lotto_dbg_evec_waiters_of :: "timed \<Rightarrow> 64 word \<Rightarrow> tidset option" where
  "lotto_dbg_evec_waiters_of s addr = map_option ev_waiters (map_find (td_evecs s) addr)"

section \<open>sleep\<close>

definition sleep_trigger :: "task_id \<Rightarrow> timed \<Rightarrow> timed result" where
  "sleep_trigger t s =
     bindr (tidset_has (td_sleepers s) t) (\<lambda>h.
       if h then bindr (tidset_remove (td_sleepers s) t) (\<lambda>(_, ws). Inr (s\<lparr>td_sleepers := ws\<rparr>)) else Inr s)"

definition sleep_should_wait :: "timed \<Rightarrow> task_id \<Rightarrow> bool result" where
  "sleep_should_wait s t = tidset_has (td_sleepers s) t"

definition deadline_from_duration :: "clock_fp \<Rightarrow> timespec \<Rightarrow> timed \<Rightarrow> timespec result" where
  "deadline_from_duration fp duration s =
     bindr (lotto_clock_time fp (td_clock s)) (\<lambda>deadline.
       let duration_ns = (of_int (tv_sec duration) * NSEC_IN_SEC + of_int (tv_nsec duration)) div SLEEP_DIVISOR;
           deadline_ns = of_int (tv_nsec deadline) + duration_ns in
       Inr \<lparr>tv_sec = tv_sec deadline + uint (deadline_ns div NSEC_IN_SEC), tv_nsec = uint (deadline_ns mod NSEC_IN_SEC)\<rparr>)"

definition is_zero_duration :: "timespec \<Rightarrow> bool" where
  "is_zero_duration duration \<longleftrightarrow> tv_sec duration = 0 \<and> tv_nsec duration = 0"

text \<open>\<open>duration\<close> reads the member of that name of the payload.\<close>

definition sleep_handle :: "clock_fp \<Rightarrow> sleep_config \<Rightarrow> (capture_point \<Rightarrow> timespec) \<Rightarrow> timed handler" where
  "sleep_handle fp cfg duration cp e s =
     (if e_skip e \<or> \<not> sc_enabled cfg \<or> cp_type_id cp \<noteq> EVENT_SLEEP_YIELD then Inr (e, s)
      else assertr (cp_id cp \<noteq> NO_TASK)
        (let e = (if \<not> e_readonly e \<and> \<not> e_is_chpt e then e\<lparr>e_reason := REASON_SYS_YIELD, e_is_chpt := True\<rparr> else e) in
         if sc_mode cfg \<noteq> SLEEP_MODE_UNTIL then Inr (e, s)
         else if is_zero_duration (duration cp) then Inr (e, s)
         else
           bindr (deadline_from_duration fp (duration cp) s) (\<lambda>d.
           bindr (handler_timeout_register (cp_id cp) d s) (\<lambda>s.
           bindr (tidset_insert (td_sleepers s) (cp_id cp)) (\<lambda>(_, ws).
           bindr (tidset_remove (e_tset e) (cp_id cp)) (\<lambda>(_, ts).
             assertr (e_any_task_filter e = None)
               (Inr (e\<lparr>e_tset := ts, e_any_task_filter := Some SLEEP_SHOULD_WAIT\<rparr>, s\<lparr>td_sleepers := ws\<rparr>))))))))"

section \<open>timeout\<close>

text \<open>The event reaches the modules evec, sleep and poll; their subscribers write to different variables.\<close>

definition trigger_timeout :: "clock_fp \<Rightarrow> tidset \<Rightarrow> task_id \<Rightarrow> timed \<Rightarrow> (tidset \<times> timed) result" where
  "trigger_timeout fp tset t s =
     bindr (evec_trigger fp t s) (\<lambda>s.
     bindr (sleep_trigger t s) (\<lambda>s.
     bindr (poll_trigger t (td_poll s)) (\<lambda>p.
     bindr (tidset_insert tset t) (\<lambda>(_, tset). Inr (tset, s\<lparr>td_poll := p\<rparr>)))))"

text \<open>The subscribers leave the map of deadlines alone, so the keys to visit are fixed when the loop starts.\<close>

fun check_deadlines_loop :: "clock_fp \<Rightarrow> timespec \<Rightarrow> task_id list \<Rightarrow> tidset \<Rightarrow> timed \<Rightarrow> (tidset \<times> timed) result" where
  "check_deadlines_loop fp now [] tset s = Inr (tset, s)"
| "check_deadlines_loop fp now (t # ts) tset s =
     (case map_find (td_timeouts s) t of
        None \<Rightarrow> Inl Fault
      | Some deadline \<Rightarrow>
          if timespec_compare deadline now > 0 then check_deadlines_loop fp now ts tset s
          else bindr (trigger_timeout fp tset t s) (\<lambda>(tset, s).
               bindr (handler_timeout_deregister t s) (\<lambda>s. check_deadlines_loop fp now ts tset s)))"

definition check_deadlines :: "clock_fp \<Rightarrow> tidset \<Rightarrow> timed \<Rightarrow> (tidset \<times> timed) result" where
  "check_deadlines fp tset s =
     bindr (lotto_clock_time fp (td_clock s)) (\<lambda>now.
       check_deadlines_loop fp now (map fst (map_iterate (td_timeouts s))) tset s)"

text \<open>The loop of \<^verbatim>\<open>_time_leap\<close> that looks for the earliest deadline.\<close>

fun min_deadline_loop :: "(64 word \<times> timespec) list \<Rightarrow> 64 word \<times> timespec \<Rightarrow> bool \<Rightarrow> (64 word \<times> timespec) \<times> bool" where
  "min_deadline_loop [] mn multiple = (mn, multiple)"
| "min_deadline_loop (it # its) mn multiple =
     (let cmp = timespec_compare (snd it) (snd mn) in
      if cmp > 0 then min_deadline_loop its mn multiple
      else min_deadline_loop its it (fst mn \<noteq> NO_TASK \<and> cmp = 0))"

definition time_leap :: "clock_fp \<Rightarrow> tidset \<Rightarrow> timed \<Rightarrow> (tidset \<times> timed) result option" where
  "time_leap fp tset s =
     (case min_deadline_loop (map_iterate (td_timeouts s)) (NO_TASK, zero_timespec\<lparr>tv_sec := INT32_MAX\<rparr>) False of
        ((t, deadline), multiple) \<Rightarrow>
          if t = NO_TASK then Some (Inl AssertFailed)
          else map_option (\<lambda>r. bindr r (\<lambda>c.
            let s = s\<lparr>td_clock := c\<rparr> in
            if multiple then check_deadlines fp tset s
            else bindr (trigger_timeout fp tset t s) (\<lambda>(tset, s).
                 bindr (handler_timeout_deregister t s) (\<lambda>s. Inr (tset, s)))))
            (lotto_clock_leap fp deadline (td_clock s)))"

definition timeout_handle :: "clock_fp \<Rightarrow> capture_point \<Rightarrow> decision \<Rightarrow> timed \<Rightarrow> (decision \<times> timed) result option" where
  "timeout_handle fp cp e s =
     (if map_size (td_timeouts s) = 0 then Some (Inr (e, s))
      else case check_deadlines fp (e_tset e) s of
        Inl err \<Rightarrow> Some (Inl err)
      | Inr (ts, s) \<Rightarrow>
          if tidset_size ts > 0 then Some (Inr (e\<lparr>e_tset := ts\<rparr>, s))
          else map_option (\<lambda>r. bindr r (\<lambda>(ts, s). Inr (e\<lparr>e_tset := ts\<rparr>, s))) (time_leap fp ts s))"

section \<open>Well formed states\<close>

definition evec_ok :: "evec \<Rightarrow> bool" where
  "evec_ok e \<longleftrightarrow> tidset_inv (ev_waiters e) \<and> NO_TASK \<notin> tids (ev_waiters e) \<and> map_inv (ev_deadlines e) \<and>
     map_find (ev_deadlines e) NO_TASK = None"

definition timed_ok :: "timed \<Rightarrow> bool" where
  "timed_ok s \<longleftrightarrow> map_inv (td_timeouts s) \<and> map_find (td_timeouts s) NO_TASK = None \<and> map_inv (td_evecs s) \<and>
     (\<forall>k e. evec_find s k = Some e \<longrightarrow> evec_ok e) \<and> tidset_inv (td_waiters s) \<and> tidset_inv (td_sleepers s)"

definition evec_dl :: "timed \<Rightarrow> 64 word \<Rightarrow> task_id \<Rightarrow> deadline option" where
  "evec_dl s k = (case evec_find s k of None \<Rightarrow> (\<lambda>_. None) | Some e \<Rightarrow> map_find (ev_deadlines e))"

abbreviation evec_ws :: "timed \<Rightarrow> 64 word \<Rightarrow> tidset option" where
  "evec_ws s k \<equiv> map_option ev_waiters (evec_find s k)"

text \<open>A task with a deadline waits, and it has one deadline only.\<close>

definition waits_ok :: "timed \<Rightarrow> bool" where
  "waits_ok s \<longleftrightarrow> (\<forall>k t. evec_dl s k t \<noteq> None \<longrightarrow> t \<in> tids (td_waiters s)) \<and>
     (\<forall>k k' t. evec_dl s k t \<noteq> None \<longrightarrow> evec_dl s k' t \<noteq> None \<longrightarrow> k = k')"

text \<open>The tasks whose deadline has passed and the addresses of their statuses.\<close>

definition expired :: "timespec \<Rightarrow> (64 word \<Rightarrow> deadline option) \<Rightarrow> task_id set" where
  "expired now f = {t. \<exists>d. f t = Some d \<and> timespec_compare (dd_deadline d) now \<le> 0}"

definition expired_rets :: "timespec \<Rightarrow> (64 word \<Rightarrow> deadline option) \<Rightarrow> 64 word set" where
  "expired_rets now f = {a. \<exists>t d. f t = Some d \<and> timespec_compare (dd_deadline d) now \<le> 0 \<and> dd_ret d = a}"

text \<open>The tasks \<open>M\<close> stop waiting and the statuses at \<open>R\<close> are set; with \<open>pub\<close> their timeouts go as well.\<close>

definition let_go :: "bool \<Rightarrow> task_id set \<Rightarrow> 64 word set \<Rightarrow> timed \<Rightarrow> timed \<Rightarrow> bool" where
  "let_go pub M R s s' \<longleftrightarrow>
     td_clock s' = td_clock s \<and> td_now s' = td_now s \<and> td_received s' = td_received s \<and> td_sleepers s' = td_sleepers s \<and>
     td_seed s' = td_seed s \<and> td_poll s' = td_poll s \<and>
     tidset_inv (td_waiters s') \<and> tids (td_waiters s') = tids (td_waiters s) - M \<and>
     td_mem s' = (\<lambda>a. if a \<in> R then TIMED_WAIT_TIMEOUT else td_mem s a) \<and>
     map_inv (td_timeouts s') \<and> map_find (td_timeouts s') = (\<lambda>t. if pub \<and> t \<in> M then None else map_find (td_timeouts s) t)"

lemma let_go_refl: "tidset_inv (td_waiters s) \<Longrightarrow> map_inv (td_timeouts s) \<Longrightarrow> let_go pub {} {} s s"
  by (simp add: let_go_def)

lemma let_go_trans:
  "let_go pub M R s s1 \<Longrightarrow> let_go pub M' R' s1 s2 \<Longrightarrow> let_go pub (M \<union> M') (R \<union> R') s s2"
  by (auto simp: let_go_def fun_eq_iff)

lemma let_go_store: "let_go pub M R s s' \<Longrightarrow> let_go pub M R s (evec_store k e s')"
  unfolding let_go_def evec_store_def by simp

lemma timeout_deregister_ok:
  "t \<noteq> NO_TASK \<Longrightarrow> handler_timeout_deregister t s = Inr (s\<lparr>td_timeouts := map_deregister (td_timeouts s) t\<rparr>)"
  by (simp add: handler_timeout_deregister_def tidmap_deregister_def)

lemma find_first_None: "map_find_first ds P = None \<longleftrightarrow> (\<forall>it\<in>set (map_chain ds). \<not> P it)"
proof -
  have "chain_find_first P c = None \<longleftrightarrow> (\<forall>it\<in>set c. \<not> P it)" for c by (induction c) auto
  then show ?thesis by (simp add: map_find_first_def)
qed

lemma find_first_Some: "map_inv ds \<Longrightarrow> map_find_first ds P = Some (t, d) \<Longrightarrow> map_find ds t = Some d \<and> P (t, d)"
  using chain_find_first_mem [of P "map_chain ds" "(t, d)"] map_iterate_find [of ds t d]
  by (simp add: map_find_first_def map_iterate_def)

section \<open>Deadlines of an evec\<close>

text \<open>The inner loop releases exactly the tasks whose deadline has passed.\<close>

lemma expire_loop_spec:
  assumes "map_inv ds" and "map_find ds NO_TASK = None" and "tidset_inv (td_waiters s)" and "map_inv (td_timeouts s)"
    and "\<forall>t. map_find ds t \<noteq> None \<longrightarrow> t \<in> tids (td_waiters s)"
  shows "\<exists>ds' s'. expire_loop pub ds found s = Inr (found \<or> expired (td_now s) (map_find ds) \<noteq> {}, ds', s') \<and>
    let_go pub (expired (td_now s) (map_find ds)) (expired_rets (td_now s) (map_find ds)) s s' \<and> td_evecs s' = td_evecs s \<and>
    map_inv ds' \<and> map_find ds' = (\<lambda>t. if t \<in> expired (td_now s) (map_find ds) then None else map_find ds t)"
  using assms
proof (induction pub ds found s rule: expire_loop.induct)
  case (1 pub ds found s)
  let ?now = "td_now s" and ?f = "map_find ds"
  show ?case
  proof (cases "map_find_first ds (deadline_met ?now)")
    case None
    then have "\<not> deadline_met ?now (t, d)" if "?f t = Some d" for t d
      using that "1.prems"(1) map_iterate_find [of ds t d] by (auto simp: find_first_None map_iterate_def)
    then have "expired ?now ?f = {}" "expired_rets ?now ?f = {}"
      by (auto simp: expired_def expired_rets_def deadline_met_def)
    with None "1.prems" show ?thesis
      by (simp add: expire_loop.simps [of pub ds found s] let_go_refl)
  next
    case (Some it)
    obtain t d where it: "it = (t, d)" by (cases it)
    then have f: "?f t = Some d" and met: "deadline_met ?now (t, d)" using Some find_first_Some [OF "1.prems"(1)] by auto
    then have t: "t \<noteq> NO_TASK" "t \<in> tids (td_waiters s)" using "1.prems"(2,5) by auto
    obtain ws where ws: "tidset_remove (td_waiters s) t = Inr (True, ws)" "tidset_inv ws" "tids ws = tids (td_waiters s) - {t}"
      using tidset_remove_inv [OF "1.prems"(3), of t] t(2) by auto
    define s1 where "s1 = s\<lparr>td_waiters := ws, td_mem := (td_mem s)(dd_ret d := TIMED_WAIT_TIMEOUT),
      td_timeouts := (if pub then map_deregister (td_timeouts s) t else td_timeouts s)\<rparr>"
    have pubs: "(let s = s\<lparr>td_waiters := ws, td_mem := (td_mem s)(dd_ret d := TIMED_WAIT_TIMEOUT)\<rparr> in
        if pub then handler_timeout_deregister t s else Inr s) = Inr s1"
      by (simp add: s1_def timeout_deregister_ok [OF t(1)])
    have has: "tidset_has (td_waiters s) t = Inr True" using tidset_has_inv [OF "1.prems"(3)] t(2) by simp
    have body: "expire_loop pub ds found s = expire_loop pub (map_deregister ds t) True s1"
      using Some it has ws(1) pubs by (simp add: expire_loop.simps [of pub ds found s])
    let ?ds = "map_deregister ds t"
    have f1: "map_find ?ds = ?f(t := None)" using map_find_deregister [OF "1.prems"(1)] by simp
    have now: "td_now s1 = ?now" by (simp add: s1_def)
    have rel: "let_go pub {t} {dd_ret d} s s1"
      using "1.prems"(4) ws(2,3) by (auto simp: let_go_def s1_def map_inv_deregister map_find_deregister fun_eq_iff)
    have e: "expired ?now ?f = insert t (expired ?now (map_find ?ds))" "expired_rets ?now ?f = insert (dd_ret d) (expired_rets ?now (map_find ?ds))"
      using f met unfolding f1
      by (auto simp: expired_def expired_rets_def deadline_met_def split: if_splits) (metis option.inject)+
    have "\<exists>ds' s'. expire_loop pub ?ds True s1 = Inr (True \<or> expired (td_now s1) (map_find ?ds) \<noteq> {}, ds', s') \<and>
        let_go pub (expired (td_now s1) (map_find ?ds)) (expired_rets (td_now s1) (map_find ?ds)) s1 s' \<and> td_evecs s' = td_evecs s1 \<and>
        map_inv ds' \<and> map_find ds' = (\<lambda>u. if u \<in> expired (td_now s1) (map_find ?ds) then None else map_find ?ds u)"
    proof (rule "1.IH" [OF Some it [symmetric] has TrueI ws(1) refl pubs])
      show "map_inv ?ds" using "1.prems"(1) by (rule map_inv_deregister)
      show "tidset_inv (td_waiters s1)" "map_inv (td_timeouts s1)" using ws(2) "1.prems"(4) by (auto simp: s1_def map_inv_deregister)
      show "map_find ?ds NO_TASK = None" using "1.prems"(2) by (simp add: f1)
      show "\<forall>u. map_find ?ds u \<noteq> None \<longrightarrow> u \<in> tids (td_waiters s1)" using "1.prems"(5) ws(3) by (auto simp: f1 s1_def)
    qed
    then obtain ds' s' where r: "expire_loop pub ?ds True s1 = Inr (True, ds', s')"
        "let_go pub (expired ?now (map_find ?ds)) (expired_rets ?now (map_find ?ds)) s1 s'" "td_evecs s' = td_evecs s1"
        "map_inv ds'" "map_find ds' = (\<lambda>u. if u \<in> expired ?now (map_find ?ds) then None else map_find ?ds u)"
      unfolding now by auto
    from let_go_trans [OF rel r(2)] have "let_go pub (expired ?now ?f) (expired_rets ?now ?f) s s'" unfolding e by simp
    moreover have "map_find ds' = (\<lambda>u. if u \<in> expired ?now ?f then None else ?f u)" by (auto simp: r(5) e f1 fun_eq_iff)
    ultimately show ?thesis using body r(1,3,4) e(1) by (simp add: s1_def)
  qed
qed

lemma evec_find_store:
  "evec_find s k = Some e0 \<Longrightarrow> evec_find (evec_store k e s) q = (if q = k then Some e else evec_find s q)"
  by (simp add: evec_find_def evec_store_def map_find_write)

lemma timed_ok_store:
  assumes "timed_ok s" and "evec_find s k = Some e0" and "evec_ok e"
  shows "timed_ok (evec_store k e s)"
proof -
  have "evec_ok e'" if "evec_find (evec_store k e s) q = Some e'" for q e'
    using that assms evec_find_store [OF assms(2)] by (auto simp: timed_ok_def split: if_splits)
  with assms(1) show ?thesis by (simp add: timed_ok_def evec_store_def)
qed

lemma expire_evec:
  assumes ok: "timed_ok s" and w: "waits_ok s" and e: "evec_find s k = Some e"
  defines "M \<equiv> expired (td_now s) (evec_dl s k)" and "R \<equiv> expired_rets (td_now s) (evec_dl s k)"
  obtains ds s1 s2 where "expire_loop pub (ev_deadlines e) found s = Inr (found \<or> M \<noteq> {}, ds, s1)"
    and "s2 = evec_store k (e\<lparr>ev_deadlines := ds\<rparr>) s1" and "let_go pub M R s s2" and "timed_ok s2" and "waits_ok s2"
    and "\<And>q. evec_dl s2 q = (\<lambda>t. if q = k \<and> t \<in> M then None else evec_dl s q t)" and "\<And>q. evec_ws s2 q = evec_ws s q"
proof -
  have dl: "evec_dl s k = map_find (ev_deadlines e)" by (simp add: evec_dl_def e)
  have eok: "evec_ok e" using ok e by (simp add: timed_ok_def)
  have "\<forall>t. map_find (ev_deadlines e) t \<noteq> None \<longrightarrow> t \<in> tids (td_waiters s)" using w dl by (metis waits_ok_def)
  then obtain ds s1 where x: "expire_loop pub (ev_deadlines e) found s = Inr (found \<or> M \<noteq> {}, ds, s1)" "let_go pub M R s s1"
      "td_evecs s1 = td_evecs s" "map_inv ds" "map_find ds = (\<lambda>t. if t \<in> M then None else map_find (ev_deadlines e) t)"
    using expire_loop_spec [of "ev_deadlines e" s pub found] eok ok unfolding M_def R_def dl by (auto simp: evec_ok_def timed_ok_def)
  define s2 where "s2 = evec_store k (e\<lparr>ev_deadlines := ds\<rparr>) s1"
  have f1: "evec_find s1 q = evec_find s q" for q by (simp add: evec_find_def x(3))
  have f2: "evec_find s2 q = (if q = k then Some (e\<lparr>ev_deadlines := ds\<rparr>) else evec_find s q)" for q
    unfolding s2_def using evec_find_store [of s1 k e] e by (simp add: f1)
  have rel: "let_go pub M R s s2" unfolding s2_def by (rule let_go_store [OF x(2)])
  have d2: "evec_dl s2 q = (\<lambda>t. if q = k \<and> t \<in> M then None else evec_dl s q t)" for q
    using x(5) by (auto simp: evec_dl_def f2 fun_eq_iff e)
  have "timed_ok s1" using ok x(2,3) by (auto simp: timed_ok_def let_go_def f1)
  moreover have "evec_ok (e\<lparr>ev_deadlines := ds\<rparr>)" using eok x(4,5) by (simp add: evec_ok_def)
  ultimately have ok2: "timed_ok s2" unfolding s2_def by (intro timed_ok_store) (auto simp: f1 e)
  have tw: "tids (td_waiters s2) = tids (td_waiters s) - M" using rel by (simp add: let_go_def)
  have M: "t \<in> M \<Longrightarrow> evec_dl s k t \<noteq> None" for t by (auto simp: M_def expired_def)
  have "waits_ok s2" unfolding waits_ok_def d2 tw using w M unfolding waits_ok_def by (metis DiffI)
  moreover have "evec_ws s2 q = evec_ws s q" for q by (simp add: f2 e)
  ultimately show thesis using that [OF x(1) s2_def rel ok2] d2 by blast
qed

lemma check_timeouts_loop_spec:
  assumes "timed_ok s" and "waits_ok s" and "distinct ks" and "\<forall>k\<in>set ks. evec_find s k \<noteq> None"
  defines "M \<equiv> \<Union>k\<in>set ks. expired (td_now s) (evec_dl s k)" and "R \<equiv> \<Union>k\<in>set ks. expired_rets (td_now s) (evec_dl s k)"
  shows "\<exists>s'. check_timeouts_loop pub ks found s = Inr (found \<or> M \<noteq> {}, s') \<and> let_go pub M R s s' \<and> timed_ok s' \<and> waits_ok s' \<and>
    (\<forall>q t. evec_dl s' q t = (if q \<in> set ks \<and> t \<in> M then None else evec_dl s q t)) \<and> (\<forall>q. evec_ws s' q = evec_ws s q)"
  using assms(1-4) unfolding M_def R_def
proof (induction ks arbitrary: found s)
  case Nil
  then show ?case by (simp add: let_go_refl timed_ok_def)
next
  case (Cons k ks)
  let ?E = "\<lambda>s k. expired (td_now s) (evec_dl s k)" and ?R = "\<lambda>s k. expired_rets (td_now s) (evec_dl s k)"
  obtain e where e: "evec_find s k = Some e" using Cons.prems(4) by auto
  obtain ds s1 s2 where x: "expire_loop pub (ev_deadlines e) found s = Inr (found \<or> ?E s k \<noteq> {}, ds, s1)"
      "s2 = evec_store k (e\<lparr>ev_deadlines := ds\<rparr>) s1" "let_go pub (?E s k) (?R s k) s s2" "timed_ok s2" "waits_ok s2"
      "\<And>q. evec_dl s2 q = (\<lambda>t. if q = k \<and> t \<in> ?E s k then None else evec_dl s q t)" "\<And>q. evec_ws s2 q = evec_ws s q"
    using expire_evec [OF Cons.prems(1,2) e] by blast
  have d: "distinct ks" "k \<notin> set ks" using Cons.prems(3) by auto
  have ex: "\<forall>q\<in>set ks. evec_find s2 q \<noteq> None" using Cons.prems(4) x(7) by (metis list.set_intros(2) map_option_is_None)
  have now: "td_now s2 = td_now s" using x(3) by (simp add: let_go_def)
  have E: "?E s2 q = ?E s q" "?R s2 q = ?R s q" if "q \<in> set ks" for q
    using that d(2) by (auto simp: now x(6) expired_def expired_rets_def)
  then have U: "(\<Union>q\<in>set ks. ?E s2 q) = (\<Union>q\<in>set ks. ?E s q)" "(\<Union>q\<in>set ks. ?R s2 q) = (\<Union>q\<in>set ks. ?R s q)" by auto
  have "\<exists>s'. check_timeouts_loop pub ks (found \<or> ?E s k \<noteq> {}) s2 = Inr ((found \<or> ?E s k \<noteq> {}) \<or> (\<Union>q\<in>set ks. ?E s2 q) \<noteq> {}, s') \<and>
      let_go pub (\<Union>q\<in>set ks. ?E s2 q) (\<Union>q\<in>set ks. ?R s2 q) s2 s' \<and> timed_ok s' \<and> waits_ok s' \<and>
      (\<forall>q t. evec_dl s' q t = (if q \<in> set ks \<and> t \<in> (\<Union>q\<in>set ks. ?E s2 q) then None else evec_dl s2 q t)) \<and>
      (\<forall>q. evec_ws s' q = evec_ws s2 q)" by (rule Cons.IH [OF x(4,5) d(1) ex])
  from this [unfolded U] obtain s' where s': "check_timeouts_loop pub ks (found \<or> ?E s k \<noteq> {}) s2 =
        Inr ((found \<or> ?E s k \<noteq> {}) \<or> (\<Union>q\<in>set ks. ?E s q) \<noteq> {}, s')"
      "let_go pub (\<Union>q\<in>set ks. ?E s q) (\<Union>q\<in>set ks. ?R s q) s2 s'" "timed_ok s'" "waits_ok s'"
      "\<forall>q t. evec_dl s' q t = (if q \<in> set ks \<and> t \<in> (\<Union>q\<in>set ks. ?E s q) then None else evec_dl s2 q t)"
      "\<forall>q. evec_ws s' q = evec_ws s2 q" by (elim exE conjE) (rule that)
  let ?M = "\<Union>q\<in>set (k # ks). ?E s q"
  have uniq: "q = q'" if "t \<in> ?E s q" "evec_dl s q' t \<noteq> None" for t q q'
  proof -
    have "evec_dl s q t \<noteq> None" using that(1) by (auto simp: expired_def)
    with that(2) Cons.prems(2) show ?thesis unfolding waits_ok_def by blast
  qed
  have dl: "evec_dl s' q t = (if q \<in> set (k # ks) \<and> t \<in> ?M then None else evec_dl s q t)" for q t
  proof (cases "evec_dl s q t")
    case None
    then show ?thesis by (simp add: s'(5) x(6))
  next
    case (Some dd)
    then have "t \<in> ?M \<longleftrightarrow> q \<in> set (k # ks) \<and> t \<in> ?E s q" using uniq [of t _ q] by auto
    moreover have "t \<in> (\<Union>q\<in>set ks. ?E s q) \<longleftrightarrow> q \<in> set ks \<and> t \<in> ?E s q" using uniq [of t _ q] Some by auto
    ultimately show ?thesis using d(2) by (auto simp: s'(5) x(6))
  qed
  have step: "check_timeouts_loop pub (k # ks) found s = check_timeouts_loop pub ks (found \<or> ?E s k \<noteq> {}) s2"
    using e x(1,2) by simp
  have "let_go pub (?E s k \<union> (\<Union>q\<in>set ks. ?E s q)) (?R s k \<union> (\<Union>q\<in>set ks. ?R s q)) s s'"
    by (rule let_go_trans [OF x(3) s'(2)])
  then show ?case unfolding step using s'(1,3,4,6) dl x(7) by auto
qed

text \<open>All tasks with a deadline that has passed, and the addresses of their statuses.\<close>

definition due :: "timed \<Rightarrow> task_id set" where
  "due s = (\<Union>k. expired (td_now s) (evec_dl s k))"

definition due_rets :: "timed \<Rightarrow> 64 word set" where
  "due_rets s = (\<Union>k. expired_rets (td_now s) (evec_dl s k))"

lemma check_timeouts_spec:
  assumes "timed_ok s" and "waits_ok s" and "pub \<or> due s \<noteq> {}"
  obtains s' where "check_timeouts pub s = Inr s'" and "let_go pub (due s) (due_rets s) s s'" and "timed_ok s'" and "waits_ok s'"
    and "\<forall>q t. evec_dl s' q t = (if t \<in> due s then None else evec_dl s q t)" and "\<forall>q. evec_ws s' q = evec_ws s q"
proof -
  let ?ks = "map fst (map_iterate (td_evecs s))"
  have inv: "map_inv (td_evecs s)" using assms(1) by (simp add: timed_ok_def)
  then have d: "distinct ?ks" by (simp add: map_inv_def map_iterate_def)
  have k: "k \<in> set ?ks \<longleftrightarrow> evec_find s k \<noteq> None" for k
    using map_find_None_iff [of "td_evecs s" k] by (auto simp: evec_find_def map_iterate_def)
  then have "\<forall>k\<in>set ?ks. evec_find s k \<noteq> None" by blast
  note spec = check_timeouts_loop_spec [OF assms(1,2) d this, of pub False]
  have none: "evec_dl s k = (\<lambda>_. None)" if "k \<notin> set ?ks" for k using that k by (auto simp: evec_dl_def)
  then have z: "expired (td_now s) (evec_dl s k) = {}" "expired_rets (td_now s) (evec_dl s k) = {}" if "k \<notin> set ?ks" for k
    using that by (simp_all add: expired_def expired_rets_def)
  have M: "(\<Union>k\<in>set ?ks. expired (td_now s) (evec_dl s k)) = due s"
    and R: "(\<Union>k\<in>set ?ks. expired_rets (td_now s) (evec_dl s k)) = due_rets s"
    unfolding due_def due_rets_def using z by blast+
  from spec [unfolded M R] obtain s' where s': "check_timeouts_loop pub ?ks False s = Inr (False \<or> due s \<noteq> {}, s')"
      "let_go pub (due s) (due_rets s) s s'" "timed_ok s'" "waits_ok s'"
      "\<forall>q t. evec_dl s' q t = (if q \<in> set ?ks \<and> t \<in> due s then None else evec_dl s q t)" "\<forall>q. evec_ws s' q = evec_ws s q"
    by (elim exE conjE) (rule that)
  have "\<forall>q t. evec_dl s' q t = (if t \<in> due s then None else evec_dl s q t)" using s'(5) none by (metis (full_types))
  moreover have "check_timeouts pub s = Inr s'" using s'(1) assms(3) by (simp add: check_timeouts_def)
  ultimately show thesis using that s'(2-4,6) by blast
qed

section \<open>The capture handler of evec\<close>

lemma timeout_register_ok:
  assumes "map_inv (td_timeouts s)" and "t \<noteq> NO_TASK"
  obtains m where "handler_timeout_register t d s = Inr (s\<lparr>td_timeouts := m\<rparr>)" and "map_inv m"
    and "map_find m = (map_find (td_timeouts s))(t \<mapsto> d)"
proof (cases "map_find (td_timeouts s) t")
  case None
  obtain m where m: "map_register zero_timespec (td_timeouts s) t = Inr m" "map_inv m" "map_find m = (map_find (td_timeouts s))(t \<mapsto> zero_timespec)"
    using km.register_absent [OF assms(1) None] by blast
  with None assms(2) that [of "map_write m t d"] show thesis
    by (simp add: handler_timeout_register_def tidmap_find_or_register_def map_find_or_register_def map_find_write)
next
  case (Some d0)
  with assms that [of "map_write (td_timeouts s) t d"] show thesis
    by (simp add: handler_timeout_register_def tidmap_find_or_register_def map_find_or_register_def map_find_write)
qed

text \<open>Whether an event makes its task wait.\<close>

definition waits_at :: "timed \<Rightarrow> task_id \<Rightarrow> 64 word \<Rightarrow> bool" where
  "waits_at s t a \<longleftrightarrow> (\<exists>ws. evec_ws s a = Some ws \<and> t \<in> tids ws)"

definition blocks :: "timed \<Rightarrow> task_id \<Rightarrow> evec_event \<Rightarrow> bool" where
  "blocks s t ev = (case ev of EvWait a \<Rightarrow> waits_at s t a | EvTimedWait a abstime _ \<Rightarrow> abstime \<and> waits_at s t a | _ \<Rightarrow> False)"

definition evec_event_ok :: "evec_event \<Rightarrow> bool" where
  "evec_event_ok ev = (case ev of EvTimedWait _ _ ret \<Rightarrow> ret \<noteq> 0 | _ \<Rightarrow> True)"

lemma waits_ok_more:
  "waits_ok s \<Longrightarrow> (\<And>q. evec_dl s' q = evec_dl s q) \<Longrightarrow> tids (td_waiters s) \<subseteq> tids (td_waiters s') \<Longrightarrow> waits_ok s'"
  unfolding waits_ok_def by (metis subsetD)

lemma handle_wait_spec:
  assumes ok: "timed_ok s" "waits_ok s" and t: "t \<notin> tids (td_waiters s)"
  obtains s' where "handle_wait t a s = Inr s'" and "timed_ok s'" and "waits_ok s'"
    and "tids (td_waiters s') = tids (td_waiters s) \<union> (if waits_at s t a then {t} else {})"
proof -
  have w: "tidset_inv (td_waiters s)" and nt: "tidset_has (td_waiters s) t = Inr False"
    using ok(1) t by (simp_all add: timed_ok_def tidset_has_inv)
  show thesis
  proof (cases "evec_find s a")
    case None
    then show thesis using that [of s] ok by (simp add: handle_wait_def waits_at_def)
  next
    case (Some e)
    then have h: "tidset_has (ev_waiters e) t = Inr (waits_at s t a)"
      using ok(1) by (auto simp: timed_ok_def evec_ok_def waits_at_def tidset_has_inv)
    show thesis
    proof (cases "waits_at s t a")
      case False
      then show thesis using that [of s] ok Some h nt by (simp add: handle_wait_def)
    next
      case True
      obtain ws where ws: "tidset_insert (td_waiters s) t = Inr (True, ws)" "tidset_inv ws" "tids ws = insert t (tids (td_waiters s))"
        using tidset_insert_inv [OF w, of t] t by auto
      let ?s = "s\<lparr>td_waiters := ws\<rparr>"
      have f: "evec_find ?s q = evec_find s q" for q by (simp add: evec_find_def)
      then have "timed_ok ?s" using ok(1) ws(2) by (simp add: timed_ok_def)
      moreover have "waits_ok ?s" using ws(3) by (intro waits_ok_more [OF ok(2)]) (auto simp: evec_dl_def f)
      ultimately show thesis using that [of ?s] True Some h nt ws by (simp add: handle_wait_def)
    qed
  qed
qed

lemma handle_timed_wait_spec:
  assumes ok: "timed_ok s" "waits_ok s" and t: "t \<notin> tids (td_waiters s)" "t \<noteq> NO_TASK" and ret: "ret \<noteq> 0"
  obtains s' where "handle_timed_wait t a abstime ret s = Inr s'" and "timed_ok s'" and "waits_ok s'"
    and "tids (td_waiters s') = tids (td_waiters s) \<union> (if abstime \<and> waits_at s t a then {t} else {})"
proof -
  have w: "tidset_inv (td_waiters s)" "map_inv (td_timeouts s)" and nt: "tidset_has (td_waiters s) t = Inr False"
    using ok(1) t(1) by (simp_all add: timed_ok_def tidset_has_inv)
  have nd: "evec_dl s q t = None" for q using ok(2) t(1) unfolding waits_ok_def by blast
  show thesis
  proof (cases "\<exists>e. evec_find s a = Some e \<and> waits_at s t a")
    case False
    have "handle_timed_wait t a abstime ret s = Inr s"
    proof (cases "evec_find s a")
      case (Some e)
      with False have "tidset_has (ev_waiters e) t = Inr False"
        using ok(1) by (auto simp: timed_ok_def evec_ok_def waits_at_def tidset_has_inv)
      with Some nt show ?thesis by (simp add: handle_timed_wait_def)
    qed (simp add: handle_timed_wait_def)
    moreover have "\<not> waits_at s t a" using False by (auto simp: waits_at_def)
    ultimately show thesis using that ok by simp
  next
    case True
    then obtain e where e: "evec_find s a = Some e" and wa: "waits_at s t a" by blast
    have eok: "evec_ok e" using ok(1) e by (simp add: timed_ok_def)
    have h: "tidset_has (ev_waiters e) t = Inr True" using eok wa e by (auto simp: evec_ok_def waits_at_def tidset_has_inv)
    have "map_find (ev_deadlines e) t = None" using nd [of a] by (simp add: evec_dl_def e)
    then obtain ds where ds: "map_register zero_deadline (ev_deadlines e) t = Inr ds" "map_inv ds"
        "map_find ds = (map_find (ev_deadlines e))(t \<mapsto> zero_deadline)"
      using km.register_absent [of "ev_deadlines e" t zero_deadline] eok by (auto simp: evec_ok_def)
    show thesis
    proof (cases abstime)
      case False
      let ?e = "e\<lparr>ev_deadlines := map_deregister ds t\<rparr>"
      let ?s = "evec_store a ?e (s\<lparr>td_mem := (td_mem s)(ret := TIMED_WAIT_INVALID)\<rparr>)"
      let ?s' = "?s\<lparr>td_timeouts := map_deregister (td_timeouts ?s) t\<rparr>"
      have run: "handle_timed_wait t a abstime ret s = Inr ?s'"
        using False e nt h ds(1) ret timeout_deregister_ok [OF t(2)] by (simp add: handle_timed_wait_def Let_def)
      have dsf: "map_find (map_deregister ds t) = map_find (ev_deadlines e)"
        using map_find_deregister [OF ds(2)] ds(3) \<open>map_find (ev_deadlines e) t = None\<close> by auto
      have f: "evec_find ?s' q = (if q = a then Some ?e else evec_find s q)" for q
        using evec_find_store [of "s\<lparr>td_mem := (td_mem s)(ret := TIMED_WAIT_INVALID)\<rparr>" a e ?e q] e
        by (simp add: evec_find_def evec_store_def)
      have "evec_ok ?e" using eok map_inv_deregister [OF ds(2)] dsf by (simp add: evec_ok_def)
      then have "timed_ok ?s'"
        using ok(1) f by (auto simp: timed_ok_def evec_store_def map_inv_deregister map_find_deregister split: if_splits)
      moreover have "evec_dl ?s' q = evec_dl s q" for q using dsf e by (simp add: evec_dl_def f)
      then have "waits_ok ?s'" by (rule waits_ok_more [OF ok(2)]) (simp add: evec_store_def)
      ultimately show thesis using that [OF run] False by (simp add: evec_store_def)
    next
      case True
      define d where "d = (td_now s)\<lparr>tv_sec := tv_sec (td_now s) + 20\<rparr>"
      obtain ws where ws: "tidset_insert (td_waiters s) t = Inr (True, ws)" "tidset_inv ws" "tids ws = insert t (tids (td_waiters s))"
        using tidset_insert_inv [OF w(1), of t] t(1) by auto
      let ?e = "e\<lparr>ev_deadlines := map_write ds t \<lparr>dd_deadline = d, dd_ret = ret\<rparr>\<rparr>"
      let ?s = "evec_store a ?e (s\<lparr>td_waiters := ws\<rparr>)"
      have "map_inv (td_timeouts ?s)" using w(2) by (simp add: evec_store_def)
      then obtain m where m: "handler_timeout_register t d ?s = Inr (?s\<lparr>td_timeouts := m\<rparr>)" "map_inv m"
          "map_find m = (map_find (td_timeouts ?s))(t \<mapsto> d)" using timeout_register_ok [OF _ t(2)] by blast
      let ?s' = "?s\<lparr>td_timeouts := m\<rparr>"
      have run: "handle_timed_wait t a abstime ret s = Inr ?s'"
        using True e nt h ds(1) ret ws(1) m(1) by (simp add: handle_timed_wait_def Let_def d_def)
      have f: "evec_find ?s' q = (if q = a then Some ?e else evec_find s q)" for q
        using evec_find_store [of "s\<lparr>td_waiters := ws\<rparr>" a e ?e q] e by (simp add: evec_find_def evec_store_def)
      have dsf: "map_find (ev_deadlines ?e) = (map_find (ev_deadlines e))(t \<mapsto> \<lparr>dd_deadline = d, dd_ret = ret\<rparr>)"
        using ds(3) by (simp add: map_find_write)
      have "evec_ok ?e" using eok ds(2) dsf t(2) by (simp add: evec_ok_def)
      then have "timed_ok ?s'"
        using ok(1) f ws(2) m(2,3) t(2) by (auto simp: timed_ok_def evec_store_def split: if_splits)
      moreover have dl: "evec_dl ?s' q = (if q = a then (evec_dl s a)(t \<mapsto> \<lparr>dd_deadline = d, dd_ret = ret\<rparr>) else evec_dl s q)" for q
        using dsf e by (simp add: evec_dl_def f)
      have "waits_ok ?s'"
        unfolding waits_ok_def dl using ok(2) nd ws(3) unfolding waits_ok_def
        by (auto simp: evec_store_def split: if_splits) (metis not_None_eq)+
      ultimately show thesis using that [OF run] True wa ws(3) by (simp add: evec_store_def)
    qed
  qed
qed

lemma evec_switch_spec:
  assumes ok: "timed_ok s" "waits_ok s" and t: "t \<notin> tids (td_waiters s)" "t \<noteq> NO_TASK" and ev: "evec_event_ok ev"
  obtains b c s' where "evec_switch t ev e s = Inr (b, e\<lparr>e_is_chpt := c\<rparr>, s')" and "timed_ok s'" and "waits_ok s'"
    and "tids (td_waiters s') = tids (td_waiters s) \<union> (if blocks s t ev then {t} else {})"
proof (cases ev)
  case (EvWait a)
  obtain s' where "handle_wait t a s = Inr s'" "timed_ok s'" "waits_ok s'"
      "tids (td_waiters s') = tids (td_waiters s) \<union> (if waits_at s t a then {t} else {})"
    by (rule handle_wait_spec [OF ok t(1)])
  with EvWait that [of True True s'] show thesis by (simp add: evec_switch_def blocks_def)
next
  case (EvTimedWait a abstime ret)
  then have "ret \<noteq> 0" using ev by (simp add: evec_event_ok_def)
  then obtain s' where "handle_timed_wait t a abstime ret s = Inr s'" "timed_ok s'" "waits_ok s'"
      "tids (td_waiters s') = tids (td_waiters s) \<union> (if abstime \<and> waits_at s t a then {t} else {})"
    using handle_timed_wait_spec [OF ok t] by metis
  with EvTimedWait that [of True True s'] show thesis by (simp add: evec_switch_def blocks_def)
next
  case EvNone
  with ok that [of False "e_is_chpt e" s] show thesis by (simp add: evec_switch_def blocks_def)
qed (use ok that [of False True s] in \<open>simp_all add: evec_switch_def blocks_def\<close>)

text \<open>The state in which the deadlines are looked at.\<close>

definition at_now :: "clock_fp \<Rightarrow> bool \<Rightarrow> timed \<Rightarrow> timed" where
  "at_now fp r s = s\<lparr>td_now := clock_now fp (td_clock s), td_received := r\<rparr>"

lemma at_now_simps [simp]:
  "evec_find (at_now fp r s) k = evec_find s k" "evec_dl (at_now fp r s) k = evec_dl s k" "td_waiters (at_now fp r s) = td_waiters s"
  "td_now (at_now fp r s) = clock_now fp (td_clock s)" "timed_ok (at_now fp r s) = timed_ok s" "waits_ok (at_now fp r s) = waits_ok s"
proof -
  show f: "evec_find (at_now fp r s) k = evec_find s k" for k by (simp add: at_now_def evec_find_def)
  then show d: "evec_dl (at_now fp r s) k = evec_dl s k" for k by (simp add: evec_dl_def)
  show w: "td_waiters (at_now fp r s) = td_waiters s" "td_now (at_now fp r s) = clock_now fp (td_clock s)" by (simp_all add: at_now_def)
  show "timed_ok (at_now fp r s) = timed_ok s" unfolding timed_ok_def f by (simp add: at_now_def)
  show "waits_ok (at_now fp r s) = waits_ok s" unfolding waits_ok_def d w ..
qed

lemma blocks_ws: "(\<And>q. evec_ws s' q = evec_ws s q) \<Longrightarrow> blocks s' t ev = blocks s t ev"
  by (simp add: blocks_def waits_at_def split: evec_event.split)

lemma evec_handle_spec:
  assumes ok: "timed_ok s" "waits_ok s" and t: "cp_id cp \<notin> tids (td_waiters s)" "cp_id cp \<noteq> NO_TASK"
    and ev: "evec_event_ok (ev cp)" and e: "tidset_inv (e_tset e)" "e_any_task_filter e = None"
  shows "\<exists>e' s'. evec_handle fp ev cp e s = Inr (e', s') \<and> timed_ok s' \<and> waits_ok s' \<and>
    tids (td_waiters s') = (tids (td_waiters s) - due (at_now fp False s)) \<union> (if blocks s (cp_id cp) (ev cp) then {cp_id cp} else {}) \<and>
    tidset_inv (e_tset e') \<and> tids (e_tset e') = tids (e_tset e) - tids (td_waiters s')"
proof -
  let ?n = "at_now fp False s" and ?t = "cp_id cp"
  have ok': "timed_ok ?n" "waits_ok ?n" using ok by simp_all
  obtain s1 where s1: "check_timeouts True ?n = Inr s1" "let_go True (due ?n) (due_rets ?n) ?n s1" "timed_ok s1" "waits_ok s1"
      "\<forall>q t. evec_dl s1 q t = (if t \<in> due ?n then None else evec_dl ?n q t)" "\<forall>q. evec_ws s1 q = evec_ws ?n q"
    by (rule check_timeouts_spec [OF ok' disjI1 [OF TrueI]])
  have tw: "tids (td_waiters s1) = tids (td_waiters s) - due ?n" using s1(2) by (simp add: let_go_def)
  then have t1: "?t \<notin> tids (td_waiters s1)" using t(1) by simp
  have bl: "blocks s1 ?t (ev cp) = blocks s ?t (ev cp)" using s1(6) by (intro blocks_ws) simp
  obtain b c s2 where s2: "evec_switch ?t (ev cp) e s1 = Inr (b, e\<lparr>e_is_chpt := c\<rparr>, s2)" "timed_ok s2" "waits_ok s2"
      "tids (td_waiters s2) = tids (td_waiters s1) \<union> (if blocks s ?t (ev cp) then {?t} else {})"
    using evec_switch_spec [OF s1(3,4) t1 t(2) ev, of e] unfolding bl by blast
  have "tidset_inv (td_waiters s2)" using s2(2) by (simp add: timed_ok_def)
  then obtain ts where ts: "tidset_subtract (e_tset e) (td_waiters s2) = Inr ts" "tidset_inv ts" "tids ts = tids (e_tset e) - tids (td_waiters s2)"
    using tidset_subtract_inv [OF e(1)] by blast
  have run: "evec_handle fp ev cp e s = Inr (e\<lparr>e_is_chpt := c, e_tset := ts,
      e_any_task_filter := (if b then Some EVEC_SHOULD_WAIT else e_any_task_filter e)\<rparr>, s2)"
    using s1(1) s2(1) ts(1) t(2) e(2)
    by (simp add: evec_handle_def lotto_clock_time_now at_now_def Let_def)
  with s2 ts tw show ?thesis by simp
qed

end
