(* ===== verification/Timeouts.thy ===== *)
theory Timeouts
  imports Timed
begin

text \<open>
  Progress of the timed modules: the lemmas follow a timeout from the map of deadlines through the published
  event to the subscribers, and through the leap of the clock. The theory ends with the properties of the three
  modules, among them two runs in which a task that timed out is still in its queue.
\<close>

section \<open>Published timeouts\<close>

text \<open>A waiting task with a timeout has the same deadline in an evec.\<close>

definition timeouts_ok :: "timed \<Rightarrow> bool" where
  "timeouts_ok s \<longleftrightarrow> (\<forall>t d. map_find (td_timeouts s) t = Some d \<longrightarrow> t \<in> tids (td_waiters s) \<longrightarrow>
     (\<exists>k dd. evec_dl s k t = Some dd \<and> dd_deadline dd = d))"

definition sched_ok :: "timed \<Rightarrow> bool" where
  "sched_ok s \<longleftrightarrow> timed_ok s \<and> waits_ok s \<and> timeouts_ok s"

lemma evec_trigger_spec:
  assumes ok: "sched_ok s" and t: "map_find (td_timeouts s) t = Some d"
    and passed: "timespec_compare d (clock_now fp (td_clock s)) \<le> 0"
  obtains s' where "evec_trigger fp t s = Inr s'" and "sched_ok s'" and "map_find (td_timeouts s') = map_find (td_timeouts s)"
    and "td_clock s' = td_clock s" and "td_sleepers s' = td_sleepers s" and "td_poll s' = td_poll s"
proof -
  from ok have o: "timed_ok s" "waits_ok s" "timeouts_ok s" by (simp_all add: sched_ok_def)
  then have has: "tidset_has (td_waiters s) t = Inr (t \<in> tids (td_waiters s))" by (simp add: timed_ok_def tidset_has_inv)
  show thesis
  proof (cases "td_received s \<or> t \<notin> tids (td_waiters s)")
    case True
    then have "evec_trigger fp t s = Inr s" by (auto simp: evec_trigger_def has)
    with that ok show thesis by simp
  next
    case False
    let ?n = "at_now fp True s"
    have ok': "timed_ok ?n" "waits_ok ?n" using o by simp_all
    obtain k dd where "evec_dl s k t = Some dd" "dd_deadline dd = d" using o(3) t False unfolding timeouts_ok_def by blast
    with passed have "t \<in> due ?n" by (auto simp: due_def expired_def intro!: exI [of _ k])
    then have "False \<or> due ?n \<noteq> {}" by blast
    then obtain s' where s': "check_timeouts False ?n = Inr s'" "let_go False (due ?n) (due_rets ?n) ?n s'" "timed_ok s'" "waits_ok s'"
        "\<forall>q t. evec_dl s' q t = (if t \<in> due ?n then None else evec_dl ?n q t)" "\<forall>q. evec_ws s' q = evec_ws ?n q"
      by (rule check_timeouts_spec [OF ok'])
    have run: "evec_trigger fp t s = Inr s'" using False s'(1) by (simp add: evec_trigger_def has lotto_clock_time_now at_now_def)
    have to: "map_find (td_timeouts s') = map_find (td_timeouts s)" and cl: "td_clock s' = td_clock s"
      and tw: "tids (td_waiters s') = tids (td_waiters s) - due ?n" and sl: "td_sleepers s' = td_sleepers s" and po: "td_poll s' = td_poll s"
      using s'(2) by (simp_all add: let_go_def at_now_def)
    have "timeouts_ok s'" using o(3) s'(5) unfolding timeouts_ok_def to tw by auto
    then have "sched_ok s'" using s'(3,4) by (simp add: sched_ok_def)
    then show thesis by (rule that [OF run _ to cl sl po])
  qed
qed

lemma sched_ok_sleepers: "sched_ok s \<Longrightarrow> tidset_inv ws \<Longrightarrow> sched_ok (s\<lparr>td_sleepers := ws\<rparr>)"
  by (simp add: sched_ok_def timed_ok_def waits_ok_def timeouts_ok_def evec_dl_def evec_find_def)

lemma sched_ok_poll: "sched_ok (s\<lparr>td_poll := p\<rparr>) = sched_ok s"
  by (simp add: sched_ok_def timed_ok_def waits_ok_def timeouts_ok_def evec_dl_def evec_find_def)

lemma sched_ok_clock: "sched_ok (s\<lparr>td_clock := c\<rparr>) = sched_ok s"
  by (simp add: sched_ok_def timed_ok_def waits_ok_def timeouts_ok_def evec_dl_def evec_find_def)

lemma sched_ok_deregister: "sched_ok s \<Longrightarrow> sched_ok (s\<lparr>td_timeouts := map_deregister (td_timeouts s) t\<rparr>)"
  by (simp add: sched_ok_def timed_ok_def waits_ok_def timeouts_ok_def evec_dl_def evec_find_def map_inv_deregister map_find_deregister)

text \<open>The timeouts of the tasks in \<open>P\<close> have been published: they have no deadline any more, and neither sleep nor wait in \<^verbatim>\<open>poll\<close>.\<close>

definition timed_out :: "task_id set \<Rightarrow> timed \<Rightarrow> timed \<Rightarrow> bool" where
  "timed_out P s s' \<longleftrightarrow> sched_ok s' \<and> polls_ok (td_poll s') \<and>
     map_find (td_timeouts s') = (\<lambda>t. if t \<in> P then None else map_find (td_timeouts s) t) \<and>
     tids (td_sleepers s') = tids (td_sleepers s) - P \<and>
     map_find (po_polls (td_poll s')) = (\<lambda>t. if t \<in> P then None else map_find (po_polls (td_poll s)) t)"

lemma timed_out_refl: "sched_ok s \<Longrightarrow> polls_ok (td_poll s) \<Longrightarrow> timed_out {} s s"
  by (simp add: timed_out_def)

lemma timed_out_insert: "timed_out {t} s s1 \<Longrightarrow> timed_out P s1 s2 \<Longrightarrow> timed_out (insert t P) s s2"
  by (auto simp: timed_out_def fun_eq_iff)

text \<open>Publishing the timeout of a task makes it a candidate; its deadline is dropped.\<close>

lemma trigger_timeout_spec:
  assumes ok: "sched_ok s" "polls_ok (td_poll s)" and t: "map_find (td_timeouts s) t = Some d"
    and passed: "timespec_compare d (clock_now fp (td_clock s)) \<le> 0" and ts: "tidset_inv tset"
  obtains tset' s' s'' where "trigger_timeout fp tset t s = Inr (tset', s')" and "handler_timeout_deregister t s' = Inr s''"
    and "tidset_inv tset'" and "tids tset' = insert t (tids tset)" and "timed_out {t} s s''" and "td_clock s'' = td_clock s"
proof -
  obtain s1 where s1: "evec_trigger fp t s = Inr s1" "sched_ok s1" "map_find (td_timeouts s1) = map_find (td_timeouts s)"
      "td_clock s1 = td_clock s" "td_sleepers s1 = td_sleepers s" "td_poll s1 = td_poll s" by (rule evec_trigger_spec [OF ok(1) t passed])
  have sinv: "tidset_inv (td_sleepers s)" using ok(1) by (simp add: sched_ok_def timed_ok_def)
  obtain ws where ws: "tidset_remove (td_sleepers s) t = Inr (t \<in> tids (td_sleepers s), ws)" "tidset_inv ws" "tids ws = tids (td_sleepers s) - {t}"
    using tidset_remove_inv [OF sinv] by blast
  let ?ws = "if t \<in> tids (td_sleepers s) then ws else td_sleepers s"
  have t0: "t \<noteq> NO_TASK" using ok(1) t by (auto simp: sched_ok_def timed_ok_def)
  have sl: "sleep_trigger t s1 = Inr (s1\<lparr>td_sleepers := ?ws\<rparr>)" using ws(1) tidset_has_inv [OF sinv, of t] s1(5) by (simp add: sleep_trigger_def)
  obtain p where p: "poll_trigger t (td_poll s) = Inr p" "polls_ok p" "map_find (po_polls p) = (map_find (po_polls (td_poll s)))(t := None)"
    by (rule poll_trigger_ok [OF ok(2) t0]) (rule that)
  let ?s2 = "s1\<lparr>td_sleepers := ?ws, td_poll := p\<rparr>"
  have ok2: "sched_ok ?s2" unfolding sched_ok_poll by (rule sched_ok_sleepers [OF s1(2)]) (use sinv ws(2) in simp)
  obtain tset' where tset': "tidset_insert tset t = Inr (t \<notin> tids tset, tset')" "tidset_inv tset'" "tids tset' = insert t (tids tset)"
    using tidset_insert_inv [OF ts] by blast
  have inv: "map_inv (td_timeouts s1)" using s1(2) by (simp add: sched_ok_def timed_ok_def)
  let ?s3 = "?s2\<lparr>td_timeouts := map_deregister (td_timeouts ?s2) t\<rparr>"
  have "trigger_timeout fp tset t s = Inr (tset', ?s2)" using s1(1,6) sl p(1) tset'(1) by (simp add: trigger_timeout_def)
  moreover have "handler_timeout_deregister t ?s2 = Inr ?s3" by (rule timeout_deregister_ok [OF t0])
  moreover have "timed_out {t} s ?s3"
    using sched_ok_deregister [OF ok2] p(2,3) map_find_deregister [OF inv] s1(3) ws(3) by (auto simp: timed_out_def fun_eq_iff)
  ultimately show thesis using that tset'(2,3) s1(4) by simp
qed

section \<open>Passed deadlines\<close>

definition passed :: "timespec \<Rightarrow> (task_id \<Rightarrow> timespec option) \<Rightarrow> task_id set" where
  "passed now f = {t. \<exists>d. f t = Some d \<and> timespec_compare d now \<le> 0}"

lemma passed_out: "timed_out {t} s s1 \<Longrightarrow> passed now (map_find (td_timeouts s1)) = passed now (map_find (td_timeouts s)) - {t}"
  by (auto simp: passed_def timed_out_def split: if_splits)

lemma check_deadlines_loop_spec:
  assumes "sched_ok s" and "polls_ok (td_poll s)" and "distinct ts" and "\<forall>t\<in>set ts. map_find (td_timeouts s) t \<noteq> None" and "tidset_inv tset"
    and "now = clock_now fp (td_clock s)"
  shows "\<exists>tset' s'. check_deadlines_loop fp now ts tset s = Inr (tset', s') \<and> tidset_inv tset' \<and>
    tids tset' = tids tset \<union> (set ts \<inter> passed now (map_find (td_timeouts s))) \<and>
    timed_out (set ts \<inter> passed now (map_find (td_timeouts s))) s s' \<and> td_clock s' = td_clock s"
  using assms
proof (induction ts arbitrary: s tset)
  case Nil
  then show ?case by (simp add: timed_out_refl)
next
  case (Cons t ts)
  let ?f = "map_find (td_timeouts s)"
  obtain d where d: "?f t = Some d" using Cons.prems(4) by auto
  show ?case
  proof (cases "timespec_compare d now > 0")
    case True
    then have "set (t # ts) \<inter> passed now ?f = set ts \<inter> passed now ?f" using d by (auto simp: passed_def)
    moreover have "check_deadlines_loop fp now (t # ts) tset s = check_deadlines_loop fp now ts tset s" using d True by simp
    ultimately show ?thesis using Cons.IH [OF Cons.prems(1,2) _ _ Cons.prems(5,6)] Cons.prems(3,4) by simp
  next
    case False
    then have p: "timespec_compare d (clock_now fp (td_clock s)) \<le> 0" using Cons.prems(6) by simp
    obtain tset1 s1 s2 where s2: "trigger_timeout fp tset t s = Inr (tset1, s1)" "handler_timeout_deregister t s1 = Inr s2"
        "tidset_inv tset1" "tids tset1 = insert t (tids tset)" "timed_out {t} s s2" "td_clock s2 = td_clock s"
      by (rule trigger_timeout_spec [OF Cons.prems(1,2) d p Cons.prems(5)])
    let ?P = "set ts \<inter> passed now ?f"
    have nt: "t \<notin> set ts" "distinct ts" using Cons.prems(3) by simp_all
    then have P: "set ts \<inter> passed now (map_find (td_timeouts s2)) = ?P" using passed_out [OF s2(5)] by auto
    have s2ok: "sched_ok s2" "polls_ok (td_poll s2)" "\<forall>u\<in>set ts. map_find (td_timeouts s2) u \<noteq> None"
      using s2(5) Cons.prems(4) nt(1) by (auto simp: timed_out_def)
    obtain tset' s' where r: "check_deadlines_loop fp now ts tset1 s2 = Inr (tset', s')" "tidset_inv tset'" "tids tset' = tids tset1 \<union> ?P"
        "timed_out ?P s2 s'" "td_clock s' = td_clock s2"
      using Cons.IH [OF s2ok(1,2) nt(2) s2ok(3) s2(3)] Cons.prems(6) s2(6) unfolding P by auto
    have "set (t # ts) \<inter> passed now ?f = insert t ?P" using False d by (auto simp: passed_def)
    moreover have "check_deadlines_loop fp now (t # ts) tset s = Inr (tset', s')" using d False s2(1,2) r(1) by simp
    moreover have "timed_out (insert t ?P) s s'" by (rule timed_out_insert [OF s2(5) r(4)])
    ultimately show ?thesis using r(2,3,5) s2(4,6) by simp
  qed
qed

lemma check_deadlines_spec:
  fixes fp :: clock_fp
  assumes "sched_ok s" and "polls_ok (td_poll s)" and "tidset_inv tset"
  defines "P \<equiv> passed (clock_now fp (td_clock s)) (map_find (td_timeouts s))"
  obtains tset' s' where "check_deadlines fp tset s = Inr (tset', s')" and "tidset_inv tset'" and "tids tset' = tids tset \<union> P"
    and "timed_out P s s'" and "td_clock s' = td_clock s"
proof -
  let ?ks = "map fst (map_iterate (td_timeouts s))"
  have inv: "map_inv (td_timeouts s)" using assms(1) by (simp add: sched_ok_def timed_ok_def)
  then have d: "distinct ?ks" by (simp add: map_inv_def map_iterate_def)
  have k: "t \<in> set ?ks \<longleftrightarrow> map_find (td_timeouts s) t \<noteq> None" for t
    using map_find_None_iff [of "td_timeouts s" t] by (auto simp: map_iterate_def)
  then have P: "set ?ks \<inter> passed (clock_now fp (td_clock s)) (map_find (td_timeouts s)) = P" by (auto simp: P_def passed_def)
  have "\<forall>t\<in>set ?ks. map_find (td_timeouts s) t \<noteq> None" using k by blast
  from check_deadlines_loop_spec [where fp = fp, OF assms(1,2) d this assms(3) refl, unfolded P] that show thesis
    by (auto simp: check_deadlines_def lotto_clock_time_now)
qed

section \<open>The leap of the clock\<close>

definition deadlines_ok :: "timed \<Rightarrow> bool" where
  "deadlines_ok s \<longleftrightarrow> list_all (\<lambda>it. ts_norm (snd it) \<and> ts_ns (snd it) \<le> INT32_MAX * 1000000000) (map_iterate (td_timeouts s))"

text \<open>The loop finds an earliest deadline.\<close>

lemma min_deadline_loop_spec:
  assumes "\<forall>it\<in>set its. ts_norm (snd it)" and "ts_norm (snd mn)" and "min_deadline_loop its mn multiple = (r, m)"
  shows "r \<in> insert mn (set its) \<and> (\<forall>it\<in>insert mn (set its). ts_ns (snd r) \<le> ts_ns (snd it)) \<and>
    ((\<exists>it\<in>set its. ts_ns (snd it) \<le> ts_ns (snd mn)) \<longrightarrow> r \<in> set its)"
  using assms
proof (induction its arbitrary: mn multiple)
  case (Cons it its)
  show ?case
  proof (cases "timespec_compare (snd it) (snd mn) > 0")
    case True
    then have "ts_ns (snd mn) < ts_ns (snd it)" using timespec_compare_ns(1) Cons.prems(1,2) by simp
    with Cons.IH [of mn multiple] Cons.prems True show ?thesis by auto
  next
    case False
    then have le: "ts_ns (snd it) \<le> ts_ns (snd mn)" using timespec_compare_ns(1) [of "snd it" "snd mn"] Cons.prems(1,2) by simp
    from False Cons.prems(3) have "min_deadline_loop its it (fst mn \<noteq> NO_TASK \<and> timespec_compare (snd it) (snd mn) = 0) = (r, m)"
      by (simp add: Let_def)
    from Cons.IH [OF _ _ this] Cons.prems(1) le show ?thesis by fastforce
  qed
qed simp

definition same_deadlines :: "int \<Rightarrow> (64 word \<times> timespec) list \<Rightarrow> nat" where
  "same_deadlines n its = length (filter (\<lambda>it. ts_ns (snd it) = n) its)"

text \<open>The flag tells whether the earliest deadline is that of several tasks; \<open>pre\<close> are the items that the loop has passed.\<close>

lemma min_deadline_loop_multiple:
  assumes "\<forall>it\<in>set (pre @ its). ts_norm (snd it) \<and> fst it \<noteq> NO_TASK" and "mn \<in> set pre" and "\<forall>it\<in>set pre. ts_ns (snd mn) \<le> ts_ns (snd it)"
    and "multiple \<longleftrightarrow> 1 < same_deadlines (ts_ns (snd mn)) pre" and "min_deadline_loop its mn multiple = (r, m)"
  shows "m \<longleftrightarrow> 1 < same_deadlines (ts_ns (snd r)) (pre @ its)"
  using assms
proof (induction its arbitrary: pre mn multiple)
  case (Cons it its)
  have norm: "ts_norm (snd it)" "ts_norm (snd mn)" "fst mn \<noteq> NO_TASK" using Cons.prems(1,2) by auto
  note cmp = timespec_compare_ns [OF norm(1,2)]
  have all: "\<forall>x\<in>set ((pre @ [it]) @ its). ts_norm (snd x) \<and> fst x \<noteq> NO_TASK" using Cons.prems(1) by simp
  show ?case
  proof (cases "timespec_compare (snd it) (snd mn) > 0")
    case True
    then have lt: "ts_ns (snd mn) < ts_ns (snd it)" using cmp(1) by simp
    have "m \<longleftrightarrow> 1 < same_deadlines (ts_ns (snd r)) ((pre @ [it]) @ its)"
      by (rule Cons.IH [OF all, of mn multiple]) (use Cons.prems True lt in \<open>auto simp: same_deadlines_def\<close>)
    then show ?thesis by simp
  next
    case False
    then have le: "ts_ns (snd it) \<le> ts_ns (snd mn)" using cmp(1) by simp
    let ?mult = "timespec_compare (snd it) (snd mn) = 0"
    have "?mult \<longleftrightarrow> 1 < same_deadlines (ts_ns (snd it)) (pre @ [it])"
    proof (cases ?mult)
      case True
      then have "mn \<in> set (filter (\<lambda>x. ts_ns (snd x) = ts_ns (snd it)) pre)" using cmp(2) Cons.prems(2) by simp
      then have "0 < length (filter (\<lambda>x. ts_ns (snd x) = ts_ns (snd it)) pre)" by (rule length_pos_if_in_set)
      with True show ?thesis by (simp add: same_deadlines_def)
    next
      case False
      then have "ts_ns (snd it) < ts_ns (snd mn)" using cmp(2) le by linarith
      then have "filter (\<lambda>x. ts_ns (snd x) = ts_ns (snd it)) pre = []" using Cons.prems(3) by (fastforce simp: filter_empty_conv)
      with False show ?thesis by (simp add: same_deadlines_def)
    qed
    moreover have "min_deadline_loop its it ?mult = (r, m)" using Cons.prems(5) False norm(3) by (simp add: Let_def)
    moreover have "\<forall>x\<in>set (pre @ [it]). ts_ns (snd it) \<le> ts_ns (snd x)" using Cons.prems(3) le by auto
    ultimately have "m \<longleftrightarrow> 1 < same_deadlines (ts_ns (snd r)) ((pre @ [it]) @ its)" using Cons.IH [OF all, of it] by simp
    then show ?thesis by simp
  qed
qed simp

definition earliest :: "(task_id \<Rightarrow> timespec option) \<Rightarrow> task_id set" where
  "earliest f = {t. \<exists>d. f t = Some d \<and> (\<forall>u d'. f u = Some d' \<longrightarrow> ts_ns d \<le> ts_ns d')}"

text \<open>What the loop of \<^verbatim>\<open>_time_leap\<close> finds: a task with an earliest deadline, and whether it is the only one.\<close>

lemma min_deadline_found:
  assumes "sched_ok s" and "deadlines_ok s" and "map_find (td_timeouts s) \<noteq> (\<lambda>_. None)"
  obtains t d m where "min_deadline_loop (map_iterate (td_timeouts s)) (NO_TASK, zero_timespec\<lparr>tv_sec := INT32_MAX\<rparr>) False = ((t, d), m)"
    and "map_find (td_timeouts s) t = Some d" and "t \<in> earliest (map_find (td_timeouts s))" and "t \<noteq> NO_TASK"
    and "ts_norm d" and "ts_ns d < 2 ^ 62" and "m \<longleftrightarrow> earliest (map_find (td_timeouts s)) \<noteq> {t}"
proof -
  let ?f = "map_find (td_timeouts s)" and ?its = "map_iterate (td_timeouts s)" and ?mn = "(NO_TASK, zero_timespec\<lparr>tv_sec := INT32_MAX\<rparr>)"
  have inv: "map_inv (td_timeouts s)" "?f NO_TASK = None" using assms(1) by (simp_all add: sched_ok_def timed_ok_def)
  note find = map_iterate_find [OF inv(1)]
  have mn: "ts_norm (snd ?mn)" "ts_ns (snd ?mn) = INT32_MAX * 1000000000" by (simp_all add: ts_norm_def ts_ns_def zero_timespec_def)
  have its: "\<forall>it\<in>set ?its. ts_norm (snd it) \<and> fst it \<noteq> NO_TASK \<and> ts_ns (snd it) \<le> ts_ns (snd ?mn)"
    using assms(2) find inv(2) mn(2) by (fastforce simp: deadlines_ok_def list_all_iff)
  obtain t d m where r: "min_deadline_loop ?its ?mn False = ((t, d), m)" by (metis surj_pair)
  obtain u du where u: "?f u = Some du" using assms(3) by (metis not_None_eq)
  then have ne: "(u, du) \<in> set ?its" using find by blast
  have spec: "\<forall>it\<in>insert ?mn (set ?its). ts_ns d \<le> ts_ns (snd it)" "(t, d) \<in> set ?its"
    using min_deadline_loop_spec [OF _ mn(1) r] its ne by auto
  then have td: "?f t = Some d" and least: "\<forall>u d'. ?f u = Some d' \<longrightarrow> ts_ns d \<le> ts_ns d'" using find by force+
  have m: "m \<longleftrightarrow> 1 < same_deadlines (ts_ns d) ?its"
  proof (cases ?its)
    case (Cons it rest)
    have "\<not> timespec_compare (snd it) (snd ?mn) > 0" using its timespec_compare_ns(1) [of "snd it" "snd ?mn"] mn(1) Cons by auto
    then have "min_deadline_loop rest it False = ((t, d), m)" using r Cons by (simp add: Let_def)
    from min_deadline_loop_multiple [OF _ _ _ _ this, of "[it]"] its Cons show ?thesis by (simp add: same_deadlines_def)
  qed (use ne in simp)
  have E: "earliest ?f = set (map fst (filter (\<lambda>it. ts_ns (snd it) = ts_ns d) ?its))"
  proof (rule set_eqI)
    fix x
    have "x \<in> earliest ?f \<longleftrightarrow> (\<exists>e. (x, e) \<in> set ?its \<and> ts_ns e = ts_ns d)"
      using td least find by (auto simp: earliest_def intro!: antisym)
    then show "x \<in> earliest ?f \<longleftrightarrow> x \<in> set (map fst (filter (\<lambda>it. ts_ns (snd it) = ts_ns d) ?its))" by force
  qed
  have "distinct (map fst ?its)" using inv(1) by (simp add: map_inv_def map_iterate_def)
  then have "distinct (map fst (filter (\<lambda>it. ts_ns (snd it) = ts_ns d) ?its))" by (rule distinct_map_filter)
  then have card: "card (earliest ?f) = same_deadlines (ts_ns d) ?its" unfolding E same_deadlines_def by (metis distinct_card length_map)
  have tE: "t \<in> earliest ?f" using td least by (auto simp: earliest_def)
  have fin: "finite (earliest ?f)" unfolding E by simp
  have "m \<longleftrightarrow> earliest ?f \<noteq> {t}"
  proof
    assume "m" then show "earliest ?f \<noteq> {t}" using m card by auto
  next
    assume "earliest ?f \<noteq> {t}"
    then have "card {t} < card (earliest ?f)" using tE fin by (intro psubset_card_mono) auto
    then show m using m card by simp
  qed
  moreover have "ts_norm d" "ts_ns d < 2 ^ 62" using its spec(2) mn(2) by (fastforce simp: INT32_MAX_def)+
  moreover have "t \<noteq> NO_TASK" using its spec(2) by auto
  ultimately show thesis using that r td tE by blast
qed

lemma earliest_passed:
  assumes "sched_ok s" and "deadlines_ok s" and "t \<in> earliest (map_find (td_timeouts s))" and "map_find (td_timeouts s) t = Some d"
    and "ts_ns d \<le> ts_ns (clock_now fp c)"
  shows "earliest (map_find (td_timeouts s)) \<subseteq> passed (clock_now fp c) (map_find (td_timeouts s))"
proof
  fix u assume "u \<in> earliest (map_find (td_timeouts s))"
  then obtain du where u: "map_find (td_timeouts s) u = Some du" "ts_ns du \<le> ts_ns d" using assms(4) by (auto simp: earliest_def)
  have inv: "map_inv (td_timeouts s)" using assms(1) by (simp add: sched_ok_def timed_ok_def)
  have "ts_norm du" using u(1) assms(2) map_iterate_find [OF inv, of u du] by (auto simp: deadlines_ok_def list_all_iff)
  then have "timespec_compare du (clock_now fp c) \<le> 0" using timespec_compare_le [OF _ clock_now_norm] u(2) assms(5) by simp
  with u(1) show "u \<in> passed (clock_now fp c) (map_find (td_timeouts s))" by (auto simp: passed_def)
qed

lemma time_leap_spec:
  assumes fp: "fp_grows fp" and ok: "sched_ok s" "polls_ok (td_poll s)" "deadlines_ok s" and ts: "tidset_inv tset"
    and some: "map_find (td_timeouts s) \<noteq> (\<lambda>_. None)"
    and ahead: "passed (clock_now fp (td_clock s)) (map_find (td_timeouts s)) = {}"
  obtains tset' s' t d P where "time_leap fp tset s = Some (Inr (tset', s'))" and "map_find (td_timeouts s) t = Some d"
    and "t \<in> earliest (map_find (td_timeouts s))" and "lotto_clock_leap fp d (td_clock s) = Some (Inr (td_clock s'))"
    and "ts_ns d \<le> ts_ns (clock_now fp (td_clock s'))" and "tidset_inv tset'" and "tids tset' = tids tset \<union> P" and "timed_out P s s'"
    and "P = (if earliest (map_find (td_timeouts s)) = {t} then {t} else passed (clock_now fp (td_clock s')) (map_find (td_timeouts s)))"
proof -
  let ?f = "map_find (td_timeouts s)"
  obtain t d m where r: "min_deadline_loop (map_iterate (td_timeouts s)) (NO_TASK, zero_timespec\<lparr>tv_sec := INT32_MAX\<rparr>) False = ((t, d), m)"
      "?f t = Some d" "t \<in> earliest ?f" "t \<noteq> NO_TASK" "ts_norm d" "ts_ns d < 2 ^ 62" "m \<longleftrightarrow> earliest ?f \<noteq> {t}"
    by (rule min_deadline_found [OF ok(1,3) some])
  have "timespec_compare d (clock_now fp (td_clock s)) > 0" using ahead r(2) by (auto simp: passed_def not_le [symmetric])
  then have later: "ts_ns (clock_now fp (td_clock s)) \<le> ts_ns d" using timespec_compare_ns(1) [OF r(5) clock_now_norm] by simp
  obtain c where c: "lotto_clock_leap fp d (td_clock s) = Some (Inr c)" "ts_ns d \<le> ts_ns (clock_now fp c)"
    using lotto_clock_leap_reaches [OF fp r(5,6) later] by blast
  let ?s1 = "s\<lparr>td_clock := c\<rparr>"
  have ok1: "sched_ok ?s1" "polls_ok (td_poll ?s1)" using ok by (simp_all add: sched_ok_clock)
  have p: "timespec_compare d (clock_now fp (td_clock ?s1)) \<le> 0" using timespec_compare_le [OF r(5) clock_now_norm] c(2) by simp
  have leap: "time_leap fp tset s = Some (if m then check_deadlines fp tset ?s1
      else bindr (trigger_timeout fp tset t ?s1) (\<lambda>(tset, s). bindr (handler_timeout_deregister t s) (\<lambda>s. Inr (tset, s))))"
    using r(1,4) c(1) by (simp add: time_leap_def Let_def)
  have out: "timed_out Q s s' = timed_out Q ?s1 s'" for Q s' by (simp add: timed_out_def cong: if_cong)
  show thesis
  proof (cases m)
    case True
    obtain tset' s' where x: "check_deadlines fp tset ?s1 = Inr (tset', s')" "tidset_inv tset'"
        "tids tset' = tids tset \<union> passed (clock_now fp (td_clock ?s1)) (map_find (td_timeouts ?s1))"
        "timed_out (passed (clock_now fp (td_clock ?s1)) (map_find (td_timeouts ?s1))) ?s1 s'" "td_clock s' = td_clock ?s1"
      by (rule check_deadlines_spec [OF ok1 ts])
    show thesis by (rule that [OF _ r(2,3), of tset' s']) (use leap True x c r(7) in \<open>simp_all add: out\<close>)
  next
    case False
    have f1: "map_find (td_timeouts ?s1) t = Some d" using r(2) by simp
    obtain tset' s' s'' where x: "trigger_timeout fp tset t ?s1 = Inr (tset', s')" "handler_timeout_deregister t s' = Inr s''"
        "tidset_inv tset'" "tids tset' = insert t (tids tset)" "timed_out {t} ?s1 s''" "td_clock s'' = td_clock ?s1"
      by (rule trigger_timeout_spec [OF ok1 f1 p ts])
    show thesis by (rule that [OF _ r(2,3), of tset' s'']) (use leap False x c r(7) in \<open>simp_all add: out\<close>)
  qed
qed

section \<open>Waking tasks\<close>

text \<open>The tasks \<open>W\<close> leave the queue and the waiting tasks, with their deadlines.\<close>

definition woken :: "task_id set \<Rightarrow> evec \<Rightarrow> timed \<Rightarrow> evec \<Rightarrow> timed \<Rightarrow> bool" where
  "woken W e s e' s' \<longleftrightarrow> evec_ok e' \<and> tids (ev_waiters e') = tids (ev_waiters e) - W \<and>
     map_find (ev_deadlines e') = (\<lambda>t. if t \<in> W then None else map_find (ev_deadlines e) t) \<and>
     tidset_inv (td_waiters s') \<and> tids (td_waiters s') = tids (td_waiters s) - W \<and> td_evecs s' = td_evecs s \<and>
     map_inv (td_timeouts s') \<and> (\<forall>a. td_mem s' a \<noteq> td_mem s a \<longrightarrow> td_mem s' a = TIMED_WAIT_INVALID)"

lemma woken_trans: "woken W e s e1 s1 \<Longrightarrow> woken W' e1 s1 e2 s2 \<Longrightarrow> woken (W \<union> W') e s e2 s2"
  unfolding woken_def by (auto simp: fun_eq_iff) metis

text \<open>One pass: whatever the generator draws, a task of the queue is taken out.\<close>

lemma wake_step:
  assumes e: "evec_ok e" and s: "tidset_inv (td_waiters s)" "map_inv (td_timeouts s)"
    and cnt: "cnt > 0" and q: "tids (ev_waiters e) \<noteq> {}" and small: "tidset_size (ev_waiters e) < 2 ^ 64"
  obtains w e1 s1 where "wake_loop rr cnt e s = wake_loop rr (cnt - 1) e1 s1" and "w \<in> tids (ev_waiters e)" and "woken {w} e s e1 s1"
proof -
  have inv: "tidset_inv (ev_waiters e)" "map_inv (ev_deadlines e)" using e by (simp_all add: evec_ok_def)
  let ?n = "tidset_size (ev_waiters e)"
  have n: "?n > 0" using q inv(1) tidset_size_card [of "ev_waiters e"] by (simp add: card_gt_0_iff tids_def)
  have un: "unat (of_nat ?n :: 64 word) = ?n" using small by (rule unat_of_nat64)
  then have "(0 :: 64 word) < of_nat ?n" using n by (simp add: word_less_nat_alt)
  then obtain v seed where v: "prng_range rr (td_seed s) 0 (of_nat ?n) = Inr (v, seed)" "v < of_nat ?n"
    using prng_bounds [of 0 "of_nat ?n" rr "td_seed s"] by auto
  then have "unat v < ?n" using un by (simp add: word_less_nat_alt)
  then obtain w where w: "tidset_get (ev_waiters e) (unat v) = Inr w" "w \<in> tids (ev_waiters e)"
    using tidset_get_mem [OF inv(1)] by blast
  then have w0: "w \<noteq> NO_TASK" using e by (auto simp: evec_ok_def)
  obtain ws where ws: "tidset_remove (ev_waiters e) w = Inr (w \<in> tids (ev_waiters e), ws)" "tidset_inv ws" "tids ws = tids (ev_waiters e) - {w}"
    using tidset_remove_inv [OF inv(1)] by blast
  obtain gs where gs: "tidset_remove (td_waiters s) w = Inr (w \<in> tids (td_waiters s), gs)" "tidset_inv gs" "tids gs = tids (td_waiters s) - {w}"
    using tidset_remove_inv [OF s(1)] by blast
  let ?ds = "map_deregister (ev_deadlines e) w"
  let ?e = "\<lparr>ev_waiters = ws, ev_deadlines = ?ds\<rparr>"
  have eok: "evec_ok ?e" using e ws(2,3) by (auto simp: evec_ok_def map_inv_deregister map_find_deregister)
  show thesis
  proof (cases "map_find (ev_deadlines e) w")
    case None
    then have ds: "?ds = ev_deadlines e" by (simp add: map_deregister_def)
    let ?s = "s\<lparr>td_seed := seed, td_waiters := gs\<rparr>"
    have "wake_loop rr cnt e s = wake_loop rr (cnt - 1) ?e ?s"
      using cnt n v(1) w(1) w0 ws(1) gs(1) None ds by (simp add: wake_loop.simps [of rr cnt e s])
    moreover have "woken {w} e s ?e ?s"
      using eok ws(3) gs(2,3) s(2) None map_find_deregister [OF inv(2)] by (auto simp: woken_def fun_eq_iff)
    ultimately show thesis using that w(2) by blast
  next
    case (Some d)
    let ?b = "s\<lparr>td_seed := seed, td_mem := (td_mem s)(dd_ret d := TIMED_WAIT_INVALID)\<rparr>"
    let ?c = "?b\<lparr>td_timeouts := map_deregister (td_timeouts ?b) w, td_waiters := gs\<rparr>"
    have "wake_loop rr cnt e s = wake_loop rr (cnt - 1) ?e ?c"
      using cnt n v(1) w(1) w0 ws(1) gs(1) Some timeout_deregister_ok [OF w0, of ?b] by (simp add: wake_loop.simps [of rr cnt e s])
    moreover have "woken {w} e s ?e ?c"
      using eok ws(3) gs(2,3) s(2) map_find_deregister [OF inv(2)] by (auto simp: woken_def fun_eq_iff map_inv_deregister)
    ultimately show thesis using that w(2) by blast
  qed
qed

lemma wake_loop_spec:
  "evec_ok e \<Longrightarrow> tidset_inv (td_waiters s) \<Longrightarrow> map_inv (td_timeouts s) \<Longrightarrow> tidset_size (ev_waiters e) < 2 ^ 64 \<Longrightarrow>
   \<exists>W e' s'. wake_loop rr cnt e s = Inr (e', s') \<and> W \<subseteq> tids (ev_waiters e) \<and> card W = min cnt (card (tids (ev_waiters e))) \<and>
     woken W e s e' s'"
proof (induction cnt arbitrary: e s)
  case 0
  then show ?case
    by (intro exI [of _ "{}"] exI [of _ e] exI [of _ s]) (simp add: wake_loop.simps [of rr 0] woken_def)
next
  case (Suc cnt)
  have inv: "tidset_inv (ev_waiters e)" using Suc.prems(1) by (simp add: evec_ok_def)
  have fin: "finite (tids (ev_waiters e))" by (simp add: tids_def)
  show ?case
  proof (cases "tids (ev_waiters e) = {}")
    case True
    then have "tidset_size (ev_waiters e) = 0" using tidset_size_card [OF inv] by simp
    with True Suc.prems show ?thesis
      by (intro exI [of _ "{}"] exI [of _ e] exI [of _ s]) (simp add: wake_loop.simps [of rr "Suc cnt"] woken_def)
  next
    case False
    obtain w e1 s1 where x: "wake_loop rr (Suc cnt) e s = wake_loop rr (Suc cnt - 1) e1 s1" "w \<in> tids (ev_waiters e)" "woken {w} e s e1 s1"
      by (rule wake_step [OF Suc.prems(1-3) _ False Suc.prems(4), where rr = rr and cnt = "Suc cnt"]) simp
    have e1: "evec_ok e1" "tids (ev_waiters e1) = tids (ev_waiters e) - {w}" using x(3) by (simp_all add: woken_def)
    then have "tidset_size (ev_waiters e1) \<le> tidset_size (ev_waiters e)"
      using tidset_size_card [OF inv] tidset_size_card [of "ev_waiters e1"] fin by (simp add: evec_ok_def card_mono)
    then have small: "tidset_size (ev_waiters e1) < 2 ^ 64" using Suc.prems(4) by simp
    have i1: "tidset_inv (td_waiters s1)" "map_inv (td_timeouts s1)" using x(3) by (simp_all add: woken_def)
    obtain W e' s' where r: "wake_loop rr cnt e1 s1 = Inr (e', s')" "W \<subseteq> tids (ev_waiters e1)" "card W = min cnt (card (tids (ev_waiters e1)))"
        "woken W e1 s1 e' s'" using Suc.IH [OF e1(1) i1 small] by blast
    have wW: "w \<notin> W" "finite W" using r(2) e1(2) fin finite_subset [of W "tids (ev_waiters e)"] by auto
    have "card (insert w W) = min (Suc cnt) (card (tids (ev_waiters e)))"
      using r(3) wW e1(2) x(2) fin card_Suc_Diff1 [OF fin x(2)] by simp
    moreover have "woken (insert w W) e s e' s'" using woken_trans [OF x(3) r(4)] by simp
    ultimately show ?thesis using x(1,2) r(1,2) e1(2) by (intro exI [of _ "insert w W"] exI [of _ e'] exI [of _ s']) auto
  qed
qed

section \<open>Sleeping\<close>

lemma uint_of_int64: "0 \<le> n \<Longrightarrow> n < 2 ^ 64 \<Longrightarrow> uint (of_int n :: 64 word) = n"
  by (simp add: unsigned_of_int take_bit_int_eq_self_iff)

lemma split_ns: "uint (w div NSEC_IN_SEC) * 1000000000 + uint (w mod NSEC_IN_SEC) = uint w"
  by (simp add: uint_div uint_mod NSEC_IN_SEC_def)

lemma deadline_from_duration_spec:
  assumes "0 \<le> tv_sec dur" and "ts_norm dur" and "ts_ns dur < 2 ^ 64"
  shows "\<exists>d. deadline_from_duration fp dur s = Inr d \<and> ts_norm d \<and> ts_ns d = ts_ns (clock_now fp (td_clock s)) + ts_ns dur div 10"
proof -
  let ?now = "clock_now fp (td_clock s)"
  let ?dur = "of_int (tv_sec dur) * NSEC_IN_SEC + of_int (tv_nsec dur) :: 64 word"
  have n: "0 \<le> ts_ns dur" using assms(1,2) by (simp add: ts_ns_def ts_norm_def)
  have "?dur = of_int (ts_ns dur)" by (simp add: ts_ns_def NSEC_IN_SEC_def)
  then have "uint ?dur = ts_ns dur" using uint_of_int64 [OF n assms(3)] by simp
  then have dd: "uint (?dur div SLEEP_DIVISOR) = ts_ns dur div 10" by (simp add: uint_div SLEEP_DIVISOR_def)
  have now: "0 \<le> tv_nsec ?now" "tv_nsec ?now < 1000000000" using clock_now_norm by (simp_all add: ts_norm_def)
  let ?dl = "of_int (tv_nsec ?now) + ?dur div SLEEP_DIVISOR :: 64 word"
  have un: "uint (of_int (tv_nsec ?now) :: 64 word) = tv_nsec ?now" using now by (intro uint_of_int64) auto
  have q: "0 \<le> ts_ns dur div 10" "ts_ns dur div 10 \<le> 2 ^ 64 div 10" using n assms(3) by (simp_all add: zdiv_mono1)
  then have "tv_nsec ?now + ts_ns dur div 10 < 2 ^ 64" using now(2) by simp
  then have dl: "uint ?dl = tv_nsec ?now + ts_ns dur div 10"
    using now(1) q(1) unfolding uint_word_ariths un dd by simp
  let ?d = "\<lparr>tv_sec = tv_sec ?now + uint (?dl div NSEC_IN_SEC), tv_nsec = uint (?dl mod NSEC_IN_SEC)\<rparr>"
  have "deadline_from_duration fp dur s = Inr ?d" by (simp add: deadline_from_duration_def lotto_clock_time_now Let_def)
  moreover have "ts_norm ?d" by (simp add: ts_norm_def uint_mod NSEC_IN_SEC_def)
  moreover have "ts_ns ?d = tv_sec ?now * 1000000000 + uint ?dl"
    using split_ns [of ?dl] by (simp add: ts_ns_def distrib_right)
  ultimately show ?thesis by (auto simp: dl ts_ns_def)
qed

section \<open>Concrete runs\<close>

text \<open>An event of a task: the capture, and the resumption unless the task has to wait.\<close>

definition evec_run :: "clock_fp \<Rightarrow> rand_r \<Rightarrow> task_id \<times> evec_event \<Rightarrow> timed \<Rightarrow> timed result" where
  "evec_run fp rr = (\<lambda>(t, ev) s.
     bindr (evec_handle fp (\<lambda>_. ev) (event_cp 1 t 0) sample_event s) (\<lambda>(_, s).
     bindr (tidset_has (td_waiters s) t) (\<lambda>w.
       if w then Inr s else evec_resume rr (\<lambda>_. ev) (event_cp 1 t 0) s)))"

fun evec_runs :: "clock_fp \<Rightarrow> rand_r \<Rightarrow> (task_id \<times> evec_event) list \<Rightarrow> timed \<Rightarrow> timed result" where
  "evec_runs fp rr [] s = Inr s"
| "evec_runs fp rr (x # xs) s = bindr (evec_run fp rr x s) (evec_runs fp rr xs)"

text \<open>The clock moves to a cost.\<close>

definition pass_time :: "64 word \<Rightarrow> timed \<Rightarrow> timed result" where
  "pass_time c s = bindr (clock_tick \<lparr>cc_base_inc = 1, cc_mult_inc = 100000, cc_max_gap = 1, cc_burst_gap = 1\<rparr> c (td_clock s))
     (\<lambda>ck. Inr (s\<lparr>td_clock := ck\<rparr>))"

text \<open>A clock without drift and a generator that always draws 0.\<close>

definition plain_fp :: clock_fp where
  "plain_fp = \<lparr>fp_ns = (\<lambda>b. b), fp_cost = of_int\<rparr>"

definition zero_rand :: rand_r where
  "zero_rand seed = (0, seed)"

definition quiet :: timed where
  "quiet = timed_init clock_init (\<lambda>_. TIMED_WAIT_TIMEOUT) 0"

lemma plain_fp_grows: "fp_grows plain_fp"
  by (simp add: fp_grows_def plain_fp_def)

lemma quiet_ok: "sched_ok quiet" "timed_ok quiet" "waits_ok quiet"
  by (auto simp: sched_ok_def timed_ok_def waits_ok_def timeouts_ok_def quiet_def timed_init_def evec_find_def evec_dl_def)

text \<open>Task 5 is in the queue at 10 and waits with a deadline at second 20, its status is at 100.\<close>

definition one_waiting :: timed where
  "one_waiting = quiet\<lparr>td_timeouts := \<lparr>map_chain = [(5, \<lparr>tv_sec = 20, tv_nsec = 0\<rparr>)], map_nitems = 1\<rparr>,
     td_evecs := \<lparr>map_chain = [(10, \<lparr>ev_waiters = \<lparr>ts_capacity = 1, ts_size = 1, ts_tasks = Some [5]\<rparr>,
       ev_deadlines = \<lparr>map_chain = [(5, \<lparr>dd_deadline = \<lparr>tv_sec = 20, tv_nsec = 0\<rparr>, dd_ret = 100\<rparr>)], map_nitems = 1\<rparr>\<rparr>)], map_nitems = 1\<rparr>,
     td_waiters := \<lparr>ts_capacity = 1, ts_size = 1, ts_tasks = Some [5]\<rparr>\<rparr>"

lemma one_waiting_find:
  "evec_find one_waiting k = (if k = 10 then Some \<lparr>ev_waiters = \<lparr>ts_capacity = 1, ts_size = 1, ts_tasks = Some [5]\<rparr>,
     ev_deadlines = \<lparr>map_chain = [(5, \<lparr>dd_deadline = \<lparr>tv_sec = 20, tv_nsec = 0\<rparr>, dd_ret = 100\<rparr>)], map_nitems = 1\<rparr>\<rparr> else None)"
  by (simp add: evec_find_def one_waiting_def map_find_def)

lemma single_tidset: "tidset_inv \<lparr>ts_capacity = 1, ts_size = 1, ts_tasks = Some [t]\<rparr>" "tids \<lparr>ts_capacity = 1, ts_size = 1, ts_tasks = Some [t]\<rparr> = {t}"
  by (simp_all add: tidset_inv_def tidset_wf_def tidset_list_def tids_def)

lemma one_waiting_dl:
  "evec_dl one_waiting k t = (if k = 10 \<and> t = 5 then Some \<lparr>dd_deadline = \<lparr>tv_sec = 20, tv_nsec = 0\<rparr>, dd_ret = 100\<rparr> else None)"
  by (simp add: evec_dl_def one_waiting_find map_find_def)

lemma one_waiting_waiters: "td_waiters one_waiting = \<lparr>ts_capacity = 1, ts_size = 1, ts_tasks = Some [5]\<rparr>"
  by (simp add: one_waiting_def)

lemma one_waiting_tids: "tids (td_waiters one_waiting) = {5}"
  using single_tidset(2) [of 5] by (simp add: one_waiting_waiters)

lemma one_waiting_timeouts: "map_find (td_timeouts one_waiting) t = (if t = 5 then Some \<lparr>tv_sec = 20, tv_nsec = 0\<rparr> else None)"
  by (simp add: one_waiting_def map_find_def)

lemma one_waiting_ok: "timed_ok one_waiting" "waits_ok one_waiting" "sched_ok one_waiting"
proof -
  have "evec_ok e" if "evec_find one_waiting k = Some e" for k e
    using that single_tidset [of 5]
    by (auto simp: one_waiting_find evec_ok_def NO_TASK_def map_inv_def map_find_def split: if_splits)
  moreover have "map_inv (td_timeouts one_waiting)" "map_inv (td_evecs one_waiting)" "tidset_inv (td_sleepers one_waiting)"
    by (simp_all add: one_waiting_def map_inv_def quiet_def timed_init_def)
  ultimately show t: "timed_ok one_waiting"
    using single_tidset(1) [of 5] by (simp add: timed_ok_def one_waiting_timeouts one_waiting_waiters NO_TASK_def)
  show w: "waits_ok one_waiting" using single_tidset(2) [of 5] by (simp add: waits_ok_def one_waiting_dl one_waiting_waiters)
  have "timeouts_ok one_waiting" by (auto simp: timeouts_ok_def one_waiting_timeouts one_waiting_dl split: if_splits)
  with t w show "sched_ok one_waiting" by (simp add: sched_ok_def)
qed

lemma plain_now: "clock_now plain_fp (td_clock quiet) = zero_timespec" "clock_now plain_fp (td_clock one_waiting) = zero_timespec"
  by (simp_all add: clock_now_def clock_ns_def clock_cost_def plain_fp_def quiet_def one_waiting_def timed_init_def clock_init_def
      zero_timespec_def NSEC_IN_SEC_def)

section \<open>Properties\<close>

text \<open>
  Claim C20. The capture handler of evec. From a state in which every task with a deadline waits and has one
  deadline, an event of a task that does not wait itself fails no assertion. The tasks whose deadline has passed stop
  waiting, the task of a wait event starts to wait exactly if it is still in the queue it prepared for,
  and exactly the waiting tasks are taken from the candidates. The conditions hold again afterwards.
\<close>

theorem evec_handle_blocks:
  assumes "timed_ok s" and "waits_ok s" and "cp_id cp \<notin> tids (td_waiters s)" and "cp_id cp \<noteq> NO_TASK"
    and "evec_event_ok (ev cp)" and "tidset_inv (e_tset e)" and "e_any_task_filter e = None"
  shows "\<exists>e' s'. evec_handle fp ev cp e s = Inr (e', s') \<and> timed_ok s' \<and> waits_ok s' \<and>
    tids (td_waiters s') = (tids (td_waiters s) - due (at_now fp False s)) \<union> (if blocks s (cp_id cp) (ev cp) then {cp_id cp} else {}) \<and>
    tids (e_tset e') = tids (e_tset e) - tids (td_waiters s')"
  using evec_handle_spec [of s cp ev e fp, OF assms] by blast

theorem evec_handle_blocks_witness:
  "\<exists>e' s'. evec_handle plain_fp (\<lambda>_. EvNone) (event_cp 1 6 0) sample_event one_waiting = Inr (e', s') \<and> timed_ok s' \<and>
     tids (e_tset e') = {6}"
proof -
  have "due (at_now plain_fp False one_waiting) = {}"
    by (auto simp: due_def expired_def one_waiting_dl plain_now timespec_compare_def zero_timespec_def split: if_splits)
  then show ?thesis
    using evec_handle_blocks [OF one_waiting_ok(1,2), of "event_cp 1 6 0" "\<lambda>_. EvNone" sample_event plain_fp]
    by (auto simp: sample_event_simps one_waiting_tids evec_event_ok_def blocks_def NO_TASK_def)
qed



text \<open>
  Claim C21. A wake takes as many tasks from the queue as it asks for, or all if there are fewer, whatever
  the random generator draws. No task of the queue is lost: it is either taken out or still in the queue. A task that is
  taken out between its prepare and its wait does not block afterwards; a timed wait does not write its
  status then, so that it keeps the value it was initialised with.
\<close>

theorem evec_wake_releases:
  assumes "timed_ok s" and "evec_find s a = Some e" and "tidset_size (ev_waiters e) < 2 ^ 64"
  shows "\<exists>W s'. posthandle_wake rr a cnt s = Inr s' \<and> W \<subseteq> tids (ev_waiters e) \<and>
    card W = min (unat cnt) (card (tids (ev_waiters e))) \<and> tids (td_waiters s') = tids (td_waiters s) - W \<and>
    (\<forall>w\<in>tids (ev_waiters e). waits_at s' w a \<longleftrightarrow> w \<notin> W) \<and>
    (\<forall>w\<in>W. handle_wait w a s' = Inr s' \<and> handle_timed_wait w a abstime ret s' = Inr s')"
proof -
  from assms(1) have o: "tidset_inv (td_waiters s)" "map_inv (td_timeouts s)" by (simp_all add: timed_ok_def)
  have eok: "evec_ok e" using assms(1,2) by (simp add: timed_ok_def)
  obtain W e' s1 where w: "wake_loop rr (unat cnt) e s = Inr (e', s1)" "W \<subseteq> tids (ev_waiters e)"
      "card W = min (unat cnt) (card (tids (ev_waiters e)))" "woken W e s e' s1"
    using wake_loop_spec [OF eok o assms(3)] by blast
  let ?s = "evec_store a e' s1"
  have run: "posthandle_wake rr a cnt s = Inr ?s" using assms(2) w(1) by (simp add: posthandle_wake_def)
  have "evec_find s1 a = Some e" using w(4) assms(2) by (simp add: evec_find_def woken_def)
  then have f: "evec_find ?s a = Some e'" using evec_find_store [of s1 a e e' a] by simp
  have e': "tids (ev_waiters e') = tids (ev_waiters e) - W" "tidset_inv (ev_waiters e')" using w(4) by (simp_all add: woken_def evec_ok_def)
  have tw: "tids (td_waiters ?s) = tids (td_waiters s) - W" "tidset_inv (td_waiters ?s)" using w(4) by (simp_all add: woken_def evec_store_def)
  have "handle_wait u a ?s = Inr ?s \<and> handle_timed_wait u a abstime ret ?s = Inr ?s" if "u \<in> W" for u
    using that f e' tw by (simp add: handle_wait_def handle_timed_wait_def tidset_has_inv)
  moreover have "\<forall>u\<in>tids (ev_waiters e). waits_at ?s u a \<longleftrightarrow> u \<notin> W" using f e'(1) by (auto simp: waits_at_def)
  ultimately show ?thesis using run w(2,3) tw(1) by blast
qed

theorem evec_wake_releases_witness:
  "\<exists>s'. posthandle_wake zero_rand 10 1 one_waiting = Inr s' \<and> tids (td_waiters s') = {} \<and> \<not> waits_at s' 5 10"
proof -
  let ?e = "\<lparr>ev_waiters = \<lparr>ts_capacity = 1, ts_size = 1, ts_tasks = Some [5]\<rparr>,
     ev_deadlines = \<lparr>map_chain = [(5, \<lparr>dd_deadline = \<lparr>tv_sec = 20, tv_nsec = 0\<rparr>, dd_ret = 100\<rparr>)], map_nitems = 1\<rparr>\<rparr>"
  have e: "evec_find one_waiting 10 = Some ?e" by (simp add: one_waiting_find)
  obtain W s' where w: "posthandle_wake zero_rand 10 1 one_waiting = Inr s'" "W \<subseteq> {5}" "card W = 1" "tids (td_waiters s') = {5} - W"
      "\<forall>w\<in>{5}. waits_at s' w 10 \<longleftrightarrow> w \<notin> W"
    using evec_wake_releases [OF one_waiting_ok(1) e, of zero_rand 1 True 100] single_tidset(2) [of 5]
    by (auto simp: one_waiting_tids tidset_size_def)
  then have "W = {5}" by (metis card.empty subset_singletonD zero_neq_one)
  with w show ?thesis by auto
qed

text \<open>
  Claim C22. A task sleeps until a tenth of the requested duration has passed: for every proper duration that
  fits into 64 bits of nanoseconds no step of the computation wraps around and the deadline is a proper time. The
  task gets that deadline, is among the sleeping tasks, and is no candidate.
\<close>

theorem sleep_until_deadline:
  assumes "timed_ok s" and "sc_enabled cfg" and "sc_mode cfg = SLEEP_MODE_UNTIL" and "cp_type_id cp = EVENT_SLEEP_YIELD"
    and "cp_id cp \<noteq> NO_TASK" and "\<not> e_skip e" and "e_any_task_filter e = None" and "tidset_inv (e_tset e)"
    and "0 \<le> tv_sec (dur cp)" and "ts_norm (dur cp)" and "ts_ns (dur cp) < 2 ^ 64" and "ts_ns (dur cp) \<noteq> 0"
  shows "\<exists>e' s' d. sleep_handle fp cfg dur cp e s = Inr (e', s') \<and> map_find (td_timeouts s') = (map_find (td_timeouts s))(cp_id cp \<mapsto> d) \<and>
    ts_norm d \<and> ts_ns d = ts_ns (clock_now fp (td_clock s)) + ts_ns (dur cp) div 10 \<and>
    tids (td_sleepers s') = insert (cp_id cp) (tids (td_sleepers s)) \<and> tids (e_tset e') = tids (e_tset e) - {cp_id cp}"
proof -
  obtain d where d: "deadline_from_duration fp (dur cp) s = Inr d" "ts_norm d" "ts_ns d = ts_ns (clock_now fp (td_clock s)) + ts_ns (dur cp) div 10"
    using deadline_from_duration_spec [OF assms(9-11)] by blast
  have o: "map_inv (td_timeouts s)" "tidset_inv (td_sleepers s)" using assms(1) by (simp_all add: timed_ok_def)
  obtain m where m: "handler_timeout_register (cp_id cp) d s = Inr (s\<lparr>td_timeouts := m\<rparr>)" "map_find m = (map_find (td_timeouts s))(cp_id cp \<mapsto> d)"
    using timeout_register_ok [OF o(1) assms(5)] by metis
  obtain ws where ws: "tidset_insert (td_sleepers s) (cp_id cp) = Inr (cp_id cp \<notin> tids (td_sleepers s), ws)"
      "tids ws = insert (cp_id cp) (tids (td_sleepers s))" using tidset_insert_inv [OF o(2)] by blast
  obtain ts where ts: "tidset_remove (e_tset e) (cp_id cp) = Inr (cp_id cp \<in> tids (e_tset e), ts)" "tids ts = tids (e_tset e) - {cp_id cp}"
    using tidset_remove_inv [OF assms(8)] by blast
  have nz: "\<not> is_zero_duration (dur cp)" using assms(12) by (auto simp: is_zero_duration_def ts_ns_def)
  show ?thesis
    using assms(2-8) nz d m ws ts by (auto simp: sleep_handle_def Let_def)
qed

theorem sleep_until_deadline_witness:
  "\<exists>e' s' d. sleep_handle plain_fp \<lparr>sc_enabled = True, sc_mode = SLEEP_MODE_UNTIL\<rparr> (\<lambda>_. \<lparr>tv_sec = 5, tv_nsec = 0\<rparr>)
     (event_cp EVENT_SLEEP_YIELD 6 0) sample_event quiet = Inr (e', s') \<and> map_find (td_timeouts s') 6 = Some d \<and> ts_ns d = 500000000"
  using sleep_until_deadline [OF quiet_ok(2), of "\<lparr>sc_enabled = True, sc_mode = SLEEP_MODE_UNTIL\<rparr>" "event_cp EVENT_SLEEP_YIELD 6 0"
      sample_event "\<lambda>_. \<lparr>tv_sec = 5, tv_nsec = 0\<rparr>" plain_fp]
  by (auto simp: sample_event_simps NO_TASK_def ts_norm_def ts_ns_def plain_now zero_timespec_def)

text \<open>
  A task whose timed wait has timed out stays in the queue of the evec. Two runs show what
  follows. A signal that picks such a task is lost: task 2 goes on waiting, although it was in the queue. When the
  task has started a timed wait on another evec, the signal removes it from the waiting tasks but leaves the
  deadline of the other evec, and the program stops with a failed assertion when that deadline passes.
\<close>

theorem evec_timed_out_stays_queued:
  "(case bindr (evec_runs plain_fp zero_rand [(1, EvPrepare 10), (1, EvTimedWait 10 True 100)] quiet) (\<lambda>s.
         bindr (pass_time 30000000000 s) (evec_runs plain_fp zero_rand [(2, EvPrepare 10), (2, EvWait 10), (3, EvWake 10 1)])) of
      Inl _ \<Rightarrow> False | Inr s \<Rightarrow> tids (td_waiters s) = {2}) \<and>
   bindr (evec_runs plain_fp zero_rand [(1, EvPrepare 10), (1, EvTimedWait 10 True 100)] quiet) (\<lambda>s.
     bindr (pass_time 30000000000 s) (\<lambda>s.
     bindr (evec_runs plain_fp zero_rand [(2, EvNone), (1, EvPrepare 20), (1, EvTimedWait 20 True 200), (2, EvWake 10 1)] s) (\<lambda>s.
     bindr (pass_time 60000000000 s) (evec_run plain_fp zero_rand (2, EvNone))))) = Inl AssertFailed"
  by (rule conjI) code_simp+

end
