(* ===== verification/Poll.thy ===== *)
theory Poll
  imports Timeouts
begin

text \<open>
  The capture handlers of the poll module (\<^verbatim>\<open>modules/poll/src/handler.c\<close>) on the tables of \<^verbatim>\<open>Poll_Table\<close>. A call of \<^verbatim>\<open>poll\<close> joins the
  waiting tasks, with a deadline if it has one. Every eighth event the module asks the operating system about all descriptors at once and hands
  the answers to the waiting tasks. After every event the waits with an answer end, and the others are taken from the candidates.
\<close>

section \<open>The handlers\<close>

definition NSEC_IN_MSEC :: "64 word" where "NSEC_IN_MSEC = 1000000"

definition poll_deadline :: "clock_fp \<Rightarrow> int \<Rightarrow> timed \<Rightarrow> timespec result" where
  "poll_deadline fp timeout s =
     bindr (lotto_clock_time fp (td_clock s)) (\<lambda>deadline.
       let timeout_ns = word_of_int timeout * NSEC_IN_MSEC;
           deadline_ns = of_int (tv_nsec deadline) + timeout_ns in
       Inr \<lparr>tv_sec = tv_sec deadline + uint (deadline_ns div NSEC_IN_SEC), tv_nsec = uint (deadline_ns mod NSEC_IN_SEC)\<rparr>)"

definition poll_wait :: "clock_fp \<Rightarrow> task_id \<Rightarrow> poll_event \<Rightarrow> timed \<Rightarrow> timed result" where
  "poll_wait fp t args s =
     bindr (tidmap_register zero_poll_event (po_polls (td_poll s)) t) (\<lambda>polls.
     bindr (if pe_timeout args \<noteq> 0 \<and> pe_timeout args \<noteq> -1
            then bindr (poll_deadline fp (pe_timeout args) s) (\<lambda>d. handler_timeout_register t d s)
            else Inr s) (\<lambda>s.
     bindr (wait_fds t (pe_fds args) (po_fds (td_poll s))) (\<lambda>(fds, m).
       Inr (s\<lparr>td_poll := (td_poll s)\<lparr>po_polls := map_write polls t (args\<lparr>pe_fds := fds\<rparr>), po_fds := m\<rparr>\<rparr>))))"

fun cleanup_polls_loop :: "(64 word \<times> poll_event) list \<Rightarrow> timed \<Rightarrow> timed result" where
  "cleanup_polls_loop [] s = Inr s"
| "cleanup_polls_loop ((t, args) # its) s =
     (if poll_waits_on args then cleanup_polls_loop its s
      else bindr (cleanup_poll t args (td_poll s)) (\<lambda>p.
           bindr (handler_timeout_deregister t (s\<lparr>td_poll := p\<rparr>)) (\<lambda>s.
           bindr (poll_drop t args (td_poll s)) (\<lambda>p. cleanup_polls_loop its (s\<lparr>td_poll := p\<rparr>)))))"

definition poll_cleanup :: "timed \<Rightarrow> timed result" where
  "poll_cleanup s =
     bindr (cleanup_polls_loop (map_iterate (po_polls (td_poll s))) s) (\<lambda>s.
     bindr (cleanup_fds (td_poll s)) (\<lambda>p. Inr (s\<lparr>td_poll := p\<rparr>)))"

text \<open>\<open>args\<close> reads the payload of the event.\<close>

definition poll_register_waiter :: "clock_fp \<Rightarrow> (capture_point \<Rightarrow> poll_event) \<Rightarrow> capture_point \<Rightarrow> timed \<Rightarrow> timed result" where
  "poll_register_waiter fp args cp s = (if cp_type_id cp = EVENT_POLL then poll_wait fp (cp_id cp) (args cp) s else Inr s)"

text \<open>The end of the handler: the waiting tasks are no candidates.\<close>

definition poll_filter :: "timed handler" where
  "poll_filter cp e s =
     bindr (tidset_remove_all_keys (e_tset e) (po_polls (td_poll s))) (\<lambda>ts.
     let e = e\<lparr>e_tset := ts\<rparr> in
     bindr (poll_should_wait (td_poll s) (cp_id cp)) (\<lambda>w.
       if w then assertr (e_any_task_filter e = None)
         (Inr (e\<lparr>e_is_chpt := True, e_any_task_filter := Some POLL_SHOULD_WAIT\<rparr>, s))
       else Inr (e, s)))"

text \<open>The part of \<^verbatim>\<open>_poll_help_waiters\<close> before the waits are ended.\<close>

definition poll_ask :: "sys_poll \<Rightarrow> polls \<Rightarrow> polls result" where
  "poll_ask sp p =
     bindr (if po_should_cleanup p then cleanup_fds (p\<lparr>po_should_cleanup := False\<rparr>) else Inr p) (\<lambda>p.
     let p = p\<lparr>po_help_counter := po_help_counter p + 1\<rparr> in
     if po_help_counter p mod POLL_HELP_INTERVAL = 0 then poll_all sp p else Inr p)"

definition poll_help_waiters :: "sys_poll \<Rightarrow> timed handler" where
  "poll_help_waiters sp cp e s =
     bindr (poll_ask sp (td_poll s)) (\<lambda>p. bindr (poll_cleanup (s\<lparr>td_poll := p\<rparr>)) (poll_filter cp e))"

text \<open>The two subscribers of the capture chain, in their order.\<close>

definition poll_handle :: "clock_fp \<Rightarrow> sys_poll \<Rightarrow> (capture_point \<Rightarrow> poll_event) \<Rightarrow> timed handler" where
  "poll_handle fp sp args cp e s = bindr (poll_register_waiter fp args cp s) (poll_help_waiters sp cp e)"

text \<open>The timeout with which \<^verbatim>\<open>ppoll\<close> calls \<^verbatim>\<open>poll\<close>; its arithmetic is unsigned, and the cast takes the low 32 bits.\<close>

definition MSEC_IN_SEC :: "64 word" where "MSEC_IN_SEC = 1000"

definition ppoll_timeout :: "timespec option \<Rightarrow> int" where
  "ppoll_timeout ts =
     (let timeout = (case ts of None \<Rightarrow> -1
        | Some ts \<Rightarrow> sint (ucast (word_of_int (tv_sec ts) * MSEC_IN_SEC + word_of_int (tv_nsec ts) div NSEC_IN_MSEC) :: 32 word)) in
      if timeout < -1 \<or> timeout > 100 then 100 else timeout)"

section \<open>The call\<close>

text \<open>The waits once the call of the event has joined them, the table of descriptors then, and the deadlines.\<close>

definition poll_calls :: "(capture_point \<Rightarrow> poll_event) \<Rightarrow> capture_point \<Rightarrow> polls \<Rightarrow> task_id \<rightharpoonup> poll_event" where
  "poll_calls args cp p =
     (if cp_type_id cp = EVENT_POLL then (map_find (po_polls p))(cp_id cp \<mapsto> waited (args cp)) else map_find (po_polls p))"

definition poll_table :: "(capture_point \<Rightarrow> poll_event) \<Rightarrow> capture_point \<Rightarrow> polls \<Rightarrow> polled_fd map_t" where
  "poll_table args cp p =
     (if cp_type_id cp = EVENT_POLL
      then case wait_fds (cp_id cp) (pe_fds (args cp)) (po_fds p) of Inl _ \<Rightarrow> po_fds p | Inr (_, m) \<Rightarrow> m
      else po_fds p)"

definition poll_deadlines :: "clock_fp \<Rightarrow> (capture_point \<Rightarrow> poll_event) \<Rightarrow> capture_point \<Rightarrow> timed \<Rightarrow> task_id \<rightharpoonup> timespec" where
  "poll_deadlines fp args cp s =
     (if cp_type_id cp = EVENT_POLL \<and> pe_timeout (args cp) \<noteq> 0 \<and> pe_timeout (args cp) \<noteq> -1
      then case poll_deadline fp (pe_timeout (args cp)) s of
          Inl _ \<Rightarrow> map_find (td_timeouts s)
        | Inr d \<Rightarrow> (map_find (td_timeouts s))(cp_id cp \<mapsto> d)
      else map_find (td_timeouts s))"

definition poll_call_ok :: "(capture_point \<Rightarrow> poll_event) \<Rightarrow> capture_point \<Rightarrow> polls \<Rightarrow> bool" where
  "poll_call_ok args cp p \<longleftrightarrow>
     cp_type_id cp = EVENT_POLL \<longrightarrow> map_find (po_polls p) (cp_id cp) = None \<and> list_all ok_fd (pe_fds (args cp)) \<and> pe_ret (args cp) = 0"

text \<open>A deadline is the requested number of milliseconds from now.\<close>

lemma poll_deadline_exact:
  assumes "0 \<le> timeout" and "timeout < 2 ^ 31"
  shows "\<exists>d. poll_deadline fp timeout s = Inr d \<and> ts_norm d \<and> ts_ns d = ts_ns (clock_now fp (td_clock s)) + timeout * 1000000"
proof -
  let ?now = "clock_now fp (td_clock s)"
  let ?dl = "of_int (tv_nsec ?now) + word_of_int timeout * NSEC_IN_MSEC :: 64 word"
  have now: "0 \<le> tv_nsec ?now" "tv_nsec ?now < 1000000000" using clock_now_norm by (simp_all add: ts_norm_def)
  have "?dl = of_int (tv_nsec ?now + timeout * 1000000)" by (simp add: NSEC_IN_MSEC_def)
  moreover have "uint (of_int (tv_nsec ?now + timeout * 1000000) :: 64 word) = tv_nsec ?now + timeout * 1000000"
    using assms now by (intro uint_of_int64) simp_all
  ultimately have dl: "uint ?dl = tv_nsec ?now + timeout * 1000000" by simp
  let ?d = "\<lparr>tv_sec = tv_sec ?now + uint (?dl div NSEC_IN_SEC), tv_nsec = uint (?dl mod NSEC_IN_SEC)\<rparr>"
  have "poll_deadline fp timeout s = Inr ?d" by (simp add: poll_deadline_def lotto_clock_time_now Let_def)
  moreover have "ts_norm ?d" by (simp add: ts_norm_def uint_mod NSEC_IN_SEC_def)
  moreover have "ts_ns ?d = tv_sec ?now * 1000000000 + uint ?dl" using split_ns [of ?dl] by (simp add: ts_ns_def distrib_right)
  ultimately show ?thesis by (auto simp: dl ts_ns_def)
qed

lemma poll_register_waiter_exact:
  assumes "poll_idle (td_poll s)" and "map_inv (td_timeouts s)" and "poll_call_ok args cp (td_poll s)" and "cp_id cp \<noteq> NO_TASK"
  obtains s' where "poll_register_waiter fp args cp s = Inr s'" and "poll_inv (td_poll s')" and "map_inv (td_timeouts s')"
    and "map_find (po_polls (td_poll s')) = poll_calls args cp (td_poll s)" and "po_fds (td_poll s') = poll_table args cp (td_poll s)"
    and "map_find (td_timeouts s') = poll_deadlines fp args cp s" and "po_done (td_poll s') = po_done (td_poll s)"
    and "po_help_counter (td_poll s') = po_help_counter (td_poll s)" and "po_should_cleanup (td_poll s') = po_should_cleanup (td_poll s)"
proof (cases "cp_type_id cp = EVENT_POLL")
  case False
  with assms(1,2) that show thesis by (simp add: poll_register_waiter_def poll_calls_def poll_table_def poll_deadlines_def poll_idle_def)
next
  case True
  let ?a = "args cp" and ?p = "td_poll s"
  have c: "map_find (po_polls ?p) (cp_id cp) = None" "list_all ok_fd (pe_fds ?a)" using assms(3) True by (simp_all add: poll_call_ok_def)
  have inv: "poll_inv ?p" using assms(1) by (simp add: poll_idle_def)
  obtain polls fds m p where j: "tidmap_register zero_poll_event (po_polls ?p) (cp_id cp) = Inr polls"
      "wait_fds (cp_id cp) (pe_fds ?a) (po_fds ?p) = Inr (fds, m)"
      "p = ?p\<lparr>po_polls := map_write polls (cp_id cp) (?a\<lparr>pe_fds := fds\<rparr>), po_fds := m\<rparr>" "poll_inv p"
      "map_find (po_polls p) = (map_find (po_polls ?p))(cp_id cp \<mapsto> waited ?a)"
    by (rule poll_join_exact [OF inv assms(4) c]) (rule that)
  obtain ti where ti: "(if pe_timeout ?a \<noteq> 0 \<and> pe_timeout ?a \<noteq> -1
            then bindr (poll_deadline fp (pe_timeout ?a) s) (\<lambda>d. handler_timeout_register (cp_id cp) d s)
            else Inr s) = Inr (s\<lparr>td_timeouts := ti\<rparr>)" "map_inv ti" "map_find ti = poll_deadlines fp args cp s"
  proof (cases "pe_timeout ?a \<noteq> 0 \<and> pe_timeout ?a \<noteq> -1")
    case True
    obtain d where d: "poll_deadline fp (pe_timeout ?a) s = Inr d" by (simp add: poll_deadline_def lotto_clock_time_now Let_def)
    obtain ti where "handler_timeout_register (cp_id cp) d s = Inr (s\<lparr>td_timeouts := ti\<rparr>)" "map_inv ti"
        "map_find ti = (map_find (td_timeouts s))(cp_id cp \<mapsto> d)"
      by (rule timeout_register_ok [OF assms(2,4)])
    with True d \<open>cp_type_id cp = EVENT_POLL\<close> that [of ti] show thesis by (simp add: poll_deadlines_def)
  next
    case False
    then show thesis using that [of "td_timeouts s"] assms(2) by (auto simp: poll_deadlines_def)
  qed
  have run: "poll_register_waiter fp args cp s = Inr (s\<lparr>td_timeouts := ti, td_poll := p\<rparr>)"
    using True j(1-3) ti(1) by (simp add: poll_register_waiter_def poll_wait_def)
  show thesis by (rule that [OF run]) (use j ti True in \<open>simp_all add: poll_calls_def poll_table_def\<close>)
qed

text \<open>The function \<^verbatim>\<open>_fd_init\<close> runs on an item that is there too: only the last caller is told about a descriptor.\<close>

lemma poll_table_waiters:
  assumes "poll_idle (td_poll s)" and "poll_call_ok args cp (td_poll s)" and "cp_id cp \<noteq> NO_TASK" and "cp_type_id cp = EVENT_POLL"
    and "0 \<le> fd" and "fd < 2 ^ 31 - 1"
  shows "fd_waiters (poll_table args cp (td_poll s)) fd =
    (if fd \<in> pf_fd ` set (pe_fds (args cp)) then {cp_id cp} else fd_waiters (po_fds (td_poll s)) fd)"
proof -
  have c: "map_find (po_polls (td_poll s)) (cp_id cp) = None" "list_all ok_fd (pe_fds (args cp))" using assms(2,4) by (simp_all add: poll_call_ok_def)
  have inv: "poll_inv (td_poll s)" using assms(1) by (simp add: poll_idle_def)
  obtain polls fds m p where "wait_fds (cp_id cp) (pe_fds (args cp)) (po_fds (td_poll s)) = Inr (fds, m)"
      "p = (td_poll s)\<lparr>po_polls := map_write polls (cp_id cp) ((args cp)\<lparr>pe_fds := fds\<rparr>), po_fds := m\<rparr>"
      "\<And>fd. 0 \<le> fd \<Longrightarrow> fd < 2 ^ 31 - 1 \<Longrightarrow> fd_waiters (po_fds p) fd =
        (if fd \<in> pf_fd ` set (pe_fds (args cp)) then {cp_id cp} else fd_waiters (po_fds (td_poll s)) fd)"
    by (rule poll_join_exact [OF inv assms(3) c]) (rule that)
  then show ?thesis using assms(4-6) by (simp add: poll_table_def)
qed


section \<open>Ending waits\<close>

text \<open>The waits that end are those with an answer, without a descriptor or with a timeout of 0.\<close>

definition ended :: "(task_id \<rightharpoonup> poll_event) \<Rightarrow> task_id set" where
  "ended g = {t. \<exists>a. g t = Some a \<and> \<not> poll_waits_on a}"

lemma ended_simps: "ended (g(t := None)) = ended g - {t}" "g t = Some a \<Longrightarrow> t \<in> ended g \<longleftrightarrow> \<not> poll_waits_on a"
  by (auto simp: ended_def)

text \<open>The tasks \<open>E\<close> stop waiting and find their payloads.\<close>

definition polls_end :: "task_id set \<Rightarrow> timed \<Rightarrow> timed \<Rightarrow> bool" where
  "polls_end E s s' \<longleftrightarrow> poll_inv (td_poll s') \<and> map_inv (td_timeouts s') \<and>
     po_should_cleanup (td_poll s') = po_should_cleanup (td_poll s) \<and>
     map_find (po_polls (td_poll s')) = (\<lambda>t. if t \<in> E then None else map_find (po_polls (td_poll s)) t) \<and>
     map_find (td_timeouts s') = (\<lambda>t. if t \<in> E then None else map_find (td_timeouts s) t) \<and>
     po_done (td_poll s') = (\<lambda>t. if t \<in> E then map_find (po_polls (td_poll s)) t else po_done (td_poll s) t)"

lemma polls_end_insert:
  assumes "polls_end {t} s s1" and "polls_end E s1 s2" and "t \<notin> E"
  shows "polls_end (insert t E) s s2"
  using assms by (auto simp: polls_end_def fun_eq_iff)

text \<open>The loop over the waits fails exactly when a wait that ends has a negative descriptor.\<close>

lemma cleanup_polls_loop_exact:
  assumes "poll_inv (td_poll s)" and "map_inv (td_timeouts s)" and "distinct (map fst its)"
    and "\<forall>t a. (t, a) \<in> set its \<longrightarrow> map_find (po_polls (td_poll s)) t = Some a"
  shows "if \<exists>(t, a)\<in>set its. \<not> poll_waits_on a \<and> negative_fds (pe_fds a) then cleanup_polls_loop its s = Inl AssertFailed
    else \<exists>s'. cleanup_polls_loop its s = Inr s' \<and> polls_end {t. \<exists>a. (t, a) \<in> set its \<and> \<not> poll_waits_on a} s s'"
  using assms
proof (induction its arbitrary: s)
  case Nil
  then show ?case by (simp add: polls_end_def)
next
  case (Cons it its)
  obtain t a where it: "it = (t, a)" by (cases it)
  have fa: "map_find (po_polls (td_poll s)) t = Some a" using Cons.prems(4) it by simp
  have d: "distinct (map fst its)" "\<And>b. (t, b) \<notin> set its" using Cons.prems(3) it by (auto simp: image_iff)
  let ?E = "{t. \<exists>a. (t, a) \<in> set its \<and> \<not> poll_waits_on a}"
  note ex = cleanup_drop_exact [OF Cons.prems(1) fa]
  consider (waits) "poll_waits_on a" | (fails) "\<not> poll_waits_on a" "negative_fds (pe_fds a)" | (ends) "\<not> poll_waits_on a" "\<not> negative_fds (pe_fds a)"
    by blast
  then show ?case
  proof cases
    case waits
    have "{t. \<exists>a. (t, a) \<in> set (it # its) \<and> \<not> poll_waits_on a} = ?E" using it waits by auto
    with Cons.IH [OF Cons.prems(1,2) d(1)] Cons.prems(4) it waits show ?thesis by simp
  next
    case fails
    with ex have "cleanup_polls_loop (it # its) s = Inl AssertFailed" by (simp add: it)
    with fails it show ?thesis by auto
  next
    case ends
    have t: "t \<noteq> NO_TASK" using fa Cons.prems(1) by (auto simp: poll_inv_def)
    obtain p1 p2 where p: "cleanup_poll t a (td_poll s) = Inr p1" "poll_drop t a p1 = Inr p2" "poll_inv p2"
        "map_find (po_polls p2) = (map_find (po_polls (td_poll s)))(t := None)" "po_done p2 = (po_done (td_poll s))(t \<mapsto> a)"
        "po_should_cleanup p2 = po_should_cleanup (td_poll s)"
      using ex ends(2) by auto
    let ?s = "s\<lparr>td_timeouts := map_deregister (td_timeouts s) t, td_poll := p2\<rparr>"
    have step: "cleanup_polls_loop (it # its) s = cleanup_polls_loop its ?s"
      using it ends(1) p(1,2) timeout_deregister_ok [OF t, of "s\<lparr>td_poll := p1\<rparr>"] by simp
    have end1: "polls_end {t} s ?s"
      using p fa map_find_deregister [OF Cons.prems(2)] Cons.prems(2) by (auto simp: polls_end_def fun_eq_iff map_inv_deregister)
    have "\<forall>u b. (u, b) \<in> set its \<longrightarrow> map_find (po_polls (td_poll ?s)) u = Some b" using Cons.prems(4) it d(2) p(4) by auto
    from Cons.IH [OF _ _ d(1) this] p(3) Cons.prems(2)
    have IH: "if \<exists>(t, a)\<in>set its. \<not> poll_waits_on a \<and> negative_fds (pe_fds a) then cleanup_polls_loop its ?s = Inl AssertFailed
      else \<exists>s'. cleanup_polls_loop its ?s = Inr s' \<and> polls_end ?E ?s s'" by (simp add: map_inv_deregister)
    have E: "{t. \<exists>a. (t, a) \<in> set (it # its) \<and> \<not> poll_waits_on a} = insert t ?E" using it ends(1) by auto
    have neg: "(\<exists>(t, a)\<in>set (it # its). \<not> poll_waits_on a \<and> negative_fds (pe_fds a)) = (\<exists>(t, a)\<in>set its. \<not> poll_waits_on a \<and> negative_fds (pe_fds a))"
      using it ends by auto
    have "t \<notin> ?E" using d(2) by blast
    then show ?thesis using IH polls_end_insert [OF end1, of ?E] unfolding step E neg by (auto split: if_splits)
  qed
qed

lemma poll_cleanup_exact:
  fixes s :: timed
  assumes "poll_inv (td_poll s)" and "map_inv (td_timeouts s)" and "\<And>k. all_requests (map_find (po_polls (td_poll s))) k < 2 ^ 64"
  defines "g \<equiv> map_find (po_polls (td_poll s))"
  shows "if \<exists>t a. g t = Some a \<and> \<not> poll_waits_on a \<and> negative_fds (pe_fds a) then poll_cleanup s = Inl AssertFailed
    else \<exists>s'. poll_cleanup s = Inr s' \<and> polls_end (ended g) s s'"
proof -
  let ?its = "map_iterate (po_polls (td_poll s))"
  have inv: "map_inv (po_polls (td_poll s))" using assms(1) by (simp add: poll_inv_def)
  have d: "distinct (map fst ?its)" using inv by (simp add: map_inv_def map_iterate_def)
  have its: "(t, a) \<in> set ?its \<longleftrightarrow> g t = Some a" for t a by (simp add: map_iterate_find [OF inv] g_def)
  have neg: "(\<exists>(t, a)\<in>set ?its. \<not> poll_waits_on a \<and> negative_fds (pe_fds a)) \<longleftrightarrow>
      (\<exists>t a. g t = Some a \<and> \<not> poll_waits_on a \<and> negative_fds (pe_fds a))" by (simp add: Bex_def split_paired_Ex its)
  have E: "{t. \<exists>a. (t, a) \<in> set ?its \<and> \<not> poll_waits_on a} = ended g" by (simp add: its ended_def)
  have "\<forall>t a. (t, a) \<in> set ?its \<longrightarrow> map_find (po_polls (td_poll s)) t = Some a" using its g_def by blast
  note ex = cleanup_polls_loop_exact [OF assms(1,2) d this, unfolded neg E]
  show ?thesis
  proof (cases "\<exists>t a. g t = Some a \<and> \<not> poll_waits_on a \<and> negative_fds (pe_fds a)")
    case True
    with ex have "cleanup_polls_loop ?its s = Inl AssertFailed" by simp
    with True show ?thesis by (simp add: poll_cleanup_def)
  next
    case False
    with ex obtain s1 where s1: "cleanup_polls_loop ?its s = Inr s1" "polls_end (ended g) s s1" by auto
    have "map_find (po_polls (td_poll s1)) t = None \<or> map_find (po_polls (td_poll s1)) t = map_find (po_polls (td_poll s)) t" for t
      using s1(2) by (simp add: polls_end_def)
    then have "all_requests (map_find (po_polls (td_poll s1))) k < 2 ^ 64" for k
      by (rule le_less_trans [OF all_requests_mono [OF finite_map_find] assms(3)])
    then obtain m where m: "cleanup_fds (td_poll s1) = Inr ((td_poll s1)\<lparr>po_fds := m\<rparr>)" "poll_inv ((td_poll s1)\<lparr>po_fds := m\<rparr>)"
      using cleanup_fds_inv [of "td_poll s1"] s1(2) by (auto simp: polls_end_def)
    then have "poll_cleanup s = Inr (s1\<lparr>td_poll := (td_poll s1)\<lparr>po_fds := m\<rparr>\<rparr>)" using s1(1) by (simp add: poll_cleanup_def)
    moreover have "polls_end (ended g) s (s1\<lparr>td_poll := (td_poll s1)\<lparr>po_fds := m\<rparr>\<rparr>)" using s1(2) m(2) by (simp add: polls_end_def)
    ultimately show ?thesis using False by auto
  qed
qed


section \<open>A whole event\<close>

text \<open>What the waiting tasks are told at an event: nothing, or, at every eighth one, what the system reports.\<close>

definition poll_told :: "sys_poll \<Rightarrow> polls \<Rightarrow> polled_fd map_t \<Rightarrow> (int \<Rightarrow> 16 word) option" where
  "poll_told sp p m = (if (po_help_counter p + 1) mod POLL_HELP_INTERVAL = 0 then poll_report sp m else Some (\<lambda>_. 0))"

definition poll_answers :: "(int \<Rightarrow> 16 word) \<Rightarrow> polled_fd map_t \<Rightarrow> (task_id \<rightharpoonup> poll_event) \<Rightarrow> task_id \<rightharpoonup> poll_event" where
  "poll_answers rep m f t = map_option (answer rep (fd_waiters m) t) (f t)"

lemma poll_ask_exact:
  assumes "poll_inv p" and "\<not> po_should_cleanup p" and "poll_ok sp" and "\<forall>t a. map_find (po_polls p) t = Some a \<longrightarrow> unanswered a"
  shows "case poll_told sp p (po_fds p) of
      None \<Rightarrow> poll_ask sp p = Inl AssertFailed
    | Some rep \<Rightarrow> \<exists>p'. poll_ask sp p = Inr p' \<and> poll_inv p' \<and> po_done p' = po_done p \<and> \<not> po_should_cleanup p' \<and>
        map_find (po_polls p') = poll_answers rep (po_fds p) (map_find (po_polls p))"
proof (cases "(po_help_counter p + 1) mod POLL_HELP_INTERVAL = 0")
  case True
  let ?p = "p\<lparr>po_help_counter := po_help_counter p + 1\<rparr>"
  have ask: "poll_ask sp p = poll_all sp ?p" using True assms(2) by (simp add: poll_ask_def)
  have t: "poll_told sp p (po_fds p) = poll_report sp (po_fds ?p)" using True by (simp add: poll_told_def)
  have "case poll_report sp (po_fds ?p) of
      None \<Rightarrow> poll_all sp ?p = Inl AssertFailed
    | Some rep \<Rightarrow> \<exists>m. poll_all sp ?p = Inr (?p\<lparr>po_polls := m\<rparr>) \<and> poll_inv (?p\<lparr>po_polls := m\<rparr>) \<and>
        map_find m = (\<lambda>t. map_option (answer rep (fd_waiters (po_fds ?p)) t) (map_find (po_polls ?p) t))"
    by (rule poll_all_exact) (use assms in simp_all)
  then show ?thesis unfolding ask t using assms(2) by (cases "poll_report sp (po_fds ?p)") (auto simp: poll_answers_def fun_eq_iff)
next
  case False
  have "poll_answers (\<lambda>_. 0) (po_fds p) (map_find (po_polls p)) t = map_find (po_polls p) t" for t
    using assms(4) answer_unanswered by (cases "map_find (po_polls p) t") (auto simp: poll_answers_def)
  then show ?thesis using False assms(1,2) by (simp add: poll_told_def poll_ask_def Let_def fun_eq_iff)
qed

lemma poll_calls_unanswered:
  assumes "poll_idle p" and "poll_call_ok args cp p" and "poll_calls args cp p t = Some a"
  shows "unanswered a"
  using assms waited_unanswered by (auto simp: poll_calls_def poll_call_ok_def poll_idle_def split: if_splits)

text \<open>A wait that goes on has no answer.\<close>

lemma answer_waits:
  assumes "unanswered a" and "poll_waits_on (answer rep W t a)"
  shows "answer rep W t a = a"
proof -
  have "pe_ret (answer rep W t a) = 0" using assms(2) by (simp add: poll_waits_on_def)
  then have b: "unanswered (answer rep W t a)" by (rule unanswered_answer)
  have "answer_fd rep W t p = p" if "p \<in> set (pe_fds a)" for p
  proof -
    have "pf_revents (answer_fd rep W t p) = 0" using b that by (simp add: unanswered_def answer_fds list_all_iff)
    moreover have "pf_revents p = 0" using assms(1) that by (simp add: unanswered_def list_all_iff)
    ultimately show ?thesis by (simp add: answer_fd_def)
  qed
  then have "map (answer_fd rep W t) (pe_fds a) = pe_fds a" by (rule map_idI)
  moreover have "with_events (pe_fds a) = pe_ret a" using assms(1) with_events_zero [of "pe_fds a"] by (simp add: unanswered_def)
  ultimately show ?thesis by (simp add: answer_def)
qed

lemma poll_answers_kept:
  assumes "poll_idle p" and "poll_call_ok args cp p" and "t \<notin> ended (poll_answers rep m (poll_calls args cp p))"
  shows "poll_answers rep m (poll_calls args cp p) t = poll_calls args cp p t"
proof (cases "poll_calls args cp p t")
  case (Some a)
  with assms(3) have "poll_waits_on (answer rep (fd_waiters m) t a)" by (simp add: ended_def poll_answers_def)
  from answer_waits [OF poll_calls_unanswered [OF assms(1,2) Some] this] Some show ?thesis by (simp add: poll_answers_def)
qed (simp add: poll_answers_def)

lemma poll_kept_idle:
  assumes "poll_idle p" and "poll_call_ok args cp p" and "poll_inv (td_poll s)" and "\<not> po_should_cleanup (td_poll s)"
    and "map_find (po_polls (td_poll s)) =
      (\<lambda>t. if t \<in> ended (poll_answers rep m (poll_calls args cp p)) then None else poll_calls args cp p t)"
  shows "poll_idle (td_poll s)"
proof -
  let ?g = "poll_answers rep m (poll_calls args cp p)"
  have "unanswered a \<and> poll_waits_on a" if a: "map_find (po_polls (td_poll s)) t = Some a" for t a
  proof -
    have t: "t \<notin> ended ?g" "poll_calls args cp p t = Some a" using a unfolding assms(5) by (simp_all split: if_splits)
    have "?g t = Some a" using poll_answers_kept [OF assms(1,2) t(1)] t(2) by simp
    then have "poll_waits_on a" using t(1) by (auto simp: ended_def)
    with poll_calls_unanswered [OF assms(1,2) t(2)] show ?thesis by simp
  qed
  with assms(3,4) show ?thesis by (simp add: poll_idle_def)
qed

lemma poll_filter_exact:
  assumes "tidset_inv (e_tset e)" and "NO_TASK \<notin> tids (e_tset e)" and "cp_id cp \<noteq> NO_TASK" and "e_any_task_filter e = None"
  obtains e' where "poll_filter cp e s = Inr (e', s)" and "tids (e_tset e') = {t \<in> tids (e_tset e). map_find (po_polls (td_poll s)) t = None}"
    and "e_is_chpt e' = (e_is_chpt e \<or> map_find (po_polls (td_poll s)) (cp_id cp) \<noteq> None)"
    and "e_any_task_filter e' = (if map_find (po_polls (td_poll s)) (cp_id cp) = None then None else Some POLL_SHOULD_WAIT)"
proof -
  obtain ts where ts: "tidset_remove_all_keys (e_tset e) (po_polls (td_poll s)) = Inr ts"
      "tids ts = {t \<in> tids (e_tset e). map_find (po_polls (td_poll s)) t = None}"
    using tidset_remove_all_keys_inv [OF assms(1,2)] by blast
  have w: "poll_should_wait (td_poll s) (cp_id cp) = Inr (map_find (po_polls (td_poll s)) (cp_id cp) \<noteq> None)"
    using assms(3) by (simp add: poll_should_wait_def tidmap_find_def)
  show thesis
  proof (cases "map_find (po_polls (td_poll s)) (cp_id cp)")
    case None
    with ts w assms(4) that [of "e\<lparr>e_tset := ts\<rparr>"] show thesis by (simp add: poll_filter_def)
  next
    case (Some a)
    with ts w assms(4) that [of "e\<lparr>e_tset := ts, e_is_chpt := True, e_any_task_filter := Some POLL_SHOULD_WAIT\<rparr>"] show thesis
      by (simp add: poll_filter_def)
  qed
qed


text \<open>
  A call of \<^verbatim>\<open>ppoll\<close> with a limit waits for that limit, but never for more than 100 milliseconds of the program's clock.
\<close>

lemma ppoll_timeout_exact:
  assumes "0 \<le> tv_sec ts" and "tv_sec ts < 2147483" and "0 \<le> tv_nsec ts" and "tv_nsec ts < 1000000000"
  shows "ppoll_timeout (Some ts) = min 100 (tv_sec ts * 1000 + tv_nsec ts div 1000000)"
proof -
  let ?ms = "tv_sec ts * 1000 + tv_nsec ts div 1000000"
  have "0 \<le> ?ms" "?ms < 2147483648" using assms by linarith+
  then have ms: "0 \<le> ?ms" "?ms < 2 ^ 31" by simp_all
  have div: "uint (word_of_int (tv_nsec ts) div NSEC_IN_MSEC :: 64 word) = tv_nsec ts div 1000000"
    using assms by (simp add: uint_div uint_word_of_int NSEC_IN_MSEC_def)
  have mul: "uint (word_of_int (tv_sec ts) * MSEC_IN_SEC :: 64 word) = tv_sec ts * 1000"
    using assms by (simp add: uint_word_arith_bintrs uint_word_of_int MSEC_IN_SEC_def take_bit_int_eq_self)
  let ?w = "word_of_int (tv_sec ts) * MSEC_IN_SEC + word_of_int (tv_nsec ts) div NSEC_IN_MSEC :: 64 word"
  have "uint ?w = ?ms" unfolding uint_word_ariths(1) div mul using ms by (intro mod_pos_pos_trivial) auto
  then have "uint (ucast ?w :: 32 word) = ?ms" using ms by (simp add: unsigned_ucast_eq take_bit_int_eq_self)
  then have "sint (ucast ?w :: 32 word) = ?ms" using ms by (simp add: sint_uint signed_take_bit_int_eq_self)
  with ms show ?thesis by (auto simp: ppoll_timeout_def Let_def min_def)
qed

section \<open>A call that is answered\<close>

text \<open>A system in which every descriptor has input, a system whose call fails, and the eighth event.\<close>

definition ready_poll :: sys_poll where
  "ready_poll fds = (int (length fds), map (\<lambda>p. p\<lparr>pf_revents := 1\<rparr>) fds)"

definition failing_poll :: sys_poll where
  "failing_poll fds = (-1, fds)"

definition sample_poll :: "capture_point \<Rightarrow> poll_event" where
  "sample_poll cp = \<lparr>pe_fds = [\<lparr>pf_fd = 5, pf_events = 1, pf_revents = 7\<rparr>], pe_timeout = -1, pe_ret = 0\<rparr>"

definition sample_timed :: timed where
  "sample_timed = quiet\<lparr>td_poll := polls_init\<lparr>po_help_counter := 7\<rparr>\<rparr>"

abbreviation sample_poll_cp :: capture_point where
  "sample_poll_cp \<equiv> event_cp EVENT_POLL 5 0"

definition sample_answer :: poll_event where
  "sample_answer = \<lparr>pe_fds = [\<lparr>pf_fd = 5, pf_events = 0x39, pf_revents = 1\<rparr>], pe_timeout = -1, pe_ret = 1\<rparr>"

lemma ready_poll_ok: "poll_ok ready_poll"
  by (simp add: poll_ok_def ready_poll_def comp_def with_events_def)

lemma failing_poll_ok: "poll_ok failing_poll"
  by (simp add: poll_ok_def failing_poll_def)

lemma sample_poll_hyps:
  "poll_idle (td_poll sample_timed)" "map_inv (td_timeouts sample_timed)" "poll_call_ok sample_poll sample_poll_cp (td_poll sample_timed)"
  "poll_calls sample_poll sample_poll_cp (td_poll sample_timed) = [5 \<mapsto> waited (sample_poll sample_poll_cp)]"
  "\<forall>k. all_requests (poll_calls sample_poll sample_poll_cp (td_poll sample_timed)) k < 2 ^ 64"
proof -
  show "poll_idle (td_poll sample_timed)" using poll_inv_init by (simp add: sample_timed_def poll_idle_def) (simp add: polls_init_def)
  show "map_inv (td_timeouts sample_timed)" by (simp add: sample_timed_def quiet_def timed_init_def)
  show "poll_call_ok sample_poll sample_poll_cp (td_poll sample_timed)"
    by (simp add: poll_call_ok_def sample_timed_def polls_init_def sample_poll_def ok_fd_def)
  show c: "poll_calls sample_poll sample_poll_cp (td_poll sample_timed) = [5 \<mapsto> waited (sample_poll sample_poll_cp)]"
    by (simp add: poll_calls_def sample_timed_def polls_init_def event_cp_def fun_eq_iff)
  have one: "all_requests (poll_calls sample_poll sample_poll_cp (td_poll sample_timed)) k \<le> 1" for k
    unfolding c by (simp add: all_requests_def dom_def sample_poll_def)
  show "\<forall>k. all_requests (poll_calls sample_poll sample_poll_cp (td_poll sample_timed)) k < 2 ^ 64"
    by (rule allI, rule le_less_trans [OF one]) simp
qed

lemma sample_poll_told:
  "\<exists>rep. poll_told ready_poll (td_poll sample_timed) (poll_table sample_poll sample_poll_cp (td_poll sample_timed)) = Some rep \<and>
    poll_answers rep (poll_table sample_poll sample_poll_cp (td_poll sample_timed)) [5 \<mapsto> waited (sample_poll sample_poll_cp)] = [5 \<mapsto> sample_answer]"
  "poll_told failing_poll (td_poll sample_timed) (poll_table sample_poll sample_poll_cp (td_poll sample_timed)) = None"
proof -
  have "(case poll_told ready_poll (td_poll sample_timed) (poll_table sample_poll sample_poll_cp (td_poll sample_timed)) of
      None \<Rightarrow> False
    | Some rep \<Rightarrow> answer rep (fd_waiters (poll_table sample_poll sample_poll_cp (td_poll sample_timed))) 5 (waited (sample_poll sample_poll_cp)) = sample_answer)"
    by code_simp
  then show "\<exists>rep. poll_told ready_poll (td_poll sample_timed) (poll_table sample_poll sample_poll_cp (td_poll sample_timed)) = Some rep \<and>
      poll_answers rep (poll_table sample_poll sample_poll_cp (td_poll sample_timed)) [5 \<mapsto> waited (sample_poll sample_poll_cp)] = [5 \<mapsto> sample_answer]"
    by (auto simp: poll_answers_def fun_eq_iff split: option.splits)
  have "Option.is_none (poll_told failing_poll (td_poll sample_timed) (poll_table sample_poll sample_poll_cp (td_poll sample_timed)))" by code_simp
  then show "poll_told failing_poll (td_poll sample_timed) (poll_table sample_poll sample_poll_cp (td_poll sample_timed)) = None"
    by (simp add: Option.is_none_def)
qed


end
