(* ===== verification/Modules.thy ===== *)
theory Modules
  imports Engine Mutex Rwlock Join Strategies Observers Blocking Deadlock Race Poll
begin

text \<open>
  The sequencer with the modelled modules plugged in. The handlers of the lock modules satisfy the contract of
  \<open>capture_handler\<close> too, and the handler of the timeout module that of \<open>candidate_handler\<close>: it adds tasks with a deadline. So the
  candidates that a capture chain of any of the modelled handlers, in any order, leaves are known.
\<close>

section \<open>The lock modules as handlers\<close>

text \<open>
  \<open>mutex_handle\<close> and \<open>join_handle\<close> contain a loop that could run forever and return an option. In a chain,
  no result is no decision.
\<close>

definition decided :: "(decision \<times> 's) result option \<Rightarrow> (decision \<times> 's) result" where
  "decided r = (case r of None \<Rightarrow> Inl Fault | Some r \<Rightarrow> r)"

lemma rwlock_remove_at_shrinks: "rwlock_remove_at l s = Inr s' \<Longrightarrow> tidset_inv s \<Longrightarrow> tidset_inv s' \<and> tids s' \<subseteq> tids s"
  by (auto simp: rwlock_remove_at_def bindr_eq_Inr dest!: tidset_subtract_shrinks split: if_splits)

lemma rwlock_remove_loop_shrinks: "rwlock_remove_loop its s = Inr s' \<Longrightarrow> tidset_inv s \<Longrightarrow> tidset_inv s' \<and> tids s' \<subseteq> tids s"
proof (induction its arbitrary: s)
  case (Cons it its)
  then obtain s1 where s1: "rwlock_remove_at (snd it) s = Inr s1" "rwlock_remove_loop its s1 = Inr s'" by (auto simp: bindr_eq_Inr)
  from rwlock_remove_at_shrinks [OF s1(1) Cons.prems(2)] Cons.IH [OF s1(2)] show ?case by auto
qed simp

lemma rwlock_handle_event_frame:
  "rwlock_handle_event ev cp e st = Inr (e', st') \<Longrightarrow> e_tset e' = e_tset e \<and> e_clk e' = e_clk e \<and> e_replay e' = e_replay e"
  by (auto simp: rwlock_handle_event_def rwlock_handle_rdlock_def rwlock_handle_wrlock_def Let_def result_elims
      split: option.splits rwlock_event.splits if_splits)

interpretation rwlock_h: capture_handler "rwlock_handle ev"
proof unfold_locales
  fix cp e s e' s'
  assume h: "rwlock_handle ev cp e s = Inr (e', s')"
  then have c: "e' = e \<or> (\<exists>e1 ts. rwlock_handle_event ev cp e s = Inr (e1, s') \<and>
      rwlock_remove_loop (map_iterate (hr_locks s')) (e_tset e1) = Inr ts \<and> e' = e1\<lparr>e_tset := ts\<rparr>)"
    by (auto simp: rwlock_handle_def result_elims split: if_splits)
  then show "tidset_inv (e_tset e) \<Longrightarrow> tidset_inv (e_tset e') \<and> tids (e_tset e') \<subseteq> tids (e_tset e)"
    by (auto dest!: rwlock_handle_event_frame rwlock_remove_loop_shrinks)
  from c show "e_clk e' = e_clk e \<and> e_replay e' = e_replay e" by (auto dest!: rwlock_handle_event_frame)
qed

lemma mutex_remove_waiters_shrinks:
  "mutex_remove_waiters_loop its s t w = Inr (w', s') \<Longrightarrow> tidset_inv s \<Longrightarrow> tidset_inv s' \<and> tids s' \<subseteq> tids s"
proof (induction its arbitrary: s w)
  case (Cons it its)
  then consider "mutex_remove_waiters_loop its s t w = Inr (w', s')"
    | s1 h where "tidset_subtract s (mtx_waiters (snd it)) = Inr s1" "mutex_remove_waiters_loop its s1 t (w \<or> h) = Inr (w', s')"
    by (auto simp: bindr_eq_Inr split: if_splits)
  then show ?case
  proof cases
    case 1
    with Cons show ?thesis by blast
  next
    case (2 s1 h)
    from tidset_subtract_shrinks [OF 2(1) Cons.prems(2)] Cons.IH [OF 2(2)] show ?thesis by auto
  qed
qed simp

lemma mutex_handle_event_frame:
  "mutex_handle_event cp e st = Inr (e', st') \<Longrightarrow> e_tset e' = e_tset e \<and> e_clk e' = e_clk e \<and> e_replay e' = e_replay e"
  by (auto simp: mutex_handle_event_def result_elims split: if_splits)

lemma mutex_handle_stages:
  assumes "mutex_handle cfg cp e s = Some (Inr (e', s'))"
  shows "e' = e \<or> (\<exists>e1 s1 w ts. mutex_handle_event cp e s = Inr (e1, s1) \<and> mutex_remove_waiters s1 (e_tset e1) (cp_id cp) = Inr (w, ts) \<and>
    e_tset e' = ts \<and> e_clk e' = e_clk e1 \<and> e_replay e' = e_replay e1)"
  using assms
  by (auto simp: mutex_handle_def bindr_eq_Inr split: if_splits sum.splits)

interpretation mutex_h: capture_handler "\<lambda>cp e s. decided (mutex_handle cfg cp e s)"
proof unfold_locales
  fix cp e s e' s'
  assume "decided (mutex_handle cfg cp e s) = Inr (e', s')"
  then have h: "mutex_handle cfg cp e s = Some (Inr (e', s'))" by (auto simp: decided_def split: option.splits)
  show "tidset_inv (e_tset e) \<Longrightarrow> tidset_inv (e_tset e') \<and> tids (e_tset e') \<subseteq> tids (e_tset e)"
    using mutex_handle_stages [OF h]
    by (auto simp: mutex_remove_waiters_def dest!: mutex_handle_event_frame mutex_remove_waiters_shrinks)
  show "e_clk e' = e_clk e \<and> e_replay e' = e_replay e"
    using mutex_handle_stages [OF h] by (auto dest!: mutex_handle_event_frame)
qed

lemma remove_all_keys_shrinks: "tidset_remove_all_keys s m = Inr s' \<Longrightarrow> tidset_inv s \<Longrightarrow> tidset_inv s' \<and> tids s' \<subseteq> tids s"
  by (auto simp: tidset_remove_all_keys_def dest!: tidset_keep_shrinks split: if_splits)

text \<open>\<open>ev\<close> decodes the payload of a capture point.\<close>

interpretation join_h: capture_handler "\<lambda>cp e s. decided (join_handle (cp_id cp) (ev cp) e s)"
proof unfold_locales
  fix cp e s e' s'
  assume "decided (join_handle (cp_id cp) (ev cp) e s) = Inr (e', s')"
  then have "join_handle (cp_id cp) (ev cp) e s = Some (Inr (e', s'))" by (auto simp: decided_def split: option.splits)
  then obtain s1 where h: "join_filter (cp_id cp) e s1 = Inr (e', s')"
    by (auto simp: join_handle_def bindr_eq_Inr split: if_splits)
  then show "tidset_inv (e_tset e) \<Longrightarrow> tidset_inv (e_tset e') \<and> tids (e_tset e') \<subseteq> tids (e_tset e)"
    by (auto simp: join_filter_def Let_def result_elims dest!: remove_all_keys_shrinks split: if_splits)
  from h show "e_clk e' = e_clk e \<and> e_replay e' = e_replay e"
    by (auto simp: join_filter_def Let_def result_elims split: if_splits)
qed

lemma bindo_eq_Inr: "bindo m k = Some (Inr y) \<longleftrightarrow> (\<exists>x. m = Some (Inr x) \<and> k x = Some (Inr y))"
  by (cases m; cases "the m") auto

interpretation deadlock_h: capture_handler "\<lambda>cp e s. decided (deadlock_handle try_ret cfg (ms cp) cp e s)"
  by unfold_locales
    (auto simp: decided_def deadlock_handle_def bindo_eq_Inr Let_def split: option.splits if_splits)

lemma evec_switch_frame:
  "evec_switch t ev e s = Inr (b, e', s') \<Longrightarrow> e_tset e' = e_tset e \<and> e_clk e' = e_clk e \<and> e_replay e' = e_replay e"
  by (auto simp: evec_switch_def bindr_eq_Inr split: evec_event.splits)

lemma evec_handle_stages:
  assumes "evec_handle fp ev cp e s = Inr (e', s')"
  obtains b e1 s1 s2 ts where "evec_switch (cp_id cp) (ev cp) e s1 = Inr (b, e1, s2)" and "tidset_subtract (e_tset e1) (td_waiters s2) = Inr ts"
    and "e_tset e' = ts" and "e_clk e' = e_clk e1" and "e_replay e' = e_replay e1"
proof -
  from assms obtain s1 x where 1: "evec_switch (cp_id cp) (ev cp) e s1 = Inr x"
    "(case x of (may_block, e, s) \<Rightarrow>
        bindr (tidset_subtract (e_tset e) (td_waiters s)) (\<lambda>ts.
          let e = e\<lparr>e_tset := ts\<rparr> in
          if may_block then assertr (e_any_task_filter e = None) (Inr (e\<lparr>e_any_task_filter := Some EVEC_SHOULD_WAIT\<rparr>, s))
          else Inr (e, s))) = Inr (e', s')"
    unfolding evec_handle_def assertr_eq_Inr by (elim conjE bindrE) (rule that)
  obtain b e1 s2 where x: "x = (b, e1, s2)" by (cases x)
  from 1(2) obtain ts where ts: "tidset_subtract (e_tset e1) (td_waiters s2) = Inr ts"
    and r: "(let e = e1\<lparr>e_tset := ts\<rparr> in
      if b then assertr (e_any_task_filter e = None) (Inr (e\<lparr>e_any_task_filter := Some EVEC_SHOULD_WAIT\<rparr>, s2))
      else Inr (e, s2)) = Inr (e', s')"
    unfolding x prod.case by (elim bindrE) (rule that)
  note 2 = 1(1) [unfolded x] ts r
  from 2(3) have "e_tset e' = ts" "e_clk e' = e_clk e1" "e_replay e' = e_replay e1"
    by (auto simp: Let_def assertr_eq_Inr split: if_splits)
  with 2(1,2) that show thesis by blast
qed

interpretation evec_h: capture_handler "evec_handle fp ev"
proof unfold_locales
  fix cp e s e' s'
  assume "evec_handle fp ev cp e s = Inr (e', s')"
  then obtain b e1 s1 s2 ts where h: "evec_switch (cp_id cp) (ev cp) e s1 = Inr (b, e1, s2)"
      "tidset_subtract (e_tset e1) (td_waiters s2) = Inr ts" "e_tset e' = ts" "e_clk e' = e_clk e1" "e_replay e' = e_replay e1"
    by (rule evec_handle_stages)
  note f = evec_switch_frame [OF h(1)]
  show "tidset_inv (e_tset e) \<Longrightarrow> tidset_inv (e_tset e') \<and> tids (e_tset e') \<subseteq> tids (e_tset e)"
    using tidset_subtract_shrinks [OF h(2)] f h(3) by simp
  show "e_clk e' = e_clk e \<and> e_replay e' = e_replay e" using f h(4,5) by simp
qed

lemma tidset_remove_shrinks: "tidset_remove s t = Inr (b, s') \<Longrightarrow> tidset_inv s \<Longrightarrow> tidset_inv s' \<and> tids s' \<subseteq> tids s"
  using tidset_remove_inv [of s t] by auto

interpretation sleep_h: capture_handler "sleep_handle fp cfg dur"
  by unfold_locales
    (auto simp: sleep_handle_def Let_def result_elims dest!: tidset_remove_shrinks split: if_splits)

lemma poll_handle_filters: "poll_handle fp sp args cp e s = Inr (e', s') \<Longrightarrow> \<exists>s2. poll_filter cp e s2 = Inr (e', s')"
  unfolding poll_handle_def poll_help_waiters_def Let_def by (elim bindrE) (rule exI)

lemma poll_filter_frame:
  "poll_filter cp e s = Inr (e', s') \<Longrightarrow>
    tidset_remove_all_keys (e_tset e) (po_polls (td_poll s)) = Inr (e_tset e') \<and> e_clk e' = e_clk e \<and> e_replay e' = e_replay e"
  by (auto simp: poll_filter_def Let_def result_elims split: if_splits)

interpretation poll_h: capture_handler "poll_handle fp sp args"
proof unfold_locales
  fix cp e s e' s'
  assume "poll_handle fp sp args cp e s = Inr (e', s')"
  then obtain s2 where "poll_filter cp e s2 = Inr (e', s')" using poll_handle_filters by blast
  note f = poll_filter_frame [OF this]
  show "tidset_inv (e_tset e) \<Longrightarrow> tidset_inv (e_tset e') \<and> tids (e_tset e') \<subseteq> tids (e_tset e)" using f remove_all_keys_shrinks by blast
  show "e_clk e' = e_clk e \<and> e_replay e' = e_replay e" using f by blast
qed

section \<open>The timeout module\<close>

lemma trigger_adds:
  assumes "trigger_timeout fp tset t s = Inr (tset', s')" and "handler_timeout_deregister t s' = Inr s''" and "tidset_inv tset"
  shows "tidset_inv tset' \<and> tids tset' = insert t (tids tset) \<and> t \<noteq> NO_TASK"
proof -
  from assms(1) obtain b where "tidset_insert tset t = Inr (b, tset')"
    unfolding trigger_timeout_def by (elim bindrE) (auto simp: bindr_eq_Inr)
  moreover have "t \<noteq> NO_TASK" using assms(2) by (simp add: handler_timeout_deregister_def tidmap_deregister_def bindr_eq_Inr assertr_eq_Inr)
  ultimately show ?thesis using tidset_insert_inv [OF assms(3), of t] by auto
qed

text \<open>The loop over the deadlines adds visited tasks only, and if there are no candidates afterwards it has done nothing.\<close>

lemma check_deadlines_loop_adds:
  assumes "check_deadlines_loop fp now ts tset s = Inr (tset', s')" and "tidset_inv tset"
  shows "tidset_inv tset' \<and> tids tset \<subseteq> tids tset' \<and> tids tset' \<subseteq> tids tset \<union> (set ts - {NO_TASK}) \<and> (tids tset' = {} \<longrightarrow> s' = s)"
  using assms
proof (induction ts arbitrary: tset s)
  case (Cons t ts)
  from Cons.prems(1) obtain d where d: "map_find (td_timeouts s) t = Some d" by (auto split: option.splits)
  show ?case
  proof (cases "timespec_compare d now > 0")
    case True
    with Cons.prems d have "check_deadlines_loop fp now ts tset s = Inr (tset', s')" by simp
    from Cons.IH [OF this Cons.prems(2)] show ?thesis by auto
  next
    case False
    with Cons.prems(1) d obtain tset1 s1 s2 where x: "trigger_timeout fp tset t s = Inr (tset1, s1)" "handler_timeout_deregister t s1 = Inr s2"
        "check_deadlines_loop fp now ts tset1 s2 = Inr (tset', s')" by (auto simp: bindr_eq_Inr)
    note a = trigger_adds [OF x(1,2) Cons.prems(2)]
    from Cons.IH [OF x(3)] a show ?thesis by auto
  qed
qed simp

lemma check_deadlines_adds:
  assumes "check_deadlines fp tset s = Inr (tset', s')" and "tidset_inv tset"
  shows "tidset_inv tset' \<and> tids tset' \<subseteq> tids tset \<union> (dom (map_find (td_timeouts s)) - {NO_TASK}) \<and> (tids tset' = {} \<longrightarrow> s' = s)"
proof -
  have "set (map fst (map_iterate (td_timeouts s))) = dom (map_find (td_timeouts s))"
    by (rule set_eqI) (simp add: map_iterate_def domIff map_find_None_iff)
  with assms check_deadlines_loop_adds [where tset = tset] show ?thesis by (fastforce simp: check_deadlines_def bindr_eq_Inr)
qed

lemma min_deadline_loop_mem: "min_deadline_loop its mn m = (r, m') \<Longrightarrow> r \<in> insert mn (set its)"
  by (induction its arbitrary: mn m) (fastforce simp: Let_def split: if_splits)+

lemma time_leap_adds:
  assumes "time_leap fp tset s = Some (Inr (tset', s'))" and "tidset_inv tset"
  shows "tidset_inv tset' \<and> tids tset' \<subseteq> tids tset \<union> (dom (map_find (td_timeouts s)) - {NO_TASK})"
proof -
  obtain t d m where r: "min_deadline_loop (map_iterate (td_timeouts s)) (NO_TASK, zero_timespec\<lparr>tv_sec := INT32_MAX\<rparr>) False = ((t, d), m)"
    by (metis surj_pair)
  with assms(1) have t0: "t \<noteq> NO_TASK" by (auto simp: time_leap_def)
  from min_deadline_loop_mem [OF r] t0 have "(t, d) \<in> set (map_iterate (td_timeouts s))" by simp
  then have "t \<in> fst ` set (map_chain (td_timeouts s))" by (force simp: map_iterate_def)
  then have dom: "t \<in> dom (map_find (td_timeouts s))" using map_find_None_iff [of "td_timeouts s" t] by auto
  from assms(1) r t0 obtain c where c: "(if m then check_deadlines fp tset (s\<lparr>td_clock := c\<rparr>)
      else bindr (trigger_timeout fp tset t (s\<lparr>td_clock := c\<rparr>)) (\<lambda>(tset, s). bindr (handler_timeout_deregister t s) (\<lambda>s. Inr (tset, s)))) = Inr (tset', s')"
    by (auto simp: time_leap_def Let_def bindr_eq_Inr)
  show ?thesis
  proof (cases m)
    case True
    with c check_deadlines_adds [OF _ assms(2), of fp "s\<lparr>td_clock := c\<rparr>" tset' s'] show ?thesis by simp
  next
    case False
    with c obtain s1 where "trigger_timeout fp tset t (s\<lparr>td_clock := c\<rparr>) = Inr (tset', s1)" "handler_timeout_deregister t s1 = Inr s'"
      by (auto simp: bindr_eq_Inr)
    from trigger_adds [OF this assms(2)] dom show ?thesis by auto
  qed
qed

interpretation timeout_h: candidate_handler "\<lambda>cp e s. decided (timeout_handle fp cp e s)" "\<lambda>s. dom (map_find (td_timeouts s)) - {NO_TASK}"
proof unfold_locales
  fix cp e s e' s'
  assume "decided (timeout_handle fp cp e s) = Inr (e', s')"
  then have h: "timeout_handle fp cp e s = Some (Inr (e', s'))" by (auto simp: decided_def split: option.splits)
  then have stages: "e' = e \<or> (\<exists>ts s1. check_deadlines fp (e_tset e) s = Inr (ts, s1) \<and>
      (e' = e\<lparr>e_tset := ts\<rparr> \<or> tidset_size ts = 0 \<and> (\<exists>ts' s2. time_leap fp ts s1 = Some (Inr (ts', s2)) \<and> e' = e\<lparr>e_tset := ts'\<rparr>)))"
    by (auto simp: timeout_handle_def bindr_eq_Inr split: if_splits sum.splits)
  then show "e_clk e' = e_clk e \<and> e_replay e' = e_replay e" by auto
  assume inv: "tidset_inv (e_tset e)"
  from stages consider "e' = e" | ts s1 where "check_deadlines fp (e_tset e) s = Inr (ts, s1)" "e' = e\<lparr>e_tset := ts\<rparr>"
    | ts s1 ts' s2 where "check_deadlines fp (e_tset e) s = Inr (ts, s1)" "tidset_size ts = 0" "time_leap fp ts s1 = Some (Inr (ts', s2))"
      "e' = e\<lparr>e_tset := ts'\<rparr>" by blast
  then show "tidset_inv (e_tset e') \<and> tids (e_tset e') \<subseteq> tids (e_tset e) \<union> (dom (map_find (td_timeouts s)) - {NO_TASK})"
  proof cases
    case 1
    with inv show ?thesis by simp
  next
    case (2 ts s1)
    from check_deadlines_adds [OF 2(1) inv] 2(2) show ?thesis by auto
  next
    case (3 ts s1 ts' s2)
    note a = check_deadlines_adds [OF 3(1) inv]
    then have "tids ts = {}" using 3(2) tidset_size_card [of ts] finite_tids [of ts] by simp
    with a have "s1 = s" by simp
    with time_leap_adds [OF 3(3)] a 3(4) \<open>tids ts = {}\<close> show ?thesis by auto
  qed
qed

section \<open>Chains of modelled handlers\<close>

context c_qsort
begin

lemma sorting_lifted:
  "bounded_by (\<lambda>_. {}) (lift_handler get put (bias_handle qs pol))"
  "bounded_by (\<lambda>_. {}) (lift_handler get' put' (pct_handle rr qs strategy pc))"
  "bounded_by (\<lambda>_. {}) (lift_handler get'' put'' (pos_handle rr qs ma var strategy b))"
  by (rule bias_h.lifted, rule pct_h.lifted, rule pos_h.lifted)

end

text \<open>A handler of the development, working on its part of a common state, and the tasks that it may add to the candidates.\<close>

inductive module_handler :: "qsort \<Rightarrow> 't handler \<Rightarrow> ('t \<Rightarrow> task_id set) \<Rightarrow> bool" for qs where
  "module_handler qs (lift_handler get put (yield_handle yc)) (\<lambda>_. {})"
| "module_handler qs (lift_handler get put (watchdog_handle rr ma wc)) (\<lambda>_. {})"
| "module_handler qs (lift_handler get put (priority_handle b prio)) (\<lambda>_. {})"
| "module_handler qs (lift_handler get put (task_velocity_handle rr b vel)) (\<lambda>_. {})"
| "module_handler qs (lift_handler get put (bias_handle qs pol)) (\<lambda>_. {})"
| "module_handler qs (lift_handler get put (available_handle b)) (\<lambda>_. {})"
| "module_handler qs (lift_handler get put (busyabort_handle is_ma bc)) (\<lambda>_. {})"
| "module_handler qs (lift_handler get put (termination_handle tc now)) (\<lambda>_. {})"
| "module_handler qs (lift_handler get put (region_filter_handle b)) (\<lambda>_. {})"
| "module_handler qs (lift_handler get put (region_preemption_handle rg)) (\<lambda>_. {})"
| "module_handler qs (lift_handler get put blocking_handle) (\<lambda>_. {})"
| "module_handler qs (lift_handler get put (impasse_handle b bl)) (\<lambda>_. {})"
| "module_handler qs (lift_handler get put (pct_handle rr qs strategy pc)) (\<lambda>_. {})"
| "module_handler qs (lift_handler get put (pos_handle rr qs ma var strategy b)) (\<lambda>_. {})"
| "module_handler qs (lift_handler get put (rwlock_handle ev)) (\<lambda>_. {})"
| "module_handler qs (lift_handler get put (\<lambda>cp e s. decided (mutex_handle mc cp e s))) (\<lambda>_. {})"
| "module_handler qs (lift_handler get put (\<lambda>cp e s. decided (join_handle (cp_id cp) (jev cp) e s))) (\<lambda>_. {})"
| "module_handler qs (lift_handler get put (clock_handle fp cc cost)) (\<lambda>_. {})"
| "module_handler qs (lift_handler get put (evec_handle fp eev)) (\<lambda>_. {})"
| "module_handler qs (lift_handler get put (sleep_handle fp sc dur)) (\<lambda>_. {})"
| "module_handler qs (lift_handler get put (poll_handle fp sp pargs)) (\<lambda>_. {})"
| "module_handler qs (lift_handler get put (\<lambda>cp e s. decided (deadlock_handle try_ret dc (ms cp) cp e s))) (\<lambda>_. {})"
| "module_handler qs (lift_handler get put (ichpt_handle maps sam)) (\<lambda>_. {})"
| "module_handler qs (lift_handler get put (memaccess_handle b ma)) (\<lambda>_. {})"
| "module_handler qs (lift_handler get put (race_handle maps sam ma rcfg)) (\<lambda>_. {})"
| "module_handler qs (lift_handler get put (\<lambda>cp e s. decided (timeout_handle fp cp e s)))
     (\<lambda>st. dom (map_find (td_timeouts (get st))) - {NO_TASK})"

lemma module_handler_bounded: "module_handler qs h T \<Longrightarrow> c_qsort qs \<Longrightarrow> bounded_by T h"
  by (induction rule: module_handler.induct)
    (simp_all add: yield_h.lifted watchdog_h.lifted priority_h.lifted velocity_h.lifted available_h.lifted
      busyabort_h.lifted termination_h.lifted region_filter_h.lifted region_preemption_h.lifted blocking_h.lifted
      impasse_h.lifted rwlock_h.lifted mutex_h.lifted join_h.lifted deadlock_h.lifted clock_h.lifted evec_h.lifted sleep_h.lifted poll_h.lifted
      ichpt_h.lifted memaccess_h.lifted race_h.lifted timeout_h.lifted_bounded c_qsort.sorting_lifted)

lemma module_handler_real: "module_handler qs h T \<Longrightarrow> NO_TASK \<notin> T st"
  by (induction rule: module_handler.induct) simp_all

lemma chain_released_real: "list_all (\<lambda>(h, T). module_handler qs h T) hts \<Longrightarrow> NO_TASK \<notin> chain_released hts cp e s"
  by (auto simp: chain_released_def list_all_iff dest!: set_zip_leftD dest: module_handler_real)

section \<open>Properties\<close>

text \<open>
  Claim C5. The sequencer with any chain of the modelled handlers, in any order and with any configuration. The candidates after the chain are registered tasks
  or tasks with a deadline that the timeout module has released: no other handler adds a candidate. Clock and replay flag of the decision are as before.
  The choice of the next task then succeeds: it is the capturing task, a task a handler has demanded, any task, or such a candidate. It only fails the
  check on a task that is demanded without a change point.
\<close>

theorem modules_pick_candidate:
  assumes "c_qsort qs" and "list_all (\<lambda>(h, T). module_handler qs h T) hts" and "env_capture env = run_handlers (map fst hts)"
    and "task_inv tk" and "handle_creation cp e tk = Inr (e1, tk1)" and "run_handlers (map fst hts) cp e1 st = Inr (e2, st2)"
  shows "tids (e_tset e2) \<subseteq> tids (tk_registered tk1) \<union> chain_released hts cp e1 st \<and> e_clk e2 = e_clk e1 \<and> e_replay e2 = e_replay e1 \<and>
    (if \<not> e_is_chpt e2 \<and> e_next e2 \<notin> {NO_TASK, cp_id cp} then dispatch_capture_event env cp e tk st = Inl AssertFailed
     else \<exists>next e' st'. dispatch_capture_event env cp e tk st = Inr (next, e', tk1, st') \<and> e_tset e' = e_tset e2 \<and>
       (if \<not> e_is_chpt e2 then next = cp_id cp
        else if e_next e2 \<noteq> NO_TASK then next = e_next e2
        else if tids (e_tset e2) = {} then next = ANY_TASK
        else next \<in> tids (e_tset e2)))"
proof -
  have b: "list_all (\<lambda>(h, T). bounded_by T h) hts" using assms(1,2) module_handler_bounded by (fastforce simp: list_all_iff)
  have c: "task_inv tk1" "tidset_inv (e_tset e1)" "tids (e_tset e1) = tids (tk_registered tk1)" using creation_registered [OF assms(5,4)] by simp_all
  note r = run_handlers_bounded [OF b assms(6) c(2)]
  then have "NO_TASK \<notin> tids (e_tset e2)" using c chain_released_real [OF assms(2), of cp e1 st] by (auto simp: task_inv_def)
  with r c(3) dispatch_total [OF assms(5), of env st e2 st2] assms(3,6) show ?thesis by simp
qed

text \<open>
  A chain of the timeout and the yield handler, with their variables outside the store. Task 5 has a deadline at second 20, and it is second 30. Task 7 yields.
\<close>

definition late_waiting :: timed where
  "late_waiting = one_waiting\<lparr>td_clock := clock_init\<lparr>ck_cost := 30000000000\<rparr>\<rparr>"

definition sample_handlers :: "byte list store handler list" where
  "sample_handlers = [lift_handler (\<lambda>_. late_waiting) (\<lambda>_ st. st) (\<lambda>cp e s. decided (timeout_handle plain_fp cp e s)),
     lift_handler (\<lambda>_. ()) (\<lambda>_ st. st) (yield_handle \<lparr>yc_enabled = True, yc_advisory = False\<rparr>)]"

definition sample_chain :: "(byte list store handler \<times> (byte list store \<Rightarrow> task_id set)) list" where
  "sample_chain = zip sample_handlers [\<lambda>_. dom (map_find (td_timeouts late_waiting)) - {NO_TASK}, \<lambda>_. {}]"

definition sample_candidates :: "tidset result" where
  "sample_candidates =
     bindr (handle_creation (sample_cp EVENT_YIELD_USER False 7) zero_decision taskst_init) (\<lambda>(e1, tk1).
     bindr (run_handlers sample_handlers (sample_cp EVENT_YIELD_USER False 7) e1 (\<lambda>_. [])) (\<lambda>(e2, st2).
       assertr (e_is_chpt e2 \<and> e_next e2 = NO_TASK) (Inr (e_tset e2))))"

lemma sample_chain_modules: "list_all (\<lambda>(h, T). module_handler insertion_qsort h T) sample_chain"
  unfolding sample_chain_def sample_handlers_def by (simp add: module_handler.intros)

lemma sample_chain_handlers: "map fst sample_chain = sample_handlers"
  by (simp add: sample_chain_def sample_handlers_def)

lemma sample_candidates_run: "\<exists>ts. sample_candidates = Inr ts \<and> tids ts = {5}"
proof -
  have "(case sample_candidates of Inl _ \<Rightarrow> False | Inr ts \<Rightarrow> tidset_list ts = [5])" by code_simp
  then show ?thesis by (auto simp: tids_def split: sum.splits)
qed

theorem modules_pick_candidate_witness:
  "\<exists>e' tk1 st'. dispatch_capture_event (plain_env\<lparr>env_capture := run_handlers (map fst sample_chain)\<rparr>) (sample_cp EVENT_YIELD_USER False 7)
     zero_decision taskst_init (\<lambda>_. []) = Inr (5, e', tk1, st')"
proof -
  let ?env = "plain_env\<lparr>env_capture := run_handlers (map fst sample_chain)\<rparr>" and ?cp = "sample_cp EVENT_YIELD_USER False 7"
  obtain e1 tk1 e2 st2 where h: "handle_creation ?cp zero_decision taskst_init = Inr (e1, tk1)"
      "run_handlers (map fst sample_chain) ?cp e1 (\<lambda>_. []) = Inr (e2, st2)" "e_is_chpt e2" "e_next e2 = NO_TASK" "tids (e_tset e2) = {5}"
    using sample_candidates_run by (auto simp: sample_candidates_def sample_chain_handlers bindr_eq_Inr assertr_eq_Inr)
  have env: "env_capture ?env = run_handlers (map fst sample_chain)" by simp
  from modules_pick_candidate [OF iqsort.c_qsort_axioms sample_chain_modules env task_inv_init h(1,2)] h(3-5) show ?thesis by auto
qed

end
