(* ===== verification/Switcher.thy ===== *)
theory Switcher
  imports Plan "HOL-Library.Signed_Division"
begin

text \<open>
  The switcher, \<^verbatim>\<open>src/runtime/switcher.c\<close>: the place where tasks block until it is their turn. A call of
  \<^verbatim>\<open>switcher_wake\<close> names the next task, and a task inside \<^verbatim>\<open>switcher_yield\<close> leaves when it is the named one.

  All members are accessed under one mutex, so the model is a sequence of critical sections:
  \<open>yield_enter\<close> and \<open>yield_check\<close> up to the first wait, \<open>yield_wakeup\<close> after a wait, \<open>yield_slack\<close> after the
  slack time, \<open>switcher_wake\<close> and \<open>switcher_abort\<close>. A condition variable may return from a wait at any
  time. The buckets that are signalled are collected in \<open>sw_signals\<close>.

  \<open>switch_step\<close> is the protocol of the mediators: a running task names a successor before it enters the
  switcher or leaves for a blocking call. Its runs keep at most one task running.
\<close>

section \<open>Data\<close>

datatype switcher_status = SWITCHER_CONTINUE | SWITCHER_CHANGED | SWITCHER_ABORTED

definition NBUCKETS :: int where "NBUCKETS = 128"

record switcher =
  sw_cnd_counter :: "int \<Rightarrow> int"
  sw_next :: task_id
  sw_prev :: task_id
  sw_status :: switcher_status
  sw_slack :: nat
  sw_signals :: "int list"

definition switcher_zero :: switcher where
  "switcher_zero = \<lparr>sw_cnd_counter = (\<lambda>_. 0), sw_next = NO_TASK, sw_prev = NO_TASK, sw_status = SWITCHER_CONTINUE,
     sw_slack = 0, sw_signals = []\<rparr>"

section \<open>Operations\<close>

text \<open>\<^verbatim>\<open>(int)(id % NBUCKETS)\<close> in \<^verbatim>\<open>switcher_yield\<close> and \<^verbatim>\<open>(int)id % NBUCKETS\<close> in \<^verbatim>\<open>switcher_wake\<close>.\<close>

definition yield_bucket :: "task_id \<Rightarrow> int" where
  "yield_bucket t = uint (t mod 128)"

definition wake_bucket :: "task_id \<Rightarrow> int" where
  "wake_bucket t = sint (ucast t :: 32 word) smod NBUCKETS"

text \<open>The number of a bucket as an index of the two arrays.\<close>

definition bucket_ok :: "int \<Rightarrow> bool" where
  "bucket_ok b \<longleftrightarrow> 0 \<le> b \<and> b < NBUCKETS"

definition sw_signal :: "int \<Rightarrow> switcher \<Rightarrow> switcher" where
  "sw_signal b s = s\<lparr>sw_signals := sw_signals s @ [b]\<rparr>"

definition yield_enter :: "task_id \<Rightarrow> switcher \<Rightarrow> switcher" where
  "yield_enter t s =
     (let b = yield_bucket t in s\<lparr>sw_cnd_counter := (sw_cnd_counter s)(b := sw_cnd_counter s b + 1)\<rparr>)"

text \<open>The condition of the loop; \<open>filt\<close> is \<^verbatim>\<open>any_task_filter\<close>, \<^term>\<open>None\<close> a null pointer.\<close>

definition yield_blocked :: "(task_id \<Rightarrow> bool) option \<Rightarrow> task_id \<Rightarrow> switcher \<Rightarrow> bool" where
  "yield_blocked filt t s \<longleftrightarrow> sw_next s \<noteq> t \<and> sw_status s \<noteq> SWITCHER_ABORTED \<and>
     (sw_next s \<noteq> ANY_TASK \<or> (case filt of None \<Rightarrow> False | Some f \<Rightarrow> f t))"

text \<open>The code behind the loop. \<open>nx\<close> is the value of \<^verbatim>\<open>next\<close> the loop has read last.\<close>

definition yield_exit :: "task_id \<Rightarrow> switcher \<Rightarrow> switcher_status \<times> switcher" where
  "yield_exit t s =
     (let nx = sw_next s; b = yield_bucket t;
          s = s\<lparr>sw_next := NO_TASK, sw_cnd_counter := (sw_cnd_counter s)(b := sw_cnd_counter s b - 1)\<rparr> in
      if sw_status s = SWITCHER_ABORTED then (SWITCHER_ABORTED, s)
      else
        let prev = sw_prev s;
            s = s\<lparr>sw_prev := t, sw_slack := 0,
                  sw_status := (if prev \<noteq> t \<or> nx = ANY_TASK then SWITCHER_CHANGED else SWITCHER_CONTINUE)\<rparr>
        in (sw_status s, s))"

text \<open>A test of the loop condition: the task signals its bucket and waits, or it leaves.\<close>

datatype yield_result = YieldWaits | YieldSlacks | YieldReturns switcher_status

definition yield_check :: "(task_id \<Rightarrow> bool) option \<Rightarrow> task_id \<Rightarrow> switcher \<Rightarrow> yield_result \<times> switcher" where
  "yield_check filt t s =
     (if yield_blocked filt t s then (YieldWaits, sw_signal (yield_bucket t) s)
      else case yield_exit t s of (st, s) \<Rightarrow> (YieldReturns st, s))"

text \<open>The calls and returns of \<^verbatim>\<open>vcond_wait\<close> and of \<^verbatim>\<open>sys_nanosleep\<close>.\<close>

definition yield_call :: "(task_id \<Rightarrow> bool) option \<Rightarrow> task_id \<Rightarrow> switcher \<Rightarrow> yield_result \<times> switcher" where
  "yield_call filt t s = yield_check filt t (yield_enter t s)"

definition yield_wakeup :: "(task_id \<Rightarrow> bool) option \<Rightarrow> task_id \<Rightarrow> switcher \<Rightarrow> yield_result \<times> switcher" where
  "yield_wakeup filt t s =
     (if sw_slack s \<noteq> 0 then (YieldSlacks, s) else yield_check filt t s)"

definition yield_slack :: "(task_id \<Rightarrow> bool) option \<Rightarrow> task_id \<Rightarrow> switcher \<Rightarrow> yield_result \<times> switcher" where
  "yield_slack filt t s = yield_check filt t (s\<lparr>sw_slack := 0\<rparr>)"

text \<open>The loop over all buckets for \<^const>\<open>ANY_TASK\<close>.\<close>

definition wake_all :: "switcher \<Rightarrow> switcher" where
  "wake_all s = fold (\<lambda>i s. if sw_cnd_counter s (int i) > 0 then sw_signal (int i) s else s) [0..<128] s"

definition switcher_wake :: "task_id \<Rightarrow> nat \<Rightarrow> switcher \<Rightarrow> switcher result" where
  "switcher_wake t slack s =
     assertr (sw_next s = NO_TASK) (assertr (t \<noteq> NO_TASK)
       (let s = s\<lparr>sw_next := t, sw_slack := slack\<rparr> in
        if t = ANY_TASK then Inr (wake_all s)
        else if bucket_ok (wake_bucket t) then Inr (sw_signal (wake_bucket t) s)
        else Inl Fault))"

definition switcher_abort :: "switcher \<Rightarrow> switcher" where
  "switcher_abort s = s\<lparr>sw_status := SWITCHER_ABORTED\<rparr>"

section \<open>Lemmas on the operations\<close>

lemma yield_bucket_ok: "bucket_ok (yield_bucket t)"
proof -
  have "t mod 128 < 128" by (rule word_mod_less_divisor) simp
  then have "uint (t mod 128) < 128" by (simp add: word_less_def)
  then show ?thesis by (simp add: bucket_ok_def yield_bucket_def NBUCKETS_def)
qed

text \<open>For identifiers below two to the power of 31 both computations give the same bucket.\<close>

lemma wake_bucket_small:
  assumes "unat t < 2 ^ 31"
  shows "wake_bucket t = yield_bucket t"
proof -
  have "t < 0x80000000" using assms by (simp add: word_less_nat_alt)
  then have u: "uint t < 2 ^ 31" "0 \<le> uint t" by (simp_all add: word_less_def)
  have "sint (ucast t :: 32 word) = signed_take_bit 31 (uint t)"
    by (simp add: sint_uint uint_word_arith_bintrs unsigned_ucast_eq signed_take_bit_take_bit)
  also have "\<dots> = uint t"
    by (rule signed_take_bit_int_eq_self) (use u in linarith)+
  finally have "wake_bucket t = uint t smod 128" by (simp add: wake_bucket_def NBUCKETS_def)
  also have "\<dots> = uint t mod 128" using u by (auto simp: smod_int_alt_def)
  also have "\<dots> = uint (t mod 128)" by (simp add: uint_mod)
  finally show ?thesis by (simp add: yield_bucket_def)
qed

lemma wake_all_simps [simp]:
  "sw_next (wake_all s) = sw_next s" "sw_prev (wake_all s) = sw_prev s" "sw_status (wake_all s) = sw_status s"
  "sw_slack (wake_all s) = sw_slack s" "sw_cnd_counter (wake_all s) = sw_cnd_counter s"
proof -
  have "sw_next (fold f xs s) = sw_next s \<and> sw_prev (fold f xs s) = sw_prev s \<and> sw_status (fold f xs s) = sw_status s \<and>
    sw_slack (fold f xs s) = sw_slack s \<and> sw_cnd_counter (fold f xs s) = sw_cnd_counter s"
    if "f = (\<lambda>i s. if sw_cnd_counter s (int i) > 0 then sw_signal (int i) s else s)" for f xs
    by (induction xs arbitrary: s) (simp_all add: that sw_signal_def)
  then show "sw_next (wake_all s) = sw_next s" "sw_prev (wake_all s) = sw_prev s" "sw_status (wake_all s) = sw_status s"
    "sw_slack (wake_all s) = sw_slack s" "sw_cnd_counter (wake_all s) = sw_cnd_counter s"
    by (simp_all add: wake_all_def)
qed

lemma yield_exit_simps:
  assumes "yield_exit t s = (st, s')"
  shows "sw_next s' = NO_TASK" and "sw_status s = SWITCHER_ABORTED \<Longrightarrow> sw_status s' = SWITCHER_ABORTED \<and> st = SWITCHER_ABORTED"
    and "sw_status s \<noteq> SWITCHER_ABORTED \<Longrightarrow> sw_status s' \<noteq> SWITCHER_ABORTED \<and> st = sw_status s' \<and> sw_prev s' = t"
  using assms by (auto simp: yield_exit_def Let_def split: if_splits)

lemma sw_signal_simps [simp]:
  "sw_next (sw_signal b s) = sw_next s" "sw_status (sw_signal b s) = sw_status s"
  "sw_prev (sw_signal b s) = sw_prev s" "sw_slack (sw_signal b s) = sw_slack s"
  by (simp_all add: sw_signal_def)

lemma yield_enter_simps [simp]:
  "sw_next (yield_enter t s) = sw_next s" "sw_status (yield_enter t s) = sw_status s"
  "sw_slack (yield_enter t s) = sw_slack s" "sw_prev (yield_enter t s) = sw_prev s"
  by (simp_all add: yield_enter_def Let_def)

text \<open>What one test of the loop condition can do to a switcher that was not aborted.\<close>

lemma yield_check_cases:
  assumes "yield_check filt t s = (r, s')" and "sw_status s \<noteq> SWITCHER_ABORTED"
  obtains (waits) "r = YieldWaits" and "sw_next s' = sw_next s" and "sw_status s' = sw_status s"
  | (returns) st where "r = YieldReturns st" and "sw_next s \<in> {t, ANY_TASK}" and "sw_next s' = NO_TASK"
      and "sw_status s' \<noteq> SWITCHER_ABORTED" and "sw_prev s' = t"
proof (cases "yield_blocked filt t s")
  case True
  with assms waits show ?thesis by (auto simp: yield_check_def)
next
  case False
  obtain st s1 where e: "yield_exit t s = (st, s1)" by fastforce
  with False assms(1) have "r = YieldReturns st" "s' = s1" by (auto simp: yield_check_def)
  with False assms(2) yield_exit_simps [OF e] returns show ?thesis by (auto simp: yield_blocked_def)
qed

section \<open>The protocol of the mediators\<close>

text \<open>
  Where a task is: running program code; between \<^verbatim>\<open>switcher_wake\<close> and the next action of its plan; asleep
  inside \<^verbatim>\<open>switcher_yield\<close>, in the wait or in the slack time; in a blocking call; in the creation of
  another task; not yet or no longer there.
\<close>

datatype loc = Absent | Running | Woke | Waiting | Slacking | Blocked | Creating | Ended

record switch_sys =
  sy_sw :: switcher
  sy_loc :: "task_id \<Rightarrow> loc"

definition switch_init :: "task_id \<Rightarrow> switch_sys" where
  "switch_init t = \<lparr>sy_sw = switcher_zero, sy_loc = (\<lambda>_. Absent)(t := Running)\<rparr>"

fun loc_of :: "yield_result \<Rightarrow> loc" where
  "loc_of YieldWaits = Waiting"
| "loc_of YieldSlacks = Slacking"
| "loc_of (YieldReturns st) = Running"

inductive switch_step :: "switch_sys \<Rightarrow> switch_sys \<Rightarrow> bool" where
  wake: "sy_loc s t = Running \<Longrightarrow> switcher_wake n slack (sy_sw s) = Inr sw' \<Longrightarrow>
    switch_step s (s\<lparr>sy_sw := sw', sy_loc := (sy_loc s)(t := Woke)\<rparr>)"
| yield: "sy_loc s t \<in> {Woke, Blocked, Creating} \<Longrightarrow> t \<noteq> NO_TASK \<Longrightarrow> yield_call filt t (sy_sw s) = (r, sw') \<Longrightarrow>
    switch_step s (s\<lparr>sy_sw := sw', sy_loc := (sy_loc s)(t := loc_of r)\<rparr>)"
| wakeup: "sy_loc s t = Waiting \<Longrightarrow> t \<noteq> NO_TASK \<Longrightarrow> yield_wakeup filt t (sy_sw s) = (r, sw') \<Longrightarrow>
    switch_step s (s\<lparr>sy_sw := sw', sy_loc := (sy_loc s)(t := loc_of r)\<rparr>)"
| slack: "sy_loc s t = Slacking \<Longrightarrow> t \<noteq> NO_TASK \<Longrightarrow> yield_slack filt t (sy_sw s) = (r, sw') \<Longrightarrow>
    switch_step s (s\<lparr>sy_sw := sw', sy_loc := (sy_loc s)(t := loc_of r)\<rparr>)"
| block: "sy_loc s t = Woke \<Longrightarrow> switch_step s (s\<lparr>sy_loc := (sy_loc s)(t := Blocked)\<rparr>)"
| fini: "sy_loc s t = Woke \<Longrightarrow> switch_step s (s\<lparr>sy_loc := (sy_loc s)(t := Ended)\<rparr>)"
| create: "sy_loc s t = Running \<Longrightarrow> sy_loc s c = Absent \<Longrightarrow>
    switch_step s (s\<lparr>sy_loc := (sy_loc s)(t := Creating, c := Running)\<rparr>)"
| abort: "switch_step s (s\<lparr>sy_sw := switcher_abort (sy_sw s)\<rparr>)"

inductive switch_reach :: "switch_sys \<Rightarrow> bool" where
  init: "switch_reach (switch_init t)"
| step: "switch_reach s \<Longrightarrow> switch_step s s' \<Longrightarrow> switch_reach s'"

text \<open>The right to run is held by one task or it lies in the switcher.\<close>

definition one_token :: "switch_sys \<Rightarrow> bool" where
  "one_token s \<longleftrightarrow>
     (if sw_next (sy_sw s) = NO_TASK then \<exists>t. \<forall>u. sy_loc s u = Running \<longleftrightarrow> u = t else \<forall>u. sy_loc s u \<noteq> Running)"

definition switch_inv :: "switch_sys \<Rightarrow> bool" where
  "switch_inv s \<longleftrightarrow> sw_status (sy_sw s) = SWITCHER_ABORTED \<or> one_token s"

lemma one_token_move:
  assumes "sy_loc s t \<noteq> Running" and "l \<noteq> Running"
  shows "one_token (s\<lparr>sy_loc := (sy_loc s)(t := l)\<rparr>) = one_token s"
proof -
  have "((sy_loc s)(t := l)) u = Running \<longleftrightarrow> sy_loc s u = Running" for u using assms by simp
  then show ?thesis by (simp add: one_token_def del: fun_upd_apply)
qed

lemma one_token_pass:
  assumes tok: "one_token s" and nr: "sy_loc s t \<noteq> Running" and t: "t \<noteq> NO_TASK"
    and c: "yield_check filt t sw = (r, sw')" and sw: "sw_status sw \<noteq> SWITCHER_ABORTED" "sw_next sw = sw_next (sy_sw s)"
  shows "sw_status sw' \<noteq> SWITCHER_ABORTED \<and> one_token (s\<lparr>sy_sw := sw', sy_loc := (sy_loc s)(t := loc_of r)\<rparr>)"
  using c sw(1)
proof (cases rule: yield_check_cases)
  case waits
  with tok nr sw show ?thesis by (auto simp: one_token_def split: if_splits)
next
  case (returns st)
  then have "sw_next (sy_sw s) \<noteq> NO_TASK" using t sw(2) by auto
  with tok returns show ?thesis by (auto simp: one_token_def)
qed

lemma yield_check_aborted:
  assumes "yield_check filt t s = (r, s')" and "sw_status s = SWITCHER_ABORTED"
  shows "sw_status s' = SWITCHER_ABORTED \<and> r = YieldReturns SWITCHER_ABORTED"
  using assms yield_exit_simps(2) [of t s]
  by (auto simp: yield_check_def yield_blocked_def split: prod.splits)

text \<open>All three sections of a yield end with a test of the condition or, before the slack time, leave the switcher alone.\<close>

lemma yield_section_inv:
  assumes inv: "switch_inv s" and nr: "sy_loc s t \<noteq> Running" and t: "t \<noteq> NO_TASK"
    and c: "yield_check filt t sw = (r, sw')" and sw: "sw_status sw = sw_status (sy_sw s)" "sw_next sw = sw_next (sy_sw s)"
  shows "switch_inv (s\<lparr>sy_sw := sw', sy_loc := (sy_loc s)(t := loc_of r)\<rparr>)"
proof (cases "sw_status sw = SWITCHER_ABORTED")
  case True
  with yield_check_aborted [OF c] show ?thesis by (simp add: switch_inv_def)
next
  case False
  with inv sw have "one_token s" by (simp add: switch_inv_def)
  from one_token_pass [OF this nr t c False sw(2)] show ?thesis by (simp add: switch_inv_def)
qed

lemma switcher_wake_Inr:
  "switcher_wake n slack s = Inr s' \<Longrightarrow>
     sw_next s = NO_TASK \<and> n \<noteq> NO_TASK \<and> sw_next s' = n \<and> sw_slack s' = slack \<and> sw_status s' = sw_status s"
  by (auto simp: switcher_wake_def result_elims Let_def split: if_splits)

lemma switch_step_inv: "switch_step s s' \<Longrightarrow> switch_inv s \<Longrightarrow> switch_inv s'"
proof (induction rule: switch_step.induct)
  case (wake s t n slack sw')
  with switcher_wake_Inr [OF wake(2)] show ?case
    by (auto simp: switch_inv_def one_token_def)
next
  case (yield s t filt r sw')
  have "sy_loc s t \<noteq> Running" using yield(1) by auto
  from yield_section_inv [OF yield.prems this yield(2), of filt "yield_enter t (sy_sw s)" r sw'] yield(3)
  show ?case by (simp add: yield_call_def)
next
  case (wakeup s t filt r sw')
  show ?case
  proof (cases "sw_slack (sy_sw s) \<noteq> 0")
    case True
    with wakeup(3) have "r = YieldSlacks" "sw' = sy_sw s" by (simp_all add: yield_wakeup_def)
    with wakeup show ?thesis by (simp add: switch_inv_def one_token_move)
  next
    case False
    have "sy_loc s t \<noteq> Running" using wakeup(1) by simp
    from yield_section_inv [OF wakeup.prems this wakeup(2), of filt "sy_sw s" r sw'] wakeup(3) False
    show ?thesis by (simp add: yield_wakeup_def)
  qed
next
  case (slack s t filt r sw')
  have "sy_loc s t \<noteq> Running" using slack(1) by simp
  from yield_section_inv [OF slack.prems this slack(2), of filt "(sy_sw s)\<lparr>sw_slack := 0\<rparr>" r sw'] slack(3)
  show ?case by (simp add: yield_slack_def)
next
  case (block s t)
  then show ?case by (simp add: switch_inv_def one_token_move)
next
  case (fini s t)
  then show ?case by (simp add: switch_inv_def one_token_move)
next
  case (create s t c)
  then show ?case by (fastforce simp: switch_inv_def one_token_def split: if_splits)
next
  case (abort s)
  then show ?case by (simp add: switch_inv_def switcher_abort_def)
qed

lemma switch_reach_switch_inv: "switch_reach s \<Longrightarrow> switch_inv s"
proof (induction rule: switch_reach.induct)
  case (init t)
  show ?case by (auto simp: switch_inv_def one_token_def switch_init_def switcher_zero_def)
next
  case (step s s')
  then show ?case using switch_step_inv by blast
qed

section \<open>Properties\<close>

text \<open>
  Claim C6. Tasks run one at a time. In every run of the protocol without an abort either exactly one
  task is running and no successor is named, or a successor is named and no task is running. A running
  task can therefore name any successor with a small identifier: the assertion that no other successor
  is pending holds.
\<close>

theorem switcher_one_runs:
  assumes "switch_reach s" and "sw_status (sy_sw s) \<noteq> SWITCHER_ABORTED"
  shows "(sw_next (sy_sw s) = NO_TASK \<longrightarrow> (\<exists>!t. sy_loc s t = Running)) \<and>
    (sw_next (sy_sw s) \<noteq> NO_TASK \<longrightarrow> (\<nexists>t. sy_loc s t = Running)) \<and>
    (sy_loc s t = Running \<and> n \<noteq> NO_TASK \<and> (n = ANY_TASK \<or> unat n < 2 ^ 31) \<longrightarrow>
       (\<exists>sw'. switcher_wake n slack (sy_sw s) = Inr sw'))"
proof -
  have tok: "one_token s" using switch_reach_switch_inv [OF assms(1)] assms(2) by (simp add: switch_inv_def)
  have "\<exists>sw'. switcher_wake n slack (sy_sw s) = Inr sw'"
    if "sy_loc s t = Running" "n \<noteq> NO_TASK" "n = ANY_TASK \<or> unat n < 2 ^ 31"
  proof -
    have "sw_next (sy_sw s) = NO_TASK" using tok that(1) by (auto simp: one_token_def split: if_splits)
    moreover have "n = ANY_TASK \<or> bucket_ok (wake_bucket n)"
      using that(3) yield_bucket_ok by (auto simp: wake_bucket_small)
    ultimately show ?thesis using that(2) by (auto simp: switcher_wake_def Let_def)
  qed
  moreover have "\<exists>!t. sy_loc s t = Running" if "sw_next (sy_sw s) = NO_TASK"
    using tok that by (auto simp: one_token_def)
  moreover have "\<nexists>t. sy_loc s t = Running" if "sw_next (sy_sw s) \<noteq> NO_TASK"
    using tok that by (auto simp: one_token_def)
  ultimately show ?thesis by blast
qed

theorem switcher_one_runs_witness:
  "\<exists>sw'. switcher_wake 7 0 (sy_sw (switch_init 5)) = Inr sw' \<and> (\<exists>!t. sy_loc (switch_init 5) t = Running)"
proof -
  have s: "sw_status (sy_sw (switch_init 5)) \<noteq> SWITCHER_ABORTED" "sw_next (sy_sw (switch_init 5)) = NO_TASK"
    "sy_loc (switch_init 5) 5 = Running"
    by (simp_all add: switch_init_def switcher_zero_def)
  moreover have "(7::task_id) \<noteq> NO_TASK" "unat (7::task_id) < 2 ^ 31" by (simp_all add: NO_TASK_def)
  ultimately show ?thesis
    using switcher_one_runs [OF switch_reach.init s(1), of 5 7 0] by blast
qed

text \<open>
  A task that is named, or any task when no particular one is named and its filter lets it
  pass, leaves the switcher at the next test of the condition, whichever of the three sections performs
  it, and takes the name with it; every other task stays and changes neither the name nor the status.
\<close>

theorem switcher_yield_decides:
  assumes "sw_status s \<noteq> SWITCHER_ABORTED" and "t \<noteq> NO_TASK" and "t \<noteq> ANY_TASK"
  shows "(sw_next s = t \<or> (sw_next s = ANY_TASK \<and> (filt = None \<or> (\<exists>f. filt = Some f \<and> \<not> f t))) \<longrightarrow>
      (\<exists>st s'. yield_call filt t s = (YieldReturns st, s') \<and> sw_next s' = NO_TASK \<and> sw_prev s' = t \<and>
         (st = SWITCHER_CONTINUE \<longleftrightarrow> sw_prev s = t \<and> sw_next s = t)) \<and>
      (sw_slack s = 0 \<longrightarrow> (\<exists>st s'. yield_wakeup filt t s = (YieldReturns st, s') \<and> sw_next s' = NO_TASK)) \<and>
      (\<exists>st s'. yield_slack filt t s = (YieldReturns st, s') \<and> sw_next s' = NO_TASK)) \<and>
    (sw_next s \<noteq> t \<and> (sw_next s = ANY_TASK \<longrightarrow> (\<exists>f. filt = Some f \<and> f t)) \<longrightarrow>
      (\<exists>s'. yield_call filt t s = (YieldWaits, s') \<and> sw_next s' = sw_next s \<and> sw_status s' = sw_status s) \<and>
      (\<exists>s'. yield_slack filt t s = (YieldWaits, s') \<and> sw_next s' = sw_next s \<and> sw_status s' = sw_status s))"
proof (intro conjI impI)
  assume n: "sw_next s = t \<or> (sw_next s = ANY_TASK \<and> (filt = None \<or> (\<exists>f. filt = Some f \<and> \<not> f t)))"
  have nb: "\<not> yield_blocked filt t u" if "sw_next u = sw_next s" for u
    using n that by (auto simp: yield_blocked_def)
  have ch: "\<exists>st s'. yield_check filt t u = (YieldReturns st, s') \<and> sw_next s' = NO_TASK \<and> sw_prev s' = t \<and>
      (st = SWITCHER_CONTINUE \<longleftrightarrow> sw_prev s = t \<and> sw_next s = t)"
    if "sw_next u = sw_next s" "sw_status u = sw_status s" "sw_prev u = sw_prev s" for u
    using nb [OF that(1)] that assms n by (auto simp: yield_check_def yield_exit_def Let_def)
  show "\<exists>st s'. yield_call filt t s = (YieldReturns st, s') \<and> sw_next s' = NO_TASK \<and> sw_prev s' = t \<and>
      (st = SWITCHER_CONTINUE \<longleftrightarrow> sw_prev s = t \<and> sw_next s = t)"
    unfolding yield_call_def by (rule ch) simp_all
  show "\<exists>st s'. yield_wakeup filt t s = (YieldReturns st, s') \<and> sw_next s' = NO_TASK" if "sw_slack s = 0"
    using ch [of s] that by (auto simp: yield_wakeup_def)
  show "\<exists>st s'. yield_slack filt t s = (YieldReturns st, s') \<and> sw_next s' = NO_TASK"
    using ch [of "s\<lparr>sw_slack := 0\<rparr>"] by (auto simp: yield_slack_def)
next
  assume n: "sw_next s \<noteq> t \<and> (sw_next s = ANY_TASK \<longrightarrow> (\<exists>f. filt = Some f \<and> f t))"
  have b: "yield_blocked filt t u" if "sw_next u = sw_next s" "sw_status u = sw_status s" for u
    using n that assms(1) by (auto simp: yield_blocked_def split: option.split)
  show "\<exists>s'. yield_call filt t s = (YieldWaits, s') \<and> sw_next s' = sw_next s \<and> sw_status s' = sw_status s"
    using b [of "yield_enter t s"] by (simp add: yield_call_def yield_check_def)
  show "\<exists>s'. yield_slack filt t s = (YieldWaits, s') \<and> sw_next s' = sw_next s \<and> sw_status s' = sw_status s"
    using b [of "s\<lparr>sw_slack := 0\<rparr>"] by (simp add: yield_slack_def yield_check_def)
qed

theorem switcher_yield_decides_witness:
  "\<exists>st s'. yield_call None 5 (switcher_zero\<lparr>sw_next := 5\<rparr>) = (YieldReturns st, s') \<and> sw_next s' = NO_TASK"
proof -
  have "(5::task_id) \<noteq> NO_TASK" "(5::task_id) \<noteq> ANY_TASK" "sw_status (switcher_zero\<lparr>sw_next := 5\<rparr>) \<noteq> SWITCHER_ABORTED"
    by (simp_all add: NO_TASK_def ANY_TASK_def switcher_zero_def)
  from switcher_yield_decides [OF this(3,1,2), of None] show ?thesis by (auto simp: switcher_zero_def)
qed

text \<open>
  The bucket of a task. \<^verbatim>\<open>switcher_yield\<close> always stays inside the two arrays; \<^verbatim>\<open>switcher_wake\<close>
  computes the same bucket for identifiers below two to the power of 31, but casts before it takes the
  remainder, and leaves the arrays for an identifier such as two to the power of 31 plus one.
\<close>

theorem switcher_buckets:
  "bucket_ok (yield_bucket t) \<and> (unat t < 2 ^ 31 \<longrightarrow> wake_bucket t = yield_bucket t) \<and>
   wake_bucket 0x80000001 = -127 \<and> switcher_wake 0x80000001 0 switcher_zero = Inl Fault"
proof -
  have "wake_bucket 0x80000001 = -127" by (simp add: wake_bucket_def NBUCKETS_def smod_int_alt_def)
  then have "switcher_wake 0x80000001 0 switcher_zero = Inl Fault"
    by (simp add: switcher_wake_def bucket_ok_def NBUCKETS_def switcher_zero_def NO_TASK_def ANY_TASK_def)
  with \<open>wake_bucket 0x80000001 = -127\<close> yield_bucket_ok wake_bucket_small show ?thesis by blast
qed

theorem switcher_buckets_witness: "wake_bucket 300 = yield_bucket 300 \<and> yield_bucket 300 = 44"
proof -
  have "unat (300::task_id) < 2 ^ 31" by simp
  moreover have "yield_bucket 300 = 44" by (simp add: yield_bucket_def)
  ultimately show ?thesis using switcher_buckets [of 300] by blast
qed

end
