(* ===== verification/Mediator.thy ===== *)
theory Mediator
  imports Engine Switcher
begin

text \<open>
  The mediator, \<^verbatim>\<open>src/runtime/mediator.c\<close>, and the ingress subscribers of \<^verbatim>\<open>src/runtime/ingress.c\<close>: each task has
  a mediator that hands its events to the engine and carries out the plan it gets back, with the
  switcher as the place to wait.

  \<open>rt\<close> is the state all tasks share: engine and switcher. A call of \<^verbatim>\<open>switcher_yield\<close> returns after other
  tasks have run, so the state it returns is given by the argument \<open>yield\<close>. Thread local storage and the
  identity of the thread come from the interception library; they are the arguments \<open>self\<close> (the
  identifier of the task) and \<open>retired\<close>.
\<close>

section \<open>Data\<close>

datatype mediator_optimization =
  MEDIATOR_OPTIMIZATION_NONE | MEDIATOR_OPTIMIZATION_SAME_TASK_EXCEPT_ANY | MEDIATOR_OPTIMIZATION_SAME_TASK

datatype mediator_status = MEDIATOR_OK | MEDIATOR_ABORT | MEDIATOR_SHUTDOWN

record mediator =
  md_id :: task_id
  md_plan :: plan
  md_finito :: bool
  md_optimization :: mediator_optimization

record 'a rt =
  rt_engine :: "'a engine"
  rt_switcher :: switcher

type_synonym 'a yield = "task_id \<Rightarrow> task_filter option \<Rightarrow> 'a rt \<Rightarrow> 'a rt"

definition zero_plan :: plan where
  "zero_plan = \<lparr>p_actions = ACTION_NONE, p_next = NO_TASK, p_with_slack = False, p_reason = REASON_UNKNOWN,
     p_replay_type = REPLAY_OFF, p_clk = 0, p_any_task_filter = None\<rparr>"

section \<open>Carrying out a plan\<close>

text \<open>Removing an action that the plan has makes the plan smaller.\<close>

lemma and_not_decreases:
  fixes a b :: actions
  assumes "a AND b \<noteq> 0"
  shows "unat (a AND NOT b) < unat a"
proof -
  have "a AND NOT b \<le> a" by (rule word_and_le2)
  moreover have "a AND NOT b \<noteq> a"
  proof
    assume "a AND NOT b = a"
    then have "a AND b = (a AND NOT b) AND b" by simp
    also have "\<dots> = 0" by (simp add: and.assoc)
    finally show False using assms by simp
  qed
  ultimately have "a AND NOT b < a" by simp
  then show ?thesis by (simp add: word_less_nat_alt)
qed

lemma plan_next_loop_has: "plan_next_loop acts i \<noteq> ACTION_NONE \<Longrightarrow> acts AND plan_next_loop acts i \<noteq> 0"
proof (induction acts i rule: plan_next_loop.induct)
  case (1 acts i)
  then show ?case by (subst plan_next_loop.simps, subst (asm) (2) plan_next_loop.simps) (auto split: if_splits)
qed

lemma plan_done_decreases:
  assumes "plan_next p \<noteq> ACTION_NONE"
  shows "unat (p_actions (snd (plan_done p))) < unat (p_actions p)"
  using assms and_not_decreases [OF plan_next_loop_has [of "p_actions p" 1]]
  by (simp add: plan_done_def plan_next_def Let_def)

lemma plan_done_snd: "(finished, p') = plan_done p \<Longrightarrow> p' = snd (plan_done p)"
  by (simp add: prod_eq_iff)

section \<open>Operations\<close>

definition plan_optimize :: "plan \<Rightarrow> capture_point \<Rightarrow> mediator_optimization \<Rightarrow> plan" where
  "plan_optimize p cp opt =
     (if p_next p \<noteq> cp_id cp \<or> p_actions p \<noteq> ACTION_WAKE OR ACTION_YIELD OR ACTION_RESUME then p
      else case opt of
        MEDIATOR_OPTIMIZATION_NONE \<Rightarrow> p
      | MEDIATOR_OPTIMIZATION_SAME_TASK_EXCEPT_ANY \<Rightarrow>
          if p_replay_type p = REPLAY_ANY_TASK then p
          else p\<lparr>p_actions := ACTION_RESUME OR ACTION_CONTINUE\<rparr>
      | MEDIATOR_OPTIMIZATION_SAME_TASK \<Rightarrow> p\<lparr>p_actions := ACTION_RESUME OR ACTION_CONTINUE\<rparr>)"

definition mediator_is_any_task :: "mediator \<Rightarrow> bool" where
  "mediator_is_any_task m \<longleftrightarrow> p_replay_type (md_plan m) = REPLAY_ANY_TASK"

text \<open>\<^verbatim>\<open>sequencer_config()->slack * NOW_MILLISECOND\<close>\<close>

definition NOW_MILLISECOND :: "64 word" where "NOW_MILLISECOND = 1000000"

definition plan_slack :: "'a env \<Rightarrow> plan \<Rightarrow> 'a rt \<Rightarrow> nat" where
  "plan_slack env p rt =
     (if p_with_slack p then unat (env_slack env (rc_store (sq_rec (en_seq (rt_engine rt)))) * NOW_MILLISECOND) else 0)"

text \<open>
  The loop of \<^verbatim>\<open>mediator_capture\<close>. The result says whether the function has returned and with which
  value; \<^term>\<open>None\<close> is the end of the loop.
\<close>

function capture_loop :: "'a env \<Rightarrow> plan \<Rightarrow> 'a rt \<Rightarrow> (bool option \<times> plan \<times> 'a rt) result" where
  "capture_loop env p rt =
     (if plan_next p = ACTION_WAKE then
        bindr (switcher_wake (p_next p) (plan_slack env p rt) (rt_switcher rt)) (\<lambda>sw.
          let rt = rt\<lparr>rt_switcher := sw\<rparr>; (finished, p') = plan_done p in
          if finished then Inr (None, p', rt) else capture_loop env p' rt)
      else if plan_next p = ACTION_BLOCK then
        (let (finished, p') = plan_done p in if finished then Inl Fatal else Inr (Some True, p', rt))
      else if plan_next p \<in> {ACTION_CONTINUE, ACTION_YIELD, ACTION_RESUME, ACTION_SHUTDOWN} then
        Inr (Some False, p, rt)
      else Inl Fatal)"
  by pat_completeness auto
termination
  by (relation "measure (\<lambda>(env, p, rt). unat (p_actions p))")
    (auto dest!: plan_done_snd intro!: plan_done_decreases simp: action_defs)

declare capture_loop.simps [simp del]

definition mediator_capture :: "'a env \<Rightarrow> bool \<Rightarrow> mediator \<Rightarrow> capture_point \<Rightarrow> 'a rt \<Rightarrow>
    (bool \<times> mediator \<times> capture_point \<times> 'a rt) result" where
  "mediator_capture env retired m cp rt =
     assertr (\<not> md_finito m)
       (let cp = cp\<lparr>cp_id := md_id m\<rparr> in
        if retired then Inr (False, m, cp, rt)
        else bindr (engine_capture env (rt_engine rt) cp) (\<lambda>(p, en).
          let rt = rt\<lparr>rt_engine := en\<rparr>; p = plan_optimize p cp (md_optimization m) in
          bindr (capture_loop env p rt) (\<lambda>(r, p, rt).
            let m = m\<lparr>md_plan := p\<rparr> in
            case r of
              Some b \<Rightarrow> Inr (b, m, cp, rt)
            | None \<Rightarrow> assertr (cp_type_id cp = EVENT_TASK_FINI) (Inr (True, m, cp, rt)))))"

text \<open>The loop of \<^verbatim>\<open>mediator_resume\<close>.\<close>

function resume_loop :: "'a env \<Rightarrow> 'a yield \<Rightarrow> capture_point \<Rightarrow> plan \<Rightarrow> mediator_status \<Rightarrow> 'a rt \<Rightarrow>
    (mediator_status \<times> plan \<times> 'a rt) result" where
  "resume_loop env yield cp p st rt =
     (if plan_next p \<in> {ACTION_YIELD, ACTION_RESUME, ACTION_SHUTDOWN, ACTION_CONTINUE} then
        bindr
          (if plan_next p = ACTION_YIELD then Inr (st, yield (cp_id cp) (p_any_task_filter p) rt)
           else if plan_next p = ACTION_RESUME then
             bindr (engine_resume env (rt_engine rt) cp) (\<lambda>en. Inr (st, rt\<lparr>rt_engine := en\<rparr>))
           else if plan_next p = ACTION_SHUTDOWN then
             assertr (reason_is_shutdown (p_reason p) \<or> reason_is_abort (p_reason p))
               (Inr (if reason_is_shutdown (p_reason p) then MEDIATOR_SHUTDOWN else MEDIATOR_ABORT, rt))
           else Inr (st, rt))
          (\<lambda>(st, rt).
            let (finished, p') = plan_done p in
            if finished then Inr (st, p', rt) else resume_loop env yield cp p' st rt)
      else Inl Fatal)"
  by pat_completeness auto
termination
  by (relation "measure (\<lambda>(env, yield, cp, p, st, rt). unat (p_actions p))")
    (auto dest!: plan_done_snd intro!: plan_done_decreases simp: action_defs)

declare resume_loop.simps [simp del]

definition mediator_resume :: "'a env \<Rightarrow> 'a yield \<Rightarrow> mediator \<Rightarrow> capture_point \<Rightarrow> 'a rt \<Rightarrow>
    (mediator_status \<times> mediator \<times> capture_point \<times> 'a rt) result" where
  "mediator_resume env yield m cp rt =
     assertr (\<not> md_finito m)
       (assertr (plan_has (md_plan m) ACTION_RESUME \<or> plan_has (md_plan m) ACTION_CONTINUE \<or>
                 plan_has (md_plan m) ACTION_SHUTDOWN)
         (let cp = cp\<lparr>cp_id := md_id m\<rparr> in
          bindr (resume_loop env yield cp (md_plan m) MEDIATOR_OK rt) (\<lambda>(st, p, rt).
            assertr (plan_next p = ACTION_NONE) (Inr (st, m\<lparr>md_plan := p\<rparr>, cp, rt)))))"

definition mediator_reason :: "mediator \<Rightarrow> reason" where
  "mediator_reason m = p_reason (md_plan m)"

definition mediator_should_resume :: "mediator \<Rightarrow> bool" where
  "mediator_should_resume m \<longleftrightarrow> plan_next (md_plan m) = ACTION_RESUME \<or> plan_next (md_plan m) = ACTION_YIELD"

definition mediator_return :: "mediator \<Rightarrow> capture_point \<Rightarrow> 'a rt \<Rightarrow> (mediator \<times> capture_point \<times> 'a rt) result" where
  "mediator_return m cp rt =
     assertr (\<not> md_finito m)
       (let cp = cp\<lparr>cp_id := md_id m\<rparr> in
        if cp_type_id cp = EVENT_TASK_CREATE then assertr (mediator_should_resume m) (Inr (m, cp, rt))
        else assertr (plan_next (md_plan m) = ACTION_RETURN)
          (bindr (engine_return (rt_engine rt) cp) (\<lambda>en.
             Inr (m\<lparr>md_plan := snd (plan_done (md_plan m))\<rparr>, cp, rt\<lparr>rt_engine := en\<rparr>))))"

definition mediator_fini :: "mediator option \<Rightarrow> mediator option result" where
  "mediator_fini m = (case m of None \<Rightarrow> Inr None | Some m \<Rightarrow> assertr (\<not> md_finito m) (Inr (Some (m\<lparr>md_finito := True\<rparr>))))"

text \<open>
  \<open>stored\<close> is the thread local mediator, \<^term>\<open>None\<close> if the thread has none yet (a new one is zeroed), and
  \<open>nop\<close> the number of the event of the interception library that stands for the bootstrap.
\<close>

definition zero_mediator :: mediator where
  "zero_mediator = \<lparr>md_id = NO_TASK, md_plan = zero_plan, md_finito = False,
     md_optimization = MEDIATOR_OPTIMIZATION_NONE\<rparr>"

definition mediator_get :: "'a env \<Rightarrow> 'a yield \<Rightarrow> type_id \<Rightarrow> task_id \<Rightarrow> mediator option \<Rightarrow> bool \<Rightarrow> 'a rt \<Rightarrow>
    (mediator option \<times> 'a rt) result" where
  "mediator_get env yield nop self stored bootstrap rt =
     (if stored = None \<and> \<not> bootstrap then Inr (None, rt)
      else let m = (case stored of Some m \<Rightarrow> m | None \<Rightarrow> zero_mediator) in
        if md_id m \<noteq> NO_TASK then Inr (Some m, rt)
        else let m = \<lparr>md_id = self, md_plan = zero_plan\<lparr>p_actions := ACTION_RESUME\<rparr>, md_finito = False,
                      md_optimization = MEDIATOR_OPTIMIZATION_NONE\<rparr> in
          if \<not> bootstrap then Inr (Some m, rt)
          else let cp = \<lparr>cp_chain_id = CHAIN_INGRESS_EVENT, cp_type_id = nop, cp_blocking = False, cp_id = NO_TASK,
                         cp_vid = NO_TASK, cp_pc = 0, cp_func = True, cp_addr = 0\<rparr> in
            bindr (mediator_resume env yield m cp rt) (\<lambda>(st, m, _, rt).
              assertr (st = MEDIATOR_OK) (Inr (Some m, rt))))"

section \<open>Ingress\<close>

text \<open>What a subscriber does to the calling task: it goes on, or the program is ended with a reason.\<close>

datatype ingress_result = Proceeds | Exits reason

definition intercept_resume :: "'a env \<Rightarrow> 'a yield \<Rightarrow> mediator \<Rightarrow> capture_point \<Rightarrow> 'a rt \<Rightarrow>
    (ingress_result \<times> mediator \<times> capture_point \<times> 'a rt) result" where
  "intercept_resume env yield m cp rt =
     bindr (mediator_resume env yield m cp rt) (\<lambda>(st, m, cp, rt).
       Inr (case st of MEDIATOR_OK \<Rightarrow> Proceeds | _ \<Rightarrow> Exits (mediator_reason m), m, cp, rt))"

text \<open>
  The subscribers of the three ingress chains. Each fetches the mediator of the thread first, creating it
  if the thread has none; a null pointer would be dereferenced.
\<close>

definition with_mediator :: "'a env \<Rightarrow> 'a yield \<Rightarrow> type_id \<Rightarrow> task_id \<Rightarrow> mediator option \<Rightarrow> 'a rt \<Rightarrow>
    (mediator \<Rightarrow> 'a rt \<Rightarrow> 'b result) \<Rightarrow> 'b result" where
  "with_mediator env yield nop self stored rt k =
     bindr (mediator_get env yield nop self stored True rt) (\<lambda>(m, rt). case m of None \<Rightarrow> Inl Fault | Some m \<Rightarrow> k m rt)"

definition ingress_event :: "'a env \<Rightarrow> 'a yield \<Rightarrow> type_id \<Rightarrow> task_id \<Rightarrow> mediator option \<Rightarrow> bool \<Rightarrow> type_id \<Rightarrow>
    capture_point \<Rightarrow> 'a rt \<Rightarrow> (ingress_result \<times> mediator \<times> capture_point \<times> 'a rt) result" where
  "ingress_event env yield nop self stored retired ty cp rt =
     (let cp = cp\<lparr>cp_chain_id := CHAIN_INGRESS_EVENT, cp_type_id := ty\<rparr> in
      with_mediator env yield nop self stored rt (\<lambda>m rt.
        if cp_blocking cp then Inl Fatal
        else bindr (mediator_capture env retired m cp rt) (\<lambda>(b, m, cp, rt).
          if b then Inr (Proceeds, m, cp, rt) else intercept_resume env yield m cp rt)))"

definition ingress_before :: "'a env \<Rightarrow> 'a yield \<Rightarrow> type_id \<Rightarrow> task_id \<Rightarrow> mediator option \<Rightarrow> bool \<Rightarrow> type_id \<Rightarrow>
    capture_point \<Rightarrow> 'a rt \<Rightarrow> (ingress_result \<times> mediator \<times> capture_point \<times> 'a rt) result" where
  "ingress_before env yield nop self stored retired ty cp rt =
     (let cp = cp\<lparr>cp_chain_id := CHAIN_INGRESS_BEFORE, cp_type_id := ty\<rparr> in
      with_mediator env yield nop self stored rt (\<lambda>m rt.
        bindr (mediator_capture env retired m cp rt) (\<lambda>(b, m, cp, rt).
          if b then Inr (Proceeds, m, cp, rt)
          else intercept_resume env yield m (cp\<lparr>cp_blocking := False\<rparr>) rt)))"

definition ingress_after :: "'a env \<Rightarrow> 'a yield \<Rightarrow> type_id \<Rightarrow> task_id \<Rightarrow> mediator option \<Rightarrow> bool \<Rightarrow> type_id \<Rightarrow>
    capture_point \<Rightarrow> 'a rt \<Rightarrow> (ingress_result \<times> mediator \<times> capture_point \<times> 'a rt) result" where
  "ingress_after env yield nop self stored retired ty cp rt =
     (let cp = cp\<lparr>cp_chain_id := CHAIN_INGRESS_AFTER, cp_type_id := ty\<rparr> in
      with_mediator env yield nop self stored rt (\<lambda>m rt.
        if cp_blocking cp then
          bindr (mediator_return m cp rt) (\<lambda>(m, cp, rt). intercept_resume env yield m cp rt)
        else bindr (mediator_capture env retired m cp rt) (\<lambda>(b, m, cp, rt).
          assertr (\<not> b) (intercept_resume env yield m cp rt))))"

section \<open>Lemmas\<close>

text \<open>\<^verbatim>\<open>plan_next\<close> as a chain of tests, which the simplifier evaluates on a given set of actions.\<close>

lemma plan_next_tests:
  "plan_next p = (let a = p_actions p in
     if bit a 0 then 1 else if bit a 1 then 2 else if bit a 2 then 4 else if bit a 3 then 8 else if bit a 4 then 16
     else if bit a 5 then 32 else if bit a 6 then 64 else if bit a 7 then 128 else if bit a 8 then 256 else 0)"
proof -
  have "[0..<9] = [0, 1, 2, 3, 4, 5, 6, 7, 8 :: nat]" by code_simp
  then show ?thesis by (simp add: plan_next_unfold Let_def)
qed

lemma shutdown_split: "a AND 0x100 \<noteq> 0 \<Longrightarrow> a = (a AND NOT 0x100) OR (0x100 :: actions)"
proof (rule bit_eqI)
  fix n
  assume "a AND 0x100 \<noteq> 0"
  then have "bit a 8" by (simp add: bit_iff_and_push_bit_not_eq_0)
  moreover have "(0x100 :: actions) = 2 ^ 8" by simp
  ultimately show "bit a n = bit ((a AND NOT 0x100) OR 0x100) n"
    by (auto simp only: bit_or_iff bit_and_iff bit_not_iff bit_exp_iff dest: bit_imp_possible_bit)
qed

text \<open>The plans the runtime contract lets through, as numbers.\<close>

lemma check_plan_shapes:
  assumes "check_plan cp p = Inr ()"
  shows "p_next p \<noteq> NO_TASK" and "p_actions p \<in> {0x40, 0x31, 0x34, 0x3D, 0x01, 0x100, 0x140, 0x131, 0x134, 0x13D, 0x101}"
    and "p_actions p = 0x01 \<Longrightarrow> cp_type_id cp = EVENT_TASK_FINI"
    and "p_actions p = 0x34 \<Longrightarrow> cp_type_id cp = EVENT_TASK_CREATE" and "p_actions p = 0x3D \<Longrightarrow> cp_blocking cp"
proof -
  define pure where "pure = (if p_actions p AND 0x100 \<noteq> 0 \<and> p_actions p \<noteq> 0x100
    then p_actions p AND NOT 0x100 else p_actions p)"
  have h: "p_next p \<noteq> NO_TASK \<and> pure \<in> {0x40, 0x31, 0x34, 0x3D, 0x01, 0x100} \<and>
      (pure = 0x01 \<longrightarrow> cp_type_id cp = EVENT_TASK_FINI) \<and> (pure = 0x34 \<longrightarrow> cp_type_id cp = EVENT_TASK_CREATE) \<and>
      (pure = 0x3D \<longrightarrow> cp_blocking cp)"
    using assms unfolding pure_def
    by (auto simp: check_plan_def Let_def assertr_def action_defs split: if_splits)
  have "p_actions p = pure \<or> p_actions p = pure OR 0x100"
    using shutdown_split [of "p_actions p"] by (auto simp: pure_def)
  with h show "p_next p \<noteq> NO_TASK" "p_actions p \<in> {0x40, 0x31, 0x34, 0x3D, 0x01, 0x100, 0x140, 0x131, 0x134, 0x13D, 0x101}"
    "p_actions p = 0x01 \<Longrightarrow> cp_type_id cp = EVENT_TASK_FINI" "p_actions p = 0x34 \<Longrightarrow> cp_type_id cp = EVENT_TASK_CREATE"
    "p_actions p = 0x3D \<Longrightarrow> cp_blocking cp"
    by auto
qed

lemma plan_optimize_shapes:
  assumes "p_actions p \<in> A"
  shows "p_actions (plan_optimize p cp opt) \<in> insert 0x60 A" and "p_next (plan_optimize p cp opt) = p_next p"
    and "p_with_slack (plan_optimize p cp opt) = p_with_slack p"
  using assms by (auto simp: plan_optimize_def action_defs split: mediator_optimization.split)

lemma wake_succeeds:
  assumes "sw_next sw = NO_TASK" and "t \<noteq> NO_TASK" and "t = ANY_TASK \<or> unat t < 2 ^ 31"
  obtains sw' where "switcher_wake t slack sw = Inr sw'" and "sw_next sw' = t"
proof -
  have "t = ANY_TASK \<or> bucket_ok (wake_bucket t)" using assms(3) yield_bucket_ok by (auto simp: wake_bucket_small)
  with assms(1,2) have "\<exists>sw'. switcher_wake t slack sw = Inr sw' \<and> sw_next sw' = t" by (auto simp: switcher_wake_def Let_def)
  with that show ?thesis by blast
qed

lemmas plan_eval = plan_next_tests plan_done_def plan_has_def action_defs Let_def bit_numeral_simps

text \<open>The first half of a plan.\<close>

lemma capture_loop_runs:
  assumes "p_actions p \<in> {0x60, 0x40, 0x31, 0x34, 0x3D, 0x01, 0x100, 0x140, 0x131, 0x134, 0x13D, 0x101}"
    and "sw_next (rt_switcher rt) = NO_TASK" and "p_next p \<noteq> NO_TASK" and "p_next p = ANY_TASK \<or> unat (p_next p) < 2 ^ 31"
  shows "\<exists>sw'. capture_loop env p rt =
      Inr (if p_actions p = ACTION_WAKE then None else Some (plan_has p ACTION_BLOCK),
           p\<lparr>p_actions := p_actions p AND NOT (ACTION_WAKE OR ACTION_BLOCK)\<rparr>, rt\<lparr>rt_switcher := sw'\<rparr>) \<and>
    sw_next sw' = (if plan_has p ACTION_WAKE then p_next p else NO_TASK)"
proof -
  obtain sw' where sw: "switcher_wake (p_next p) (plan_slack env p rt) (rt_switcher rt) = Inr sw'" "sw_next sw' = p_next p"
    by (rule wake_succeeds [OF assms(2-4)])
  have same: "rt\<lparr>rt_switcher := rt_switcher rt\<rparr> = rt" "p\<lparr>p_actions := p_actions p\<rparr> = p" by simp_all
  have stop: "capture_loop env q r = Inr (Some False, q, r)" if "p_actions q \<in> {0x60, 0x40, 0x30, 0x100, 0x140, 0x130}" for q r
    unfolding capture_loop.simps [of env q r] using that by (elim insertE emptyE) (simp_all add: plan_eval)
  have block: "capture_loop env q r = Inr (Some True, q\<lparr>p_actions := p_actions q AND NOT 4\<rparr>, r)"
    if "p_actions q \<in> {0x34, 0x3C, 0x134, 0x13C}" for q r
    unfolding capture_loop.simps [of env q r] using that by (elim insertE emptyE) (simp_all add: plan_eval)
  have wake: "capture_loop env p rt = (if p_actions p = 1 then Inr (None, p\<lparr>p_actions := 0\<rparr>, rt\<lparr>rt_switcher := sw'\<rparr>)
       else capture_loop env (p\<lparr>p_actions := p_actions p AND NOT 1\<rparr>) (rt\<lparr>rt_switcher := sw'\<rparr>))"
    if "p_actions p \<in> {0x31, 0x3D, 0x01, 0x131, 0x13D, 0x101}"
    unfolding capture_loop.simps [of env p rt] using that
    by (elim insertE emptyE) (simp_all add: plan_eval sw(1))
  consider "p_actions p \<in> {0x60, 0x40, 0x100, 0x140}" | "p_actions p \<in> {0x34, 0x134}"
    | "p_actions p \<in> {0x31, 0x3D, 0x01, 0x131, 0x13D, 0x101}" using assms(1) by auto
  then show ?thesis
  proof cases
    case 1
    with stop [of p rt] assms(2) show ?thesis
      by (intro exI [of _ "rt_switcher rt"]) (auto simp: plan_eval)
  next
    case 2
    with block [of p rt] assms(2) show ?thesis
      by (intro exI [of _ "rt_switcher rt"]) (auto simp: plan_eval)
  next
    case 3
    with wake sw(2) show ?thesis
      by (intro exI [of _ sw']) (auto simp: plan_eval stop block)
  qed
qed

text \<open>The second half: the remaining actions are among yield, resume, continue and shutdown.\<close>

definition resume_status :: "plan \<Rightarrow> mediator_status" where
  "resume_status p = (if \<not> plan_has p ACTION_SHUTDOWN then MEDIATOR_OK
     else if reason_is_shutdown (p_reason p) then MEDIATOR_SHUTDOWN else MEDIATOR_ABORT)"

definition engine_resumed :: "'a env \<Rightarrow> capture_point \<Rightarrow> plan \<Rightarrow> 'a rt \<Rightarrow> 'a rt result" where
  "engine_resumed env cp p rt =
     (if plan_has p ACTION_RESUME then bindr (engine_resume env (rt_engine rt) cp) (\<lambda>en. Inr (rt\<lparr>rt_engine := en\<rparr>)) else Inr rt)"

lemma resume_loop_runs:
  assumes "p_actions p \<in> {0x20, 0x30, 0x40, 0x60, 0x100, 0x130, 0x140}"
    and "plan_has p ACTION_SHUTDOWN \<longrightarrow> reason_is_shutdown (p_reason p) \<or> reason_is_abort (p_reason p)"
  shows "resume_loop env yield cp p MEDIATOR_OK rt =
    bindr (engine_resumed env cp p (if plan_has p ACTION_YIELD then yield (cp_id cp) (p_any_task_filter p) rt else rt))
      (\<lambda>rt. Inr (resume_status p, p\<lparr>p_actions := 0\<rparr>, rt))"
proof -
  have last: "resume_loop env yield cp q st r =
      bindr (engine_resumed env cp q r) (\<lambda>rt. Inr (if p_actions q = 0x100 then resume_status q else st, q\<lparr>p_actions := 0\<rparr>, rt))"
    if "p_actions q \<in> {0x20, 0x40, 0x100}" "plan_has q ACTION_SHUTDOWN \<longrightarrow> reason_is_shutdown (p_reason q) \<or> reason_is_abort (p_reason q)"
    for q st r
    unfolding resume_loop.simps [of env yield cp q st r] using that
    by (elim insertE emptyE) (simp_all add: plan_eval engine_resumed_def resume_status_def bindr_assoc)
  have resume: "resume_loop env yield cp q MEDIATOR_OK r =
      bindr (engine_resumed env cp q r) (\<lambda>rt. Inr (resume_status q, q\<lparr>p_actions := 0\<rparr>, rt))"
    if "p_actions q \<in> {0x60, 0x120, 0x140}" "plan_has q ACTION_SHUTDOWN \<longrightarrow> reason_is_shutdown (p_reason q) \<or> reason_is_abort (p_reason q)"
    for q r
    unfolding resume_loop.simps [of env yield cp q MEDIATOR_OK r] using that
    by (elim insertE emptyE)
      (simp_all add: plan_eval last engine_resumed_def resume_status_def bindr_assoc)
  have yields: "resume_loop env yield cp p MEDIATOR_OK rt =
      resume_loop env yield cp (p\<lparr>p_actions := p_actions p AND NOT 0x10\<rparr>) MEDIATOR_OK (yield (cp_id cp) (p_any_task_filter p) rt)"
    if "p_actions p \<in> {0x30, 0x130}"
    unfolding resume_loop.simps [of env yield cp p MEDIATOR_OK rt] using that
    by (elim insertE emptyE) (simp_all add: plan_eval)
  consider "p_actions p \<in> {0x20, 0x40, 0x100}" | "p_actions p \<in> {0x60, 0x140}" | "p_actions p = 0x30" | "p_actions p = 0x130"
    using assms(1) by auto
  then show ?thesis
  proof cases
    case 1
    with last [OF 1 assms(2)] show ?thesis by (auto simp: plan_eval resume_status_def)
  next
    case 2
    with resume [of p] assms(2) show ?thesis by (auto simp: plan_eval)
  next
    case 3
    with yields show ?thesis by (simp add: last plan_eval engine_resumed_def resume_status_def)
  next
    case 4
    with yields assms(2) show ?thesis by (simp add: resume plan_eval engine_resumed_def resume_status_def)
  qed
qed

lemma engine_captureE:
  assumes "engine_capture env en cp = Inr (p, en')"
  shows "check_plan cp p = Inr ()" and "en_running_id en' = cp_id cp"
    and "en_state en' = (if plan_next p \<noteq> ACTION_CONTINUE then CAPTURED else RESUMED)"
  using assms by (auto simp: engine_capture_def Let_def result_elims)

lemma engine_resumeE:
  assumes "engine_resume env en cp = Inr en'"
  shows "en_state en' = RESUMED \<and> en_running_id en' = cp_id cp"
  using assms by (auto simp: engine_resume_def Let_def result_elims)

lemma mediator_capture_runs:
  fixes m cp defines "cp' \<equiv> cp\<lparr>cp_id := md_id m\<rparr>"
  assumes "\<not> md_finito m" and "engine_capture env (rt_engine rt) cp' = Inr (p, en)"
    and "sw_next (rt_switcher rt) = NO_TASK" and "p_next p = ANY_TASK \<or> unat (p_next p) < 2 ^ 31"
    and "p' = plan_optimize p cp' (md_optimization m)"
  shows "\<exists>sw'. mediator_capture env False m cp rt =
      Inr (plan_has p' ACTION_BLOCK \<or> p_actions p' = ACTION_WAKE,
           m\<lparr>md_plan := p'\<lparr>p_actions := p_actions p' AND NOT (ACTION_WAKE OR ACTION_BLOCK)\<rparr>\<rparr>, cp',
           rt\<lparr>rt_engine := en, rt_switcher := sw'\<rparr>) \<and>
    sw_next sw' = (if plan_has p' ACTION_WAKE then p_next p else NO_TASK)"
proof -
  note c = check_plan_shapes [OF engine_captureE(1) [OF assms(3)]]
  note o = plan_optimize_shapes [OF c(2), of cp' "md_optimization m", folded assms(6)]
  have "p_next p' \<noteq> NO_TASK" "p_next p' = ANY_TASK \<or> unat (p_next p') < 2 ^ 31" using c(1) assms(5) o(2) by simp_all
  from capture_loop_runs [OF o(1) _ this, of "rt\<lparr>rt_engine := en\<rparr>" env] assms(4)
  obtain sw' where run: "capture_loop env p' (rt\<lparr>rt_engine := en\<rparr>) =
      Inr (if p_actions p' = ACTION_WAKE then None else Some (plan_has p' ACTION_BLOCK),
           p'\<lparr>p_actions := p_actions p' AND NOT (ACTION_WAKE OR ACTION_BLOCK)\<rparr>, rt\<lparr>rt_engine := en, rt_switcher := sw'\<rparr>)"
      "sw_next sw' = (if plan_has p' ACTION_WAKE then p_next p else NO_TASK)"
    using o(2) by auto
  have fin: "p_actions p' = ACTION_WAKE \<longrightarrow> cp_type_id cp' = EVENT_TASK_FINI"
    using c(3) assms(6) by (auto simp: plan_optimize_def action_defs split: mediator_optimization.splits if_splits)
  show ?thesis
    using run fin assms(2) unfolding mediator_capture_def
    by (intro exI [of _ sw']) (auto simp: assms(3,6) [unfolded cp'_def] cp'_def Let_def)
qed

lemma mediator_resume_runs:
  fixes m cp defines "cp' \<equiv> cp\<lparr>cp_id := md_id m\<rparr>" and "p \<equiv> md_plan m"
  assumes "\<not> md_finito m" and "p_actions p \<in> {0x20, 0x30, 0x40, 0x60, 0x100, 0x130, 0x140}"
    and "plan_has p ACTION_SHUTDOWN \<longrightarrow> reason_is_shutdown (p_reason p) \<or> reason_is_abort (p_reason p)"
  shows "mediator_resume env yield m cp rt =
    bindr (engine_resumed env cp' p (if plan_has p ACTION_YIELD then yield (md_id m) (p_any_task_filter p) rt else rt))
      (\<lambda>rt. Inr (resume_status p, m\<lparr>md_plan := p\<lparr>p_actions := 0\<rparr>\<rparr>, cp', rt))"
proof -
  have "plan_has p ACTION_RESUME \<or> plan_has p ACTION_CONTINUE \<or> plan_has p ACTION_SHUTDOWN"
    using assms(4) by (auto simp: plan_eval)
  moreover have "plan_next (p\<lparr>p_actions := 0\<rparr>) = ACTION_NONE" by (simp add: plan_eval)
  ultimately show ?thesis
    using assms(3) resume_loop_runs [OF assms(4,5), of env yield cp' rt]
    by (simp add: mediator_resume_def Let_def bindr_assoc p_def cp'_def)
qed

lemma with_mediator_stored:
  "md_id m \<noteq> NO_TASK \<Longrightarrow> with_mediator env yield nop self (Some m) rt k = k m rt"
  by (simp add: with_mediator_def mediator_get_def)

section \<open>Properties\<close>

text \<open>
  Claim C12. The first half of every plan the engine returns is carried out without a fatal error: the
  successor is named in the switcher exactly when the plan has the wake action, the caller is told to
  enter its blocking operation exactly when the plan has the block action or the task ends, and the
  remaining plan is the plan without these two actions. This covers the plan of every kind of event, with
  and without a shutdown, and the plan the same-task optimisation puts in its place.
\<close>

theorem mediator_capture_executes:
  assumes "\<not> md_finito m" and "engine_capture env (rt_engine rt) (cp\<lparr>cp_id := md_id m\<rparr>) = Inr (p, en)"
    and "sw_next (rt_switcher rt) = NO_TASK" and "p_next p = ANY_TASK \<or> unat (p_next p) < 2 ^ 31"
    and "p' = plan_optimize p (cp\<lparr>cp_id := md_id m\<rparr>) (md_optimization m)"
  shows "\<exists>sw'. mediator_capture env False m cp rt =
      Inr (plan_has p' ACTION_BLOCK \<or> p_actions p' = ACTION_WAKE,
           m\<lparr>md_plan := p'\<lparr>p_actions := p_actions p' AND NOT (ACTION_WAKE OR ACTION_BLOCK)\<rparr>\<rparr>, cp\<lparr>cp_id := md_id m\<rparr>,
           rt\<lparr>rt_engine := en, rt_switcher := sw'\<rparr>) \<and>
    sw_next sw' = (if plan_has p' ACTION_WAKE then p_next p else NO_TASK)"
  by (rule mediator_capture_runs [OF assms])

definition plain_rt :: "byte list rt" where
  "plain_rt = \<lparr>rt_engine = (engine_init plain_seq None None)\<lparr>en_state := RESUMED, en_running_id := 2\<rparr>, rt_switcher = switcher_zero\<rparr>"

definition plain_mediator :: mediator where
  "plain_mediator = zero_mediator\<lparr>md_id := 2\<rparr>"

lemma plain_engine_capture:
  "case engine_capture plain_env (rt_engine plain_rt) (sample_cp 3 False 2) of Inl _ \<Rightarrow> False
   | Inr (p, _) \<Rightarrow> p_next p = 2 \<and> p_actions p = ACTION_WAKE OR ACTION_YIELD OR ACTION_RESUME"
  by code_simp

lemma sample_cp_id [simp]: "sample_cp ty b t\<lparr>cp_id := t\<rparr> = sample_cp ty b t"
  by (simp add: sample_cp_def)

theorem mediator_capture_executes_witness:
  "\<exists>m' rt'. mediator_capture plain_env False plain_mediator (sample_cp 3 False 2) plain_rt = Inr (False, m', sample_cp 3 False 2, rt') \<and>
     sw_next (rt_switcher rt') = 2 \<and> p_actions (md_plan m') = ACTION_YIELD OR ACTION_RESUME"
proof -
  obtain p en where run: "engine_capture plain_env (rt_engine plain_rt) (sample_cp 3 False 2) = Inr (p, en)"
    and n: "p_next p = 2" "p_actions p = ACTION_WAKE OR ACTION_YIELD OR ACTION_RESUME"
    using plain_engine_capture by (auto split: sum.splits)
  have m: "\<not> md_finito plain_mediator" "md_id plain_mediator = 2" "md_optimization plain_mediator = MEDIATOR_OPTIMIZATION_NONE"
    by (simp_all add: plain_mediator_def zero_mediator_def)
  have sw: "sw_next (rt_switcher plain_rt) = NO_TASK" by (simp add: plain_rt_def switcher_zero_def)
  have nx: "p_next p = ANY_TASK \<or> unat (p_next p) < 2 ^ 31" using n by simp
  have "plan_optimize p (sample_cp 3 False 2) MEDIATOR_OPTIMIZATION_NONE = p" by (simp add: plan_optimize_def)
  with mediator_capture_executes [OF m(1), of plain_env plain_rt "sample_cp 3 False 2" p en p] run sw nx m n
  show ?thesis by (auto simp: plan_eval)
qed

text \<open>
  Claim C13. The second half: the task waits in the switcher exactly when the plan has the yield action,
  then tells the engine that it runs again exactly when the plan has the resume action, and reports the
  shutdown or the abort the plan asks for. Afterwards the plan is empty. The only possible failure is one
  of \<^verbatim>\<open>engine_resume\<close>.
\<close>

theorem mediator_resume_executes:
  assumes "\<not> md_finito m"
    and "p_actions (md_plan m) \<in> {ACTION_RESUME, ACTION_YIELD OR ACTION_RESUME, ACTION_CONTINUE, ACTION_RESUME OR ACTION_CONTINUE,
      ACTION_SHUTDOWN, ACTION_YIELD OR ACTION_RESUME OR ACTION_SHUTDOWN, ACTION_CONTINUE OR ACTION_SHUTDOWN}"
    and "plan_has (md_plan m) ACTION_SHUTDOWN \<longrightarrow> reason_is_shutdown (p_reason (md_plan m)) \<or> reason_is_abort (p_reason (md_plan m))"
  shows "mediator_resume env yield m cp rt =
    bindr (engine_resumed env (cp\<lparr>cp_id := md_id m\<rparr>) (md_plan m)
        (if plan_has (md_plan m) ACTION_YIELD then yield (md_id m) (p_any_task_filter (md_plan m)) rt else rt))
      (\<lambda>rt. Inr (resume_status (md_plan m), m\<lparr>md_plan := (md_plan m)\<lparr>p_actions := ACTION_NONE\<rparr>\<rparr>, cp\<lparr>cp_id := md_id m\<rparr>, rt))"
proof -
  have "p_actions (md_plan m) \<in> {0x20, 0x30, 0x40, 0x60, 0x100, 0x130, 0x140}"
    using assms(2) by (simp add: action_defs)
  then show ?thesis unfolding ACTION_NONE_def by (rule mediator_resume_runs [OF assms(1) _ assms(3)])
qed

text \<open>A fresh engine, and a plan by which its first task waits for its turn, resumes and shuts the program down.\<close>

definition fresh_rt :: "byte list rt" where
  "fresh_rt = \<lparr>rt_engine = engine_init plain_seq None None, rt_switcher = switcher_zero\<lparr>sw_next := 2\<rparr>\<rparr>"

definition take_turn :: "task_id \<Rightarrow> task_filter option \<Rightarrow> byte list rt \<Rightarrow> byte list rt" where
  "take_turn t f rt = (if sw_next (rt_switcher rt) = t then rt\<lparr>rt_switcher := (rt_switcher rt)\<lparr>sw_next := NO_TASK\<rparr>\<rparr> else rt)"

definition stop_mediator :: mediator where
  "stop_mediator = plain_mediator\<lparr>md_plan := zero_plan\<lparr>p_actions := ACTION_YIELD OR ACTION_RESUME OR ACTION_SHUTDOWN, p_reason := REASON_SHUTDOWN\<rparr>\<rparr>"

theorem mediator_resume_executes_witness:
  "\<exists>m' rt'. mediator_resume plain_env take_turn stop_mediator (sample_cp 3 False 2) fresh_rt = Inr (MEDIATOR_SHUTDOWN, m', sample_cp 3 False 2, rt') \<and>
     p_actions (md_plan m') = ACTION_NONE \<and> en_state (rt_engine rt') = RESUMED \<and> en_running_id (rt_engine rt') = 2 \<and> sw_next (rt_switcher rt') = NO_TASK"
proof -
  have "case engine_resume plain_env (engine_init plain_seq None None) (sample_cp 3 False 2) of Inl _ \<Rightarrow> False
    | Inr en \<Rightarrow> en_state en = RESUMED \<and> en_running_id en = 2" by code_simp
  then obtain en where en: "engine_resume plain_env (engine_init plain_seq None None) (sample_cp 3 False 2) = Inr en" "en_state en = RESUMED" "en_running_id en = 2"
    by (auto split: sum.splits)
  have m: "\<not> md_finito stop_mediator" "md_id stop_mediator = 2" "p_actions (md_plan stop_mediator) = ACTION_YIELD OR ACTION_RESUME OR ACTION_SHUTDOWN"
      "p_reason (md_plan stop_mediator) = REASON_SHUTDOWN"
    by (simp_all add: stop_mediator_def plain_mediator_def zero_mediator_def)
  have p: "plan_has (md_plan stop_mediator) ACTION_SHUTDOWN" "plan_has (md_plan stop_mediator) ACTION_YIELD" "plan_has (md_plan stop_mediator) ACTION_RESUME"
    using m(3) by (simp_all add: plan_has_def action_defs)
  have r: "reason_is_shutdown REASON_SHUTDOWN" by (simp add: reason_is_shutdown_def)
  have t: "take_turn 2 f fresh_rt = fresh_rt\<lparr>rt_switcher := switcher_zero\<lparr>sw_next := NO_TASK\<rparr>\<rparr>" for f by (simp add: take_turn_def fresh_rt_def)
  from mediator_resume_executes [of stop_mediator plain_env take_turn "sample_cp 3 False 2" fresh_rt] m p r t en show ?thesis
    by (simp add: engine_resumed_def resume_status_def fresh_rt_def)
qed

text \<open>
  Claim C11. A complete event. A task that passes through the ingress chain of a plain event names its
  successor, waits for its turn and tells the engine that it runs again; nothing but \<^verbatim>\<open>engine_resume\<close> can
  fail, and when the call returns the task proceeds with an empty plan, as the running task of an engine
  that is ready for its next capture.
\<close>

theorem ingress_event_cycle:
  fixes m cp ty
  defines "cp' \<equiv> cp\<lparr>cp_chain_id := CHAIN_INGRESS_EVENT, cp_type_id := ty, cp_id := md_id m\<rparr>"
  assumes "\<not> md_finito m" and "md_id m \<noteq> NO_TASK" and "\<not> cp_blocking cp" and "ty \<notin> {EVENT_TASK_CREATE, EVENT_TASK_FINI}"
    and "engine_capture env (rt_engine rt) cp' = Inr (p, en)" and "\<not> plan_has p ACTION_SHUTDOWN"
    and "sw_next (rt_switcher rt) = NO_TASK" and "p_next p = ANY_TASK \<or> unat (p_next p) < 2 ^ 31"
    and "p' = plan_optimize p cp' (md_optimization m)"
  shows "\<exists>sw'. sw_next sw' = (if plan_has p' ACTION_WAKE then p_next p else NO_TASK) \<and>
    ingress_event env yield nop self (Some m) False ty cp rt =
      bindr (engine_resumed env cp' p' (if plan_has p' ACTION_YIELD
               then yield (md_id m) (p_any_task_filter p) (rt\<lparr>rt_engine := en, rt_switcher := sw'\<rparr>)
               else rt\<lparr>rt_engine := en, rt_switcher := sw'\<rparr>))
        (\<lambda>rt. Inr (Proceeds, m\<lparr>md_plan := p'\<lparr>p_actions := ACTION_NONE\<rparr>\<rparr>, cp', rt)) \<and>
    (\<forall>r. ingress_event env yield nop self (Some m) False ty cp rt = Inr r \<longrightarrow>
       (case r of (_, _, _, rt') \<Rightarrow> en_state (rt_engine rt') = RESUMED \<and> en_running_id (rt_engine rt') = md_id m))"
proof -
  let ?cp = "cp\<lparr>cp_chain_id := CHAIN_INGRESS_EVENT, cp_type_id := ty\<rparr>"
  have cp': "cp' = ?cp\<lparr>cp_id := md_id m\<rparr>" by (simp add: cp'_def)
  note c = engine_captureE [OF assms(6)] check_plan_shapes [OF engine_captureE(1) [OF assms(6)]]
  have "p_actions p \<in> {0x40, 0x31}"
    using c(5-8) assms(4,5,7) by (auto simp: cp'_def plan_eval)
  then have sh: "p_actions p' \<in> {0x60, 0x40, 0x31}" and f: "p_any_task_filter p' = p_any_task_filter p"
    and ct: "p_actions p' = 0x40 \<Longrightarrow> p_actions p = 0x40"
    using assms(10) by (auto simp: plan_optimize_def action_defs split: mediator_optimization.splits if_splits)
  obtain sw' where run: "mediator_capture env False m ?cp rt =
      Inr (plan_has p' ACTION_BLOCK \<or> p_actions p' = ACTION_WAKE,
           m\<lparr>md_plan := p'\<lparr>p_actions := p_actions p' AND NOT (ACTION_WAKE OR ACTION_BLOCK)\<rparr>\<rparr>, cp', rt\<lparr>rt_engine := en, rt_switcher := sw'\<rparr>)"
      and sw: "sw_next sw' = (if plan_has p' ACTION_WAKE then p_next p else NO_TASK)"
    using mediator_capture_runs [OF assms(2) assms(6) [unfolded cp'] assms(8,9) assms(10) [unfolded cp']] unfolding cp' by blast
  define m1 where "m1 = m\<lparr>md_plan := p'\<lparr>p_actions := p_actions p' AND NOT (ACTION_WAKE OR ACTION_BLOCK)\<rparr>\<rparr>"
  let ?rt = "rt\<lparr>rt_engine := en, rt_switcher := sw'\<rparr>"
  have b: "\<not> (plan_has p' ACTION_BLOCK \<or> p_actions p' = ACTION_WAKE)" using sh by (auto simp: plan_eval)
  have res: "mediator_resume env yield m1 cp' ?rt =
      bindr (engine_resumed env cp' p' (if plan_has p' ACTION_YIELD then yield (md_id m) (p_any_task_filter p) ?rt else ?rt))
        (\<lambda>rt. Inr (MEDIATOR_OK, m\<lparr>md_plan := p'\<lparr>p_actions := 0\<rparr>\<rparr>, cp', rt))"
    using mediator_resume_runs [of m1 env yield cp' ?rt] assms(2) sh f
    by (auto simp: plan_eval engine_resumed_def resume_status_def cp'_def m1_def)
  have eq: "ingress_event env yield nop self (Some m) False ty cp rt =
      bindr (engine_resumed env cp' p' (if plan_has p' ACTION_YIELD then yield (md_id m) (p_any_task_filter p) ?rt else ?rt))
        (\<lambda>rt. Inr (Proceeds, m\<lparr>md_plan := p'\<lparr>p_actions := ACTION_NONE\<rparr>\<rparr>, cp', rt))"
    using assms(3,4) b
    by (simp add: ingress_event_def with_mediator_stored run [folded m1_def] intercept_resume_def res bindr_assoc ACTION_NONE_def Let_def)
  have post: "en_state (rt_engine rt') = RESUMED \<and> en_running_id (rt_engine rt') = md_id m"
    if "engine_resumed env cp' p' (if plan_has p' ACTION_YIELD then yield (md_id m) (p_any_task_filter p) ?rt else ?rt) = Inr rt'" for rt'
  proof (cases "p_actions p' = 0x40")
    case True
    with that c(2,3) ct show ?thesis by (auto simp: engine_resumed_def plan_eval cp'_def)
  next
    case False
    with sh have "plan_has p' ACTION_RESUME" by (auto simp: plan_eval)
    with that show ?thesis by (auto simp: engine_resumed_def result_elims cp'_def dest!: engine_resumeE)
  qed
  show ?thesis
    using sw eq post by (intro exI [of _ sw']) (auto simp: result_elims)
qed

theorem ingress_event_cycle_witness:
  "\<exists>m' rt'. ingress_event plain_env (\<lambda>_ _ rt. rt) 0 2 (Some plain_mediator) False 3 (sample_cp 3 False 2) plain_rt =
     Inr (Proceeds, m', sample_cp 3 False 2, rt') \<and> en_state (rt_engine rt') = RESUMED \<and> p_actions (md_plan m') = ACTION_NONE"
proof -
  obtain p en where run: "engine_capture plain_env (rt_engine plain_rt) (sample_cp 3 False 2) = Inr (p, en)"
    and n: "p_next p = 2" "p_actions p = ACTION_WAKE OR ACTION_YIELD OR ACTION_RESUME"
    using plain_engine_capture by (auto split: sum.splits)
  have cp: "sample_cp 3 False 2\<lparr>cp_chain_id := CHAIN_INGRESS_EVENT, cp_type_id := 3, cp_id := md_id plain_mediator\<rparr> = sample_cp 3 False 2"
    "\<not> cp_blocking (sample_cp 3 False 2)"
    by (simp_all add: sample_cp_def plain_mediator_def)
  have m: "\<not> md_finito plain_mediator" "md_id plain_mediator \<noteq> NO_TASK" "md_optimization plain_mediator = MEDIATOR_OPTIMIZATION_NONE"
    by (simp_all add: plain_mediator_def zero_mediator_def NO_TASK_def)
  have ty: "(3 :: type_id) \<notin> {EVENT_TASK_CREATE, EVENT_TASK_FINI}" by (simp add: event_defs)
  have sw: "sw_next (rt_switcher plain_rt) = NO_TASK" by (simp add: plain_rt_def switcher_zero_def)
  have nx: "p_next p = ANY_TASK \<or> unat (p_next p) < 2 ^ 31" and sh: "\<not> plan_has p ACTION_SHUTDOWN"
    and pa: "plan_has p ACTION_RESUME" using n by (simp_all add: plan_eval)
  have o: "p = plan_optimize p (sample_cp 3 False 2) (md_optimization plain_mediator)" by (simp add: plan_optimize_def m)
  have "case engine_capture plain_env (rt_engine plain_rt) (sample_cp 3 False 2) of Inl _ \<Rightarrow> False
    | Inr (p, en) \<Rightarrow> (case engine_resume plain_env en (sample_cp 3 False 2) of Inl _ \<Rightarrow> False | Inr _ \<Rightarrow> True)" by code_simp
  then obtain en2 where en2: "engine_resume plain_env en (sample_cp 3 False 2) = Inr en2" by (auto simp: run split: sum.splits)
  note cyc = ingress_event_cycle [of plain_mediator "sample_cp 3 False 2" 3 plain_env plain_rt p en p "\<lambda>_ _ rt. rt" 0 2, unfolded cp(1),
      OF m(1,2) cp(2) ty run sh sw nx o]
  then show ?thesis by (auto simp: engine_resumed_def pa en2)
qed

end
