(* ===== verification/Address_Bdd.thy ===== *)
theory Address_Bdd
  imports Prelude
begin

text \<open>
  The binary decision diagram of addresses, \<^verbatim>\<open>src/base/address_bdd.c\<close>: a set of 64 bit addresses kept as a
  binary tree that branches on the bits of an address from the highest bit down. A terminal stands for a whole
  aligned block. The tree of nodes on the heap is a datatype; the pointer from a node to its parent, which only
  the iterator follows, is the list of the ancestors the iterator carries. Two members of a node that are
  compared as pointers are equal only when both are the same terminal, because no two members of a tree point to
  the same node.

  The lemmas show that the tree denotes a set of addresses, that setting and clearing a range rounds the range
  to the granularity of the tree and changes the set accordingly, that the two queries are the conjunction and
  the disjunction over a range, that the iterator delivers the addresses of the set in ascending order, and what
  the search under a mask finds.
\<close>

unbundle bit_operations_syntax

type_synonym uintptr = "64 word"

section \<open>Nodes\<close>

datatype address_bdd_node =
    BDD_FALSE
  | BDD_TRUE
  | BNode (zero: address_bdd_node) (one: address_bdd_node)

record address_bdd =
  bdd_root :: address_bdd_node
  bdd_max_depth :: nat
  bdd_size_unit :: uintptr

fun node_is_terminal :: "address_bdd_node \<Rightarrow> bool" where
  "node_is_terminal (BNode _ _) = False"
| "node_is_terminal _ = True"

definition leading_one :: uintptr where
  "leading_one = push_bit 63 1"

definition floor_address :: "uintptr \<Rightarrow> uintptr \<Rightarrow> uintptr" where
  "floor_address addr unit = addr AND NOT (unit - 1)"

definition ceil_address :: "uintptr \<Rightarrow> uintptr \<Rightarrow> uintptr" where
  "ceil_address addr unit = floor_address addr unit + unit - 1"

definition node_split :: "address_bdd_node \<Rightarrow> address_bdd_node" where
  "node_split v = BNode v v"

text \<open>A depth of 0 passes the assertion; the shift by the full width is then undefined in C.\<close>

definition address_bdd_new :: "nat \<Rightarrow> address_bdd result" where
  "address_bdd_new max_depth =
     assertr (max_depth \<le> 64)
       (if max_depth = 0 then Inl Fault
        else Inr \<lparr>bdd_root = BDD_FALSE, bdd_max_depth = max_depth, bdd_size_unit = push_bit (64 - max_depth) 1\<rparr>)"

section \<open>Setting and clearing a range\<close>

text \<open>
  The recursion descends as long as the range cuts the block of the node. It ends because a block of one address
  is outside or inside of a range, which is a lemma below and not a property of the recursion itself.
\<close>

partial_function (option) address_bdd_set_range ::
  "address_bdd_node \<Rightarrow> uintptr \<Rightarrow> uintptr \<Rightarrow> uintptr \<Rightarrow> uintptr \<Rightarrow> uintptr \<Rightarrow> address_bdd_node \<Rightarrow> address_bdd_node option" where
  "address_bdd_set_range node addr_start addr_end current_start current_end current_bit val =
     (if addr_start > current_end \<or> addr_end < current_start \<or> node = val then Some node
      else if addr_start \<le> current_start \<and> addr_end \<ge> current_end then Some val
      else let node' = (if node_is_terminal node then node_split node else node) in
        Option.bind (address_bdd_set_range (zero node') addr_start addr_end current_start
            (current_end XOR current_bit) (drop_bit 1 current_bit) val)
          (\<lambda>z. Option.bind (address_bdd_set_range (one node') addr_start addr_end (current_start XOR current_bit)
              current_end (drop_bit 1 current_bit) val)
            (\<lambda>o1. Some (if z = o1 \<and> node_is_terminal z then z else BNode z o1))))"

declare address_bdd_set_range.simps [code]

definition address_bdd_set_val :: "address_bdd \<Rightarrow> uintptr \<Rightarrow> uintptr \<Rightarrow> address_bdd_node \<Rightarrow> address_bdd option" where
  "address_bdd_set_val bdd addr sz val =
     (if sz = 0 then Some bdd
      else map_option (\<lambda>r. bdd\<lparr>bdd_root := r\<rparr>)
        (address_bdd_set_range (bdd_root bdd) (floor_address addr (bdd_size_unit bdd))
           (ceil_address (addr + sz - 1) (bdd_size_unit bdd)) 0 (NOT 0) leading_one val))"

definition address_bdd_set :: "address_bdd \<Rightarrow> uintptr \<Rightarrow> uintptr \<Rightarrow> address_bdd option" where
  "address_bdd_set bdd addr sz = address_bdd_set_val bdd addr sz BDD_TRUE"

definition address_bdd_unset :: "address_bdd \<Rightarrow> uintptr \<Rightarrow> uintptr \<Rightarrow> address_bdd option" where
  "address_bdd_unset bdd addr sz = address_bdd_set_val bdd addr sz BDD_FALSE"

section \<open>Queries\<close>

fun address_bdd_check_range ::
  "address_bdd_node \<Rightarrow> uintptr \<Rightarrow> uintptr \<Rightarrow> uintptr \<Rightarrow> uintptr \<Rightarrow> uintptr \<Rightarrow> address_bdd_node \<Rightarrow> bool" where
  "address_bdd_check_range node addr_start addr_end current_start current_end current_bit val =
     (if addr_start > current_end \<or> addr_end < current_start \<or> node = val then True
      else case node of
        BNode z o1 \<Rightarrow>
          address_bdd_check_range z addr_start addr_end current_start (current_end XOR current_bit)
            (drop_bit 1 current_bit) val
          \<and> address_bdd_check_range o1 addr_start addr_end (current_start XOR current_bit) current_end
            (drop_bit 1 current_bit) val
      | _ \<Rightarrow> node = val)"

declare address_bdd_check_range.simps [simp del]

definition address_bdd_get_and :: "address_bdd \<Rightarrow> uintptr \<Rightarrow> uintptr \<Rightarrow> bool" where
  "address_bdd_get_and bdd addr sz =
     address_bdd_check_range (bdd_root bdd) addr (addr + sz - 1) 0 (NOT 0) leading_one BDD_TRUE"

definition address_bdd_get_or :: "address_bdd \<Rightarrow> uintptr \<Rightarrow> uintptr \<Rightarrow> bool" where
  "address_bdd_get_or bdd addr sz =
     (\<not> address_bdd_check_range (bdd_root bdd) addr (addr + sz - 1) 0 (NOT 0) leading_one BDD_FALSE)"

fun bdd_get_masked :: "uintptr \<Rightarrow> 64 word \<Rightarrow> address_bdd_node \<Rightarrow> uintptr \<Rightarrow> uintptr" where
  "bdd_get_masked addr mask1 BDD_TRUE current_bit = addr"
| "bdd_get_masked addr mask1 BDD_FALSE current_bit = 0"
| "bdd_get_masked addr mask1 (BNode z o1) current_bit =
     (if current_bit AND mask1 \<noteq> 0
      then if current_bit AND addr \<noteq> 0 then bdd_get_masked addr mask1 o1 (drop_bit 1 current_bit)
           else bdd_get_masked addr mask1 z (drop_bit 1 current_bit)
      else let res = bdd_get_masked addr mask1 o1 (drop_bit 1 current_bit) in
        if res \<noteq> 0 then res OR current_bit
        else bdd_get_masked addr mask1 z (drop_bit 1 current_bit) AND NOT current_bit)"

definition address_bdd_get_masked :: "address_bdd \<Rightarrow> uintptr \<Rightarrow> 64 word \<Rightarrow> uintptr" where
  "address_bdd_get_masked bdd addr mask1 = bdd_get_masked addr mask1 (bdd_root bdd) leading_one"

section \<open>Printing\<close>

text \<open>The two messages of the printer: the start of an interval and its last address.\<close>

datatype bdd_output = OpenAt uintptr | CloseAt uintptr

fun bdd_range_print ::
  "address_bdd_node \<Rightarrow> uintptr \<Rightarrow> uintptr \<Rightarrow> uintptr \<Rightarrow> address_bdd_node \<Rightarrow> bool \<Rightarrow> bool \<times> bdd_output list" where
  "bdd_range_print node current_start current_end current_bit val interval_open =
     (case node of
        BNode z o1 \<Rightarrow>
          (let (b1, out1) = bdd_range_print z current_start (current_end XOR current_bit)
                 (drop_bit 1 current_bit) val interval_open;
               (b2, out2) = bdd_range_print o1 (current_start XOR current_bit) current_end
                 (drop_bit 1 current_bit) val b1
           in (b2, out1 @ out2))
      | _ \<Rightarrow>
          if node \<noteq> val then (False, if interval_open then [CloseAt (current_start - 1)] else [])
          else (True, if interval_open then [] else [OpenAt current_start]))"

declare bdd_range_print.simps [simp del]

definition address_bdd_print_val :: "address_bdd \<Rightarrow> address_bdd_node \<Rightarrow> bdd_output list" where
  "address_bdd_print_val bdd val =
     (let (b, out) = bdd_range_print (bdd_root bdd) 0 (NOT 0) leading_one val False
      in if b then out @ [CloseAt (NOT 0)] else out)"

definition address_bdd_print :: "address_bdd \<Rightarrow> bdd_output list" where
  "address_bdd_print bdd = address_bdd_print_val bdd BDD_TRUE"

section \<open>Iterators\<close>

text \<open>
  The pointer \<^verbatim>\<open>parent_node\<close> is the list of the ancestors of the node, its parent first: the list a client
  obtains by following the members \<^verbatim>\<open>parent\<close>. A null pointer is the empty list.
\<close>

record address_bdd_iterator =
  it_node :: address_bdd_node
  it_parent_node :: "address_bdd_node list"
  it_current_bit :: uintptr
  it_offset :: uintptr
  it_base :: uintptr

fun find_true_sub_node ::
  "address_bdd_iterator \<Rightarrow> address_bdd_node \<Rightarrow> address_bdd_node list \<Rightarrow> uintptr \<Rightarrow> uintptr \<Rightarrow> bool \<times> address_bdd_iterator" where
  "find_true_sub_node it BDD_TRUE parents current_bit base =
     (True, it\<lparr>it_node := BDD_TRUE, it_parent_node := parents, it_base := base,
               it_offset := (if base = 0 then 1 else 0), it_current_bit := current_bit\<rparr>)"
| "find_true_sub_node it BDD_FALSE parents current_bit base = (False, it)"
| "find_true_sub_node it (BNode z o1) parents current_bit base =
     (let bit1 = (if current_bit \<noteq> 0 then drop_bit 1 current_bit else leading_one);
          (found, it1) = find_true_sub_node it z (BNode z o1 # parents) bit1 base
      in if found then (True, it1)
         else find_true_sub_node it1 o1 (BNode z o1 # parents) bit1 (base OR bit1))"

definition address_bdd_iterator_new :: "address_bdd \<Rightarrow> address_bdd_iterator" where
  "address_bdd_iterator_new bdd =
     (let it = \<lparr>it_node = bdd_root bdd, it_parent_node = [], it_current_bit = 0, it_offset = 0, it_base = 0\<rparr>;
          (found, it1) = find_true_sub_node it (it_node it) (it_parent_node it) (it_current_bit it) (it_base it)
      in if found then it1 else it1\<lparr>it_offset := - 1\<rparr>)"

partial_function (option) find_next_true_node :: "address_bdd_iterator \<Rightarrow> (bool \<times> address_bdd_iterator) option" where
  "find_next_true_node it =
     (case it_parent_node it of
        [] \<Rightarrow> Some (False, it)
      | p # ps \<Rightarrow>
          if it_base it AND it_current_bit it \<noteq> 0
          then find_next_true_node (it\<lparr>it_base := it_base it XOR it_current_bit it,
                 it_current_bit := push_bit 1 (it_current_bit it), it_node := p, it_parent_node := ps\<rparr>)
          else let it1 = it\<lparr>it_base := it_base it XOR it_current_bit it, it_node := one p\<rparr>;
                   (found, it2) = find_true_sub_node it1 (it_node it1) (it_parent_node it1) (it_current_bit it1)
                      (it_base it1)
               in if found then Some (True, it2) else find_next_true_node it2)"

declare find_next_true_node.simps [code]

definition address_bdd_iterator_next ::
  "address_bdd_iterator \<Rightarrow> (uintptr \<times> address_bdd_iterator) result option" where
  "address_bdd_iterator_next it =
     (if it_base it + it_offset it = - 1 then Some (Inr (0, it))
      else Option.bind
        (if it_offset it = it_current_bit it then find_next_true_node it else Some (True, it))
        (\<lambda>(found, it1).
           if \<not> found then Some (Inr (0, it1))
           else Some (assertr (it_node it1 = BDD_TRUE)
             (Inr (it_base it1 + it_offset it1, it1\<lparr>it_offset := it_offset it1 + 1\<rparr>)))))"

text \<open>
  The loop of \<^verbatim>\<open>address_bdd_size\<close>. The size is at most the number of addresses less two and fits a
  \<^verbatim>\<open>size_t\<close>; the model counts in \<^typ>\<open>nat\<close>.
\<close>

partial_function (option) bdd_size_loop :: "address_bdd_iterator \<Rightarrow> nat \<Rightarrow> nat result option" where
  "bdd_size_loop it n =
     Option.bind (address_bdd_iterator_next it)
       (\<lambda>r. case r of Inl e \<Rightarrow> Some (Inl e)
            | Inr (a, it1) \<Rightarrow> if a = 0 then Some (Inr n) else bdd_size_loop it1 (n + 1))"

declare bdd_size_loop.simps [code]

definition address_bdd_size :: "address_bdd \<Rightarrow> nat result option" where
  "address_bdd_size bdd = bdd_size_loop (address_bdd_iterator_new bdd) 0"

section \<open>The set a tree denotes\<close>

text \<open>
  A node at level \<open>k\<close> covers \<open>2 ^ k\<close> addresses and branches on bit \<open>k - 1\<close>. The root is at level 64.
\<close>

fun bmem :: "address_bdd_node \<Rightarrow> nat \<Rightarrow> uintptr \<Rightarrow> bool" where
  "bmem BDD_TRUE k a = True"
| "bmem BDD_FALSE k a = False"
| "bmem (BNode z o1) k a = bmem (if bit a (k - 1) then o1 else z) (k - 1) a"

fun bheight :: "address_bdd_node \<Rightarrow> nat" where
  "bheight (BNode z o1) = Suc (max (bheight z) (bheight o1))"
| "bheight _ = 0"

text \<open>No inner node has two equal terminals as members.\<close>

fun breduced :: "address_bdd_node \<Rightarrow> bool" where
  "breduced (BNode z o1) = (breduced z \<and> breduced o1 \<and> \<not> (z = o1 \<and> node_is_terminal z))"
| "breduced _ = True"

definition bdd_addrs :: "address_bdd \<Rightarrow> uintptr set" where
  "bdd_addrs bdd = {a. bmem (bdd_root bdd) 64 a}"

definition bdd_inv :: "address_bdd \<Rightarrow> bool" where
  "bdd_inv bdd = (0 < bdd_max_depth bdd \<and> bdd_max_depth bdd \<le> 64
     \<and> bdd_size_unit bdd = push_bit (64 - bdd_max_depth bdd) 1
     \<and> bheight (bdd_root bdd) \<le> bdd_max_depth bdd \<and> breduced (bdd_root bdd))"

text \<open>
  The block of a node: its level \<open>k\<close>, first and last address, the bit below the level, and the number \<open>q\<close> that
  the bits from the level on form.
\<close>

definition in_blk :: "nat \<Rightarrow> nat \<Rightarrow> uintptr \<Rightarrow> bool" where
  "in_blk k q a = (q * 2 ^ k \<le> unat a \<and> unat a < Suc q * 2 ^ k)"

definition blk :: "nat \<Rightarrow> uintptr \<Rightarrow> uintptr \<Rightarrow> uintptr \<Rightarrow> nat \<Rightarrow> bool" where
  "blk k cs ce b q = (k \<le> 64 \<and> unat cs = q * 2 ^ k \<and> Suc (unat ce) = Suc q * 2 ^ k
     \<and> b = (if k = 0 then 0 else 2 ^ (k - 1)))"

lemma bit_word_iff: "bit (a :: uintptr) i = odd (unat a div 2 ^ i)"
  by (simp add: unat_drop_bit_eq [symmetric] drop_bit_eq_div [symmetric] bit_iff_odd_drop_bit)
     (transfer, auto simp: even_nat_iff)

lemma unat_two_pow: "i < 64 \<Longrightarrow> unat ((2 :: uintptr) ^ i) = 2 ^ i"
  by transfer (simp add: take_bit_nat_eq_self)

lemma two_pow_64: "(2 :: uintptr) ^ 64 = 0"
  by (simp add: exp_eq_zero_iff)

lemma drop_two_pow: "i < 64 \<Longrightarrow> drop_bit (Suc 0) ((2 :: uintptr) ^ i) = (if i = 0 then 0 else 2 ^ (i - 1))"
  by (rule bit_word_eqI) (auto simp: bit_simps)

lemma below_pow:
  assumes "Suc n = 2 ^ k + m"
  shows "m \<le> n"
proof -
  have "1 \<le> (2 :: nat) ^ k" by simp
  with assms show ?thesis by linarith
qed

lemma unat_all_ones: "unat (- 1 :: uintptr) = 2 ^ 64 - 1"
  by (simp add: unsigned_minus_1_eq_mask mask_eq_exp_minus_1)

lemma in_blk_halves: "in_blk (Suc k) q a \<longleftrightarrow> in_blk k (2 * q) a \<or> in_blk k (2 * q + 1) a"
  by (auto simp: in_blk_def algebra_simps)

lemma bit_in_blk:
  assumes "in_blk k q a"
  shows "bit a k = odd q"
proof -
  have "unat a div 2 ^ k = q"
    using assms by (intro div_nat_eqI) (simp_all add: in_blk_def mult.commute)
  then show ?thesis by (simp add: bit_word_iff)
qed

lemma xor_clear: "\<not> bit (x :: uintptr) k \<Longrightarrow> x XOR 2 ^ k = x + 2 ^ k"
  by (metis and_exp_eq_0_iff_not_bit disjunctive_add_eq_xor)

lemma xor_set: "bit (x :: uintptr) k \<Longrightarrow> x XOR 2 ^ k = x - 2 ^ k"
  by (metis add_diff_cancel bit_imp_possible_bit bit_not_iff disjunctive_diff_eq_and_not disjunctive_diff_eq_xor
      and_exp_eq_0_iff_not_bit)

lemma blk_first: "blk k cs ce b q \<Longrightarrow> in_blk k q cs"
  by (simp add: blk_def in_blk_def)

lemma blk_last: "blk k cs ce b q \<Longrightarrow> in_blk k q ce"
  by (auto simp: blk_def in_blk_def intro: below_pow)

lemma in_blk_iff: "blk k cs ce b q \<Longrightarrow> in_blk k q a \<longleftrightarrow> cs \<le> a \<and> a \<le> ce"
  by (auto simp: blk_def in_blk_def word_le_nat_alt)

lemma blk_halves:
  assumes "blk (Suc k) cs ce b q"
  shows "blk k cs (ce XOR b) (drop_bit 1 b) (2 * q)"
    and "blk k (cs XOR b) ce (drop_bit 1 b) (2 * q + 1)"
proof -
  have k: "k < 64" and b: "b = 2 ^ k" and c: "unat cs = q * 2 ^ Suc k" and e: "Suc (unat ce) = Suc q * 2 ^ Suc k"
    using assms by (simp_all add: blk_def)
  have bc: "\<not> bit cs k" using c by (simp add: bit_word_iff)
  have p: "(0 :: nat) < 2 ^ k" by simp
  have "in_blk k (2 * q + 1) ce" using e below_pow [of "unat ce" k "(2 * q + 1) * 2 ^ k"] by (auto simp: in_blk_def algebra_simps)
  then have be: "bit ce k" using bit_in_blk by fastforce
  have "(2 :: uintptr) ^ k \<le> ce" using e k by (simp add: word_le_nat_alt unat_two_pow)
  then have u: "Suc (unat (ce XOR 2 ^ k)) = Suc (2 * q) * 2 ^ k"
    using e k p by (simp add: xor_set [OF be] unat_sub unat_two_pow)
  have "unat ce < 2 ^ 64" using unsigned_less [of ce] by simp
  then have "unat cs + 2 ^ k < 2 ^ 64" using c e p by (simp only: power_Suc mult_Suc)
  then have "unat (cs + 2 ^ k) = unat cs + 2 ^ k"
    using unat_add_lem [of cs "2 ^ k"] k by (simp add: unat_two_pow)
  then have v: "unat (cs XOR 2 ^ k) = (2 * q + 1) * 2 ^ k" using c by (simp add: xor_clear [OF bc] algebra_simps)
  show "blk k cs (ce XOR b) (drop_bit 1 b) (2 * q)"
    using k c u by (simp add: b blk_def drop_two_pow)
  show "blk k (cs XOR b) ce (drop_bit 1 b) (2 * q + 1)"
    using k e v by (simp add: b blk_def drop_two_pow)
qed

lemma blk_root: "blk 64 0 (NOT 0) leading_one 0"
  by (simp add: blk_def leading_one_def unat_all_ones)


section \<open>Changing a range\<close>

text \<open>A range is aligned to \<open>2 ^ g\<close> when no block of that size is cut by it.\<close>

definition aligned_range :: "nat \<Rightarrow> uintptr \<Rightarrow> uintptr \<Rightarrow> bool" where
  "aligned_range g lo hi = (2 ^ g dvd unat lo \<and> 2 ^ g dvd Suc (unat hi))"

lemma aligned_covers:
  assumes "blk g cs ce b q" and "aligned_range g lo hi" and "\<not> (lo > ce \<or> hi < cs)"
  shows "lo \<le> cs \<and> hi \<ge> ce"
proof -
  obtain m n where m: "unat lo = 2 ^ g * m" and n: "Suc (unat hi) = 2 ^ g * n"
    using assms(2) by (auto simp: aligned_range_def elim!: dvdE)
  have c: "unat cs = 2 ^ g * q" and e: "Suc (unat ce) = 2 ^ g * Suc q"
    using assms(1) by (simp_all add: blk_def)
  have "unat lo < Suc (unat ce)" using assms(3) by (simp add: word_less_nat_alt)
  then have "2 ^ g * m < (2 :: nat) ^ g * Suc q" unfolding m e .
  then have mq: "m \<le> q" by (simp only: mult_less_cancel1) simp
  have "unat cs < Suc (unat hi)" using assms(3) by (simp add: word_less_nat_alt)
  then have "2 ^ g * q < (2 :: nat) ^ g * n" unfolding n c .
  then have "Suc q \<le> n" by simp
  then have "(2 :: nat) ^ g * Suc q \<le> 2 ^ g * n" by (rule mult_le_mono2)
  then have "unat ce \<le> unat hi" unfolding n [symmetric] e [symmetric] by simp
  moreover from mq have "unat lo \<le> unat cs" unfolding m c by simp
  ultimately show ?thesis by (simp add: word_le_nat_alt)
qed

lemma bmem_reduce:
  "bmem (if z = o1 \<and> node_is_terminal z then z else BNode z o1) (Suc k) a = bmem (if bit a k then o1 else z) k a"
  by (cases z) auto

definition opened :: "address_bdd_node \<Rightarrow> address_bdd_node" where
  "opened t = (if node_is_terminal t then node_split t else t)"

lemma opened_bmem: "bmem t (Suc k) a = bmem (if bit a k then one (opened t) else zero (opened t)) k a"
  by (cases t) (simp_all add: opened_def node_split_def)

lemma opened_reduced: "breduced t \<Longrightarrow> breduced (zero (opened t)) \<and> breduced (one (opened t))"
  by (cases t) (simp_all add: opened_def node_split_def)

lemma opened_height:
  "bheight t + g \<le> Suc k \<Longrightarrow> g \<le> k \<Longrightarrow> bheight (zero (opened t)) + g \<le> k \<and> bheight (one (opened t)) + g \<le> k"
  by (cases t) (auto simp: opened_def node_split_def)

text \<open>The outcome of the recursion on the block \<open>q\<close> of level \<open>k\<close>.\<close>

definition range_set :: "nat \<Rightarrow> nat \<Rightarrow> nat \<Rightarrow> uintptr \<Rightarrow> uintptr \<Rightarrow> address_bdd_node \<Rightarrow> address_bdd_node \<Rightarrow>
    address_bdd_node \<Rightarrow> bool" where
  "range_set k q g lo hi v t t' = (bheight t' + g \<le> k \<and> breduced t'
     \<and> (\<forall>a. in_blk k q a \<longrightarrow> bmem t' k a = (if lo \<le> a \<and> a \<le> hi then v = BDD_TRUE else bmem t k a)))"

lemma terminal_simps:
  assumes "node_is_terminal v"
  shows "bmem v k a = (v = BDD_TRUE)" and "bheight v = 0" and "breduced v"
  using assms by (cases v; simp)+

lemma set_range_leaf:
  assumes bl: "blk k cs ce b q" and v: "node_is_terminal v" and t: "bheight t + g \<le> k" "breduced t" "g \<le> k"
    and c: "lo > ce \<or> hi < cs \<or> t = v \<or> lo \<le> cs \<and> hi \<ge> ce"
  shows "\<exists>t'. address_bdd_set_range t lo hi cs ce b v = Some t' \<and> range_set k q g lo hi v t t'"
proof (cases "lo > ce \<or> hi < cs \<or> t = v")
  case True
  then have "address_bdd_set_range t lo hi cs ce b v = Some t"
    by (simp add: address_bdd_set_range.simps [of t lo hi cs ce b v])
  moreover have "range_set k q g lo hi v t t"
    using True t in_blk_iff [OF bl] terminal_simps [OF v] by (fastforce simp: range_set_def)
  ultimately show ?thesis by blast
next
  case False
  with c have "address_bdd_set_range t lo hi cs ce b v = Some v" and r: "lo \<le> cs" "hi \<ge> ce"
    by (simp_all add: address_bdd_set_range.simps [of t lo hi cs ce b v])
  moreover have "range_set k q g lo hi v t v"
    using r t in_blk_iff [OF bl] terminal_simps [OF v] by (fastforce simp: range_set_def)
  ultimately show ?thesis by blast
qed

lemma set_range_node:
  assumes c: "\<not> (lo > ce \<or> hi < cs \<or> t = v \<or> lo \<le> cs \<and> hi \<ge> ce)"
    and z: "address_bdd_set_range (zero (opened t)) lo hi cs (ce XOR b) (drop_bit 1 b) v = Some z"
      "range_set k (2 * q) g lo hi v (zero (opened t)) z"
    and o: "address_bdd_set_range (one (opened t)) lo hi (cs XOR b) ce (drop_bit 1 b) v = Some o1"
      "range_set k (2 * q + 1) g lo hi v (one (opened t)) o1"
  shows "\<exists>t'. address_bdd_set_range t lo hi cs ce b v = Some t' \<and> range_set (Suc k) q g lo hi v t t'"
proof (intro exI conjI)
  let ?r = "if z = o1 \<and> node_is_terminal z then z else BNode z o1"
  show "address_bdd_set_range t lo hi cs ce b v = Some ?r"
    using c z(1) o(1) by (auto simp: address_bdd_set_range.simps [of t lo hi cs ce b v] Let_def simp flip: opened_def)
  have "bmem ?r (Suc k) a = (if lo \<le> a \<and> a \<le> hi then v = BDD_TRUE else bmem t (Suc k) a)"
    if "in_blk (Suc k) q a" for a
  proof -
    from that have "in_blk k (2 * q) a \<and> \<not> bit a k \<or> in_blk k (2 * q + 1) a \<and> bit a k"
      unfolding in_blk_halves by (auto dest: bit_in_blk)
    then show ?thesis unfolding bmem_reduce opened_bmem [of t] using z(2) o(2) by (auto simp: range_set_def)
  qed
  then show "range_set (Suc k) q g lo hi v t ?r" using z(2) o(2) by (auto simp: range_set_def)
qed

text \<open>
  The recursion ends at every level, gives the addresses of the range the new value, keeps the others, and
  descends no deeper than the granularity of the range.
\<close>

lemma set_range_spec:
  assumes "blk k cs ce b q" and "g \<le> k" and al: "aligned_range g lo hi" and v: "node_is_terminal v"
    and "bheight t + g \<le> k" and "breduced t"
  shows "\<exists>t'. address_bdd_set_range t lo hi cs ce b v = Some t' \<and> range_set k q g lo hi v t t'"
  using assms(1,2,5,6)
proof (induction "k - g" arbitrary: k t cs ce b q)
  case 0
  then have "k = g" by simp
  then show ?case using set_range_leaf [OF 0(2) v 0(4,5,3)] aligned_covers [OF _ al] 0(2) by blast
next
  case (Suc n)
  then obtain k' where k: "k = Suc k'" and gk: "g \<le> k'" by (cases k) auto
  show ?case
  proof (cases "lo > ce \<or> hi < cs \<or> t = v \<or> lo \<le> cs \<and> hi \<ge> ce")
    case True
    then show ?thesis by (rule set_range_leaf [OF Suc.prems(1) v Suc.prems(3,4,2)])
  next
    case False
    note halves = blk_halves [OF Suc.prems(1) [unfolded k]]
    have n: "n = k' - g" using Suc.hyps(2) k by simp
    have hs: "bheight (zero (opened t)) + g \<le> k'" "bheight (one (opened t)) + g \<le> k'"
      using opened_height [OF Suc.prems(3) [unfolded k] gk] by simp_all
    have rs: "breduced (zero (opened t))" "breduced (one (opened t))" using opened_reduced [OF Suc.prems(4)] by simp_all
    show ?thesis unfolding k
      using Suc.hyps(1) [OF n halves(1) gk hs(1) rs(1)] Suc.hyps(1) [OF n halves(2) gk hs(2) rs(2)]
        set_range_node [OF False] by blast
  qed
qed


section \<open>Granularity and the operations\<close>

definition gran :: "address_bdd \<Rightarrow> nat" where
  "gran bdd = 64 - bdd_max_depth bdd"

lemma floor_address_unat:
  assumes "g < 64"
  shows "unat (floor_address a (2 ^ g)) = unat a div 2 ^ g * 2 ^ g"
proof -
  have "floor_address a (2 ^ g) = push_bit g (drop_bit g a)"
    by (rule bit_word_eqI) (auto simp: floor_address_def bit_simps simp flip: mask_eq_exp_minus_1)
  then have "unat (floor_address a (2 ^ g)) = take_bit 64 (push_bit g (unat (drop_bit g a)))"
    by (simp add: unsigned_push_bit_eq)
  also have "\<dots> = take_bit 64 (unat a div 2 ^ g * 2 ^ g)"
    unfolding unat_drop_bit_eq by (simp add: drop_bit_eq_div push_bit_eq_mult)
  also have "\<dots> = unat a div 2 ^ g * 2 ^ g"
    using unsigned_less [of a] order_le_less_trans [OF div_times_less_eq_dividend]
    by (intro take_bit_nat_eq_self) simp
  finally show ?thesis .
qed

lemma ceil_address_unat:
  assumes "g < 64"
  shows "Suc (unat (ceil_address a (2 ^ g))) = Suc (unat a div 2 ^ g) * 2 ^ g"
proof -
  let ?f = "floor_address a (2 ^ g)"
  have u: "unat ((2 :: uintptr) ^ g - 1) = 2 ^ g - 1"
    using assms by (simp add: unat_minus_one unat_two_pow)
  have "unat a < 2 ^ (64 - g) * 2 ^ g" using unsigned_less [of a] assms by (simp flip: power_add)
  then have "unat a div 2 ^ g < 2 ^ (64 - g)" by (simp add: less_mult_imp_div_less)
  then have "Suc (unat a div 2 ^ g) * 2 ^ g \<le> 2 ^ (64 - g) * 2 ^ g" by (intro mult_le_mono1) simp
  also have "\<dots> = 2 ^ 64" using assms by (simp flip: power_add)
  finally have le: "unat ?f + 2 ^ g \<le> 2 ^ 64" by (simp add: floor_address_unat [OF assms])
  have p: "1 \<le> (2 :: nat) ^ g" by simp
  have "unat ?f + unat ((2 :: uintptr) ^ g - 1) < 2 ^ 64" unfolding u using le p by linarith
  then have "unat (?f + (2 ^ g - 1)) = unat ?f + unat ((2 :: uintptr) ^ g - 1)"
    using unat_add_lem [of ?f "2 ^ g - 1"] by simp
  then have "Suc (unat (ceil_address a (2 ^ g))) = unat ?f + 2 ^ g"
    unfolding u using p by (simp add: ceil_address_def algebra_simps)
  then show ?thesis by (simp add: floor_address_unat [OF assms])
qed


text \<open>The addresses a call touches: the blocks of the granularity that the given range meets.\<close>

definition rounded :: "nat \<Rightarrow> uintptr \<Rightarrow> uintptr \<Rightarrow> uintptr set" where
  "rounded g addr sz = (if sz = 0 then {} else
     {a. unat addr div 2 ^ g \<le> unat a div 2 ^ g \<and> unat a div 2 ^ g \<le> unat (addr + sz - 1) div 2 ^ g})"

lemma in_root: "in_blk 64 0 a"
  using unsigned_less [of a] by (simp add: in_blk_def)

lemma bdd_inv_gran: "bdd_inv bdd \<Longrightarrow> gran bdd < 64 \<and> bdd_size_unit bdd = 2 ^ gran bdd"
  by (auto simp: bdd_inv_def gran_def)

lemma floor_le_iff:
  assumes "g < 64"
  shows "floor_address x (2 ^ g) \<le> a \<longleftrightarrow> unat x div 2 ^ g \<le> unat a div 2 ^ g"
  unfolding word_le_nat_alt floor_address_unat [OF assms]
  by (metis div_le_mono div_mult_self_is_m div_times_less_eq_dividend le_trans mult_le_mono1 zero_less_numeral zero_less_power)

lemma le_ceil_iff:
  assumes "g < 64"
  shows "a \<le> ceil_address x (2 ^ g) \<longleftrightarrow> unat a div 2 ^ g \<le> unat x div 2 ^ g"
proof -
  have "a \<le> ceil_address x (2 ^ g) \<longleftrightarrow> unat a < Suc (unat (ceil_address x (2 ^ g)))"
    by (simp add: word_le_nat_alt less_Suc_eq_le)
  also have "\<dots> \<longleftrightarrow> unat a div 2 ^ g < Suc (unat x div 2 ^ g)"
    unfolding ceil_address_unat [OF assms] by (simp add: div_less_iff_less_mult)
  finally show ?thesis by (simp add: less_Suc_eq_le)
qed

lemma aligned_rounded: "g < 64 \<Longrightarrow> aligned_range g (floor_address x (2 ^ g)) (ceil_address y (2 ^ g))"
  by (simp add: aligned_range_def floor_address_unat ceil_address_unat del: mult_Suc)

lemma set_val_spec:
  assumes inv: "bdd_inv bdd" and v: "node_is_terminal v"
  shows "\<exists>bdd'. address_bdd_set_val bdd addr sz v = Some bdd' \<and> bdd_inv bdd'
    \<and> gran bdd' = gran bdd
    \<and> bdd_addrs bdd' = (if v = BDD_TRUE then bdd_addrs bdd \<union> rounded (gran bdd) addr sz
                       else bdd_addrs bdd - rounded (gran bdd) addr sz)"
proof (cases "sz = 0")
  case False
  let ?lo = "floor_address addr (2 ^ gran bdd)" and ?hi = "ceil_address (addr + sz - 1) (2 ^ gran bdd)"
  note g = bdd_inv_gran [OF inv]
  have h: "bheight (bdd_root bdd) + gran bdd \<le> 64" "breduced (bdd_root bdd)"
    using inv by (auto simp: bdd_inv_def gran_def)
  obtain t' where t': "address_bdd_set_range (bdd_root bdd) ?lo ?hi 0 (NOT 0) leading_one v = Some t'"
    "range_set 64 0 (gran bdd) ?lo ?hi v (bdd_root bdd) t'"
    using set_range_spec [OF blk_root _ aligned_rounded v h] g by fastforce
  let ?b = "bdd\<lparr>bdd_root := t'\<rparr>"
  have m: "bmem t' 64 a = (if a \<in> rounded (gran bdd) addr sz then v = BDD_TRUE else bmem (bdd_root bdd) 64 a)" for a
    using t'(2) g False by (simp add: range_set_def in_root rounded_def floor_le_iff le_ceil_iff)
  have "address_bdd_set_val bdd addr sz v = Some ?b"
    using t'(1) g False by (simp add: address_bdd_set_val_def)
  moreover have "bdd_inv ?b" using t'(2) inv by (auto simp: bdd_inv_def range_set_def gran_def)
  moreover have "gran ?b = gran bdd" by (simp add: gran_def)
  moreover have "bdd_addrs ?b = (if v = BDD_TRUE then bdd_addrs bdd \<union> rounded (gran bdd) addr sz
      else bdd_addrs bdd - rounded (gran bdd) addr sz)"
    by (auto simp: bdd_addrs_def m split: if_splits)
  ultimately show ?thesis by blast
qed (use inv in \<open>simp add: address_bdd_set_val_def rounded_def\<close>)

section \<open>The queries\<close>

lemma check_range_terminal:
  assumes bl: "blk k cs ce b q" and le: "lo \<le> hi" and v: "node_is_terminal v" and t: "node_is_terminal t"
  shows "address_bdd_check_range t lo hi cs ce b v \<longleftrightarrow>
    (\<forall>a. in_blk k q a \<and> lo \<le> a \<and> a \<le> hi \<longrightarrow> bmem t k a = (v = BDD_TRUE))"
proof -
  have "address_bdd_check_range t lo hi cs ce b v \<longleftrightarrow> lo > ce \<or> hi < cs \<or> t = v"
    using t by (cases t) (simp_all add: address_bdd_check_range.simps)
  moreover have "t = v \<longleftrightarrow> bmem t k a = (v = BDD_TRUE)" for a
    using t v by (cases t; cases v) simp_all
  moreover have "lo > ce \<or> hi < cs \<longleftrightarrow> (\<forall>a. \<not> (in_blk k q a \<and> lo \<le> a \<and> a \<le> hi))"
  proof -
    have "cs \<le> ce" using blk_first [OF bl] in_blk_iff [OF bl] by blast
    then have "\<not> (lo > ce \<or> hi < cs) \<Longrightarrow> in_blk k q (max lo cs) \<and> lo \<le> max lo cs \<and> max lo cs \<le> hi"
      using le unfolding in_blk_iff [OF bl] by auto
    moreover have "lo > ce \<or> hi < cs \<Longrightarrow> \<not> (in_blk k q a \<and> lo \<le> a \<and> a \<le> hi)" for a
      unfolding in_blk_iff [OF bl] by auto
    ultimately show ?thesis by blast
  qed
  ultimately show ?thesis by metis
qed

lemma check_range_spec:
  assumes "blk k cs ce b q" and "bheight t \<le> k" and "lo \<le> hi" and v: "node_is_terminal v"
  shows "address_bdd_check_range t lo hi cs ce b v \<longleftrightarrow>
    (\<forall>a. in_blk k q a \<and> lo \<le> a \<and> a \<le> hi \<longrightarrow> bmem t k a = (v = BDD_TRUE))"
  using assms(1,2)
proof (induction t arbitrary: k cs ce b q)
  case (BNode z o1)
  then obtain k' where k: "k = Suc k'" and hz: "bheight z \<le> k'" "bheight o1 \<le> k'" by (cases k) auto
  note halves = blk_halves [OF BNode.prems(1) [unfolded k]]
  have nv: "BNode z o1 \<noteq> v" using v by (cases v) auto
  show ?case
  proof (cases "lo > ce \<or> hi < cs")
    case True
    then show ?thesis
      using in_blk_iff [OF BNode.prems(1)] by (fastforce simp: address_bdd_check_range.simps)
  next
    case False
    then have "address_bdd_check_range (BNode z o1) lo hi cs ce b v \<longleftrightarrow>
        address_bdd_check_range z lo hi cs (ce XOR b) (drop_bit 1 b) v
        \<and> address_bdd_check_range o1 lo hi (cs XOR b) ce (drop_bit 1 b) v"
      using nv by (subst address_bdd_check_range.simps) simp
    also have "\<dots> \<longleftrightarrow> (\<forall>a. in_blk k' (2 * q) a \<and> lo \<le> a \<and> a \<le> hi \<longrightarrow> bmem z k' a = (v = BDD_TRUE))
        \<and> (\<forall>a. in_blk k' (2 * q + 1) a \<and> lo \<le> a \<and> a \<le> hi \<longrightarrow> bmem o1 k' a = (v = BDD_TRUE))"
      using BNode.IH(1) [OF halves(1) hz(1)] BNode.IH(2) [OF halves(2) hz(2)] by simp
    also have "\<dots> \<longleftrightarrow> (\<forall>a. in_blk k q a \<and> lo \<le> a \<and> a \<le> hi \<longrightarrow> bmem (BNode z o1) k a = (v = BDD_TRUE))"
      unfolding k in_blk_halves using bit_in_blk [of k'] by (fastforce simp del: One_nat_def)
    finally show ?thesis .
  qed
qed (rule check_range_terminal [OF _ assms(3) v]; simp)+

lemma get_and_spec:
  assumes inv: "bdd_inv bdd" and nz: "0 < unat sz" and fit: "unat addr + unat sz \<le> 2 ^ 64"
  shows "address_bdd_get_and bdd addr sz \<longleftrightarrow> {addr .. addr + sz - 1} \<subseteq> bdd_addrs bdd"
    and "address_bdd_get_or bdd addr sz \<longleftrightarrow> {addr .. addr + sz - 1} \<inter> bdd_addrs bdd \<noteq> {}"
proof -
  have sz1: "unat (sz - 1) = unat sz - 1" using nz by (subst unat_minus_one) auto
  have "unat addr + unat (sz - 1) < 2 ^ 64" unfolding sz1 using nz fit by linarith
  then have "addr \<le> addr + (sz - 1)" by (simp add: unat_plus_simple unat_add_lem [symmetric])
  then have le: "addr \<le> addr + sz - 1" by (simp add: algebra_simps)
  have h: "bheight (bdd_root bdd) \<le> 64" using inv by (auto simp: bdd_inv_def)
  note spec = check_range_spec [OF blk_root h le]
  show "address_bdd_get_and bdd addr sz \<longleftrightarrow> {addr .. addr + sz - 1} \<subseteq> bdd_addrs bdd"
    using spec [of BDD_TRUE] by (auto simp: address_bdd_get_and_def in_root bdd_addrs_def)
  show "address_bdd_get_or bdd addr sz \<longleftrightarrow> {addr .. addr + sz - 1} \<inter> bdd_addrs bdd \<noteq> {}"
    using spec [of BDD_FALSE] by (auto simp: address_bdd_get_or_def in_root bdd_addrs_def)
qed



section \<open>The search under a mask\<close>

lemma bmem_cong: "bheight t \<le> k \<Longrightarrow> (\<And>i. i < k \<Longrightarrow> bit a i = bit b i) \<Longrightarrow> bmem t k a = bmem t k b"
proof (induction t arbitrary: k)
  case (BNode z o1)
  then obtain k' where "k = Suc k'" by (cases k) auto
  then show ?case using BNode by simp
qed simp_all

lemma bit_level:
  assumes "k < 64"
  shows "(2 ^ k AND (x :: uintptr) \<noteq> 0) = bit x k"
  by (simp add: and.commute and_exp_eq_0_iff_not_bit)

definition level_bit :: "nat \<Rightarrow> uintptr" where
  "level_bit k = (if k = 0 then 0 else 2 ^ (k - 1))"

lemma get_masked_node:
  assumes "k < 64"
  shows "bdd_get_masked addr m (BNode z o1) (level_bit (Suc k)) =
     (let rz = bdd_get_masked addr m z (level_bit k); ro = bdd_get_masked addr m o1 (level_bit k)
      in if bit m k then if bit addr k then ro else rz
         else if ro \<noteq> 0 then ro OR 2 ^ k else rz AND NOT (2 ^ k))"
proof -
  have "level_bit (Suc k) = 2 ^ k" "drop_bit 1 (2 ^ k) = level_bit k"
    using drop_two_pow [OF assms] by (simp_all add: level_bit_def)
  then show ?thesis by (simp only: bdd_get_masked.simps Let_def bit_level [OF assms])
qed

text \<open>
  A result other than 0 is in the tree, agrees with the given address under the mask, and has the bits above the
  level from the given address.
\<close>

lemma get_masked_sound:
  assumes "bheight t \<le> k" and "k \<le> 64" and "bdd_get_masked addr m t (level_bit k) \<noteq> 0"
  shows "bmem t k (bdd_get_masked addr m t (level_bit k))
    \<and> (\<forall>i. k \<le> i \<or> bit m i \<longrightarrow> bit (bdd_get_masked addr m t (level_bit k)) i = bit addr i)"
  using assms
proof (induction t arbitrary: k)
  case (BNode z o1)
  then obtain k' where k: "k = Suc k'" and k64: "k' < 64" and h: "bheight z \<le> k'" "bheight o1 \<le> k'" by (cases k) auto
  let ?z = "bdd_get_masked addr m z (level_bit k')" and ?o = "bdd_get_masked addr m o1 (level_bit k')"
  let ?r = "bdd_get_masked addr m (BNode z o1) (level_bit k)"
  have r: "?r = (if bit m k' then if bit addr k' then ?o else ?z
      else if ?o \<noteq> 0 then ?o OR 2 ^ k' else ?z AND NOT (2 ^ k'))"
    unfolding k get_masked_node [OF k64] Let_def ..
  have IHz: "?z \<noteq> 0 \<Longrightarrow> bmem z k' ?z \<and> (\<forall>i. k' \<le> i \<or> bit m i \<longrightarrow> bit ?z i = bit addr i)"
    using BNode.IH(1) [OF h(1)] k64 by simp
  have IHo: "?o \<noteq> 0 \<Longrightarrow> bmem o1 k' ?o \<and> (\<forall>i. k' \<le> i \<or> bit m i \<longrightarrow> bit ?o i = bit addr i)"
    using BNode.IH(2) [OF h(2)] k64 by simp
  have zz: "?z AND NOT (2 ^ k') \<noteq> 0 \<Longrightarrow> ?z \<noteq> 0" by auto
  consider "bit m k'" "bit addr k'" "?r = ?o" | "bit m k'" "\<not> bit addr k'" "?r = ?z"
    | "\<not> bit m k'" "?o \<noteq> 0" "?r = ?o OR 2 ^ k'" | "\<not> bit m k'" "?z \<noteq> 0" "?r = ?z AND NOT (2 ^ k')"
    using r BNode.prems(3) zz by (cases "bit m k'"; cases "bit addr k'"; cases "?o = 0") auto
  then show ?case
  proof cases
    case 1 then show ?thesis using IHo BNode.prems(3) by (simp add: k)
  next
    case 2 then show ?thesis using IHz BNode.prems(3) by (simp add: k)
  next
    case 3
    have "bmem o1 k' (?o OR 2 ^ k') = bmem o1 k' ?o" by (rule bmem_cong [OF h(2)]) (simp add: bit_simps)
    then show ?thesis unfolding 3(3) using IHo [OF 3(2)] 3(1) k64 by (auto simp: k bit_simps)
  next
    case 4
    have "bmem z k' (?z AND NOT (2 ^ k')) = bmem z k' ?z" by (rule bmem_cong [OF h(1)]) (use k64 in \<open>auto simp: bit_simps\<close>)
    then show ?thesis unfolding 4(3) using IHz [OF 4(2)] 4(1) k64
      by (auto simp: k bit_simps dest: bit_imp_le_length)
  qed
qed (auto split: if_splits)

text \<open>When the masked address is not 0, a result of 0 means that there is no match.\<close>

lemma get_masked_complete:
  assumes "bheight t \<le> k" and "k \<le> 64" and j: "bit m j" "bit addr j"
    and "bdd_get_masked addr m t (level_bit k) = 0"
  shows "\<not> (bmem t k x \<and> (\<forall>i<k. bit m i \<longrightarrow> bit x i = bit addr i))"
  using assms(1,2,5)
proof (induction t arbitrary: k)
  case (BNode z o1)
  then obtain k' where k: "k = Suc k'" and k64: "k' < 64" and h: "bheight z \<le> k'" "bheight o1 \<le> k'" by (cases k) auto
  let ?z = "bdd_get_masked addr m z (level_bit k')" and ?o = "bdd_get_masked addr m o1 (level_bit k')"
  have r: "0 = (if bit m k' then if bit addr k' then ?o else ?z
      else if ?o \<noteq> 0 then ?o OR 2 ^ k' else ?z AND NOT (2 ^ k'))"
    using BNode.prems(3) unfolding k get_masked_node [OF k64] Let_def by (rule sym)
  have IHz: "?z = 0 \<Longrightarrow> \<not> (bmem z k' x \<and> (\<forall>i<k'. bit m i \<longrightarrow> bit x i = bit addr i))"
    using BNode.IH(1) [OF h(1)] k64 by simp
  have IHo: "?o = 0 \<Longrightarrow> \<not> (bmem o1 k' x \<and> (\<forall>i<k'. bit m i \<longrightarrow> bit x i = bit addr i))"
    using BNode.IH(2) [OF h(2)] k64 by simp
  show ?case
  proof (cases "bit m k'")
    case True
    then show ?thesis using r IHz IHo by (cases "bit addr k'") (auto simp: k less_Suc_eq)
  next
    case False
    have "?o = 0"
    proof (rule ccontr)
      assume "?o \<noteq> 0"
      with False r have "bit (0 :: uintptr) k' = bit (?o OR 2 ^ k') k'" by simp
      then show False using k64 by (simp add: bit_simps)
    qed
    moreover have "?z = 0"
    proof (rule ccontr)
      assume nz: "?z \<noteq> 0"
      have "bit ?z j" using get_masked_sound [OF h(1) _ nz] k64 j by simp
      moreover have "j \<noteq> k'" "j < 64" using False j(1) bit_imp_le_length [OF j(1)] by auto
      ultimately have "bit (?z AND NOT (2 ^ k')) j" by (auto simp: bit_simps)
      then show False using r False \<open>?o = 0\<close> by simp
    qed
    ultimately show ?thesis using IHz IHo unfolding k bmem.simps by (auto intro: less_SucI split: if_splits)
  qed
qed (use j in auto)


section \<open>Printed intervals\<close>

text \<open>Reading the printed marks from left to right: is an address inside a printed interval?\<close>

fun printed :: "bool \<Rightarrow> bdd_output list \<Rightarrow> uintptr \<Rightarrow> bool" where
  "printed op [] x = op"
| "printed op (OpenAt s # out) x = (if x < s then op else printed True out x)"
| "printed op (CloseAt e # out) x = (if x \<le> e then op else printed False out x)"

fun mark_in :: "nat \<Rightarrow> nat \<Rightarrow> bdd_output \<Rightarrow> bool" where
  "mark_in k q (OpenAt s) = in_blk k q s"
| "mark_in k q (CloseAt e) = (in_blk k q (e + 1) \<and> e \<noteq> - 1)"

fun mark_after :: "uintptr \<Rightarrow> bdd_output \<Rightarrow> bool" where
  "mark_after x (OpenAt s) = (x < s)"
| "mark_after x (CloseAt e) = (x \<le> e)"

fun last_mark :: "bool \<Rightarrow> bdd_output list \<Rightarrow> bool" where
  "last_mark op [] = op"
| "last_mark op (OpenAt s # out) = last_mark True out"
| "last_mark op (CloseAt s # out) = last_mark False out"

lemma printed_none: "\<forall>m\<in>set out. mark_after x m \<Longrightarrow> printed op out x = op"
  by (induction op out x rule: printed.induct) auto

lemma printed_after: "\<forall>m\<in>set out2. mark_after x m \<Longrightarrow> printed op (out1 @ out2) x = printed op out1 x"
  by (induction op out1 x rule: printed.induct) (auto simp: printed_none)

lemma printed_before:
  "\<forall>m\<in>set out1. \<not> mark_after x m \<Longrightarrow> printed op (out1 @ out2) x = printed (last_mark op out1) out2 x"
  by (induction op out1 x rule: printed.induct) auto


lemma last_mark_append: "last_mark op (out1 @ out2) = last_mark (last_mark op out1) out2"
  by (induction op out1 rule: last_mark.induct) auto

lemma mark_in_halves: "mark_in k (2 * q) m \<or> mark_in k (2 * q + 1) m \<Longrightarrow> mark_in (Suc k) q m"
  by (cases m) (auto simp: in_blk_halves)

lemma mark_order:
  assumes "in_blk k q x"
  shows "mark_in k (q + 1) m \<Longrightarrow> mark_after x m" and "0 < q \<Longrightarrow> mark_in k (q - 1) m \<Longrightarrow> \<not> mark_after x m"
proof -
  have s: "unat (e + 1) = Suc (unat e)" if "e \<noteq> - 1" for e :: uintptr
  proof -
    have "1 + e \<noteq> 0" using that by (metis add_eq_0_iff)
    then show ?thesis using unatSuc [of e] by (simp add: add.commute)
  qed
  show "mark_in k (q + 1) m \<Longrightarrow> mark_after x m"
    using assms by (cases m) (auto simp: in_blk_def word_less_nat_alt word_le_nat_alt s)
  show "0 < q \<Longrightarrow> mark_in k (q - 1) m \<Longrightarrow> \<not> mark_after x m"
    using assms by (cases m) (auto simp: in_blk_def word_less_nat_alt word_le_nat_alt s)
qed


lemma not_le_pred: "cs \<noteq> 0 \<Longrightarrow> cs \<le> x \<Longrightarrow> \<not> x \<le> cs - (1 :: uintptr)"
proof
  assume a: "cs \<noteq> 0" "cs \<le> x" "x \<le> cs - 1"
  then have "unat cs \<le> unat cs - 1" by (simp add: word_le_nat_alt unat_minus_one)
  moreover have "0 < unat cs" using a(1) by (metis gr0I unat_0 word_unat_eq_iff)
  ultimately show False by simp
qed

lemma range_print_spec:
  assumes "blk k cs ce b q" and "bheight t \<le> k" and "op \<longrightarrow> cs \<noteq> 0" and v: "node_is_terminal v"
  shows "case bdd_range_print t cs ce b v op of (op', out) \<Rightarrow>
    (\<forall>m\<in>set out. mark_in k q m) \<and> last_mark op out = op'
    \<and> (\<forall>x. in_blk k q x \<longrightarrow> printed op out x = (bmem t k x = (v = BDD_TRUE)))"
  using assms(1,2,3)
proof (induction t arbitrary: k cs ce b q op)
  case (BNode z o1)
  then obtain k' where k: "k = Suc k'" and h: "bheight z \<le> k'" "bheight o1 \<le> k'" by (cases k) auto
  note halves = blk_halves [OF BNode.prems(1) [unfolded k]]
  obtain b1 out1 where z: "bdd_range_print z cs (ce XOR b) (drop_bit 1 b) v op = (b1, out1)" by fastforce
  obtain b2 out2 where o: "bdd_range_print o1 (cs XOR b) ce (drop_bit 1 b) v b1 = (b2, out2)" by fastforce
  have "unat (cs XOR b) \<noteq> 0" using halves(2) by (simp add: blk_def)
  then have c0: "b1 \<longrightarrow> cs XOR b \<noteq> 0" by auto
  have IHz: "\<forall>m\<in>set out1. mark_in k' (2 * q) m" "last_mark op out1 = b1"
    "\<forall>x. in_blk k' (2 * q) x \<longrightarrow> printed op out1 x = (bmem z k' x = (v = BDD_TRUE))"
    using BNode.IH(1) [OF halves(1) h(1) BNode.prems(3)] by (simp_all add: z [simplified])
  have IHo: "\<forall>m\<in>set out2. mark_in k' (2 * q + 1) m" "last_mark b1 out2 = b2"
    "\<forall>x. in_blk k' (2 * q + 1) x \<longrightarrow> printed b1 out2 x = (bmem o1 k' x = (v = BDD_TRUE))"
    using BNode.IH(2) [OF halves(2) h(2) c0] by (simp_all add: o [simplified])
  have out: "bdd_range_print (BNode z o1) cs ce b v op = (b2, out1 @ out2)"
    by (subst bdd_range_print.simps) (simp add: z [simplified] o [simplified])
  have "printed op (out1 @ out2) x = (bmem (BNode z o1) k x = (v = BDD_TRUE))" if x: "in_blk k q x" for x
  proof -
    consider "in_blk k' (2 * q) x" "\<not> bit x k'" | "in_blk k' (2 * q + 1) x" "bit x k'"
      using x bit_in_blk [of k' "2 * q" x] bit_in_blk [of k' "2 * q + 1" x] unfolding k in_blk_halves by auto
    then show ?thesis
    proof cases
      case 1
      then have "printed op (out1 @ out2) x = printed op out1 x"
        using IHo(1) mark_order(1) [OF 1(1)] by (intro printed_after) blast
      then show ?thesis using IHz(3) 1 by (simp add: k)
    next
      case 2
      then have "printed op (out1 @ out2) x = printed b1 out2 x"
        using IHz(1,2) mark_order(2) [OF 2(1)] by (subst printed_before) auto
      then show ?thesis using IHo(3) 2 by (simp add: k)
    qed
  qed
  moreover have "\<forall>m\<in>set (out1 @ out2). mark_in k q m" using IHz(1) IHo(1) mark_in_halves unfolding k by auto
  moreover have "last_mark op (out1 @ out2) = b2" using IHz(2) IHo(2) by (simp add: last_mark_append)
  ultimately show ?case unfolding out by simp
next
  case BDD_TRUE
  then show ?case
    using blk_first [OF BDD_TRUE(1)] in_blk_iff [OF BDD_TRUE(1)] v by (cases v) (auto simp: bdd_range_print.simps not_le_pred)
next
  case BDD_FALSE
  then show ?case
    using blk_first [OF BDD_FALSE(1)] in_blk_iff [OF BDD_FALSE(1)] v by (cases v) (auto simp: bdd_range_print.simps not_le_pred)
qed

lemma print_covers:
  assumes "bdd_inv bdd"
  shows "printed False (address_bdd_print bdd) x \<longleftrightarrow> x \<in> bdd_addrs bdd"
proof -
  obtain b out where p: "bdd_range_print (bdd_root bdd) 0 (NOT 0) leading_one BDD_TRUE False = (b, out)" by fastforce
  have h: "bheight (bdd_root bdd) \<le> 64" using assms by (simp add: bdd_inv_def)
  have "printed False out x = bmem (bdd_root bdd) 64 x"
    using range_print_spec [OF blk_root h, of False BDD_TRUE] by (simp add: p [simplified] in_root)
  moreover have "printed False (out @ [CloseAt (- 1)]) x = printed False out x"
    by (rule printed_after) simp
  ultimately show ?thesis
    by (simp add: address_bdd_print_def address_bdd_print_val_def p [simplified] bdd_addrs_def)
qed


section \<open>The contract of an address set\<close>

text \<open>A sequence of calls that set and clear ranges, and what it does to a set of addresses.\<close>

datatype range_op = Put uintptr uintptr | Clear uintptr uintptr

primrec run_ops ::
  "('b \<Rightarrow> uintptr \<Rightarrow> uintptr \<Rightarrow> 'b option) \<Rightarrow> ('b \<Rightarrow> uintptr \<Rightarrow> uintptr \<Rightarrow> 'b option) \<Rightarrow> range_op list \<Rightarrow> 'b \<Rightarrow> 'b option" where
  "run_ops put del [] b = Some b"
| "run_ops put del (op # ops) b =
     Option.bind (case op of Put a s \<Rightarrow> put b a s | Clear a s \<Rightarrow> del b a s) (run_ops put del ops)"

primrec spec_ops :: "(uintptr \<Rightarrow> uintptr \<Rightarrow> uintptr set) \<Rightarrow> range_op list \<Rightarrow> uintptr set \<Rightarrow> uintptr set" where
  "spec_ops touched [] A = A"
| "spec_ops touched (op # ops) A =
     spec_ops touched ops (case op of Put a s \<Rightarrow> A \<union> touched a s | Clear a s \<Rightarrow> A - touched a s)"

locale address_set =
  fixes invar :: "'b \<Rightarrow> bool" and addrs :: "'b \<Rightarrow> uintptr set" and grain :: "'b \<Rightarrow> nat"
    and put :: "'b \<Rightarrow> uintptr \<Rightarrow> uintptr \<Rightarrow> 'b option" and del :: "'b \<Rightarrow> uintptr \<Rightarrow> uintptr \<Rightarrow> 'b option"
    and touched :: "nat \<Rightarrow> uintptr \<Rightarrow> uintptr \<Rightarrow> uintptr set"
  assumes put_law: "invar b \<Longrightarrow> \<exists>b'. put b a s = Some b' \<and> invar b' \<and> grain b' = grain b
      \<and> addrs b' = addrs b \<union> touched (grain b) a s"
    and del_law: "invar b \<Longrightarrow> \<exists>b'. del b a s = Some b' \<and> invar b' \<and> grain b' = grain b
      \<and> addrs b' = addrs b - touched (grain b) a s"
begin

lemma run_refines:
  "invar b \<Longrightarrow> \<exists>b'. run_ops put del ops b = Some b' \<and> invar b' \<and> grain b' = grain b
     \<and> addrs b' = spec_ops (touched (grain b)) ops (addrs b)"
proof (induction ops arbitrary: b)
  case (Cons op ops)
  have "\<exists>b1. (case op of Put a s \<Rightarrow> put b a s | Clear a s \<Rightarrow> del b a s) = Some b1 \<and> invar b1 \<and> grain b1 = grain b
      \<and> addrs b1 = (case op of Put a s \<Rightarrow> addrs b \<union> touched (grain b) a s | Clear a s \<Rightarrow> addrs b - touched (grain b) a s)"
    using put_law [OF Cons.prems] del_law [OF Cons.prems] by (cases op) auto
  then obtain b1 where b1: "(case op of Put a s \<Rightarrow> put b a s | Clear a s \<Rightarrow> del b a s) = Some b1" "invar b1"
    "grain b1 = grain b"
    "addrs b1 = (case op of Put a s \<Rightarrow> addrs b \<union> touched (grain b) a s | Clear a s \<Rightarrow> addrs b - touched (grain b) a s)"
    by blast
  then show ?case using Cons.IH [OF b1(2)] by simp
qed simp

end

interpretation bdd: address_set bdd_inv bdd_addrs gran address_bdd_set address_bdd_unset rounded
proof unfold_locales
  fix b a s
  assume "bdd_inv b"
  then show "\<exists>b'. address_bdd_set b a s = Some b' \<and> bdd_inv b' \<and> gran b' = gran b
      \<and> bdd_addrs b' = bdd_addrs b \<union> rounded (gran b) a s"
    and "\<exists>b'. address_bdd_unset b a s = Some b' \<and> bdd_inv b' \<and> gran b' = gran b
      \<and> bdd_addrs b' = bdd_addrs b - rounded (gran b) a s"
    using set_val_spec [of b BDD_TRUE a s] set_val_spec [of b BDD_FALSE a s]
    by (simp_all add: address_bdd_set_def address_bdd_unset_def)
qed

lemma address_bdd_new_spec:
  "address_bdd_new d = Inr b \<Longrightarrow> bdd_inv b \<and> bdd_addrs b = {} \<and> gran b = 64 - d \<and> 0 < d \<and> d \<le> 64"
  by (auto simp: address_bdd_new_def assertr_eq_Inr bdd_inv_def bdd_addrs_def gran_def split: if_splits)

text \<open>
  Claim C33. After any sequence of calls that set and clear ranges, starting with a new tree of depth \<open>d\<close>, the tree denotes
  the set of addresses the calls describe, where a call touches all blocks of \<open>2 ^ (64 - d)\<close> addresses that its
  range meets; no call fails to return, the tree stays reduced and no deeper than \<open>d\<close>. The two queries are exact
  for every range that is not empty and does not wrap around, and the printed intervals contain exactly the
  addresses of the set.
\<close>

theorem address_bdd_refines_set:
  assumes "address_bdd_new d = Inr b0"
  shows "\<exists>b. run_ops address_bdd_set address_bdd_unset ops b0 = Some b \<and> bdd_inv b
    \<and> bdd_addrs b = spec_ops (rounded (64 - d)) ops {}
    \<and> (\<forall>addr sz. 0 < unat sz \<and> unat addr + unat sz \<le> 2 ^ 64 \<longrightarrow>
          (address_bdd_get_and b addr sz \<longleftrightarrow> {addr .. addr + sz - 1} \<subseteq> bdd_addrs b)
        \<and> (address_bdd_get_or b addr sz \<longleftrightarrow> {addr .. addr + sz - 1} \<inter> bdd_addrs b \<noteq> {}))
    \<and> (\<forall>x. printed False (address_bdd_print b) x \<longleftrightarrow> x \<in> bdd_addrs b)"
proof -
  note b0 = address_bdd_new_spec [OF assms]
  obtain b where "run_ops address_bdd_set address_bdd_unset ops b0 = Some b" "bdd_inv b"
    "bdd_addrs b = spec_ops (rounded (64 - d)) ops {}"
    using bdd.run_refines [of b0 ops] b0 by auto
  then show ?thesis using get_and_spec [of b] print_covers [of b] by blast
qed

theorem address_bdd_refines_set_witness:
  "\<exists>b0 b. address_bdd_new 60 = Inr b0
    \<and> run_ops address_bdd_set address_bdd_unset [Put 16 40, Clear 33 1] b0 = Some b
    \<and> bdd_addrs b = spec_ops (rounded 4) [Put 16 40, Clear 33 1] {}"
proof -
  obtain b0 where b0: "address_bdd_new 60 = Inr b0" by (simp add: address_bdd_new_def)
  show ?thesis using address_bdd_refines_set [OF b0, of "[Put 16 40, Clear 33 1]"] b0 by auto
qed

text \<open>
  The search under a mask: a result other than 0 is an address of the set that agrees with the given address on
  the bits of the mask. If the masked bits of the address are not all 0, a result of 0 means that the set has no
  such address. Otherwise 0 says nothing: the last part is a set with one address, which the search with address 0
  and an empty mask, under which every address agrees, does not find, because the address with the unmasked bits
  still to be set is taken for the value of a failed search.
\<close>

theorem address_bdd_get_masked_exact:
  assumes "bdd_inv bdd"
  shows "(address_bdd_get_masked bdd addr m \<noteq> 0 \<longrightarrow>
        address_bdd_get_masked bdd addr m \<in> bdd_addrs bdd
      \<and> address_bdd_get_masked bdd addr m AND m = addr AND m)
    \<and> (addr AND m \<noteq> 0 \<longrightarrow>
        (address_bdd_get_masked bdd addr m = 0 \<longleftrightarrow> \<not> (\<exists>x\<in>bdd_addrs bdd. x AND m = addr AND m)))
    \<and> address_bdd_get_masked \<lparr>bdd_root = BNode BDD_FALSE BDD_TRUE, bdd_max_depth = 64, bdd_size_unit = 1\<rparr> 0 0 = 0"
proof (intro conjI impI)
  let ?r = "address_bdd_get_masked bdd addr m" and ?t = "bdd_root bdd"
  have h: "bheight ?t \<le> 64" using assms by (simp add: bdd_inv_def)
  have r: "?r = bdd_get_masked addr m ?t (level_bit 64)"
    by (simp add: address_bdd_get_masked_def level_bit_def leading_one_def)
  have agree: "(x AND m = addr AND m) \<longleftrightarrow> (\<forall>i<64. bit m i \<longrightarrow> bit x i = bit addr i)" for x :: uintptr
    by (auto simp: bit_eq_iff bit_simps)
  show in_set: "?r \<in> bdd_addrs bdd" "?r AND m = addr AND m" if "?r \<noteq> 0"
    using get_masked_sound [OF h, of addr m] that unfolding r agree by (simp_all add: bdd_addrs_def)
  show "?r = 0 \<longleftrightarrow> \<not> (\<exists>x\<in>bdd_addrs bdd. x AND m = addr AND m)" if nz: "addr AND m \<noteq> 0"
  proof -
    obtain j where "bit (addr AND m) j" using nz by (metis bit_0_eq bot_apply bot_bool_def bit_eqI)
    then have "bit m j" "bit addr j" by (simp_all add: bit_and_iff)
    then have "?r = 0 \<Longrightarrow> \<not> (\<exists>x\<in>bdd_addrs bdd. x AND m = addr AND m)"
      using get_masked_complete [OF h, of m j addr] unfolding r agree by (auto simp: bdd_addrs_def)
    then show ?thesis using in_set by blast
  qed
  show "address_bdd_get_masked \<lparr>bdd_root = BNode BDD_FALSE BDD_TRUE, bdd_max_depth = 64, bdd_size_unit = 1\<rparr> 0 0 = 0"
    by (simp add: address_bdd_get_masked_def)
qed

theorem address_bdd_get_masked_exact_witness:
  "bdd_inv \<lparr>bdd_root = BNode BDD_FALSE BDD_TRUE, bdd_max_depth = 64, bdd_size_unit = 1\<rparr>
    \<and> address_bdd_get_masked \<lparr>bdd_root = BNode BDD_FALSE BDD_TRUE, bdd_max_depth = 64, bdd_size_unit = 1\<rparr> 5 1 AND 1 = 1"
proof -
  let ?b = "\<lparr>bdd_root = BNode BDD_FALSE BDD_TRUE, bdd_max_depth = 64, bdd_size_unit = 1\<rparr>"
  have inv: "bdd_inv ?b" by (simp add: bdd_inv_def)
  have "address_bdd_get_masked ?b 5 1 \<noteq> 0" by code_simp
  then show ?thesis using address_bdd_get_masked_exact [OF inv, of 5 1] inv by simp
qed

end
