(* ===== verification/Address_Iterator.thy ===== *)
theory Address_Iterator
  imports Address_Bdd
begin

text \<open>
  Correctness of the iterator of \<^verbatim>\<open>src/base/address_bdd.c\<close>: from the position of the iterator in the tree the
  lemmas read off the true terminals that are still to come, and show that the calls deliver their addresses in
  ascending order. Address 0 is never delivered, since 0 is the value for the end. The highest address is delivered
  only when it forms a block of its own that is not the first one.
\<close>

unbundle bit_operations_syntax

section \<open>The iterator\<close>

text \<open>The terminals of a subtree that are true, as pairs of block number and level from left to right.\<close>

fun btrues :: "address_bdd_node \<Rightarrow> nat \<Rightarrow> nat \<Rightarrow> (nat \<times> nat) list" where
  "btrues BDD_TRUE k q = [(q, k)]"
| "btrues BDD_FALSE k q = []"
| "btrues (BNode z o1) k q = btrues z (k - 1) (2 * q) @ btrues o1 (k - 1) (2 * q + 1)"

text \<open>What is to the right of a node, read off the list of its ancestors.\<close>

fun to_the_right :: "address_bdd_node list \<Rightarrow> nat \<Rightarrow> nat \<Rightarrow> (nat \<times> nat) list" where
  "to_the_right [] k q = []"
| "to_the_right (p # ps) k q =
     (if odd q then [] else btrues (one p) k (q + 1)) @ to_the_right ps (Suc k) (q div 2)"

fun path_ok :: "address_bdd_node list \<Rightarrow> nat \<Rightarrow> bool" where
  "path_ok [] k = (k = 64)"
| "path_ok (p # ps) k = (bheight (one p) \<le> k \<and> path_ok ps (Suc k))"

definition at_block :: "address_bdd_iterator \<Rightarrow> nat \<Rightarrow> nat \<Rightarrow> bool" where
  "at_block it q k = (path_ok (it_parent_node it) k \<and> it_current_bit it = 2 ^ k
     \<and> unat (it_base it) = q * 2 ^ k \<and> Suc q * 2 ^ k \<le> 2 ^ 64)"

definition stands :: "address_bdd_iterator \<Rightarrow> nat \<Rightarrow> nat \<Rightarrow> (nat \<times> nat) list \<Rightarrow> bool" where
  "stands it q k r = (it_node it = BDD_TRUE \<and> at_block it q k \<and> to_the_right (it_parent_node it) k q = r
     \<and> it_offset it = (if it_base it = 0 then 1 else 0))"

lemma path_ok_level: "path_ok ps k \<Longrightarrow> k \<le> 64"
  by (induction ps arbitrary: k) fastforce+

lemma half_bit:
  assumes "k < 64"
  shows "(if (2 :: uintptr) ^ Suc k \<noteq> 0 then drop_bit 1 (2 ^ Suc k) else leading_one) = 2 ^ k"
proof (cases "k = 63")
  case False
  with assms have "(2 :: uintptr) ^ Suc k \<noteq> 0" unfolding exp_eq_zero_iff by simp
  then show ?thesis using drop_two_pow [of "Suc k"] False assms by simp
qed (simp add: leading_one_def)

lemma half_fits:
  fixes m n :: nat
  assumes "n = q * 2 ^ Suc k" and "Suc q * 2 ^ Suc k \<le> m"
  shows "n + 2 ^ k < m"
proof -
  have "1 \<le> (2 :: nat) ^ k" by simp
  with assms show ?thesis unfolding power_Suc mult_Suc by linarith
qed

lemma base_or_bit:
  assumes "unat (base :: uintptr) = q * 2 ^ Suc k" and "k < 64" and "Suc q * 2 ^ Suc k \<le> 2 ^ 64"
  shows "unat (base OR 2 ^ k) = (2 * q + 1) * 2 ^ k" and "unat (base XOR 2 ^ k) = (2 * q + 1) * 2 ^ k"
proof -
  have "unat base + 2 ^ k < 2 ^ 64" by (rule half_fits [OF assms(1,3)])
  then have "unat (base + 2 ^ k) = unat base + unat ((2 :: uintptr) ^ k)"
    using unat_add_lem [of base "2 ^ k"] by (simp add: unat_two_pow [OF assms(2)])
  also have "\<dots> = (2 * q + 1) * 2 ^ k" using assms(1) by (simp add: unat_two_pow [OF assms(2)])
  finally have u: "unat (base + 2 ^ k) = (2 * q + 1) * 2 ^ k" .
  have nb: "\<not> bit base k" using assms(1) by (simp add: bit_word_iff)
  then have "base OR 2 ^ k = base + 2 ^ k"
    by (simp add: and_exp_eq_0_iff_not_bit disjunctive_add_eq_or)
  with u show "unat (base OR 2 ^ k) = (2 * q + 1) * 2 ^ k" by simp
  from u show "unat (base XOR 2 ^ k) = (2 * q + 1) * 2 ^ k" by (simp add: xor_clear [OF nb])
qed

lemma block_halves_fit:
  assumes "Suc q * 2 ^ Suc k \<le> (2 :: nat) ^ 64"
  shows "Suc (2 * q) * 2 ^ k \<le> (2 :: nat) ^ 64" and "Suc (2 * q + 1) * 2 ^ k \<le> (2 :: nat) ^ 64"
  using assms by (simp_all add: algebra_simps)

lemma find_true_sub_node_spec:
  assumes "bheight t \<le> k" and "path_ok ps k" and "unat base = q * 2 ^ k" and "Suc q * 2 ^ k \<le> 2 ^ 64"
  shows "case btrues t k q of
      [] \<Rightarrow> find_true_sub_node it t ps (2 ^ k) base = (False, it)
    | (q', k') # r \<Rightarrow> \<exists>it'. find_true_sub_node it t ps (2 ^ k) base = (True, it')
        \<and> stands it' q' k' (r @ to_the_right ps k q)"
  using assms
proof (induction t arbitrary: k ps base q)
  case (BNode z o1)
  let ?p = "BNode z o1 # ps"
  obtain k' where k: "k = Suc k'" and hz: "bheight z \<le> k'" "bheight o1 \<le> k'"
    using BNode.prems(1) by (cases k) auto
  have k64: "k \<le> 64" using path_ok_level [OF BNode.prems(2)] .
  note fit = block_halves_fit [OF BNode.prems(4) [unfolded k]]
  note base = base_or_bit [OF BNode.prems(3) [unfolded k] _ BNode.prems(4) [unfolded k]]
  have pz: "path_ok ?p k'" using hz BNode.prems(2) k by simp
  have bit1: "(if (2 :: uintptr) ^ k \<noteq> 0 then drop_bit 1 (2 ^ k) else leading_one) = 2 ^ k'"
    unfolding k by (rule half_bit) (use k64 k in simp)
  have unf: "find_true_sub_node it (BNode z o1) ps (2 ^ k) base =
      (let (found, it1) = find_true_sub_node it z ?p (2 ^ k') base
       in if found then (True, it1) else find_true_sub_node it1 o1 ?p (2 ^ k') (base OR 2 ^ k'))"
    unfolding find_true_sub_node.simps bit1 by (simp only: Let_def)
  have uz: "unat base = 2 * q * 2 ^ k'" using BNode.prems(3) k by simp
  have uo: "unat (base OR 2 ^ k') = (2 * q + 1) * 2 ^ k'" using base(1) k k64 by simp
  note IH = BNode.IH(1) [OF hz(1) pz uz fit(1)] BNode.IH(2) [OF hz(2) pz uo fit(2)]
  have r: "to_the_right ?p k' (2 * q) = btrues o1 k' (2 * q + 1) @ to_the_right ps k q"
    "to_the_right ?p k' (2 * q + 1) = to_the_right ps k q" by (simp_all add: k)
  have b: "btrues (BNode z o1) k q = btrues z k' (2 * q) @ btrues o1 k' (2 * q + 1)" by (simp add: k)
  show ?case
  proof (cases "btrues z k' (2 * q)")
    case Nil
    with IH(1) have eq: "find_true_sub_node it (BNode z o1) ps (2 ^ k) base
        = find_true_sub_node it o1 ?p (2 ^ k') (base OR 2 ^ k')" unfolding unf by simp
    show ?thesis using IH(2) unfolding b r(2) Nil append_Nil eq .
  next
    case (Cons x xs)
    obtain q' k'' where x: "x = (q', k'')" by (cases x)
    show ?thesis using IH(1) unfolding b unf r(1) by (auto simp: Cons x)
  qed
qed (auto simp: stands_def at_block_def)


lemma at_block_odd:
  assumes "at_block it q k" and "it_parent_node it = p # ps" and "odd q"
  shows "it_base it AND it_current_bit it \<noteq> 0"
    and "at_block (it\<lparr>it_base := it_base it XOR it_current_bit it,
       it_current_bit := push_bit 1 (it_current_bit it), it_node := p, it_parent_node := ps\<rparr>) (q div 2) (Suc k)"
proof -
  obtain m where q: "q = 2 * m + 1" using assms(3) by (elim oddE)
  have bt: "bit (it_base it) k" using assms(1) q by (simp add: at_block_def bit_word_iff)
  then show "it_base it AND it_current_bit it \<noteq> 0"
    using assms(1) by (simp add: at_block_def and_exp_eq_0_iff_not_bit)
  have k: "Suc k \<le> 64" using assms(1,2) path_ok_level [of ps "Suc k"] by (simp add: at_block_def)
  then have "(2 :: uintptr) ^ k \<le> it_base it"
    using assms(1) by (simp add: at_block_def word_le_nat_alt unat_two_pow q)
  then have "unat (it_base it XOR 2 ^ k) = m * 2 ^ Suc k"
    using assms(1) k by (simp add: xor_set [OF bt] unat_sub unat_two_pow at_block_def q)
  then show "at_block (it\<lparr>it_base := it_base it XOR it_current_bit it,
       it_current_bit := push_bit 1 (it_current_bit it), it_node := p, it_parent_node := ps\<rparr>) (q div 2) (Suc k)"
    using assms(1,2) by (simp add: at_block_def q push_bit_eq_mult algebra_simps)
qed

lemma even_block_fits:
  fixes l :: nat
  assumes "Suc (2 * m) * 2 ^ k \<le> l"
  shows "m * 2 ^ Suc k < l"
proof -
  have "1 \<le> (2 :: nat) ^ k" by simp
  with assms show ?thesis unfolding power_Suc mult_Suc by linarith
qed

lemma next_block_fits:
  fixes l m p :: nat
  assumes "p dvd l" and "m * p < l"
  shows "Suc m * p \<le> l"
proof -
  obtain c where c: "l = p * c" using assms(1) by (elim dvdE)
  with assms(2) have "m < c" by (simp add: mult.commute)
  then have "Suc m * p \<le> c * p" by (intro mult_le_mono1) simp
  then show ?thesis by (simp add: c mult.commute)
qed

lemma at_block_even:
  assumes "at_block it q k" and "it_parent_node it = p # ps" and "even q"
  shows "it_base it AND it_current_bit it = 0"
    and "at_block (it\<lparr>it_base := it_base it XOR it_current_bit it, it_node := n\<rparr>) (q + 1) k"
proof -
  obtain m where q: "q = 2 * m" using assms(3) by (elim evenE)
  have "\<not> bit (it_base it) k" using assms(1) q by (simp add: at_block_def bit_word_iff)
  then show "it_base it AND it_current_bit it = 0"
    using assms(1) by (simp add: at_block_def and_exp_eq_0_iff_not_bit)
  have k: "Suc k \<le> 64" using assms(1,2) path_ok_level [of ps "Suc k"] by (simp add: at_block_def)
  have "Suc q * 2 ^ k \<le> 2 ^ 64" using assms(1) by (simp add: at_block_def)
  then have "m * 2 ^ Suc k < 2 ^ 64" unfolding q by (rule even_block_fits)
  then have f: "Suc m * 2 ^ Suc k \<le> 2 ^ 64" by (rule next_block_fits [OF le_imp_power_dvd [OF k]])
  have "unat (it_base it) = m * 2 ^ Suc k" using assms(1) by (simp add: at_block_def q)
  from base_or_bit(2) [OF this _ f] k
  have "unat (it_base it XOR it_current_bit it) = (q + 1) * 2 ^ k" using assms(1) by (simp add: at_block_def q)
  then show "at_block (it\<lparr>it_base := it_base it XOR it_current_bit it, it_node := n\<rparr>) (q + 1) k"
    using assms(1) block_halves_fit(2) [OF f] by (simp add: at_block_def q)
qed

text \<open>
  The search for the next block always ends; it stands on the next true terminal or reports that there is none.
\<close>

lemma find_next_true_node_spec:
  assumes "at_block it q k" and "it_parent_node it = ps"
  shows "case to_the_right ps k q of
      [] \<Rightarrow> \<exists>it'. find_next_true_node it = Some (False, it')
    | (q', k') # r \<Rightarrow> \<exists>it'. find_next_true_node it = Some (True, it') \<and> stands it' q' k' r"
  using assms
proof (induction ps arbitrary: it q k)
  case Nil
  then show ?case by (simp add: find_next_true_node.simps [of it])
next
  case (Cons p ps)
  have up: "case to_the_right ps (Suc k) (q div 2) of
      [] \<Rightarrow> \<exists>it'. find_next_true_node it = Some (False, it')
    | (q', k') # r \<Rightarrow> \<exists>it'. find_next_true_node it = Some (True, it') \<and> stands it' q' k' r"
    if a: "at_block it q k" "it_parent_node it = p # ps" "odd q" for it q
  proof -
    have eq: "find_next_true_node it = find_next_true_node (it\<lparr>it_base := it_base it XOR it_current_bit it,
        it_current_bit := push_bit 1 (it_current_bit it), it_node := p, it_parent_node := ps\<rparr>)"
      using at_block_odd(1) [OF a] a(2) by (subst find_next_true_node.simps) (simp only: list.case if_True simp_thms if_False)
    have "it_parent_node (it\<lparr>it_base := it_base it XOR it_current_bit it,
        it_current_bit := push_bit 1 (it_current_bit it), it_node := p, it_parent_node := ps\<rparr>) = ps" by simp
    from Cons.IH [OF at_block_odd(2) [OF a] this] show ?thesis unfolding eq .
  qed
  show ?case
  proof (cases "odd q")
    case True
    then show ?thesis using up [OF Cons.prems] by simp
  next
    case False
    define it1 where "it1 = it\<lparr>it_base := it_base it XOR it_current_bit it, it_node := one p\<rparr>"
    have e: "at_block it1 (q + 1) k" unfolding it1_def using at_block_even(2) [OF Cons.prems] False by blast
    have p1: "it_parent_node it1 = p # ps" by (simp add: it1_def Cons.prems(2))
    have unf: "find_next_true_node it =
        (let (found, it2) = find_true_sub_node it1 (one p) (p # ps) (2 ^ k) (it_base it1)
         in if found then Some (True, it2) else find_next_true_node it2)"
      using Cons.prems at_block_even(1) [OF Cons.prems] False
      by (simp add: find_next_true_node.simps [of it] it1_def Let_def at_block_def)
    have sub: "case btrues (one p) k (q + 1) of
        [] \<Rightarrow> find_true_sub_node it1 (one p) (p # ps) (2 ^ k) (it_base it1) = (False, it1)
      | (q', k') # r \<Rightarrow> \<exists>it'. find_true_sub_node it1 (one p) (p # ps) (2 ^ k) (it_base it1) = (True, it')
          \<and> stands it' q' k' (r @ to_the_right (p # ps) k (q + 1))"
      using e p1 by (intro find_true_sub_node_spec) (auto simp: at_block_def)
    have r: "to_the_right (p # ps) k q = btrues (one p) k (q + 1) @ to_the_right ps (Suc k) (q div 2)"
      "to_the_right (p # ps) k (q + 1) = to_the_right ps (Suc k) (q div 2)" "(q + 1) div 2 = q div 2"
      using False by auto
    show ?thesis
    proof (cases "btrues (one p) k (q + 1)")
      case Nil
      with sub have eq: "find_next_true_node it = find_next_true_node it1" unfolding unf by simp
      show ?thesis using up [OF e p1] False unfolding r Nil append_Nil eq by simp
    next
      case (Cons x xs)
      obtain q' k' where x: "x = (q', k')" by (cases x)
      show ?thesis using sub unfolding r(1,2) unf Cons x by auto
    qed
  qed
qed


section \<open>The addresses an iterator delivers\<close>

definition blk_addrs :: "nat \<times> nat \<Rightarrow> nat list" where
  "blk_addrs b = [fst b * 2 ^ snd b ..< Suc (fst b) * 2 ^ snd b]"

definition all_addrs :: "(nat \<times> nat) list \<Rightarrow> nat list" where
  "all_addrs bs = concat (map blk_addrs bs)"

lemma all_addrs_simps [simp]: "all_addrs [] = []" "all_addrs (b # bs) = blk_addrs b @ all_addrs bs"
  "all_addrs (bs @ cs) = all_addrs bs @ all_addrs cs"
  by (simp_all add: all_addrs_def)

lemma all_addrs_btrues:
  assumes "bheight t \<le> k"
  shows "sorted_wrt (<) (all_addrs (btrues t k q))
    \<and> set (all_addrs (btrues t k q)) \<subseteq> {q * 2 ^ k ..< Suc q * 2 ^ k}"
  using assms
proof (induction t arbitrary: k q)
  case (BNode z o1)
  then obtain k' where k: "k = Suc k'" and h: "bheight z \<le> k'" "bheight o1 \<le> k'" by (cases k) auto
  have split: "{q * 2 ^ k ..< Suc q * 2 ^ k} = {2 * q * 2 ^ k' ..< Suc (2 * q) * 2 ^ k'} \<union> {(2 * q + 1) * 2 ^ k' ..< Suc (2 * q + 1) * 2 ^ k'}"
    by (auto simp: k algebra_simps)
  note IH = BNode.IH(1) [OF h(1), of "2 * q"] BNode.IH(2) [OF h(2), of "2 * q + 1"]
  have b: "all_addrs (btrues (BNode z o1) k q)
      = all_addrs (btrues z k' (2 * q)) @ all_addrs (btrues o1 k' (2 * q + 1))" by (simp add: k)
  have "x < y" if "x \<in> set (all_addrs (btrues z k' (2 * q)))" "y \<in> set (all_addrs (btrues o1 k' (2 * q + 1)))" for x y
  proof -
    have "x < Suc (2 * q) * 2 ^ k'" "(2 * q + 1) * 2 ^ k' \<le> y" using that IH by auto
    then show ?thesis by simp
  qed
  then show ?case unfolding b split sorted_wrt_append using IH by auto
qed (simp_all add: blk_addrs_def)

lemma mem_all_addrs_btrues:
  assumes "bheight t \<le> k" and "in_blk k q a"
  shows "unat a \<in> set (all_addrs (btrues t k q)) \<longleftrightarrow> bmem t k a"
  using assms
proof (induction t arbitrary: k q)
  case (BNode z o1)
  then obtain k' where k: "k = Suc k'" and h: "bheight z \<le> k'" "bheight o1 \<le> k'" by (cases k) auto
  have b: "set (all_addrs (btrues (BNode z o1) k q))
      = set (all_addrs (btrues z k' (2 * q))) \<union> set (all_addrs (btrues o1 k' (2 * q + 1)))" by (simp add: k)
  note bounds = all_addrs_btrues [OF h(1), of "2 * q"] all_addrs_btrues [OF h(2), of "2 * q + 1"]
  consider "in_blk k' (2 * q) a" "\<not> bit a k'" | "in_blk k' (2 * q + 1) a" "bit a k'"
    using BNode.prems(2) bit_in_blk [of k' "2 * q" a] bit_in_blk [of k' "2 * q + 1" a]
    unfolding k in_blk_halves by auto
  then show ?case
  proof cases
    case 1
    then have "unat a \<notin> set (all_addrs (btrues o1 k' (2 * q + 1)))" using bounds by (auto simp: in_blk_def)
    then show ?thesis unfolding b using BNode.IH(1) [OF h(1) 1(1)] 1(2) by (simp add: k)
  next
    case 2
    then have "unat a \<notin> set (all_addrs (btrues z k' (2 * q)))" using bounds by (auto simp: in_blk_def)
    then show ?thesis unfolding b using BNode.IH(2) [OF h(2) 2(1)] 2(2) by (simp add: k)
  qed
qed (auto simp: blk_addrs_def in_blk_def)

text \<open>The addresses still to come, given the position \<open>p\<close> and the addresses \<open>xs\<close> of the set from there on.\<close>

definition top_addr :: nat where
  "top_addr = 2 ^ 64 - 1"

definition pending :: "nat \<Rightarrow> nat list \<Rightarrow> nat list" where
  "pending p xs = (if top_addr \<in> set xs \<and> (p = top_addr \<or> top_addr - 1 \<in> set xs) then butlast xs else xs)"

definition iter_at :: "address_bdd_iterator \<Rightarrow> nat \<Rightarrow> nat list \<Rightarrow> bool" where
  "iter_at it p xs = (\<exists>q k. it_node it = BDD_TRUE \<and> at_block it q k
     \<and> p = q * 2 ^ k + unat (it_offset it) \<and> unat (it_offset it) \<le> 2 ^ k \<and> 0 < p
     \<and> xs = [p ..< Suc q * 2 ^ k] @ all_addrs (to_the_right (it_parent_node it) k q)
     \<and> sorted_wrt (<) xs \<and> (\<forall>x\<in>set xs. p \<le> x \<and> x < 2 ^ 64))"


lemma less_pow_iff: "x < 2 ^ 64 \<longleftrightarrow> x \<le> top_addr"
  by (auto simp: top_addr_def)

lemma top_addr_pos: "0 < top_addr"
  by (simp add: top_addr_def)

lemma top_word: "unat (- 1 :: uintptr) = top_addr" "unat (- 2 :: uintptr) = top_addr - 1"
  using unat_minus_one [of "- 1 :: uintptr"] by (simp_all add: top_addr_def unat_all_ones)

lemma unat_le_top: "unat (a :: uintptr) \<le> top_addr"
  using unsigned_less [of a] by (simp flip: less_pow_iff)

lemma pending_stop:
  assumes b: "\<forall>x\<in>set xs. top_addr \<le> x \<and> x < 2 ^ 64" and s: "sorted_wrt (<) xs"
  shows "pending top_addr xs = []"
proof (cases xs)
  case (Cons x ys)
  have e: "y = top_addr" if "y \<in> set xs" for y using b that unfolding less_pow_iff by (simp add: order.antisym)
  have "ys = []" using e s by (cases ys) (auto simp: Cons)
  then show ?thesis using Cons e by (simp add: pending_def)
qed (simp add: pending_def)

lemma pending_step:
  assumes "p \<noteq> top_addr" and "sorted_wrt (<) (x # xs)"
  shows "pending p (x # xs) = x # pending (Suc x) xs"
proof -
  have "top_addr \<in> set (x # xs) \<and> top_addr - 1 \<in> set (x # xs) \<longleftrightarrow>
      top_addr \<in> set xs \<and> (Suc x = top_addr \<or> top_addr - 1 \<in> set xs)"
    using assms(2) top_addr_pos by auto
  then show ?thesis using assms(1) by (auto simp: pending_def)
qed

lemma at_offset:
  assumes "at_block it q k" and "unat (it_offset it) \<le> 2 ^ k"
  shows "it_base it + it_offset it = of_nat (q * 2 ^ k + unat (it_offset it))"
    and "q * 2 ^ k + unat (it_offset it) \<le> 2 ^ 64"
proof -
  have b: "unat (it_base it) = q * 2 ^ k" "Suc q * 2 ^ k \<le> 2 ^ 64" using assms(1) by (simp_all add: at_block_def)
  have "it_base it + it_offset it = of_nat (unat (it_base it)) + of_nat (unat (it_offset it))" by simp
  then show "it_base it + it_offset it = of_nat (q * 2 ^ k + unat (it_offset it))" by (simp only: b of_nat_add)
  have "q * 2 ^ k + unat (it_offset it) \<le> Suc q * 2 ^ k" using assms(2) by simp
  then show "q * 2 ^ k + unat (it_offset it) \<le> 2 ^ 64" using b(2) by (rule order.trans)
qed

lemma of_nat_all_ones:
  assumes "n \<le> 2 ^ 64"
  shows "(of_nat n :: uintptr) = - 1 \<longleftrightarrow> n = top_addr"
proof (cases "n = 2 ^ 64")
  case False
  with assms have "unat (of_nat n :: uintptr) = n" by (intro unat_of_nat64) simp
  then show ?thesis unfolding word_unat_eq_iff unat_all_ones top_addr_def by simp
next
  case True
  have "(of_nat (2 ^ 64) :: uintptr) = 0" unfolding of_nat_power using two_pow_64 by simp
  then show ?thesis unfolding True top_addr_def by simp
qed

lemma deliver:
  assumes "it_node it = BDD_TRUE" and "at_block it q k" and "it_offset it \<noteq> 2 ^ k" and "unat (it_offset it) \<le> 2 ^ k"
    and "p = q * 2 ^ k + unat (it_offset it)"
    and "xs = [p ..< Suc q * 2 ^ k] @ all_addrs (to_the_right (it_parent_node it) k q)"
    and "sorted_wrt (<) xs" and "\<forall>x\<in>set xs. x < 2 ^ 64" and "k < 64 \<or> p \<noteq> top_addr"
  shows "\<exists>ys. xs = p # ys \<and> it_base it + it_offset it = of_nat p
    \<and> iter_at (it\<lparr>it_offset := it_offset it + 1\<rparr>) (Suc p) ys"
proof -
  have k: "k \<le> 64" using assms(2) path_ok_level unfolding at_block_def by blast
  have lt: "unat (it_offset it) < 2 ^ k"
  proof (cases "k = 64")
    case True then show ?thesis using unsigned_less [of "it_offset it"] by simp
  next
    case False
    then have "unat (it_offset it) \<noteq> 2 ^ k" using assms(3) k unat_two_pow [of k] by (simp add: word_unat_eq_iff)
    then show ?thesis using assms(4) by simp
  qed
  then have "p < Suc q * 2 ^ k" using assms(5) by simp
  then have xs: "xs = p # [Suc p ..< Suc q * 2 ^ k] @ all_addrs (to_the_right (it_parent_node it) k q)"
    using assms(6) by (simp only: upt_conv_Cons append_Cons)
  have "unat (it_offset it) + 1 < 2 ^ 64"
  proof (cases "k = 64")
    case True
    then have "q = 0" using assms(2) by (simp add: at_block_def)
    then show ?thesis using True assms(5,9) lt by (simp add: top_addr_def)
  next
    case False
    then have "(2 :: nat) ^ k < 2 ^ 64" using k by (intro power_strict_increasing) simp_all
    then show ?thesis using lt by linarith
  qed
  then have off: "unat (it_offset it + 1) = Suc (unat (it_offset it))"
    using unat_add_lem [of "it_offset it" 1] by simp
  let ?it = "it\<lparr>it_offset := it_offset it + 1\<rparr>" and ?ys = "[Suc p ..< Suc q * 2 ^ k] @ all_addrs (to_the_right (it_parent_node it) k q)"
  have "at_block ?it q k" using assms(2) by (simp add: at_block_def)
  moreover have "sorted_wrt (<) ?ys" "\<forall>x\<in>set ?ys. Suc p \<le> x \<and> x < 2 ^ 64"
    using assms(7,8) xs by (auto simp: Suc_le_eq)
  ultimately have "iter_at ?it (Suc p) ?ys"
    unfolding iter_at_def using assms(1,5) lt off by (intro exI [of _ q] exI [of _ k]) simp
  then show ?thesis using at_offset(1) [OF assms(2,4)] xs assms(5) by blast
qed

lemma level_less:
  assumes "at_block it q k" and "0 < q * 2 ^ k"
  shows "k < 64"
proof (rule ccontr)
  assume "\<not> k < 64"
  moreover have "k \<le> 64" using assms(1) path_ok_level unfolding at_block_def by blast
  ultimately have "k = 64" by simp
  then show False using assms by (simp add: at_block_def)
qed

text \<open>The step to the next block delivers the first address of that block.\<close>

lemma deliver_next_block:
  assumes a: "at_block it q k" "it_offset it = 2 ^ k" "to_the_right (it_parent_node it) k q = (q', k') # r"
    and x: "sorted_wrt (<) (all_addrs ((q', k') # r))" "\<forall>x\<in>set (all_addrs ((q', k') # r)). 0 < x \<and> x < 2 ^ 64"
  obtains it1 ys where "find_next_true_node it = Some (True, it1)" and "it_node it1 = BDD_TRUE"
    and "all_addrs ((q', k') # r) = q' * 2 ^ k' # ys" and "it_base it1 + it_offset it1 = of_nat (q' * 2 ^ k')"
    and "iter_at (it1\<lparr>it_offset := it_offset it1 + 1\<rparr>) (Suc (q' * 2 ^ k')) ys"
proof -
  let ?st = "q' * 2 ^ k'" and ?xs = "all_addrs ((q', k') # r)"
  obtain it1 where it1: "find_next_true_node it = Some (True, it1)" "stands it1 q' k' r"
    using find_next_true_node_spec [OF a(1) refl] by (auto simp: a(3))
  have st: "it_node it1 = BDD_TRUE" "at_block it1 q' k'" "to_the_right (it_parent_node it1) k' q' = r"
    "it_offset it1 = (if it_base it1 = 0 then 1 else 0)" using it1(2) by (auto simp: stands_def)
  have xs: "?xs = [?st ..< Suc q' * 2 ^ k'] @ all_addrs r" by (simp add: blk_addrs_def)
  have "?st < Suc q' * 2 ^ k'" by simp
  then have "?st \<in> set ?xs" unfolding xs by simp
  then have pos: "0 < ?st" using x(2) by blast
  have k': "k' < 64" by (rule level_less [OF st(2) pos])
  have "unat (it_base it1) = ?st" using st(2) by (simp add: at_block_def)
  then have o0: "it_offset it1 = 0" using st(4) pos by auto
  have "(2 :: uintptr) ^ k' \<noteq> 0" using k' by (simp add: exp_eq_zero_iff)
  with o0 have off1: "it_offset it1 \<noteq> 2 ^ k'" by simp
  have "\<forall>x\<in>set ?xs. x < 2 ^ 64" using x(2) by blast
  from deliver [OF st(1,2) off1 _ _ _ x(1) this, of ?st] k' xs
  obtain ys where "?xs = ?st # ys" "it_base it1 + it_offset it1 = of_nat ?st"
    "iter_at (it1\<lparr>it_offset := it_offset it1 + 1\<rparr>) (Suc ?st) ys" by (auto simp: o0 st(3))
  with it1(1) st(1) show thesis by (rule that)
qed

text \<open>One call of the iterator: it delivers the first pending address, or 0 when there is none.\<close>

definition next_outcome :: "address_bdd_iterator \<Rightarrow> nat \<Rightarrow> nat list \<Rightarrow> bool" where
  "next_outcome it p xs = (case pending p xs of
      [] \<Rightarrow> \<exists>it'. address_bdd_iterator_next it = Some (Inr (0, it'))
    | x # zs \<Rightarrow> \<exists>it' ys. address_bdd_iterator_next it = Some (Inr (of_nat x, it')) \<and> 0 < x \<and> x < 2 ^ 64
        \<and> pending (Suc x) ys = zs \<and> iter_at it' (Suc x) ys)"

lemma next_outcomeI:
  assumes "p \<noteq> top_addr" and "sorted_wrt (<) xs" and "\<forall>x\<in>set xs. 0 < x \<and> x < 2 ^ 64" and "xs = x # ys"
    and "address_bdd_iterator_next it = Some (Inr (of_nat x, it'))" and "iter_at it' (Suc x) ys"
  shows "next_outcome it p xs"
  using assms pending_step [of p x ys] by (auto simp: next_outcome_def)

lemma iterator_next_spec:
  assumes "iter_at it p xs"
  shows "next_outcome it p xs"
proof -
  obtain q k where a: "it_node it = BDD_TRUE" "at_block it q k" "p = q * 2 ^ k + unat (it_offset it)"
    "unat (it_offset it) \<le> 2 ^ k" "0 < p"
    "xs = [p ..< Suc q * 2 ^ k] @ all_addrs (to_the_right (it_parent_node it) k q)"
    "sorted_wrt (<) xs" "\<forall>x\<in>set xs. p \<le> x \<and> x < 2 ^ 64"
    using assms unfolding iter_at_def by (elim exE conjE) (rule that)
  have bnd: "\<forall>x\<in>set xs. 0 < x \<and> x < 2 ^ 64" using a(5,8) by auto
  then have lt: "\<forall>x\<in>set xs. x < 2 ^ 64" by blast
  have b: "it_base it + it_offset it = - 1 \<longleftrightarrow> p = top_addr"
    unfolding at_offset(1) [OF a(2,4)] a(3) by (rule of_nat_all_ones [OF at_offset(2) [OF a(2,4)]])
  have cb: "it_current_bit it = 2 ^ k" using a(2) by (simp add: at_block_def)
  consider "p = top_addr" | "p \<noteq> top_addr" "it_offset it \<noteq> 2 ^ k" | "p \<noteq> top_addr" "it_offset it = 2 ^ k" by blast
  then show ?thesis
  proof cases
    case 1
    then have "pending p xs = []" using pending_stop a(7,8) by simp
    then show ?thesis using b 1 by (simp add: address_bdd_iterator_next_def next_outcome_def)
  next
    case 2
    obtain ys where ys: "xs = p # ys" "it_base it + it_offset it = of_nat p"
      "iter_at (it\<lparr>it_offset := it_offset it + 1\<rparr>) (Suc p) ys"
      using deliver [OF a(1,2) 2(2) a(4,3,6,7) lt] 2(1) by blast
    have "address_bdd_iterator_next it = Some (Inr (of_nat p, it\<lparr>it_offset := it_offset it + 1\<rparr>))"
      using b 2 cb a(1) ys(2) by (simp add: address_bdd_iterator_next_def)
    then show ?thesis using next_outcomeI [OF 2(1) a(7) bnd ys(1) _ ys(3)] by blast
  next
    case 3
    have "k < 64"
    proof (rule ccontr)
      assume "\<not> k < 64"
      moreover have "k \<le> 64" using a(2) path_ok_level unfolding at_block_def by blast
      ultimately have k: "k = 64" by simp
      then have "it_offset it = 0" using 3 two_pow_64 by simp
      moreover have "q = 0" using a(2) k by (simp add: at_block_def)
      ultimately show False using a(3,5) by simp
    qed
    then have "unat (it_offset it) = 2 ^ k" using 3 by (simp add: unat_two_pow)
    then have xs: "xs = all_addrs (to_the_right (it_parent_node it) k q)" using a(3,6) by simp
    have nx: "address_bdd_iterator_next it = Option.bind (find_next_true_node it)
        (\<lambda>(found, it1). if \<not> found then Some (Inr (0, it1))
           else Some (assertr (it_node it1 = BDD_TRUE)
             (Inr (it_base it1 + it_offset it1, it1\<lparr>it_offset := it_offset it1 + 1\<rparr>))))"
      using b 3 cb by (simp add: address_bdd_iterator_next_def)
    show ?thesis
    proof (cases "to_the_right (it_parent_node it) k q")
      case Nil
      then show ?thesis using find_next_true_node_spec [OF a(2) refl] xs
        by (auto simp: nx pending_def next_outcome_def)
    next
      case (Cons c r)
      obtain q' k' where c: "c = (q', k')" by (cases c)
      note xs' = xs [unfolded Cons c]
      obtain it1 ys where i: "find_next_true_node it = Some (True, it1)" "it_node it1 = BDD_TRUE"
        "all_addrs ((q', k') # r) = q' * 2 ^ k' # ys" "it_base it1 + it_offset it1 = of_nat (q' * 2 ^ k')"
        "iter_at (it1\<lparr>it_offset := it_offset it1 + 1\<rparr>) (Suc (q' * 2 ^ k')) ys"
        by (rule deliver_next_block [OF a(2) 3(2) Cons [unfolded c]]) (use a(7) bnd xs' in simp_all)
      have "address_bdd_iterator_next it = Some (Inr (of_nat (q' * 2 ^ k'), it1\<lparr>it_offset := it_offset it1 + 1\<rparr>))"
        unfolding nx i(1) by (simp only: bind.simps prod.case i(2,4) assertr_True simp_thms if_False)
      then show ?thesis using next_outcomeI [OF 3(1) a(7) bnd _ _ i(5)] i(3) xs' by simp
    qed
  qed
qed


section \<open>A whole iteration\<close>

text \<open>The calls return the addresses of the list one after the other and then 0.\<close>

primrec delivers :: "address_bdd_iterator \<Rightarrow> uintptr list \<Rightarrow> bool" where
  "delivers it [] = (\<exists>it'. address_bdd_iterator_next it = Some (Inr (0, it')))"
| "delivers it (x # xs) = (x \<noteq> 0 \<and> (\<exists>it'. address_bdd_iterator_next it = Some (Inr (x, it')) \<and> delivers it' xs))"

definition delivered :: "uintptr set \<Rightarrow> uintptr set" where
  "delivered S = S - {0} - (if - 2 \<in> S \<or> S = {- 1} then {- 1} else {})"

lemma of_nat_neq_0: "0 < x \<Longrightarrow> x < 2 ^ 64 \<Longrightarrow> (of_nat x :: uintptr) \<noteq> 0"
  using unat_of_nat64 [of x] by (metis less_not_refl unat_0)

lemma iter_at_delivers: "iter_at it p xs \<Longrightarrow> delivers it (map of_nat (pending p xs))"
proof (induction "pending p xs" arbitrary: it p xs)
  case Nil
  then show ?case using iterator_next_spec [of it p xs] by (simp add: next_outcome_def flip: Nil.hyps)
next
  case (Cons x zs)
  obtain it' ys where "address_bdd_iterator_next it = Some (Inr (of_nat x, it'))" "0 < x" "x < 2 ^ 64"
    "pending (Suc x) ys = zs" "iter_at it' (Suc x) ys"
    using iterator_next_spec [OF Cons.prems] unfolding next_outcome_def Cons.hyps(2) [symmetric] list.case
    by (elim exE conjE) (rule that)
  then show ?case using Cons.hyps(1) [of "Suc x" ys it'] of_nat_neq_0 by (simp flip: Cons.hyps(2))
qed

lemma size_loop_delivers: "delivers it xs \<Longrightarrow> bdd_size_loop it n = Some (Inr (n + length xs))"
proof (induction xs arbitrary: it n)
  case Nil
  then show ?case by (auto simp: bdd_size_loop.simps [of it])
next
  case (Cons x xs)
  then show ?case by (fastforce simp: bdd_size_loop.simps [of it])
qed

lemma bdd_inv_height: "bdd_inv bdd \<Longrightarrow> bheight (bdd_root bdd) \<le> 64"
  by (simp add: bdd_inv_def)

lemma unat_bdd_addrs:
  assumes "bdd_inv bdd"
  shows "set (all_addrs (btrues (bdd_root bdd) 64 0)) = unat ` bdd_addrs bdd"
proof -
  note h = bdd_inv_height [OF assms]
  have "x \<in> unat ` bdd_addrs bdd" if x: "x \<in> set (all_addrs (btrues (bdd_root bdd) 64 0))" for x
  proof -
    have "x < 2 ^ 64" using x all_addrs_btrues [OF h, of 0] by auto
    then have u: "unat (of_nat x :: uintptr) = x" by (rule unat_of_nat64)
    then have "of_nat x \<in> bdd_addrs bdd"
      using x mem_all_addrs_btrues [OF h in_root, of "of_nat x"] by (simp add: bdd_addrs_def)
    then show ?thesis using u by (metis image_eqI)
  qed
  then show ?thesis using mem_all_addrs_btrues [OF h in_root] by (auto simp: bdd_addrs_def)
qed

text \<open>The first position of an iterator of a set that is not empty.\<close>

lemma iterator_new_stands:
  assumes inv: "bdd_inv bdd"
  shows "case btrues (bdd_root bdd) 64 0 of
      [] \<Rightarrow> it_base (address_bdd_iterator_new bdd) = 0 \<and> it_offset (address_bdd_iterator_new bdd) = - 1
    | (q, k) # r \<Rightarrow> stands (address_bdd_iterator_new bdd) q k r"
proof -
  let ?it = "\<lparr>it_node = bdd_root bdd, it_parent_node = [], it_current_bit = 0, it_offset = 0, it_base = 0\<rparr>"
  have "case btrues (bdd_root bdd) 64 0 of
      [] \<Rightarrow> find_true_sub_node ?it (bdd_root bdd) [] (2 ^ 64) 0 = (False, ?it)
    | (q', k') # r \<Rightarrow> \<exists>it'. find_true_sub_node ?it (bdd_root bdd) [] (2 ^ 64) 0 = (True, it')
        \<and> stands it' q' k' (r @ to_the_right [] 64 0)"
    by (rule find_true_sub_node_spec) (simp_all add: bdd_inv_height [OF inv])
  then show ?thesis unfolding two_pow_64
    by (cases "btrues (bdd_root bdd) 64 0") (auto simp: address_bdd_iterator_new_def Let_def)
qed

lemma stands_iter_at:
  assumes st: "stands it q k r" and so: "sorted_wrt (<) (all_addrs ((q, k) # r))"
    and lt: "\<forall>x\<in>set (all_addrs ((q, k) # r)). x < 2 ^ 64"
  shows "iter_at it (if q = 0 then 1 else q * 2 ^ k)
    (if q = 0 then tl (all_addrs ((q, k) # r)) else all_addrs ((q, k) # r))"
proof -
  have a: "it_node it = BDD_TRUE" "at_block it q k" "to_the_right (it_parent_node it) k q = r"
    "it_offset it = (if it_base it = 0 then 1 else 0)" using st by (auto simp: stands_def)
  have base: "it_base it = 0 \<longleftrightarrow> q = 0" using a(2) by (auto simp: at_block_def word_unat_eq_iff)
  have e: "q * 2 ^ k < Suc q * 2 ^ k" by simp
  have xs: "all_addrs ((q, k) # r) = q * 2 ^ k # [Suc (q * 2 ^ k) ..< Suc q * 2 ^ k] @ all_addrs r"
    using upt_conv_Cons [OF e] by (simp add: blk_addrs_def)
  have ge: "\<forall>x\<in>set (all_addrs ((q, k) # r)). q * 2 ^ k \<le> x" using so unfolding xs by (auto simp: less_imp_le)
  show ?thesis
  proof (cases "q = 0")
    case True
    have "\<forall>x\<in>set (tl (all_addrs ((q, k) # r))). 1 \<le> x \<and> x < 2 ^ 64"
      using so lt unfolding xs by (auto simp: True Suc_le_eq)
    moreover have "sorted_wrt (<) (tl (all_addrs ((q, k) # r)))" using so unfolding xs by simp
    moreover have "tl (all_addrs ((q, k) # r)) = [1 ..< Suc 0 * 2 ^ k] @ all_addrs r" unfolding xs by (simp add: True)
    ultimately show ?thesis unfolding iter_at_def
      using a base True by (intro exI [of _ 0] exI [of _ k]) auto
  next
    case False
    then show ?thesis unfolding iter_at_def
      using a base lt ge so by (intro exI [of _ q] exI [of _ k]) (auto simp: blk_addrs_def)
  qed
qed

lemma iterator_start:
  assumes inv: "bdd_inv bdd" and ne: "bdd_addrs bdd \<noteq> {}"
  obtains p xs where "iter_at (address_bdd_iterator_new bdd) p xs" and "set xs = unat ` (bdd_addrs bdd - {0})"
    and "p = top_addr \<longleftrightarrow> bdd_addrs bdd = {- 1}"
proof -
  let ?b = "btrues (bdd_root bdd) 64 0" and ?S = "bdd_addrs bdd"
  note u = unat_bdd_addrs [OF inv]
  from ne u obtain q k r where b: "?b = (q, k) # r" by (cases ?b) auto
  have so: "sorted_wrt (<) (all_addrs ((q, k) # r))" and lt: "\<forall>x\<in>set (all_addrs ((q, k) # r)). x < 2 ^ 64"
    using all_addrs_btrues [OF bdd_inv_height [OF inv], of 0] unfolding b by auto
  have st: "stands (address_bdd_iterator_new bdd) q k r" using iterator_new_stands [OF inv] by (simp add: b)
  have e: "q * 2 ^ k < Suc q * 2 ^ k" by simp
  have xs: "all_addrs ((q, k) # r) = q * 2 ^ k # [Suc (q * 2 ^ k) ..< Suc q * 2 ^ k] @ all_addrs r"
    using upt_conv_Cons [OF e] by (simp add: blk_addrs_def)
  have inj: "unat ` (?S - {0}) = unat ` ?S - {0}" by (auto simp: word_unat_eq_iff)
  show thesis
  proof (rule that [OF stands_iter_at [OF st so lt]])
    show "set (if q = 0 then tl (all_addrs ((q, k) # r)) else all_addrs ((q, k) # r)) = unat ` (?S - {0})"
      using so unfolding inj u [unfolded b, symmetric] xs by (auto simp: gr0_conv_Suc)
    have m: "q * 2 ^ k \<in> unat ` ?S" unfolding u [unfolded b, symmetric] xs by simp
    show "(if q = 0 then 1 else q * 2 ^ k) = top_addr \<longleftrightarrow> ?S = {- 1}"
    proof (cases "q = 0")
      case True
      then obtain a where "a \<in> ?S" "unat a = 0" using m by auto
      then have "0 \<in> ?S" by (metis unat_0 word_unat_eq_iff)
      then show ?thesis using True by (auto simp: top_addr_def)
    next
      case False
      have "a = - 1" if "q * 2 ^ k = top_addr" "a \<in> ?S" for a
      proof -
        have "unat a \<in> set (all_addrs ((q, k) # r))" using that(2) u [unfolded b] by simp
        then have "top_addr \<le> unat a" using so that(1) unfolding xs by (auto simp: less_imp_le)
        then have "unat a = top_addr" using unat_le_top by (rule order.antisym [rotated])
        then show ?thesis by (simp add: word_unat_eq_iff top_word(1))
      qed
      moreover have "q * 2 ^ k = top_addr" if "?S = {- 1}" using m by (simp add: that unat_all_ones top_addr_def)
      ultimately show ?thesis using False ne by auto
    qed
  qed
qed


lemma set_pending:
  assumes "sorted_wrt (<) xs" and "\<forall>x\<in>set xs. x < 2 ^ 64"
  shows "set (pending p xs) = set xs - (if p = top_addr \<or> top_addr - 1 \<in> set xs then {top_addr} else {})"
    and "sorted_wrt (<) (pending p xs)"
proof -
  have l: "set (butlast xs) = set xs - {top_addr}" if t: "top_addr \<in> set xs"
  proof -
    from t have ne: "xs \<noteq> []" by auto
    then have xs: "xs = butlast xs @ [last xs]" by simp
    then have lt: "\<forall>x\<in>set (butlast xs). x < last xs" using assms(1) by (metis list.set_intros(1) sorted_wrt_append)
    have "last xs \<le> top_addr" using assms(2) last_in_set [OF ne] by (simp flip: less_pow_iff)
    with lt t xs have "last xs = top_addr" by (metis Un_iff leD list.set_intros(1) list.set(1) list.simps(15) order_le_less set_append singleton_iff)
    then show ?thesis using lt xs by (metis Diff_insert_absorb less_irrefl list.set(1) list.simps(15) Un_insert_right set_append sup_bot_right)
  qed
  then show "set (pending p xs) = set xs - (if p = top_addr \<or> top_addr - 1 \<in> set xs then {top_addr} else {})"
    by (auto simp: pending_def)
  have "sorted_wrt (<) (butlast xs)" using assms(1) by (cases xs rule: rev_cases) (auto simp: sorted_wrt_append)
  then show "sorted_wrt (<) (pending p xs)" using assms(1) by (simp add: pending_def)
qed

lemma iterator_delivers:
  assumes inv: "bdd_inv bdd"
  shows "delivers (address_bdd_iterator_new bdd) (sorted_list_of_set (delivered (bdd_addrs bdd)))"
proof (cases "bdd_addrs bdd = {}")
  case True
  then have "btrues (bdd_root bdd) 64 0 = []"
    using unat_bdd_addrs [OF inv] by (cases "btrues (bdd_root bdd) 64 0") (auto simp: blk_addrs_def)
  then have "it_base (address_bdd_iterator_new bdd) + it_offset (address_bdd_iterator_new bdd) = - 1"
    using iterator_new_stands [OF inv] by simp
  then show ?thesis by (simp add: True delivered_def address_bdd_iterator_next_def)
next
  case False
  let ?S = "bdd_addrs bdd"
  obtain p xs where st: "iter_at (address_bdd_iterator_new bdd) p xs" and xs: "set xs = unat ` (?S - {0})"
    and p: "p = top_addr \<longleftrightarrow> ?S = {- 1}" by (rule iterator_start [OF inv False])
  have so: "sorted_wrt (<) xs" and lt: "\<forall>x\<in>set xs. x < 2 ^ 64" using st by (auto simp: iter_at_def)
  let ?l = "map of_nat (pending p xs) :: uintptr list"
  have u: "unat (of_nat x :: uintptr) = x" if "x \<in> set (pending p xs)" for x
    using set_pending(1) [OF so lt] lt that by (intro unat_of_nat64) auto
  have "sorted_wrt (\<lambda>x y. (of_nat x :: uintptr) < of_nat y) (pending p xs)"
    using set_pending(2) [OF so lt] by (rule sorted_wrt_mono_rel [rotated]) (simp add: word_less_nat_alt u)
  then have sw: "sorted_wrt (<) ?l" by (simp add: sorted_wrt_map)
  have c: "top_addr - 1 \<in> unat ` (?S - {0}) \<longleftrightarrow> - 2 \<in> ?S"
    unfolding top_word(2) [symmetric] by (simp only: inj_image_mem_iff [OF inj_unsigned]) simp
  have "set ?l = of_nat ` set (pending p xs)" by simp
  also have "set (pending p xs) = unat ` (delivered ?S)"
    unfolding set_pending(1) [OF so lt] xs c p delivered_def
    by (auto simp: image_set_diff [OF inj_unsigned] top_word(1))
  also have "(of_nat :: nat \<Rightarrow> uintptr) ` unat ` (delivered ?S) = delivered ?S" by (simp add: image_image)
  finally have "sorted_list_of_set (delivered ?S) = ?l"
    using sw by (metis sorted_list_of_set.idem_if_sorted_distinct strict_sorted_iff)
  then show ?thesis using iter_at_delivers [OF st] by simp
qed


lemma size_counts:
  assumes "bdd_inv bdd"
  shows "address_bdd_size bdd = Some (Inr (card (delivered (bdd_addrs bdd))))"
  using size_loop_delivers [OF iterator_delivers [OF assms], of 0] by (simp add: address_bdd_size_def)


text \<open>
  Claim C34. The calls of an iterator return the addresses of the set in ascending order and then 0, without failing, and
  the size is their number. Left out are address 0 and, when its neighbour is in the set or it is the only
  address, the highest address.
\<close>

theorem address_bdd_iterates:
  assumes "bdd_inv bdd"
  shows "delivers (address_bdd_iterator_new bdd) (sorted_list_of_set (delivered (bdd_addrs bdd)))
    \<and> address_bdd_size bdd = Some (Inr (card (delivered (bdd_addrs bdd))))"
  using iterator_delivers [OF assms] size_counts [OF assms] by blast

theorem address_bdd_iterates_witness:
  "\<exists>b0 b. address_bdd_new 60 = Inr b0 \<and> address_bdd_set b0 16 40 = Some b
    \<and> delivers (address_bdd_iterator_new b) (sorted_list_of_set (delivered (rounded 4 16 40)))
    \<and> address_bdd_size b = Some (Inr (card (delivered (rounded 4 16 40))))"
proof -
  obtain b0 where b0: "address_bdd_new 60 = Inr b0" by (simp add: address_bdd_new_def)
  then obtain b where b: "address_bdd_set b0 16 40 = Some b" "bdd_inv b" "bdd_addrs b = rounded 4 16 40"
    using address_bdd_new_spec [OF b0] bdd.put_law [of b0 16 40] by auto
  then show ?thesis using b0 address_bdd_iterates [OF b(2)] by auto
qed

text \<open>
  The iterator must not be called again after it has returned 0. The tree below has one block; once the iterator
  has used up the block, the next call returns 0 and the call after that fails an assertion.
\<close>

lemma iterator_after_end:
  "(case address_bdd_iterator_next (address_bdd_iterator_new
       \<lparr>bdd_root = BNode (BNode BDD_FALSE BDD_TRUE) BDD_FALSE, bdd_max_depth = 2, bdd_size_unit = push_bit 62 1\<rparr>)
     of Some (Inr (a, it)) \<Rightarrow>
       a = push_bit 62 1
       \<and> (case address_bdd_iterator_next (it\<lparr>it_offset := push_bit 62 1\<rparr>) of
            Some (Inr (a', it')) \<Rightarrow> a' = 0 \<and> address_bdd_iterator_next it' = Some (Inl AssertFailed)
          | _ \<Rightarrow> False)
     | _ \<Rightarrow> False)"
  by code_simp

end
