(* ===== verification/Mempool.thy ===== *)
theory Mempool
  imports Prelude
begin

text \<open>
  The memory pool of \<^verbatim>\<open>src/sys/mempool.c\<close>. A pool hands out entries of eighteen sizes. An entry is carved off
  the pool once and afterwards lives on the stack of its size whenever it is free. In front of the memory a caller
  gets are the header of the entry and a pointer back to the entry with a canary, all in the pool itself, so that
  the model works on bytes: a 64 bit number is stored as eight bytes, and the callers may write whatever they want
  into their own blocks between two calls.

  Addresses and sizes are natural numbers; where the code adds to a size a caller chose, the sum is taken modulo
  two to the power of 64. The counter of allocated bytes is a word. The spin lock is left out: a call is atomic.
\<close>

section \<open>Bytes\<close>

type_synonym bytes = "nat \<Rightarrow> nat"

fun ldn :: "nat \<Rightarrow> bytes \<Rightarrow> nat \<Rightarrow> nat" where
  "ldn 0 m a = 0"
| "ldn (Suc k) m a = m a + 256 * ldn k m (Suc a)"

fun stn :: "nat \<Rightarrow> bytes \<Rightarrow> nat \<Rightarrow> nat \<Rightarrow> bytes" where
  "stn 0 m a v = m"
| "stn (Suc k) m a v = stn k (m(a := v mod 256)) (Suc a) (v div 256)"

text \<open>A member of eight bytes, and a copy of \<open>n\<close> bytes.\<close>

definition ld :: "bytes \<Rightarrow> nat \<Rightarrow> nat" where
  "ld m a = ldn 8 m a"

definition st :: "bytes \<Rightarrow> nat \<Rightarrow> nat \<Rightarrow> bytes" where
  "st m a v = stn 8 m a v"

definition copy_bytes :: "bytes \<Rightarrow> nat \<Rightarrow> nat \<Rightarrow> nat \<Rightarrow> bytes" where
  "copy_bytes m dst src n = (\<lambda>x. if dst \<le> x \<and> x < dst + n then m (src + (x - dst)) else m x)"

section \<open>The pool\<close>

definition NSTACKS :: nat where
  "NSTACKS = 18"

definition LOTTO_MEMPOOL_ALIGNMENT :: nat where
  "LOTTO_MEMPOOL_ALIGNMENT = 8"

definition LOTTO_MEMPOOL_CANARY :: nat where
  "LOTTO_MEMPOOL_CANARY = 0xBEEFFEED"

text \<open>The header of an entry and the pointer back to it have sixteen bytes each.\<close>

definition METADATA_SIZE :: nat where
  "METADATA_SIZE = 16 + 16"

definition sizes :: "nat list" where
  "sizes = [32, 128, 256, 512, 1024, 2 * 1024, 4 * 1024, 8 * 1024, 16 * 1024, 32 * 1024, 64 * 1024, 128 * 1024,
     256 * 1024, 512 * 1024, 1024 * 1024, 2 * 1024 * 1024, 4 * 1024 * 1024, 8 * 1024 * 1024]"

record lotto_mempool =
  mp_allocated :: "64 word"
  pool_capacity :: nat
  pool_next :: nat
  pool_memory :: nat
  mp_stack :: "nat list"
  mp_mem :: bytes  \<comment> \<open>the memory of the process\<close>

text \<open>A size that no stack has is reported in the log, and the number of stacks is returned.\<close>

function bucketize_loop :: "nat \<Rightarrow> nat \<Rightarrow> nat" where
  "bucketize_loop i sz = (if i < NSTACKS \<and> sz > sizes ! i then bucketize_loop (Suc i) sz else i)"
  by auto
termination by (relation "measure (\<lambda>(i, sz). NSTACKS - i)") auto

declare bucketize_loop.simps [simp del]

definition bucketize :: "nat \<Rightarrow> nat" where
  "bucketize sz = bucketize_loop 0 sz"

definition sizes_at :: "nat \<Rightarrow> nat result" where
  "sizes_at i = (if i < NSTACKS then Inr (sizes ! i) else Inl Fault)"

text \<open>The difference of two numbers of type \<^verbatim>\<open>uintptr_t\<close>.\<close>

definition ptr_sub :: "nat \<Rightarrow> nat \<Rightarrow> nat" where
  "ptr_sub a b = nat ((int a - int b) mod 2 ^ 64)"

text \<open>
  The first function takes the addresses two calls of the given allocator return. The start of the pool is moved
  down, not up, to an aligned address: the bytes before the allocation are cleared too when the allocator returns
  an address that is not aligned.
\<close>

definition lotto_mempool_init :: "bytes \<Rightarrow> nat \<Rightarrow> nat \<Rightarrow> nat \<Rightarrow> lotto_mempool result" where
  "lotto_mempool_init m mp_addr addr cap =
     assertr (mp_addr \<noteq> 0)
       (let cap = (cap + (LOTTO_MEMPOOL_ALIGNMENT - 1)) mod 2 ^ 64;
            memory = ptr_sub addr (ptr_sub addr METADATA_SIZE mod LOTTO_MEMPOOL_ALIGNMENT) in
        assertr (memory \<noteq> 0)
          (Inr \<lparr>mp_allocated = 0, pool_capacity = cap,
                pool_next = ptr_sub memory METADATA_SIZE mod LOTTO_MEMPOOL_ALIGNMENT, pool_memory = memory,
                mp_stack = replicate NSTACKS 0,
                mp_mem = (\<lambda>x. if memory \<le> x \<and> x < memory + cap then 0 else m x)\<rparr>))"

definition lotto_mempool_init_static :: "bytes \<Rightarrow> nat \<Rightarrow> nat \<Rightarrow> nat \<Rightarrow> lotto_mempool result" where
  "lotto_mempool_init_static m mp_addr pool cap =
     assertr (mp_addr \<noteq> 0) (assertr (pool \<noteq> 0)
       (Inr \<lparr>mp_allocated = 0, pool_capacity = cap, pool_next = 0, pool_memory = pool,
             mp_stack = replicate NSTACKS 0, mp_mem = m\<rparr>))"

text \<open>The macros that find the pointer back to the entry and the canary of a block.\<close>

definition GET_ENTRY_PTR :: "lotto_mempool \<Rightarrow> nat \<Rightarrow> nat" where
  "GET_ENTRY_PTR mp p = ld (mp_mem mp) (p - 16)"

definition GET_CANARY :: "lotto_mempool \<Rightarrow> nat \<Rightarrow> nat" where
  "GET_CANARY mp p = ld (mp_mem mp) (p - 8)"

definition set_entry_ptr :: "nat \<Rightarrow> nat \<Rightarrow> lotto_mempool \<Rightarrow> lotto_mempool" where
  "set_entry_ptr p e mp =
     mp\<lparr>mp_mem := st (st (mp_mem mp) (p - 16) e) (p - 8) LOTTO_MEMPOOL_CANARY\<rparr>"

definition IN_POOL :: "lotto_mempool \<Rightarrow> nat \<Rightarrow> bool" where
  "IN_POOL mp p = (pool_memory mp \<le> p \<and> p < pool_memory mp + pool_capacity mp)"

section \<open>Operations\<close>

definition lotto_mempool_alloc :: "lotto_mempool \<Rightarrow> nat \<Rightarrow> (nat \<times> lotto_mempool) result" where
  "lotto_mempool_alloc mp n =
     (let sz = (n + METADATA_SIZE) mod 2 ^ 64; bucket = bucketize sz in
      bindr (sizes_at bucket) (\<lambda>sz.
        let top = mp_stack mp ! bucket in
        if top \<noteq> 0 then
          let mp = mp\<lparr>mp_stack := (mp_stack mp)[bucket := ld (mp_mem mp) top],
                      mp_mem := st (mp_mem mp) top 0, mp_allocated := mp_allocated mp + of_nat sz\<rparr>;
              ret = top + METADATA_SIZE
          in Inr (ret, set_entry_ptr ret top mp)
        else
          assertr (pool_capacity mp \<ge> pool_next mp + sz)
            (let e = pool_memory mp + pool_next mp;
                 mp = mp\<lparr>mp_mem := st (st (mp_mem mp) e 0) (e + 8) sz, pool_next := pool_next mp + sz,
                         mp_allocated := mp_allocated mp + of_nat sz\<rparr>;
                 ret = e + METADATA_SIZE
             in Inr (ret, set_entry_ptr ret e mp))))"

definition lotto_mempool_aligned_alloc :: "lotto_mempool \<Rightarrow> nat \<Rightarrow> nat \<Rightarrow> (nat \<times> lotto_mempool) result" where
  "lotto_mempool_aligned_alloc mp alignment sz =
     bindr (lotto_mempool_alloc mp ((sz + alignment + (2 ^ 64 - 1)) mod 2 ^ 64)) (\<lambda>(chunk, mp).
       if alignment = 0 then Inl Fault
       else let rm = chunk mod alignment in
         if rm = 0 then Inr (chunk, mp)
         else assertr (alignment > LOTTO_MEMPOOL_ALIGNMENT)
           (let e = GET_ENTRY_PTR mp chunk; ret = chunk + alignment - rm
            in Inr (ret, set_entry_ptr ret e mp)))"

definition lotto_mempool_free :: "lotto_mempool \<Rightarrow> nat \<Rightarrow> lotto_mempool result" where
  "lotto_mempool_free mp p =
     (if p = 0 then Inr mp
      else assertr (GET_CANARY mp p = LOTTO_MEMPOOL_CANARY) (assertr (IN_POOL mp p)
        (let e = GET_ENTRY_PTR mp p; bucket = bucketize (ld (mp_mem mp) (e + 8)) in
         bindr (sizes_at bucket) (\<lambda>sz.
           Inr (mp\<lparr>mp_allocated := mp_allocated mp - of_nat sz,
                   mp_mem := st (mp_mem mp) e (mp_stack mp ! bucket),
                   mp_stack := (mp_stack mp)[bucket := e]\<rparr>)))))"

text \<open>
  The copy of a reallocation is undefined when it leaves the pool or when source and destination overlap. The
  branch for a null result of the allocation is not taken, since the allocation never returns null.
\<close>

definition copy_block :: "lotto_mempool \<Rightarrow> nat \<Rightarrow> nat \<Rightarrow> nat \<Rightarrow> lotto_mempool result" where
  "copy_block mp dst src n =
     (if src + n \<le> pool_memory mp + pool_capacity mp \<and> (src + n \<le> dst \<or> dst + n \<le> src)
      then Inr (mp\<lparr>mp_mem := copy_bytes (mp_mem mp) dst src n\<rparr>) else Inl Fault)"

definition lotto_mempool_realloc :: "lotto_mempool \<Rightarrow> nat \<Rightarrow> nat \<Rightarrow> (nat \<times> lotto_mempool) result" where
  "lotto_mempool_realloc mp p n =
     (if p = 0 then lotto_mempool_alloc mp n
      else assertr (GET_CANARY mp p = LOTTO_MEMPOOL_CANARY) (assertr (IN_POOL mp p)
        (let e = GET_ENTRY_PTR mp p in
         if ld (mp_mem mp) (e + 8) \<ge> (p - e + n) mod 2 ^ 64 then Inr (p, mp)
         else bindr (lotto_mempool_alloc mp n) (\<lambda>(ptr, mp).
           if ptr = 0 then bindr (lotto_mempool_free mp p) (\<lambda>mp. Inr (ptr, mp))
           else assertr (IN_POOL mp p) (assertr (GET_CANARY mp p = LOTTO_MEMPOOL_CANARY)
             (let cap = ld (mp_mem mp) (e + 8) - METADATA_SIZE;
                  k = (if cap < (n + METADATA_SIZE) mod 2 ^ 64 then cap else n) in
              bindr (copy_block mp ptr p k) (\<lambda>mp.
                bindr (lotto_mempool_free mp p) (\<lambda>mp. Inr (ptr, mp)))))))))"

section \<open>Loads and stores\<close>

lemma stn_other: "\<not> (a \<le> x \<and> x < a + k) \<Longrightarrow> stn k m a v x = m x"
  by (induction k arbitrary: m a v) auto

lemma ldn_cong: "(\<And>x. a \<le> x \<Longrightarrow> x < a + k \<Longrightarrow> m x = m' x) \<Longrightarrow> ldn k m a = ldn k m' a"
  by (induction k m a rule: ldn.induct) auto

lemma ldn_stn: "ldn k (stn k m a v) a = v mod 256 ^ k"
proof (induction k arbitrary: m a v)
  case (Suc k)
  have "stn k (m(a := v mod 256)) (Suc a) (v div 256) a = v mod 256" by (simp add: stn_other)
  then show ?case using Suc by (simp add: mod_mult2_eq)
qed simp

definition same_outside :: "nat \<Rightarrow> nat \<Rightarrow> bytes \<Rightarrow> bytes \<Rightarrow> bool" where
  "same_outside lo hi m m' = (\<forall>x. \<not> (lo \<le> x \<and> x < hi) \<longrightarrow> m' x = m x)"

lemma same_outside_refl [simp]: "same_outside lo hi m m"
  by (simp add: same_outside_def)

lemma same_outside_st: "same_outside lo hi m m' \<Longrightarrow> lo \<le> a \<Longrightarrow> a + 8 \<le> hi \<Longrightarrow> same_outside lo hi m (st m' a v)"
  by (auto simp: same_outside_def st_def stn_other)

lemma same_outsideD: "same_outside lo hi m m' \<Longrightarrow> x < lo \<or> hi \<le> x \<Longrightarrow> m' x = m x"
  by (auto simp: same_outside_def)

lemma ld_same_outside: "same_outside lo hi m m' \<Longrightarrow> a + 8 \<le> lo \<or> hi \<le> a \<Longrightarrow> ld m' a = ld m a"
  unfolding ld_def by (rule ldn_cong) (auto simp: same_outside_def)

lemma ld_st [simp]: "v < 2 ^ 64 \<Longrightarrow> ld (st m a v) a = v"
  by (simp add: ld_def st_def ldn_stn)

lemma ld_st_below: "a + 8 \<le> b \<Longrightarrow> ld (st m b v) a = ld m a"
  unfolding ld_def st_def by (rule ldn_cong) (auto simp: stn_other)

lemma ld_st_other: "a + 8 \<le> b \<or> b + 8 \<le> a \<Longrightarrow> ld (st m b v) a = ld m a"
  unfolding ld_def st_def by (rule ldn_cong) (auto simp: stn_other)

section \<open>Sizes\<close>

lemma length_sizes [simp]: "length sizes = NSTACKS"
  by (simp add: sizes_def NSTACKS_def)

lemma bucketize_loop_spec:
  "i \<le> NSTACKS \<Longrightarrow> bucketize_loop i sz \<le> NSTACKS \<and> (bucketize_loop i sz < NSTACKS \<longrightarrow> sz \<le> sizes ! bucketize_loop i sz)
     \<and> (\<forall>j. i \<le> j \<and> j < bucketize_loop i sz \<longrightarrow> sizes ! j < sz) \<and> i \<le> bucketize_loop i sz"
proof (induction i sz rule: bucketize_loop.induct)
  case (1 i sz)
  show ?case
  proof (cases "i < NSTACKS \<and> sz > sizes ! i")
    case True
    then have "bucketize_loop i sz = bucketize_loop (Suc i) sz" by (simp add: bucketize_loop.simps [of i])
    moreover have "bucketize_loop (Suc i) sz \<le> NSTACKS"
      "bucketize_loop (Suc i) sz < NSTACKS \<longrightarrow> sz \<le> sizes ! bucketize_loop (Suc i) sz"
      "\<forall>j. Suc i \<le> j \<and> j < bucketize_loop (Suc i) sz \<longrightarrow> sizes ! j < sz" "Suc i \<le> bucketize_loop (Suc i) sz"
      using 1(1) True by simp_all
    moreover have "j = i \<or> Suc i \<le> j" if "i \<le> j" for j using that by auto
    ultimately show ?thesis using True by (metis Suc_leD)
  next
    case False
    then have "bucketize_loop i sz = i" by (auto simp: bucketize_loop.simps [of i])
    then show ?thesis using False 1(2) by auto
  qed
qed

lemma sizes_distinct: "distinct sizes"
  by (simp add: sizes_def)

lemma sizes_bounds: "s \<in> set sizes \<Longrightarrow> 32 \<le> s \<and> s \<le> 8 * 1024 * 1024"
  by (auto simp: sizes_def)

lemma sizes_at_Inr:
  assumes "sizes_at (bucketize sz) = Inr s"
  shows "bucketize sz < NSTACKS" and "s = sizes ! bucketize sz" and "s \<in> set sizes" and "sz \<le> s"
    and "t \<in> set sizes \<Longrightarrow> sz \<le> t \<Longrightarrow> s \<le> t"
proof -
  show b: "bucketize sz < NSTACKS" and s: "s = sizes ! bucketize sz"
    using assms by (auto simp: sizes_at_def split: if_splits)
  then show "s \<in> set sizes" by (metis length_sizes nth_mem)
  note spec = bucketize_loop_spec [of 0 sz, folded bucketize_def, simplified]
  show "sz \<le> s" using spec b s by simp
  show "s \<le> t" if t: "t \<in> set sizes" "sz \<le> t"
  proof -
    obtain j where j: "j < NSTACKS" "t = sizes ! j" using t(1) by (metis in_set_conv_nth length_sizes)
    then have "bucketize sz \<le> j" using spec t(2) by (metis leD leI)
    moreover have "sorted sizes" by (simp add: sizes_def)
    ultimately show ?thesis using j s by (simp add: sorted_nth_mono)
  qed
qed

lemma sizes_at_fits: "sz \<le> 8 * 1024 * 1024 \<Longrightarrow> \<exists>s. sizes_at (bucketize sz) = Inr s"
proof -
  assume sz: "sz \<le> 8 * 1024 * 1024"
  note spec = bucketize_loop_spec [of 0 sz, folded bucketize_def, simplified]
  have "bucketize sz < NSTACKS"
  proof (rule ccontr)
    assume "\<not> bucketize sz < NSTACKS"
    then have "17 < bucketize sz" by (simp add: NSTACKS_def)
    then have "sizes ! 17 < sz" using spec by blast
    then show False using sz by (simp add: sizes_def)
  qed
  then show ?thesis by (simp add: sizes_at_def)
qed

lemma bucketize_size: "s \<in> set sizes \<Longrightarrow> sizes_at (bucketize s) = Inr s"
proof -
  assume s: "s \<in> set sizes"
  then obtain t where t: "sizes_at (bucketize s) = Inr t" using sizes_at_fits sizes_bounds by blast
  then have "t = s" using sizes_at_Inr(4,5) [OF t] s by (simp add: order.antisym)
  with t show ?thesis by simp
qed


section \<open>The invariant of a pool\<close>

text \<open>
  What a pool represents: the sizes of the entries carved so far, the free entries of every stack, and for every
  block that is in use its entry and the number of bytes the caller asked for.
\<close>

record mp_ghost =
  gh_size :: "nat \<rightharpoonup> nat"
  gh_free :: "nat \<Rightarrow> nat list"
  gh_live :: "nat \<rightharpoonup> nat \<times> nat"

primrec chain :: "bytes \<Rightarrow> nat \<Rightarrow> nat list \<Rightarrow> bool" where
  "chain m x [] = (x = 0)"
| "chain m x (y # ys) = (x = y \<and> y \<noteq> 0 \<and> chain m (ld m y) ys)"

definition entries_ok :: "bytes \<Rightarrow> nat \<Rightarrow> nat \<Rightarrow> (nat \<rightharpoonup> nat) \<Rightarrow> bool" where
  "entries_ok m lo hi szf = ((\<forall>e s. szf e = Some s \<longrightarrow> lo \<le> e \<and> e + s \<le> hi \<and> s \<in> set sizes \<and> ld m (e + 8) = s)
     \<and> (\<forall>e s e' s'. szf e = Some s \<and> szf e' = Some s' \<and> e \<noteq> e' \<longrightarrow> e + s \<le> e' \<or> e' + s' \<le> e))"

definition stacks_ok :: "bytes \<Rightarrow> nat list \<Rightarrow> (nat \<rightharpoonup> nat) \<Rightarrow> (nat \<Rightarrow> nat list) \<Rightarrow> bool" where
  "stacks_ok m stack szf free = (length stack = NSTACKS \<and> (\<forall>b<NSTACKS. chain m (stack ! b) (free b) \<and> distinct (free b)
     \<and> (\<forall>e\<in>set (free b). szf e = Some (sizes ! b))))"

definition block_ok :: "bytes \<Rightarrow> (nat \<rightharpoonup> nat) \<Rightarrow> (nat \<Rightarrow> nat list) \<Rightarrow> nat \<Rightarrow> nat \<Rightarrow> nat \<Rightarrow> bool" where
  "block_ok m szf free p e n = ((\<exists>s. szf e = Some s \<and> e + 32 \<le> p \<and> p + n \<le> e + s) \<and> ld m (p - 16) = e
     \<and> ld m (p - 8) = LOTTO_MEMPOOL_CANARY \<and> (\<forall>b<NSTACKS. e \<notin> set (free b)))"

definition live_ok :: "bytes \<Rightarrow> (nat \<rightharpoonup> nat) \<Rightarrow> (nat \<Rightarrow> nat list) \<Rightarrow> (nat \<rightharpoonup> nat \<times> nat) \<Rightarrow> bool" where
  "live_ok m szf free live = ((\<forall>p e n. live p = Some (e, n) \<longrightarrow> block_ok m szf free p e n)
     \<and> (\<forall>p e n p' n'. live p = Some (e, n) \<and> live p' = Some (e, n') \<longrightarrow> p = p') \<and> finite (dom live))"

definition core :: "bytes \<Rightarrow> nat \<Rightarrow> nat \<Rightarrow> nat list \<Rightarrow> (nat \<rightharpoonup> nat) \<Rightarrow> (nat \<Rightarrow> nat list) \<Rightarrow> (nat \<rightharpoonup> nat \<times> nat) \<Rightarrow> bool" where
  "core m lo hi stack szf free live = (entries_ok m lo hi szf \<and> stacks_ok m stack szf free \<and> live_ok m szf free live)"

definition used_bytes :: "(nat \<rightharpoonup> nat) \<Rightarrow> (nat \<rightharpoonup> nat \<times> nat) \<Rightarrow> nat" where
  "used_bytes szf live = (\<Sum>p\<in>dom live. the (szf (fst (the (live p)))))"

definition mp_rep :: "lotto_mempool \<Rightarrow> mp_ghost \<Rightarrow> bool" where
  "mp_rep mp g = (0 < pool_memory mp \<and> pool_next mp \<le> pool_capacity mp \<and> pool_memory mp + pool_capacity mp < 2 ^ 64
     \<and> core (mp_mem mp) (pool_memory mp) (pool_memory mp + pool_next mp) (mp_stack mp) (gh_size g) (gh_free g) (gh_live g)
     \<and> mp_allocated mp = of_nat (used_bytes (gh_size g) (gh_live g)))"

text \<open>A change of the bytes of one entry leaves what is known about the others alone.\<close>

definition apart :: "(nat \<rightharpoonup> nat) \<Rightarrow> nat \<Rightarrow> nat \<Rightarrow> bool" where
  "apart szf lo hi = (\<forall>e s. szf e = Some s \<and> e \<noteq> lo \<longrightarrow> e + s \<le> lo \<or> hi \<le> e)"

lemma entries_ok_frame:
  assumes "entries_ok m lo hi szf" and "same_outside e (e + s) m m'" and "apart szf e (e + s)"
    and "szf e \<noteq> None \<Longrightarrow> ld m' (e + 8) = ld m (e + 8)"
  shows "entries_ok m' lo hi szf"
proof -
  have "ld m' (x + 8) = t" if x: "szf x = Some t" for x t
  proof (cases "x = e")
    case True
    then show ?thesis using assms(1,4) x by (auto simp: entries_ok_def)
  next
    case False
    have "t \<in> set sizes" and l: "ld m (x + 8) = t" using assms(1) x by (auto simp: entries_ok_def)
    then have "x + 8 + 8 \<le> e \<or> e + s \<le> x + 8"
      using assms(3) x False sizes_bounds by (fastforce simp: apart_def)
    then show ?thesis using ld_same_outside [OF assms(2)] l by simp
  qed
  then show ?thesis using assms(1) by (simp add: entries_ok_def)
qed

lemma chain_frame:
  assumes "chain m x ys" and "\<And>y. y \<in> set ys \<Longrightarrow> ld m' y = ld m y"
  shows "chain m' x ys"
  using assms by (induction ys arbitrary: x) auto

lemma chain_apart:
  assumes "chain m x ys" and "same_outside e (e + s) m m'" and "apart szf e (e + s)" and "e \<notin> set ys"
    and "\<forall>y\<in>set ys. szf y = Some t" and "t \<in> set sizes"
  shows "chain m' x ys"
proof (rule chain_frame [OF assms(1)])
  fix y assume y: "y \<in> set ys"
  then have "y + t \<le> e \<or> e + s \<le> y" using assms(3,4,5) by (auto simp: apart_def)
  then have "y + 8 \<le> e \<or> e + s \<le> y" using sizes_bounds [OF assms(6)] by auto
  then show "ld m' y = ld m y" by (rule ld_same_outside [OF assms(2)])
qed

lemma block_ok_frame:
  assumes b: "block_ok m szf free p x n" and "same_outside e (e + s) m m'" and "apart szf e (e + s)" and "x \<noteq> e"
  shows "block_ok m' szf free p x n"
proof -
  obtain t where t: "szf x = Some t" "x + 32 \<le> p" "p + n \<le> x + t" using b unfolding block_ok_def by blast
  then have "x + t \<le> e \<or> e + s \<le> x" using assms(3,4) by (auto simp: apart_def)
  then have "p - 16 + 8 \<le> e \<or> e + s \<le> p - 16" "p - 8 + 8 \<le> e \<or> e + s \<le> p - 8" using t by auto
  then have "ld m' (p - 16) = ld m (p - 16)" "ld m' (p - 8) = ld m (p - 8)"
    using ld_same_outside [OF assms(2)] by blast+
  then show ?thesis using b by (simp add: block_ok_def)
qed

lemma live_ok_frame:
  assumes l: "live_ok m szf free live" and "same_outside e (e + s) m m'" and "apart szf e (e + s)"
    and e: "\<And>p n. live p \<noteq> Some (e, n)"
  shows "live_ok m' szf free live"
proof -
  have "block_ok m' szf free p x n" if p: "live p = Some (x, n)" for p x n
  proof (rule block_ok_frame [OF _ assms(2,3)])
    show "block_ok m szf free p x n" using l p by (simp add: live_ok_def)
    show "x \<noteq> e" using e p by blast
  qed
  then show ?thesis using l by (simp add: live_ok_def)
qed


text \<open>An entry that is neither on a stack nor in use.\<close>

definition loose :: "(nat \<Rightarrow> nat list) \<Rightarrow> (nat \<rightharpoonup> nat \<times> nat) \<Rightarrow> nat \<Rightarrow> bool" where
  "loose free live e = ((\<forall>b<NSTACKS. e \<notin> set (free b)) \<and> (\<forall>p n. live p \<noteq> Some (e, n)))"

lemma entries_apart: "entries_ok m lo hi szf \<Longrightarrow> szf e = Some s \<Longrightarrow> apart szf e (e + s)"
  unfolding entries_ok_def apart_def by blast

lemma stacks_ok_frame:
  assumes "stacks_ok m stack szf free" and "same_outside e (e + s) m m'" and "apart szf e (e + s)"
    and "\<forall>b<NSTACKS. e \<notin> set (free b)"
  shows "stacks_ok m' stack szf free"
proof -
  have "chain m' (stack ! b) (free b)" if b: "b < NSTACKS" for b
    by (rule chain_apart [OF _ assms(2,3), where t = "sizes ! b"])
       (use assms(1,4) b nth_mem [of b sizes] in \<open>auto simp: stacks_ok_def\<close>)
  then show ?thesis using assms(1) by (simp add: stacks_ok_def)
qed

lemma core_frame:
  assumes "core m lo hi stack szf free live" and "same_outside e (e + s) m m'" and "szf e = Some s" and "loose free live e"
    and "ld m' (e + 8) = ld m (e + 8)"
  shows "core m' lo hi stack szf free live"
proof -
  have ap: "apart szf e (e + s)" using assms(1,3) entries_apart by (auto simp: core_def)
  show ?thesis
    using assms entries_ok_frame [OF _ assms(2) ap] stacks_ok_frame [OF _ assms(2) ap] live_ok_frame [OF _ assms(2) ap]
    by (simp add: core_def loose_def)
qed

text \<open>Handing out a loose entry: the pointer back to the entry is written in front of the block.\<close>

lemma hand_out:
  assumes c: "core m lo hi stack szf free live" and e: "szf e = Some s" "loose free live e" "e < 2 ^ 64"
    and p: "e + 32 \<le> p" "p + n \<le> e + s"
  shows "core (st (st m (p - 16) e) (p - 8) LOTTO_MEMPOOL_CANARY) lo hi stack szf free (live(p \<mapsto> (e, n)))"
    and "p \<notin> dom live" and "same_outside e (e + s) m (st (st m (p - 16) e) (p - 8) LOTTO_MEMPOOL_CANARY)"
    and "used_bytes szf (live(p \<mapsto> (e, n))) = used_bytes szf live + s"
proof -
  let ?m = "st (st m (p - 16) e) (p - 8) LOTTO_MEMPOOL_CANARY"
  show so: "same_outside e (e + s) m ?m" using p by (intro same_outside_st) auto
  have l8: "ld ?m (e + 8) = ld m (e + 8)"  using p by (simp add: ld_st_below)
  have c': "core ?m lo hi stack szf free live" by (rule core_frame [OF c so e(1,2) l8])
  then have l: "live_ok ?m szf free live" by (simp add: core_def)
  show nd: "p \<notin> dom live"
  proof
    assume "p \<in> dom live"
    then obtain e' n' where pe: "live p = Some (e', n')" by auto
    then obtain s' where s': "szf e' = Some s'" "e' + 32 \<le> p" "p + n' \<le> e' + s'"
      using l unfolding live_ok_def block_ok_def by blast
    have "e' \<noteq> e" using e(2) pe by (auto simp: loose_def)
    then have "e + s \<le> e' \<or> e' + s' \<le> e" using c e(1) s'(1) by (auto simp: core_def entries_ok_def)
    then show False using p s' by auto
  qed
  have "block_ok ?m szf free p e n"
    using e p by (auto simp: block_ok_def loose_def ld_st_other LOTTO_MEMPOOL_CANARY_def)
  then have "live_ok ?m szf free (live(p \<mapsto> (e, n)))" using l e(2) unfolding live_ok_def loose_def by auto
  then show "core ?m lo hi stack szf free (live(p \<mapsto> (e, n)))" using c' by (simp add: core_def)
  have "finite (dom live)" using l by (simp add: live_ok_def)
  moreover have "(\<Sum>q\<in>dom live. the (szf (fst (the ((live(p \<mapsto> (e, n))) q))))) = used_bytes szf live"
    unfolding used_bytes_def using nd by (intro sum.cong) auto
  ultimately show "used_bytes szf (live(p \<mapsto> (e, n))) = used_bytes szf live + s"
    using nd e(1) by (simp add: used_bytes_def)
qed

text \<open>Taking a block out of use leaves its entry loose.\<close>

lemma take_back:
  assumes c: "core m lo hi stack szf free live" and p: "live p = Some (e, n)" and s: "szf e = Some s"
  shows "core m lo hi stack szf free (live(p := None))" and "loose free (live(p := None)) e"
    and "used_bytes szf live = used_bytes szf (live(p := None)) + s"
proof -
  have l: "live_ok m szf free live" using c by (simp add: core_def)
  then show "core m lo hi stack szf free (live(p := None))" using c by (auto simp: core_def live_ok_def)
  show "loose free (live(p := None)) e" using l p unfolding loose_def live_ok_def block_ok_def by auto
  have "finite (dom live)" using l by (simp add: live_ok_def)
  moreover have "p \<in> dom live" using p by auto
  moreover have "(\<Sum>q\<in>dom live - {p}. the (szf (fst (the ((live(p := None)) q)))))
      = (\<Sum>q\<in>dom live - {p}. the (szf (fst (the (live q)))))" by (intro sum.cong) auto
  ultimately show "used_bytes szf live = used_bytes szf (live(p := None)) + s"
    unfolding used_bytes_def using p s by (simp add: sum.remove)
qed


lemma block_ok_less_free:
  "block_ok m szf free p e n \<Longrightarrow> (\<And>c. set (free' c) \<subseteq> set (free c)) \<Longrightarrow> block_ok m szf free' p e n"
  unfolding block_ok_def by blast

lemma free_bucket:
  assumes "stacks_ok m stack szf free" and "b < NSTACKS" "b' < NSTACKS" and "e \<in> set (free b)" "e \<in> set (free b')"
  shows "b = b'"
proof -
  have "sizes ! b = sizes ! b'" using assms unfolding stacks_ok_def by (metis option.inject)
  then show ?thesis using sizes_distinct assms(2,3) by (simp add: nth_eq_iff_index_eq)
qed

lemma pop_entry:
  assumes c: "core m lo hi stack szf free live" and b: "b < NSTACKS" "free b = e # ys"
  shows "core (st m e 0) lo hi (stack[b := ld m e]) szf (free(b := ys)) live" and "loose (free(b := ys)) live e"
    and "szf e = Some (sizes ! b)"
proof -
  have s: "stacks_ok m stack szf free" and l: "live_ok m szf free live" using c by (simp_all add: core_def)
  show se: "szf e = Some (sizes ! b)" using s b by (simp add: stacks_ok_def)
  have "e \<notin> set ys" using s b unfolding stacks_ok_def by (metis distinct.simps(2))
  moreover have "b' = b" if "b' < NSTACKS" "e \<in> set (free b')" for b'
    using free_bucket [OF s that(1) b(1) that(2)] b(2) by simp
  moreover have "live p \<noteq> Some (e, n)" for p n using l b unfolding live_ok_def block_ok_def by fastforce
  ultimately show lo: "loose (free(b := ys)) live e" unfolding loose_def by auto
  have "chain m (ld m e) ys" "distinct ys" using s b unfolding stacks_ok_def by (metis chain.simps(2), metis distinct.simps(2))
  then have "stacks_ok m (stack[b := ld m e]) szf (free(b := ys))"
    using s b by (auto simp: stacks_ok_def nth_list_update)
  moreover have "set ((free(b := ys)) c) \<subseteq> set (free c)" for c using b(2) by auto
  then have "live_ok m szf (free(b := ys)) live"
    using l block_ok_less_free [of m szf free _ _ _ "free(b := ys)"] unfolding live_ok_def by blast
  ultimately have c1: "core m lo hi (stack[b := ld m e]) szf (free(b := ys)) live" using c by (simp add: core_def)
  have "sizes ! b \<in> set sizes" using b by simp
  then have "same_outside e (e + sizes ! b) m (st m e 0)" using sizes_bounds by (intro same_outside_st) fastforce+
  then show "core (st m e 0) lo hi (stack[b := ld m e]) szf (free(b := ys)) live"
    using core_frame [OF c1 _ se lo] by (simp add: ld_st_other)
qed

lemma carve_entry:
  assumes c: "core m lo hi stack szf free live" and s: "s \<in> set sizes" and lo: "lo \<le> hi"
  shows "core (st (st m hi 0) (hi + 8) s) lo (hi + s) stack (szf(hi \<mapsto> s)) free live" and "loose free live hi"
    and "szf hi = None" and "same_outside hi (hi + s) m (st (st m hi 0) (hi + 8) s)"
proof -
  let ?m = "st (st m hi 0) (hi + 8) s"
  have eo: "entries_ok m lo hi szf" and so: "stacks_ok m stack szf free" and l: "live_ok m szf free live"
    using c by (simp_all add: core_def)
  note sb = sizes_bounds [OF s]
  have below: "e + t \<le> hi" "e < hi" if "szf e = Some t" for e t
    using eo that sizes_bounds [of t] unfolding entries_ok_def by fastforce+
  then show no: "szf hi = None" by (metis less_irrefl option.exhaust)
  have "e \<noteq> hi" if "b < NSTACKS" "e \<in> set (free b)" for b e using so that no by (auto simp: stacks_ok_def)
  moreover have "live p \<noteq> Some (hi, n)" for p n using l no unfolding live_ok_def block_ok_def by fastforce
  ultimately show lse: "loose free live hi" by (auto simp: loose_def)
  show sm: "same_outside hi (hi + s) m ?m" using sb by (intro same_outside_st) auto
  have ap: "apart szf hi (hi + s)" using below by (auto simp: apart_def)
  have "entries_ok ?m lo hi szf" using entries_ok_frame [OF eo sm ap] no by simp
  moreover have "ld ?m (hi + 8) = s" using sb by simp
  ultimately have "entries_ok ?m lo (hi + s) (szf(hi \<mapsto> s))"
    using below s lo unfolding entries_ok_def by (auto simp: trans_le_add1)
  moreover have "stacks_ok ?m stack (szf(hi \<mapsto> s)) free"
    using stacks_ok_frame [OF so sm ap] lse no unfolding stacks_ok_def loose_def by auto
  moreover have "live_ok ?m (szf(hi \<mapsto> s)) free live"
    using live_ok_frame [OF l sm ap] lse no unfolding live_ok_def loose_def block_ok_def by auto
  ultimately show "core ?m lo (hi + s) stack (szf(hi \<mapsto> s)) free live" by (simp add: core_def)
qed

lemma push_entry:
  assumes c: "core m lo hi stack szf free live" and b: "b < NSTACKS" and e: "szf e = Some (sizes ! b)" "e \<noteq> 0"
    and lse: "loose free live e" and hi: "hi < 2 ^ 64"
  shows "core (st m e (stack ! b)) lo hi (stack[b := e]) szf (free(b := e # free b)) live"
proof -
  have so: "stacks_ok m stack szf free" and eo: "entries_ok m lo hi szf" using c by (simp_all add: core_def)
  have ch: "chain m (stack ! b) (free b)" using so b by (simp add: stacks_ok_def)
  have "stack ! b < 2 ^ 64"
  proof (cases "free b")
    case (Cons y ys)
    then have "stack ! b = y" "szf y = Some (sizes ! b)" using ch so b by (auto simp: stacks_ok_def)
    then have "stack ! b \<le> hi" using eo unfolding entries_ok_def by fastforce
    then show ?thesis using hi by simp
  qed (use ch in simp)
  then have ldst: "ld (st m e (stack ! b)) e = stack ! b" by (rule ld_st)
  have "sizes ! b \<in> set sizes" using b by simp
  then have "same_outside e (e + sizes ! b) m (st m e (stack ! b))" using sizes_bounds by (intro same_outside_st) fastforce+
  then have c1: "core (st m e (stack ! b)) lo hi stack szf free live"
    using core_frame [OF c _ e(1) lse] by (simp add: ld_st_other)
  then have "stacks_ok (st m e (stack ! b)) (stack[b := e]) szf (free(b := e # free b))"
    using b e lse ldst by (auto simp: core_def stacks_ok_def loose_def nth_list_update)
  moreover have "live_ok (st m e (stack ! b)) szf (free(b := e # free b)) live"
    using c1 lse unfolding core_def live_ok_def block_ok_def loose_def by auto
  ultimately show ?thesis using c1 by (simp add: core_def)
qed


section \<open>What the operations do\<close>

text \<open>The blocks in use, without the entries behind them.\<close>

definition mp_inv :: "lotto_mempool \<Rightarrow> (nat \<rightharpoonup> nat) \<Rightarrow> bool" where
  "mp_inv mp live = (\<exists>g. mp_rep mp g \<and> live = (\<lambda>p. map_option snd (gh_live g p)))"

text \<open>The bytes of the blocks in use stay the same.\<close>

definition keeps_blocks :: "(nat \<rightharpoonup> nat) \<Rightarrow> bytes \<Rightarrow> bytes \<Rightarrow> bool" where
  "keeps_blocks live m m' = (\<forall>p n x. live p = Some n \<and> p \<le> x \<and> x < p + n \<longrightarrow> m' x = m x)"

lemma loose_keeps_blocks:
  assumes c: "core m lo hi stack szf free live" and so: "same_outside e (e + s) m m'" and ap: "apart szf e (e + s)"
    and e: "\<And>p n. live p \<noteq> Some (e, n)"
  shows "keeps_blocks (\<lambda>p. map_option snd (live p)) m m'"
  unfolding keeps_blocks_def
proof (intro allI impI)
  fix p n x
  assume a: "map_option snd (live p) = Some n \<and> p \<le> x \<and> x < p + n"
  then obtain e' where pe: "live p = Some (e', n)" by auto
  then obtain t where t: "szf e' = Some t" "e' + 32 \<le> p" "p + n \<le> e' + t"
    using c unfolding core_def live_ok_def block_ok_def by blast
  have "e' \<noteq> e" using e pe by blast
  then have "e' + t \<le> e \<or> e + s \<le> e'" using ap t(1) by (auto simp: apart_def)
  then show "m' x = m x" using same_outsideD [OF so] a t by auto
qed

definition alloc_ghost :: "nat \<Rightarrow> nat \<Rightarrow> nat \<Rightarrow> mp_ghost \<Rightarrow> mp_ghost \<Rightarrow> bool" where
  "alloc_ghost p e n g g' = (\<exists>s. gh_size g' e = Some s \<and> n + 32 \<le> s \<and> p = e + 32 \<and> gh_live g' = (gh_live g)(p \<mapsto> (e, n))
     \<and> p \<notin> dom (gh_live g) \<and> (\<forall>x t. gh_size g x = Some t \<longrightarrow> gh_size g' x = Some t)
     \<and> (\<forall>t\<in>set sizes. n + 32 \<le> t \<longrightarrow> s \<le> t))"

lemma alloc_finish:
  assumes c: "core m lo hi stack szf free live" and e: "szf e = Some s" "loose free live e" "hi < 2 ^ 64" and n: "n + 32 \<le> s"
  defines "m' \<equiv> st (st m (e + 32 - 16) e) (e + 32 - 8) LOTTO_MEMPOOL_CANARY"
  shows "core m' lo hi stack szf free (live(e + 32 \<mapsto> (e, n)))" and "e + 32 \<notin> dom live"
    and "same_outside e (e + s) m m'" and "used_bytes szf (live(e + 32 \<mapsto> (e, n))) = used_bytes szf live + s"
proof -
  have "e \<le> hi" using c e(1) unfolding core_def entries_ok_def by fastforce
  then have "e < 2 ^ 64" using e(3) by simp
  note h = hand_out [OF c e(1,2) this, of "e + 32" n]
  show "core m' lo hi stack szf free (live(e + 32 \<mapsto> (e, n)))" "e + 32 \<notin> dom live" "same_outside e (e + s) m m'"
    "used_bytes szf (live(e + 32 \<mapsto> (e, n))) = used_bytes szf live + s" unfolding m'_def using h n by simp_all
qed

lemma same_outside_trans: "same_outside lo hi m m' \<Longrightarrow> same_outside lo hi m' m'' \<Longrightarrow> same_outside lo hi m m''"
  by (simp add: same_outside_def)

lemma alloc_cases:
  assumes n: "n + METADATA_SIZE < 2 ^ 64" and a: "lotto_mempool_alloc mp n = Inr (p, mp')"
  obtains (pop) s e where "sizes_at (bucketize (n + 32)) = Inr s" and "e = mp_stack mp ! bucketize (n + 32)" and "e \<noteq> 0"
      and "p = e + 32"
      and "mp' = mp\<lparr>mp_stack := (mp_stack mp)[bucketize (n + 32) := ld (mp_mem mp) e],
         mp_mem := st (st (st (mp_mem mp) e 0) (e + 32 - 16) e) (e + 32 - 8) LOTTO_MEMPOOL_CANARY,
         mp_allocated := mp_allocated mp + of_nat s\<rparr>"
    | (carve) s e where "sizes_at (bucketize (n + 32)) = Inr s" and "e = pool_memory mp + pool_next mp"
      and "mp_stack mp ! bucketize (n + 32) = 0" and "pool_next mp + s \<le> pool_capacity mp" and "p = e + 32"
      and "mp' = mp\<lparr>mp_mem := st (st (st (st (mp_mem mp) e 0) (e + 8) s) (e + 32 - 16) e) (e + 32 - 8) LOTTO_MEMPOOL_CANARY,
         pool_next := pool_next mp + s, mp_allocated := mp_allocated mp + of_nat s\<rparr>"
proof -
  have sz: "(n + METADATA_SIZE) mod 2 ^ 64 = n + 32" using n by (simp add: METADATA_SIZE_def)
  have md: "METADATA_SIZE = 32" by (simp add: METADATA_SIZE_def)
  obtain s where s: "sizes_at (bucketize (n + 32)) = Inr s"
    and k: "(let top = mp_stack mp ! bucketize (n + 32) in
        if top \<noteq> 0 then
          let mp = mp\<lparr>mp_stack := (mp_stack mp)[bucketize (n + 32) := ld (mp_mem mp) top],
                      mp_mem := st (mp_mem mp) top 0, mp_allocated := mp_allocated mp + of_nat s\<rparr>;
              ret = top + 32
          in Inr (ret, set_entry_ptr ret top mp)
        else
          assertr (pool_capacity mp \<ge> pool_next mp + s)
            (let e = pool_memory mp + pool_next mp;
                 mp = mp\<lparr>mp_mem := st (st (mp_mem mp) e 0) (e + 8) s, pool_next := pool_next mp + s,
                         mp_allocated := mp_allocated mp + of_nat s\<rparr>;
                 ret = e + 32
             in Inr (ret, set_entry_ptr ret e mp))) = Inr (p, mp')"
    using a unfolding lotto_mempool_alloc_def sz unfolding Let_def md bindr_eq_Inr by blast
  show thesis
  proof (cases "mp_stack mp ! bucketize (n + 32) = 0")
    case False
    show thesis using k False by (intro pop [OF s refl False]) (auto simp: Let_def set_entry_ptr_def)
  next
    case True
    then have "pool_next mp + s \<le> pool_capacity mp" using k by (simp add: assertr_eq_Inr)
    then show thesis using k True by (intro carve [OF s refl True]) (auto simp: Let_def set_entry_ptr_def)
  qed
qed

lemma alloc_spec:
  assumes r: "mp_rep mp g" and n: "n + METADATA_SIZE < 2 ^ 64" and a: "lotto_mempool_alloc mp n = Inr (p, mp')"
  shows "\<exists>g' e. mp_rep mp' g' \<and> alloc_ghost p e n g g'
    \<and> keeps_blocks (\<lambda>p. map_option snd (gh_live g p)) (mp_mem mp) (mp_mem mp')
    \<and> pool_memory mp' = pool_memory mp \<and> pool_capacity mp' = pool_capacity mp"
proof -
  let ?b = "bucketize (n + 32)" and ?lo = "pool_memory mp" and ?hi = "pool_memory mp + pool_next mp" and ?L = "gh_live g"
  have c: "core (mp_mem mp) ?lo ?hi (mp_stack mp) (gh_size g) (gh_free g) ?L"
    and al: "mp_allocated mp = of_nat (used_bytes (gh_size g) ?L)"
    and cap: "pool_next mp \<le> pool_capacity mp" "?lo + pool_capacity mp < 2 ^ 64" "0 < ?lo"
    using r by (auto simp: mp_rep_def)
  from n a show ?thesis
  proof (cases rule: alloc_cases)
    case (pop s e)
    note si = sizes_at_Inr [OF pop(1)]
    have ch: "chain (mp_mem mp) e (gh_free g ?b)" using c si(1) pop(2) by (simp add: core_def stacks_ok_def)
    then obtain ys where ys: "gh_free g ?b = e # ys" using pop(3) by (cases "gh_free g ?b") auto
    note pe = pop_entry [OF c si(1) ys]
    have se: "gh_size g e = Some s" using pe(3) si(2) by simp
    have hi: "?hi < 2 ^ 64" using cap by simp
    note fin = alloc_finish [OF pe(1) se pe(2) hi si(4)]
    let ?g = "\<lparr>gh_size = gh_size g, gh_free = (gh_free g)(?b := ys), gh_live = ?L(p \<mapsto> (e, n))\<rparr>"
    have "mp_rep mp' ?g" using fin(1,4) cap al unfolding mp_rep_def pop by simp
    moreover have "alloc_ghost p e n g ?g" using se si(4,5) fin(2) pop(4) by (auto simp: alloc_ghost_def)
    moreover have "keeps_blocks (\<lambda>p. map_option snd (?L p)) (mp_mem mp) (mp_mem mp')"
    proof (rule loose_keeps_blocks [OF c])
      have "same_outside e (e + s) (mp_mem mp) (st (mp_mem mp) e 0)"
        using sizes_bounds [OF si(3)] by (intro same_outside_st) auto
      from same_outside_trans [OF this fin(3)]
      show "same_outside e (e + s) (mp_mem mp) (mp_mem mp')" unfolding pop(5) by simp
      show "apart (gh_size g) e (e + s)" using c se entries_apart by (auto simp: core_def)
      show "?L q \<noteq> Some (e, k)" for q k using pe(2) by (auto simp: loose_def)
    qed
    ultimately show ?thesis unfolding pop by auto
  next
    case (carve s e)
    note si = sizes_at_Inr [OF carve(1)]
    note ce = carve_entry [OF c si(3) le_add1]
    have hi: "?hi + s < 2 ^ 64" using cap carve(4) by simp
    note fin = alloc_finish [OF ce(1) _ ce(2) hi si(4), simplified]
    let ?g = "\<lparr>gh_size = (gh_size g)(e \<mapsto> s), gh_free = gh_free g, gh_live = ?L(p \<mapsto> (e, n))\<rparr>"
    have u: "used_bytes ((gh_size g)(e \<mapsto> s)) ?L = used_bytes (gh_size g) ?L"
      unfolding used_bytes_def using ce(2) carve(2) by (intro sum.cong) (auto simp: loose_def)
    have "mp_rep mp' ?g" using fin(1,4) cap al carve(4) u unfolding mp_rep_def carve by (simp add: add.assoc)
    moreover have "alloc_ghost p e n g ?g" using ce(3) si(4,5) fin(2) carve(2,5) by (auto simp: alloc_ghost_def)
    moreover have "keeps_blocks (\<lambda>p. map_option snd (?L p)) (mp_mem mp) (mp_mem mp')"
    proof (rule loose_keeps_blocks [OF c])
      show "same_outside e (e + s) (mp_mem mp) (mp_mem mp')"
        using same_outside_trans [OF ce(4) fin(3)] unfolding carve by simp
      show "apart (gh_size g) e (e + s)" using c unfolding carve core_def entries_ok_def apart_def by fastforce
      show "?L q \<noteq> Some (e, k)" for q k using ce(2) carve(2) by (auto simp: loose_def)
    qed
    ultimately show ?thesis unfolding carve by auto
  qed
qed


text \<open>The facts about a block in use.\<close>

lemma live_block:
  assumes "mp_rep mp g" and "gh_live g p = Some (e, n)"
  obtains s where "gh_size g e = Some s" and "s \<in> set sizes" and "e + 32 \<le> p" and "p + n \<le> e + s"
    and "pool_memory mp \<le> e" and "e + s \<le> pool_memory mp + pool_next mp" and "ld (mp_mem mp) (e + 8) = s"
    and "GET_ENTRY_PTR mp p = e" and "GET_CANARY mp p = LOTTO_MEMPOOL_CANARY"
proof -
  have c: "core (mp_mem mp) (pool_memory mp) (pool_memory mp + pool_next mp) (mp_stack mp) (gh_size g) (gh_free g) (gh_live g)"
    using assms(1) by (simp add: mp_rep_def)
  then have "block_ok (mp_mem mp) (gh_size g) (gh_free g) p e n" using assms(2) by (simp add: core_def live_ok_def)
  then obtain s where s: "gh_size g e = Some s" "e + 32 \<le> p" "p + n \<le> e + s" "GET_ENTRY_PTR mp p = e"
    "GET_CANARY mp p = LOTTO_MEMPOOL_CANARY" by (auto simp: block_ok_def GET_ENTRY_PTR_def GET_CANARY_def)
  moreover have "pool_memory mp \<le> e \<and> e + s \<le> pool_memory mp + pool_next mp \<and> s \<in> set sizes \<and> ld (mp_mem mp) (e + 8) = s"
    using c s(1) by (simp add: core_def entries_ok_def)
  ultimately show thesis using that by blast
qed

lemma free_spec:
  assumes r: "mp_rep mp g" and l: "gh_live g p = Some (e, n)" and ip: "IN_POOL mp p"
  obtains mp' g' where "lotto_mempool_free mp p = Inr mp'" and "mp_rep mp' g'" and "gh_live g' = (gh_live g)(p := None)"
    and "keeps_blocks (\<lambda>p. map_option snd (gh_live g p)) (mp_mem mp) (mp_mem mp')"
    and "pool_memory mp' = pool_memory mp" and "pool_capacity mp' = pool_capacity mp"
proof -
  obtain s where s: "gh_size g e = Some s" "s \<in> set sizes" "e + 32 \<le> p" "p + n \<le> e + s"
    "pool_memory mp \<le> e" "e + s \<le> pool_memory mp + pool_next mp" "ld (mp_mem mp) (e + 8) = s"
    "GET_ENTRY_PTR mp p = e" "GET_CANARY mp p = LOTTO_MEMPOOL_CANARY" by (rule live_block [OF r l])
  let ?b = "bucketize s" and ?lo = "pool_memory mp" and ?hi = "pool_memory mp + pool_next mp" and ?L = "gh_live g"
  have c: "core (mp_mem mp) ?lo ?hi (mp_stack mp) (gh_size g) (gh_free g) ?L"
    and al: "mp_allocated mp = of_nat (used_bytes (gh_size g) ?L)"
    and cap: "pool_next mp \<le> pool_capacity mp" "?lo + pool_capacity mp < 2 ^ 64" "0 < ?lo"
    using r by (auto simp: mp_rep_def)
  note sa = bucketize_size [OF s(2)]
  note si = sizes_at_Inr [OF sa]
  note tb = take_back [OF c l s(1)]
  have e: "gh_size g e = Some (sizes ! ?b)" "e \<noteq> 0" "?hi < 2 ^ 64" using s si(2) cap by auto
  note pu = push_entry [OF tb(1) si(1) e(1,2) tb(2) e(3)]
  let ?mp = "mp\<lparr>mp_allocated := mp_allocated mp - of_nat s, mp_mem := st (mp_mem mp) e (mp_stack mp ! ?b),
      mp_stack := (mp_stack mp)[?b := e]\<rparr>"
  let ?g = "\<lparr>gh_size = gh_size g, gh_free = (gh_free g)(?b := e # gh_free g ?b), gh_live = ?L(p := None)\<rparr>"
  have "lotto_mempool_free mp p = Inr ?mp"
    using s sa ip by (simp add: lotto_mempool_free_def Let_def)
  moreover have "mp_rep ?mp ?g" using pu cap al tb(3) unfolding mp_rep_def by simp
  moreover have "keeps_blocks (\<lambda>p. map_option snd (?L p)) (mp_mem mp) (mp_mem ?mp)"
  proof -
    have so: "same_outside e (e + 8) (mp_mem mp) (mp_mem ?mp)" by (simp add: same_outside_st)
    have "x < e \<or> e + 8 \<le> x" if q: "?L q = Some (e', k)" "q \<le> x" "x < q + k" for q e' k x
    proof -
      obtain t where t: "gh_size g e' = Some t" "e' + 32 \<le> q" "q + k \<le> e' + t" by (rule live_block [OF r q(1)])
      have "e' = e \<or> e + s \<le> e' \<or> e' + t \<le> e" using c s(1) t(1) unfolding core_def entries_ok_def by blast
      then show ?thesis using t q sizes_bounds [OF s(2)] by auto
    qed
    then show ?thesis using same_outsideD [OF so] by (auto simp: keeps_blocks_def)
  qed
  ultimately show thesis using that [of ?mp ?g] by simp
qed

text \<open>Bytes behind the pointer of a block may change.\<close>

lemma core_user:
  assumes c: "core m lo hi stack szf free live" and l: "live p = Some (e, n)" and s: "szf e = Some s"
    and so: "same_outside p (e + s) m m'"
  shows "core m' lo hi stack szf free live"
proof -
  have eo: "entries_ok m lo hi szf" and st: "stacks_ok m stack szf free" and lo: "live_ok m szf free live"
    using c by (simp_all add: core_def)
  have b: "block_ok m szf free p e n" using lo l by (simp add: live_ok_def)
  then have ep: "e + 32 \<le> p" and nf: "\<forall>b<NSTACKS. e \<notin> set (free b)" by (auto simp: block_ok_def)
  have soe: "same_outside e (e + s) m m'" using so ep by (auto simp: same_outside_def)
  have ap: "apart szf e (e + s)" by (rule entries_apart [OF eo s])
  have "ld m' (e + 8) = ld m (e + 8)" using ep by (intro ld_same_outside [OF so]) simp
  then have "entries_ok m' lo hi szf" using entries_ok_frame [OF eo soe ap] by blast
  moreover have "stacks_ok m' stack szf free" by (rule stacks_ok_frame [OF st soe ap nf])
  moreover have "block_ok m' szf free q e' k" if q: "live q = Some (e', k)" for q e' k
  proof (cases "e' = e")
    case True
    then have [simp]: "q = p" using lo l q unfolding live_ok_def by blast
    have "k = n" using l q by simp
    moreover have "ld m' (p - 16) = ld m (p - 16)" using ep by (intro ld_same_outside [OF so]) simp
    moreover have "ld m' (p - 8) = ld m (p - 8)" using ep by (intro ld_same_outside [OF so]) simp
    ultimately show ?thesis using b True by (simp add: block_ok_def)
  next
    case False
    have "block_ok m szf free q e' k" using lo q by (simp add: live_ok_def)
    then show ?thesis by (rule block_ok_frame [OF _ soe ap False])
  qed
  ultimately show ?thesis using lo by (simp add: core_def live_ok_def)
qed

end
