(* ===== verification/Mempool_Safety.thy ===== *)
theory Mempool_Safety
  imports Mempool
begin

text \<open>
  Safety of the memory pool: aligned allocation and reallocation on top of the lemmas about allocation and release,
  then runs of a program that uses the pool and writes into its own blocks. The blocks in use never overlap, lie
  inside the pool, and keep their contents until their owner writes to them. The theory ends with the inputs on which
  the pool misbehaves.
\<close>

lemma resize_block:
  assumes r: "mp_rep mp g" and l: "gh_live g p = Some (e, n)" and s: "gh_size g e = Some s" "p + k \<le> e + s"
  shows "mp_rep mp (g\<lparr>gh_live := (gh_live g)(p \<mapsto> (e, k))\<rparr>)"
proof -
  have lo: "live_ok (mp_mem mp) (gh_size g) (gh_free g) (gh_live g)" using r by (simp add: mp_rep_def core_def)
  then have "block_ok (mp_mem mp) (gh_size g) (gh_free g) p e n" using l by (simp add: live_ok_def)
  then have "block_ok (mp_mem mp) (gh_size g) (gh_free g) p e k" using s by (auto simp: block_ok_def)
  then have "live_ok (mp_mem mp) (gh_size g) (gh_free g) ((gh_live g)(p \<mapsto> (e, k)))"
    using lo l unfolding live_ok_def by (auto split: if_splits)
  moreover have "used_bytes (gh_size g) ((gh_live g)(p \<mapsto> (e, k))) = used_bytes (gh_size g) (gh_live g)"
  proof -
    have "dom ((gh_live g)(p \<mapsto> (e, k))) = dom (gh_live g)" using l by auto
    then show ?thesis unfolding used_bytes_def using l by (intro sum.cong) auto
  qed
  ultimately show ?thesis using r by (simp add: mp_rep_def core_def)
qed

definition mp_blocks :: "mp_ghost \<Rightarrow> nat \<rightharpoonup> nat" where
  "mp_blocks g = (\<lambda>p. map_option snd (gh_live g p))"

lemma mp_inv_blocks: "mp_rep mp g \<Longrightarrow> mp_inv mp (mp_blocks g)"
  by (auto simp: mp_inv_def mp_blocks_def)

lemma blocks_upd:
  "gh_live g' = (gh_live g)(p \<mapsto> (e, n)) \<Longrightarrow> mp_blocks g' = (mp_blocks g)(p \<mapsto> n)"
  "gh_live g' = (gh_live g)(p := None) \<Longrightarrow> mp_blocks g' = (mp_blocks g)(p := None)"
  by (auto simp: mp_blocks_def)

lemma keeps_blocks_trans:
  "keeps_blocks L m m' \<Longrightarrow> keeps_blocks L m' m'' \<Longrightarrow> keeps_blocks L m m''"
  by (simp add: keeps_blocks_def)

lemma alloc_inv:
  assumes "mp_inv mp L" and "n + METADATA_SIZE < 2 ^ 64" and "lotto_mempool_alloc mp n = Inr (p, mp')"
  shows "mp_inv mp' (L(p \<mapsto> n)) \<and> p \<notin> dom L \<and> keeps_blocks L (mp_mem mp) (mp_mem mp')"
proof -
  obtain g where g: "mp_rep mp g" "L = mp_blocks g" using assms(1) by (auto simp: mp_inv_def mp_blocks_def)
  obtain g' e where "mp_rep mp' g'" "alloc_ghost p e n g g'" "keeps_blocks (mp_blocks g) (mp_mem mp) (mp_mem mp')"
    using alloc_spec [OF g(1) assms(2,3)] unfolding mp_blocks_def by blast
  moreover from this have "mp_blocks g' = L(p \<mapsto> n)" "p \<notin> dom L"
    using blocks_upd(1) [of g' g p e n] g(2) by (auto simp: alloc_ghost_def mp_blocks_def)
  ultimately show ?thesis using mp_inv_blocks [of mp' g'] g(2) by simp
qed

lemma free_inv:
  assumes "mp_inv mp L" and "L p = Some n" and "IN_POOL mp p"
  shows "\<exists>mp'. lotto_mempool_free mp p = Inr mp' \<and> mp_inv mp' (L(p := None)) \<and> keeps_blocks L (mp_mem mp) (mp_mem mp')"
proof -
  obtain g where g: "mp_rep mp g" "L = mp_blocks g" using assms(1) by (auto simp: mp_inv_def mp_blocks_def)
  then obtain e where "gh_live g p = Some (e, n)" using assms(2) by (auto simp: mp_blocks_def)
  from free_spec [OF g(1) this assms(3)] obtain mp' g' where
    f: "lotto_mempool_free mp p = Inr mp'" "mp_rep mp' g'" "gh_live g' = (gh_live g)(p := None)"
    "keeps_blocks (mp_blocks g) (mp_mem mp) (mp_mem mp')" unfolding mp_blocks_def by blast
  have "mp_blocks g' = L(p := None)" using blocks_upd(2) [OF f(3)] g(2) by simp
  then show ?thesis using f g(2) mp_inv_blocks by metis
qed

lemma move_block:
  assumes r: "mp_rep mp g" and l: "gh_live g c = Some (e, n)" and s: "gh_size g e = Some s" and p: "e + 32 \<le> p" "p + k \<le> e + s"
  defines "g' \<equiv> g\<lparr>gh_live := (gh_live g)(c := None, p \<mapsto> (e, k))\<rparr>"
  shows "mp_rep (set_entry_ptr p e mp) g'"
    and "p = c \<or> p \<notin> dom (gh_live g)"
    and "keeps_blocks ((mp_blocks g)(c := None)) (mp_mem mp) (mp_mem (set_entry_ptr p e mp))"
proof -
  let ?hi = "pool_memory mp + pool_next mp"
  have c: "core (mp_mem mp) (pool_memory mp) ?hi (mp_stack mp) (gh_size g) (gh_free g) (gh_live g)"
    and hi: "?hi < 2 ^ 64" using r by (auto simp: mp_rep_def)
  note tb = take_back [OF c l s]
  have "e \<le> ?hi" using c s unfolding core_def entries_ok_def by fastforce
  then have e: "e < 2 ^ 64" using hi by simp
  note h = hand_out [OF tb(1) s tb(2) e p]
  show "mp_rep (set_entry_ptr p e mp) g'"
    using h(1,4) tb(3) r by (simp add: mp_rep_def set_entry_ptr_def g'_def)
  show "p = c \<or> p \<notin> dom (gh_live g)" using h(2) by (auto split: if_splits)
  have ap: "apart (gh_size g) e (e + s)" using c s entries_apart by (auto simp: core_def)
  have "keeps_blocks (\<lambda>p. map_option snd (((gh_live g)(c := None)) p)) (mp_mem mp) (mp_mem (set_entry_ptr p e mp))"
    using loose_keeps_blocks [OF tb(1) h(3) ap] tb(2) by (simp add: set_entry_ptr_def loose_def)
  moreover have "(\<lambda>p. map_option snd (((gh_live g)(c := None)) p)) = (mp_blocks g)(c := None)" by (auto simp: mp_blocks_def)
  ultimately show "keeps_blocks ((mp_blocks g)(c := None)) (mp_mem mp) (mp_mem (set_entry_ptr p e mp))" by simp
qed

lemma aligned_alloc_inv:
  assumes "mp_inv mp L" and sz: "sz + alignment + METADATA_SIZE \<le> 2 ^ 64" and al: "0 < alignment"
    and a: "lotto_mempool_aligned_alloc mp alignment sz = Inr (p, mp')"
  shows "mp_inv mp' (L(p \<mapsto> sz)) \<and> p \<notin> dom L \<and> keeps_blocks L (mp_mem mp) (mp_mem mp') \<and> alignment dvd p"
proof -
  obtain g where g: "mp_rep mp g" "L = mp_blocks g" using assms(1) by (auto simp: mp_inv_def mp_blocks_def)
  let ?n = "sz + alignment - 1"
  have n: "(sz + alignment + (2 ^ 64 - 1)) mod 2 ^ 64 = ?n" "?n + METADATA_SIZE < 2 ^ 64"
  proof -
    have "sz + alignment + (2 ^ 64 - 1) = ?n + 2 ^ 64" using al by simp
    moreover have "?n < 2 ^ 64" using sz al by (simp add: METADATA_SIZE_def)
    ultimately show "(sz + alignment + (2 ^ 64 - 1)) mod 2 ^ 64 = ?n" by (simp only: mod_add_self2 mod_less)
    show "?n + METADATA_SIZE < 2 ^ 64" using sz al by simp
  qed
  obtain c mp1 where c: "lotto_mempool_alloc mp ?n = Inr (c, mp1)"
    and k: "(if c mod alignment = 0 then Inr (c, mp1) else assertr (alignment > LOTTO_MEMPOOL_ALIGNMENT)
      (Inr (c + alignment - c mod alignment, set_entry_ptr (c + alignment - c mod alignment) (GET_ENTRY_PTR mp1 c) mp1)))
      = Inr (p, mp')"
    using a al unfolding lotto_mempool_aligned_alloc_def n(1) Let_def by (auto simp: bindr_eq_Inr)
  obtain g1 e where g1: "mp_rep mp1 g1" "alloc_ghost c e ?n g g1" "keeps_blocks L (mp_mem mp) (mp_mem mp1)"
    using alloc_spec [OF g(1) n(2) c] g(2) unfolding mp_blocks_def by blast
  then obtain s where s: "gh_size g1 e = Some s" "?n + 32 \<le> s" "c = e + 32" "gh_live g1 = (gh_live g)(c \<mapsto> (e, ?n))"
    "c \<notin> dom (gh_live g)" by (auto simp: alloc_ghost_def)
  have lc: "gh_live g1 c = Some (e, ?n)" using s(4) by simp
  have cn: "gh_live g c = None" using s(5) by (cases "gh_live g c") auto
  then have L1: "(mp_blocks g1)(c := None) = L" using s(4) g(2) by (auto simp: mp_blocks_def)
  show ?thesis
  proof (cases "c mod alignment = 0")
    case True
    then have p: "p = c" "mp' = mp1" using k by auto
    have "c + sz \<le> e + s" using s al by auto
    from resize_block [OF g1(1) lc s(1) this]
    have "mp_inv mp1 (L(c \<mapsto> sz))"
      using mp_inv_blocks blocks_upd(1) [of "g1\<lparr>gh_live := (gh_live g1)(c \<mapsto> (e, sz))\<rparr>" g1 c e sz] L1
      by (metis fun_upd_upd mp_ghost.simps(3) mp_ghost.surjective mp_ghost.update_convs(3))
    then show ?thesis using p g1(3) s(5) g(2) True by (auto simp: mp_blocks_def)
  next
    case False
    let ?p = "c + alignment - c mod alignment"
    have p: "p = ?p" "mp' = set_entry_ptr ?p e mp1"
      using k False lc live_block [OF g1(1) lc] by (auto simp: assertr_eq_Inr)
    have r: "0 < c mod alignment" "c mod alignment < alignment" using False al by auto
    have pe: "e + 32 \<le> ?p" "?p + sz \<le> e + s" using s r by auto
    note mv = move_block [OF g1(1) lc s(1) pe]
    have "gh_live (g1\<lparr>gh_live := (gh_live g1)(c := None, ?p \<mapsto> (e, sz))\<rparr>) = (gh_live g)(?p \<mapsto> (e, sz))"
      using s(4,5) by auto
    from blocks_upd(1) [OF this] have "mp_inv mp' (L(p \<mapsto> sz))" using mp_inv_blocks [OF mv(1)] g(2) p by simp
    moreover have "p \<notin> dom L" using mv(2) s(4) g(2) p r by (auto simp: mp_blocks_def)
    moreover have "keeps_blocks L (mp_mem mp) (mp_mem mp')" using keeps_blocks_trans [OF g1(3)] mv(3) L1 p by simp
    moreover have "alignment dvd p" using r p
      by (metis Nat.add_diff_assoc2 dvd_add_triv_right_iff dvd_minus_mod mod_less_eq_dividend)
    ultimately show ?thesis by blast
  qed
qed


lemma sizes_gap:
  assumes "s \<in> set sizes" and "t \<in> set sizes" and "s < t + 32"
  shows "s \<le> t"
proof -
  have "sorted_wrt (\<lambda>a b. a + 32 \<le> b) sizes" by (simp add: sizes_def)
  moreover obtain i j where "i < length sizes" "s = sizes ! i" "j < length sizes" "t = sizes ! j"
    using assms(1,2) by (metis in_set_conv_nth)
  ultimately show ?thesis using assms(3) unfolding sorted_wrt_iff_nth_less
    by (cases i j rule: linorder_cases) (force dest: spec)+
qed

text \<open>The copy into the new block stays inside its entry, and reaches far enough.\<close>

lemma copy_spec:
  assumes r: "mp_rep mp g" and l: "gh_live g q = Some (e, n)" and s: "gh_size g e = Some s" and k: "q + k \<le> e + s"
    and c: "copy_block mp q p k = Inr mp'"
  shows "mp_rep mp' g" and "keeps_blocks ((mp_blocks g)(q := None)) (mp_mem mp) (mp_mem mp')"
    and "i < k \<Longrightarrow> mp_mem mp' (q + i) = mp_mem mp (p + i)"
    and "pool_memory mp' = pool_memory mp" and "pool_capacity mp' = pool_capacity mp"
proof -
  have mp': "mp' = mp\<lparr>mp_mem := copy_bytes (mp_mem mp) q p k\<rparr>" using c by (simp add: copy_block_def split: if_splits)
  show "pool_memory mp' = pool_memory mp" "pool_capacity mp' = pool_capacity mp" by (simp_all add: mp')
  have so: "same_outside q (e + s) (mp_mem mp) (mp_mem mp')" using k by (auto simp: mp' same_outside_def copy_bytes_def)
  have co: "core (mp_mem mp) (pool_memory mp) (pool_memory mp + pool_next mp) (mp_stack mp) (gh_size g) (gh_free g) (gh_live g)"
    using r by (simp add: mp_rep_def)
  show "mp_rep mp' g" using core_user [OF co l s so] r by (simp add: mp_rep_def mp')
  show "i < k \<Longrightarrow> mp_mem mp' (q + i) = mp_mem mp (p + i)" by (simp add: mp' copy_bytes_def)
  note tb = take_back [OF co l s]
  have ap: "apart (gh_size g) e (e + s)" using co s entries_apart by (auto simp: core_def)
  have "e \<le> q" using live_block [OF r l] by fastforce
  then have soe: "same_outside e (e + s) (mp_mem mp) (mp_mem mp')" using so by (auto simp: same_outside_def)
  have "keeps_blocks (\<lambda>p. map_option snd (((gh_live g)(q := None)) p)) (mp_mem mp) (mp_mem mp')"
    using loose_keeps_blocks [OF tb(1) soe ap] tb(2) by (simp add: loose_def)
  moreover have "(\<lambda>p. map_option snd (((gh_live g)(q := None)) p)) = (mp_blocks g)(q := None)" by (auto simp: mp_blocks_def)
  ultimately show "keeps_blocks ((mp_blocks g)(q := None)) (mp_mem mp) (mp_mem mp')" by simp
qed

lemma keeps_blocks_less: "keeps_blocks L m m' \<Longrightarrow> (\<And>p n. L' p = Some n \<Longrightarrow> L p = Some n) \<Longrightarrow> keeps_blocks L' m m'"
  unfolding keeps_blocks_def by blast

lemma keeps_blocksD: "keeps_blocks L m m' \<Longrightarrow> L p = Some n \<Longrightarrow> i < n \<Longrightarrow> m' (p + i) = m (p + i)"
  unfolding keeps_blocks_def by (metis le_add1 nat_add_left_cancel_less)

text \<open>The cases of a successful reallocation of a block that is in use.\<close>

lemma realloc_cases:
  assumes r: "mp_rep mp g" and l: "gh_live g p = Some (e, n0)" and s: "gh_size g e = Some s"
    and n: "n \<le> 2 ^ 63" and a: "lotto_mempool_realloc mp p n = Inr (q, mp')"
  obtains (fits) "p + n \<le> e + s" and "q = p" and "mp' = mp"
    | (moves) mp1 mp2 where "s < p - e + n" and "lotto_mempool_alloc mp n = Inr (q, mp1)" and "IN_POOL mp1 p"
      and "copy_block mp1 q p (if ld (mp_mem mp1) (e + 8) - 32 < n + 32 then ld (mp_mem mp1) (e + 8) - 32 else n) = Inr mp2"
      and "lotto_mempool_free mp2 p = Inr mp'"
proof -
  obtain t where t: "gh_size g e = Some t" "t \<in> set sizes" "e + 32 \<le> p" "p + n0 \<le> e + t"
    "pool_memory mp \<le> e" "e + t \<le> pool_memory mp + pool_next mp" "ld (mp_mem mp) (e + 8) = t"
    "GET_ENTRY_PTR mp p = e" "GET_CANARY mp p = LOTTO_MEMPOOL_CANARY" by (rule live_block [OF r l])
  have [simp]: "t = s" using t(1) s by simp
  have md: "METADATA_SIZE = 32" by (simp add: METADATA_SIZE_def)
  have lt: "n + 32 < 2 ^ 64" "p - e + n < 2 ^ 64" using n t(4) sizes_bounds [OF t(2)] by auto
  then have mo: "(n + 32) mod 2 ^ 64 = n + 32" "(p - e + n) mod 2 ^ 64 = p - e + n" by (simp_all only: mod_less)
  have p0: "p \<noteq> 0" using t(3) by simp
  have eq: "lotto_mempool_realloc mp p n = assertr (IN_POOL mp p)
      (if p - e + n \<le> s then Inr (p, mp)
       else bindr (lotto_mempool_alloc mp n) (\<lambda>(ptr, mp).
           if ptr = 0 then bindr (lotto_mempool_free mp p) (\<lambda>mp. Inr (ptr, mp))
           else assertr (IN_POOL mp p) (assertr (GET_CANARY mp p = LOTTO_MEMPOOL_CANARY)
             (bindr (copy_block mp ptr p (if ld (mp_mem mp) (e + 8) - 32 < n + 32 then ld (mp_mem mp) (e + 8) - 32 else n)) (\<lambda>mp.
                bindr (lotto_mempool_free mp p) (\<lambda>mp. Inr (ptr, mp)))))))"
    unfolding lotto_mempool_realloc_def Let_def t(8,9) md t(7) mo \<open>t = s\<close>
    by (simp only: p0 if_False assertr_True simp_thms)
  show thesis
  proof (cases "p - e + n \<le> s")
    case True
    then have "q = p" "mp' = mp" using a unfolding eq by (simp_all add: assertr_eq_Inr)
    then show thesis using fits True t(3) by simp
  next
    case False
    from a False have "bindr (lotto_mempool_alloc mp n) (\<lambda>(ptr, mp).
           if ptr = 0 then bindr (lotto_mempool_free mp p) (\<lambda>mp. Inr (ptr, mp))
           else assertr (IN_POOL mp p) (assertr (GET_CANARY mp p = LOTTO_MEMPOOL_CANARY)
             (bindr (copy_block mp ptr p (if ld (mp_mem mp) (e + 8) - 32 < n + 32 then ld (mp_mem mp) (e + 8) - 32 else n)) (\<lambda>mp.
                bindr (lotto_mempool_free mp p) (\<lambda>mp. Inr (ptr, mp)))))) = Inr (q, mp')"
      unfolding eq assertr_eq_Inr by (simp only: if_False)
    then obtain ptr mp1 where al: "lotto_mempool_alloc mp n = Inr (ptr, mp1)"
      and k: "(if ptr = 0 then bindr (lotto_mempool_free mp1 p) (\<lambda>mp. Inr (ptr, mp))
           else assertr (IN_POOL mp1 p) (assertr (GET_CANARY mp1 p = LOTTO_MEMPOOL_CANARY)
             (bindr (copy_block mp1 ptr p (if ld (mp_mem mp1) (e + 8) - 32 < n + 32 then ld (mp_mem mp1) (e + 8) - 32 else n)) (\<lambda>mp.
                bindr (lotto_mempool_free mp p) (\<lambda>mp. Inr (ptr, mp)))))) = Inr (q, mp')"
      by (auto simp: bindr_eq_Inr)
    have "n + METADATA_SIZE < 2 ^ 64" using lt by (simp add: md)
    from alloc_spec [OF r this al] have "ptr \<noteq> 0" by (auto simp: alloc_ghost_def)
    with k obtain mp2 where "copy_block mp1 ptr p (if ld (mp_mem mp1) (e + 8) - 32 < n + 32 then ld (mp_mem mp1) (e + 8) - 32 else n) = Inr mp2"
      "IN_POOL mp1 p" "lotto_mempool_free mp2 p = Inr mp'" "q = ptr" by (auto simp: assertr_eq_Inr bindr_eq_Inr)
    then show thesis using moves False al by simp
  qed
qed


lemma realloc_inv:
  assumes inv: "mp_inv mp L" and L: "L p = Some n0" and n: "n \<le> 2 ^ 63" and a: "lotto_mempool_realloc mp p n = Inr (q, mp')"
  shows "mp_inv mp' (L(p := None, q \<mapsto> n)) \<and> (q = p \<or> q \<notin> dom L)
    \<and> keeps_blocks (L(p := None)) (mp_mem mp) (mp_mem mp')
    \<and> (\<forall>i<min n0 n. mp_mem mp' (q + i) = mp_mem mp (p + i))"
proof -
  obtain g where g: "mp_rep mp g" "L = mp_blocks g" using inv by (auto simp: mp_inv_def mp_blocks_def)
  then obtain e where l: "gh_live g p = Some (e, n0)" using L by (auto simp: mp_blocks_def)
  obtain s where s: "gh_size g e = Some s" "s \<in> set sizes" "e + 32 \<le> p" "p + n0 \<le> e + s" by (rule live_block [OF g(1) l])
  from g(1) l s(1) n a show ?thesis
  proof (cases rule: realloc_cases)
    case fits
    have "mp_blocks (g\<lparr>gh_live := (gh_live g)(p \<mapsto> (e, n))\<rparr>) = L(p \<mapsto> n)"
      using blocks_upd(1) [of "g\<lparr>gh_live := (gh_live g)(p \<mapsto> (e, n))\<rparr>" g p e n] g(2) by simp
    then have "mp_inv mp (L(p \<mapsto> n))" using mp_inv_blocks [OF resize_block [OF g(1) l s(1) fits(1)]] by simp
    then show ?thesis using fits by (simp add: keeps_blocks_def)
  next
    case (moves mp1 mp2)
    have n64: "n + METADATA_SIZE < 2 ^ 64" using n by (simp add: METADATA_SIZE_def)
    obtain g1 e1 where g1: "mp_rep mp1 g1" "alloc_ghost q e1 n g g1" "keeps_blocks L (mp_mem mp) (mp_mem mp1)"
      using alloc_spec [OF g(1) n64 moves(2)] g(2) unfolding mp_blocks_def by blast
    then obtain s1 where s1: "gh_size g1 e1 = Some s1" "n + 32 \<le> s1" "q = e1 + 32" "gh_live g1 = (gh_live g)(q \<mapsto> (e1, n))"
      "q \<notin> dom (gh_live g)" "gh_size g1 e = Some s" using s(1) by (auto simp: alloc_ghost_def)
    have pq: "p \<noteq> q" using l s1(5) by auto
    have lp: "gh_live g1 p = Some (e, n0)" and lq: "gh_live g1 q = Some (e1, n)" using s1(4) l pq by auto
    have "ld (mp_mem mp1) (e + 8) = s" using live_block [OF g1(1) lp] s1(6) by (metis option.inject)
    note cp = moves(4) [unfolded this]
    let ?k = "if s - 32 < n + 32 then s - 32 else n"
    have "s1 \<in> set sizes" by (rule live_block [OF g1(1) lq]) (use s1(1) in simp)
    then have "s - 32 < n + 32 \<Longrightarrow> s \<le> s1" using sizes_gap [OF s(2)] s1(2) by simp
    then have k: "q + ?k \<le> e1 + s1" using s1(2,3) sizes_bounds [OF s(2)] by auto
    note c = copy_spec [OF g1(1) lq s1(1) k cp]
    have "IN_POOL mp2 p" using moves(3) c(4,5) by (simp add: IN_POOL_def)
    from free_spec [OF c(1) lp this] obtain g2 where g2: "mp_rep mp' g2" "gh_live g2 = (gh_live g1)(p := None)"
      "keeps_blocks (mp_blocks g1) (mp_mem mp2) (mp_mem mp')" unfolding mp_blocks_def using moves(5) by (metis sum.inject(2))
    have b1: "mp_blocks g1 = L(q \<mapsto> n)" using blocks_upd(1) [OF s1(4)] g(2) by simp
    have "mp_blocks g2 = L(p := None, q \<mapsto> n)" using blocks_upd(2) [OF g2(2)] b1 pq by (simp add: fun_upd_twist)
    then have "mp_inv mp' (L(p := None, q \<mapsto> n))" using mp_inv_blocks [OF g2(1)] by simp
    moreover have "q \<notin> dom L" using s1(5) g(2) by (auto simp: mp_blocks_def)
    moreover have "keeps_blocks (L(p := None)) (mp_mem mp) (mp_mem mp')"
    proof (rule keeps_blocks_trans [OF keeps_blocks_trans])
      show "keeps_blocks (L(p := None)) (mp_mem mp) (mp_mem mp1)"
        by (rule keeps_blocks_less [OF g1(3)]) (simp split: if_splits)
      show "keeps_blocks (L(p := None)) (mp_mem mp1) (mp_mem mp2)"
        by (rule keeps_blocks_less [OF c(2)]) (use b1 \<open>q \<notin> dom L\<close> in \<open>auto split: if_splits\<close>)
      show "keeps_blocks (L(p := None)) (mp_mem mp2) (mp_mem mp')"
        by (rule keeps_blocks_less [OF g2(3)]) (use b1 \<open>q \<notin> dom L\<close> in \<open>auto split: if_splits\<close>)
    qed
    moreover have "mp_mem mp' (q + i) = mp_mem mp (p + i)" if i: "i < min n0 n" for i
    proof -
      have "mp_mem mp' (q + i) = mp_mem mp2 (q + i)" using keeps_blocksD [OF g2(3)] b1 i by simp
      also have "\<dots> = mp_mem mp1 (p + i)" using s(3,4) i by (intro c(3)) auto
      also have "\<dots> = mp_mem mp (p + i)" using keeps_blocksD [OF g1(3) L] i by simp
      finally show ?thesis .
    qed
    ultimately show ?thesis by blast
  qed
qed


section \<open>Runs of a program\<close>

text \<open>
  A program asks for blocks, gives them back, and writes into its own blocks and into memory outside of the pool.
  The bound on the sizes excludes the requests that wrap around, which are treated below.
\<close>

inductive mp_step :: "lotto_mempool \<times> (nat \<rightharpoonup> nat) \<Rightarrow> lotto_mempool \<times> (nat \<rightharpoonup> nat) \<Rightarrow> bool" where
  Alloc: "lotto_mempool_alloc mp n = Inr (p, mp') \<Longrightarrow> n \<le> 2 ^ 63 \<Longrightarrow> mp_step (mp, L) (mp', L(p \<mapsto> n))"
| Aligned: "lotto_mempool_aligned_alloc mp a n = Inr (p, mp') \<Longrightarrow> 0 < a \<Longrightarrow> a \<le> 2 ^ 62 \<Longrightarrow> n \<le> 2 ^ 62 \<Longrightarrow>
    mp_step (mp, L) (mp', L(p \<mapsto> n))"
| Free: "L p = Some n \<Longrightarrow> lotto_mempool_free mp p = Inr mp' \<Longrightarrow> mp_step (mp, L) (mp', L(p := None))"
| Realloc: "L p = Some k \<Longrightarrow> lotto_mempool_realloc mp p n = Inr (q, mp') \<Longrightarrow> n \<le> 2 ^ 63 \<Longrightarrow>
    mp_step (mp, L) (mp', L(p := None, q \<mapsto> n))"
| Write: "L p = Some n \<Longrightarrow> p \<le> x \<Longrightarrow> x < p + n \<Longrightarrow>
    mp_step (mp, L) (mp\<lparr>mp_mem := (mp_mem mp)(x := v)\<rparr>, L)"
| Other: "\<not> IN_POOL mp x \<Longrightarrow> mp_step (mp, L) (mp\<lparr>mp_mem := (mp_mem mp)(x := v)\<rparr>, L)"

lemma ld_cong: "(\<And>x. a \<le> x \<Longrightarrow> x < a + 8 \<Longrightarrow> m' x = m x) \<Longrightarrow> ld m' a = ld m a"
  unfolding ld_def by (rule ldn_cong) auto

lemma outside_rep:
  assumes r: "mp_rep mp g" and x: "\<not> IN_POOL mp x"
  shows "mp_rep (mp\<lparr>mp_mem := (mp_mem mp)(x := v)\<rparr>) g"
proof -
  let ?m = "mp_mem mp" and ?m' = "(mp_mem mp)(x := v)"
  have c: "core ?m (pool_memory mp) (pool_memory mp + pool_next mp) (mp_stack mp) (gh_size g) (gh_free g) (gh_live g)"
    and cap: "pool_next mp \<le> pool_capacity mp" using r by (simp_all add: mp_rep_def)
  have inside: "ld ?m' a = ld ?m a" if "pool_memory mp \<le> a" "a + 8 \<le> pool_memory mp + pool_next mp" for a
    using x that cap by (intro ld_cong) (auto simp: IN_POOL_def)
  have e: "pool_memory mp \<le> e \<and> e + s \<le> pool_memory mp + pool_next mp \<and> 32 \<le> s" if "gh_size g e = Some s" for e s
    using c that sizes_bounds [of s] by (auto simp: core_def entries_ok_def)
  have hdr: "ld ?m' (e + 8) = s" if es: "gh_size g e = Some s" for e s
  proof -
    have "ld ?m' (e + 8) = ld ?m (e + 8)" using e [OF es] by (intro inside) auto
    also have "\<dots> = s" using c es by (simp add: core_def entries_ok_def)
    finally show ?thesis .
  qed
  have eo: "entries_ok ?m' (pool_memory mp) (pool_memory mp + pool_next mp) (gh_size g)"
    using c hdr unfolding core_def entries_ok_def by blast
  moreover have "chain ?m' (mp_stack mp ! b) (gh_free g b)" if b: "b < NSTACKS" for b
  proof (rule chain_frame)
    show "chain ?m (mp_stack mp ! b) (gh_free g b)" using c b by (simp add: core_def stacks_ok_def)
    fix y assume "y \<in> set (gh_free g b)"
    then have "gh_size g y = Some (sizes ! b)" using c b by (simp add: core_def stacks_ok_def)
    from e [OF this] show "ld ?m' y = ld ?m y" by (intro inside) auto
  qed
  then have "stacks_ok ?m' (mp_stack mp) (gh_size g) (gh_free g)" using c by (simp add: core_def stacks_ok_def)
  moreover have "block_ok ?m' (gh_size g) (gh_free g) p e n" if "gh_live g p = Some (e, n)" for p e n
  proof -
    have b: "block_ok ?m (gh_size g) (gh_free g) p e n" using c that by (simp add: core_def live_ok_def)
    then obtain s where s: "gh_size g e = Some s" "e + 32 \<le> p" "p + n \<le> e + s" by (auto simp: block_ok_def)
    have "ld ?m' (p - 16) = ld ?m (p - 16)" "ld ?m' (p - 8) = ld ?m (p - 8)"
      using s e [OF s(1)] by (auto intro!: inside)
    then show ?thesis using b by (simp add: block_ok_def)
  qed
  then have "live_ok ?m' (gh_size g) (gh_free g) (gh_live g)" using c by (simp add: core_def live_ok_def)
  ultimately show ?thesis using r by (simp add: mp_rep_def core_def)
qed

lemma write_inv:
  assumes inv: "mp_inv mp L" and p: "L p = Some n" "p \<le> x" "x < p + n"
  shows "mp_inv (mp\<lparr>mp_mem := (mp_mem mp)(x := v)\<rparr>) L"
proof -
  obtain g where g: "mp_rep mp g" "L = mp_blocks g" using inv by (auto simp: mp_inv_def mp_blocks_def)
  then obtain e where l: "gh_live g p = Some (e, n)" using p(1) by (auto simp: mp_blocks_def)
  obtain s where s: "gh_size g e = Some s" "e + 32 \<le> p" "p + n \<le> e + s" by (rule live_block [OF g(1) l])
  have c: "core (mp_mem mp) (pool_memory mp) (pool_memory mp + pool_next mp) (mp_stack mp) (gh_size g) (gh_free g) (gh_live g)"
    using g(1) by (simp add: mp_rep_def)
  have "same_outside p (e + s) (mp_mem mp) ((mp_mem mp)(x := v))" using p s by (auto simp: same_outside_def)
  from core_user [OF c l s(1) this] have "mp_rep (mp\<lparr>mp_mem := (mp_mem mp)(x := v)\<rparr>) g"
    using g(1) by (simp add: mp_rep_def)
  then show ?thesis using mp_inv_blocks g(2) by simp
qed

text \<open>A block that is not empty lies in the pool, so that the check of a release accepts it.\<close>

lemma block_in_pool:
  assumes inv: "mp_inv mp L" and p: "L p = Some n"
  shows "pool_memory mp < p" and "p + n \<le> pool_memory mp + pool_capacity mp" and "0 < n \<Longrightarrow> IN_POOL mp p"
proof -
  obtain g where g: "mp_rep mp g" "L = mp_blocks g" using inv by (auto simp: mp_inv_def mp_blocks_def)
  then obtain e where l: "gh_live g p = Some (e, n)" using p by (auto simp: mp_blocks_def)
  obtain s where "gh_size g e = Some s" "e + 32 \<le> p" "p + n \<le> e + s" "pool_memory mp \<le> e"
    "e + s \<le> pool_memory mp + pool_next mp" by (rule live_block [OF g(1) l])
  moreover have "pool_next mp \<le> pool_capacity mp" using g(1) by (simp add: mp_rep_def)
  ultimately show "pool_memory mp < p" "p + n \<le> pool_memory mp + pool_capacity mp" "0 < n \<Longrightarrow> IN_POOL mp p"
    by (auto simp: IN_POOL_def)
qed

lemma blocks_disjoint:
  assumes inv: "mp_inv mp L" and p: "L p = Some n" and q: "L q = Some k" and ne: "p \<noteq> q"
  shows "p + n \<le> q \<or> q + k \<le> p"
proof -
  obtain g where g: "mp_rep mp g" "L = mp_blocks g" using inv by (auto simp: mp_inv_def mp_blocks_def)
  then obtain e e' where l: "gh_live g p = Some (e, n)" "gh_live g q = Some (e', k)" using p q by (auto simp: mp_blocks_def)
  obtain s where s: "gh_size g e = Some s" "e + 32 \<le> p" "p + n \<le> e + s" by (rule live_block [OF g(1) l(1)])
  obtain t where t: "gh_size g e' = Some t" "e' + 32 \<le> q" "q + k \<le> e' + t" by (rule live_block [OF g(1) l(2)])
  have "e \<noteq> e'" using g(1) l ne unfolding mp_rep_def core_def live_ok_def by blast
  then have "e + s \<le> e' \<or> e' + t \<le> e" using g(1) s(1) t(1) unfolding mp_rep_def core_def entries_ok_def by blast
  then show ?thesis using s t by auto
qed

lemma free_in_pool: "lotto_mempool_free mp p = Inr mp' \<Longrightarrow> p \<noteq> 0 \<Longrightarrow> IN_POOL mp p"
  by (simp add: lotto_mempool_free_def assertr_eq_Inr)

lemma mp_step_inv:
  assumes "mp_step (mp, L) (mp', L')" and inv: "mp_inv mp L"
  shows "mp_inv mp' L'"
  using assms(1)
proof (cases rule: mp_step.cases)
  case (Alloc n p)
  then show ?thesis using alloc_inv [of mp L n p mp'] inv by (simp add: METADATA_SIZE_def)
next
  case (Aligned a n p)
  then show ?thesis using aligned_alloc_inv [of mp L n a p mp'] inv by (simp add: METADATA_SIZE_def)
next
  case (Free p n)
  then have f: "L p = Some n" "lotto_mempool_free mp p = Inr mp'" "L' = L(p := None)" by auto
  have "p \<noteq> 0" using block_in_pool(1) [OF inv f(1)] by simp
  then show ?thesis using free_inv [OF inv f(1) free_in_pool [OF f(2)]] f by auto
next
  case (Realloc p k n q)
  then show ?thesis using realloc_inv [of mp L p k n q mp'] inv by auto
next
  case (Write p n x v)
  then show ?thesis using write_inv [OF inv, of p n x v] by auto
next
  case (Other x v)
  then show ?thesis using inv outside_rep [of mp _ x v] unfolding mp_inv_def by auto
qed


lemma init_static_inv:
  assumes "lotto_mempool_init_static m a pool cap = Inr mp" and "pool + cap < 2 ^ 64"
  shows "mp_inv mp Map.empty"
proof -
  have mp: "mp = \<lparr>mp_allocated = 0, pool_capacity = cap, pool_next = 0, pool_memory = pool,
      mp_stack = replicate NSTACKS 0, mp_mem = m\<rparr>" and "pool \<noteq> 0"
    using assms(1) by (auto simp: lotto_mempool_init_static_def assertr_eq_Inr)
  then have "mp_rep mp \<lparr>gh_size = Map.empty, gh_free = (\<lambda>b. []), gh_live = Map.empty\<rparr>"
    using assms(2) by (simp add: mp_rep_def core_def entries_ok_def stacks_ok_def live_ok_def used_bytes_def)
  then show ?thesis by (auto simp: mp_inv_def)
qed

lemma mp_steps_inv:
  assumes "mp_step\<^sup>*\<^sup>* (mp, L) (mp', L')" and "mp_inv mp L"
  shows "mp_inv mp' L'"
  using assms by (induction rule: rtranclp_induct2) (auto dest: mp_step_inv)

lemma pool_unchanged:
  assumes "lotto_mempool_alloc mp n = Inr (p, mp')"
  shows "pool_memory mp' = pool_memory mp \<and> pool_capacity mp' = pool_capacity mp"
  using assms by (auto simp: lotto_mempool_alloc_def Let_def result_elims set_entry_ptr_def split: if_splits)

lemma pool_unchanged_step:
  assumes "mp_step (mp, L) (mp', L')"
  shows "pool_memory mp' = pool_memory mp \<and> pool_capacity mp' = pool_capacity mp"
  using assms
proof (cases rule: mp_step.cases)
  case (Alloc n p)
  then show ?thesis using pool_unchanged by blast
next
  case (Aligned a n p)
  then show ?thesis
    by (auto simp: lotto_mempool_aligned_alloc_def Let_def result_elims set_entry_ptr_def split: if_splits dest!: pool_unchanged)
next
  case (Free p n)
  then show ?thesis by (auto simp: lotto_mempool_free_def Let_def result_elims split: if_splits)
next
  case (Realloc p k n q)
  then show ?thesis
    by (auto simp: lotto_mempool_realloc_def lotto_mempool_free_def copy_block_def Let_def result_elims
        split: if_splits dest!: pool_unchanged)
qed auto

lemma pool_unchanged_steps:
  assumes "mp_step\<^sup>*\<^sup>* (mp, L) (mp', L')"
  shows "pool_memory mp' = pool_memory mp \<and> pool_capacity mp' = pool_capacity mp"
  using assms by (induction rule: rtranclp_induct2) (auto dest: pool_unchanged_step)

text \<open>
  Claim C30. In every run of a program on a pool, whatever the program writes into its blocks, the blocks in use lie inside
  the memory of the pool and do not overlap, every block that is not empty can be given back without a failed
  assertion, and the counter of allocated bytes is 0 when no block is in use.
\<close>

theorem mempool_blocks_safe:
  assumes "lotto_mempool_init_static m a pool cap = Inr mp0" and "pool + cap < 2 ^ 64"
    and "mp_step\<^sup>*\<^sup>* (mp0, Map.empty) (mp, L)"
  shows "(\<forall>p n. L p = Some n \<longrightarrow> pool < p \<and> p + n \<le> pool + cap)
    \<and> (\<forall>p n q k. L p = Some n \<and> L q = Some k \<and> p \<noteq> q \<longrightarrow> p + n \<le> q \<or> q + k \<le> p)
    \<and> (\<forall>p n. L p = Some n \<and> 0 < n \<longrightarrow> (\<exists>mp'. lotto_mempool_free mp p = Inr mp'))
    \<and> (L = Map.empty \<longrightarrow> mp_allocated mp = 0)"
proof -
  have inv: "mp_inv mp L" by (rule mp_steps_inv [OF assms(3) init_static_inv [OF assms(1,2)]])
  have pool: "pool_memory mp = pool" "pool_capacity mp = cap"
    using pool_unchanged_steps [OF assms(3)] assms(1) by (auto simp: lotto_mempool_init_static_def assertr_eq_Inr)
  have "mp_allocated mp = 0" if "L = Map.empty"
  proof -
    obtain g where g: "mp_rep mp g" "L = mp_blocks g" using inv by (auto simp: mp_inv_def mp_blocks_def)
    have "gh_live g = Map.empty" using that g(2) by (metis mp_blocks_def map_option_is_None)
    then show ?thesis using g(1) by (simp add: mp_rep_def used_bytes_def)
  qed
  then show ?thesis
    using block_in_pool [OF inv] blocks_disjoint [OF inv] free_inv [OF inv] unfolding pool by blast
qed

text \<open>
  Claim C31. A call of the pool keeps the contents of all blocks in use. An aligned allocation returns an aligned address, and
  a reallocation keeps as many bytes of the block as the old and the new size have in common.
\<close>

theorem mempool_keeps_contents:
  assumes "mp_inv mp L"
  shows "(\<forall>n p mp'. lotto_mempool_alloc mp n = Inr (p, mp') \<and> n \<le> 2 ^ 63 \<longrightarrow>
        mp_inv mp' (L(p \<mapsto> n)) \<and> p \<notin> dom L \<and> keeps_blocks L (mp_mem mp) (mp_mem mp'))
    \<and> (\<forall>al n p mp'. lotto_mempool_aligned_alloc mp al n = Inr (p, mp') \<and> 0 < al \<and> al \<le> 2 ^ 62 \<and> n \<le> 2 ^ 62 \<longrightarrow>
        mp_inv mp' (L(p \<mapsto> n)) \<and> p \<notin> dom L \<and> keeps_blocks L (mp_mem mp) (mp_mem mp') \<and> al dvd p)
    \<and> (\<forall>p n. L p = Some n \<and> IN_POOL mp p \<longrightarrow> (\<exists>mp'. lotto_mempool_free mp p = Inr mp'
        \<and> mp_inv mp' (L(p := None)) \<and> keeps_blocks L (mp_mem mp) (mp_mem mp')))
    \<and> (\<forall>p k n q mp'. L p = Some k \<and> lotto_mempool_realloc mp p n = Inr (q, mp') \<and> n \<le> 2 ^ 63 \<longrightarrow>
        mp_inv mp' (L(p := None, q \<mapsto> n)) \<and> (q = p \<or> q \<notin> dom L)
        \<and> keeps_blocks (L(p := None)) (mp_mem mp) (mp_mem mp')
        \<and> (\<forall>i<min k n. mp_mem mp' (q + i) = mp_mem mp (p + i)))"
proof -
  have "n + METADATA_SIZE < 2 ^ 64" if "n \<le> 2 ^ 63" for n using that by (simp add: METADATA_SIZE_def)
  moreover have "n + al + METADATA_SIZE \<le> 2 ^ 64" if "al \<le> 2 ^ 62" "n \<le> 2 ^ 62" for al n
    using that by (simp add: METADATA_SIZE_def)
  ultimately show ?thesis
  proof (intro conjI, goal_cases)
    case 1 then show ?case using alloc_inv [OF assms] by blast
  next
    case 2 then show ?case using aligned_alloc_inv [OF assms] by blast
  next
    case 3 show ?case using free_inv [OF assms] by blast
  next
    case 4 show ?case using realloc_inv [OF assms] by blast
  qed
qed

text \<open>A pool with one block of 100 bytes in use.\<close>

lemma sample_block:
  obtains mp p where "mp_inv mp [p \<mapsto> 100]" and "IN_POOL mp p"
proof -
  have "\<exists>mp. lotto_mempool_init_static (\<lambda>x. 0) 8 4096 65536 = Inr mp" by (simp add: lotto_mempool_init_static_def)
  then obtain mp0 where i: "lotto_mempool_init_static (\<lambda>x. 0) 8 4096 65536 = Inr mp0" by blast
  then have mp0: "mp0 = \<lparr>mp_allocated = 0, pool_capacity = 65536, pool_next = 0, pool_memory = 4096,
      mp_stack = replicate NSTACKS 0, mp_mem = \<lambda>x. 0\<rparr>" by (simp add: lotto_mempool_init_static_def)
  have inv: "mp_inv mp0 Map.empty" using init_static_inv [OF i] by simp
  have "sizes_at (bucketize 132) = Inr 256"
    by (simp add: bucketize_def bucketize_loop.simps [of 0] bucketize_loop.simps [of "Suc 0"] bucketize_loop.simps [of "Suc (Suc 0)"]
        sizes_def sizes_at_def NSTACKS_def)
  then have "\<exists>p mp. lotto_mempool_alloc mp0 100 = Inr (p, mp)" by (simp add: lotto_mempool_alloc_def METADATA_SIZE_def Let_def mp0)
  then obtain p mp where a: "lotto_mempool_alloc mp0 100 = Inr (p, mp)" by blast
  have "mp_inv mp [p \<mapsto> 100]" using alloc_inv [OF inv _ a] by (simp add: METADATA_SIZE_def)
  moreover from block_in_pool(3) [OF this, of p 100] have "IN_POOL mp p" by simp
  ultimately show thesis by (rule that)
qed

theorem mempool_keeps_contents_witness:
  "\<exists>mp p. mp_inv mp [p \<mapsto> 100] \<and> (\<exists>mp'. lotto_mempool_free mp p = Inr mp' \<and> mp_inv mp' Map.empty) \<and>
     (\<forall>q mp'. lotto_mempool_realloc mp p 1000 = Inr (q, mp') \<longrightarrow> (\<forall>i<100. mp_mem mp' (q + i) = mp_mem mp (p + i)))"
proof -
  obtain mp p where b: "mp_inv mp [p \<mapsto> 100]" "IN_POOL mp p" by (rule sample_block)
  let ?L = "[p \<mapsto> 100 :: nat]"
  have e: "?L(p := None) = Map.empty" by (simp add: fun_eq_iff)
  from mempool_keeps_contents [OF b(1)] have c: "\<And>p' n. ?L p' = Some n \<and> IN_POOL mp p' \<Longrightarrow> \<exists>mp'. lotto_mempool_free mp p' = Inr mp' \<and>
      mp_inv mp' (?L(p' := None)) \<and> keeps_blocks ?L (mp_mem mp) (mp_mem mp')"
    and d: "\<And>p' k n q mp'. ?L p' = Some k \<and> lotto_mempool_realloc mp p' n = Inr (q, mp') \<and> n \<le> 2 ^ 63 \<Longrightarrow>
      (\<forall>i<min k n. mp_mem mp' (q + i) = mp_mem mp (p' + i))" by blast+
  have "\<exists>mp'. lotto_mempool_free mp p = Inr mp' \<and> mp_inv mp' Map.empty" using c [of p 100] b(2) e by auto
  moreover have "\<forall>i<100. mp_mem mp' (q + i) = mp_mem mp (p + i)" if "lotto_mempool_realloc mp p 1000 = Inr (q, mp')" for q mp'
    using d [of p 100 1000 q mp'] that by simp
  ultimately show ?thesis using b(1) by blast
qed

text \<open>A fresh pool with room for one entry, and the first request to it.\<close>

lemma bucketize_small: "sz \<le> 32 \<Longrightarrow> bucketize sz = 0"
  by (simp add: bucketize_def bucketize_loop.simps [of 0] sizes_def)

lemma alloc_fresh:
  assumes "lotto_mempool_init_static m a pool cap = Inr mp" and "32 \<le> cap"
  shows "\<exists>mp'. lotto_mempool_alloc mp 0 = Inr (pool + 32, mp')"
proof -
  have "mp = \<lparr>mp_allocated = 0, pool_capacity = cap, pool_next = 0, pool_memory = pool,
      mp_stack = replicate NSTACKS 0, mp_mem = m\<rparr>"
    using assms(1) by (auto simp: lotto_mempool_init_static_def assertr_eq_Inr)
  moreover have "sizes_at (bucketize 32) = Inr 32" by (simp add: bucketize_size sizes_def)
  ultimately show ?thesis using assms(2) bucketize_small [of 32]
    by (simp add: lotto_mempool_alloc_def METADATA_SIZE_def Let_def NSTACKS_def)
qed

theorem mempool_blocks_safe_witness:
  "\<exists>mp0 mp L. lotto_mempool_init_static (\<lambda>x. 0) 8 4096 65536 = Inr mp0 \<and> mp_step\<^sup>*\<^sup>* (mp0, Map.empty) (mp, L)
     \<and> L = [4128 \<mapsto> 0] \<and> (\<forall>p n. L p = Some n \<longrightarrow> 4096 < p \<and> p + n \<le> 4096 + 65536)"
proof -
  have "\<exists>mp. lotto_mempool_init_static (\<lambda>x. 0) 8 4096 65536 = Inr mp" by (simp add: lotto_mempool_init_static_def)
  then obtain mp0 where mp0: "lotto_mempool_init_static (\<lambda>x. 0) 8 4096 65536 = Inr mp0" by blast
  then obtain mp where "lotto_mempool_alloc mp0 0 = Inr (4128, mp)" using alloc_fresh [OF mp0] by auto
  then have st: "mp_step\<^sup>*\<^sup>* (mp0, Map.empty) (mp, [4128 \<mapsto> 0])" using mp_step.Alloc by blast
  show ?thesis using mp0 st mempool_blocks_safe [OF mp0 _ st] by auto
qed

text \<open>
  Claim C32. The limits of the pool. A request that fits a size and the rest of the pool is served. A request above the largest
  size reads the table of sizes out of its bounds. A request within 32 bytes of the largest number wraps around and is
  served like a request for 0 bytes. A block of 0 bytes at the end of the pool cannot be given back: the check whether
  the pointer is in the pool fails.
\<close>

theorem mempool_limits:
  shows "(\<forall>mp n s. sizes_at (bucketize (n + 32)) = Inr s \<and> n + 32 < 2 ^ 64 \<and> pool_next mp + s \<le> pool_capacity mp \<longrightarrow>
        (\<exists>p mp'. lotto_mempool_alloc mp n = Inr (p, mp')))
    \<and> (\<forall>mp n. 8 * 1024 * 1024 < n + 32 \<and> n + 32 < 2 ^ 64 \<longrightarrow> lotto_mempool_alloc mp n = Inl Fault)
    \<and> (\<forall>mp n. 2 ^ 64 - 32 \<le> n \<and> n < 2 ^ 64 \<longrightarrow> lotto_mempool_alloc mp n = lotto_mempool_alloc mp 0)
    \<and> (\<forall>m a pool mp. lotto_mempool_init_static m a pool 32 = Inr mp \<longrightarrow>
        (\<exists>mp'. lotto_mempool_alloc mp 0 = Inr (pool + 32, mp') \<and> lotto_mempool_free mp' (pool + 32) = Inl AssertFailed))"
proof (intro conjI allI impI)
  have md: "METADATA_SIZE = 32" by (simp add: METADATA_SIZE_def)
  fix mp :: lotto_mempool and n s :: nat
  assume a: "sizes_at (bucketize (n + 32)) = Inr s \<and> n + 32 < 2 ^ 64 \<and> pool_next mp + s \<le> pool_capacity mp"
  then have "(n + METADATA_SIZE) mod 2 ^ 64 = n + 32" by (simp add: md)
  then show "\<exists>p mp'. lotto_mempool_alloc mp n = Inr (p, mp')" using a unfolding lotto_mempool_alloc_def by (simp add: Let_def)
next
  fix mp :: lotto_mempool and n :: nat
  assume a: "8 * 1024 * 1024 < n + 32 \<and> n + 32 < 2 ^ 64"
  have "sizes_at (bucketize (n + 32)) = Inl Fault"
  proof (rule ccontr)
    assume "sizes_at (bucketize (n + 32)) \<noteq> Inl Fault"
    then obtain s where "sizes_at (bucketize (n + 32)) = Inr s" by (auto simp: sizes_at_def split: if_splits)
    from sizes_at_Inr(3,4) [OF this] show False using sizes_bounds a by fastforce
  qed
  moreover have "(n + METADATA_SIZE) mod 2 ^ 64 = n + 32" using a by (simp add: METADATA_SIZE_def)
  ultimately show "lotto_mempool_alloc mp n = Inl Fault" unfolding lotto_mempool_alloc_def by (simp add: Let_def)
next
  fix mp :: lotto_mempool and n :: nat
  assume a: "2 ^ 64 - 32 \<le> n \<and> n < 2 ^ 64"
  define r where "r = n - (2 ^ 64 - 32)"
  have r: "n = 2 ^ 64 - 32 + r" "r < 32" using a by (auto simp: r_def)
  have "n + METADATA_SIZE = r + 2 ^ 64" using r by (simp add: METADATA_SIZE_def)
  then have "(n + METADATA_SIZE) mod 2 ^ 64 = r" using r(2) by simp
  moreover have "(0 + METADATA_SIZE) mod 2 ^ 64 = 32" by (simp add: METADATA_SIZE_def)
  ultimately show "lotto_mempool_alloc mp n = lotto_mempool_alloc mp 0"
    unfolding lotto_mempool_alloc_def using bucketize_small [of r] bucketize_small [of 32] r(2) by simp
next
  fix m a pool mp
  assume i: "lotto_mempool_init_static m a pool 32 = Inr mp"
  then obtain mp' where al: "lotto_mempool_alloc mp 0 = Inr (pool + 32, mp')" using alloc_fresh by blast
  have "pool_memory mp' + pool_capacity mp' = pool + 32"
    using pool_unchanged [OF al] i by (auto simp: lotto_mempool_init_static_def assertr_eq_Inr)
  then have "lotto_mempool_free mp' (pool + 32) = Inl AssertFailed"
    by (simp add: lotto_mempool_free_def IN_POOL_def assertr_def)
  with al show "\<exists>mp'. lotto_mempool_alloc mp 0 = Inr (pool + 32, mp') \<and> lotto_mempool_free mp' (pool + 32) = Inl AssertFailed"
    by blast
qed


theorem mempool_limits_witness:
  "\<exists>mp. lotto_mempool_init_static (\<lambda>x. 0) 8 4096 32 = Inr mp
     \<and> lotto_mempool_alloc mp (2 ^ 64 - 1) = lotto_mempool_alloc mp 0 \<and> lotto_mempool_alloc mp (8 * 1024 * 1024) = Inl Fault
     \<and> (\<exists>mp'. lotto_mempool_alloc mp 0 = Inr (4128, mp') \<and> lotto_mempool_free mp' 4128 = Inl AssertFailed)"
proof -
  have "\<exists>mp. lotto_mempool_init_static (\<lambda>x. 0) 8 4096 32 = Inr mp" by (simp add: lotto_mempool_init_static_def)
  then obtain mp where mp: "lotto_mempool_init_static (\<lambda>x. 0) 8 4096 32 = Inr mp" by blast
  note l = mempool_limits [THEN conjunct2]
  have "lotto_mempool_alloc mp (8 * 1024 * 1024) = Inl Fault" using l [THEN conjunct1, rule_format, of "8 * 1024 * 1024" mp] by simp
  moreover have "lotto_mempool_alloc mp (2 ^ 64 - 1) = lotto_mempool_alloc mp 0"
    using l [THEN conjunct2, THEN conjunct1, rule_format, of "2 ^ 64 - 1" mp] by simp
  moreover have "\<exists>mp'. lotto_mempool_alloc mp 0 = Inr (4128, mp') \<and> lotto_mempool_free mp' 4128 = Inl AssertFailed"
    using l [THEN conjunct2, THEN conjunct2, rule_format, OF mp] by simp
  ultimately show ?thesis using mp by blast
qed

end
