(* ===== verification/Spec2Isabelle.thy ===== *)
theory Spec2Isabelle
  imports Modules Mediator Address_Iterator Mempool_Safety
begin

text \<open>
  \<^bold>\<open>A verification development for Lotto\<close>

  Lotto runs a multi-threaded program under a deterministic scheduler. An intercepted event of a thread is a
  \<^emph>\<open>capture point\<close>; the engine decides which thread (task) continues; the decisions can be recorded in a trace
  and replayed later. This development models the C code of the engine, of the runtime around it, of the modules that
  take part in a decision, and of the containers all of them are built on, and proves what the code promises. File
  names below are relative to the root of the repository.

  \<^bold>\<open>How the program works.\<close> The ingress subscribers of \<^verbatim>\<open>src/runtime/ingress.c\<close> turn an event of the interception
  library into calls of the mediator of the task (\<^verbatim>\<open>src/runtime/mediator.c\<close>). The mediator asks the engine
  (\<^verbatim>\<open>src/engine/engine.c\<close>) for a plan, a set of actions, and carries it out: it wakes another task and blocks its own
  through the switcher (\<^verbatim>\<open>src/runtime/switcher.c\<close>). The engine checks the order of calls and forwards them to the
  sequencer (\<^verbatim>\<open>src/engine/sequencer.c\<close>), which publishes the capture point to the handlers of the modules, picks the
  next task among the candidates they leave, and asks the recorder (\<^verbatim>\<open>src/engine/recorder.c\<close>) to replay or to record
  the decision. The recorder stores records in traces (\<^verbatim>\<open>src/base/trace_*.c\<close>) and the state of the modules with the
  state manager (\<^verbatim>\<open>src/engine/statemgr.c\<close>).

  \<^bold>\<open>Conventions.\<close> A failed \<^verbatim>\<open>ASSERT\<close>, a call of \<^verbatim>\<open>logger_fatalf\<close> and an access outside of an allocation are values of
  the type \<open>error\<close> of \<^verbatim>\<open>Prelude\<close>; an operation that can stop the program returns a \<open>result\<close>, and \<open>Inr\<close> means that
  it returned. State is passed explicitly. Task identifiers, addresses and counters that can wrap around are words;
  the clock, which counts events, and sizes of containers are natural numbers. A loop that need not end by its shape
  is a \<open>partial_function (option)\<close> with \<open>None\<close> for not returning, and a lemma shows that it returns: the search for
  a cycle of mutex owners and of joins, the leap of the clock, the descent into an address tree and its iterator. The
  depth and the number of passes of the search of the deadlock module are bounded by the number of entries of the
  bags of all resources plus one; the lemmas show that this bound is never reached. A plan has nine actions, so nine
  steps suffice to run it.

  \<^bold>\<open>Containers.\<close> \<^verbatim>\<open>Keymap\<close> models \<^verbatim>\<open>src/base/map.c\<close> and \<^verbatim>\<open>tidmap.c\<close>; \<^verbatim>\<open>Tidset\<close> and \<^verbatim>\<open>Tidbag\<close> model \<^verbatim>\<open>tidset.c\<close> and
  \<^verbatim>\<open>tidbag.c\<close> with their buffers, and are interpretations of the contracts of \<^verbatim>\<open>Task_Collection\<close>: every operation keeps
  the buffer invariant and computes its operation on sets and multisets. \<^verbatim>\<open>Address_Bdd\<close> and \<^verbatim>\<open>Address_Iterator\<close> model
  \<^verbatim>\<open>address_bdd.c\<close>, a set of addresses as a tree, its queries, its search under a mask and its iterator. \<^verbatim>\<open>Mempool\<close> and
  \<^verbatim>\<open>Mempool_Safety\<close> model \<^verbatim>\<open>src/sys/mempool.c\<close> on the bytes of the memory: blocks in use never overlap and keep their
  contents. \<^verbatim>\<open>Sorting\<close> states the contract of the C library's \<^verbatim>\<open>qsort\<close>, and \<^verbatim>\<open>Vec\<close> models the growable array
  \<^verbatim>\<open>src/base/vec.c\<close> with its union and its marshalling.

  \<^bold>\<open>Traces and state.\<close> \<^verbatim>\<open>Record_Base\<close> has records, reasons and streams, \<^verbatim>\<open>Trace_Spec\<close> the contract of reading a trace as
  a locale, \<^verbatim>\<open>Trace_Flat\<close> the doubly linked list on the heap and \<^verbatim>\<open>Trace_File\<close> the streaming trace, both interpretations
  of it, and their agreement. \<^verbatim>\<open>Statemgr\<close> models the registration and the marshalling of the state of the modules with
  its round trip. \<^verbatim>\<open>Plan\<close> has plans, the pseudo random numbers and the record granularity. \<^verbatim>\<open>Capture\<close> has the capture
  point and the decision.

  \<^bold>\<open>Engine and runtime.\<close> \<^verbatim>\<open>Recorder\<close> shows that recording and replaying a decision are inverse, that a replay consumes
  the records due at a clock, and that written clocks increase. \<^verbatim>\<open>Sequencer\<close> shows that the
  choice of the next task returns and which tasks it can return. \<^verbatim>\<open>Engine\<close> shows that the clocks of engine, sequencer
  and recorder agree in every reachable state, so that a capture and a resume do exactly what they would do without the
  assertions on the clocks, and that the plan check accepts the sequencer's plans.
  \<^verbatim>\<open>Switcher\<close> is a step relation of the critical sections in which at most one task runs. \<^verbatim>\<open>Mediator\<close> composes mediator,
  engine and switcher and follows an event from capture to resume.

  \<^bold>\<open>Modules.\<close> \<^verbatim>\<open>Handler_Base\<close> states the contract of a handler as two locales: under \<open>candidate_handler\<close> a handler
  keeps the clock and may add given tasks to the candidates, and \<open>capture_handler\<close> is the case in which the candidates
  only shrink. The handler of the timeout module, which releases tasks whose deadline has passed, interprets the first;
  the interpretations of the second are the handlers of \<^verbatim>\<open>modules/*/src/handler.c\<close>: \<^verbatim>\<open>Mutex\<close>,
  \<^verbatim>\<open>Rwlock\<close>, \<^verbatim>\<open>Join\<close> and \<^verbatim>\<open>Deadlock\<close> (locks, joins and the search for deadlocks); \<^verbatim>\<open>Clock\<close>, \<^verbatim>\<open>Timed\<close> and \<^verbatim>\<open>Timeouts\<close> (emulated
  time, condition variables, timeouts and sleep); \<^verbatim>\<open>Poll_Table\<close> and \<^verbatim>\<open>Poll\<close> (waiting for file descriptors: the tables
  with the subscriber of the timeout event, and the handlers with the exact answer of every call); \<^verbatim>\<open>Candidates\<close>
  (yield, watchdog, priority, task velocity, bias);
  \<^verbatim>\<open>Observers\<close> (available, busy loop, terminate, region filter and preemption); \<^verbatim>\<open>Blocking\<close> (blocking and impasse);
  \<^verbatim>\<open>Strategies\<close> (PCT and POS); \<^verbatim>\<open>Ichpt\<close> (stable addresses, instruction change points, memory accesses) and \<^verbatim>\<open>Race\<close>, the
  race detector, which refines a specification that keeps the accesses of every task since its last synchronisation.
  \<^verbatim>\<open>Modules\<close> plugs any chain of them into the sequencer and shows which tasks are candidates after the chain and
  which of them can be the next task.

  \<^bold>\<open>Parameters.\<close> Code that is not part of the repository is a parameter: \<^verbatim>\<open>rand_r\<close>, \<^verbatim>\<open>qsort\<close> (the locale \<open>c_sort\<close> says
  that it returns a permutation in ascending order), the table of mapped files, the \<^verbatim>\<open>poll\<close> system call
  (\<open>poll_ok\<close>: it keeps the descriptors and returns the number of answered ones or -1), the payloads of the events of
  the interception library, the two floating point expressions of the clock (\<open>clock_fp\<close>), the cost of an instruction, the current time, the state other
  tasks leave behind while a task is blocked, and the addresses an allocator returns.

  \<^bold>\<open>Not modelled.\<close> The driver and the command line interface, whose effects are processes and files; the system
  wrappers; start-up, interception and signal handlers, which register functions with the interception library; the
  modules that only translate calls into events or wrap the allocator of the program under test; the emulator and
  debugger modules and the Rust module; log messages and printing; floating point numbers. Spin locks and mutexes of
  the implementation are represented by the atomicity of the critical sections they protect.

  \<^bold>\<open>Findings.\<close> Where the code does not do what it is meant to do, the model follows the code, and a theorem or a lemma
  shows the behaviour: tasks that time out stay in the queue of a condition variable, the deadlock check of the mutex
  module never reports, the limit on preemptions has no effect, a second join of a thread stops the program, a request
  to the memory pool can wrap around, the clean-up of the race detector reads released memory, a
  negative descriptor in a poll fails an assertion, at the call or when a timeout ends the wait, and so does a failing
  system call \<^verbatim>\<open>poll\<close>, and others.
\<close>

end
